(* ===== verification/Prelude.thy ===== *)
theory Prelude
  imports Main "HOL-Library.Word" "HOL-Library.Multiset" "HOL-Library.Product_Lexorder"
begin

unbundle bit_operations_syntax

text \<open>
  Shared vocabulary of the development: machine integers, panics and error results, park
  tokens with their order, association-list maps, the generic compare-exchange loop that
  every lock-free operation of the runtime follows, and the list and word lemmas the
  component theories share.
\<close>

section \<open>Machine integers\<close>

text \<open>
  The runtime supports 64-bit targets only, so \<open>usize\<close> and \<open>u64\<close> are both 64 bits wide.
  Container lengths and indices, which cannot exceed the address space, are \<open>nat\<close>.
\<close>

type_synonym u64 = "64 word"
type_synonym usize = "64 word"

text \<open>Monotonic clock readings, in an arbitrary unit.\<close>

type_synonym instant = nat

definition checked_add :: "u64 \<Rightarrow> u64 \<Rightarrow> u64 option" where
  "checked_add a b = (if unat a + unat b < 2 ^ 64 then Some (a + b) else None)"

definition checked_mul :: "u64 \<Rightarrow> u64 \<Rightarrow> u64 option" where
  "checked_mul a b = (if unat a * unat b < 2 ^ 64 then Some (a * b) else None)"

definition checked_sub :: "u64 \<Rightarrow> u64 \<Rightarrow> u64 option" where
  "checked_sub a b = (if b \<le> a then Some (a - b) else None)"

lemma checked_add_unat: "checked_add a b = Some c \<Longrightarrow> unat c = unat a + unat b"
  by (auto simp: checked_add_def unat_word_ariths split: if_splits)

lemma checked_mul_unat: "checked_mul a b = Some c \<Longrightarrow> unat c = unat a * unat b"
  by (auto simp: checked_mul_def unat_word_ariths split: if_splits)

lemma checked_sub_unat: "checked_sub a b = Some c \<Longrightarrow> unat c = unat a - unat b \<and> unat b \<le> unat a"
  by (auto simp: checked_sub_def word_le_nat_alt unat_sub split: if_splits)

lemma succ_below:
  fixes a b :: u64
  assumes "a < b"
  shows "unat (a + 1) = unat a + 1" "a + 1 \<le> b"
proof -
  have "unat a + 1 < 2 ^ 64" using assms unsigned_less[of b, where ?'a = nat] by (simp add: word_less_nat_alt)
  then show "unat (a + 1) = unat a + 1" by (simp add: unat_word_ariths)
  then show "a + 1 \<le> b" using assms by (simp add: word_less_nat_alt word_le_nat_alt)
qed

lemma pred_positive:
  fixes a :: u64
  assumes "0 < unat a"
  shows "unat (a - 1) + 1 = unat a" "a - 1 \<le> a"
proof -
  have "1 \<le> a" using assms by (simp add: word_le_nat_alt)
  then show *: "unat (a - 1) + 1 = unat a" using assms by (simp add: unat_sub)
  then show "a - 1 \<le> a" by (simp add: word_le_nat_alt)
qed

lemma and_1_odd: "(w :: u64) AND 1 \<noteq> 0 \<longleftrightarrow> odd (unat w)"
proof -
  have "unat (w AND 1) = unat w mod 2"
    by (simp add: and_one_eq unat_mod)
  then show ?thesis
    by (metis mod_2_eq_odd of_bool_eq_0_iff unat_eq_zero)
qed

section \<open>Panics and errors\<close>

text \<open>
  A Rust panic (a failed \<open>assert!\<close>, \<open>expect\<close> or \<open>unreachable!\<close>) is the left summand;
  its message identifies the assertion.
\<close>

datatype panic = Panic string

type_synonym 'a result_p = "panic + 'a"

text \<open>Sequencing of computations that may fail, and a loop of them over a list.\<close>

definition bindp :: "'e + 'a \<Rightarrow> ('a \<Rightarrow> 'e + 'b) \<Rightarrow> 'e + 'b" where
  "bindp r f = (case r of Inl e \<Rightarrow> Inl e | Inr x \<Rightarrow> f x)"

lemma bindp_simps [simp]: "bindp (Inl e) f = Inl e" "bindp (Inr x) f = f x"
  by (simp_all add: bindp_def)

lemma bindp_Inr: "bindp r f = Inr y \<longleftrightarrow> (\<exists>x. r = Inr x \<and> f x = Inr y)"
  by (cases r) simp_all

fun foldp :: "('a \<Rightarrow> 's \<Rightarrow> 'e + 's) \<Rightarrow> 'a list \<Rightarrow> 's \<Rightarrow> 'e + 's" where
  "foldp f [] s = Inr s"
| "foldp f (x # xs) s = bindp (f x s) (foldp f xs)"

text \<open>The resources, configuration fields and components that errors name.\<close>

datatype capacity_resource =
    Tasks | Scopes | CarrierQueue | NativeJobs | TaskLocals | Waiters | Readiness
  | CancellationSubscriptions | Lifecycles

datatype limit_resource = FileBytes | ResolvedAddresses | TaskNameBytes

datatype configuration_field =
    IoCapacity | BlockingThreads | BlockingCapacity | StallPolicyField | MaxVthreads
  | MaxOwnedScopes | Carriers | CarrierQueueCapacity | StackSize | StackCacheCapacity
  | EvidenceCapacity | TaskName | AddressLimit | ChannelCapacity | ChannelWaitCapacity
  | WaitCapacity | PermitsField

datatype fault_component = Scheduler | Native | ReadinessComponent | Lifecycle

text \<open>Why a task was reclaimed without returning (task.rs).\<close>

datatype task_failure =
    FailScopeClosed | FailSupervisorStopped | FailScopeStalled | FailRuntimeStopped | FailCarrier
  | FailStackAllocation

text \<open>
  The public \<open>Error\<close> enum. Variants whose payload is a report of the operating system, of a
  captured panic or of a failed scope or thread carry no payload here.
\<close>

datatype error =
    Io
  | ReadinessFailed
  | BlockingFailed
  | LimitExceeded limit_resource nat
  | BlockingPanicked
  | Closed
  | WouldBlock
  | ResultAlreadyTaken
  | Cancelled
  | DeadlineExceeded
  | RecursiveTaskLocal
  | AllocationFailed limit_resource nat
  | InvalidConfiguration configuration_field string
  | Capacity capacity_resource nat
  | RootScopeActive
  | ScopeClosed
  | RuntimeStopped
  | ScopeFailed
  | ShutdownFailed
  | LifecycleFailed
  | RunFailed
  | ConstructionFailed
  | InsideVThread
  | InsideManagedWorker
  | ThreadStart
  | JoinSelf
  | TaskAborted u64 task_failure
  | OutsideVThread
  | SuspensionDuringPanic
  | ParkerBusy
  | DeadlineOverflow
  | StackAllocation
  | TaskPanicked u64 string
  | RuntimeStalled nat
  | Fault fault_component string

type_synonym 'a result = "error + 'a"

section \<open>Task identities\<close>

type_synonym task_id = u64

text \<open>Identity zero is reserved (\<open>TaskId::new\<close>).\<close>

definition task_id_new :: "u64 \<Rightarrow> task_id result_p" where
  "task_id_new value = (if value = 0 then Inl (Panic ''task identity zero is reserved'') else Inr value)"

section \<open>Park tokens\<close>

text \<open>\<open>ParkToken\<close> derives its order, so it compares the wait identity first.\<close>

datatype park_token = ParkToken (wait_id: u64) (generation: u64)

instantiation park_token :: linorder
begin

definition less_eq_park_token :: "park_token \<Rightarrow> park_token \<Rightarrow> bool" where
  "less_eq_park_token s t \<longleftrightarrow> (wait_id s, generation s) \<le> (wait_id t, generation t)"

definition less_park_token :: "park_token \<Rightarrow> park_token \<Rightarrow> bool" where
  "less_park_token s t \<longleftrightarrow> (wait_id s, generation s) < (wait_id t, generation t)"

instance
  by standard (auto simp: less_eq_park_token_def less_park_token_def intro: park_token.expand)

end

section \<open>Association-list maps\<close>

text \<open>
  Finite maps with executable size: association lists with distinct keys. Insertion
  replaces an existing binding, deletion removes it, as the hash and B-tree maps do.
\<close>

definition kv_get :: "('k \<times> 'v) list \<Rightarrow> 'k \<Rightarrow> 'v option" where
  "kv_get m k = map_of m k"

definition kv_del :: "'k \<Rightarrow> ('k \<times> 'v) list \<Rightarrow> ('k \<times> 'v) list" where
  "kv_del k m = filter (\<lambda>p. fst p \<noteq> k) m"

definition kv_put :: "'k \<Rightarrow> 'v \<Rightarrow> ('k \<times> 'v) list \<Rightarrow> ('k \<times> 'v) list" where
  "kv_put k v m = (k, v) # kv_del k m"

definition kv_keys :: "('k \<times> 'v) list \<Rightarrow> 'k set" where
  "kv_keys m = fst ` set m"

abbreviation kv_wf :: "('k \<times> 'v) list \<Rightarrow> bool" where
  "kv_wf m \<equiv> distinct (map fst m)"

named_theorems kv_simps

lemma kv_get_Nil [simp, kv_simps]: "kv_get [] k = None"
  by (simp add: kv_get_def)

lemma kv_get_del [simp, kv_simps]: "kv_get (kv_del k m) j = (if j = k then None else kv_get m j)"
  by (induction m) (auto simp: kv_get_def kv_del_def)

lemma kv_get_put [simp, kv_simps]: "kv_get (kv_put k v m) j = (if j = k then Some v else kv_get m j)"
proof (cases "j = k")
  case True
  then show ?thesis by (simp add: kv_put_def kv_get_def)
next
  case False
  then have "kv_get (kv_put k v m) j = kv_get (kv_del k m) j"
    by (simp add: kv_put_def kv_get_def)
  with False show ?thesis by simp
qed

lemma kv_wf_del [simp]: "kv_wf m \<Longrightarrow> kv_wf (kv_del k m)"
  by (simp add: kv_del_def distinct_map_filter)

lemma kv_keys_del [simp, kv_simps]: "kv_keys (kv_del k m) = kv_keys m - {k}"
  by (auto simp: kv_keys_def kv_del_def)

lemma kv_keys_put [simp, kv_simps]: "kv_keys (kv_put k v m) = insert k (kv_keys m)"
  by (auto simp: kv_put_def kv_keys_def kv_del_def)

lemma kv_wf_put [simp]: "kv_wf m \<Longrightarrow> kv_wf (kv_put k v m)"
  using kv_keys_del[of k m] by (simp add: kv_put_def kv_keys_def)

lemma kv_get_None_iff [kv_simps]: "kv_get m k = None \<longleftrightarrow> k \<notin> kv_keys m"
  by (simp add: kv_get_def kv_keys_def map_of_eq_None_iff)

lemma kv_get_Some_mem: "kv_get m k = Some v \<Longrightarrow> (k, v) \<in> set m"
  by (simp add: kv_get_def map_of_SomeD)

lemma kv_get_mem: "kv_wf m \<Longrightarrow> (k, v) \<in> set m \<Longrightarrow> kv_get m k = Some v"
  by (simp add: kv_get_def)

lemma kv_card: "kv_wf m \<Longrightarrow> length m = card (kv_keys m)"
  using distinct_card[of "map fst m"] by (simp add: kv_keys_def)

section \<open>Removal of the first matching entry\<close>

text \<open>
  \<open>VecDeque::iter().position(p)\<close> followed by \<open>remove(index)\<close> takes the first entry that
  satisfies \<open>p\<close> and keeps the order of the others.
\<close>

fun position :: "('a \<Rightarrow> bool) \<Rightarrow> 'a list \<Rightarrow> nat option" where
  "position p [] = None"
| "position p (x # xs) = (if p x then Some 0 else map_option Suc (position p xs))"

definition remove_at :: "nat \<Rightarrow> 'a list \<Rightarrow> 'a list" where
  "remove_at i xs = take i xs @ drop (Suc i) xs"

lemma position_None_iff: "position p xs = None \<longleftrightarrow> (\<forall>x \<in> set xs. \<not> p x)"
  by (induction xs) auto

lemma position_Some_D:
  "position p xs = Some i \<Longrightarrow> i < length xs \<and> p (xs ! i) \<and> (\<forall>j < i. \<not> p (xs ! j))"
proof (induction xs arbitrary: i)
  case Nil
  then show ?case by simp
next
  case (Cons x xs)
  show ?case
  proof (cases "p x")
    case True
    with Cons.prems show ?thesis by simp
  next
    case False
    with Cons.prems obtain k where k: "position p xs = Some k" "i = Suc k" by auto
    with Cons.IH[OF k(1)] False show ?thesis
      by (auto simp: less_Suc_eq_0_disj)
  qed
qed

lemma length_remove_at: "i < length xs \<Longrightarrow> length (remove_at i xs) = length xs - 1"
  by (simp add: remove_at_def)

lemma mset_remove_at: "i < length xs \<Longrightarrow> add_mset (xs ! i) (mset (remove_at i xs)) = mset xs"
  by (simp add: remove_at_def flip: mset_append) (metis id_take_nth_drop mset.simps(2) mset_append union_mset_add_mset_right)

lemma set_remove_at_subset: "set (remove_at i xs) \<subseteq> set xs"
  unfolding remove_at_def using set_take_subset set_drop_subset by fastforce

lemma remove_at_0 [simp]: "remove_at 0 xs = tl xs"
  by (simp add: remove_at_def drop_Suc)

lemma remove_at_Suc [simp]: "remove_at (Suc i) (x # xs) = x # remove_at i xs"
  by (simp add: remove_at_def)

lemma distinct_remove_at: "distinct xs \<Longrightarrow> distinct (remove_at i xs)"
  using set_take_disj_set_drop_if_distinct[of xs i "Suc i"]
  by (simp add: remove_at_def)

lemma remove_at_position: "distinct xs \<Longrightarrow> position (\<lambda>x. x = v) xs = Some i \<Longrightarrow> remove_at i xs = filter (\<lambda>x. x \<noteq> v) xs"
proof (induction xs arbitrary: i)
  case (Cons a xs)
  show ?case
  proof (cases "a = v")
    case True
    with Cons.prems have "i = 0" "v \<notin> set xs" by auto
    with True show ?thesis by (auto intro!: filter_True[symmetric])
  next
    case False
    with Cons.prems obtain j where "position (\<lambda>x. x = v) xs = Some j" "i = Suc j" by auto
    with Cons False show ?thesis by simp
  qed
qed simp

section \<open>The compare-exchange loop\<close>

text \<open>
  The lock-free operations of the runtime share one shape: load a word, decide from it, and
  either return, spin and reload, or attempt a compare-exchange and start over from the
  observed word when it fails. The body of such a loop is a function from the observed word
  to an \<open>attempt\<close>.
\<close>

datatype ('w, 'r) attempt =
    Spin
  | Return 'r
  | Cas 'w 'r

text \<open>
  \<open>cas_loop body w env\<close> runs the loop from the observed word \<open>w\<close>. Each element
  \<open>(m, weak)\<close> of \<open>env\<close> is one further access of this thread to the cell: \<open>m\<close> is the word
  the other threads left there, and \<open>weak\<close> says that a weak compare-exchange fails
  spuriously at that access. The result is the committed write, if any, and the value
  returned; \<open>None\<close> means that the accesses given did not finish the loop.
\<close>

fun cas_loop :: "('w \<Rightarrow> ('w, 'r) attempt) \<Rightarrow> 'w \<Rightarrow> ('w \<times> bool) list \<Rightarrow> (('w \<times> 'w) option \<times> 'r) option" where
  "cas_loop body w env =
     (case body w of
        Return r \<Rightarrow> Some (None, r)
      | Spin \<Rightarrow> (case env of [] \<Rightarrow> None | (m, _) # env' \<Rightarrow> cas_loop body m env')
      | Cas n r \<Rightarrow> (case env of
            [] \<Rightarrow> None
          | (m, weak) # env' \<Rightarrow>
              if m = w \<and> \<not> weak then Some (Some (w, n), r) else cas_loop body m env'))"

declare cas_loop.simps [simp del]

text \<open>
  Linearization: whatever the interference, a write the loop commits is the decision of its
  body on the word the cell held at that moment, and a result returned without a write is the
  body's decision on a word the thread did observe.
\<close>

lemma cas_loop_linearizes:
  assumes "cas_loop body w env = Some (c, r)"
  shows "\<exists>x \<in> insert w (fst ` set env).
           (case c of None \<Rightarrow> body x = Return r
            | Some (old, new) \<Rightarrow> old = x \<and> body x = Cas new r \<and> (x, False) \<in> set env)"
  using assms
proof (induction body w env rule: cas_loop.induct)
  case (1 body w env)
  show ?case
  proof (cases "body w")
    case Spin
    with "1.prems" obtain m b env' where env: "env = (m, b) # env'" "cas_loop body m env' = Some (c, r)"
      by (auto simp: cas_loop.simps[of body w env] split: list.splits)
    from "1.IH"(1)[OF Spin env(1) refl env(2)] show ?thesis
      by (auto simp: env(1) split: option.splits)
  next
    case (Return r')
    with "1.prems" show ?thesis by (auto simp: cas_loop.simps[of body w env])
  next
    case (Cas n r')
    with "1.prems" obtain m b env' where env: "env = (m, b) # env'"
      by (auto simp: cas_loop.simps[of body w env] split: list.splits)
    show ?thesis
    proof (cases "m = w \<and> \<not> b")
      case True
      with "1.prems" Cas env have "c = Some (w, n)" "r' = r"
        by (auto simp: cas_loop.simps[of body w "(w, False) # env'"])
      with True Cas env show ?thesis by simp
    next
      case False
      with "1.prems" Cas env have rec: "cas_loop body m env' = Some (c, r)"
        by (auto simp: cas_loop.simps[of body w "(m, b) # env'"] split: if_splits)
      from "1.IH"(2)[OF Cas env refl False rec] show ?thesis
        by (auto simp: env split: option.splits)
    qed
  qed
qed

text \<open>
  Progress: without interference and without a spurious failure the loop ends at its first
  decision, with exactly the effect of its body.
\<close>

definition cas_exec :: "('w \<Rightarrow> ('w, 'r) attempt) \<Rightarrow> 'w \<Rightarrow> ('w \<times> 'r) option" where
  "cas_exec body w = (case body w of Spin \<Rightarrow> None | Return r \<Rightarrow> Some (w, r) | Cas n r \<Rightarrow> Some (n, r))"

lemma cas_loop_uncontended:
  assumes "cas_exec body w = Some (w', r)"
  shows "\<exists>c. cas_loop body w [(w, False)] = Some (c, r) \<and> w' = (case c of None \<Rightarrow> w | Some (_, n) \<Rightarrow> n)"
  using assms by (auto simp: cas_exec_def cas_loop.simps[of body w] split: attempt.splits)

section \<open>Interfaces of keyed stores\<close>

text \<open>
  A store removes what it holds under a key and nothing else. \<open>valid\<close> is the set of keys
  the store accepts.
\<close>

locale partial_store =
  fixes lookup :: "'s \<Rightarrow> 'k \<Rightarrow> 'v option"
    and remove :: "'k \<Rightarrow> 's \<Rightarrow> 'v option \<times> 's"
    and valid :: "'k \<Rightarrow> bool"
    and invar :: "'s \<Rightarrow> bool"
  assumes remove_value: "invar s \<Longrightarrow> valid k \<Longrightarrow> fst (remove k s) = lookup s k"
    and remove_lookup: "invar s \<Longrightarrow> valid k \<Longrightarrow> valid j \<Longrightarrow>
          lookup (snd (remove k s)) j = (if j = k then None else lookup s j)"
    and remove_invar: "invar s \<Longrightarrow> valid k \<Longrightarrow> invar (snd (remove k s))"
begin

lemma remove_twice: "invar s \<Longrightarrow> valid k \<Longrightarrow> fst (remove k (snd (remove k s))) = None"
  by (simp add: remove_value remove_invar remove_lookup)

lemma remove_commute:
  "invar s \<Longrightarrow> valid i \<Longrightarrow> valid k \<Longrightarrow> valid j \<Longrightarrow>
     lookup (snd (remove i (snd (remove k s)))) j = lookup (snd (remove k (snd (remove i s)))) j"
  by (simp add: remove_invar remove_lookup)

end

text \<open>A store that chooses the key of each inserted value.\<close>

locale fresh_store = partial_store +
  fixes insert_fresh :: "'c \<Rightarrow> 'a \<Rightarrow> ('b \<times> 'a) result_p"
  assumes insert_ok: "invar s \<Longrightarrow> \<exists>k s'. insert_fresh v s = Inr (k, s')"
    and insert_new: "invar s \<Longrightarrow> insert_fresh v s = Inr (k, s') \<Longrightarrow> valid k \<and> lookup s k = None"
    and insert_lookup: "invar s \<Longrightarrow> insert_fresh v s = Inr (k, s') \<Longrightarrow> valid j \<Longrightarrow>
          lookup s' j = (if j = k then Some v else lookup s j)"
    and insert_invar: "invar s \<Longrightarrow> insert_fresh v s = Inr (k, s') \<Longrightarrow> invar s'"
begin

lemma insert_remove:
  "invar s \<Longrightarrow> insert_fresh v s = Inr (k, s') \<Longrightarrow> fst (remove k s') = Some v"
  using insert_new[of s v k s'] insert_invar[of s v k s'] by (simp add: remove_value insert_lookup)

lemma live_undisturbed:
  "invar s \<Longrightarrow> insert_fresh v s = Inr (k, s') \<Longrightarrow> valid j \<Longrightarrow> lookup s j = Some x \<Longrightarrow> lookup s' j = Some x"
  using insert_new[of s v k s'] by (auto simp: insert_lookup)

end

text \<open>A store whose values carry their own key and which refuses an occupied one.\<close>

locale keyed_store = partial_store +
  fixes key_of :: "'c \<Rightarrow> 'b"
    and insert_val :: "'c \<Rightarrow> 'a \<Rightarrow> bool \<times> 'a"
  assumes insert_accepts: "invar s \<Longrightarrow> valid (key_of v) \<Longrightarrow> fst (insert_val v s) \<longleftrightarrow> lookup s (key_of v) = None"
    and insert_val_lookup: "invar s \<Longrightarrow> valid (key_of v) \<Longrightarrow> valid j \<Longrightarrow> lookup (snd (insert_val v s)) j =
          (if j = key_of v \<and> lookup s j = None then Some v else lookup s j)"
    and insert_val_invar: "invar s \<Longrightarrow> valid (key_of v) \<Longrightarrow> invar (snd (insert_val v s))"
begin

lemma insert_val_remove:
  "invar s \<Longrightarrow> valid (key_of v) \<Longrightarrow> lookup s (key_of v) = None \<Longrightarrow>
     fst (remove (key_of v) (snd (insert_val v s))) = Some v"
  by (simp add: remove_value insert_val_lookup insert_val_invar)

lemma insert_val_occupied:
  "invar s \<Longrightarrow> valid (key_of v) \<Longrightarrow> lookup s (key_of v) = Some x \<Longrightarrow>
     \<not> fst (insert_val v s) \<and> lookup (snd (insert_val v s)) (key_of v) = Some x"
  by (simp add: insert_accepts insert_val_lookup)

end


section \<open>Counting the entries of a map\<close>

definition tally :: "('v \<Rightarrow> bool) \<Rightarrow> ('k \<rightharpoonup> 'v) \<Rightarrow> nat" where
  "tally P m = card {k. \<exists>v. m k = Some v \<and> P v}"

lemma tally_finite: "finite (dom m) \<Longrightarrow> finite {k. \<exists>v. m k = Some v \<and> P v}"
  by (rule finite_subset[of _ "dom m"]) auto

lemma tally_empty [simp]: "tally P Map.empty = 0"
  by (simp add: tally_def)

text \<open>Changing one entry moves the count by what the old and the new entry contribute.\<close>

lemma tally_upd:
  assumes "finite (dom m)"
  shows "tally P (m(k := x)) + (case m k of None \<Rightarrow> 0 | Some v \<Rightarrow> of_bool (P v)) =
    tally P m + (case x of None \<Rightarrow> 0 | Some v \<Rightarrow> of_bool (P v))"
proof -
  define A where "A = {j. \<exists>v. m j = Some v \<and> P v} - {k}"
  have A: "finite A" "k \<notin> A" using tally_finite[OF assms] by (simp_all add: A_def)
  have "{j. \<exists>v. m j = Some v \<and> P v} = (if \<exists>v. m k = Some v \<and> P v then insert k A else A)" by (auto simp: A_def)
  then have "tally P m = card A + (case m k of None \<Rightarrow> 0 | Some v \<Rightarrow> of_bool (P v))"
    using A by (auto simp: tally_def split: option.splits)
  moreover have "{j. \<exists>v. (m(k := x)) j = Some v \<and> P v} = (if \<exists>v. x = Some v \<and> P v then insert k A else A)"
    by (auto simp: A_def)
  then have "tally P (m(k := x)) = card A + (case x of None \<Rightarrow> 0 | Some v \<Rightarrow> of_bool (P v))"
    using A by (auto simp: tally_def split: option.splits)
  ultimately show ?thesis by simp
qed

lemma tally_put: "finite (dom m) \<Longrightarrow> m k = Some v \<Longrightarrow> tally P (m(k \<mapsto> x)) + of_bool (P v) = tally P m + of_bool (P x)"
  using tally_upd[of m P k "Some x"] by simp

lemma tally_add: "finite (dom m) \<Longrightarrow> m k = None \<Longrightarrow> tally P (m(k \<mapsto> x)) = tally P m + of_bool (P x)"
  using tally_upd[of m P k "Some x"] by simp

lemma tally_del: "finite (dom m) \<Longrightarrow> m k = Some v \<Longrightarrow> tally P (m(k := None)) + of_bool (P v) = tally P m"
  using tally_upd[of m P k None] by simp

lemma tally_pos: "finite (dom m) \<Longrightarrow> m k = Some v \<Longrightarrow> P v \<Longrightarrow> 0 < tally P m"
  using tally_finite[of m P] by (auto simp: tally_def card_gt_0_iff)

lemma tally_one_unique:
  assumes "tally P m \<le> 1" "finite (dom m)" "m j = Some u" "P u" "m k = Some v" "P v"
  shows "j = k"
proof -
  have "card {i. \<exists>v. m i = Some v \<and> P v} \<le> Suc 0" using assms(1) by (simp add: tally_def)
  with card_le_Suc0_iff_eq[OF tally_finite[OF assms(2)], of P] assms(3-) show ?thesis by blast
qed

lemma length_filter_remove1:
  "x \<in> set xs \<Longrightarrow> length (filter P (remove1 x xs)) + of_bool (P x) = length (filter P xs)"
  by (induction xs) auto

end
