(* ===== verification/Task_Slab.thy ===== *)
theory Task_Slab
  imports Prelude
begin

unbundle bit_operations_syntax

text \<open>
  Carrier-local task storage: compact task keys (\<open>TaskKey\<close>), the slab of tasks
  (\<open>TaskSlab\<close>) of task_slab.rs, and the dense park records (\<open>ParkedTasks\<close>) of
  parked_tasks.rs. The slab and the park records implement finite maps.
\<close>

section \<open>Task keys\<close>

text \<open>A task key is a nonzero word: twice the one-based slot number, plus one if borrowed.\<close>

datatype task_key = TaskKey (encoded: usize)

definition key_encode :: "usize \<Rightarrow> bool \<Rightarrow> task_key result_p" where
  "key_encode index borrowed =
     (case checked_add index 1 of
        None \<Rightarrow> Inl (Panic ''task key space exhausted'')
      | Some slot \<Rightarrow>
          (case Option.bind (checked_mul slot 2) (\<lambda>v. checked_add v (if borrowed then 1 else 0)) of
             None \<Rightarrow> Inl (Panic ''task key space exhausted'')
           | Some e \<Rightarrow> if e = 0 then Inl (Panic ''encoded task key is nonzero'') else Inr (TaskKey e)))"

definition key_owned :: "usize \<Rightarrow> task_key result_p" where
  "key_owned index = key_encode index False"

definition key_borrowed :: "usize \<Rightarrow> task_key result_p" where
  "key_borrowed index = key_encode index True"

definition key_index :: "task_key \<Rightarrow> usize" where
  "key_index k = drop_bit 1 (encoded k) - 1"

definition key_is_borrowed :: "task_key \<Rightarrow> bool" where
  "key_is_borrowed k \<longleftrightarrow> encoded k AND 1 \<noteq> 0"

definition key_from_encoded :: "usize \<Rightarrow> task_key result_p" where
  "key_from_encoded e = (if e = 0 then Inl (Panic ''encoded task key is nonzero'') else Inr (TaskKey e))"

lemma unat_drop_bit_1: "unat (drop_bit 1 (w :: u64)) = unat w div 2"
  by (simp add: drop_bit_eq_div unat_div)

text \<open>Encoding succeeds exactly while twice the slot number still fits a word.\<close>

lemma key_encode_ok:
  assumes "unat i < 2 ^ 63 - 1"
  shows "\<exists>k. key_encode i b = Inr k \<and> unat (encoded k) = 2 * (unat i + 1) + of_bool b"
proof -
  have c1: "checked_add i 1 = Some (i + 1)" and u1: "unat (i + 1) = unat i + 1"
    using assms by (simp_all add: checked_add_def unat_word_ariths)
  have "checked_mul (i + 1) 2 \<noteq> None"
    using assms by (simp add: checked_mul_def u1)
  then obtain v where c2: "checked_mul (i + 1) 2 = Some v" by blast
  then have u2: "unat v = 2 * (unat i + 1)"
    using checked_mul_unat[OF c2] u1 by simp
  let ?b = "if b then 1 else 0 :: u64"
  have c3: "checked_add v ?b = Some (v + ?b)"
    using assms by (auto simp: checked_add_def u2)
  have u3: "unat (v + ?b) = 2 * (unat i + 1) + of_bool b"
    using checked_add_unat[OF c3] u2 by auto
  then have "v + ?b \<noteq> 0" by (metis add_is_0 mult_is_0 one_neq_zero unat_0 zero_neq_numeral)
  with c1 c2 c3 have "key_encode i b = Inr (TaskKey (v + ?b))"
    by (simp add: key_encode_def)
  with u3 show ?thesis by (metis task_key.sel)
qed

lemma key_encode_exhausted:
  assumes "\<not> unat i < 2 ^ 63 - 1"
  shows "key_encode i b = Inl (Panic ''task key space exhausted'')"
proof -
  have "checked_mul s 2 = None" if "checked_add i 1 = Some s" for s
    using assms checked_add_unat[OF that] by (simp add: checked_mul_def)
  then show ?thesis
    by (auto simp: key_encode_def split: option.splits)
qed

lemma key_encode_value:
  assumes "key_encode i b = Inr k"
  shows "unat (encoded k) = 2 * (unat i + 1) + of_bool b"
  using assms key_encode_ok[of i b] key_encode_exhausted[of i b] by (cases "unat i < 2 ^ 63 - 1") auto

lemma key_encode_fields:
  assumes "key_encode i b = Inr k"
  shows "key_index k = i \<and> key_is_borrowed k = b \<and> encoded k \<noteq> 0"
proof -
  note u = key_encode_value[OF assms]
  have "unat (drop_bit 1 (encoded k)) = unat i + 1"
    by (subst unat_drop_bit_1) (simp add: u)
  then have "unat (key_index k) = unat i"
    by (simp add: key_index_def unat_sub word_le_nat_alt del: drop_bit_numeral_bit1)
  moreover have "key_is_borrowed k = b"
    by (simp add: key_is_borrowed_def and_1_odd u)
  moreover have "encoded k \<noteq> 0"
    using u by (metis add_is_0 mult_is_0 one_neq_zero unat_0 zero_neq_numeral)
  ultimately show ?thesis by (simp add: word_unat_eq_iff)
qed

lemma key_eqI: "key_index j = key_index k \<Longrightarrow> key_is_borrowed j = key_is_borrowed k \<Longrightarrow>
   unat (encoded j) \<ge> 2 \<Longrightarrow> unat (encoded k) \<ge> 2 \<Longrightarrow> j = k"
proof -
  assume eq: "key_index j = key_index k" "key_is_borrowed j = key_is_borrowed k"
    and ge: "unat (encoded j) \<ge> 2" "unat (encoded k) \<ge> 2"
  have "unat (encoded j) div 2 = unat (encoded k) div 2"
    using eq(1) by (metis add_right_cancel diff_add_cancel key_index_def unat_drop_bit_1)
  moreover have "unat (encoded j) mod 2 = unat (encoded k) mod 2"
    using eq(2) by (simp add: key_is_borrowed_def and_1_odd mod_2_eq_odd)
  ultimately have "unat (encoded j) = unat (encoded k)"
    by (metis div_mult_mod_eq)
  then show "j = k" by (simp add: task_key.expand word_unat_eq_iff)
qed

section \<open>The task slab\<close>

record 'a task_slab =
  slots :: "'a option list"
  vacant :: "nat list"

definition slab_new :: "'a task_slab" where
  "slab_new = \<lparr>slots = [], vacant = []\<rparr>"

text \<open>\<open>vacant\<close> is a stack whose top is the last element (\<open>Vec::push\<close> and \<open>Vec::pop\<close>).\<close>

definition slab_insert :: "'a \<Rightarrow> 'a task_slab \<Rightarrow> (nat \<times> 'a task_slab) result_p" where
  "slab_insert v s =
     (if vacant s = []
      then Inr (length (slots s), s\<lparr>slots := slots s @ [Some v]\<rparr>)
      else let index = last (vacant s) in
        if index < length (slots s) \<and> slots s ! index = None
        then Inr (index, s\<lparr>slots := (slots s)[index := Some v], vacant := butlast (vacant s)\<rparr>)
        else Inl (Panic ''occupied vacant task slot''))"

definition slab_get :: "'a task_slab \<Rightarrow> nat \<Rightarrow> 'a option" where
  "slab_get s i = (if i < length (slots s) then slots s ! i else None)"

definition slab_get_mut :: "('a \<Rightarrow> 'a) \<Rightarrow> nat \<Rightarrow> 'a task_slab \<Rightarrow> 'a task_slab option" where
  "slab_get_mut f i s = (case slab_get s i of None \<Rightarrow> None
     | Some v \<Rightarrow> Some (s\<lparr>slots := (slots s)[i := Some (f v)]\<rparr>))"

definition slab_remove :: "nat \<Rightarrow> 'a task_slab \<Rightarrow> 'a option \<times> 'a task_slab" where
  "slab_remove i s = (case slab_get s i of None \<Rightarrow> (None, s)
     | Some v \<Rightarrow> (Some v, s\<lparr>slots := (slots s)[i := None], vacant := vacant s @ [i]\<rparr>))"

definition slab_len :: "'a task_slab \<Rightarrow> nat" where
  "slab_len s = length (slots s) - length (vacant s)"

definition slab_is_empty :: "'a task_slab \<Rightarrow> bool" where
  "slab_is_empty s \<longleftrightarrow> slab_len s = 0"

text \<open>The vacancy stack lists exactly the empty slots, each once.\<close>

definition slab_inv :: "'a task_slab \<Rightarrow> bool" where
  "slab_inv s \<longleftrightarrow> distinct (vacant s) \<and>
     set (vacant s) = {i. i < length (slots s) \<and> slots s ! i = None}"

lemma slab_inv_new: "slab_inv slab_new"
  by (simp add: slab_inv_def slab_new_def)

lemma slab_insert_cases:
  assumes "slab_inv s"
  shows "\<exists>i s'. slab_insert v s = Inr (i, s') \<and> slab_get s i = None \<and> slab_inv s'
           \<and> slab_get s' = (slab_get s)(i \<mapsto> v)"
proof (cases "vacant s = []")
  case True
  with assms have full: "\<forall>i < length (slots s). slots s ! i \<noteq> None"
    by (auto simp: slab_inv_def)
  let ?s = "s\<lparr>slots := slots s @ [Some v]\<rparr>"
  have "slab_inv ?s"
    using True full by (auto simp: slab_inv_def nth_append less_Suc_eq)
  moreover have "slab_get ?s = (slab_get s)(length (slots s) \<mapsto> v)"
    by (auto simp: slab_get_def fun_eq_iff nth_append)
  ultimately show ?thesis
    using True by (auto simp: slab_insert_def slab_get_def)
next
  case False
  let ?i = "last (vacant s)"
  let ?s = "s\<lparr>slots := (slots s)[?i := Some v], vacant := butlast (vacant s)\<rparr>"
  have split: "vacant s = butlast (vacant s) @ [?i]"
    using False by simp
  with assms have d: "distinct (butlast (vacant s))" "?i \<notin> set (butlast (vacant s))"
    unfolding slab_inv_def by (metis distinct_butlast, metis distinct_append not_distinct_conv_prefix)
  have "?i \<in> set (vacant s)" using False by simp
  with assms have i: "?i < length (slots s)" "slots s ! ?i = None"
    by (auto simp: slab_inv_def)
  have "set (butlast (vacant s)) = set (vacant s) - {?i}"
    using d(2) by (subst (2) split) auto
  moreover have "{j. j < length (slots ?s) \<and> slots ?s ! j = None}
      = {j. j < length (slots s) \<and> slots s ! j = None} - {?i}"
    using i by (auto simp: nth_list_update)
  ultimately have "slab_inv ?s"
    using assms d(1) by (simp add: slab_inv_def)
  moreover have "slab_get ?s = (slab_get s)(?i \<mapsto> v)"
    using i by (auto simp: slab_get_def fun_eq_iff)
  ultimately show ?thesis
    using False i by (auto simp: slab_insert_def slab_get_def Let_def)
qed

lemma slab_remove_spec:
  assumes "slab_inv s" and "slab_remove i s = (r, s')"
  shows "r = slab_get s i \<and> slab_inv s' \<and> slab_get s' = (slab_get s)(i := None)"
proof (cases "slab_get s i")
  case None
  with assms show ?thesis by (auto simp: slab_remove_def)
next
  case (Some v)
  then have i: "i < length (slots s)" "slots s ! i = Some v"
    by (auto simp: slab_get_def split: if_splits)
  from Some assms(2) have s': "s' = s\<lparr>slots := (slots s)[i := None], vacant := vacant s @ [i]\<rparr>" "r = Some v"
    by (simp_all add: slab_remove_def)
  have "i \<notin> set (vacant s)" using assms(1) i by (auto simp: slab_inv_def)
  moreover have "{j. j < length (slots s') \<and> slots s' ! j = None}
      = insert i {j. j < length (slots s) \<and> slots s ! j = None}"
    using i by (auto simp: s' nth_list_update)
  ultimately have "slab_inv s'"
    using assms(1) by (simp add: slab_inv_def s'(1))
  moreover have "slab_get s' = (slab_get s)(i := None)"
    using i by (auto simp: slab_get_def s' fun_eq_iff)
  ultimately show ?thesis using Some s' by simp
qed

lemma slab_len_dom:
  assumes "slab_inv s"
  shows "slab_len s = card (dom (slab_get s))"
proof -
  from assms have v: "set (vacant s) = {i. i < length (slots s) \<and> slots s ! i = None}"
    by (simp add: slab_inv_def)
  have "dom (slab_get s) = {..<length (slots s)} - set (vacant s)"
    unfolding v by (auto simp: slab_get_def dom_def)
  moreover have "set (vacant s) \<subseteq> {..<length (slots s)}"
    unfolding v by auto
  moreover have "card (set (vacant s)) = length (vacant s)"
    using assms unfolding slab_inv_def by (blast intro: distinct_card)
  ultimately show ?thesis
    by (simp add: slab_len_def card_Diff_subset finite_subset)
qed

interpretation slab: fresh_store slab_get slab_remove "\<lambda>_. True" slab_inv slab_insert
proof
  fix s :: "'a task_slab" and k
  assume inv: "slab_inv s"
  obtain r s' where rem: "slab_remove k s = (r, s')" by fastforce
  note spec = slab_remove_spec[OF inv rem]
  show "fst (slab_remove k s) = slab_get s k" and "slab_inv (snd (slab_remove k s))"
    using spec rem by simp_all
  show "slab_get (snd (slab_remove k s)) j = (if j = k then None else slab_get s j)" for j
    using spec rem by simp
next
  fix s :: "'a task_slab" and v
  assume inv: "slab_inv s"
  note spec = slab_insert_cases[OF inv, of v]
  then show "\<exists>k s'. slab_insert v s = Inr (k, s')" by blast
  fix k s'
  assume ins: "slab_insert v s = Inr (k, s')"
  show "True \<and> slab_get s k = None" and "slab_inv s'"
    using spec ins by auto
  show "slab_get s' j = (if j = k then Some v else slab_get s j)" for j
    using spec ins by auto
qed

section \<open>Park records\<close>

record 'r parked_task =
  pt_token :: park_token
  pt_task :: task_key
  pt_has_deadline :: bool
  pt_deferred :: bool
  pt_registration :: "'r option"

record 'r parked_tasks =
  pk_owned :: "'r parked_task option list"
  pk_borrowed :: "'r parked_task option list"
  pk_len :: nat

definition parked_new :: "'r parked_tasks" where
  "parked_new = \<lparr>pk_owned = [], pk_borrowed = [], pk_len = 0\<rparr>"

definition parked_slots :: "'r parked_tasks \<Rightarrow> task_key \<Rightarrow> 'r parked_task option list" where
  "parked_slots s k = (if key_is_borrowed k then pk_borrowed s else pk_owned s)"

definition parked_slots_mut :: "task_key \<Rightarrow> 'r parked_task option list \<Rightarrow> 'r parked_tasks \<Rightarrow> 'r parked_tasks" where
  "parked_slots_mut k xs s = (if key_is_borrowed k then s\<lparr>pk_borrowed := xs\<rparr> else s\<lparr>pk_owned := xs\<rparr>)"

definition parked_insert :: "'r parked_task \<Rightarrow> 'r parked_tasks \<Rightarrow> bool \<times> 'r parked_tasks" where
  "parked_insert p s =
     (let k = pt_task p; i = unat (key_index k); slots0 = parked_slots s k;
          slots1 = slots0 @ replicate (Suc i - length slots0) None;
          s1 = parked_slots_mut k slots1 s
      in if slots1 ! i \<noteq> None then (False, s1)
         else (True, (parked_slots_mut k (slots1[i := Some p]) s1)\<lparr>pk_len := pk_len s + 1\<rparr>))"

definition parked_get :: "'r parked_tasks \<Rightarrow> task_key \<Rightarrow> 'r parked_task option" where
  "parked_get s k = (let i = unat (key_index k); xs = parked_slots s k in
     if i < length xs then xs ! i else None)"

definition parked_get_mut :: "('r parked_task \<Rightarrow> 'r parked_task) \<Rightarrow> task_key \<Rightarrow> 'r parked_tasks \<Rightarrow> 'r parked_tasks option" where
  "parked_get_mut f k s = (case parked_get s k of None \<Rightarrow> None
     | Some p \<Rightarrow> Some (parked_slots_mut k ((parked_slots s k)[unat (key_index k) := Some (f p)]) s))"

definition parked_remove :: "task_key \<Rightarrow> 'r parked_tasks \<Rightarrow> 'r parked_task option \<times> 'r parked_tasks" where
  "parked_remove k s = (case parked_get s k of None \<Rightarrow> (None, s)
     | Some p \<Rightarrow> (Some p, (parked_slots_mut k ((parked_slots s k)[unat (key_index k) := None]) s)
                            \<lparr>pk_len := pk_len s - 1\<rparr>))"

definition parked_iter :: "'r parked_tasks \<Rightarrow> 'r parked_task list" where
  "parked_iter s = List.map_filter id (pk_owned s @ pk_borrowed s)"

definition parked_is_empty :: "'r parked_tasks \<Rightarrow> bool" where
  "parked_is_empty s \<longleftrightarrow> pk_len s = 0"

text \<open>The length field counts the occupied slots of both lanes.\<close>

definition occupied :: "'a option list \<Rightarrow> nat" where
  "occupied xs = length (filter (\<lambda>x. x \<noteq> None) xs)"

definition parked_inv :: "'r parked_tasks \<Rightarrow> bool" where
  "parked_inv s \<longleftrightarrow> pk_len s = occupied (pk_owned s) + occupied (pk_borrowed s)"

text \<open>Keys that the encoder can produce.\<close>

definition key_valid :: "task_key \<Rightarrow> bool" where
  "key_valid k \<longleftrightarrow> 2 \<le> unat (encoded k)"

lemma key_encode_valid: "key_encode i b = Inr k \<Longrightarrow> key_valid k"
  by (simp add: key_valid_def key_encode_value)

lemma key_eq_iff:
  "key_valid j \<Longrightarrow> key_valid k \<Longrightarrow> j = k \<longleftrightarrow> key_is_borrowed j = key_is_borrowed k \<and> unat (key_index j) = unat (key_index k)"
  by (auto simp: key_valid_def word_unat_eq_iff intro: key_eqI)

lemma occupied_simps [simp]:
  "occupied [] = 0" "occupied (xs @ ys) = occupied xs + occupied ys" "occupied (replicate n None) = 0"
  by (simp_all add: occupied_def)

lemma occupied_update:
  "i < length xs \<Longrightarrow> occupied (xs[i := y]) + of_bool (xs ! i \<noteq> None) = occupied xs + of_bool (y \<noteq> None)"
proof (induction xs arbitrary: i)
  case Nil
  then show ?case by simp
next
  case (Cons x xs)
  show ?case
  proof (cases i)
    case 0
    then show ?thesis by (simp add: occupied_def)
  next
    case (Suc j)
    with Cons.prems Cons.IH[of j] show ?thesis by (auto simp: occupied_def)
  qed
qed

lemma parked_slots_mut_simps [simp]:
  "pk_len (parked_slots_mut k xs s) = pk_len s"
  "parked_slots (parked_slots_mut k xs s) j = (if key_is_borrowed j = key_is_borrowed k then xs else parked_slots s j)"
  "parked_slots_mut k ys (parked_slots_mut k xs s) = parked_slots_mut k ys s"
  "parked_slots (s\<lparr>pk_len := n\<rparr>) j = parked_slots s j"
  by (auto simp: parked_slots_mut_def parked_slots_def)

lemma occupied_slots_mut:
  "occupied (pk_owned (parked_slots_mut k xs s)) + occupied (pk_borrowed (parked_slots_mut k xs s)) + occupied (parked_slots s k)
     = occupied (pk_owned s) + occupied (pk_borrowed s) + occupied xs"
  by (simp add: parked_slots_mut_def parked_slots_def)

lemma parked_get_slots: "parked_get s k = (if unat (key_index k) < length (parked_slots s k)
    then parked_slots s k ! unat (key_index k) else None)"
  by (simp add: parked_get_def Let_def)

lemma parked_slots_lane: "key_is_borrowed j = key_is_borrowed k \<Longrightarrow> parked_slots s j = parked_slots s k"
  by (simp add: parked_slots_def)

lemma parked_remove_lookup:
  assumes "key_valid k" "key_valid j"
  shows "parked_get (snd (parked_remove k s)) j = (if j = k then None else parked_get s j)"
proof (cases "parked_get s k")
  case None
  with assms show ?thesis by (simp add: parked_remove_def)
next
  case (Some p)
  then have "unat (key_index k) < length (parked_slots s k)"
    by (auto simp: parked_get_slots split: if_splits)
  with Some assms show ?thesis
    by (cases "key_is_borrowed j = key_is_borrowed k")
      (auto simp: parked_remove_def key_eq_iff parked_get_slots parked_slots_lane[of j k])
qed

lemma parked_remove_inv: "parked_inv s \<Longrightarrow> parked_inv (snd (parked_remove k s))"
proof (cases "parked_get s k")
  case None
  then show "parked_inv s \<Longrightarrow> ?thesis" by (simp add: parked_remove_def)
next
  case (Some p)
  let ?i = "unat (key_index k)" and ?xs = "parked_slots s k"
  assume inv: "parked_inv s"
  from Some have i: "?i < length ?xs" "?xs ! ?i = Some p"
    by (auto simp: parked_get_slots split: if_splits)
  from occupied_update[OF i(1), of None] i(2) have "occupied (?xs[?i := None]) + 1 = occupied ?xs" by simp
  with occupied_slots_mut[of k "?xs[?i := None]" s] inv Some show ?thesis
    by (simp add: parked_remove_def parked_inv_def)
qed

lemma parked_insert_split:
  fixes p :: "'r parked_task"
  defines "i \<equiv> unat (key_index (pt_task p))"
  shows "fst (parked_insert p s) \<longleftrightarrow> parked_get s (pt_task p) = None"
    and "key_valid j \<Longrightarrow> key_valid (pt_task p) \<Longrightarrow> parked_get (snd (parked_insert p s)) j =
           (if j = pt_task p \<and> parked_get s j = None then Some p else parked_get s j)"
    and "parked_inv s \<Longrightarrow> parked_inv (snd (parked_insert p s))"
proof -
  let ?k = "pt_task p"
  let ?xs = "parked_slots s ?k"
  let ?ys = "?xs @ replicate (Suc i - length ?xs) None"
  have ys_i: "?ys ! i = parked_get s ?k"
    by (auto simp: parked_get_slots i_def nth_append)
  have i_ys: "i < length ?ys" by simp
  have unf: "parked_insert p s = (if parked_get s ?k \<noteq> None then (False, parked_slots_mut ?k ?ys s)
      else (True, (parked_slots_mut ?k (?ys[i := Some p]) s)\<lparr>pk_len := pk_len s + 1\<rparr>))"
    by (simp add: parked_insert_def Let_def ys_i flip: i_def)
  show "fst (parked_insert p s) \<longleftrightarrow> parked_get s ?k = None"
    by (simp add: unf)
  show "parked_get (snd (parked_insert p s)) j =
           (if j = ?k \<and> parked_get s j = None then Some p else parked_get s j)"
    if "key_valid j" "key_valid ?k"
  proof (cases "parked_get s ?k")
    case None
    show ?thesis
      using None that i_ys
      by (cases "key_is_borrowed j = key_is_borrowed ?k")
        (auto simp: unf key_eq_iff parked_get_slots nth_append nth_list_update i_def parked_slots_lane[of j ?k])
  next
    case (Some q)
    then show ?thesis
      using that
      by (cases "key_is_borrowed j = key_is_borrowed ?k")
        (auto simp: unf key_eq_iff parked_get_slots nth_append i_def parked_slots_lane[of j ?k])
  qed
  show "parked_inv (snd (parked_insert p s))" if "parked_inv s"
    using that occupied_slots_mut[of ?k ?ys s] occupied_slots_mut[of ?k "?ys[i := Some p]" s]
      occupied_update[OF i_ys, of "Some p"]
    by (auto simp: unf parked_inv_def ys_i)
qed

interpretation parked: keyed_store parked_get parked_remove key_valid parked_inv pt_task parked_insert
proof
  fix s :: "'r parked_tasks" and k j :: task_key
  assume "parked_inv s" "key_valid k"
  then show "fst (parked_remove k s) = parked_get s k" "parked_inv (snd (parked_remove k s))"
    by (simp_all add: parked_remove_inv) (simp add: parked_remove_def split: option.split)
  assume "key_valid j"
  then show "parked_get (snd (parked_remove k s)) j = (if j = k then None else parked_get s j)"
    using \<open>key_valid k\<close> by (rule parked_remove_lookup[rotated])
qed (simp_all add: parked_insert_split)

end
