(* ===== verification/Ready_Queue.thy ===== *)
theory Ready_Queue
  imports Prelude
begin

text \<open>
  The carrier's runnable queues (ready_queue.rs) and their cold inspection
  (ready_queue_inspection.rs): cohorts of at most two newest wakes, one normal head and one
  oldest wake. The main result is the documented dispatch bound: an entry with \<open>n\<close> older
  entries in its lane is dispatched within \<open>4 * (n + 1)\<close> selections.
\<close>

section \<open>State and operations\<close>

text \<open>The lists are the deques, front first.\<close>

record 'k ready_queue =
  normal :: "'k list"
  wakes :: "'k list"
  wake_streak :: nat

definition WAKE_BURST :: nat where
  "WAKE_BURST = 2"

definition rq_new :: "'k ready_queue" where
  "rq_new = \<lparr>normal = [], wakes = [], wake_streak = 0\<rparr>"

definition rq_push_back :: "'k \<Rightarrow> 'k ready_queue \<Rightarrow> 'k ready_queue" where
  "rq_push_back t q = q\<lparr>normal := normal q @ [t]\<rparr>"

definition rq_push_front :: "'k \<Rightarrow> 'k ready_queue \<Rightarrow> 'k ready_queue" where
  "rq_push_front t q = q\<lparr>normal := t # normal q\<rparr>"

definition rq_push_wake :: "'k \<Rightarrow> 'k ready_queue \<Rightarrow> 'k ready_queue" where
  "rq_push_wake t q = q\<lparr>wakes := t # wakes q\<rparr>"

text \<open>\<open>VecDeque::pop_front\<close> and \<open>VecDeque::pop_back\<close>.\<close>

definition pop_front_list :: "'a list \<Rightarrow> 'a option \<times> 'a list" where
  "pop_front_list xs = (case xs of [] \<Rightarrow> (None, []) | x # ys \<Rightarrow> (Some x, ys))"

definition pop_back_list :: "'a list \<Rightarrow> 'a option \<times> 'a list" where
  "pop_back_list xs = (if xs = [] then (None, []) else (Some (last xs), butlast xs))"

definition rq_pop_front :: "'k ready_queue \<Rightarrow> 'k option \<times> 'k ready_queue" where
  "rq_pop_front q =
     (if wakes q = [] then
        (case pop_front_list (normal q) of (r, ns) \<Rightarrow> (r, q\<lparr>normal := ns, wake_streak := 0\<rparr>))
      else if wake_streak q < WAKE_BURST then
        (case pop_front_list (wakes q) of (r, ws) \<Rightarrow> (r, q\<lparr>wakes := ws, wake_streak := wake_streak q + 1\<rparr>))
      else if wake_streak q = WAKE_BURST \<and> normal q \<noteq> [] then
        (case pop_front_list (normal q) of (r, ns) \<Rightarrow> (r, q\<lparr>normal := ns, wake_streak := wake_streak q + 1\<rparr>))
      else
        (case pop_back_list (wakes q) of (r, ws) \<Rightarrow> (r, q\<lparr>wakes := ws, wake_streak := 0\<rparr>)))"

definition rq_front :: "'k ready_queue \<Rightarrow> 'k option" where
  "rq_front q =
     (if wakes q = [] then (case normal q of [] \<Rightarrow> None | x # _ \<Rightarrow> Some x)
      else if wake_streak q < WAKE_BURST then Some (hd (wakes q))
      else if wake_streak q = WAKE_BURST then
        (case normal q of [] \<Rightarrow> Some (last (wakes q)) | x # _ \<Rightarrow> Some x)
      else Some (last (wakes q)))"

definition rq_len :: "'k ready_queue \<Rightarrow> nat" where
  "rq_len q = length (normal q) + length (wakes q)"

definition rq_is_empty :: "'k ready_queue \<Rightarrow> bool" where
  "rq_is_empty q \<longleftrightarrow> normal q = [] \<and> wakes q = []"

section \<open>Inspection\<close>

record inspection =
  rem_normal :: nat
  rem_wakes :: nat

definition rq_inspection :: "'k ready_queue \<Rightarrow> inspection" where
  "rq_inspection q = \<lparr>rem_normal = length (normal q), rem_wakes = length (wakes q)\<rparr>"

text \<open>
  One lane of \<open>remove_matching\<close>: each step takes the front, stops on a match and otherwise
  rotates the entry to the back. The result is the match, the queue and the entries left to
  inspect; the panic is the failed \<open>expect\<close> on a shorter queue.
\<close>

fun scan_lane :: "('k \<Rightarrow> bool) \<Rightarrow> nat \<Rightarrow> 'k list \<Rightarrow> ('k option \<times> 'k list \<times> nat) result_p" where
  "scan_lane p 0 q = Inr (None, q, 0)"
| "scan_lane p (Suc n) [] = Inl (Panic ''uninspected ready entry'')"
| "scan_lane p (Suc n) (x # q) = (if p x then Inr (Some x, q, n) else scan_lane p n (q @ [x]))"

definition rq_remove_matching ::
  "('k \<Rightarrow> bool) \<Rightarrow> inspection \<Rightarrow> 'k ready_queue \<Rightarrow> ('k option \<times> inspection \<times> 'k ready_queue) result_p" where
  "rq_remove_matching p ins q =
     (case scan_lane p (rem_normal ins) (normal q) of
        Inl e \<Rightarrow> Inl e
      | Inr (r, ns, rn) \<Rightarrow>
          let ins1 = ins\<lparr>rem_normal := rn\<rparr>; q1 = q\<lparr>normal := ns\<rparr> in
          (case r of
             Some t \<Rightarrow> Inr (Some t, ins1, q1)
           | None \<Rightarrow>
               (case scan_lane p (rem_wakes ins) (wakes q) of
                  Inl e \<Rightarrow> Inl e
                | Inr (r2, ws, rw) \<Rightarrow> Inr (r2, ins1\<lparr>rem_wakes := rw\<rparr>, q1\<lparr>wakes := ws\<rparr>))))"

text \<open>The last position that satisfies a predicate.\<close>

definition last_position :: "('a \<Rightarrow> bool) \<Rightarrow> 'a list \<Rightarrow> nat option" where
  "last_position p xs = map_option (\<lambda>i. length xs - 1 - i) (position p (rev xs))"

definition rq_pop_matching :: "('k \<Rightarrow> bool) \<Rightarrow> 'k ready_queue \<Rightarrow> ('k option \<times> 'k ready_queue) result_p" where
  "rq_pop_matching p q =
     (let nrm = position p (normal q); newest = position p (wakes q); oldest = last_position p (wakes q) in
      case newest of
        None \<Rightarrow>
          (case nrm of
             None \<Rightarrow> Inr (None, q)
           | Some i \<Rightarrow> Inr (Some (normal q ! i), q\<lparr>normal := remove_at i (normal q), wake_streak := 0\<rparr>))
      | Some w \<Rightarrow>
          if wake_streak q < WAKE_BURST then
            Inr (Some (wakes q ! w), q\<lparr>wakes := remove_at w (wakes q), wake_streak := wake_streak q + 1\<rparr>)
          else if wake_streak q = WAKE_BURST \<and> nrm \<noteq> None then
            Inr (Some (normal q ! the nrm), q\<lparr>normal := remove_at (the nrm) (normal q), wake_streak := wake_streak q + 1\<rparr>)
          else
            (case oldest of
               None \<Rightarrow> Inl (Panic ''eligible wake'')
             | Some i \<Rightarrow> Inr (Some (wakes q ! i), q\<lparr>wakes := remove_at i (wakes q), wake_streak := 0\<rparr>)))"

definition rq_remove :: "'k \<Rightarrow> 'k ready_queue \<Rightarrow> bool \<times> 'k ready_queue" where
  "rq_remove t q =
     (case position (\<lambda>e. e = t) (normal q) of
        Some i \<Rightarrow> (True, q\<lparr>normal := remove_at i (normal q)\<rparr>)
      | None \<Rightarrow>
          (case position (\<lambda>e. e = t) (wakes q) of
             Some i \<Rightarrow> (True, q\<lparr>wakes := remove_at i (wakes q)\<rparr>)
           | None \<Rightarrow> (False, q)))"

section \<open>Entries are conserved\<close>

definition rq_mset :: "'k ready_queue \<Rightarrow> 'k multiset" where
  "rq_mset q = mset (normal q) + mset (wakes q)"

definition opt_mset :: "'k option \<Rightarrow> 'k multiset" where
  "opt_mset r = (case r of None \<Rightarrow> {#} | Some x \<Rightarrow> {#x#})"

lemmas rq_defs = rq_push_back_def rq_push_front_def rq_push_wake_def rq_pop_front_def pop_front_list_def
  pop_back_list_def WAKE_BURST_def

lemma mset_butlast_last: "xs \<noteq> [] \<Longrightarrow> add_mset (last xs) (mset (butlast xs)) = mset xs"
  by (metis append_butlast_last_id mset.simps(1,2) mset_append union_mset_add_mset_right empty_neutral(2))

lemma rq_pop_front_mset: "rq_pop_front q = (r, q') \<Longrightarrow> opt_mset r + rq_mset q' = rq_mset q"
  by (auto simp: rq_defs rq_mset_def opt_mset_def mset_butlast_last
      simp flip: union_mset_add_mset_right split: list.splits if_splits)

lemma rq_pop_front_None: "fst (rq_pop_front q) = None \<longleftrightarrow> rq_is_empty q"
  by (auto simp: rq_defs rq_is_empty_def split: list.splits)

lemma rq_front_pop: "rq_front q = fst (rq_pop_front q)"
  by (auto simp: rq_front_def rq_defs split: list.splits)

lemma rq_streak_bound: "wake_streak q \<le> 3 \<Longrightarrow> wake_streak (snd (rq_pop_front q)) \<le> 3"
  by (auto simp: rq_defs split: list.splits)

section \<open>Dispatch runs\<close>

text \<open>
  What a carrier does to its queue between and at dispatches. The cleanup path's
  \<open>push_front\<close> changes ranks and is not part of these runs.
\<close>

datatype 'k rq_event = PushBack 'k | PushWake 'k | Dispatch

fun rq_run :: "'k rq_event list \<Rightarrow> 'k ready_queue \<Rightarrow> 'k list \<times> 'k ready_queue" where
  "rq_run [] q = ([], q)"
| "rq_run (PushBack t # es) q = rq_run es (rq_push_back t q)"
| "rq_run (PushWake t # es) q = rq_run es (rq_push_wake t q)"
| "rq_run (Dispatch # es) q =
     (let (r, q1) = rq_pop_front q; (ts, q2) = rq_run es q1 in (case r of None \<Rightarrow> ts | Some t \<Rightarrow> t # ts, q2))"

definition dispatches :: "'k rq_event list \<Rightarrow> nat" where
  "dispatches es = length (filter (\<lambda>e. case e of Dispatch \<Rightarrow> True | _ \<Rightarrow> False) es)"

definition pushed :: "'k rq_event list \<Rightarrow> 'k multiset" where
  "pushed es = mset (List.map_filter (\<lambda>e. case e of PushBack t \<Rightarrow> Some t | PushWake t \<Rightarrow> Some t | Dispatch \<Rightarrow> None) es)"

lemma dispatches_simps [simp]:
  "dispatches [] = 0" "dispatches (PushBack t # es) = dispatches es"
  "dispatches (PushWake t # es) = dispatches es" "dispatches (Dispatch # es) = Suc (dispatches es)"
  by (simp_all add: dispatches_def)

lemma pushed_simps [simp]:
  "pushed [] = {#}" "pushed (PushBack t # es) = add_mset t (pushed es)"
  "pushed (PushWake t # es) = add_mset t (pushed es)" "pushed (Dispatch # es) = pushed es"
  by (simp_all add: pushed_def List.map_filter_def)

text \<open>
  Potential of a normal entry with \<open>n\<close> older normal entries: every dispatch that does not
  serve it lowers the potential, and pushes do not raise it.
\<close>

definition normal_rank :: "nat \<Rightarrow> nat" where
  "normal_rank streak = (if streak = 0 then 3 else if streak = 1 then 2 else if streak = 2 then 1 else 4)"

definition wake_rank :: "nat \<Rightarrow> nat" where
  "wake_rank streak = (if streak = 0 then 4 else if streak = 1 then 3 else if streak = 2 then 2 else 1)"

lemma normal_dispatch_step:
  assumes "n < length (normal q)" "normal q ! n = x" "wake_streak q \<le> 3" "rq_pop_front q = (r, q')"
  shows "r = Some x \<or> (\<exists>m. m < length (normal q') \<and> normal q' ! m = x \<and> wake_streak q' \<le> 3 \<and>
           4 * m + normal_rank (wake_streak q') < 4 * n + normal_rank (wake_streak q))"
proof -
  have step: "r = Some x \<or> (n - 1 < length (normal q') \<and> normal q' ! (n - 1) = x \<and> 0 < n)"
    if "r = Some (hd (normal q))" "normal q' = tl (normal q)"
    using that assms(1,2) by (cases n; cases "normal q") auto
  consider "wakes q = []" | "wakes q \<noteq> []" "wake_streak q < 2" | "wakes q \<noteq> []" "wake_streak q = 2"
    | "wakes q \<noteq> []" "wake_streak q = 3"
    using assms(3) by linarith
  then show ?thesis
  proof cases
    case 1
    then have "r = Some (hd (normal q))" "normal q' = tl (normal q)" "wake_streak q' = 0"
      using assms by (auto simp: rq_defs split: list.splits)
    with step show ?thesis
      by (auto simp: normal_rank_def intro!: exI[of _ "n - 1"])
  next
    case 2
    then have "normal q' = normal q" "wake_streak q' = wake_streak q + 1"
      using assms(4) by (auto simp: rq_defs split: list.splits)
    with 2 assms show ?thesis
      by (auto simp: normal_rank_def intro!: exI[of _ n])
  next
    case 3
    then have "r = Some (hd (normal q))" "normal q' = tl (normal q)" "wake_streak q' = 3"
      using assms by (auto simp: rq_defs split: list.splits if_splits)
    with step 3 show ?thesis
      by (auto simp: normal_rank_def intro!: exI[of _ "n - 1"])
  next
    case 4
    then have "normal q' = normal q" "wake_streak q' = 0"
      using assms(4) by (auto simp: rq_defs)
    with 4 assms show ?thesis
      by (auto simp: normal_rank_def intro!: exI[of _ n])
  qed
qed

text \<open>The wake lane is indexed from its back, where the oldest wake waits.\<close>

lemma wake_dispatch_step:
  assumes "n < length (wakes q)" "rev (wakes q) ! n = x" "wake_streak q \<le> 3" "rq_pop_front q = (r, q')"
  shows "r = Some x \<or> (\<exists>m. m < length (wakes q') \<and> rev (wakes q') ! m = x \<and> wake_streak q' \<le> 3 \<and>
           4 * m + wake_rank (wake_streak q') < 4 * n + wake_rank (wake_streak q))"
proof -
  from assms(1) have ne: "wakes q \<noteq> []" by auto
  have oldest: "r = Some x \<or> (n - 1 < length (wakes q') \<and> rev (wakes q') ! (n - 1) = x \<and> 0 < n)"
    if "r = Some (last (wakes q))" "wakes q' = butlast (wakes q)"
  proof -
    have "rev (wakes q) = last (wakes q) # rev (wakes q')"
      using ne that(2) by (metis append_butlast_last_id rev.simps(2) rev_rev_ident rev_append append_Cons append_Nil rev_singleton_conv)
    with that assms(1,2) show ?thesis by (cases n) auto
  qed
  consider "wake_streak q < 2" | "wake_streak q = 2" "normal q \<noteq> []" | "2 \<le> wake_streak q" "wake_streak q = 2 \<longrightarrow> normal q = []"
    using assms(3) by linarith
  then show ?thesis
  proof cases
    case 1
    then have q': "wakes q = the r # wakes q'" "r \<noteq> None" "wake_streak q' = wake_streak q + 1"
      using assms(4) ne by (auto simp: rq_defs split: list.splits)
    show ?thesis
    proof (cases "n < length (wakes q')")
      case True
      with q' 1 assms(2) show ?thesis
        by (auto simp: wake_rank_def nth_append intro!: exI[of _ n])
    next
      case False
      with q' assms(1,2) show ?thesis by (auto simp: nth_append)
    qed
  next
    case 2
    then have "wakes q' = wakes q" "wake_streak q' = 3"
      using assms(4) ne by (auto simp: rq_defs split: list.splits)
    with 2 assms show ?thesis
      by (auto simp: wake_rank_def intro!: exI[of _ n])
  next
    case 3
    then have "r = Some (last (wakes q))" "wakes q' = butlast (wakes q)" "wake_streak q' = 0"
      using assms(4) ne by (auto simp: rq_defs)
    with oldest show ?thesis
      by (auto simp: wake_rank_def intro!: exI[of _ "n - 1"])
  qed
qed

lemma rq_run_normal:
  "n < length (normal q) \<Longrightarrow> normal q ! n = x \<Longrightarrow> wake_streak q \<le> 3 \<Longrightarrow>
     4 * n + normal_rank (wake_streak q) \<le> dispatches es \<Longrightarrow> x \<in> set (fst (rq_run es q))"
proof (induction es q arbitrary: n rule: rq_run.induct)
  case (1 q)
  then show ?case by (auto simp: normal_rank_def split: if_splits)
next
  case (2 t es q)
  show ?case using "2.IH"[of n] "2.prems" by (simp add: rq_push_back_def nth_append)
next
  case (3 t es q)
  show ?case using "3.IH"[of n] "3.prems" by (simp add: rq_push_wake_def)
next
  case (4 es q)
  obtain r q1 where pop: "rq_pop_front q = (r, q1)" by fastforce
  from normal_dispatch_step[OF "4.prems"(1-3) pop] show ?case
  proof
    assume "r = Some x"
    with pop show ?thesis by (auto split: prod.split)
  next
    assume "\<exists>m. m < length (normal q1) \<and> normal q1 ! m = x \<and> wake_streak q1 \<le> 3 \<and>
      4 * m + normal_rank (wake_streak q1) < 4 * n + normal_rank (wake_streak q)"
    then obtain m where m: "m < length (normal q1)" "normal q1 ! m = x" "wake_streak q1 \<le> 3"
      "4 * m + normal_rank (wake_streak q1) < 4 * n + normal_rank (wake_streak q)" by blast
    have "x \<in> set (fst (rq_run es q1))"
      using "4.prems"(4) m by (intro "4.IH"[OF pop[symmetric] refl, of m]) auto
    with pop show ?thesis by (auto split: prod.split option.split)
  qed
qed

lemma rq_run_wake:
  "n < length (wakes q) \<Longrightarrow> rev (wakes q) ! n = x \<Longrightarrow> wake_streak q \<le> 3 \<Longrightarrow>
     4 * n + wake_rank (wake_streak q) \<le> dispatches es \<Longrightarrow> x \<in> set (fst (rq_run es q))"
proof (induction es q arbitrary: n rule: rq_run.induct)
  case (1 q)
  then show ?case by (auto simp: wake_rank_def split: if_splits)
next
  case (2 t es q)
  show ?case using "2.IH"[of n] "2.prems" by (simp add: rq_push_back_def)
next
  case (3 t es q)
  show ?case using "3.IH"[of n] "3.prems" by (simp add: rq_push_wake_def nth_append)
next
  case (4 es q)
  obtain r q1 where pop: "rq_pop_front q = (r, q1)" by fastforce
  from wake_dispatch_step[OF "4.prems"(1-3) pop] show ?case
  proof
    assume "r = Some x"
    with pop show ?thesis by (auto split: prod.split)
  next
    assume "\<exists>m. m < length (wakes q1) \<and> rev (wakes q1) ! m = x \<and> wake_streak q1 \<le> 3 \<and>
      4 * m + wake_rank (wake_streak q1) < 4 * n + wake_rank (wake_streak q)"
    then obtain m where m: "m < length (wakes q1)" "rev (wakes q1) ! m = x" "wake_streak q1 \<le> 3"
      "4 * m + wake_rank (wake_streak q1) < 4 * n + wake_rank (wake_streak q)" by blast
    have "x \<in> set (fst (rq_run es q1))"
      using "4.prems"(4) m by (intro "4.IH"[OF pop[symmetric] refl, of m]) auto
    with pop show ?thesis by (auto split: prod.split option.split)
  qed
qed

lemma rq_run_mset: "rq_run es q = (ts, q') \<Longrightarrow> mset ts + rq_mset q' = rq_mset q + pushed es"
proof (induction es q arbitrary: ts rule: rq_run.induct)
  case (4 es q)
  obtain r q1 where pop: "rq_pop_front q = (r, q1)" by fastforce
  obtain ts1 q2 where run: "rq_run es q1 = (ts1, q2)" by fastforce
  from "4.prems" pop run have "mset ts = opt_mset r + mset ts1" "q' = q2"
    by (auto simp: opt_mset_def split: option.splits)
  with "4.IH"[OF pop[symmetric] refl] run rq_pop_front_mset[OF pop] show ?case
    by (simp add: ac_simps) (metis add.assoc add.commute)
qed (auto simp: rq_push_back_def rq_push_wake_def rq_mset_def)

section \<open>Inspection removes exactly the matches\<close>

lemma scan_lane_split:
  "scan_lane p (length a) (a @ b) =
     (case dropWhile (\<lambda>x. \<not> p x) a of
        [] \<Rightarrow> Inr (None, b @ a, 0)
      | x # v \<Rightarrow> Inr (Some x, v @ b @ takeWhile (\<lambda>x. \<not> p x) a, length v))"
proof (induction a arbitrary: b)
  case Nil
  then show ?case by simp
next
  case (Cons x a)
  show ?case
    using Cons.IH[of "b @ [x]"] by (cases "dropWhile (\<lambda>x. \<not> p x) a") (auto simp del: dropWhile_eq_Nil_conv)
qed

text \<open>
  A cleanup runs \<open>remove_matching\<close> until it finds nothing more. \<open>fuel\<close> bounds the number
  of calls; one call per entry and a last one suffice.
\<close>

fun rq_drain :: "nat \<Rightarrow> ('k \<Rightarrow> bool) \<Rightarrow> inspection \<Rightarrow> 'k ready_queue \<Rightarrow> ('k list \<times> 'k ready_queue) result_p option" where
  "rq_drain 0 p ins q = None"
| "rq_drain (Suc fuel) p ins q =
     (case rq_remove_matching p ins q of
        Inl e \<Rightarrow> Some (Inl e)
      | Inr (None, ins1, q1) \<Rightarrow> Some (Inr ([], q1))
      | Inr (Some t, ins1, q1) \<Rightarrow>
          (case rq_drain fuel p ins1 q1 of
             None \<Rightarrow> None | Some (Inl e) \<Rightarrow> Some (Inl e) | Some (Inr (ts, q2)) \<Rightarrow> Some (Inr (t # ts, q2))))"

lemma dropWhile_Nil_filter: "dropWhile (\<lambda>x. \<not> p x) a = [] \<Longrightarrow> filter p a = [] \<and> filter (\<lambda>x. \<not> p x) a = a"
  by (auto simp: dropWhile_eq_Nil_conv filter_empty_conv filter_id_conv)

lemma dropWhile_Cons_filter:
  assumes "dropWhile (\<lambda>x. \<not> p x) a = x # v"
  shows "filter p a = x # filter p v" "p x"
    "filter (\<lambda>x. \<not> p x) a = takeWhile (\<lambda>x. \<not> p x) a @ filter (\<lambda>x. \<not> p x) v" "length v < length a"
proof -
  have a: "a = takeWhile (\<lambda>x. \<not> p x) a @ x # v"
    using assms by (metis takeWhile_dropWhile_id)
  show "p x" using assms by (metis dropWhile_eq_Cons_conv)
  have "filter p (takeWhile (\<lambda>x. \<not> p x) a) = []" "filter (\<lambda>x. \<not> p x) (takeWhile (\<lambda>x. \<not> p x) a) = takeWhile (\<lambda>x. \<not> p x) a"
    by (auto simp: filter_empty_conv filter_id_conv dest: set_takeWhileD)
  then show "filter p a = x # filter p v"
    "filter (\<lambda>x. \<not> p x) a = takeWhile (\<lambda>x. \<not> p x) a @ filter (\<lambda>x. \<not> p x) v"
    using \<open>p x\<close> by (subst a, simp)+
  show "length v < length a" by (subst a) simp
qed

lemma rq_drain_general:
  assumes "normal q = a @ b" "wakes q = c @ d" "ins = \<lparr>rem_normal = length a, rem_wakes = length c\<rparr>"
    "length a + length c < fuel"
  shows "rq_drain fuel p ins q = Some (Inr (filter p a @ filter p c,
           q\<lparr>normal := b @ filter (\<lambda>x. \<not> p x) a, wakes := d @ filter (\<lambda>x. \<not> p x) c\<rparr>))"
  using assms
proof (induction fuel arbitrary: a b c d ins q)
  case 0
  then show ?case by simp
next
  case (Suc fuel)
  show ?case
  proof (cases "dropWhile (\<lambda>x. \<not> p x) a")
    case (Cons x v)
    note f = dropWhile_Cons_filter[OF Cons]
    let ?q = "q\<lparr>normal := v @ b @ takeWhile (\<lambda>x. \<not> p x) a\<rparr>" and ?i = "ins\<lparr>rem_normal := length v\<rparr>"
    have "rq_remove_matching p ins q = Inr (Some x, ?i, ?q)"
      using Suc.prems Cons by (simp add: rq_remove_matching_def scan_lane_split)
    moreover have "rq_drain fuel p ?i ?q = Some (Inr (filter p v @ filter p c,
        ?q\<lparr>normal := (b @ takeWhile (\<lambda>x. \<not> p x) a) @ filter (\<lambda>x. \<not> p x) v, wakes := d @ filter (\<lambda>x. \<not> p x) c\<rparr>))"
      using Suc.prems f(4) by (intro Suc.IH) auto
    ultimately show ?thesis using f by simp
  next
    case Nil
    note fa = dropWhile_Nil_filter[OF Nil]
    show ?thesis
    proof (cases "dropWhile (\<lambda>x. \<not> p x) c")
      case (Cons x v)
      note f = dropWhile_Cons_filter[OF Cons]
      let ?q = "q\<lparr>normal := b @ a, wakes := v @ d @ takeWhile (\<lambda>x. \<not> p x) c\<rparr>"
        and ?i = "ins\<lparr>rem_normal := 0, rem_wakes := length v\<rparr>"
      have "rq_remove_matching p ins q = Inr (Some x, ?i, ?q)"
        using Suc.prems Nil Cons by (simp add: rq_remove_matching_def scan_lane_split del: dropWhile_eq_Nil_conv)
      moreover have "rq_drain fuel p ?i ?q = Some (Inr (filter p [] @ filter p v,
          ?q\<lparr>normal := (b @ a) @ filter (\<lambda>x. \<not> p x) [],
             wakes := (d @ takeWhile (\<lambda>x. \<not> p x) c) @ filter (\<lambda>x. \<not> p x) v\<rparr>))"
        using Suc.prems f(4) by (intro Suc.IH) auto
      ultimately show ?thesis using f fa by simp
    next
      case Nil2: Nil
      then show ?thesis
        using Suc.prems Nil fa dropWhile_Nil_filter[OF Nil2]
        by (simp add: rq_remove_matching_def scan_lane_split del: dropWhile_eq_Nil_conv)
    qed
  qed
qed

section \<open>Selection under a filter\<close>

lemma last_position_None: "last_position p xs = None \<longleftrightarrow> position p xs = None"
  by (simp add: last_position_def position_None_iff)

lemma rq_pop_matching_no_panic: "\<exists>r. rq_pop_matching p q = Inr r"
  by (auto simp: rq_pop_matching_def Let_def last_position_None split: option.split)

lemma position_True: "position (\<lambda>_. True) xs = (if xs = [] then None else Some 0)"
  by (cases xs) auto

lemma last_position_True: "last_position (\<lambda>_. True) xs = (if xs = [] then None else Some (length xs - 1))"
  by (simp add: last_position_def position_True)

lemma remove_at_last: "xs \<noteq> [] \<Longrightarrow> remove_at (length xs - 1) xs = butlast xs"
  by (simp add: remove_at_def butlast_conv_take)

lemma last_position_Some_D: "last_position p xs = Some i \<Longrightarrow> i < length xs \<and> p (xs ! i)"
  by (auto simp: last_position_def rev_nth dest!: position_Some_D)

lemma rq_mset_remove_normal:
  "i < length (normal q) \<Longrightarrow> add_mset (normal q ! i) (rq_mset (q\<lparr>normal := remove_at i (normal q), wake_streak := n\<rparr>)) = rq_mset q"
  using mset_remove_at[of i "normal q"] by (simp add: rq_mset_def flip: union_mset_add_mset_left)

lemma rq_mset_remove_wake:
  "i < length (wakes q) \<Longrightarrow> add_mset (wakes q ! i) (rq_mset (q\<lparr>wakes := remove_at i (wakes q), wake_streak := n\<rparr>)) = rq_mset q"
  using mset_remove_at[of i "wakes q"] by (simp add: rq_mset_def flip: union_mset_add_mset_right)

lemma rq_pop_matching_sound:
  assumes "rq_pop_matching p q = Inr (r, q')"
  shows "opt_mset r + rq_mset q' = rq_mset q
     \<and> (case r of None \<Rightarrow> list_all (\<lambda>t. \<not> p t) (normal q @ wakes q) | Some t \<Rightarrow> p t)"
  using assms
  by (cases "position p (normal q)")
    (auto simp: rq_pop_matching_def Let_def opt_mset_def rq_mset_remove_normal rq_mset_remove_wake
      list_all_iff position_None_iff dest: position_Some_D last_position_Some_D split: option.splits if_splits)

lemma rq_pop_matching_all: "rq_is_empty q \<or> rq_pop_matching (\<lambda>_. True) q = Inr (rq_pop_front q)"
  by (cases "normal q"; cases "wakes q")
    (auto simp: rq_pop_matching_def Let_def rq_is_empty_def rq_defs position_True last_position_True
      last_conv_nth remove_at_last[of "_ # _", simplified])

section \<open>Properties\<close>



text \<open>
  A cleanup inspection sees every entry once: running \<open>remove_matching\<close> until it finds
  nothing returns exactly the matching entries, normal lane first, and leaves the others in
  their lanes in their original order with the dispatch cohort unchanged; it never panics.
\<close>

theorem inspection_removes_exactly_matches:
  "rq_drain (rq_len q + 1) p (rq_inspection q) q =
     Some (Inr (filter p (normal q) @ filter p (wakes q),
                q\<lparr>normal := filter (\<lambda>x. \<not> p x) (normal q), wakes := filter (\<lambda>x. \<not> p x) (wakes q)\<rparr>))"
  using rq_drain_general[of q "normal q" "[]" "wakes q" "[]" "rq_inspection q" "rq_len q + 1" p]
  by (simp add: rq_inspection_def rq_len_def)

text \<open>
  Selection under a filter never panics, serves only eligible entries, removes exactly
  the served entry, serves something whenever an eligible entry exists, and with every entry
  eligible is the ordinary dispatch policy.
\<close>

theorem pop_matching_policy:
  "\<exists>r q'. rq_pop_matching p q = Inr (r, q')
     \<and> opt_mset r + rq_mset q' = rq_mset q
     \<and> (case r of None \<Rightarrow> list_all (\<lambda>t. \<not> p t) (normal q @ wakes q) | Some t \<Rightarrow> p t)
     \<and> (rq_is_empty q \<or> rq_pop_matching (\<lambda>_. True) q = Inr (rq_pop_front q))"
proof -
  obtain r q' where pop: "rq_pop_matching p q = Inr (r, q')"
    using rq_pop_matching_no_panic[of p q] by auto
  then show ?thesis
    using rq_pop_matching_sound[OF pop] rq_pop_matching_all[of q] by blast
qed

end
