(* ===== verification/Timer_Queue.thy ===== *)
theory Timer_Queue
  imports Task_Slab
begin

text \<open>
  Carrier-local timers (timer.rs): an ordered set of deadlines and a map of active
  registrations that are kept in step, so that expiry never meets a missing registration.
\<close>

section \<open>State and operations\<close>

record expired_timer =
  et_task :: task_key
  et_token :: park_token

record timer_registration =
  tr_deadline :: instant
  tr_task :: task_key

text \<open>
  The B-tree set of deadlines is its sorted list of elements; the B-tree map of active
  registrations is an association list.
\<close>

record timer_queue =
  deadlines :: "(instant \<times> park_token) list"
  active :: "(park_token \<times> timer_registration) list"

definition tq_new :: timer_queue where
  "tq_new = \<lparr>deadlines = [], active = []\<rparr>"

definition tq_schedule :: "task_key \<Rightarrow> park_token \<Rightarrow> instant \<Rightarrow> timer_queue \<Rightarrow> bool \<times> timer_queue" where
  "tq_schedule task token deadline q =
     (if kv_get (active q) token \<noteq> None then (False, q)
      else (True, \<lparr>deadlines = insort_insert (deadline, token) (deadlines q),
                   active = kv_put token \<lparr>tr_deadline = deadline, tr_task = task\<rparr> (active q)\<rparr>))"

definition tq_cancel :: "park_token \<Rightarrow> timer_queue \<Rightarrow> bool \<times> timer_queue" where
  "tq_cancel token q =
     (case kv_get (active q) token of
        None \<Rightarrow> (False, q)
      | Some r \<Rightarrow> ((tr_deadline r, token) \<in> set (deadlines q),
                   \<lparr>deadlines = remove1 (tr_deadline r, token) (deadlines q),
                    active = kv_del token (active q)\<rparr>))"

definition tq_active_count :: "timer_queue \<Rightarrow> nat" where
  "tq_active_count q = length (active q)"

definition tq_next_deadline :: "timer_queue \<Rightarrow> instant option" where
  "tq_next_deadline q = (case deadlines q of [] \<Rightarrow> None | (d, _) # _ \<Rightarrow> Some d)"

fun tq_pop_loop :: "instant \<Rightarrow> (instant \<times> park_token) list \<Rightarrow> (park_token \<times> timer_registration) list \<Rightarrow>
    expired_timer list \<Rightarrow> (expired_timer list \<times> timer_queue) result_p" where
  "tq_pop_loop now [] act expired = Inr (expired, \<lparr>deadlines = [], active = act\<rparr>)"
| "tq_pop_loop now ((deadline, token) # ds) act expired =
     (if now < deadline then Inr (expired, \<lparr>deadlines = (deadline, token) # ds, active = act\<rparr>)
      else (case kv_get act token of
              None \<Rightarrow> Inl (Panic ''active timer deadline'')
            | Some r \<Rightarrow>
                if tr_deadline r \<noteq> deadline then Inl (Panic ''active timer deadline'')
                else tq_pop_loop now ds (kv_del token act)
                       (expired @ [\<lparr>et_task = tr_task r, et_token = token\<rparr>])))"

definition tq_pop_expired :: "instant \<Rightarrow> timer_queue \<Rightarrow> (expired_timer list \<times> timer_queue) result_p" where
  "tq_pop_expired now q = tq_pop_loop now (deadlines q) (active q) []"

section \<open>Invariant\<close>

text \<open>The deadline set is the image of the active registrations.\<close>

definition tq_rel :: "(instant \<times> park_token) list \<Rightarrow> (park_token \<times> timer_registration) list \<Rightarrow> bool" where
  "tq_rel ds act \<longleftrightarrow> sorted ds \<and> distinct ds \<and> kv_wf act \<and>
     (\<forall>d t. (d, t) \<in> set ds \<longleftrightarrow> (\<exists>r. kv_get act t = Some r \<and> tr_deadline r = d))"

definition tq_inv :: "timer_queue \<Rightarrow> bool" where
  "tq_inv q \<longleftrightarrow> tq_rel (deadlines q) (active q)"

lemma tq_rel_unique: "tq_rel ds act \<Longrightarrow> (d, t) \<in> set ds \<Longrightarrow> (e, t) \<in> set ds \<Longrightarrow> d = e"
  by (metis option.inject tq_rel_def)

lemma tq_rel_iff: "tq_rel ds act \<Longrightarrow> (d, t) \<in> set ds \<longleftrightarrow> (\<exists>r. kv_get act t = Some r \<and> tr_deadline r = d)"
  by (simp add: tq_rel_def)

lemma tq_inv_new: "tq_inv tq_new"
  by (simp add: tq_inv_def tq_rel_def tq_new_def)

lemma tq_schedule_inv:
  assumes "tq_inv q"
  shows "tq_inv (snd (tq_schedule task token d q))"
  using assms
  by (auto simp: tq_inv_def tq_rel_def tq_schedule_def set_insort_insert sorted_insort_insert
      distinct_insort_insert)

lemma tq_cancel_inv:
  assumes "tq_inv q"
  shows "tq_inv (snd (tq_cancel t q))"
  using assms
  by (auto simp: tq_inv_def tq_rel_def tq_cancel_def sorted_remove1 split: option.split)

lemma tq_cancel_fst: "tq_inv q \<Longrightarrow> fst (tq_cancel t q) \<longleftrightarrow> kv_get (active q) t \<noteq> None"
  by (auto simp: tq_inv_def tq_rel_def tq_cancel_def split: option.split)

lemma tq_count_deadlines:
  assumes "tq_inv q"
  shows "tq_active_count q = length (deadlines q)"
proof -
  have rel: "tq_rel (deadlines q) (active q)" using assms by (simp add: tq_inv_def)
  have "t \<in> snd ` set (deadlines q) \<longleftrightarrow> t \<in> kv_keys (active q)" for t
  proof -
    have "t \<in> snd ` set (deadlines q) \<longleftrightarrow> (\<exists>d. (d, t) \<in> set (deadlines q))" by force
    also have "\<dots> \<longleftrightarrow> kv_get (active q) t \<noteq> None" using rel by (auto simp: tq_rel_def)
    finally show ?thesis by (simp add: kv_get_None_iff)
  qed
  then have "snd ` set (deadlines q) = kv_keys (active q)" by blast
  moreover have "inj_on snd (set (deadlines q))"
    using tq_rel_unique[OF rel] by (auto simp: inj_on_def)
  ultimately have "card (kv_keys (active q)) = card (set (deadlines q))"
    using card_image[of snd "set (deadlines q)"] by simp
  then show ?thesis
    using assms kv_card[of "active q"] distinct_card[of "deadlines q"]
    by (simp add: tq_inv_def tq_rel_def tq_active_count_def)
qed

section \<open>Expiry\<close>

lemma tq_rel_tl:
  assumes "tq_rel ((d, t) # ds) act" "kv_get act t = Some r"
  shows "tq_rel ds (kv_del t act)"
proof -
  have none: "(e, t) \<notin> set ds" for e
    using tq_rel_unique[OF assms(1), of d t e] assms(1) by (auto simp: tq_rel_def)
  have "(e, u) \<in> set ds \<longleftrightarrow> (\<exists>r. kv_get (kv_del t act) u = Some r \<and> tr_deadline r = e)" for e u
    using tq_rel_iff[OF assms(1), of e u] none by (cases "u = t") auto
  with assms show ?thesis by (simp add: tq_rel_def)
qed

text \<open>The expired timers a deadline list denotes, in its order.\<close>

definition expired_of :: "(park_token \<times> timer_registration) list \<Rightarrow> (instant \<times> park_token) list \<Rightarrow> expired_timer list" where
  "expired_of act ds = map (\<lambda>(d, t). \<lparr>et_task = tr_task (the (kv_get act t)), et_token = t\<rparr>) ds"

lemma expired_of_del: "t \<notin> snd ` set ds \<Longrightarrow> expired_of (kv_del t act) ds = expired_of act ds"
  by (force simp: expired_of_def)

lemma tq_pop_loop_spec:
  assumes "tq_rel ds act"
  shows "\<exists>act'. tq_pop_loop now ds act acc =
      Inr (acc @ expired_of act (filter (\<lambda>(d, t). d \<le> now) ds),
           \<lparr>deadlines = filter (\<lambda>(d, t). now < d) ds, active = act'\<rparr>)
    \<and> tq_rel (filter (\<lambda>(d, t). now < d) ds) act'
    \<and> (\<forall>t. kv_get act' t = (case kv_get act t of None \<Rightarrow> None | Some r \<Rightarrow> if now < tr_deadline r then Some r else None))"
  using assms
proof (induction ds arbitrary: act acc)
  case Nil
  then have "kv_get act t = None" for t by (cases "kv_get act t") (auto simp: tq_rel_def)
  with Nil show ?case by (simp add: expired_of_def)
next
  case (Cons p ds)
  obtain d t where p: "p = (d, t)" by fastforce
  from tq_rel_iff[OF Cons.prems, of d t] p obtain r where r: "kv_get act t = Some r" "tr_deadline r = d"
    by auto
  show ?case
  proof (cases "now < d")
    case True
    have all: "\<forall>(e, u) \<in> set (p # ds). now < e"
      using Cons.prems True p by (auto simp: tq_rel_def less_eq_prod_def)
    then have f: "filter (\<lambda>(d, t). d \<le> now) (p # ds) = []" "filter (\<lambda>(d, t). now < d) (p # ds) = p # ds"
      by (auto simp: filter_empty_conv filter_id_conv)
    have "\<forall>u s. kv_get act u = Some s \<longrightarrow> now < tr_deadline s"
      using Cons.prems all unfolding tq_rel_def by (metis (no_types, lifting) case_prodD)
    with True f Cons.prems p show ?thesis
      by (auto simp: expired_of_def intro!: exI[of _ act] split: option.split)
  next
    case False
    have rel: "tq_rel ds (kv_del t act)"
      using Cons.prems p r tq_rel_tl by blast
    have fresh: "t \<notin> snd ` set (filter (\<lambda>(d, t). d \<le> now) ds)"
      using rel by (force simp: tq_rel_def)
    from Cons.IH[OF rel, of "acc @ [\<lparr>et_task = tr_task r, et_token = t\<rparr>]"] obtain act' where
      IH: "tq_pop_loop now ds (kv_del t act) (acc @ [\<lparr>et_task = tr_task r, et_token = t\<rparr>]) =
        Inr ((acc @ [\<lparr>et_task = tr_task r, et_token = t\<rparr>]) @ expired_of (kv_del t act) (filter (\<lambda>(d, t). d \<le> now) ds),
             \<lparr>deadlines = filter (\<lambda>(d, t). now < d) ds, active = act'\<rparr>)"
      "tq_rel (filter (\<lambda>(d, t). now < d) ds) act'"
      "\<forall>u. kv_get act' u = (case kv_get (kv_del t act) u of None \<Rightarrow> None | Some r \<Rightarrow> if now < tr_deadline r then Some r else None)"
      by blast
    have "expired_of act (filter (\<lambda>(d, t). d \<le> now) (p # ds)) =
        \<lparr>et_task = tr_task r, et_token = t\<rparr> # expired_of (kv_del t act) (filter (\<lambda>(d, t). d \<le> now) ds)"
      using False p r by (simp add: expired_of_del[OF fresh]) (simp add: expired_of_def)
    with IH False p r show ?thesis
      by (intro exI[of _ act']) auto
  qed
qed

section \<open>Properties\<close>

text \<open>
  From any state reached by scheduling, cancelling and expiring, \<open>pop_expired\<close> never
  panics: it returns exactly the timers whose deadline has passed, in deadline order with
  their own tasks, and keeps every later timer.
\<close>

theorem timer_expiry_exact:
  assumes "tq_inv q"
  shows "\<exists>q'. tq_pop_expired now q = Inr (expired_of (active q) (filter (\<lambda>(d, t). d \<le> now) (deadlines q)), q')
    \<and> tq_inv q'
    \<and> deadlines q' = filter (\<lambda>(d, t). now < d) (deadlines q)
    \<and> (\<forall>t. kv_get (active q') t = (case kv_get (active q) t of None \<Rightarrow> None
          | Some r \<Rightarrow> if now < tr_deadline r then Some r else None))"
  using tq_pop_loop_spec[of "deadlines q" "active q" now "[]"] assms
  by (auto simp: tq_inv_def tq_pop_expired_def)

text \<open>A queue with two timers, one of them due.\<close>

definition timer_sample :: timer_queue where
  "timer_sample = snd (tq_schedule (TaskKey 2) (ParkToken 1 1) 5 (snd (tq_schedule (TaskKey 4) (ParkToken 2 1) 9 tq_new)))"

lemma timer_sample_value:
  "deadlines timer_sample = [(5, ParkToken 1 1), (9, ParkToken 2 1)]"
  "kv_get (active timer_sample) (ParkToken 1 1) = Some \<lparr>tr_deadline = 5, tr_task = TaskKey 2\<rparr>"
  by code_simp+

theorem timer_expiry_exact_witness:
  "\<exists>q'. tq_pop_expired 7 timer_sample = Inr ([\<lparr>et_task = TaskKey 2, et_token = ParkToken 1 1\<rparr>], q')
     \<and> deadlines q' = [(9, ParkToken 2 1)]"
proof -
  have "tq_inv timer_sample"
    unfolding timer_sample_def by (intro tq_schedule_inv tq_inv_new)
  from timer_expiry_exact[OF this, of 7] show ?thesis
    by (auto simp: timer_sample_value expired_of_def)
qed

end
