(* ===== verification/Wait_Word.thy ===== *)
theory Wait_Word
  imports Prelude
begin

unbundle bit_operations_syntax

text \<open>
  The compact atomic encoding of one reusable wait generation (wait_state.rs). The struct
  \<open>WaitWord\<close> packs a phase, a permit, a close marker, a resource selection, the hub choice and
  a 55-bit generation into one word. The packed accessors and updaters are modelled bit by
  bit, and shown to be the field accesses of a record: the operations of the later theories
  are written over that record.
\<close>

section \<open>Causes, resources and phases\<close>

datatype wake_cause = Ready | TimedOut | CancelledCause | InheritedCancelled | ClosedCause

datatype resource_selection = PermitRes | Broadcast

datatype phase =
    Idle | Binding | Active
  | ClaimReady | SelectedReady
  | ClaimTimedOut | SelectedTimedOut
  | ClaimCancelled | SelectedCancelled
  | ClaimInheritedCancelled | SelectedInheritedCancelled
  | ClaimClosed | SelectedClosed

text \<open>The discriminants of the \<open>repr(u8)\<close> enum.\<close>

fun phase_code :: "phase \<Rightarrow> u64" where
  "phase_code Idle = 0" | "phase_code Binding = 1" | "phase_code Active = 2"
| "phase_code ClaimReady = 3" | "phase_code SelectedReady = 4"
| "phase_code ClaimTimedOut = 5" | "phase_code SelectedTimedOut = 6"
| "phase_code ClaimCancelled = 7" | "phase_code SelectedCancelled = 8"
| "phase_code ClaimInheritedCancelled = 9" | "phase_code SelectedInheritedCancelled = 10"
| "phase_code ClaimClosed = 11" | "phase_code SelectedClosed = 12"

definition phase_decode :: "u64 \<Rightarrow> phase result_p" where
  "phase_decode c =
     (if c = 0 then Inr Idle else if c = 1 then Inr Binding else if c = 2 then Inr Active
      else if c = 3 then Inr ClaimReady else if c = 4 then Inr SelectedReady
      else if c = 5 then Inr ClaimTimedOut else if c = 6 then Inr SelectedTimedOut
      else if c = 7 then Inr ClaimCancelled else if c = 8 then Inr SelectedCancelled
      else if c = 9 then Inr ClaimInheritedCancelled else if c = 10 then Inr SelectedInheritedCancelled
      else if c = 11 then Inr ClaimClosed else if c = 12 then Inr SelectedClosed
      else Inl (Panic ''invalid wait phase''))"

section \<open>The packed word\<close>

definition PHASE_MASK :: u64 where "PHASE_MASK = 0x0f"
definition PERMIT :: u64 where "PERMIT = push_bit 4 1"
definition CLOSED :: u64 where "CLOSED = push_bit 5 1"
definition RESOURCE_SHIFT :: nat where "RESOURCE_SHIFT = 6"
definition RESOURCE_MASK :: u64 where "RESOURCE_MASK = push_bit RESOURCE_SHIFT 0x03"
definition FALLBACK_HUB :: u64 where "FALLBACK_HUB = push_bit 8 1"
definition GENERATION_SHIFT :: nat where "GENERATION_SHIFT = 9"
definition MAX_GENERATION :: u64 where "MAX_GENERATION = drop_bit GENERATION_SHIFT (- 1)"

definition raw_phase :: "u64 \<Rightarrow> phase result_p" where
  "raw_phase w = phase_decode (w AND PHASE_MASK)"

definition raw_generation :: "u64 \<Rightarrow> u64" where
  "raw_generation w = drop_bit GENERATION_SHIFT w"

definition raw_has_permit :: "u64 \<Rightarrow> bool" where
  "raw_has_permit w \<longleftrightarrow> w AND PERMIT \<noteq> 0"

definition raw_needs_recycle :: "u64 \<Rightarrow> bool" where
  "raw_needs_recycle w \<longleftrightarrow> w AND (PERMIT OR RESOURCE_MASK) \<noteq> 0"

definition raw_is_closed :: "u64 \<Rightarrow> bool" where
  "raw_is_closed w \<longleftrightarrow> w AND CLOSED \<noteq> 0"

definition raw_uses_fallback_hub :: "u64 \<Rightarrow> bool" where
  "raw_uses_fallback_hub w \<longleftrightarrow> w AND FALLBACK_HUB \<noteq> 0"

definition resource_decode :: "u64 \<Rightarrow> resource_selection option result_p" where
  "resource_decode c = (if c = 0 then Inr None else if c = 1 then Inr (Some PermitRes)
     else if c = 2 then Inr (Some Broadcast) else Inl (Panic ''invalid wait resource''))"

definition raw_resource :: "u64 \<Rightarrow> resource_selection option result_p" where
  "raw_resource w = resource_decode (drop_bit RESOURCE_SHIFT (w AND RESOURCE_MASK))"

definition raw_with_phase :: "phase \<Rightarrow> u64 \<Rightarrow> u64" where
  "raw_with_phase p w = (w AND NOT PHASE_MASK) OR phase_code p"

definition raw_with_generation :: "u64 \<Rightarrow> u64 \<Rightarrow> u64" where
  "raw_with_generation g w = (w AND (push_bit GENERATION_SHIFT 1 - 1)) OR push_bit GENERATION_SHIFT g"

definition raw_with_permit :: "bool \<Rightarrow> u64 \<Rightarrow> u64" where
  "raw_with_permit b w = (if b then w OR PERMIT else w AND NOT PERMIT)"

definition raw_with_closed :: "bool \<Rightarrow> u64 \<Rightarrow> u64" where
  "raw_with_closed b w = (if b then w OR CLOSED else w AND NOT CLOSED)"

definition raw_with_fallback_hub :: "bool \<Rightarrow> u64 \<Rightarrow> u64" where
  "raw_with_fallback_hub b w = (if b then w OR FALLBACK_HUB else w AND NOT FALLBACK_HUB)"

fun resource_code :: "resource_selection option \<Rightarrow> u64" where
  "resource_code None = 0" | "resource_code (Some PermitRes) = 1" | "resource_code (Some Broadcast) = 2"

definition raw_with_resource :: "resource_selection option \<Rightarrow> u64 \<Rightarrow> u64" where
  "raw_with_resource r w = (w AND NOT RESOURCE_MASK) OR push_bit RESOURCE_SHIFT (resource_code r)"

section \<open>The word as a record\<close>

record wait_word =
  ww_phase :: phase
  ww_permit :: bool
  ww_closed :: bool
  ww_resource :: "resource_selection option"
  ww_fallback :: bool
  ww_generation :: u64

definition ww_initial :: wait_word where
  "ww_initial = \<lparr>ww_phase = Idle, ww_permit = False, ww_closed = False, ww_resource = None,
                 ww_fallback = False, ww_generation = 0\<rparr>"

definition pack :: "wait_word \<Rightarrow> u64" where
  "pack v = phase_code (ww_phase v) OR (if ww_permit v then PERMIT else 0)
     OR (if ww_closed v then CLOSED else 0) OR push_bit RESOURCE_SHIFT (resource_code (ww_resource v))
     OR (if ww_fallback v then FALLBACK_HUB else 0) OR push_bit GENERATION_SHIFT (ww_generation v)"

definition ww_wf :: "wait_word \<Rightarrow> bool" where
  "ww_wf v \<longleftrightarrow> ww_generation v \<le> MAX_GENERATION"

section \<open>Bits of the packed word\<close>

lemma phase_code_take: "take_bit 4 (phase_code p) = phase_code p"
  by (cases p) simp_all

lemma resource_code_take: "take_bit 2 (resource_code r) = resource_code r"
  by (cases r rule: resource_code.cases) simp_all

lemma phase_code_bits: "bit (phase_code p) n \<Longrightarrow> n < 4"
  by (metis phase_code_take bit_take_bit_iff)

lemma resource_code_bits: "bit (resource_code r) n \<Longrightarrow> n < 2"
  by (metis resource_code_take bit_take_bit_iff)

lemma PHASE_MASK_mask: "PHASE_MASK = mask 4"
  by (simp add: PHASE_MASK_def mask_eq_exp_minus_1)

lemma RESOURCE_MASK_mask: "RESOURCE_MASK = push_bit 6 (mask 2)"
  by (simp add: RESOURCE_MASK_def RESOURCE_SHIFT_def mask_eq_exp_minus_1)

lemma generation_low_mask: "push_bit GENERATION_SHIFT 1 - 1 = (mask 9 :: u64)"
  by (simp add: GENERATION_SHIFT_def mask_eq_exp_minus_1)

lemma MAX_GENERATION_unat: "unat MAX_GENERATION = 2 ^ 55 - 1"
  by (simp add: MAX_GENERATION_def GENERATION_SHIFT_def unat_drop_bit_eq drop_bit_eq_div)

lemma layout_bits:
  "bit PHASE_MASK n \<longleftrightarrow> n < 4"
  "bit PERMIT n \<longleftrightarrow> n = 4"
  "bit CLOSED n \<longleftrightarrow> n = 5"
  "bit RESOURCE_MASK n \<longleftrightarrow> 6 \<le> n \<and> n < 8"
  "bit FALLBACK_HUB n \<longleftrightarrow> n = 8"
proof -
  show "bit PHASE_MASK n \<longleftrightarrow> n < 4"
    unfolding PHASE_MASK_mask by (auto simp: bit_mask_iff)
  show "bit PERMIT n \<longleftrightarrow> n = 4"
    unfolding PERMIT_def bit_push_bit_iff bit_1_iff by auto
  show "bit CLOSED n \<longleftrightarrow> n = 5"
    unfolding CLOSED_def bit_push_bit_iff bit_1_iff by auto
  show "bit RESOURCE_MASK n \<longleftrightarrow> 6 \<le> n \<and> n < 8"
    unfolding RESOURCE_MASK_mask bit_push_bit_iff bit_mask_iff by auto
  show "bit FALLBACK_HUB n \<longleftrightarrow> n = 8"
    unfolding FALLBACK_HUB_def bit_push_bit_iff bit_1_iff by auto
qed

lemmas field_bits = layout_bits bit_and_iff bit_or_iff bit_not_iff bit_push_bit_iff
  RESOURCE_SHIFT_def GENERATION_SHIFT_def

text \<open>Each bit position belongs to exactly one field.\<close>

lemma bit_pack:
  assumes "n < 64"
  shows "bit (pack v) n \<longleftrightarrow>
     (if n < 4 then bit (phase_code (ww_phase v)) n
      else if n = 4 then ww_permit v
      else if n = 5 then ww_closed v
      else if n < 8 then bit (resource_code (ww_resource v)) (n - 6)
      else if n = 8 then ww_fallback v
      else bit (ww_generation v) (n - 9))"
proof -
  have p: "\<not> bit (phase_code (ww_phase v)) n" if "4 \<le> n"
    using that phase_code_bits by fastforce
  have r: "\<not> bit (resource_code (ww_resource v)) (n - 6)" if "8 \<le> n"
    using that resource_code_bits by fastforce
  have "bit (pack v) n \<longleftrightarrow> bit (phase_code (ww_phase v)) n \<or> (n = 4 \<and> ww_permit v) \<or> (n = 5 \<and> ww_closed v)
      \<or> (6 \<le> n \<and> bit (resource_code (ww_resource v)) (n - 6)) \<or> (n = 8 \<and> ww_fallback v)
      \<or> (9 \<le> n \<and> bit (ww_generation v) (n - 9))"
    using assms by (simp add: pack_def field_bits)
  moreover consider "n < 4" | "n = 4" | "n = 5" | "6 \<le> n" "n < 8" | "n = 8" | "9 \<le> n" by linarith
  ultimately show ?thesis
    by cases (simp_all add: p r)
qed

named_theorems ww_pack \<open>packed accessors and updaters as record operations\<close>

lemma raw_phase_pack [ww_pack]: "raw_phase (pack v) = Inr (ww_phase v)"
proof -
  have "pack v AND PHASE_MASK = phase_code (ww_phase v)"
    by (rule bit_word_eqI)
      (auto simp: bit_pack field_bits dest: phase_code_bits)
  then show ?thesis
    by (cases "ww_phase v") (simp_all add: raw_phase_def phase_decode_def)
qed

lemma raw_resource_pack [ww_pack]: "raw_resource (pack v) = Inr (ww_resource v)"
proof -
  have "drop_bit RESOURCE_SHIFT (pack v AND RESOURCE_MASK) = resource_code (ww_resource v)"
  proof (rule bit_word_eqI)
    fix n
    assume "n < LENGTH(64)"
    show "bit (drop_bit RESOURCE_SHIFT (pack v AND RESOURCE_MASK)) n = bit (resource_code (ww_resource v)) n"
      by (cases "n < 2") (auto simp: bit_drop_bit_eq field_bits bit_pack dest: resource_code_bits)
  qed
  then show ?thesis
    by (cases "ww_resource v" rule: resource_code.cases) (simp_all add: raw_resource_def resource_decode_def)
qed

lemma and_single_bit: "n < 64 \<Longrightarrow> (w :: u64) AND push_bit n 1 \<noteq> 0 \<longleftrightarrow> bit w n"
  unfolding bit_eq_iff by (auto simp: bit_and_iff bit_push_bit_iff bit_1_iff simp del: push_bit_of_1)

lemma raw_flags_pack [ww_pack]:
  "raw_has_permit (pack v) = ww_permit v"
  "raw_is_closed (pack v) = ww_closed v"
  "raw_uses_fallback_hub (pack v) = ww_fallback v"
  unfolding raw_has_permit_def raw_is_closed_def raw_uses_fallback_hub_def PERMIT_def CLOSED_def FALLBACK_HUB_def
  by (subst and_single_bit; simp add: bit_pack)+

lemma raw_generation_pack [ww_pack]:
  assumes "ww_wf v"
  shows "raw_generation (pack v) = ww_generation v"
proof (rule bit_word_eqI)
  fix n
  assume "n < LENGTH(64)"
  have "take_bit 55 (ww_generation v) = ww_generation v"
    using assms MAX_GENERATION_unat by (simp add: ww_wf_def word_le_nat_alt take_bit_eq_mod word_unat_eq_iff unat_mod)
  then have "\<not> bit (ww_generation v) n" if "55 \<le> n"
    using that by (metis bit_take_bit_iff not_le)
  then show "bit (raw_generation (pack v)) n = bit (ww_generation v) n"
    by (cases "n < 55") (auto simp: raw_generation_def GENERATION_SHIFT_def bit_drop_bit_eq bit_pack dest: bit_imp_le_length)
qed

lemma raw_needs_recycle_pack [ww_pack]:
  "raw_needs_recycle (pack v) \<longleftrightarrow> ww_permit v \<or> ww_resource v \<noteq> None"
proof -
  have "pack v AND (PERMIT OR RESOURCE_MASK) =
      (if ww_permit v then PERMIT else 0) OR push_bit 6 (resource_code (ww_resource v))"
    by (rule bit_word_eqI) (auto simp: field_bits bit_pack dest: resource_code_bits)
  then show ?thesis
    by (cases "ww_permit v"; cases "ww_resource v" rule: resource_code.cases)
      (simp_all add: raw_needs_recycle_def PERMIT_def)
qed

lemma raw_updates_pack [ww_pack]:
  "raw_with_phase p (pack v) = pack (v\<lparr>ww_phase := p\<rparr>)"
  "raw_with_generation g (pack v) = pack (v\<lparr>ww_generation := g\<rparr>)"
  "raw_with_permit b (pack v) = pack (v\<lparr>ww_permit := b\<rparr>)"
  "raw_with_closed b (pack v) = pack (v\<lparr>ww_closed := b\<rparr>)"
  "raw_with_fallback_hub b (pack v) = pack (v\<lparr>ww_fallback := b\<rparr>)"
  "raw_with_resource r (pack v) = pack (v\<lparr>ww_resource := r\<rparr>)"
proof -
  show "raw_with_phase p (pack v) = pack (v\<lparr>ww_phase := p\<rparr>)"
    by (rule bit_word_eqI) (auto simp: raw_with_phase_def field_bits bit_pack dest: phase_code_bits)
  show "raw_with_generation g (pack v) = pack (v\<lparr>ww_generation := g\<rparr>)"
    unfolding raw_with_generation_def generation_low_mask
    by (rule bit_word_eqI) (auto simp: field_bits bit_mask_iff bit_pack simp del: mask_numeral)
  show "raw_with_permit b (pack v) = pack (v\<lparr>ww_permit := b\<rparr>)"
    by (rule bit_word_eqI) (auto simp: raw_with_permit_def field_bits bit_pack)
  show "raw_with_closed b (pack v) = pack (v\<lparr>ww_closed := b\<rparr>)"
    by (rule bit_word_eqI) (auto simp: raw_with_closed_def field_bits bit_pack)
  show "raw_with_fallback_hub b (pack v) = pack (v\<lparr>ww_fallback := b\<rparr>)"
    by (rule bit_word_eqI) (auto simp: raw_with_fallback_hub_def field_bits bit_pack)
  show "raw_with_resource r (pack v) = pack (v\<lparr>ww_resource := r\<rparr>)"
    by (rule bit_word_eqI) (auto simp: raw_with_resource_def field_bits bit_pack dest: resource_code_bits)
qed

lemma pack_initial: "pack ww_initial = 0"
  by (simp add: pack_def ww_initial_def)

lemma pack_inject:
  assumes "ww_wf v" "ww_wf w" "pack v = pack w"
  shows "v = w"
proof -
  have "ww_phase v = ww_phase w" "ww_resource v = ww_resource w"
    using assms(3) raw_phase_pack[of v] raw_phase_pack[of w] raw_resource_pack[of v] raw_resource_pack[of w] by simp_all
  moreover have "ww_permit v = ww_permit w" "ww_closed v = ww_closed w" "ww_fallback v = ww_fallback w"
    using assms(3) raw_flags_pack[of v] raw_flags_pack[of w] by simp_all
  moreover have "ww_generation v = ww_generation w"
    using assms raw_generation_pack[of v] raw_generation_pack[of w] by simp
  ultimately show ?thesis by simp
qed

section \<open>Derived transitions\<close>

fun selected_cause_of :: "phase \<Rightarrow> wake_cause option" where
  "selected_cause_of SelectedReady = Some Ready"
| "selected_cause_of SelectedTimedOut = Some TimedOut"
| "selected_cause_of SelectedCancelled = Some CancelledCause"
| "selected_cause_of SelectedInheritedCancelled = Some InheritedCancelled"
| "selected_cause_of SelectedClosed = Some ClosedCause"
| "selected_cause_of _ = None"

definition selected_cause :: "wait_word \<Rightarrow> wake_cause option" where
  "selected_cause w = selected_cause_of (ww_phase w)"

definition is_claimed :: "wait_word \<Rightarrow> bool" where
  "is_claimed w \<longleftrightarrow> ww_phase w \<in> {ClaimReady, ClaimTimedOut, ClaimCancelled, ClaimInheritedCancelled, ClaimClosed}"

fun claim_phase :: "wake_cause \<Rightarrow> phase" where
  "claim_phase Ready = ClaimReady" | "claim_phase TimedOut = ClaimTimedOut"
| "claim_phase CancelledCause = ClaimCancelled"
| "claim_phase InheritedCancelled = ClaimInheritedCancelled" | "claim_phase ClosedCause = ClaimClosed"

definition claimed :: "wake_cause \<Rightarrow> wait_word \<Rightarrow> wait_word" where
  "claimed c w = w\<lparr>ww_phase := claim_phase c\<rparr>"

fun publish_phase :: "phase \<Rightarrow> phase result_p" where
  "publish_phase ClaimReady = Inr SelectedReady"
| "publish_phase ClaimTimedOut = Inr SelectedTimedOut"
| "publish_phase ClaimCancelled = Inr SelectedCancelled"
| "publish_phase ClaimInheritedCancelled = Inr SelectedInheritedCancelled"
| "publish_phase ClaimClosed = Inr SelectedClosed"
| "publish_phase _ = Inl (Panic ''only a claimed wait can be published'')"

definition publish_claim_word :: "wait_word \<Rightarrow> wait_word result_p" where
  "publish_claim_word w = map_sum id (\<lambda>p. w\<lparr>ww_phase := p\<rparr>) (publish_phase (ww_phase w))"

definition retire_word :: "wait_word \<Rightarrow> wait_word" where
  "retire_word w = w\<lparr>ww_phase := Idle, ww_fallback := False\<rparr>"

text \<open>Candidate for a resource offer; callers retry after a binding publishes.\<close>

definition resource_offer :: "resource_selection \<Rightarrow> wait_word \<Rightarrow> wait_word option" where
  "resource_offer sel w =
     (if ww_closed w \<or> ww_phase w \<notin> {Idle, Active} \<or> ww_permit w \<or> ww_resource w \<noteq> None then None
      else let offered = w\<lparr>ww_resource := Some sel\<rparr> in
        Some (if ww_phase w = Active then claimed Ready offered else offered\<lparr>ww_permit := True\<rparr>))"

text \<open>Candidate for consumption; never modifies a write-exclusive publication.\<close>

definition resource_take :: "wait_word \<Rightarrow> (wait_word \<times> resource_selection) option" where
  "resource_take w =
     (if ww_phase w = Binding \<or> is_claimed w then None
      else map_option (\<lambda>r. (w\<lparr>ww_resource := None\<rparr>, r)) (ww_resource w))"

lemma claim_publish_cause:
  "publish_claim_word (claimed c w) = Inr v \<Longrightarrow> selected_cause v = Some c"
  by (cases c) (auto simp: publish_claim_word_def claimed_def selected_cause_def)

lemma is_claimed_claimed [simp]: "is_claimed (claimed c w)"
  by (cases c) (simp_all add: is_claimed_def claimed_def)

lemma publish_claim_word_ok: "is_claimed w \<Longrightarrow> \<exists>p. publish_claim_word w = Inr (w\<lparr>ww_phase := p\<rparr>) \<and> selected_cause_of p \<noteq> None"
  by (auto simp: is_claimed_def publish_claim_word_def)

section \<open>Properties\<close>

text \<open>
  C39. The packed atomic word is a faithful record: for every word whose generation fits its
  55 bits, each accessor reads its own field, each updater changes its own field only,
  decoding a packed word never panics, and two words are equal exactly when their fields are,
  so a compare-exchange on the packed word compares the fields.
\<close>

theorem wait_word_layout:
  assumes "ww_wf v" and "ww_wf w"
  shows "raw_phase (pack v) = Inr (ww_phase v) \<and> raw_resource (pack v) = Inr (ww_resource v)
    \<and> raw_has_permit (pack v) = ww_permit v \<and> raw_is_closed (pack v) = ww_closed v
    \<and> raw_uses_fallback_hub (pack v) = ww_fallback v \<and> raw_generation (pack v) = ww_generation v
    \<and> raw_needs_recycle (pack v) = (ww_permit v \<or> ww_resource v \<noteq> None)
    \<and> raw_with_phase p (pack v) = pack (v\<lparr>ww_phase := p\<rparr>)
    \<and> raw_with_generation g (pack v) = pack (v\<lparr>ww_generation := g\<rparr>)
    \<and> raw_with_permit b (pack v) = pack (v\<lparr>ww_permit := b\<rparr>)
    \<and> raw_with_closed b (pack v) = pack (v\<lparr>ww_closed := b\<rparr>)
    \<and> raw_with_fallback_hub b (pack v) = pack (v\<lparr>ww_fallback := b\<rparr>)
    \<and> raw_with_resource r (pack v) = pack (v\<lparr>ww_resource := r\<rparr>)
    \<and> (pack v = pack w \<longleftrightarrow> v = w)"
  using assms pack_inject[OF assms] by (simp add: ww_pack) blast

theorem wait_word_layout_witness:
  "raw_phase (pack (ww_initial\<lparr>ww_generation := 7, ww_phase := ClaimClosed\<rparr>)) = Inr ClaimClosed
    \<and> pack (ww_initial\<lparr>ww_generation := 7\<rparr>) \<noteq> pack ww_initial"
proof -
  have wf: "ww_wf (ww_initial\<lparr>ww_generation := 7\<rparr>)" "ww_wf ww_initial"
    "ww_wf (ww_initial\<lparr>ww_generation := 7, ww_phase := ClaimClosed\<rparr>)"
    by (simp_all add: ww_wf_def ww_initial_def word_le_nat_alt MAX_GENERATION_unat)
  have ne: "ww_initial\<lparr>ww_generation := 7\<rparr> \<noteq> ww_initial" by (simp add: ww_initial_def)
  from wait_word_layout[OF wf(1) wf(2)] wait_word_layout[OF wf(3) wf(2)] ne show ?thesis
    by simp
qed

end
