(* ===== verification/Wait_Cell.thy ===== *)
theory Wait_Cell
  imports Wait_Word Task_Slab
begin

text \<open>
  Wait cells: the shared state of one reusable wait (wait_target.rs) and its operations,
  activation (wait_begin.rs), selection (wait_select.rs), resources (wait_resource.rs),
  completion (wait_finish.rs) and the owner's queries (wait_owner_protocol.rs). Each lock-free
  loop is given by its body, a decision on the observed word; the whole operation adds what
  the code does after the committing compare-exchange. Interleavings of the bodies are the
  subject of \<open>Wait_Protocol\<close>.
\<close>

section \<open>State\<close>

text \<open>Hubs are compared by pointer only; \<open>'h\<close> is the type of hub identities.\<close>

record 'h wait_inner =
  wi_id :: u64
  wi_state :: wait_word
  wi_task :: u64
  wi_route :: usize
  wi_primary_hub :: "'h option"
  wi_fallback_hub :: "'h option"

definition wait_inner_new :: "u64 \<Rightarrow> 'h wait_inner" where
  "wait_inner_new i = \<lparr>wi_id = i, wi_state = ww_initial, wi_task = 0, wi_route = 0,
                       wi_primary_hub = None, wi_fallback_hub = None\<rparr>"

record wake_notice =
  wn_token :: park_token
  wn_task :: u64
  wn_route :: task_key
  wn_cause :: wake_cause

section \<open>Target metadata\<close>

definition bind_target :: "u64 \<Rightarrow> task_key \<Rightarrow> 'h \<Rightarrow> 'h wait_inner \<Rightarrow> bool \<times> 'h wait_inner" where
  "bind_target task route hub s =
     (let s1 = s\<lparr>wi_task := task, wi_route := encoded route,
                 wi_primary_hub := (case wi_primary_hub s of None \<Rightarrow> Some hub | Some p \<Rightarrow> Some p)\<rparr>
      in if wi_primary_hub s1 = Some hub then (False, s1)
         else (True, if wi_fallback_hub s1 = Some hub then s1 else s1\<lparr>wi_fallback_hub := Some hub\<rparr>))"

definition cached_target :: "u64 \<Rightarrow> task_key \<Rightarrow> 'h \<Rightarrow> 'h wait_inner \<Rightarrow> bool option" where
  "cached_target task route hub s =
     (if wi_task s \<noteq> task \<or> wi_route s \<noteq> encoded route then None
      else (case wi_primary_hub s of
              None \<Rightarrow> None
            | Some p \<Rightarrow> if p = hub then Some False
                        else if wi_fallback_hub s = Some hub then Some True else None))"

definition with_target :: "wait_word \<Rightarrow> 'h wait_inner \<Rightarrow> (u64 \<times> task_key \<times> 'h) result_p" where
  "with_target w s =
     (case task_id_new (wi_task s) of
        Inl e \<Rightarrow> Inl e
      | Inr task \<Rightarrow>
          (case key_from_encoded (wi_route s) of
             Inl e \<Rightarrow> Inl e
           | Inr route \<Rightarrow>
               if ww_fallback w
               then (case wi_fallback_hub s of
                       None \<Rightarrow> Inl (Panic ''published fallback wait hub'')
                     | Some h \<Rightarrow> Inr (task, route, h))
               else (case wi_primary_hub s of
                       None \<Rightarrow> Inl (Panic ''published primary wait hub'')
                     | Some h \<Rightarrow> Inr (task, route, h))))"

definition clone_hub :: "wait_word \<Rightarrow> 'h wait_inner \<Rightarrow> 'h result_p" where
  "clone_hub w s = map_sum id (\<lambda>(_, _, h). h) (with_target w s)"

text \<open>
  Where a local wake goes (context_wake.rs): to the owner carrier's own list when this thread
  runs that carrier, found through the carrier route, the mounted task or the mounted
  execution, in that order.
\<close>

record 'h route_context =
  rc_route :: "'h option"
  rc_current :: "'h option"
  rc_mounted :: "'h option"

definition enqueue_mounted_wake :: "'h route_context \<Rightarrow> 'h \<Rightarrow> bool" where
  "enqueue_mounted_wake c hub \<longleftrightarrow> rc_current c = Some hub \<or> rc_mounted c = Some hub"

definition enqueue_local_wake :: "'h route_context \<Rightarrow> 'h \<Rightarrow> bool" where
  "enqueue_local_wake c hub =
     (case rc_route c of Some h \<Rightarrow> h = hub | None \<Rightarrow> enqueue_mounted_wake c hub)"

section \<open>Activation\<close>

definition fault_generation :: error where
  "fault_generation = Fault Scheduler ''wait generation space exhausted''"

definition next_generation :: "wait_word \<Rightarrow> u64 result" where
  "next_generation w =
     (case checked_add (ww_generation w) 1 of
        None \<Rightarrow> Inl fault_generation
      | Some g \<Rightarrow> if g \<le> MAX_GENERATION then Inr g else Inl fault_generation)"

datatype wait_begin =
    Immediate wake_cause
  | Park park_token "instant option"

text \<open>
  The body of \<open>begin_resident\<close>. A committed word in phase \<open>Binding\<close> is followed by binding
  the target and storing the active word; every other commit is final.
\<close>

definition begin_body :: "u64 \<Rightarrow> task_key \<Rightarrow> 'h \<Rightarrow> instant option \<Rightarrow> instant \<Rightarrow> 'h wait_inner \<Rightarrow>
    wait_word \<Rightarrow> (wait_word, wait_begin result) attempt" where
  "begin_body task route hub deadline now s w =
     (if ww_phase w \<noteq> Idle then Return (Inl ParkerBusy)
      else if ww_closed w then Return (Inr (Immediate ClosedCause))
      else if ww_permit w then Cas (w\<lparr>ww_permit := False\<rparr>) (Inr (Immediate Ready))
      else if (case deadline of None \<Rightarrow> False | Some d \<Rightarrow> d \<le> now) then Return (Inr (Immediate TimedOut))
      else (case next_generation w of
              Inl e \<Rightarrow> Return (Inl e)
            | Inr g \<Rightarrow>
                let park = Inr (Park (ParkToken (wi_id s) g) deadline) in
                (case cached_target task route hub s of
                   Some fb \<Rightarrow> Cas (w\<lparr>ww_generation := g, ww_fallback := fb, ww_phase := Active\<rparr>) park
                 | None \<Rightarrow> Cas (w\<lparr>ww_generation := g, ww_phase := Binding\<rparr>) park)))"

text \<open>After a binding commit: publish the target, then store the active word.\<close>

definition begin_publish :: "u64 \<Rightarrow> task_key \<Rightarrow> 'h \<Rightarrow> wait_word \<Rightarrow> 'h wait_inner \<Rightarrow> 'h wait_inner" where
  "begin_publish task route hub binding s =
     (let (fallback, s1) = bind_target task route hub s
      in s1\<lparr>wi_state := binding\<lparr>ww_fallback := fallback, ww_phase := Active\<rparr>\<rparr>)"

definition begin_resident :: "u64 \<Rightarrow> task_key \<Rightarrow> 'h \<Rightarrow> instant option \<Rightarrow> instant \<Rightarrow> 'h wait_inner \<Rightarrow>
    (wait_begin result \<times> 'h wait_inner) option" where
  "begin_resident task route hub deadline now s =
     (case cas_exec (begin_body task route hub deadline now s) (wi_state s) of
        None \<Rightarrow> None
      | Some (w, r) \<Rightarrow>
          if ww_phase w = Binding then Some (r, begin_publish task route hub w s)
          else Some (r, s\<lparr>wi_state := w\<rparr>))"

section \<open>Selection\<close>

datatype notify_result = Woke | Stored | NotifyClosed

definition notify_body :: "wait_word \<Rightarrow> (wait_word, notify_result) attempt" where
  "notify_body w =
     (if ww_phase w = Binding then Spin
      else if ww_closed w then Return NotifyClosed
      else if ww_phase w \<noteq> Active \<and> is_claimed w then Spin
      else if ww_phase w = Active then Cas (claimed Ready w) Woke
      else Cas (w\<lparr>ww_permit := True\<rparr>) Stored)"

definition close_body :: "wait_word \<Rightarrow> (wait_word, bool) attempt" where
  "close_body w =
     (if ww_phase w = Binding \<or> is_claimed w then Spin
      else if ww_closed w then Return False
      else let next = w\<lparr>ww_closed := True, ww_permit := False\<rparr> in
        Cas (if ww_phase w = Active then claimed ClosedCause next else next) True)"

definition select_current_body :: "wake_cause \<Rightarrow> wait_word \<Rightarrow> (wait_word, bool) attempt" where
  "select_current_body cause w =
     (if ww_phase w = Binding then Spin
      else if ww_phase w \<noteq> Active then Return False
      else Cas (claimed cause w) True)"

datatype selection_rejection = NoWait | NoActive | Retired | AlreadySelected

definition select_generation_body :: "park_token \<Rightarrow> wake_cause \<Rightarrow> wait_word \<Rightarrow> (wait_word, selection_rejection option) attempt" where
  "select_generation_body token cause w =
     (if ww_phase w = Binding then Spin
      else if ww_phase w = Idle then Return (Some NoActive)
      else if ww_generation w \<noteq> generation token then Return (Some Retired)
      else if ww_phase w \<noteq> Active then Return (Some AlreadySelected)
      else Cas (claimed cause w) None)"

text \<open>
  \<open>enqueue_selected\<close>: read the target under the claim, route the notice, then publish the
  claim. The result is the routed notice (with whether it went to the carrier's own list) and
  the cell after publication, in the absence of owner interest.
\<close>

definition selected_notice :: "wait_word \<Rightarrow> wake_cause \<Rightarrow> 'h wait_inner \<Rightarrow> ('h \<times> wake_notice) result_p" where
  "selected_notice w cause s =
     (case with_target w s of
        Inl e \<Rightarrow> Inl e
      | Inr (task, route, hub) \<Rightarrow>
          Inr (hub, \<lparr>wn_token = ParkToken (wi_id s) (ww_generation w), wn_task = task, wn_route = route, wn_cause = cause\<rparr>))"

text \<open>
  \<open>publish_claim\<close> against the word another access left in the cell: the release succeeds on
  the claim itself, and otherwise tolerates only the owner's completion interest, which
  \<open>publish_observed_claim\<close> clears and answers with a signal to the hub (the result's flag).
\<close>

definition publish_observed_claim :: "wait_word \<Rightarrow> wait_word \<Rightarrow> wait_word result_p" where
  "publish_observed_claim claim observed =
     (if observed\<lparr>ww_permit := False\<rparr> \<noteq> claim then Inl (Panic ''only owner interest may change a claim'')
      else if \<not> ww_permit observed then Inl (Panic ''publication CAS failed without owner interest'')
      else map_sum id (\<lambda>w. w\<lparr>ww_permit := False\<rparr>) (publish_claim_word observed))"

definition publish_claim :: "wait_word \<Rightarrow> wait_word \<Rightarrow> (wait_word \<times> bool) result_p" where
  "publish_claim claim observed =
     (if observed = claim then map_sum id (\<lambda>w. (w, False)) (publish_claim_word claim)
      else map_sum id (\<lambda>w. (w, True)) (publish_observed_claim claim observed))"

definition enqueue_selected :: "wait_word \<Rightarrow> wake_cause \<Rightarrow> bool \<Rightarrow> 'h route_context \<Rightarrow> 'h wait_inner \<Rightarrow>
    (('h \<times> wake_notice \<times> bool) \<times> 'h wait_inner) result_p" where
  "enqueue_selected claim cause local ctx s =
     (case selected_notice claim cause s of
        Inl e \<Rightarrow> Inl e
      | Inr (hub, notice) \<Rightarrow>
          (case publish_claim claim (wi_state s) of
             Inl e \<Rightarrow> Inl e
           | Inr (w, _) \<Rightarrow> Inr ((hub, notice, local \<and> enqueue_local_wake ctx hub), s\<lparr>wi_state := w\<rparr>)))"

text \<open>Run a loop body on the cell and publish the claim it commits, if it commits one.\<close>

definition commit_select :: "(wait_word, 'r) attempt \<Rightarrow> wake_cause \<Rightarrow> bool \<Rightarrow> 'h route_context \<Rightarrow> 'h wait_inner \<Rightarrow>
    (('r \<times> ('h \<times> wake_notice \<times> bool) option) \<times> 'h wait_inner) result_p option" where
  "commit_select att cause local ctx s =
     (case att of
        Spin \<Rightarrow> None
      | Return r \<Rightarrow> Some (Inr ((r, None), s))
      | Cas w r \<Rightarrow>
          (let s1 = s\<lparr>wi_state := w\<rparr> in
           if is_claimed w
           then Some (map_sum id (\<lambda>(n, s2). ((r, Some n), s2)) (enqueue_selected w cause local ctx s1))
           else Some (Inr ((r, None), s1))))"

definition wc_notify :: "'h route_context \<Rightarrow> 'h wait_inner \<Rightarrow>
    ((notify_result \<times> ('h \<times> wake_notice \<times> bool) option) \<times> 'h wait_inner) result_p option" where
  "wc_notify ctx s = commit_select (notify_body (wi_state s)) Ready True ctx s"

definition wc_close :: "'h route_context \<Rightarrow> 'h wait_inner \<Rightarrow>
    ((bool \<times> ('h \<times> wake_notice \<times> bool) option) \<times> 'h wait_inner) result_p option" where
  "wc_close ctx s = commit_select (close_body (wi_state s)) ClosedCause False ctx s"

definition wc_cancel :: "'h route_context \<Rightarrow> 'h wait_inner \<Rightarrow>
    ((bool \<times> ('h \<times> wake_notice \<times> bool) option) \<times> 'h wait_inner) result_p option" where
  "wc_cancel ctx s = commit_select (select_current_body CancelledCause (wi_state s)) CancelledCause False ctx s"

text \<open>\<open>WaitRegistration::select_ready\<close>, \<open>select_closed\<close>, \<open>select_cancelled\<close> and \<open>select_timeout\<close>.\<close>

definition select_generation :: "park_token \<Rightarrow> wake_cause \<Rightarrow> 'h route_context \<Rightarrow> 'h wait_inner \<Rightarrow>
    ((selection_rejection option \<times> ('h \<times> wake_notice \<times> bool) option) \<times> 'h wait_inner) result_p option" where
  "select_generation token cause ctx s =
     (if wait_id token \<noteq> wi_id s then Some (Inr ((Some Retired, None), s))
      else commit_select (select_generation_body token cause (wi_state s)) cause False ctx s)"

section \<open>Resources\<close>

text \<open>The result of an offer: rejected, stored before a park, or claimed for a parked task.\<close>

datatype offer_result = OfferRejected | OfferStored | OfferClaimed wait_word

definition claim_resource_body :: "resource_selection \<Rightarrow> wait_word \<Rightarrow> (wait_word, offer_result) attempt" where
  "claim_resource_body sel w =
     (if ww_phase w = Binding then Spin
      else (case resource_offer sel w of
              None \<Rightarrow> Return OfferRejected
            | Some next \<Rightarrow> Cas next (if ww_phase w = Active then OfferClaimed next else OfferStored)))"

definition wc_offer_resource :: "resource_selection \<Rightarrow> 'h route_context \<Rightarrow> 'h wait_inner \<Rightarrow>
    ((offer_result \<times> ('h \<times> wake_notice \<times> bool) option) \<times> 'h wait_inner) result_p option" where
  "wc_offer_resource sel ctx s = commit_select (claim_resource_body sel (wi_state s)) Ready True ctx s"

text \<open>
  \<open>reserve_resource\<close> claims under the primitive's queue lock and publishes when the returned
  guard is dropped; the guard is the claimed word, if any.
\<close>

definition wc_reserve_resource :: "resource_selection \<Rightarrow> 'h wait_inner \<Rightarrow> (wait_word option option \<times> 'h wait_inner) option" where
  "wc_reserve_resource sel s =
     (case cas_exec (claim_resource_body sel) (wi_state s) of
        None \<Rightarrow> None
      | Some (w, r) \<Rightarrow>
          Some (case r of OfferRejected \<Rightarrow> None | OfferStored \<Rightarrow> Some None | OfferClaimed c \<Rightarrow> Some (Some c),
                s\<lparr>wi_state := w\<rparr>))"

definition publish_reserved :: "wait_word option \<Rightarrow> 'h route_context \<Rightarrow> 'h wait_inner \<Rightarrow>
    (('h \<times> wake_notice \<times> bool) option \<times> 'h wait_inner) result_p" where
  "publish_reserved c ctx s =
     (case c of
        None \<Rightarrow> Inr (None, s)
      | Some w \<Rightarrow> map_sum id (\<lambda>(n, s1). (Some n, s1)) (enqueue_selected w Ready True ctx s))"

definition take_resource_body :: "wait_word \<Rightarrow> (wait_word, resource_selection option) attempt" where
  "take_resource_body w =
     (if ww_resource w = None then Return None
      else (case resource_take w of
              None \<Rightarrow> Spin
            | Some (next, r) \<Rightarrow> Cas next (Some r)))"

definition recycle_body :: "wait_word \<Rightarrow> (wait_word, bool) attempt" where
  "recycle_body w =
     (if ww_phase w \<noteq> Idle \<or> ww_closed w then Return False
      else if \<not> (ww_permit w \<or> ww_resource w \<noteq> None) then Return True
      else Cas (w\<lparr>ww_permit := False, ww_resource := None\<rparr>) True)"

section \<open>Completion\<close>

definition reset_closed_gate_body :: "wait_word \<Rightarrow> (wait_word, bool) attempt" where
  "reset_closed_gate_body w =
     (if ww_phase w \<noteq> Idle then Return False
      else if \<not> ww_closed w then Return True
      else Cas (w\<lparr>ww_closed := False\<rparr>) True)"

definition resumed_generation_fault :: error where
  "resumed_generation_fault = Fault Scheduler ''resumed parker generation changed''"

definition no_selected_wake_fault :: error where
  "no_selected_wake_fault = Fault Scheduler ''resumed parker has no selected wake''"

definition finish_slow_body :: "park_token \<Rightarrow> wait_word \<Rightarrow> (wait_word, wake_cause result) attempt" where
  "finish_slow_body token w =
     (if ww_generation w \<noteq> generation token then Return (Inl resumed_generation_fault)
      else if is_claimed w \<or> ww_phase w = Binding then Spin
      else (case selected_cause w of
              None \<Rightarrow> Return (Inl no_selected_wake_fault)
            | Some cause \<Rightarrow> Cas (retire_word w) (Inr cause)))"

definition finish_permit_slow_body :: "park_token \<Rightarrow> wait_word \<Rightarrow> (wait_word, wake_cause result) attempt" where
  "finish_permit_slow_body token w =
     (if ww_generation w \<noteq> generation token then Return (Inl resumed_generation_fault)
      else if is_claimed w \<or> ww_phase w = Binding then Spin
      else (case selected_cause w of
              None \<Rightarrow> Return (Inl no_selected_wake_fault)
            | Some cause \<Rightarrow>
                Cas (if cause = Ready then retire_word (w\<lparr>ww_resource := None\<rparr>) else retire_word w) (Inr cause)))"

definition wc_finish :: "park_token \<Rightarrow> 'h wait_inner \<Rightarrow> (wake_cause result \<times> 'h wait_inner) option" where
  "wc_finish token s =
     (if wait_id token \<noteq> wi_id s then Some (Inl resumed_generation_fault, s)
      else map_option (\<lambda>(w, r). (r, s\<lparr>wi_state := w\<rparr>)) (cas_exec (finish_slow_body token) (wi_state s)))"

text \<open>The fast paths guess the exact selected word and fall back to the loop.\<close>

definition wc_finish_ready :: "park_token \<Rightarrow> resource_selection option \<Rightarrow> 'h wait_inner \<Rightarrow> (wake_cause result \<times> 'h wait_inner) option" where
  "wc_finish_ready token resource s =
     (if wait_id token \<noteq> wi_id s then Some (Inl resumed_generation_fault, s)
      else let selected = ww_initial\<lparr>ww_generation := generation token, ww_resource := resource, ww_phase := SelectedReady\<rparr> in
        if wi_state s = selected then Some (Inr Ready, s\<lparr>wi_state := retire_word selected\<rparr>)
        else wc_finish token s)"

definition wc_finish_plain_ready :: "park_token \<Rightarrow> 'h wait_inner \<Rightarrow> (wake_cause result \<times> 'h wait_inner) option" where
  "wc_finish_plain_ready token s = wc_finish_ready token None s"

definition wc_finish_permit_ready :: "park_token \<Rightarrow> 'h wait_inner \<Rightarrow> (wake_cause result \<times> 'h wait_inner) option" where
  "wc_finish_permit_ready token s =
     (if wait_id token \<noteq> wi_id s then Some (Inl resumed_generation_fault, s)
      else let selected = ww_initial\<lparr>ww_generation := generation token, ww_resource := Some PermitRes, ww_phase := SelectedReady\<rparr> in
        if wi_state s = selected then Some (Inr Ready, s\<lparr>wi_state := retire_word (selected\<lparr>ww_resource := None\<rparr>)\<rparr>)
        else map_option (\<lambda>(w, r). (r, s\<lparr>wi_state := w\<rparr>)) (cas_exec (finish_permit_slow_body token) (wi_state s)))"

definition retire_body :: "park_token \<Rightarrow> wait_word \<Rightarrow> (wait_word, bool) attempt" where
  "retire_body token w =
     (if ww_generation w \<noteq> generation token \<or> ww_phase w = Idle then Return False
      else if is_claimed w \<or> ww_phase w = Binding then Spin
      else Cas (retire_word w) True)"

section \<open>The owner's queries\<close>

datatype publication = Published | InFlight | Stale

definition publication_body :: "park_token \<Rightarrow> wait_word \<Rightarrow> (wait_word, publication) attempt" where
  "publication_body token w =
     (if ww_generation w \<noteq> generation token then Return Stale
      else if selected_cause w \<noteq> None then Return Published
      else if \<not> is_claimed w then Return Stale
      else if ww_permit w then Return InFlight
      else Cas (w\<lparr>ww_permit := True\<rparr>) InFlight)"

datatype retire_result = RetireNone | RetireHub | RetireDeferred

definition try_retire_body :: "park_token \<Rightarrow> wait_word \<Rightarrow> (wait_word, retire_result) attempt result_p" where
  "try_retire_body token w =
     (if ww_generation w \<noteq> generation token \<or> ww_phase w = Idle then Inr (Return RetireNone)
      else if ww_phase w = Binding then Inl (Panic ''owner retirement preceded binding'')
      else if is_claimed w then
        Inr (if ww_permit w then Return RetireDeferred else Cas (w\<lparr>ww_permit := True\<rparr>) RetireDeferred)
      else Inr (Cas (retire_word w) RetireHub))"

section \<open>Properties\<close>

lemma finish_permit_fast:
  assumes "wi_state s = ww_initial\<lparr>ww_generation := generation token, ww_resource := Some PermitRes, ww_phase := SelectedReady\<rparr>"
  shows "cas_exec (finish_permit_slow_body token) (wi_state s) =
    Some (retire_word ((wi_state s)\<lparr>ww_resource := None\<rparr>), Inr Ready)"
  using assms by (simp add: cas_exec_def finish_permit_slow_body_def is_claimed_def selected_cause_def)

text \<open>
  C38. The single compare-exchange completion paths are optimisations only: guessing the exact
  selected word and falling back otherwise gives on every cell state the result and the final
  word of the general loop, for plain readiness and for permit grants alike.
\<close>

theorem finish_fast_paths:
  "wc_finish_plain_ready token s = wc_finish token s
   \<and> wc_finish_ready token r s = wc_finish token s
   \<and> wc_finish_permit_ready token s =
       (if wait_id token \<noteq> wi_id s then Some (Inl resumed_generation_fault, s)
        else map_option (\<lambda>(w, c). (c, s\<lparr>wi_state := w\<rparr>)) (cas_exec (finish_permit_slow_body token) (wi_state s)))"
proof -
  have fast: "wc_finish_ready token r s = wc_finish token s" for r
    by (simp add: wc_finish_ready_def wc_finish_def cas_exec_def finish_slow_body_def is_claimed_def selected_cause_def Let_def)
  moreover have "wc_finish_permit_ready token s =
       (if wait_id token \<noteq> wi_id s then Some (Inl resumed_generation_fault, s)
        else map_option (\<lambda>(w, c). (c, s\<lparr>wi_state := w\<rparr>)) (cas_exec (finish_permit_slow_body token) (wi_state s)))"
    using finish_permit_fast[of s token] by (simp add: wc_finish_permit_ready_def Let_def)
  ultimately show ?thesis by (simp add: wc_finish_plain_ready_def)
qed

lemma begin_resident_parks:
  assumes "ww_phase (wi_state s) = Idle" "\<not> ww_closed (wi_state s)" "\<not> ww_permit (wi_state s)"
    and "unat (ww_generation (wi_state s)) + 1 < 2 ^ 55" "task \<noteq> 0" "2 \<le> unat (encoded route)"
    and "case deadline of None \<Rightarrow> True | Some d \<Rightarrow> now < d"
  shows "\<exists>s1. begin_resident task route hub deadline now s =
      Some (Inr (Park (ParkToken (wi_id s) (ww_generation (wi_state s) + 1)) deadline), s1)
    \<and> wi_state s1 = (wi_state s)\<lparr>ww_generation := ww_generation (wi_state s) + 1,
          ww_phase := Active, ww_fallback := ww_fallback (wi_state s1)\<rparr>
    \<and> wi_id s1 = wi_id s \<and> with_target (wi_state s1) s1 = Inr (task, route, hub)"
proof -
  have ca: "checked_add (ww_generation (wi_state s)) 1 = Some (ww_generation (wi_state s) + 1)"
    using assms(4) by (simp add: checked_add_def)
  have g: "next_generation (wi_state s) = Inr (ww_generation (wi_state s) + 1)"
    using assms(4) ca checked_add_unat[OF ca]
    by (simp add: next_generation_def word_le_nat_alt MAX_GENERATION_unat)
  have dl: "\<not> (case deadline of None \<Rightarrow> False | Some d \<Rightarrow> d \<le> now)"
    using assms(7) by (auto split: option.splits)
  show ?thesis
  proof (cases "cached_target task route hub s")
    case (Some fb)
    have "begin_resident task route hub deadline now s =
      Some (Inr (Park (ParkToken (wi_id s) (ww_generation (wi_state s) + 1)) deadline),
        s\<lparr>wi_state := (wi_state s)\<lparr>ww_generation := ww_generation (wi_state s) + 1, ww_fallback := fb, ww_phase := Active\<rparr>\<rparr>)"
      using assms(1-3) g dl Some by (simp add: begin_resident_def cas_exec_def begin_body_def Let_def)
    with Some assms(5,6) show ?thesis
      by (auto simp: cached_target_def with_target_def task_id_new_def key_from_encoded_def split: if_splits option.splits)
  next
    case None
    obtain fb s' where b: "bind_target task route hub s = (fb, s')" by force
    have "begin_resident task route hub deadline now s =
      Some (Inr (Park (ParkToken (wi_id s) (ww_generation (wi_state s) + 1)) deadline),
        s'\<lparr>wi_state := (wi_state s)\<lparr>ww_generation := ww_generation (wi_state s) + 1, ww_fallback := fb, ww_phase := Active\<rparr>\<rparr>)"
      using assms(1-3) g dl None b by (simp add: begin_resident_def cas_exec_def begin_body_def begin_publish_def Let_def)
    with b assms(5,6) show ?thesis
      by (auto simp: bind_target_def with_target_def task_id_new_def key_from_encoded_def Let_def split: if_splits option.splits)
  qed
qed

text \<open>
  A full park cycle: on an idle, open cell without a stored permit, \<open>begin_resident\<close> parks
  under the next generation; a notification then wakes that task, routed to exactly the task,
  key and hub that parked and with the token of the park; the owner's completion returns
  \<open>Ready\<close> and leaves the cell idle, with the generation advanced and nothing else changed.
\<close>

theorem wait_park_cycle:
  assumes "ww_phase (wi_state s) = Idle" "\<not> ww_closed (wi_state s)" "\<not> ww_permit (wi_state s)"
    and "unat (ww_generation (wi_state s)) + 1 < 2 ^ 55" "task \<noteq> 0" "2 \<le> unat (encoded route)"
    and "case deadline of None \<Rightarrow> True | Some d \<Rightarrow> now < d"
  defines "token \<equiv> ParkToken (wi_id s) (ww_generation (wi_state s) + 1)"
  shows "\<exists>s1 s2 s3 local. begin_resident task route hub deadline now s = Some (Inr (Park token deadline), s1)
    \<and> wc_notify ctx s1 =
        Some (Inr ((Woke, Some (hub, \<lparr>wn_token = token, wn_task = task, wn_route = route, wn_cause = Ready\<rparr>, local)), s2))
    \<and> wc_finish token s2 = Some (Inr Ready, s3)
    \<and> wi_state s3 = (wi_state s)\<lparr>ww_generation := ww_generation (wi_state s) + 1, ww_fallback := False\<rparr>"
proof -
  from begin_resident_parks[OF assms(1-7)] obtain s1 where s1:
    "begin_resident task route hub deadline now s = Some (Inr (Park token deadline), s1)"
    "wi_state s1 = (wi_state s)\<lparr>ww_generation := ww_generation (wi_state s) + 1,
          ww_phase := Active, ww_fallback := ww_fallback (wi_state s1)\<rparr>"
    "wi_id s1 = wi_id s" "with_target (wi_state s1) s1 = Inr (task, route, hub)"
    unfolding token_def by blast
  have w1: "ww_phase (wi_state s1) = Active" "ww_generation (wi_state s1) = generation token"
    "\<not> ww_closed (wi_state s1)" "\<not> ww_permit (wi_state s1)" "ww_resource (wi_state s1) = ww_resource (wi_state s)"
    using assms(2,3) by (subst s1(2); simp add: token_def)+
  let ?c = "claimed Ready (wi_state s1)"
  have tgt: "with_target ?c (s1\<lparr>wi_state := ?c\<rparr>) = Inr (task, route, hub)"
    using s1(4) by (auto simp: with_target_def claimed_def split: sum.splits option.splits if_splits)
  have pub: "publish_claim_word ?c = Inr ((wi_state s1)\<lparr>ww_phase := SelectedReady\<rparr>)"
    by (simp add: publish_claim_word_def claimed_def)
  let ?s2 = "s1\<lparr>wi_state := (wi_state s1)\<lparr>ww_phase := SelectedReady\<rparr>\<rparr>"
  have tok: "ParkToken (wi_id s1) (ww_generation ?c) = token"
    using s1(3) w1(2) by (simp add: claimed_def token_def)
  have "wc_notify ctx s1 =
        Some (Inr ((Woke, Some (hub, \<lparr>wn_token = token, wn_task = task, wn_route = route, wn_cause = Ready\<rparr>, enqueue_local_wake ctx hub)), ?s2))"
    using w1 tgt pub tok
    by (simp add: wc_notify_def notify_body_def commit_select_def enqueue_selected_def selected_notice_def publish_claim_def Let_def)
  moreover have "wc_finish token ?s2 = Some (Inr Ready, ?s2\<lparr>wi_state := retire_word ((wi_state s1)\<lparr>ww_phase := SelectedReady\<rparr>)\<rparr>)"
    using w1 s1(3) by (simp add: wc_finish_def cas_exec_def finish_slow_body_def is_claimed_def selected_cause_def token_def)
  moreover have "retire_word ((wi_state s1)\<lparr>ww_phase := SelectedReady\<rparr>) =
      (wi_state s)\<lparr>ww_generation := ww_generation (wi_state s) + 1, ww_fallback := False\<rparr>"
    using assms(1) by (subst s1(2)) (simp add: retire_word_def)
  ultimately show ?thesis using s1(1) by fastforce
qed

theorem wait_park_cycle_witness:
  "\<exists>s1 s2 s3 local. begin_resident 1 (TaskKey 2) (0::nat) None 0 (wait_inner_new 7) = Some (Inr (Park (ParkToken 7 1) None), s1)
    \<and> wc_notify \<lparr>rc_route = None, rc_current = None, rc_mounted = None\<rparr> s1 =
        Some (Inr ((Woke, Some (0, \<lparr>wn_token = ParkToken 7 1, wn_task = 1, wn_route = TaskKey 2, wn_cause = Ready\<rparr>, local)), s2))
    \<and> wc_finish (ParkToken 7 1) s2 = Some (Inr Ready, s3)
    \<and> wi_state s3 = ww_initial\<lparr>ww_generation := 1\<rparr>"
  using wait_park_cycle[where s = "wait_inner_new 7" and task = 1 and route = "TaskKey 2" and deadline = None and now = 0
    and hub = "0::nat" and ctx = "\<lparr>rc_route = None, rc_current = None, rc_mounted = None\<rparr>"]
  by (simp add: wait_inner_new_def ww_initial_def)

end
