(* ===== verification/Wait_Protocol.thy ===== *)
theory Wait_Protocol
  imports Wait_Cell
begin

text \<open>
  One wait cell under arbitrary interleaving: the parking owner, any number of selectors
  (notify, close, cancel, timeout, resource offers) and the publishers that route a committed
  claim. Every committed compare-exchange is one step on the current word (the loops linearize
  to their bodies, see \<open>cas_loop_linearizes\<close>); the plain store that ends a binding, the
  routing of the notice and the two accesses of \<open>publish_claim\<close> are separate steps. Memory is
  sequentially consistent.
\<close>

section \<open>State\<close>

text \<open>What the owner is doing: nothing, binding a target, or parked on a token.\<close>

datatype 'h owner =
    OwnerIdle
  | OwnerBinding wait_word u64 task_key 'h
  | OwnerParked park_token u64 task_key 'h

text \<open>
  A publisher holds a claimed word: it still has to route the notice, it has routed it, or
  its releasing compare-exchange failed on an observed word.
\<close>

datatype stage = Routing | Notified | Observed wait_word

text \<open>
  The last five fields record history: the targets of the begun generations, the committed
  claims, the routed notices, the completed parks, and whether an assertion failed.
\<close>

record 'h wait_sys =
  ws_cell :: "'h wait_inner"
  ws_owner :: "'h owner"
  ws_publishers :: "(wait_word \<times> stage) list"
  ws_begun :: "(u64 \<times> u64 \<times> task_key \<times> 'h) list"
  ws_claims :: "(u64 \<times> wake_cause) list"
  ws_notices :: "('h \<times> wake_notice) list"
  ws_resumed :: "(u64 \<times> wake_cause) list"
  ws_panicked :: bool

definition ws_initial :: "u64 \<Rightarrow> 'h wait_sys" where
  "ws_initial i = \<lparr>ws_cell = wait_inner_new i, ws_owner = OwnerIdle, ws_publishers = [],
     ws_begun = [], ws_claims = [], ws_notices = [], ws_resumed = [], ws_panicked = False\<rparr>"

abbreviation ws_word :: "'h wait_sys \<Rightarrow> wait_word" where
  "ws_word s \<equiv> wi_state (ws_cell s)"

definition ws_set :: "wait_word \<Rightarrow> 'h wait_sys \<Rightarrow> 'h wait_sys" where
  "ws_set w s = s\<lparr>ws_cell := (ws_cell s)\<lparr>wi_state := w\<rparr>\<rparr>"

text \<open>The cause a claimed phase stands for.\<close>

fun claim_cause :: "phase \<Rightarrow> wake_cause option" where
  "claim_cause ClaimReady = Some Ready"
| "claim_cause ClaimTimedOut = Some TimedOut"
| "claim_cause ClaimCancelled = Some CancelledCause"
| "claim_cause ClaimInheritedCancelled = Some InheritedCancelled"
| "claim_cause ClaimClosed = Some ClosedCause"
| "claim_cause _ = None"

text \<open>The writes any thread may commit on the observed word.\<close>

inductive shared_write :: "wait_word \<Rightarrow> wait_word \<Rightarrow> bool" where
  notify: "notify_body w = Cas n r \<Longrightarrow> shared_write w n"
| close: "close_body w = Cas n r \<Longrightarrow> shared_write w n"
| current: "select_current_body c w = Cas n r \<Longrightarrow> shared_write w n"
| generation: "select_generation_body t c w = Cas n r \<Longrightarrow> shared_write w n"
| offer: "claim_resource_body sel w = Cas n r \<Longrightarrow> shared_write w n"
| take: "take_resource_body w = Cas n r \<Longrightarrow> shared_write w n"
| recycle: "recycle_body w = Cas n r \<Longrightarrow> shared_write w n"
| reset: "reset_closed_gate_body w = Cas n r \<Longrightarrow> shared_write w n"

text \<open>The completion bodies of the owner, with the cause they return.\<close>

inductive finish_write :: "park_token \<Rightarrow> wait_word \<Rightarrow> wait_word \<Rightarrow> wake_cause \<Rightarrow> bool" where
  plain: "finish_slow_body t w = Cas n (Inr c) \<Longrightarrow> finish_write t w n c"
| permit: "finish_permit_slow_body t w = Cas n (Inr c) \<Longrightarrow> finish_write t w n c"

section \<open>Steps\<close>

inductive wait_step :: "'h wait_sys \<Rightarrow> 'h wait_sys \<Rightarrow> bool" where
  begin_immediate:
    "ws_owner s = OwnerIdle \<Longrightarrow>
     begin_body task route hub deadline now (ws_cell s) (ws_word s) = Cas n (Inr (Immediate c)) \<Longrightarrow>
     wait_step s (ws_set n s)"
| begin_direct:
    "ws_owner s = OwnerIdle \<Longrightarrow> task \<noteq> 0 \<Longrightarrow> key_valid route \<Longrightarrow>
     begin_body task route hub deadline now (ws_cell s) (ws_word s) = Cas n (Inr (Park token d)) \<Longrightarrow>
     ww_phase n = Active \<Longrightarrow>
     wait_step s ((ws_set n s)\<lparr>ws_owner := OwnerParked token task route hub,
                               ws_begun := ws_begun s @ [(ww_generation n, task, route, hub)]\<rparr>)"
| begin_binding:
    "ws_owner s = OwnerIdle \<Longrightarrow> task \<noteq> 0 \<Longrightarrow> key_valid route \<Longrightarrow>
     begin_body task route hub deadline now (ws_cell s) (ws_word s) = Cas n (Inr (Park token d)) \<Longrightarrow>
     ww_phase n = Binding \<Longrightarrow>
     wait_step s ((ws_set n s)\<lparr>ws_owner := OwnerBinding n task route hub,
                               ws_begun := ws_begun s @ [(ww_generation n, task, route, hub)]\<rparr>)"
| begin_store:
    "ws_owner s = OwnerBinding b task route hub \<Longrightarrow>
     wait_step s (s\<lparr>ws_cell := begin_publish task route hub b (ws_cell s),
                    ws_owner := OwnerParked (ParkToken (wi_id (ws_cell s)) (ww_generation b)) task route hub\<rparr>)"
| shared_plain:
    "shared_write (ws_word s) n \<Longrightarrow> claim_cause (ww_phase n) = None \<Longrightarrow> wait_step s (ws_set n s)"
| shared_claim:
    "shared_write (ws_word s) n \<Longrightarrow> claim_cause (ww_phase n) = Some c \<Longrightarrow>
     wait_step s ((ws_set n s)\<lparr>ws_publishers := ws_publishers s @ [(n, Routing)],
                               ws_claims := ws_claims s @ [(ww_generation n, c)]\<rparr>)"
| route:
    "i < length (ws_publishers s) \<Longrightarrow> ws_publishers s ! i = (claim, Routing) \<Longrightarrow>
     claim_cause (ww_phase claim) = Some c \<Longrightarrow> selected_notice claim c (ws_cell s) = Inr (hub, notice) \<Longrightarrow>
     wait_step s (s\<lparr>ws_notices := ws_notices s @ [(hub, notice)],
                    ws_publishers := (ws_publishers s)[i := (claim, Notified)]\<rparr>)"
| route_panic:
    "i < length (ws_publishers s) \<Longrightarrow> ws_publishers s ! i = (claim, Routing) \<Longrightarrow>
     claim_cause (ww_phase claim) = Some c \<Longrightarrow> selected_notice claim c (ws_cell s) = Inl e \<Longrightarrow>
     wait_step s (s\<lparr>ws_panicked := True\<rparr>)"
| publish:
    "i < length (ws_publishers s) \<Longrightarrow> ws_publishers s ! i = (claim, Notified) \<Longrightarrow>
     ws_word s = claim \<Longrightarrow> publish_claim_word claim = Inr n \<Longrightarrow>
     wait_step s ((ws_set n s)\<lparr>ws_publishers := remove_at i (ws_publishers s)\<rparr>)"
| publish_fails:
    "i < length (ws_publishers s) \<Longrightarrow> ws_publishers s ! i = (claim, Notified) \<Longrightarrow> ws_word s \<noteq> claim \<Longrightarrow>
     wait_step s (s\<lparr>ws_publishers := (ws_publishers s)[i := (claim, Observed (ws_word s))]\<rparr>)"
| publish_observed:
    "i < length (ws_publishers s) \<Longrightarrow> ws_publishers s ! i = (claim, Observed obs) \<Longrightarrow>
     publish_observed_claim claim obs = Inr n \<Longrightarrow> ws_word s = obs \<Longrightarrow>
     wait_step s ((ws_set n s)\<lparr>ws_publishers := remove_at i (ws_publishers s)\<rparr>)"
| publish_panic:
    "i < length (ws_publishers s) \<Longrightarrow> ws_publishers s ! i = (claim, Observed obs) \<Longrightarrow>
     isl (publish_observed_claim claim obs) \<or> ws_word s \<noteq> obs \<Longrightarrow>
     wait_step s (s\<lparr>ws_panicked := True\<rparr>)"
| owner_interest:
    "ws_owner s = OwnerParked token task route hub \<Longrightarrow>
     publication_body token (ws_word s) = Cas n r \<Longrightarrow> wait_step s (ws_set n s)"
| owner_try_retire:
    "ws_owner s = OwnerParked token task route hub \<Longrightarrow>
     try_retire_body token (ws_word s) = Inr (Cas n r) \<Longrightarrow>
     wait_step s ((ws_set n s)\<lparr>ws_owner := (if r = RetireHub then OwnerIdle else ws_owner s)\<rparr>)"
| owner_try_retire_panic:
    "ws_owner s = OwnerParked token task route hub \<Longrightarrow>
     isl (try_retire_body token (ws_word s)) \<Longrightarrow> wait_step s (s\<lparr>ws_panicked := True\<rparr>)"
| owner_retire:
    "ws_owner s = OwnerParked token task route hub \<Longrightarrow>
     retire_body token (ws_word s) = Cas n r \<Longrightarrow> wait_step s ((ws_set n s)\<lparr>ws_owner := OwnerIdle\<rparr>)"
| owner_finish:
    "ws_owner s = OwnerParked token task route hub \<Longrightarrow>
     finish_write token (ws_word s) n c \<Longrightarrow>
     wait_step s ((ws_set n s)\<lparr>ws_owner := OwnerIdle, ws_resumed := ws_resumed s @ [(generation token, c)]\<rparr>)"

inductive wait_reach :: "u64 \<Rightarrow> 'h wait_sys \<Rightarrow> bool" for i where
  start: "wait_reach i (ws_initial i)"
| step: "wait_reach i s \<Longrightarrow> wait_step s t \<Longrightarrow> wait_reach i t"

section \<open>Effect of the writes\<close>

lemma claim_cause_is_claimed: "claim_cause (ww_phase w) \<noteq> None \<longleftrightarrow> is_claimed w"
  by (cases "ww_phase w") (simp_all add: is_claimed_def)

lemma claim_cause_claimed [simp]: "claim_cause (ww_phase (claimed c w)) = Some c"
  by (cases c) (simp_all add: claimed_def)

lemma claimed_fields [simp]:
  "ww_generation (claimed c w) = ww_generation w" "ww_fallback (claimed c w) = ww_fallback w"
  "ww_permit (claimed c w) = ww_permit w" "ww_closed (claimed c w) = ww_closed w"
  "ww_resource (claimed c w) = ww_resource w"
  by (simp_all add: claimed_def)

lemmas shared_bodies = notify_body_def close_body_def select_current_body_def select_generation_body_def
  claim_resource_body_def take_resource_body_def recycle_body_def reset_closed_gate_body_def
  resource_offer_def resource_take_def

text \<open>
  No thread but the owner and the publisher writes during a binding or a claim; a shared write
  keeps the generation and the route, and claims only an active word.
\<close>

lemma shared_write_effect:
  assumes "shared_write w n"
  shows "ww_generation n = ww_generation w" "ww_fallback n = ww_fallback w"
    and "ww_phase w \<noteq> Binding" "claim_cause (ww_phase w) = None"
    and "claim_cause (ww_phase n) = None \<Longrightarrow> ww_phase n = ww_phase w \<and> (ww_phase w = Active \<longrightarrow> ww_permit n = ww_permit w)"
    and "claim_cause (ww_phase n) = Some c \<Longrightarrow> ww_phase w = Active \<and> (ww_permit n \<longrightarrow> ww_permit w)"
  using assms claim_cause_is_claimed[of w]
  by (auto elim!: shared_write.cases simp: shared_bodies Let_def split: if_splits option.splits)

lemma finish_write_effect:
  assumes "finish_write t w n c"
  shows "ww_generation w = generation t" "ww_generation n = ww_generation w" "ww_phase n = Idle"
    "selected_cause_of (ww_phase w) = Some c" "ww_permit n = ww_permit w"
  using assms
  by (auto elim!: finish_write.cases simp: finish_slow_body_def finish_permit_slow_body_def retire_word_def selected_cause_def
      split: if_splits option.splits)

section \<open>Invariant\<close>

text \<open>The notice of the current generation has been routed, to the owner's target.\<close>

definition routed :: "'h wait_sys \<Rightarrow> u64 \<Rightarrow> task_key \<Rightarrow> 'h \<Rightarrow> wake_cause \<Rightarrow> bool" where
  "routed s task route hub c \<longleftrightarrow>
     (hub, \<lparr>wn_token = ParkToken (wi_id (ws_cell s)) (ww_generation (ws_word s)), wn_task = task, wn_route = route, wn_cause = c\<rparr>)
       \<in> set (ws_notices s)"

definition unrouted :: "'h wait_sys \<Rightarrow> bool" where
  "unrouted s \<longleftrightarrow> ParkToken (wi_id (ws_cell s)) (ww_generation (ws_word s)) \<notin> (wn_token \<circ> snd) ` set (ws_notices s)"

definition unclaimed :: "'h wait_sys \<Rightarrow> bool" where
  "unclaimed s \<longleftrightarrow> ww_generation (ws_word s) \<notin> fst ` set (ws_claims s)"

definition active_ok :: "'h wait_sys \<Rightarrow> bool" where
  "active_ok s \<longleftrightarrow> ws_publishers s = [] \<and> \<not> ww_permit (ws_word s) \<and> unclaimed s"

definition claim_ok :: "u64 \<Rightarrow> task_key \<Rightarrow> 'h \<Rightarrow> 'h wait_sys \<Rightarrow> wake_cause \<Rightarrow> bool" where
  "claim_ok task route hub s c \<longleftrightarrow> (ww_generation (ws_word s), c) \<in> set (ws_claims s) \<and>
     (\<exists>st. ws_publishers s = [((ws_word s)\<lparr>ww_permit := False\<rparr>, st)] \<and>
        (case st of Routing \<Rightarrow> unrouted s
         | Notified \<Rightarrow> routed s task route hub c
         | Observed obs \<Rightarrow> routed s task route hub c \<and> obs = ws_word s \<and> ww_permit obs))"

definition selected_ok :: "u64 \<Rightarrow> task_key \<Rightarrow> 'h \<Rightarrow> 'h wait_sys \<Rightarrow> wake_cause \<Rightarrow> bool" where
  "selected_ok task route hub s c \<longleftrightarrow> (ww_generation (ws_word s), c) \<in> set (ws_claims s)
     \<and> ws_publishers s = [] \<and> routed s task route hub c"

definition parked_ok :: "u64 \<Rightarrow> task_key \<Rightarrow> 'h \<Rightarrow> 'h wait_sys \<Rightarrow> bool" where
  "parked_ok task route hub s \<longleftrightarrow>
     with_target (ws_word s) (ws_cell s) = Inr (task, route, hub) \<and>
     (ww_generation (ws_word s), task, route, hub) \<in> set (ws_begun s) \<and>
     ww_generation (ws_word s) \<notin> fst ` set (ws_resumed s) \<and>
     (if ww_phase (ws_word s) = Active then active_ok s
      else case claim_cause (ww_phase (ws_word s)) of
        Some c \<Rightarrow> claim_ok task route hub s c
      | None \<Rightarrow> (case selected_cause_of (ww_phase (ws_word s)) of
           Some c \<Rightarrow> selected_ok task route hub s c | None \<Rightarrow> False))"

definition owner_ok :: "'h wait_sys \<Rightarrow> bool" where
  "owner_ok s \<longleftrightarrow> (case ws_owner s of
       OwnerIdle \<Rightarrow> ww_phase (ws_word s) = Idle \<and> ws_publishers s = []
     | OwnerBinding b task route hub \<Rightarrow> ws_word s = b \<and> ww_phase b = Binding \<and> task \<noteq> 0 \<and> key_valid route
         \<and> active_ok s \<and> (ww_generation (ws_word s), task, route, hub) \<in> set (ws_begun s)
         \<and> ww_generation (ws_word s) \<notin> fst ` set (ws_resumed s)
     | OwnerParked token task route hub \<Rightarrow>
         token = ParkToken (wi_id (ws_cell s)) (ww_generation (ws_word s)) \<and> parked_ok task route hub s)"

definition history_ok :: "'h wait_sys \<Rightarrow> bool" where
  "history_ok s \<longleftrightarrow>
     \<not> ws_panicked s \<and> distinct (map fst (ws_begun s)) \<and> distinct (map fst (ws_claims s))
     \<and> distinct (map fst (ws_resumed s)) \<and> distinct (map (wn_token \<circ> snd) (ws_notices s))
     \<and> fst ` set (ws_begun s) \<subseteq> {..ww_generation (ws_word s)}
     \<and> fst ` set (ws_claims s) \<subseteq> fst ` set (ws_begun s)
     \<and> (\<forall>(h, n) \<in> set (ws_notices s). wait_id (wn_token n) = wi_id (ws_cell s)
           \<and> (generation (wn_token n), wn_cause n) \<in> set (ws_claims s)
           \<and> (generation (wn_token n), wn_task n, wn_route n, h) \<in> set (ws_begun s))
     \<and> set (ws_resumed s) \<subseteq> (\<lambda>(h, n). (generation (wn_token n), wn_cause n)) ` set (ws_notices s)"

definition wait_inv :: "'h wait_sys \<Rightarrow> bool" where
  "wait_inv s \<longleftrightarrow> owner_ok s \<and> history_ok s"

lemma ws_set_simps [simp]:
  "ws_word (ws_set n s) = n" "wi_id (ws_cell (ws_set n s)) = wi_id (ws_cell s)"
  "ws_owner (ws_set n s) = ws_owner s" "ws_publishers (ws_set n s) = ws_publishers s"
  "ws_begun (ws_set n s) = ws_begun s" "ws_claims (ws_set n s) = ws_claims s"
  "ws_notices (ws_set n s) = ws_notices s" "ws_resumed (ws_set n s) = ws_resumed s"
  "ws_panicked (ws_set n s) = ws_panicked s"
  by (simp_all add: ws_set_def)

lemma with_target_ws_set [simp]:
  "with_target w (ws_cell (ws_set n s)) = with_target w (ws_cell s)"
  by (simp add: with_target_def ws_set_def cong: sum.case_cong option.case_cong if_cong)

lemma with_target_fallback: "ww_fallback v = ww_fallback w \<Longrightarrow> with_target v s = with_target w s"
  by (simp add: with_target_def cong: sum.case_cong option.case_cong if_cong)

lemma wait_inv_initial: "wait_inv (ws_initial i)"
  by (simp add: wait_inv_def owner_ok_def history_ok_def ws_initial_def wait_inner_new_def ww_initial_def)

lemmas inv_defs = owner_ok_def parked_ok_def active_ok_def claim_ok_def selected_ok_def
  routed_def unrouted_def unclaimed_def

lemma history_ws_set:
  assumes "history_ok s" "ww_generation n = ww_generation (ws_word s)"
  shows "history_ok (ws_set n s)"
  using assms by (simp add: history_ok_def)

lemma key_in_keys: "(k, v) \<in> set m \<Longrightarrow> k \<in> fst ` set m"
  by force

lemma unclaimed_unrouted:
  assumes "history_ok s" "unclaimed s"
  shows "unrouted s"
proof -
  have "generation (wn_token (snd p)) \<in> fst ` set (ws_claims s)" if "p \<in> set (ws_notices s)" for p
    using assms(1) that by (force simp: history_ok_def)
  then have "generation t \<in> fst ` set (ws_claims s)" if "t \<in> (wn_token \<circ> snd) ` set (ws_notices s)" for t
    using that by auto
  from this[of "ParkToken (wi_id (ws_cell s)) (ww_generation (ws_word s))"] assms(2) show ?thesis
    unfolding unrouted_def unclaimed_def by (auto simp del: comp_apply)
qed

text \<open>Shared writes\<close>

lemma shared_plain_inv:
  assumes "wait_inv s" "shared_write (ws_word s) n" "claim_cause (ww_phase n) = None"
  shows "wait_inv (ws_set n s)"
proof -
  note eff = shared_write_effect[OF assms(2)]
  have ph: "ww_phase n = ww_phase (ws_word s)" "ww_phase (ws_word s) = Active \<Longrightarrow> ww_permit n = ww_permit (ws_word s)"
    using eff(5)[OF assms(3)] by auto
  have "owner_ok (ws_set n s)"
    using assms(1) eff(1-4) ph with_target_fallback[OF eff(2), of "ws_cell s"]
    by (auto simp: wait_inv_def inv_defs split: owner.splits if_splits option.splits)
  with assms(1) eff(1) show ?thesis by (simp add: wait_inv_def history_ws_set)
qed

lemma shared_claim_inv:
  assumes "wait_inv s" "shared_write (ws_word s) n" "claim_cause (ww_phase n) = Some c"
  shows "wait_inv ((ws_set n s)\<lparr>ws_publishers := ws_publishers s @ [(n, Routing)],
                               ws_claims := ws_claims s @ [(ww_generation n, c)]\<rparr>)"
proof -
  note eff = shared_write_effect[OF assms(2)]
  have act: "ww_phase (ws_word s) = Active" and perm: "ww_permit n \<Longrightarrow> ww_permit (ws_word s)"
    using eff(6)[OF assms(3)] by auto
  then obtain token task route hub where ow: "ws_owner s = OwnerParked token task route hub"
    using assms(1) by (cases "ws_owner s") (auto simp: wait_inv_def owner_ok_def)
  have ok: "parked_ok task route hub s" "token = ParkToken (wi_id (ws_cell s)) (ww_generation (ws_word s))"
    using assms(1) ow by (auto simp: wait_inv_def owner_ok_def)
  have nact: "ww_phase n \<noteq> Active" using assms(3) by auto
  have np: "\<not> ww_permit n" using perm ok(1) act by (auto simp: parked_ok_def active_ok_def)
  have same: "n\<lparr>ww_permit := False\<rparr> = n" using np by simp
  have unr: "unrouted s"
    using ok(1) act assms(1) by (auto simp: parked_ok_def active_ok_def wait_inv_def intro: unclaimed_unrouted)
  have "owner_ok ((ws_set n s)\<lparr>ws_publishers := ws_publishers s @ [(n, Routing)],
                               ws_claims := ws_claims s @ [(ww_generation n, c)]\<rparr>)"
    using ok act ow eff(1,2) nact assms(3) same unr with_target_fallback[OF eff(2), of "ws_cell s"]
    by (simp add: owner_ok_def parked_ok_def active_ok_def claim_ok_def unrouted_def)
  moreover have "history_ok ((ws_set n s)\<lparr>ws_publishers := ws_publishers s @ [(n, Routing)],
                               ws_claims := ws_claims s @ [(ww_generation n, c)]\<rparr>)"
    using assms(1) ok(1) act eff(1)
    by (auto simp: wait_inv_def history_ok_def parked_ok_def active_ok_def unclaimed_def intro: key_in_keys)
  ultimately show ?thesis by (simp add: wait_inv_def)
qed

text \<open>Publication\<close>

text \<open>A publisher exists only for the claim the word shows, whose owner is parked.\<close>

lemma publisher_unique:
  assumes "wait_inv s" "i < length (ws_publishers s)" "ws_publishers s ! i = (claim, st)"
  obtains token task route hub c where
    "i = 0" "ws_publishers s = [(claim, st)]" "ws_owner s = OwnerParked token task route hub"
    "claim = (ws_word s)\<lparr>ww_permit := False\<rparr>" "claim_cause (ww_phase (ws_word s)) = Some c"
    "parked_ok task route hub s" "claim_ok task route hub s c"
proof (cases "ws_owner s")
  case (OwnerParked token task route hub)
  then have ok: "parked_ok task route hub s" using assms(1) by (simp add: wait_inv_def owner_ok_def)
  with assms(2) obtain c where c: "claim_cause (ww_phase (ws_word s)) = Some c" "claim_ok task route hub s c"
    by (auto simp: parked_ok_def active_ok_def selected_ok_def split: if_splits option.splits)
  with assms(2,3) show ?thesis
    by (intro that[OF _ _ OwnerParked _ c(1) ok c(2)]) (auto simp: claim_ok_def)
qed (use assms in \<open>auto simp: wait_inv_def owner_ok_def active_ok_def\<close>)

lemma selected_notice_parked:
  assumes "with_target (ws_word s) (ws_cell s) = Inr (task, route, hub)"
  shows "selected_notice ((ws_word s)\<lparr>ww_permit := b\<rparr>) c (ws_cell s) =
    Inr (hub, \<lparr>wn_token = ParkToken (wi_id (ws_cell s)) (ww_generation (ws_word s)),
               wn_task = task, wn_route = route, wn_cause = c\<rparr>)"
proof -
  have "with_target ((ws_word s)\<lparr>ww_permit := b\<rparr>) (ws_cell s) = Inr (task, route, hub)"
    using assms with_target_fallback[of "(ws_word s)\<lparr>ww_permit := b\<rparr>" "ws_word s" "ws_cell s"] by simp
  then show ?thesis by (simp add: selected_notice_def)
qed

lemma route_inv:
  assumes "wait_inv s" "i < length (ws_publishers s)" "ws_publishers s ! i = (claim, Routing)"
    "claim_cause (ww_phase claim) = Some c"
  shows "\<exists>hub notice. selected_notice claim c (ws_cell s) = Inr (hub, notice) \<and>
     wait_inv (s\<lparr>ws_notices := ws_notices s @ [(hub, notice)],
                 ws_publishers := (ws_publishers s)[i := (claim, Notified)]\<rparr>)"
proof -
  from publisher_unique[OF assms(1-3)] obtain token task route hub c' where p:
    "i = 0" "ws_publishers s = [(claim, Routing)]" "ws_owner s = OwnerParked token task route hub"
    "claim = (ws_word s)\<lparr>ww_permit := False\<rparr>" "claim_cause (ww_phase (ws_word s)) = Some c'"
    "parked_ok task route hub s" "claim_ok task route hub s c'" .
  have c: "c' = c" using assms(4) p(4,5) by simp
  define n where "n = \<lparr>wn_token = ParkToken (wi_id (ws_cell s)) (ww_generation (ws_word s)),
               wn_task = task, wn_route = route, wn_cause = c\<rparr>"
  have sel: "selected_notice claim c (ws_cell s) = Inr (hub, n)"
    using selected_notice_parked p(4,6) by (auto simp: parked_ok_def n_def)
  have nact: "ww_phase (ws_word s) \<noteq> Active" using p(5) by auto
  let ?t = "s\<lparr>ws_notices := ws_notices s @ [(hub, n)], ws_publishers := (ws_publishers s)[i := (claim, Notified)]\<rparr>"
  have "owner_ok ?t"
    using p assms(1) nact c by (simp add: wait_inv_def owner_ok_def parked_ok_def claim_ok_def routed_def n_def)
  moreover have "history_ok ?t"
    using p c assms(1) by (auto simp: wait_inv_def history_ok_def parked_ok_def claim_ok_def unrouted_def n_def)
  ultimately show ?thesis using sel by (auto simp: wait_inv_def)
qed

lemma publish_word_effect:
  assumes "claim_cause (ww_phase w) = Some c"
  obtains p where "publish_claim_word w = Inr (w\<lparr>ww_phase := p\<rparr>)" "selected_cause_of p = Some c"
    "claim_cause p = None" "p \<noteq> Active"
  using assms by (cases "ww_phase w") (auto simp: publish_claim_word_def)

lemma publish_inv_aux:
  assumes "wait_inv s" "ws_owner s = OwnerParked token task route hub" "claim_cause (ww_phase (ws_word s)) = Some c"
    "claim_ok task route hub s c" "routed s task route hub c"
    and "selected_cause_of p = Some c" "claim_cause p = None" "p \<noteq> Active"
  shows "wait_inv ((ws_set ((ws_word s)\<lparr>ww_permit := False, ww_phase := p\<rparr>) s)\<lparr>ws_publishers := []\<rparr>)"
proof -
  let ?n = "(ws_word s)\<lparr>ww_permit := False, ww_phase := p\<rparr>"
  let ?t = "(ws_set ?n s)\<lparr>ws_publishers := []\<rparr>"
  have tgt: "with_target ?n (ws_cell s) = with_target (ws_word s) (ws_cell s)"
    by (rule with_target_fallback) simp
  have "owner_ok ?t"
    using assms tgt by (auto simp: wait_inv_def owner_ok_def parked_ok_def selected_ok_def claim_ok_def routed_def)
  moreover have "history_ok ?t"
    using assms(1) by (simp add: wait_inv_def history_ok_def)
  ultimately show ?thesis by (simp add: wait_inv_def)
qed

lemma publish_inv:
  assumes "wait_inv s" "i < length (ws_publishers s)" "ws_publishers s ! i = (claim, Notified)"
    "ws_word s = claim" "publish_claim_word claim = Inr n"
  shows "wait_inv ((ws_set n s)\<lparr>ws_publishers := remove_at i (ws_publishers s)\<rparr>)"
proof -
  from publisher_unique[OF assms(1-3)] obtain token task route hub c where p:
    "i = 0" "ws_publishers s = [(claim, Notified)]" "ws_owner s = OwnerParked token task route hub"
    "claim = (ws_word s)\<lparr>ww_permit := False\<rparr>" "claim_cause (ww_phase (ws_word s)) = Some c"
    "parked_ok task route hub s" "claim_ok task route hub s c" .
  from publish_word_effect[OF p(5)] obtain q where q: "publish_claim_word (ws_word s) = Inr ((ws_word s)\<lparr>ww_phase := q\<rparr>)"
    "selected_cause_of q = Some c" "claim_cause q = None" "q \<noteq> Active" .
  have np: "\<not> ww_permit (ws_word s)"
    using arg_cong[OF p(4), of ww_permit] assms(4) by simp
  have n: "n = (ws_word s)\<lparr>ww_permit := False, ww_phase := q\<rparr>"
    using q(1) assms(5)[folded assms(4)] np by simp
  have "routed s task route hub c" using p(2,7) by (simp add: claim_ok_def)
  from publish_inv_aux[OF assms(1) p(3,5,7) this q(2-4)] n p(1,2) show ?thesis by simp
qed

lemma publish_observed_inv:
  assumes "wait_inv s" "i < length (ws_publishers s)" "ws_publishers s ! i = (claim, Observed obs)"
  shows "ws_word s = obs \<and> (\<exists>n. publish_observed_claim claim obs = Inr n \<and>
           wait_inv ((ws_set n s)\<lparr>ws_publishers := remove_at i (ws_publishers s)\<rparr>))"
proof -
  from publisher_unique[OF assms] obtain token task route hub c where p:
    "i = 0" "ws_publishers s = [(claim, Observed obs)]" "ws_owner s = OwnerParked token task route hub"
    "claim = (ws_word s)\<lparr>ww_permit := False\<rparr>" "claim_cause (ww_phase (ws_word s)) = Some c"
    "parked_ok task route hub s" "claim_ok task route hub s c" .
  from publish_word_effect[OF p(5)] obtain q where q: "publish_claim_word (ws_word s) = Inr ((ws_word s)\<lparr>ww_phase := q\<rparr>)"
    "selected_cause_of q = Some c" "claim_cause q = None" "q \<noteq> Active" .
  have o: "obs = ws_word s" "ww_permit obs" "routed s task route hub c"
    using p(2,7) by (auto simp: claim_ok_def)
  have "publish_observed_claim claim obs = Inr ((ws_word s)\<lparr>ww_permit := False, ww_phase := q\<rparr>)"
    using o q(1) p(4) by (simp add: publish_observed_claim_def)
  with publish_inv_aux[OF assms(1) p(3,5,7) o(3) q(2-4)] p(1,2) o(1) show ?thesis by simp
qed

lemma permit_cleared: "\<not> ww_permit w \<Longrightarrow> w\<lparr>ww_permit := False\<rparr> = w"
  by simp

lemma publish_fails_inv:
  assumes "wait_inv s" "i < length (ws_publishers s)" "ws_publishers s ! i = (claim, Notified)" "ws_word s \<noteq> claim"
  shows "wait_inv (s\<lparr>ws_publishers := (ws_publishers s)[i := (claim, Observed (ws_word s))]\<rparr>)"
proof -
  from publisher_unique[OF assms(1-3)] obtain token task route hub c where p:
    "i = 0" "ws_publishers s = [(claim, Notified)]" "ws_owner s = OwnerParked token task route hub"
    "claim = (ws_word s)\<lparr>ww_permit := False\<rparr>" "claim_cause (ww_phase (ws_word s)) = Some c"
    "parked_ok task route hub s" "claim_ok task route hub s c" .
  have perm: "ww_permit (ws_word s)"
    using assms(4) permit_cleared[of "ws_word s"] p(4) by argo
  have nact: "ww_phase (ws_word s) \<noteq> Active" using p(5) by auto
  have "owner_ok (s\<lparr>ws_publishers := (ws_publishers s)[i := (claim, Observed (ws_word s))]\<rparr>)"
    using p perm nact assms(1) by (simp add: wait_inv_def owner_ok_def parked_ok_def claim_ok_def routed_def)
  with assms(1) show ?thesis by (simp add: wait_inv_def history_ok_def)
qed

text \<open>The owner\<close>

lemma next_generation_ok:
  assumes "next_generation w = Inr g"
  shows "ww_generation w < g" "g \<le> MAX_GENERATION"
  using assms checked_add_unat[of "ww_generation w" 1 g]
  by (auto simp: next_generation_def word_less_nat_alt split: option.splits if_splits)

lemma begin_body_park:
  assumes "begin_body task route hub deadline now cell w = Cas n (Inr (Park token d))"
  shows "ww_phase w = Idle" "\<not> ww_permit w" "token = ParkToken (wi_id cell) (ww_generation n)"
    "ww_generation w < ww_generation n" "ww_permit n = ww_permit w" "ww_generation n \<le> MAX_GENERATION"
    "ww_phase n = Active \<Longrightarrow> cached_target task route hub cell = Some (ww_fallback n)"
  using assms next_generation_ok[of w]
  by (auto simp: begin_body_def Let_def split: if_splits sum.splits option.splits)

lemma resumed_claims:
  assumes "history_ok s"
  shows "set (ws_resumed s) \<subseteq> set (ws_claims s)"
proof -
  let ?f = "\<lambda>(h, n). (generation (wn_token n), wn_cause n)"
  have "set (ws_resumed s) \<subseteq> ?f ` set (ws_notices s)" "\<forall>x \<in> set (ws_notices s). ?f x \<in> set (ws_claims s)"
    using assms unfolding history_ok_def by auto
  then show ?thesis by blast
qed

lemma begin_fresh:
  assumes "history_ok s" "ww_generation (ws_word s) < g"
  shows "g \<notin> fst ` set (ws_begun s)" "g \<notin> fst ` set (ws_claims s)" "g \<notin> fst ` set (ws_resumed s)"
proof -
  have le: "\<forall>x \<in> fst ` set (ws_begun s). x \<le> ww_generation (ws_word s)"
    using assms(1) by (auto simp: history_ok_def)
  with assms(2) show b: "g \<notin> fst ` set (ws_begun s)" by (metis not_le)
  with assms(1) show c: "g \<notin> fst ` set (ws_claims s)" unfolding history_ok_def by blast
  have "fst ` set (ws_resumed s) \<subseteq> fst ` set (ws_claims s)"
    by (rule image_mono[OF resumed_claims[OF assms(1)]])
  with c show "g \<notin> fst ` set (ws_resumed s)" by blast
qed

lemma begin_history:
  assumes "history_ok s" "ww_generation (ws_word s) < ww_generation n"
  shows "history_ok ((ws_set n s)\<lparr>ws_owner := o', ws_begun := ws_begun s @ [(ww_generation n, tgt)]\<rparr>)"
proof -
  have le: "{..ww_generation (ws_word s)} \<subseteq> {..ww_generation n}"
    using assms(2) by (simp add: order.strict_implies_order)
  note h = assms(1)[unfolded history_ok_def]
  have sub: "fst ` set (ws_begun s) \<subseteq> {..ww_generation n}"
    using h le by (meson subset_trans)
  have cl: "fst ` set (ws_claims s) \<subseteq> insert (ww_generation n) (fst ` set (ws_begun s))"
    using h by (meson subset_insertI2)
  have nt: "\<forall>(k, m) \<in> set (ws_notices s). wait_id (wn_token m) = wi_id (ws_cell s)
           \<and> (generation (wn_token m), wn_cause m) \<in> set (ws_claims s)
           \<and> (generation (wn_token m), wn_task m, wn_route m, k) \<in> insert (ww_generation n, tgt) (set (ws_begun s))"
    using h by auto
  show ?thesis
    using h sub cl nt begin_fresh(1)[OF assms] by (simp add: history_ok_def)
qed

lemma cached_target_with:
  assumes "cached_target task route hub cell = Some fb" "task \<noteq> 0" "key_valid route" "ww_fallback n = fb"
  shows "with_target n cell = Inr (task, route, hub)"
  using assms
  by (auto simp: cached_target_def with_target_def task_id_new_def key_from_encoded_def key_valid_def
      split: if_splits option.splits)

lemma bind_target_with:
  assumes "bind_target task route hub cell = (fb, cell')" "task \<noteq> 0" "key_valid route" "ww_fallback n = fb"
  shows "with_target n (cell'\<lparr>wi_state := m\<rparr>) = Inr (task, route, hub)" "wi_id cell' = wi_id cell"
  using assms
  by (auto simp: bind_target_def with_target_def task_id_new_def key_from_encoded_def key_valid_def Let_def
      split: if_splits option.splits)

lemma begin_direct_inv:
  assumes "wait_inv s" "ws_owner s = OwnerIdle" "task \<noteq> 0" "key_valid route"
    "begin_body task route hub deadline now (ws_cell s) (ws_word s) = Cas n (Inr (Park token d))" "ww_phase n = Active"
  shows "wait_inv ((ws_set n s)\<lparr>ws_owner := OwnerParked token task route hub,
                               ws_begun := ws_begun s @ [(ww_generation n, task, route, hub)]\<rparr>)"
proof -
  note b = begin_body_park[OF assms(5)]
  have h: "history_ok s" "ws_publishers s = []" using assms(1,2) by (auto simp: wait_inv_def owner_ok_def)
  have "with_target n (ws_cell s) = Inr (task, route, hub)"
    by (rule cached_target_with[OF b(7)[OF assms(6)] assms(3,4) refl])
  then show ?thesis
    using b assms(6) h begin_fresh[OF h(1) b(4)] begin_history[OF h(1) b(4)]
    by (simp add: wait_inv_def owner_ok_def parked_ok_def active_ok_def unclaimed_def)
qed

lemma begin_binding_inv:
  assumes "wait_inv s" "ws_owner s = OwnerIdle" "task \<noteq> 0" "key_valid route"
    "begin_body task route hub deadline now (ws_cell s) (ws_word s) = Cas n (Inr (Park token d))" "ww_phase n = Binding"
  shows "wait_inv ((ws_set n s)\<lparr>ws_owner := OwnerBinding n task route hub,
                               ws_begun := ws_begun s @ [(ww_generation n, task, route, hub)]\<rparr>)"
proof -
  note b = begin_body_park[OF assms(5)]
  have h: "history_ok s" "ws_publishers s = []" using assms(1,2) by (auto simp: wait_inv_def owner_ok_def)
  show ?thesis
    using assms(3,4,6) b h begin_fresh[OF h(1) b(4)] begin_history[OF h(1) b(4)]
    by (simp add: wait_inv_def owner_ok_def active_ok_def unclaimed_def)
qed

lemma begin_store_inv:
  assumes "wait_inv s" "ws_owner s = OwnerBinding b task route hub"
  shows "wait_inv (s\<lparr>ws_cell := begin_publish task route hub b (ws_cell s),
                    ws_owner := OwnerParked (ParkToken (wi_id (ws_cell s)) (ww_generation b)) task route hub\<rparr>)"
proof -
  obtain fb cell where bt: "bind_target task route hub (ws_cell s) = (fb, cell)" by force
  have ok: "ws_word s = b" "task \<noteq> 0" "key_valid route" "active_ok s" "history_ok s"
    "(ww_generation b, task, route, hub) \<in> set (ws_begun s)" "ww_generation b \<notin> fst ` set (ws_resumed s)"
    using assms by (auto simp: wait_inv_def owner_ok_def)
  let ?n = "b\<lparr>ww_fallback := fb, ww_phase := Active\<rparr>"
  have cell: "begin_publish task route hub b (ws_cell s) = cell\<lparr>wi_state := ?n\<rparr>"
    by (simp add: begin_publish_def bt)
  have "with_target ?n (cell\<lparr>wi_state := ?n\<rparr>) = Inr (task, route, hub)" "wi_id cell = wi_id (ws_cell s)"
    using bind_target_with[OF bt ok(2,3), of ?n] by simp_all
  then show ?thesis
    using ok by (simp add: cell wait_inv_def owner_ok_def parked_ok_def active_ok_def unclaimed_def history_ok_def)
qed

text \<open>Completion interest changes a claimed word only.\<close>

lemma interest_inv:
  assumes "wait_inv s" "ws_owner s = OwnerParked token task route hub" "is_claimed (ws_word s)"
    "\<not> ww_permit (ws_word s)"
  shows "wait_inv (ws_set ((ws_word s)\<lparr>ww_permit := True\<rparr>) s)"
proof -
  obtain c where c: "claim_cause (ww_phase (ws_word s)) = Some c"
    using assms(3) claim_cause_is_claimed[of "ws_word s"] by auto
  then have nact: "ww_phase (ws_word s) \<noteq> Active" by auto
  have ok: "parked_ok task route hub s" "token = ParkToken (wi_id (ws_cell s)) (ww_generation (ws_word s))"
    using assms(1,2) by (auto simp: wait_inv_def owner_ok_def)
  then have cl: "claim_ok task route hub s c" using c nact by (simp add: parked_ok_def)
  have "claim_ok task route hub (ws_set ((ws_word s)\<lparr>ww_permit := True\<rparr>) s) c"
    using cl assms(4) by (auto simp: claim_ok_def unrouted_def routed_def split: stage.splits)
  then have "parked_ok task route hub (ws_set ((ws_word s)\<lparr>ww_permit := True\<rparr>) s)"
    using ok(1) c nact with_target_fallback[of "(ws_word s)\<lparr>ww_permit := True\<rparr>" "ws_word s" "ws_cell s"]
    by (simp add: parked_ok_def)
  then show ?thesis
    using assms(1,2) ok(2) by (simp add: wait_inv_def owner_ok_def history_ok_def)
qed

text \<open>Retirement of an active or selected word leaves no publisher behind.\<close>

lemma retire_inv:
  assumes "wait_inv s" "ws_owner s = OwnerParked token task route hub" "\<not> is_claimed (ws_word s)"
    "ww_phase n = Idle" "ww_generation n = ww_generation (ws_word s)"
  shows "wait_inv ((ws_set n s)\<lparr>ws_owner := OwnerIdle\<rparr>)"
proof -
  have "claim_cause (ww_phase (ws_word s)) = None"
    using assms(3) claim_cause_is_claimed[of "ws_word s"] by auto
  then have "ws_publishers s = []"
    using assms(1,2)
    by (auto simp: wait_inv_def owner_ok_def parked_ok_def active_ok_def selected_ok_def split: if_splits option.splits)
  then show ?thesis using assms by (simp add: wait_inv_def owner_ok_def history_ok_def)
qed

lemma finish_inv:
  assumes "wait_inv s" "ws_owner s = OwnerParked token task route hub" "finish_write token (ws_word s) n c"
  shows "wait_inv ((ws_set n s)\<lparr>ws_owner := OwnerIdle, ws_resumed := ws_resumed s @ [(generation token, c)]\<rparr>)"
proof -
  note f = finish_write_effect[OF assms(3)]
  have ph: "ww_phase (ws_word s) \<noteq> Active" "claim_cause (ww_phase (ws_word s)) = None"
    using f(4) by (cases "ww_phase (ws_word s)"; simp)+
  have ok: "parked_ok task route hub s" "token = ParkToken (wi_id (ws_cell s)) (ww_generation (ws_word s))"
    "history_ok s" using assms(1,2) by (auto simp: wait_inv_def owner_ok_def)
  then have sel: "selected_ok task route hub s c" "ww_generation (ws_word s) \<notin> fst ` set (ws_resumed s)"
    using ph f(4) by (auto simp: parked_ok_def)
  have "(ww_generation (ws_word s), c) \<in> (\<lambda>(h, n). (generation (wn_token n), wn_cause n)) ` set (ws_notices s)"
    using sel(1) unfolding selected_ok_def routed_def by (intro rev_image_eqI) auto
  then have "history_ok ((ws_set n s)\<lparr>ws_owner := OwnerIdle, ws_resumed := ws_resumed s @ [(generation token, c)]\<rparr>)"
    using ok(2) ok(3)[unfolded history_ok_def] f(2) sel(2) by (simp add: history_ok_def)
  then show ?thesis using sel(1) f(3) by (simp add: wait_inv_def owner_ok_def selected_ok_def)
qed

lemma begin_immediate_inv:
  assumes "wait_inv s" "ws_owner s = OwnerIdle"
    "begin_body task route hub deadline now (ws_cell s) (ws_word s) = Cas n (Inr (Immediate c))"
  shows "wait_inv (ws_set n s)"
proof -
  have "n = (ws_word s)\<lparr>ww_permit := False\<rparr>"
    using assms(3) by (auto simp: begin_body_def Let_def split: if_splits sum.splits option.splits)
  then show ?thesis using assms(1,2) by (simp add: wait_inv_def owner_ok_def history_ok_def)
qed

lemma publication_write:
  "publication_body token w = Cas n r \<Longrightarrow> is_claimed w \<and> \<not> ww_permit w \<and> n = w\<lparr>ww_permit := True\<rparr>"
  by (auto simp: publication_body_def split: if_splits)

lemma retire_write:
  "retire_body token w = Cas n r \<Longrightarrow> \<not> is_claimed w \<and> n = retire_word w"
  by (auto simp: retire_body_def split: if_splits)

lemma try_retire_write:
  "try_retire_body token w = Inr (Cas n r) \<Longrightarrow>
     (is_claimed w \<and> \<not> ww_permit w \<and> n = w\<lparr>ww_permit := True\<rparr> \<and> r = RetireDeferred)
     \<or> (\<not> is_claimed w \<and> n = retire_word w \<and> r = RetireHub)"
  by (auto simp: try_retire_body_def split: if_splits)

lemma retire_word_fields [simp]: "ww_phase (retire_word w) = Idle" "ww_generation (retire_word w) = ww_generation w"
  by (simp_all add: retire_word_def)

lemma try_retire_ok:
  assumes "wait_inv s" "ws_owner s = OwnerParked token task route hub"
  shows "\<not> isl (try_retire_body token (ws_word s))"
  using assms by (auto simp: try_retire_body_def wait_inv_def owner_ok_def parked_ok_def)

lemma try_retire_inv:
  assumes "wait_inv s" "ws_owner s = OwnerParked token task route hub" "try_retire_body token (ws_word s) = Inr (Cas n r)"
  shows "wait_inv ((ws_set n s)\<lparr>ws_owner := (if r = RetireHub then OwnerIdle else ws_owner s)\<rparr>)"
  using try_retire_write[OF assms(3)]
proof
  assume a: "is_claimed (ws_word s) \<and> \<not> ww_permit (ws_word s) \<and> n = (ws_word s)\<lparr>ww_permit := True\<rparr> \<and> r = RetireDeferred"
  then have "(ws_set n s)\<lparr>ws_owner := (if r = RetireHub then OwnerIdle else ws_owner s)\<rparr> = ws_set n s"
    by (simp add: ws_set_def)
  moreover have "wait_inv (ws_set n s)" using a interest_inv[OF assms(1,2)] by simp
  ultimately show ?thesis by argo
next
  assume "\<not> is_claimed (ws_word s) \<and> n = retire_word (ws_word s) \<and> r = RetireHub"
  with retire_inv[OF assms(1,2)] show ?thesis by simp
qed

theorem wait_step_inv: "wait_step s t \<Longrightarrow> wait_inv s \<Longrightarrow> wait_inv t"
proof (induction rule: wait_step.induct)
  case (route i s claim c hub notice)
  with route_inv[of s i claim c] show ?case by auto
next
  case (route_panic i s claim c e)
  with route_inv[of s i claim c] show ?case by auto
next
  case (publish_observed i s claim obs n)
  with publish_observed_inv[of s i claim obs] show ?case by auto
next
  case (publish_panic i s claim obs)
  with publish_observed_inv[of s i claim obs] show ?case by auto
next
  case (owner_interest s token task route hub n r)
  with publication_write[of token "ws_word s" n r] interest_inv[of s token task route hub] show ?case by simp
next
  case (owner_retire s token task route hub n r)
  with retire_write[of token "ws_word s" n r] retire_inv[of s token task route hub n] show ?case by simp
next
  case (owner_try_retire_panic s token task route hub)
  with try_retire_ok[of s token task route hub] show ?case by simp
qed (simp_all add: begin_immediate_inv begin_direct_inv begin_binding_inv begin_store_inv shared_plain_inv
      shared_claim_inv publish_inv publish_fails_inv try_retire_inv finish_inv)

lemma wait_reach_inv: "wait_reach i s \<Longrightarrow> wait_inv s"
  by (induction rule: wait_reach.induct) (auto intro: wait_inv_initial wait_step_inv)

section \<open>Progress\<close>

lemma relate_steps: "wait_step s t \<Longrightarrow> wait_step\<^sup>*\<^sup>* t u \<Longrightarrow> wait_step\<^sup>*\<^sup>* s u"
  by (rule converse_rtranclp_into_rtranclp)

text \<open>A claim whose notice was routed is released by its publisher alone.\<close>

lemma notified_finishes:
  assumes "wait_inv s" "ws_owner s = OwnerParked token task route hub" "ws_publishers s = [(claim, st)]" "st \<noteq> Routing"
    "claim_cause (ww_phase claim) = Some c"
  shows "\<exists>t. wait_step\<^sup>*\<^sup>* s t \<and> ws_owner t = ws_owner s \<and> ws_claims t = ws_claims s \<and>
           wait_inv t \<and> ws_publishers t = [] \<and> selected_cause_of (ww_phase (ws_word t)) = Some c"
proof -
  have p0: "0 < length (ws_publishers s)" "ws_publishers s ! 0 = (claim, st)" using assms(3) by simp_all
  have fin: "\<exists>t. wait_step s' t \<and> ws_owner t = ws_owner s' \<and> ws_claims t = ws_claims s' \<and>
           ws_publishers t = [] \<and> selected_cause_of (ww_phase (ws_word t)) = Some c"
    if inv: "wait_inv s'" and pub: "ws_publishers s' = [(claim, Observed obs)]" for s' obs
  proof -
    have q: "0 < length (ws_publishers s')" "ws_publishers s' ! 0 = (claim, Observed obs)" using pub by simp_all
    from publish_observed_inv[OF inv q] obtain n where n: "ws_word s' = obs" "publish_observed_claim claim obs = Inr n" by blast
    have "selected_cause_of (ww_phase n) = Some c"
      using n(2) assms(5) publish_word_effect[of obs c]
      by (cases "ww_phase obs") (auto simp: publish_observed_claim_def publish_claim_word_def split: if_splits)
    with wait_step.publish_observed[OF q n(2,1)] pub show ?thesis
      by (intro exI[of _ "(ws_set n s')\<lparr>ws_publishers := []\<rparr>"]) simp
  qed
  show ?thesis
  proof (cases st)
    case (Observed obs)
    with fin[OF assms(1)] assms(3) obtain t where "wait_step s t" "ws_owner t = ws_owner s" "ws_claims t = ws_claims s"
      "ws_publishers t = []" "selected_cause_of (ww_phase (ws_word t)) = Some c" by auto
    with wait_step_inv[OF _ assms(1)] show ?thesis by blast
  next
    case Notified
    show ?thesis
    proof (cases "ws_word s = claim")
      case True
      from publish_word_effect[OF assms(5)] obtain q where q: "publish_claim_word claim = Inr (claim\<lparr>ww_phase := q\<rparr>)"
        "selected_cause_of q = Some c" by blast
      from wait_step.publish[OF p0(1) _ True q(1)] p0(2) Notified
      have st: "wait_step s ((ws_set (claim\<lparr>ww_phase := q\<rparr>) s)\<lparr>ws_publishers := remove_at 0 (ws_publishers s)\<rparr>)" by simp
      from wait_step_inv[OF st assms(1)] st q(2) assms(3) show ?thesis
        by (intro exI[of _ "(ws_set (claim\<lparr>ww_phase := q\<rparr>) s)\<lparr>ws_publishers := remove_at 0 (ws_publishers s)\<rparr>"]) auto
    next
      case False
      let ?u = "s\<lparr>ws_publishers := (ws_publishers s)[0 := (claim, Observed (ws_word s))]\<rparr>"
      have st: "wait_step s ?u" using wait_step.publish_fails[OF p0(1) _ False] p0(2) Notified by simp
      have u: "wait_inv ?u" by (rule wait_step_inv[OF st assms(1)])
      from fin[OF u] assms(3) obtain t where t: "wait_step ?u t" "ws_owner t = ws_owner s" "ws_claims t = ws_claims s"
        "ws_publishers t = []" "selected_cause_of (ww_phase (ws_word t)) = Some c" by auto
      with wait_step_inv[OF t(1) u] relate_steps[OF st r_into_rtranclp[of wait_step, OF t(1)]] show ?thesis by blast
    qed
  qed (use assms(4) in simp)
qed

lemma selected_finish:
  assumes "ww_generation w = generation token" "selected_cause_of (ww_phase w) = Some c"
  shows "finish_write token w (retire_word w) c"
proof (rule finish_write.plain)
  have "\<not> is_claimed w" "ww_phase w \<noteq> Binding"
    using assms(2) by (cases "ww_phase w"; simp add: is_claimed_def)+
  with assms show "finish_slow_body token w = Cas (retire_word w) (Inr c)"
    by (simp add: finish_slow_body_def selected_cause_def)
qed

lemma claimed_finishes:
  assumes "wait_inv s" "ws_owner s = OwnerParked token task route hub" "(generation token, c) \<in> set (ws_claims s)"
  shows "\<exists>t n. wait_step\<^sup>*\<^sup>* s t \<and> ws_owner t = ws_owner s \<and> finish_write token (ws_word t) n c"
proof -
  have fin: "\<exists>n. finish_write token (ws_word t) n c"
    if "wait_inv t" "ws_owner t = ws_owner s" "selected_cause_of (ww_phase (ws_word t)) = Some c" for t
    using that assms(2) selected_finish[of "ws_word t" token c] by (auto simp: wait_inv_def owner_ok_def)
  have ok: "parked_ok task route hub s" "generation token = ww_generation (ws_word s)" "history_ok s"
    using assms(1,2) by (auto simp: wait_inv_def owner_ok_def)
  have uniq: "d = c" if "(ww_generation (ws_word s), d) \<in> set (ws_claims s)" for d
    using that assms(3) ok(2,3) by (auto simp: history_ok_def dest: eq_key_imp_eq_value)
  have nact: "ww_phase (ws_word s) \<noteq> Active"
    using ok(1) key_in_keys[OF assms(3)] unfolding parked_ok_def active_ok_def unclaimed_def ok(2) by meson
  consider (cl) "claim_cause (ww_phase (ws_word s)) = Some c" "claim_ok task route hub s c"
    | (sel) "selected_cause_of (ww_phase (ws_word s)) = Some c"
    using ok(1) nact uniq
    by (auto simp: parked_ok_def claim_ok_def selected_ok_def split: option.splits)
  then show ?thesis
  proof cases
    case sel
    with fin[OF assms(1) refl] show ?thesis by blast
  next
    case cl
    let ?claim = "(ws_word s)\<lparr>ww_permit := False\<rparr>"
    from cl(2) obtain st where st: "ws_publishers s = [(?claim, st)]" by (auto simp: claim_ok_def)
    have cc: "claim_cause (ww_phase ?claim) = Some c" using cl(1) by simp
    show ?thesis
    proof (cases "st = Routing")
      case False
      from notified_finishes[OF assms(1,2) st False cc] obtain t where t:
        "wait_step\<^sup>*\<^sup>* s t" "ws_owner t = ws_owner s" "wait_inv t" "selected_cause_of (ww_phase (ws_word t)) = Some c"
        by (elim exE conjE) (rule that)
      with fin[OF t(3,2,4)] show ?thesis by blast
    next
      case True
      have p0: "0 < length (ws_publishers s)" "ws_publishers s ! 0 = (?claim, Routing)" using st True by simp_all
      from route_inv[OF assms(1) p0 cc] obtain h m where r: "selected_notice ?claim c (ws_cell s) = Inr (h, m)"
        "wait_inv (s\<lparr>ws_notices := ws_notices s @ [(h, m)], ws_publishers := (ws_publishers s)[0 := (?claim, Notified)]\<rparr>)"
        (is "wait_inv ?u") by blast
      have stp: "wait_step s ?u" by (rule wait_step.route[OF p0 cc r(1)])
      from notified_finishes[of ?u token task route hub ?claim Notified c] r(2) assms(2) st cc obtain t where t:
        "wait_step\<^sup>*\<^sup>* ?u t" "ws_owner t = ws_owner s" "wait_inv t" "selected_cause_of (ww_phase (ws_word t)) = Some c" by auto
      with fin[OF t(3,2,4)] relate_steps[OF stp t(1)] show ?thesis by blast
    qed
  qed
qed

section \<open>Properties\<close>

text \<open>A run of one generation: bind, park, notify.\<close>

definition sample_binding :: "nat wait_sys" where
  "sample_binding = (let n = ww_initial\<lparr>ww_generation := 1, ww_phase := Binding\<rparr> in
     (ws_set n (ws_initial 7))\<lparr>ws_owner := OwnerBinding n 1 (TaskKey 2) 0,
                                ws_begun := [(1, 1, TaskKey 2, 0)]\<rparr>)"

definition sample_parked :: "nat wait_sys" where
  "sample_parked = sample_binding\<lparr>
     ws_cell := begin_publish 1 (TaskKey 2) 0 (ww_initial\<lparr>ww_generation := 1, ww_phase := Binding\<rparr>) (ws_cell sample_binding),
     ws_owner := OwnerParked (ParkToken 7 1) 1 (TaskKey 2) 0\<rparr>"

definition sample_claimed :: "nat wait_sys" where
  "sample_claimed = (let n = claimed Ready (ws_word sample_parked) in
     (ws_set n sample_parked)\<lparr>ws_publishers := [(n, Routing)], ws_claims := [(1, Ready)]\<rparr>)"

lemma sample_binding_reach: "wait_reach 7 sample_binding"
proof -
  have g: "next_generation ww_initial = Inr 1"
    by (simp add: next_generation_def checked_add_def ww_initial_def word_le_nat_alt MAX_GENERATION_unat)
  have "begin_body 1 (TaskKey 2) (0::nat) None 0 (ws_cell (ws_initial 7)) (ws_word (ws_initial 7))
      = Cas (ww_initial\<lparr>ww_generation := 1, ww_phase := Binding\<rparr>) (Inr (Park (ParkToken 7 1) None))"
    using g by (simp add: begin_body_def ws_initial_def wait_inner_new_def cached_target_def) (simp add: ww_initial_def)
  from wait_step.begin_binding[OF _ _ _ this] have "wait_step (ws_initial 7) sample_binding"
    by (simp add: ws_initial_def sample_binding_def key_valid_def ww_initial_def Let_def)
  with wait_reach.start show ?thesis by (rule wait_reach.step)
qed

lemma sample_parked_reach: "wait_reach 7 sample_parked"
proof (rule wait_reach.step[OF sample_binding_reach])
  have "ws_owner sample_binding = OwnerBinding (ww_initial\<lparr>ww_generation := 1, ww_phase := Binding\<rparr>) 1 (TaskKey 2) 0"
    "wi_id (ws_cell sample_binding) = 7"
    by (simp_all add: sample_binding_def Let_def ws_initial_def wait_inner_new_def)
  from wait_step.begin_store[OF this(1)] this(2) show "wait_step sample_binding sample_parked"
    by (simp add: sample_parked_def)
qed

lemma sample_claimed_reach: "wait_reach 7 sample_claimed"
proof (rule wait_reach.step[OF sample_parked_reach])
  have w: "ws_word sample_parked = ww_initial\<lparr>ww_generation := 1, ww_phase := Active\<rparr>"
    "ws_publishers sample_parked = []" "ws_claims sample_parked = []"
    by (simp_all add: sample_parked_def sample_binding_def begin_publish_def bind_target_def Let_def ww_initial_def
        ws_initial_def wait_inner_new_def ws_set_def)
  have "shared_write (ws_word sample_parked) (claimed Ready (ws_word sample_parked))"
    by (rule shared_write.notify[where r = Woke]) (simp add: w notify_body_def ww_initial_def)
  from wait_step.shared_claim[OF this claim_cause_claimed] w show "wait_step sample_parked sample_claimed"
    by (simp add: sample_claimed_def Let_def ww_initial_def)
qed



text \<open>
  C1. A generation has one winner and one wake: in every reachable state each begun generation
  was claimed at most once and its notice was routed at most once, every notice carries the
  cause of that claim and goes to the task, route and hub the generation was begun with, and
  generations are never reused.
\<close>

theorem wait_single_winner:
  assumes "wait_reach i s"
  shows "distinct (map fst (ws_begun s)) \<and> distinct (map fst (ws_claims s))
    \<and> distinct (map (wn_token \<circ> snd) (ws_notices s))
    \<and> (\<forall>(h, n) \<in> set (ws_notices s).
          (generation (wn_token n), wn_cause n) \<in> set (ws_claims s)
        \<and> (generation (wn_token n), wn_task n, wn_route n, h) \<in> set (ws_begun s))"
  using wait_reach_inv[OF assms] by (auto simp: wait_inv_def history_ok_def)

theorem wait_single_winner_witness: "distinct (map fst (ws_claims sample_claimed)) \<and> ws_claims sample_claimed \<noteq> []"
  using wait_single_winner[OF sample_claimed_reach] by (simp add: sample_claimed_def Let_def)

text \<open>
  A park completes at most once per generation, with the cause of the generation's unique
  claim, and only after that claim's notice was routed.
\<close>

theorem wait_resume_exact:
  assumes "wait_reach i s"
  shows "distinct (map fst (ws_resumed s)) \<and> set (ws_resumed s) \<subseteq> set (ws_claims s)
    \<and> set (ws_resumed s) \<subseteq> (\<lambda>(h, n). (generation (wn_token n), wn_cause n)) ` set (ws_notices s)"
  using wait_reach_inv[OF assms] resumed_claims[of s] by (simp add: wait_inv_def history_ok_def)

theorem wait_resume_exact_witness: "set (ws_resumed sample_claimed) \<subseteq> set (ws_claims sample_claimed)"
  using wait_resume_exact[OF sample_claimed_reach] by blast

text \<open>
  C2. No wake is lost: from every reachable state in which the parked generation has been
  claimed, there is a continuation (the publisher's remaining steps) after which the owner's
  completion commits, and it returns exactly the claimed cause.
\<close>

theorem wait_no_lost_wake:
  assumes "wait_reach i s" and "ws_owner s = OwnerParked token task route hub"
    and "(generation token, c) \<in> set (ws_claims s)"
  shows "\<exists>t n. wait_step\<^sup>*\<^sup>* s t \<and> ws_owner t = ws_owner s \<and> finish_write token (ws_word t) n c"
  by (rule claimed_finishes[OF wait_reach_inv[OF assms(1)] assms(2,3)])

theorem wait_no_lost_wake_witness:
  "\<exists>t n. wait_step\<^sup>*\<^sup>* sample_claimed t \<and> finish_write (ParkToken 7 1) (ws_word t) n Ready"
  using wait_no_lost_wake[OF sample_claimed_reach, of "ParkToken 7 1" 1 "TaskKey 2" 0 Ready]
  by (auto simp: sample_claimed_def sample_parked_def Let_def)

end
