(* ===== verification/Wake_Queue.thy ===== *)
theory Wake_Queue
  imports Wait_Cell
begin

text \<open>
  The bounded wake queue of a carrier (wake_queue_core.rs): an intrusive list over one slot per
  task route, pushed by any thread at \<open>head\<close> and drained by the owner, which takes the whole
  batch and reverses it into its \<open>consumer\<close> chain. The top bit of \<open>head\<close> says that the owner
  sleeps. A push has two phases, filling the slot and linking it with a compare-exchange; the
  linking loop is given by its effect on the head it commits on. The theory relates the slots to
  an abstract first-in first-out queue.
\<close>

section \<open>Selections\<close>

fun cause_code :: "wake_cause \<Rightarrow> u64" where
  "cause_code Ready = 1" | "cause_code TimedOut = 2" | "cause_code CancelledCause = 3"
| "cause_code InheritedCancelled = 4" | "cause_code ClosedCause = 5"

definition encode_selection :: "u64 \<Rightarrow> wake_cause \<Rightarrow> u64 result_p" where
  "encode_selection g c =
     (if g \<le> drop_bit 3 (- 1) then Inr (push_bit 3 g OR cause_code c)
      else Inl (Panic ''wake generation exceeds packed representation''))"

definition decode_selection :: "u64 \<Rightarrow> (u64 \<times> wake_cause) result_p" where
  "decode_selection w =
     (let k = w AND 7 in
      if k = 1 then Inr (drop_bit 3 w, Ready) else if k = 2 then Inr (drop_bit 3 w, TimedOut)
      else if k = 3 then Inr (drop_bit 3 w, CancelledCause) else if k = 4 then Inr (drop_bit 3 w, InheritedCancelled)
      else if k = 5 then Inr (drop_bit 3 w, ClosedCause) else Inl (Panic ''invalid queued wake cause''))"

section \<open>State and operations\<close>

record wake_slot =
  sl_next :: usize
  sl_task :: u64
  sl_wait :: u64
  sl_selection :: u64

definition slot_new :: wake_slot where
  "slot_new = \<lparr>sl_next = 0, sl_task = 0, sl_wait = 0, sl_selection = 0\<rparr>"

record wake_queue =
  wq_slots :: "wake_slot list"
  wq_head :: usize
  wq_consumer :: usize

definition SLEEPING :: usize where "SLEEPING = push_bit 63 1"
definition INDEX_MASK :: usize where "INDEX_MASK = NOT SLEEPING"

definition wq_new :: "usize \<Rightarrow> wake_queue result_p" where
  "wq_new capacity =
     (case Option.bind (checked_mul capacity 2) (\<lambda>c. checked_add c 2) of
        None \<Rightarrow> Inl (Panic ''wake queue capacity exhausted'')
      | Some n \<Rightarrow> if n < SLEEPING
                  then Inr \<lparr>wq_slots = replicate (unat n) slot_new, wq_head = 0, wq_consumer = 0\<rparr>
                  else Inl (Panic ''wake queue capacity exhausted''))"

text \<open>
  The first half of \<open>push\<close>: reject an unknown or occupied slot with the notice, otherwise fill
  it. \<open>wq_link\<close> is the committed iteration of the compare-exchange loop; it says whether the
  owner slept.
\<close>

definition wq_fill :: "wake_notice \<Rightarrow> wake_queue \<Rightarrow> (wake_notice + wake_queue) result_p" where
  "wq_fill n q =
     (let i = unat (encoded (wn_route n)) in
      if \<not> i < length (wq_slots q) then Inr (Inl n)
      else if sl_task (wq_slots q ! i) \<noteq> 0 then Inr (Inl n)
      else (case encode_selection (generation (wn_token n)) (wn_cause n) of
              Inl e \<Rightarrow> Inl e
            | Inr sel \<Rightarrow> Inr (Inr (q\<lparr>wq_slots := (wq_slots q)[i := (wq_slots q ! i)
                \<lparr>sl_task := wn_task n, sl_wait := wait_id (wn_token n), sl_selection := sel\<rparr>]\<rparr>))))"

definition wq_link :: "usize \<Rightarrow> wake_queue \<Rightarrow> bool \<times> wake_queue" where
  "wq_link i q =
     (wq_head q AND SLEEPING \<noteq> 0,
      q\<lparr>wq_slots := (wq_slots q)[unat i := (wq_slots q ! unat i)\<lparr>sl_next := wq_head q AND INDEX_MASK\<rparr>],
        wq_head := i\<rparr>)"

definition wq_push :: "wake_notice \<Rightarrow> wake_queue \<Rightarrow> (wake_notice + bool \<times> wake_queue) result_p" where
  "wq_push n q =
     map_sum id (map_sum id (\<lambda>q1. wq_link (encoded (wn_route n)) q1)) (wq_fill n q)"

text \<open>
  \<open>reverse\<close>: the loop visits each slot of the batch once, so the number of slots bounds it;
  \<open>None\<close> means the fuel ran out.
\<close>

fun wq_reverse :: "nat \<Rightarrow> usize \<Rightarrow> usize \<Rightarrow> wake_slot list \<Rightarrow> (usize \<times> wake_slot list) result_p option" where
  "wq_reverse fuel i reversed sls =
     (if i = 0 then Some (Inr (reversed, sls))
      else (case fuel of
              0 \<Rightarrow> None
            | Suc f \<Rightarrow>
                if unat i < length sls
                then wq_reverse f (sl_next (sls ! unat i)) i
                       (sls[unat i := (sls ! unat i)\<lparr>sl_next := reversed\<rparr>])
                else Some (Inl (Panic ''index out of bounds''))))"

declare wq_reverse.simps [simp del]

text \<open>Take the slot at \<open>index\<close> off the consumer chain.\<close>

definition wq_take :: "usize \<Rightarrow> wake_queue \<Rightarrow> (wake_notice option \<times> wake_queue) result_p" where
  "wq_take index q =
     (if \<not> unat index < length (wq_slots q) then Inl (Panic ''index out of bounds'')
      else let slot = wq_slots q ! unat index in
        (case decode_selection (sl_selection slot) of
           Inl e \<Rightarrow> Inl e
         | Inr (g, cause) \<Rightarrow>
             (case task_id_new (sl_task slot) of
                Inl e \<Rightarrow> Inl e
              | Inr task \<Rightarrow>
                  (case key_from_encoded index of
                     Inl e \<Rightarrow> Inl e
                   | Inr route \<Rightarrow>
                       Inr (Some \<lparr>wn_token = ParkToken (sl_wait slot) g, wn_task = task, wn_route = route, wn_cause = cause\<rparr>,
                            q\<lparr>wq_consumer := sl_next slot,
                              wq_slots := (wq_slots q)[unat index := slot\<lparr>sl_task := 0\<rparr>]\<rparr>)))))"

definition wq_pop :: "wake_queue \<Rightarrow> (wake_notice option \<times> wake_queue) result_p option" where
  "wq_pop q =
     (if wq_consumer q \<noteq> 0 then Some (wq_take (wq_consumer q) q)
      else let index = wq_head q AND INDEX_MASK in
        if index = 0 then Some (Inr (None, q))
        else let q1 = q\<lparr>wq_head := 0\<rparr> in
          if \<not> unat index < length (wq_slots q) then Some (Inl (Panic ''index out of bounds''))
          else if sl_next (wq_slots q ! unat index) = 0 then Some (wq_take index q1)
          else (case wq_reverse (length (wq_slots q)) index 0 (wq_slots q) of
                  None \<Rightarrow> None
                | Some (Inl e) \<Rightarrow> Some (Inl e)
                | Some (Inr (first, sls)) \<Rightarrow> Some (wq_take first (q1\<lparr>wq_slots := sls\<rparr>))))"

definition wq_has_pending :: "wake_queue \<Rightarrow> bool" where
  "wq_has_pending q \<longleftrightarrow> wq_consumer q \<noteq> 0 \<or> wq_head q AND INDEX_MASK \<noteq> 0"

definition wq_pending :: "wake_queue \<Rightarrow> nat" where
  "wq_pending q = length (filter (\<lambda>s. sl_task s \<noteq> 0) (wq_slots q))"

definition wq_arm_body :: "usize \<Rightarrow> (usize, bool) attempt" where
  "wq_arm_body head =
     (if head AND INDEX_MASK \<noteq> 0 then Return True
      else if head AND SLEEPING \<noteq> 0 then Return False
      else Cas SLEEPING False)"

definition wq_arm_wait :: "wake_queue \<Rightarrow> (bool \<times> wake_queue) option" where
  "wq_arm_wait q =
     (if wq_consumer q \<noteq> 0 then Some (True, q)
      else map_option (\<lambda>(h, r). (r, q\<lparr>wq_head := h\<rparr>)) (cas_exec wq_arm_body (wq_head q)))"

definition wq_disarm_wait :: "wake_queue \<Rightarrow> wake_queue" where
  "wq_disarm_wait q = q\<lparr>wq_head := wq_head q AND INDEX_MASK\<rparr>"

section \<open>Selections round trip\<close>

lemma cause_code_bits: "bit (cause_code c) n \<Longrightarrow> n < 3"
proof -
  have "take_bit 3 (cause_code c) = cause_code c" by (cases c) simp_all
  then show "bit (cause_code c) n \<Longrightarrow> n < 3" by (metis bit_take_bit_iff)
qed

lemma selection_low: "(push_bit 3 g OR cause_code c) AND 7 = cause_code c"
proof -
  have seven: "(7 :: u64) = mask 3" by (simp add: mask_eq_exp_minus_1)
  show ?thesis unfolding seven
    by (rule bit_word_eqI) (auto simp: bit_and_iff bit_or_iff bit_push_bit_iff bit_mask_iff dest: cause_code_bits simp del: mask_numeral)
qed

lemma generation_limit: "unat (drop_bit 3 (- 1 :: u64)) = 2 ^ 61 - 1"
  by (simp add: mask_eq_exp_minus_1)

lemma selection_high:
  assumes "g \<le> drop_bit 3 (- 1)"
  shows "drop_bit 3 (push_bit 3 g OR cause_code c) = (g :: u64)"
proof (rule bit_word_eqI)
  fix n assume "n < LENGTH(64)"
  have "take_bit 61 g = g"
    using assms generation_limit by (simp add: word_le_nat_alt take_bit_eq_mod word_unat_eq_iff unat_mod)
  then have hi: "\<not> bit g n" if "61 \<le> n" using that by (metis bit_take_bit_iff not_le)
  have lo: "\<not> bit (cause_code c) (n + 3)" using cause_code_bits[of c "n + 3"] by auto
  show "bit (drop_bit 3 (push_bit 3 g OR cause_code c)) n = bit g n"
    by (cases "n < 61") (auto simp: bit_drop_bit_eq bit_or_iff bit_push_bit_iff hi lo add.commute)
qed

lemma decode_encode_selection:
  "encode_selection g c = Inr w \<Longrightarrow> decode_selection w = Inr (g, c)"
proof -
  assume e: "encode_selection g c = Inr w"
  then have g: "g \<le> drop_bit 3 (- 1)" and w: "w = push_bit 3 g OR cause_code c"
    unfolding encode_selection_def by (simp_all split: if_splits)
  show ?thesis
    unfolding w decode_selection_def Let_def selection_low selection_high[OF g] by (cases c) simp_all
qed

section \<open>Chains of slots\<close>

lemma unat_image_iff: "unat (x :: 'a::len word) \<in> unat ` A \<longleftrightarrow> x \<in> A"
  by (rule inj_image_mem_iff) (simp add: inj_def word_unat_eq_iff)

fun chain :: "wake_slot list \<Rightarrow> usize \<Rightarrow> usize list \<Rightarrow> bool" where
  "chain sl i [] \<longleftrightarrow> i = 0"
| "chain sl i (x # xs) \<longleftrightarrow> i = x \<and> x \<noteq> 0 \<and> unat x < length sl \<and> chain sl (sl_next (sl ! unat x)) xs"

lemma chain_update:
  "unat y \<notin> unat ` set xs \<Longrightarrow> chain (sl[unat y := s]) i xs = chain sl i xs"
  by (induction xs arbitrary: i) (auto simp: nth_list_update)

lemma chain_keep_next:
  "sl_next s = sl_next (sl ! j) \<Longrightarrow> chain (sl[j := s]) i xs = chain sl i xs"
proof -
  assume "sl_next s = sl_next (sl ! j)"
  then have n: "sl_next (sl[j := s] ! k) = sl_next (sl ! k)" for k
    by (cases "k = j"; cases "j < length sl") (simp_all add: list_update_beyond)
  show ?thesis by (induction xs arbitrary: i) (simp_all add: n)
qed

lemma chain_zero: "chain sl 0 xs \<longleftrightarrow> xs = []"
  by (cases xs) auto

text \<open>The payload of the slots, all but the links.\<close>

definition payload :: "wake_slot list \<Rightarrow> (u64 \<times> u64 \<times> u64) list" where
  "payload sl = map (\<lambda>s. (sl_task s, sl_wait s, sl_selection s)) sl"

lemma payload_length: "payload sl = payload sl' \<Longrightarrow> length sl = length sl'"
  unfolding payload_def by (drule arg_cong[of _ _ length]) simp

lemma payload_nth:
  assumes "payload sl = payload sl'" "j < length sl"
  shows "sl_task (sl ! j) = sl_task (sl' ! j)" "sl_wait (sl ! j) = sl_wait (sl' ! j)"
    "sl_selection (sl ! j) = sl_selection (sl' ! j)"
proof -
  have "payload sl ! j = payload sl' ! j" using assms(1) by simp
  with assms(2) payload_length[OF assms(1)]
  show "sl_task (sl ! j) = sl_task (sl' ! j)" "sl_wait (sl ! j) = sl_wait (sl' ! j)"
    "sl_selection (sl ! j) = sl_selection (sl' ! j)"
    by (simp_all add: payload_def)
qed

lemma payload_link: "payload (sl[j := (sl ! j)\<lparr>sl_next := n\<rparr>]) = payload sl"
proof (rule nth_equalityI)
  fix k assume "k < length (payload (sl[j := (sl ! j)\<lparr>sl_next := n\<rparr>]))"
  then show "payload (sl[j := (sl ! j)\<lparr>sl_next := n\<rparr>]) ! k = payload sl ! k"
    by (cases "k = j") (simp_all add: payload_def)
qed (simp add: payload_def)

text \<open>In-place reversal: enough fuel always gives the reversed chain, with the payload kept.\<close>

lemma wq_reverse_chain:
  assumes "chain sl h xs" "chain sl r ys" "distinct (xs @ ys)" "length xs \<le> fuel"
  shows "\<exists>h' sl'. wq_reverse fuel h r sl = Some (Inr (h', sl')) \<and> chain sl' h' (rev xs @ ys) \<and> payload sl' = payload sl"
  using assms
proof (induction xs arbitrary: h r ys sl fuel)
  case Nil
  then show ?case by (auto simp: wq_reverse.simps)
next
  case (Cons x xs)
  then obtain f where f: "fuel = Suc f" by (cases fuel) auto
  let ?sl = "sl[unat x := (sl ! unat x)\<lparr>sl_next := r\<rparr>]"
  have x: "h = x" "x \<noteq> 0" "unat x < length sl" "chain sl (sl_next (sl ! unat x)) xs" using Cons.prems(1) by auto
  have nx: "unat x \<notin> unat ` set xs" "unat x \<notin> unat ` set ys"
    using Cons.prems(3) by (simp_all add: unat_image_iff)
  have "chain ?sl (sl_next (sl ! unat x)) xs" "chain ?sl x (x # ys)"
    using x nx Cons.prems(2) by (simp_all add: chain_update)
  from Cons.IH[OF this, of f] Cons.prems(3,4) f obtain h' sl' where
    "wq_reverse f (sl_next (sl ! unat x)) x ?sl = Some (Inr (h', sl'))" "chain sl' h' (rev xs @ x # ys)" "payload sl' = payload ?sl"
    by auto
  moreover have "wq_reverse fuel h r sl = wq_reverse f (sl_next (sl ! unat x)) x ?sl"
    using x f by (simp add: wq_reverse.simps[of "Suc f"])
  ultimately show ?case by (simp add: payload_link)
qed

section \<open>Representation\<close>

text \<open>
  \<open>wq_rep ks hs fs q\<close>: the consumer chain is \<open>ks\<close>, the batch behind \<open>head\<close> is \<open>hs\<close>, and the
  slots \<open>fs\<close> have been filled by producers that did not link them yet; every other slot is free.
  The sleeping bit is set on an empty queue only.
\<close>

definition slot_ok :: "wake_slot list \<Rightarrow> usize \<Rightarrow> bool" where
  "slot_ok sl x \<longleftrightarrow> x \<noteq> 0 \<and> unat x < length sl \<and> sl_task (sl ! unat x) \<noteq> 0
     \<and> \<not> isl (decode_selection (sl_selection (sl ! unat x)))"

definition slot_notice :: "wake_slot list \<Rightarrow> usize \<Rightarrow> wake_notice" where
  "slot_notice sl x = (let s = sl ! unat x; (g, c) = projr (decode_selection (sl_selection s)) in
     \<lparr>wn_token = ParkToken (sl_wait s) g, wn_task = sl_task s, wn_route = TaskKey x, wn_cause = c\<rparr>)"

definition wq_rep :: "usize list \<Rightarrow> usize list \<Rightarrow> usize list \<Rightarrow> wake_queue \<Rightarrow> bool" where
  "wq_rep ks hs fs q \<longleftrightarrow>
     length (wq_slots q) < 2 ^ 63 \<and> distinct (ks @ hs @ fs)
     \<and> (\<forall>x \<in> set (ks @ hs @ fs). slot_ok (wq_slots q) x)
     \<and> (\<forall>j < length (wq_slots q). sl_task (wq_slots q ! j) \<noteq> 0 \<longrightarrow> j \<in> unat ` set (ks @ hs @ fs))
     \<and> chain (wq_slots q) (wq_consumer q) ks \<and> chain (wq_slots q) (wq_head q AND INDEX_MASK) hs
     \<and> (wq_head q AND SLEEPING \<noteq> 0 \<longrightarrow> ks = [] \<and> hs = [])"

text \<open>The queued notices, oldest first.\<close>

fun chain_list :: "nat \<Rightarrow> wake_slot list \<Rightarrow> usize \<Rightarrow> usize list" where
  "chain_list 0 sl i = []"
| "chain_list (Suc f) sl i = (if i = 0 then [] else i # chain_list f sl (sl_next (sl ! unat i)))"

definition wq_routes :: "wake_queue \<Rightarrow> usize list" where
  "wq_routes q = chain_list (length (wq_slots q)) (wq_slots q) (wq_consumer q)
     @ rev (chain_list (length (wq_slots q)) (wq_slots q) (wq_head q AND INDEX_MASK))"

definition wq_contents :: "wake_queue \<Rightarrow> wake_notice list" where
  "wq_contents q = map (slot_notice (wq_slots q)) (wq_routes q)"

lemma chain_list_chain: "chain sl i xs \<Longrightarrow> length xs \<le> f \<Longrightarrow> chain_list f sl i = xs"
proof (induction xs arbitrary: i f)
  case Nil
  then show ?case by (cases f) auto
next
  case (Cons x xs)
  then show ?case by (cases f) auto
qed

lemma distinct_slots_length:
  assumes "distinct xs" "\<forall>x \<in> set xs. slot_ok sl x"
  shows "length xs \<le> length sl"
proof -
  have "distinct (map unat xs)" using assms(1) by (simp add: distinct_map inj_on_def word_unat_eq_iff)
  moreover have "set (map unat xs) \<subseteq> {..< length sl}" using assms(2) by (auto simp: slot_ok_def)
  ultimately have "card (set (map unat xs)) \<le> length sl"
    using card_mono[of "{..< length sl}" "set (map unat xs)"] by simp
  with distinct_card[OF \<open>distinct (map unat xs)\<close>] show ?thesis by simp
qed

lemma wq_rep_lengths:
  assumes "wq_rep ks hs fs q"
  shows "length ks \<le> length (wq_slots q)" "length hs \<le> length (wq_slots q)"
  using assms distinct_slots_length[of ks "wq_slots q"] distinct_slots_length[of hs "wq_slots q"]
  by (auto simp: wq_rep_def)

lemma wq_rep_contents:
  assumes "wq_rep ks hs fs q"
  shows "wq_routes q = ks @ rev hs" "wq_contents q = map (slot_notice (wq_slots q)) (ks @ rev hs)"
proof -
  note l = wq_rep_lengths[OF assms]
  have "chain_list (length (wq_slots q)) (wq_slots q) (wq_consumer q) = ks"
    "chain_list (length (wq_slots q)) (wq_slots q) (wq_head q AND INDEX_MASK) = hs"
    using assms l by (auto simp: wq_rep_def intro: chain_list_chain)
  then show "wq_routes q = ks @ rev hs" by (simp add: wq_routes_def)
  then show "wq_contents q = map (slot_notice (wq_slots q)) (ks @ rev hs)" by (simp add: wq_contents_def)
qed

lemma bit_SLEEPING: "bit SLEEPING n \<longleftrightarrow> n = 63"
  unfolding SLEEPING_def bit_push_bit_iff bit_1_iff by auto

lemma index_masked:
  assumes "unat i < 2 ^ 63"
  shows "i AND INDEX_MASK = i" "i AND SLEEPING = 0"
proof -
  have "take_bit 63 i = i" using assms by (simp add: take_bit_eq_mod word_unat_eq_iff unat_mod)
  then have b: "\<not> bit i 63" by (metis bit_take_bit_iff less_irrefl)
  show "i AND INDEX_MASK = i"
    by (rule bit_word_eqI) (auto simp: INDEX_MASK_def bit_and_iff bit_not_iff bit_SLEEPING b dest: bit_imp_le_length)
  show "i AND SLEEPING = 0"
    by (rule bit_word_eqI) (auto simp: bit_and_iff bit_SLEEPING b)
qed

lemma SLEEPING_nz [simp]: "SLEEPING \<noteq> 0"
  by (simp add: SLEEPING_def)

lemma mask_simps [simp]:
  "0 AND INDEX_MASK = 0" "SLEEPING AND INDEX_MASK = 0" "SLEEPING AND SLEEPING = SLEEPING"
  "(h AND INDEX_MASK) AND INDEX_MASK = h AND INDEX_MASK" "(h AND INDEX_MASK) AND SLEEPING = 0"
  by (simp_all add: INDEX_MASK_def and.assoc)

lemma slot_notice_payload:
  "payload sl = payload sl' \<Longrightarrow> unat x < length sl \<Longrightarrow> slot_notice sl x = slot_notice sl' x"
  by (simp add: slot_notice_def Let_def payload_nth)

lemma slot_ok_payload:
  assumes "payload sl = payload sl'"
  shows "slot_ok sl x = slot_ok sl' x"
  using payload_length[OF assms] payload_nth[OF assms, of "unat x"] by (auto simp: slot_ok_def)

section \<open>Operations on the representation\<close>

definition notice_ok :: "wake_notice \<Rightarrow> bool" where
  "notice_ok n \<longleftrightarrow> key_valid (wn_route n) \<and> wn_task n \<noteq> 0 \<and> generation (wn_token n) \<le> drop_bit 3 (- 1)"

lemma slot_update_other:
  assumes "x \<noteq> y"
  shows "slot_ok (sl[unat y := s]) x = slot_ok sl x" "slot_notice (sl[unat y := s]) x = slot_notice sl x"
proof -
  have "unat y \<noteq> unat x" using assms by (simp add: word_unat_eq_iff)
  then show "slot_ok (sl[unat y := s]) x = slot_ok sl x" "slot_notice (sl[unat y := s]) x = slot_notice sl x"
    by (simp_all add: slot_ok_def slot_notice_def)
qed

lemma slot_notices_other:
  "y \<notin> set xs \<Longrightarrow> map (slot_notice (sl[unat y := s])) xs = map (slot_notice sl) xs"
  by (rule map_cong) (auto intro: slot_update_other)

lemma wq_fill_occupied:
  assumes "wq_rep ks hs fs q" "encoded (wn_route n) \<in> set (ks @ hs @ fs)"
  shows "wq_fill n q = Inr (Inl n)"
proof -
  have "slot_ok (wq_slots q) (encoded (wn_route n))" using assms unfolding wq_rep_def by metis
  then show ?thesis by (simp add: wq_fill_def slot_ok_def)
qed

lemma wq_fill_rep:
  assumes "wq_rep ks hs fs q" "notice_ok n" "unat (encoded (wn_route n)) < length (wq_slots q)"
    "encoded (wn_route n) \<notin> set (ks @ hs @ fs)"
  shows "\<exists>q1. wq_fill n q = Inr (Inr q1) \<and> wq_rep ks hs (encoded (wn_route n) # fs) q1
    \<and> slot_notice (wq_slots q1) (encoded (wn_route n)) = n
    \<and> map (slot_notice (wq_slots q1)) (ks @ hs @ fs) = map (slot_notice (wq_slots q)) (ks @ hs @ fs)"
proof -
  let ?x = "encoded (wn_route n)"
  obtain sel where sel: "encode_selection (generation (wn_token n)) (wn_cause n) = Inr sel"
    using assms(2) unfolding encode_selection_def notice_ok_def by simp
  note dec = decode_encode_selection[OF sel]
  define s where "s = (wq_slots q ! unat ?x)\<lparr>sl_task := wn_task n, sl_wait := wait_id (wn_token n), sl_selection := sel\<rparr>"
  define q1 where "q1 = q\<lparr>wq_slots := (wq_slots q)[unat ?x := s]\<rparr>"
  have free: "sl_task (wq_slots q ! unat ?x) = 0"
    using assms(1,3,4) unfolding wq_rep_def unat_image_iff[symmetric, of ?x] by blast
  have fill: "wq_fill n q = Inr (Inr q1)"
    using assms(3) free sel by (simp add: wq_fill_def q1_def s_def Let_def)
  have x0: "?x \<noteq> 0" using assms(2) by (auto simp: notice_ok_def key_valid_def)
  have ok: "slot_ok (wq_slots q1) ?x"
    using x0 assms(2,3) dec by (simp add: slot_ok_def q1_def s_def notice_ok_def)
  have nt: "slot_notice (wq_slots q1) ?x = n"
    using assms(3) dec by (simp add: slot_notice_def q1_def s_def)
  have ch: "chain (wq_slots q1) i xs = chain (wq_slots q) i xs" for i xs
    by (simp add: q1_def chain_keep_next s_def)
  have others: "slot_ok (wq_slots q1) y" if "y \<in> set (ks @ hs @ fs)" for y
  proof -
    have "y \<noteq> ?x" using that assms(4) by metis
    from slot_update_other(1)[OF this] that assms(1) show ?thesis by (simp add: wq_rep_def q1_def)
  qed
  have occ: "j \<in> unat ` set (ks @ hs @ ?x # fs)" if "j < length (wq_slots q)" "sl_task (wq_slots q1 ! j) \<noteq> 0" for j
    using that assms(1) by (cases "j = unat ?x") (auto simp: wq_rep_def q1_def)
  have "wq_rep ks hs (?x # fs) q1"
    unfolding wq_rep_def ch using assms(1,4) ok others occ
    by (auto simp: wq_rep_def q1_def)
  moreover have "map (slot_notice (wq_slots q1)) (ks @ hs @ fs) = map (slot_notice (wq_slots q)) (ks @ hs @ fs)"
    using slot_notices_other[OF assms(4)] by (simp add: q1_def)
  ultimately show ?thesis using fill nt by blast
qed

lemma wq_link_rep:
  assumes "wq_rep ks hs fs q" "x \<in> set fs"
  shows "wq_rep ks (x # hs) (remove1 x fs) (snd (wq_link x q))"
    "payload (wq_slots (snd (wq_link x q))) = payload (wq_slots q)"
proof -
  define sl where "sl = (wq_slots q)[unat x := (wq_slots q ! unat x)\<lparr>sl_next := wq_head q AND INDEX_MASK\<rparr>]"
  have pl: "payload sl = payload (wq_slots q)" unfolding sl_def by (rule payload_link)
  have x: "slot_ok (wq_slots q) x" "length (wq_slots q) < 2 ^ 63" "x \<notin> set ks" "x \<notin> set hs"
    using assms by (auto simp: wq_rep_def)
  then have i: "x AND INDEX_MASK = x" "x AND SLEEPING = 0"
    by (auto simp: slot_ok_def intro!: index_masked)
  have ch: "chain sl (wq_consumer q) ks" "chain sl x (x # hs)"
  proof -
    have c: "chain (wq_slots q) (wq_consumer q) ks" "chain (wq_slots q) (wq_head q AND INDEX_MASK) hs"
      using assms(1) unfolding wq_rep_def by blast+
    have n: "unat x \<notin> unat ` set ks" "unat x \<notin> unat ` set hs" "unat x < length (wq_slots q)" "x \<noteq> 0"
      using x unfolding unat_image_iff slot_ok_def by blast+
    show "chain sl (wq_consumer q) ks" using c(1) chain_update[OF n(1)] unfolding sl_def by blast
    show "chain sl x (x # hs)" using c(2) chain_update[OF n(2)] n(3,4) by (simp add: sl_def)
  qed
  have st: "set (ks @ (x # hs) @ remove1 x fs) = set (ks @ hs @ fs)"
    using assms by (auto simp: wq_rep_def)
  have ds: "distinct (ks @ (x # hs) @ remove1 x fs)"
    using assms by (auto simp: wq_rep_def)
  have tk: "sl_task (sl ! j) = sl_task (wq_slots q ! j)" if "j < length (wq_slots q)" for j
    using payload_nth(1)[OF pl, of j] payload_length[OF pl] that by simp
  have "wq_rep ks (x # hs) (remove1 x fs) (q\<lparr>wq_slots := sl, wq_head := x\<rparr>)"
    unfolding wq_rep_def st using assms(1) ds ch i tk slot_ok_payload[OF pl] payload_length[OF pl]
    by (simp add: wq_rep_def)
  then show "wq_rep ks (x # hs) (remove1 x fs) (snd (wq_link x q))" by (simp add: wq_link_def sl_def)
  show "payload (wq_slots (snd (wq_link x q))) = payload (wq_slots q)" by (simp add: wq_link_def pl[unfolded sl_def])
qed

lemma wq_take_rep:
  assumes "wq_rep (x # ks) hs fs (q\<lparr>wq_consumer := x\<rparr>)"
  shows "\<exists>q1. wq_take x q = Inr (Some (slot_notice (wq_slots q) x), q1) \<and> wq_rep ks hs fs q1
    \<and> map (slot_notice (wq_slots q1)) (ks @ hs @ fs) = map (slot_notice (wq_slots q)) (ks @ hs @ fs)"
proof -
  let ?s = "wq_slots q ! unat x"
  have x: "slot_ok (wq_slots q) x" "x \<notin> set (ks @ hs @ fs)" using assms by (auto simp: wq_rep_def)
  then obtain g c where dec: "decode_selection (sl_selection ?s) = Inr (g, c)"
    by (cases "decode_selection (sl_selection ?s)") (auto simp: slot_ok_def)
  define q1 where "q1 = q\<lparr>wq_consumer := sl_next ?s, wq_slots := (wq_slots q)[unat x := ?s\<lparr>sl_task := 0\<rparr>]\<rparr>"
  have take: "wq_take x q = Inr (Some (slot_notice (wq_slots q) x), q1)"
    using x(1) dec by (simp add: wq_take_def slot_ok_def task_id_new_def key_from_encoded_def slot_notice_def q1_def Let_def)
  have ch: "chain (wq_slots q1) i xs = chain (wq_slots q) i xs" for i xs
    by (simp add: q1_def chain_keep_next)
  have others: "slot_ok (wq_slots q1) y" if "y \<in> set (ks @ hs @ fs)" for y
  proof -
    have "y \<noteq> x" using that x(2) by metis
    from slot_update_other(1)[OF this] that assms show ?thesis by (auto simp: wq_rep_def q1_def)
  qed
  have occ: "j \<in> unat ` set (ks @ hs @ fs)" if "j < length (wq_slots q)" "sl_task (wq_slots q1 ! j) \<noteq> 0" for j
    using that assms by (cases "j = unat x") (auto simp: wq_rep_def q1_def)
  have "wq_rep ks hs fs q1"
    unfolding wq_rep_def ch using assms others occ by (simp add: wq_rep_def q1_def)
  moreover have "map (slot_notice (wq_slots q1)) (ks @ hs @ fs) = map (slot_notice (wq_slots q)) (ks @ hs @ fs)"
    using slot_notices_other[OF x(2)] by (simp add: q1_def)
  ultimately show ?thesis using take by blast
qed

lemma wq_reverse_rep:
  assumes "wq_rep [] hs fs q" "hs \<noteq> []"
  shows "\<exists>i sl. wq_reverse (length (wq_slots q)) (wq_head q AND INDEX_MASK) 0 (wq_slots q) = Some (Inr (i, sl))
     \<and> i = last hs \<and> wq_rep (rev hs) [] fs (q\<lparr>wq_head := 0, wq_slots := sl, wq_consumer := i\<rparr>) \<and> payload sl = payload (wq_slots q)"
proof -
  have "chain (wq_slots q) (wq_head q AND INDEX_MASK) hs" "distinct (hs @ [])" using assms(1) by (auto simp: wq_rep_def)
  from wq_reverse_chain[OF this(1) _ this(2) wq_rep_lengths(2)[OF assms(1)], of 0] obtain i sl where r:
    "wq_reverse (length (wq_slots q)) (wq_head q AND INDEX_MASK) 0 (wq_slots q) = Some (Inr (i, sl))"
    "chain sl i (rev hs)" "payload sl = payload (wq_slots q)" by auto
  have "i = last hs" using r(2) assms(2) by (cases "rev hs") (auto simp: last_rev[symmetric] hd_rev)
  moreover have "wq_rep (rev hs) [] fs (q\<lparr>wq_head := 0, wq_slots := sl, wq_consumer := i\<rparr>)"
    using assms(1) r(2) slot_ok_payload[OF r(3)] payload_length[OF r(3)] payload_nth(1)[OF r(3)]
    by (simp add: wq_rep_def)
  ultimately show ?thesis using r by blast
qed

lemma wq_pop_empty: "wq_rep [] [] fs q \<Longrightarrow> wq_pop q = Some (Inr (None, q))"
  by (simp add: wq_rep_def wq_pop_def)

lemma wq_pop_rep:
  assumes "wq_rep ks hs fs q" "ks @ rev hs = x # rest"
  shows "\<exists>q1 ks1 hs1. wq_pop q = Some (Inr (Some (slot_notice (wq_slots q) x), q1)) \<and> wq_rep ks1 hs1 fs q1
    \<and> ks1 @ rev hs1 = rest \<and> map (slot_notice (wq_slots q1)) (rest @ fs) = map (slot_notice (wq_slots q)) (rest @ fs)"
proof (cases ks)
  case (Cons k ks1)
  then have k: "k = x" "rest = ks1 @ rev hs" "wq_consumer q = x" "x \<noteq> 0" using assms by (auto simp: wq_rep_def)
  have "wq_rep (x # ks1) hs fs (q\<lparr>wq_consumer := x\<rparr>)" using assms(1) Cons k(1,3) by (simp add: wq_rep_def)
  from wq_take_rep[OF this] obtain q1 where t: "wq_take x q = Inr (Some (slot_notice (wq_slots q) x), q1)" "wq_rep ks1 hs fs q1"
    "map (slot_notice (wq_slots q1)) (ks1 @ hs @ fs) = map (slot_notice (wq_slots q)) (ks1 @ hs @ fs)" by blast
  then have "map (slot_notice (wq_slots q1)) (rest @ fs) = map (slot_notice (wq_slots q)) (rest @ fs)"
    by (simp add: k(2) rev_map[symmetric])
  with t k show ?thesis by (intro exI[of _ q1] exI[of _ ks1] exI[of _ hs]) (simp add: wq_pop_def)
next
  case Nil
  then have hs: "rev hs = x # rest" "hs \<noteq> []" "last hs = x" using assms(2) by (auto simp: hd_rev[symmetric])
  have c0: "wq_consumer q = 0" "wq_head q AND INDEX_MASK = hd hs" "hd hs \<noteq> 0" "unat (hd hs) < length (wq_slots q)"
    using assms(1) Nil hs(2) by (cases hs; auto simp: wq_rep_def)+
  from wq_reverse_rep[of hs fs q] assms(1) Nil hs(2,3) obtain sl where r:
    "wq_reverse (length (wq_slots q)) (wq_head q AND INDEX_MASK) 0 (wq_slots q) = Some (Inr (x, sl))"
    "wq_rep (x # rest) [] fs (q\<lparr>wq_head := 0, wq_slots := sl, wq_consumer := x\<rparr>)" "payload sl = payload (wq_slots q)"
    using hs(1) by auto
  have bound: "\<forall>y \<in> set (x # rest @ fs). unat y < length sl"
    using r(2) by (auto simp: wq_rep_def slot_ok_def)
  have sn: "map (slot_notice sl) (rest @ fs) = map (slot_notice (wq_slots q)) (rest @ fs)" "slot_notice sl x = slot_notice (wq_slots q) x"
    using bound by (auto intro!: slot_notice_payload[OF r(3)])
  obtain q2 where q2: "wq_pop q = Some (wq_take x q2)" "wq_rep (x # rest) [] fs (q2\<lparr>wq_consumer := x\<rparr>)"
    "map (slot_notice (wq_slots q2)) (rest @ fs) = map (slot_notice (wq_slots q)) (rest @ fs)"
    "slot_notice (wq_slots q2) x = slot_notice (wq_slots q) x"
  proof (cases "sl_next (wq_slots q ! unat (hd hs)) = 0")
    case False
    then have "wq_pop q = Some (wq_take x (q\<lparr>wq_head := 0, wq_slots := sl\<rparr>))"
      using c0 r(1) by (simp add: wq_pop_def Let_def)
    with r(2) sn show ?thesis by (intro that[of "q\<lparr>wq_head := 0, wq_slots := sl\<rparr>"]) simp_all
  next
    case True
    then have one: "hs = [x]"
      using assms(1) hs Nil chain_zero by (cases hs) (auto simp: wq_rep_def)
    then have "wq_pop q = Some (wq_take x (q\<lparr>wq_head := 0\<rparr>))"
      using True c0 by (simp add: wq_pop_def Let_def)
    moreover have "wq_rep (x # rest) [] fs (q\<lparr>wq_head := 0, wq_consumer := x\<rparr>)"
      using assms(1) Nil hs one True by (auto simp: wq_rep_def)
    ultimately show ?thesis by (intro that[of "q\<lparr>wq_head := 0\<rparr>"]) simp_all
  qed
  from wq_take_rep[OF q2(2)] q2 obtain q1 where
    "wq_pop q = Some (Inr (Some (slot_notice (wq_slots q) x), q1))" "wq_rep rest [] fs q1"
    "map (slot_notice (wq_slots q1)) (rest @ fs) = map (slot_notice (wq_slots q)) (rest @ fs)" by auto
  then show ?thesis by (intro exI[of _ q1] exI[of _ rest] exI[of _ "[]"]) simp
qed

lemma wq_arm_rep:
  assumes "wq_rep ks hs fs q"
  shows "\<exists>q1. wq_arm_wait q = Some (ks @ hs \<noteq> [], q1) \<and> wq_rep ks hs fs q1 \<and> wq_slots q1 = wq_slots q
    \<and> (ks @ hs = [] \<longrightarrow> wq_head q1 AND SLEEPING \<noteq> 0)"
proof (cases "ks @ hs = []")
  case True
  with assms show ?thesis by (auto simp: wq_rep_def wq_arm_wait_def cas_exec_def wq_arm_body_def)
next
  case False
  then have "wq_arm_wait q = Some (True, q)"
    using assms by (cases ks; cases hs) (auto simp: wq_rep_def wq_arm_wait_def cas_exec_def wq_arm_body_def)
  with False assms show ?thesis by auto
qed

lemma wq_disarm_rep:
  "wq_rep ks hs fs q \<Longrightarrow> wq_rep ks hs fs (wq_disarm_wait q) \<and> wq_slots (wq_disarm_wait q) = wq_slots q"
  by (simp add: wq_rep_def wq_disarm_wait_def)

lemma wq_new_rep: "wq_new cap = Inr q \<Longrightarrow> wq_rep [] [] [] q"
proof -
  assume "wq_new cap = Inr q"
  then obtain n where n: "n < SLEEPING" "q = \<lparr>wq_slots = replicate (unat n) slot_new, wq_head = 0, wq_consumer = 0\<rparr>"
    by (auto simp: wq_new_def split: option.splits if_splits)
  have "unat SLEEPING = 2 ^ 63" by (simp add: SLEEPING_def)
  with n(1) have "unat n < 2 ^ 63" by (simp add: word_less_nat_alt)
  then show ?thesis by (simp add: wq_rep_def n(2) slot_new_def)
qed

section \<open>The interface of a wake queue\<close>

text \<open>Pop a given number of notices, stopping at an empty queue; push a list of notices.\<close>

fun drain_n :: "('q \<Rightarrow> (wake_notice option \<times> 'q) result_p option) \<Rightarrow> nat \<Rightarrow> 'q \<Rightarrow> (wake_notice list \<times> 'q) option" where
  "drain_n pop 0 q = Some ([], q)"
| "drain_n pop (Suc k) q =
     (case pop q of
        Some (Inr (Some n, q')) \<Rightarrow> map_option (\<lambda>(ns, q''). (n # ns, q'')) (drain_n pop k q')
      | Some (Inr (None, q')) \<Rightarrow> Some ([], q')
      | _ \<Rightarrow> None)"

fun refill :: "(wake_notice \<Rightarrow> 'q \<Rightarrow> (wake_notice + bool \<times> 'q) result_p) \<Rightarrow> wake_notice list \<Rightarrow> 'q \<Rightarrow> 'q option" where
  "refill push [] q = Some q"
| "refill push (n # ns) q = (case push n q of Inr (Inr (_, q')) \<Rightarrow> refill push ns q' | _ \<Rightarrow> None)"

text \<open>
  What a hub relies on: a queue of notices, at most one per route, that accepts an admissible
  notice exactly when its route is free, appends it, and gives the oldest notice back first.
\<close>

locale wake_fifo =
  fixes push :: "wake_notice \<Rightarrow> 'q \<Rightarrow> (wake_notice + bool \<times> 'q) result_p"
    and pop :: "'q \<Rightarrow> (wake_notice option \<times> 'q) result_p option"
    and contents :: "'q \<Rightarrow> wake_notice list"
    and slots_of :: "'q \<Rightarrow> nat"
    and invar :: "'q \<Rightarrow> bool"
  assumes push_free: "invar q \<Longrightarrow> notice_ok n \<Longrightarrow> unat (encoded (wn_route n)) < slots_of q \<Longrightarrow>
        wn_route n \<notin> wn_route ` set (contents q) \<Longrightarrow>
        \<exists>b q'. push n q = Inr (Inr (b, q')) \<and> invar q' \<and> contents q' = contents q @ [n] \<and> slots_of q' = slots_of q"
    and push_taken: "invar q \<Longrightarrow> wn_route n \<in> wn_route ` set (contents q) \<Longrightarrow> push n q = Inr (Inl n)"
    and pop_empty: "invar q \<Longrightarrow> contents q = [] \<Longrightarrow> pop q = Some (Inr (None, q))"
    and pop_oldest: "invar q \<Longrightarrow> contents q = n # ns \<Longrightarrow>
        \<exists>q'. pop q = Some (Inr (Some n, q')) \<and> invar q' \<and> contents q' = ns \<and> slots_of q' = slots_of q"
    and contents_ok: "invar q \<Longrightarrow> n \<in> set (contents q) \<Longrightarrow> notice_ok n \<and> unat (encoded (wn_route n)) < slots_of q"
    and contents_routes: "invar q \<Longrightarrow> distinct (map wn_route (contents q))"
begin

lemma drain_takes:
  "invar q \<Longrightarrow> \<exists>q'. drain_n pop k q = Some (take k (contents q), q') \<and> invar q' \<and> contents q' = drop k (contents q) \<and> slots_of q' = slots_of q"
proof (induction k arbitrary: q)
  case (Suc k)
  show ?case
  proof (cases "contents q")
    case Nil
    with pop_empty[OF Suc.prems] Suc.prems show ?thesis by simp
  next
    case (Cons n ns)
    from pop_oldest[OF Suc.prems Cons] obtain q' where
      q': "pop q = Some (Inr (Some n, q'))" "invar q'" "contents q' = ns" "slots_of q' = slots_of q" by blast
    from Suc.IH[OF q'(2)] q' Cons show ?thesis by auto
  qed
qed simp

lemma refill_appends:
  assumes "invar q" "\<forall>n \<in> set ns. notice_ok n \<and> unat (encoded (wn_route n)) < slots_of q"
    "distinct (map wn_route (contents q @ ns))"
  shows "\<exists>q'. refill push ns q = Some q' \<and> invar q' \<and> contents q' = contents q @ ns \<and> slots_of q' = slots_of q"
  using assms
proof (induction ns arbitrary: q)
  case (Cons n ns)
  have "wn_route n \<notin> wn_route ` set (contents q)" using Cons.prems(3) by auto
  with push_free[OF Cons.prems(1), of n] Cons.prems(2) obtain b q' where
    q': "push n q = Inr (Inr (b, q'))" "invar q'" "contents q' = contents q @ [n]" "slots_of q' = slots_of q" by auto
  from Cons.IH[OF q'(2)] Cons.prems(2,3) q' show ?case by auto
qed simp

end

definition wq_inv :: "wake_queue \<Rightarrow> bool" where
  "wq_inv q \<longleftrightarrow> (\<exists>ks hs. wq_rep ks hs [] q \<and> (\<forall>x \<in> set (ks @ hs). notice_ok (slot_notice (wq_slots q) x)))"

lemma slot_notice_route [simp]: "wn_route (slot_notice sl x) = TaskKey x"
  by (simp add: slot_notice_def Let_def split: prod.split)

lemma TaskKey_image: "TaskKey x \<in> TaskKey ` A \<longleftrightarrow> x \<in> A"
  by auto

lemma contents_route_iff:
  "wq_rep ks hs fs q \<Longrightarrow> wn_route n \<in> wn_route ` set (wq_contents q) \<longleftrightarrow> encoded (wn_route n) \<in> set (ks @ hs)"
  by (cases "wn_route n") (auto simp: wq_rep_contents(2) image_image TaskKey_image image_Un)

lemma wq_push_rep:
  assumes "wq_rep ks hs fs q" "notice_ok n" "unat (encoded (wn_route n)) < length (wq_slots q)"
    "encoded (wn_route n) \<notin> set (ks @ hs @ fs)"
  shows "\<exists>b q1. wq_push n q = Inr (Inr (b, q1)) \<and> wq_rep ks (encoded (wn_route n) # hs) fs q1
    \<and> slot_notice (wq_slots q1) (encoded (wn_route n)) = n
    \<and> map (slot_notice (wq_slots q1)) (ks @ hs @ fs) = map (slot_notice (wq_slots q)) (ks @ hs @ fs)
    \<and> length (wq_slots q1) = length (wq_slots q) \<and> b = (wq_head q AND SLEEPING \<noteq> 0)"
proof -
  let ?x = "encoded (wn_route n)"
  from wq_fill_rep[OF assms] obtain q1 where q1: "wq_fill n q = Inr (Inr q1)" "wq_rep ks hs (?x # fs) q1"
    "slot_notice (wq_slots q1) ?x = n"
    "map (slot_notice (wq_slots q1)) (ks @ hs @ fs) = map (slot_notice (wq_slots q)) (ks @ hs @ fs)" by blast
  let ?q2 = "snd (wq_link ?x q1)"
  have r: "wq_rep ks (?x # hs) fs ?q2" "payload (wq_slots ?q2) = payload (wq_slots q1)"
    using wq_link_rep[OF q1(2), of ?x] by simp_all
  have bound: "\<forall>y \<in> set (?x # ks @ hs @ fs). unat y < length (wq_slots ?q2)"
    using r(1) by (auto simp: wq_rep_def slot_ok_def)
  have eq: "slot_notice (wq_slots ?q2) y = slot_notice (wq_slots q1) y" if "y \<in> set (?x # ks @ hs @ fs)" for y
    using bound that by (intro slot_notice_payload[OF r(2)]) blast
  have len: "length (wq_slots ?q2) = length (wq_slots q)" "wq_head q1 = wq_head q"
    using payload_length[OF r(2)] q1(1) by (auto simp: wq_fill_def Let_def split: if_splits sum.splits)
  have "wq_push n q = Inr (Inr (wq_head q AND SLEEPING \<noteq> 0, ?q2))"
    using q1(1) len(2) by (simp add: wq_push_def wq_link_def)
  moreover have "map (slot_notice (wq_slots ?q2)) (ks @ hs @ fs) = map (slot_notice (wq_slots q1)) (ks @ hs @ fs)"
    by (rule map_cong) (auto intro: eq)
  ultimately show ?thesis using r(1) eq[of ?x] q1(3,4) len(1) by auto
qed

lemma wq_reverse_length: "wq_reverse f i r sl = Some (Inr (h, sl1)) \<Longrightarrow> length sl1 = length sl"
proof (induction f arbitrary: i r sl)
  case 0
  then show ?case by (simp add: wq_reverse.simps split: if_splits)
next
  case (Suc f)
  show ?case
  proof (cases "i = 0")
    case True
    with Suc.prems show ?thesis by (simp add: wq_reverse.simps[of "Suc f"])
  next
    case False
    with Suc.prems have "wq_reverse f (sl_next (sl ! unat i)) i (sl[unat i := (sl ! unat i)\<lparr>sl_next := r\<rparr>]) = Some (Inr (h, sl1))"
      by (simp add: wq_reverse.simps[of "Suc f"] split: if_splits)
    from Suc.IH[OF this] show ?thesis by simp
  qed
qed

lemma wq_take_length: "wq_take x q = Inr (r, q1) \<Longrightarrow> length (wq_slots q1) = length (wq_slots q)"
  by (auto simp: wq_take_def Let_def split: if_splits sum.splits)

lemma wq_pop_length: "wq_pop q = Some (Inr (r, q1)) \<Longrightarrow> length (wq_slots q1) = length (wq_slots q)"
  by (auto simp: wq_pop_def Let_def split: if_splits option.splits sum.splits dest!: wq_take_length wq_reverse_length)

lemma wq_rep_slot_ok: "wq_rep ks hs fs q \<Longrightarrow> z \<in> set (ks @ hs @ fs) \<Longrightarrow> slot_ok (wq_slots q) z"
  unfolding wq_rep_def by blast

interpretation wq: wake_fifo wq_push wq_pop wq_contents "length \<circ> wq_slots" wq_inv
proof
  fix q n
  assume q: "wq_inv q" and n: "notice_ok n" "unat (encoded (wn_route n)) < (length \<circ> wq_slots) q"
    and free: "wn_route n \<notin> wn_route ` set (wq_contents q)"
  from q obtain ks hs where r: "wq_rep ks hs [] q" "\<forall>x \<in> set (ks @ hs). notice_ok (slot_notice (wq_slots q) x)"
    by (auto simp: wq_inv_def)
  let ?x = "encoded (wn_route n)"
  have fr: "?x \<notin> set (ks @ hs @ [])" using free contents_route_iff[OF r(1), of n] by auto
  from wq_push_rep[OF r(1) n(1) _ fr] n(2) obtain b q1 where p: "wq_push n q = Inr (Inr (b, q1))" "wq_rep ks (?x # hs) [] q1"
    "slot_notice (wq_slots q1) ?x = n" "map (slot_notice (wq_slots q1)) (ks @ hs) = map (slot_notice (wq_slots q)) (ks @ hs)"
    "length (wq_slots q1) = length (wq_slots q)" by auto
  have "map (slot_notice (wq_slots q1)) (ks @ rev hs) = map (slot_notice (wq_slots q)) (ks @ rev hs)"
    using p(4) by (simp add: rev_map[symmetric])
  then have c: "wq_contents q1 = wq_contents q @ [n]"
    using p(3) by (simp add: wq_rep_contents(2)[OF r(1)] wq_rep_contents(2)[OF p(2)])
  moreover have "wq_inv q1"
    unfolding wq_inv_def using p(2,3,4) r(2) n(1) by (intro exI[of _ ks] exI[of _ "?x # hs"]) auto
  ultimately show "\<exists>b q'. wq_push n q = Inr (Inr (b, q')) \<and> wq_inv q' \<and> wq_contents q' = wq_contents q @ [n]
      \<and> (length \<circ> wq_slots) q' = (length \<circ> wq_slots) q" using p(1,5) by auto
next
  fix q and n :: wake_notice
  assume "wq_inv q" "wn_route n \<in> wn_route ` set (wq_contents q)"
  moreover from this(1) obtain ks hs where r: "wq_rep ks hs [] q" unfolding wq_inv_def by blast
  ultimately have "encoded (wn_route n) \<in> set (ks @ hs @ [])" using contents_route_iff[OF r, of n] by auto
  with r show "wq_push n q = Inr (Inl n)" by (simp add: wq_push_def wq_fill_occupied)
next
  fix q
  assume "wq_inv q" "wq_contents q = []"
  then show "wq_pop q = Some (Inr (None, q))" by (auto simp: wq_inv_def wq_rep_contents(2) intro: wq_pop_empty)
next
  fix q n ns
  assume q: "wq_inv q" and c: "wq_contents q = n # ns"
  from q obtain ks hs where r: "wq_rep ks hs [] q" "\<forall>x \<in> set (ks @ hs). notice_ok (slot_notice (wq_slots q) x)"
    by (auto simp: wq_inv_def)
  obtain x rest where x: "ks @ rev hs = x # rest" "slot_notice (wq_slots q) x = n" "map (slot_notice (wq_slots q)) rest = ns"
    using c wq_rep_contents(2)[OF r(1)] by (auto simp: Cons_eq_map_conv map_eq_Cons_conv simp del: map_append)
  from wq_pop_rep[OF r(1) x(1)] obtain q1 ks1 hs1 where p: "wq_pop q = Some (Inr (Some (slot_notice (wq_slots q) x), q1))"
    "wq_rep ks1 hs1 [] q1" "ks1 @ rev hs1 = rest" "map (slot_notice (wq_slots q1)) rest = map (slot_notice (wq_slots q)) rest" by auto
  have "wq_contents q1 = ns" using wq_rep_contents(2)[OF p(2)] p(3,4) x(3) by simp
  moreover have "set (ks1 @ hs1) \<subseteq> set (ks @ hs)" using arg_cong[OF x(1), of set] arg_cong[OF p(3), of set] by auto
  then have "wq_inv q1"
    unfolding wq_inv_def using p(2,3,4) r(2) by (intro exI[of _ ks1] exI[of _ hs1]) auto
  ultimately show "\<exists>q'. wq_pop q = Some (Inr (Some n, q')) \<and> wq_inv q' \<and> wq_contents q' = ns
      \<and> (length \<circ> wq_slots) q' = (length \<circ> wq_slots) q" using p(1) x(2) wq_pop_length[OF p(1)] by auto
next
  fix q n
  assume q: "wq_inv q" and n: "n \<in> set (wq_contents q)"
  from q obtain ks hs where r: "wq_rep ks hs [] q" "\<forall>x \<in> set (ks @ hs). notice_ok (slot_notice (wq_slots q) x)"
    by (auto simp: wq_inv_def)
  from n wq_rep_contents(2)[OF r(1)] obtain x where x: "x \<in> set (ks @ hs @ [])" "n = slot_notice (wq_slots q) x" by auto
  with r(2) wq_rep_slot_ok[OF r(1) x(1)]
  show "notice_ok n \<and> unat (encoded (wn_route n)) < (length \<circ> wq_slots) q" by (auto simp: slot_ok_def)
next
  fix q
  assume "wq_inv q"
  then obtain ks hs where r: "wq_rep ks hs [] q" by (auto simp: wq_inv_def)
  then have "distinct (ks @ rev hs)" by (auto simp: wq_rep_def)
  then show "distinct (map wn_route (wq_contents q))"
    unfolding wq_rep_contents(2)[OF r] map_map comp_def slot_notice_route distinct_map by (simp add: inj_on_def)
qed

section \<open>Many producers, one consumer\<close>

text \<open>
  A run of the queue with any number of producers, each between its two phases or not, and the
  owner popping, arming and disarming. Recorded are the notices linked so far and the notices
  popped so far, in order, and the notices filled but not linked.
\<close>

inductive wq_run :: "usize \<Rightarrow> wake_queue \<Rightarrow> wake_notice list \<Rightarrow> wake_notice list \<Rightarrow> wake_notice list \<Rightarrow> bool" for capacity where
  start: "wq_new capacity = Inr q \<Longrightarrow> wq_run capacity q [] [] []"
| fill: "wq_run capacity q linked popped filled \<Longrightarrow> notice_ok n \<Longrightarrow> wq_fill n q = Inr (Inr q1) \<Longrightarrow>
         wq_run capacity q1 linked popped (n # filled)"
| link: "wq_run capacity q linked popped filled \<Longrightarrow> n \<in> set filled \<Longrightarrow>
         wq_run capacity (snd (wq_link (encoded (wn_route n)) q)) (linked @ [n]) popped (removeAll n filled)"
| pop: "wq_run capacity q linked popped filled \<Longrightarrow> wq_pop q = Some (Inr (r, q1)) \<Longrightarrow>
        wq_run capacity q1 linked (popped @ (case r of None \<Rightarrow> [] | Some n \<Rightarrow> [n])) filled"
| arm: "wq_run capacity q linked popped filled \<Longrightarrow> wq_arm_wait q = Some (r, q1) \<Longrightarrow> wq_run capacity q1 linked popped filled"
| disarm: "wq_run capacity q linked popped filled \<Longrightarrow> wq_run capacity (wq_disarm_wait q) linked popped filled"

definition run_rep :: "usize list \<Rightarrow> usize list \<Rightarrow> usize list \<Rightarrow> wake_queue \<Rightarrow> wake_notice list \<Rightarrow> wake_notice list \<Rightarrow> wake_notice list \<Rightarrow> bool" where
  "run_rep ks hs fs q linked popped filled \<longleftrightarrow>
     wq_rep ks hs fs q \<and> filled = map (slot_notice (wq_slots q)) fs
     \<and> linked = popped @ map (slot_notice (wq_slots q)) (ks @ rev hs)"

lemma run_fill:
  assumes "run_rep ks hs fs q linked popped filled" "notice_ok n" "wq_fill n q = Inr (Inr q1)"
  shows "run_rep ks hs (encoded (wn_route n) # fs) q1 linked popped (n # filled)"
proof -
  let ?x = "encoded (wn_route n)"
  have r: "wq_rep ks hs fs q" using assms(1) by (simp add: run_rep_def)
  have "?x \<notin> set (ks @ hs @ fs)" using wq_fill_occupied[OF r, of n] assms(3) by auto
  moreover have "unat ?x < length (wq_slots q)" using assms(3) by (auto simp: wq_fill_def Let_def split: if_splits)
  ultimately have "wq_rep ks hs (?x # fs) q1" "slot_notice (wq_slots q1) ?x = n"
    "map (slot_notice (wq_slots q1)) (ks @ hs @ fs) = map (slot_notice (wq_slots q)) (ks @ hs @ fs)"
    using wq_fill_rep[OF r assms(2)] assms(3) by auto
  then show ?thesis using assms(1) by (simp add: run_rep_def rev_map[symmetric])
qed

lemma run_link:
  assumes "run_rep ks hs fs q linked popped filled" "n \<in> set filled"
  shows "run_rep ks (encoded (wn_route n) # hs) (remove1 (encoded (wn_route n)) fs)
    (snd (wq_link (encoded (wn_route n)) q)) (linked @ [n]) popped (removeAll n filled)"
proof -
  let ?x = "encoded (wn_route n)"
  let ?q = "snd (wq_link ?x q)"
  have r: "wq_rep ks hs fs q" "filled = map (slot_notice (wq_slots q)) fs" using assms(1) by (auto simp: run_rep_def)
  obtain y where y: "y \<in> set fs" "n = slot_notice (wq_slots q) y" using assms(2) r(2) by auto
  then have x: "?x = y" by simp
  note l = wq_link_rep[OF r(1) y(1)]
  have ok: "unat z < length (wq_slots (snd (wq_link y q)))" if "z \<in> set (ks @ hs @ fs)" for z
    using wq_rep_slot_ok[OF r(1) that] payload_length[OF l(2)] by (simp add: slot_ok_def)
  have eq: "slot_notice (wq_slots (snd (wq_link y q))) z = slot_notice (wq_slots q) z" if "z \<in> set (ks @ hs @ fs)" for z
    by (rule slot_notice_payload[OF l(2) ok[OF that]])
  have inj: "inj_on (slot_notice (wq_slots q)) A" for A
    by (rule inj_on_inverseI[of _ "\<lambda>n. encoded (wn_route n)"]) simp
  have "removeAll n filled = map (slot_notice (wq_slots q)) (remove1 y fs)"
    using r y distinct_remove1_removeAll[of fs y] map_removeAll_inj_on[OF inj, of y fs] by (simp add: wq_rep_def)
  moreover have "map (slot_notice (wq_slots (snd (wq_link y q)))) (remove1 y fs) = map (slot_notice (wq_slots q)) (remove1 y fs)"
    by (rule map_cong) (auto intro!: eq dest: notin_set_remove1)
  moreover have "map (slot_notice (wq_slots (snd (wq_link y q)))) (ks @ rev hs) = map (slot_notice (wq_slots q)) (ks @ rev hs)"
    by (rule map_cong) (auto intro!: eq)
  ultimately show ?thesis
    using l(1) assms(1) y(2) eq[of y] y(1) unfolding x run_rep_def by simp
qed

lemma run_pop:
  assumes "run_rep ks hs fs q linked popped filled" "wq_pop q = Some (Inr (r, q1))"
  shows "\<exists>ks1 hs1. run_rep ks1 hs1 fs q1 linked (popped @ (case r of None \<Rightarrow> [] | Some n \<Rightarrow> [n])) filled"
proof (cases "ks @ rev hs")
  case Nil
  then have "r = None \<and> q1 = q" using assms wq_pop_empty[of fs q] by (simp add: run_rep_def)
  with assms(1) show ?thesis by auto
next
  case (Cons x rest)
  with wq_pop_rep[of ks hs fs q x rest] assms obtain ks1 hs1 where
    "r = Some (slot_notice (wq_slots q) x)" "wq_rep ks1 hs1 fs q1" "ks1 @ rev hs1 = rest"
    "map (slot_notice (wq_slots q1)) (rest @ fs) = map (slot_notice (wq_slots q)) (rest @ fs)" by (auto simp: run_rep_def)
  then show ?thesis using assms(1) Cons
    by (intro exI[of _ ks1] exI[of _ hs1]) (simp add: run_rep_def)
qed

lemma wq_run_rep: "wq_run c q linked popped filled \<Longrightarrow> \<exists>ks hs fs. run_rep ks hs fs q linked popped filled"
proof (induction rule: wq_run.induct)
  case (start q)
  then show ?case by (intro exI[of _ "[]"]) (simp add: run_rep_def wq_new_rep)
next
  case (fill q linked popped filled n q1)
  then show ?case by (blast intro: run_fill)
next
  case (link q linked popped filled n)
  then show ?case by (blast intro: run_link)
next
  case (pop q linked popped filled r q1)
  then show ?case using run_pop[OF _ pop(2)] by blast
next
  case (arm q linked popped filled r q1)
  then obtain ks hs fs where "run_rep ks hs fs q linked popped filled" by blast
  with arm(2) wq_arm_rep[of ks hs fs q] show ?case by (auto simp: run_rep_def)
next
  case (disarm q linked popped filled)
  then show ?case using wq_disarm_rep unfolding run_rep_def by metis
qed

lemma wq_pop_total: "run_rep ks hs fs q linked popped filled \<Longrightarrow> \<exists>r q1. wq_pop q = Some (Inr (r, q1))"
  using wq_pop_empty[of fs q] wq_pop_rep[of ks hs fs q] by (cases "ks @ rev hs") (auto simp: run_rep_def)

section \<open>Properties\<close>

text \<open>A run of two producers on a queue for one task: two notices filled, one linked, the owner armed.\<close>

definition wq_sample_notice :: "u64 \<Rightarrow> usize \<Rightarrow> wake_notice" where
  "wq_sample_notice w k = \<lparr>wn_token = ParkToken w 1, wn_task = w, wn_route = TaskKey k, wn_cause = Ready\<rparr>"

definition wq_sample :: wake_queue where
  "wq_sample = projr (projr (wq_fill (wq_sample_notice 5 2) (projr (wq_new 1))))"

lemma wq_sample_run: "wq_run 1 wq_sample [] [] [wq_sample_notice 5 2]"
proof -
  have n: "wq_new 1 = Inr (projr (wq_new 1))"
    by (simp add: wq_new_def checked_mul_def checked_add_def SLEEPING_def)
  have ok: "notice_ok (wq_sample_notice 5 2)"
    unfolding notice_ok_def word_le_nat_alt generation_limit by (simp add: wq_sample_notice_def key_valid_def)
  have "unat (encoded (wn_route (wq_sample_notice 5 2))) < length (wq_slots (projr (wq_new 1)))"
    by (simp add: wq_new_def checked_mul_def checked_add_def SLEEPING_def wq_sample_notice_def)
  from wq_fill_rep[OF wq_new_rep[OF n] ok this] have "wq_fill (wq_sample_notice 5 2) (projr (wq_new 1)) = Inr (Inr wq_sample)"
    by (auto simp: wq_sample_def)
  from wq_run.fill[OF wq_run.start[OF n] ok this] show ?thesis .
qed

lemma wq_sample_run2: "wq_run 1 (snd (wq_link 2 wq_sample)) [wq_sample_notice 5 2] [] []"
  using wq_run.link[OF wq_sample_run, of "wq_sample_notice 5 2"] by (simp add: wq_sample_notice_def)

text \<open>
  C23. The wake queue is a first-in first-out queue under every interleaving of its producers'
  two phases with the owner's pops: what was linked is, in order, what was popped followed by
  what the queue holds, so no notice is lost, duplicated or reordered; and a pop always returns,
  without a panic, the oldest linked notice or nothing when none is linked.
\<close>

theorem wake_queue_fifo:
  assumes "wq_run capacity q linked popped filled"
  shows "linked = popped @ wq_contents q
    \<and> (case wq_contents q of
         [] \<Rightarrow> wq_pop q = Some (Inr (None, q))
       | n # ns \<Rightarrow> (\<exists>q1. wq_pop q = Some (Inr (Some n, q1)) \<and> wq_contents q1 = ns))"
proof -
  from wq_run_rep[OF assms] obtain ks hs fs where r: "run_rep ks hs fs q linked popped filled" by blast
  have c: "wq_contents q = map (slot_notice (wq_slots q)) (ks @ rev hs)"
    using r wq_rep_contents(2)[of ks hs fs q] by (simp add: run_rep_def)
  from wq_pop_total[OF r] obtain x q1 where p: "wq_pop q = Some (Inr (x, q1))" by blast
  show ?thesis
  proof (cases "ks @ rev hs")
    case Nil
    then show ?thesis using r c wq_pop_empty[of fs q] by (simp add: run_rep_def)
  next
    case (Cons y rest)
    with wq_pop_rep[of ks hs fs q y rest] r obtain q1 ks1 hs1 where
      "wq_pop q = Some (Inr (Some (slot_notice (wq_slots q) y), q1))" "wq_rep ks1 hs1 fs q1" "ks1 @ rev hs1 = rest"
      "map (slot_notice (wq_slots q1)) rest = map (slot_notice (wq_slots q)) rest" by (auto simp: run_rep_def)
    then show ?thesis using r c Cons by (simp add: run_rep_def wq_rep_contents(2))
  qed
qed

theorem wake_queue_fifo_witness:
  "wq_contents (snd (wq_link 2 wq_sample)) = [wq_sample_notice 5 2]
    \<and> (\<exists>q1. wq_pop (snd (wq_link 2 wq_sample)) = Some (Inr (Some (wq_sample_notice 5 2), q1)))"
  using wake_queue_fifo[OF wq_sample_run2] by (auto split: list.splits)

text \<open>
  C24. No wake-up is lost to a sleeping owner: arming reports pending work exactly when a linked
  notice is queued; when it reports none, the queue carries the sleeping mark, and then whichever
  producer links next is told to signal the owner, and the owner finds its notice.
\<close>

theorem wake_queue_no_lost_wakeup:
  assumes "wq_run capacity q linked popped filled"
  shows "\<exists>q1. wq_arm_wait q = Some (wq_contents q \<noteq> [], q1) \<and> wq_contents q1 = wq_contents q
    \<and> (wq_contents q = [] \<longrightarrow> (\<forall>n \<in> set filled. fst (wq_link (encoded (wn_route n)) q1)
           \<and> wq_contents (snd (wq_link (encoded (wn_route n)) q1)) = [n]))"
proof -
  from wq_run_rep[OF assms] obtain ks hs fs where r: "run_rep ks hs fs q linked popped filled" by blast
  then have w: "wq_rep ks hs fs q" by (simp add: run_rep_def)
  from wq_arm_rep[OF w] obtain q1 where q1: "wq_arm_wait q = Some (ks @ hs \<noteq> [], q1)" "wq_rep ks hs fs q1"
    "wq_slots q1 = wq_slots q" "ks @ hs = [] \<longrightarrow> wq_head q1 AND SLEEPING \<noteq> 0" by blast
  have c: "wq_contents q1 = wq_contents q" "(wq_contents q \<noteq> []) = (ks @ hs \<noteq> [])"
    using wq_rep_contents(2)[OF w] wq_rep_contents(2)[OF q1(2)] q1(3) by auto
  have r1: "run_rep ks hs fs q1 linked popped filled" using r q1(2,3) by (simp add: run_rep_def)
  have "fst (wq_link (encoded (wn_route n)) q1) \<and> wq_contents (snd (wq_link (encoded (wn_route n)) q1)) = [n]"
    if "wq_contents q = []" "n \<in> set filled" for n
  proof -
    have e: "ks = []" "hs = []" using that(1) c(2) by auto
    from run_link[OF r1 that(2)] have rl: "run_rep ks (encoded (wn_route n) # hs) (remove1 (encoded (wn_route n)) fs)
        (snd (wq_link (encoded (wn_route n)) q1)) (linked @ [n]) popped (removeAll n filled)" .
    have lp: "linked = popped" using r e by (simp add: run_rep_def)
    define q2 where "q2 = snd (wq_link (encoded (wn_route n)) q1)"
    have w2: "wq_rep [] [encoded (wn_route n)] (remove1 (encoded (wn_route n)) fs) q2"
      and n2: "[n] = map (slot_notice (wq_slots q2)) [encoded (wn_route n)]"
      using rl e lp unfolding run_rep_def q2_def[symmetric] by simp_all
    have "wq_contents q2 = [n]" unfolding n2 wq_rep_contents(2)[OF w2] by simp
    then have "wq_contents (snd (wq_link (encoded (wn_route n)) q1)) = [n]" unfolding q2_def .
    with q1(4) e show ?thesis by (simp add: wq_link_def)
  qed
  with q1(1) c show ?thesis by auto
qed

theorem wake_queue_no_lost_wakeup_witness:
  "\<exists>q1. wq_arm_wait wq_sample = Some (False, q1) \<and> fst (wq_link 2 q1)
     \<and> wq_contents (snd (wq_link 2 q1)) = [wq_sample_notice 5 2]"
proof -
  have "wq_contents wq_sample = []" using wake_queue_fifo[OF wq_sample_run] by simp
  with wake_queue_no_lost_wakeup[OF wq_sample_run] show ?thesis
    by (auto simp: wq_sample_notice_def)
qed

text \<open>
  Packing a generation with its wake cause into one queue word loses nothing: every
  generation the wait protocol issues is packed without a panic and unpacks to itself and its cause.
\<close>

theorem selection_round_trip:
  assumes "g \<le> MAX_GENERATION"
  shows "Option.bind (case encode_selection g c of Inl e \<Rightarrow> None | Inr w \<Rightarrow> Some w) (\<lambda>w. Some (decode_selection w)) = Some (Inr (g, c))"
proof -
  have "g \<le> drop_bit 3 (- 1)"
    using assms by (simp only: word_le_nat_alt MAX_GENERATION_unat generation_limit) simp
  then obtain w where "encode_selection g c = Inr w" unfolding encode_selection_def by simp
  then show ?thesis using decode_encode_selection[of g c w] by simp
qed

theorem selection_round_trip_witness:
  "Option.bind (case encode_selection 9 ClosedCause of Inl e \<Rightarrow> None | Inr w \<Rightarrow> Some w) (\<lambda>w. Some (decode_selection w)) = Some (Inr (9, ClosedCause))"
  by (rule selection_round_trip) (simp add: word_le_nat_alt MAX_GENERATION_unat)

end
