(* ===== verification/Wait_Hub.thy ===== *)
theory Wait_Hub
  imports Wake_Queue
begin

text \<open>
  The wake inbox of a carrier (wait_hub.rs): the bounded wake queue, the count of notices it
  refused as stale, and, when tracking is on, the tasks with a queued notice. A hub is itself a
  wake queue in the sense of the interface \<open>wake_fifo\<close>; the discarding of a retired notice is
  verified against that interface.
\<close>

record wait_hub =
  wh_ready :: wake_queue
  wh_stale :: u64
  wh_tracked :: "u64 list option"

definition hub_new :: "usize \<Rightarrow> bool \<Rightarrow> wait_hub result_p" where
  "hub_new capacity track =
     map_sum id (\<lambda>q. \<lparr>wh_ready = q, wh_stale = 0, wh_tracked = (if track then Some [] else None)\<rparr>) (wq_new capacity)"

text \<open>\<open>Vec::swap_remove\<close>: the last entry takes the place of the removed one.\<close>

definition swap_remove :: "nat \<Rightarrow> 'a list \<Rightarrow> 'a list" where
  "swap_remove i xs = (if Suc i = length xs then butlast xs else (butlast xs)[i := last xs])"

text \<open>\<open>push\<close>; the flag says that the sleeping owner has to be signalled.\<close>

definition hub_push :: "wake_notice \<Rightarrow> wait_hub \<Rightarrow> (wake_notice + bool \<times> wait_hub) result_p" where
  "hub_push n h =
     map_sum id (map_sum id (\<lambda>(sleeping, q).
       (sleeping, h\<lparr>wh_ready := q, wh_tracked := map_option (\<lambda>ts. ts @ [wn_task n]) (wh_tracked h)\<rparr>)))
       (wq_push n (wh_ready h))"

definition untrack :: "u64 \<Rightarrow> u64 list \<Rightarrow> u64 list" where
  "untrack t ts = (case position (\<lambda>x. x = t) ts of None \<Rightarrow> ts | Some i \<Rightarrow> swap_remove i ts)"

definition hub_pop :: "wait_hub \<Rightarrow> (wake_notice option \<times> wait_hub) result_p option" where
  "hub_pop h =
     map_option (map_sum id (\<lambda>(r, q). (r, case r of
         None \<Rightarrow> h\<lparr>wh_ready := q\<rparr>
       | Some n \<Rightarrow> h\<lparr>wh_ready := q, wh_tracked := map_option (untrack (wn_task n)) (wh_tracked h)\<rparr>)))
       (wq_pop (wh_ready h))"

text \<open>\<open>enqueue\<close>: a refused notice only counts as stale.\<close>

definition hub_enqueue :: "wake_notice \<Rightarrow> wait_hub \<Rightarrow> (bool \<times> wait_hub) result_p" where
  "hub_enqueue n h =
     map_sum id (\<lambda>r. case r of
        Inl _ \<Rightarrow> (False, h\<lparr>wh_stale := wh_stale h + 1\<rparr>)
      | Inr (sleeping, h1) \<Rightarrow> (sleeping, h1)) (hub_push n h)"

definition hub_pending :: "wait_hub \<Rightarrow> nat" where
  "hub_pending h = wq_pending (wh_ready h)"

definition hub_has_pending :: "wait_hub \<Rightarrow> bool" where
  "hub_has_pending h = wq_has_pending (wh_ready h)"

definition hub_pending_tasks :: "wait_hub \<Rightarrow> u64 list" where
  "hub_pending_tasks h = (case wh_tracked h of None \<Rightarrow> [] | Some ts \<Rightarrow> ts)"

text \<open>
  \<open>discard_notice\<close>: pop at most the observed depth, keep what does not carry the token, push it
  back. \<open>None\<close> stands for a failed pop or for the panic of a refused push.
\<close>

definition hub_discard_notice :: "park_token \<Rightarrow> wait_hub \<Rightarrow> wait_hub option" where
  "hub_discard_notice token h =
     (case drain_n hub_pop (hub_pending h) h of
        None \<Rightarrow> None
      | Some (ns, h1) \<Rightarrow> refill hub_push (filter (\<lambda>n. wn_token n \<noteq> token) ns) h1)"

abbreviation hub_contents :: "wait_hub \<Rightarrow> wake_notice list" where
  "hub_contents h \<equiv> wq_contents (wh_ready h)"

text \<open>The tracked tasks are those of the queued notices.\<close>

definition hub_inv :: "wait_hub \<Rightarrow> bool" where
  "hub_inv h \<longleftrightarrow> wq_inv (wh_ready h) \<and>
     (case wh_tracked h of None \<Rightarrow> True | Some ts \<Rightarrow> mset ts = mset (map wn_task (hub_contents h)))"

lemma mset_swap_remove:
  assumes "i < length xs"
  shows "add_mset (xs ! i) (mset (swap_remove i xs)) = mset xs"
proof -
  obtain ys y where xs: "xs = ys @ [y]" using assms by (cases xs rule: rev_cases) auto
  show ?thesis
  proof (cases "i = length ys")
    case True
    then show ?thesis by (simp add: xs swap_remove_def)
  next
    case False
    with assms have i: "i < length ys" by (simp add: xs)
    then have "mset (ys[i := y]) = add_mset y (mset ys - {#ys ! i#})" by (simp add: mset_update)
    with i False show ?thesis by (simp add: xs swap_remove_def nth_append)
  qed
qed

lemma mset_untrack: "t \<in> set ts \<Longrightarrow> add_mset t (mset (untrack t ts)) = mset ts"
proof -
  assume "t \<in> set ts"
  then obtain i where i: "position (\<lambda>x. x = t) ts = Some i"
    by (cases "position (\<lambda>x. x = t) ts") (auto simp: position_None_iff)
  with position_Some_D[OF i] mset_swap_remove[of i ts] show ?thesis by (simp add: untrack_def)
qed

interpretation hub: wake_fifo hub_push hub_pop hub_contents "\<lambda>h. length (wq_slots (wh_ready h))" hub_inv
proof
  fix h n
  assume h: "hub_inv h" and n: "notice_ok n" "unat (encoded (wn_route n)) < length (wq_slots (wh_ready h))"
    "wn_route n \<notin> wn_route ` set (hub_contents h)"
  from wq.push_free[of "wh_ready h" n] h n obtain b q where
    "wq_push n (wh_ready h) = Inr (Inr (b, q))" "wq_inv q" "wq_contents q = hub_contents h @ [n]"
    "length (wq_slots q) = length (wq_slots (wh_ready h))" by (auto simp: hub_inv_def)
  then show "\<exists>b h'. hub_push n h = Inr (Inr (b, h')) \<and> hub_inv h' \<and> hub_contents h' = hub_contents h @ [n]
      \<and> length (wq_slots (wh_ready h')) = length (wq_slots (wh_ready h))"
    using h by (auto simp: hub_push_def hub_inv_def split: option.splits)
next
  fix h and n :: wake_notice
  assume "hub_inv h" "wn_route n \<in> wn_route ` set (hub_contents h)"
  then show "hub_push n h = Inr (Inl n)" using wq.push_taken[of "wh_ready h" n] by (auto simp: hub_inv_def hub_push_def)
next
  fix h
  assume "hub_inv h" "hub_contents h = []"
  then show "hub_pop h = Some (Inr (None, h))" using wq.pop_empty[of "wh_ready h"] by (simp add: hub_inv_def hub_pop_def)
next
  fix h n ns
  assume h: "hub_inv h" and c: "hub_contents h = n # ns"
  from wq.pop_oldest[of "wh_ready h" n ns] h c obtain q where q: "wq_pop (wh_ready h) = Some (Inr (Some n, q))" "wq_inv q"
    "wq_contents q = ns" "length (wq_slots q) = length (wq_slots (wh_ready h))" by (auto simp: hub_inv_def)
  have "mset (untrack (wn_task n) ts) = mset (map wn_task ns)" if "wh_tracked h = Some ts" for ts
  proof -
    have m: "mset ts = add_mset (wn_task n) (mset (map wn_task ns))" using h c that by (simp add: hub_inv_def)
    then have "wn_task n \<in> set ts" by (metis set_mset_mset union_single_eq_member)
    from mset_untrack[OF this] m show ?thesis by simp
  qed
  with q show "\<exists>h'. hub_pop h = Some (Inr (Some n, h')) \<and> hub_inv h' \<and> hub_contents h' = ns
      \<and> length (wq_slots (wh_ready h')) = length (wq_slots (wh_ready h))"
    by (auto simp: hub_pop_def hub_inv_def split: option.splits)
next
  fix h n
  assume "hub_inv h" "n \<in> set (hub_contents h)"
  then show "notice_ok n \<and> unat (encoded (wn_route n)) < length (wq_slots (wh_ready h))"
    using wq.contents_ok[of "wh_ready h" n] by (simp add: hub_inv_def)
next
  fix h
  assume "hub_inv h"
  then show "distinct (map wn_route (hub_contents h))" using wq.contents_routes[of "wh_ready h"] by (simp add: hub_inv_def)
qed

lemma hub_new_inv: "hub_new c t = Inr h \<Longrightarrow> hub_inv h \<and> hub_contents h = []"
proof -
  assume "hub_new c t = Inr h"
  then obtain q where q: "wq_new c = Inr q" "h = \<lparr>wh_ready = q, wh_stale = 0, wh_tracked = (if t then Some [] else None)\<rparr>"
    by (cases "wq_new c") (auto simp: hub_new_def)
  note r = wq_new_rep[OF q(1)]
  have "wq_inv q" unfolding wq_inv_def by (intro exI[of _ "[]"]) (simp add: r)
  moreover have "wq_contents q = []" by (simp add: wq_rep_contents(2)[OF r])
  ultimately show ?thesis using q(2) by (simp add: hub_inv_def)
qed

text \<open>Every queued notice occupies one slot, so the depth the discard observes is the queue's length.\<close>

lemma wq_pending_contents:
  assumes "wq_inv q"
  shows "wq_pending q = length (wq_contents q)"
proof -
  from assms obtain ks hs where r: "wq_rep ks hs [] q" by (auto simp: wq_inv_def)
  have ok: "\<forall>x \<in> set (ks @ hs). slot_ok (wq_slots q) x" "distinct (ks @ hs)" using r by (auto simp: wq_rep_def)
  have "{j. j < length (wq_slots q) \<and> sl_task (wq_slots q ! j) \<noteq> 0} = unat ` set (ks @ hs)"
  proof (rule set_eqI)
    fix j
    have "j \<in> unat ` set (ks @ hs) \<Longrightarrow> j < length (wq_slots q) \<and> sl_task (wq_slots q ! j) \<noteq> 0"
      using ok(1) unfolding slot_ok_def by blast
    moreover have "j < length (wq_slots q) \<Longrightarrow> sl_task (wq_slots q ! j) \<noteq> 0 \<Longrightarrow> j \<in> unat ` set (ks @ hs)"
      using r unfolding wq_rep_def by simp
    ultimately show "j \<in> {j. j < length (wq_slots q) \<and> sl_task (wq_slots q ! j) \<noteq> 0} \<longleftrightarrow> j \<in> unat ` set (ks @ hs)"
      by blast
  qed
  moreover have "card (unat ` set (ks @ hs)) = length (ks @ hs)"
    using distinct_card[OF ok(2)] by (subst card_image) (simp_all add: inj_on_def word_unat_eq_iff)
  ultimately show ?thesis
    by (simp add: wq_pending_def length_filter_conv_card wq_rep_contents(2)[OF r])
qed

section \<open>Properties\<close>

text \<open>
  Discarding a retired notice never panics and removes exactly the notices that carry the
  token: every other queued notice stays, in its order, and the hub's task tracking follows.
\<close>

theorem hub_discard_exact:
  assumes "hub_inv h"
  shows "\<exists>h1. hub_discard_notice token h = Some h1 \<and> hub_inv h1
    \<and> hub_contents h1 = filter (\<lambda>n. wn_token n \<noteq> token) (hub_contents h)"
proof -
  let ?ns = "filter (\<lambda>n. wn_token n \<noteq> token) (hub_contents h)"
  have d: "hub_pending h = length (hub_contents h)"
    using assms wq_pending_contents by (simp add: hub_pending_def hub_inv_def)
  from hub.drain_takes[OF assms, of "hub_pending h"] obtain h1 where h1:
    "drain_n hub_pop (hub_pending h) h = Some (hub_contents h, h1)" "hub_inv h1" "hub_contents h1 = []"
    "length (wq_slots (wh_ready h1)) = length (wq_slots (wh_ready h))" by (auto simp: d)
  have "distinct (map wn_route ?ns)" using hub.contents_routes[OF assms] by (simp add: distinct_map_filter)
  with hub.refill_appends[OF h1(2), of ?ns] h1(3,4) hub.contents_ok[OF assms] obtain h2 where
    "refill hub_push ?ns h1 = Some h2" "hub_inv h2" "hub_contents h2 = ?ns" by auto
  with h1(1) show ?thesis by (simp add: hub_discard_notice_def)
qed

theorem hub_discard_exact_witness:
  "\<exists>h1. hub_discard_notice (ParkToken 5 1) (projr (hub_new 1 True)) = Some h1 \<and> hub_contents h1 = []"
proof -
  have n: "hub_new 1 True = Inr (projr (hub_new 1 True))"
    by (simp add: hub_new_def wq_new_def checked_mul_def checked_add_def SLEEPING_def)
  from hub_discard_exact[of "projr (hub_new 1 True)" "ParkToken 5 1"] hub_new_inv[OF n] show ?thesis by auto
qed

end
