(* ===== verification/Id_Set.thy ===== *)
theory Id_Set
  imports Prelude
begin

text \<open>
  The adjacency sets of the cancellation graph: child sets (cancellation_id_set.rs) and parent
  sets (cancellation_parent_set.rs). Both store zero or one identity inline and fall back to a
  hash set; a hash set is modelled by a duplicate-free list, whose order stands for the
  iteration order and is never relied upon. Identities are \<open>usize\<close> values.
\<close>

section \<open>Hash sets\<close>

type_synonym hash_set = "usize list"

definition hs_insert :: "usize \<Rightarrow> hash_set \<Rightarrow> bool \<times> hash_set" where
  "hs_insert x h = (if x \<in> set h then (False, h) else (True, h @ [x]))"

definition hs_remove :: "usize \<Rightarrow> hash_set \<Rightarrow> bool \<times> hash_set" where
  "hs_remove x h = (x \<in> set h, filter (\<lambda>y. y \<noteq> x) h)"

section \<open>Child sets\<close>

datatype id_set = Empty | One usize | Many hash_set

fun ids_is_empty :: "id_set \<Rightarrow> bool" where
  "ids_is_empty Empty = True"
| "ids_is_empty _ = False"

fun ids_len :: "id_set \<Rightarrow> nat" where
  "ids_len Empty = 0"
| "ids_len (One _) = 1"
| "ids_len (Many ids) = length ids"

fun ids_contains :: "usize \<Rightarrow> id_set \<Rightarrow> bool" where
  "ids_contains x Empty = False"
| "ids_contains x (One y) = (y = x)"
| "ids_contains x (Many ids) = (x \<in> set ids)"

fun ids_insert :: "usize \<Rightarrow> id_set \<Rightarrow> bool \<times> id_set" where
  "ids_insert x Empty = (True, One x)"
| "ids_insert x (One y) =
     (if y = x then (False, One y)
      else (True, Many (snd (hs_insert x (snd (hs_insert y []))))))"
| "ids_insert x (Many ids) = (let (b, ids') = hs_insert x ids in (b, Many ids'))"

fun ids_remove :: "usize \<Rightarrow> id_set \<Rightarrow> bool \<times> id_set" where
  "ids_remove x Empty = (False, Empty)"
| "ids_remove x (One y) = (if y = x then (True, Empty) else (False, One y))"
| "ids_remove x (Many ids) =
     (let (b, ids') = hs_remove x ids in
      if \<not> b then (False, Many ids')
      else if length ids' = 1 then (True, One (hd ids')) else (True, Many ids'))"

text \<open>The elements in iteration order.\<close>

fun ids_iter :: "id_set \<Rightarrow> usize list" where
  "ids_iter Empty = []"
| "ids_iter (One x) = [x]"
| "ids_iter (Many ids) = ids"

definition ids_extend_set :: "id_set \<Rightarrow> id_set \<Rightarrow> id_set" where
  "ids_extend_set s other = fold (\<lambda>x s. snd (ids_insert x s)) (ids_iter other) s"

definition ids_from_iter :: "usize list \<Rightarrow> id_set" where
  "ids_from_iter xs = fold (\<lambda>x s. snd (ids_insert x s)) xs Empty"

section \<open>Parent sets\<close>

datatype parent_set = PEmpty | POne usize | PMany hash_set

fun ps_len :: "parent_set \<Rightarrow> nat" where
  "ps_len PEmpty = 0"
| "ps_len (POne _) = 1"
| "ps_len (PMany ids) = length ids"

fun ps_contains :: "usize \<Rightarrow> parent_set \<Rightarrow> bool" where
  "ps_contains x PEmpty = False"
| "ps_contains x (POne y) = (y = x)"
| "ps_contains x (PMany ids) = (x \<in> set ids)"

fun ps_insert :: "usize \<Rightarrow> parent_set \<Rightarrow> bool \<times> parent_set" where
  "ps_insert x PEmpty = (True, POne x)"
| "ps_insert x (POne y) =
     (if y = x then (False, POne y)
      else (True, PMany (snd (hs_insert x (snd (hs_insert y []))))))"
| "ps_insert x (PMany ids) = (let (b, ids') = hs_insert x ids in (b, PMany ids'))"

fun ps_remove :: "usize \<Rightarrow> parent_set \<Rightarrow> bool \<times> parent_set" where
  "ps_remove x PEmpty = (False, PEmpty)"
| "ps_remove x (POne y) = (if y = x then (True, PEmpty) else (False, POne y))"
| "ps_remove x (PMany ids) =
     (let (b, ids') = hs_remove x ids in
      if \<not> b then (False, PMany ids')
      else if length ids' = 1 then (True, POne (hd ids')) else (True, PMany ids'))"

fun ps_iter :: "parent_set \<Rightarrow> usize list" where
  "ps_iter PEmpty = []"
| "ps_iter (POne x) = [x]"
| "ps_iter (PMany ids) = ids"

definition ps_from_iter :: "usize list \<Rightarrow> parent_set" where
  "ps_from_iter xs = fold (\<lambda>x s. snd (ps_insert x s)) xs PEmpty"

section \<open>The interface of an identity set\<close>

text \<open>
  Insertion and removal report whether they changed the set; iteration gives every element
  exactly once and the reported length is the number of elements.
\<close>

locale identity_set =
  fixes elems :: "'s \<Rightarrow> usize list"
    and ins :: "usize \<Rightarrow> 's \<Rightarrow> bool \<times> 's"
    and del :: "usize \<Rightarrow> 's \<Rightarrow> bool \<times> 's"
    and size_of :: "'s \<Rightarrow> nat"
    and invar :: "'s \<Rightarrow> bool"
    and empty :: 's
  assumes elems_empty: "elems empty = []" and empty_invar: "invar empty"
    and elems_distinct: "invar s \<Longrightarrow> distinct (elems s)"
    and size_elems: "invar s \<Longrightarrow> size_of s = length (elems s)"
    and ins_elems: "invar s \<Longrightarrow> set (elems (snd (ins x s))) = insert x (set (elems s))"
    and ins_changed: "invar s \<Longrightarrow> fst (ins x s) \<longleftrightarrow> x \<notin> set (elems s)"
    and ins_invar: "invar s \<Longrightarrow> invar (snd (ins x s))"
    and del_elems: "invar s \<Longrightarrow> set (elems (snd (del x s))) = set (elems s) - {x}"
    and del_changed: "invar s \<Longrightarrow> fst (del x s) \<longleftrightarrow> x \<in> set (elems s)"
    and del_invar: "invar s \<Longrightarrow> invar (snd (del x s))"
begin

lemma ins_all:
  "invar s \<Longrightarrow> invar (fold (\<lambda>x s. snd (ins x s)) xs s)
     \<and> set (elems (fold (\<lambda>x s. snd (ins x s)) xs s)) = set (elems s) \<union> set xs"
  by (induction xs arbitrary: s) (auto simp: ins_invar ins_elems)

lemma build: "invar (fold (\<lambda>x s. snd (ins x s)) xs empty)
     \<and> set (elems (fold (\<lambda>x s. snd (ins x s)) xs empty)) = set xs"
  using ins_all[OF empty_invar, of xs] by (simp add: elems_empty)

lemma size_card: "invar s \<Longrightarrow> size_of s = card (set (elems s))"
  by (simp add: size_elems elems_distinct distinct_card)

lemma size_ins: "invar s \<Longrightarrow> size_of (snd (ins x s)) = (if fst (ins x s) then Suc (size_of s) else size_of s)"
  by (simp add: size_card ins_invar ins_elems ins_changed card_insert_if)

lemma size_del: "invar s \<Longrightarrow> size_of (snd (del x s)) = (if fst (del x s) then size_of s - 1 else size_of s)"
  by (simp add: size_card del_invar del_elems del_changed)

end

text \<open>A hash set is used for two or more elements only.\<close>

fun ids_inv :: "id_set \<Rightarrow> bool" where
  "ids_inv (Many ids) \<longleftrightarrow> distinct ids \<and> 2 \<le> length ids"
| "ids_inv _ \<longleftrightarrow> True"

fun ps_inv :: "parent_set \<Rightarrow> bool" where
  "ps_inv (PMany ids) \<longleftrightarrow> distinct ids \<and> 2 \<le> length ids"
| "ps_inv _ \<longleftrightarrow> True"

lemma length_one_hd: "length xs = Suc 0 \<Longrightarrow> xs = [hd xs]"
  by (cases xs) auto

lemma length_filter_other: "distinct xs \<Longrightarrow> length (filter (\<lambda>y. y \<noteq> x) xs) = (if x \<in> set xs then length xs - 1 else length xs)"
proof (induction xs)
  case (Cons a xs)
  then show ?case by (cases "x \<in> set xs") (auto dest: length_pos_if_in_set)
qed simp

lemmas hs_defs = hs_insert_def hs_remove_def

lemma many_remove:
  assumes "distinct ids" "2 \<le> length ids" "x \<in> set ids"
  defines "ids' \<equiv> filter (\<lambda>y. y \<noteq> x) ids"
  shows "distinct ids'" "set ids' = set ids - {x}" "length ids' = 1 \<Longrightarrow> set ids - {x} = {hd ids'}" "length ids' \<noteq> 1 \<Longrightarrow> 2 \<le> length ids'"
proof -
  show d: "distinct ids'" and s: "set ids' = set ids - {x}" using assms(1) by (auto simp: ids'_def)
  have l: "length ids' = length ids - 1" using length_filter_other[OF assms(1), of x] assms(3) by (simp add: ids'_def)
  show "length ids' = 1 \<Longrightarrow> set ids - {x} = {hd ids'}" using s length_one_hd[of ids'] by (metis One_nat_def list.set(1) list.simps(15))
  show "length ids' \<noteq> 1 \<Longrightarrow> 2 \<le> length ids'" using l assms(2) by simp
qed

interpretation ids: identity_set ids_iter ids_insert ids_remove ids_len ids_inv Empty
proof
  fix s x
  assume s: "ids_inv s"
  show "set (ids_iter (snd (ids_insert x s))) = insert x (set (ids_iter s))"
    by (cases s) (auto simp: hs_defs)
  show "fst (ids_insert x s) \<longleftrightarrow> x \<notin> set (ids_iter s)" by (cases s) (auto simp: hs_defs)
  show "ids_inv (snd (ids_insert x s))" using s by (cases s) (auto simp: hs_defs)
  show "set (ids_iter (snd (ids_remove x s))) = set (ids_iter s) - {x}"
    using s many_remove(2,3)[of _ x] by (cases s) (auto simp: hs_defs Let_def)
  show "fst (ids_remove x s) \<longleftrightarrow> x \<in> set (ids_iter s)" by (cases s) (auto simp: hs_defs Let_def)
  show "ids_inv (snd (ids_remove x s))"
    using s many_remove(1,4)[of _ x] length_filter_other[of _ x] by (cases s) (auto simp: hs_defs Let_def)
next
  fix s
  assume s: "ids_inv s"
  show "distinct (ids_iter s)" using s by (cases s) auto
  show "ids_len s = length (ids_iter s)" by (cases s) auto
qed simp_all

interpretation ps: identity_set ps_iter ps_insert ps_remove ps_len ps_inv PEmpty
proof
  fix s x
  assume s: "ps_inv s"
  show "set (ps_iter (snd (ps_insert x s))) = insert x (set (ps_iter s))"
    by (cases s) (auto simp: hs_defs)
  show "fst (ps_insert x s) \<longleftrightarrow> x \<notin> set (ps_iter s)" by (cases s) (auto simp: hs_defs)
  show "ps_inv (snd (ps_insert x s))" using s by (cases s) (auto simp: hs_defs)
  show "set (ps_iter (snd (ps_remove x s))) = set (ps_iter s) - {x}"
    using s many_remove(2,3)[of _ x] by (cases s) (auto simp: hs_defs Let_def)
  show "fst (ps_remove x s) \<longleftrightarrow> x \<in> set (ps_iter s)" by (cases s) (auto simp: hs_defs Let_def)
  show "ps_inv (snd (ps_remove x s))"
    using s many_remove(1,4)[of _ x] length_filter_other[of _ x] by (cases s) (auto simp: hs_defs Let_def)
next
  fix s
  assume s: "ps_inv s"
  show "distinct (ps_iter s)" using s by (cases s) auto
  show "ps_len s = length (ps_iter s)" by (cases s) auto
qed simp_all

end
