(* ===== verification/Signature.thy ===== *)
theory Signature
  imports Prelude
begin

text \<open>
  Live-ancestry signatures (cancellation_signature.rs, cancellation_signature_compare.rs and
  cancellation_signature_iter.rs): sets of token identities as canonical Patricia tries over the
  reversed bits of the identity, with cached size and hash fields. The theory shows that a trie
  represents a set, that its shape is determined by the set, and hence that the structural
  comparison is exact whatever the hash fields collide on.
\<close>

section \<open>Data\<close>

record candidate =
  ca_len :: nat
  ca_xor :: u64
  ca_sum :: u64

datatype sig_node = SigNode (sn_kind: node_kind) (sn_sample: usize) (sn_len: nat) (sn_xor: u64) (sn_sum: u64)
  and node_kind = Leaf usize | Branch nat sig_node sig_node

datatype signature = SigEmpty | Singleton usize | Tree sig_node

text \<open>\<open>usize::reverse_bits\<close>, and the mixing function behind the hash fields.\<close>

definition route :: "usize \<Rightarrow> usize" where
  "route i = horner_sum of_bool 2 (map (bit i) (rev [0..<64]))"

definition atom :: "usize \<Rightarrow> u64 \<Rightarrow> u64" where
  "atom i salt =
     (let v0 = i XOR salt;
          v1 = (v0 XOR drop_bit 30 v0) * 0xbf58476d1ce4e5b9;
          v2 = (v1 XOR drop_bit 27 v1) * 0x94d049bb133111eb
      in v2 XOR drop_bit 31 v2)"

definition XOR_SALT :: u64 where "XOR_SALT = 0x243f6a8885a308d3"
definition SUM_SALT :: u64 where "SUM_SALT = 0x13198a2e03707344"

definition bit_set :: "usize \<Rightarrow> nat \<Rightarrow> bool" where
  "bit_set v b \<longleftrightarrow> v AND push_bit b 1 \<noteq> 0"

text \<open>The position of the highest set bit; \<open>usize::BITS - 1 - leading_zeros\<close>.\<close>

definition highest_bit :: "usize \<Rightarrow> nat result_p" where
  "highest_bit v = (if v = 0 then Inl (Panic ''assertion failed: value != 0'') else Inr (last (filter (bit v) [0..<64])))"

section \<open>Operations\<close>

definition node_leaf :: "usize \<Rightarrow> sig_node" where
  "node_leaf i = SigNode (Leaf i) (route i) 1 (atom i XOR_SALT) (atom i SUM_SALT)"

definition node_branch :: "nat \<Rightarrow> sig_node \<Rightarrow> sig_node \<Rightarrow> sig_node result_p" where
  "node_branch b l r =
     (if bit_set (sn_sample l) b \<or> \<not> bit_set (sn_sample r) b then Inl (Panic ''assertion failed: branch samples'')
      else Inr (SigNode (Branch b l r) (sn_sample l) (sn_len l + sn_len r) (sn_xor l XOR sn_xor r) (sn_sum l + sn_sum r)))"

fun find_leaf :: "sig_node \<Rightarrow> usize \<Rightarrow> usize" where
  "find_leaf (SigNode (Leaf i) _ _ _ _) r = i"
| "find_leaf (SigNode (Branch b left right) _ _ _ _) r = (if bit_set r b then find_leaf right r else find_leaf left r)"

text \<open>The place where the descent stops: a new branch above \<open>root\<close>.\<close>

definition insert_here :: "sig_node \<Rightarrow> sig_node \<Rightarrow> usize \<Rightarrow> nat \<Rightarrow> sig_node result_p" where
  "insert_here root leaf r b = (if bit_set r b then node_branch b root leaf else node_branch b leaf root)"

fun insert_at :: "sig_node \<Rightarrow> sig_node \<Rightarrow> usize \<Rightarrow> nat \<Rightarrow> sig_node result_p" where
  "insert_at (SigNode (Leaf i) s n x m) leaf r b = insert_here (SigNode (Leaf i) s n x m) leaf r b"
| "insert_at (SigNode (Branch current left right) s n x m) leaf r b =
     (if current > b then
        (if bit_set r current
         then (case insert_at right leaf r b of Inl e \<Rightarrow> Inl e | Inr right' \<Rightarrow> node_branch current left right')
         else (case insert_at left leaf r b of Inl e \<Rightarrow> Inl e | Inr left' \<Rightarrow> node_branch current left' right))
      else insert_here (SigNode (Branch current left right) s n x m) leaf r b)"

fun cardinality :: "signature \<Rightarrow> nat" where
  "cardinality SigEmpty = 0"
| "cardinality (Singleton _) = 1"
| "cardinality (Tree n) = sn_len n"

fun candidate_of :: "signature \<Rightarrow> candidate" where
  "candidate_of SigEmpty = \<lparr>ca_len = 0, ca_xor = 0, ca_sum = 0\<rparr>"
| "candidate_of (Singleton i) = \<lparr>ca_len = 1, ca_xor = atom i XOR_SALT, ca_sum = atom i SUM_SALT\<rparr>"
| "candidate_of (Tree n) = \<lparr>ca_len = sn_len n, ca_xor = sn_xor n, ca_sum = sn_sum n\<rparr>"

text \<open>
  Tries are shared through reference-counted pointers and compared by pointer first; \<open>peq\<close> says
  which nodes are the same allocation.
\<close>

fun same_node :: "(sig_node \<Rightarrow> sig_node \<Rightarrow> bool) \<Rightarrow> sig_node \<Rightarrow> sig_node \<Rightarrow> bool" where
  "same_node peq (SigNode k s n x m) (SigNode k' s' n' x' m') =
     (if peq (SigNode k s n x m) (SigNode k' s' n' x' m') then True
      else if n \<noteq> n' \<or> x \<noteq> x' \<or> m \<noteq> m' then False
      else (case k of
              Leaf i \<Rightarrow> (case k' of Leaf j \<Rightarrow> i = j | Branch _ _ _ \<Rightarrow> False)
            | Branch b l r \<Rightarrow>
                (case k' of
                   Leaf _ \<Rightarrow> False
                 | Branch b' l' r' \<Rightarrow> b = b' \<and> same_node peq l l' \<and> same_node peq r r')))"

fun sig_ptr_eq :: "(sig_node \<Rightarrow> sig_node \<Rightarrow> bool) \<Rightarrow> signature \<Rightarrow> signature \<Rightarrow> bool" where
  "sig_ptr_eq peq SigEmpty SigEmpty = True"
| "sig_ptr_eq peq (Singleton i) (Singleton j) = (i = j)"
| "sig_ptr_eq peq (Tree l) (Tree r) = peq l r"
| "sig_ptr_eq peq _ _ = False"

definition same_set :: "(sig_node \<Rightarrow> sig_node \<Rightarrow> bool) \<Rightarrow> signature \<Rightarrow> signature \<Rightarrow> bool" where
  "same_set peq s t =
     (if sig_ptr_eq peq s t then True
      else if candidate_of s \<noteq> candidate_of t then False
      else (case (s, t) of (Tree l, Tree r) \<Rightarrow> same_node peq l r | _ \<Rightarrow> False))"

definition sig_insert :: "usize \<Rightarrow> signature \<Rightarrow> signature result_p" where
  "sig_insert i s =
     (if s = SigEmpty then Inr (Singleton i)
      else if s = Singleton i then Inr s
      else let root = (case s of Tree n \<Rightarrow> n | Singleton j \<Rightarrow> node_leaf j | SigEmpty \<Rightarrow> node_leaf i);
               routed = route i;
               existing = find_leaf root routed
           in if existing = i then Inr s
              else (case highest_bit (routed XOR route existing) of
                      Inl e \<Rightarrow> Inl e
                    | Inr differing \<Rightarrow> map_sum id Tree (insert_at root (node_leaf i) routed differing)))"

text \<open>The iterator keeps a stack of nodes and yields the leaves from left to right.\<close>

function stack_leaves :: "sig_node list \<Rightarrow> usize list" where
  "stack_leaves [] = []"
| "stack_leaves (SigNode (Leaf i) s n x m # st) = i # stack_leaves st"
| "stack_leaves (SigNode (Branch b l r) s n x m # st) = stack_leaves (l # r # st)"
  by pat_completeness auto
termination by (relation "measure (\<lambda>st. sum_list (map size st))") auto

fun sig_iter :: "signature \<Rightarrow> usize list" where
  "sig_iter SigEmpty = []"
| "sig_iter (Singleton i) = [i]"
| "sig_iter (Tree n) = stack_leaves [n]"

fun insert_all :: "usize list \<Rightarrow> signature \<Rightarrow> signature result_p" where
  "insert_all [] s = Inr s"
| "insert_all (i # is) s = (case sig_insert i s of Inl e \<Rightarrow> Inl e | Inr s' \<Rightarrow> insert_all is s')"

definition sig_union :: "(sig_node \<Rightarrow> sig_node \<Rightarrow> bool) \<Rightarrow> signature \<Rightarrow> signature \<Rightarrow> signature result_p" where
  "sig_union peq s t =
     (if s = SigEmpty then Inr t
      else if t = SigEmpty \<or> sig_ptr_eq peq s t then Inr s
      else if candidate_of s = candidate_of t \<and> same_set peq s t then Inr s
      else if cardinality t \<le> cardinality s then insert_all (sig_iter t) s
      else insert_all (sig_iter s) t)"

section \<open>Bits\<close>

lemma bit_set_bit: "bit_set v b \<longleftrightarrow> bit v b"
proof -
  have "v AND push_bit b 1 \<noteq> 0 \<longleftrightarrow> bit v b"
    unfolding bit_eq_iff by (auto simp: bit_and_iff bit_push_bit_iff bit_1_iff simp del: push_bit_of_1 dest: bit_imp_le_length)
  then show ?thesis by (simp add: bit_set_def)
qed

lemma bit_route: "bit (route i) k \<longleftrightarrow> k < 64 \<and> bit i (63 - k)"
  by (auto simp: route_def bit_horner_sum_bit_iff rev_nth)

lemma route_inj: "route i = route j \<longleftrightarrow> i = j"
proof
  assume e: "route i = route j"
  show "i = j"
  proof (rule bit_word_eqI)
    fix n assume "n < LENGTH(64)"
    then have n: "n < 64" "63 - n < 64" "63 - (63 - n) = n" by simp_all
    have "bit (route i) (63 - n) = bit (route j) (63 - n)" using e by simp
    then show "bit i n = bit j n" unfolding bit_route n(3) using n(2) by blast
  qed
qed simp

lemma sorted_le_last: "sorted xs \<Longrightarrow> x \<in> set xs \<Longrightarrow> x \<le> last xs"
  by (induction xs) auto

lemma highest_bit_ok:
  assumes "v \<noteq> 0"
  shows "\<exists>d. highest_bit v = Inr d \<and> d < 64 \<and> bit v d \<and> (\<forall>k > d. \<not> bit v k)"
proof -
  define xs where "xs = filter (bit v) [0..<64]"
  obtain n where n: "bit v n" using assms by (auto simp: bit_eq_iff)
  then have "n < 64" using bit_imp_le_length[of v n] by simp
  with n have ne: "xs \<noteq> []" unfolding xs_def filter_empty_conv set_upt by auto
  have "last xs \<in> set xs" using ne by (rule last_in_set)
  moreover have "\<not> bit v k" if "k > last xs" for k
  proof
    assume b: "bit v k"
    then have "k \<in> set xs" unfolding xs_def set_filter set_upt using bit_imp_le_length[of v k] by simp
    moreover have "sorted xs" unfolding xs_def by (rule sorted_wrt_filter[OF sorted_upt])
    ultimately have "k \<le> last xs" by (rule sorted_le_last[rotated])
    with that show False by simp
  qed
  moreover have "highest_bit v = Inr (last xs)" unfolding highest_bit_def xs_def using assms by metis
  moreover have "set xs \<subseteq> {k. k < 64 \<and> bit v k}" unfolding xs_def set_filter set_upt by auto
  ultimately show ?thesis by blast
qed

section \<open>Tries\<close>

fun leaves :: "sig_node \<Rightarrow> usize list" where
  "leaves (SigNode (Leaf i) _ _ _ _) = [i]"
| "leaves (SigNode (Branch b l r) _ _ _ _) = leaves l @ leaves r"

text \<open>
  A branch on bit \<open>b\<close> separates its leaves by that bit of their routes, and they agree on all
  higher bits; the cached fields are those of the leaves.
\<close>

definition agree_above :: "nat \<Rightarrow> usize set \<Rightarrow> bool" where
  "agree_above b A \<longleftrightarrow> (\<forall>i \<in> A. \<forall>j \<in> A. \<forall>k > b. bit (route i) k = bit (route j) k)"

fun trie :: "sig_node \<Rightarrow> bool" where
  "trie (SigNode (Leaf i) s n x m) \<longleftrightarrow> SigNode (Leaf i) s n x m = node_leaf i"
| "trie (SigNode (Branch b l r) s n x m) \<longleftrightarrow>
     trie l \<and> trie r \<and> b < 64
     \<and> (\<forall>i \<in> set (leaves l). \<not> bit (route i) b) \<and> (\<forall>i \<in> set (leaves r). bit (route i) b)
     \<and> agree_above b (set (leaves l) \<union> set (leaves r))
     \<and> s = sn_sample l \<and> n = sn_len l + sn_len r \<and> x = sn_xor l XOR sn_xor r \<and> m = sn_sum l + sn_sum r"

lemma node_leaf_trie [simp]: "trie (node_leaf i)" "leaves (node_leaf i) = [i]" "sn_sample (node_leaf i) = route i"
  by (simp_all add: node_leaf_def)

lemma leaves_ne: "leaves t \<noteq> []"
  by (induction t rule: leaves.induct) auto

lemma sample_leaf: "trie t \<Longrightarrow> \<exists>i \<in> set (leaves t). sn_sample t = route i"
  by (induction t rule: leaves.induct) (auto simp: node_leaf_def)

lemma find_leaf_in: "find_leaf t r \<in> set (leaves t)"
  by (induction t r rule: find_leaf.induct) auto

lemma stack_leaves_concat: "stack_leaves st = concat (map leaves st)"
  by (induction st rule: stack_leaves.induct) auto

lemma trie_len: "trie t \<Longrightarrow> sn_len t = length (leaves t)"
  by (induction t rule: leaves.induct) (auto simp: node_leaf_def)

lemma node_branch_trie:
  assumes "trie l" "trie r" "b < 64" "\<forall>i \<in> set (leaves l). \<not> bit (route i) b" "\<forall>i \<in> set (leaves r). bit (route i) b"
    "agree_above b (set (leaves l) \<union> set (leaves r))"
  shows "\<exists>t. node_branch b l r = Inr t \<and> trie t \<and> leaves t = leaves l @ leaves r"
proof -
  have "\<not> bit (sn_sample l) b" "bit (sn_sample r) b"
    using sample_leaf[OF assms(1)] sample_leaf[OF assms(2)] assms(4,5) by auto
  with assms show ?thesis by (simp add: node_branch_def bit_set_bit)
qed

lemma insert_here_trie:
  assumes "trie t" "\<forall>j \<in> set (leaves t). bit (route j) d = bit (route e) d \<and> (\<forall>k > d. bit (route j) k = bit (route e) k)"
    and "r = route i" "\<forall>k > d. bit r k = bit (route e) k" "bit r d \<noteq> bit (route e) d" "d < 64"
  shows "\<exists>t'. insert_here t (node_leaf i) r d = Inr t' \<and> trie t' \<and> set (leaves t') = insert i (set (leaves t))"
proof -
  have ag: "agree_above d (set (leaves t) \<union> {i})" "agree_above d ({i} \<union> set (leaves t))"
    using assms(2,3,4) by (auto simp: agree_above_def)
  show ?thesis
  proof (cases "bit r d")
    case True
    then have "\<exists>t'. node_branch d t (node_leaf i) = Inr t' \<and> trie t' \<and> leaves t' = leaves t @ leaves (node_leaf i)"
      using assms ag by (intro node_branch_trie) auto
    with True show ?thesis by (auto simp: insert_here_def bit_set_bit)
  next
    case False
    then have "\<exists>t'. node_branch d (node_leaf i) t = Inr t' \<and> trie t' \<and> leaves t' = leaves (node_leaf i) @ leaves t"
      using assms ag by (intro node_branch_trie) auto
    with False show ?thesis by (auto simp: insert_here_def bit_set_bit)
  qed
qed

lemma agree_above_insert:
  assumes "agree_above c A" "e \<in> A" "\<And>k. k > c \<Longrightarrow> bit (route i) k = bit (route e) k"
  shows "agree_above c (insert i A)"
proof -
  have "bit (route j) k = bit (route e) k" if "j \<in> insert i A" "k > c" for j k
    using that assms unfolding agree_above_def by blast
  then show ?thesis unfolding agree_above_def by blast
qed

lemma agree_above_from:
  assumes "agree_above c A" "e \<in> A" "c < b"
  shows "\<forall>j \<in> A. bit (route j) b = bit (route e) b \<and> (\<forall>k > b. bit (route j) k = bit (route e) k)"
proof (intro ballI conjI allI impI)
  fix j assume j: "j \<in> A"
  show "bit (route j) b = bit (route e) b" using assms j unfolding agree_above_def by blast
  fix k assume "k > b"
  with assms(3) have "k > c" by simp
  with assms(1,2) j show "bit (route j) k = bit (route e) k" unfolding agree_above_def by blast
qed

lemma insert_at_trie:
  assumes "trie t" "e = find_leaf t r" "r = route i"
    and "\<forall>k > d. bit r k = bit (route e) k" "bit r d \<noteq> bit (route e) d" "d < 64"
  shows "\<exists>t'. insert_at t (node_leaf i) r d = Inr t' \<and> trie t' \<and> set (leaves t') = insert i (set (leaves t))"
  using assms
proof (induction t "node_leaf i" r d rule: insert_at.induct)
  case (1 j s n x m r b)
  have "\<exists>t'. insert_here (SigNode (Leaf j) s n x m) (node_leaf i) r b = Inr t' \<and> trie t' \<and>
      set (leaves t') = insert i (set (leaves (SigNode (Leaf j) s n x m)))"
  proof (rule insert_here_trie[OF "1.prems"(1) _ "1.prems"(3-6)])
    have "e = j" using "1.prems"(2) by simp
    then show "\<forall>j \<in> set (leaves (SigNode (Leaf j) s n x m)). bit (route j) b = bit (route e) b \<and> (\<forall>k > b. bit (route j) k = bit (route e) k)"
      by simp
  qed
  then show ?case by simp
next
  case (2 c l r' s n x m r b)
  let ?t = "SigNode (Branch c l r') s n x m"
  have wf: "trie l" "trie r'" "c < 64" "\<forall>i \<in> set (leaves l). \<not> bit (route i) c" "\<forall>i \<in> set (leaves r'). bit (route i) c"
    and ag: "agree_above c (set (leaves l) \<union> set (leaves r'))" using "2.prems"(1) by auto
  have e_in: "e \<in> set (leaves l) \<union> set (leaves r')" using find_leaf_in[of ?t r] "2.prems"(2) by simp
  show ?case
  proof (cases "c > b")
    case True
    have ag': "agree_above c (insert i (set (leaves l) \<union> set (leaves r')))"
    proof (rule agree_above_insert[OF ag e_in])
      fix k assume "k > c"
      with True "2.prems"(4) have "bit r k = bit (route e) k" using less_trans by blast
      then show "bit (route i) k = bit (route e) k" using "2.prems"(3) by metis
    qed
    show ?thesis
    proof (cases "bit r c")
      case rc: True
      then have e: "e = find_leaf r' r" using "2.prems"(2) by (simp add: bit_set_bit)
      from "2.hyps"(1)[OF True _ wf(2) e "2.prems"(3-6)] rc obtain u where
        u: "insert_at r' (node_leaf i) r b = Inr u" "trie u" "set (leaves u) = insert i (set (leaves r'))" by (auto simp: bit_set_bit)
      have "\<exists>t. node_branch c l u = Inr t \<and> trie t \<and> leaves t = leaves l @ leaves u"
        using wf u ag' rc "2.prems"(3) by (intro node_branch_trie) auto
      with True rc u show ?thesis by (auto simp: bit_set_bit)
    next
      case rc: False
      then have e: "e = find_leaf l r" using "2.prems"(2) by (simp add: bit_set_bit)
      from "2.hyps"(2)[OF True _ wf(1) e "2.prems"(3-6)] rc obtain u where
        u: "insert_at l (node_leaf i) r b = Inr u" "trie u" "set (leaves u) = insert i (set (leaves l))" by (auto simp: bit_set_bit)
      have "\<exists>t. node_branch c u r' = Inr t \<and> trie t \<and> leaves t = leaves u @ leaves r'"
        using wf u ag' rc "2.prems"(3) by (intro node_branch_trie) auto
      with True rc u show ?thesis by (auto simp: bit_set_bit)
    qed
  next
    case False
    have "bit (route e) c = bit r c"
      using "2.prems"(2) wf(4,5) find_leaf_in[of l r] find_leaf_in[of r' r] by (cases "bit r c") (auto simp: bit_set_bit)
    with "2.prems"(5) have "c \<noteq> b" by auto
    with False have cb: "c < b" by simp
    have "\<forall>j \<in> set (leaves ?t). bit (route j) b = bit (route e) b \<and> (\<forall>k > b. bit (route j) k = bit (route e) k)"
      using agree_above_from[OF ag e_in cb] by simp
    from insert_here_trie[OF "2.prems"(1) this "2.prems"(3-6)] cb show ?thesis by simp
  qed
qed

section \<open>Canonical shape\<close>

lemma trie_branch_sides:
  assumes "trie (SigNode (Branch b l r) s n x m)"
  shows "set (leaves l) = {i \<in> set (leaves l @ leaves r). \<not> bit (route i) b}"
    "set (leaves r) = {i \<in> set (leaves l @ leaves r). bit (route i) b}"
  using assms by auto

lemma branch_bit_unique:
  assumes "trie (SigNode (Branch b l r) s n x m)" "trie (SigNode (Branch b' l' r') s' n' x' m')"
    "set (leaves l @ leaves r) = set (leaves l' @ leaves r')"
  shows "b \<le> b'"
proof (rule ccontr)
  assume "\<not> b \<le> b'"
  then have lt: "b' < b" by simp
  obtain i j where i: "i \<in> set (leaves l)" and j: "j \<in> set (leaves r)"
    using leaves_ne[of l] leaves_ne[of r] by (meson last_in_set)
  have "\<not> bit (route i) b" "bit (route j) b" using assms(1) i j by auto
  moreover have "i \<in> set (leaves l') \<union> set (leaves r')" "j \<in> set (leaves l') \<union> set (leaves r')"
    using assms(3) i j by auto
  moreover have "agree_above b' (set (leaves l') \<union> set (leaves r'))" using assms(2) by simp
  ultimately show False using lt unfolding agree_above_def by blast
qed

lemma branch_not_leaf:
  assumes "trie (SigNode (Branch b l r) s n x m)"
  shows "set (leaves l @ leaves r) \<noteq> {i}"
proof
  assume e: "set (leaves l @ leaves r) = {i}"
  have "set (leaves l) \<noteq> {}" "set (leaves r) \<noteq> {}" using leaves_ne by auto
  moreover have "set (leaves l) \<subseteq> {i}" "set (leaves r) \<subseteq> {i}" using e by auto
  ultimately have "i \<in> set (leaves l)" "i \<in> set (leaves r)" by (metis subset_singletonD insertI1)+
  with assms show False by auto
qed

lemma trie_canonical:
  assumes "trie t" "trie u" "set (leaves t) = set (leaves u)"
  shows "t = u"
  using assms
proof (induction t arbitrary: u rule: leaves.induct)
  case (1 i s n x m)
  then show ?case
  proof (cases u rule: leaves.cases)
    case (2 b l r s' n' x' m')
    with "1.prems" branch_not_leaf[of b l r s' n' x' m' i] show ?thesis by simp
  qed (use "1.prems" in auto)
next
  case (2 b l r s n x m)
  show ?case
  proof (cases u rule: leaves.cases)
    case (1 i s' n' x' m')
    with "2.prems" branch_not_leaf[of b l r s n x m i] show ?thesis by simp
  next
    case u: (2 b' l' r' s' n' x' m')
    have eq: "set (leaves l @ leaves r) = set (leaves l' @ leaves r')" using "2.prems"(3) u by simp
    have tu: "trie (SigNode (Branch b' l' r') s' n' x' m')" using "2.prems"(2) u by simp
    have b: "b = b'"
      using branch_bit_unique[OF "2.prems"(1) tu eq] branch_bit_unique[OF tu "2.prems"(1) eq[symmetric]] by simp
    have "set (leaves l) = set (leaves l')" "set (leaves r) = set (leaves r')"
      using trie_branch_sides[OF "2.prems"(1)] trie_branch_sides[OF tu] eq b by metis+
    with "2.IH" "2.prems"(1) tu have "l = l'" "r = r'" by auto
    with b u "2.prems"(1) tu show ?thesis by simp
  qed
qed

text \<open>Pointer comparison is sound when it relates equal nodes only.\<close>

definition ptr_sound :: "(sig_node \<Rightarrow> sig_node \<Rightarrow> bool) \<Rightarrow> bool" where
  "ptr_sound peq \<longleftrightarrow> (\<forall>a b. peq a b \<longrightarrow> a = b)"

lemma same_node_refl: "same_node peq t t"
proof (induction t rule: leaves.induct)
  case (2 b l r s n x m)
  then show ?case by simp
qed simp

lemma same_node_eq:
  assumes "ptr_sound peq" "trie t" "trie u" "same_node peq t u"
  shows "t = u"
  using assms
proof (induction t arbitrary: u rule: leaves.induct)
  case (1 i s n x m)
  show ?case
  proof (cases u rule: leaves.cases)
    case (1 j s' n' x' m')
    then have "j = i" using "1.prems"(1,4) by (auto simp: ptr_sound_def split: if_splits)
    then show ?thesis using "1.prems"(2,3) 1 by simp
  next
    case (2 b l r s' n' x' m')
    then show ?thesis using "1.prems"(1,4) by (auto simp: ptr_sound_def split: if_splits)
  qed
next
  case (2 b l r s n x m)
  show ?case
  proof (cases u rule: leaves.cases)
    case (1 i s' n' x' m')
    with "2.prems"(1,4) show ?thesis by (auto simp: ptr_sound_def split: if_splits)
  next
    case u: (2 b' l' r' s' n' x' m')
    show ?thesis
    proof (cases "peq (SigNode (Branch b l r) s n x m) u")
      case True
      with "2.prems"(1) show ?thesis by (auto simp: ptr_sound_def)
    next
      case False
      with "2.prems"(4) u have "b = b'" "same_node peq l l'" "same_node peq r r'" by (auto split: if_splits)
      with "2.IH" "2.prems"(1-3) u show ?thesis by auto
    qed
  qed
qed

section \<open>Signatures as sets\<close>

fun sig_set :: "signature \<Rightarrow> usize set" where
  "sig_set SigEmpty = {}"
| "sig_set (Singleton i) = {i}"
| "sig_set (Tree n) = set (leaves n)"

fun sig_inv :: "signature \<Rightarrow> bool" where
  "sig_inv (Tree (SigNode (Branch b l r) s n x m)) \<longleftrightarrow> trie (SigNode (Branch b l r) s n x m)"
| "sig_inv (Tree _) \<longleftrightarrow> False"
| "sig_inv _ \<longleftrightarrow> True"

lemma sig_inv_trie: "sig_inv (Tree n) \<Longrightarrow> trie n \<and> (\<forall>i. set (leaves n) \<noteq> {i})"
proof (cases n rule: leaves.cases)
  case (2 b l r s m x y)
  assume "sig_inv (Tree n)"
  with 2 have t: "trie (SigNode (Branch b l r) s m x y)" by simp
  with branch_not_leaf[OF t] 2 show ?thesis by simp
qed simp

lemma trie_branch_inv: "trie n \<Longrightarrow> set (leaves n) = insert i A \<Longrightarrow> A \<noteq> {} \<Longrightarrow> i \<notin> A \<Longrightarrow> sig_inv (Tree n)"
  by (cases n rule: leaves.cases) auto

lemma set_sig_iter: "set (sig_iter s) = sig_set s"
  by (cases s) (simp_all add: stack_leaves_concat)

lemma sig_inject:
  assumes "sig_inv s" "sig_inv t" "sig_set s = sig_set t"
  shows "s = t"
proof -
  have ne: "set (leaves n) \<noteq> {}" for n using leaves_ne[of n] by simp
  show ?thesis
  proof (cases s)
    case (Tree n)
    note n = sig_inv_trie[OF assms(1)[unfolded Tree]]
    show ?thesis
    proof (cases t)
      case (Tree m)
      with sig_inv_trie[of m] assms(2,3) n \<open>s = Tree n\<close> show ?thesis using trie_canonical[of n m] by auto
    qed (use assms(3) n ne[of n] Tree in auto)
  next
    case (Singleton i)
    show ?thesis
    proof (cases t)
      case (Tree m)
      with sig_inv_trie[of m] assms(2,3) Singleton show ?thesis by (metis sig_set.simps(2,3))
    qed (use assms(3) Singleton in auto)
  next
    case SigEmpty
    with assms(3) ne show ?thesis by (cases t) auto
  qed
qed

lemma same_set_exact:
  assumes "ptr_sound peq" "sig_inv s" "sig_inv t"
  shows "same_set peq s t \<longleftrightarrow> sig_set s = sig_set t"
proof
  assume st: "same_set peq s t"
  have "s = t"
  proof (cases "sig_ptr_eq peq s t")
    case True
    with assms(1) show ?thesis by (cases s; cases t) (auto simp: ptr_sound_def)
  next
    case False
    with st obtain l r where "s = Tree l" "t = Tree r" "same_node peq l r"
      by (cases s; cases t) (auto simp: same_set_def split: if_splits)
    with same_node_eq[OF assms(1), of l r] sig_inv_trie assms(2,3) show ?thesis by auto
  qed
  then show "sig_set s = sig_set t" by simp
next
  assume "sig_set s = sig_set t"
  then have "s = t" by (rule sig_inject[OF assms(2,3)])
  then show "same_set peq s t" using same_node_refl by (cases s) (auto simp: same_set_def)
qed

lemma differing_bit:
  assumes "i \<noteq> e"
  obtains d where "highest_bit (route i XOR route e) = Inr d" "d < 64"
    "\<forall>k > d. bit (route i) k = bit (route e) k" "bit (route i) d \<noteq> bit (route e) d"
proof -
  have "route i XOR route e \<noteq> 0"
  proof
    assume z: "route i XOR route e = 0"
    have "bit (route i) n = bit (route e) n" for n
      using arg_cong[OF z, of "\<lambda>w. bit w n"] by (simp add: bit_xor_iff)
    then have "route i = route e" by (simp add: bit_eq_iff)
    with assms show False by (simp add: route_inj)
  qed
  from highest_bit_ok[OF this] that show ?thesis by (auto simp: bit_xor_iff)
qed

lemma sig_insert_exact:
  assumes "sig_inv s"
  shows "\<exists>s'. sig_insert i s = Inr s' \<and> sig_inv s' \<and> sig_set s' = insert i (sig_set s)"
proof (cases "s = SigEmpty \<or> s = Singleton i")
  case True
  then show ?thesis by (auto simp: sig_insert_def)
next
  case False
  define root where "root = (case s of Tree n \<Rightarrow> n | Singleton j \<Rightarrow> node_leaf j | SigEmpty \<Rightarrow> node_leaf i)"
  have root: "trie root" "set (leaves root) = sig_set s"
    using False assms sig_inv_trie by (cases s; auto simp: root_def)+
  define e where "e = find_leaf root (route i)"
  have e_in: "e \<in> sig_set s" using find_leaf_in[of root "route i"] root(2) by (simp add: e_def)
  have ins: "sig_insert i s = (if e = i then Inr s
      else (case highest_bit (route i XOR route e) of Inl p \<Rightarrow> Inl p
        | Inr d \<Rightarrow> map_sum id Tree (insert_at root (node_leaf i) (route i) d)))"
    using False by (simp add: sig_insert_def root_def[symmetric] e_def[symmetric] Let_def)
  show ?thesis
  proof (cases "e = i")
    case True
    with ins e_in assms show ?thesis by auto
  next
    case ne: False
    then have "i \<noteq> e" by simp
    from differing_bit[OF this] obtain d where d: "highest_bit (route i XOR route e) = Inr d" "d < 64"
      "\<forall>k > d. bit (route i) k = bit (route e) k" "bit (route i) d \<noteq> bit (route e) d" .
    from insert_at_trie[OF root(1) e_def refl d(3,4,2)] obtain t where
      t: "insert_at root (node_leaf i) (route i) d = Inr t" "trie t" "set (leaves t) = insert i (sig_set s)" using root(2) by auto
    have "sig_inv (Tree t)"
    proof (cases t rule: leaves.cases)
      case (1 j)
      with t(3) e_in ne show ?thesis by auto
    next
      case 2
      with t(2) show ?thesis by simp
    qed
    with t ins d(1) ne show ?thesis by simp
  qed
qed

lemma insert_all_exact:
  "sig_inv s \<Longrightarrow> \<exists>s'. insert_all is s = Inr s' \<and> sig_inv s' \<and> sig_set s' = set is \<union> sig_set s"
proof (induction "is" arbitrary: s)
  case (Cons i xs)
  from sig_insert_exact[OF Cons.prems, of i] obtain s1 where
    "sig_insert i s = Inr s1" "sig_inv s1" "sig_set s1 = insert i (sig_set s)" by blast
  with Cons.IH[of s1] show ?case by auto
qed simp

lemma sig_union_exact:
  assumes "ptr_sound peq" "sig_inv s" "sig_inv t"
  shows "\<exists>u. sig_union peq s t = Inr u \<and> sig_inv u \<and> sig_set u = sig_set s \<union> sig_set t"
proof -
  have p: "sig_ptr_eq peq s t \<Longrightarrow> s = t"
    using assms(1) by (cases s; cases t) (auto simp: ptr_sound_def)
  have q: "same_set peq s t \<Longrightarrow> sig_set s = sig_set t" using same_set_exact[OF assms] by blast
  from insert_all_exact[OF assms(2), of "sig_iter t"] insert_all_exact[OF assms(3), of "sig_iter s"] p q assms(2,3)
  show ?thesis unfolding sig_union_def set_sig_iter by auto
qed

section \<open>Properties\<close>

text \<open>
  C37. Ancestry signatures are exact sets: for any two well-formed signatures, union never panics
  and gives a well-formed signature of the union of the two sets, and the comparison answers
  whether the sets are equal, although it decides on cached hash fields and shared pointers
  first. This holds for every pointer comparison that relates equal nodes only, so sharing never
  changes a result.
\<close>

theorem signature_exact:
  assumes "ptr_sound peq" and "sig_inv s" and "sig_inv t"
  shows "(\<exists>u. sig_union peq s t = Inr u \<and> sig_inv u \<and> sig_set u = sig_set s \<union> sig_set t)
    \<and> (same_set peq s t \<longleftrightarrow> sig_set s = sig_set t)"
  using sig_union_exact[OF assms] same_set_exact[OF assms] by blast

theorem signature_exact_witness:
  "(\<exists>u. sig_union (\<lambda>_ _. False) (Singleton 3) (Singleton 5) = Inr u \<and> sig_set u = {3, 5})
    \<and> \<not> same_set (\<lambda>_ _. False) (Singleton 3) (Singleton 5)"
  using signature_exact[of "\<lambda>_ _. False" "Singleton 3" "Singleton 5"] by (auto simp: ptr_sound_def insert_commute)

end
