(* ===== verification/Cancel_Graph.thy ===== *)
theory Cancel_Graph
  imports Id_Set Signature
begin

text \<open>
  The compressed cancellation graph (cancellation_graph.rs, cancellation_graph_rewrite.rs and
  cancellation_graph_normalize.rs): live tokens and relays, connected by parent and child sets,
  with an index of the relays by the candidate hash of their ancestry signature. Every \<open>expect\<close>,
  \<open>assert!\<close> and indexing panic is a branch of the model.
\<close>

section \<open>State\<close>

datatype node_class = Token | Relay

text \<open>\<open>ce_flag\<close> says whether the entry still refers to its token's node; relays do not.\<close>

record cg_entry =
  ce_kind :: node_class
  ce_flag :: bool
  ce_cancelled :: bool
  ce_parents :: parent_set
  ce_children :: id_set
  ce_signature :: signature

record cancel_graph =
  cg_next :: usize
  cg_relays :: nat
  cg_nodes :: "usize \<rightharpoonup> cg_entry"
  cg_index :: "candidate \<rightharpoonup> usize list"

definition graph_new :: cancel_graph where
  "graph_new = \<lparr>cg_next = 0, cg_relays = 0, cg_nodes = Map.empty, cg_index = Map.empty\<rparr>"

text \<open>\<open>nodes.get(id).expect(..)\<close> and a mutation through \<open>nodes.get_mut(id).expect(..)\<close>.\<close>

definition node_at :: "usize \<Rightarrow> cancel_graph \<Rightarrow> cg_entry result_p" where
  "node_at i g = (case cg_nodes g i of None \<Rightarrow> Inl (Panic ''missing cancellation node'') | Some e \<Rightarrow> Inr e)"

definition upd_node :: "usize \<Rightarrow> (cg_entry \<Rightarrow> cg_entry) \<Rightarrow> cancel_graph \<Rightarrow> cancel_graph result_p" where
  "upd_node i f g = bindp (node_at i g) (\<lambda>e. Inr (g\<lparr>cg_nodes := (cg_nodes g)(i \<mapsto> f e)\<rparr>))"

definition add_child :: "usize \<Rightarrow> cg_entry \<Rightarrow> cg_entry" where
  "add_child c e = e\<lparr>ce_children := snd (ids_insert c (ce_children e))\<rparr>"

definition del_child :: "usize \<Rightarrow> cg_entry \<Rightarrow> cg_entry" where
  "del_child c e = e\<lparr>ce_children := snd (ids_remove c (ce_children e))\<rparr>"

definition add_parent :: "usize \<Rightarrow> cg_entry \<Rightarrow> cg_entry" where
  "add_parent p e = e\<lparr>ce_parents := snd (ps_insert p (ce_parents e))\<rparr>"

definition del_parent :: "usize \<Rightarrow> cg_entry \<Rightarrow> cg_entry" where
  "del_parent p e = e\<lparr>ce_parents := snd (ps_remove p (ce_parents e))\<rparr>"

section \<open>Insertion\<close>

definition graph_reserve :: "cancel_graph \<Rightarrow> (usize \<times> cancel_graph) result_p" where
  "graph_reserve g =
     (case checked_add (cg_next g) 1 of
        None \<Rightarrow> Inl (Panic ''cancellation identity exhausted'')
      | Some n \<Rightarrow> Inr (cg_next g, g\<lparr>cg_next := n\<rparr>))"

text \<open>One parent of an insertion: inherit its cancellation and register the child.\<close>

definition link_parent :: "usize \<Rightarrow> usize \<Rightarrow> bool \<times> cancel_graph \<Rightarrow> (bool \<times> cancel_graph) result_p" where
  "link_parent child parent s =
     (let (cancelled, g) = s in
      bindp (node_at parent g) (\<lambda>e.
      bindp (upd_node parent (add_child child) g) (\<lambda>g'. Inr (cancelled \<or> ce_cancelled e, g'))))"

definition graph_insert :: "usize \<Rightarrow> usize list \<Rightarrow> cancel_graph \<Rightarrow> (bool \<times> cancel_graph) result_p" where
  "graph_insert i parents g =
     (if i + 1 \<noteq> cg_next g then Inl (Panic ''cancellation identity not reserved'')
      else let ps = ps_from_iter parents in
        bindp (foldp (link_parent i) (ps_iter ps) (False, g)) (\<lambda>(cancelled, g').
          Inr (cancelled, g'\<lparr>cg_nodes := (cg_nodes g')(i \<mapsto>
            \<lparr>ce_kind = Token, ce_flag = True, ce_cancelled = cancelled, ce_parents = ps,
             ce_children = Empty, ce_signature = Singleton i\<rparr>)\<rparr>)))"

section \<open>Signatures and the relay index\<close>

definition node_same_set :: "signature \<Rightarrow> signature \<Rightarrow> bool" where
  "node_same_set = same_set (=)"

definition signature_for :: "parent_set \<Rightarrow> cancel_graph \<Rightarrow> signature result_p" where
  "signature_for parents g =
     foldp (\<lambda>p s. bindp (node_at p g) (\<lambda>e. sig_union (=) s (ce_signature e))) (ps_iter parents) SigEmpty"

definition index_relay :: "usize \<Rightarrow> cancel_graph \<Rightarrow> cancel_graph result_p" where
  "index_relay i g =
     bindp (node_at i g) (\<lambda>e.
       if ce_kind e \<noteq> Relay then Inl (Panic ''only relays are indexed'')
       else let c = candidate_of (ce_signature e) in
         Inr (g\<lparr>cg_index := (cg_index g)(c \<mapsto> insort_insert i (case cg_index g c of None \<Rightarrow> [] | Some is \<Rightarrow> is))\<rparr>))"

definition unindex_relay :: "usize \<Rightarrow> cancel_graph \<Rightarrow> cancel_graph result_p" where
  "unindex_relay i g =
     bindp (node_at i g) (\<lambda>e.
       let c = candidate_of (ce_signature e) in
       (case cg_index g c of
          None \<Rightarrow> Inl (Panic ''indexed relay candidate'')
        | Some is \<Rightarrow>
            if i \<notin> set is then Inl (Panic ''indexed relay identity'')
            else let is' = filter (\<lambda>j. j \<noteq> i) is in
              Inr (g\<lparr>cg_index := (cg_index g)(c := (if is' = [] then None else Some is'))\<rparr>)))"

text \<open>The first other relay, in identity order, with the same cancellation flag and ancestry.\<close>

fun matching_relay :: "usize \<Rightarrow> bool \<Rightarrow> signature \<Rightarrow> cancel_graph \<Rightarrow> usize list \<Rightarrow> usize option result_p" where
  "matching_relay i cancelled sig g [] = Inr None"
| "matching_relay i cancelled sig g (j # js) =
     (if j = i then matching_relay i cancelled sig g js
      else bindp (node_at j g) (\<lambda>e.
        if ce_cancelled e \<noteq> cancelled then matching_relay i cancelled sig g js
        else if node_same_set sig (ce_signature e) then Inr (Some j)
        else matching_relay i cancelled sig g js))"

definition equivalent_relay :: "usize \<Rightarrow> cancel_graph \<Rightarrow> usize option result_p" where
  "equivalent_relay i g =
     (case cg_nodes g i of
        None \<Rightarrow> Inr None
      | Some e \<Rightarrow>
          if ce_kind e \<noteq> Relay then Inr None
          else (case cg_index g (candidate_of (ce_signature e)) of
                  None \<Rightarrow> Inr None
                | Some is \<Rightarrow> matching_relay i (ce_cancelled e) (ce_signature e) g is))"

section \<open>Rewriting\<close>

datatype signature_state = Known | Dirty

type_synonym relay_work = "usize \<times> signature_state"

text \<open>Connect one parent with one child, both ways, unless they are connected.\<close>

definition splice_edge :: "usize \<Rightarrow> usize \<Rightarrow> cancel_graph \<Rightarrow> cancel_graph result_p" where
  "splice_edge parent child g =
     bindp (node_at parent g) (\<lambda>e.
     bindp (upd_node parent (add_child child) g) (\<lambda>g'.
       if fst (ids_insert child (ce_children e)) then upd_node child (add_parent parent) g' else Inr g'))"

definition splice :: "parent_set \<Rightarrow> id_set \<Rightarrow> cancel_graph \<Rightarrow> cancel_graph result_p" where
  "splice parents children =
     foldp (\<lambda>p g. foldp (splice_edge p) (ids_iter children) g) (ps_iter parents)"

definition dec_relays :: "cancel_graph \<Rightarrow> cancel_graph result_p" where
  "dec_relays g =
     (if cg_relays g = 0 then Inl (Panic ''attempt to subtract with overflow'')
      else Inr (g\<lparr>cg_relays := cg_relays g - 1\<rparr>))"

definition erase :: "usize \<Rightarrow> bool \<Rightarrow> bool \<Rightarrow> cancel_graph \<Rightarrow> (relay_work list \<times> cancel_graph) result_p" where
  "erase i do_splice descendants_dirty g =
     bindp (node_at i g) (\<lambda>e.
     bindp (if ce_kind e = Relay then unindex_relay i g else Inr g) (\<lambda>g1.
     let g2 = g1\<lparr>cg_nodes := (cg_nodes g1)(i := None)\<rparr> in
     bindp (if ce_kind e = Relay then dec_relays g2 else Inr g2) (\<lambda>g3.
     bindp (foldp (\<lambda>p. upd_node p (del_child i)) (ps_iter (ce_parents e)) g3) (\<lambda>g4.
     bindp (foldp (\<lambda>c. upd_node c (del_parent i)) (ids_iter (ce_children e)) g4) (\<lambda>g5.
     bindp (if do_splice then splice (ce_parents e) (ce_children e) g5 else Inr g5) (\<lambda>g6.
       Inr (map (\<lambda>p. (p, Known)) (ps_iter (ce_parents e))
            @ map (\<lambda>c. (c, if descendants_dirty then Dirty else Known)) (ids_iter (ce_children e)), g6)))))))"

definition redirect_parent :: "usize \<Rightarrow> usize \<Rightarrow> cg_entry \<Rightarrow> cg_entry" where
  "redirect_parent remove keep e = add_parent keep (del_parent remove e)"

definition merge_relays :: "usize \<Rightarrow> usize \<Rightarrow> cancel_graph \<Rightarrow> (relay_work list \<times> cancel_graph) result_p" where
  "merge_relays keep remove g =
     bindp (node_at keep g) (\<lambda>k.
     bindp (node_at remove g) (\<lambda>e.
     if ce_kind k \<noteq> Relay \<or> ce_kind e \<noteq> Relay then Inl (Panic ''assertion failed: relays'')
     else if ce_cancelled k \<noteq> ce_cancelled e then Inl (Panic ''assertion failed: cancelled'')
     else if candidate_of (ce_signature k) \<noteq> candidate_of (ce_signature e) then Inl (Panic ''assertion failed: candidate'')
     else
       bindp (unindex_relay remove g) (\<lambda>g1.
       bindp (dec_relays (g1\<lparr>cg_nodes := (cg_nodes g1)(remove := None)\<rparr>)) (\<lambda>g2.
       bindp (foldp (\<lambda>p. upd_node p (del_child remove)) (ps_iter (ce_parents e)) g2) (\<lambda>g3.
       bindp (foldp (\<lambda>c. upd_node c (redirect_parent remove keep)) (ids_iter (ce_children e)) g3) (\<lambda>g4.
       bindp (upd_node keep (\<lambda>n. n\<lparr>ce_children := ids_extend_set (ce_children n) (ce_children e)\<rparr>) g4) (\<lambda>g5.
         Inr (map (\<lambda>j. (j, Known)) (ps_iter (ce_parents e) @ ids_iter (ce_children e) @ [keep]), g5))))))))"

section \<open>Normalization\<close>

text \<open>Pending work, ordered by identity; a dirty entry stays dirty.\<close>

fun enqueue_work :: "relay_work \<Rightarrow> relay_work list \<Rightarrow> relay_work list" where
  "enqueue_work (i, s) [] = [(i, s)]"
| "enqueue_work (i, s) ((j, t) # ps) =
     (if i < j then (i, s) # (j, t) # ps
      else if i = j then (j, if s = Dirty then Dirty else t) # ps
      else (j, t) # enqueue_work (i, s) ps)"

definition enqueue_all :: "relay_work list \<Rightarrow> relay_work list \<Rightarrow> relay_work list" where
  "enqueue_all ws pending = fold enqueue_work ws pending"

definition refresh_signature :: "usize \<Rightarrow> relay_work list \<Rightarrow> cancel_graph \<Rightarrow> (relay_work list \<times> cancel_graph) result_p" where
  "refresh_signature i pending g =
     bindp (node_at i g) (\<lambda>e.
     bindp (signature_for (ce_parents e) g) (\<lambda>sig.
     if node_same_set (ce_signature e) sig then Inr (pending, g)
     else
       bindp (unindex_relay i g) (\<lambda>g1.
       bindp (upd_node i (\<lambda>n. n\<lparr>ce_signature := sig\<rparr>) g1) (\<lambda>g2.
       bindp (index_relay i g2) (\<lambda>g3.
         Inr (enqueue_all (map (\<lambda>c. (c, Dirty)) (ids_iter (ce_children e))) pending, g3))))))"

text \<open>One iteration on the popped work.\<close>

definition normalize_step :: "relay_work \<Rightarrow> relay_work list \<Rightarrow> cancel_graph \<Rightarrow> (relay_work list \<times> cancel_graph) result_p" where
  "normalize_step w pending g =
     (let (i, s) = w in
      case cg_nodes g i of
        None \<Rightarrow> Inr (pending, g)
      | Some e \<Rightarrow>
          if ce_kind e \<noteq> Relay then Inr (pending, g)
          else if ps_len (ce_parents e) \<le> 1 \<or> ids_len (ce_children e) \<le> 1 then
            bindp (erase i True (s = Dirty) g) (\<lambda>(ws, g'). Inr (enqueue_all ws pending, g'))
          else
            bindp (if s = Dirty then refresh_signature i pending g else Inr (pending, g)) (\<lambda>(pending', g').
            bindp (equivalent_relay i g') (\<lambda>other.
              (case other of
                 None \<Rightarrow> Inr (pending', g')
               | Some j \<Rightarrow>
                   bindp (merge_relays (if i < j then i else j) (if i < j then j else i) g') (\<lambda>(ws, g'').
                     Inr (enqueue_all ws pending', g''))))))"

text \<open>The loop; \<open>None\<close> means that the fuel ran out.\<close>

fun normalize_loop :: "nat \<Rightarrow> relay_work list \<Rightarrow> cancel_graph \<Rightarrow> cancel_graph result_p option" where
  "normalize_loop fuel [] g = Some (Inr g)"
| "normalize_loop 0 (w # pending) g = None"
| "normalize_loop (Suc fuel) (w # pending) g =
     (case normalize_step w pending g of
        Inl e \<Rightarrow> Some (Inl e)
      | Inr (pending', g') \<Rightarrow> normalize_loop fuel pending' g')"

definition normalize :: "nat \<Rightarrow> relay_work list \<Rightarrow> cancel_graph \<Rightarrow> cancel_graph result_p option" where
  "normalize fuel initial g = normalize_loop fuel (enqueue_all initial []) g"

section \<open>Removal and cancellation\<close>

text \<open>\<open>iter().all(..)\<close> and \<open>iter().any(..)\<close> over entries that must exist.\<close>

fun all_tokens :: "usize list \<Rightarrow> cancel_graph \<Rightarrow> bool result_p" where
  "all_tokens [] g = Inr True"
| "all_tokens (p # ps) g = bindp (node_at p g) (\<lambda>e. if ce_kind e = Token then all_tokens ps g else Inr False)"

fun any_cancelled :: "usize list \<Rightarrow> cancel_graph \<Rightarrow> bool result_p" where
  "any_cancelled [] g = Inr False"
| "any_cancelled (p # ps) g = bindp (node_at p g) (\<lambda>e. if ce_cancelled e then Inr True else any_cancelled ps g)"

text \<open>A childless token below tokens only is just unlinked.\<close>

definition remove_leaf :: "usize \<Rightarrow> cg_entry \<Rightarrow> cancel_graph \<Rightarrow> cancel_graph result_p" where
  "remove_leaf i e g =
     (if ce_kind e \<noteq> Token then Inl (Panic ''token removed twice'')
      else foldp (\<lambda>p. upd_node p (del_child i)) (ps_iter (ce_parents e)) (g\<lparr>cg_nodes := (cg_nodes g)(i := None)\<rparr>))"

definition make_relay :: "bool \<Rightarrow> signature \<Rightarrow> cg_entry \<Rightarrow> cg_entry" where
  "make_relay inherited sig e = e\<lparr>ce_kind := Relay, ce_flag := False, ce_cancelled := inherited, ce_signature := sig\<rparr>"

text \<open>The two rewriting branches: become a relay, or be spliced out; then normalize.\<close>

definition remove_to_relay :: "nat \<Rightarrow> usize \<Rightarrow> cg_entry \<Rightarrow> bool \<Rightarrow> cancel_graph \<Rightarrow> cancel_graph result_p option" where
  "remove_to_relay fuel i e inherited g =
     (case bindp (signature_for (ce_parents e) g) (\<lambda>sig.
           bindp (upd_node i (make_relay inherited sig) g) (\<lambda>g1.
           index_relay i (g1\<lparr>cg_relays := cg_relays g1 + 1\<rparr>))) of
        Inl p \<Rightarrow> Some (Inl p)
      | Inr g2 \<Rightarrow> normalize fuel ((i, Known) # map (\<lambda>c. (c, Dirty)) (ids_iter (ce_children e))) g2)"

definition remove_spliced :: "nat \<Rightarrow> usize \<Rightarrow> cancel_graph \<Rightarrow> cancel_graph result_p option" where
  "remove_spliced fuel i g =
     (case erase i True True g of
        Inl p \<Rightarrow> Some (Inl p)
      | Inr (ws, g1) \<Rightarrow> normalize fuel ws g1)"

definition direct_leaf :: "cg_entry \<Rightarrow> cancel_graph \<Rightarrow> bool result_p" where
  "direct_leaf e g = (if ids_is_empty (ce_children e) then all_tokens (ps_iter (ce_parents e)) g else Inr False)"

definition graph_remove :: "nat \<Rightarrow> usize \<Rightarrow> cancel_graph \<Rightarrow> cancel_graph result_p option" where
  "graph_remove fuel i g =
     (case bindp (node_at i g) (\<lambda>e. map_sum id (Pair e) (direct_leaf e g)) of
        Inl p \<Rightarrow> Some (Inl p)
      | Inr (e, leaf) \<Rightarrow>
          if leaf then Some (remove_leaf i e g)
          else if ce_kind e \<noteq> Token then Some (Inl (Panic ''token removed twice''))
          else (case any_cancelled (ps_iter (ce_parents e)) g of
                  Inl p \<Rightarrow> Some (Inl p)
                | Inr inherited \<Rightarrow>
                    if ps_len (ce_parents e) > 1 \<and> ids_len (ce_children e) > 1
                    then remove_to_relay fuel i e inherited g
                    else remove_spliced fuel i g))"

text \<open>
  The traversal of \<open>cancel_nodes\<close>: a stack of identities, the changed relays and the cancelled
  tokens. \<open>alive\<close> says whether a token's node can still be upgraded.
\<close>

fun cancel_loop :: "nat \<Rightarrow> (usize \<Rightarrow> bool) \<Rightarrow> usize list \<Rightarrow> usize list \<Rightarrow> usize list \<Rightarrow> cancel_graph \<Rightarrow>
    (usize list \<times> usize list \<times> cancel_graph) result_p option" where
  "cancel_loop fuel alive [] relays cancelled g = Some (Inr (relays, cancelled, g))"
| "cancel_loop 0 alive (i # st) relays cancelled g = None"
| "cancel_loop (Suc fuel) alive (i # st) relays cancelled g =
     (case cg_nodes g i of
        None \<Rightarrow> Some (Inl (Panic ''live cancellation path''))
      | Some e \<Rightarrow>
          if ce_cancelled e then cancel_loop fuel alive st relays cancelled g
          else cancel_loop fuel alive (rev (ids_iter (ce_children e)) @ st)
                 (if ce_flag e then relays else relays @ [i])
                 (if ce_flag e \<and> alive i then cancelled @ [i] else cancelled)
                 (g\<lparr>cg_nodes := (cg_nodes g)(i \<mapsto> e\<lparr>ce_cancelled := True\<rparr>)\<rparr>))"

definition cancel_nodes :: "nat \<Rightarrow> (usize \<Rightarrow> bool) \<Rightarrow> usize \<Rightarrow> cancel_graph \<Rightarrow> (usize list \<times> cancel_graph) result_p option" where
  "cancel_nodes fuel alive i g =
     (case cancel_loop fuel alive [i] [] [] g of
        None \<Rightarrow> None
      | Some (Inl p) \<Rightarrow> Some (Inl p)
      | Some (Inr (relays, cancelled, g1)) \<Rightarrow>
          map_option (map_sum id (\<lambda>g2. (cancelled, g2))) (normalize fuel (map (\<lambda>r. (r, Known)) relays) g1))"

end
