(* ===== verification/Channel.thy ===== *)
theory Channel
  imports Prelude
begin

text \<open>
  Bounded multi-producer multi-consumer channels (channel.rs, channel/core.rs, channel/wait.rs
  and channel/endpoints.rs). Every operation runs under the channel's metadata lock; a blocking
  send or receive is a sequence of locked attempts separated by parks. Waits are named by their
  cell identity. The operations return the waits they notify, in order; the interleaving of any
  number of calls is the step relation at the end.
\<close>

section \<open>State\<close>

datatype direction = Send | Recv

record 'a channel =
  ch_capacity :: nat
  ch_wait_capacity :: nat
  ch_values :: "'a list"
  ch_senders :: nat
  ch_receivers :: nat
  ch_closed :: bool
  ch_send_waits :: "u64 list"
  ch_recv_waits :: "u64 list"

definition bounded_with_wait_capacity :: "nat \<Rightarrow> nat \<Rightarrow> 'a channel result" where
  "bounded_with_wait_capacity capacity wait_capacity =
     (if capacity = 0 then Inl (InvalidConfiguration ChannelCapacity ''must be positive'')
      else if wait_capacity = 0 then Inl (InvalidConfiguration ChannelWaitCapacity ''must be positive'')
      else Inr \<lparr>ch_capacity = capacity, ch_wait_capacity = wait_capacity, ch_values = [], ch_senders = 1,
                ch_receivers = 1, ch_closed = False, ch_send_waits = [], ch_recv_waits = []\<rparr>)"

definition DEFAULT_WAIT_CAPACITY :: nat where "DEFAULT_WAIT_CAPACITY = 64"

definition bounded :: "nat \<Rightarrow> 'a channel result" where
  "bounded capacity = bounded_with_wait_capacity capacity DEFAULT_WAIT_CAPACITY"

fun ch_queue :: "direction \<Rightarrow> 'a channel \<Rightarrow> u64 list" where
  "ch_queue Send c = ch_send_waits c"
| "ch_queue Recv c = ch_recv_waits c"

fun ch_set_queue :: "direction \<Rightarrow> u64 list \<Rightarrow> 'a channel \<Rightarrow> 'a channel" where
  "ch_set_queue Send q c = c\<lparr>ch_send_waits := q\<rparr>"
| "ch_set_queue Recv q c = c\<lparr>ch_recv_waits := q\<rparr>"

text \<open>The waits \<open>wake_fronts\<close> and \<open>wake_all\<close> notify.\<close>

definition wake_fronts :: "'a channel \<Rightarrow> u64 list" where
  "wake_fronts c = take 1 (ch_send_waits c) @ take 1 (ch_recv_waits c)"

definition wake_all :: "'a channel \<Rightarrow> u64 list" where
  "wake_all c = ch_send_waits c @ ch_recv_waits c"

section \<open>Tickets\<close>

record ticket =
  tk_wait :: "u64 option"
  tk_queued :: bool

definition ticket_new :: ticket where
  "ticket_new = \<lparr>tk_wait = None, tk_queued = False\<rparr>"

definition ticket_attach :: "u64 \<Rightarrow> ticket \<Rightarrow> ticket result_p" where
  "ticket_attach w t =
     (if tk_wait t \<noteq> None then Inl (Panic ''channel wait attached twice'') else Inr (t\<lparr>tk_wait := Some w\<rparr>))"

definition wait_identity :: "ticket \<Rightarrow> u64 result_p" where
  "wait_identity t = (case tk_wait t of None \<Rightarrow> Inl (Panic ''attached channel wait'') | Some w \<Rightarrow> Inr w)"

definition take_turn :: "direction \<Rightarrow> ticket \<Rightarrow> 'a channel \<Rightarrow> (bool \<times> ticket \<times> 'a channel) result_p" where
  "take_turn dir t c =
     (case ch_queue dir c of
        [] \<Rightarrow> if tk_queued t then Inl (Panic ''queued channel ticket disappeared'') else Inr (True, t, c)
      | front # rest \<Rightarrow>
          if \<not> tk_queued t then Inr (False, t, c)
          else (case wait_identity t of
                  Inl e \<Rightarrow> Inl e
                | Inr w \<Rightarrow>
                    if front \<noteq> w then Inr (False, t, c)
                    else Inr (True, t\<lparr>tk_queued := False, tk_wait := None\<rparr>, ch_set_queue dir rest c)))"

definition ticket_enqueue :: "direction \<Rightarrow> u64 \<Rightarrow> ticket \<Rightarrow> 'a channel \<Rightarrow> (unit result \<times> ticket \<times> 'a channel) result_p" where
  "ticket_enqueue dir w t c =
     (if tk_queued t then Inr (Inr (), t, c)
      else (case wait_identity t of
              Inl e \<Rightarrow> Inl e
            | Inr v \<Rightarrow>
                if w \<noteq> v then Inl (Panic ''channel wait changed'')
                else if length (ch_queue dir c) = ch_wait_capacity c
                then Inr (Inl (Capacity Waiters (ch_wait_capacity c)), t, c)
                else Inr (Inr (), t\<lparr>tk_queued := True\<rparr>, ch_set_queue dir (ch_queue dir c @ [w]) c)))"

definition ticket_remove :: "direction \<Rightarrow> ticket \<Rightarrow> 'a channel \<Rightarrow> (ticket \<times> 'a channel) result_p" where
  "ticket_remove dir t c =
     (if \<not> tk_queued t then Inr (t, c)
      else (case wait_identity t of
              Inl e \<Rightarrow> Inl e
            | Inr w \<Rightarrow>
                Inr (t\<lparr>tk_queued := False, tk_wait := None\<rparr>,
                     case position (\<lambda>x. x = w) (ch_queue dir c) of
                       None \<Rightarrow> c
                     | Some i \<Rightarrow> ch_set_queue dir (remove_at i (ch_queue dir c)) c)))"

text \<open>Dropping a ticket: a queued one leaves its queue and the fronts are notified.\<close>

definition ticket_drop :: "direction \<Rightarrow> ticket \<Rightarrow> 'a channel \<Rightarrow> (u64 list \<times> 'a channel) result_p" where
  "ticket_drop dir t c =
     (if \<not> tk_queued t then Inr ([], c)
      else map_sum id (\<lambda>(_, c'). (wake_fronts c', c')) (ticket_remove dir t c))"

section \<open>Sends and receives\<close>

text \<open>
  What one locked iteration of the loop of \<open>send_inner\<close> or \<open>recv\<close> decides: return a value
  (a receive) or unit, return an error, leave to enter the wait, or park.
\<close>

datatype 'a outcome = Done "'a option" | Fail error | EnterWait | ParkWait

text \<open>The tail shared by both: refuse to block, enter the wait first, or enqueue and park.\<close>

definition miss :: "direction \<Rightarrow> bool \<Rightarrow> bool \<Rightarrow> u64 \<Rightarrow> ticket \<Rightarrow> 'a channel \<Rightarrow>
    ('a outcome \<times> u64 list \<times> ticket \<times> 'a channel) result_p" where
  "miss dir blocking entered w t c =
     (if \<not> blocking then Inr (Fail WouldBlock, [], t, c)
      else if \<not> entered then Inr (EnterWait, [], t, c)
      else (case ticket_enqueue dir w t c of
              Inl e \<Rightarrow> Inl e
            | Inr (Inl err, t', c') \<Rightarrow> Inr (Fail err, [], t', c')
            | Inr (Inr _, t', c') \<Rightarrow> Inr (ParkWait, [], t', c')))"

definition send_attempt :: "bool \<Rightarrow> bool \<Rightarrow> u64 \<Rightarrow> 'a \<Rightarrow> ticket \<Rightarrow> 'a channel \<Rightarrow>
    ('a outcome \<times> u64 list \<times> ticket \<times> 'a channel) result_p" where
  "send_attempt blocking entered w v t c =
     (if ch_closed c \<or> ch_receivers c = 0 then Inr (Fail Closed, [], t, c)
      else if length (ch_values c) < ch_capacity c then
        (case take_turn Send t c of
           Inl e \<Rightarrow> Inl e
         | Inr (True, t', c') \<Rightarrow>
             (let c'' = c'\<lparr>ch_values := ch_values c' @ [v]\<rparr> in Inr (Done None, wake_fronts c'', t', c''))
         | Inr (False, t', c') \<Rightarrow> miss Send blocking entered w t' c')
      else miss Send blocking entered w t c)"

definition recv_empty :: "bool \<Rightarrow> bool \<Rightarrow> u64 \<Rightarrow> ticket \<Rightarrow> 'a channel \<Rightarrow>
    ('a outcome \<times> u64 list \<times> ticket \<times> 'a channel) result_p" where
  "recv_empty blocking entered w t c =
     (if ch_values c = [] \<and> (ch_closed c \<or> ch_senders c = 0) then Inr (Fail Closed, [], t, c)
      else miss Recv blocking entered w t c)"

definition recv_attempt :: "bool \<Rightarrow> bool \<Rightarrow> u64 \<Rightarrow> ticket \<Rightarrow> 'a channel \<Rightarrow>
    ('a outcome \<times> u64 list \<times> ticket \<times> 'a channel) result_p" where
  "recv_attempt blocking entered w t c =
     (case ch_values c of
        [] \<Rightarrow> recv_empty blocking entered w t c
      | _ \<Rightarrow>
          (case take_turn Recv t c of
             Inl e \<Rightarrow> Inl e
           | Inr (True, t', c') \<Rightarrow>
               (case ch_values c' of
                  [] \<Rightarrow> Inl (Panic ''nonempty channel'')
                | v # vs \<Rightarrow> (let c'' = c'\<lparr>ch_values := vs\<rparr> in Inr (Done (Some v), wake_fronts c'', t', c'')))
           | Inr (False, t', c') \<Rightarrow> recv_empty blocking entered w t' c'))"

section \<open>Closing and endpoints\<close>

definition ch_close :: "'a channel \<Rightarrow> u64 list \<times> 'a channel" where
  "ch_close c = (let c' = c\<lparr>ch_closed := True\<rparr> in (wake_all c', c'))"

definition sender_is_closed :: "'a channel \<Rightarrow> bool" where
  "sender_is_closed c \<longleftrightarrow> ch_closed c \<or> ch_receivers c = 0"

definition receiver_is_closed :: "'a channel \<Rightarrow> bool" where
  "receiver_is_closed c \<longleftrightarrow> ch_closed c \<or> ch_senders c = 0"

definition sender_clone :: "'a channel \<Rightarrow> 'a channel result_p" where
  "sender_clone c = (if ch_senders c + 1 < 2 ^ 64 then Inr (c\<lparr>ch_senders := ch_senders c + 1\<rparr>)
                     else Inl (Panic ''sender count exhausted''))"

definition receiver_clone :: "'a channel \<Rightarrow> 'a channel result_p" where
  "receiver_clone c = (if ch_receivers c + 1 < 2 ^ 64 then Inr (c\<lparr>ch_receivers := ch_receivers c + 1\<rparr>)
                       else Inl (Panic ''receiver count exhausted''))"

definition sender_drop :: "'a channel \<Rightarrow> (u64 list \<times> 'a channel) result_p" where
  "sender_drop c =
     (if ch_senders c = 0 then Inl (Panic ''attempt to subtract with overflow'')
      else let c' = c\<lparr>ch_senders := ch_senders c - 1\<rparr> in
        Inr (if ch_senders c' = 0 then wake_all c' else [], c'))"

text \<open>The last receiver takes the buffered values with it (the second component).\<close>

definition receiver_drop :: "'a channel \<Rightarrow> (u64 list \<times> 'a list \<times> 'a channel) result_p" where
  "receiver_drop c =
     (if ch_receivers c = 0 then Inl (Panic ''attempt to subtract with overflow'')
      else let c' = c\<lparr>ch_receivers := ch_receivers c - 1\<rparr> in
        Inr (if ch_receivers c' = 0 then (wake_all c', ch_values c', c'\<lparr>ch_values := []\<rparr>) else ([], [], c')))"

section \<open>Interleaved calls\<close>

text \<open>
  A call in progress: its input if it is a send, whether it may block, whether it entered its
  wait, its ticket, and what it does next.
\<close>

datatype status = Running | Parked | Dropping error

record 'a call =
  cl_dir :: direction
  cl_value :: "'a option"
  cl_blocking :: bool
  cl_entered :: bool
  cl_ticket :: ticket
  cl_status :: status

text \<open>
  Calls are named by the identity of their task's wait cell; \<open>sy_woken\<close> holds the cells with an
  unconsumed notification. The logs record accepted, delivered, discarded and returned values.
\<close>

record 'a chan_sys =
  sy_chan :: "'a channel"
  sy_calls :: "u64 \<rightharpoonup> 'a call"
  sy_woken :: "u64 set"
  sy_accepted :: "'a list"
  sy_delivered :: "'a list"
  sy_discarded :: "'a list"
  sy_panicked :: bool

definition call_attempt :: "u64 \<Rightarrow> 'a call \<Rightarrow> 'a channel \<Rightarrow> ('a outcome \<times> u64 list \<times> ticket \<times> 'a channel) result_p" where
  "call_attempt w k c =
     (case cl_dir k of
        Send \<Rightarrow> (case cl_value k of
                   None \<Rightarrow> Inl (Panic ''send input'')
                 | Some v \<Rightarrow> send_attempt (cl_blocking k) (cl_entered k) w v (cl_ticket k) c)
      | Recv \<Rightarrow> recv_attempt (cl_blocking k) (cl_entered k) w (cl_ticket k) c)"

definition wake_set :: "u64 list \<Rightarrow> u64 set \<Rightarrow> u64 set" where
  "wake_set ws s = s \<union> set ws"

text \<open>
  The steps: calls start, attempt, enter their wait, park, resume on a notification, are
  interrupted by cancellation or a deadline, and drop their ticket; endpoints are cloned and
  dropped. An endpoint in use by a call is borrowed, so the last one cannot be dropped then.
\<close>

inductive chan_step :: "'a chan_sys \<Rightarrow> 'a chan_sys \<Rightarrow> bool" where
  start_send:
    "sy_calls s w = None \<Longrightarrow> ch_senders (sy_chan s) > 0 \<Longrightarrow>
     chan_step s (s\<lparr>sy_calls := (sy_calls s)(w \<mapsto> \<lparr>cl_dir = Send, cl_value = Some v, cl_blocking = b,
       cl_entered = False, cl_ticket = ticket_new, cl_status = Running\<rparr>)\<rparr>)"
| start_recv:
    "sy_calls s w = None \<Longrightarrow> ch_receivers (sy_chan s) > 0 \<Longrightarrow>
     chan_step s (s\<lparr>sy_calls := (sy_calls s)(w \<mapsto> \<lparr>cl_dir = Recv, cl_value = None, cl_blocking = b,
       cl_entered = False, cl_ticket = ticket_new, cl_status = Running\<rparr>)\<rparr>)"
| attempt_done:
    "sy_calls s w = Some k \<Longrightarrow> cl_status k = Running \<Longrightarrow>
     call_attempt w k (sy_chan s) = Inr (Done r, ws, t, c) \<Longrightarrow>
     chan_step s (s\<lparr>sy_chan := c, sy_calls := (sy_calls s)(w := None), sy_woken := wake_set ws (sy_woken s),
       sy_accepted := sy_accepted s @ (case cl_dir k of Send \<Rightarrow> (case cl_value k of None \<Rightarrow> [] | Some v \<Rightarrow> [v]) | Recv \<Rightarrow> []),
       sy_delivered := sy_delivered s @ (case r of None \<Rightarrow> [] | Some v \<Rightarrow> [v])\<rparr>)"
| attempt_fail:
    "sy_calls s w = Some k \<Longrightarrow> cl_status k = Running \<Longrightarrow>
     call_attempt w k (sy_chan s) = Inr (Fail e, ws, t, c) \<Longrightarrow>
     chan_step s (s\<lparr>sy_chan := c, sy_calls := (sy_calls s)(w \<mapsto> k\<lparr>cl_ticket := t, cl_status := Dropping e\<rparr>),
       sy_woken := wake_set ws (sy_woken s)\<rparr>)"
| attempt_enter:
    "sy_calls s w = Some k \<Longrightarrow> cl_status k = Running \<Longrightarrow>
     call_attempt w k (sy_chan s) = Inr (EnterWait, ws, t, c) \<Longrightarrow> ticket_attach w t = Inr t' \<Longrightarrow>
     chan_step s (s\<lparr>sy_chan := c, sy_calls := (sy_calls s)(w \<mapsto> k\<lparr>cl_ticket := t', cl_entered := True\<rparr>),
       sy_woken := wake_set ws (sy_woken s) - {w}\<rparr>)"
| enter_fails:
    "sy_calls s w = Some k \<Longrightarrow> cl_status k = Running \<Longrightarrow>
     call_attempt w k (sy_chan s) = Inr (EnterWait, ws, t, c) \<Longrightarrow>
     chan_step s (s\<lparr>sy_chan := c, sy_calls := (sy_calls s)(w \<mapsto> k\<lparr>cl_ticket := t, cl_status := Dropping e\<rparr>),
       sy_woken := wake_set ws (sy_woken s)\<rparr>)"
| attempt_park:
    "sy_calls s w = Some k \<Longrightarrow> cl_status k = Running \<Longrightarrow>
     call_attempt w k (sy_chan s) = Inr (ParkWait, ws, t, c) \<Longrightarrow>
     chan_step s (s\<lparr>sy_chan := c, sy_calls := (sy_calls s)(w \<mapsto> k\<lparr>cl_ticket := t, cl_status := Parked\<rparr>),
       sy_woken := wake_set ws (sy_woken s)\<rparr>)"
| attempt_panic:
    "sy_calls s w = Some k \<Longrightarrow> cl_status k = Running \<Longrightarrow> isl (call_attempt w k (sy_chan s)) \<Longrightarrow>
     chan_step s (s\<lparr>sy_panicked := True\<rparr>)"
| attach_panic:
    "sy_calls s w = Some k \<Longrightarrow> cl_status k = Running \<Longrightarrow>
     call_attempt w k (sy_chan s) = Inr (EnterWait, ws, t, c) \<Longrightarrow> isl (ticket_attach w t) \<Longrightarrow>
     chan_step s (s\<lparr>sy_panicked := True\<rparr>)"
| resume:
    "sy_calls s w = Some k \<Longrightarrow> cl_status k = Parked \<Longrightarrow> w \<in> sy_woken s \<Longrightarrow>
     chan_step s (s\<lparr>sy_calls := (sy_calls s)(w \<mapsto> k\<lparr>cl_status := Running\<rparr>), sy_woken := sy_woken s - {w}\<rparr>)"
| interrupt:
    "sy_calls s w = Some k \<Longrightarrow> cl_status k = Parked \<Longrightarrow>
     chan_step s (s\<lparr>sy_calls := (sy_calls s)(w \<mapsto> k\<lparr>cl_status := Dropping e\<rparr>)\<rparr>)"
| drop_ticket:
    "sy_calls s w = Some k \<Longrightarrow> cl_status k = Dropping e \<Longrightarrow>
     ticket_drop (cl_dir k) (cl_ticket k) (sy_chan s) = Inr (ws, c) \<Longrightarrow>
     chan_step s (s\<lparr>sy_chan := c, sy_calls := (sy_calls s)(w := None), sy_woken := wake_set ws (sy_woken s)\<rparr>)"
| drop_panic:
    "sy_calls s w = Some k \<Longrightarrow> cl_status k = Dropping e \<Longrightarrow>
     isl (ticket_drop (cl_dir k) (cl_ticket k) (sy_chan s)) \<Longrightarrow> chan_step s (s\<lparr>sy_panicked := True\<rparr>)"
| close:
    "ch_close (sy_chan s) = (ws, c) \<Longrightarrow> chan_step s (s\<lparr>sy_chan := c, sy_woken := wake_set ws (sy_woken s)\<rparr>)"
| clone_sender: "sender_clone (sy_chan s) = Inr c \<Longrightarrow> ch_senders (sy_chan s) > 0 \<Longrightarrow> chan_step s (s\<lparr>sy_chan := c\<rparr>)"
| clone_receiver: "receiver_clone (sy_chan s) = Inr c \<Longrightarrow> ch_receivers (sy_chan s) > 0 \<Longrightarrow> chan_step s (s\<lparr>sy_chan := c\<rparr>)"
| drop_sender:
    "(ch_senders (sy_chan s) = 1 \<Longrightarrow> \<forall>w k. sy_calls s w = Some k \<longrightarrow> cl_dir k \<noteq> Send) \<Longrightarrow>
     sender_drop (sy_chan s) = Inr (ws, c) \<Longrightarrow>
     chan_step s (s\<lparr>sy_chan := c, sy_woken := wake_set ws (sy_woken s)\<rparr>)"
| drop_receiver:
    "(ch_receivers (sy_chan s) = 1 \<Longrightarrow> \<forall>w k. sy_calls s w = Some k \<longrightarrow> cl_dir k \<noteq> Recv) \<Longrightarrow>
     receiver_drop (sy_chan s) = Inr (ws, vs, c) \<Longrightarrow>
     chan_step s (s\<lparr>sy_chan := c, sy_woken := wake_set ws (sy_woken s), sy_discarded := sy_discarded s @ vs\<rparr>)"

definition chan_initial :: "'a channel \<Rightarrow> 'a chan_sys" where
  "chan_initial c = \<lparr>sy_chan = c, sy_calls = Map.empty, sy_woken = {}, sy_accepted = [], sy_delivered = [],
     sy_discarded = [], sy_panicked = False\<rparr>"

inductive chan_reach :: "nat \<Rightarrow> nat \<Rightarrow> 'a chan_sys \<Rightarrow> bool" for capacity wait_capacity where
  start: "bounded_with_wait_capacity capacity wait_capacity = Inr c \<Longrightarrow> chan_reach capacity wait_capacity (chan_initial c)"
| step: "chan_reach capacity wait_capacity s \<Longrightarrow> chan_step s t \<Longrightarrow> chan_reach capacity wait_capacity t"

section \<open>Attempts in one formula\<close>

fun ready :: "direction \<Rightarrow> 'a channel \<Rightarrow> bool" where
  "ready Send c \<longleftrightarrow> length (ch_values c) < ch_capacity c"
| "ready Recv c \<longleftrightarrow> ch_values c \<noteq> []"

fun refused :: "direction \<Rightarrow> 'a channel \<Rightarrow> bool" where
  "refused Send c \<longleftrightarrow> ch_closed c \<or> ch_receivers c = 0"
| "refused Recv c \<longleftrightarrow> ch_values c = [] \<and> (ch_closed c \<or> ch_senders c = 0)"

definition at_turn :: "direction \<Rightarrow> u64 \<Rightarrow> 'a channel \<Rightarrow> bool" where
  "at_turn dir w c \<longleftrightarrow> ch_queue dir c = [] \<or> hd (ch_queue dir c) = w"

definition transfer :: "'a call \<Rightarrow> 'a channel \<Rightarrow> 'a channel" where
  "transfer k c = (case cl_dir k of Send \<Rightarrow> c\<lparr>ch_values := ch_values c @ [the (cl_value k)]\<rparr> | Recv \<Rightarrow> c\<lparr>ch_values := tl (ch_values c)\<rparr>)"

text \<open>The ticket of a call and its queue agree.\<close>

definition ticket_ok :: "u64 \<Rightarrow> 'a call \<Rightarrow> 'a channel \<Rightarrow> bool" where
  "ticket_ok w k c \<longleftrightarrow>
     tk_wait (cl_ticket k) = (if cl_entered k then Some w else None)
     \<and> (tk_queued (cl_ticket k) \<longleftrightarrow> w \<in> set (ch_queue (cl_dir k) c)) \<and> (tk_queued (cl_ticket k) \<longrightarrow> cl_entered k)
     \<and> (cl_dir k = Send \<longrightarrow> cl_value k \<noteq> None)"

lemma ch_set_queue_simps [simp]:
  "ch_values (ch_set_queue d q c) = ch_values c" "ch_capacity (ch_set_queue d q c) = ch_capacity c"
  "ch_wait_capacity (ch_set_queue d q c) = ch_wait_capacity c" "ch_closed (ch_set_queue d q c) = ch_closed c"
  "ch_senders (ch_set_queue d q c) = ch_senders c" "ch_receivers (ch_set_queue d q c) = ch_receivers c"
  "ch_queue d' (ch_set_queue d q c) = (if d' = d then q else ch_queue d' c)"
  by (cases d; cases d'; simp)+

lemma ch_queue_updates [simp]:
  "ch_queue d (c\<lparr>ch_values := vs\<rparr>) = ch_queue d c" "ch_queue d (c\<lparr>ch_closed := b\<rparr>) = ch_queue d c"
  "ch_queue d (c\<lparr>ch_senders := n\<rparr>) = ch_queue d c" "ch_queue d (c\<lparr>ch_receivers := n\<rparr>) = ch_queue d c"
  by (cases d; simp)+

lemma ch_set_queue_same: "ch_set_queue d (ch_queue d c) c = c"
  by (cases d) simp_all

lemma take_turn_ok:
  assumes "ticket_ok w k c"
  shows "\<exists>t. take_turn (cl_dir k) (cl_ticket k) c =
    Inr (if at_turn (cl_dir k) w c then (True, t, ch_set_queue (cl_dir k) (tl (ch_queue (cl_dir k) c)) c)
         else (False, cl_ticket k, c))"
proof (cases "ch_queue (cl_dir k) c")
  case Nil
  then show ?thesis using assms ch_set_queue_same[of "cl_dir k" c]
    by (auto simp: take_turn_def ticket_ok_def at_turn_def)
next
  case (Cons f rest)
  then show ?thesis using assms
    by (auto simp: take_turn_def ticket_ok_def at_turn_def wait_identity_def)
qed

definition attempt_miss :: "u64 \<Rightarrow> 'a call \<Rightarrow> 'a channel \<Rightarrow> 'a outcome \<times> u64 list \<times> ticket \<times> 'a channel" where
  "attempt_miss w k c =
     (if \<not> cl_blocking k then (Fail WouldBlock, [], cl_ticket k, c)
      else if \<not> cl_entered k then (EnterWait, [], cl_ticket k, c)
      else if tk_queued (cl_ticket k) then (ParkWait, [], cl_ticket k, c)
      else if length (ch_queue (cl_dir k) c) = ch_wait_capacity c
      then (Fail (Capacity Waiters (ch_wait_capacity c)), [], cl_ticket k, c)
      else (ParkWait, [], (cl_ticket k)\<lparr>tk_queued := True\<rparr>, ch_set_queue (cl_dir k) (ch_queue (cl_dir k) c @ [w]) c))"

lemma miss_ok: "ticket_ok w k c \<Longrightarrow> miss (cl_dir k) (cl_blocking k) (cl_entered k) w (cl_ticket k) c = Inr (attempt_miss w k c)"
  by (auto simp: miss_def attempt_miss_def ticket_enqueue_def ticket_ok_def wait_identity_def)

text \<open>
  Under the agreement a locked attempt never panics; it is refused, transfers a value when it is
  its turn, or misses.
\<close>

lemma call_attempt_ok:
  assumes "ticket_ok w k c"
  shows "\<exists>t. call_attempt w k c = Inr (
     if refused (cl_dir k) c then (Fail Closed, [], cl_ticket k, c)
     else if ready (cl_dir k) c \<and> at_turn (cl_dir k) w c then
       (let c' = transfer k (ch_set_queue (cl_dir k) (tl (ch_queue (cl_dir k) c)) c) in
        (Done (case cl_dir k of Send \<Rightarrow> None | Recv \<Rightarrow> Some (hd (ch_values c))), wake_fronts c', t, c'))
     else attempt_miss w k c)"
proof -
  from take_turn_ok[OF assms] obtain t where t: "take_turn (cl_dir k) (cl_ticket k) c =
    Inr (if at_turn (cl_dir k) w c then (True, t, ch_set_queue (cl_dir k) (tl (ch_queue (cl_dir k) c)) c)
         else (False, cl_ticket k, c))" by blast
  note m = miss_ok[OF assms]
  show ?thesis
  proof (cases "cl_dir k")
    case Send
    with assms obtain v where "cl_value k = Some v" by (auto simp: ticket_ok_def)
    with Send t m show ?thesis
      by (intro exI[of _ t]) (simp add: call_attempt_def send_attempt_def transfer_def Let_def)
  next
    case Recv
    with t m show ?thesis
      by (intro exI[of _ t]) (cases "ch_values c"; simp add: call_attempt_def recv_attempt_def recv_empty_def transfer_def Let_def)
  qed
qed

section \<open>Invariant\<close>

definition calls_ok :: "'a channel \<Rightarrow> (u64 \<rightharpoonup> 'a call) \<Rightarrow> bool" where
  "calls_ok c calls \<longleftrightarrow>
     (\<forall>w k. calls w = Some k \<longrightarrow> ticket_ok w k c \<and> (cl_status k = Parked \<longrightarrow> tk_queued (cl_ticket k)))
     \<and> (\<forall>d. \<forall>w \<in> set (ch_queue d c). \<exists>k. calls w = Some k \<and> cl_dir k = d)"

definition bounds_ok :: "nat \<Rightarrow> nat \<Rightarrow> 'a channel \<Rightarrow> bool" where
  "bounds_ok cap wcap c \<longleftrightarrow> ch_capacity c = cap \<and> ch_wait_capacity c = wcap \<and> length (ch_values c) \<le> cap
     \<and> (\<forall>d. length (ch_queue d c) \<le> wcap \<and> distinct (ch_queue d c))"

definition logs_ok :: "'a chan_sys \<Rightarrow> bool" where
  "logs_ok s \<longleftrightarrow> sy_accepted s = sy_delivered s @ sy_discarded s @ ch_values (sy_chan s)
     \<and> (if ch_receivers (sy_chan s) = 0
        then ch_values (sy_chan s) = [] \<and> (\<forall>w k. sy_calls s w = Some k \<longrightarrow> cl_dir k \<noteq> Recv)
        else sy_discarded s = [])"

definition enabled :: "direction \<Rightarrow> 'a channel \<Rightarrow> bool" where
  "enabled d c \<longleftrightarrow> ready d c \<or> refused d c"

text \<open>The oldest waiter of a direction does not sleep unnoticed while it could proceed.\<close>

definition wake_ok :: "'a chan_sys \<Rightarrow> bool" where
  "wake_ok s \<longleftrightarrow> (\<forall>d w ws. ch_queue d (sy_chan s) = w # ws \<longrightarrow> enabled d (sy_chan s) \<longrightarrow>
     w \<in> sy_woken s \<or> (\<forall>k. sy_calls s w = Some k \<longrightarrow> cl_status k \<noteq> Parked))"

definition chan_inv :: "nat \<Rightarrow> nat \<Rightarrow> 'a chan_sys \<Rightarrow> bool" where
  "chan_inv cap wcap s \<longleftrightarrow> \<not> sy_panicked s \<and> calls_ok (sy_chan s) (sy_calls s) \<and> bounds_ok cap wcap (sy_chan s)
     \<and> logs_ok s \<and> wake_ok s"

lemma chan_invI:
  assumes "\<not> sy_panicked s" "calls_ok (sy_chan s) (sy_calls s)" "bounds_ok cap wcap (sy_chan s)" "logs_ok s" "wake_ok s"
  shows "chan_inv cap wcap s"
  using assms by (simp add: chan_inv_def)

lemma fronts_woken: "set (wake_fronts (sy_chan s)) \<subseteq> sy_woken s \<Longrightarrow> wake_ok s"
  unfolding wake_ok_def
proof (intro allI impI)
  fix d w ws
  assume a: "set (wake_fronts (sy_chan s)) \<subseteq> sy_woken s" and q: "ch_queue d (sy_chan s) = w # ws"
  from q have "w \<in> set (wake_fronts (sy_chan s))" by (cases d) (auto simp: wake_fronts_def)
  with a show "w \<in> sy_woken s \<or> (\<forall>k. sy_calls s w = Some k \<longrightarrow> cl_status k \<noteq> Parked)" by blast
qed

lemma wake_all_fronts: "set (wake_fronts c) \<subseteq> set (wake_all c)"
  by (auto simp: wake_fronts_def wake_all_def dest: in_set_takeD)

text \<open>Replacing one call, with a queue change that concerns that call only.\<close>

lemma ticket_ok_cong:
  "(v \<in> set (ch_queue (cl_dir k) c') \<longleftrightarrow> v \<in> set (ch_queue (cl_dir k) c)) \<Longrightarrow> ticket_ok v k c' = ticket_ok v k c"
  by (simp add: ticket_ok_def)

lemma calls_okI:
  assumes "\<And>w k. calls w = Some k \<Longrightarrow> ticket_ok w k c \<and> (cl_status k = Parked \<longrightarrow> tk_queued (cl_ticket k))"
    and "\<And>d w. w \<in> set (ch_queue d c) \<Longrightarrow> \<exists>k. calls w = Some k \<and> cl_dir k = d"
  shows "calls_ok c calls"
  using assms unfolding calls_ok_def by blast

lemma calls_okD:
  assumes "calls_ok c calls"
  shows "calls w = Some k \<Longrightarrow> ticket_ok w k c" "calls w = Some k \<Longrightarrow> cl_status k = Parked \<Longrightarrow> tk_queued (cl_ticket k)"
    "w \<in> set (ch_queue d c) \<Longrightarrow> \<exists>k. calls w = Some k \<and> cl_dir k = d"
  using assms unfolding calls_ok_def by blast+

lemma calls_ok_update:
  assumes "calls_ok c calls" "ticket_ok w k c'" "cl_status k = Parked \<longrightarrow> tk_queued (cl_ticket k)"
    and same: "\<And>d v. v \<noteq> w \<Longrightarrow> v \<in> set (ch_queue d c') \<longleftrightarrow> v \<in> set (ch_queue d c)"
    and dir: "\<And>d. w \<in> set (ch_queue d c') \<Longrightarrow> cl_dir k = d"
  shows "calls_ok c' (calls(w \<mapsto> k))"
proof (rule calls_okI)
  fix v j assume j: "(calls(w \<mapsto> k)) v = Some j"
  show "ticket_ok v j c' \<and> (cl_status j = Parked \<longrightarrow> tk_queued (cl_ticket j))"
  proof (cases "v = w")
    case False
    with j calls_okD(1,2)[OF assms(1), of v j] ticket_ok_cong[OF same[OF False, of "cl_dir j"]] show ?thesis by simp
  qed (use j assms(2,3) in simp)
next
  fix d v assume v: "v \<in> set (ch_queue d c')"
  show "\<exists>j. (calls(w \<mapsto> k)) v = Some j \<and> cl_dir j = d"
  proof (cases "v = w")
    case False
    with v calls_okD(3)[OF assms(1), of v d] same[OF False] show ?thesis by simp
  qed (use v dir in auto)
qed

lemma calls_ok_delete:
  assumes "calls_ok c calls" and gone: "\<And>d. w \<notin> set (ch_queue d c')"
    and same: "\<And>d v. v \<noteq> w \<Longrightarrow> v \<in> set (ch_queue d c') \<longleftrightarrow> v \<in> set (ch_queue d c)"
  shows "calls_ok c' (calls(w := None))"
proof (rule calls_okI)
  fix v j assume j: "(calls(w := None)) v = Some j"
  then have "v \<noteq> w" by auto
  with j calls_okD(1,2)[OF assms(1), of v j] ticket_ok_cong[OF same[of v "cl_dir j"]]
  show "ticket_ok v j c' \<and> (cl_status j = Parked \<longrightarrow> tk_queued (cl_ticket j))" by simp
next
  fix d v assume v: "v \<in> set (ch_queue d c')"
  with gone have n: "v \<noteq> w" by blast
  with v calls_okD(3)[OF assms(1), of v d] same[OF n] show "\<exists>j. (calls(w := None)) v = Some j \<and> cl_dir j = d" by simp
qed

lemma calls_ok_queue_dir:
  assumes "calls_ok c calls" "calls w = Some k" "w \<in> set (ch_queue d c)"
  shows "d = cl_dir k \<and> tk_queued (cl_ticket k)"
  using calls_okD(3)[OF assms(1,3)] calls_okD(1)[OF assms(1,2)] assms(2,3) by (auto simp: ticket_ok_def)

lemma calls_ok_same_queues:
  assumes "calls_ok c calls" "\<And>d. ch_queue d c' = ch_queue d c"
  shows "calls_ok c' calls"
  using calls_okD[OF assms(1)] ticket_ok_cong[of _ _ c' c] by (intro calls_okI) (simp_all add: assms(2))

lemma transfer_simps [simp]:
  "ch_queue d (transfer k c) = ch_queue d c" "ch_capacity (transfer k c) = ch_capacity c"
  "ch_wait_capacity (transfer k c) = ch_wait_capacity c" "ch_receivers (transfer k c) = ch_receivers c"
  "ch_senders (transfer k c) = ch_senders c" "ch_closed (transfer k c) = ch_closed c"
  by (cases "cl_dir k"; simp add: transfer_def)+

lemma attempt_done_inv:
  assumes inv: "chan_inv cap wcap s" and k: "sy_calls s w = Some k"
    and att: "call_attempt w k (sy_chan s) = Inr (Done r, ws, t, c)"
  shows "chan_inv cap wcap (s\<lparr>sy_chan := c, sy_calls := (sy_calls s)(w := None), sy_woken := wake_set ws (sy_woken s),
       sy_accepted := sy_accepted s @ (case cl_dir k of Send \<Rightarrow> (case cl_value k of None \<Rightarrow> [] | Some v \<Rightarrow> [v]) | Recv \<Rightarrow> []),
       sy_delivered := sy_delivered s @ (case r of None \<Rightarrow> [] | Some v \<Rightarrow> [v])\<rparr>)"
proof -
  let ?c = "sy_chan s" and ?d = "cl_dir k"
  have cok: "calls_ok ?c (sy_calls s)" and b: "bounds_ok cap wcap ?c" and l: "logs_ok s" and tok: "ticket_ok w k ?c"
    using inv k by (auto simp: chan_inv_def calls_ok_def)
  have nm: "attempt_miss w k ?c \<noteq> (Done r, ws, t, c)" by (simp add: attempt_miss_def)
  from call_attempt_ok[OF tok] att nm have nr: "\<not> refused ?d ?c" and rd: "ready ?d ?c" and turn: "at_turn ?d w ?c"
    and c: "c = transfer k (ch_set_queue ?d (tl (ch_queue ?d ?c)) ?c)" and ws: "ws = wake_fronts c"
    and r: "r = (case ?d of Send \<Rightarrow> None | Recv \<Rightarrow> Some (hd (ch_values ?c)))"
    by (auto simp: Let_def split: if_splits)
  have dq: "distinct (ch_queue ?d ?c)" using b by (simp add: bounds_ok_def)
  have mem: "v \<in> set (ch_queue d c) \<longleftrightarrow> v \<in> set (ch_queue d ?c) \<and> (v \<noteq> w)" for d v
  proof (cases "d = ?d")
    case True
    then show ?thesis using turn dq tok by (cases "ch_queue ?d ?c") (auto simp: c at_turn_def)
  next
    case False
    with calls_ok_queue_dir[OF cok k, of d] show ?thesis by (auto simp: c)
  qed
  have "calls_ok c ((sy_calls s)(w := None))"
    by (rule calls_ok_delete[OF cok]) (simp_all add: mem)
  moreover have "bounds_ok cap wcap c"
  proof -
    have "length (ch_values c) \<le> cap" using b rd by (cases ?d) (auto simp: bounds_ok_def c transfer_def)
    with b show ?thesis
      by (auto simp: bounds_ok_def c distinct_tl le_diff_conv intro: le_SucI)
  qed
  moreover have "logs_ok (s\<lparr>sy_chan := c, sy_calls := (sy_calls s)(w := None), sy_woken := wake_set ws (sy_woken s),
       sy_accepted := sy_accepted s @ (case cl_dir k of Send \<Rightarrow> (case cl_value k of None \<Rightarrow> [] | Some v \<Rightarrow> [v]) | Recv \<Rightarrow> []),
       sy_delivered := sy_delivered s @ (case r of None \<Rightarrow> [] | Some v \<Rightarrow> [v])\<rparr>)"
  proof (cases ?d)
    case Send
    with tok obtain v where "cl_value k = Some v" by (auto simp: ticket_ok_def)
    with Send l nr r show ?thesis by (simp add: logs_ok_def c transfer_def)
  next
    case Recv
    then have "ch_receivers ?c \<noteq> 0" using l k by (auto simp: logs_ok_def split: if_splits)
    with Recv l rd r show ?thesis by (simp add: logs_ok_def c transfer_def)
  qed
  ultimately show ?thesis
    using inv by (intro chan_invI fronts_woken) (auto simp: chan_inv_def wake_set_def ws)
qed

text \<open>A miss, a refusal or a change of status keeps the values.\<close>

lemma call_update_inv:
  assumes inv: "chan_inv cap wcap s" and k: "sy_calls s w = Some k" and dir: "cl_dir k' = cl_dir k"
    and cok: "calls_ok c ((sy_calls s)(w \<mapsto> k'))" and b: "bounds_ok cap wcap c"
    and vals: "ch_values c = ch_values (sy_chan s)" "ch_receivers c = ch_receivers (sy_chan s)"
    and wk: "wake_ok (s\<lparr>sy_chan := c, sy_calls := (sy_calls s)(w \<mapsto> k'), sy_woken := wk\<rparr>)"
  shows "chan_inv cap wcap (s\<lparr>sy_chan := c, sy_calls := (sy_calls s)(w \<mapsto> k'), sy_woken := wk\<rparr>)"
proof -
  have "logs_ok (s\<lparr>sy_chan := c, sy_calls := (sy_calls s)(w \<mapsto> k'), sy_woken := wk\<rparr>)"
    using inv k dir vals by (auto simp: chan_inv_def logs_ok_def split: if_splits)
  with inv cok b wk show ?thesis by (intro chan_invI) (auto simp: chan_inv_def)
qed

lemma wake_ok_update:
  assumes "wake_ok s" "\<And>d. ch_queue d c = ch_queue d (sy_chan s)" "\<And>d. enabled d c = enabled d (sy_chan s)"
    and "sy_woken s - {w} \<subseteq> wk" "cl_status k' \<noteq> Parked"
  shows "wake_ok (s\<lparr>sy_chan := c, sy_calls := (sy_calls s)(w \<mapsto> k'), sy_woken := wk\<rparr>)"
  unfolding wake_ok_def
proof (intro allI impI)
  let ?s = "s\<lparr>sy_chan := c, sy_calls := (sy_calls s)(w \<mapsto> k'), sy_woken := wk\<rparr>"
  fix d v vs
  assume "ch_queue d (sy_chan ?s) = v # vs" "enabled d (sy_chan ?s)"
  with assms(1-3) have "v \<in> sy_woken s \<or> (\<forall>k. sy_calls s v = Some k \<longrightarrow> cl_status k \<noteq> Parked)"
    unfolding wake_ok_def by (simp; metis)
  with assms(4,5) show "v \<in> sy_woken ?s \<or> (\<forall>k. sy_calls ?s v = Some k \<longrightarrow> cl_status k \<noteq> Parked)"
    by (cases "v = w") auto
qed

lemma attempt_keep:
  assumes tok: "ticket_ok w k c0" and att: "call_attempt w k c0 = Inr (out, ws, t, c)"
    and out: "out = EnterWait \<or> (\<exists>e. out = Fail e)"
  shows "c = c0 \<and> t = cl_ticket k \<and> ws = [] \<and> (out = EnterWait \<longrightarrow> \<not> cl_entered k)"
  using call_attempt_ok[OF tok] att out by (auto simp: attempt_miss_def Let_def split: if_splits)

lemma status_inv:
  assumes inv: "chan_inv cap wcap s" and k: "sy_calls s w = Some k"
    and k': "cl_dir k' = cl_dir k" "cl_ticket k' = cl_ticket k" "cl_entered k' = cl_entered k" "cl_value k' = cl_value k"
      "cl_status k' \<noteq> Parked" and wk: "sy_woken s - {w} \<subseteq> wk"
  shows "chan_inv cap wcap (s\<lparr>sy_calls := (sy_calls s)(w \<mapsto> k'), sy_woken := wk\<rparr>)"
proof -
  have tok: "ticket_ok w k (sy_chan s)" and cok: "calls_ok (sy_chan s) (sy_calls s)"
    using inv k by (auto simp: chan_inv_def calls_ok_def)
  have "calls_ok (sy_chan s) ((sy_calls s)(w \<mapsto> k'))"
  proof (rule calls_ok_update[OF cok])
    show "ticket_ok w k' (sy_chan s)" using tok k' by (simp add: ticket_ok_def)
    show "cl_status k' = Parked \<longrightarrow> tk_queued (cl_ticket k')" using k'(5) by simp
    show "cl_dir k' = d" if "w \<in> set (ch_queue d (sy_chan s))" for d using calls_ok_queue_dir[OF cok k that] k'(1) by simp
  qed simp
  moreover have "wake_ok (s\<lparr>sy_chan := sy_chan s, sy_calls := (sy_calls s)(w \<mapsto> k'), sy_woken := wk\<rparr>)"
    using inv k'(5) wk by (intro wake_ok_update) (auto simp: chan_inv_def)
  ultimately have "chan_inv cap wcap (s\<lparr>sy_chan := sy_chan s, sy_calls := (sy_calls s)(w \<mapsto> k'), sy_woken := wk\<rparr>)"
    using inv k'(1) by (intro call_update_inv[OF inv k]) (auto simp: chan_inv_def)
  then show ?thesis by simp
qed

lemma attempt_fail_inv:
  assumes inv: "chan_inv cap wcap s" and k: "sy_calls s w = Some k"
    and att: "call_attempt w k (sy_chan s) = Inr (out, ws, t, c)" and out: "out = EnterWait \<or> (\<exists>e. out = Fail e)"
  shows "chan_inv cap wcap (s\<lparr>sy_chan := c, sy_calls := (sy_calls s)(w \<mapsto> k\<lparr>cl_ticket := t, cl_status := Dropping e\<rparr>),
       sy_woken := wake_set ws (sy_woken s)\<rparr>)"
proof -
  have "ticket_ok w k (sy_chan s)" using inv k by (auto simp: chan_inv_def calls_ok_def)
  from attempt_keep[OF this att out] have "c = sy_chan s" "t = cl_ticket k" "ws = []" by auto
  then show ?thesis
    using status_inv[OF inv k, of "k\<lparr>cl_status := Dropping e\<rparr>" "sy_woken s"] by (simp add: wake_set_def)
qed

lemma attempt_enter_inv:
  assumes inv: "chan_inv cap wcap s" and k: "sy_calls s w = Some k" "cl_status k = Running"
    and att: "call_attempt w k (sy_chan s) = Inr (EnterWait, ws, t, c)"
  shows "\<exists>t'. ticket_attach w t = Inr t' \<and>
    chan_inv cap wcap (s\<lparr>sy_chan := c, sy_calls := (sy_calls s)(w \<mapsto> k\<lparr>cl_ticket := t', cl_entered := True\<rparr>),
       sy_woken := wake_set ws (sy_woken s) - {w}\<rparr>)"
proof -
  have tok: "ticket_ok w k (sy_chan s)" and cok: "calls_ok (sy_chan s) (sy_calls s)"
    using inv k by (auto simp: chan_inv_def calls_ok_def)
  from attempt_keep[OF tok att] have e: "c = sy_chan s" "t = cl_ticket k" "ws = []" "\<not> cl_entered k" by auto
  with tok have ta: "ticket_attach w t = Inr ((cl_ticket k)\<lparr>tk_wait := Some w\<rparr>)"
    by (simp add: ticket_attach_def ticket_ok_def)
  let ?k = "k\<lparr>cl_ticket := (cl_ticket k)\<lparr>tk_wait := Some w\<rparr>, cl_entered := True\<rparr>"
  have "calls_ok (sy_chan s) ((sy_calls s)(w \<mapsto> ?k))"
  proof (rule calls_ok_update[OF cok])
    show "ticket_ok w ?k (sy_chan s)" using tok by (simp add: ticket_ok_def)
    show "cl_status ?k = Parked \<longrightarrow> tk_queued (cl_ticket ?k)" using k(2) by simp
    show "cl_dir ?k = d" if "w \<in> set (ch_queue d (sy_chan s))" for d using calls_ok_queue_dir[OF cok k(1) that] by simp
  qed simp
  moreover have "wake_ok (s\<lparr>sy_chan := sy_chan s, sy_calls := (sy_calls s)(w \<mapsto> ?k), sy_woken := sy_woken s - {w}\<rparr>)"
    using inv k by (intro wake_ok_update) (auto simp: chan_inv_def)
  ultimately have "chan_inv cap wcap (s\<lparr>sy_chan := sy_chan s, sy_calls := (sy_calls s)(w \<mapsto> ?k), sy_woken := sy_woken s - {w}\<rparr>)"
    using inv by (intro call_update_inv[OF inv k(1)]) (auto simp: chan_inv_def)
  with ta e show ?thesis by (simp add: wake_set_def)
qed

lemma attempt_park_inv:
  assumes inv: "chan_inv cap wcap s" and k: "sy_calls s w = Some k"
    and att: "call_attempt w k (sy_chan s) = Inr (ParkWait, ws, t, c)"
  shows "chan_inv cap wcap (s\<lparr>sy_chan := c, sy_calls := (sy_calls s)(w \<mapsto> k\<lparr>cl_ticket := t, cl_status := Parked\<rparr>),
       sy_woken := wake_set ws (sy_woken s)\<rparr>)"
proof -
  let ?c = "sy_chan s" and ?d = "cl_dir k"
  have tok: "ticket_ok w k ?c" and cok: "calls_ok ?c (sy_calls s)" and b: "bounds_ok cap wcap ?c" and wk: "wake_ok s"
    using inv k by (auto simp: chan_inv_def calls_ok_def)
  from call_attempt_ok[OF tok] att have nr: "\<not> refused ?d ?c" and nt: "\<not> (ready ?d ?c \<and> at_turn ?d w ?c)"
    and m: "attempt_miss w k ?c = (ParkWait, ws, t, c)"
    by (auto simp: Let_def split: if_splits)
  have ent: "cl_entered k" and ws: "ws = []" using m by (auto simp: attempt_miss_def split: if_splits)
  have tq: "tk_queued t" "tk_wait t = Some w"
    using m tok by (auto simp: attempt_miss_def ticket_ok_def split: if_splits)
  define q where "q = (if tk_queued (cl_ticket k) then ch_queue ?d ?c else ch_queue ?d ?c @ [w])"
  have c: "c = ch_set_queue ?d q ?c"
    using m ch_set_queue_same[of ?d ?c] by (auto simp: attempt_miss_def q_def split: if_splits)
  have wq: "w \<in> set q" and oq: "v \<noteq> w \<Longrightarrow> v \<in> set q \<longleftrightarrow> v \<in> set (ch_queue ?d ?c)" for v
    using tok by (auto simp: q_def ticket_ok_def)
  have other: "d \<noteq> ?d \<Longrightarrow> w \<notin> set (ch_queue d ?c)" for d using calls_ok_queue_dir[OF cok k, of d] by auto
  have lq: "length q \<le> wcap" "distinct q"
  proof -
    have l: "length (ch_queue ?d ?c) \<le> wcap" "distinct (ch_queue ?d ?c)" "ch_wait_capacity ?c = wcap"
      using b by (auto simp: bounds_ok_def)
    have "\<not> tk_queued (cl_ticket k) \<Longrightarrow> length (ch_queue ?d ?c) \<noteq> ch_wait_capacity ?c"
      using m by (auto simp: attempt_miss_def split: if_splits)
    with l have "\<not> tk_queued (cl_ticket k) \<Longrightarrow> length (ch_queue ?d ?c) < wcap" by simp
    with l tok show "length q \<le> wcap" "distinct q" by (auto simp: q_def ticket_ok_def)
  qed
  let ?k = "k\<lparr>cl_ticket := t, cl_status := Parked\<rparr>"
  have "calls_ok c ((sy_calls s)(w \<mapsto> ?k))"
    using tok tq ent wq oq other by (intro calls_ok_update[OF cok]) (auto simp: ticket_ok_def c split: if_splits)
  moreover have "bounds_ok cap wcap c" using b lq by (auto simp: bounds_ok_def c)
  moreover have "wake_ok (s\<lparr>sy_chan := c, sy_calls := (sy_calls s)(w \<mapsto> ?k), sy_woken := sy_woken s\<rparr>)"
    unfolding wake_ok_def
  proof (intro allI impI)
    fix d v vs
    assume h: "ch_queue d (sy_chan (s\<lparr>sy_chan := c, sy_calls := (sy_calls s)(w \<mapsto> ?k), sy_woken := sy_woken s\<rparr>)) = v # vs"
      and en: "enabled d (sy_chan (s\<lparr>sy_chan := c, sy_calls := (sy_calls s)(w \<mapsto> ?k), sy_woken := sy_woken s\<rparr>))"
    have en': "enabled d ?c" using en by (cases d) (auto simp: enabled_def c)
    have nw: "v \<noteq> w"
    proof
      assume v: "v = w"
      then have d: "d = ?d" using h other[of d] by (auto simp: c split: if_splits)
      have "at_turn ?d w ?c"
      proof (cases "ch_queue ?d ?c")
        case (Cons x xs)
        then have "hd q = x" by (simp add: q_def)
        with h v d Cons show ?thesis by (simp add: at_turn_def c)
      qed (simp add: at_turn_def)
      with nt nr en' d show False by (simp add: enabled_def)
    qed
    have "\<exists>us. ch_queue d ?c = v # us"
      using h nw by (cases "d = ?d"; cases "ch_queue ?d ?c") (auto simp: c q_def split: if_splits)
    then have "v \<in> sy_woken s \<or> (\<forall>k. sy_calls s v = Some k \<longrightarrow> cl_status k \<noteq> Parked)"
      using wk en' unfolding wake_ok_def by blast
    with nw show "v \<in> sy_woken (s\<lparr>sy_chan := c, sy_calls := (sy_calls s)(w \<mapsto> ?k), sy_woken := sy_woken s\<rparr>) \<or>
       (\<forall>k'. sy_calls (s\<lparr>sy_chan := c, sy_calls := (sy_calls s)(w \<mapsto> ?k), sy_woken := sy_woken s\<rparr>) v = Some k' \<longrightarrow> cl_status k' \<noteq> Parked)"
      by simp
  qed
  ultimately have "chan_inv cap wcap (s\<lparr>sy_chan := c, sy_calls := (sy_calls s)(w \<mapsto> ?k), sy_woken := sy_woken s\<rparr>)"
    by (intro call_update_inv[OF inv k]) (simp_all add: c)
  then show ?thesis by (simp add: ws wake_set_def)
qed

lemma drop_ticket_inv:
  assumes inv: "chan_inv cap wcap s" and k: "sy_calls s w = Some k"
  shows "\<exists>ws c. ticket_drop (cl_dir k) (cl_ticket k) (sy_chan s) = Inr (ws, c) \<and>
    chan_inv cap wcap (s\<lparr>sy_chan := c, sy_calls := (sy_calls s)(w := None), sy_woken := wake_set ws (sy_woken s)\<rparr>)"
proof -
  let ?c = "sy_chan s" and ?d = "cl_dir k"
  have tok: "ticket_ok w k ?c" and cok: "calls_ok ?c (sy_calls s)" and b: "bounds_ok cap wcap ?c" and wk: "wake_ok s"
    and l: "logs_ok s" using inv k by (auto simp: chan_inv_def calls_ok_def)
  have other: "d \<noteq> ?d \<Longrightarrow> w \<notin> set (ch_queue d ?c)" for d using calls_ok_queue_dir[OF cok k, of d] by auto
  show ?thesis
  proof (cases "tk_queued (cl_ticket k)")
    case False
    then have nq: "w \<notin> set (ch_queue d ?c)" for d using tok other[of d] by (cases "d = ?d") (auto simp: ticket_ok_def)
    have "calls_ok ?c ((sy_calls s)(w := None))" by (rule calls_ok_delete[OF cok nq]) simp
    moreover have "wake_ok (s\<lparr>sy_chan := ?c, sy_calls := (sy_calls s)(w := None), sy_woken := wake_set [] (sy_woken s)\<rparr>)"
      using wk by (auto simp: wake_ok_def wake_set_def)
    moreover have "logs_ok (s\<lparr>sy_chan := ?c, sy_calls := (sy_calls s)(w := None), sy_woken := wake_set [] (sy_woken s)\<rparr>)"
      using l by (auto simp: logs_ok_def split: if_splits)
    ultimately have "chan_inv cap wcap (s\<lparr>sy_chan := ?c, sy_calls := (sy_calls s)(w := None), sy_woken := wake_set [] (sy_woken s)\<rparr>)"
      using inv b by (intro chan_invI) (auto simp: chan_inv_def)
    with False show ?thesis by (intro exI[of _ "[]"] exI[of _ ?c]) (simp add: ticket_drop_def)
  next
    case True
    then have wq: "w \<in> set (ch_queue ?d ?c)" "tk_wait (cl_ticket k) = Some w" using tok by (auto simp: ticket_ok_def)
    then obtain i where i: "position (\<lambda>x. x = w) (ch_queue ?d ?c) = Some i"
      by (cases "position (\<lambda>x. x = w) (ch_queue ?d ?c)") (auto simp: position_None_iff)
    define q where "q = remove_at i (ch_queue ?d ?c)"
    define c where "c = ch_set_queue ?d q ?c"
    have dq: "distinct (ch_queue ?d ?c)" and i': "i < length (ch_queue ?d ?c)" "ch_queue ?d ?c ! i = w"
      using b position_Some_D[OF i] by (auto simp: bounds_ok_def)
    have mq: "add_mset w (mset q) = mset (ch_queue ?d ?c)" using mset_remove_at[OF i'(1)] i'(2) by (simp add: q_def)
    have sq: "insert w (set q) = set (ch_queue ?d ?c)" using arg_cong[OF mq, of set_mset] by simp
    have d': "distinct q" "w \<notin> set q"
      using dq mq by (metis distinct_count_atmost_1 mset_eq_imp_distinct_iff distinct.simps(2) mset.simps(2))+
    have drop: "ticket_drop ?d (cl_ticket k) ?c = Inr (wake_fronts c, c)"
      using True wq(2) i by (simp add: ticket_drop_def ticket_remove_def wait_identity_def c_def q_def)
    have "calls_ok c ((sy_calls s)(w := None))"
    proof (rule calls_ok_delete[OF cok])
      show "w \<notin> set (ch_queue d c)" for d using d' other[of d] by (simp add: c_def)
      show "v \<in> set (ch_queue d c) \<longleftrightarrow> v \<in> set (ch_queue d ?c)" if "v \<noteq> w" for d v
        using sq that by (auto simp: c_def)
    qed
    moreover have "bounds_ok cap wcap c"
      using b d' length_remove_at[OF i'(1)] by (auto simp: bounds_ok_def c_def q_def le_diff_conv intro: le_SucI)
    moreover have "logs_ok (s\<lparr>sy_chan := c, sy_calls := (sy_calls s)(w := None), sy_woken := wake_set (wake_fronts c) (sy_woken s)\<rparr>)"
      using l by (auto simp: logs_ok_def c_def split: if_splits)
    ultimately have "chan_inv cap wcap (s\<lparr>sy_chan := c, sy_calls := (sy_calls s)(w := None), sy_woken := wake_set (wake_fronts c) (sy_woken s)\<rparr>)"
      using inv by (intro chan_invI fronts_woken) (auto simp: chan_inv_def wake_set_def)
    with drop show ?thesis by blast
  qed
qed

text \<open>Closing, cloning and dropping endpoints keep the queues.\<close>

lemma endpoint_inv:
  assumes inv: "chan_inv cap wcap s" and q: "\<And>d. ch_queue d c = ch_queue d (sy_chan s)"
    and v: "ch_capacity c = ch_capacity (sy_chan s)" "ch_wait_capacity c = ch_wait_capacity (sy_chan s)"
      "length (ch_values c) \<le> length (ch_values (sy_chan s))"
    and l: "logs_ok (s\<lparr>sy_chan := c, sy_woken := wake_set ws (sy_woken s), sy_discarded := vs\<rparr>)"
    and w: "set (wake_fronts c) \<subseteq> set ws \<or> (\<forall>d. enabled d c = enabled d (sy_chan s))"
  shows "chan_inv cap wcap (s\<lparr>sy_chan := c, sy_woken := wake_set ws (sy_woken s), sy_discarded := vs\<rparr>)"
proof -
  have "wake_ok (s\<lparr>sy_chan := c, sy_woken := wake_set ws (sy_woken s), sy_discarded := vs\<rparr>)"
    using w
  proof
    assume "set (wake_fronts c) \<subseteq> set ws"
    then show ?thesis by (intro fronts_woken) (auto simp: wake_set_def)
  next
    assume "\<forall>d. enabled d c = enabled d (sy_chan s)"
    with inv show ?thesis by (auto simp: chan_inv_def wake_ok_def wake_set_def q; metis)
  qed
  moreover have "calls_ok c (sy_calls s)" using inv by (intro calls_ok_same_queues[OF _ q]) (simp add: chan_inv_def)
  moreover have "bounds_ok cap wcap c" using inv v q by (auto simp: chan_inv_def bounds_ok_def)
  ultimately show ?thesis using inv l by (intro chan_invI) (auto simp: chan_inv_def)
qed

lemma close_inv:
  assumes inv: "chan_inv cap wcap s" and c: "ch_close (sy_chan s) = (ws, c)"
  shows "chan_inv cap wcap (s\<lparr>sy_chan := c, sy_woken := wake_set ws (sy_woken s)\<rparr>)"
proof -
  have "chan_inv cap wcap (s\<lparr>sy_chan := c, sy_woken := wake_set ws (sy_woken s), sy_discarded := sy_discarded s\<rparr>)"
    using c inv by (intro endpoint_inv)
      (auto simp: ch_close_def chan_inv_def logs_ok_def Let_def wake_all_fronts dest!: subsetD[OF wake_all_fronts] split: if_splits)
  then show ?thesis by simp
qed

lemma clone_inv:
  assumes inv: "chan_inv cap wcap s"
    and c: "c = (sy_chan s)\<lparr>ch_senders := n\<rparr> \<and> (n = 0 \<longleftrightarrow> ch_senders (sy_chan s) = 0)
      \<or> c = (sy_chan s)\<lparr>ch_receivers := n\<rparr> \<and> (n = 0 \<longleftrightarrow> ch_receivers (sy_chan s) = 0)"
  shows "chan_inv cap wcap (s\<lparr>sy_chan := c\<rparr>)"
proof -
  have en: "enabled d c = enabled d (sy_chan s)" for d
    using c by (cases d) (auto simp: enabled_def)
  have "chan_inv cap wcap (s\<lparr>sy_chan := c, sy_woken := wake_set [] (sy_woken s), sy_discarded := sy_discarded s\<rparr>)"
  proof (rule endpoint_inv[OF inv])
    show "logs_ok (s\<lparr>sy_chan := c, sy_woken := wake_set [] (sy_woken s), sy_discarded := sy_discarded s\<rparr>)"
      using c inv by (auto simp: chan_inv_def logs_ok_def split: if_splits)
  qed (use c en in auto)
  then show ?thesis by (simp add: wake_set_def)
qed

lemma drop_sender_inv:
  assumes inv: "chan_inv cap wcap s" and c: "sender_drop (sy_chan s) = Inr (ws, c)"
  shows "chan_inv cap wcap (s\<lparr>sy_chan := c, sy_woken := wake_set ws (sy_woken s)\<rparr>)"
proof (cases "ch_senders (sy_chan s) - 1 = 0")
  case False
  then have "c = (sy_chan s)\<lparr>ch_senders := ch_senders (sy_chan s) - 1\<rparr>" "ws = []"
    using c by (auto simp: sender_drop_def Let_def split: if_splits)
  with clone_inv[OF inv, of c "ch_senders (sy_chan s) - 1"] False show ?thesis by (simp add: wake_set_def)
next
  case True
  then have c': "c = (sy_chan s)\<lparr>ch_senders := 0\<rparr>" "ws = wake_all c"
    using c by (auto simp: sender_drop_def Let_def split: if_splits)
  have "chan_inv cap wcap (s\<lparr>sy_chan := c, sy_woken := wake_set ws (sy_woken s), sy_discarded := sy_discarded s\<rparr>)"
  proof (rule endpoint_inv[OF inv])
    show "logs_ok (s\<lparr>sy_chan := c, sy_woken := wake_set ws (sy_woken s), sy_discarded := sy_discarded s\<rparr>)"
      using c' inv by (auto simp: chan_inv_def logs_ok_def split: if_splits)
  qed (use c' wake_all_fronts in auto)
  then show ?thesis by simp
qed

lemma drop_receiver_inv:
  assumes inv: "chan_inv cap wcap s" and c: "receiver_drop (sy_chan s) = Inr (ws, vs, c)"
    and last: "ch_receivers (sy_chan s) = 1 \<Longrightarrow> \<forall>w k. sy_calls s w = Some k \<longrightarrow> cl_dir k \<noteq> Recv"
  shows "chan_inv cap wcap (s\<lparr>sy_chan := c, sy_woken := wake_set ws (sy_woken s), sy_discarded := sy_discarded s @ vs\<rparr>)"
proof (cases "ch_receivers (sy_chan s) = 1")
  case False
  then have c': "c = (sy_chan s)\<lparr>ch_receivers := ch_receivers (sy_chan s) - 1\<rparr>" "ws = []" "vs = []" "ch_receivers (sy_chan s) > 1"
    using c by (auto simp: receiver_drop_def Let_def split: if_splits)
  with clone_inv[OF inv, of c "ch_receivers (sy_chan s) - 1"] show ?thesis by (simp add: wake_set_def)
next
  case True
  then have c': "c = (sy_chan s)\<lparr>ch_receivers := 0, ch_values := []\<rparr>" "ws = wake_all c" "vs = ch_values (sy_chan s)"
    using c by (auto simp: receiver_drop_def Let_def wake_all_def split: if_splits)
  show ?thesis
  proof (rule endpoint_inv[OF inv])
    show "logs_ok (s\<lparr>sy_chan := c, sy_woken := wake_set ws (sy_woken s), sy_discarded := sy_discarded s @ vs\<rparr>)"
      using c' inv last[OF True] True by (auto simp: chan_inv_def logs_ok_def split: if_splits)
  qed (use c' wake_all_fronts in auto)
qed

lemma start_inv:
  assumes inv: "chan_inv cap wcap s" and n: "sy_calls s w = None"
    and k: "cl_ticket k = ticket_new" "cl_status k = Running" "\<not> cl_entered k" "cl_dir k = Send \<longrightarrow> cl_value k \<noteq> None"
      "cl_dir k = Recv \<longrightarrow> ch_receivers (sy_chan s) > 0"
  shows "chan_inv cap wcap (s\<lparr>sy_calls := (sy_calls s)(w \<mapsto> k)\<rparr>)"
proof -
  have cok: "calls_ok (sy_chan s) (sy_calls s)" using inv by (simp add: chan_inv_def)
  have nq: "w \<notin> set (ch_queue d (sy_chan s))" for d using calls_okD(3)[OF cok, of w d] n by auto
  have "calls_ok (sy_chan s) ((sy_calls s)(w \<mapsto> k))"
    using k nq by (intro calls_ok_update[OF cok]) (auto simp: ticket_ok_def ticket_new_def)
  moreover have "wake_ok (s\<lparr>sy_chan := sy_chan s, sy_calls := (sy_calls s)(w \<mapsto> k), sy_woken := sy_woken s\<rparr>)"
    using inv k(2) by (intro wake_ok_update) (auto simp: chan_inv_def)
  moreover have "logs_ok (s\<lparr>sy_calls := (sy_calls s)(w \<mapsto> k)\<rparr>)"
    using inv k(5) by (auto simp: chan_inv_def logs_ok_def split: if_splits)
  ultimately show ?thesis using inv by (intro chan_invI) (auto simp: chan_inv_def)
qed

lemma attempt_no_panic: "chan_inv cap wcap s \<Longrightarrow> sy_calls s w = Some k \<Longrightarrow> \<not> isl (call_attempt w k (sy_chan s))"
  using call_attempt_ok[of w k "sy_chan s"] by (auto simp: chan_inv_def calls_ok_def)

theorem chan_step_inv: "chan_step s t \<Longrightarrow> chan_inv cap wcap s \<Longrightarrow> chan_inv cap wcap t"
proof (induction rule: chan_step.induct)
  case (attempt_enter s w k ws t c t')
  with attempt_enter_inv[of cap wcap s w k ws t c] show ?case by auto
next
  case (attach_panic s w k ws t c)
  with attempt_enter_inv[of cap wcap s w k ws t c] show ?case by auto
next
  case (attempt_panic s w k)
  with attempt_no_panic[of cap wcap s w k] show ?case by simp
next
  case (resume s w k)
  then show ?case using status_inv[of cap wcap s w k "k\<lparr>cl_status := Running\<rparr>" "sy_woken s - {w}"] by simp
next
  case (interrupt s w k e)
  then show ?case using status_inv[of cap wcap s w k "k\<lparr>cl_status := Dropping e\<rparr>" "sy_woken s"] by simp
next
  case (drop_ticket s w k e ws c)
  with drop_ticket_inv[of cap wcap s w k] show ?case by auto
next
  case (drop_panic s w k e)
  with drop_ticket_inv[of cap wcap s w k] show ?case by auto
next
  case (clone_sender s c)
  then show ?case using clone_inv[of cap wcap s c "ch_senders (sy_chan s) + 1"] by (auto simp: sender_clone_def split: if_splits)
next
  case (clone_receiver s c)
  then show ?case using clone_inv[of cap wcap s c "ch_receivers (sy_chan s) + 1"] by (auto simp: receiver_clone_def split: if_splits)
next
  case (enter_fails s w k ws t c e)
  then show ?case by (intro attempt_fail_inv) auto
next
  case (attempt_fail s w k e ws t c)
  then show ?case by (intro attempt_fail_inv) auto
qed (simp_all add: start_inv attempt_done_inv attempt_park_inv close_inv drop_sender_inv drop_receiver_inv)

lemma chan_initial_inv:
  assumes "bounded_with_wait_capacity cap wcap = Inr c"
  shows "chan_inv cap wcap (chan_initial c)"
proof -
  have c: "c = \<lparr>ch_capacity = cap, ch_wait_capacity = wcap, ch_values = [], ch_senders = 1,
                ch_receivers = 1, ch_closed = False, ch_send_waits = [], ch_recv_waits = []\<rparr>"
    using assms by (auto simp: bounded_with_wait_capacity_def split: if_splits)
  have "ch_queue d c = []" for d by (cases d) (simp_all add: c)
  then show ?thesis by (intro chan_invI) (auto simp: chan_initial_def calls_ok_def bounds_ok_def logs_ok_def wake_ok_def c)
qed

lemma chan_reach_inv: "chan_reach cap wcap s \<Longrightarrow> chan_inv cap wcap s"
  by (induction rule: chan_reach.induct) (auto intro: chan_initial_inv chan_step_inv)

section \<open>Properties\<close>

text \<open>A run on a channel of capacity one: a send is accepted, a second sender and a receiver start.\<close>

definition sample_chan :: "nat channel" where
  "sample_chan = \<lparr>ch_capacity = 1, ch_wait_capacity = 1, ch_values = [], ch_senders = 1, ch_receivers = 1,
     ch_closed = False, ch_send_waits = [], ch_recv_waits = []\<rparr>"

definition sample_send :: "nat \<Rightarrow> nat call" where
  "sample_send v = \<lparr>cl_dir = Send, cl_value = Some v, cl_blocking = True, cl_entered = False, cl_ticket = ticket_new, cl_status = Running\<rparr>"

definition sample_sent :: "nat chan_sys" where
  "sample_sent = (chan_initial (sample_chan\<lparr>ch_values := [7]\<rparr>))\<lparr>sy_accepted := [7], sy_calls := [6 \<mapsto> sample_send 8]\<rparr>"

lemma sample_sent_reach: "chan_reach 1 1 sample_sent"
proof -
  let ?s1 = "(chan_initial sample_chan)\<lparr>sy_calls := [5 \<mapsto> sample_send 7]\<rparr>"
  let ?s2 = "(chan_initial (sample_chan\<lparr>ch_values := [7]\<rparr>))\<lparr>sy_accepted := [7]\<rparr>"
  have "chan_reach 1 1 (chan_initial sample_chan)"
    by (rule chan_reach.start) (simp add: bounded_with_wait_capacity_def sample_chan_def)
  moreover have "chan_step (chan_initial sample_chan) ?s1"
    using chan_step.start_send[of "chan_initial sample_chan" 5 7 True] by (simp add: chan_initial_def sample_chan_def sample_send_def)
  ultimately have r1: "chan_reach 1 1 ?s1" by (rule chan_reach.step)
  have att: "call_attempt 5 (sample_send 7) (sample_chan) = Inr (Done None, [], ticket_new, sample_chan\<lparr>ch_values := [7]\<rparr>)"
    by (simp add: call_attempt_def send_attempt_def take_turn_def sample_send_def sample_chan_def ticket_new_def wake_fronts_def Let_def)
  have "chan_step ?s1 ?s2"
    using chan_step.attempt_done[of ?s1 5 "sample_send 7" None "[]" ticket_new "sample_chan\<lparr>ch_values := [7]\<rparr>"] att
    by (simp add: chan_initial_def sample_send_def wake_set_def)
  with r1 have r2: "chan_reach 1 1 ?s2" by (rule chan_reach.step)
  have "chan_step ?s2 sample_sent"
    using chan_step.start_send[of ?s2 6 8 True] by (simp add: chan_initial_def sample_chan_def sample_send_def sample_sent_def)
  with r2 show ?thesis by (rule chan_reach.step)
qed

text \<open>
  C3. A channel is a bounded first-in first-out queue under every interleaving of sends, receives,
  parks, interruptions, closes and endpoint clones and drops: the accepted values are, in order,
  the delivered ones, then those the last receiver discarded, then the buffered ones, so no value
  is lost, duplicated or reordered; values are discarded only when no receiver is left; and the
  buffer never exceeds its capacity.
\<close>

theorem channel_fifo:
  assumes "chan_reach cap wcap s"
  shows "sy_accepted s = sy_delivered s @ sy_discarded s @ ch_values (sy_chan s)
    \<and> (ch_receivers (sy_chan s) \<noteq> 0 \<longrightarrow> sy_discarded s = []) \<and> length (ch_values (sy_chan s)) \<le> cap"
  using chan_reach_inv[OF assms] by (auto simp: chan_inv_def logs_ok_def bounds_ok_def split: if_splits)

theorem channel_fifo_witness: "[7] = sy_delivered sample_sent @ sy_discarded sample_sent @ ch_values (sy_chan sample_sent)"
  using channel_fifo[OF sample_sent_reach] by (simp add: sample_sent_def)

text \<open>
  C25. No channel waiter sleeps through its chance: in every reachable state, when the oldest
  waiting sender or receiver could proceed (space or a value is there, or its direction is
  closed), it holds an unconsumed notification or is already running; and no assertion of the
  channel's ticket protocol has failed.
\<close>

theorem channel_no_lost_wakeup:
  assumes "chan_reach cap wcap s" and "ch_queue d (sy_chan s) = w # ws"
    and "ready d (sy_chan s) \<or> refused d (sy_chan s)"
  shows "\<not> sy_panicked s \<and> (\<exists>k. sy_calls s w = Some k \<and> cl_dir k = d \<and> (w \<in> sy_woken s \<or> cl_status k \<noteq> Parked))"
proof -
  have inv: "chan_inv cap wcap s" by (rule chan_reach_inv[OF assms(1)])
  then have cok: "calls_ok (sy_chan s) (sy_calls s)" by (simp add: chan_inv_def)
  from calls_okD(3)[OF cok, of w d] assms(2) obtain k where k: "sy_calls s w = Some k" "cl_dir k = d" by auto
  from inv assms(2,3) have "w \<in> sy_woken s \<or> (\<forall>k. sy_calls s w = Some k \<longrightarrow> cl_status k \<noteq> Parked)"
    unfolding chan_inv_def wake_ok_def enabled_def by blast
  with k inv show ?thesis by (auto simp: chan_inv_def)
qed



text \<open>The second sender queues behind the full buffer, then the buffer is drained.\<close>

definition sample_waiting :: "nat chan_sys" where
  "sample_waiting = (chan_initial (sample_chan\<lparr>ch_values := [7], ch_send_waits := [6], ch_closed := True\<rparr>))
     \<lparr>sy_accepted := [7], sy_calls := [6 \<mapsto> (sample_send 8)\<lparr>cl_entered := True, cl_status := Parked,
        cl_ticket := \<lparr>tk_wait = Some 6, tk_queued = True\<rparr>\<rparr>], sy_woken := {6}\<rparr>"

lemma sample_waiting_reach: "chan_reach 1 1 sample_waiting"
proof -
  let ?c = "sample_chan\<lparr>ch_values := [7]\<rparr>"
  let ?k = "(sample_send 8)\<lparr>cl_entered := True, cl_ticket := \<lparr>tk_wait = Some 6, tk_queued = False\<rparr>\<rparr>"
  let ?k2 = "(sample_send 8)\<lparr>cl_entered := True, cl_status := Parked, cl_ticket := \<lparr>tk_wait = Some 6, tk_queued = True\<rparr>\<rparr>"
  let ?s3 = "(chan_initial ?c)\<lparr>sy_accepted := [7], sy_calls := [6 \<mapsto> ?k]\<rparr>"
  let ?s4 = "(chan_initial (?c\<lparr>ch_send_waits := [6]\<rparr>))\<lparr>sy_accepted := [7], sy_calls := [6 \<mapsto> ?k2]\<rparr>"
  have a: "call_attempt 6 (sample_send 8) ?c = Inr (EnterWait, [], ticket_new, ?c)"
    by (simp add: call_attempt_def send_attempt_def miss_def sample_send_def sample_chan_def)
  have "chan_step sample_sent ?s3"
    using chan_step.attempt_enter[of sample_sent 6 "sample_send 8" "[]" ticket_new ?c "\<lparr>tk_wait = Some 6, tk_queued = False\<rparr>"] a
    by (simp add: sample_sent_def chan_initial_def sample_send_def ticket_attach_def ticket_new_def wake_set_def)
  with sample_sent_reach have r3: "chan_reach 1 1 ?s3" by (rule chan_reach.step)
  have "call_attempt 6 ?k ?c = Inr (ParkWait, [], \<lparr>tk_wait = Some 6, tk_queued = True\<rparr>, ?c\<lparr>ch_send_waits := [6]\<rparr>)"
    by (simp add: call_attempt_def send_attempt_def miss_def ticket_enqueue_def wait_identity_def sample_send_def sample_chan_def)
  then have "chan_step ?s3 ?s4"
    using chan_step.attempt_park[of ?s3 6 ?k "[]" "\<lparr>tk_wait = Some 6, tk_queued = True\<rparr>" "?c\<lparr>ch_send_waits := [6]\<rparr>"]
    by (simp add: chan_initial_def sample_send_def wake_set_def)
  with r3 have r4: "chan_reach 1 1 ?s4" by (rule chan_reach.step)
  have "chan_step ?s4 sample_waiting"
    using chan_step.close[of ?s4 "[6]" "?c\<lparr>ch_send_waits := [6], ch_closed := True\<rparr>"]
    by (simp add: chan_initial_def sample_chan_def sample_waiting_def ch_close_def wake_all_def wake_set_def)
  with r4 show ?thesis by (rule chan_reach.step)
qed

theorem channel_no_lost_wakeup_witness:
  "\<exists>k. sy_calls sample_waiting 6 = Some k \<and> cl_dir k = Send \<and> (6 \<in> sy_woken sample_waiting \<or> cl_status k \<noteq> Parked)"
  using channel_no_lost_wakeup[OF sample_waiting_reach, of Send 6 "[]"]
  by (simp add: sample_waiting_def chan_initial_def sample_chan_def)

end
