(* ===== verification/Resident_Wait.thy ===== *)
theory Resident_Wait
  imports Wait_Protocol
begin

text \<open>
  The task-resident wait of a blocking synchronization call. Mutexes and gates share it: the
  caller owns one wait cell, puts it in the primitive's line, parks on it (parking.rs,
  parking_wait.rs), and gets it back through a grant, a close, its inherited deadline or an
  inherited cancellation. This theory gives the cell's life inside one such call; the
  primitives add their queues.
\<close>

section \<open>Park policy\<close>

datatype park_outcome = OutcomeReady | OutcomeTimedOut | OutcomeCancelled | OutcomeClosed

text \<open>\<open>selected\<close>: the outcome of a park from the cause that ended it.\<close>

fun selected_outcome :: "wake_cause \<Rightarrow> bool \<Rightarrow> park_outcome result" where
  "selected_outcome Ready inherited_timeout = Inr OutcomeReady"
| "selected_outcome TimedOut inherited_timeout = (if inherited_timeout then Inl DeadlineExceeded else Inr OutcomeTimedOut)"
| "selected_outcome CancelledCause inherited_timeout = Inr OutcomeCancelled"
| "selected_outcome InheritedCancelled inherited_timeout = Inl Cancelled"
| "selected_outcome ClosedCause inherited_timeout = Inr OutcomeClosed"

text \<open>
  The first half of \<open>park_wait\<close>: the earlier of the explicit and the inherited deadline, and
  whether running into it is the inherited one's doing. A masked task inherits no deadline.
\<close>

definition park_policy :: "instant option \<Rightarrow> instant option \<Rightarrow> bool \<Rightarrow> instant option \<times> bool" where
  "park_policy explicit task_deadline unmasked =
     (let inherited = (if unmasked then task_deadline else None);
          timeout = (case inherited of None \<Rightarrow> False
                     | Some i \<Rightarrow> (case explicit of None \<Rightarrow> True | Some e \<Rightarrow> i \<le> e))
      in (case explicit of
            None \<Rightarrow> inherited
          | Some e \<Rightarrow> Some (case inherited of None \<Rightarrow> e | Some i \<Rightarrow> min e i), timeout))"

text \<open>Without an explicit deadline every timeout is inherited.\<close>

lemma park_policy_implicit: "park_policy None d m = (dl, t) \<Longrightarrow> t \<longleftrightarrow> dl \<noteq> None"
  by (auto simp: park_policy_def Let_def split: option.splits if_splits)

section \<open>State\<close>

text \<open>Where the owner is: not parking, binding its target, or parked on a token.\<close>

datatype 'h park_stage =
    Outside
  | BindingWait park_token "instant option" wait_word u64 task_key 'h
  | ParkedWait park_token "instant option"

text \<open>A resident wait: its cell, the owner's stage, and the claims still to be published.\<close>

record 'h resident =
  rs_cell :: "'h wait_inner"
  rs_stage :: "'h park_stage"
  rs_pubs :: "wait_word list"

abbreviation rs_word :: "('h, 'e) resident_scheme \<Rightarrow> wait_word" where
  "rs_word r \<equiv> wi_state (rs_cell r)"

abbreviation rs_res :: "('h, 'e) resident_scheme \<Rightarrow> resource_selection option" where
  "rs_res r \<equiv> ww_resource (rs_word r)"

definition rs_set :: "wait_word \<Rightarrow> ('h, 'e) resident_scheme \<Rightarrow> ('h, 'e) resident_scheme" where
  "rs_set w r = r\<lparr>rs_cell := (rs_cell r)\<lparr>wi_state := w\<rparr>\<rparr>"

section \<open>The owner\<close>

text \<open>\<open>begin_resident\<close> up to its committing write; a binding commit leaves the target to publish.\<close>

definition rs_begin :: "u64 \<Rightarrow> task_key \<Rightarrow> 'h \<Rightarrow> instant option \<Rightarrow> instant \<Rightarrow> ('h, 'e) resident_scheme \<Rightarrow>
    (wait_begin result \<times> ('h, 'e) resident_scheme) option" where
  "rs_begin task route hub dl now r =
     (case begin_body task route hub dl now (rs_cell r) (rs_word r) of
        Spin \<Rightarrow> None
      | Return x \<Rightarrow> Some (x, r)
      | Cas w x \<Rightarrow>
          Some (x, (rs_set w r)\<lparr>rs_stage :=
            (case x of
               Inr (Park tok d) \<Rightarrow> if ww_phase w = Binding then BindingWait tok d w task route hub else ParkedWait tok d
             | _ \<Rightarrow> Outside)\<rparr>))"

text \<open>Completion after the resume, with the general or the permit-consuming body.\<close>

definition rs_finish :: "bool \<Rightarrow> park_token \<Rightarrow> ('h, 'e) resident_scheme \<Rightarrow> (wake_cause result \<times> ('h, 'e) resident_scheme) option" where
  "rs_finish permit tok r =
     map_option (\<lambda>(x, c). (x, r\<lparr>rs_cell := c, rs_stage := Outside\<rparr>))
       (if permit then wc_finish_permit_ready tok (rs_cell r) else wc_finish tok (rs_cell r))"

text \<open>Rollback of a park that failed; while a publication is in flight it is deferred.\<close>

definition rs_rollback :: "park_token \<Rightarrow> ('h, 'e) resident_scheme \<Rightarrow> ('h, 'e) resident_scheme result_p" where
  "rs_rollback tok r =
     map_sum id (\<lambda>a. case a of
         Cas w RetireDeferred \<Rightarrow> rs_set w r
       | Cas w _ \<Rightarrow> (rs_set w r)\<lparr>rs_stage := Outside\<rparr>
       | Return RetireDeferred \<Rightarrow> r
       | _ \<Rightarrow> r\<lparr>rs_stage := Outside\<rparr>)
       (try_retire_body tok (rs_word r))"

section \<open>The selectors\<close>

text \<open>A grant by the primitive; \<open>None\<close> while the owner binds its target.\<close>

definition rs_offer :: "resource_selection \<Rightarrow> ('h, 'e) resident_scheme \<Rightarrow> (bool \<times> ('h, 'e) resident_scheme) option" where
  "rs_offer sel r =
     (case claim_resource_body sel (rs_word r) of
        Spin \<Rightarrow> None
      | Return _ \<Rightarrow> Some (False, r)
      | Cas w x \<Rightarrow> Some (True, (rs_set w r)\<lparr>rs_pubs := rs_pubs r @ (case x of OfferClaimed c \<Rightarrow> [c] | _ \<Rightarrow> [])\<rparr>))"

definition rs_close :: "('h, 'e) resident_scheme \<Rightarrow> (bool \<times> ('h, 'e) resident_scheme) option" where
  "rs_close r =
     (case close_body (rs_word r) of
        Spin \<Rightarrow> None
      | Return x \<Rightarrow> Some (x, r)
      | Cas w x \<Rightarrow> Some (x, (rs_set w r)\<lparr>rs_pubs := rs_pubs r @ (if is_claimed w then [w] else [])\<rparr>))"

definition rs_take :: "('h, 'e) resident_scheme \<Rightarrow> (resource_selection option \<times> ('h, 'e) resident_scheme) option" where
  "rs_take r = map_option (\<lambda>(w, x). (x, rs_set w r)) (cas_exec take_resource_body (rs_word r))"

definition rs_reset :: "('h, 'e) resident_scheme \<Rightarrow> (bool \<times> ('h, 'e) resident_scheme) option" where
  "rs_reset r = map_option (\<lambda>(w, x). (x, rs_set w r)) (cas_exec reset_closed_gate_body (rs_word r))"

text \<open>
  What else happens to the cell during the call: the inherited deadline or an inherited
  cancellation selects it, a publisher releases its claim, the owner publishes its target, or
  a query leaves the owner's interest in a claim.
\<close>

inductive rs_step :: "('h, 'e) resident_scheme \<Rightarrow> ('h, 'e) resident_scheme \<Rightarrow> bool" where
  select:
    "c = InheritedCancelled \<or> c = TimedOut \<and> dl \<noteq> None \<Longrightarrow> rs_stage r = ParkedWait tok dl \<Longrightarrow>
     select_generation_body tok c (rs_word r) = Cas w None \<Longrightarrow>
     rs_step r ((rs_set w r)\<lparr>rs_pubs := rs_pubs r @ [w]\<rparr>)"
| publish:
    "c \<in> set (rs_pubs r) \<Longrightarrow> publish_claim c (rs_word r) = Inr (w, signal) \<Longrightarrow>
     rs_step r ((rs_set w r)\<lparr>rs_pubs := remove1 c (rs_pubs r)\<rparr>)"
| bind:
    "rs_stage r = BindingWait tok dl w task route hub \<Longrightarrow>
     rs_step r (r\<lparr>rs_cell := begin_publish task route hub w (rs_cell r), rs_stage := ParkedWait tok dl\<rparr>)"
| interest:
    "rs_stage r = ParkedWait tok dl \<Longrightarrow> publication_body tok (rs_word r) = Cas w x \<Longrightarrow> rs_step r (rs_set w r)"

text \<open>The assertions of the steps above.\<close>

inductive rs_panics :: "('h, 'e) resident_scheme \<Rightarrow> bool" where
  publish: "c \<in> set (rs_pubs r) \<Longrightarrow> isl (publish_claim c (rs_word r)) \<Longrightarrow> rs_panics r"
| rollback: "rs_stage r = ParkedWait tok dl \<Longrightarrow> isl (try_retire_body tok (rs_word r)) \<Longrightarrow> rs_panics r"

section \<open>Invariant\<close>

text \<open>
  In a call's cell a grant and a readiness selection are the same thing, a claim has exactly
  one publisher, and only the owner's interest may sit beside it.
\<close>

definition parked_word :: "park_token \<Rightarrow> instant option \<Rightarrow> wait_word list \<Rightarrow> wait_word \<Rightarrow> bool" where
  "parked_word tok dl pubs w \<longleftrightarrow>
     ww_generation w = generation tok
     \<and> (ww_phase w = Active \<and> pubs = [] \<and> \<not> ww_permit w \<and> \<not> ww_closed w \<and> ww_resource w = None
        \<or> is_claimed w \<and> pubs = [w\<lparr>ww_permit := False\<rparr>] \<and> (ww_phase w = ClaimReady \<longleftrightarrow> ww_resource w \<noteq> None)
        \<or> selected_cause w \<noteq> None \<and> pubs = [] \<and> \<not> ww_permit w \<and> (ww_phase w = SelectedReady \<longleftrightarrow> ww_resource w \<noteq> None))
     \<and> (ww_phase w \<in> {ClaimTimedOut, SelectedTimedOut} \<longrightarrow> dl \<noteq> None)
     \<and> ww_phase w \<notin> {ClaimCancelled, SelectedCancelled}
     \<and> (ww_phase w \<in> {ClaimClosed, SelectedClosed} \<longrightarrow> ww_closed w)"

definition rs_ok :: "('h, 'e) resident_scheme \<Rightarrow> bool" where
  "rs_ok r \<longleftrightarrow>
     (case rs_stage r of
        Outside \<Rightarrow> ww_phase (rs_word r) = Idle \<and> rs_pubs r = []
      | BindingWait tok dl b _ _ _ \<Rightarrow>
          rs_word r = b \<and> ww_phase b = Binding \<and> ww_generation b = generation tok \<and> wait_id tok = wi_id (rs_cell r)
          \<and> rs_pubs r = [] \<and> \<not> ww_permit b \<and> \<not> ww_closed b \<and> rs_res r = None
      | ParkedWait tok dl \<Rightarrow> wait_id tok = wi_id (rs_cell r) \<and> parked_word tok dl (rs_pubs r) (rs_word r))"

text \<open>Still waiting for a selection, so that somebody else has to know about this wait.\<close>

definition rs_open :: "('h, 'e) resident_scheme \<Rightarrow> bool" where
  "rs_open r \<longleftrightarrow>
     (case rs_stage r of
        Outside \<Rightarrow> rs_res r = None \<and> \<not> ww_permit (rs_word r) \<and> \<not> ww_closed (rs_word r)
      | BindingWait _ _ _ _ _ _ \<Rightarrow> True
      | ParkedWait _ _ \<Rightarrow> ww_phase (rs_word r) = Active)"

lemma rs_set_simps [simp]:
  "rs_cell (rs_set w r) = (rs_cell r)\<lparr>wi_state := w\<rparr>" "rs_stage (rs_set w r) = rs_stage r" "rs_pubs (rs_set w r) = rs_pubs r"
  by (simp_all add: rs_set_def)

lemma bind_target_id [simp]: "bind_target task route hub s = (fb, s1) \<Longrightarrow> wi_id s1 = wi_id s"
  by (auto simp: bind_target_def Let_def split: if_splits)

lemma begin_publish_simps [simp]:
  "wi_id (begin_publish task route hub b s) = wi_id s"
  "\<exists>fb. wi_state (begin_publish task route hub b s) = b\<lparr>ww_fallback := fb, ww_phase := Active\<rparr>"
  by (auto simp: begin_publish_def split: prod.split)

lemma parked_word_active:
  "parked_word tok dl pubs w \<Longrightarrow> ww_phase w = Active \<Longrightarrow>
   pubs = [] \<and> \<not> ww_permit w \<and> \<not> ww_closed w \<and> ww_resource w = None \<and> ww_generation w = generation tok"
  by (auto simp: parked_word_def is_claimed_def selected_cause_def)

lemma parked_word_claimed:
  "parked_word tok dl pubs w \<Longrightarrow> is_claimed w \<Longrightarrow>
   pubs = [w\<lparr>ww_permit := False\<rparr>] \<and> (ww_phase w = ClaimReady \<longleftrightarrow> ww_resource w \<noteq> None) \<and> ww_generation w = generation tok"
  by (auto simp: parked_word_def is_claimed_def selected_cause_def)

lemma parked_word_pubs:
  "parked_word tok dl pubs w \<Longrightarrow> c \<in> set pubs \<Longrightarrow> is_claimed w \<and> c = w\<lparr>ww_permit := False\<rparr> \<and> pubs = [c]"
  by (auto simp: parked_word_def)

text \<open>Claiming an active word for a cause that may end this wait.\<close>

lemma parked_word_claim:
  assumes "ww_generation u = generation tok" "\<not> ww_permit u"
    and "c = TimedOut \<longrightarrow> dl \<noteq> None" "c \<noteq> CancelledCause" "c = ClosedCause \<longrightarrow> ww_closed u" "c = Ready \<longleftrightarrow> ww_resource u \<noteq> None"
  shows "parked_word tok dl [claimed c u] (claimed c u)"
proof -
  have "claimed c u = (claimed c u)\<lparr>ww_permit := False\<rparr>" using assms(2) by (simp add: claimed_def)
  then show ?thesis using assms by (cases c) (auto simp: parked_word_def claimed_def is_claimed_def selected_cause_def)
qed

lemma claimed_publish_phase:
  "is_claimed w \<Longrightarrow> \<exists>p. publish_phase (ww_phase w) = Inr p \<and> selected_cause_of p \<noteq> None
     \<and> (p = SelectedReady \<longleftrightarrow> ww_phase w = ClaimReady) \<and> (p = SelectedTimedOut \<longleftrightarrow> ww_phase w = ClaimTimedOut)
     \<and> (p = SelectedCancelled \<longleftrightarrow> ww_phase w = ClaimCancelled) \<and> (p = SelectedClosed \<longleftrightarrow> ww_phase w = ClaimClosed)"
  by (auto simp: is_claimed_def)

lemma parked_word_publish:
  assumes "parked_word tok dl pubs w" "c \<in> set pubs"
  shows "\<exists>p b. publish_claim c w = Inr (w\<lparr>ww_permit := False, ww_phase := p\<rparr>, b)
    \<and> parked_word tok dl [] (w\<lparr>ww_permit := False, ww_phase := p\<rparr>) \<and> selected_cause_of p \<noteq> None"
proof -
  have cl: "is_claimed w" and c: "c = w\<lparr>ww_permit := False\<rparr>" using parked_word_pubs[OF assms] by auto
  have pw: "ww_generation w = generation tok" "ww_phase w = ClaimReady \<longleftrightarrow> ww_resource w \<noteq> None"
    "ww_phase w = ClaimTimedOut \<Longrightarrow> dl \<noteq> None" "ww_phase w \<noteq> ClaimCancelled" "ww_phase w = ClaimClosed \<Longrightarrow> ww_closed w"
    using assms(1) parked_word_claimed[OF assms(1) cl] unfolding parked_word_def by blast+
  obtain p where p: "publish_phase (ww_phase w) = Inr p" "selected_cause_of p \<noteq> None" "p = SelectedReady \<longleftrightarrow> ww_phase w = ClaimReady"
    "p = SelectedTimedOut \<longleftrightarrow> ww_phase w = ClaimTimedOut" "p = SelectedCancelled \<longleftrightarrow> ww_phase w = ClaimCancelled"
    "p = SelectedClosed \<longleftrightarrow> ww_phase w = ClaimClosed"
    using claimed_publish_phase[OF cl] by blast
  have "\<exists>b. publish_claim c w = Inr (w\<lparr>ww_permit := False, ww_phase := p\<rparr>, b)"
    by (cases "ww_permit w"; simp add: c p(1) publish_claim_def publish_observed_claim_def publish_claim_word_def; blast)
  moreover have "parked_word tok dl [] (w\<lparr>ww_permit := False, ww_phase := p\<rparr>)"
    using pw p by (auto simp: parked_word_def selected_cause_def)
  ultimately show ?thesis using p(2) by blast
qed

lemma parked_word_interest:
  assumes "parked_word tok dl pubs w" "is_claimed w"
  shows "parked_word tok dl pubs (w\<lparr>ww_permit := True\<rparr>)"
proof -
  have "pubs = [w\<lparr>ww_permit := False\<rparr>]" "ww_phase w = ClaimReady \<longleftrightarrow> ww_resource w \<noteq> None"
    using parked_word_claimed[OF assms] by auto
  moreover have "is_claimed (w\<lparr>ww_permit := True\<rparr>)" using assms(2) by (simp add: is_claimed_def)
  ultimately show ?thesis using assms(1) unfolding parked_word_def by simp
qed


section \<open>Preservation\<close>

lemma parked_word_finish:
  assumes "parked_word tok dl pubs w" "selected_cause w = Some c"
  shows "pubs = [] \<and> \<not> ww_permit w \<and> (c = Ready \<longleftrightarrow> ww_resource w \<noteq> None) \<and> (c = TimedOut \<longrightarrow> dl \<noteq> None)
    \<and> c \<noteq> CancelledCause \<and> (c = ClosedCause \<longrightarrow> ww_closed w)"
proof -
  have "\<not> is_claimed w" "ww_phase w \<noteq> Active" using assms(2) by (auto simp: is_claimed_def selected_cause_def)
  then show ?thesis using assms unfolding parked_word_def
    by (cases "ww_phase w") (simp_all add: selected_cause_def)
qed

text \<open>Background steps keep the invariant, never touch the grant, and never reopen a wait.\<close>

definition rs_keeps :: "('h, 'e) resident_scheme \<Rightarrow> ('h, 'e) resident_scheme \<Rightarrow> bool" where
  "rs_keeps r q \<longleftrightarrow> rs_ok q \<and> rs_res q = rs_res r \<and> (rs_stage q = Outside \<longleftrightarrow> rs_stage r = Outside)
     \<and> (rs_open q \<longrightarrow> rs_open r) \<and> ww_closed (rs_word q) = ww_closed (rs_word r)
     \<and> wi_id (rs_cell q) = wi_id (rs_cell r) \<and> resident.more q = resident.more r \<and> rs_stage r \<noteq> Outside"

lemma rs_step_keeps: "rs_step r q \<Longrightarrow> rs_ok r \<Longrightarrow> rs_keeps r q"
proof (induction rule: rs_step.induct)
  case (select c dl r tok w)
  have w: "ww_phase (rs_word r) = Active" "w = claimed c (rs_word r)"
    using select(3) by (auto simp: select_generation_body_def split: if_splits)
  have pw: "parked_word tok dl (rs_pubs r) (rs_word r)" "wait_id tok = wi_id (rs_cell r)"
    using select(2,4) by (simp_all add: rs_ok_def)
  have "parked_word tok dl [w] w"
    using parked_word_claim[of "rs_word r" tok c dl] parked_word_active[OF pw(1) w(1)] select(1) w(2) by auto
  with pw select(2) parked_word_active[OF pw(1) w(1)]
  have "rs_ok ((rs_set w r)\<lparr>rs_pubs := rs_pubs r @ [w]\<rparr>)" by (simp add: rs_ok_def)
  with w select(2) show ?case by (auto simp: rs_keeps_def rs_open_def claimed_def rs_set_def)
next
  case (publish c r w signal)
  then obtain tok dl where st: "rs_stage r = ParkedWait tok dl"
    by (cases "rs_stage r") (auto simp: rs_ok_def)
  have pw: "parked_word tok dl (rs_pubs r) (rs_word r)" "wait_id tok = wi_id (rs_cell r)"
    using publish(3) st by (simp_all add: rs_ok_def)
  obtain p where w: "w = (rs_word r)\<lparr>ww_permit := False, ww_phase := p\<rparr>" "parked_word tok dl [] w" "selected_cause_of p \<noteq> None"
    using parked_word_publish[OF pw(1) publish(1)] publish(2) by auto
  have "rs_pubs r = [c]" using parked_word_pubs[OF pw(1) publish(1)] by simp
  with w(2) st pw have "rs_ok ((rs_set w r)\<lparr>rs_pubs := remove1 c (rs_pubs r)\<rparr>)" by (simp add: rs_ok_def)
  moreover have "p \<noteq> Active" using w(3) by auto
  ultimately show ?case using w(1) st by (simp add: rs_keeps_def rs_open_def rs_set_def)
next
  case (bind r tok dl w task route hub)
  obtain fb where fb: "wi_state (begin_publish task route hub w (rs_cell r)) = w\<lparr>ww_fallback := fb, ww_phase := Active\<rparr>"
    using begin_publish_simps(2)[of task route hub w "rs_cell r"] by blast
  with bind show ?case by (auto simp: rs_keeps_def rs_open_def rs_ok_def parked_word_def)
next
  case (interest r tok dl w x)
  have w: "is_claimed (rs_word r)" "w = (rs_word r)\<lparr>ww_permit := True\<rparr>"
    using interest(2) by (auto simp: publication_body_def split: if_splits)
  have "rs_ok (rs_set w r)" using interest parked_word_interest[OF _ w(1)] w(2) by (simp add: rs_ok_def)
  with w interest(1) show ?case by (simp add: rs_keeps_def rs_open_def rs_set_def)
qed

lemma rs_no_panic: "rs_ok r \<Longrightarrow> \<not> rs_panics r"
proof
  assume "rs_ok r" "rs_panics r"
  from this(2,1) show False
  proof (induction rule: rs_panics.induct)
    case (publish c r)
    then obtain tok dl where st: "rs_stage r = ParkedWait tok dl" by (cases "rs_stage r") (auto simp: rs_ok_def)
    with publish have "parked_word tok dl (rs_pubs r) (rs_word r)" by (simp add: rs_ok_def)
    from parked_word_publish[OF this publish(1)] publish(2) show False by auto
  next
    case (rollback r tok dl)
    then show False by (auto simp: rs_ok_def parked_word_def try_retire_body_def is_claimed_def selected_cause_def split: if_splits)
  qed
qed


section \<open>The owner's operations\<close>

text \<open>
  Beginning a park from outside, when a stored permit and a grant mean the same: it consumes a
  stored grant's permit, reports a close or an expired deadline, or opens a wait.
\<close>

lemma rs_begin_cases:
  assumes "rs_begin task route hub dl now r = Some (x, q)" "rs_ok r" "rs_stage r = Outside"
    and "rs_res r \<noteq> None \<longleftrightarrow> ww_permit (rs_word r)"
  shows "rs_ok q \<and> rs_res q = rs_res r \<and> ww_closed (rs_word q) = ww_closed (rs_word r)
    \<and> wi_id (rs_cell q) = wi_id (rs_cell r) \<and> resident.more q = resident.more r \<and> (rs_open q \<longrightarrow> rs_open r)
    \<and> (case x of
         Inl _ \<Rightarrow> q = r
       | Inr (Immediate Ready) \<Rightarrow> rs_stage q = Outside \<and> rs_res r \<noteq> None \<and> \<not> ww_closed (rs_word r) \<and> \<not> ww_permit (rs_word q)
       | Inr (Immediate TimedOut) \<Rightarrow> q = r \<and> dl \<noteq> None
       | Inr (Immediate ClosedCause) \<Rightarrow> q = r \<and> ww_closed (rs_word r)
       | Inr (Immediate _) \<Rightarrow> False
       | Inr (Park tok d) \<Rightarrow> d = dl \<and> rs_stage q \<noteq> Outside \<and> rs_res r = None \<and> \<not> ww_closed (rs_word r))"
proof -
  have idle: "ww_phase (rs_word r) = Idle" "rs_pubs r = []" using assms(2,3) by (simp_all add: rs_ok_def)
  consider "ww_closed (rs_word r)" | "\<not> ww_closed (rs_word r)" "ww_permit (rs_word r)"
    | "\<not> ww_closed (rs_word r)" "\<not> ww_permit (rs_word r)" "rs_res r = None" using assms(4) by blast
  then show ?thesis
  proof cases
    case 1
    with assms idle show ?thesis by (auto simp: rs_begin_def begin_body_def)
  next
    case 2
    with assms idle show ?thesis by (auto simp: rs_begin_def begin_body_def rs_ok_def rs_open_def rs_set_def)
  next
    case 3
    show ?thesis
    proof (cases "next_generation (rs_word r)")
      case (Inl e)
      with 3 assms idle show ?thesis
        by (auto simp: rs_begin_def begin_body_def split: option.splits if_splits)
    next
      case (Inr g)
      with 3 assms idle show ?thesis
        by (auto simp: rs_begin_def begin_body_def rs_ok_def rs_open_def rs_set_def parked_word_def Let_def
            split: option.splits if_splits)
    qed
  qed
qed

lemma rs_finish_cases:
  assumes "rs_finish permit tok r = Some (x, q)" "rs_ok r" "rs_stage r = ParkedWait tok dl" "\<not> rs_open r"
  shows "\<exists>c. x = Inr c \<and> rs_ok q \<and> rs_stage q = Outside \<and> \<not> ww_permit (rs_word q)
    \<and> (c = Ready \<longleftrightarrow> rs_res r \<noteq> None) \<and> rs_res q = (if permit then None else rs_res r)
    \<and> (c = TimedOut \<longrightarrow> dl \<noteq> None) \<and> c \<noteq> CancelledCause \<and> (c = ClosedCause \<longrightarrow> ww_closed (rs_word r))
    \<and> ww_closed (rs_word q) = ww_closed (rs_word r) \<and> wi_id (rs_cell q) = wi_id (rs_cell r) \<and> resident.more q = resident.more r"
proof -
  have pw: "parked_word tok dl (rs_pubs r) (rs_word r)" "wait_id tok = wi_id (rs_cell r)"
    using assms(2,3) by (simp_all add: rs_ok_def)
  have gen: "ww_generation (rs_word r) = generation tok" using pw by (simp add: parked_word_def)
  have slow: "rs_finish permit tok r =
      map_option (\<lambda>(w, x). (x, (rs_set w r)\<lparr>rs_stage := Outside\<rparr>))
       (cas_exec (if permit then finish_permit_slow_body tok else finish_slow_body tok) (rs_word r))"
    using pw(2) finish_permit_fast[of "rs_cell r" tok]
    by (auto simp: rs_finish_def wc_finish_permit_ready_def wc_finish_def rs_set_def Let_def option.map_comp comp_def
        split: prod.splits intro!: option.map_cong)
  have "\<not> is_claimed (rs_word r) \<and> ww_phase (rs_word r) \<noteq> Binding"
    using assms(1) slow gen by (auto simp: cas_exec_def finish_permit_slow_body_def finish_slow_body_def split: if_splits)
  moreover have "ww_phase (rs_word r) \<noteq> Active" using assms(3,4) by (simp add: rs_open_def)
  ultimately obtain c where c: "selected_cause (rs_word r) = Some c"
    using pw(1) by (cases "selected_cause (rs_word r)") (auto simp: parked_word_def)
  have x: "x = Inr c" "q = (rs_set (if permit \<and> c = Ready then retire_word ((rs_word r)\<lparr>ww_resource := None\<rparr>) else retire_word (rs_word r)) r)\<lparr>rs_stage := Outside\<rparr>"
    using assms(1) slow gen c \<open>\<not> is_claimed (rs_word r) \<and> ww_phase (rs_word r) \<noteq> Binding\<close>
    by (auto simp: cas_exec_def finish_permit_slow_body_def finish_slow_body_def split: if_splits)
  from parked_word_finish[OF pw(1) c] show ?thesis
    by (auto simp: x rs_ok_def rs_set_def retire_word_def)
qed


text \<open>A failed park retires its generation, or leaves it to a publisher still in flight.\<close>

lemma rs_rollback_cases:
  assumes "rs_rollback tok r = Inr q" "rs_ok r" "rs_stage r = ParkedWait tok dl"
  shows "rs_ok q \<and> rs_res q = rs_res r \<and> ww_closed (rs_word q) = ww_closed (rs_word r)
    \<and> wi_id (rs_cell q) = wi_id (rs_cell r) \<and> resident.more q = resident.more r \<and> (rs_open q \<longrightarrow> rs_open r \<or> rs_stage q = Outside)
    \<and> (rs_stage q = Outside \<or> rs_stage q = ParkedWait tok dl \<and> \<not> rs_open q)"
proof -
  have pw: "parked_word tok dl (rs_pubs r) (rs_word r)" "wait_id tok = wi_id (rs_cell r)"
    using assms(2,3) by (simp_all add: rs_ok_def)
  show ?thesis
  proof (cases "is_claimed (rs_word r)")
    case True
    then have ph: "ww_phase (rs_word r) \<notin> {Idle, Binding, Active}" by (auto simp: is_claimed_def)
    have gen: "ww_generation (rs_word r) = generation tok" using pw by (simp add: parked_word_def)
    have "q = r \<or> q = rs_set ((rs_word r)\<lparr>ww_permit := True\<rparr>) r"
      using assms(1) True ph gen by (auto simp: rs_rollback_def try_retire_body_def split: if_splits)
    then show ?thesis using parked_word_interest[OF pw(1) True] assms(2,3) pw ph
      by (auto simp: rs_ok_def rs_open_def rs_set_def)
  next
    case False
    then have "rs_pubs r = []" "\<not> ww_permit (rs_word r)" "ww_generation (rs_word r) = generation tok"
      "ww_phase (rs_word r) \<notin> {Idle, Binding}"
      using pw(1) by (auto simp: parked_word_def is_claimed_def selected_cause_def)
    moreover from this have "q = (rs_set (retire_word (rs_word r)) r)\<lparr>rs_stage := Outside\<rparr>"
      using assms(1) False by (auto simp: rs_rollback_def try_retire_body_def)
    ultimately show ?thesis by (simp add: rs_ok_def rs_set_def retire_word_def)
  qed
qed

lemma rs_rollback_ok: "rs_ok r \<Longrightarrow> rs_stage r = ParkedWait tok dl \<Longrightarrow> \<exists>q. rs_rollback tok r = Inr q"
  by (auto simp: rs_rollback_def rs_ok_def parked_word_def try_retire_body_def is_claimed_def selected_cause_def)

section \<open>The primitive's operations\<close>

text \<open>An offer is accepted exactly by an open wait, and gives it the grant.\<close>

lemma rs_offer_cases:
  assumes "rs_offer sel r = Some (b, q)" "rs_ok r"
  shows "rs_ok q \<and> ww_closed (rs_word q) = ww_closed (rs_word r) \<and> rs_stage q = rs_stage r
    \<and> wi_id (rs_cell q) = wi_id (rs_cell r) \<and> resident.more q = resident.more r
    \<and> (if b then rs_open r \<and> rs_res r = None \<and> rs_res q = Some sel \<and> \<not> rs_open q \<and> (rs_stage r = Outside \<longrightarrow> ww_permit (rs_word q))
       else q = r \<and> \<not> rs_open r)"
proof (cases "rs_stage r")
  case Outside
  with assms show ?thesis
    by (auto simp: rs_offer_def claim_resource_body_def resource_offer_def rs_ok_def rs_open_def rs_set_def Let_def split: if_splits)
next
  case (BindingWait tok dl b' task route hub)
  with assms show ?thesis by (simp add: rs_offer_def claim_resource_body_def rs_ok_def)
next
  case (ParkedWait tok dl)
  then have pw: "parked_word tok dl (rs_pubs r) (rs_word r)" "wait_id tok = wi_id (rs_cell r)"
    using assms(2) by (simp_all add: rs_ok_def)
  show ?thesis
  proof (cases "ww_phase (rs_word r) = Active")
    case True
    let ?w = "claimed Ready ((rs_word r)\<lparr>ww_resource := Some sel\<rparr>)"
    note act = parked_word_active[OF pw(1) True]
    have "b" "q = (rs_set ?w r)\<lparr>rs_pubs := [?w]\<rparr>"
      using assms(1) True act by (auto simp: rs_offer_def claim_resource_body_def resource_offer_def Let_def)
    moreover have "parked_word tok dl [?w] ?w" by (rule parked_word_claim) (use act in simp_all)
    ultimately show ?thesis using ParkedWait pw True act
      by (simp add: rs_ok_def rs_open_def rs_set_def claimed_def)
  next
    case False
    then have "ww_phase (rs_word r) \<notin> {Idle, Active, Binding}"
      using pw(1) by (auto simp: parked_word_def is_claimed_def selected_cause_def)
    then have "\<not> b" "q = r" using assms(1)
      by (auto simp: rs_offer_def claim_resource_body_def resource_offer_def)
    with ParkedWait False assms(2) show ?thesis by (simp add: rs_open_def)
  qed
qed

text \<open>Closing leaves no wait open and no grant touched.\<close>

lemma rs_close_cases:
  assumes "rs_close r = Some (b, q)" "rs_ok r" "rs_res r = None"
  shows "rs_ok q \<and> ww_closed (rs_word q) \<and> rs_stage q = rs_stage r \<and> rs_res q = None \<and> \<not> rs_open q
    \<and> wi_id (rs_cell q) = wi_id (rs_cell r) \<and> resident.more q = resident.more r"
proof (cases "rs_stage r")
  case Outside
  with assms show ?thesis
    by (auto simp: rs_close_def close_body_def rs_ok_def rs_open_def rs_set_def is_claimed_def Let_def split: if_splits)
next
  case (BindingWait tok dl b' task route hub)
  with assms show ?thesis by (simp add: rs_close_def close_body_def rs_ok_def)
next
  case (ParkedWait tok dl)
  then have pw: "parked_word tok dl (rs_pubs r) (rs_word r)" "wait_id tok = wi_id (rs_cell r)"
    using assms(2) by (simp_all add: rs_ok_def)
  have ncl: "\<not> is_claimed (rs_word r)" "ww_phase (rs_word r) \<noteq> Binding"
    using assms(1) by (auto simp: rs_close_def close_body_def split: if_splits)
  show ?thesis
  proof (cases "ww_phase (rs_word r) = Active")
    case True
    let ?w = "claimed ClosedCause ((rs_word r)\<lparr>ww_closed := True, ww_permit := False\<rparr>)"
    note act = parked_word_active[OF pw(1) True]
    have "q = (rs_set ?w r)\<lparr>rs_pubs := [?w]\<rparr>"
      using assms(1) True act ncl by (auto simp: rs_close_def close_body_def Let_def)
    moreover have "parked_word tok dl [?w] ?w" by (rule parked_word_claim) (use act in simp_all)
    ultimately show ?thesis using ParkedWait pw True act
      by (simp add: rs_ok_def rs_open_def rs_set_def claimed_def)
  next
    case False
    let ?w = "(rs_word r)\<lparr>ww_closed := True, ww_permit := False\<rparr>"
    have sel: "selected_cause (rs_word r) \<noteq> None" "rs_pubs r = []" "\<not> ww_permit (rs_word r)"
      using pw(1) False ncl by (auto simp: parked_word_def)
    have "\<not> is_claimed ?w" using ncl(1) by (simp add: is_claimed_def)
    then have "ww_closed (rs_word r) \<and> q = r \<or> q = rs_set ?w r"
      using assms(1) False ncl sel by (auto simp: rs_close_def close_body_def rs_set_def Let_def split: if_splits)
    moreover have "parked_word tok dl [] ?w"
      using pw(1) sel ncl False by (auto simp: parked_word_def selected_cause_def)
    ultimately show ?thesis using ParkedWait pw False sel assms(2,3)
      by (auto simp: rs_ok_def rs_open_def rs_set_def)
  qed
qed

lemma rs_take_cases:
  assumes "rs_take r = Some (x, q)" "rs_ok r" "rs_stage r = Outside"
  shows "x = rs_res r \<and> rs_ok q \<and> rs_stage q = Outside \<and> rs_res q = None \<and> ww_closed (rs_word q) = ww_closed (rs_word r)
    \<and> wi_id (rs_cell q) = wi_id (rs_cell r) \<and> resident.more q = resident.more r"
  using assms by (auto simp: rs_take_def cas_exec_def take_resource_body_def resource_take_def rs_ok_def is_claimed_def rs_set_def
      split: option.splits)


lemma rs_reset_cases:
  assumes "rs_ok r" "rs_stage r = Outside"
  shows "\<exists>q. rs_reset r = Some (True, q) \<and> rs_ok q \<and> rs_stage q = Outside \<and> \<not> ww_closed (rs_word q) \<and> rs_res q = rs_res r
    \<and> wi_id (rs_cell q) = wi_id (rs_cell r) \<and> resident.more q = resident.more r"
  using assms by (auto simp: rs_reset_def cas_exec_def reset_closed_gate_body_def rs_ok_def rs_set_def)

end
