(* ===== verification/Exclusive_Cell.thy ===== *)
theory Exclusive_Cell
  imports Prelude
begin

text \<open>
  Exclusive cells with transferable ownership (exclusive.rs), the ownership mailbox, and the
  spin lock around short critical sections (spin_mutex.rs). The state word of a cell has a
  lock bit and a waiter marker; a guard or an ownership capability stands for the unique
  access. The interface \<open>handoff_lock\<close> is what a queue of waiters relies on.
\<close>

section \<open>State\<close>

definition LOCKED :: usize where "LOCKED = 1"

definition HAS_WAITERS :: usize where "HAS_WAITERS = push_bit 1 1"

text \<open>A capability is the identity of its cell; zero is no identity.\<close>

record exclusive_cell =
  xc_state :: usize
  xc_identity :: u64

datatype ownership = Ownership (own_identity: u64)

text \<open>\<open>ExclusiveCell::new\<close> with the process-wide counter; the cell and the next counter.\<close>

definition xc_new :: "u64 \<Rightarrow> (exclusive_cell \<times> u64) result_p" where
  "xc_new next_identity =
     (case checked_add next_identity 1 of
        None \<Rightarrow> Inl (Panic ''exclusive cell identity exhausted'')
      | Some n \<Rightarrow> Inr (\<lparr>xc_state = 0, xc_identity = next_identity\<rparr>, n))"

section \<open>The mailbox\<close>

definition slot_empty :: u64 where "slot_empty = 0"

definition slot_publish :: "ownership \<Rightarrow> u64 \<Rightarrow> (ownership + u64)" where
  "slot_publish own slot = (if slot = 0 then Inr (own_identity own) else Inl own)"

definition slot_take :: "u64 \<Rightarrow> ownership option \<times> u64" where
  "slot_take slot = (if slot \<noteq> 0 then Some (Ownership slot) else None, 0)"

section \<open>Cell operations\<close>

definition xc_try_lock :: "exclusive_cell \<Rightarrow> exclusive_cell option" where
  "xc_try_lock c = (if xc_state c = 0 then Some (c\<lparr>xc_state := LOCKED\<rparr>) else None)"

datatype queue_decision = AcquiredGuard | Queued

text \<open>The body of the loop of \<open>queue_or_lock\<close>.\<close>

definition queue_or_lock_body :: "usize \<Rightarrow> (usize, queue_decision) attempt result_p" where
  "queue_or_lock_body state =
     (if state = 0 then Inr (Cas LOCKED AcquiredGuard)
      else if and state LOCKED = 0 then Inl (Panic ''waiter marker exists without an owner'')
      else if and state HAS_WAITERS \<noteq> 0 then Inr (Return Queued)
      else Inr (Cas (or state HAS_WAITERS) Queued))"

definition xc_queue_or_lock :: "exclusive_cell \<Rightarrow> (queue_decision \<times> exclusive_cell) result_p" where
  "xc_queue_or_lock c =
     map_sum id (\<lambda>a. case a of Cas s d \<Rightarrow> (d, c\<lparr>xc_state := s\<rparr>) | Return d \<Rightarrow> (d, c) | Spin \<Rightarrow> (Queued, c))
       (queue_or_lock_body (xc_state c))"

definition xc_owns :: "ownership \<Rightarrow> exclusive_cell \<Rightarrow> bool" where
  "xc_owns own c \<longleftrightarrow> own_identity own = xc_identity c \<and> and (xc_state c) LOCKED \<noteq> 0"

text \<open>\<open>claim\<close> turns the capability into a guard, or gives it back.\<close>

definition xc_claim :: "ownership \<Rightarrow> exclusive_cell \<Rightarrow> (ownership + unit)" where
  "xc_claim own c = (if xc_owns own c then Inr () else Inl own)"

definition xc_set_waiters :: "ownership \<Rightarrow> bool \<Rightarrow> exclusive_cell \<Rightarrow> bool \<times> exclusive_cell" where
  "xc_set_waiters own has_waiters c =
     (if xc_owns own c
      then (True, c\<lparr>xc_state := or LOCKED ((if has_waiters then 1 else 0) * HAS_WAITERS)\<rparr>)
      else (False, c))"

definition xc_unlock :: "ownership \<Rightarrow> exclusive_cell \<Rightarrow> (ownership + exclusive_cell)" where
  "xc_unlock own c = (if xc_owns own c then Inr (c\<lparr>xc_state := 0\<rparr>) else Inl own)"

text \<open>\<open>try_release\<close>: the cell is free, or the guard becomes an ownership.\<close>

definition xc_try_release :: "exclusive_cell \<Rightarrow> (ownership option \<times> exclusive_cell) result_p" where
  "xc_try_release c =
     (if xc_state c = LOCKED then Inr (None, c\<lparr>xc_state := 0\<rparr>)
      else if and (xc_state c) LOCKED = 0 then Inl (Panic ''exclusive guard lost ownership'')
      else Inr (Some (Ownership (xc_identity c)), c))"

definition xc_guard_drop :: "exclusive_cell \<Rightarrow> exclusive_cell result_p" where
  "xc_guard_drop c =
     (if and (xc_state c) LOCKED = 0 then Inl (Panic ''exclusive guard released twice'')
      else Inr (c\<lparr>xc_state := 0\<rparr>))"

section \<open>Spin locks\<close>

text \<open>One probe of \<open>lock\<close> and of the loop of \<open>lock_slow\<close>, and the release of the guard.\<close>

definition spin_lock_body :: "bool \<Rightarrow> (bool, unit) attempt" where
  "spin_lock_body locked = (if locked then Spin else Cas True ())"

definition spin_guard_drop :: "bool \<Rightarrow> bool" where
  "spin_guard_drop locked = False"

text \<open>Acquiring succeeds only on a free lock, at the access that found it free.\<close>

lemma spin_lock_exclusive:
  assumes "cas_loop spin_lock_body l env = Some (c, ())"
  shows "c = Some (False, True)"
proof -
  obtain x where "case c of None \<Rightarrow> spin_lock_body x = Return ()
      | Some (old, new) \<Rightarrow> old = x \<and> spin_lock_body x = Cas new () \<and> (x, False) \<in> set env"
    using cas_loop_linearizes[OF assms] by blast
  then show ?thesis by (auto simp: spin_lock_body_def split: option.splits if_splits)
qed

section \<open>The interface\<close>

text \<open>
  A lock that hands its ownership over: while it is held exactly one capability exists, the
  waiter marker only ever sits on a held lock, an uncontended release frees it, and a
  contended one keeps it held for the next owner.
\<close>

locale handoff_lock =
  fixes ok :: "'s \<Rightarrow> bool" and held :: "'s \<Rightarrow> bool" and marked :: "'s \<Rightarrow> bool" and valid :: "'o \<Rightarrow> 's \<Rightarrow> bool"
    and try_lock :: "'s \<Rightarrow> 's option"
    and queue_or_lock :: "'s \<Rightarrow> (queue_decision \<times> 's) result_p"
    and set_waiters :: "'o \<Rightarrow> bool \<Rightarrow> 's \<Rightarrow> bool \<times> 's"
    and unlock :: "'o \<Rightarrow> 's \<Rightarrow> ('o + 's)"
    and try_release :: "'s \<Rightarrow> ('o option \<times> 's) result_p"
  assumes marked_held: "ok s \<Longrightarrow> marked s \<Longrightarrow> held s"
    and try_lock: "ok s \<Longrightarrow> try_lock s = Some t \<Longrightarrow> \<not> held s \<and> ok t \<and> held t \<and> \<not> marked t \<and> valid o' t = valid o' s"
    and try_lock_free: "ok s \<Longrightarrow> \<not> held s \<Longrightarrow> try_lock s \<noteq> None"
    and queue_acquires: "ok s \<Longrightarrow> \<not> held s \<Longrightarrow> \<exists>t. queue_or_lock s = Inr (AcquiredGuard, t) \<and> ok t \<and> held t \<and> \<not> marked t \<and> (\<forall>o'. valid o' t = valid o' s)"
    and queue_marks: "ok s \<Longrightarrow> held s \<Longrightarrow> \<exists>t. queue_or_lock s = Inr (Queued, t) \<and> ok t \<and> held t \<and> marked t \<and> (\<forall>o'. valid o' t = valid o' s)"
    and set_waiters: "ok s \<Longrightarrow> held s \<Longrightarrow> valid own s \<Longrightarrow>
          \<exists>t. set_waiters own b s = (True, t) \<and> ok t \<and> held t \<and> (marked t \<longleftrightarrow> b) \<and> (\<forall>o'. valid o' t = valid o' s)"
    and unlock: "ok s \<Longrightarrow> held s \<Longrightarrow> valid own s \<Longrightarrow> \<exists>t. unlock own s = Inr t \<and> ok t \<and> \<not> held t \<and> (\<forall>o'. valid o' t = valid o' s)"
    and release_free: "ok s \<Longrightarrow> held s \<Longrightarrow> \<not> marked s \<Longrightarrow> \<exists>t. try_release s = Inr (None, t) \<and> ok t \<and> \<not> held t \<and> (\<forall>o'. valid o' t = valid o' s)"
    and release_contended: "ok s \<Longrightarrow> held s \<Longrightarrow> marked s \<Longrightarrow> \<exists>own. try_release s = Inr (Some own, s) \<and> valid own s"
begin

lemma free_unmarked: "ok s \<Longrightarrow> \<not> held s \<Longrightarrow> \<not> marked s"
  using marked_held by blast

lemma try_lock_iff: "ok s \<Longrightarrow> try_lock s \<noteq> None \<longleftrightarrow> \<not> held s"
  using try_lock try_lock_free by (metis not_Some_eq)

lemma release_total: "ok s \<Longrightarrow> held s \<Longrightarrow> \<exists>r t. try_release s = Inr (r, t) \<and> ok t \<and> (held t \<longleftrightarrow> r \<noteq> None)"
  using release_free release_contended by (metis option.distinct(1))

end

definition xc_ok :: "exclusive_cell \<Rightarrow> bool" where
  "xc_ok c \<longleftrightarrow> xc_state c \<in> {0, LOCKED, or LOCKED HAS_WAITERS} \<and> xc_identity c \<noteq> 0"

definition xc_held :: "exclusive_cell \<Rightarrow> bool" where
  "xc_held c \<longleftrightarrow> and (xc_state c) LOCKED \<noteq> 0"

definition xc_marked :: "exclusive_cell \<Rightarrow> bool" where
  "xc_marked c \<longleftrightarrow> and (xc_state c) HAS_WAITERS \<noteq> 0"

definition xc_valid :: "ownership \<Rightarrow> exclusive_cell \<Rightarrow> bool" where
  "xc_valid own c \<longleftrightarrow> own_identity own = xc_identity c"

lemma excl_words:
  "and LOCKED LOCKED = LOCKED" "and LOCKED HAS_WAITERS = 0" "or LOCKED HAS_WAITERS = 3" "LOCKED \<noteq> 0" "HAS_WAITERS \<noteq> 0"
  "and (3 :: usize) LOCKED = LOCKED" "and (3 :: usize) HAS_WAITERS = HAS_WAITERS" "LOCKED \<noteq> 3" "or LOCKED 0 = LOCKED"
  by (simp_all add: LOCKED_def HAS_WAITERS_def)

interpretation xc: handoff_lock xc_ok xc_held xc_marked xc_valid xc_try_lock xc_queue_or_lock xc_set_waiters xc_unlock xc_try_release
  by unfold_locales
    (auto simp: xc_ok_def xc_held_def xc_marked_def xc_valid_def xc_owns_def xc_try_lock_def xc_queue_or_lock_def
      queue_or_lock_body_def xc_set_waiters_def xc_unlock_def xc_try_release_def excl_words split: if_splits)

text \<open>A new cell is free and carries the identity its capabilities will be compared with.\<close>

lemma xc_new_ok: "xc_new n = Inr (c, m) \<Longrightarrow> n \<noteq> 0 \<Longrightarrow> xc_ok c \<and> \<not> xc_held c \<and> m \<noteq> 0"
  by (auto simp: xc_new_def xc_ok_def xc_held_def split: option.splits dest!: checked_add_unat)

text \<open>The mailbox gives a capability back exactly once.\<close>

lemma slot_round_trip: "slot_publish own slot_empty = Inr s \<Longrightarrow> own_identity own \<noteq> 0 \<Longrightarrow> slot_take s = (Some own, slot_empty)"
  by (cases own) (auto simp: slot_publish_def slot_take_def slot_empty_def)

end
