(* ===== verification/Mutex_Queue.thy ===== *)
theory Mutex_Queue
  imports Resident_Wait Exclusive_Cell "HOL-Library.Sublist"
begin

text \<open>
  Virtual mutexes (sync/mutex.rs) and their bounded line with direct hand-off
  (sync/mutex_queue.rs), over exclusive cells and resident waits. Each step below is one
  access to shared state or one critical section of the queue lock; threads interleave freely
  between steps. A waiter's offer inside the critical section of \<open>release_ownership\<close> is part of
  that step: until it commits, the queue lock and the held cell keep every other step away
  from what the section has already written.
\<close>

section \<open>State\<close>

text \<open>
  Where a blocking \<open>lock\<close> call stands: reserved a slot; acquired at the recheck, slot still to
  be retired; ticket in line or parked; resumed with the selected flag; ownership taken;
  ticket completed; failed, with the selected flag; ticket unlinked, with whether it was still
  queued and the flag; retired and reclaiming a possible grant; about to take the ownership
  it was granted.
\<close>

datatype lock_stage =
    Reserved
  | Rechecked
  | Ticketed
  | Resumed
  | OwnershipTaken ownership
  | Completed ownership
  | Failed bool
  | Unlinked bool bool
  | Reclaiming bool
  | Abandoning

record 'h lock_call = "'h resident" + lc_stage :: lock_stage

text \<open>A release in progress: at the top of its loop, or rejected by the recipient it chose.\<close>

datatype release_run = Releasing ownership | Rejected

text \<open>
  The queue, the protected cell, the calls by the identity of their wait cell, the number of
  live guards, the releases in progress. The last three fields are history: the calls that
  entered the line, those that were granted the lock from it, and whether an assertion failed.
\<close>

record 'h mutex_sys =
  mx_value :: exclusive_cell
  mx_outstanding :: usize
  mx_capacity :: usize
  mx_entries :: "u64 list"
  mx_handoff :: u64
  mx_calls :: "u64 \<rightharpoonup> 'h lock_call"
  mx_guards :: nat
  mx_runs :: "release_run list"
  mx_joined :: "u64 list"
  mx_granted :: "u64 list"
  mx_panicked :: bool

text \<open>\<open>Mutex::with_wait_capacity\<close>.\<close>

definition mutex_new :: "u64 \<Rightarrow> usize \<Rightarrow> ('h mutex_sys \<times> u64) result result_p" where
  "mutex_new next_identity wait_capacity =
     (case xc_new next_identity of
        Inl e \<Rightarrow> Inl e
      | Inr (c, n) \<Rightarrow>
          if wait_capacity = 0 then Inr (Inl (InvalidConfiguration WaitCapacity ''must be positive''))
          else Inr (Inr (\<lparr>mx_value = c, mx_outstanding = 0, mx_capacity = wait_capacity, mx_entries = [],
                 mx_handoff = slot_empty, mx_calls = Map.empty, mx_guards = 0, mx_runs = [],
                 mx_joined = [], mx_granted = [], mx_panicked = False\<rparr>, n)))"

section \<open>Queue operations\<close>

definition mx_panic :: "'h mutex_sys \<Rightarrow> 'h mutex_sys" where
  "mx_panic s = s\<lparr>mx_panicked := True\<rparr>"

definition mx_reserve :: "'h mutex_sys \<Rightarrow> 'h mutex_sys result" where
  "mx_reserve s =
     (if mx_outstanding s < mx_capacity s then Inr (s\<lparr>mx_outstanding := mx_outstanding s + 1\<rparr>)
      else Inl (Capacity Waiters (unat (mx_capacity s))))"

text \<open>\<open>fetch_sub\<close> wraps; the assertion reads the previous value.\<close>

definition mx_retire :: "'h mutex_sys \<Rightarrow> 'h mutex_sys" where
  "mx_retire s =
     (let t = s\<lparr>mx_outstanding := mx_outstanding s - 1\<rparr> in if mx_outstanding s = 0 then mx_panic t else t)"

definition mx_put :: "u64 \<Rightarrow> 'h lock_call \<Rightarrow> 'h mutex_sys \<Rightarrow> 'h mutex_sys" where
  "mx_put w k s = s\<lparr>mx_calls := (mx_calls s)(w \<mapsto> k)\<rparr>"

definition mx_end :: "u64 \<Rightarrow> 'h mutex_sys \<Rightarrow> 'h mutex_sys" where
  "mx_end w s = s\<lparr>mx_calls := (mx_calls s)(w := None)\<rparr>"

text \<open>The critical section of \<open>subscribe\<close>.\<close>

definition mx_subscribe :: "u64 \<Rightarrow> 'h lock_call \<Rightarrow> 'h mutex_sys \<Rightarrow> 'h mutex_sys" where
  "mx_subscribe w k s =
     (case xc_queue_or_lock (mx_value s) of
        Inl _ \<Rightarrow> mx_panic s
      | Inr (AcquiredGuard, c) \<Rightarrow>
          let (own, slot) = slot_take (mx_handoff s);
              t = mx_put w (k\<lparr>lc_stage := Rechecked\<rparr>)
                    (s\<lparr>mx_value := c, mx_handoff := slot, mx_guards := mx_guards s + 1\<rparr>)
          in if mx_entries s = [] \<and> own = None then t else mx_panic t
      | Inr (Queued, c) \<Rightarrow>
          mx_put w (k\<lparr>lc_stage := Ticketed\<rparr>)
            (s\<lparr>mx_value := c, mx_entries := mx_entries s @ [w], mx_joined := mx_joined s @ [w]\<rparr>))"

text \<open>\<open>release\<close>: dropping a guard.\<close>

definition mx_release :: "'h mutex_sys \<Rightarrow> 'h mutex_sys" where
  "mx_release s =
     (case xc_try_release (mx_value s) of
        Inl _ \<Rightarrow> mx_panic s
      | Inr (None, c) \<Rightarrow> s\<lparr>mx_value := c, mx_guards := mx_guards s - 1\<rparr>
      | Inr (Some own, c) \<Rightarrow>
          s\<lparr>mx_value := c, mx_guards := mx_guards s - 1, mx_runs := Releasing own # mx_runs s\<rparr>)"

text \<open>
  The critical section of one iteration of \<open>release_ownership\<close>; \<open>None\<close> while the recipient is
  binding its target. An accepted offer of a parked recipient leaves a claim to publish.
\<close>

definition mx_release_ownership :: "ownership \<Rightarrow> 'h mutex_sys \<Rightarrow> 'h mutex_sys option" where
  "mx_release_ownership own s =
     (let s0 = s\<lparr>mx_runs := remove1 (Releasing own) (mx_runs s)\<rparr> in
      case mx_entries s of
        [] \<Rightarrow>
          let (o1, slot) = slot_take (mx_handoff s) in
          (case xc_unlock own (mx_value s) of
             Inl _ \<Rightarrow> Some (mx_panic s0)
           | Inr c \<Rightarrow> let t = s0\<lparr>mx_handoff := slot, mx_value := c\<rparr> in Some (if o1 = None then t else mx_panic t))
      | w # rest \<Rightarrow>
          let (held, c) = xc_set_waiters own (rest \<noteq> []) (mx_value s) in
          if \<not> held then Some (mx_panic s0)
          else (case slot_publish own (mx_handoff s) of
                  Inl _ \<Rightarrow> Some (mx_panic s0)
                | Inr slot \<Rightarrow>
                    let t = s0\<lparr>mx_entries := rest, mx_value := c, mx_handoff := slot\<rparr> in
                    (case mx_calls s w of
                       None \<Rightarrow> Some (t\<lparr>mx_runs := Rejected # mx_runs t\<rparr>)
                     | Some k \<Rightarrow>
                         (case rs_offer PermitRes k of
                            None \<Rightarrow> None
                          | Some (True, k') \<Rightarrow> Some (mx_put w k' (t\<lparr>mx_granted := mx_granted s @ [w]\<rparr>))
                          | Some (False, k') \<Rightarrow> Some (mx_put w k' (t\<lparr>mx_runs := Rejected # mx_runs t\<rparr>))))))"

text \<open>After a rejection the loop takes the ownership back.\<close>

definition mx_take_back :: "'h mutex_sys \<Rightarrow> 'h mutex_sys" where
  "mx_take_back s =
     (let (own, slot) = slot_take (mx_handoff s);
          t = s\<lparr>mx_handoff := slot, mx_runs := remove1 Rejected (mx_runs s)\<rparr>
      in (case own of None \<Rightarrow> mx_panic t | Some o1 \<Rightarrow> t\<lparr>mx_runs := Releasing o1 # mx_runs t\<rparr>))"

text \<open>After the park, \<open>Ticket::wait\<close> takes the ownership it was handed; an empty slot is a fault.\<close>

definition mx_collect :: "u64 \<Rightarrow> 'h lock_call \<Rightarrow> 'h mutex_sys \<Rightarrow> 'h mutex_sys" where
  "mx_collect w k s =
     (let (own, slot) = slot_take (mx_handoff s) in
      mx_put w (k\<lparr>lc_stage := (case own of None \<Rightarrow> Failed True | Some o1 \<Rightarrow> OwnershipTaken o1)\<rparr>) (s\<lparr>mx_handoff := slot\<rparr>))"

text \<open>\<open>Mutex::lock\<close> claims the value with the ownership, or releases it and reports a fault.\<close>

definition mx_claim :: "u64 \<Rightarrow> ownership \<Rightarrow> 'h mutex_sys \<Rightarrow> 'h mutex_sys" where
  "mx_claim w own s =
     (case xc_claim own (mx_value s) of
        Inr _ \<Rightarrow> (mx_end w s)\<lparr>mx_guards := mx_guards s + 1\<rparr>
      | Inl o1 \<Rightarrow> (mx_end w s)\<lparr>mx_runs := Releasing o1 # mx_runs s\<rparr>)"

text \<open>The critical section of the ticket's drop.\<close>

definition mx_unlink :: "u64 \<Rightarrow> 'h lock_call \<Rightarrow> bool \<Rightarrow> 'h mutex_sys \<Rightarrow> 'h mutex_sys" where
  "mx_unlink w k selected s =
     (case position (\<lambda>e. e = w) (mx_entries s) of
        Some i \<Rightarrow> mx_put w (k\<lparr>lc_stage := Unlinked True selected\<rparr>) (s\<lparr>mx_entries := remove_at i (mx_entries s)\<rparr>)
      | None \<Rightarrow> mx_put w (k\<lparr>lc_stage := Unlinked False selected\<rparr>) s)"

text \<open>The rest of the drop: a grant that nobody will use is taken from the cell and passed on.\<close>

definition mx_reclaim :: "u64 \<Rightarrow> 'h lock_call \<Rightarrow> bool \<Rightarrow> 'h mutex_sys \<Rightarrow> 'h mutex_sys option" where
  "mx_reclaim w k selected s =
     (if selected then Some (mx_put w (k\<lparr>lc_stage := Abandoning\<rparr>) s)
      else (case rs_take k of
              None \<Rightarrow> None
            | Some (r, k') \<Rightarrow>
                Some (if r = Some PermitRes then mx_put w (k'\<lparr>lc_stage := Abandoning\<rparr>) s else mx_end w s)))"

definition mx_abandon :: "u64 \<Rightarrow> 'h mutex_sys \<Rightarrow> 'h mutex_sys" where
  "mx_abandon w s =
     (let (own, slot) = slot_take (mx_handoff s);
          t = (mx_end w s)\<lparr>mx_handoff := slot\<rparr>
      in (case own of None \<Rightarrow> mx_panic t | Some o1 \<Rightarrow> t\<lparr>mx_runs := Releasing o1 # mx_runs s\<rparr>))"


section \<open>Steps\<close>

text \<open>A call starts on the task's recycled cell.\<close>

definition lock_call_new :: "'h wait_inner \<Rightarrow> 'h lock_call" where
  "lock_call_new c = \<lparr>rs_cell = c, rs_stage = Outside, rs_pubs = [], lc_stage = Reserved\<rparr>"

text \<open>
  \<open>park_permit\<close> sets the selected flag on every outcome and fails on every error. No explicit
  deadline is given, so a timeout is always the inherited one.
\<close>

definition park_result :: "wake_cause \<Rightarrow> instant option \<Rightarrow> lock_stage" where
  "park_result c dl = (case selected_outcome c (dl \<noteq> None) of Inr _ \<Rightarrow> Resumed | Inl _ \<Rightarrow> Failed False)"

definition begin_result :: "wait_begin result \<Rightarrow> instant option \<Rightarrow> lock_stage" where
  "begin_result x dl =
     (case x of Inl _ \<Rightarrow> Failed False | Inr (Immediate c) \<Rightarrow> park_result c dl | Inr (Park _ _) \<Rightarrow> Ticketed)"

inductive mx_step :: "'h mutex_sys \<Rightarrow> 'h mutex_sys \<Rightarrow> bool" where
  try_lock: "xc_try_lock (mx_value s) = Some c \<Longrightarrow> mx_step s (s\<lparr>mx_value := c, mx_guards := mx_guards s + 1\<rparr>)"
| release: "0 < mx_guards s \<Longrightarrow> mx_step s (mx_release s)"
| reserve:
    "mx_calls s w = None \<Longrightarrow> wi_id c = w \<Longrightarrow> cas_exec recycle_body (wi_state c) = Some (v, True) \<Longrightarrow> mx_reserve s = Inr t \<Longrightarrow>
     mx_step s (mx_put w (lock_call_new (c\<lparr>wi_state := v\<rparr>)) t)"
| subscribe: "mx_calls s w = Some k \<Longrightarrow> lc_stage k = Reserved \<Longrightarrow> mx_step s (mx_subscribe w k s)"
| rechecked: "mx_calls s w = Some k \<Longrightarrow> lc_stage k = Rechecked \<Longrightarrow> mx_step s (mx_end w (mx_retire s))"
| begin_park:
    "mx_calls s w = Some k \<Longrightarrow> lc_stage k = Ticketed \<Longrightarrow> rs_stage k = Outside \<Longrightarrow>
     rs_begin task route hub dl now k = Some (x, k') \<Longrightarrow> mx_step s (mx_put w (k'\<lparr>lc_stage := begin_result x dl\<rparr>) s)"
| background: "mx_calls s w = Some k \<Longrightarrow> rs_step k k' \<Longrightarrow> mx_step s (mx_put w k' s)"
| background_panic: "mx_calls s w = Some k \<Longrightarrow> rs_panics k \<Longrightarrow> mx_step s (mx_panic s)"
| resume:
    "mx_calls s w = Some k \<Longrightarrow> lc_stage k = Ticketed \<Longrightarrow> rs_stage k = ParkedWait tok dl \<Longrightarrow> \<not> rs_open k \<Longrightarrow>
     rs_finish True tok k = Some (Inr c, k') \<Longrightarrow> mx_step s (mx_put w (k'\<lparr>lc_stage := park_result c dl\<rparr>) s)"
| fail_early:
    "mx_calls s w = Some k \<Longrightarrow> lc_stage k = Ticketed \<Longrightarrow> rs_stage k = Outside \<Longrightarrow> mx_step s (mx_put w (k\<lparr>lc_stage := Failed False\<rparr>) s)"
| fail_parked:
    "mx_calls s w = Some k \<Longrightarrow> lc_stage k = Ticketed \<Longrightarrow> rs_stage k = ParkedWait tok dl \<Longrightarrow> rs_rollback tok k = Inr k' \<Longrightarrow>
     mx_step s (mx_put w (k'\<lparr>lc_stage := (if rs_stage k' = Outside then Failed False else Ticketed)\<rparr>) s)"
| check_fails: "mx_calls s w = Some k \<Longrightarrow> lc_stage k = Resumed \<Longrightarrow> mx_step s (mx_put w (k\<lparr>lc_stage := Failed True\<rparr>) s)"
| collect: "mx_calls s w = Some k \<Longrightarrow> lc_stage k = Resumed \<Longrightarrow> mx_step s (mx_collect w k s)"
| complete:
    "mx_calls s w = Some k \<Longrightarrow> lc_stage k = OwnershipTaken own \<Longrightarrow>
     mx_step s (mx_put w (k\<lparr>lc_stage := Completed own\<rparr>) (mx_retire s))"
| claim: "mx_calls s w = Some k \<Longrightarrow> lc_stage k = Completed own \<Longrightarrow> mx_step s (mx_claim w own s)"
| unlink: "mx_calls s w = Some k \<Longrightarrow> lc_stage k = Failed selected \<Longrightarrow> mx_step s (mx_unlink w k selected s)"
| unlinked:
    "mx_calls s w = Some k \<Longrightarrow> lc_stage k = Unlinked queued selected \<Longrightarrow>
     mx_step s (if queued then mx_end w (mx_retire s) else mx_put w (k\<lparr>lc_stage := Reclaiming selected\<rparr>) (mx_retire s))"
| reclaim: "mx_calls s w = Some k \<Longrightarrow> lc_stage k = Reclaiming selected \<Longrightarrow> mx_reclaim w k selected s = Some t \<Longrightarrow> mx_step s t"
| abandon: "mx_calls s w = Some k \<Longrightarrow> lc_stage k = Abandoning \<Longrightarrow> mx_step s (mx_abandon w s)"
| release_ownership: "Releasing own \<in> set (mx_runs s) \<Longrightarrow> mx_release_ownership own s = Some t \<Longrightarrow> mx_step s t"
| take_back: "Rejected \<in> set (mx_runs s) \<Longrightarrow> mx_step s (mx_take_back s)"

inductive mx_reach :: "usize \<Rightarrow> 'h mutex_sys \<Rightarrow> bool" for capacity where
  start: "next_identity \<noteq> 0 \<Longrightarrow> mutex_new next_identity capacity = Inr (Inr (s, n)) \<Longrightarrow> mx_reach capacity s"
| step: "mx_reach capacity s \<Longrightarrow> mx_step s t \<Longrightarrow> mx_reach capacity t"

section \<open>Invariant\<close>

text \<open>Calls that hold the ownership, that count as outstanding, and that a grant was made to.\<close>

definition owner_call :: "'h lock_call \<Rightarrow> bool" where
  "owner_call k \<longleftrightarrow> (case lc_stage k of OwnershipTaken _ \<Rightarrow> True | Completed _ \<Rightarrow> True | _ \<Rightarrow> False)"

definition counted :: "'h lock_call \<Rightarrow> bool" where
  "counted k \<longleftrightarrow> (case lc_stage k of Completed _ \<Rightarrow> False | Reclaiming _ \<Rightarrow> False | Abandoning \<Rightarrow> False | _ \<Rightarrow> True)"

definition granted_call :: "'h lock_call \<Rightarrow> bool" where
  "granted_call k \<longleftrightarrow>
     (case lc_stage k of
        Ticketed \<Rightarrow> rs_res k \<noteq> None
      | Resumed \<Rightarrow> True
      | Failed selected \<Rightarrow> selected \<or> rs_res k \<noteq> None
      | Unlinked queued selected \<Rightarrow> selected \<or> rs_res k \<noteq> None
      | Reclaiming selected \<Rightarrow> selected \<or> rs_res k \<noteq> None
      | Abandoning \<Rightarrow> True
      | _ \<Rightarrow> False)"

definition call_ok :: "bool \<Rightarrow> u64 \<Rightarrow> u64 \<Rightarrow> 'h lock_call \<Rightarrow> bool" where
  "call_ok in_line ident w k \<longleftrightarrow>
     rs_ok k \<and> wi_id (rs_cell k) = w \<and> \<not> ww_closed (rs_word k) \<and> (rs_res k = None \<or> rs_res k = Some PermitRes)
     \<and> (lc_stage k \<noteq> Ticketed \<longrightarrow> rs_stage k = Outside)
     \<and> (case lc_stage k of
          Reserved \<Rightarrow> \<not> in_line \<and> rs_res k = None \<and> \<not> ww_permit (rs_word k)
        | Ticketed \<Rightarrow> (rs_stage k = Outside \<longrightarrow> (rs_res k \<noteq> None \<longleftrightarrow> ww_permit (rs_word k)))
             \<and> (in_line \<longrightarrow> rs_res k = None) \<and> (rs_open k \<longrightarrow> in_line)
        | OwnershipTaken own \<Rightarrow> \<not> in_line \<and> own = Ownership ident
        | Completed own \<Rightarrow> \<not> in_line \<and> own = Ownership ident
        | Failed selected \<Rightarrow> in_line \<longrightarrow> \<not> selected \<and> rs_res k = None
        | Unlinked queued selected \<Rightarrow> \<not> in_line \<and> (queued \<longrightarrow> \<not> selected \<and> rs_res k = None)
        | _ \<Rightarrow> \<not> in_line)"

fun is_releasing :: "release_run \<Rightarrow> bool" where
  "is_releasing (Releasing _) = True"
| "is_releasing Rejected = False"

text \<open>The calls and the line agree; every capability is that of this mutex.\<close>

definition mx_lines :: "(u64 \<rightharpoonup> 'h lock_call) \<Rightarrow> u64 list \<Rightarrow> u64 \<Rightarrow> bool" where
  "mx_lines m es ident \<longleftrightarrow>
     finite (dom m) \<and> distinct es \<and> (\<forall>w k. m w = Some k \<longrightarrow> call_ok (w \<in> set es) ident w k) \<and> (\<forall>w \<in> set es. m w \<noteq> None)"

definition mx_caps :: "u64 \<Rightarrow> u64 \<Rightarrow> release_run list \<Rightarrow> bool" where
  "mx_caps ident slot runs \<longleftrightarrow> (slot = 0 \<or> slot = ident) \<and> (\<forall>own. Releasing own \<in> set runs \<longrightarrow> own = Ownership ident)"

text \<open>All capabilities together, and all grants that wait to be collected.\<close>

definition holders :: "'h mutex_sys \<Rightarrow> nat" where
  "holders s = mx_guards s + length (filter is_releasing (mx_runs s)) + tally owner_call (mx_calls s) + of_bool (mx_handoff s \<noteq> 0)"

definition pending :: "'h mutex_sys \<Rightarrow> nat" where
  "pending s = tally granted_call (mx_calls s) + length (filter (\<lambda>r. \<not> is_releasing r) (mx_runs s))"

definition mx_inv :: "'h mutex_sys \<Rightarrow> bool" where
  "mx_inv s \<longleftrightarrow>
     mx_lines (mx_calls s) (mx_entries s) (xc_identity (mx_value s))
     \<and> mx_caps (xc_identity (mx_value s)) (mx_handoff s) (mx_runs s)
     \<and> xc_ok (mx_value s) \<and> (mx_entries s \<noteq> [] \<longrightarrow> xc_marked (mx_value s))
     \<and> holders s = of_bool (xc_held (mx_value s)) \<and> pending s = of_bool (mx_handoff s \<noteq> 0)
     \<and> unat (mx_outstanding s) = tally counted (mx_calls s) \<and> mx_outstanding s \<le> mx_capacity s
     \<and> subseq (mx_granted s @ mx_entries s) (mx_joined s) \<and> \<not> mx_panicked s"

lemma mx_linesD:
  assumes "mx_lines m es i"
  shows "finite (dom m)" "distinct es" "m w = Some k \<Longrightarrow> call_ok (w \<in> set es) i w k" "w \<in> set es \<Longrightarrow> \<exists>k. m w = Some k"
  using assms by (auto simp: mx_lines_def)

lemma lines_put: "mx_lines m es i \<Longrightarrow> call_ok (w \<in> set es) i w k \<Longrightarrow> mx_lines (m(w \<mapsto> k)) es i"
  by (simp add: mx_lines_def)

lemma lines_end: "mx_lines m es i \<Longrightarrow> w \<notin> set es \<Longrightarrow> mx_lines (m(w := None)) es i"
  by (auto simp: mx_lines_def)

lemma lines_join: "mx_lines m es i \<Longrightarrow> w \<notin> set es \<Longrightarrow> call_ok True i w k \<Longrightarrow> mx_lines (m(w \<mapsto> k)) (es @ [w]) i"
  by (simp add: mx_lines_def)

lemma lines_pop:
  assumes "mx_lines m (w # es) i" "call_ok False i w k"
  shows "mx_lines (m(w \<mapsto> k)) es i"
proof -
  have "call_ok (v \<in> set es) i v k'" if "(m(w \<mapsto> k)) v = Some k'" for v k'
    using that mx_linesD(3)[OF assms(1), of v k'] mx_linesD(2)[OF assms(1)] assms(2) by (cases "v = w") auto
  moreover have "finite (dom (m(w \<mapsto> k)))" "distinct es" "\<forall>v \<in> set es. (m(w \<mapsto> k)) v \<noteq> None"
    using mx_linesD(1,2,4)[OF assms(1)] by auto
  ultimately show ?thesis unfolding mx_lines_def by blast
qed

lemma lines_remove: "mx_lines m es i \<Longrightarrow> call_ok False i w k \<Longrightarrow> mx_lines (m(w \<mapsto> k)) (filter (\<lambda>x. x \<noteq> w) es) i"
  by (simp add: mx_lines_def)

lemma mx_put_simps [simp]:
  "mx_value (mx_put w k s) = mx_value s" "mx_outstanding (mx_put w k s) = mx_outstanding s"
  "mx_capacity (mx_put w k s) = mx_capacity s" "mx_entries (mx_put w k s) = mx_entries s"
  "mx_handoff (mx_put w k s) = mx_handoff s" "mx_calls (mx_put w k s) = (mx_calls s)(w \<mapsto> k)"
  "mx_guards (mx_put w k s) = mx_guards s" "mx_runs (mx_put w k s) = mx_runs s" "mx_joined (mx_put w k s) = mx_joined s"
  "mx_granted (mx_put w k s) = mx_granted s" "mx_panicked (mx_put w k s) = mx_panicked s"
  by (simp_all add: mx_put_def)

lemma mx_end_simps [simp]:
  "mx_value (mx_end w s) = mx_value s" "mx_outstanding (mx_end w s) = mx_outstanding s"
  "mx_capacity (mx_end w s) = mx_capacity s" "mx_entries (mx_end w s) = mx_entries s"
  "mx_handoff (mx_end w s) = mx_handoff s" "mx_calls (mx_end w s) = (mx_calls s)(w := None)"
  "mx_guards (mx_end w s) = mx_guards s" "mx_runs (mx_end w s) = mx_runs s" "mx_joined (mx_end w s) = mx_joined s"
  "mx_granted (mx_end w s) = mx_granted s" "mx_panicked (mx_end w s) = mx_panicked s"
  by (simp_all add: mx_end_def)

text \<open>A step that only moves one call, without moving what it holds or counts.\<close>

lemma mx_put_inv:
  assumes "mx_inv s" "mx_calls s w = Some k" "call_ok (w \<in> set (mx_entries s)) (xc_identity (mx_value s)) w k'"
    and "owner_call k' = owner_call k" "granted_call k' = granted_call k" "counted k' = counted k"
  shows "mx_inv (mx_put w k' s)"
proof -
  have l: "mx_lines (mx_calls s) (mx_entries s) (xc_identity (mx_value s))" using assms(1) by (simp add: mx_inv_def)
  have "tally P ((mx_calls s)(w \<mapsto> k')) = tally P (mx_calls s)" if "P k' = P k" for P
    using tally_put[OF mx_linesD(1)[OF l] assms(2), of P k'] that by simp
  with assms l lines_put[OF l assms(3)] show ?thesis by (simp add: mx_inv_def holders_def pending_def)
qed

text \<open>Retiring a counted call.\<close>

lemma mx_retire_counted:
  assumes "mx_inv s" "mx_calls s w = Some k" "counted k"
  shows "mx_retire s = s\<lparr>mx_outstanding := mx_outstanding s - 1\<rparr>" "unat (mx_outstanding s - 1) + 1 = tally counted (mx_calls s)"
    "mx_outstanding s - 1 \<le> mx_capacity s"
proof -
  have "0 < tally counted (mx_calls s)"
    using assms tally_pos[OF mx_linesD(1), of "mx_calls s" "mx_entries s" _ w k counted] by (auto simp: mx_inv_def)
  then have pos: "0 < unat (mx_outstanding s)" "unat (mx_outstanding s) = tally counted (mx_calls s)" "mx_outstanding s \<le> mx_capacity s"
    using assms(1) by (auto simp: mx_inv_def)
  then have "mx_outstanding s \<noteq> 0" by auto
  then show "mx_retire s = s\<lparr>mx_outstanding := mx_outstanding s - 1\<rparr>" by (simp add: mx_retire_def)
  show "unat (mx_outstanding s - 1) + 1 = tally counted (mx_calls s)" "mx_outstanding s - 1 \<le> mx_capacity s"
    using pred_positive[OF pos(1)] pos by auto
qed


section \<open>Preservation\<close>

lemma mx_invD:
  assumes "mx_inv s"
  shows "mx_lines (mx_calls s) (mx_entries s) (xc_identity (mx_value s))"
    "mx_caps (xc_identity (mx_value s)) (mx_handoff s) (mx_runs s)" "xc_ok (mx_value s)"
    "mx_entries s \<noteq> [] \<Longrightarrow> xc_marked (mx_value s)" "holders s = of_bool (xc_held (mx_value s))"
    "pending s = of_bool (mx_handoff s \<noteq> 0)" "unat (mx_outstanding s) = tally counted (mx_calls s)"
    "mx_outstanding s \<le> mx_capacity s" "subseq (mx_granted s @ mx_entries s) (mx_joined s)" "\<not> mx_panicked s"
  using assms by (simp_all add: mx_inv_def)

lemma mx_call: "mx_inv s \<Longrightarrow> mx_calls s w = Some k \<Longrightarrow> call_ok (w \<in> set (mx_entries s)) (xc_identity (mx_value s)) w k"
  using mx_linesD(3) mx_invD(1) by blast

text \<open>The lock operations never change the identity.\<close>

lemma xc_identity_simps:
  "xc_try_lock c = Some d \<Longrightarrow> xc_identity d = xc_identity c" "xc_queue_or_lock c = Inr (q, d) \<Longrightarrow> xc_identity d = xc_identity c"
  "xc_set_waiters own b c = (h, d) \<Longrightarrow> xc_identity d = xc_identity c" "xc_unlock own c = Inr d \<Longrightarrow> xc_identity d = xc_identity c"
  "xc_try_release c = Inr (r, d) \<Longrightarrow> xc_identity d = xc_identity c"
  by (auto simp: xc_try_lock_def xc_queue_or_lock_def xc_set_waiters_def xc_unlock_def xc_try_release_def
      queue_or_lock_body_def split: if_splits)

text \<open>A live guard is the only capability.\<close>

lemma guard_alone:
  assumes "mx_inv s" "0 < mx_guards s"
  shows "xc_held (mx_value s)" "mx_guards s = 1" "filter is_releasing (mx_runs s) = []" "tally owner_call (mx_calls s) = 0" "mx_handoff s = 0"
proof -
  have "mx_guards s + length (filter is_releasing (mx_runs s)) + tally owner_call (mx_calls s) + of_bool (mx_handoff s \<noteq> 0)
      = of_bool (xc_held (mx_value s))" using mx_invD(5)[OF assms(1)] by (simp add: holders_def)
  moreover have "of_bool (xc_held (mx_value s)) \<le> (1 :: nat)" by simp
  ultimately have "of_bool (xc_held (mx_value s)) = (1 :: nat)" "mx_guards s = 1" "length (filter is_releasing (mx_runs s)) = 0"
    "tally owner_call (mx_calls s) = 0" "of_bool (mx_handoff s \<noteq> 0) = (0 :: nat)"
    using assms(2) by linarith+
  then show "xc_held (mx_value s)" "mx_guards s = 1" "filter is_releasing (mx_runs s) = []" "tally owner_call (mx_calls s) = 0" "mx_handoff s = 0"
    by (simp_all only: of_bool_eq_iff of_bool_eq_0_iff of_bool_eq_1_iff length_0_conv) simp_all
qed

lemma try_lock_inv:
  assumes "mx_inv s" "xc_try_lock (mx_value s) = Some c"
  shows "mx_inv (s\<lparr>mx_value := c, mx_guards := mx_guards s + 1\<rparr>)"
proof -
  note i = mx_invD[OF assms(1)]
  have c: "\<not> xc_held (mx_value s)" "xc_ok c" "xc_held c" using xc.try_lock[OF i(3) assms(2)] by auto
  moreover have "mx_entries s = []" using xc.free_unmarked[OF i(3) c(1)] i(4) by blast
  ultimately show ?thesis using i xc_identity_simps(1)[OF assms(2)] by (simp add: mx_inv_def holders_def pending_def)
qed

lemma release_inv:
  assumes "mx_inv s" "0 < mx_guards s"
  shows "mx_inv (mx_release s)"
proof -
  note i = mx_invD[OF assms(1)]
  note held = guard_alone(1)[OF assms] and h = guard_alone(2-)[OF assms]
  show ?thesis
  proof (cases "xc_marked (mx_value s)")
    case False
    obtain c where c: "xc_try_release (mx_value s) = Inr (None, c)" "xc_ok c" "\<not> xc_held c"
      using xc.release_free[OF i(3) held False] by blast
    moreover have "mx_entries s = []" using False i(4) by blast
    ultimately show ?thesis using i xc_identity_simps(5)[OF c(1)] h by (simp add: mx_inv_def mx_release_def holders_def pending_def)
  next
    case True
    obtain own where own: "xc_try_release (mx_value s) = Inr (Some own, mx_value s)" "xc_valid own (mx_value s)"
      using xc.release_contended[OF i(3) held True] by blast
    then have "own = Ownership (xc_identity (mx_value s))" by (cases own) (simp add: xc_valid_def)
    with own(1) i h held show ?thesis by (auto simp: mx_inv_def mx_release_def holders_def pending_def mx_caps_def)
  qed
qed

lemma recycled_call:
  "cas_exec recycle_body (wi_state c) = Some (v, True) \<Longrightarrow> wi_id c = w \<Longrightarrow>
   call_ok False i w (lock_call_new (c\<lparr>wi_state := v\<rparr>))"
  by (auto simp: cas_exec_def recycle_body_def call_ok_def lock_call_new_def rs_ok_def split: if_splits)

lemma reserve_inv:
  assumes "mx_inv s" "mx_calls s w = None" "wi_id c = w" "cas_exec recycle_body (wi_state c) = Some (v, True)" "mx_reserve s = Inr t"
  shows "mx_inv (mx_put w (lock_call_new (c\<lparr>wi_state := v\<rparr>)) t)"
proof -
  note i = mx_invD[OF assms(1)]
  let ?k = "lock_call_new (c\<lparr>wi_state := v\<rparr>)"
  have w: "w \<notin> set (mx_entries s)" using mx_linesD(4)[OF i(1), of w] assms(2) by auto
  then have l: "mx_lines ((mx_calls s)(w \<mapsto> ?k)) (mx_entries s) (xc_identity (mx_value s))"
    using lines_put[OF i(1)] recycled_call[OF assms(4,3)] by simp
  have lt: "mx_outstanding s < mx_capacity s" and t: "t = s\<lparr>mx_outstanding := mx_outstanding s + 1\<rparr>"
    using assms(5) by (auto simp: mx_reserve_def split: if_splits)
  have "unat (mx_outstanding s + 1) = unat (mx_outstanding s) + 1" "mx_outstanding s + 1 \<le> mx_capacity s"
    using succ_below[OF lt] by simp_all
  moreover have "owner_call ?k = False" "granted_call ?k = False" "counted ?k"
    by (simp_all add: lock_call_new_def owner_call_def granted_call_def counted_def)
  then have "tally owner_call ((mx_calls s)(w \<mapsto> ?k)) = tally owner_call (mx_calls s)"
    "tally granted_call ((mx_calls s)(w \<mapsto> ?k)) = tally granted_call (mx_calls s)"
    "tally counted ((mx_calls s)(w \<mapsto> ?k)) = tally counted (mx_calls s) + 1"
    using tally_add[OF mx_linesD(1)[OF i(1)] assms(2)] by simp_all
  ultimately show ?thesis using i l t by (simp add: mx_inv_def holders_def pending_def)
qed


lemma rs_stage_update [simp]: "rs_ok (k\<lparr>lc_stage := x\<rparr>) = rs_ok k" "rs_open (k\<lparr>lc_stage := x\<rparr>) = rs_open k"
  by (simp_all add: rs_ok_def rs_open_def split: park_stage.split)

lemma call_ok_subscribe:
  "call_ok b i w k \<Longrightarrow> lc_stage k = Reserved \<Longrightarrow> \<not> b \<and> call_ok False i w (k\<lparr>lc_stage := Rechecked\<rparr>) \<and> call_ok True i w (k\<lparr>lc_stage := Ticketed\<rparr>)"
  by (simp add: call_ok_def)

lemma subscribe_inv:
  assumes "mx_inv s" "mx_calls s w = Some k" "lc_stage k = Reserved"
  shows "mx_inv (mx_subscribe w k s)"
proof -
  note i = mx_invD[OF assms(1)] and f = mx_linesD(1)[OF mx_invD(1)[OF assms(1)]]
  note k = call_ok_subscribe[OF mx_call[OF assms(1,2)] assms(3)]
  have t: "tally owner_call ((mx_calls s)(w \<mapsto> k\<lparr>lc_stage := x\<rparr>)) = tally owner_call (mx_calls s)"
      "tally granted_call ((mx_calls s)(w \<mapsto> k\<lparr>lc_stage := x\<rparr>)) = tally granted_call (mx_calls s)"
      "tally counted ((mx_calls s)(w \<mapsto> k\<lparr>lc_stage := x\<rparr>)) = tally counted (mx_calls s)"
    if "x = Rechecked \<or> x = Ticketed \<and> rs_res k = None" for x
    using tally_put[OF f assms(2), of owner_call "k\<lparr>lc_stage := x\<rparr>"] tally_put[OF f assms(2), of granted_call "k\<lparr>lc_stage := x\<rparr>"]
      tally_put[OF f assms(2), of counted "k\<lparr>lc_stage := x\<rparr>"] that
    by (auto simp: owner_call_def granted_call_def counted_def assms(3))
  show ?thesis
  proof (cases "xc_held (mx_value s)")
    case False
    obtain c where c: "xc_queue_or_lock (mx_value s) = Inr (AcquiredGuard, c)" "xc_ok c" "xc_held c"
      using xc.queue_acquires[OF i(3) False] by blast
    have h: "mx_guards s + length (filter is_releasing (mx_runs s)) + tally owner_call (mx_calls s) + of_bool (mx_handoff s \<noteq> 0) = (0 :: nat)"
      using i(5) False by (simp add: holders_def)
    then have slot: "mx_handoff s = 0" by (auto split: if_splits)
    have e: "mx_entries s = []" using xc.free_unmarked[OF i(3) False] i(4) by blast
    have "mx_lines ((mx_calls s)(w \<mapsto> k\<lparr>lc_stage := Rechecked\<rparr>)) (mx_entries s) (xc_identity (mx_value s))"
      using lines_put[OF i(1)] k by simp
    then show ?thesis using i c h slot e t[of Rechecked] xc_identity_simps(2)[OF c(1)]
      by (simp add: mx_subscribe_def slot_take_def mx_inv_def holders_def pending_def)
  next
    case True
    obtain c where c: "xc_queue_or_lock (mx_value s) = Inr (Queued, c)" "xc_ok c" "xc_held c" "xc_marked c"
      using xc.queue_marks[OF i(3) True] by blast
    have "mx_lines ((mx_calls s)(w \<mapsto> k\<lparr>lc_stage := Ticketed\<rparr>)) (mx_entries s @ [w]) (xc_identity (mx_value s))"
      using lines_join[OF i(1), of w] k by simp
    moreover have "rs_res k = None" using mx_call[OF assms(1,2)] assms(3) by (simp add: call_ok_def)
    moreover have "subseq (mx_granted s @ mx_entries s @ [w]) (mx_joined s @ [w])"
      using i(9) by (metis append_assoc list_emb_append_mono subseq_order.order_refl)
    ultimately show ?thesis using i c True t[of Ticketed] xc_identity_simps(2)[OF c(1)]
      by (simp add: mx_subscribe_def mx_inv_def holders_def pending_def)
  qed
qed

text \<open>A call leaves the system, or moves on, giving its slot back.\<close>

lemma retire_end_inv:
  assumes "mx_inv s" "mx_calls s w = Some k" "counted k" "\<not> owner_call k" "\<not> granted_call k" "w \<notin> set (mx_entries s)"
  shows "mx_inv (mx_end w (mx_retire s))"
proof -
  note i = mx_invD[OF assms(1)] and f = mx_linesD(1)[OF mx_invD(1)[OF assms(1)]]
  note r = mx_retire_counted[OF assms(1-3)]
  have "tally owner_call ((mx_calls s)(w := None)) = tally owner_call (mx_calls s)"
    "tally granted_call ((mx_calls s)(w := None)) = tally granted_call (mx_calls s)"
    "tally counted ((mx_calls s)(w := None)) + 1 = tally counted (mx_calls s)"
    using tally_del[OF f assms(2), of owner_call] tally_del[OF f assms(2), of granted_call] tally_del[OF f assms(2), of counted] assms(3-5)
    by simp_all
  with i r lines_end[OF i(1) assms(6)] show ?thesis by (simp add: mx_inv_def holders_def pending_def)
qed

lemma retire_put_inv:
  assumes "mx_inv s" "mx_calls s w = Some k" "counted k" "\<not> counted k'" "owner_call k' = owner_call k" "granted_call k' = granted_call k"
    and "call_ok (w \<in> set (mx_entries s)) (xc_identity (mx_value s)) w k'"
  shows "mx_inv (mx_put w k' (mx_retire s))"
proof -
  note i = mx_invD[OF assms(1)] and f = mx_linesD(1)[OF mx_invD(1)[OF assms(1)]]
  note r = mx_retire_counted[OF assms(1-3)]
  have "tally owner_call ((mx_calls s)(w \<mapsto> k')) = tally owner_call (mx_calls s)"
    "tally granted_call ((mx_calls s)(w \<mapsto> k')) = tally granted_call (mx_calls s)"
    "tally counted ((mx_calls s)(w \<mapsto> k')) + 1 = tally counted (mx_calls s)"
    using tally_put[OF f assms(2), of owner_call k'] tally_put[OF f assms(2), of granted_call k'] tally_put[OF f assms(2), of counted k'] assms(3-6)
    by simp_all
  with i r lines_put[OF i(1) assms(7)] show ?thesis by (simp add: mx_inv_def holders_def pending_def)
qed


text \<open>The steps of one call's park: neither the line nor any capability moves.\<close>

lemma lc_stage_more: "resident.more q = resident.more r \<Longrightarrow> lc_stage q = lc_stage r"
  by (cases q; cases r) simp

lemmas lock_call_defs = call_ok_def owner_call_def granted_call_def counted_def

lemma ticketed_ok:
  assumes "call_ok b i w k" "lc_stage k = Ticketed"
  shows "rs_ok k" "wi_id (rs_cell k) = w" "\<not> ww_closed (rs_word k)" "rs_res k = None \<or> rs_res k = Some PermitRes"
    "rs_stage k = Outside \<Longrightarrow> rs_res k \<noteq> None \<longleftrightarrow> ww_permit (rs_word k)" "b \<Longrightarrow> rs_res k = None" "rs_open k \<Longrightarrow> b"
  using assms by (simp_all add: call_ok_def)

lemma begin_call:
  assumes "call_ok b i w k" "lc_stage k = Ticketed" "rs_stage k = Outside" "rs_begin task route hub dl now k = Some (x, k')"
  shows "call_ok b i w (k'\<lparr>lc_stage := begin_result x dl\<rparr>) \<and> owner_call (k'\<lparr>lc_stage := begin_result x dl\<rparr>) = owner_call k
    \<and> granted_call (k'\<lparr>lc_stage := begin_result x dl\<rparr>) = granted_call k \<and> counted (k'\<lparr>lc_stage := begin_result x dl\<rparr>) = counted k"
proof -
  note k = ticketed_ok[OF assms(1,2)]
  note c = rs_begin_cases[OF assms(4) k(1) assms(3) k(5)[OF assms(3)]]
  show ?thesis
  proof (cases x)
    case (Inl e)
    with c assms k show ?thesis by (auto simp: begin_result_def lock_call_defs)
  next
    case (Inr y)
    show ?thesis
    proof (cases y)
      case (Immediate cause)
      with Inr c assms(2,3) k show ?thesis
        by (cases cause) (auto simp: begin_result_def park_result_def lock_call_defs)
    next
      case (Park tok d)
      with Inr c assms(2) k show ?thesis by (auto simp: begin_result_def lock_call_defs)
    qed
  qed
qed

lemma resume_call:
  assumes "call_ok b i w k" "lc_stage k = Ticketed" "rs_stage k = ParkedWait tok dl" "\<not> rs_open k" "rs_finish True tok k = Some (Inr c, k')"
  shows "call_ok b i w (k'\<lparr>lc_stage := park_result c dl\<rparr>) \<and> owner_call (k'\<lparr>lc_stage := park_result c dl\<rparr>) = owner_call k
    \<and> granted_call (k'\<lparr>lc_stage := park_result c dl\<rparr>) = granted_call k \<and> counted (k'\<lparr>lc_stage := park_result c dl\<rparr>) = counted k"
proof -
  note k = ticketed_ok[OF assms(1,2)]
  note f = rs_finish_cases[OF assms(5) k(1) assms(3,4)]
  then show ?thesis using k assms(2) by (cases c) (auto simp: park_result_def lock_call_defs)
qed

lemma background_call:
  assumes "call_ok b i w k" "rs_step k k'"
  shows "call_ok b i w k' \<and> owner_call k' = owner_call k \<and> granted_call k' = granted_call k \<and> counted k' = counted k"
proof -
  have "rs_keeps k k'" using rs_step_keeps[OF assms(2)] assms(1) by (simp add: call_ok_def)
  moreover from this have "lc_stage k' = lc_stage k" using lc_stage_more[of k' k] by (simp add: rs_keeps_def)
  moreover have "lc_stage k = Ticketed" using calculation(1) assms(1) by (auto simp: rs_keeps_def call_ok_def)
  ultimately show ?thesis using assms(1) by (auto simp: rs_keeps_def lock_call_defs)
qed

lemma fail_parked_call:
  assumes "call_ok b i w k" "lc_stage k = Ticketed" "rs_stage k = ParkedWait tok dl" "rs_rollback tok k = Inr k'"
  defines "q \<equiv> k'\<lparr>lc_stage := (if rs_stage k' = Outside then Failed False else Ticketed)\<rparr>"
  shows "call_ok b i w q \<and> owner_call q = owner_call k \<and> granted_call q = granted_call k \<and> counted q = counted k"
proof -
  note k = ticketed_ok[OF assms(1,2)]
  from rs_rollback_cases[OF assms(4) k(1) assms(3)] show ?thesis
    using k assms(2) by (auto simp: q_def lock_call_defs)
qed

lemma stage_call:
  assumes "call_ok b i w k" "lc_stage k = Ticketed \<and> rs_stage k = Outside \<and> x = Failed False \<or> lc_stage k = Resumed \<and> x = Failed True"
  shows "call_ok b i w (k\<lparr>lc_stage := x\<rparr>) \<and> owner_call (k\<lparr>lc_stage := x\<rparr>) = owner_call k
    \<and> granted_call (k\<lparr>lc_stage := x\<rparr>) = granted_call k \<and> counted (k\<lparr>lc_stage := x\<rparr>) = counted k"
  using assms by (auto simp: lock_call_defs)


text \<open>What the counts say about the mailbox.\<close>

lemma granted_slot: "mx_inv s \<Longrightarrow> mx_calls s w = Some k \<Longrightarrow> granted_call k \<Longrightarrow> mx_handoff s = xc_identity (mx_value s) \<and> xc_identity (mx_value s) \<noteq> 0"
  using tally_pos[OF mx_linesD(1)[OF mx_invD(1)], of s w k granted_call] mx_invD(6)[of s] mx_invD(2)[of s]
  by (auto simp: pending_def mx_caps_def split: if_splits)

lemma rejected_slot: "mx_inv s \<Longrightarrow> Rejected \<in> set (mx_runs s) \<Longrightarrow> mx_handoff s = xc_identity (mx_value s) \<and> xc_identity (mx_value s) \<noteq> 0"
  using length_filter_remove1[of Rejected "mx_runs s" "\<lambda>r. \<not> is_releasing r"] mx_invD(6)[of s] mx_invD(2)[of s]
  by (auto simp: pending_def mx_caps_def split: if_splits)

text \<open>An ownership outside the mailbox leaves the mailbox empty and the cell held.\<close>

lemma owner_alone:
  assumes "mx_inv s" "0 < length (filter is_releasing (mx_runs s)) + tally owner_call (mx_calls s)"
  shows "xc_held (mx_value s)" "mx_guards s = 0" "mx_handoff s = 0"
    "length (filter is_releasing (mx_runs s)) + tally owner_call (mx_calls s) = 1"
proof -
  have "mx_guards s + (length (filter is_releasing (mx_runs s)) + tally owner_call (mx_calls s)) + of_bool (mx_handoff s \<noteq> 0)
      = of_bool (xc_held (mx_value s))" using mx_invD(5)[OF assms(1)] by (simp add: holders_def)
  moreover have "of_bool (xc_held (mx_value s)) \<le> (1 :: nat)" by simp
  ultimately have "of_bool (xc_held (mx_value s)) = (1 :: nat)" "mx_guards s = 0" "of_bool (mx_handoff s \<noteq> 0) = (0 :: nat)"
    "length (filter is_releasing (mx_runs s)) + tally owner_call (mx_calls s) = 1"
    using assms(2) by linarith+
  then show "xc_held (mx_value s)" "mx_guards s = 0" "mx_handoff s = 0"
    "length (filter is_releasing (mx_runs s)) + tally owner_call (mx_calls s) = 1"
    by (simp_all only: of_bool_eq_iff of_bool_eq_0_iff of_bool_eq_1_iff) simp_all
qed

lemma collect_inv:
  assumes "mx_inv s" "mx_calls s w = Some k" "lc_stage k = Resumed"
  shows "mx_inv (mx_collect w k s)"
proof -
  note i = mx_invD[OF assms(1)] and f = mx_linesD(1)[OF mx_invD(1)[OF assms(1)]] and c = mx_call[OF assms(1,2)]
  let ?k = "k\<lparr>lc_stage := OwnershipTaken (Ownership (xc_identity (mx_value s)))\<rparr>"
  have g: "granted_call k" using assms(3) by (simp add: granted_call_def)
  note slot = granted_slot[OF assms(1,2) g]
  have "call_ok (w \<in> set (mx_entries s)) (xc_identity (mx_value s)) w ?k" using c assms(3) by (simp add: call_ok_def)
  moreover have "tally owner_call ((mx_calls s)(w \<mapsto> ?k)) = tally owner_call (mx_calls s) + 1"
    "tally granted_call ((mx_calls s)(w \<mapsto> ?k)) + 1 = tally granted_call (mx_calls s)"
    "tally counted ((mx_calls s)(w \<mapsto> ?k)) = tally counted (mx_calls s)"
    using tally_put[OF f assms(2), of owner_call ?k] tally_put[OF f assms(2), of granted_call ?k] tally_put[OF f assms(2), of counted ?k] assms(3)
    by (simp_all add: owner_call_def granted_call_def counted_def)
  moreover have "mx_collect w k s = mx_put w ?k (s\<lparr>mx_handoff := 0\<rparr>)" using slot by (simp add: mx_collect_def slot_take_def)
  moreover have "holders (mx_put w ?k (s\<lparr>mx_handoff := 0\<rparr>)) = holders s" "pending (mx_put w ?k (s\<lparr>mx_handoff := 0\<rparr>)) + 1 = pending s"
    using calculation(2-4) slot by (simp_all add: holders_def pending_def)
  ultimately show ?thesis using i slot lines_put[OF i(1)] by (simp add: mx_inv_def mx_caps_def)
qed

lemma claim_inv:
  assumes "mx_inv s" "mx_calls s w = Some k" "lc_stage k = Completed own"
  shows "mx_inv (mx_claim w own s)"
proof -
  note i = mx_invD[OF assms(1)] and f = mx_linesD(1)[OF mx_invD(1)[OF assms(1)]] and c = mx_call[OF assms(1,2)]
  have w: "w \<notin> set (mx_entries s)" "own = Ownership (xc_identity (mx_value s))" using c assms(3) by (simp_all add: call_ok_def)
  have t: "tally owner_call ((mx_calls s)(w := None)) + 1 = tally owner_call (mx_calls s)"
    "tally granted_call ((mx_calls s)(w := None)) = tally granted_call (mx_calls s)"
    "tally counted ((mx_calls s)(w := None)) = tally counted (mx_calls s)"
    using tally_del[OF f assms(2), of owner_call] tally_del[OF f assms(2), of granted_call] tally_del[OF f assms(2), of counted] assms(3)
    by (simp_all add: owner_call_def granted_call_def counted_def)
  then have "xc_owns own (mx_value s)" using owner_alone(1)[OF assms(1)] w(2) by (simp add: xc_owns_def xc_held_def)
  then show ?thesis using i t lines_end[OF i(1) w(1)]
    by (simp add: mx_claim_def xc_claim_def mx_inv_def holders_def pending_def)
qed

lemma unlink_inv:
  assumes "mx_inv s" "mx_calls s w = Some k" "lc_stage k = Failed sel"
  shows "mx_inv (mx_unlink w k sel s)"
proof -
  note i = mx_invD[OF assms(1)] and f = mx_linesD(1)[OF mx_invD(1)[OF assms(1)]] and c = mx_call[OF assms(1,2)]
  show ?thesis
  proof (cases "w \<in> set (mx_entries s)")
    case False
    then have "mx_unlink w k sel s = mx_put w (k\<lparr>lc_stage := Unlinked False sel\<rparr>) s"
      using position_None_iff[of "\<lambda>e. e = w" "mx_entries s"] by (auto simp: mx_unlink_def)
    moreover have "mx_inv (mx_put w (k\<lparr>lc_stage := Unlinked False sel\<rparr>) s)"
      by (rule mx_put_inv[OF assms(1,2)]) (use c False assms(3) in \<open>auto simp: lock_call_defs\<close>)
    ultimately show ?thesis by simp
  next
    case True
    let ?k = "k\<lparr>lc_stage := Unlinked True sel\<rparr>"
    let ?es = "filter (\<lambda>x. x \<noteq> w) (mx_entries s)"
    obtain j where j: "position (\<lambda>e. e = w) (mx_entries s) = Some j"
      using True position_None_iff[of "\<lambda>e. e = w" "mx_entries s"] by (cases "position (\<lambda>e. e = w) (mx_entries s)") auto
    have u: "mx_unlink w k sel s = mx_put w ?k (s\<lparr>mx_entries := ?es\<rparr>)"
      using j remove_at_position[OF mx_linesD(2)[OF i(1)] j] by (simp add: mx_unlink_def)
    have "call_ok False (xc_identity (mx_value s)) w ?k" using c True assms(3) by (simp add: call_ok_def)
    moreover have "tally P ((mx_calls s)(w \<mapsto> ?k)) = tally P (mx_calls s)" if "P ?k = P k" for P
      using tally_put[OF f assms(2), of P ?k] that by simp
    moreover have "owner_call ?k = owner_call k" "granted_call ?k = granted_call k" "counted ?k = counted k"
      using assms(3) by (simp_all add: owner_call_def granted_call_def counted_def)
    moreover have "subseq (mx_granted s @ ?es) (mx_joined s)"
      using i(9) subseq_filter_left[of "\<lambda>x. x \<noteq> w" "mx_entries s"]
      by (meson list_emb_append_mono subseq_order.order_trans subseq_order.order_refl)
    moreover have "?es \<noteq> [] \<longrightarrow> mx_entries s \<noteq> []" by auto
    ultimately show ?thesis using i lines_remove[OF i(1)] by (simp add: u mx_inv_def holders_def pending_def)
  qed
qed


lemma reclaim_inv:
  assumes "mx_inv s" "mx_calls s w = Some k" "lc_stage k = Reclaiming sel" "mx_reclaim w k sel s = Some t"
  shows "mx_inv t"
proof -
  note i = mx_invD[OF assms(1)] and f = mx_linesD(1)[OF mx_invD(1)[OF assms(1)]] and c = mx_call[OF assms(1,2)]
  have k: "rs_ok k" "rs_stage k = Outside" "w \<notin> set (mx_entries s)" "rs_res k = None \<or> rs_res k = Some PermitRes"
    using c assms(3) by (simp_all add: call_ok_def)
  show ?thesis
  proof (cases sel)
    case True
    then have "t = mx_put w (k\<lparr>lc_stage := Abandoning\<rparr>) s" using assms(4) by (simp add: mx_reclaim_def)
    moreover have "mx_inv (mx_put w (k\<lparr>lc_stage := Abandoning\<rparr>) s)"
      by (rule mx_put_inv[OF assms(1,2)]) (use c assms(3) True in \<open>auto simp: lock_call_defs\<close>)
    ultimately show ?thesis by simp
  next
    case False
    then obtain r k' where rk: "rs_take k = Some (r, k')"
        "t = (if r = Some PermitRes then mx_put w (k'\<lparr>lc_stage := Abandoning\<rparr>) s else mx_end w s)"
      using assms(4) by (auto simp: mx_reclaim_def split: option.splits)
    note tk = rs_take_cases[OF rk(1) k(1,2)]
    show ?thesis
    proof (cases "rs_res k")
      case None
      have "tally P ((mx_calls s)(w := None)) = tally P (mx_calls s)" if "\<not> P k" for P
        using tally_del[OF f assms(2), of P] that by simp
      moreover have "\<not> owner_call k" "\<not> granted_call k" "\<not> counted k"
        using assms(3) False None by (simp_all add: owner_call_def granted_call_def counted_def)
      ultimately show ?thesis using tk None rk(2) i lines_end[OF i(1) k(3)] by (simp add: mx_inv_def holders_def pending_def)
    next
      case (Some x)
      then have "t = mx_put w (k'\<lparr>lc_stage := Abandoning\<rparr>) s" using tk rk(2) k(4) by auto
      moreover have "mx_inv (mx_put w (k'\<lparr>lc_stage := Abandoning\<rparr>) s)"
        by (rule mx_put_inv[OF assms(1,2)]) (use c assms(3) False Some tk in \<open>auto simp: lock_call_defs\<close>)
      ultimately show ?thesis by simp
    qed
  qed
qed

lemma abandon_inv:
  assumes "mx_inv s" "mx_calls s w = Some k" "lc_stage k = Abandoning"
  shows "mx_inv (mx_abandon w s)"
proof -
  note i = mx_invD[OF assms(1)] and f = mx_linesD(1)[OF mx_invD(1)[OF assms(1)]] and c = mx_call[OF assms(1,2)]
  have w: "w \<notin> set (mx_entries s)" using c assms(3) by (simp add: call_ok_def)
  have g: "granted_call k" "\<not> owner_call k" "\<not> counted k" using assms(3) by (simp_all add: granted_call_def owner_call_def counted_def)
  note slot = granted_slot[OF assms(1,2) g(1)]
  let ?t = "(mx_end w s)\<lparr>mx_handoff := 0, mx_runs := Releasing (Ownership (xc_identity (mx_value s))) # mx_runs s\<rparr>"
  have t: "tally owner_call ((mx_calls s)(w := None)) = tally owner_call (mx_calls s)"
    "tally granted_call ((mx_calls s)(w := None)) + 1 = tally granted_call (mx_calls s)"
    "tally counted ((mx_calls s)(w := None)) = tally counted (mx_calls s)"
    using tally_del[OF f assms(2), of owner_call] tally_del[OF f assms(2), of granted_call] tally_del[OF f assms(2), of counted] g
    by simp_all
  moreover have "mx_abandon w s = ?t" using slot by (simp add: mx_abandon_def slot_take_def)
  moreover have "holders ?t = holders s" "pending ?t + 1 = pending s" using t slot by (simp_all add: holders_def pending_def)
  ultimately show ?thesis using i slot lines_end[OF i(1) w] by (simp add: mx_inv_def mx_caps_def)
qed

lemma take_back_inv:
  assumes "mx_inv s" "Rejected \<in> set (mx_runs s)"
  shows "mx_inv (mx_take_back s)"
proof -
  note i = mx_invD[OF assms(1)] and slot = rejected_slot[OF assms]
  let ?t = "s\<lparr>mx_handoff := 0, mx_runs := Releasing (Ownership (xc_identity (mx_value s))) # remove1 Rejected (mx_runs s)\<rparr>"
  have r: "length (filter is_releasing (remove1 Rejected (mx_runs s))) = length (filter is_releasing (mx_runs s))"
    "length (filter (\<lambda>r. \<not> is_releasing r) (remove1 Rejected (mx_runs s))) + 1 = length (filter (\<lambda>r. \<not> is_releasing r) (mx_runs s))"
    using length_filter_remove1[OF assms(2), of is_releasing] length_filter_remove1[OF assms(2), of "\<lambda>r. \<not> is_releasing r"] by simp_all
  have "mx_take_back s = ?t" using slot by (simp add: mx_take_back_def slot_take_def)
  moreover have "holders ?t = holders s" "pending ?t + 1 = pending s" using r slot by (simp_all add: holders_def pending_def)
  moreover have "set (remove1 Rejected (mx_runs s)) \<subseteq> set (mx_runs s)" by (rule set_remove1_subset)
  ultimately show ?thesis using i slot by (auto simp: mx_inv_def mx_caps_def)
qed


text \<open>What one iteration of a release finds.\<close>

lemma releasing_state:
  assumes "mx_inv s" "Releasing own \<in> set (mx_runs s)"
  shows "own = Ownership (xc_identity (mx_value s))" "xc_held (mx_value s)" "mx_guards s = 0" "mx_handoff s = 0"
    "length (filter is_releasing (remove1 (Releasing own) (mx_runs s))) + tally owner_call (mx_calls s) = 0"
    "filter (\<lambda>r. \<not> is_releasing r) (remove1 (Releasing own) (mx_runs s)) = []" "tally granted_call (mx_calls s) = 0"
    "mx_caps (xc_identity (mx_value s)) slot runs \<longleftrightarrow> (slot = 0 \<or> slot = xc_identity (mx_value s)) \<and>
       (\<forall>o1. Releasing o1 \<in> set runs \<longrightarrow> o1 = Ownership (xc_identity (mx_value s)))"
proof -
  note i = mx_invD[OF assms(1)]
  show own: "own = Ownership (xc_identity (mx_value s))" using i(2) assms(2) by (simp add: mx_caps_def)
  have l: "length (filter is_releasing (remove1 (Releasing own) (mx_runs s))) + 1 = length (filter is_releasing (mx_runs s))"
    "length (filter (\<lambda>r. \<not> is_releasing r) (remove1 (Releasing own) (mx_runs s))) = length (filter (\<lambda>r. \<not> is_releasing r) (mx_runs s))"
    using length_filter_remove1[OF assms(2), of is_releasing] length_filter_remove1[OF assms(2), of "\<lambda>r. \<not> is_releasing r"] by simp_all
  then have pos: "0 < length (filter is_releasing (mx_runs s)) + tally owner_call (mx_calls s)" by linarith
  note a = owner_alone[OF assms(1) pos]
  show "xc_held (mx_value s)" "mx_guards s = 0" "mx_handoff s = 0" using a by simp_all
  show "length (filter is_releasing (remove1 (Releasing own) (mx_runs s))) + tally owner_call (mx_calls s) = 0" using a(4) l(1) by linarith
  have "tally granted_call (mx_calls s) + length (filter (\<lambda>r. \<not> is_releasing r) (mx_runs s)) = 0" using i(6) a(3) by (simp add: pending_def)
  then show "filter (\<lambda>r. \<not> is_releasing r) (remove1 (Releasing own) (mx_runs s)) = []" "tally granted_call (mx_calls s) = 0"
    using l(2) by simp_all
qed (simp add: mx_caps_def)

text \<open>Offering the lock to the head of the line.\<close>

lemma offer_call:
  assumes "call_ok True i w k" "rs_offer PermitRes k = Some (b, k')"
  shows "call_ok False i w k'" "owner_call k' = owner_call k" "counted k' = counted k" "\<not> granted_call k" "granted_call k' \<longleftrightarrow> b" "b \<longleftrightarrow> rs_open k"
proof -
  have k: "rs_ok k" using assms(1) by (simp add: call_ok_def)
  note o1 = rs_offer_cases[OF assms(2) k]
  have st: "lc_stage k' = lc_stage k" using o1 lc_stage_more[of k' k] by simp
  have stage: "lc_stage k = Ticketed \<or> lc_stage k = Failed False" and res: "rs_res k = None"
    using assms(1) by (auto simp: call_ok_def split: lock_stage.splits)
  show "call_ok False i w k'" "owner_call k' = owner_call k" "counted k' = counted k" "\<not> granted_call k" "granted_call k' \<longleftrightarrow> b" "b \<longleftrightarrow> rs_open k"
    using stage res st o1 assms(1) by (auto simp: lock_call_defs split: if_splits)
qed

lemma release_ownership_inv:
  assumes "mx_inv s" "Releasing own \<in> set (mx_runs s)" "mx_release_ownership own s = Some t"
  shows "mx_inv t"
proof -
  note i = mx_invD[OF assms(1)] and f = mx_linesD(1)[OF mx_invD(1)[OF assms(1)]] and r = releasing_state[OF assms(1,2)]
  let ?runs = "remove1 (Releasing own) (mx_runs s)"
  have caps: "mx_caps (xc_identity (mx_value s)) 0 ?runs" "mx_caps (xc_identity (mx_value s)) (xc_identity (mx_value s)) ?runs"
    "mx_caps (xc_identity (mx_value s)) (xc_identity (mx_value s)) (Rejected # ?runs)"
    using i(2) set_remove1_subset[of "Releasing own" "mx_runs s"] by (auto simp: mx_caps_def)
  have v: "xc_valid own (mx_value s)" "xc_identity (mx_value s) \<noteq> 0" using r(1) i(3) by (simp_all add: xc_valid_def xc_ok_def)
  show ?thesis
  proof (cases "mx_entries s")
    case Nil
    obtain c where c: "xc_unlock own (mx_value s) = Inr c" "xc_ok c" "\<not> xc_held c" using xc.unlock[OF i(3) r(2) v(1)] by blast
    have "t = s\<lparr>mx_runs := ?runs, mx_handoff := 0, mx_value := c\<rparr>"
      using assms(3) Nil c(1) r(4) by (simp add: mx_release_ownership_def slot_take_def)
    with i r(3-7) caps(1) c Nil xc_identity_simps(4)[OF c(1)] show ?thesis by (simp add: mx_inv_def holders_def pending_def)
  next
    case (Cons w rest)
    obtain c where c: "xc_set_waiters own (rest \<noteq> []) (mx_value s) = (True, c)" "xc_ok c" "xc_held c" "xc_marked c \<longleftrightarrow> rest \<noteq> []"
      using xc.set_waiters[OF i(3) r(2) v(1), of "rest \<noteq> []"] by blast
    have slot: "slot_publish own (mx_handoff s) = Inr (xc_identity (mx_value s))" using r(1,4) by (simp add: slot_publish_def)
    obtain k where k: "mx_calls s w = Some k" using mx_linesD(4)[OF i(1), of w] Cons by auto
    have ok: "call_ok True (xc_identity (mx_value s)) w k" using mx_call[OF assms(1) k] Cons by simp
    obtain b k' where bk: "rs_offer PermitRes k = Some (b, k')"
      using assms(3) Cons c(1) slot k by (auto simp: mx_release_ownership_def Let_def split: option.splits)
    note o1 = offer_call[OF ok bk]
    let ?t = "mx_put w k' (s\<lparr>mx_runs := (if b then ?runs else Rejected # ?runs), mx_entries := rest, mx_value := c,
        mx_handoff := xc_identity (mx_value s), mx_granted := (if b then mx_granted s @ [w] else mx_granted s)\<rparr>)"
    have "t = ?t" using assms(3) Cons c(1) slot k bk
      by (cases b; cases s) (simp_all add: mx_release_ownership_def mx_put_def)
    moreover have tl: "tally owner_call ((mx_calls s)(w \<mapsto> k')) = tally owner_call (mx_calls s)"
      "tally granted_call ((mx_calls s)(w \<mapsto> k')) = of_bool b" "tally counted ((mx_calls s)(w \<mapsto> k')) = tally counted (mx_calls s)"
      using tally_put[OF f k, of owner_call k'] tally_put[OF f k, of granted_call k'] tally_put[OF f k, of counted k'] o1 r(7) by auto
    moreover have "holders ?t = 1" "pending ?t = 1" using r(3,5,6) tl v(2) by (auto simp: holders_def pending_def)
    moreover have "mx_lines ((mx_calls s)(w \<mapsto> k')) rest (xc_identity (mx_value s))" using lines_pop[OF _ o1(1)] i(1) Cons by simp
    moreover have "subseq (mx_granted s @ rest) (mx_joined s)"
      by (rule subseq_order.order_trans[OF _ i(9)]) (auto simp: Cons intro!: list_emb_append_mono list_emb_Cons)
    ultimately show ?thesis using i caps(2,3) c xc_identity_simps(3)[OF c(1)] Cons v(2)
      by (simp add: mx_inv_def)
  qed
qed

lemma mx_step_inv: "mx_step s t \<Longrightarrow> mx_inv s \<Longrightarrow> mx_inv t"
proof (induction rule: mx_step.induct)
  case (begin_park s w k task route hub dl now x k')
  show ?case by (rule mx_put_inv[OF begin_park(5,1)]) (use begin_call[OF mx_call[OF begin_park(5,1)] begin_park(2-4)] in auto)
next
  case (background s w k k')
  show ?case by (rule mx_put_inv[OF background(3,1)]) (use background_call[OF mx_call[OF background(3,1)] background(2)] in auto)
next
  case (background_panic s w k)
  have "rs_ok k" using mx_call[OF background_panic(3,1)] by (simp add: call_ok_def)
  with rs_no_panic background_panic(2) show ?case by blast
next
  case (resume s w k tok dl c k')
  show ?case by (rule mx_put_inv[OF resume(6,1)]) (use resume_call[OF mx_call[OF resume(6,1)] resume(2-5)] in auto)
next
  case (fail_early s w k)
  show ?case by (rule mx_put_inv[OF fail_early(4,1)]) (use stage_call[OF mx_call[OF fail_early(4,1)], of "Failed False"] fail_early(2,3) in auto)
next
  case (fail_parked s w k tok dl k')
  show ?case by (rule mx_put_inv[OF fail_parked(5,1)]) (use fail_parked_call[OF mx_call[OF fail_parked(5,1)] fail_parked(2-4)] in auto)
next
  case (check_fails s w k)
  show ?case by (rule mx_put_inv[OF check_fails(3,1)]) (use stage_call[OF mx_call[OF check_fails(3,1)], of "Failed True"] check_fails(2) in auto)
next
  case (rechecked s w k)
  show ?case by (rule retire_end_inv[OF rechecked(3,1)])
      (use mx_call[OF rechecked(3,1)] rechecked(2) in \<open>auto simp: lock_call_defs\<close>)
next
  case (complete s w k own)
  show ?case by (rule retire_put_inv[OF complete(3,1)])
      (use mx_call[OF complete(3,1)] complete(2) in \<open>auto simp: lock_call_defs\<close>)
next
  case (unlinked s w k queued selected)
  show ?case
  proof (cases queued)
    case True
    then show ?thesis using retire_end_inv[OF unlinked(3,1)] mx_call[OF unlinked(3,1)] unlinked(2) by (auto simp: lock_call_defs)
  next
    case False
    have "mx_inv (mx_put w (k\<lparr>lc_stage := Reclaiming selected\<rparr>) (mx_retire s))"
      by (rule retire_put_inv[OF unlinked(3,1)]) (use mx_call[OF unlinked(3,1)] unlinked(2) False in \<open>auto simp: lock_call_defs\<close>)
    with False show ?thesis by simp
  qed
qed (blast intro: try_lock_inv release_inv reserve_inv subscribe_inv collect_inv claim_inv unlink_inv reclaim_inv abandon_inv
    release_ownership_inv take_back_inv)+

lemma mx_reach_inv: "mx_reach capacity s \<Longrightarrow> mx_inv s"
proof (induction rule: mx_reach.induct)
  case (start next_identity s n)
  then obtain c where c: "xc_new next_identity = Inr (c, n)" and s: "s = \<lparr>mx_value = c, mx_outstanding = 0, mx_capacity = capacity, mx_entries = [],
      mx_handoff = slot_empty, mx_calls = Map.empty, mx_guards = 0, mx_runs = [], mx_joined = [], mx_granted = [], mx_panicked = False\<rparr>"
    by (auto simp: mutex_new_def split: sum.splits if_splits)
  with xc_new_ok[OF c start(1)] show ?case
    by (simp add: mx_inv_def mx_lines_def mx_caps_def holders_def pending_def slot_empty_def)
next
  case (step s t)
  then show ?case using mx_step_inv by blast
qed


section \<open>Properties\<close>

text \<open>A sample run: one task locks the mutex, another finds it locked and joins the line.\<close>

definition sample_lock :: "unit mutex_sys" where
  "sample_lock = \<lparr>mx_value = \<lparr>xc_state = LOCKED, xc_identity = 1\<rparr>, mx_outstanding = 0, mx_capacity = 64, mx_entries = [],
     mx_handoff = 0, mx_calls = Map.empty, mx_guards = 1, mx_runs = [], mx_joined = [], mx_granted = [], mx_panicked = False\<rparr>"

definition sample_waiter :: "lock_stage \<Rightarrow> unit lock_call" where
  "sample_waiter st = \<lparr>rs_cell = wait_inner_new 7, rs_stage = Outside, rs_pubs = [], lc_stage = st\<rparr>"

definition sample_contended :: "unit mutex_sys" where
  "sample_contended = mx_subscribe 7 (sample_waiter Reserved)
     (mx_put 7 (sample_waiter Reserved) (sample_lock\<lparr>mx_outstanding := 1\<rparr>))"

definition sample_releasing :: "unit mutex_sys" where
  "sample_releasing = mx_release sample_contended"

lemma sample_lock_reach: "mx_reach 64 sample_lock"
proof -
  let ?s = "\<lparr>mx_value = \<lparr>xc_state = 0, xc_identity = 1\<rparr>, mx_outstanding = 0, mx_capacity = 64, mx_entries = [],
     mx_handoff = 0, mx_calls = Map.empty, mx_guards = 0, mx_runs = [], mx_joined = [], mx_granted = [], mx_panicked = False\<rparr>
     :: unit mutex_sys"
  have "mx_reach 64 ?s"
    by (rule mx_reach.start[of 1 _ _ 2]) (simp_all add: mutex_new_def xc_new_def checked_add_def slot_empty_def)
  moreover have "mx_step ?s sample_lock"
    using mx_step.try_lock[of ?s "\<lparr>xc_state = LOCKED, xc_identity = 1\<rparr>"] by (simp add: xc_try_lock_def sample_lock_def)
  ultimately show ?thesis by (rule mx_reach.step)
qed

lemma sample_contended_reach: "mx_reach 64 sample_contended"
proof -
  let ?t = "mx_put 7 (sample_waiter Reserved) (sample_lock\<lparr>mx_outstanding := 1\<rparr>)"
  have "mx_step sample_lock ?t"
    using mx_step.reserve[of sample_lock 7 "wait_inner_new 7" ww_initial "sample_lock\<lparr>mx_outstanding := 1\<rparr>"]
    by (simp add: sample_lock_def wait_inner_new_def cas_exec_def recycle_body_def ww_initial_def mx_reserve_def
        lock_call_new_def sample_waiter_def)
  then have "mx_reach 64 ?t" using sample_lock_reach by (blast intro: mx_reach.step)
  moreover have "mx_step ?t sample_contended" unfolding sample_contended_def
    by (rule mx_step.subscribe) (simp_all add: sample_waiter_def)
  ultimately show ?thesis by (rule mx_reach.step)
qed

lemma sample_contended_value:
  "mx_entries sample_contended = [7]" "mx_joined sample_contended = [7]" "mx_guards sample_contended = 1"
  "mx_calls sample_contended 7 = Some (sample_waiter Ticketed)" "mx_value sample_contended = \<lparr>xc_state = 3, xc_identity = 1\<rparr>"
  by (simp_all add: sample_contended_def mx_subscribe_def sample_lock_def xc_queue_or_lock_def queue_or_lock_body_def
      excl_words LOCKED_def HAS_WAITERS_def sample_waiter_def)

lemma sample_releasing_reach: "mx_reach 64 sample_releasing"
  using mx_reach.step[OF sample_contended_reach mx_step.release] by (simp add: sample_releasing_def sample_contended_value)

lemma sample_releasing_value:
  "mx_entries sample_releasing = [7]" "mx_runs sample_releasing = [Releasing (Ownership 1)]"
  "mx_calls sample_releasing 7 = Some (sample_waiter Ticketed)" "mx_value sample_releasing = \<lparr>xc_state = 3, xc_identity = 1\<rparr>"
  "mx_handoff sample_releasing = 0"
  by (simp_all add: sample_releasing_def mx_release_def xc_try_release_def sample_contended_value excl_words LOCKED_def HAS_WAITERS_def)
    (simp_all add: sample_contended_def mx_subscribe_def sample_lock_def xc_queue_or_lock_def queue_or_lock_body_def
      excl_words LOCKED_def HAS_WAITERS_def)

lemma sample_waiter_open: "rs_open (sample_waiter Ticketed)"
  by (simp add: rs_open_def sample_waiter_def wait_inner_new_def ww_initial_def)

text \<open>
  C4. Mutual exclusion, whatever the interleaving of lock attempts, queued calls, hand-offs,
  deadlines, cancellations, failures and unwinding: no assertion of the mutex fails, at most
  one guard or ownership capability exists, one exists exactly while the lock bit is set, and
  while a guard is live nobody else holds, has been granted, or passes on the lock.
\<close>

theorem mutex_exclusion:
  assumes "mx_reach capacity s"
  shows "\<not> mx_panicked s \<and> holders s \<le> 1 \<and> (holders s = 1 \<longleftrightarrow> xc_held (mx_value s))
    \<and> (0 < mx_guards s \<longrightarrow> mx_guards s = 1 \<and> mx_handoff s = 0 \<and> mx_runs s = []
         \<and> (\<forall>w k. mx_calls s w = Some k \<longrightarrow> \<not> owner_call k \<and> \<not> granted_call k))"
proof -
  have inv: "mx_inv s" using mx_reach_inv[OF assms] .
  have "mx_guards s = 1 \<and> mx_handoff s = 0 \<and> mx_runs s = []
         \<and> (\<forall>w k. mx_calls s w = Some k \<longrightarrow> \<not> owner_call k \<and> \<not> granted_call k)" if g: "0 < mx_guards s"
  proof (intro conjI allI impI)
    note a = guard_alone[OF inv g] and f = mx_linesD(1)[OF mx_invD(1)[OF inv]]
    show "mx_guards s = 1" "mx_handoff s = 0" using a by simp_all
    have p: "tally granted_call (mx_calls s) + length (filter (\<lambda>r. \<not> is_releasing r) (mx_runs s)) = 0"
      using mx_invD(6)[OF inv] a(5) by (simp add: pending_def)
    then show "mx_runs s = []" using a(3) by (cases "mx_runs s") (auto split: if_splits)
    fix w k assume k: "mx_calls s w = Some k"
    show "\<not> owner_call k" using tally_pos[OF f k, of owner_call] a(4) by auto
    show "\<not> granted_call k" using tally_pos[OF f k, of granted_call] p by auto
  qed
  moreover have "holders s = of_bool (xc_held (mx_value s))" "\<not> mx_panicked s" using mx_invD[OF inv] by simp_all
  ultimately show ?thesis by simp
qed

theorem mutex_exclusion_witness:
  "mx_guards sample_contended = 1 \<and> mx_handoff sample_contended = 0 \<and> mx_runs sample_contended = [] \<and> \<not> mx_panicked sample_contended"
  using mutex_exclusion[OF sample_contended_reach] by (simp add: sample_contended_value)

text \<open>
  C27. No waiter is forgotten: in every reachable state a call that waits without having been
  selected is in the line, and then the mutex is held, its waiter marker is set and one
  capability exists whose release will serve the line; a call that was granted the lock finds
  the capability in the mailbox, and no other call was granted it.
\<close>

theorem mutex_no_lost_handoff:
  assumes "mx_reach capacity s" "mx_calls s w = Some k"
  shows "(lc_stage k = Ticketed \<and> rs_open k \<longrightarrow>
        w \<in> set (mx_entries s) \<and> xc_held (mx_value s) \<and> xc_marked (mx_value s) \<and> holders s = 1)
    \<and> (granted_call k \<longrightarrow> slot_take (mx_handoff s) = (Some (Ownership (xc_identity (mx_value s))), slot_empty)
        \<and> (\<forall>v j. mx_calls s v = Some j \<and> granted_call j \<longrightarrow> v = w))"
proof (intro conjI impI)
  have inv: "mx_inv s" using mx_reach_inv[OF assms(1)] .
  note i = mx_invD[OF inv] and f = mx_linesD(1)[OF mx_invD(1)[OF inv]]
  {
    assume "lc_stage k = Ticketed \<and> rs_open k"
    then show w: "w \<in> set (mx_entries s)" using mx_call[OF inv assms(2)] by (simp add: call_ok_def)
    then have "mx_entries s \<noteq> []" by (cases "mx_entries s") simp_all
    then show m: "xc_marked (mx_value s)" by (rule i(4))
    then show "xc_held (mx_value s)" using xc.marked_held[OF i(3)] by simp
    then show "holders s = 1" using i(5) by simp
  }
  {
    assume g: "granted_call k"
    show "slot_take (mx_handoff s) = (Some (Ownership (xc_identity (mx_value s))), slot_empty)"
      using granted_slot[OF inv assms(2) g] by (simp add: slot_take_def slot_empty_def)
    have "pending s \<le> 1" using i(6) by simp
    then have one: "tally granted_call (mx_calls s) \<le> 1" by (simp add: pending_def)
    show "\<forall>v j. mx_calls s v = Some j \<and> granted_call j \<longrightarrow> v = w"
      using tally_one_unique[OF one f _ _ assms(2) g] by blast
  }
qed

theorem mutex_no_lost_handoff_witness:
  "(7 :: u64) \<in> set (mx_entries sample_contended) \<and> xc_marked (mx_value sample_contended)"
  using mutex_no_lost_handoff[OF sample_contended_reach sample_contended_value(4)] sample_waiter_open
  by (simp add: sample_waiter_def)

text \<open>
  The line is first in, first out and bounded: in every reachable state the calls granted
  the lock from the line, followed by those still in line, are in the order in which calls
  joined it, no call is in line twice, and the outstanding tickets, which count exactly the
  calls that have not given their slot back, never exceed the configured capacity.
\<close>

theorem mutex_line_fifo:
  assumes "mx_reach capacity s"
  shows "subseq (mx_granted s @ mx_entries s) (mx_joined s) \<and> distinct (mx_entries s)
    \<and> unat (mx_outstanding s) = tally counted (mx_calls s) \<and> mx_outstanding s \<le> mx_capacity s"
  using mx_invD[OF mx_reach_inv[OF assms]] mx_linesD(2) by blast

theorem mutex_line_fifo_witness: "subseq (mx_granted sample_contended @ [7]) [7]"
  using mutex_line_fifo[OF sample_contended_reach] by (simp add: sample_contended_value)

text \<open>
  A contended release hands the lock over without ever freeing it: with a line, one
  iteration serves exactly its head, which is granted the lock if it still waits and skipped
  with the ownership kept for the next one if it was selected otherwise, and the lock stays
  held; with an empty line the lock is freed.
\<close>

theorem mutex_release_handoff:
  assumes "mx_reach capacity s" "Releasing own \<in> set (mx_runs s)" "mx_release_ownership own s = Some t"
  shows "case mx_entries s of
      [] \<Rightarrow> \<not> xc_held (mx_value t) \<and> mx_calls t = mx_calls s
    | w # rest \<Rightarrow> xc_held (mx_value t) \<and> mx_entries t = rest
        \<and> (if rs_open (the (mx_calls s w))
           then mx_granted t = mx_granted s @ [w] \<and> rs_res (the (mx_calls t w)) = Some PermitRes
           else mx_granted t = mx_granted s \<and> Rejected \<in> set (mx_runs t))"
proof -
  have inv: "mx_inv s" using mx_reach_inv[OF assms(1)] .
  note i = mx_invD[OF inv] and r = releasing_state[OF inv assms(2)]
  have v: "xc_valid own (mx_value s)" using r(1) by (simp add: xc_valid_def)
  show ?thesis
  proof (cases "mx_entries s")
    case Nil
    obtain c where c: "xc_unlock own (mx_value s) = Inr c" "\<not> xc_held c" using xc.unlock[OF i(3) r(2) v] by blast
    then show ?thesis using assms(3) Nil r(4) by (auto simp: mx_release_ownership_def slot_take_def)
  next
    case (Cons w rest)
    obtain c where c: "xc_set_waiters own (rest \<noteq> []) (mx_value s) = (True, c)" "xc_held c"
      using xc.set_waiters[OF i(3) r(2) v, of "rest \<noteq> []"] by blast
    have slot: "slot_publish own (mx_handoff s) = Inr (xc_identity (mx_value s))" using r(1,4) by (simp add: slot_publish_def)
    obtain k where k: "mx_calls s w = Some k" using mx_linesD(4)[OF i(1), of w] Cons by auto
    have ok: "call_ok True (xc_identity (mx_value s)) w k" using mx_call[OF inv k] Cons by simp
    obtain b k' where bk: "rs_offer PermitRes k = Some (b, k')"
      using assms(3) Cons c(1) slot k by (auto simp: mx_release_ownership_def Let_def split: option.splits)
    have "rs_ok k" using ok by (simp add: call_ok_def)
    from rs_offer_cases[OF bk this] show ?thesis using assms(3) Cons c slot k bk
      by (cases b) (auto simp: mx_release_ownership_def)
  qed
qed

theorem mutex_release_handoff_witness:
  "\<exists>t. mx_release_ownership (Ownership 1) sample_releasing = Some t \<and> xc_held (mx_value t) \<and> mx_granted t = mx_granted sample_releasing @ [7]"
proof -
  have "\<exists>k'. rs_offer PermitRes (sample_waiter Ticketed) = Some (True, k')"
    by (simp add: rs_offer_def claim_resource_body_def resource_offer_def sample_waiter_def wait_inner_new_def ww_initial_def)
  then obtain t where "mx_release_ownership (Ownership 1) sample_releasing = Some t"
    by (auto simp: mx_release_ownership_def sample_releasing_value xc_set_waiters_def xc_owns_def excl_words slot_publish_def Let_def)
  with mutex_release_handoff[OF sample_releasing_reach _ this] sample_waiter_open show ?thesis
    by (simp add: sample_releasing_value)
qed

end
