(* ===== verification/Gate.thy ===== *)
theory Gate
  imports Resident_Wait "HOL-Library.Sublist"
begin

text \<open>
  Gates (sync/gate.rs): first-in first-out permit selection with bounded, cancellation-safe
  tickets, and the primitives built on them, semaphores (sync/semaphore.rs), notifications
  (sync/notify.rs) and condition variables (sync/condvar.rs). Each step is one access to
  shared state or one critical section of the gate's lock. Closing and broadcasting visit the
  line one waiter at a time while they hold the lock; a waiter they have served counts as
  removed, which nobody can observe before the lock is released.
\<close>

section \<open>State\<close>

text \<open>
  Where a blocking call stands: reserved a slot; ticket in line or parked; park returned,
  closed marker still to be read; taking its selection; completing with a selection; failed;
  unlinked with the selection it abandons; giving its slot back.
\<close>

datatype gate_stage =
    GReserved
  | GTicketed
  | GResumed
  | GTaking
  | GCompleting "resource_selection option"
  | GFailed
  | GUnlinked "resource_selection option"
  | GReleasing "resource_selection option"

record 'h gate_call = "'h resident" + gc_stage :: gate_stage

text \<open>The lock is busy with a close that has yet to clear the permits, a close, or a broadcast.\<close>

datatype busy = ClearingPermits | ClosingLine | BroadcastingLine

text \<open>
  The gate and its calls by the identity of their wait cell; \<open>gt_signals\<close> counts the signals in
  progress and \<open>gt_taken\<close> the permits callers took and have not returned. The last three
  fields are history: the calls that entered the line, those selected from it, and whether an
  assertion failed.
\<close>

record 'h gate_sys =
  gt_maximum :: usize
  gt_capacity :: usize
  gt_available :: usize
  gt_outstanding :: usize
  gt_closed :: bool
  gt_entries :: "u64 list"
  gt_busy :: "busy option"
  gt_calls :: "u64 \<rightharpoonup> 'h gate_call"
  gt_signals :: nat
  gt_taken :: nat
  gt_joined :: "u64 list"
  gt_granted :: "u64 list"
  gt_panicked :: bool

definition gate_new :: "usize \<Rightarrow> usize \<Rightarrow> usize \<Rightarrow> 'h gate_sys result" where
  "gate_new available maximum capacity =
     (if capacity = 0 then Inl (InvalidConfiguration WaitCapacity ''must be positive'')
      else Inr \<lparr>gt_maximum = maximum, gt_capacity = capacity, gt_available = available, gt_outstanding = 0,
             gt_closed = False, gt_entries = [], gt_busy = None, gt_calls = Map.empty, gt_signals = 0, gt_taken = 0,
             gt_joined = [], gt_granted = [], gt_panicked = False\<rparr>)"

text \<open>The three users: \<open>Semaphore\<close>, \<open>Notify\<close> and \<open>Condvar\<close> constructors.\<close>

definition semaphore_new :: "usize \<Rightarrow> usize \<Rightarrow> 'h gate_sys result" where
  "semaphore_new permits wait_capacity =
     (if permits = 0 then Inl (InvalidConfiguration PermitsField ''must be positive'')
      else gate_new permits permits wait_capacity)"

definition notify_new :: "usize \<Rightarrow> 'h gate_sys result" where
  "notify_new wait_capacity = gate_new 0 1 wait_capacity"

definition condvar_new :: "usize \<Rightarrow> 'h gate_sys result" where
  "condvar_new wait_capacity = gate_new 0 0 wait_capacity"

section \<open>Operations\<close>

definition gt_panic :: "'h gate_sys \<Rightarrow> 'h gate_sys" where
  "gt_panic s = s\<lparr>gt_panicked := True\<rparr>"

definition gt_put :: "u64 \<Rightarrow> 'h gate_call \<Rightarrow> 'h gate_sys \<Rightarrow> 'h gate_sys" where
  "gt_put w k s = s\<lparr>gt_calls := (gt_calls s)(w \<mapsto> k)\<rparr>"

definition gt_end :: "u64 \<Rightarrow> 'h gate_sys \<Rightarrow> 'h gate_sys" where
  "gt_end w s = s\<lparr>gt_calls := (gt_calls s)(w := None)\<rparr>"

text \<open>The loop of \<open>try_take\<close>; the flag is what a second look at the closed marker finds.\<close>

definition try_take_body :: "bool \<Rightarrow> usize \<Rightarrow> (usize, unit result) attempt" where
  "try_take_body closed available =
     (if available = 0 then Return (Inl (if closed then Closed else WouldBlock)) else Cas (available - 1) (Inr ()))"

definition gt_try_take :: "'h gate_sys \<Rightarrow> unit result \<times> 'h gate_sys" where
  "gt_try_take s =
     (if gt_closed s then (Inl Closed, s)
      else (case try_take_body (gt_closed s) (gt_available s) of
              Cas a r \<Rightarrow> (r, s\<lparr>gt_available := a\<rparr>)
            | Return r \<Rightarrow> (r, s)
            | Spin \<Rightarrow> (Inl WouldBlock, s)))"

definition store_permit_body :: "usize \<Rightarrow> usize \<Rightarrow> (usize, unit) attempt" where
  "store_permit_body maximum available = (if available < maximum then Cas (available + 1) () else Return ())"

definition gt_store_permit :: "'h gate_sys \<Rightarrow> 'h gate_sys" where
  "gt_store_permit s =
     (case store_permit_body (gt_maximum s) (gt_available s) of Cas a _ \<Rightarrow> s\<lparr>gt_available := a\<rparr> | _ \<Rightarrow> s)"

definition gt_reserve :: "'h gate_sys \<Rightarrow> 'h gate_sys result" where
  "gt_reserve s =
     (if gt_outstanding s < gt_capacity s then Inr (s\<lparr>gt_outstanding := gt_outstanding s + 1\<rparr>)
      else Inl (Capacity Waiters (unat (gt_capacity s))))"

definition gt_release :: "'h gate_sys \<Rightarrow> 'h gate_sys" where
  "gt_release s =
     (let t = s\<lparr>gt_outstanding := gt_outstanding s - 1\<rparr> in if gt_outstanding s = 0 then gt_panic t else t)"

text \<open>
  The critical section of \<open>subscribe_parker\<close>: refused by a close, served at once from the
  stored permits, or queued. A refused call gives its slot back.
\<close>

definition gt_subscribe :: "u64 \<Rightarrow> 'h gate_call \<Rightarrow> 'h gate_sys \<Rightarrow> 'h gate_sys option" where
  "gt_subscribe w k s =
     (if gt_closed s then Some (gt_end w (gt_release s))
      else (case gt_try_take s of
              (Inr _, t) \<Rightarrow>
                (case rs_offer PermitRes k of
                   None \<Rightarrow> None
                 | Some (True, k') \<Rightarrow> Some (gt_put w (k'\<lparr>gc_stage := GTicketed\<rparr>) t)
                 | Some (False, k') \<Rightarrow> Some (gt_end w (gt_release (gt_store_permit t))))
            | (Inl _, t) \<Rightarrow>
                Some (gt_put w (k\<lparr>gc_stage := GTicketed\<rparr>)
                  (t\<lparr>gt_entries := gt_entries t @ [w], gt_joined := gt_joined t @ [w]\<rparr>))))"

text \<open>
  One iteration of \<open>signal\<close>; it ends at a closed gate, by storing the permit, or with an
  accepted offer, and otherwise stays in progress.
\<close>

definition gt_signal :: "'h gate_sys \<Rightarrow> 'h gate_sys option" where
  "gt_signal s =
     (if gt_closed s then Some (s\<lparr>gt_signals := gt_signals s - 1\<rparr>)
      else (case gt_entries s of
              [] \<Rightarrow> Some ((gt_store_permit s)\<lparr>gt_signals := gt_signals s - 1\<rparr>)
            | w # rest \<Rightarrow>
                (case gt_calls s w of
                   None \<Rightarrow> Some (gt_panic s)
                 | Some k \<Rightarrow>
                     (case rs_offer PermitRes k of
                        None \<Rightarrow> None
                      | Some (True, k') \<Rightarrow>
                          Some (gt_put w k' (s\<lparr>gt_entries := rest, gt_signals := gt_signals s - 1, gt_granted := gt_granted s @ [w]\<rparr>))
                      | Some (False, k') \<Rightarrow> Some (gt_put w k' (s\<lparr>gt_entries := rest\<rparr>))))))"

text \<open>\<open>broadcast\<close>: the lock is taken, then every waiter is offered a broadcast, then it is free.\<close>

definition gt_broadcast_next :: "'h gate_sys \<Rightarrow> 'h gate_sys option" where
  "gt_broadcast_next s =
     (case gt_entries s of
        [] \<Rightarrow> Some (s\<lparr>gt_busy := None\<rparr>)
      | w # rest \<Rightarrow>
          (case gt_calls s w of
             None \<Rightarrow> Some (gt_panic s)
           | Some k \<Rightarrow> map_option (\<lambda>(_, k'). gt_put w k' (s\<lparr>gt_entries := rest\<rparr>)) (rs_offer Broadcast k)))"

definition gt_close_next :: "'h gate_sys \<Rightarrow> 'h gate_sys option" where
  "gt_close_next s =
     (case gt_entries s of
        [] \<Rightarrow> Some (s\<lparr>gt_busy := None\<rparr>)
      | w # rest \<Rightarrow>
          (case gt_calls s w of
             None \<Rightarrow> Some (gt_panic s)
           | Some k \<Rightarrow> map_option (\<lambda>(_, k'). gt_put w k' (s\<lparr>gt_entries := rest\<rparr>)) (rs_close k)))"

text \<open>The critical section of the ticket's drop: unlink, or take what was selected.\<close>

definition gt_unlink :: "u64 \<Rightarrow> 'h gate_call \<Rightarrow> 'h gate_sys \<Rightarrow> 'h gate_sys option" where
  "gt_unlink w k s =
     (case position (\<lambda>e. e = w) (gt_entries s) of
        Some i \<Rightarrow> Some (gt_put w (k\<lparr>gc_stage := GUnlinked None\<rparr>) (s\<lparr>gt_entries := remove_at i (gt_entries s)\<rparr>))
      | None \<Rightarrow> map_option (\<lambda>(r, k'). gt_put w (k'\<lparr>gc_stage := GUnlinked r\<rparr>) s) (rs_take k))"

text \<open>Next, a closed gate's marker is taken off the cell; a cell still in use is a panic.\<close>

definition gt_reset :: "u64 \<Rightarrow> 'h gate_call \<Rightarrow> resource_selection option \<Rightarrow> 'h gate_sys \<Rightarrow> 'h gate_sys option" where
  "gt_reset w k sel s =
     (if gt_closed s
      then map_option (\<lambda>(b, k'). if b then gt_put w (k'\<lparr>gc_stage := GReleasing sel\<rparr>) s else gt_panic s) (rs_reset k)
      else Some (gt_put w (k\<lparr>gc_stage := GReleasing sel\<rparr>) s))"

text \<open>Last, the slot goes back, and an abandoned permit is signalled on.\<close>

definition gt_finish_drop :: "u64 \<Rightarrow> resource_selection option \<Rightarrow> 'h gate_sys \<Rightarrow> 'h gate_sys" where
  "gt_finish_drop w sel s =
     (let t = gt_end w (gt_release s) in t\<lparr>gt_signals := gt_signals t + of_bool (sel = Some PermitRes)\<rparr>)"

text \<open>\<open>complete\<close>: the caller has its permit, or its broadcast.\<close>

definition gt_complete :: "u64 \<Rightarrow> resource_selection option \<Rightarrow> 'h gate_sys \<Rightarrow> 'h gate_sys" where
  "gt_complete w sel s =
     (let t = gt_end w (gt_release s) in t\<lparr>gt_taken := gt_taken t + of_bool (sel = Some PermitRes)\<rparr>)"

section \<open>Steps\<close>

definition gate_call_new :: "'h wait_inner \<Rightarrow> 'h gate_call" where
  "gate_call_new c = \<lparr>rs_cell = c, rs_stage = Outside, rs_pubs = [], gc_stage = GReserved\<rparr>"

definition gate_result :: "wake_cause \<Rightarrow> instant option \<Rightarrow> gate_stage" where
  "gate_result c dl = (case selected_outcome c (dl \<noteq> None) of Inr _ \<Rightarrow> GResumed | Inl _ \<Rightarrow> GFailed)"

definition gate_begin_result :: "wait_begin result \<Rightarrow> instant option \<Rightarrow> gate_stage" where
  "gate_begin_result x dl =
     (case x of Inl _ \<Rightarrow> GFailed | Inr (Immediate c) \<Rightarrow> gate_result c dl | Inr (Park _ _) \<Rightarrow> GTicketed)"

text \<open>
  The flag says that the gate is a semaphore's, whose only signals are returned permits and
  which is never broadcast. A taker that read the open marker before a close may still take a
  permit while the close is clearing them.
\<close>

inductive gate_step :: "bool \<Rightarrow> 'h gate_sys \<Rightarrow> 'h gate_sys \<Rightarrow> bool" for sem where
  take: "try_take_body (gt_closed s) (gt_available s) = Cas a r \<Longrightarrow>
     gate_step sem s (s\<lparr>gt_available := a, gt_taken := gt_taken s + 1\<rparr>)"
| put_back: "0 < gt_taken s \<Longrightarrow> sem \<Longrightarrow> gate_step sem s (s\<lparr>gt_taken := gt_taken s - 1, gt_signals := gt_signals s + 1\<rparr>)"
| notify: "\<not> sem \<Longrightarrow> gate_step sem s (s\<lparr>gt_signals := gt_signals s + 1\<rparr>)"
| signal: "0 < gt_signals s \<Longrightarrow> gt_busy s = None \<Longrightarrow> gt_signal s = Some t \<Longrightarrow> gate_step sem s t"
| broadcast: "\<not> sem \<Longrightarrow> gt_busy s = None \<Longrightarrow> gate_step sem s (s\<lparr>gt_busy := Some BroadcastingLine\<rparr>)"
| broadcast_next: "gt_busy s = Some BroadcastingLine \<Longrightarrow> gt_broadcast_next s = Some t \<Longrightarrow> gate_step sem s t"
| close: "gt_busy s = None \<Longrightarrow> gate_step sem s (s\<lparr>gt_busy := Some ClearingPermits, gt_closed := True\<rparr>)"
| close_clear: "gt_busy s = Some ClearingPermits \<Longrightarrow> gate_step sem s (s\<lparr>gt_busy := Some ClosingLine, gt_available := 0\<rparr>)"
| close_next: "gt_busy s = Some ClosingLine \<Longrightarrow> gt_close_next s = Some t \<Longrightarrow> gate_step sem s t"
| reserve:
    "gt_calls s w = None \<Longrightarrow> wi_id c = w \<Longrightarrow> cas_exec recycle_body (wi_state c) = Some (v, True) \<Longrightarrow> gt_reserve s = Inr t \<Longrightarrow>
     gate_step sem s (gt_put w (gate_call_new (c\<lparr>wi_state := v\<rparr>)) t)"
| subscribe: "gt_calls s w = Some k \<Longrightarrow> gc_stage k = GReserved \<Longrightarrow> gt_busy s = None \<Longrightarrow> gt_subscribe w k s = Some t \<Longrightarrow> gate_step sem s t"
| begin_park:
    "gt_calls s w = Some k \<Longrightarrow> gc_stage k = GTicketed \<Longrightarrow> rs_stage k = Outside \<Longrightarrow>
     rs_begin task route hub dl now k = Some (x, k') \<Longrightarrow> gate_step sem s (gt_put w (k'\<lparr>gc_stage := gate_begin_result x dl\<rparr>) s)"
| background: "gt_calls s w = Some k \<Longrightarrow> rs_step k k' \<Longrightarrow> gate_step sem s (gt_put w k' s)"
| background_panic: "gt_calls s w = Some k \<Longrightarrow> rs_panics k \<Longrightarrow> gate_step sem s (gt_panic s)"
| resume:
    "gt_calls s w = Some k \<Longrightarrow> gc_stage k = GTicketed \<Longrightarrow> rs_stage k = ParkedWait tok dl \<Longrightarrow> \<not> rs_open k \<Longrightarrow>
     rs_finish False tok k = Some (Inr c, k') \<Longrightarrow> gate_step sem s (gt_put w (k'\<lparr>gc_stage := gate_result c dl\<rparr>) s)"
| fail_early: "gt_calls s w = Some k \<Longrightarrow> gc_stage k = GTicketed \<Longrightarrow> rs_stage k = Outside \<Longrightarrow> gate_step sem s (gt_put w (k\<lparr>gc_stage := GFailed\<rparr>) s)"
| fail_parked:
    "gt_calls s w = Some k \<Longrightarrow> gc_stage k = GTicketed \<Longrightarrow> rs_stage k = ParkedWait tok dl \<Longrightarrow> rs_rollback tok k = Inr k' \<Longrightarrow>
     gate_step sem s (gt_put w (k'\<lparr>gc_stage := (if rs_stage k' = Outside then GFailed else GTicketed)\<rparr>) s)"
| check_fails: "gt_calls s w = Some k \<Longrightarrow> gc_stage k = GResumed \<Longrightarrow> gate_step sem s (gt_put w (k\<lparr>gc_stage := GFailed\<rparr>) s)"
| check_closed:
    "gt_calls s w = Some k \<Longrightarrow> gc_stage k = GResumed \<Longrightarrow>
     gate_step sem s (gt_put w (k\<lparr>gc_stage := (if gt_closed s then GFailed else GTaking)\<rparr>) s)"
| taking:
    "gt_calls s w = Some k \<Longrightarrow> gc_stage k = GTaking \<Longrightarrow> rs_take k = Some (r, k') \<Longrightarrow>
     gate_step sem s (gt_put w (k'\<lparr>gc_stage := (if r = None then GTicketed else GCompleting r)\<rparr>) s)"
| complete: "gt_calls s w = Some k \<Longrightarrow> gc_stage k = GCompleting sel \<Longrightarrow> gate_step sem s (gt_complete w sel s)"
| unlink: "gt_calls s w = Some k \<Longrightarrow> gc_stage k = GFailed \<Longrightarrow> gt_busy s = None \<Longrightarrow> gt_unlink w k s = Some t \<Longrightarrow> gate_step sem s t"
| reset: "gt_calls s w = Some k \<Longrightarrow> gc_stage k = GUnlinked sel \<Longrightarrow> gt_reset w k sel s = Some t \<Longrightarrow> gate_step sem s t"
| finish_drop: "gt_calls s w = Some k \<Longrightarrow> gc_stage k = GReleasing sel \<Longrightarrow> gate_step sem s (gt_finish_drop w sel s)"


inductive gate_reach :: "bool \<Rightarrow> 'h gate_sys \<Rightarrow> bool" where
  semaphore: "semaphore_new permits capacity = Inr s \<Longrightarrow> gate_reach True s"
| notify: "notify_new capacity = Inr s \<Longrightarrow> gate_reach False s"
| condvar: "condvar_new capacity = Inr s \<Longrightarrow> gate_reach False s"
| step: "gate_reach sem s \<Longrightarrow> gate_step sem s t \<Longrightarrow> gate_reach sem t"

section \<open>Invariant\<close>

text \<open>Calls with a permit that was selected for them and that nobody has taken yet.\<close>

definition permit_call :: "'h gate_call \<Rightarrow> bool" where
  "permit_call k \<longleftrightarrow>
     (case gc_stage k of
        GCompleting sel \<Rightarrow> sel = Some PermitRes
      | GUnlinked sel \<Rightarrow> sel = Some PermitRes
      | GReleasing sel \<Rightarrow> sel = Some PermitRes
      | _ \<Rightarrow> rs_res k = Some PermitRes)"

definition gcall_ok :: "bool \<Rightarrow> bool \<Rightarrow> u64 \<Rightarrow> 'h gate_call \<Rightarrow> bool" where
  "gcall_ok in_line closed w k \<longleftrightarrow>
     rs_ok k \<and> wi_id (rs_cell k) = w \<and> (gc_stage k \<noteq> GTicketed \<longrightarrow> rs_stage k = Outside)
     \<and> (ww_closed (rs_word k) \<longrightarrow> closed \<and> \<not> in_line)
     \<and> (case gc_stage k of
          GReserved \<Rightarrow> \<not> in_line \<and> rs_res k = None \<and> \<not> ww_permit (rs_word k) \<and> \<not> ww_closed (rs_word k)
        | GTicketed \<Rightarrow> (rs_stage k = Outside \<longrightarrow> (rs_res k \<noteq> None \<longleftrightarrow> ww_permit (rs_word k)))
             \<and> (in_line \<or> ww_closed (rs_word k) \<longrightarrow> rs_res k = None) \<and> (rs_open k \<longrightarrow> in_line)
        | GResumed \<Rightarrow> \<not> in_line \<and> \<not> ww_permit (rs_word k) \<and> (rs_res k \<noteq> None \<or> ww_closed (rs_word k))
        | GTaking \<Rightarrow> \<not> in_line \<and> \<not> ww_permit (rs_word k) \<and> (rs_res k \<noteq> None \<or> ww_closed (rs_word k))
        | GFailed \<Rightarrow> in_line \<longrightarrow> rs_res k = None
        | _ \<Rightarrow> \<not> in_line)"

definition gt_lines :: "(u64 \<rightharpoonup> 'h gate_call) \<Rightarrow> u64 list \<Rightarrow> bool \<Rightarrow> bool" where
  "gt_lines m es closed \<longleftrightarrow>
     finite (dom m) \<and> distinct es \<and> (\<forall>w k. m w = Some k \<longrightarrow> gcall_ok (w \<in> set es) closed w k) \<and> (\<forall>w \<in> set es. m w \<noteq> None)"

text \<open>Permits stored, being signalled, selected, and taken.\<close>

definition permits :: "'h gate_sys \<Rightarrow> nat" where
  "permits s = unat (gt_available s) + gt_signals s + tally permit_call (gt_calls s) + gt_taken s"

text \<open>What a close has done so far.\<close>

definition close_ok :: "'h gate_sys \<Rightarrow> bool" where
  "close_ok s \<longleftrightarrow>
     (gt_busy s = Some ClearingPermits \<or> gt_busy s = Some ClosingLine \<longrightarrow> gt_closed s)
     \<and> (gt_closed s \<and> gt_busy s \<noteq> Some ClearingPermits \<longrightarrow> gt_available s = 0)
     \<and> (gt_closed s \<and> gt_busy s \<noteq> Some ClearingPermits \<and> gt_busy s \<noteq> Some ClosingLine \<longrightarrow> gt_entries s = [])"

definition gt_inv :: "bool \<Rightarrow> 'h gate_sys \<Rightarrow> bool" where
  "gt_inv sem s \<longleftrightarrow>
     gt_lines (gt_calls s) (gt_entries s) (gt_closed s) \<and> close_ok s
     \<and> (gt_entries s \<noteq> [] \<longrightarrow> gt_available s = 0) \<and> gt_available s \<le> gt_maximum s
     \<and> unat (gt_outstanding s) = tally (\<lambda>_. True) (gt_calls s) \<and> gt_outstanding s \<le> gt_capacity s
     \<and> (sem \<longrightarrow> permits s \<le> unat (gt_maximum s) \<and> (\<not> gt_closed s \<longrightarrow> permits s = unat (gt_maximum s)))
     \<and> subseq (gt_granted s @ gt_entries s) (gt_joined s) \<and> \<not> gt_panicked s"

lemma gt_linesD:
  assumes "gt_lines m es c"
  shows "finite (dom m)" "distinct es" "m w = Some k \<Longrightarrow> gcall_ok (w \<in> set es) c w k" "w \<in> set es \<Longrightarrow> \<exists>k. m w = Some k"
  using assms by (auto simp: gt_lines_def)

lemma gt_invD:
  assumes "gt_inv sem s"
  shows "gt_lines (gt_calls s) (gt_entries s) (gt_closed s)" "close_ok s" "gt_entries s \<noteq> [] \<Longrightarrow> gt_available s = 0"
    "gt_available s \<le> gt_maximum s" "unat (gt_outstanding s) = tally (\<lambda>_. True) (gt_calls s)" "gt_outstanding s \<le> gt_capacity s"
    "sem \<Longrightarrow> permits s \<le> unat (gt_maximum s)" "sem \<Longrightarrow> \<not> gt_closed s \<Longrightarrow> permits s = unat (gt_maximum s)"
    "subseq (gt_granted s @ gt_entries s) (gt_joined s)" "\<not> gt_panicked s"
  using assms by (simp_all add: gt_inv_def)

lemma gt_call: "gt_inv sem s \<Longrightarrow> gt_calls s w = Some k \<Longrightarrow> gcall_ok (w \<in> set (gt_entries s)) (gt_closed s) w k"
  using gt_linesD(3) gt_invD(1) by blast

lemma glines_put: "gt_lines m es c \<Longrightarrow> gcall_ok (w \<in> set es) c w k \<Longrightarrow> gt_lines (m(w \<mapsto> k)) es c"
  by (simp add: gt_lines_def)

lemma glines_end: "gt_lines m es c \<Longrightarrow> w \<notin> set es \<Longrightarrow> gt_lines (m(w := None)) es c"
  by (auto simp: gt_lines_def)

lemma glines_join: "gt_lines m es c \<Longrightarrow> w \<notin> set es \<Longrightarrow> gcall_ok True c w k \<Longrightarrow> gt_lines (m(w \<mapsto> k)) (es @ [w]) c"
  by (simp add: gt_lines_def)

lemma glines_remove: "gt_lines m es c \<Longrightarrow> gcall_ok False c w k \<Longrightarrow> gt_lines (m(w \<mapsto> k)) (filter (\<lambda>x. x \<noteq> w) es) c"
  by (simp add: gt_lines_def)

lemma glines_pop:
  assumes "gt_lines m (w # es) c" "gcall_ok False c w k"
  shows "gt_lines (m(w \<mapsto> k)) es c"
proof -
  have "filter (\<lambda>x. x \<noteq> w) (w # es) = es" using gt_linesD(2)[OF assms(1)] by (auto intro!: filter_True)
  with glines_remove[OF assms] show ?thesis by simp
qed

lemma gt_put_simps [simp]:
  "gt_maximum (gt_put w k s) = gt_maximum s" "gt_capacity (gt_put w k s) = gt_capacity s" "gt_available (gt_put w k s) = gt_available s"
  "gt_outstanding (gt_put w k s) = gt_outstanding s" "gt_closed (gt_put w k s) = gt_closed s" "gt_entries (gt_put w k s) = gt_entries s"
  "gt_busy (gt_put w k s) = gt_busy s" "gt_calls (gt_put w k s) = (gt_calls s)(w \<mapsto> k)" "gt_signals (gt_put w k s) = gt_signals s"
  "gt_taken (gt_put w k s) = gt_taken s" "gt_joined (gt_put w k s) = gt_joined s" "gt_granted (gt_put w k s) = gt_granted s"
  "gt_panicked (gt_put w k s) = gt_panicked s"
  by (simp_all add: gt_put_def)

lemma gt_end_simps [simp]:
  "gt_maximum (gt_end w s) = gt_maximum s" "gt_capacity (gt_end w s) = gt_capacity s" "gt_available (gt_end w s) = gt_available s"
  "gt_outstanding (gt_end w s) = gt_outstanding s" "gt_closed (gt_end w s) = gt_closed s" "gt_entries (gt_end w s) = gt_entries s"
  "gt_busy (gt_end w s) = gt_busy s" "gt_calls (gt_end w s) = (gt_calls s)(w := None)" "gt_signals (gt_end w s) = gt_signals s"
  "gt_taken (gt_end w s) = gt_taken s" "gt_joined (gt_end w s) = gt_joined s" "gt_granted (gt_end w s) = gt_granted s"
  "gt_panicked (gt_end w s) = gt_panicked s"
  by (simp_all add: gt_end_def)

lemma gate_stage_update [simp]: "rs_ok (k\<lparr>gc_stage := x\<rparr>) = rs_ok k" "rs_open (k\<lparr>gc_stage := x\<rparr>) = rs_open k"
  by (simp_all add: rs_ok_def rs_open_def split: park_stage.split)

lemma gc_stage_more: "resident.more q = resident.more r \<Longrightarrow> gc_stage q = gc_stage r"
  by (cases q; cases r) simp

lemmas gate_call_defs = gcall_ok_def permit_call_def

text \<open>A step that only moves one call, without moving its permit.\<close>

lemma gt_put_inv:
  assumes "gt_inv sem s" "gt_calls s w = Some k" "gcall_ok (w \<in> set (gt_entries s)) (gt_closed s) w k'" "permit_call k' = permit_call k"
  shows "gt_inv sem (gt_put w k' s)"
proof -
  note f = gt_linesD(1)[OF gt_invD(1)[OF assms(1)]]
  have "tally P ((gt_calls s)(w \<mapsto> k')) = tally P (gt_calls s)" if "P k' = P k" for P
    using tally_put[OF f assms(2), of P k'] that by simp
  then show ?thesis using assms glines_put[OF gt_invD(1)[OF assms(1)] assms(3)]
    by (simp add: gt_inv_def permits_def close_ok_def)
qed


section \<open>Preservation\<close>

subsection \<open>Permits\<close>

lemma take_inv:
  assumes "gt_inv sem s" "try_take_body (gt_closed s) (gt_available s) = Cas a r"
  shows "gt_inv sem (s\<lparr>gt_available := a, gt_taken := gt_taken s + 1\<rparr>)"
proof -
  note i = gt_invD[OF assms(1)]
  have a: "gt_available s \<noteq> 0" "a = gt_available s - 1" using assms(2) by (auto simp: try_take_body_def split: if_splits)
  then have "0 < unat (gt_available s)" by (simp add: unat_gt_0)
  note p = pred_positive[OF this]
  have "gt_entries s = []" using i(3) a(1) by blast
  moreover have "permits (s\<lparr>gt_available := a, gt_taken := gt_taken s + 1\<rparr>) = permits s" using p(1) a(2) by (simp add: permits_def)
  moreover have "a \<le> gt_maximum s" unfolding a(2) by (rule order.trans[OF p(2) i(4)])
  moreover have "close_ok (s\<lparr>gt_available := a, gt_taken := gt_taken s + 1\<rparr>)" 
    by (cases "gt_closed s") (use i(2) a(1) in \<open>simp_all add: close_ok_def\<close>)
  ultimately show ?thesis using i by (simp add: gt_inv_def)
qed

lemma put_back_inv:
  assumes "gt_inv sem s" "0 < gt_taken s"
  shows "gt_inv sem (s\<lparr>gt_taken := gt_taken s - 1, gt_signals := gt_signals s + 1\<rparr>)"
proof -
  have "permits (s\<lparr>gt_taken := gt_taken s - 1, gt_signals := gt_signals s + 1\<rparr>) = permits s" using assms(2) by (simp add: permits_def)
  with assms(1) show ?thesis by (simp add: gt_inv_def close_ok_def)
qed

lemma notify_inv: "gt_inv False s \<Longrightarrow> gt_inv False (s\<lparr>gt_signals := gt_signals s + 1\<rparr>)"
  by (simp add: gt_inv_def close_ok_def)

text \<open>Storing a permit adds one, up to the maximum.\<close>

lemma store_permit_cases:
  "gt_store_permit s = s\<lparr>gt_available := (if gt_available s < gt_maximum s then gt_available s + 1 else gt_available s)\<rparr>"
  by (simp add: gt_store_permit_def store_permit_body_def)

text \<open>An offer to the head of the line.\<close>

lemma gate_offer_call:
  assumes "gcall_ok True cl w k" "rs_offer sel k = Some (b, k')"
  shows "gcall_ok False cl w k'" "\<not> permit_call k" "permit_call k' \<longleftrightarrow> b \<and> sel = PermitRes" "b \<longleftrightarrow> rs_open k" "rs_res k' = (if b then Some sel else None)"
proof -
  have k: "rs_ok k" using assms(1) by (simp add: gcall_ok_def)
  note o1 = rs_offer_cases[OF assms(2) k]
  have st: "gc_stage k' = gc_stage k" using o1 gc_stage_more[of k' k] by simp
  have stage: "gc_stage k = GTicketed \<or> gc_stage k = GFailed" and res: "rs_res k = None"
    using assms(1) by (auto simp: gcall_ok_def split: gate_stage.splits)
  show "gcall_ok False cl w k'" "\<not> permit_call k" "permit_call k' \<longleftrightarrow> b \<and> sel = PermitRes" "b \<longleftrightarrow> rs_open k"
    "rs_res k' = (if b then Some sel else None)"
    using stage res st o1 assms(1) by (auto simp: gate_call_defs split: if_splits)
qed

lemma gate_close_call:
  assumes "gcall_ok True True w k" "rs_close k = Some (b, k')"
  shows "gcall_ok False True w k'" "\<not> permit_call k" "\<not> permit_call k'" "\<not> rs_open k'"
proof -
  have k: "rs_ok k" using assms(1) by (simp add: gcall_ok_def)
  have stage: "gc_stage k = GTicketed \<or> gc_stage k = GFailed" and res: "rs_res k = None"
    using assms(1) by (auto simp: gcall_ok_def split: gate_stage.splits)
  note c = rs_close_cases[OF assms(2) k res]
  have perm: "rs_stage k' = Outside \<Longrightarrow> \<not> ww_permit (rs_word k')"
    using assms stage res by (auto simp: rs_close_def close_body_def rs_set_def gcall_ok_def Let_def split: if_splits attempt.splits)
  have st: "gc_stage k' = gc_stage k" using c gc_stage_more[of k' k] by simp
  show "gcall_ok False True w k'" "\<not> permit_call k" "\<not> permit_call k'" "\<not> rs_open k'"
    using stage res st c assms(1) perm by (auto simp: gate_call_defs)
qed

text \<open>The head of the line leaves it, with or without a permit.\<close>

lemma gt_pop_inv:
  assumes "gt_inv sem s" "gt_entries s = w # rest" "gt_calls s w = Some k" "gcall_ok False (gt_closed s) w k'" "\<not> permit_call k"
    and "permit_call k' \<Longrightarrow> 0 < gt_signals s"
  shows "gt_inv sem (gt_put w k' (s\<lparr>gt_entries := rest, gt_signals := gt_signals s - of_bool (permit_call k'),
      gt_granted := (if g then gt_granted s @ [w] else gt_granted s)\<rparr>))"
proof -
  note i = gt_invD[OF assms(1)] and f = gt_linesD(1)[OF gt_invD(1)[OF assms(1)]]
  have "tally permit_call ((gt_calls s)(w \<mapsto> k')) = tally permit_call (gt_calls s) + of_bool (permit_call k')"
    "tally (\<lambda>_. True) ((gt_calls s)(w \<mapsto> k')) = tally (\<lambda>_. True) (gt_calls s)"
    using tally_put[OF f assms(3), of permit_call k'] tally_put[OF f assms(3), of "\<lambda>_. True" k'] assms(5) by simp_all
  moreover have "subseq (gt_granted s @ rest) (gt_joined s)"
    by (rule subseq_order.order_trans[OF _ i(9)]) (auto simp: assms(2) intro!: list_emb_append_mono list_emb_Cons)
  moreover have "gt_lines ((gt_calls s)(w \<mapsto> k')) rest (gt_closed s)" using glines_pop[OF _ assms(4)] i(1) assms(2) by simp
  moreover have "gt_signals s - of_bool (permit_call k') + of_bool (permit_call k') = gt_signals s"
    using assms(6) by (cases "permit_call k'") simp_all
  ultimately show ?thesis using i assms(2) by (auto simp: gt_inv_def close_ok_def permits_def)
qed

lemma signal_inv:
  assumes "gt_inv sem s" "0 < gt_signals s" "gt_busy s = None" "gt_signal s = Some t"
  shows "gt_inv sem t"
proof (cases "gt_closed s")
  case True
  then have "t = s\<lparr>gt_signals := gt_signals s - 1\<rparr>" using assms(4) by (simp add: gt_signal_def)
  with assms(1) True show ?thesis by (auto simp: gt_inv_def close_ok_def permits_def)
next
  case open_gate: False
  note i = gt_invD[OF assms(1)]
  show ?thesis
  proof (cases "gt_entries s")
    case Nil
    then have t: "t = (gt_store_permit s)\<lparr>gt_signals := gt_signals s - 1\<rparr>" using assms(4) open_gate by (simp add: gt_signal_def)
    show ?thesis
    proof (cases "gt_available s < gt_maximum s")
      case True
      from succ_below[OF True] have "permits t = permits s" "gt_available t \<le> gt_maximum t"
        using assms(2) True by (simp_all add: t store_permit_cases permits_def)
      then show ?thesis using assms(1) Nil open_gate True by (auto simp: t store_permit_cases gt_inv_def close_ok_def)
    next
      case False
      then have "\<not> sem" using i(8) open_gate assms(2) by (auto simp: permits_def word_less_nat_alt)
      then show ?thesis using assms(1) Nil open_gate False by (auto simp: t store_permit_cases gt_inv_def close_ok_def)
    qed
  next
    case (Cons w rest)
    obtain k where k: "gt_calls s w = Some k" using gt_linesD(4)[OF i(1), of w] Cons by auto
    have ok: "gcall_ok True (gt_closed s) w k" using gt_call[OF assms(1) k] Cons by simp
    obtain b k' where bk: "rs_offer PermitRes k = Some (b, k')"
      using assms(4) Cons k open_gate by (auto simp: gt_signal_def split: option.splits)
    note o1 = gate_offer_call[OF ok bk]
    have "t = gt_put w k' (s\<lparr>gt_entries := rest, gt_signals := gt_signals s - of_bool (permit_call k'),
        gt_granted := (if b then gt_granted s @ [w] else gt_granted s)\<rparr>)"
      using assms(4) Cons k open_gate bk o1(3) by (cases b; cases s) (auto simp: gt_signal_def gt_put_def)
    then show ?thesis using gt_pop_inv[OF assms(1) Cons k o1(1,2), of b] assms(2) by simp
  qed
qed


subsection \<open>Broadcast and close\<close>

lemma broadcast_next_inv:
  assumes "gt_inv sem s" "gt_busy s = Some BroadcastingLine" "gt_broadcast_next s = Some t"
  shows "gt_inv sem t"
proof (cases "gt_entries s")
  case Nil
  then have "t = s\<lparr>gt_busy := None\<rparr>" using assms(3) by (simp add: gt_broadcast_next_def)
  with assms(1) Nil show ?thesis by (auto simp: gt_inv_def close_ok_def permits_def assms(2))
next
  case (Cons w rest)
  note i = gt_invD[OF assms(1)]
  obtain k where k: "gt_calls s w = Some k" using gt_linesD(4)[OF i(1), of w] Cons by auto
  have ok: "gcall_ok True (gt_closed s) w k" using gt_call[OF assms(1) k] Cons by simp
  obtain b k' where bk: "rs_offer Broadcast k = Some (b, k')" "t = gt_put w k' (s\<lparr>gt_entries := rest\<rparr>)"
    using assms(3) Cons k by (auto simp: gt_broadcast_next_def)
  note o1 = gate_offer_call[OF ok bk(1)]
  then show ?thesis using gt_pop_inv[OF assms(1) Cons k o1(1,2), of False] bk(2) by simp
qed

lemma close_next_inv:
  assumes "gt_inv sem s" "gt_busy s = Some ClosingLine" "gt_close_next s = Some t"
  shows "gt_inv sem t"
proof (cases "gt_entries s")
  case Nil
  then have "t = s\<lparr>gt_busy := None\<rparr>" using assms(3) by (simp add: gt_close_next_def)
  with assms(1) Nil show ?thesis by (auto simp: gt_inv_def close_ok_def permits_def assms(2))
next
  case (Cons w rest)
  note i = gt_invD[OF assms(1)]
  have cl: "gt_closed s" using i(2) assms(2) by (simp add: close_ok_def)
  obtain k where k: "gt_calls s w = Some k" using gt_linesD(4)[OF i(1), of w] Cons by auto
  have ok: "gcall_ok True True w k" using gt_call[OF assms(1) k] Cons cl by simp
  obtain b k' where bk: "rs_close k = Some (b, k')" "t = gt_put w k' (s\<lparr>gt_entries := rest\<rparr>)"
    using assms(3) Cons k by (auto simp: gt_close_next_def)
  note c = gate_close_call[OF ok bk(1)]
  have "gcall_ok False (gt_closed s) w k'" using c(1) cl by simp
  then show ?thesis using gt_pop_inv[OF assms(1) Cons k _ c(2), of k' False] c(3) bk(2) by simp
qed

text \<open>Closing is announced to the calls before it reaches their cells.\<close>

lemma gcall_ok_closed: "gcall_ok b c w k \<Longrightarrow> gcall_ok b True w k"
  by (cases "gc_stage k") (simp_all add: gcall_ok_def)

lemma gate_close_inv: "gt_inv sem s \<Longrightarrow> gt_busy s = None \<Longrightarrow> gt_inv sem (s\<lparr>gt_busy := Some ClearingPermits, gt_closed := True\<rparr>)"
  using gcall_ok_closed by (fastforce simp: gt_inv_def gt_lines_def close_ok_def permits_def)

lemma close_clear_inv:
  assumes "gt_inv sem s" "gt_busy s = Some ClearingPermits"
  shows "gt_inv sem (s\<lparr>gt_busy := Some ClosingLine, gt_available := 0\<rparr>)"
proof -
  note i = gt_invD[OF assms(1)]
  have "gt_closed s" using i(2) assms(2) by (simp add: close_ok_def)
  then show ?thesis using assms i by (auto simp: gt_inv_def close_ok_def permits_def)
qed

lemma broadcast_inv: "gt_inv sem s \<Longrightarrow> gt_busy s = None \<Longrightarrow> gt_inv sem (s\<lparr>gt_busy := Some BroadcastingLine\<rparr>)"
  by (simp add: gt_inv_def close_ok_def permits_def)

subsection \<open>Calls\<close>

lemma recycled_gate_call:
  "cas_exec recycle_body (wi_state c) = Some (v, True) \<Longrightarrow> wi_id c = w \<Longrightarrow>
   gcall_ok False cl w (gate_call_new (c\<lparr>wi_state := v\<rparr>)) \<and> \<not> permit_call (gate_call_new (c\<lparr>wi_state := v\<rparr>))"
  by (auto simp: cas_exec_def recycle_body_def gate_call_defs gate_call_new_def rs_ok_def split: if_splits)

lemma gate_reserve_inv:
  assumes "gt_inv sem s" "gt_calls s w = None" "wi_id c = w" "cas_exec recycle_body (wi_state c) = Some (v, True)" "gt_reserve s = Inr t"
  shows "gt_inv sem (gt_put w (gate_call_new (c\<lparr>wi_state := v\<rparr>)) t)"
proof -
  note i = gt_invD[OF assms(1)] and f = gt_linesD(1)[OF gt_invD(1)[OF assms(1)]]
  let ?k = "gate_call_new (c\<lparr>wi_state := v\<rparr>)"
  note k = recycled_gate_call[OF assms(4,3)]
  have w: "w \<notin> set (gt_entries s)" using gt_linesD(4)[OF i(1), of w] assms(2) by auto
  then have l: "gt_lines ((gt_calls s)(w \<mapsto> ?k)) (gt_entries s) (gt_closed s)" using glines_put[OF i(1)] k by simp
  have lt: "gt_outstanding s < gt_capacity s" and t: "t = s\<lparr>gt_outstanding := gt_outstanding s + 1\<rparr>"
    using assms(5) by (auto simp: gt_reserve_def split: if_splits)
  have "tally permit_call ((gt_calls s)(w \<mapsto> ?k)) = tally permit_call (gt_calls s)"
    "tally (\<lambda>_. True) ((gt_calls s)(w \<mapsto> ?k)) = tally (\<lambda>_. True) (gt_calls s) + 1"
    using tally_add[OF f assms(2)] k by simp_all
  then show ?thesis using i l t succ_below[OF lt] by (simp add: gt_inv_def permits_def close_ok_def)
qed

lemma gt_release_call:
  assumes "gt_inv sem s" "gt_calls s w = Some k"
  shows "gt_release s = s\<lparr>gt_outstanding := gt_outstanding s - 1\<rparr>" "unat (gt_outstanding s - 1) + 1 = tally (\<lambda>_. True) (gt_calls s)"
    "gt_outstanding s - 1 \<le> gt_capacity s"
proof -
  note i = gt_invD[OF assms(1)]
  have pos: "0 < unat (gt_outstanding s)"
    using tally_pos[OF gt_linesD(1)[OF i(1)] assms(2), of "\<lambda>_. True"] i(5) by simp
  then have "gt_outstanding s \<noteq> 0" by auto
  then show "gt_release s = s\<lparr>gt_outstanding := gt_outstanding s - 1\<rparr>" by (simp add: gt_release_def)
  show "unat (gt_outstanding s - 1) + 1 = tally (\<lambda>_. True) (gt_calls s)" using pred_positive(1)[OF pos] i(5) by simp
  show "gt_outstanding s - 1 \<le> gt_capacity s" by (rule order.trans[OF pred_positive(2)[OF pos] i(6)])
qed

text \<open>A call ends; its permit, if any, is signalled on or taken.\<close>

lemma gt_end_inv:
  assumes "gt_inv sem s" "gt_calls s w = Some k" "w \<notin> set (gt_entries s)" "a + b = of_bool (permit_call k)"
  shows "gt_inv sem ((gt_end w (gt_release s))\<lparr>gt_signals := gt_signals s + a, gt_taken := gt_taken s + b\<rparr>)"
proof -
  note i = gt_invD[OF assms(1)] and f = gt_linesD(1)[OF gt_invD(1)[OF assms(1)]] and r = gt_release_call[OF assms(1,2)]
  let ?t = "(gt_end w (gt_release s))\<lparr>gt_signals := gt_signals s + a, gt_taken := gt_taken s + b\<rparr>"
  have t: "tally permit_call ((gt_calls s)(w := None)) + of_bool (permit_call k) = tally permit_call (gt_calls s)"
    "tally (\<lambda>_. True) ((gt_calls s)(w := None)) + 1 = tally (\<lambda>_. True) (gt_calls s)"
    using tally_del[OF f assms(2), of permit_call] tally_del[OF f assms(2), of "\<lambda>_. True"] by simp_all
  then have "permits ?t = permits s" using assms(4) by (simp add: permits_def r(1))
  moreover have "unat (gt_outstanding s - 1) = tally (\<lambda>_. True) ((gt_calls s)(w := None))" using t(2) r(2) by linarith
  ultimately show ?thesis using i r(1,3) glines_end[OF i(1) assms(3)] by (simp add: gt_inv_def close_ok_def)
qed

lemma gate_subscribe_inv:
  assumes "gt_inv sem s" "gt_calls s w = Some k" "gc_stage k = GReserved" "gt_busy s = None" "gt_subscribe w k s = Some t"
  shows "gt_inv sem t"
proof -
  note i = gt_invD[OF assms(1)] and f = gt_linesD(1)[OF gt_invD(1)[OF assms(1)]] and c = gt_call[OF assms(1,2)]
  have k: "rs_ok k" "rs_stage k = Outside" "w \<notin> set (gt_entries s)" "rs_res k = None" "rs_open k" "\<not> permit_call k" "wi_id (rs_cell k) = w"
    "\<not> ww_closed (rs_word k)" "\<not> ww_permit (rs_word k)"
    using c assms(3) by (simp_all add: gate_call_defs rs_open_def)
  show ?thesis
  proof (cases "gt_closed s")
    case True
    then have "t = gt_end w (gt_release s)" using assms(5) by (simp add: gt_subscribe_def)
    with gt_end_inv[OF assms(1,2) k(3), of 0 0] k(6) gt_release_call[OF assms(1,2)] show ?thesis by (cases s) (simp add: gt_end_def)
  next
    case open_gate: False
    show ?thesis
    proof (cases "gt_available s = 0")
      case True
      let ?k = "k\<lparr>gc_stage := GTicketed\<rparr>"
      have t: "t = gt_put w ?k (s\<lparr>gt_entries := gt_entries s @ [w], gt_joined := gt_joined s @ [w]\<rparr>)"
        using assms(5) open_gate True by (simp add: gt_subscribe_def gt_try_take_def try_take_body_def)
      have "gcall_ok True (gt_closed s) w ?k" using c assms(3) k by (simp add: gcall_ok_def)
      then have "gt_lines ((gt_calls s)(w \<mapsto> ?k)) (gt_entries s @ [w]) (gt_closed s)" using glines_join[OF i(1) k(3)] by simp
      moreover have "tally P ((gt_calls s)(w \<mapsto> ?k)) = tally P (gt_calls s)" if "P ?k = P k" for P
        using tally_put[OF f assms(2), of P ?k] that by simp
      moreover have "permit_call ?k = permit_call k" using k(4,6) by (simp add: permit_call_def)
      moreover have "subseq (gt_granted s @ gt_entries s @ [w]) (gt_joined s @ [w])"
        using i(9) by (metis append_assoc list_emb_append_mono subseq_order.order_refl)
      ultimately show ?thesis using i True open_gate assms(4) by (simp add: t gt_inv_def permits_def close_ok_def)
    next
      case False
      then have "0 < unat (gt_available s)" by (simp add: unat_gt_0)
      note p = pred_positive[OF this]
      have "ww_phase (rs_word k) = Idle" using k(1,2) by (simp add: rs_ok_def)
      then obtain b k' where bk: "rs_offer PermitRes k = Some (b, k')"
        by (cases "resource_offer PermitRes (rs_word k)") (auto simp: rs_offer_def claim_resource_body_def)
      note o1 = rs_offer_cases[OF bk k(1)]
      then have b: "b" using k(5) by (auto split: if_splits)
      let ?k = "k'\<lparr>gc_stage := GTicketed\<rparr>"
      have t: "t = gt_put w ?k (s\<lparr>gt_available := gt_available s - 1\<rparr>)"
        using assms(5) open_gate False bk b by (simp add: gt_subscribe_def gt_try_take_def try_take_body_def)
      have e: "gt_entries s = []" using i(3) False by blast
      have "gcall_ok False (gt_closed s) w ?k" "permit_call ?k" using o1 b k by (simp_all add: gate_call_defs)
      then have "gt_lines ((gt_calls s)(w \<mapsto> ?k)) (gt_entries s) (gt_closed s)"
        "tally permit_call ((gt_calls s)(w \<mapsto> ?k)) = tally permit_call (gt_calls s) + 1"
        "tally (\<lambda>_. True) ((gt_calls s)(w \<mapsto> ?k)) = tally (\<lambda>_. True) (gt_calls s)"
        using glines_put[OF i(1), of w ?k] e tally_put[OF f assms(2), of permit_call ?k] tally_put[OF f assms(2), of "\<lambda>_. True" ?k] k(6)
        by simp_all
      moreover from this have "permits t = permits s" using p(1) by (simp add: t permits_def)
      moreover have "gt_available s - 1 \<le> gt_maximum s" by (rule order.trans[OF p(2) i(4)])
      ultimately show ?thesis using i e open_gate assms(4) by (simp add: t gt_inv_def close_ok_def)
    qed
  qed
qed


text \<open>The steps of one call's park: neither the line nor any permit moves.\<close>

lemma gticketed_ok:
  assumes "gcall_ok b cl w k" "gc_stage k = GTicketed"
  shows "rs_ok k" "wi_id (rs_cell k) = w" "ww_closed (rs_word k) \<Longrightarrow> cl \<and> \<not> b"
    "rs_stage k = Outside \<Longrightarrow> rs_res k \<noteq> None \<longleftrightarrow> ww_permit (rs_word k)" "b \<Longrightarrow> rs_res k = None" "rs_open k \<Longrightarrow> b"
    "ww_closed (rs_word k) \<Longrightarrow> rs_res k = None"
  using assms by (simp_all add: gcall_ok_def)

lemma gate_begin_call:
  assumes "gcall_ok b cl w k" "gc_stage k = GTicketed" "rs_stage k = Outside" "rs_begin task route hub dl now k = Some (x, k')"
  shows "gcall_ok b cl w (k'\<lparr>gc_stage := gate_begin_result x dl\<rparr>) \<and> permit_call (k'\<lparr>gc_stage := gate_begin_result x dl\<rparr>) = permit_call k"
proof -
  note k = gticketed_ok[OF assms(1,2)]
  note c = rs_begin_cases[OF assms(4) k(1) assms(3) k(4)[OF assms(3)]]
  show ?thesis
  proof (cases x)
    case (Inl e)
    with c assms k show ?thesis by (auto simp: gate_begin_result_def gate_call_defs)
  next
    case (Inr y)
    show ?thesis
    proof (cases y)
      case (Immediate cause)
      with Inr c assms(2,3) k show ?thesis
        by (cases cause) (auto simp: gate_begin_result_def gate_result_def gate_call_defs)
    next
      case (Park tok d)
      with Inr c assms(2) k show ?thesis by (auto simp: gate_begin_result_def gate_call_defs)
    qed
  qed
qed

lemma gate_resume_call:
  assumes "gcall_ok b cl w k" "gc_stage k = GTicketed" "rs_stage k = ParkedWait tok dl" "\<not> rs_open k" "rs_finish False tok k = Some (Inr c, k')"
  shows "gcall_ok b cl w (k'\<lparr>gc_stage := gate_result c dl\<rparr>) \<and> permit_call (k'\<lparr>gc_stage := gate_result c dl\<rparr>) = permit_call k"
proof -
  note k = gticketed_ok[OF assms(1,2)]
  note f = rs_finish_cases[OF assms(5) k(1) assms(3,4)]
  then show ?thesis using k assms(2) by (cases c) (auto simp: gate_result_def gate_call_defs)
qed

lemma gate_background_call:
  assumes "gcall_ok b cl w k" "rs_step k k'"
  shows "gcall_ok b cl w k' \<and> permit_call k' = permit_call k"
proof -
  have "rs_keeps k k'" using rs_step_keeps[OF assms(2)] assms(1) by (simp add: gcall_ok_def)
  moreover from this have "gc_stage k' = gc_stage k" using gc_stage_more[of k' k] by (simp add: rs_keeps_def)
  moreover have "gc_stage k = GTicketed" using calculation(1) assms(1) by (auto simp: rs_keeps_def gcall_ok_def)
  ultimately show ?thesis using assms(1) by (auto simp: rs_keeps_def gate_call_defs)
qed

lemma gate_fail_parked_call:
  assumes "gcall_ok b cl w k" "gc_stage k = GTicketed" "rs_stage k = ParkedWait tok dl" "rs_rollback tok k = Inr k'"
  defines "q \<equiv> k'\<lparr>gc_stage := (if rs_stage k' = Outside then GFailed else GTicketed)\<rparr>"
  shows "gcall_ok b cl w q \<and> permit_call q = permit_call k"
proof -
  note k = gticketed_ok[OF assms(1,2)]
  from rs_rollback_cases[OF assms(4) k(1) assms(3)] show ?thesis
    using k assms(2) by (auto simp: q_def gate_call_defs)
qed

lemma gate_stage_call:
  assumes "gcall_ok b cl w k" "gc_stage k = GTicketed \<and> rs_stage k = Outside \<and> x = GFailed \<or> gc_stage k = GResumed \<and> x \<in> {GFailed, GTaking}"
  shows "gcall_ok b cl w (k\<lparr>gc_stage := x\<rparr>) \<and> permit_call (k\<lparr>gc_stage := x\<rparr>) = permit_call k"
  using assms by (auto simp: gate_call_defs)

lemma gate_taking_call:
  assumes "gcall_ok b cl w k" "gc_stage k = GTaking" "rs_take k = Some (r, k')"
  defines "q \<equiv> k'\<lparr>gc_stage := (if r = None then GTicketed else GCompleting r)\<rparr>"
  shows "gcall_ok b cl w q \<and> permit_call q = permit_call k"
proof -
  have k: "rs_ok k" "rs_stage k = Outside" using assms(1,2) by (simp_all add: gcall_ok_def)
  have "ww_permit (rs_word k') = ww_permit (rs_word k)"
    using assms(3) by (auto simp: rs_take_def cas_exec_def take_resource_body_def resource_take_def rs_set_def split: option.splits if_splits)
  with rs_take_cases[OF assms(3) k] show ?thesis using assms(1,2) by (auto simp: q_def gate_call_defs rs_open_def)
qed

lemma gate_unlink_inv:
  assumes "gt_inv sem s" "gt_calls s w = Some k" "gc_stage k = GFailed" "gt_unlink w k s = Some t"
  shows "gt_inv sem t"
proof -
  note i = gt_invD[OF assms(1)] and f = gt_linesD(1)[OF gt_invD(1)[OF assms(1)]] and c = gt_call[OF assms(1,2)]
  have k: "rs_ok k" "rs_stage k = Outside" using c assms(3) by (simp_all add: gcall_ok_def)
  show ?thesis
  proof (cases "w \<in> set (gt_entries s)")
    case False
    then have "position (\<lambda>e. e = w) (gt_entries s) = None" using position_None_iff[of "\<lambda>e. e = w" "gt_entries s"] by auto
    then obtain r k' where rk: "rs_take k = Some (r, k')" "t = gt_put w (k'\<lparr>gc_stage := GUnlinked r\<rparr>) s"
      using assms(4) by (auto simp: gt_unlink_def)
    have "gt_inv sem (gt_put w (k'\<lparr>gc_stage := GUnlinked r\<rparr>) s)"
      by (rule gt_put_inv[OF assms(1,2)]) (use rs_take_cases[OF rk(1) k] c False assms(3) in \<open>auto simp: gate_call_defs\<close>)
    with rk show ?thesis by simp
  next
    case True
    let ?k = "k\<lparr>gc_stage := GUnlinked None\<rparr>"
    let ?es = "filter (\<lambda>x. x \<noteq> w) (gt_entries s)"
    obtain j where j: "position (\<lambda>e. e = w) (gt_entries s) = Some j"
      using True position_None_iff[of "\<lambda>e. e = w" "gt_entries s"] by (cases "position (\<lambda>e. e = w) (gt_entries s)") auto
    have t: "t = gt_put w ?k (s\<lparr>gt_entries := ?es\<rparr>)"
      using assms(4) j remove_at_position[OF gt_linesD(2)[OF i(1)] j] by (simp add: gt_unlink_def)
    have "gcall_ok False (gt_closed s) w ?k" "permit_call ?k = permit_call k" using c True assms(3) by (simp_all add: gate_call_defs)
    moreover have "tally P ((gt_calls s)(w \<mapsto> ?k)) = tally P (gt_calls s)" if "P ?k = P k" for P
      using tally_put[OF f assms(2), of P ?k] that by simp
    moreover have "subseq (gt_granted s @ ?es) (gt_joined s)"
      using i(9) subseq_filter_left[of "\<lambda>x. x \<noteq> w" "gt_entries s"]
      by (meson list_emb_append_mono subseq_order.order_trans subseq_order.order_refl)
    moreover have "gt_available s = 0" using True i(3) by (cases "gt_entries s") simp_all
    moreover have "close_ok (s\<lparr>gt_entries := ?es\<rparr>)" using i(2) by (auto simp: close_ok_def)
    ultimately show ?thesis using i glines_remove[OF i(1)] by (simp add: t gt_inv_def permits_def close_ok_def)
  qed
qed

lemma gate_reset_inv:
  assumes "gt_inv sem s" "gt_calls s w = Some k" "gc_stage k = GUnlinked sel" "gt_reset w k sel s = Some t"
  shows "gt_inv sem t"
proof -
  note c = gt_call[OF assms(1,2)]
  have k: "rs_ok k" "rs_stage k = Outside" using c assms(3) by (simp_all add: gcall_ok_def)
  show ?thesis
  proof (cases "gt_closed s")
    case True
    obtain k' where r: "rs_reset k = Some (True, k')" "rs_ok k' \<and> rs_stage k' = Outside \<and> \<not> ww_closed (rs_word k') \<and> rs_res k' = rs_res k
      \<and> wi_id (rs_cell k') = wi_id (rs_cell k) \<and> resident.more k' = resident.more k" using rs_reset_cases[OF k] by blast
    have "gt_inv sem (gt_put w (k'\<lparr>gc_stage := GReleasing sel\<rparr>) s)"
      by (rule gt_put_inv[OF assms(1,2)]) (use r(2) c assms(3) in \<open>auto simp: gate_call_defs\<close>)
    then show ?thesis using assms(4) True r(1) by (simp add: gt_reset_def)
  next
    case False
    have "gt_inv sem (gt_put w (k\<lparr>gc_stage := GReleasing sel\<rparr>) s)"
      by (rule gt_put_inv[OF assms(1,2)]) (use c assms(3) in \<open>auto simp: gate_call_defs\<close>)
    then show ?thesis using assms(4) False by (simp add: gt_reset_def)
  qed
qed


lemma gate_step_inv: "gate_step sem s t \<Longrightarrow> gt_inv sem s \<Longrightarrow> gt_inv sem t"
proof (induction rule: gate_step.induct)
  case (notify s)
  then show ?case using notify_inv by (cases sem) auto
next
  case (begin_park s w k task route hub dl now x k')
  show ?case by (rule gt_put_inv[OF begin_park(5,1)]) (use gate_begin_call[OF gt_call[OF begin_park(5,1)] begin_park(2-4)] in auto)
next
  case (background s w k k')
  show ?case by (rule gt_put_inv[OF background(3,1)]) (use gate_background_call[OF gt_call[OF background(3,1)] background(2)] in auto)
next
  case (background_panic s w k)
  have "rs_ok k" using gt_call[OF background_panic(3,1)] by (simp add: gcall_ok_def)
  with rs_no_panic background_panic(2) show ?case by blast
next
  case (resume s w k tok dl c k')
  show ?case by (rule gt_put_inv[OF resume(6,1)]) (use gate_resume_call[OF gt_call[OF resume(6,1)] resume(2-5)] in auto)
next
  case (fail_early s w k)
  show ?case by (rule gt_put_inv[OF fail_early(4,1)]) (use gate_stage_call[OF gt_call[OF fail_early(4,1)], of GFailed] fail_early(2,3) in auto)
next
  case (fail_parked s w k tok dl k')
  show ?case by (rule gt_put_inv[OF fail_parked(5,1)]) (use gate_fail_parked_call[OF gt_call[OF fail_parked(5,1)] fail_parked(2-4)] in auto)
next
  case (check_fails s w k)
  show ?case by (rule gt_put_inv[OF check_fails(3,1)]) (use gate_stage_call[OF gt_call[OF check_fails(3,1)], of GFailed] check_fails(2) in auto)
next
  case (check_closed s w k)
  show ?case by (rule gt_put_inv[OF check_closed(3,1)])
      (use gate_stage_call[OF gt_call[OF check_closed(3,1)], of GFailed] gate_stage_call[OF gt_call[OF check_closed(3,1)], of GTaking] check_closed(2) in auto)
next
  case (taking s w k r k')
  show ?case by (rule gt_put_inv[OF taking(4,1)]) (use gate_taking_call[OF gt_call[OF taking(4,1)] taking(2,3)] in auto)
next
  case (complete s w k sel)
  have "w \<notin> set (gt_entries s)" "permit_call k \<longleftrightarrow> sel = Some PermitRes"
    using gt_call[OF complete(3,1)] complete(2) by (simp_all add: gate_call_defs)
  with gt_end_inv[OF complete(3,1), of 0 "of_bool (sel = Some PermitRes)"] show ?case
    by (simp add: gt_complete_def gt_release_call[OF complete(3,1)] gt_end_def Let_def)
next
  case (finish_drop s w k sel)
  have "w \<notin> set (gt_entries s)" "permit_call k \<longleftrightarrow> sel = Some PermitRes"
    using gt_call[OF finish_drop(3,1)] finish_drop(2) by (simp_all add: gate_call_defs)
  with gt_end_inv[OF finish_drop(3,1), of "of_bool (sel = Some PermitRes)" 0] show ?case
    by (simp add: gt_finish_drop_def gt_release_call[OF finish_drop(3,1)] gt_end_def Let_def)
qed (blast intro: take_inv put_back_inv signal_inv broadcast_inv broadcast_next_inv gate_close_inv close_clear_inv close_next_inv
    gate_reserve_inv gate_subscribe_inv gate_unlink_inv gate_reset_inv)+

lemma gate_new_inv: "gate_new a m c = Inr s \<Longrightarrow> a \<le> m \<Longrightarrow> (sem \<longrightarrow> a = m) \<Longrightarrow> gt_inv sem s"
  by (auto simp: gate_new_def gt_inv_def gt_lines_def close_ok_def permits_def split: if_splits)

lemma gate_reach_inv: "gate_reach sem s \<Longrightarrow> gt_inv sem s"
proof (induction rule: gate_reach.induct)
  case (semaphore permits capacity s)
  then show ?case using gate_new_inv[of permits permits] by (auto simp: semaphore_new_def split: if_splits)
next
  case (notify capacity s)
  then show ?case using gate_new_inv[of 0 1] by (auto simp: notify_new_def)
next
  case (condvar capacity s)
  then show ?case using gate_new_inv[of 0 0] by (auto simp: condvar_new_def)
next
  case (step sem s t)
  then show ?case using gate_step_inv by blast
qed


section \<open>Properties\<close>

text \<open>A sample run: the only permit of a semaphore is taken, then a caller joins the line, then the permit is returned.\<close>

definition sample_gate :: "unit gate_sys" where
  "sample_gate = \<lparr>gt_maximum = 1, gt_capacity = 64, gt_available = 0, gt_outstanding = 0, gt_closed = False, gt_entries = [],
     gt_busy = None, gt_calls = Map.empty, gt_signals = 0, gt_taken = 1, gt_joined = [], gt_granted = [], gt_panicked = False\<rparr>"

definition sample_gate_call :: "gate_stage \<Rightarrow> unit gate_call" where
  "sample_gate_call st = \<lparr>rs_cell = wait_inner_new 7, rs_stage = Outside, rs_pubs = [], gc_stage = st\<rparr>"

definition sample_gate_line :: "unit gate_sys" where
  "sample_gate_line = sample_gate\<lparr>gt_outstanding := 1, gt_entries := [7], gt_joined := [7],
     gt_calls := [7 \<mapsto> sample_gate_call GTicketed]\<rparr>"

definition sample_gate_returned :: "unit gate_sys" where
  "sample_gate_returned = sample_gate_line\<lparr>gt_taken := 0, gt_signals := 1\<rparr>"

lemma sample_gate_reach: "gate_reach True sample_gate"
proof -
  let ?s = "sample_gate\<lparr>gt_available := 1, gt_taken := 0\<rparr>"
  have "gate_reach True ?s"
    by (rule gate_reach.semaphore[of 1 64]) (simp add: semaphore_new_def gate_new_def sample_gate_def)
  moreover have "gate_step True ?s sample_gate"
    using gate_step.take[of ?s 0 "Inr ()" True] by (simp add: try_take_body_def sample_gate_def)
  ultimately show ?thesis by (rule gate_reach.step)
qed

lemma sample_gate_line_reach: "gate_reach True sample_gate_line"
proof -
  let ?t = "gt_put 7 (sample_gate_call GReserved) (sample_gate\<lparr>gt_outstanding := 1\<rparr>)"
  have "gate_step True sample_gate ?t"
    using gate_step.reserve[of sample_gate 7 "wait_inner_new 7" ww_initial "sample_gate\<lparr>gt_outstanding := 1\<rparr>" True]
    by (simp add: sample_gate_def wait_inner_new_def cas_exec_def recycle_body_def ww_initial_def gt_reserve_def
        gate_call_new_def sample_gate_call_def)
  then have "gate_reach True ?t" using sample_gate_reach by (blast intro: gate_reach.step)
  moreover have "gate_step True ?t sample_gate_line"
    by (rule gate_step.subscribe[of ?t 7 "sample_gate_call GReserved"])
      (simp_all add: sample_gate_call_def sample_gate_def sample_gate_line_def gt_subscribe_def gt_try_take_def try_take_body_def gt_put_def)
  ultimately show ?thesis by (rule gate_reach.step)
qed

lemma sample_gate_returned_reach: "gate_reach True sample_gate_returned"
  using gate_reach.step[OF sample_gate_line_reach gate_step.put_back]
  by (simp add: sample_gate_returned_def sample_gate_line_def sample_gate_def)

lemma sample_gate_open: "rs_open (sample_gate_call GTicketed)"
  by (simp add: rs_open_def sample_gate_call_def wait_inner_new_def ww_initial_def)

text \<open>
  C28. A semaphore neither loses nor invents permits: under every interleaving of acquisitions,
  returns, cancellations, failures and a close, no assertion fails, the stored permits, the
  returns in progress, the permits selected for calls that have not taken them and the permits
  in callers' hands never exceed the pool, and until a close they are together exactly the pool.
\<close>

theorem semaphore_conservation:
  assumes "gate_reach True s"
  shows "\<not> gt_panicked s \<and> permits s \<le> unat (gt_maximum s) \<and> (\<not> gt_closed s \<longrightarrow> permits s = unat (gt_maximum s))"
  using gt_invD[OF gate_reach_inv[OF assms]] by simp

theorem semaphore_conservation_witness: "permits sample_gate_returned = 1 \<and> gt_signals sample_gate_returned = 1"
  using semaphore_conservation[OF sample_gate_returned_reach]
  by (simp add: sample_gate_returned_def sample_gate_line_def sample_gate_def)

text \<open>
  C29. Nobody waits beside a stored permit or behind a close: in every reachable state of a
  semaphore, a notification source or a condition variable, a call that waits without having
  been selected is in the line, no permit is stored, and the gate is not closed unless the
  close is still on its way through the line.
\<close>

theorem gate_no_lost_permit:
  assumes "gate_reach sem s" "gt_calls s w = Some k" "gc_stage k = GTicketed" "rs_open k"
  shows "w \<in> set (gt_entries s) \<and> gt_available s = 0
    \<and> (gt_closed s \<longrightarrow> gt_busy s = Some ClearingPermits \<or> gt_busy s = Some ClosingLine)"
proof -
  note i = gt_invD[OF gate_reach_inv[OF assms(1)]]
  have "w \<in> set (gt_entries s)" using gticketed_ok(6)[OF gt_call[OF gate_reach_inv[OF assms(1)] assms(2)] assms(3,4)] .
  moreover from this have "gt_entries s \<noteq> []" by (cases "gt_entries s") simp_all
  ultimately show ?thesis using i(2,3) unfolding close_ok_def by blast
qed

theorem gate_no_lost_permit_witness: "(7 :: u64) \<in> set (gt_entries sample_gate_line) \<and> gt_available sample_gate_line = 0"
  using gate_no_lost_permit[OF sample_gate_line_reach, of 7 "sample_gate_call GTicketed"] sample_gate_open
  by (simp add: sample_gate_line_def sample_gate_call_def)

text \<open>
  A gate's line is first in, first out and bounded: in every reachable state the calls
  selected from the line, followed by those still in it, are in the order in which they
  joined, the outstanding tickets are exactly the calls in progress and never exceed the
  configured capacity, and no more than the maximum number of permits is stored.
\<close>

theorem gate_line_fifo:
  assumes "gate_reach sem s"
  shows "subseq (gt_granted s @ gt_entries s) (gt_joined s) \<and> distinct (gt_entries s)
    \<and> unat (gt_outstanding s) = card (dom (gt_calls s)) \<and> gt_outstanding s \<le> gt_capacity s \<and> gt_available s \<le> gt_maximum s"
proof -
  note i = gt_invD[OF gate_reach_inv[OF assms]]
  have "tally (\<lambda>_. True) (gt_calls s) = card (dom (gt_calls s))" by (simp add: tally_def dom_def)
  then show ?thesis using i gt_linesD(2)[OF i(1)] by simp
qed

theorem gate_line_fifo_witness: "unat (gt_outstanding sample_gate_line) = card (dom (gt_calls sample_gate_line)) \<and> gt_entries sample_gate_line = [7]"
  using gate_line_fifo[OF sample_gate_line_reach] by (simp add: sample_gate_line_def)

text \<open>
  What one signal does to an open gate: with nobody in line it stores one permit, up to
  the maximum; otherwise it removes exactly the oldest entry, which is selected, ending the
  signal, if its call still waits, and is passed over, with the signal going on, if it does not.
\<close>

theorem gate_signal_serves:
  assumes "gate_reach sem s" "\<not> gt_closed s" "gt_signal s = Some t"
  shows "case gt_entries s of
      [] \<Rightarrow> unat (gt_available t) = min (unat (gt_maximum s)) (unat (gt_available s) + 1) \<and> gt_signals t = gt_signals s - 1
    | w # rest \<Rightarrow> gt_entries t = rest \<and> gt_available t = gt_available s
        \<and> (if rs_open (the (gt_calls s w))
           then rs_res (the (gt_calls t w)) = Some PermitRes \<and> gt_signals t = gt_signals s - 1 \<and> gt_granted t = gt_granted s @ [w]
           else gt_signals t = gt_signals s \<and> gt_granted t = gt_granted s)"
proof -
  have inv: "gt_inv sem s" using gate_reach_inv[OF assms(1)] .
  note i = gt_invD[OF inv]
  show ?thesis
  proof (cases "gt_entries s")
    case Nil
    then have t: "t = (gt_store_permit s)\<lparr>gt_signals := gt_signals s - 1\<rparr>" using assms(2,3) by (simp add: gt_signal_def)
    show ?thesis
    proof (cases "gt_available s < gt_maximum s")
      case True
      with succ_below[OF True] Nil show ?thesis by (simp add: t store_permit_cases word_less_nat_alt)
    next
      case False
      with i(4) Nil show ?thesis by (simp add: t store_permit_cases word_less_nat_alt word_le_nat_alt)
    qed
  next
    case (Cons w rest)
    obtain k where k: "gt_calls s w = Some k" using gt_linesD(4)[OF i(1), of w] Cons by auto
    have ok: "gcall_ok True (gt_closed s) w k" using gt_call[OF inv k] Cons by simp
    obtain b k' where bk: "rs_offer PermitRes k = Some (b, k')"
      using assms(2,3) Cons k by (auto simp: gt_signal_def split: option.splits)
    from gate_offer_call[OF ok bk] show ?thesis using assms(2,3) Cons k bk by (cases b) (auto simp: gt_signal_def)
  qed
qed

theorem gate_signal_serves_witness:
  "\<exists>t. gt_signal sample_gate_returned = Some t \<and> gt_entries t = [] \<and> gt_signals t = 0 \<and> gt_granted t = [7]"
proof -
  have "\<exists>k'. rs_offer PermitRes (sample_gate_call GTicketed) = Some (True, k')"
    by (simp add: rs_offer_def claim_resource_body_def resource_offer_def sample_gate_call_def wait_inner_new_def ww_initial_def)
  then obtain t where t: "gt_signal sample_gate_returned = Some t"
    by (auto simp: gt_signal_def sample_gate_returned_def sample_gate_line_def sample_gate_def)
  with gate_signal_serves[OF sample_gate_returned_reach _ t] sample_gate_open show ?thesis
    by (simp add: sample_gate_returned_def sample_gate_line_def sample_gate_def)
qed

end
