(* ===== verification/Cancel_Rewrite.thy ===== *)
theory Cancel_Rewrite
  imports Cancel_Graph
begin

text \<open>
  What the rewrites of the cancellation graph do to its nodes. A view forgets how the adjacency
  sets are stored; on a well-formed graph every operation is shown not to panic and to change
  the view by a simple function: a node is unlinked, bypassed, turned into a relay, given a new
  signature, or merged into another.
\<close>

section \<open>Views\<close>

record node_view =
  nv_kind :: node_class
  nv_flag :: bool
  nv_cancelled :: bool
  nv_parents :: "usize set"
  nv_children :: "usize set"
  nv_signature :: signature

definition entry_view :: "cg_entry \<Rightarrow> node_view" where
  "entry_view e =
     \<lparr>nv_kind = ce_kind e, nv_flag = ce_flag e, nv_cancelled = ce_cancelled e, nv_parents = set (ps_iter (ce_parents e)),
      nv_children = set (ids_iter (ce_children e)), nv_signature = ce_signature e\<rparr>"

definition view :: "cancel_graph \<Rightarrow> usize \<rightharpoonup> node_view" where
  "view g i = map_option entry_view (cg_nodes g i)"

definition edges :: "(usize \<rightharpoonup> node_view) \<Rightarrow> (usize \<times> usize) set" where
  "edges V = {(p, c). \<exists>v. V p = Some v \<and> c \<in> nv_children v}"

definition relays :: "(usize \<rightharpoonup> node_view) \<Rightarrow> usize set" where
  "relays V = {i. \<exists>v. V i = Some v \<and> nv_kind v = Relay}"

definition tokens :: "(usize \<rightharpoonup> node_view) \<Rightarrow> usize set" where
  "tokens V = {i. \<exists>v. V i = Some v \<and> nv_kind v = Token}"

definition bucket :: "(candidate \<rightharpoonup> usize list) \<Rightarrow> candidate \<Rightarrow> usize list" where
  "bucket ix c = (case ix c of None \<Rightarrow> [] | Some is \<Rightarrow> is)"

section \<open>Well-formed graphs\<close>

definition entry_ok :: "cg_entry \<Rightarrow> bool" where
  "entry_ok e \<longleftrightarrow> ids_inv (ce_children e) \<and> ps_inv (ce_parents e)"

definition reps :: "cancel_graph \<Rightarrow> bool" where
  "reps g \<longleftrightarrow> (\<forall>i e. cg_nodes g i = Some e \<longrightarrow> entry_ok e)"

text \<open>Parent sets mirror child sets.\<close>

definition mirrored :: "(usize \<rightharpoonup> node_view) \<Rightarrow> bool" where
  "mirrored V \<longleftrightarrow> (\<forall>p c. (p, c) \<in> edges V \<longleftrightarrow> (\<exists>v. V c = Some v \<and> p \<in> nv_parents v))"

definition node_ok :: "usize \<Rightarrow> usize \<Rightarrow> node_view \<Rightarrow> bool" where
  "node_ok n i v \<longleftrightarrow>
     i < n \<and> sig_inv (nv_signature v) \<and> sig_set (nv_signature v) \<subseteq> {..<n} \<and> nv_children v \<subseteq> {i<..}
     \<and> (if nv_kind v = Token then nv_flag v \<and> nv_signature v = Singleton i else \<not> nv_flag v)"

definition closed_flags :: "(usize \<rightharpoonup> node_view) \<Rightarrow> bool" where
  "closed_flags V \<longleftrightarrow>
     (\<forall>p c v w. (p, c) \<in> edges V \<longrightarrow> V p = Some v \<longrightarrow> V c = Some w \<longrightarrow> nv_cancelled v \<longrightarrow> nv_cancelled w)"

definition view_wf :: "usize \<Rightarrow> (usize \<rightharpoonup> node_view) \<Rightarrow> bool" where
  "view_wf n V \<longleftrightarrow> finite (dom V) \<and> mirrored V \<and> (\<forall>i v. V i = Some v \<longrightarrow> node_ok n i v)"

definition indexed :: "(usize \<rightharpoonup> node_view) \<Rightarrow> (candidate \<rightharpoonup> usize list) \<Rightarrow> bool" where
  "indexed V ix \<longleftrightarrow>
     (\<forall>c i. i \<in> set (bucket ix c) \<longleftrightarrow> (\<exists>v. V i = Some v \<and> nv_kind v = Relay \<and> candidate_of (nv_signature v) = c))"

definition cg_wf :: "cancel_graph \<Rightarrow> bool" where
  "cg_wf g \<longleftrightarrow>
     reps g \<and> view_wf (cg_next g) (view g) \<and> indexed (view g) (cg_index g) \<and> cg_relays g = card (relays (view g))"

section \<open>View transformations\<close>

definition drop_links :: "usize \<Rightarrow> node_view \<Rightarrow> node_view" where
  "drop_links i v = v\<lparr>nv_parents := nv_parents v - {i}, nv_children := nv_children v - {i}\<rparr>"

definition unlinked :: "usize \<Rightarrow> (usize \<rightharpoonup> node_view) \<Rightarrow> usize \<rightharpoonup> node_view" where
  "unlinked i V = (\<lambda>j. if j = i then None else map_option (drop_links i) (V j))"

definition add_links :: "usize set \<Rightarrow> usize set \<Rightarrow> usize \<Rightarrow> node_view \<Rightarrow> node_view" where
  "add_links P C j v =
     v\<lparr>nv_parents := nv_parents v \<union> (if j \<in> C then P else {}), nv_children := nv_children v \<union> (if j \<in> P then C else {})\<rparr>"

definition linked :: "usize set \<Rightarrow> usize set \<Rightarrow> (usize \<rightharpoonup> node_view) \<Rightarrow> usize \<rightharpoonup> node_view" where
  "linked P C V = (\<lambda>j. map_option (add_links P C j) (V j))"

text \<open>A node spliced out: its parents and children are connected directly.\<close>

definition bypassed :: "usize \<Rightarrow> node_view \<Rightarrow> (usize \<rightharpoonup> node_view) \<Rightarrow> usize \<rightharpoonup> node_view" where
  "bypassed i v V = linked (nv_parents v) (nv_children v) (unlinked i V)"

text \<open>A relay merged into another: the other adopts its children.\<close>

definition merged :: "usize \<Rightarrow> usize \<Rightarrow> node_view \<Rightarrow> (usize \<rightharpoonup> node_view) \<Rightarrow> usize \<rightharpoonup> node_view" where
  "merged keep remove v V = linked {keep} (nv_children v) (unlinked remove V)"

lemma view_None [simp]: "view g i = None \<longleftrightarrow> cg_nodes g i = None"
  by (simp add: view_def)

lemma view_Some: "view g i = Some v \<longleftrightarrow> (\<exists>e. cg_nodes g i = Some e \<and> v = entry_view e)"
  by (auto simp: view_def)

lemma view_frame [simp]:
  "view (g\<lparr>cg_next := x\<rparr>) = view g" "view (g\<lparr>cg_relays := r\<rparr>) = view g" "view (g\<lparr>cg_index := ix\<rparr>) = view g"
  by (simp_all add: view_def fun_eq_iff)

lemma reps_frame [simp]:
  "reps (g\<lparr>cg_next := x\<rparr>) = reps g" "reps (g\<lparr>cg_relays := r\<rparr>) = reps g" "reps (g\<lparr>cg_index := ix\<rparr>) = reps g"
  by (simp_all add: reps_def)

lemma node_at_Some [simp]: "cg_nodes g i = Some e \<Longrightarrow> node_at i g = Inr e"
  by (simp add: node_at_def)

lemma upd_node_Some [simp]: "cg_nodes g i = Some e \<Longrightarrow> upd_node i f g = Inr (g\<lparr>cg_nodes := (cg_nodes g)(i \<mapsto> f e)\<rparr>)"
  by (simp add: upd_node_def)

lemma entry_view_simps [simp]:
  "nv_kind (entry_view e) = ce_kind e" "nv_flag (entry_view e) = ce_flag e" "nv_cancelled (entry_view e) = ce_cancelled e"
  "nv_parents (entry_view e) = set (ps_iter (ce_parents e))" "nv_children (entry_view e) = set (ids_iter (ce_children e))"
  "nv_signature (entry_view e) = ce_signature e"
  by (simp_all add: entry_view_def)

lemma entry_view_same [simp]:
  "(entry_view e)\<lparr>nv_parents := set (ps_iter (ce_parents e))\<rparr> = entry_view e"
  "(entry_view e)\<lparr>nv_children := set (ids_iter (ce_children e))\<rparr> = entry_view e"
  by (simp_all add: entry_view_def)

text \<open>The four adjacency updates keep the representation and change the view by one element.\<close>

lemma adjacency_view:
  assumes "entry_ok e"
  shows "entry_ok (add_child c e)" "entry_view (add_child c e) = (entry_view e)\<lparr>nv_children := insert c (nv_children (entry_view e))\<rparr>"
    "entry_ok (del_child c e)" "entry_view (del_child c e) = (entry_view e)\<lparr>nv_children := nv_children (entry_view e) - {c}\<rparr>"
    "entry_ok (add_parent c e)" "entry_view (add_parent c e) = (entry_view e)\<lparr>nv_parents := insert c (nv_parents (entry_view e))\<rparr>"
    "entry_ok (del_parent c e)" "entry_view (del_parent c e) = (entry_view e)\<lparr>nv_parents := nv_parents (entry_view e) - {c}\<rparr>"
  using assms
  by (simp_all add: entry_ok_def entry_view_def add_child_def del_child_def add_parent_def del_parent_def
      ids.ins_invar ids.del_invar ps.ins_invar ps.del_invar ids.ins_elems ids.del_elems ps.ins_elems ps.del_elems)

lemma entry_ok_iter: "entry_ok e \<Longrightarrow> distinct (ps_iter (ce_parents e)) \<and> distinct (ids_iter (ce_children e))"
  by (simp add: entry_ok_def ids.elems_distinct ps.elems_distinct)

lemma foldp_upd:
  assumes "distinct xs" "\<And>x. x \<in> set xs \<Longrightarrow> cg_nodes g x \<noteq> None"
  shows "foldp (\<lambda>x. upd_node x f) xs g =
    Inr (g\<lparr>cg_nodes := (\<lambda>j. if j \<in> set xs then map_option f (cg_nodes g j) else cg_nodes g j)\<rparr>)"
  using assms
proof (induction xs arbitrary: g)
  case (Cons x xs)
  from Cons.prems(2)[of x] obtain e where e: "cg_nodes g x = Some e" by auto
  define g1 where "g1 = g\<lparr>cg_nodes := (cg_nodes g)(x \<mapsto> f e)\<rparr>"
  have "foldp (\<lambda>x. upd_node x f) xs g1 =
    Inr (g1\<lparr>cg_nodes := (\<lambda>j. if j \<in> set xs then map_option f (cg_nodes g1 j) else cg_nodes g1 j)\<rparr>)"
    by (rule Cons.IH) (use Cons.prems in \<open>auto simp: g1_def\<close>)
  moreover have "(\<lambda>j. if j \<in> set xs then map_option f (cg_nodes g1 j) else cg_nodes g1 j)
      = (\<lambda>j. if j \<in> set (x # xs) then map_option f (cg_nodes g j) else cg_nodes g j)"
    using Cons.prems(1) e by (auto simp: g1_def fun_eq_iff)
  ultimately show ?case using e by (simp add: g1_def)
qed simp

section \<open>Unlinking and linking\<close>

lemma edges_iff: "(p, c) \<in> edges V \<longleftrightarrow> (\<exists>v. V p = Some v \<and> c \<in> nv_children v)"
  by (simp add: edges_def)

lemma view_wfD:
  assumes "view_wf n V"
  shows "finite (dom V)" "mirrored V" "V i = Some v \<Longrightarrow> node_ok n i v"
  using assms by (simp_all add: view_wf_def)

lemma mirroredD:
  assumes "mirrored V" "V i = Some v"
  shows "p \<in> nv_parents v \<longleftrightarrow> (p, i) \<in> edges V" "c \<in> nv_children v \<Longrightarrow> \<exists>w. V c = Some w \<and> i \<in> nv_parents w"
    "p \<in> nv_parents v \<Longrightarrow> \<exists>w. V p = Some w \<and> i \<in> nv_children w"
  using assms by (fastforce simp: mirrored_def edges_def)+

lemma edge_less: "view_wf n V \<Longrightarrow> (p, c) \<in> edges V \<Longrightarrow> p < c"
  using view_wfD(3)[of n V p] by (auto simp: edges_def node_ok_def)

lemma edge_ends: "view_wf n V \<Longrightarrow> (p, c) \<in> edges V \<Longrightarrow> V p \<noteq> None \<and> V c \<noteq> None"
  using view_wfD(2)[of n V] by (fastforce simp: mirrored_def edges_def)

definition same_frame :: "cancel_graph \<Rightarrow> cancel_graph \<Rightarrow> bool" where
  "same_frame g g' \<longleftrightarrow> cg_next g' = cg_next g \<and> cg_relays g' = cg_relays g \<and> cg_index g' = cg_index g"

text \<open>
  The two passes over the neighbours of a removed node: the parents forget it, and the children
  replace it in their parent sets as the given function says.
\<close>

lemma detach_nodes:
  assumes "reps g" "view_wf n (view g)" "cg_nodes g i = Some e"
    and "\<And>d. entry_ok d \<Longrightarrow> entry_ok (f d) \<and> entry_view (f d) = (entry_view d)\<lparr>nv_parents := F (nv_parents (entry_view d))\<rparr>"
  shows "\<exists>g'. bindp (foldp (\<lambda>p. upd_node p (del_child i)) (ps_iter (ce_parents e)) (g\<lparr>cg_nodes := (cg_nodes g)(i := None)\<rparr>))
      (foldp (\<lambda>c. upd_node c f) (ids_iter (ce_children e))) = Inr g'
    \<and> same_frame g g' \<and> reps g' \<and> view g' = (\<lambda>j. if j = i then None else map_option (\<lambda>w. w\<lparr>nv_children := nv_children w - {i},
        nv_parents := (if i \<in> nv_parents w then F (nv_parents w) else nv_parents w)\<rparr>) (view g j))"
proof -
  let ?P = "ps_iter (ce_parents e)" and ?C = "ids_iter (ce_children e)"
  let ?g2 = "g\<lparr>cg_nodes := (cg_nodes g)(i := None)\<rparr>"
  have v: "view g i = Some (entry_view e)" using assms(3) by (simp add: view_def)
  note m = view_wfD(2)[OF assms(2)]
  have ok: "entry_ok e" using assms(1,3) by (simp add: reps_def)
  have P: "p \<noteq> i \<and> cg_nodes g p \<noteq> None" if "p \<in> set ?P" for p
    using mirroredD(3)[OF m v, of p] that edge_less[OF assms(2), of p i] by (auto simp: edges_def view_Some)
  have C: "c \<noteq> i \<and> cg_nodes g c \<noteq> None" if "c \<in> set ?C" for c
  proof -
    have "(i, c) \<in> edges (view g)" using that v by (simp add: edges_def)
    with edge_less[OF assms(2) this] edge_ends[OF assms(2) this] show ?thesis by auto
  qed
  define g4 where "g4 = ?g2\<lparr>cg_nodes := (\<lambda>j. if j \<in> set ?P then map_option (del_child i) (cg_nodes ?g2 j) else cg_nodes ?g2 j)\<rparr>"
  define g5 where "g5 = g4\<lparr>cg_nodes := (\<lambda>j. if j \<in> set ?C then map_option f (cg_nodes g4 j) else cg_nodes g4 j)\<rparr>"
  have f4: "foldp (\<lambda>p. upd_node p (del_child i)) ?P ?g2 = Inr g4"
    unfolding g4_def by (rule foldp_upd) (use P entry_ok_iter[OF ok] in auto)
  have f5: "foldp (\<lambda>c. upd_node c f) ?C g4 = Inr g5"
    unfolding g5_def by (rule foldp_upd) (use C entry_ok_iter[OF ok] in \<open>auto simp: g4_def\<close>)
  have ok': "cg_nodes g j = Some d \<Longrightarrow> entry_ok d" for j d using assms(1) by (simp add: reps_def)
  have "reps g5" unfolding reps_def g5_def g4_def using ok' assms(4) adjacency_view(3) by (auto split: if_splits)
  moreover have "view g5 j = (if j = i then None else map_option (\<lambda>w. w\<lparr>nv_children := nv_children w - {i},
      nv_parents := (if i \<in> nv_parents w then F (nv_parents w) else nv_parents w)\<rparr>) (view g j))" for j
  proof (cases "j = i \<or> cg_nodes g j = None")
    case True
    then show ?thesis by (auto simp: view_def g5_def g4_def)
  next
    case False
    then obtain d where j: "j \<noteq> i" "cg_nodes g j = Some d" by auto
    note dok = ok'[OF j(2)]
    have vj: "view g j = Some (entry_view d)" using j by (simp add: view_def)
    have "j \<in> set ?P \<longleftrightarrow> i \<in> nv_children (entry_view d)"
      using mirroredD(1)[OF m v, of j] vj by (auto simp: edges_def)
    moreover have "j \<in> set ?C \<longleftrightarrow> i \<in> nv_parents (entry_view d)"
      using mirroredD(1)[OF m vj, of i] v by (auto simp: edges_def)
    ultimately show ?thesis using j dok
      by (cases "j \<in> set ?P"; cases "j \<in> set ?C") (simp_all add: view_def g5_def g4_def adjacency_view assms(4))
  qed
  ultimately show ?thesis using f4 f5 by (auto simp: same_frame_def g5_def g4_def)
qed

lemma unlink_nodes:
  assumes "reps g" "view_wf n (view g)" "cg_nodes g i = Some e"
  shows "\<exists>g'. bindp (foldp (\<lambda>p. upd_node p (del_child i)) (ps_iter (ce_parents e)) (g\<lparr>cg_nodes := (cg_nodes g)(i := None)\<rparr>))
      (foldp (\<lambda>c. upd_node c (del_parent i)) (ids_iter (ce_children e))) = Inr g'
    \<and> same_frame g g' \<and> reps g' \<and> view g' = unlinked i (view g)"
proof -
  have "(\<lambda>j. if j = i then None else map_option (\<lambda>w. w\<lparr>nv_children := nv_children w - {i},
      nv_parents := (if i \<in> nv_parents w then nv_parents w - {i} else nv_parents w)\<rparr>) (view g j)) = unlinked i (view g)"
    by (auto simp: unlinked_def drop_links_def fun_eq_iff intro!: option.map_cong0)
  moreover note detach_nodes[OF assms, of "del_parent i" "\<lambda>X. X - {i}"]
  ultimately show ?thesis by (simp add: adjacency_view)
qed

lemma add_links_one:
  assumes "p \<noteq> c"
  shows "add_links {p} {c} p v = v\<lparr>nv_children := insert c (nv_children v)\<rparr>" "add_links {p} {c} c v = v\<lparr>nv_parents := insert p (nv_parents v)\<rparr>"
    "j \<noteq> p \<Longrightarrow> j \<noteq> c \<Longrightarrow> add_links {p} {c} j v = v"
  using assms by (cases v; simp add: add_links_def)+

lemma splice_edge_view:
  assumes "reps g" "mirrored (view g)" "p \<noteq> c" "cg_nodes g p \<noteq> None" "cg_nodes g c \<noteq> None"
  shows "\<exists>g'. splice_edge p c g = Inr g' \<and> same_frame g g' \<and> reps g' \<and> view g' = linked {p} {c} (view g)"
proof -
  obtain e d where e: "cg_nodes g p = Some e" and d: "cg_nodes g c = Some d" using assms(4,5) by auto
  have ok: "entry_ok e" "entry_ok d" using assms(1) e d by (auto simp: reps_def)
  have new: "fst (ids_insert c (ce_children e)) \<longleftrightarrow> c \<notin> set (ids_iter (ce_children e))"
    using ok(1) by (simp add: entry_ok_def ids.ins_changed)
  have mir: "c \<in> set (ids_iter (ce_children e)) \<longleftrightarrow> p \<in> set (ps_iter (ce_parents d))"
    using mirroredD(1)[OF assms(2), of c "entry_view d" p] e d by (simp add: view_Some edges_def)
  define g1 where "g1 = g\<lparr>cg_nodes := (cg_nodes g)(p \<mapsto> add_child c e)\<rparr>"
  have u1: "upd_node p (add_child c) g = Inr g1" using e by (simp add: g1_def)
  have "cg_nodes g1 c = Some d" using d assms(3) by (simp add: g1_def)
  then have u2: "upd_node c (add_parent p) g1 = Inr (g1\<lparr>cg_nodes := (cg_nodes g1)(c \<mapsto> add_parent p d)\<rparr>)" by simp
  have r1: "reps g1" using assms(1) ok adjacency_view(1) by (simp add: reps_def g1_def)
  have r2: "reps (g1\<lparr>cg_nodes := (cg_nodes g1)(c \<mapsto> add_parent p d)\<rparr>)" using r1 ok adjacency_view(5) by (simp add: reps_def)
  show ?thesis
  proof (cases "c \<in> set (ids_iter (ce_children e))")
    case True
    have "view g1 j = linked {p} {c} (view g) j" for j
      using True mir e d assms(3) ok
      by (cases "j = p"; cases "j = c"; cases "cg_nodes g j") (simp_all add: view_def linked_def add_links_one g1_def adjacency_view insert_absorb)
    then have "view g1 = linked {p} {c} (view g)" by blast
    with True new e u1 r1 show ?thesis by (auto simp: splice_edge_def same_frame_def g1_def)
  next
    case False
    have "view (g1\<lparr>cg_nodes := (cg_nodes g1)(c \<mapsto> add_parent p d)\<rparr>) j = linked {p} {c} (view g) j" for j
      using e d assms(3) ok
      by (cases "j = p"; cases "j = c"; cases "cg_nodes g j") (simp_all add: view_def linked_def add_links_one g1_def adjacency_view)
    then have "view (g1\<lparr>cg_nodes := (cg_nodes g1)(c \<mapsto> add_parent p d)\<rparr>) = linked {p} {c} (view g)" by blast
    with False new e u1 u2 r2 show ?thesis by (auto simp: splice_edge_def same_frame_def g1_def)
  qed
qed

lemma linked_more:
  "linked P D (linked P C V) = linked P (C \<union> D) V" "linked Q C (linked P C V) = linked (P \<union> Q) C V"
  by (auto simp: linked_def add_links_def fun_eq_iff option.map_comp o_def Un_ac intro!: option.map_cong0)

lemma linked_none: "linked P {} V = V" "linked {} C V = V"
  by (auto simp: linked_def add_links_def fun_eq_iff option.map_ident_strong)

lemma linked_dom [simp]: "linked P C V j = None \<longleftrightarrow> V j = None" "dom (linked P C V) = dom V"
  by (auto simp: linked_def dom_def)

lemma unlinked_dom [simp]: "dom (unlinked i V) = dom V - {i}"
  by (auto simp: unlinked_def dom_def split: if_splits)

lemma edges_linked: "P \<subseteq> dom V \<Longrightarrow> edges (linked P C V) = edges V \<union> P \<times> C"
  by (fastforce simp: edges_def linked_def add_links_def split: if_splits)

lemma edges_unlinked: "edges (unlinked i V) = {(p, c) \<in> edges V. p \<noteq> i \<and> c \<noteq> i}"
  by (auto simp: edges_def unlinked_def drop_links_def split: if_splits)

lemma mirrored_linked:
  assumes "mirrored V" "P \<subseteq> dom V" "C \<subseteq> dom V"
  shows "mirrored (linked P C V)"
proof -
  have "(p, c) \<in> edges V \<union> P \<times> C \<longleftrightarrow> (\<exists>v. linked P C V c = Some v \<and> p \<in> nv_parents v)" for p c
  proof -
    have "(p, c) \<in> edges V \<longleftrightarrow> (\<exists>v. V c = Some v \<and> p \<in> nv_parents v)" using assms(1) by (simp add: mirrored_def)
    moreover have "(\<exists>v. linked P C V c = Some v \<and> p \<in> nv_parents v) \<longleftrightarrow> (\<exists>v. V c = Some v \<and> (p \<in> nv_parents v \<or> p \<in> P \<and> c \<in> C))"
      by (auto simp: linked_def add_links_def)
    ultimately show ?thesis using assms(3) by blast
  qed
  then show ?thesis using assms(2) by (simp add: mirrored_def edges_linked)
qed

lemma mirrored_unlinked:
  assumes "mirrored V"
  shows "mirrored (unlinked i V)"
proof -
  have "(p, c) \<in> edges (unlinked i V) \<longleftrightarrow> (\<exists>v. unlinked i V c = Some v \<and> p \<in> nv_parents v)" for p c
  proof -
    have "(p, c) \<in> edges V \<longleftrightarrow> (\<exists>v. V c = Some v \<and> p \<in> nv_parents v)" using assms(1) by (simp add: mirrored_def)
    moreover have "(\<exists>v. unlinked i V c = Some v \<and> p \<in> nv_parents v) \<longleftrightarrow> (\<exists>v. V c = Some v \<and> p \<in> nv_parents v \<and> p \<noteq> i \<and> c \<noteq> i)"
      by (auto simp: unlinked_def drop_links_def)
    ultimately show ?thesis unfolding edges_unlinked by blast
  qed
  then show ?thesis by (simp add: mirrored_def)
qed

lemma same_frame_trans: "same_frame f g \<Longrightarrow> same_frame g h \<Longrightarrow> same_frame f h"
  by (simp add: same_frame_def)

lemma splice_row:
  assumes "reps g" "mirrored (view g)" "p \<notin> set cs" "view g p \<noteq> None" "set cs \<subseteq> dom (view g)"
  shows "\<exists>g'. foldp (splice_edge p) cs g = Inr g' \<and> same_frame g g' \<and> reps g' \<and> view g' = linked {p} (set cs) (view g)"
  using assms
proof (induction cs arbitrary: g)
  case (Cons c cs)
  have ends: "p \<noteq> c" "cg_nodes g p \<noteq> None" "cg_nodes g c \<noteq> None" using Cons.prems(3-5) by (auto simp: view_Some)
  from splice_edge_view[OF Cons.prems(1,2) ends] obtain g1 where
    g1: "splice_edge p c g = Inr g1" "same_frame g g1" "reps g1" "view g1 = linked {p} {c} (view g)" by blast
  have "\<exists>g'. foldp (splice_edge p) cs g1 = Inr g' \<and> same_frame g1 g' \<and> reps g' \<and> view g' = linked {p} (set cs) (view g1)"
    by (rule Cons.IH) (use Cons.prems g1 ends mirrored_linked[of "view g" "{p}" "{c}"] in \<open>auto simp del: view_None\<close>)
  then show ?case using g1 same_frame_trans[OF g1(2)] by (auto simp: linked_more)
qed (simp add: same_frame_def linked_none)

lemma splice_grid:
  assumes "reps g" "mirrored (view g)" "set ps \<inter> set cs = {}" "set ps \<union> set cs \<subseteq> dom (view g)"
  shows "\<exists>g'. foldp (\<lambda>p g. foldp (splice_edge p) cs g) ps g = Inr g' \<and> same_frame g g' \<and> reps g' \<and> view g' = linked (set ps) (set cs) (view g)"
  using assms
proof (induction ps arbitrary: g)
  case (Cons p ps)
  have "\<exists>g1. foldp (splice_edge p) cs g = Inr g1 \<and> same_frame g g1 \<and> reps g1 \<and> view g1 = linked {p} (set cs) (view g)"
    by (rule splice_row) (use Cons.prems in \<open>auto simp del: view_None\<close>)
  then obtain g1 where g1: "foldp (splice_edge p) cs g = Inr g1" "same_frame g g1" "reps g1" "view g1 = linked {p} (set cs) (view g)" by blast
  have "\<exists>g'. foldp (\<lambda>p g. foldp (splice_edge p) cs g) ps g1 = Inr g' \<and> same_frame g1 g' \<and> reps g' \<and> view g' = linked (set ps) (set cs) (view g1)"
    by (rule Cons.IH) (use Cons.prems g1 mirrored_linked[of "view g" "{p}" "set cs"] in \<open>auto simp del: view_None\<close>)
  then show ?case using g1 same_frame_trans[OF g1(2)] by (auto simp: linked_more)
qed (simp add: same_frame_def linked_none)

section \<open>The relay index\<close>

lemma bucket_upd: "bucket (ix(c := x)) d = (if d = c then (case x of None \<Rightarrow> [] | Some is \<Rightarrow> is) else bucket ix d)"
  by (simp add: bucket_def)

lemma indexedD:
  assumes "indexed V ix"
  shows "i \<in> set (bucket ix c) \<longleftrightarrow> (\<exists>v. V i = Some v \<and> nv_kind v = Relay \<and> candidate_of (nv_signature v) = c)"
  using assms by (simp add: indexed_def)

lemma unindex_relay_spec:
  assumes "indexed (view g) (cg_index g)" "cg_nodes g i = Some e" "ce_kind e = Relay"
  shows "\<exists>ix. unindex_relay i g = Inr (g\<lparr>cg_index := ix\<rparr>) \<and> (\<forall>c j. j \<in> set (bucket ix c) \<longleftrightarrow> j \<in> set (bucket (cg_index g) c) \<and> j \<noteq> i)"
proof -
  let ?c = "candidate_of (ce_signature e)"
  have only: "i \<in> set (bucket (cg_index g) c) \<longleftrightarrow> c = ?c" for c
    using indexedD[OF assms(1), of i c] assms(2,3) by (auto simp: view_def)
  obtain "is" where "is": "cg_index g ?c = Some is" "i \<in> set is"
    using only[of ?c] by (cases "cg_index g ?c") (simp_all add: bucket_def)
  let ?ix = "(cg_index g)(?c := (if filter (\<lambda>j. j \<noteq> i) is = [] then None else Some (filter (\<lambda>j. j \<noteq> i) is)))"
  have "bucket (cg_index g) ?c = is" using "is" by (simp add: bucket_def)
  moreover have "set (case (if f = [] then None else Some f) of None \<Rightarrow> [] | Some is \<Rightarrow> is) = set f" for f :: "usize list" by simp
  ultimately have "j \<in> set (bucket ?ix c) \<longleftrightarrow> j \<in> set (bucket (cg_index g) c) \<and> j \<noteq> i" for c j
    unfolding bucket_upd using only[of c] by auto
  then show ?thesis using "is" assms(2) by (auto simp: unindex_relay_def Let_def)
qed

lemma index_relay_spec:
  assumes "cg_nodes g i = Some e" "ce_kind e = Relay"
  shows "\<exists>ix. index_relay i g = Inr (g\<lparr>cg_index := ix\<rparr>)
    \<and> (\<forall>c j. j \<in> set (bucket ix c) \<longleftrightarrow> j \<in> set (bucket (cg_index g) c) \<or> j = i \<and> c = candidate_of (ce_signature e))"
proof -
  let ?c = "candidate_of (ce_signature e)"
  let ?ix = "(cg_index g)(?c \<mapsto> insort_insert i (bucket (cg_index g) ?c))"
  have "index_relay i g = Inr (g\<lparr>cg_index := ?ix\<rparr>)" using assms by (simp add: index_relay_def Let_def bucket_def)
  moreover have "j \<in> set (bucket ?ix c) \<longleftrightarrow> j \<in> set (bucket (cg_index g) c) \<or> j = i \<and> c = ?c" for c j
    by (auto simp: bucket_upd set_insort_insert)
  ultimately show ?thesis by blast
qed

section \<open>Rewrites\<close>

lemma relinked_Some:
  "linked P C (unlinked i V) j = Some w \<longleftrightarrow> j \<noteq> i \<and> (\<exists>u. V j = Some u \<and> w = add_links P C j (drop_links i u))"
  by (auto simp: linked_def unlinked_def)

lemma relinked_fields [simp]:
  "nv_kind (add_links P C j u) = nv_kind u" "nv_flag (add_links P C j u) = nv_flag u" "nv_cancelled (add_links P C j u) = nv_cancelled u"
  "nv_signature (add_links P C j u) = nv_signature u" "nv_kind (drop_links i u) = nv_kind u" "nv_flag (drop_links i u) = nv_flag u"
  "nv_cancelled (drop_links i u) = nv_cancelled u" "nv_signature (drop_links i u) = nv_signature u"
  by (simp_all add: add_links_def drop_links_def)

lemma relinked_classes [simp]:
  "relays (linked P C (unlinked i V)) = relays V - {i}" "tokens (linked P C (unlinked i V)) = tokens V - {i}"
  by (auto simp: relays_def tokens_def relinked_Some)

lemma relinked_wf:
  assumes "view_wf n V" "V i = Some v" "P \<subseteq> dom V" "\<And>p. p \<in> P \<Longrightarrow> p < i"
  shows "view_wf n (linked P (nv_children v) (unlinked i V))"
proof -
  have C: "c \<in> dom V \<and> i < c" if "c \<in> nv_children v" for c
    using that assms(2) edge_less[OF assms(1), of i c] edge_ends[OF assms(1), of i c] by (auto simp: edges_def)
  have "mirrored (linked P (nv_children v) (unlinked i V))"
    by (rule mirrored_linked[OF mirrored_unlinked[OF view_wfD(2)[OF assms(1)]]]) (use assms(3,4) C in \<open>auto dest: less_imp_neq\<close>)
  moreover have "node_ok n j w" if "linked P (nv_children v) (unlinked i V) j = Some w" for j w
  proof -
    from that obtain u where u: "V j = Some u" "w = add_links P (nv_children v) j (drop_links i u)" by (auto simp: relinked_Some)
    have "j < x" if "j \<in> P" "x \<in> nv_children v" for x using less_trans[OF assms(4)[OF that(1)]] C[OF that(2)] by blast
    then have "nv_children w \<subseteq> {j<..}"
      using view_wfD(3)[OF assms(1) u(1)] unfolding u(2) by (auto simp: node_ok_def add_links_def drop_links_def split: if_splits)
    with view_wfD(3)[OF assms(1) u(1)] u(2) show ?thesis by (simp add: node_ok_def)
  qed
  ultimately show ?thesis using view_wfD(1)[OF assms(1)] by (simp add: view_wf_def)
qed

lemma relinked_indexed:
  assumes "indexed V ix" "\<And>c j. j \<in> set (bucket ix' c) \<longleftrightarrow> j \<in> set (bucket ix c) \<and> j \<noteq> i"
  shows "indexed (linked P C (unlinked i V)) ix'"
  using assms unfolding indexed_def by (auto simp: relinked_Some)

lemma relay_count: "view_wf n V \<Longrightarrow> i \<in> relays V \<Longrightarrow> 0 < card (relays V) \<and> card (relays V - {i}) = card (relays V) - 1"
proof -
  assume w: "view_wf n V" and i: "i \<in> relays V"
  have "finite (relays V)" by (rule finite_subset[OF _ view_wfD(1)[OF w]]) (auto simp: relays_def)
  with i show ?thesis by (auto simp: card_gt_0_iff)
qed

lemma cg_wfD:
  assumes "cg_wf g"
  shows "reps g" "view_wf (cg_next g) (view g)" "indexed (view g) (cg_index g)" "cg_relays g = card (relays (view g))"
  using assms by (simp_all add: cg_wf_def)

text \<open>Taking a relay out of the index and out of the count, or a token out of neither.\<close>

lemma retract_spec:
  assumes "cg_wf g" "cg_nodes g i = Some e"
  shows "\<exists>ix r. bindp (if ce_kind e = Relay then unindex_relay i g else Inr g) (\<lambda>g1.
      let g2 = g1\<lparr>cg_nodes := (cg_nodes g1)(i := None)\<rparr> in if ce_kind e = Relay then dec_relays g2 else Inr g2)
      = Inr (g\<lparr>cg_index := ix, cg_relays := r, cg_nodes := (cg_nodes g)(i := None)\<rparr>)
    \<and> (\<forall>c j. j \<in> set (bucket ix c) \<longleftrightarrow> j \<in> set (bucket (cg_index g) c) \<and> j \<noteq> i) \<and> r = card (relays (view g) - {i})"
proof (cases "ce_kind e = Relay")
  case True
  note w = cg_wfD[OF assms(1)]
  from unindex_relay_spec[OF w(3) assms(2) True] obtain ix where
    ix: "unindex_relay i g = Inr (g\<lparr>cg_index := ix\<rparr>)" "\<forall>c j. j \<in> set (bucket ix c) \<longleftrightarrow> j \<in> set (bucket (cg_index g) c) \<and> j \<noteq> i" by blast
  have "i \<in> relays (view g)" using assms(2) True by (simp add: relays_def view_def)
  from relay_count[OF w(2) this] w(4) ix True show ?thesis by (cases g) (auto simp: dec_relays_def)
next
  case False
  have "i \<notin> set (bucket (cg_index g) c)" for c using indexedD[OF cg_wfD(3)[OF assms(1)], of i c] assms(2) False by (auto simp: view_def)
  moreover have "i \<notin> relays (view g)" using assms(2) False by (simp add: relays_def view_def)
  ultimately have "(\<forall>c j. j \<in> set (bucket (cg_index g) c) \<longleftrightarrow> j \<in> set (bucket (cg_index g) c) \<and> j \<noteq> i) \<and> cg_relays g = card (relays (view g) - {i})"
    using cg_wfD(4)[OF assms(1)] by auto
  with False show ?thesis by (intro exI[of _ "cg_index g"] exI[of _ "cg_relays g"]) simp
qed

lemma neighbours:
  assumes "view_wf n V" "V i = Some v"
  shows "p \<in> nv_parents v \<Longrightarrow> p < i \<and> p \<in> dom V" "c \<in> nv_children v \<Longrightarrow> i < c \<and> c \<in> dom V"
proof -
  show "p \<in> nv_parents v \<Longrightarrow> p < i \<and> p \<in> dom V"
    using mirroredD(1)[OF view_wfD(2)[OF assms(1)] assms(2), of p] edge_less[OF assms(1), of p i] edge_ends[OF assms(1), of p i] by auto
  show "c \<in> nv_children v \<Longrightarrow> i < c \<and> c \<in> dom V"
    using edge_less[OF assms(1), of i c] edge_ends[OF assms(1), of i c] assms(2) by (auto simp: edges_def)
qed

lemma view_retracted:
  assumes "g1 = g\<lparr>cg_index := ix, cg_relays := r\<rparr>"
  shows "view g1 = view g" "reps g1 = reps g" "cg_nodes g1 = cg_nodes g" "cg_next g1 = cg_next g"
  using assms by (simp_all add: view_def fun_eq_iff reps_def)

lemma erase_spec:
  assumes "cg_wf g" "cg_nodes g i = Some e"
  shows "\<exists>ws g'. erase i True dirty g = Inr (ws, g') \<and> cg_wf g' \<and> cg_next g' = cg_next g
    \<and> view g' = bypassed i (entry_view e) (view g) \<and> fst ` set ws = nv_parents (entry_view e) \<union> nv_children (entry_view e)"
proof -
  note w = cg_wfD[OF assms(1)]
  let ?v = "entry_view e"
  have v: "view g i = Some ?v" using assms(2) by (simp add: view_def)
  from retract_spec[OF assms] obtain ix r where
    b: "bindp (if ce_kind e = Relay then unindex_relay i g else Inr g) (\<lambda>g1.
      let g2 = g1\<lparr>cg_nodes := (cg_nodes g1)(i := None)\<rparr> in if ce_kind e = Relay then dec_relays g2 else Inr g2)
      = Inr (g\<lparr>cg_index := ix, cg_relays := r, cg_nodes := (cg_nodes g)(i := None)\<rparr>)"
    and ix: "\<And>c j. j \<in> set (bucket ix c) \<longleftrightarrow> j \<in> set (bucket (cg_index g) c) \<and> j \<noteq> i" and r: "r = card (relays (view g) - {i})" by blast
  define g1 where "g1 = g\<lparr>cg_index := ix, cg_relays := r\<rparr>"
  note g1 = view_retracted[OF g1_def]
  from unlink_nodes[of g1 "cg_next g" i e] w g1 assms(2) obtain g5 where
    u: "bindp (foldp (\<lambda>p. upd_node p (del_child i)) (ps_iter (ce_parents e)) (g1\<lparr>cg_nodes := (cg_nodes g1)(i := None)\<rparr>))
      (foldp (\<lambda>c. upd_node c (del_parent i)) (ids_iter (ce_children e))) = Inr g5"
      "same_frame g1 g5" "reps g5" "view g5 = unlinked i (view g)" by auto
  have sets: "set (ps_iter (ce_parents e)) \<inter> set (ids_iter (ce_children e)) = {}"
    using neighbours[OF w(2) v] by fastforce
  have "x \<in> dom (view g) - {i}" if "x \<in> set (ps_iter (ce_parents e)) \<union> set (ids_iter (ce_children e))" for x
    using neighbours[OF w(2) v, of x] that by fastforce
  then have sets': "set (ps_iter (ce_parents e)) \<union> set (ids_iter (ce_children e)) \<subseteq> dom (view g5)" unfolding u(4) unlinked_dom by blast
  from splice_grid[OF u(3) _ sets sets'] mirrored_unlinked[OF view_wfD(2)[OF w(2)]] u(4) obtain g6 where
    s: "splice (ce_parents e) (ce_children e) g5 = Inr g6" "same_frame g5 g6" "reps g6"
      "view g6 = linked (nv_parents ?v) (nv_children ?v) (unlinked i (view g))" by (auto simp: splice_def)
  have f: "same_frame g1 g6" by (rule same_frame_trans[OF u(2) s(2)])
  have "view_wf (cg_next g) (view g6)" unfolding s(4) by (rule relinked_wf[OF w(2) v]) (use neighbours[OF w(2) v] in blast)+
  moreover have "indexed (view g6) ix" unfolding s(4) by (rule relinked_indexed[OF w(3) ix])
  ultimately have "cg_wf g6" using f s(3,4) r by (simp add: cg_wf_def same_frame_def g1_def)
  moreover have "\<exists>ws. erase i True dirty g = Inr (ws, g6) \<and> fst ` set ws = nv_parents ?v \<union> nv_children ?v"
    using b u(1) s(1) assms(2)
    by (auto simp: erase_def bindp_def Let_def g1_def image_Un image_image split: sum.splits if_splits)
  ultimately show ?thesis using f s(4) by (auto simp: same_frame_def g1_def bypassed_def)
qed

lemma extend_view:
  assumes "entry_ok e" "ids_inv cs"
  shows "entry_ok (e\<lparr>ce_children := ids_extend_set (ce_children e) cs\<rparr>)"
    "entry_view (e\<lparr>ce_children := ids_extend_set (ce_children e) cs\<rparr>) = (entry_view e)\<lparr>nv_children := nv_children (entry_view e) \<union> set (ids_iter cs)\<rparr>"
  using assms ids.ins_all[of "ce_children e" "ids_iter cs"] by (auto simp: entry_ok_def entry_view_def ids_extend_set_def)

lemma redirect_view:
  "entry_ok d \<Longrightarrow> entry_ok (redirect_parent remove keep d)
    \<and> entry_view (redirect_parent remove keep d) = (entry_view d)\<lparr>nv_parents := insert keep (nv_parents (entry_view d) - {remove})\<rparr>"
  by (simp add: redirect_parent_def adjacency_view)

lemma merge_relays_spec:
  assumes "cg_wf g" "cg_nodes g keep = Some k" "cg_nodes g remove = Some e" "keep < remove" "ce_kind k = Relay" "ce_kind e = Relay"
    and "ce_cancelled k = ce_cancelled e" "ce_signature k = ce_signature e"
  shows "\<exists>ws g'. merge_relays keep remove g = Inr (ws, g') \<and> cg_wf g' \<and> cg_next g' = cg_next g
    \<and> view g' = merged keep remove (entry_view e) (view g)
    \<and> fst ` set ws = insert keep (nv_parents (entry_view e) \<union> nv_children (entry_view e))"
proof -
  note w = cg_wfD[OF assms(1)]
  let ?v = "entry_view e"
  have v: "view g remove = Some ?v" using assms(3) by (simp add: view_def)
  have ok: "entry_ok e" using w(1) assms(3) by (simp add: reps_def)
  from retract_spec[OF assms(1,3)] obtain ix r where
    b: "bindp (unindex_relay remove g) (\<lambda>g1. dec_relays (g1\<lparr>cg_nodes := (cg_nodes g1)(remove := None)\<rparr>))
      = Inr (g\<lparr>cg_index := ix, cg_relays := r, cg_nodes := (cg_nodes g)(remove := None)\<rparr>)"
    and ix: "\<And>c j. j \<in> set (bucket ix c) \<longleftrightarrow> j \<in> set (bucket (cg_index g) c) \<and> j \<noteq> remove"
    and r: "r = card (relays (view g) - {remove})" by (auto simp: Let_def assms(6))
  define g1 where "g1 = g\<lparr>cg_index := ix, cg_relays := r\<rparr>"
  note g1 = view_retracted[OF g1_def]
  from detach_nodes[of g1 "cg_next g" remove e "redirect_parent remove keep" "\<lambda>X. insert keep (X - {remove})", OF _ _ _ redirect_view]
    w(1,2) assms(3) obtain g4 where
    u: "bindp (foldp (\<lambda>p. upd_node p (del_child remove)) (ps_iter (ce_parents e)) (g1\<lparr>cg_nodes := (cg_nodes g1)(remove := None)\<rparr>))
      (foldp (\<lambda>c. upd_node c (redirect_parent remove keep)) (ids_iter (ce_children e))) = Inr g4" "same_frame g1 g4" "reps g4"
      "view g4 = (\<lambda>j. if j = remove then None else map_option (\<lambda>w. w\<lparr>nv_children := nv_children w - {remove},
        nv_parents := (if remove \<in> nv_parents w then insert keep (nv_parents w - {remove}) else nv_parents w)\<rparr>) (view g j))" unfolding g1 by blast
  have "view g4 keep \<noteq> None" using u(4) assms(2,4) by (auto simp: view_def)
  then obtain n where n: "cg_nodes g4 keep = Some n" by (auto simp: view_def)
  have nok: "entry_ok n" using u(3) n by (simp add: reps_def)
  define g5 where "g5 = g4\<lparr>cg_nodes := (cg_nodes g4)(keep \<mapsto> n\<lparr>ce_children := ids_extend_set (ce_children n) (ce_children e)\<rparr>)\<rparr>"
  have u5: "upd_node keep (\<lambda>n. n\<lparr>ce_children := ids_extend_set (ce_children n) (ce_children e)\<rparr>) g4 = Inr g5" using n by (simp add: g5_def)
  have ext: "ids_inv (ce_children e)" using ok by (simp add: entry_ok_def)
  have f: "same_frame g1 g5" using u(2) by (simp add: same_frame_def g5_def)
  have r5: "reps g5" using u(3) extend_view(1)[OF nok ext] by (simp add: reps_def g5_def)
  have upd: "view g5 = (view g4)(keep \<mapsto> (the (view g4 keep))\<lparr>nv_children := nv_children (the (view g4 keep)) \<union> nv_children ?v\<rparr>)"
    using extend_view(2)[OF nok ext] n by (auto simp: g5_def view_def fun_eq_iff)
  have v5: "view g5 = merged keep remove ?v (view g)"
  proof
    fix j
    have vk: "view g keep = Some (entry_view k)" using assms(2) by (simp add: view_def)
    have mem: "j \<in> nv_children ?v \<longleftrightarrow> remove \<in> nv_parents x" if "view g j = Some x" for x
      using mirroredD(1)[OF view_wfD(2)[OF w(2)] that, of remove] v by (auto simp: edges_def)
    show "view g5 j = merged keep remove ?v (view g) j"
      using vk assms(4) mem unfolding upd u(4)
      by (cases "j = remove"; cases "j = keep"; cases "view g j")
        (auto simp: merged_def linked_def unlinked_def add_links_def drop_links_def simp del: view_None)
  qed
  have "view_wf (cg_next g) (view g5)" unfolding v5 merged_def
    by (rule relinked_wf[OF w(2) v]) (use assms(2,4) in \<open>auto simp: view_def dom_def\<close>)
  moreover have "indexed (view g5) ix" unfolding v5 merged_def by (rule relinked_indexed[OF w(3) ix])
  ultimately have "cg_wf g5" using f r5 r by (simp add: cg_wf_def same_frame_def g1_def v5 merged_def)
  moreover have "\<exists>ws. merge_relays keep remove g = Inr (ws, g5) \<and> fst ` set ws = insert keep (nv_parents ?v \<union> nv_children ?v)"
    using b u(1) u5 assms
    by (auto simp: merge_relays_def bindp_def g1_def image_Un image_image split: sum.splits)
  ultimately show ?thesis using f v5 by (auto simp: same_frame_def g1_def)
qed

section \<open>Signatures\<close>

text \<open>The nodes' nearest token ancestors, by the signatures of their parents.\<close>

definition inherited_atoms :: "(usize \<rightharpoonup> node_view) \<Rightarrow> usize set \<Rightarrow> usize set" where
  "inherited_atoms V P = (\<Union>p \<in> P. case V p of None \<Rightarrow> {} | Some w \<Rightarrow> sig_set (nv_signature w))"

lemma ptr_sound_eq: "ptr_sound (=)"
  by (simp add: ptr_sound_def)

lemma signature_fold:
  assumes "view_wf n (view g)" "set ps \<subseteq> dom (view g)" "sig_inv s"
  shows "\<exists>t. foldp (\<lambda>p s. bindp (node_at p g) (\<lambda>e. sig_union (=) s (ce_signature e))) ps s = Inr t
    \<and> sig_inv t \<and> sig_set t = sig_set s \<union> inherited_atoms (view g) (set ps)"
  using assms(2,3)
proof (induction ps arbitrary: s)
  case (Cons p ps)
  then obtain e where e: "cg_nodes g p = Some e" by (auto simp: view_Some)
  have "sig_inv (ce_signature e)" using view_wfD(3)[OF assms(1), of p "entry_view e"] e by (simp add: view_def node_ok_def)
  from sig_union_exact[OF ptr_sound_eq Cons.prems(2) this] obtain u where
    u: "sig_union (=) s (ce_signature e) = Inr u" "sig_inv u" "sig_set u = sig_set s \<union> sig_set (ce_signature e)" by blast
  from Cons.IH[OF _ u(2)] Cons.prems(1) obtain t where
    "foldp (\<lambda>p s. bindp (node_at p g) (\<lambda>e. sig_union (=) s (ce_signature e))) ps u = Inr t" "sig_inv t"
    "sig_set t = sig_set u \<union> inherited_atoms (view g) (set ps)" by auto
  then show ?case using e u by (auto simp: inherited_atoms_def view_def)
qed (simp add: inherited_atoms_def)

lemma signature_for_spec:
  assumes "cg_wf g" "cg_nodes g i = Some e"
  shows "\<exists>t. signature_for (ce_parents e) g = Inr t \<and> sig_inv t \<and> sig_set t = inherited_atoms (view g) (nv_parents (entry_view e))"
proof -
  have v: "view g i = Some (entry_view e)" using assms(2) by (simp add: view_def)
  have "set (ps_iter (ce_parents e)) \<subseteq> dom (view g)" using neighbours(1)[OF cg_wfD(2)[OF assms(1)] v] by auto
  from signature_fold[OF cg_wfD(2)[OF assms(1)] this, of SigEmpty] show ?thesis by (simp add: signature_for_def)
qed

lemma atoms_bound: "view_wf n V \<Longrightarrow> inherited_atoms V P \<subseteq> {..<n}"
  using view_wfD(3)[of n V] by (fastforce simp: inherited_atoms_def node_ok_def split: option.splits)

text \<open>A node gets another kind, flag or signature but keeps its edges.\<close>

lemma resigned_edges:
  assumes "V i = Some v" "nv_children w = nv_children v" "nv_parents w = nv_parents v"
  shows "edges (V(i \<mapsto> w)) = edges V" "mirrored V \<Longrightarrow> mirrored (V(i \<mapsto> w))"
proof -
  show e: "edges (V(i \<mapsto> w)) = edges V" using assms by (auto simp: edges_def split: if_splits)
  have "(\<exists>u. (V(i \<mapsto> w)) c = Some u \<and> p \<in> nv_parents u) \<longleftrightarrow> (\<exists>u. V c = Some u \<and> p \<in> nv_parents u)" for p c using assms by auto
  then show "mirrored V \<Longrightarrow> mirrored (V(i \<mapsto> w))" unfolding mirrored_def e by simp
qed

lemma resigned_wf:
  assumes "view_wf n V" "V i = Some v" "nv_children w = nv_children v" "nv_parents w = nv_parents v" "node_ok n i w"
  shows "view_wf n (V(i \<mapsto> w))"
  using assms resigned_edges(2)[of V i v w] by (auto simp: view_wf_def)

end
