(* ===== verification/Cancel_Normalize.thy ===== *)
theory Cancel_Normalize
  imports Cancel_Rewrite
begin

text \<open>
  Normalization of the cancellation graph: every step keeps the graph well formed and does not
  panic, and the loop ends, within a number of iterations bounded by the size of the graph. What
  a step may change is stated once, as a relation between views, so that the meaning of the
  graph can be shown to be preserved without looking at the loop again.
\<close>

section \<open>Looking for an equivalent relay\<close>

lemma node_same_set_eq: "sig_inv s \<Longrightarrow> sig_inv t \<Longrightarrow> node_same_set s t \<longleftrightarrow> s = t"
  using same_set_exact[OF ptr_sound_eq, of s t] sig_inject[of s t] by (auto simp: node_same_set_def)

lemma matching_relay_spec:
  assumes "\<And>j. j \<in> set js \<Longrightarrow> cg_nodes g j \<noteq> None"
  shows "\<exists>r. matching_relay i c s g js = Inr r
    \<and> (\<forall>j. r = Some j \<longrightarrow> j \<in> set js \<and> j \<noteq> i \<and> (\<exists>e. cg_nodes g j = Some e \<and> ce_cancelled e = c \<and> node_same_set s (ce_signature e)))"
  using assms
proof (induction js)
  case (Cons j js)
  then obtain e where "cg_nodes g j = Some e" by fastforce
  with Cons.IH Cons.prems show ?case by (auto simp: node_at_def)
qed simp

lemma equivalent_relay_spec:
  assumes "cg_wf g" "cg_nodes g i = Some e" "ce_kind e = Relay"
  shows "\<exists>r. equivalent_relay i g = Inr r
    \<and> (\<forall>j. r = Some j \<longrightarrow> j \<noteq> i \<and> (\<exists>d. cg_nodes g j = Some d \<and> ce_kind d = Relay \<and> ce_cancelled d = ce_cancelled e \<and> ce_signature d = ce_signature e))"
proof -
  note w = cg_wfD[OF assms(1)]
  let ?b = "bucket (cg_index g) (candidate_of (ce_signature e))"
  have bk: "\<exists>d. cg_nodes g j = Some d \<and> ce_kind d = Relay" if "j \<in> set ?b" for j
    using indexedD[OF w(3), of j "candidate_of (ce_signature e)"] that by (auto simp: view_Some)
  have inv: "sig_inv (ce_signature d)" if "cg_nodes g j = Some d" for j d
    using view_wfD(3)[OF w(2), of j "entry_view d"] that by (simp add: view_def node_ok_def)
  from matching_relay_spec[of ?b g i "ce_cancelled e" "ce_signature e"] bk obtain r where
    r: "matching_relay i (ce_cancelled e) (ce_signature e) g ?b = Inr r"
      "\<forall>j. r = Some j \<longrightarrow> j \<in> set ?b \<and> j \<noteq> i \<and> (\<exists>d. cg_nodes g j = Some d \<and> ce_cancelled d = ce_cancelled e \<and> node_same_set (ce_signature e) (ce_signature d))"
    by fastforce
  have "equivalent_relay i g = Inr r"
    using assms(2,3) r(1) by (cases "cg_index g (candidate_of (ce_signature e))") (auto simp: equivalent_relay_def bucket_def)
  moreover have "ce_kind d = Relay \<and> ce_signature d = ce_signature e"
    if "j \<in> set ?b" "cg_nodes g j = Some d" "node_same_set (ce_signature e) (ce_signature d)" for j d
    using bk[OF that(1)] that node_same_set_eq[OF inv[OF assms(2)] inv[OF that(2)]] by auto
  ultimately show ?thesis using r(2) by blast
qed

section \<open>Steps\<close>

text \<open>
  What happens to the view: nothing, a new signature from the parents, a relay bypassed, or a
  relay merged into an older one with the same signature and flag.
\<close>

inductive relay_rewrite :: "(usize \<rightharpoonup> node_view) \<Rightarrow> (usize \<rightharpoonup> node_view) \<Rightarrow> bool" where
  resign: "V i = Some v \<Longrightarrow> nv_kind v = Relay \<Longrightarrow> sig_inv s \<Longrightarrow> sig_set s = inherited_atoms V (nv_parents v) \<Longrightarrow>
     relay_rewrite V (V(i \<mapsto> v\<lparr>nv_signature := s\<rparr>))"
| bypass: "V i = Some v \<Longrightarrow> nv_kind v = Relay \<Longrightarrow> relay_rewrite V (bypassed i v V)"
| merge: "V keep = Some k \<Longrightarrow> V remove = Some v \<Longrightarrow> keep < remove \<Longrightarrow> nv_kind k = Relay \<Longrightarrow> nv_kind v = Relay \<Longrightarrow>
     nv_cancelled k = nv_cancelled v \<Longrightarrow> nv_signature k = nv_signature v \<Longrightarrow> relay_rewrite V (merged keep remove v V)"

lemma refresh_signature_spec:
  assumes "cg_wf g" "cg_nodes g i = Some e" "ce_kind e = Relay"
  shows "\<exists>ws g'. refresh_signature i pending g = Inr (enqueue_all ws pending, g') \<and> cg_wf g' \<and> cg_next g' = cg_next g
    \<and> relay_rewrite\<^sup>*\<^sup>* (view g) (view g') \<and> dom (view g') = dom (view g) \<and> fst ` set ws \<subseteq> nv_children (entry_view e)
    \<and> (\<exists>e'. cg_nodes g' i = Some e' \<and> ce_kind e' = Relay)"
proof -
  note w = cg_wfD[OF assms(1)]
  have v: "view g i = Some (entry_view e)" using assms(2) by (simp add: view_def)
  from signature_for_spec[OF assms(1,2)] obtain s where
    s: "signature_for (ce_parents e) g = Inr s" "sig_inv s" "sig_set s = inherited_atoms (view g) (nv_parents (entry_view e))" by blast
  show ?thesis
  proof (cases "node_same_set (ce_signature e) s")
    case True
    then have "refresh_signature i pending g = Inr (enqueue_all [] pending, g)" using s(1) assms(2) by (simp add: refresh_signature_def enqueue_all_def)
    with assms show ?thesis by (intro exI[of _ "[]"] exI[of _ g]) simp
  next
    case False
    from unindex_relay_spec[OF w(3) assms(2,3)] obtain ix where
      ix: "unindex_relay i g = Inr (g\<lparr>cg_index := ix\<rparr>)" "\<And>c j. j \<in> set (bucket ix c) \<longleftrightarrow> j \<in> set (bucket (cg_index g) c) \<and> j \<noteq> i" by blast
    define e' where "e' = e\<lparr>ce_signature := s\<rparr>"
    define g2 where "g2 = g\<lparr>cg_index := ix, cg_nodes := (cg_nodes g)(i \<mapsto> e')\<rparr>"
    have n2: "cg_nodes g2 i = Some e'" "ce_kind e' = Relay" using assms(3) by (simp_all add: g2_def e'_def)
    from index_relay_spec[OF this] obtain ix' where
      ix': "index_relay i g2 = Inr (g2\<lparr>cg_index := ix'\<rparr>)"
        "\<And>c j. j \<in> set (bucket ix' c) \<longleftrightarrow> j \<in> set (bucket ix c) \<or> j = i \<and> c = candidate_of s" by (auto simp: g2_def e'_def)
    have vw: "view (g2\<lparr>cg_index := ix'\<rparr>) = (view g)(i \<mapsto> (entry_view e)\<lparr>nv_signature := s\<rparr>)"
      by (simp add: view_def g2_def e'_def entry_view_def fun_eq_iff)
    have ok: "node_ok (cg_next g) i ((entry_view e)\<lparr>nv_signature := s\<rparr>)"
      using view_wfD(3)[OF w(2) v] s(2) atoms_bound[OF w(2)] assms(3) unfolding node_ok_def by (simp add: s(3))
    have "view_wf (cg_next g) (view (g2\<lparr>cg_index := ix'\<rparr>))" unfolding vw by (rule resigned_wf[OF w(2) v _ _ ok]) simp_all
    moreover have "indexed (view (g2\<lparr>cg_index := ix'\<rparr>)) ix'" unfolding indexed_def vw ix'(2) ix(2) using indexedD[OF w(3)] assms(3) by auto
    moreover have "relays (view (g2\<lparr>cg_index := ix'\<rparr>)) = relays (view g)" unfolding vw using v assms(3) by (auto simp: relays_def)
    moreover have "reps (g2\<lparr>cg_index := ix'\<rparr>)" using w(1) assms(2) by (auto simp: reps_def g2_def e'_def entry_ok_def)
    ultimately have wf: "cg_wf (g2\<lparr>cg_index := ix'\<rparr>)" using w(4) by (simp add: cg_wf_def) (simp add: g2_def)
    have "relay_rewrite (view g) (view (g2\<lparr>cg_index := ix'\<rparr>))"
      unfolding vw using relay_rewrite.resign[of "view g" i "entry_view e" s] v assms(3) s by simp
    moreover have "refresh_signature i pending g = Inr (enqueue_all (map (\<lambda>c. (c, Dirty)) (ids_iter (ce_children e))) pending, g2\<lparr>cg_index := ix'\<rparr>)"
      using False s(1) assms(2) ix(1) ix'(1) by (simp add: refresh_signature_def g2_def e'_def)
    moreover have "dom (view (g2\<lparr>cg_index := ix'\<rparr>)) = dom (view g)" unfolding vw using v by auto
    ultimately show ?thesis using wf n2
      by (intro exI[of _ "map (\<lambda>c. (c, Dirty)) (ids_iter (ce_children e))"] exI[of _ "g2\<lparr>cg_index := ix'\<rparr>"])
        (auto simp: g2_def image_image)
  qed
qed

text \<open>Relays with at most one parent or one child, which normalization removes.\<close>

definition narrow :: "(usize \<rightharpoonup> node_view) \<Rightarrow> usize set" where
  "narrow V = {i. \<exists>v. V i = Some v \<and> nv_kind v = Relay \<and> (card (nv_parents v) \<le> 1 \<or> card (nv_children v) \<le> 1)}"

lemma narrow_relinked:
  assumes "view_wf n V" "V i = Some v"
  shows "narrow (linked P (nv_children v) (unlinked i V)) \<subseteq> (narrow V - {i}) \<union> P \<union> nv_parents v \<union> nv_children v"
proof
  fix j assume j: "j \<in> narrow (linked P (nv_children v) (unlinked i V))"
  show "j \<in> (narrow V - {i}) \<union> P \<union> nv_parents v \<union> nv_children v"
  proof (rule ccontr)
    assume n: "j \<notin> (narrow V - {i}) \<union> P \<union> nv_parents v \<union> nv_children v"
    from j obtain u where u: "j \<noteq> i" "V j = Some u" "nv_kind u = Relay"
      and c: "card (nv_parents (add_links P (nv_children v) j (drop_links i u))) \<le> 1 \<or> card (nv_children (add_links P (nv_children v) j (drop_links i u))) \<le> 1"
      by (auto simp: narrow_def relinked_Some)
    have "i \<notin> nv_children u" using mirroredD(1)[OF view_wfD(2)[OF assms(1)] assms(2), of j] u(2) n by (auto simp: edges_def)
    moreover have "i \<notin> nv_parents u" using mirroredD(1)[OF view_wfD(2)[OF assms(1)] u(2), of i] assms(2) n by (auto simp: edges_def)
    ultimately have "add_links P (nv_children v) j (drop_links i u) = u" using n by (simp add: add_links_def drop_links_def)
    with c u n show False by (auto simp: narrow_def)
  qed
qed

lemma narrow_resigned: "V i = Some v \<Longrightarrow> nv_kind w = nv_kind v \<Longrightarrow> nv_children w = nv_children v \<Longrightarrow> nv_parents w = nv_parents v \<Longrightarrow> narrow (V(i \<mapsto> w)) = narrow V"
  by (auto simp: narrow_def)

text \<open>
  The effect of one iteration on work for the relay \<open>i\<close>: either the nodes stay and new work is
  for younger nodes, or a node disappears.
\<close>

definition step_effect :: "usize \<Rightarrow> relay_work list \<Rightarrow> cancel_graph \<Rightarrow> cancel_graph \<Rightarrow> bool" where
  "step_effect i ws g g' \<longleftrightarrow>
     cg_wf g' \<and> cg_next g' = cg_next g \<and> relay_rewrite\<^sup>*\<^sup>* (view g) (view g') \<and> fst ` set ws \<subseteq> dom (view g)
     \<and> narrow (view g') \<subseteq> (narrow (view g) - {i}) \<union> fst ` set ws
     \<and> (dom (view g') = dom (view g) \<and> fst ` set ws \<subseteq> {i<..} \<or> dom (view g') \<subset> dom (view g))"

lemma bypass_effect:
  assumes "cg_wf g" "cg_nodes g i = Some e" "ce_kind e = Relay"
  shows "\<exists>ws g'. erase i True dirty g = Inr (ws, g') \<and> step_effect i ws g g'"
proof -
  note w = cg_wfD[OF assms(1)]
  have v: "view g i = Some (entry_view e)" using assms(2) by (simp add: view_def)
  from erase_spec[OF assms(1,2)] obtain ws g' where
    g': "erase i True dirty g = Inr (ws, g')" "cg_wf g'" "cg_next g' = cg_next g" "view g' = bypassed i (entry_view e) (view g)"
      "fst ` set ws = nv_parents (entry_view e) \<union> nv_children (entry_view e)" by blast
  have "relay_rewrite (view g) (view g')" unfolding g'(4) using relay_rewrite.bypass[of "view g" i "entry_view e"] v assms(3) by simp
  moreover have "dom (view g') \<subset> dom (view g)" unfolding g'(4) bypassed_def using v by auto
  moreover have "narrow (view g') \<subseteq> (narrow (view g) - {i}) \<union> fst ` set ws"
    using narrow_relinked[OF w(2) v, of "nv_parents (entry_view e)"] unfolding g'(4,5) bypassed_def by blast
  moreover have "fst ` set ws \<subseteq> dom (view g)" unfolding g'(5) using neighbours[OF w(2) v] by blast
  ultimately show ?thesis using g'(1-3) by (auto simp: step_effect_def)
qed

lemma merge_effect:
  assumes "cg_wf g" "cg_nodes g a = Some x" "cg_nodes g b = Some y" "a \<noteq> b" "ce_kind x = Relay" "ce_kind y = Relay"
    and "ce_cancelled x = ce_cancelled y" "ce_signature x = ce_signature y" "i \<in> {a, b}" "i \<notin> narrow (view g)"
  shows "\<exists>ws g'. merge_relays (if a < b then a else b) (if a < b then b else a) g = Inr (ws, g') \<and> step_effect i ws g g'"
proof -
  note w = cg_wfD[OF assms(1)]
  have "\<exists>keep remove k e. {keep, remove} = {a, b} \<and> keep = (if a < b then a else b) \<and> remove = (if a < b then b else a) \<and> keep < remove
      \<and> cg_nodes g keep = Some k \<and> cg_nodes g remove = Some e \<and> ce_kind k = Relay \<and> ce_kind e = Relay
      \<and> ce_cancelled k = ce_cancelled e \<and> ce_signature k = ce_signature e"
    using assms(2-8) by (cases "a < b") (auto simp: insert_commute not_less order.strict_iff_order)
  then obtain keep remove k e where
    kr: "keep = (if a < b then a else b)" "remove = (if a < b then b else a)" "keep < remove"
      and n: "cg_nodes g keep = Some k" "cg_nodes g remove = Some e" and c: "ce_kind k = Relay" "ce_kind e = Relay"
      "ce_cancelled k = ce_cancelled e" "ce_signature k = ce_signature e" by blast
  have v: "view g keep = Some (entry_view k)" "view g remove = Some (entry_view e)" using n by (simp_all add: view_def)
  from merge_relays_spec[OF assms(1) n kr(3) c] obtain ws g' where
    g': "merge_relays keep remove g = Inr (ws, g')" "cg_wf g'" "cg_next g' = cg_next g" "view g' = merged keep remove (entry_view e) (view g)"
      "fst ` set ws = insert keep (nv_parents (entry_view e) \<union> nv_children (entry_view e))" by blast
  have "relay_rewrite (view g) (view g')" unfolding g'(4) using relay_rewrite.merge[of "view g" keep "entry_view k" remove "entry_view e"] v kr(3) c by simp
  moreover have "dom (view g') \<subset> dom (view g)" unfolding g'(4) merged_def using v by auto
  moreover have "narrow (view g') \<subseteq> (narrow (view g) - {i}) \<union> fst ` set ws"
    using narrow_relinked[OF w(2) v(2), of "{keep}"] assms(10) unfolding g'(4,5) merged_def by blast
  moreover have "fst ` set ws \<subseteq> dom (view g)" unfolding g'(5) using neighbours[OF w(2) v(2)] v(1) by blast
  ultimately show ?thesis using g'(1-3) kr(1,2) by (auto simp: step_effect_def)
qed

lemma narrow_iff:
  assumes "reps g" "cg_nodes g i = Some e" "ce_kind e = Relay"
  shows "i \<in> narrow (view g) \<longleftrightarrow> ps_len (ce_parents e) \<le> 1 \<or> ids_len (ce_children e) \<le> 1"
proof -
  have "entry_ok e" using assms(1,2) by (simp add: reps_def)
  then show ?thesis using assms(2,3) by (simp add: narrow_def view_def entry_ok_def ps.size_card ids.size_card)
qed

lemma relay_rewrite_narrow_same:
  assumes "relay_rewrite\<^sup>*\<^sup>* V W" "dom W = dom V" "finite (dom V)"
  shows "narrow W = narrow V"
proof -
  have st: "dom Y \<subseteq> dom X \<and> (dom Y = dom X \<longrightarrow> narrow Y = narrow X)" if "relay_rewrite X Y" for X Y
    using that
  proof cases
    case (resign i v s)
    then show ?thesis using narrow_resigned[of X i v "v\<lparr>nv_signature := s\<rparr>"] by auto
  qed (auto simp: bypassed_def merged_def)
  from assms(1) have "dom W \<subseteq> dom V \<and> (dom W = dom V \<longrightarrow> narrow W = narrow V)"
    by (induction rule: rtranclp_induct) (use st in blast)+
  with assms(2) show ?thesis by simp
qed

lemma enqueue_all_append: "enqueue_all vs (enqueue_all ws p) = enqueue_all (ws @ vs) p"
  by (simp add: enqueue_all_def)

lemma normalize_step_effect:
  assumes "cg_wf g"
  shows "\<exists>ws g'. normalize_step (i, s) pending g = Inr (enqueue_all ws pending, g') \<and> step_effect i ws g g'"
proof (cases "\<exists>e. cg_nodes g i = Some e \<and> ce_kind e = Relay")
  case False
  then have "i \<notin> narrow (view g)" by (auto simp: narrow_def view_Some)
  with assms have "step_effect i [] g g" by (simp add: step_effect_def)
  moreover have "normalize_step (i, s) pending g = Inr (enqueue_all [] pending, g)"
    using False by (auto simp: normalize_step_def enqueue_all_def split: option.split)
  ultimately show ?thesis by blast
next
  case True
  then obtain e where e: "cg_nodes g i = Some e" "ce_kind e = Relay" by blast
  note w = cg_wfD[OF assms]
  have v: "view g i = Some (entry_view e)" using e(1) by (simp add: view_def)
  show ?thesis
  proof (cases "i \<in> narrow (view g)")
    case True
    from bypass_effect[OF assms e] obtain ws g' where "erase i True (s = Dirty) g = Inr (ws, g')" "step_effect i ws g g'" by blast
    then show ?thesis using narrow_iff[OF w(1) e] True e by (auto simp: normalize_step_def)
  next
    case False
    have "\<exists>ws g1. (if s = Dirty then refresh_signature i pending g else Inr (pending, g)) = Inr (enqueue_all ws pending, g1)
        \<and> cg_wf g1 \<and> cg_next g1 = cg_next g \<and> relay_rewrite\<^sup>*\<^sup>* (view g) (view g1) \<and> dom (view g1) = dom (view g)
        \<and> fst ` set ws \<subseteq> nv_children (entry_view e) \<and> (\<exists>e'. cg_nodes g1 i = Some e' \<and> ce_kind e' = Relay)"
    proof (cases "s = Dirty")
      case True
      with refresh_signature_spec[OF assms e, of pending] show ?thesis by simp
    next
      case False
      with assms e show ?thesis by (intro exI[of _ "[]"] exI[of _ g]) (simp add: enqueue_all_def)
    qed
    then obtain ws g1 e1 where g1: "(if s = Dirty then refresh_signature i pending g else Inr (pending, g)) = Inr (enqueue_all ws pending, g1)"
        "cg_wf g1" "cg_next g1 = cg_next g" "relay_rewrite\<^sup>*\<^sup>* (view g) (view g1)" "dom (view g1) = dom (view g)"
        "fst ` set ws \<subseteq> nv_children (entry_view e)" and e1: "cg_nodes g1 i = Some e1" "ce_kind e1 = Relay" by blast
    have nar: "narrow (view g1) = narrow (view g)" by (rule relay_rewrite_narrow_same[OF g1(4,5) view_wfD(1)[OF w(2)]])
    have ws: "fst ` set ws \<subseteq> {i<..}" "fst ` set ws \<subseteq> dom (view g)" using neighbours(2)[OF w(2) v] g1(6) by blast+
    from equivalent_relay_spec[OF g1(2) e1] obtain r where r: "equivalent_relay i g1 = Inr r"
      "\<And>j. r = Some j \<Longrightarrow> j \<noteq> i \<and> (\<exists>d. cg_nodes g1 j = Some d \<and> ce_kind d = Relay \<and> ce_cancelled d = ce_cancelled e1 \<and> ce_signature d = ce_signature e1)"
      by blast
    have len: "\<not> (ps_len (ce_parents e) \<le> 1 \<or> ids_len (ce_children e) \<le> 1)" using narrow_iff[OF w(1) e] False by blast
    show ?thesis
    proof (cases r)
      case None
      have "step_effect i ws g g1" using g1 ws nar False by (auto simp: step_effect_def)
      then show ?thesis using None r(1) g1(1) e len by (auto simp: normalize_step_def)
    next
      case (Some j)
      with r(2) obtain d where d: "j \<noteq> i" "cg_nodes g1 j = Some d" "ce_kind d = Relay" "ce_cancelled d = ce_cancelled e1" "ce_signature d = ce_signature e1" by blast
      have "\<exists>vs g2. merge_relays (if i < j then i else j) (if i < j then j else i) g1 = Inr (vs, g2) \<and> step_effect i vs g1 g2"
        by (rule merge_effect[OF g1(2) e1(1) d(2)]) (use d e1 nar False in auto)
      then obtain vs g2 where g2: "merge_relays (if i < j then i else j) (if i < j then j else i) g1 = Inr (vs, g2)" "step_effect i vs g1 g2" by blast
      have "step_effect i (ws @ vs) g g2"
        using g2(2) g1(3-5) ws nar unfolding step_effect_def by (auto intro: rtranclp_trans)
      then show ?thesis using Some r(1) g1(1) g2(1) e len by (auto simp: normalize_step_def enqueue_all_append)
    qed
  qed
qed

section \<open>The loop\<close>

lemma enqueue_work_ids: "fst ` set (enqueue_work w ps) = insert (fst w) (fst ` set ps)"
proof (induction w ps rule: enqueue_work.induct)
  case (2 i s j t ps)
  then show ?case by (auto split: if_splits)
qed simp

lemma enqueue_work_sorted: "sorted_wrt (<) (map fst ps) \<Longrightarrow> sorted_wrt (<) (map fst (enqueue_work w ps))"
proof (induction w ps rule: enqueue_work.induct)
  case (2 i s j t ps)
  have "fst ` set (enqueue_work (i, s) ps) = insert i (fst ` set ps)" using enqueue_work_ids[of "(i, s)" ps] by simp
  then have m: "set (map fst (enqueue_work (i, s) ps)) = insert i (set (map fst ps))" by simp
  show ?case using 2 by (auto simp: m simp del: set_map list.set_map dest: less_trans)
qed simp

lemma enqueue_all_ids: "fst ` set (enqueue_all ws ps) = fst ` set ws \<union> fst ` set ps"
  unfolding enqueue_all_def by (induction ws arbitrary: ps) (auto simp: enqueue_work_ids)

lemma enqueue_all_sorted: "sorted_wrt (<) (map fst ps) \<Longrightarrow> sorted_wrt (<) (map fst (enqueue_all ws ps))"
  unfolding enqueue_all_def by (induction ws arbitrary: ps) (auto simp: enqueue_work_sorted)

text \<open>
  Among the identities \<open>U\<close>, those at or above some pending one; an iteration that keeps the
  nodes lowers this number, and one that removes a node can raise it to at most the whole of \<open>U\<close>.
\<close>

definition rank :: "usize set \<Rightarrow> usize set \<Rightarrow> nat" where
  "rank U W = card {u \<in> U. \<exists>p \<in> W. p \<le> u}"

definition loop_bound :: "usize set \<Rightarrow> relay_work list \<Rightarrow> cancel_graph \<Rightarrow> nat" where
  "loop_bound U pending g = card (dom (view g)) * (card U + 1) + rank U (fst ` set pending)"

lemma rank_le: "finite U \<Longrightarrow> rank U W \<le> card U"
  unfolding rank_def by (rule card_mono) auto

lemma rank_step:
  assumes "finite U" "i \<in> U" "W \<subseteq> {i<..}"
  shows "rank U W < rank U (insert i X)"
proof -
  have w: "p > i" if "p \<in> W" for p using assms(3) that by auto
  then have "i \<notin> {u \<in> U. \<exists>p \<in> W. p \<le> u}" by (auto simp: not_le)
  moreover have "{u \<in> U. \<exists>p \<in> W. p \<le> u} \<subseteq> {u \<in> U. \<exists>p \<in> insert i X. p \<le> u}"
  proof clarify
    fix u p assume "u \<in> U" "p \<in> W" "p \<le> u"
    then show "\<exists>p \<in> insert i X. p \<le> u" using w[of p] by (intro bexI[of _ i]) simp_all
  qed
  moreover have "i \<in> {u \<in> U. \<exists>p \<in> insert i X. p \<le> u}" using assms(2) by simp
  ultimately show ?thesis unfolding rank_def by (intro psubset_card_mono psubsetI) (use assms(1) in auto)
qed

lemma loop_bound_step:
  assumes "finite U" "dom (view g) \<union> insert i (fst ` set pending) \<subseteq> U" "sorted_wrt (<) (map fst ((i, s) # pending))" "step_effect i ws g g'"
  shows "loop_bound U (enqueue_all ws pending) g' < loop_bound U ((i, s) # pending) g"
    "dom (view g') \<union> fst ` set (enqueue_all ws pending) \<subseteq> U"
proof -
  have d: "dom (view g') \<subseteq> dom (view g)" "fst ` set ws \<subseteq> dom (view g)" using assms(4) by (auto simp: step_effect_def)
  then show "dom (view g') \<union> fst ` set (enqueue_all ws pending) \<subseteq> U" using assms(2) unfolding enqueue_all_ids by blast
  have fin: "finite (dom (view g))" using assms(1,2) by (meson Un_subset_iff finite_subset)
  have later: "fst ` set pending \<subseteq> {i<..}" using assms(3) by auto
  from assms(4) consider "dom (view g') = dom (view g)" "fst ` set ws \<subseteq> {i<..}" | "dom (view g') \<subset> dom (view g)"
    unfolding step_effect_def by blast
  then show "loop_bound U (enqueue_all ws pending) g' < loop_bound U ((i, s) # pending) g"
  proof cases
    case 1
    have "rank U (fst ` set (enqueue_all ws pending)) < rank U (insert i (fst ` set pending))"
      by (rule rank_step[OF assms(1)]) (use assms(2) 1(2) later in \<open>auto simp: enqueue_all_ids\<close>)
    with 1(1) show ?thesis by (simp add: loop_bound_def)
  next
    case 2
    have "card (dom (view g')) < card (dom (view g))" by (rule psubset_card_mono[OF fin 2])
    then have "(card (dom (view g')) + 1) * (card U + 1) \<le> card (dom (view g)) * (card U + 1)" by (intro mult_right_mono) simp_all
    with rank_le[OF assms(1), of "fst ` set (enqueue_all ws pending)"] show ?thesis by (simp add: loop_bound_def)
  qed
qed

lemma normalize_loop_spec:
  assumes "cg_wf g" "finite U" "dom (view g) \<union> fst ` set pending \<subseteq> U" "sorted_wrt (<) (map fst pending)"
    "loop_bound U pending g \<le> fuel" "narrow (view g) \<subseteq> fst ` set pending"
  shows "\<exists>g'. normalize_loop fuel pending g = Some (Inr g') \<and> cg_wf g' \<and> cg_next g' = cg_next g
    \<and> relay_rewrite\<^sup>*\<^sup>* (view g) (view g') \<and> narrow (view g') = {}"
  using assms
proof (induction fuel arbitrary: pending g)
  case 0
  have "pending = []"
  proof (rule ccontr)
    assume "pending \<noteq> []"
    then obtain i s r where p: "pending = (i, s) # r" by (cases pending) auto
    with loop_bound_step(1)[of U g i r s] "0.prems" normalize_step_effect[OF "0.prems"(1), of i s r] show False by fastforce
  qed
  with "0.prems" show ?case by auto
next
  case (Suc fuel)
  show ?case
  proof (cases pending)
    case Nil
    with Suc.prems show ?thesis by auto
  next
    case (Cons w rest)
    obtain i s where w: "w = (i, s)" by (cases w)
    from normalize_step_effect[OF Suc.prems(1), of i s rest] obtain ws g1 where
      g1: "normalize_step (i, s) rest g = Inr (enqueue_all ws rest, g1)" "step_effect i ws g g1" by blast
    have b: "loop_bound U (enqueue_all ws rest) g1 < loop_bound U pending g" "dom (view g1) \<union> fst ` set (enqueue_all ws rest) \<subseteq> U"
      using loop_bound_step[OF Suc.prems(2) _ _ g1(2), of rest s] Suc.prems(3,4) Cons w by auto
    have eff: "cg_wf g1" "cg_next g1 = cg_next g" "relay_rewrite\<^sup>*\<^sup>* (view g) (view g1)" "narrow (view g1) \<subseteq> (narrow (view g) - {i}) \<union> fst ` set ws"
      using g1(2) by (simp_all add: step_effect_def)
    have "narrow (view g1) \<subseteq> fst ` set (enqueue_all ws rest)" using eff(4) Suc.prems(6) Cons w by (auto simp: enqueue_all_ids)
    moreover have "sorted_wrt (<) (map fst (enqueue_all ws rest))" using Suc.prems(4) Cons by (simp add: enqueue_all_sorted)
    ultimately obtain g' where "normalize_loop fuel (enqueue_all ws rest) g1 = Some (Inr g')" "cg_wf g'" "cg_next g' = cg_next g1"
        "relay_rewrite\<^sup>*\<^sup>* (view g1) (view g')" "narrow (view g') = {}"
      using Suc.IH[OF eff(1) Suc.prems(2) b(2)] b(1) Suc.prems(5) by auto
    then show ?thesis using Cons w g1(1) eff(2) rtranclp_trans[OF eff(3)] by auto
  qed
qed

text \<open>With \<open>n\<close> nodes, \<open>n (n + 2)\<close> iterations are enough.\<close>

lemma normalize_spec:
  assumes "cg_wf g" "narrow (view g) \<subseteq> fst ` set ws" "fst ` set ws \<subseteq> dom (view g)" "card (dom (view g)) \<le> n" "n * (n + 2) \<le> fuel"
  shows "\<exists>g'. normalize fuel ws g = Some (Inr g') \<and> cg_wf g' \<and> cg_next g' = cg_next g
    \<and> relay_rewrite\<^sup>*\<^sup>* (view g) (view g') \<and> narrow (view g') = {}"
proof -
  let ?U = "dom (view g)" and ?p = "enqueue_all ws []"
  have fin: "finite ?U" by (rule view_wfD(1)[OF cg_wfD(2)[OF assms(1)]])
  have "loop_bound ?U ?p g \<le> card ?U * (card ?U + 1) + card ?U" using rank_le[OF fin] by (simp add: loop_bound_def)
  also have "\<dots> = card ?U * (card ?U + 2)" by simp
  also have "\<dots> \<le> n * (n + 2)" using assms(4) by (intro mult_mono) simp_all
  finally have "loop_bound ?U ?p g \<le> fuel" using assms(5) by simp
  then show ?thesis unfolding normalize_def using assms(2,3)
    by (intro normalize_loop_spec[OF assms(1) fin]) (auto simp: enqueue_all_ids intro: enqueue_all_sorted)
qed

end
