(* ===== verification/Cancel_Ancestry.thy ===== *)
theory Cancel_Ancestry
  imports Cancel_Normalize
begin

text \<open>
  What the compressed cancellation graph means. The specification is the uncompressed history:
  every token ever inserted with the parents it was given, and the tokens on which a
  cancellation was requested. A live token is cancelled exactly when such a request was made on
  it or on one of its ancestors, whether the ancestor still exists or not.
\<close>

section \<open>Paths\<close>

lemma bypass_paths:
  assumes "(i, i) \<notin> E" "F = {(p, c) \<in> E. p \<noteq> i \<and> c \<noteq> i} \<union> {p. (p, i) \<in> E} \<times> {c. (i, c) \<in> E}" "x \<noteq> i" "y \<noteq> i"
  shows "(x, y) \<in> F\<^sup>* \<longleftrightarrow> (x, y) \<in> E\<^sup>*"
proof
  have "F \<subseteq> E\<^sup>*" unfolding assms(2) by (auto intro: rtrancl_into_rtrancl)
  then show "(x, y) \<in> F\<^sup>* \<Longrightarrow> (x, y) \<in> E\<^sup>*" by (metis rtrancl_idemp rtrancl_mono subsetD)
  have "(z \<noteq> i \<longrightarrow> (x, z) \<in> F\<^sup>*) \<and> (z = i \<longrightarrow> (\<exists>p. (p, i) \<in> E \<and> (x, p) \<in> F\<^sup>*))" if "(x, z) \<in> E\<^sup>*" for z
    using that
  proof (induction rule: rtrancl_induct)
    case base
    with assms(3) show ?case by simp
  next
    case (step a b)
    show ?case
    proof (cases "a = i")
      case True
      with step obtain p where "(p, i) \<in> E" "(x, p) \<in> F\<^sup>*" by blast
      moreover have "b \<noteq> i" using step.hyps(2) True assms(1) by blast
      ultimately show ?thesis using step.hyps(2) True by (auto simp: assms(2) intro!: rtrancl_into_rtrancl[of x p])
    next
      case False
      with step have xa: "(x, a) \<in> F\<^sup>*" by blast
      show ?thesis using step.hyps(2) False xa by (auto simp: assms(2) intro!: rtrancl_into_rtrancl[of x a])
    qed
  qed
  then show "(x, y) \<in> E\<^sup>* \<Longrightarrow> (x, y) \<in> F\<^sup>*" using assms(4) by blast
qed

text \<open>A node is dropped and an older one with the same ancestors adopts its children.\<close>

lemma merge_paths:
  fixes E F :: "('a :: linorder \<times> 'a) set"
  assumes "\<And>p c. (p, c) \<in> E \<Longrightarrow> p < c" "k < r" "F = {(p, c) \<in> E. p \<noteq> r \<and> c \<noteq> r} \<union> {k} \<times> {c. (r, c) \<in> E}"
    and "(x, k) \<in> E\<^sup>* \<longleftrightarrow> (x, r) \<in> E\<^sup>*" "x \<noteq> r" "y \<noteq> r"
  shows "(x, y) \<in> F\<^sup>* \<longleftrightarrow> (x, y) \<in> E\<^sup>*"
proof
  show "(x, y) \<in> F\<^sup>* \<Longrightarrow> (x, y) \<in> E\<^sup>*"
  proof (induction rule: rtrancl_induct)
    case (step a b)
    then show ?case using assms(4) by (auto simp: assms(3) intro: rtrancl_into_rtrancl)
  qed simp
  have low: "(x, z) \<in> F\<^sup>*" if "(x, z) \<in> E\<^sup>*" "z < r" for z
    using that
  proof (induction rule: rtrancl_induct)
    case (step a b)
    then have "a < r" using assms(1)[OF step.hyps(2)] by simp
    with step show ?case by (auto simp: assms(3) intro!: rtrancl_into_rtrancl[of x a])
  qed simp
  have "z \<noteq> r \<longrightarrow> (x, z) \<in> F\<^sup>*" if "(x, z) \<in> E\<^sup>*" for z
    using that
  proof (induction rule: rtrancl_induct)
    case (step a b)
    show ?case
    proof (cases "a = r")
      case True
      then have "(x, k) \<in> F\<^sup>*" using step.hyps(1) assms(2,4) low by blast
      then show ?thesis using step.hyps(2) True by (auto simp: assms(3) intro!: rtrancl_into_rtrancl[of x k])
    next
      case False
      with step show ?thesis by (auto simp: assms(3) intro!: rtrancl_into_rtrancl[of x a])
    qed
  qed (use assms(5) in simp)
  then show "(x, y) \<in> E\<^sup>* \<Longrightarrow> (x, y) \<in> F\<^sup>*" using assms(6) by blast
qed

section \<open>Meaning\<close>

text \<open>
  A signature stands for the ancestors, in the history \<open>R\<close>, of its atoms: a live token reaches a
  node in the graph exactly when it is an ancestor of an atom of the node's signature. This
  holds of an outdated signature as well as of a fresh one.
\<close>

definition meaning :: "(usize \<times> usize) set \<Rightarrow> (usize \<rightharpoonup> node_view) \<Rightarrow> bool" where
  "meaning R V \<longleftrightarrow>
     (\<forall>t n v. t \<in> tokens V \<longrightarrow> V n = Some v \<longrightarrow> (t, n) \<in> (edges V)\<^sup>* \<longleftrightarrow> (\<exists>a \<in> sig_set (nv_signature v). (t, a) \<in> R\<^sup>*))"

definition flagged :: "(usize \<rightharpoonup> node_view) \<Rightarrow> usize set" where
  "flagged V = {t. \<exists>v. V t = Some v \<and> nv_kind v = Token \<and> nv_cancelled v}"

definition sound :: "(usize \<times> usize) set \<Rightarrow> usize \<Rightarrow> (usize \<rightharpoonup> node_view) \<Rightarrow> bool" where
  "sound R n V \<longleftrightarrow> view_wf n V \<and> closed_flags V \<and> meaning R V"

lemma meaningD: "meaning R V \<Longrightarrow> t \<in> tokens V \<Longrightarrow> V n = Some v \<Longrightarrow> (t, n) \<in> (edges V)\<^sup>* \<longleftrightarrow> (\<exists>a \<in> sig_set (nv_signature v). (t, a) \<in> R\<^sup>*)"
  by (simp add: meaning_def)

lemma no_loop: "view_wf n V \<Longrightarrow> (i, i) \<notin> edges V"
  using edge_less[of n V i i] by blast

lemma edges_bypassed:
  assumes "view_wf n V" "V i = Some v"
  shows "edges (bypassed i v V) = {(p, c) \<in> edges V. p \<noteq> i \<and> c \<noteq> i} \<union> {p. (p, i) \<in> edges V} \<times> {c. (i, c) \<in> edges V}"
proof -
  have "nv_parents v = {p. (p, i) \<in> edges V}" using mirroredD(1)[OF view_wfD(2)[OF assms(1)] assms(2)] by blast
  moreover have "nv_children v = {c. (i, c) \<in> edges V}" using assms(2) by (auto simp: edges_def)
  moreover have "nv_parents v \<subseteq> dom (unlinked i V)" unfolding unlinked_dom using neighbours(1)[OF assms] by (blast dest: less_imp_neq)
  ultimately show ?thesis by (simp add: bypassed_def edges_linked edges_unlinked)
qed

lemma edges_merged:
  assumes "view_wf n V" "V r = Some v" "V k \<noteq> None" "k \<noteq> r"
  shows "edges (merged k r v V) = {(p, c) \<in> edges V. p \<noteq> r \<and> c \<noteq> r} \<union> {k} \<times> {c. (r, c) \<in> edges V}"
proof -
  have "nv_children v = {c. (r, c) \<in> edges V}" using assms(2) by (auto simp: edges_def)
  moreover have "{k} \<subseteq> dom (unlinked r V)" using assms(3,4) by auto
  ultimately show ?thesis by (simp add: merged_def edges_linked edges_unlinked)
qed

lemma meaning_relinked:
  assumes "meaning R V" and "W = linked P C (unlinked i V)"
    and "\<And>t j. t \<in> tokens V \<Longrightarrow> t \<noteq> i \<Longrightarrow> j \<noteq> i \<Longrightarrow> (t, j) \<in> (edges W)\<^sup>* \<longleftrightarrow> (t, j) \<in> (edges V)\<^sup>*"
  shows "meaning R W"
proof -
  have "(t, j) \<in> (edges W)\<^sup>* \<longleftrightarrow> (\<exists>a \<in> sig_set (nv_signature w). (t, a) \<in> R\<^sup>*)" if "t \<in> tokens W" "W j = Some w" for t j w
  proof -
    from that(2) obtain u where u: "j \<noteq> i" "V j = Some u" "nv_signature w = nv_signature u" unfolding assms(2) by (auto simp: relinked_Some)
    have t: "t \<in> tokens V" "t \<noteq> i" using that(1) unfolding assms(2) by auto
    show ?thesis using assms(3)[OF t u(1)] meaningD[OF assms(1) t(1) u(2)] u(3) by simp
  qed
  then show ?thesis by (simp add: meaning_def)
qed

lemma inherited_iff: "a \<in> inherited_atoms V P \<longleftrightarrow> (\<exists>p \<in> P. \<exists>w. V p = Some w \<and> a \<in> sig_set (nv_signature w))"
proof -
  have h: "a \<in> (case x of None \<Rightarrow> {} | Some w \<Rightarrow> sig_set (nv_signature w)) \<longleftrightarrow> (\<exists>w. x = Some w \<and> a \<in> sig_set (nv_signature w))" for x by (cases x) simp_all
  show ?thesis by (simp only: inherited_atoms_def UN_iff h)
qed

lemma closedD: "closed_flags V \<Longrightarrow> (p, c) \<in> edges V \<Longrightarrow> V p = Some a \<Longrightarrow> V c = Some b \<Longrightarrow> nv_cancelled a \<Longrightarrow> nv_cancelled b"
  unfolding closed_flags_def by blast

lemma parents_reach:
  assumes "view_wf n V" "V i = Some v" "meaning R V" "t \<in> tokens V" "t \<noteq> i"
  shows "(t, i) \<in> (edges V)\<^sup>* \<longleftrightarrow> (\<exists>a \<in> inherited_atoms V (nv_parents v). (t, a) \<in> R\<^sup>*)"
proof -
  have p: "p \<in> nv_parents v \<longleftrightarrow> (p, i) \<in> edges V" for p using mirroredD(1)[OF view_wfD(2)[OF assms(1)] assms(2)] .
  have "(t, i) \<in> (edges V)\<^sup>* \<longleftrightarrow> (\<exists>p \<in> nv_parents v. (t, p) \<in> (edges V)\<^sup>*)"
  proof
    show "(t, i) \<in> (edges V)\<^sup>* \<Longrightarrow> \<exists>p \<in> nv_parents v. (t, p) \<in> (edges V)\<^sup>*" by (erule rtranclE) (use assms(5) p in auto)
  qed (auto simp: p intro: rtrancl_into_rtrancl)
  also have "\<dots> \<longleftrightarrow> (\<exists>p \<in> nv_parents v. \<exists>w. V p = Some w \<and> (\<exists>a \<in> sig_set (nv_signature w). (t, a) \<in> R\<^sup>*))"
  proof (rule bex_cong[OF refl])
    fix p assume "p \<in> nv_parents v"
    with neighbours(1)[OF assms(1,2)] obtain w where "V p = Some w" by blast
    with meaningD[OF assms(3,4) this] show "(t, p) \<in> (edges V)\<^sup>* \<longleftrightarrow> (\<exists>w. V p = Some w \<and> (\<exists>a \<in> sig_set (nv_signature w). (t, a) \<in> R\<^sup>*))" by simp
  qed
  also have "\<dots> \<longleftrightarrow> (\<exists>a \<in> inherited_atoms V (nv_parents v). (t, a) \<in> R\<^sup>*)"
    by (simp only: Bex_def inherited_iff) blast
  finally show ?thesis .
qed

lemma closed_relinked:
  assumes "closed_flags V" "view_wf n V" "V i = Some v" "P \<subseteq> dom V - {i}"
    and "\<And>p w. p \<in> P \<Longrightarrow> V p = Some w \<Longrightarrow> nv_cancelled w \<Longrightarrow> nv_cancelled v"
  shows "closed_flags (linked P (nv_children v) (unlinked i V))"
  unfolding closed_flags_def
proof (intro allI impI)
  fix p c a b
  assume e: "(p, c) \<in> edges (linked P (nv_children v) (unlinked i V))" and a: "linked P (nv_children v) (unlinked i V) p = Some a"
    and b: "linked P (nv_children v) (unlinked i V) c = Some b" and can: "nv_cancelled a"
  obtain x y where x: "V p = Some x" "nv_cancelled x" and y: "V c = Some y" "nv_cancelled b = nv_cancelled y"
    using a b can by (auto simp: relinked_Some)
  have "edges (linked P (nv_children v) (unlinked i V)) = edges (unlinked i V) \<union> P \<times> nv_children v" by (rule edges_linked) (use assms(4) in auto)
  with e consider "(p, c) \<in> edges V" | "p \<in> P" "c \<in> nv_children v" unfolding edges_unlinked by blast
  then have "nv_cancelled y"
  proof cases
    case 1
    then show ?thesis by (rule closedD[OF assms(1) _ x(1) y(1) x(2)])
  next
    case 2
    have "(i, c) \<in> edges V" using 2(2) assms(3) by (auto simp: edges_def)
    then show ?thesis by (rule closedD[OF assms(1) _ assms(3) y(1) assms(5)[OF 2(1) x]])
  qed
  then show "nv_cancelled b" by (simp add: y(2))
qed

lemma flagged_relinked: "flagged (linked P C (unlinked i V)) = flagged V - {i}"
  by (auto simp: flagged_def relinked_Some)

lemma parents_cancelled:
  assumes "closed_flags V" "view_wf n V" "V i = Some v" "p \<in> nv_parents v" "V p = Some w" "nv_cancelled w"
  shows "nv_cancelled v"
proof -
  have "(p, i) \<in> edges V" using mirroredD(1)[OF view_wfD(2)[OF assms(2)] assms(3)] assms(4) by blast
  then show ?thesis by (rule closedD[OF assms(1) _ assms(5,3,6)])
qed

lemma bypass_sound:
  assumes "sound R n V" "V i = Some v"
  shows "sound R n (bypassed i v V)" "tokens (bypassed i v V) = tokens V - {i}" "flagged (bypassed i v V) = flagged V - {i}"
proof -
  have w: "view_wf n V" "closed_flags V" "meaning R V" using assms(1) by (simp_all add: sound_def)
  have P: "nv_parents v \<subseteq> dom V - {i}" using neighbours(1)[OF w(1) assms(2)] by (blast dest: less_imp_neq)
  have "view_wf n (bypassed i v V)" unfolding bypassed_def
    by (rule relinked_wf[OF w(1) assms(2)]) (use neighbours(1)[OF w(1) assms(2)] in blast)+
  moreover have "closed_flags (bypassed i v V)" unfolding bypassed_def
    by (rule closed_relinked[OF w(2,1) assms(2) P]) (rule parents_cancelled[OF w(2,1) assms(2)])
  moreover have "meaning R (bypassed i v V)"
    by (rule meaning_relinked[OF w(3) bypassed_def bypass_paths[OF no_loop[OF w(1)] edges_bypassed[OF w(1) assms(2)]]])
  ultimately show "sound R n (bypassed i v V)" by (simp add: sound_def)
  show "tokens (bypassed i v V) = tokens V - {i}" "flagged (bypassed i v V) = flagged V - {i}"
    by (simp_all add: bypassed_def flagged_relinked)
qed

lemma token_not_relay: "V i = Some v \<Longrightarrow> nv_kind v = Relay \<Longrightarrow> i \<notin> tokens V \<and> i \<notin> flagged V"
  by (simp add: tokens_def flagged_def)

lemma rewrite_sound:
  assumes "relay_rewrite V W" "sound R n V"
  shows "sound R n W \<and> tokens W = tokens V \<and> flagged W = flagged V"
proof -
  have w: "view_wf n V" "closed_flags V" "meaning R V" using assms(2) by (simp_all add: sound_def)
  show ?thesis using assms(1)
  proof cases
    case (resign i v s)
    let ?w = "v\<lparr>nv_signature := s\<rparr>"
    have tk: "tokens W = tokens V" "flagged W = flagged V" unfolding resign(1) using resign(2,3) by (auto simp: tokens_def flagged_def)
    have ed: "edges W = edges V" unfolding resign(1) using resigned_edges(1)[of V i v ?w] resign(2) by simp
    have ok: "node_ok n i ?w"
      using view_wfD(3)[OF w(1) resign(2)] resign(3,4) atoms_bound[OF w(1)] unfolding node_ok_def by (simp add: resign(5))
    have "view_wf n W" unfolding resign(1) using resigned_wf[of n V i v ?w] w(1) resign(2) ok by simp
    moreover have "closed_flags W"
    proof -
      have "W j = Some x \<Longrightarrow> \<exists>y. V j = Some y \<and> nv_cancelled x = nv_cancelled y" for j x using resign(2) by (auto simp: resign(1) split: if_splits)
      then show ?thesis using closedD[OF w(2)] unfolding closed_flags_def ed by metis
    qed
    moreover have "meaning R W"
    proof -
      have "(t, j) \<in> (edges V)\<^sup>* \<longleftrightarrow> (\<exists>a \<in> sig_set (nv_signature x). (t, a) \<in> R\<^sup>*)" if "t \<in> tokens V" "W j = Some x" for t j x
      proof (cases "j = i")
        case True
        have "t \<noteq> i" using that(1) token_not_relay[of V i v] resign(2,3) by blast
        with parents_reach[OF w(1) resign(2) w(3) that(1)] True that(2) resign(5) show ?thesis by (auto simp: resign(1))
      next
        case False
        with that w(3) show ?thesis by (simp add: resign(1) meaning_def)
      qed
      then show ?thesis by (simp add: meaning_def tk ed)
    qed
    ultimately show ?thesis using tk by (simp add: sound_def)
  next
    case (bypass i v)
    then show ?thesis using bypass_sound[OF assms(2) bypass(2)] token_not_relay[of V i v] bypass(2,3) by simp
  next
    case (merge k kv r rv)
    have sub: "{k} \<subseteq> dom V - {r}" using merge(2,4) by auto
    have "view_wf n W" unfolding merge(1) merged_def by (rule relinked_wf[OF w(1) merge(3)]) (use merge(2,4) in auto)
    moreover have "closed_flags W" unfolding merge(1) merged_def
      by (rule closed_relinked[OF w(2,1) merge(3) sub]) (use merge(2,7) in auto)
    moreover have "meaning R W"
    proof (rule meaning_relinked[OF w(3)])
      show "W = linked {k} (nv_children rv) (unlinked r V)" by (simp add: merge(1) merged_def)
      fix t j assume t: "t \<in> tokens V" "t \<noteq> r" and j: "j \<noteq> r"
      have "(t, k) \<in> (edges V)\<^sup>* \<longleftrightarrow> (t, r) \<in> (edges V)\<^sup>*"
        using meaningD[OF w(3) t(1) merge(2)] meaningD[OF w(3) t(1) merge(3)] merge(8) by simp
      moreover have "edges W = {(p, c) \<in> edges V. p \<noteq> r \<and> c \<noteq> r} \<union> {k} \<times> {c. (r, c) \<in> edges V}"
        unfolding merge(1) by (rule edges_merged[OF w(1) merge(3)]) (use merge(2,4) in auto)
      ultimately show "(t, j) \<in> (edges W)\<^sup>* \<longleftrightarrow> (t, j) \<in> (edges V)\<^sup>*"
        using merge_paths[OF edge_less[OF w(1)] merge(4), where F = "edges W" and x = t and y = j] t(2) j by simp
    qed
    ultimately show ?thesis using token_not_relay[of V r rv] merge(3,6) by (simp add: sound_def merge(1) merged_def flagged_relinked)
  qed
qed

lemma rewrites_sound:
  assumes "relay_rewrite\<^sup>*\<^sup>* V W" "sound R n V"
  shows "sound R n W \<and> tokens W = tokens V \<and> flagged W = flagged V"
  using assms by (induction rule: rtranclp_induct) (auto dest: rewrite_sound)

end
