(* ===== verification/Cancel_History.thy ===== *)
theory Cancel_History
  imports Cancel_Ancestry
begin

text \<open>
  Insertion, removal and cancellation on the compressed graph, for every history of calls: they
  do not panic, they end, and the flags and the reported tokens are those of the uncompressed
  ancestry.
\<close>

section \<open>Insertion\<close>

lemma sink_paths:
  assumes "i \<notin> Field E" "i \<notin> P"
  shows "(x, y) \<in> (E \<union> P \<times> {i})\<^sup>* \<longleftrightarrow> (if y = i then x = i \<or> (\<exists>p \<in> P. (x, p) \<in> E\<^sup>*) else (x, y) \<in> E\<^sup>*)"
proof
  have dom: "(i, z) \<notin> E" "(z, i) \<notin> E" for z using assms(1) by (auto simp: Field_def)
  assume "(x, y) \<in> (E \<union> P \<times> {i})\<^sup>*"
  then show "if y = i then x = i \<or> (\<exists>p \<in> P. (x, p) \<in> E\<^sup>*) else (x, y) \<in> E\<^sup>*"
  proof (induction rule: rtrancl_induct)
    case (step a b)
    then have "a \<noteq> i" using dom assms(2) by blast
    with step dom show ?case by (auto intro: rtrancl_into_rtrancl)
  qed simp
next
  have "E\<^sup>* \<subseteq> (E \<union> P \<times> {i})\<^sup>*" by (rule rtrancl_mono) blast
  then show "if y = i then x = i \<or> (\<exists>p \<in> P. (x, p) \<in> E\<^sup>*) else (x, y) \<in> E\<^sup>* \<Longrightarrow> (x, y) \<in> (E \<union> P \<times> {i})\<^sup>*"
    by (auto split: if_splits intro: rtrancl_into_rtrancl)
qed

definition fresh_view :: "usize \<Rightarrow> bool \<Rightarrow> node_view" where
  "fresh_view i b = \<lparr>nv_kind = Token, nv_flag = True, nv_cancelled = b, nv_parents = {}, nv_children = {}, nv_signature = Singleton i\<rparr>"

definition inserted :: "usize \<Rightarrow> usize set \<Rightarrow> bool \<Rightarrow> (usize \<rightharpoonup> node_view) \<Rightarrow> usize \<rightharpoonup> node_view" where
  "inserted i P b V = linked P {i} (V(i \<mapsto> fresh_view i b))"

lemma link_parents:
  assumes "distinct xs" "\<And>x. x \<in> set xs \<Longrightarrow> cg_nodes g x \<noteq> None"
  shows "foldp (link_parent i) xs (b, g) =
    Inr (b \<or> (\<exists>x \<in> set xs. \<exists>e. cg_nodes g x = Some e \<and> ce_cancelled e),
      g\<lparr>cg_nodes := (\<lambda>j. if j \<in> set xs then map_option (add_child i) (cg_nodes g j) else cg_nodes g j)\<rparr>)"
  using assms
proof (induction xs arbitrary: b g)
  case (Cons x xs)
  from Cons.prems(2)[of x] obtain e where e: "cg_nodes g x = Some e" by auto
  define g1 where "g1 = g\<lparr>cg_nodes := (cg_nodes g)(x \<mapsto> add_child i e)\<rparr>"
  have "foldp (link_parent i) xs (b \<or> ce_cancelled e, g1) =
    Inr ((b \<or> ce_cancelled e) \<or> (\<exists>x \<in> set xs. \<exists>e. cg_nodes g1 x = Some e \<and> ce_cancelled e),
      g1\<lparr>cg_nodes := (\<lambda>j. if j \<in> set xs then map_option (add_child i) (cg_nodes g1 j) else cg_nodes g1 j)\<rparr>)"
    by (rule Cons.IH) (use Cons.prems in \<open>auto simp: g1_def\<close>)
  moreover have "(\<lambda>j. if j \<in> set xs then map_option (add_child i) (cg_nodes g1 j) else cg_nodes g1 j)
      = (\<lambda>j. if j \<in> set (x # xs) then map_option (add_child i) (cg_nodes g j) else cg_nodes g j)"
    using Cons.prems(1) e by (auto simp: g1_def fun_eq_iff)
  moreover have "(\<exists>x \<in> set xs. \<exists>e. cg_nodes g1 x = Some e \<and> ce_cancelled e) \<longleftrightarrow> (\<exists>x \<in> set xs. \<exists>e. cg_nodes g x = Some e \<and> ce_cancelled e)"
    using Cons.prems(1) by (auto simp: g1_def)
  moreover have "link_parent i x (b, g) = Inr (b \<or> ce_cancelled e, g1)" using e by (simp add: link_parent_def g1_def)
  moreover have "g1\<lparr>cg_nodes := f\<rparr> = g\<lparr>cg_nodes := f\<rparr>" for f by (simp add: g1_def)
  ultimately show ?case using e by simp
qed simp

lemma insert_view:
  assumes "reps g" "set ps \<subseteq> dom (view g)" "cg_nodes g i = None" "cg_next g = i + 1"
  shows "\<exists>g'. graph_insert i ps g = Inr (\<exists>p \<in> set ps. \<exists>v. view g p = Some v \<and> nv_cancelled v, g') \<and> same_frame g g' \<and> reps g'
    \<and> view g' = inserted i (set ps) (\<exists>p \<in> set ps. \<exists>v. view g p = Some v \<and> nv_cancelled v) (view g)"
proof -
  let ?ps = "ps_from_iter ps"
  have P: "ps_inv ?ps" "set (ps_iter ?ps) = set ps" using ps.build[of ps] by (simp_all add: ps_from_iter_def)
  have ex: "cg_nodes g x \<noteq> None" if "x \<in> set (ps_iter ?ps)" for x using that assms(2) P(2) by (auto simp: view_Some dom_def)
  define b where "b \<longleftrightarrow> (\<exists>p \<in> set ps. \<exists>v. view g p = Some v \<and> nv_cancelled v)"
  have b: "(\<exists>x \<in> set (ps_iter ?ps). \<exists>e. cg_nodes g x = Some e \<and> ce_cancelled e) = b"
    unfolding b_def P(2) by (rule bex_cong[OF refl]) (auto simp: view_Some)
  define g1 where "g1 = g\<lparr>cg_nodes := (\<lambda>j. if j \<in> set (ps_iter ?ps) then map_option (add_child i) (cg_nodes g j) else cg_nodes g j)\<rparr>"
  define e where "e = \<lparr>ce_kind = Token, ce_flag = True, ce_cancelled = b, ce_parents = ?ps, ce_children = Empty, ce_signature = Singleton i\<rparr>"
  define g2 where "g2 = g1\<lparr>cg_nodes := (cg_nodes g1)(i \<mapsto> e)\<rparr>"
  have r: "graph_insert i ps g = Inr (b, g2)"
    using link_parents[OF ps.elems_distinct[OF P(1)] ex, of i False] assms(4)
    by (simp add: graph_insert_def Let_def b g1_def g2_def e_def)
  have ok: "cg_nodes g j = Some d \<Longrightarrow> entry_ok d" for j d using assms(1) by (simp add: reps_def)
  have "entry_ok e" using P(1) by (simp add: entry_ok_def e_def)
  then have "reps g2" using ok adjacency_view(1) by (auto simp: reps_def g2_def g1_def split: if_splits)
  moreover have "view g2 j = inserted i (set ps) b (view g) j" for j
  proof (cases "j = i")
    case True
    have "i \<notin> set ps" using assms(2,3) by (auto simp: view_Some)
    with True P(2) show ?thesis by (simp add: inserted_def linked_def add_links_def fresh_view_def view_def g2_def e_def entry_view_def)
  next
    case False
    then show ?thesis using ok[of j] P(2)
      by (cases "cg_nodes g j") (auto simp: inserted_def linked_def add_links_def view_def g2_def g1_def adjacency_view)
  qed
  ultimately show ?thesis using r by (auto simp: b_def same_frame_def g2_def g1_def fun_eq_iff)
qed

lemma checked_succ: "checked_add (n :: usize) 1 = Some m \<Longrightarrow> m = n + 1 \<and> n < n + 1"
  using checked_add_unat[of n 1 m] by (auto simp: checked_add_def word_less_nat_alt split: if_splits)

lemma inserted_Some:
  assumes "V i = None" "i \<notin> P"
  shows "inserted i P b V j = Some w \<longleftrightarrow>
    (if j = i then w = (fresh_view i b)\<lparr>nv_parents := P\<rparr> else \<exists>u. V j = Some u \<and> w = add_links P {i} j u)"
  using assms by (auto simp: inserted_def linked_def add_links_def fresh_view_def)

lemma insert_sound:
  assumes "sound R i V" "V i = None" "P \<subseteq> tokens V" "i < i + 1" "R \<subseteq> {..<i} \<times> {..<i}" "b \<longleftrightarrow> (\<exists>p \<in> P. \<exists>v. V p = Some v \<and> nv_cancelled v)"
  shows "sound (R \<union> P \<times> {i}) (i + 1) (inserted i P b V)"
    "tokens (inserted i P b V) = insert i (tokens V)" "flagged (inserted i P b V) = flagged V \<union> (if b then {i} else {})"
    "relays (inserted i P b V) = relays V" "narrow (inserted i P b V) \<subseteq> narrow V"
proof -
  let ?W = "inserted i P b V" and ?V = "V(i \<mapsto> fresh_view i b)"
  have w: "view_wf i V" "closed_flags V" "meaning R V" using assms(1) by (simp_all add: sound_def)
  have P: "P \<subseteq> dom V" using assms(3) by (auto simp: tokens_def)
  have iP: "i \<notin> P" using P assms(2) by auto
  note W = inserted_Some[of V i P b, OF assms(2) iP]
  have new: "i \<notin> Field (edges V)" using edge_ends[OF w(1)] assms(2) unfolding Field_def by blast
  have "edges ?V = edges V" using assms(2) by (auto simp: edges_def fresh_view_def split: if_splits)
  then have E: "edges ?W = edges V \<union> P \<times> {i}" using edges_linked[of P ?V "{i}"] P by (auto simp: inserted_def)
  have mir: "mirrored ?V"
  proof -
    have "(p, c) \<in> edges V \<longleftrightarrow> (\<exists>v. ?V c = Some v \<and> p \<in> nv_parents v)" for p c
      using view_wfD(2)[OF w(1)] assms(2) by (cases "c = i") (auto simp: mirrored_def fresh_view_def)
    then show ?thesis by (simp add: mirrored_def \<open>edges ?V = edges V\<close>)
  qed
  have lt: "j < i + 1" if "j < i" for j using less_trans[OF that assms(4)] .
  have wf: "view_wf (i + 1) ?W"
  proof -
    have "node_ok (i + 1) j x" if "?W j = Some x" for j x
    proof (cases "j = i")
      case True
      with that W assms(4) show ?thesis by (auto simp: fresh_view_def node_ok_def)
    next
      case False
      with that W obtain u where u: "V j = Some u" "x = add_links P {i} j u" by auto
      have "node_ok i j u" by (rule view_wfD(3)[OF w(1) u(1)])
      then show ?thesis unfolding u(2) node_ok_def using lt P by (auto simp: add_links_def split: if_splits)
    qed
    moreover have "mirrored ?W" unfolding inserted_def by (rule mirrored_linked[OF mir]) (use P in auto)
    moreover have "finite (dom ?W)" using view_wfD(1)[OF w(1)] by (simp add: inserted_def)
    ultimately show ?thesis by (simp add: view_wf_def)
  qed
  have closed: "closed_flags ?W"
    unfolding closed_flags_def
  proof (intro allI impI)
    fix p c x y assume e: "(p, c) \<in> edges ?W" and x: "?W p = Some x" and y: "?W c = Some y" and can: "nv_cancelled x"
    have pi: "p \<noteq> i" using e new iP unfolding E by (auto simp: Field_def)
    with x W obtain u where u: "V p = Some u" "nv_cancelled u" using can by auto
    show "nv_cancelled y"
    proof (cases "c = i")
      case True
      with e new have "p \<in> P" unfolding E by (auto simp: Field_def)
      with u have b unfolding assms(6) by blast
      with True y W show ?thesis by (simp add: fresh_view_def)
    next
      case False
      with y W obtain z where z: "V c = Some z" "nv_cancelled y = nv_cancelled z" by auto
      have "(p, c) \<in> edges V" using e False unfolding E by blast
      from closedD[OF w(2) this u(1) z(1) u(2)] z(2) show ?thesis by simp
    qed
  qed
  show tk: "tokens ?W = insert i (tokens V)" and "relays ?W = relays V"
    and "flagged ?W = flagged V \<union> (if b then {i} else {})"
    using assms(2) by (auto simp: tokens_def relays_def flagged_def inserted_def linked_def fresh_view_def split: if_splits)
  have "meaning (R \<union> P \<times> {i}) ?W"
    unfolding meaning_def
  proof (intro allI impI)
    fix t j x assume t: "t \<in> tokens ?W" and x: "?W j = Some x"
    have RF: "i \<notin> Field R" using assms(5) by (auto simp: Field_def)
    note paths = sink_paths[OF new iP] and rpaths = sink_paths[OF RF iP]
    show "(t, j) \<in> (edges ?W)\<^sup>* \<longleftrightarrow> (\<exists>a \<in> sig_set (nv_signature x). (t, a) \<in> (R \<union> P \<times> {i})\<^sup>*)"
    proof (cases "j = i")
      case True
      have "(t, p) \<in> (edges V)\<^sup>* \<longleftrightarrow> (t, p) \<in> R\<^sup>*" if "p \<in> P" "t \<noteq> i" for p
      proof -
        from that(1) assms(3) obtain v where v: "V p = Some v" "nv_kind v = Token" by (auto simp: tokens_def)
        have "nv_signature v = Singleton p" using view_wfD(3)[OF w(1) v(1)] v(2) by (simp add: node_ok_def)
        moreover have "t \<in> tokens V" using t tk that(2) by blast
        ultimately show ?thesis using meaningD[OF w(3) _ v(1)] by simp
      qed
      then show ?thesis using True x W unfolding E paths by (auto simp: fresh_view_def rpaths)
    next
      case False
      with x W obtain u where u: "V j = Some u" "nv_signature x = nv_signature u" by auto
      have at: "a \<noteq> i" if "a \<in> sig_set (nv_signature u)" for a using view_wfD(3)[OF w(1) u(1)] that by (auto simp: node_ok_def)
      have no: "(i, z) \<notin> edges V" "(i, z) \<notin> R" for z using new RF by (auto simp: Field_def)
      show ?thesis
      proof (cases "t = i")
        case True
        have "(i, j) \<notin> (edges V)\<^sup>*" using no(1) False by (auto elim: converse_rtranclE)
        moreover have "(i, a) \<notin> R\<^sup>*" if "a \<noteq> i" for a using no(2) that by (auto elim: converse_rtranclE)
        ultimately show ?thesis using False True at u(2) unfolding E paths by (auto simp: rpaths)
      next
        case old: False
        then have "t \<in> tokens V" using t tk by blast
        with meaningD[OF w(3) this u(1)] False at u(2) show ?thesis unfolding E paths by (auto simp: rpaths)
      qed
    qed
  qed
  with wf closed show "sound (R \<union> P \<times> {i}) (i + 1) ?W" by (simp add: sound_def)
  show "narrow ?W \<subseteq> narrow V"
  proof
    fix j assume "j \<in> narrow ?W"
    then obtain x where x: "?W j = Some x" "nv_kind x = Relay" "card (nv_parents x) \<le> 1 \<or> card (nv_children x) \<le> 1" by (auto simp: narrow_def)
    then have ji: "j \<noteq> i" using W by (auto simp: fresh_view_def)
    with x(1) W obtain u where u: "V j = Some u" "x = add_links P {i} j u" by auto
    have "j \<notin> P" using assms(3) u x(2) by (auto simp: tokens_def)
    then have "x = u" using u(2) ji by (simp add: add_links_def)
    with u(1) x show "j \<in> narrow V" by (auto simp: narrow_def)
  qed
qed

section \<open>Removal\<close>

lemma relay_turn_sound:
  assumes "sound R n V" "V i = Some v" "nv_kind v = Token" "sig_inv s" "sig_set s = inherited_atoms V (nv_parents v)"
    and "b \<longleftrightarrow> (\<exists>p \<in> nv_parents v. \<exists>w. V p = Some w \<and> nv_cancelled w)"
  defines "W \<equiv> V(i \<mapsto> v\<lparr>nv_kind := Relay, nv_flag := False, nv_cancelled := b, nv_signature := s\<rparr>)"
  shows "sound R n W" "tokens W = tokens V - {i}" "flagged W = flagged V - {i}" "relays W = insert i (relays V)" "narrow W \<subseteq> insert i (narrow V)"
    "edges W = edges V"
proof -
  let ?w = "v\<lparr>nv_kind := Relay, nv_flag := False, nv_cancelled := b, nv_signature := s\<rparr>"
  have w: "view_wf n V" "closed_flags V" "meaning R V" using assms(1) by (simp_all add: sound_def)
  show ed: "edges W = edges V" unfolding W_def using resigned_edges(1)[of V i v ?w] assms(2) by simp
  show tk: "tokens W = tokens V - {i}" and "flagged W = flagged V - {i}" and "relays W = insert i (relays V)" and "narrow W \<subseteq> insert i (narrow V)"
    by (auto simp: W_def tokens_def flagged_def relays_def narrow_def split: if_splits)
  have "node_ok n i ?w"
    using view_wfD(3)[OF w(1) assms(2)] assms(4) atoms_bound[OF w(1)] unfolding node_ok_def by (simp add: assms(5))
  then have "view_wf n W" unfolding W_def using resigned_wf[of n V i v ?w] w(1) assms(2) by simp
  moreover have "closed_flags W"
    unfolding closed_flags_def ed
  proof (intro allI impI)
    fix p c x y assume e: "(p, c) \<in> edges V" and x: "W p = Some x" and y: "W c = Some y" and can: "nv_cancelled x"
    have par: "p' \<in> nv_parents v \<longleftrightarrow> (p', i) \<in> edges V" for p' using mirroredD(1)[OF view_wfD(2)[OF w(1)] assms(2)] .
    have pc: "p \<noteq> c" using edge_less[OF w(1) e] by blast
    have up: "\<exists>u. V p = Some u \<and> nv_cancelled u"
    proof (cases "p = i")
      case True
      with x can have b by (auto simp: W_def)
      then show ?thesis using parents_cancelled[OF w(2,1) assms(2)] assms(2) True unfolding assms(6) by blast
    next
      case False
      with x can show ?thesis by (simp add: W_def)
    qed
    show "nv_cancelled y"
    proof (cases "c = i")
      case True
      with e par up have b unfolding assms(6) by blast
      with True y show ?thesis by (auto simp: W_def)
    next
      case False
      with y have "V c = Some y" by (simp add: W_def)
      with up closedD[OF w(2) e] show ?thesis by blast
    qed
  qed
  moreover have "meaning R W"
    unfolding meaning_def tk ed
  proof (intro allI impI)
    fix t j x assume t: "t \<in> tokens V - {i}" and x: "W j = Some x"
    show "(t, j) \<in> (edges V)\<^sup>* \<longleftrightarrow> (\<exists>a \<in> sig_set (nv_signature x). (t, a) \<in> R\<^sup>*)"
    proof (cases "j = i")
      case True
      with parents_reach[OF w(1) assms(2) w(3), of t] t x assms(5) show ?thesis by (auto simp: W_def)
    next
      case False
      with meaningD[OF w(3), of t j x] t x show ?thesis by (simp add: W_def)
    qed
  qed
  ultimately show "sound R n W" by (simp add: sound_def)
qed

lemma all_tokens_spec:
  assumes "set ps \<subseteq> dom (view g)"
  shows "all_tokens ps g = Inr (set ps \<subseteq> tokens (view g))"
  using assms
proof (induction ps)
  case (Cons p ps)
  then obtain e where "cg_nodes g p = Some e" by (auto simp: view_Some)
  with Cons show ?case by (auto simp: tokens_def view_def)
qed simp

lemma any_cancelled_spec:
  assumes "set ps \<subseteq> dom (view g)"
  shows "any_cancelled ps g = Inr (\<exists>p \<in> set ps. \<exists>w. view g p = Some w \<and> nv_cancelled w)"
  using assms
proof (induction ps)
  case (Cons p ps)
  then obtain e where "cg_nodes g p = Some e" by (auto simp: view_Some)
  with Cons show ?case by (auto simp: view_def)
qed simp

text \<open>What every operation keeps, in a graph whose history is \<open>R\<close>.\<close>

definition graph_ok :: "(usize \<times> usize) set \<Rightarrow> cancel_graph \<Rightarrow> bool" where
  "graph_ok R g \<longleftrightarrow> cg_wf g \<and> sound R (cg_next g) (view g) \<and> narrow (view g) = {}"

definition node_count :: "cancel_graph \<Rightarrow> nat" where
  "node_count g = card (dom (cg_nodes g))"

lemma dom_view: "dom (view g) = dom (cg_nodes g)"
  by (auto simp: dom_def view_def)

lemma normalize_ok:
  assumes "cg_wf g" "sound R (cg_next g) (view g)" "narrow (view g) \<subseteq> fst ` set ws" "fst ` set ws \<subseteq> dom (view g)"
    "node_count g \<le> n" "n * (n + 2) \<le> fuel"
  shows "\<exists>g'. normalize fuel ws g = Some (Inr g') \<and> graph_ok R g' \<and> cg_next g' = cg_next g
    \<and> tokens (view g') = tokens (view g) \<and> flagged (view g') = flagged (view g)"
proof -
  from normalize_spec[OF assms(1,3,4), of n fuel] assms(5,6) obtain g' where
    g': "normalize fuel ws g = Some (Inr g')" "cg_wf g'" "cg_next g' = cg_next g" "relay_rewrite\<^sup>*\<^sup>* (view g) (view g')" "narrow (view g') = {}"
    by (auto simp: node_count_def dom_view)
  with rewrites_sound[OF g'(4) assms(2)] show ?thesis by (auto simp: graph_ok_def)
qed

lemma remove_leaf_spec:
  assumes "graph_ok R g" "cg_nodes g i = Some e" "ce_kind e = Token" "ce_children e = Empty" "set (ps_iter (ce_parents e)) \<subseteq> tokens (view g)"
  shows "\<exists>g'. remove_leaf i e g = Inr g' \<and> graph_ok R g' \<and> cg_next g' = cg_next g
    \<and> tokens (view g') = tokens (view g) - {i} \<and> flagged (view g') = flagged (view g) - {i}"
proof -
  have ok: "cg_wf g" "sound R (cg_next g) (view g)" "narrow (view g) = {}" using assms(1) by (simp_all add: graph_ok_def)
  note w = cg_wfD[OF ok(1)]
  have v: "view g i = Some (entry_view e)" using assms(2) by (simp add: view_def)
  from unlink_nodes[OF w(1,2) assms(2)] assms(4) obtain g' where
    g': "foldp (\<lambda>p. upd_node p (del_child i)) (ps_iter (ce_parents e)) (g\<lparr>cg_nodes := (cg_nodes g)(i := None)\<rparr>) = Inr g'"
      "same_frame g g'" "reps g'" "view g' = unlinked i (view g)" by (auto simp: bindp_def split: sum.splits)
  have byp: "view g' = bypassed i (entry_view e) (view g)" using g'(4) assms(4) by (simp add: bypassed_def linked_none)
  note b = bypass_sound[OF ok(2) v, folded byp]
  have nr: "i \<notin> relays (view g)" using v assms(3) by (simp add: relays_def)
  have "\<forall>c j. j \<in> set (bucket (cg_index g) c) \<longleftrightarrow> j \<in> set (bucket (cg_index g) c) \<and> j \<noteq> i"
    using indexedD[OF w(3)] nr by (auto simp: relays_def)
  then have "indexed (view g') (cg_index g)" unfolding byp bypassed_def by (intro relinked_indexed[OF w(3)]) blast
  moreover have "relays (view g') = relays (view g)" using nr by (simp add: byp bypassed_def)
  ultimately have "cg_wf g'" using g'(2,3) b(1) w(4) by (simp add: cg_wf_def sound_def same_frame_def)
  moreover have "narrow (view g') = {}"
  proof -
    have "narrow (view g') \<subseteq> nv_parents (entry_view e)"
      using narrow_relinked[OF w(2) v, of "nv_parents (entry_view e)"] ok(3) assms(4) by (simp add: byp bypassed_def)
    moreover have "narrow (view g') \<subseteq> relays (view g')" by (auto simp: narrow_def relays_def)
    moreover have "relays (view g) \<inter> tokens (view g) = {}" by (auto simp: relays_def tokens_def)
    moreover have "nv_parents (entry_view e) \<subseteq> tokens (view g)" using assms(5) by simp
    ultimately show ?thesis unfolding \<open>relays (view g') = relays (view g)\<close> by blast
  qed
  ultimately show ?thesis using g'(1,2) b assms(3) by (auto simp: remove_leaf_def graph_ok_def same_frame_def)
qed

lemma remove_to_relay_spec:
  assumes "graph_ok R g" "cg_nodes g i = Some e" "ce_kind e = Token"
    and "b \<longleftrightarrow> (\<exists>p \<in> nv_parents (entry_view e). \<exists>w. view g p = Some w \<and> nv_cancelled w)" "node_count g * (node_count g + 2) \<le> fuel"
  shows "\<exists>g'. remove_to_relay fuel i e b g = Some (Inr g') \<and> graph_ok R g' \<and> cg_next g' = cg_next g
    \<and> tokens (view g') = tokens (view g) - {i} \<and> flagged (view g') = flagged (view g) - {i}"
proof -
  have ok: "cg_wf g" "sound R (cg_next g) (view g)" "narrow (view g) = {}" using assms(1) by (simp_all add: graph_ok_def)
  note w = cg_wfD[OF ok(1)]
  have v: "view g i = Some (entry_view e)" using assms(2) by (simp add: view_def)
  from signature_for_spec[OF ok(1) assms(2)] obtain s where
    s: "signature_for (ce_parents e) g = Inr s" "sig_inv s" "sig_set s = inherited_atoms (view g) (nv_parents (entry_view e))" by blast
  define e' where "e' = make_relay b s e"
  define g1 where "g1 = g\<lparr>cg_nodes := (cg_nodes g)(i \<mapsto> e'), cg_relays := cg_relays g + 1\<rparr>"
  have n1: "cg_nodes g1 i = Some e'" "ce_kind e' = Relay" by (simp_all add: g1_def e'_def make_relay_def)
  from index_relay_spec[OF n1] obtain ix where
    ix: "index_relay i g1 = Inr (g1\<lparr>cg_index := ix\<rparr>)" "\<And>c j. j \<in> set (bucket ix c) \<longleftrightarrow> j \<in> set (bucket (cg_index g) c) \<or> j = i \<and> c = candidate_of s"
    by (auto simp: g1_def e'_def make_relay_def)
  define g2 where "g2 = g1\<lparr>cg_index := ix\<rparr>"
  have vw: "view g2 = (view g)(i \<mapsto> (entry_view e)\<lparr>nv_kind := Relay, nv_flag := False, nv_cancelled := b, nv_signature := s\<rparr>)"
    by (simp add: view_def g2_def g1_def e'_def make_relay_def entry_view_def fun_eq_iff)
  note t = relay_turn_sound[OF ok(2) v _ s(2,3) assms(4), folded vw]
  have tk: "nv_kind (entry_view e) = Token" by (simp add: assms(3))
  have nr: "i \<notin> relays (view g)" using v assms(3) by (simp add: relays_def)
  have fin: "finite (relays (view g))" by (rule finite_subset[OF _ view_wfD(1)[OF w(2)]]) (auto simp: relays_def)
  have "view_wf (cg_next g) (view g2)" using t(1)[OF tk] by (simp add: sound_def)
  moreover have "indexed (view g2) ix" unfolding indexed_def vw ix(2) using indexedD[OF w(3)] v assms(3) by auto
  moreover have "cg_relays g2 = card (relays (view g2))" using t(4)[OF tk] nr fin w(4) by (simp add: g2_def g1_def)
  moreover have "reps g2" using w(1) assms(2) by (auto simp: reps_def g2_def g1_def e'_def make_relay_def entry_ok_def)
  ultimately have wf: "cg_wf g2" by (simp add: cg_wf_def) (simp add: g2_def g1_def)
  let ?ws = "(i, Known) # map (\<lambda>c. (c, Dirty)) (ids_iter (ce_children e))"
  have d2: "dom (view g2) = dom (view g)" using v by (auto simp: vw)
  have "\<exists>g'. normalize fuel ?ws g2 = Some (Inr g') \<and> graph_ok R g' \<and> cg_next g' = cg_next g2
      \<and> tokens (view g') = tokens (view g2) \<and> flagged (view g') = flagged (view g2)"
  proof (rule normalize_ok[OF wf _ _ _ _ assms(5)])
    show "sound R (cg_next g2) (view g2)" using t(1)[OF tk] by (simp add: g2_def g1_def)
    show "narrow (view g2) \<subseteq> fst ` set ?ws" using t(5)[OF tk] ok(3) by auto
    have "set (ids_iter (ce_children e)) \<subseteq> dom (view g)" using neighbours(2)[OF w(2) v] by auto
    then show "fst ` set ?ws \<subseteq> dom (view g2)" using v by (auto simp: d2 image_image)
    show "node_count g2 \<le> node_count g" using d2 by (simp add: node_count_def dom_view)
  qed
  then obtain g' where g': "normalize fuel ?ws g2 = Some (Inr g')" "graph_ok R g'" "cg_next g' = cg_next g2"
    "tokens (view g') = tokens (view g2)" "flagged (view g') = flagged (view g2)" by blast
  have "remove_to_relay fuel i e b g = Some (Inr g')"
    using s(1) assms(2) ix(1) g'(1) by (simp add: remove_to_relay_def g1_def g2_def e'_def)
  then show ?thesis using g' t(2,3)[OF tk] by (auto simp: g2_def g1_def)
qed

lemma remove_spliced_spec:
  assumes "graph_ok R g" "cg_nodes g i = Some e" "ce_kind e = Token" "node_count g * (node_count g + 2) \<le> fuel"
  shows "\<exists>g'. remove_spliced fuel i g = Some (Inr g') \<and> graph_ok R g' \<and> cg_next g' = cg_next g
    \<and> tokens (view g') = tokens (view g) - {i} \<and> flagged (view g') = flagged (view g) - {i}"
proof -
  have ok: "cg_wf g" "sound R (cg_next g) (view g)" "narrow (view g) = {}" using assms(1) by (simp_all add: graph_ok_def)
  note w = cg_wfD[OF ok(1)]
  have v: "view g i = Some (entry_view e)" using assms(2) by (simp add: view_def)
  from erase_spec[OF ok(1) assms(2), of True] obtain ws g1 where
    g1: "erase i True True g = Inr (ws, g1)" "cg_wf g1" "cg_next g1 = cg_next g" "view g1 = bypassed i (entry_view e) (view g)"
      "fst ` set ws = nv_parents (entry_view e) \<union> nv_children (entry_view e)" by blast
  note b = bypass_sound[OF ok(2) v, folded g1(4)]
  have d1: "dom (view g1) = dom (view g) - {i}" by (simp add: g1(4) bypassed_def)
  have nb: "j \<in> dom (view g) - {i}" if "j \<in> nv_parents (entry_view e) \<union> nv_children (entry_view e)" for j
    using neighbours[OF w(2) v, of j] that by (blast dest: less_imp_neq)
  have "\<exists>g'. normalize fuel ws g1 = Some (Inr g') \<and> graph_ok R g' \<and> cg_next g' = cg_next g1
      \<and> tokens (view g') = tokens (view g1) \<and> flagged (view g') = flagged (view g1)"
  proof (rule normalize_ok[OF g1(2) _ _ _ _ assms(4)])
    show "sound R (cg_next g1) (view g1)" using b(1) g1(3) by simp
    show "narrow (view g1) \<subseteq> fst ` set ws"
      using narrow_relinked[OF w(2) v, of "nv_parents (entry_view e)"] ok(3) unfolding g1(4,5) bypassed_def by blast
    show "fst ` set ws \<subseteq> dom (view g1)" unfolding g1(5) d1 using nb by blast
    show "node_count g1 \<le> node_count g"
      unfolding node_count_def dom_view[symmetric] d1 by (rule card_mono[OF view_wfD(1)[OF w(2)]]) blast
  qed
  then show ?thesis using g1(1,3) b by (auto simp: remove_spliced_def)
qed

lemma graph_remove_spec:
  assumes "graph_ok R g" "i \<in> tokens (view g)" "node_count g * (node_count g + 2) \<le> fuel"
  shows "\<exists>g'. graph_remove fuel i g = Some (Inr g') \<and> graph_ok R g' \<and> cg_next g' = cg_next g
    \<and> tokens (view g') = tokens (view g) - {i} \<and> flagged (view g') = flagged (view g) - {i}"
proof -
  from assms(2) obtain e where e: "cg_nodes g i = Some e" "ce_kind e = Token" by (auto simp: tokens_def view_Some)
  have v: "view g i = Some (entry_view e)" using e(1) by (simp add: view_def)
  have w: "view_wf (cg_next g) (view g)" using cg_wfD(2) assms(1) by (simp add: graph_ok_def)
  have P: "set (ps_iter (ce_parents e)) \<subseteq> dom (view g)" using neighbours(1)[OF w v] by auto
  note dl = all_tokens_spec[OF P] and ac = any_cancelled_spec[OF P]
  show ?thesis
  proof (cases "ce_children e = Empty \<and> set (ps_iter (ce_parents e)) \<subseteq> tokens (view g)")
    case True
    then show ?thesis using remove_leaf_spec[OF assms(1) e] e dl by (auto simp: graph_remove_def direct_leaf_def)
  next
    case False
    have leaf: "direct_leaf e g = Inr False"
    proof (cases "ids_is_empty (ce_children e)")
      case True
      then have "ce_children e = Empty" by (cases "ce_children e") simp_all
      with False dl True show ?thesis by (simp add: direct_leaf_def)
    qed (simp add: direct_leaf_def)
    let ?b = "\<exists>p \<in> set (ps_iter (ce_parents e)). \<exists>w. view g p = Some w \<and> nv_cancelled w"
    have "graph_remove fuel i g = (if ps_len (ce_parents e) > 1 \<and> ids_len (ce_children e) > 1
        then remove_to_relay fuel i e ?b g else remove_spliced fuel i g)"
      using e leaf ac by (simp add: graph_remove_def)
    then show ?thesis
      using remove_to_relay_spec[OF assms(1) e _ assms(3), of ?b] remove_spliced_spec[OF assms(1) e assms(3)] by simp
  qed
qed

section \<open>Cancellation\<close>

text \<open>The nodes of \<open>S\<close> flagged, nothing else changed.\<close>

definition flag_all :: "usize set \<Rightarrow> (usize \<rightharpoonup> cg_entry) \<Rightarrow> usize \<rightharpoonup> cg_entry" where
  "flag_all S m j = map_option (\<lambda>e. if j \<in> S then e\<lparr>ce_cancelled := True\<rparr> else e) (m j)"

definition set_flags :: "usize set \<Rightarrow> cancel_graph \<Rightarrow> cancel_graph" where
  "set_flags S g = g\<lparr>cg_nodes := flag_all S (cg_nodes g)\<rparr>"

definition marked :: "cancel_graph \<Rightarrow> usize set" where
  "marked g = {j. \<exists>e. cg_nodes g j = Some e \<and> ce_cancelled e}"

text \<open>The stack and the children still to be pushed bound the rest of the traversal.\<close>

definition pushes :: "cancel_graph \<Rightarrow> usize set \<Rightarrow> nat" where
  "pushes g S = (\<Sum>j \<in> S. case cg_nodes g j of None \<Rightarrow> 0 | Some e \<Rightarrow> length (ids_iter (ce_children e)))"

lemma set_flags_simps [simp]:
  "cg_nodes (set_flags S g) j = None \<longleftrightarrow> cg_nodes g j = None"
  "cg_nodes g j = Some e \<Longrightarrow> cg_nodes (set_flags S g) j = Some (if j \<in> S then e\<lparr>ce_cancelled := True\<rparr> else e)"
  by (simp_all add: set_flags_def flag_all_def)

lemma set_flags_none: "set_flags {} g = g"
proof -
  have "flag_all {} (cg_nodes g) = cg_nodes g" by (auto simp: flag_all_def fun_eq_iff option.map_ident)
  then show ?thesis by (simp add: set_flags_def)
qed

lemma set_flags_insert:
  "cg_nodes g i = Some e \<Longrightarrow> (set_flags S g)\<lparr>cg_nodes := (cg_nodes (set_flags S g))(i \<mapsto> e\<lparr>ce_cancelled := True\<rparr>)\<rparr> = set_flags (insert i S) g"
  by (auto simp: set_flags_def flag_all_def fun_eq_iff)

definition reachable :: "usize \<Rightarrow> cancel_graph \<Rightarrow> usize set" where
  "reachable i g = {n. (i, n) \<in> (edges (view g))\<^sup>*}"

text \<open>
  The traversal from \<open>i\<close> after flagging \<open>S\<close>: what is flagged or on the stack is reachable, and
  every child of a flagged node is flagged or on the stack.
\<close>

definition traversal :: "usize \<Rightarrow> (usize \<Rightarrow> bool) \<Rightarrow> cancel_graph \<Rightarrow> usize set \<Rightarrow> usize list \<Rightarrow> usize list \<Rightarrow> usize list \<Rightarrow> bool" where
  "traversal i alive g S st rl ct \<longleftrightarrow>
     S \<union> set st \<subseteq> reachable i g \<and> S \<inter> marked g = {} \<and> i \<in> S \<union> marked g \<union> set st
     \<and> (\<forall>p c. (p, c) \<in> edges (view g) \<longrightarrow> p \<in> S \<longrightarrow> c \<in> S \<union> marked g \<union> set st)
     \<and> set rl = S \<inter> relays (view g) \<and> distinct ct \<and> set ct = {n \<in> S \<inter> tokens (view g). alive n}"

lemma reachable_dom:
  assumes "view_wf n (view g)" "cg_nodes g i \<noteq> None" "j \<in> reachable i g"
  shows "cg_nodes g j \<noteq> None"
proof -
  have "(i, j) \<in> (edges (view g))\<^sup>*" using assms(3) by (simp add: reachable_def)
  then show ?thesis by (cases rule: rtranclE) (use edge_ends[OF assms(1)] assms(2) in auto)
qed

lemma marked_closed:
  assumes "closed_flags (view g)" "view_wf n (view g)" "(p, c) \<in> edges (view g)" "p \<in> marked g"
  shows "c \<in> marked g"
proof -
  from edge_ends[OF assms(2,3)] obtain e where e: "cg_nodes g c = Some e" by auto
  from assms(4) obtain d where d: "cg_nodes g p = Some d" "ce_cancelled d" by (auto simp: marked_def)
  have "nv_cancelled (entry_view e)" by (rule closedD[OF assms(1,3), of "entry_view d"]) (use d e in \<open>simp_all add: view_def\<close>)
  with e show ?thesis by (simp add: marked_def)
qed

lemma traversal_finished:
  assumes "traversal i alive g S [] rl ct" "closed_flags (view g)" "view_wf n (view g)"
  shows "S = reachable i g - marked g"
proof -
  have t: "S \<subseteq> reachable i g" "S \<inter> marked g = {}" "i \<in> S \<union> marked g"
    "\<And>p c. (p, c) \<in> edges (view g) \<Longrightarrow> p \<in> S \<Longrightarrow> c \<in> S \<union> marked g" using assms(1) by (auto simp: traversal_def)
  have "j \<in> S \<union> marked g" if "(i, j) \<in> (edges (view g))\<^sup>*" for j
    using that by (induction rule: rtrancl_induct) (use t(3,4) marked_closed[OF assms(2,3)] in blast)+
  with t(1,2) show ?thesis by (auto simp: reachable_def)
qed

lemma pushes_remove:
  assumes "finite D" "i \<in> D" "cg_nodes g i = Some e"
  shows "pushes g D = length (ids_iter (ce_children e)) + pushes g (D - {i})"
  using assms by (simp add: pushes_def sum.remove)

lemma traversal_visit:
  assumes "traversal i alive g S (j # st) rl ct" "view_wf n (view g)" "cg_nodes g j = Some e" "j \<notin> S" "\<not> ce_cancelled e"
  shows "traversal i alive g (insert j S) (rev (ids_iter (ce_children e)) @ st) (if ce_flag e then rl else rl @ [j])
      (if ce_flag e \<and> alive j then ct @ [j] else ct)"
proof -
  have t: "S \<union> set (j # st) \<subseteq> reachable i g" "S \<inter> marked g = {}" "i \<in> S \<union> marked g \<union> set (j # st)"
    "\<And>p c. (p, c) \<in> edges (view g) \<Longrightarrow> p \<in> S \<Longrightarrow> c \<in> S \<union> marked g \<union> set (j # st)" "set rl = S \<inter> relays (view g)" "distinct ct"
    "set ct = {n \<in> S \<inter> tokens (view g). alive n}" using assms(1) by (auto simp: traversal_def)
  have v: "view g j = Some (entry_view e)" using assms(3) by (simp add: view_def)
  have ch: "c \<in> set (ids_iter (ce_children e)) \<longleftrightarrow> (j, c) \<in> edges (view g)" for c using v by (auto simp: edges_def)
  have fl: "ce_flag e \<longleftrightarrow> ce_kind e = Token" using view_wfD(3)[OF assms(2) v] by (auto simp: node_ok_def split: if_splits)
  have cl: "j \<in> tokens (view g) \<longleftrightarrow> ce_flag e" "j \<in> relays (view g) \<longleftrightarrow> \<not> ce_flag e"
    using v fl by (auto simp: tokens_def relays_def intro: node_class.exhaust)
  have jr: "(i, j) \<in> (edges (view g))\<^sup>*" using t(1) by (simp add: reachable_def)
  then have "(i, c) \<in> (edges (view g))\<^sup>*" if "(j, c) \<in> edges (view g)" for c using that by (rule rtrancl_into_rtrancl)
  then have r: "insert j S \<union> set (rev (ids_iter (ce_children e)) @ st) \<subseteq> reachable i g" using t(1) ch by (auto simp: reachable_def)
  have m: "insert j S \<inter> marked g = {}" using t(2) assms(3,5) by (auto simp: marked_def)
  have "c \<in> insert j S \<union> marked g \<union> set (rev (ids_iter (ce_children e)) @ st)" if "(p, c) \<in> edges (view g)" "p \<in> insert j S" for p c
    using that t(4)[of p c] ch by auto
  moreover have "i \<in> insert j S \<union> marked g \<union> set (rev (ids_iter (ce_children e)) @ st)" using t(3) by auto
  moreover have "set (if ce_flag e then rl else rl @ [j]) = insert j S \<inter> relays (view g)" using t(5) cl by auto
  moreover have "distinct (if ce_flag e \<and> alive j then ct @ [j] else ct)" using t(6,7) assms(4) by auto
  moreover have "set (if ce_flag e \<and> alive j then ct @ [j] else ct) = {n \<in> insert j S \<inter> tokens (view g). alive n}" using t(7) cl by auto
  ultimately show ?thesis using r m unfolding traversal_def by blast
qed

lemma traversal_skip:
  assumes "traversal i alive g S (j # st) rl ct" "j \<in> S \<union> marked g"
  shows "traversal i alive g S st rl ct"
proof -
  have e: "S \<union> marked g \<union> set (j # st) = S \<union> marked g \<union> set st" using assms(2) by auto
  have "S \<union> set st \<subseteq> reachable i g" using assms(1) by (auto simp: traversal_def)
  with assms(1) show ?thesis unfolding traversal_def e by blast
qed

lemma cancel_loop_spec:
  assumes "view_wf n (view g)" "closed_flags (view g)" "cg_nodes g i \<noteq> None" "traversal i alive g S st rl ct"
    and "length st + pushes g (dom (cg_nodes g) - marked g - S) \<le> fuel"
  shows "\<exists>rl' ct'. cancel_loop fuel alive st rl ct (set_flags S g) = Some (Inr (rl', ct', set_flags (reachable i g - marked g) g))
    \<and> traversal i alive g (reachable i g - marked g) [] rl' ct'"
  using assms(4,5)
proof (induction fuel arbitrary: S st rl ct)
  case 0
  then have "st = []" by simp
  with traversal_finished[of i alive g S rl ct, OF _ assms(2,1)] "0.prems"(1) show ?case by auto
next
  case (Suc fuel)
  show ?case
  proof (cases st)
    case Nil
    with traversal_finished[of i alive g S rl ct, OF _ assms(2,1)] Suc.prems(1) show ?thesis by auto
  next
    case (Cons j rest)
    have "j \<in> reachable i g" using Suc.prems(1) Cons by (simp add: traversal_def)
    from reachable_dom[OF assms(1,3) this] obtain e where e: "cg_nodes g j = Some e" by auto
    show ?thesis
    proof (cases "j \<in> S \<or> ce_cancelled e")
      case True
      then have "j \<in> S \<union> marked g" using e by (auto simp: marked_def)
      then have "traversal i alive g S rest rl ct" using traversal_skip Suc.prems(1) Cons by blast
      moreover have "length rest + pushes g (dom (cg_nodes g) - marked g - S) \<le> fuel" using Suc.prems(2) Cons by simp
      ultimately show ?thesis using Suc.IH[of S rest rl ct] Cons e True by auto
    next
      case False
      have tr: "traversal i alive g (insert j S) (rev (ids_iter (ce_children e)) @ rest) (if ce_flag e then rl else rl @ [j])
          (if ce_flag e \<and> alive j then ct @ [j] else ct)"
        by (rule traversal_visit[OF _ assms(1) e]) (use Suc.prems(1) Cons False in auto)
      have fin: "finite (dom (cg_nodes g) - marked g - S)" using view_wfD(1)[OF assms(1)] by (simp add: dom_view)
      have mem: "j \<in> dom (cg_nodes g) - marked g - S" using e False by (auto simp: marked_def)
      have sets: "dom (cg_nodes g) - marked g - insert j S = (dom (cg_nodes g) - marked g - S) - {j}" by blast
      have "length (rev (ids_iter (ce_children e)) @ rest) + pushes g (dom (cg_nodes g) - marked g - insert j S) \<le> fuel"
        using pushes_remove[OF fin mem e] Suc.prems(2) Cons unfolding sets by simp
      from Suc.IH[OF tr this] show ?thesis using Cons e False set_flags_insert[OF e, of S] by simp
    qed
  qed
qed

lemma view_set_flags:
  "view (set_flags S g) j = map_option (\<lambda>v. v\<lparr>nv_cancelled := nv_cancelled v \<or> j \<in> S\<rparr>) (view g j)"
  by (cases "cg_nodes g j") (simp_all add: view_def set_flags_def flag_all_def entry_view_def)

lemma flags_only:
  assumes "W = (\<lambda>j. map_option (\<lambda>v. v\<lparr>nv_cancelled := nv_cancelled v \<or> j \<in> S\<rparr>) (V j))"
  shows "edges W = edges V" "tokens W = tokens V" "relays W = relays V" "narrow W = narrow V" "dom W = dom V"
    "view_wf n V \<Longrightarrow> view_wf n W" "indexed V ix \<Longrightarrow> indexed W ix" "meaning R V \<Longrightarrow> meaning R W" "flagged W = flagged V \<union> (S \<inter> tokens V)"
proof -
  have W: "W j = Some w \<longleftrightarrow> (\<exists>v. V j = Some v \<and> w = v\<lparr>nv_cancelled := nv_cancelled v \<or> j \<in> S\<rparr>)" for j w by (auto simp: assms)
  show e: "edges W = edges V" and t: "tokens W = tokens V" and "relays W = relays V" and "narrow W = narrow V" and d: "dom W = dom V"
    by (auto simp: edges_def tokens_def relays_def narrow_def dom_def assms)
  show "flagged W = flagged V \<union> (S \<inter> tokens V)" by (auto simp: flagged_def tokens_def assms)
  have "node_ok n j w" if "\<And>i v. V i = Some v \<Longrightarrow> node_ok n i v" "W j = Some w" for j w
    using that(2) that(1)[of j] unfolding W node_ok_def by auto
  moreover have "(\<exists>w. W c = Some w \<and> p \<in> nv_parents w) \<longleftrightarrow> (\<exists>v. V c = Some v \<and> p \<in> nv_parents v)" for p c by (auto simp: assms)
  ultimately show "view_wf n V \<Longrightarrow> view_wf n W" unfolding view_wf_def d mirrored_def e by simp
  have "(\<exists>w. W j = Some w \<and> nv_kind w = Relay \<and> candidate_of (nv_signature w) = c) \<longleftrightarrow> (\<exists>v. V j = Some v \<and> nv_kind v = Relay \<and> candidate_of (nv_signature v) = c)" for j c
    by (auto simp: assms)
  then show "indexed V ix \<Longrightarrow> indexed W ix" by (simp add: indexed_def)
  show "meaning R V \<Longrightarrow> meaning R W" unfolding meaning_def e t by (auto simp: W)
qed

lemma cancel_nodes_spec:
  assumes "graph_ok R g" "i \<in> tokens (view g)" "(node_count g + 1) * (node_count g + 1) \<le> fuel"
  shows "\<exists>ts g'. cancel_nodes fuel alive i g = Some (Inr (ts, g')) \<and> graph_ok R g' \<and> cg_next g' = cg_next g
    \<and> tokens (view g') = tokens (view g) \<and> flagged (view g') = flagged (view g) \<union> (reachable i g \<inter> tokens (view g))
    \<and> distinct ts \<and> set ts = {t \<in> tokens (view g). t \<in> reachable i g \<and> t \<notin> flagged (view g) \<and> alive t}"
proof -
  have ok: "cg_wf g" "sound R (cg_next g) (view g)" "narrow (view g) = {}" using assms(1) by (simp_all add: graph_ok_def)
  note w = cg_wfD[OF ok(1)]
  have cl: "closed_flags (view g)" "meaning R (view g)" using ok(2) by (simp_all add: sound_def)
  have i: "cg_nodes g i \<noteq> None" using assms(2) by (auto simp: tokens_def view_Some)
  let ?n = "node_count g" and ?S = "reachable i g - marked g"
  have fin: "finite (dom (cg_nodes g))" using view_wfD(1)[OF w(2)] by (simp add: dom_view)
  have deg: "(case cg_nodes g j of None \<Rightarrow> 0 | Some e \<Rightarrow> length (ids_iter (ce_children e))) \<le> ?n" for j
  proof (cases "cg_nodes g j")
    case (Some e)
    have "entry_ok e" using w(1) Some by (simp add: reps_def)
    moreover have "set (ids_iter (ce_children e)) \<subseteq> dom (cg_nodes g)"
      using neighbours(2)[OF w(2), of j "entry_view e"] Some unfolding dom_view[symmetric] by (simp add: view_def subsetI)
    ultimately show ?thesis using Some card_mono[OF fin] by (auto simp: node_count_def distinct_card[symmetric] entry_ok_iter)
  qed simp
  have "pushes g (dom (cg_nodes g) - marked g - {}) \<le> card (dom (cg_nodes g) - marked g - {}) * ?n"
    unfolding pushes_def using sum_bounded_above[of "dom (cg_nodes g) - marked g - {}"
        "\<lambda>j. case cg_nodes g j of None \<Rightarrow> 0 | Some e \<Rightarrow> length (ids_iter (ce_children e))" ?n] deg by simp
  also have "\<dots> \<le> ?n * ?n" by (intro mult_right_mono) (auto simp: node_count_def intro!: card_mono fin)
  finally have fuel: "length [i] + pushes g (dom (cg_nodes g) - marked g - {}) \<le> fuel" using assms(3) by simp
  have "traversal i alive g {} [i] [] []" by (simp add: traversal_def reachable_def)
  from cancel_loop_spec[OF w(2) cl(1) i this fuel] obtain rl ct where
    l: "cancel_loop fuel alive [i] [] [] g = Some (Inr (rl, ct, set_flags ?S g))" "traversal i alive g ?S [] rl ct"
    by (auto simp: set_flags_none)
  let ?g = "set_flags ?S g"
  have vw: "view ?g = (\<lambda>j. map_option (\<lambda>v. v\<lparr>nv_cancelled := nv_cancelled v \<or> j \<in> ?S\<rparr>) (view g j))" by (rule ext) (rule view_set_flags)
  note fo = flags_only[OF vw]
  have frame: "cg_next ?g = cg_next g" "cg_relays ?g = cg_relays g" "cg_index ?g = cg_index g" by (simp_all add: set_flags_def)
  have "reps ?g" using w(1) by (auto simp: reps_def set_flags_def flag_all_def entry_ok_def)
  then have wf: "cg_wf ?g" using fo(3,6,7) w by (simp add: cg_wf_def frame)
  have "closed_flags (view ?g)"
    unfolding closed_flags_def fo(1)
  proof (intro allI impI)
    fix p c x y assume e: "(p, c) \<in> edges (view g)" and x: "view ?g p = Some x" and y: "view ?g c = Some y" and can: "nv_cancelled x"
    from x obtain v where v: "view g p = Some v" "nv_cancelled x \<longleftrightarrow> nv_cancelled v \<or> p \<in> ?S" by (auto simp: vw)
    have cm: "c \<in> marked g \<union> ?S"
    proof (cases "p \<in> ?S")
      case True
      then have "(i, c) \<in> (edges (view g))\<^sup>*" using e by (auto simp: reachable_def intro: rtrancl_into_rtrancl)
      then show ?thesis by (auto simp: reachable_def)
    next
      case False
      then have "p \<in> marked g" using v can by (auto simp: marked_def view_Some)
      with marked_closed[OF cl(1) w(2) e] show ?thesis by blast
    qed
    from y obtain u where u: "view g c = Some u" "nv_cancelled y \<longleftrightarrow> nv_cancelled u \<or> c \<in> ?S" by (auto simp: vw)
    have "c \<in> marked g \<Longrightarrow> nv_cancelled u" using u(1) by (auto simp: marked_def view_Some)
    with cm u(2) show "nv_cancelled y" by blast
  qed
  then have snd: "sound R (cg_next ?g) (view ?g)" using fo(6,8) w(2) cl(2) by (simp add: sound_def frame)
  have "set rl \<subseteq> dom (view ?g)" using l(2) unfolding fo(5) by (auto simp: traversal_def relays_def)
  then have "\<exists>g'. normalize fuel (map (\<lambda>r. (r, Known)) rl) ?g = Some (Inr g') \<and> graph_ok R g' \<and> cg_next g' = cg_next ?g
      \<and> tokens (view g') = tokens (view ?g) \<and> flagged (view g') = flagged (view ?g)"
    by (intro normalize_ok[OF wf snd, of _ ?n]) (use fo(4,5) ok(3) assms(3) in \<open>auto simp: image_image node_count_def dom_view[symmetric]\<close>)
  then obtain g' where g': "normalize fuel (map (\<lambda>r. (r, Known)) rl) ?g = Some (Inr g')" "graph_ok R g'" "cg_next g' = cg_next ?g"
    "tokens (view g') = tokens (view ?g)" "flagged (view g') = flagged (view ?g)" by blast
  have mk: "t \<in> marked g \<longleftrightarrow> t \<in> flagged (view g)" if "t \<in> tokens (view g)" for t
    using that by (auto simp: marked_def flagged_def tokens_def view_Some)
  have "flagged (view g') = flagged (view g) \<union> (reachable i g \<inter> tokens (view g))" unfolding g'(5) fo(9) using mk by blast
  moreover have ct: "set ct = {n \<in> ?S \<inter> tokens (view g). alive n}" "distinct ct" using l(2) by (simp_all add: traversal_def)
  moreover have "set ct = {t \<in> tokens (view g). t \<in> reachable i g \<and> t \<notin> flagged (view g) \<and> alive t}"
    unfolding ct(1) using mk by blast
  moreover have "cancel_nodes fuel alive i g = Some (Inr (ct, g'))" using l(1) g'(1) by (simp add: cancel_nodes_def)
  ultimately show ?thesis using g'(2-4) fo(2) frame by auto
qed

section \<open>More fuel changes nothing\<close>

lemma normalize_loop_mono: "normalize_loop f p g = Some r \<Longrightarrow> f \<le> f' \<Longrightarrow> normalize_loop f' p g = Some r"
proof (induction f p g arbitrary: f' rule: normalize_loop.induct)
  case (3 f w p g)
  obtain f1 where f1: "f' = Suc f1" "f \<le> f1" using 3(3) by (cases f') auto
  show ?case
  proof (cases "normalize_step w p g")
    case (Inl e)
    with 3(2) f1 show ?thesis by simp
  next
    case (Inr x)
    obtain q h where x: "x = (q, h)" by (cases x)
    have "normalize_loop f q h = Some r" using 3(2) Inr x by simp
    from 3(1)[OF Inr x[symmetric] this f1(2)] show ?thesis using Inr x f1 by simp
  qed
qed simp_all

lemma cancel_loop_mono: "cancel_loop f alive st rl ct g = Some r \<Longrightarrow> f \<le> f' \<Longrightarrow> cancel_loop f' alive st rl ct g = Some r"
proof (induction f alive st rl ct g arbitrary: f' rule: cancel_loop.induct)
  case (3 f alive i st rl ct g)
  obtain f1 where f1: "f' = Suc f1" "f \<le> f1" using 3(4) by (cases f') auto
  show ?case
  proof (cases "cg_nodes g i")
    case None
    with 3(3) f1 show ?thesis by simp
  next
    case (Some e)
    show ?thesis
    proof (cases "ce_cancelled e")
      case True
      with 3(1)[OF Some True _ f1(2)] 3(3) Some f1 show ?thesis by simp
    next
      case False
      with 3(2)[OF Some False _ f1(2)] 3(3) Some f1 show ?thesis by simp
    qed
  qed
qed simp_all

lemma normalize_mono: "normalize f ws g = Some r \<Longrightarrow> f \<le> f' \<Longrightarrow> normalize f' ws g = Some r"
  unfolding normalize_def by (rule normalize_loop_mono)

lemma case_mono:
  assumes "(case x of Inl p \<Rightarrow> Some (Inl p) | Inr y \<Rightarrow> F y) = Some r" "\<And>y. F y = Some r \<Longrightarrow> G y = Some r"
  shows "(case x of Inl p \<Rightarrow> Some (Inl p) | Inr y \<Rightarrow> G y) = Some r"
  using assms by (cases x) auto

lemma graph_remove_mono:
  assumes "graph_remove f i g = Some r" "f \<le> f'"
  shows "graph_remove f' i g = Some r"
proof -
  have to: "remove_to_relay f i e b g = Some r \<Longrightarrow> remove_to_relay f' i e b g = Some r" for e b
    unfolding remove_to_relay_def by (erule case_mono) (rule normalize_mono[OF _ assms(2)])
  have out: "remove_spliced f i g = Some r \<Longrightarrow> remove_spliced f' i g = Some r"
    unfolding remove_spliced_def by (erule case_mono) (simp add: normalize_mono[OF _ assms(2)] split: prod.splits)
  show ?thesis using assms(1) unfolding graph_remove_def
  proof (rule case_mono, clarsimp, goal_cases)
    case (1 e leaf)
    then show ?case using to out by (cases "any_cancelled (ps_iter (ce_parents e)) g") (auto split: if_splits)
  qed
qed

lemma cancel_nodes_mono:
  assumes "cancel_nodes f alive i g = Some r" "f \<le> f'"
  shows "cancel_nodes f' alive i g = Some r"
proof -
  obtain l where l: "cancel_loop f alive [i] [] [] g = Some l" using assms(1) by (auto simp: cancel_nodes_def split: option.splits)
  then have "cancel_loop f' alive [i] [] [] g = Some l" by (rule cancel_loop_mono[OF _ assms(2)])
  with assms(1) l normalize_mono[OF _ assms(2)] show ?thesis by (auto simp: cancel_nodes_def split: sum.splits)
qed

section \<open>Histories\<close>

text \<open>
  A history of calls: the graph, the edges of the uncompressed ancestry, the live tokens, and
  the tokens cancellation was requested on. A new token's parents are live, only live tokens are
  cancelled or dropped, and which nodes can still be upgraded is up to the environment.
\<close>

inductive cg_history :: "cancel_graph \<Rightarrow> (usize \<times> usize) set \<Rightarrow> usize set \<Rightarrow> usize set \<Rightarrow> bool" where
  start: "cg_history graph_new {} {} {}"
| insert: "cg_history g R L Q \<Longrightarrow> set ps \<subseteq> L \<Longrightarrow> graph_reserve g = Inr (i, g1) \<Longrightarrow> graph_insert i ps g1 = Inr (b, g2) \<Longrightarrow>
     cg_history g2 (R \<union> set ps \<times> {i}) (insert i L) Q"
| remove: "cg_history g R L Q \<Longrightarrow> i \<in> L \<Longrightarrow> graph_remove fuel i g = Some (Inr g1) \<Longrightarrow> cg_history g1 R (L - {i}) Q"
| cancel: "cg_history g R L Q \<Longrightarrow> i \<in> L \<Longrightarrow> cancel_nodes fuel alive i g = Some (Inr (ts, g1)) \<Longrightarrow> cg_history g1 R L (insert i Q)"

definition requested :: "(usize \<times> usize) set \<Rightarrow> usize set \<Rightarrow> usize \<Rightarrow> bool" where
  "requested R Q t \<longleftrightarrow> (\<exists>a \<in> Q. (a, t) \<in> R\<^sup>*)"

definition history_ok :: "cancel_graph \<Rightarrow> (usize \<times> usize) set \<Rightarrow> usize set \<Rightarrow> usize set \<Rightarrow> bool" where
  "history_ok g R L Q \<longleftrightarrow>
     graph_ok R g \<and> tokens (view g) = L \<and> flagged (view g) = {t \<in> L. requested R Q t}
     \<and> R \<subseteq> {..<cg_next g} \<times> {..<cg_next g} \<and> Q \<subseteq> {..<cg_next g}"

lemma start_ok: "history_ok graph_new {} {} {}"
  by (simp add: history_ok_def graph_ok_def cg_wf_def reps_def view_wf_def sound_def closed_flags_def meaning_def mirrored_def
      edges_def tokens_def flagged_def relays_def narrow_def indexed_def bucket_def graph_new_def view_def)

lemma token_reach:
  assumes "graph_ok R g" "i \<in> tokens (view g)" "t \<in> tokens (view g)"
  shows "t \<in> reachable i g \<longleftrightarrow> (i, t) \<in> R\<^sup>*"
proof -
  from assms(3) obtain v where v: "view g t = Some v" "nv_kind v = Token" by (auto simp: tokens_def)
  have s: "view_wf (cg_next g) (view g)" "meaning R (view g)" using assms(1) by (simp_all add: graph_ok_def sound_def)
  have "nv_signature v = Singleton t" using view_wfD(3)[OF s(1) v(1)] v(2) by (simp add: node_ok_def)
  with meaningD[OF s(2) assms(2) v(1)] show ?thesis by (simp add: reachable_def)
qed

lemma insert_ok:
  assumes "history_ok g R L Q" "set ps \<subseteq> L" "graph_reserve g = Inr (i, g1)"
  shows "\<exists>g2. graph_insert i ps g1 = Inr (\<exists>p \<in> set ps. requested R Q p, g2) \<and> history_ok g2 (R \<union> set ps \<times> {i}) (insert i L) Q"
proof -
  have h: "graph_ok R g" "tokens (view g) = L" "flagged (view g) = {t \<in> L. requested R Q t}" "R \<subseteq> {..<cg_next g} \<times> {..<cg_next g}" "Q \<subseteq> {..<cg_next g}"
    using assms(1) by (simp_all add: history_ok_def)
  have ok: "cg_wf g" "sound R (cg_next g) (view g)" "narrow (view g) = {}" using h(1) by (simp_all add: graph_ok_def)
  note w = cg_wfD[OF ok(1)]
  have i: "i = cg_next g" and g1: "g1 = g\<lparr>cg_next := i + 1\<rparr>" and lt: "i < i + 1"
    using assms(3) checked_succ[of "cg_next g"] by (auto simp: graph_reserve_def split: option.splits)
  have none: "view g i = None"
  proof (rule ccontr)
    assume "view g i \<noteq> None"
    then obtain v where "view g i = Some v" unfolding not_None_eq by blast
    from view_wfD(3)[OF w(2) this] show False by (simp add: node_ok_def i)
  qed
  have v1: "view g1 = view g" "cg_index g1 = cg_index g" "cg_relays g1 = cg_relays g" "cg_next g1 = i + 1" by (simp_all add: g1)
  have P: "set ps \<subseteq> tokens (view g)" using assms(2) h(2) by simp
  let ?b = "\<exists>p \<in> set ps. \<exists>v. view g p = Some v \<and> nv_cancelled v"
  have b: "?b \<longleftrightarrow> (\<exists>p \<in> set ps. requested R Q p)"
  proof (rule bex_cong[OF refl])
    fix p assume "p \<in> set ps"
    then have "p \<in> tokens (view g)" using P by blast
    then have "(\<exists>v. view g p = Some v \<and> nv_cancelled v) \<longleftrightarrow> p \<in> flagged (view g)" by (auto simp: tokens_def flagged_def)
    with \<open>p \<in> tokens (view g)\<close> h(2,3) show "(\<exists>v. view g p = Some v \<and> nv_cancelled v) \<longleftrightarrow> requested R Q p" by simp
  qed
  have "\<exists>g2. graph_insert i ps g1 = Inr (\<exists>p \<in> set ps. \<exists>v. view g1 p = Some v \<and> nv_cancelled v, g2) \<and> same_frame g1 g2 \<and> reps g2
      \<and> view g2 = inserted i (set ps) (\<exists>p \<in> set ps. \<exists>v. view g1 p = Some v \<and> nv_cancelled v) (view g1)"
    by (rule insert_view) (use w(1) P none in \<open>auto simp: g1 tokens_def\<close>)
  then obtain g2 where g2: "graph_insert i ps g1 = Inr (?b, g2)" "same_frame g1 g2" "reps g2" "view g2 = inserted i (set ps) ?b (view g)"
    unfolding v1 by blast
  have R: "R \<subseteq> {..<i} \<times> {..<i}" using h(4) i by simp
  have iL: "i \<notin> tokens (view g)" using none by (simp add: tokens_def del: view_None)
  then have iP: "i \<notin> set ps" using P by blast
  note s = insert_sound[OF ok(2)[folded i] none P lt R refl, folded g2(4)]
  have "indexed (view g2) (cg_index g2)"
  proof -
    have "(\<exists>v. view g2 j = Some v \<and> nv_kind v = Relay \<and> candidate_of (nv_signature v) = c)
        \<longleftrightarrow> (\<exists>v. view g j = Some v \<and> nv_kind v = Relay \<and> candidate_of (nv_signature v) = c)" for j c
      using none unfolding g2(4) by (cases "j = i") (auto simp: inserted_def linked_def fresh_view_def simp del: view_None)
    then show ?thesis using w(3) g2(2) v1 by (simp add: indexed_def same_frame_def)
  qed
  then have "cg_wf g2" using s(1,4) g2(2,3) w(4) v1 by (simp add: cg_wf_def sound_def same_frame_def)
  then have ok2: "graph_ok (R \<union> set ps \<times> {i}) g2" using s(1,5) ok(3) g2(2) v1 by (simp add: graph_ok_def same_frame_def)
  have RF: "i \<notin> Field R" using R by (auto simp: Field_def)
  have Qi: "a \<noteq> i" if "a \<in> Q" for a using that h(5) i by auto
  have rq: "requested (R \<union> set ps \<times> {i}) Q t \<longleftrightarrow> (if t = i then \<exists>p \<in> set ps. requested R Q p else requested R Q t)" for t
    using Qi unfolding requested_def sink_paths[OF RF iP] by auto
  have "flagged (view g2) = {t \<in> insert i L. requested (R \<union> set ps \<times> {i}) Q t}"
    unfolding s(3) b h(3) rq using iL h(2) by auto
  moreover have "cg_next g2 = i + 1" using g2(2) v1 by (simp add: same_frame_def)
  moreover have "R \<union> set ps \<times> {i} \<subseteq> {..<i + 1} \<times> {..<i + 1}" "Q \<subseteq> {..<i + 1}"
  proof -
    have "p < i" if "p \<in> tokens (view g)" for p using that view_wfD(3)[OF w(2)] i by (auto simp: tokens_def node_ok_def)
    with P R lt h(5) i show "R \<union> set ps \<times> {i} \<subseteq> {..<i + 1} \<times> {..<i + 1}" "Q \<subseteq> {..<i + 1}" by (fastforce dest: less_trans)+
  qed
  ultimately show ?thesis using g2(1) b ok2 s(2) h(2) by (auto simp: history_ok_def)
qed

lemma remove_ok:
  assumes "history_ok g R L Q" "i \<in> L" "graph_remove fuel i g = Some r"
  shows "\<exists>g1. r = Inr g1 \<and> history_ok g1 R (L - {i}) Q"
proof -
  have h: "graph_ok R g" "tokens (view g) = L" "flagged (view g) = {t \<in> L. requested R Q t}" "R \<subseteq> {..<cg_next g} \<times> {..<cg_next g}" "Q \<subseteq> {..<cg_next g}"
    using assms(1) by (simp_all add: history_ok_def)
  let ?f = "fuel + node_count g * (node_count g + 2)"
  from graph_remove_spec[OF h(1), of i ?f] assms(2) h(2) obtain g1 where
    g1: "graph_remove ?f i g = Some (Inr g1)" "graph_ok R g1" "cg_next g1 = cg_next g" "tokens (view g1) = L - {i}" "flagged (view g1) = flagged (view g) - {i}"
    by auto
  have "r = Inr g1" using graph_remove_mono[OF assms(3), of ?f] g1(1) by simp
  moreover have "flagged (view g1) = {t \<in> L - {i}. requested R Q t}" unfolding g1(5) h(3) by blast
  ultimately show ?thesis using g1(2-4) h(4,5) by (simp add: history_ok_def)
qed

lemma cancel_ok:
  assumes "history_ok g R L Q" "i \<in> L" "cancel_nodes fuel alive i g = Some r"
  shows "\<exists>ts g1. r = Inr (ts, g1) \<and> history_ok g1 R L (insert i Q)
    \<and> distinct ts \<and> set ts = {t \<in> L. alive t \<and> (i, t) \<in> R\<^sup>* \<and> \<not> requested R Q t}"
proof -
  have h: "graph_ok R g" "tokens (view g) = L" "flagged (view g) = {t \<in> L. requested R Q t}" "R \<subseteq> {..<cg_next g} \<times> {..<cg_next g}" "Q \<subseteq> {..<cg_next g}"
    using assms(1) by (simp_all add: history_ok_def)
  let ?f = "fuel + (node_count g + 1) * (node_count g + 1)"
  from cancel_nodes_spec[OF h(1), of i ?f alive] assms(2) h(2) obtain ts g1 where
    g1: "cancel_nodes ?f alive i g = Some (Inr (ts, g1))" "graph_ok R g1" "cg_next g1 = cg_next g" "tokens (view g1) = L"
      "flagged (view g1) = flagged (view g) \<union> (reachable i g \<inter> L)" "distinct ts"
      "set ts = {t \<in> L. t \<in> reachable i g \<and> t \<notin> flagged (view g) \<and> alive t}" by auto
  have r: "r = Inr (ts, g1)" using cancel_nodes_mono[OF assms(3), of ?f] g1(1) by simp
  have tr: "t \<in> reachable i g \<longleftrightarrow> (i, t) \<in> R\<^sup>*" if "t \<in> L" for t using token_reach[OF h(1), of i t] assms(2) that h(2) by simp
  have "flagged (view g1) = {t \<in> L. requested R (insert i Q) t}" unfolding g1(5) h(3) using tr by (auto simp: requested_def)
  moreover have "i < cg_next g"
    using view_wfD(3)[OF cg_wfD(2)[of g]] h(1,2) assms(2) by (auto simp: graph_ok_def tokens_def node_ok_def)
  moreover have "set ts = {t \<in> L. alive t \<and> (i, t) \<in> R\<^sup>* \<and> \<not> requested R Q t}" unfolding g1(7) h(3) using tr by auto
  ultimately show ?thesis using r g1(2-4,6) h(4,5) by (auto simp: history_ok_def)
qed

lemma history_inv: "cg_history g R L Q \<Longrightarrow> history_ok g R L Q"
proof (induction rule: cg_history.induct)
  case start
  show ?case by (rule start_ok)
next
  case (insert g R L Q ps i g1 b g2)
  from insert_ok[OF insert.IH insert.hyps(2,3)] insert.hyps(4) show ?case by auto
next
  case (remove g R L Q i fuel g1)
  from remove_ok[OF remove.IH remove.hyps(2,3)] show ?case by auto
next
  case (cancel g R L Q i fuel alive ts g1)
  from cancel_ok[OF cancel.IH cancel.hyps(2,3)] show ?case by auto
qed

section \<open>A history\<close>

text \<open>
  Root 0 with children 1 and 2; 3 below both, with children 4 and 5; 3 is dropped, which leaves
  a relay; then 1 is cancelled.
\<close>

definition sample_ancestry :: "(usize \<times> usize) set" where
  "sample_ancestry = {(0, 1), (0, 2), (1, 3), (2, 3), (3, 4), (3, 5)}"

lemma history_insert:
  assumes "cg_history g R L Q" "cg_next g = n" "set ps \<subseteq> L" "unat n < 100" "R' = R \<union> set ps \<times> {n}" "L' = insert n L"
  shows "\<exists>g'. cg_history g' R' L' Q \<and> cg_next g' = n + 1"
proof -
  have r: "graph_reserve g = Inr (n, g\<lparr>cg_next := n + 1\<rparr>)" using assms(2,4) by (simp add: graph_reserve_def checked_add_def)
  from insert_ok[OF history_inv[OF assms(1)] assms(3) r] obtain g2 where
    g2: "graph_insert n ps (g\<lparr>cg_next := n + 1\<rparr>) = Inr (\<exists>p \<in> set ps. requested R Q p, g2)" by blast
  have "cg_next (snd (b, h)) = cg_next k" if "foldp (link_parent i) xs (c, k) = Inr (b, h)" for i xs b h c k
    using that by (induction xs arbitrary: c k) (auto simp: bindp_def link_parent_def upd_node_def node_at_def split: sum.splits option.splits)
  then have "cg_next g2 = n + 1" using g2 by (fastforce simp: graph_insert_def bindp_def Let_def split: sum.splits if_splits)
  then show ?thesis using cg_history.insert[OF assms(1,3) r g2] assms(5,6) by blast
qed

lemma sample_history_base: "\<exists>g. cg_history g sample_ancestry {0, 1, 2, 3, 4, 5} {} \<and> cg_next g = 6"
proof -
  have "cg_next graph_new = 0" by (simp add: graph_new_def)
  then obtain g0 where g0: "cg_history g0 {} {0} {}" "cg_next g0 = 1" using history_insert[OF cg_history.start, of 0 "[]" "{}" "{0}"] by (auto simp: insert_commute)
  then obtain g1 where g1: "cg_history g1 {(0, 1)} {0, 1} {}" "cg_next g1 = 2"
    using history_insert[OF g0(1,2), of "[0]" "{(0, 1)}" "{0, 1}"] by (auto simp: insert_commute)
  then obtain g2 where g2: "cg_history g2 {(0, 1), (0, 2)} {0, 1, 2} {}" "cg_next g2 = 3"
    using history_insert[OF g1(1,2), of "[0]" "{(0, 1), (0, 2)}" "{0, 1, 2}"] by (auto simp: insert_commute)
  then obtain g3 where g3: "cg_history g3 {(0, 1), (0, 2), (1, 3), (2, 3)} {0, 1, 2, 3} {}" "cg_next g3 = 4"
    using history_insert[OF g2(1,2), of "[1, 2]" "{(0, 1), (0, 2), (1, 3), (2, 3)}" "{0, 1, 2, 3}"] by (auto simp: insert_commute)
  then obtain g4 where g4: "cg_history g4 {(0, 1), (0, 2), (1, 3), (2, 3), (3, 4)} {0, 1, 2, 3, 4} {}" "cg_next g4 = 5"
    using history_insert[OF g3(1,2), of "[3]" "{(0, 1), (0, 2), (1, 3), (2, 3), (3, 4)}" "{0, 1, 2, 3, 4}"] by (auto simp: insert_commute)
  then show ?thesis
    using history_insert[OF g4(1,2), of "[3]" sample_ancestry "{0, 1, 2, 3, 4, 5}"] by (auto simp: sample_ancestry_def insert_commute)
qed

lemma history_total:
  assumes "history_ok g R L Q" "i \<in> L" "(node_count g + 1) * (node_count g + 1) \<le> fuel"
  shows "\<exists>g1. graph_remove fuel i g = Some (Inr g1)" "\<exists>ts g1. cancel_nodes fuel alive i g = Some (Inr (ts, g1))"
proof -
  have h: "graph_ok R g" "i \<in> tokens (view g)" using assms(1,2) by (simp_all add: history_ok_def)
  have "node_count g * (node_count g + 2) \<le> fuel" using assms(3) by simp
  from graph_remove_spec[OF h this] show "\<exists>g1. graph_remove fuel i g = Some (Inr g1)" by blast
  from cancel_nodes_spec[OF h assms(3), of alive] show "\<exists>ts g1. cancel_nodes fuel alive i g = Some (Inr (ts, g1))" by blast
qed

lemma sample_history: "\<exists>g. cg_history g sample_ancestry {0, 1, 2, 4, 5} {1}"
proof -
  obtain g where g: "cg_history g sample_ancestry {0, 1, 2, 3, 4, 5} {}" using sample_history_base by blast
  from history_total(1)[OF history_inv[OF g], of 3] obtain f h where h: "graph_remove f 3 g = Some (Inr h)" by (metis insertI1 insertI2 order_refl)
  have hh: "cg_history h sample_ancestry ({0, 1, 2, 3, 4, 5} - {3}) {}" by (rule cg_history.remove[OF g _ h]) simp
  have L: "({0, 1, 2, 3, 4, 5} - {3}) = ({0, 1, 2, 4, 5} :: usize set)" by auto
  from history_total(2)[OF history_inv[OF hh], of 1 _ "\<lambda>_. True"] obtain f ts k where k: "cancel_nodes f (\<lambda>_. True) 1 h = Some (Inr (ts, k))"
    unfolding L by (metis insertI1 insertI2 order_refl)
  have "cg_history k sample_ancestry {0, 1, 2, 4, 5} {1}" using cg_history.cancel[OF hh[unfolded L] _ k] by simp
  then show ?thesis by blast
qed

section \<open>Properties\<close>

text \<open>
  C5. Compression never changes who is cancelled: after any history of insertions, removals and
  cancellations the graph holds exactly the live tokens, and a live token is flagged exactly
  when a cancellation was requested on it or on one of its ancestors in the uncompressed
  history, including ancestors that were dropped before or after.
\<close>

theorem cancellation_exact:
  assumes "cg_history g R L Q"
  shows "{t. \<exists>e. cg_nodes g t = Some e \<and> ce_kind e = Token} = L
    \<and> (\<forall>t e. cg_nodes g t = Some e \<and> ce_kind e = Token \<longrightarrow> (ce_cancelled e \<longleftrightarrow> (\<exists>a \<in> Q. (a, t) \<in> R\<^sup>*)))"
proof -
  have h: "tokens (view g) = L" "flagged (view g) = {t \<in> L. requested R Q t}" using history_inv[OF assms] by (simp_all add: history_ok_def)
  have set_eq: "{t. \<exists>e. cg_nodes g t = Some e \<and> ce_kind e = Token} = L" unfolding h(1)[symmetric] by (auto simp: tokens_def view_Some)
  have flag_eq: "ce_cancelled e \<longleftrightarrow> requested R Q t" if "cg_nodes g t = Some e" "ce_kind e = Token" for t e
  proof -
    have "t \<in> tokens (view g)" "ce_cancelled e \<longleftrightarrow> t \<in> flagged (view g)" using that by (simp_all add: flagged_def tokens_def view_def)
    with h show ?thesis by simp
  qed
  show ?thesis by (intro conjI allI impI set_eq; elim conjE) (simp add: flag_eq requested_def)
qed

theorem cancellation_exact_witness:
  "\<exists>g d e. cg_history g sample_ancestry {0, 1, 2, 4, 5} {1} \<and> cg_nodes g 4 = Some d \<and> ce_cancelled d \<and> cg_nodes g 2 = Some e \<and> \<not> ce_cancelled e"
proof -
  obtain g where g: "cg_history g sample_ancestry {0, 1, 2, 4, 5} {1}" using sample_history by blast
  note c = cancellation_exact[OF g]
  have "(4 :: usize) \<in> {0, 1, 2, 4, 5}" "(2 :: usize) \<in> {0, 1, 2, 4, 5}" by simp_all
  then have "4 \<in> {t. \<exists>e. cg_nodes g t = Some e \<and> ce_kind e = Token}" "2 \<in> {t. \<exists>e. cg_nodes g t = Some e \<and> ce_kind e = Token}"
    unfolding conjunct1[OF c] .
  then obtain d e where d: "cg_nodes g 4 = Some d" "ce_kind d = Token" and e: "cg_nodes g 2 = Some e" "ce_kind e = Token"
    by blast
  have flag: "ce_cancelled x \<longleftrightarrow> (\<exists>a \<in> {1}. (a, t) \<in> sample_ancestry\<^sup>*)" if "cg_nodes g t = Some x" "ce_kind x = Token" for t x
    using conjunct2[OF c] that by blast
  have "(1, 3) \<in> sample_ancestry" "(3, 4) \<in> sample_ancestry" by (simp_all add: sample_ancestry_def)
  then have "(1, 4) \<in> sample_ancestry\<^sup>*" by (meson r_into_rtrancl rtrancl_into_rtrancl)
  then have "ce_cancelled d" using flag[OF d] by simp
  moreover have "(1, 2) \<notin> sample_ancestry\<^sup>*"
  proof
    assume "(1, 2) \<in> sample_ancestry\<^sup>*"
    then obtain y where "(1, y) \<in> sample_ancestry\<^sup>*" "(y, 2) \<in> sample_ancestry" by (cases rule: rtranclE) auto
    then have "(1, 0) \<in> sample_ancestry\<^sup>*" by (auto simp: sample_ancestry_def)
    then show False by (cases rule: rtranclE) (auto simp: sample_ancestry_def)
  qed
  then have "\<not> ce_cancelled e" using flag[OF e] by simp
  ultimately show ?thesis using g d e by blast
qed

text \<open>
  C30. A cancellation reports exactly the tokens it changes: whatever the graph has been
  compressed to, the tokens handed to the caller to be woken are, each once, those live tokens
  at or below the cancelled one whose node can still be reached and that no earlier request had
  covered.
\<close>

theorem cancellation_reports_exactly:
  assumes "cg_history g R L Q" "i \<in> L" "cancel_nodes fuel alive i g = Some r"
  shows "\<exists>ts g'. r = Inr (ts, g') \<and> distinct ts
    \<and> set ts = {t \<in> L. alive t \<and> (i, t) \<in> R\<^sup>* \<and> (\<forall>a \<in> Q. (a, t) \<notin> R\<^sup>*)}"
  using cancel_ok[OF history_inv[OF assms(1)] assms(2,3)] by (fastforce simp: requested_def)

theorem cancellation_reports_exactly_witness:
  "\<exists>g f ts g'. cg_history g sample_ancestry {0, 1, 2, 3, 4, 5} {} \<and> cancel_nodes f (\<lambda>t. t \<noteq> 4) 3 g = Some (Inr (ts, g')) \<and> set ts = {3, 5}"
proof -
  obtain g where g: "cg_history g sample_ancestry {0, 1, 2, 3, 4, 5} {}" using sample_history_base by blast
  have i: "(3 :: usize) \<in> {0, 1, 2, 3, 4, 5}" by simp
  from history_total(2)[OF history_inv[OF g] i order_refl, of "\<lambda>t. t \<noteq> 4"] obtain f r where
    r: "cancel_nodes f (\<lambda>t. t \<noteq> 4) 3 g = Some r" by blast
  from cancellation_reports_exactly[OF g i r] obtain ts g' where
    t: "r = Inr (ts, g')" "set ts = {t \<in> {0, 1, 2, 3, 4, 5}. t \<noteq> 4 \<and> (3, t) \<in> sample_ancestry\<^sup>*}" by auto
  have "t \<in> {3, 4, 5}" if "(3, t) \<in> sample_ancestry\<^sup>*" for t
    using that by (induction rule: rtrancl_induct) (auto simp: sample_ancestry_def)
  moreover have "(3, 5) \<in> sample_ancestry\<^sup>*" by (rule r_into_rtrancl) (simp add: sample_ancestry_def)
  ultimately have "set ts = {3, 5}" unfolding t(2) by fastforce
  with g r t(1) show ?thesis by blast
qed

text \<open>
  C10. Every operation on the graph ends without a panic: after any history, dropping or
  cancelling a live token finishes within \<open>(n + 1)\<^sup>2\<close> iterations of its loops, where \<open>n\<close> is the
  number of nodes, and inserting below live tokens succeeds as long as identities are left.
\<close>

theorem cancellation_total:
  assumes "cg_history g R L Q" "i \<in> L" "set ps \<subseteq> L" "(card (dom (cg_nodes g)) + 1) * (card (dom (cg_nodes g)) + 1) \<le> fuel"
  shows "(\<exists>g'. graph_remove fuel i g = Some (Inr g')) \<and> (\<exists>ts g'. cancel_nodes fuel alive i g = Some (Inr (ts, g')))
    \<and> (case graph_reserve g of Inl _ \<Rightarrow> unat (cg_next g) + 1 = 2 ^ 64 | Inr (j, g1) \<Rightarrow> \<exists>b g2. graph_insert j ps g1 = Inr (b, g2))"
proof -
  have "case graph_reserve g of Inl _ \<Rightarrow> unat (cg_next g) + 1 = 2 ^ 64 | Inr (j, g1) \<Rightarrow> \<exists>b g2. graph_insert j ps g1 = Inr (b, g2)"
  proof (cases "graph_reserve g")
    case (Inl e)
    then show ?thesis using unsigned_less[of "cg_next g", where ?'a = nat] by (auto simp: graph_reserve_def checked_add_def split: if_splits option.splits)
  next
    case (Inr x)
    with insert_ok[OF history_inv[OF assms(1)] assms(3), of "fst x" "snd x"] show ?thesis by (cases x) auto
  qed
  with history_total[OF history_inv[OF assms(1)] assms(2), of fuel] assms(4) show ?thesis by (simp add: node_count_def)
qed

theorem cancellation_total_witness:
  "\<exists>g f g' h ts b k. cg_history g sample_ancestry {0, 1, 2, 3, 4, 5} {} \<and> graph_remove f 3 g = Some (Inr g')
    \<and> cancel_nodes f (\<lambda>_. True) 3 g = Some (Inr (ts, h)) \<and> graph_insert 6 [3, 4] (g\<lparr>cg_next := 7\<rparr>) = Inr (b, k)"
proof -
  obtain g where g: "cg_history g sample_ancestry {0, 1, 2, 3, 4, 5} {}" "cg_next g = 6" using sample_history_base by blast
  have "graph_reserve g = Inr (6, g\<lparr>cg_next := 7\<rparr>)" using g(2) by (simp add: graph_reserve_def checked_add_def)
  with cancellation_total[OF g(1), of 3 "[3, 4]" "(card (dom (cg_nodes g)) + 1) * (card (dom (cg_nodes g)) + 1)" "\<lambda>_. True"] g(1) show ?thesis
    by simp blast
qed

text \<open>
  C31. The graph stays compressed: after any history every relay has at least two parents and two
  children, parent and child sets mirror each other and go from older to younger nodes, the
  relay index holds exactly the relays under the fingerprints of their signatures, and the relay
  counter is their number.
\<close>

theorem cancellation_compact:
  assumes "cg_history g R L Q"
  shows "(\<forall>i e. cg_nodes g i = Some e \<and> ce_kind e = Relay \<longrightarrow> 2 \<le> ps_len (ce_parents e) \<and> 2 \<le> ids_len (ce_children e))
    \<and> (\<forall>i e c. cg_nodes g i = Some e \<and> c \<in> set (ids_iter (ce_children e)) \<longrightarrow>
         i < c \<and> (\<exists>d. cg_nodes g c = Some d \<and> i \<in> set (ps_iter (ce_parents d))))
    \<and> (\<forall>i c. (\<exists>is. cg_index g c = Some is \<and> i \<in> set is) \<longleftrightarrow>
         (\<exists>e. cg_nodes g i = Some e \<and> ce_kind e = Relay \<and> candidate_of (ce_signature e) = c))
    \<and> cg_relays g = card {i. \<exists>e. cg_nodes g i = Some e \<and> ce_kind e = Relay}"
proof -
  have h: "cg_wf g" "narrow (view g) = {}" using history_inv[OF assms] by (simp_all add: history_ok_def graph_ok_def)
  note w = cg_wfD[OF h(1)]
  have wide: "2 \<le> ps_len (ce_parents e) \<and> 2 \<le> ids_len (ce_children e)" if "cg_nodes g i = Some e" "ce_kind e = Relay" for i e
    using narrow_iff[OF w(1) that] h(2) by auto
  have mirror: "i < c \<and> (\<exists>d. cg_nodes g c = Some d \<and> i \<in> set (ps_iter (ce_parents d)))"
    if "cg_nodes g i = Some e" "c \<in> set (ids_iter (ce_children e))" for i e c
    using mirroredD(2)[OF view_wfD(2)[OF w(2)], of i "entry_view e" c] neighbours(2)[OF w(2), of i "entry_view e" c] that
    by (auto simp: view_Some)
  have index: "(\<exists>is. cg_index g c = Some is \<and> i \<in> set is) \<longleftrightarrow> (\<exists>e. cg_nodes g i = Some e \<and> ce_kind e = Relay \<and> candidate_of (ce_signature e) = c)" for i c
  proof -
    have "(\<exists>is. cg_index g c = Some is \<and> i \<in> set is) \<longleftrightarrow> i \<in> set (bucket (cg_index g) c)" by (cases "cg_index g c") (simp_all add: bucket_def)
    also have "\<dots> \<longleftrightarrow> (\<exists>e. cg_nodes g i = Some e \<and> ce_kind e = Relay \<and> candidate_of (ce_signature e) = c)"
      unfolding indexedD[OF w(3)] by (auto simp: view_Some)
    finally show ?thesis .
  qed
  have relays: "{i. \<exists>e. cg_nodes g i = Some e \<and> ce_kind e = Relay} = relays (view g)" by (auto simp: relays_def view_Some)
  show ?thesis by (intro conjI allI impI) (use wide mirror index w(4)[folded relays] in blast)+
qed

theorem cancellation_compact_witness:
  "\<exists>g. cg_history g sample_ancestry {0, 1, 2, 4, 5} {1} \<and> cg_relays g = card {i. \<exists>e. cg_nodes g i = Some e \<and> ce_kind e = Relay}"
  using sample_history cancellation_compact by blast

end
