(* ===== verification/Placement.thy ===== *)
theory Placement
  imports Prelude
begin

text \<open>
  Least-loaded placement of new tasks on carriers (control_placement.rs). Loads are what was
  assigned to a carrier less what it was last seen to have retired; each selection refreshes
  the count of one carrier, in turn. What the carriers report, their retirement count and
  whether they accept work, are arguments, asked at most once per carrier and selection.
\<close>

section \<open>State and operations\<close>

record carrier_loads =
  cl_assigned :: "u64 list"
  cl_observed :: "u64 list"
  cl_probe :: nat

definition loads_new :: "nat \<Rightarrow> carrier_loads result_p" where
  "loads_new carriers =
     (if carriers = 0 then Inl (Panic ''placement requires a carrier'')
      else Inr \<lparr>cl_assigned = replicate carriers 0, cl_observed = replicate carriers 0, cl_probe = 0\<rparr>)"

definition carrier_load :: "carrier_loads \<Rightarrow> nat \<Rightarrow> u64 \<Rightarrow> u64 result_p" where
  "carrier_load l c retired =
     (if length (cl_assigned l) \<le> c then Inl (Panic ''index out of bounds'')
      else case checked_sub (cl_assigned l ! c) retired of
             None \<Rightarrow> Inl (Panic ''carrier retired more tasks than it was assigned'')
           | Some n \<Rightarrow> Inr n)"

definition cached_load :: "carrier_loads \<Rightarrow> nat \<Rightarrow> u64 result_p" where
  "cached_load l c =
     (if length (cl_observed l) \<le> c then Inl (Panic ''index out of bounds'') else carrier_load l c (cl_observed l ! c))"

text \<open>The carriers in the order in which a selection looks at them.\<close>

definition visit_order :: "nat \<Rightarrow> nat \<Rightarrow> nat list" where
  "visit_order cursor n = map (\<lambda>offset. (cursor + offset) mod n) [0..<n]"

text \<open>\<open>min_by_key\<close>: the first carrier with the least cached load.\<close>

fun least_loaded :: "carrier_loads \<Rightarrow> nat list \<Rightarrow> (nat \<times> u64) option result_p" where
  "least_loaded l [] = Inr None"
| "least_loaded l (c # cs) =
     (case cached_load l c of
        Inl p \<Rightarrow> Inl p
      | Inr n \<Rightarrow>
          (case least_loaded l cs of
             Inl p \<Rightarrow> Inl p
           | Inr None \<Rightarrow> Inr (Some (c, n))
           | Inr (Some (d, m)) \<Rightarrow> Inr (Some (if n \<le> m then (c, n) else (d, m)))))"

text \<open>The second pass, over the carriers other than the rejected candidate that accept work.\<close>

fun least_accepting :: "carrier_loads \<Rightarrow> (nat \<Rightarrow> bool) \<Rightarrow> nat \<Rightarrow> nat list \<Rightarrow> u64 \<Rightarrow> nat option \<Rightarrow> nat option result_p" where
  "least_accepting l accepts candidate [] minimum selected = Inr selected"
| "least_accepting l accepts candidate (c # cs) minimum selected =
     (if c = candidate \<or> \<not> accepts c then least_accepting l accepts candidate cs minimum selected
      else case cached_load l c of
             Inl p \<Rightarrow> Inl p
           | Inr n \<Rightarrow>
               if n < minimum then least_accepting l accepts candidate cs n (Some c)
               else least_accepting l accepts candidate cs minimum selected)"

definition refresh_probe :: "(nat \<Rightarrow> u64) \<Rightarrow> carrier_loads \<Rightarrow> carrier_loads result_p" where
  "refresh_probe retired l =
     (let probe = cl_probe l in
      if length (cl_observed l) \<le> probe then Inl (Panic ''index out of bounds'')
      else if retired probe < cl_observed l ! probe then Inl (Panic ''carrier retirement count moved backward'')
      else Inr (l\<lparr>cl_observed := (cl_observed l)[probe := retired probe], cl_probe := (probe + 1) mod length (cl_assigned l)\<rparr>))"

definition select_carrier :: "nat \<Rightarrow> (nat \<Rightarrow> u64) \<Rightarrow> (nat \<Rightarrow> bool) \<Rightarrow> carrier_loads \<Rightarrow> (nat option \<times> carrier_loads) result_p" where
  "select_carrier cursor retired accepts l =
     (case refresh_probe retired l of
        Inl p \<Rightarrow> Inl p
      | Inr l1 \<Rightarrow>
          let order = visit_order cursor (length (cl_assigned l1)) in
          (case least_loaded l1 order of
             Inl p \<Rightarrow> Inl p
           | Inr None \<Rightarrow> Inl (Panic ''placement requires a carrier'')
           | Inr (Some (candidate, _)) \<Rightarrow>
               if accepts candidate then Inr (Some candidate, l1)
               else map_sum id (\<lambda>r. (r, l1)) (least_accepting l1 accepts candidate order (- 1) None)))"

definition loads_increment :: "nat \<Rightarrow> carrier_loads \<Rightarrow> carrier_loads result_p" where
  "loads_increment c l =
     (if length (cl_assigned l) \<le> c then Inl (Panic ''index out of bounds'')
      else case checked_add (cl_assigned l ! c) 1 of
             None \<Rightarrow> Inl (Panic ''carrier assignment count overflow'')
           | Some n \<Rightarrow> Inr (l\<lparr>cl_assigned := (cl_assigned l)[c := n]\<rparr>))"

definition loads_decrement :: "nat \<Rightarrow> carrier_loads \<Rightarrow> carrier_loads result_p" where
  "loads_decrement c l =
     (if length (cl_assigned l) \<le> c then Inl (Panic ''index out of bounds'')
      else case checked_sub (cl_assigned l ! c) 1 of
             None \<Rightarrow> Inl (Panic ''carrier assignment count underflow'')
           | Some n \<Rightarrow> Inr (l\<lparr>cl_assigned := (cl_assigned l)[c := n]\<rparr>))"

definition loads_active :: "carrier_loads \<Rightarrow> nat \<Rightarrow> u64 \<Rightarrow> nat result_p" where
  "loads_active l c retired = map_sum id unat (carrier_load l c retired)"

section \<open>Invariant\<close>

text \<open>Nothing was seen to retire more than it was assigned, nor more than it has retired.\<close>

definition loads_ok :: "(nat \<Rightarrow> u64) \<Rightarrow> carrier_loads \<Rightarrow> bool" where
  "loads_ok retired l \<longleftrightarrow>
     cl_probe l < length (cl_assigned l) \<and> length (cl_observed l) = length (cl_assigned l)
     \<and> (\<forall>c < length (cl_assigned l). cl_observed l ! c \<le> retired c \<and> retired c \<le> cl_assigned l ! c)"

definition load_of :: "carrier_loads \<Rightarrow> nat \<Rightarrow> u64" where
  "load_of l c = cl_assigned l ! c - cl_observed l ! c"

lemma loads_new_ok: "loads_new n = Inr l \<Longrightarrow> loads_ok (\<lambda>_. 0) l"
  by (auto simp: loads_new_def loads_ok_def split: if_splits)

lemma cached_load_ok: "loads_ok r l \<Longrightarrow> c < length (cl_assigned l) \<Longrightarrow> cached_load l c = Inr (load_of l c)"
  using order.trans[of "cl_observed l ! c" "r c"]
  by (auto simp: cached_load_def carrier_load_def load_of_def checked_sub_def loads_ok_def)

lemma refresh_probe_ok:
  assumes "loads_ok r l"
  shows "\<exists>l1. refresh_probe r l = Inr l1 \<and> loads_ok r l1 \<and> cl_assigned l1 = cl_assigned l
    \<and> cl_observed l1 = (cl_observed l)[cl_probe l := r (cl_probe l)] \<and> cl_probe l1 = (cl_probe l + 1) mod length (cl_assigned l)"
proof -
  have "0 < length (cl_assigned l)" "cl_probe l < length (cl_observed l)" using assms by (auto simp: loads_ok_def)
  then show ?thesis using assms mod_less_divisor[of "length (cl_assigned l)" "cl_probe l + 1"]
    by (auto simp: refresh_probe_def loads_ok_def Let_def nth_list_update)
qed

lemma visit_order_set: "0 < n \<Longrightarrow> set (visit_order cursor n) = {..<n}"
proof
  assume n: "0 < n"
  then show "set (visit_order cursor n) \<subseteq> {..<n}" by (auto simp: visit_order_def)
  show "{..<n} \<subseteq> set (visit_order cursor n)"
  proof
    fix c assume "c \<in> {..<n}"
    then have c: "c < n" by simp
    let ?o = "(c + (n - cursor mod n)) mod n"
    have "(cursor + ?o) mod n = (cursor mod n + (c + (n - cursor mod n))) mod n" by (simp add: mod_simps)
    also have "\<dots> = (c + n) mod n" using n mod_less_divisor[OF n, of cursor] by simp
    finally have "(cursor + ?o) mod n = c" using c by simp
    moreover have "?o \<in> set [0..<n]" using n by simp
    ultimately show "c \<in> set (visit_order cursor n)" unfolding visit_order_def set_map by (intro image_eqI) (rule sym)
  qed
qed

lemma least_loaded_ok:
  assumes "loads_ok r l" "set cs \<subseteq> {..<length (cl_assigned l)}" "cs \<noteq> []"
  shows "\<exists>c. least_loaded l cs = Inr (Some (c, load_of l c)) \<and> c \<in> set cs \<and> (\<forall>d \<in> set cs. load_of l c \<le> load_of l d)"
  using assms(2,3)
proof (induction cs)
  case (Cons c cs)
  show ?case
  proof (cases "cs = []")
    case True
    with cached_load_ok[OF assms(1), of c] Cons.prems show ?thesis by simp
  next
    case False
    with Cons obtain d where d: "least_loaded l cs = Inr (Some (d, load_of l d))" "d \<in> set cs" "\<forall>x \<in> set cs. load_of l d \<le> load_of l x" by auto
    show ?thesis
      using cached_load_ok[OF assms(1), of c] Cons.prems(1) d by (cases "load_of l c \<le> load_of l d") (auto intro: order.trans dest: order.trans)
  qed
qed simp

text \<open>What the second pass does with a selection that is the best so far.\<close>

lemma least_accepting_ok:
  assumes "loads_ok r l" "set cs \<subseteq> {..<length (cl_assigned l)}"
    and "selected = None \<longrightarrow> minimum = - 1" "\<And>c. selected = Some c \<Longrightarrow> load_of l c = minimum"
    and "\<And>c. c \<in> set cs \<Longrightarrow> load_of l c < - 1"
  shows "\<exists>s. least_accepting l accepts candidate cs minimum selected = Inr s
    \<and> (s = None \<longleftrightarrow> selected = None \<and> (\<forall>c \<in> set cs. c = candidate \<or> \<not> accepts c))
    \<and> (\<forall>c. s = Some c \<longrightarrow> (selected = Some c \<or> c \<in> set cs \<and> c \<noteq> candidate \<and> accepts c)
        \<and> load_of l c \<le> minimum \<and> (\<forall>d \<in> set cs. d \<noteq> candidate \<longrightarrow> accepts d \<longrightarrow> load_of l c \<le> load_of l d))"
  using assms(2-)
proof (induction cs arbitrary: minimum selected)
  case (Cons c cs)
  show ?case
  proof (cases "c = candidate \<or> \<not> accepts c")
    case True
    with Cons.IH[of selected minimum] Cons.prems show ?thesis by auto
  next
    case False
    note e = cached_load_ok[OF assms(1), of c]
    show ?thesis
    proof (cases "load_of l c < minimum")
      case True
      have "\<exists>s. least_accepting l accepts candidate cs (load_of l c) (Some c) = Inr s
        \<and> (s = None \<longleftrightarrow> Some c = None \<and> (\<forall>c \<in> set cs. c = candidate \<or> \<not> accepts c))
        \<and> (\<forall>d. s = Some d \<longrightarrow> (Some c = Some d \<or> d \<in> set cs \<and> d \<noteq> candidate \<and> accepts d)
          \<and> load_of l d \<le> load_of l c \<and> (\<forall>x \<in> set cs. x \<noteq> candidate \<longrightarrow> accepts x \<longrightarrow> load_of l d \<le> load_of l x))"
        by (rule Cons.IH) (use Cons.prems in auto)
      then show ?thesis using False True e Cons.prems(1) by (auto intro: order.trans less_imp_le)
    next
      case False': False
      have sel: "selected \<noteq> None" using False' Cons.prems(2,4) by auto
      have "\<exists>s. least_accepting l accepts candidate cs minimum selected = Inr s
        \<and> (s = None \<longleftrightarrow> selected = None \<and> (\<forall>c \<in> set cs. c = candidate \<or> \<not> accepts c))
        \<and> (\<forall>d. s = Some d \<longrightarrow> (selected = Some d \<or> d \<in> set cs \<and> d \<noteq> candidate \<and> accepts d)
          \<and> load_of l d \<le> minimum \<and> (\<forall>x \<in> set cs. x \<noteq> candidate \<longrightarrow> accepts x \<longrightarrow> load_of l d \<le> load_of l x))"
        by (rule Cons.IH) (use Cons.prems in auto)
      then obtain s where
        s: "least_accepting l accepts candidate cs minimum selected = Inr s"
          "s = None \<longleftrightarrow> selected = None \<and> (\<forall>c \<in> set cs. c = candidate \<or> \<not> accepts c)"
          "\<And>d. s = Some d \<Longrightarrow> (selected = Some d \<or> d \<in> set cs \<and> d \<noteq> candidate \<and> accepts d)
            \<and> load_of l d \<le> minimum \<and> (\<forall>x \<in> set cs. x \<noteq> candidate \<longrightarrow> accepts x \<longrightarrow> load_of l d \<le> load_of l x)" by (elim exE conjE) auto
      have "load_of l d \<le> load_of l c" if "s = Some d" for d using s(3)[OF that] False' by (auto simp: not_less intro: order.trans)
      then show ?thesis using False False' e Cons.prems(1) s sel by auto
    qed
  qed
qed auto

lemma select_carrier_ok:
  assumes "loads_ok retired l" "\<And>c. c < length (cl_assigned l) \<Longrightarrow> cl_assigned l ! c < - 1"
  shows "\<exists>s l'. select_carrier cursor retired accepts l = Inr (s, l') \<and> loads_ok retired l'
    \<and> cl_assigned l' = cl_assigned l \<and> cl_observed l' = (cl_observed l)[cl_probe l := retired (cl_probe l)]
    \<and> (s = None \<longleftrightarrow> (\<forall>c < length (cl_assigned l). \<not> accepts c))
    \<and> (\<forall>c. s = Some c \<longrightarrow> c < length (cl_assigned l) \<and> accepts c
         \<and> (\<forall>d < length (cl_assigned l). accepts d \<longrightarrow> load_of l' c \<le> load_of l' d))"
proof -
  let ?n = "length (cl_assigned l)"
  from refresh_probe_ok[OF assms(1)] obtain l1 where
    l1: "refresh_probe retired l = Inr l1" "loads_ok retired l1" "cl_assigned l1 = cl_assigned l"
      "cl_observed l1 = (cl_observed l)[cl_probe l := retired (cl_probe l)]" by blast
  have n: "0 < ?n" using assms(1) by (auto simp: loads_ok_def)
  note order = visit_order_set[OF n, of cursor]
  have "\<exists>c. least_loaded l1 (visit_order cursor ?n) = Inr (Some (c, load_of l1 c)) \<and> c \<in> set (visit_order cursor ?n)
      \<and> (\<forall>d \<in> set (visit_order cursor ?n). load_of l1 c \<le> load_of l1 d)"
    by (rule least_loaded_ok[OF l1(2)]) (use order l1(3) n in \<open>auto simp: visit_order_def\<close>)
  then obtain k where k: "least_loaded l1 (visit_order cursor ?n) = Inr (Some (k, load_of l1 k))" "k < ?n"
      "\<And>d. d < ?n \<Longrightarrow> load_of l1 k \<le> load_of l1 d" unfolding order by blast
  show ?thesis
  proof (cases "accepts k")
    case True
    then show ?thesis using l1 k by (auto simp: select_carrier_def Let_def)
  next
    case False
    have small: "load_of l1 c < - 1" if "c < ?n" for c
    proof -
      have "cl_observed l1 ! c \<le> cl_assigned l1 ! c" using l1(2,3) that by (auto simp: loads_ok_def intro: order.trans)
      then have "load_of l1 c \<le> cl_assigned l1 ! c" unfolding load_of_def by (simp add: word_le_nat_alt unat_sub)
      with assms(2)[OF that] l1(3) show ?thesis by simp
    qed
    have "\<exists>s. least_accepting l1 accepts k (visit_order cursor ?n) (- 1) None = Inr s
      \<and> (s = None \<longleftrightarrow> (None :: nat option) = None \<and> (\<forall>c \<in> set (visit_order cursor ?n). c = k \<or> \<not> accepts c))
      \<and> (\<forall>c. s = Some c \<longrightarrow> (None = Some c \<or> c \<in> set (visit_order cursor ?n) \<and> c \<noteq> k \<and> accepts c)
        \<and> load_of l1 c \<le> - 1 \<and> (\<forall>d \<in> set (visit_order cursor ?n). d \<noteq> k \<longrightarrow> accepts d \<longrightarrow> load_of l1 c \<le> load_of l1 d))"
      by (rule least_accepting_ok[OF l1(2)]) (use order l1(3) small in auto)
    then obtain s where s: "least_accepting l1 accepts k (visit_order cursor ?n) (- 1) None = Inr s"
      "s = None \<longleftrightarrow> (\<forall>c < ?n. c = k \<or> \<not> accepts c)"
      "\<And>c. s = Some c \<Longrightarrow> c < ?n \<and> accepts c \<and> (\<forall>d < ?n. d \<noteq> k \<longrightarrow> accepts d \<longrightarrow> load_of l1 c \<le> load_of l1 d)"
      unfolding order by auto
    have "select_carrier cursor retired accepts l = Inr (s, l1)" using l1(1,3) k(1) s(1) False by (simp add: select_carrier_def Let_def)
    moreover have "s = None \<longleftrightarrow> (\<forall>c < ?n. \<not> accepts c)" using s(2) False by auto
    moreover have "\<forall>c. s = Some c \<longrightarrow> c < ?n \<and> accepts c \<and> (\<forall>d < ?n. accepts d \<longrightarrow> load_of l1 c \<le> load_of l1 d)"
      using s(3) False by metis
    ultimately show ?thesis using l1(2-4) by blast
  qed
qed

section \<open>Properties\<close>

text \<open>
  C34. Placement picks a least loaded carrier: with consistent counts a selection does not panic,
  finds a carrier exactly when some carrier accepts work, and the carrier it finds accepts work
  and has the least cached load among those that do. Only one cached count changes, and it
  becomes the true one, so that cached loads never understate a carrier's load.
\<close>

theorem placement_least_loaded:
  assumes "loads_ok retired l" "\<And>c. c < length (cl_assigned l) \<Longrightarrow> cl_assigned l ! c < - 1"
  shows "\<exists>s l'. select_carrier cursor retired accepts l = Inr (s, l') \<and> loads_ok retired l'
    \<and> cl_assigned l' = cl_assigned l \<and> cl_observed l' = (cl_observed l)[cl_probe l := retired (cl_probe l)]
    \<and> (s = None \<longleftrightarrow> (\<forall>c < length (cl_assigned l). \<not> accepts c))
    \<and> (\<forall>c. s = Some c \<longrightarrow> c < length (cl_assigned l) \<and> accepts c
         \<and> (\<forall>d < length (cl_assigned l). accepts d \<longrightarrow> load_of l' c \<le> load_of l' d))"
  by (rule select_carrier_ok[OF assms])

theorem placement_least_loaded_witness:
  "\<exists>l'. select_carrier 2 (\<lambda>c. if c = 0 then 4 else 1) (\<lambda>c. c \<noteq> 1) \<lparr>cl_assigned = [9, 2, 5], cl_observed = [0, 1, 1], cl_probe = 0\<rparr> = Inr (Some 2, l')
    \<and> load_of l' 0 = 5 \<and> load_of l' 2 = 4"
proof -
  let ?l = "\<lparr>cl_assigned = [9, 2, 5], cl_observed = [0, 1, 1], cl_probe = 0\<rparr>"
  let ?r = "\<lambda>c :: nat. if c = 0 then 4 else 1 :: u64"
  have three: "(\<forall>c < 3. P c) \<longleftrightarrow> P 0 \<and> P 1 \<and> P 2" for P :: "nat \<Rightarrow> bool" by (simp add: numeral_3_eq_3 All_less_Suc numeral_2_eq_2 conj_ac)
  have ok: "loads_ok ?r ?l" by (simp add: loads_ok_def three flip: numeral_3_eq_3)
  have "\<forall>c < 3. cl_assigned ?l ! c < - 1" unfolding three by (simp add: word_less_nat_alt unsigned_minus_1_eq_mask mask_eq_exp_minus_1 flip: numeral_3_eq_3)
  then have small: "\<And>c. c < length (cl_assigned ?l) \<Longrightarrow> cl_assigned ?l ! c < - 1" by simp
  from placement_least_loaded[OF ok small, of 2 "\<lambda>c. c \<noteq> 1"] obtain s l' where
    s: "select_carrier 2 ?r (\<lambda>c. c \<noteq> 1) ?l = Inr (s, l')" "cl_assigned l' = [9, 2, 5]" "cl_observed l' = [4, 1, 1]"
      "s = None \<longleftrightarrow> (\<forall>c < (3 :: nat). c = 1)" "\<And>c. s = Some c \<Longrightarrow> c < 3 \<and> c \<noteq> 1 \<and> (\<forall>d < 3. d \<noteq> 1 \<longrightarrow> load_of l' c \<le> load_of l' d)"
    by (auto simp flip: numeral_3_eq_3)
  have loads: "load_of l' 0 = 5" "load_of l' 2 = 4" by (simp_all add: load_of_def s(2,3))
  have "s \<noteq> None" using s(4) by (auto intro: exI[of _ 0])
  then obtain c where c: "s = Some c" by blast
  have "c \<noteq> 0"
  proof
    assume "c = 0"
    with s(5)[OF c] have "load_of l' 0 \<le> load_of l' 2" by simp
    with loads show False by simp
  qed
  with s(5)[OF c] have "c = 2" by linarith
  with s(1) c loads show ?thesis by blast
qed

end
