(* ===== verification/Task_Record.thy ===== *)
theory Task_Record
  imports Prelude
begin

text \<open>
  Tasks as the scheduler and the diagnostics see them: identities, states and records
  (task.rs), and the byte encodings in which the suspension of a running task is published
  (task_progress_state.rs). The panic report of a task is a parameter \<open>'p\<close> of its record.
\<close>

section \<open>Identities and states\<close>

type_synonym carrier_id = nat

datatype suspension_reason =
    YieldNow | JoinTask task_id | ScopeDrain | ParkReason | MutexReason | CondvarReason
  | SemaphoreReason | NotifyReason | ChannelSendReason | ChannelRecvReason | IoRead | IoWrite
  | IoAccept | IoConnect | BlockingReason | DnsReason | FileIo

datatype wake_reason = WokeReady | WokeTimedOut | WokeCancelled | WokeClosed

datatype task_status =
    StatusQueued | StatusReady | StatusRunning | StatusSuspended suspension_reason
  | StatusCompleted | StatusPanicked | StatusAborted

fun is_terminal :: "task_status \<Rightarrow> bool" where
  "is_terminal StatusCompleted = True"
| "is_terminal StatusPanicked = True"
| "is_terminal StatusAborted = True"
| "is_terminal _ = False"

section \<open>Published encodings\<close>

definition RECORD_CODE :: "8 word" where "RECORD_CODE = 0"
definition READY_CODE :: "8 word" where "READY_CODE = 1"

fun encode_reason :: "suspension_reason \<Rightarrow> 8 word \<times> u64" where
  "encode_reason YieldNow = (2, 0)"
| "encode_reason (JoinTask task) = (3, task)"
| "encode_reason ScopeDrain = (4, 0)"
| "encode_reason ParkReason = (5, 0)"
| "encode_reason MutexReason = (6, 0)"
| "encode_reason CondvarReason = (7, 0)"
| "encode_reason SemaphoreReason = (8, 0)"
| "encode_reason NotifyReason = (9, 0)"
| "encode_reason ChannelSendReason = (10, 0)"
| "encode_reason ChannelRecvReason = (11, 0)"
| "encode_reason IoRead = (12, 0)"
| "encode_reason IoWrite = (13, 0)"
| "encode_reason IoAccept = (14, 0)"
| "encode_reason IoConnect = (15, 0)"
| "encode_reason BlockingReason = (16, 0)"
| "encode_reason DnsReason = (17, 0)"
| "encode_reason FileIo = (18, 0)"

text \<open>Decoding a join makes a task identity, which panics when it is zero.\<close>

definition decode_reason :: "8 word \<Rightarrow> u64 \<Rightarrow> suspension_reason option result_p" where
  "decode_reason code task =
     (if code = 2 then Inr (Some YieldNow)
      else if code = 3 then map_sum id (\<lambda>t. Some (JoinTask t)) (task_id_new task)
      else if code = 4 then Inr (Some ScopeDrain)
      else if code = 5 then Inr (Some ParkReason)
      else if code = 6 then Inr (Some MutexReason)
      else if code = 7 then Inr (Some CondvarReason)
      else if code = 8 then Inr (Some SemaphoreReason)
      else if code = 9 then Inr (Some NotifyReason)
      else if code = 10 then Inr (Some ChannelSendReason)
      else if code = 11 then Inr (Some ChannelRecvReason)
      else if code = 12 then Inr (Some IoRead)
      else if code = 13 then Inr (Some IoWrite)
      else if code = 14 then Inr (Some IoAccept)
      else if code = 15 then Inr (Some IoConnect)
      else if code = 16 then Inr (Some BlockingReason)
      else if code = 17 then Inr (Some DnsReason)
      else if code = 18 then Inr (Some FileIo)
      else Inr None)"

fun encode_wake :: "wake_reason \<Rightarrow> 8 word" where
  "encode_wake WokeReady = 1"
| "encode_wake WokeTimedOut = 2"
| "encode_wake WokeCancelled = 3"
| "encode_wake WokeClosed = 4"

definition decode_wake :: "8 word \<Rightarrow> wake_reason option" where
  "decode_wake code =
     (if code = 1 then Some WokeReady else if code = 2 then Some WokeTimedOut
      else if code = 3 then Some WokeCancelled else if code = 4 then Some WokeClosed else None)"

text \<open>Only the identity zero, which no task has, cannot be published.\<close>

fun reason_ok :: "suspension_reason \<Rightarrow> bool" where
  "reason_ok (JoinTask t) \<longleftrightarrow> t \<noteq> 0"
| "reason_ok _ \<longleftrightarrow> True"

lemma decode_encode_reason:
  "reason_ok r \<Longrightarrow> encode_reason r = (c, t) \<Longrightarrow> decode_reason c t = Inr (Some r)"
  by (cases r) (auto simp: decode_reason_def task_id_new_def)

lemma encode_reason_code: "fst (encode_reason r) \<noteq> RECORD_CODE \<and> fst (encode_reason r) \<noteq> READY_CODE"
  by (cases r) (auto simp: RECORD_CODE_def READY_CODE_def)

lemma decode_reason_sound: "decode_reason c t = Inr (Some r) \<Longrightarrow> fst (encode_reason r) = c \<and> reason_ok r"
  by (auto simp: decode_reason_def task_id_new_def split: if_splits)

lemma decode_encode_wake: "decode_wake (encode_wake w) = Some w"
  by (cases w) (auto simp: decode_wake_def)

lemma decode_plain: "decode_reason RECORD_CODE t = Inr None" "decode_reason READY_CODE t = Inr None"
  by (auto simp: decode_reason_def RECORD_CODE_def READY_CODE_def)

section \<open>Task records\<close>

text \<open>
  Text is a list of Unicode scalar values. Rust measures it in UTF-8 bytes and trims the
  characters with the \<open>White_Space\<close> property.
\<close>

type_synonym utf8 = "nat list"

definition char_bytes :: "nat \<Rightarrow> nat" where
  "char_bytes c = (if c < 128 then 1 else if c < 2048 then 2 else if c < 65536 then 3 else 4)"

definition text_len :: "utf8 \<Rightarrow> nat" where
  "text_len t = sum_list (map char_bytes t)"

definition is_whitespace :: "nat \<Rightarrow> bool" where
  "is_whitespace c \<longleftrightarrow>
     9 \<le> c \<and> c \<le> 13 \<or> c = 32 \<or> c = 133 \<or> c = 160 \<or> c = 5760 \<or> 8192 \<le> c \<and> c \<le> 8202
     \<or> c = 8232 \<or> c = 8233 \<or> c = 8239 \<or> c = 8287 \<or> c = 12288"

text \<open>\<open>trim().is_empty()\<close>.\<close>

definition blank :: "utf8 \<Rightarrow> bool" where
  "blank t = list_all is_whitespace t"

text \<open>\<open>TaskOptions\<close> and \<open>TaskRecord\<close>; a cancellation token is named by its domain node.\<close>

record task_options =
  opt_cancellation :: usize
  opt_deadline :: "instant option"

record 'p task_record =
  tr_id :: task_id
  tr_scope :: u64
  tr_parent :: "task_id option"
  tr_options :: "task_options option"
  tr_name :: utf8
  tr_carrier :: carrier_id
  tr_deadline :: "instant option"
  tr_failure :: "task_failure option"
  tr_status :: task_status
  tr_parks :: u64
  tr_last_suspension :: "suspension_reason option"
  tr_last_wake :: "wake_reason option"
  tr_outcome_observed :: bool
  tr_panic :: "'p option"

definition record_options :: "'p task_record \<Rightarrow> task_options result_p" where
  "record_options r = (case tr_options r of None \<Rightarrow> Inl (Panic ''live task options'') | Some options \<Rightarrow> Inr options)"

text \<open>
  What recycling and reusing a cell do to its record: recycling empties it and hands back the
  token of the task; a cell is reused only after that.
\<close>

definition record_recycle :: "'p task_record \<Rightarrow> ('p task_record \<times> usize) result_p" where
  "record_recycle r =
     (if \<not> is_terminal (tr_status r) then Inl (Panic ''recycled task must be terminal'')
      else case tr_options r of
             None \<Rightarrow> Inl (Panic ''live task options'')
           | Some options \<Rightarrow>
               Inr (r\<lparr>tr_name := [], tr_panic := None, tr_options := None\<rparr>, opt_cancellation options))"

definition record_reuse :: "'p task_record \<Rightarrow> 'p task_record \<Rightarrow> 'p task_record result_p" where
  "record_reuse slot r =
     (case tr_options slot of None \<Rightarrow> Inr r | Some _ \<Rightarrow> Inl (Panic ''task cell reused before recycling''))"

lemma recycle_then_reuse: "record_recycle r = Inr (slot, token) \<Longrightarrow> record_reuse slot new = Inr new"
  by (auto simp: record_recycle_def record_reuse_def split: if_splits option.splits)

end
