(* ===== verification/Task_Progress.thy ===== *)
theory Task_Progress
  imports Task_Record
begin

text \<open>
  Published progress of one task (task_progress.rs): what its carrier writes without a lock
  while the task runs, and what a diagnostic reader on another thread makes of it. Counters are
  published every 64 yields, and whenever the task parks or terminates.
\<close>

section \<open>The published cells\<close>

definition COUNTER_BATCH :: u64 where "COUNTER_BATCH = 64"

record task_progress =
  tp_yielded :: bool
  tp_state :: "8 word"
  tp_last_suspension :: "8 word"
  tp_suspension_task :: u64
  tp_last_wake :: "8 word"
  tp_mounts :: u64
  tp_yields :: u64
  tp_parks :: u64

definition progress_new :: task_progress where
  "progress_new = \<lparr>tp_yielded = False, tp_state = RECORD_CODE, tp_last_suspension = RECORD_CODE,
     tp_suspension_task = 0, tp_last_wake = 0, tp_mounts = 0, tp_yields = 0, tp_parks = 0\<rparr>"

definition progress_yield_now :: "task_progress \<Rightarrow> task_progress" where
  "progress_yield_now p = p\<lparr>tp_yielded := True\<rparr>"

definition progress_park :: "task_progress \<Rightarrow> task_progress" where
  "progress_park p = p\<lparr>tp_yielded := False\<rparr>"

definition progress_suspend :: "suspension_reason \<Rightarrow> task_progress \<Rightarrow> task_progress" where
  "progress_suspend reason p =
     (let (code, task) = encode_reason reason in
      p\<lparr>tp_suspension_task := task, tp_last_suspension := code, tp_parks := tp_parks p + 1, tp_state := code\<rparr>)"

definition progress_wake :: "wake_reason \<Rightarrow> task_progress \<Rightarrow> task_progress" where
  "progress_wake reason p = p\<lparr>tp_last_wake := encode_wake reason, tp_state := READY_CODE\<rparr>"

definition progress_publish :: "u64 \<Rightarrow> u64 \<Rightarrow> task_progress \<Rightarrow> task_progress" where
  "progress_publish mounts yields p = p\<lparr>tp_mounts := mounts, tp_yields := yields\<rparr>"

text \<open>
  A reader loads the state byte and then, for a join, the task it names. The two loads are
  arguments here, because the carrier may store in between.
\<close>

definition status_loaded :: "task_status \<Rightarrow> bool \<Rightarrow> 8 word \<Rightarrow> u64 \<Rightarrow> task_status result_p" where
  "status_loaded retained running state task =
     (if is_terminal retained \<or> retained = StatusQueued then Inr retained
      else if state = READY_CODE then Inr (if running then StatusRunning else StatusReady)
      else if state = RECORD_CODE then
        Inr (if retained = StatusReady \<or> retained = StatusRunning then (if running then StatusRunning else StatusReady)
             else retained)
      else case decode_reason state task of
             Inl p \<Rightarrow> Inl p
           | Inr None \<Rightarrow> Inl (Panic ''published task suspension reason'')
           | Inr (Some reason) \<Rightarrow> Inr (StatusSuspended reason))"

definition progress_status :: "task_status \<Rightarrow> bool \<Rightarrow> task_progress \<Rightarrow> task_status result_p" where
  "progress_status retained running p = status_loaded retained running (tp_state p) (tp_suspension_task p)"

definition progress_parks :: "u64 \<Rightarrow> task_progress \<Rightarrow> u64" where
  "progress_parks retained p = max retained (tp_parks p)"

definition progress_last_suspension :: "suspension_reason option \<Rightarrow> task_progress \<Rightarrow> suspension_reason option result_p" where
  "progress_last_suspension retained p =
     (if tp_yielded p then Inr (Some YieldNow)
      else map_sum id (\<lambda>r. case r of None \<Rightarrow> retained | Some s \<Rightarrow> Some s)
             (decode_reason (tp_last_suspension p) (tp_suspension_task p)))"

definition progress_last_wake :: "wake_reason option \<Rightarrow> task_progress \<Rightarrow> wake_reason option" where
  "progress_last_wake retained p = (case decode_wake (tp_last_wake p) of None \<Rightarrow> retained | Some w \<Rightarrow> Some w)"

section \<open>The carrier's side\<close>

text \<open>The task a carrier has mounted, zero for none.\<close>

definition carrier_mounted :: "u64 \<Rightarrow> task_id option" where
  "carrier_mounted mounted = (if mounted = 0 then None else Some mounted)"

record progress_writer =
  pw_non_yield_mounts :: u64
  pw_yields :: u64
  pw_yielded :: bool
  pw_started :: bool

definition writer_new :: progress_writer where
  "writer_new = \<lparr>pw_non_yield_mounts = 0, pw_yields = 0, pw_yielded = False, pw_started = False\<rparr>"

definition writer_mounts :: "progress_writer \<Rightarrow> u64" where
  "writer_mounts w = pw_yields w + pw_non_yield_mounts w"

definition writer_mount :: "task_id \<Rightarrow> progress_writer \<Rightarrow> bool \<times> progress_writer \<times> u64" where
  "writer_mount task w = (\<not> pw_started w, w\<lparr>pw_started := True\<rparr>, task)"

record progress_update =
  pu_first_yield :: bool
  pu_counters :: "(u64 \<times> u64) option"

text \<open>A yield publishes when it is the first one since the last park, or every 64 yields.\<close>

definition writer_yield_now :: "progress_writer \<Rightarrow> progress_update option \<times> progress_writer" where
  "writer_yield_now w =
     (let w = w\<lparr>pw_yields := pw_yields w + 1\<rparr>;
          counters = (if pw_yields w mod COUNTER_BATCH = 0 then Some (writer_mounts w, pw_yields w) else None);
          first_yield = (\<not> pw_yielded w) in
      (if first_yield \<or> counters \<noteq> None then Some \<lparr>pu_first_yield = first_yield, pu_counters = counters\<rparr> else None,
       w\<lparr>pw_yielded := True\<rparr>))"

definition progress_apply :: "progress_update \<Rightarrow> task_progress \<Rightarrow> task_progress" where
  "progress_apply u p =
     (let p = (case pu_counters u of None \<Rightarrow> p | Some (mounts, yields) \<Rightarrow> progress_publish mounts yields p) in
      if pu_first_yield u then progress_yield_now p else p)"

definition finish_non_yield_mount :: "progress_writer \<Rightarrow> progress_writer" where
  "finish_non_yield_mount w = w\<lparr>pw_non_yield_mounts := pw_non_yield_mounts w + 1\<rparr>"

definition writer_unmount :: "task_id \<Rightarrow> u64 \<Rightarrow> progress_writer \<Rightarrow> task_progress \<Rightarrow> progress_writer \<times> task_progress" where
  "writer_unmount task mounted w p =
     (let w = (if carrier_mounted mounted = Some task then finish_non_yield_mount w else w) in
      (w, progress_publish (writer_mounts w) (pw_yields w) p))"

definition writer_park :: "progress_writer \<Rightarrow> task_progress \<Rightarrow> progress_writer \<times> task_progress" where
  "writer_park w p =
     (let w = finish_non_yield_mount w;
          p = progress_publish (writer_mounts w) (pw_yields w) p in
      (w\<lparr>pw_yielded := False\<rparr>, if pw_yielded w then progress_park p else p))"

definition writer_reset :: "progress_writer \<Rightarrow> progress_writer" where
  "writer_reset w = w\<lparr>pw_non_yield_mounts := 0, pw_yields := 0, pw_yielded := False, pw_started := False\<rparr>"

definition progress_reset :: "task_progress \<Rightarrow> task_progress" where
  "progress_reset p = p\<lparr>tp_yielded := False, tp_state := RECORD_CODE, tp_last_suspension := RECORD_CODE,
     tp_suspension_task := 0, tp_last_wake := 0, tp_mounts := 0, tp_yields := 0, tp_parks := 0\<rparr>"

lemma reset_new: "writer_reset w = writer_new" "progress_reset p = progress_new"
  by (simp_all add: writer_reset_def writer_new_def progress_reset_def progress_new_def)

section \<open>Histories\<close>

text \<open>
  What the carrier of a task does to its progress, in order: it mounts the task, the task
  yields, parks with a reason, is woken, or leaves for good; in between the carrier mounts other
  tasks or none. The two counts are of the history, not of the program.
\<close>

datatype progress_event =
    EvMount | EvYield | EvPark suspension_reason | EvWake wake_reason | EvUnmount | EvOther u64

record progress_run =
  pr_writer :: progress_writer
  pr_progress :: task_progress
  pr_mounted :: u64
  pr_mount_count :: nat
  pr_yield_count :: nat

definition run_new :: progress_run where
  "run_new = \<lparr>pr_writer = writer_new, pr_progress = progress_new, pr_mounted = 0, pr_mount_count = 0, pr_yield_count = 0\<rparr>"

fun progress_step :: "task_id \<Rightarrow> progress_event \<Rightarrow> progress_run \<Rightarrow> progress_run option" where
  "progress_step task EvMount s =
     (if pr_mounted s = task then None
      else let (first, w, mounted) = writer_mount task (pr_writer s) in
           Some (s\<lparr>pr_writer := w, pr_mounted := mounted, pr_mount_count := pr_mount_count s + 1\<rparr>))"
| "progress_step task EvYield s =
     (if pr_mounted s \<noteq> task then None
      else let (update, w) = writer_yield_now (pr_writer s) in
           Some (s\<lparr>pr_writer := w, pr_mounted := 0, pr_yield_count := pr_yield_count s + 1,
                   pr_progress := (case update of None \<Rightarrow> pr_progress s | Some u \<Rightarrow> progress_apply u (pr_progress s))\<rparr>))"
| "progress_step task (EvPark reason) s =
     (if pr_mounted s \<noteq> task \<or> \<not> reason_ok reason then None
      else let (w, p) = writer_park (pr_writer s) (pr_progress s) in
           Some (s\<lparr>pr_writer := w, pr_progress := progress_suspend reason p, pr_mounted := 0\<rparr>))"
| "progress_step task (EvWake reason) s = Some (s\<lparr>pr_progress := progress_wake reason (pr_progress s)\<rparr>)"
| "progress_step task EvUnmount s =
     (let (w, p) = writer_unmount task (pr_mounted s) (pr_writer s) (pr_progress s) in
      Some (s\<lparr>pr_writer := w, pr_progress := p, pr_mounted := 0\<rparr>))"
| "progress_step task (EvOther other) s =
     (if pr_mounted s = task \<or> other = task then None else Some (s\<lparr>pr_mounted := other\<rparr>))"

inductive progress_reach :: "task_id \<Rightarrow> progress_event list \<Rightarrow> progress_run \<Rightarrow> bool" for task :: task_id where
  start: "progress_reach task [] run_new"
| event: "progress_reach task evs s \<Longrightarrow> progress_step task ev s = Some s' \<Longrightarrow> progress_reach task (evs @ [ev]) s'"

text \<open>
  What a history says: whether the task has left the carrier for a park or for good, what it
  is parked on, its last park, its last suspension, its last wake and its number of parks.
\<close>

fun settled :: "progress_event list \<Rightarrow> bool" where
  "settled [] \<longleftrightarrow> False"
| "settled (ev # evs) \<longleftrightarrow>
     settled evs \<or> ((\<exists>r. ev = EvPark r) \<or> ev = EvUnmount) \<and> (\<forall>e \<in> set evs. e \<noteq> EvMount)"

definition park_of :: "progress_event \<Rightarrow> suspension_reason option" where
  "park_of ev = (case ev of EvPark r \<Rightarrow> Some r | _ \<Rightarrow> None)"

definition next_parked :: "suspension_reason option \<Rightarrow> progress_event \<Rightarrow> suspension_reason option" where
  "next_parked r ev = (case ev of EvPark r' \<Rightarrow> Some r' | EvWake _ \<Rightarrow> None | _ \<Rightarrow> r)"

definition next_suspension :: "suspension_reason option \<Rightarrow> progress_event \<Rightarrow> suspension_reason option" where
  "next_suspension r ev = (case ev of EvPark r' \<Rightarrow> Some r' | EvYield \<Rightarrow> Some YieldNow | _ \<Rightarrow> r)"

definition next_park :: "suspension_reason option \<Rightarrow> progress_event \<Rightarrow> suspension_reason option" where
  "next_park r ev = (case ev of EvPark r' \<Rightarrow> Some r' | _ \<Rightarrow> r)"

definition next_wake :: "wake_reason option \<Rightarrow> progress_event \<Rightarrow> wake_reason option" where
  "next_wake w ev = (case ev of EvWake w' \<Rightarrow> Some w' | _ \<Rightarrow> w)"

definition parked_as :: "progress_event list \<Rightarrow> suspension_reason option" where
  "parked_as evs = foldl next_parked None evs"

definition last_suspension :: "progress_event list \<Rightarrow> suspension_reason option" where
  "last_suspension evs = foldl next_suspension None evs"

definition last_park :: "progress_event list \<Rightarrow> suspension_reason option" where
  "last_park evs = foldl next_park None evs"

definition last_wake :: "progress_event list \<Rightarrow> wake_reason option" where
  "last_wake evs = foldl next_wake None evs"

definition park_count :: "progress_event list \<Rightarrow> nat" where
  "park_count evs = length (filter (\<lambda>ev. park_of ev \<noteq> None) evs)"

lemma settled_snoc: "settled (evs @ [ev]) \<longleftrightarrow> (\<exists>r. ev = EvPark r) \<or> ev = EvUnmount \<or> settled evs \<and> ev \<noteq> EvMount"
  by (induction evs) auto

named_theorems history

lemma history_snoc [history]:
  "parked_as (evs @ [ev]) = next_parked (parked_as evs) ev"
  "last_suspension (evs @ [ev]) = next_suspension (last_suspension evs) ev"
  "last_park (evs @ [ev]) = next_park (last_park evs) ev"
  "last_wake (evs @ [ev]) = next_wake (last_wake evs) ev"
  "park_count (evs @ [ev]) = (if park_of ev = None then park_count evs else park_count evs + 1)"
  by (simp_all add: parked_as_def last_suspension_def last_park_def last_wake_def park_count_def)

lemma history_nil [history]:
  "parked_as [] = None" "last_suspension [] = None" "last_park [] = None" "last_wake [] = None" "park_count [] = 0"
  by (simp_all add: parked_as_def last_suspension_def last_park_def last_wake_def park_count_def)

section \<open>Counters\<close>

lemma batch_boundary: "(of_nat n :: u64) mod COUNTER_BATCH = 0 \<longleftrightarrow> n mod 64 = 0"
proof -
  have "unat ((of_nat n :: u64) mod COUNTER_BATCH) = n mod 2 ^ 64 mod 64"
    by (simp add: unat_mod_distrib COUNTER_BATCH_def unsigned_of_nat take_bit_eq_mod)
  also have "\<dots> = n mod 64" by (simp add: mod_mod_cancel)
  finally show ?thesis by (simp add: unat_eq_zero[symmetric] del: unat_eq_zero)
qed

text \<open>
  \<open>k\<close> yields, and as many mounts, are not published yet. The mounts that count are those that
  have ended.
\<close>

definition counters_ok :: "task_id \<Rightarrow> nat \<Rightarrow> progress_run \<Rightarrow> bool" where
  "counters_ok task k s \<longleftrightarrow>
     (let ended = pr_mount_count s - (if pr_mounted s = task then 1 else 0) in
      (pr_mounted s = task \<longrightarrow> 0 < pr_mount_count s) \<and> pr_yield_count s \<le> ended
      \<and> pw_yields (pr_writer s) = of_nat (pr_yield_count s) \<and> writer_mounts (pr_writer s) = of_nat ended
      \<and> k \<le> pr_yield_count s mod 64
      \<and> tp_mounts (pr_progress s) = of_nat (ended - k) \<and> tp_yields (pr_progress s) = of_nat (pr_yield_count s - k))"

lemma counters_start: "task \<noteq> 0 \<Longrightarrow> counters_ok task 0 run_new"
  by (simp add: counters_ok_def run_new_def writer_new_def progress_new_def writer_mounts_def)

lemma counters_yield:
  assumes "task \<noteq> 0" "counters_ok task k s" "progress_step task EvYield s = Some s'"
  shows "counters_ok task (if (pr_yield_count s + 1) mod 64 = 0 then 0 else k + 1) s'"
proof -
  let ?Y = "pr_yield_count s" and ?M = "pr_mount_count s"
  have m: "pr_mounted s = task" "0 < ?M" "?Y \<le> ?M - 1" "k \<le> ?Y mod 64" "k \<le> ?Y"
    and w: "pw_yields (pr_writer s) = of_nat ?Y" "pw_yields (pr_writer s) + pw_non_yield_mounts (pr_writer s) = of_nat (?M - 1)"
    and p: "tp_mounts (pr_progress s) = of_nat (?M - 1 - k)" "tp_yields (pr_progress s) = of_nat (?Y - k)"
    using assms mod_le_divisor[of 64 ?Y] order.trans[OF _ mod_less_eq_dividend[of ?Y 64]] by (auto simp: counters_ok_def Let_def writer_mounts_def split: if_splits)
  have b: "pw_yields (pr_writer s) + 1 = of_nat (?Y + 1)" using w(1) by simp
  have all: "pw_yields (pr_writer s) + 1 + pw_non_yield_mounts (pr_writer s) = of_nat ?M"
  proof -
    have "pw_yields (pr_writer s) + 1 + pw_non_yield_mounts (pr_writer s) = of_nat (?M - 1) + 1" using w(2) by (simp add: algebra_simps)
    also have "\<dots> = of_nat (?M - 1 + 1)" by simp
    finally show ?thesis using m(2) by simp
  qed
  have batch: "(pw_yields (pr_writer s) + 1) mod COUNTER_BATCH = 0 \<longleftrightarrow> (?Y + 1) mod 64 = 0" unfolding b by (rule batch_boundary)
  show ?thesis
  proof (cases "(?Y + 1) mod 64 = 0")
    case True
    then show ?thesis using assms(1,3) m batch all b
      by (auto simp: counters_ok_def writer_yield_now_def Let_def writer_mounts_def progress_apply_def progress_publish_def progress_yield_now_def split: if_splits)
  next
    case False
    then have "(?Y + 1) mod 64 = ?Y mod 64 + 1" by (auto simp: mod_Suc split: if_splits)
    moreover have "?M - 1 - k = ?M - (k + 1)" "?Y + 1 - (k + 1) = ?Y - k" by auto
    ultimately show ?thesis using False assms(1,3) m batch all b p
      by (auto simp: counters_ok_def writer_yield_now_def Let_def writer_mounts_def progress_apply_def progress_publish_def progress_yield_now_def split: if_splits)
  qed
qed

lemma ended_mount:
  assumes "counters_ok task k s" "pr_mounted s = task"
  shows "pw_yields (pr_writer s) + (pw_non_yield_mounts (pr_writer s) + 1) = of_nat (pr_mount_count s)"
proof -
  have "pw_yields (pr_writer s) + pw_non_yield_mounts (pr_writer s) = of_nat (pr_mount_count s - 1)"
    using assms by (auto simp: counters_ok_def Let_def writer_mounts_def)
  then have "pw_yields (pr_writer s) + (pw_non_yield_mounts (pr_writer s) + 1) = of_nat (pr_mount_count s - 1) + 1"
    by (metis add.assoc)
  also have "\<dots> = of_nat (pr_mount_count s - 1 + 1)" by simp
  also have "\<dots> = of_nat (pr_mount_count s)" using assms by (simp add: counters_ok_def Let_def)
  finally show ?thesis .
qed

lemma counters_park:
  assumes "task \<noteq> 0" "counters_ok task k s" "progress_step task (EvPark r) s = Some s'"
  shows "counters_ok task 0 s'"
  using assms ended_mount[OF assms(2)]
  by (auto simp: counters_ok_def writer_park_def Let_def writer_mounts_def finish_non_yield_mount_def progress_publish_def progress_park_def progress_suspend_def split: if_splits prod.splits)

lemma counters_unmount:
  assumes "task \<noteq> 0" "counters_ok task k s" "progress_step task EvUnmount s = Some s'"
  shows "counters_ok task 0 s'"
  using assms ended_mount[OF assms(2)]
  by (auto simp: counters_ok_def writer_unmount_def carrier_mounted_def Let_def writer_mounts_def finish_non_yield_mount_def progress_publish_def split: if_splits)

lemma counters_other:
  assumes "counters_ok task k s" "progress_step task ev s = Some s'" "ev = EvMount \<or> (\<exists>w. ev = EvWake w) \<or> (\<exists>t. ev = EvOther t)"
  shows "counters_ok task k s'"
  using assms(3)
proof (elim disjE exE)
  assume "ev = EvMount"
  then have "pr_mounted s \<noteq> task" "s' = s\<lparr>pr_writer := pr_writer s\<lparr>pw_started := True\<rparr>, pr_mounted := task, pr_mount_count := pr_mount_count s + 1\<rparr>"
    using assms(2) by (auto simp: writer_mount_def split: if_splits)
  then show ?thesis using assms(1) by (auto simp: counters_ok_def Let_def writer_mounts_def)
next
  fix w assume "ev = EvWake w"
  then have "s' = s\<lparr>pr_progress := progress_wake w (pr_progress s)\<rparr>" using assms(2) by simp
  then show ?thesis using assms(1) by (simp add: counters_ok_def Let_def progress_wake_def)
next
  fix t assume "ev = EvOther t"
  then have "pr_mounted s \<noteq> task" "t \<noteq> task" "s' = s\<lparr>pr_mounted := t\<rparr>" using assms(2) by (auto split: if_splits)
  then show ?thesis using assms(1) by (simp add: counters_ok_def Let_def)
qed

lemma counters_step:
  assumes "task \<noteq> 0" "counters_ok task k s" "progress_step task ev s = Some s'"
  shows "\<exists>k'. counters_ok task k' s' \<and> ((\<exists>r. ev = EvPark r) \<or> ev = EvUnmount \<longrightarrow> k' = 0) \<and> (ev \<noteq> EvYield \<and> k = 0 \<longrightarrow> k' = 0)"
proof (cases ev)
  case EvYield
  then show ?thesis using counters_yield[OF assms(1,2)] assms(3) by (intro exI conjI) auto
next
  case (EvPark r)
  then show ?thesis using counters_park[OF assms(1,2)] assms(3) by blast
next
  case EvUnmount
  then show ?thesis using counters_unmount[OF assms(1,2)] assms(3) by blast
next
  case EvMount
  then show ?thesis using counters_other[OF assms(2,3)] by auto
next
  case (EvWake w)
  then show ?thesis using counters_other[OF assms(2,3)] by auto
next
  case (EvOther t)
  then show ?thesis using counters_other[OF assms(2,3)] by auto
qed

lemma settled_unmounted:
  assumes "progress_reach task evs s" "task \<noteq> 0"
  shows "settled evs \<longrightarrow> pr_mounted s \<noteq> task"
  using assms(1)
proof (induction rule: progress_reach.induct)
  case (event evs s ev s')
  then show ?case using assms(2) by (cases ev) (auto simp: settled_snoc split: if_splits prod.splits)
qed simp

lemma counters_reach:
  assumes "progress_reach task evs s" "task \<noteq> 0"
  shows "\<exists>k. counters_ok task k s \<and> (settled evs \<longrightarrow> k = 0)"
  using assms(1)
proof (induction rule: progress_reach.induct)
  case start
  show ?case using counters_start[OF assms(2)] by auto
next
  case (event evs s ev s')
  then obtain k where k: "counters_ok task k s" "settled evs \<longrightarrow> k = 0" by blast
  have yield: "ev = EvYield \<Longrightarrow> \<not> settled evs"
    using settled_unmounted[OF event.hyps(1) assms(2)] event.hyps(2) by (auto split: if_splits)
  from counters_step[OF assms(2) k(1) event.hyps(2)] obtain k' where
    "counters_ok task k' s'" "(\<exists>r. ev = EvPark r) \<or> ev = EvUnmount \<longrightarrow> k' = 0" "ev \<noteq> EvYield \<and> k = 0 \<longrightarrow> k' = 0" by blast
  then show ?case using k(2) yield by (auto simp: settled_snoc)
qed

section \<open>What a reader sees\<close>

definition progress_says :: "progress_event list \<Rightarrow> progress_run \<Rightarrow> bool" where
  "progress_says evs s \<longleftrightarrow>
     tp_yielded (pr_progress s) = pw_yielded (pr_writer s)
     \<and> last_suspension evs = (if pw_yielded (pr_writer s) then Some YieldNow else last_park evs)
     \<and> (tp_last_suspension (pr_progress s), tp_suspension_task (pr_progress s))
        = (case last_park evs of None \<Rightarrow> (RECORD_CODE, 0) | Some r \<Rightarrow> encode_reason r)
     \<and> (\<forall>r. last_park evs = Some r \<longrightarrow> reason_ok r)
     \<and> (case parked_as evs of
          Some r \<Rightarrow> last_park evs = Some r \<and> tp_state (pr_progress s) = fst (encode_reason r)
        | None \<Rightarrow> tp_state (pr_progress s) = RECORD_CODE \<or> tp_state (pr_progress s) = READY_CODE)
     \<and> tp_last_wake (pr_progress s) = (case last_wake evs of None \<Rightarrow> 0 | Some w \<Rightarrow> encode_wake w)
     \<and> tp_parks (pr_progress s) = of_nat (park_count evs)"

lemma says_start: "progress_says [] run_new"
  by (simp add: progress_says_def run_new_def writer_new_def progress_new_def history)

lemma says_step:
  assumes "progress_says evs s" "progress_step task ev s = Some s'"
  shows "progress_says (evs @ [ev]) s'"
proof (cases ev)
  case EvMount
  then have s': "s' = s\<lparr>pr_writer := pr_writer s\<lparr>pw_started := True\<rparr>, pr_mounted := task, pr_mount_count := pr_mount_count s + 1\<rparr>"
    using assms(2) by (auto simp: writer_mount_def split: if_splits)
  show ?thesis using assms(1) unfolding s' EvMount
    by (auto simp: progress_says_def history next_parked_def next_suspension_def next_park_def next_wake_def park_of_def split: option.splits)
next
  case EvYield
  obtain u w where uw: "writer_yield_now (pr_writer s) = (u, w)" by fastforce
  then have s': "s' = s\<lparr>pr_writer := w, pr_mounted := 0, pr_yield_count := pr_yield_count s + 1,
      pr_progress := (case u of None \<Rightarrow> pr_progress s | Some u \<Rightarrow> progress_apply u (pr_progress s))\<rparr>"
    using assms(2) EvYield by (auto split: if_splits)
  have w: "pw_yielded w" using uw by (auto simp: writer_yield_now_def Let_def)
  have p: "tp_yielded (pr_progress s')" "tp_state (pr_progress s') = tp_state (pr_progress s)"
    "tp_last_suspension (pr_progress s') = tp_last_suspension (pr_progress s)"
    "tp_suspension_task (pr_progress s') = tp_suspension_task (pr_progress s)"
    "tp_last_wake (pr_progress s') = tp_last_wake (pr_progress s)" "tp_parks (pr_progress s') = tp_parks (pr_progress s)"
    using assms(1) uw unfolding s'
    by (auto simp: progress_says_def writer_yield_now_def Let_def progress_apply_def progress_publish_def progress_yield_now_def split: if_splits option.splits)
  show ?thesis using assms(1) w p unfolding progress_says_def EvYield
    by (auto simp: s' history next_parked_def next_suspension_def next_park_def next_wake_def park_of_def split: option.splits)
next
  case (EvPark r)
  obtain w p where wp: "writer_park (pr_writer s) (pr_progress s) = (w, p)" by fastforce
  then have s': "reason_ok r" "s' = s\<lparr>pr_writer := w, pr_progress := progress_suspend r p, pr_mounted := 0\<rparr>"
    using assms(2) EvPark by (auto split: if_splits)
  have p: "tp_yielded p = False" "pw_yielded w = False" "tp_last_wake p = tp_last_wake (pr_progress s)" "tp_parks p = tp_parks (pr_progress s)"
    using assms(1) wp by (auto simp: writer_park_def Let_def progress_says_def finish_non_yield_mount_def progress_publish_def progress_park_def)
  show ?thesis using assms(1) p s'(1) unfolding progress_says_def s'(2) EvPark
    by (auto simp: history next_parked_def next_suspension_def next_park_def next_wake_def park_of_def progress_suspend_def split: prod.splits)
next
  case (EvWake v)
  then have s': "s' = s\<lparr>pr_progress := progress_wake v (pr_progress s)\<rparr>" using assms(2) by simp
  show ?thesis using assms(1) unfolding s' EvWake
    by (auto simp: progress_says_def history next_parked_def next_suspension_def next_park_def next_wake_def park_of_def progress_wake_def split: option.splits)
next
  case EvUnmount
  obtain w p where wp: "writer_unmount task (pr_mounted s) (pr_writer s) (pr_progress s) = (w, p)" by fastforce
  then have s': "s' = s\<lparr>pr_writer := w, pr_progress := p, pr_mounted := 0\<rparr>" using assms(2) EvUnmount by auto
  have "pw_yielded w = pw_yielded (pr_writer s)" "tp_yielded p = tp_yielded (pr_progress s)" "tp_state p = tp_state (pr_progress s)"
    "tp_last_suspension p = tp_last_suspension (pr_progress s)" "tp_suspension_task p = tp_suspension_task (pr_progress s)"
    "tp_last_wake p = tp_last_wake (pr_progress s)" "tp_parks p = tp_parks (pr_progress s)"
    using wp by (auto simp: writer_unmount_def Let_def finish_non_yield_mount_def progress_publish_def split: if_splits)
  then show ?thesis using assms(1) unfolding progress_says_def s' EvUnmount
    by (auto simp: history next_parked_def next_suspension_def next_park_def next_wake_def park_of_def split: option.splits)
next
  case (EvOther t)
  then have s': "s' = s\<lparr>pr_mounted := t\<rparr>" using assms(2) by (auto split: if_splits)
  show ?thesis using assms(1) unfolding s' EvOther
    by (auto simp: progress_says_def history next_parked_def next_suspension_def next_park_def next_wake_def park_of_def split: option.splits)
qed

lemma says_reach: "progress_reach task evs s \<Longrightarrow> progress_says evs s"
  by (induction rule: progress_reach.induct) (auto intro: says_start says_step)

lemma says_park:
  assumes "progress_says evs s" "last_park evs = Some r"
  shows "reason_ok r" "tp_suspension_task (pr_progress s) = snd (encode_reason r)"
proof -
  show "reason_ok r" using assms by (simp add: progress_says_def)
  have "(tp_last_suspension (pr_progress s), tp_suspension_task (pr_progress s)) = encode_reason r"
    using assms by (simp add: progress_says_def)
  then show "tp_suspension_task (pr_progress s) = snd (encode_reason r)" by (metis snd_conv)
qed

lemma park_possible:
  assumes "pr_mounted s = task" "reason_ok r"
  shows "\<exists>s'. progress_step task (EvPark r) s = Some s' \<and> pr_mounted s' = 0"
  using assms by (cases "writer_park (pr_writer s) (pr_progress s)") simp

lemma reader_status:
  assumes "progress_says evs s" "\<not> is_terminal retained" "retained \<noteq> StatusQueued"
  shows "status_loaded retained running (tp_state (pr_progress s)) task =
    (case parked_as evs of
       Some r \<Rightarrow> (if (\<exists>t. r = JoinTask t) \<and> task = 0 then Inl (Panic ''task identity zero is reserved'')
                 else Inr (StatusSuspended (case r of JoinTask t \<Rightarrow> JoinTask task | _ \<Rightarrow> r)))
     | None \<Rightarrow> status_loaded retained running (tp_state (pr_progress s)) 0)"
proof (cases "parked_as evs")
  case None
  then show ?thesis using assms by (auto simp: progress_says_def status_loaded_def RECORD_CODE_def READY_CODE_def)
next
  case (Some r)
  then have "tp_state (pr_progress s) = fst (encode_reason r)" using assms(1) by (simp add: progress_says_def)
  then show ?thesis using Some assms(2,3)
    by (cases r) (simp_all add: status_loaded_def RECORD_CODE_def READY_CODE_def decode_reason_def task_id_new_def)
qed

section \<open>Properties\<close>

text \<open>
  C35. The published counters trail the true ones by at most 64 mounts and 63 yields, and are
  exact once the task has parked or terminated, until it is mounted again.
\<close>

theorem progress_lag:
  assumes "progress_reach task evs s" "task \<noteq> 0" "pr_mount_count s < 2 ^ 64"
  shows "unat (tp_mounts (pr_progress s)) \<le> pr_mount_count s \<and> pr_mount_count s \<le> unat (tp_mounts (pr_progress s)) + 64
    \<and> unat (tp_yields (pr_progress s)) \<le> pr_yield_count s \<and> pr_yield_count s \<le> unat (tp_yields (pr_progress s)) + 63
    \<and> (settled evs \<longrightarrow> unat (tp_mounts (pr_progress s)) = pr_mount_count s \<and> unat (tp_yields (pr_progress s)) = pr_yield_count s)"
proof -
  from counters_reach[OF assms(1,2)] obtain k where k: "counters_ok task k s" "settled evs \<longrightarrow> k = 0" by blast
  let ?e = "pr_mount_count s - (if pr_mounted s = task then 1 else 0)"
  have c: "pr_yield_count s \<le> ?e" "k \<le> pr_yield_count s mod 64" "tp_mounts (pr_progress s) = of_nat (?e - k)"
    "tp_yields (pr_progress s) = of_nat (pr_yield_count s - k)"
    using k(1) unfolding counters_ok_def Let_def by blast+
  have b: "?e - k < 2 ^ 64" "pr_yield_count s - k < 2 ^ 64" using c(1) assms(3) by (auto split: if_splits)
  have u: "unat (tp_mounts (pr_progress s)) = ?e - k" "unat (tp_yields (pr_progress s)) = pr_yield_count s - k"
    unfolding c(3,4) using b by (simp_all add: unsigned_of_nat take_bit_nat_eq_self)
  have "k \<le> 63" "k \<le> pr_yield_count s"
    using c(2) mod_less_divisor[of 64 "pr_yield_count s"] mod_less_eq_dividend[of "pr_yield_count s" 64] by linarith+
  moreover have "settled evs \<longrightarrow> pr_mounted s \<noteq> task" by (rule settled_unmounted[OF assms(1,2)])
  ultimately show ?thesis using u c(1) k(2) by auto
qed

theorem progress_lag_witness:
  "\<exists>s. progress_reach 5 [EvMount, EvYield, EvMount] s \<and> unat (tp_mounts (pr_progress s)) = 0 \<and> pr_mount_count s = 2
    \<and> unat (tp_yields (pr_progress s)) + 63 \<ge> pr_yield_count s"
proof -
  let ?s = "run_new\<lparr>pr_writer := writer_new\<lparr>pw_started := True\<rparr>, pr_mounted := 5, pr_mount_count := 1\<rparr>"
  have 1: "progress_reach 5 [EvMount] ?s"
    using event[OF start, of 5 EvMount ?s] by (simp add: run_new_def writer_new_def writer_mount_def)
  let ?s2 = "?s\<lparr>pr_writer := writer_new\<lparr>pw_yields := 1, pw_yielded := True, pw_started := True\<rparr>, pr_mounted := 0, pr_yield_count := 1,
    pr_progress := progress_new\<lparr>tp_yielded := True\<rparr>\<rparr>"
  have 2: "progress_reach 5 [EvMount, EvYield] ?s2"
    using event[OF 1, of EvYield ?s2]
    by (simp add: run_new_def writer_new_def writer_yield_now_def progress_apply_def progress_yield_now_def COUNTER_BATCH_def Let_def)
  let ?s3 = "?s2\<lparr>pr_mounted := 5, pr_mount_count := 2\<rparr>"
  have 3: "progress_reach 5 [EvMount, EvYield, EvMount] ?s3"
    using event[OF 2, of EvMount ?s3] by (simp add: run_new_def writer_new_def writer_mount_def)
  have "(5 :: u64) \<noteq> 0" "pr_mount_count ?s3 < 2 ^ 64" by simp_all
  from progress_lag[OF 3 this] 3 show ?thesis by (intro exI[of _ ?s3]) (simp add: progress_new_def)
qed

text \<open>
  A reader that is not overtaken by the carrier sees the task's history: its status is the
  reason it is parked on, or runnable once it was woken; its last suspension is the last yield
  or park, whichever came later, although only the first yield after a park is published; and
  its last wake and its park count are exact.
\<close>

theorem progress_observed:
  assumes "progress_reach task evs s"
  shows "progress_status StatusReady running (pr_progress s)
      = Inr (case parked_as evs of Some r \<Rightarrow> StatusSuspended r | None \<Rightarrow> if running then StatusRunning else StatusReady)
    \<and> progress_last_suspension None (pr_progress s) = Inr (last_suspension evs)
    \<and> progress_last_wake None (pr_progress s) = last_wake evs
    \<and> progress_parks 0 (pr_progress s) = of_nat (park_count evs)"
proof -
  note says = says_reach[OF assms]
  have park: "last_park evs = Some r \<Longrightarrow> decode_reason (tp_last_suspension (pr_progress s)) (tp_suspension_task (pr_progress s)) = Inr (Some r)" for r
    using says decode_encode_reason[of r] by (auto simp: progress_says_def)
  have "progress_status StatusReady running (pr_progress s)
      = Inr (case parked_as evs of Some r \<Rightarrow> StatusSuspended r | None \<Rightarrow> if running then StatusRunning else StatusReady)"
  proof (cases "parked_as evs")
    case None
    then show ?thesis using says by (auto simp: progress_says_def progress_status_def status_loaded_def)
  next
    case (Some r)
    then have "last_park evs = Some r" using says by (simp add: progress_says_def)
    note says_park[OF says this]
    then show ?thesis using Some reader_status[OF says, of StatusReady running "tp_suspension_task (pr_progress s)"]
      by (cases r) (simp_all add: progress_status_def)
  qed
  moreover have "progress_last_suspension None (pr_progress s) = Inr (last_suspension evs)"
    using says park by (cases "last_park evs") (auto simp: progress_says_def progress_last_suspension_def decode_plain)
  moreover have "progress_last_wake None (pr_progress s) = last_wake evs"
  proof -
    have w: "tp_last_wake (pr_progress s) = (case last_wake evs of None \<Rightarrow> 0 | Some w \<Rightarrow> encode_wake w)"
      using says by (simp add: progress_says_def)
    show ?thesis by (cases "last_wake evs") (simp_all add: progress_last_wake_def w decode_encode_wake decode_wake_def[of 0])
  qed
  moreover have "progress_parks 0 (pr_progress s) = of_nat (park_count evs)"
    using says by (simp add: progress_says_def progress_parks_def max_def)
  ultimately show ?thesis by blast
qed

theorem progress_observed_witness:
  "\<exists>s. progress_reach 5 [EvMount, EvPark (JoinTask 7)] s \<and> progress_status StatusReady False (pr_progress s) = Inr (StatusSuspended (JoinTask 7))"
proof -
  let ?s = "run_new\<lparr>pr_writer := writer_new\<lparr>pw_started := True\<rparr>, pr_mounted := 5, pr_mount_count := 1\<rparr>"
  have 1: "progress_reach 5 [EvMount] ?s"
    using event[OF start, of 5 EvMount ?s] by (simp add: run_new_def writer_new_def writer_mount_def)
  obtain s2 where "progress_step 5 (EvPark (JoinTask 7)) ?s = Some s2" using park_possible[of ?s 5 "JoinTask 7"] by auto
  from event[OF 1 this] have 2: "progress_reach 5 [EvMount, EvPark (JoinTask 7)] s2" by simp
  from progress_observed[OF this, of False] 2 show ?thesis by (auto simp: parked_as_def next_parked_def)
qed

text \<open>
  C36. The two loads of a reader race with the carrier: when the task it reads the status of is
  woken and parks again between them, the reader may combine a join with the task of another
  park. It then panics, in the diagnostic thread, exactly if the later park is not a join.
\<close>

theorem status_race:
  assumes "progress_reach task evs s" "progress_reach task (evs @ later) s'"
    and "\<not> is_terminal retained" "retained \<noteq> StatusQueued"
  shows "(\<exists>p. status_loaded retained running (tp_state (pr_progress s)) (tp_suspension_task (pr_progress s')) = Inl p)
    \<longleftrightarrow> (\<exists>t. parked_as evs = Some (JoinTask t)) \<and> (\<forall>t. last_park (evs @ later) \<noteq> Some (JoinTask t))"
proof -
  note says = says_reach[OF assms(1)] and says' = says_reach[OF assms(2)]
  have task: "tp_suspension_task (pr_progress s') = 0 \<longleftrightarrow> (\<forall>t. last_park (evs @ later) \<noteq> Some (JoinTask t))"
  proof (cases "last_park (evs @ later)")
    case None
    then show ?thesis using says' by (simp add: progress_says_def)
  next
    case (Some r)
    note says_park[OF says' Some]
    then show ?thesis using Some by (cases r) auto
  qed
  show ?thesis
  proof (cases "parked_as evs")
    case None
    then show ?thesis using reader_status[OF says assms(3,4), of running] says assms(3,4)
      by (auto simp: progress_says_def status_loaded_def)
  next
    case (Some r)
    then show ?thesis using reader_status[OF says assms(3,4), of running "tp_suspension_task (pr_progress s')"] task by auto
  qed
qed

theorem status_race_witness:
  "\<exists>s s' p. progress_reach 5 [EvMount, EvPark (JoinTask 7)] s
    \<and> progress_reach 5 ([EvMount, EvPark (JoinTask 7)] @ [EvWake WokeReady, EvMount, EvPark MutexReason]) s'
    \<and> status_loaded StatusReady False (tp_state (pr_progress s)) (tp_suspension_task (pr_progress s')) = Inl p"
proof -
  let ?s = "run_new\<lparr>pr_writer := writer_new\<lparr>pw_started := True\<rparr>, pr_mounted := 5, pr_mount_count := 1\<rparr>"
  have 1: "progress_reach 5 [EvMount] ?s"
    using event[OF start, of 5 EvMount ?s] by (simp add: run_new_def writer_new_def writer_mount_def)
  obtain s2 where 2: "progress_step 5 (EvPark (JoinTask 7)) ?s = Some s2" "pr_mounted s2 = 0" using park_possible[of ?s 5 "JoinTask 7"] by auto
  from event[OF 1 2(1)] have r2: "progress_reach 5 [EvMount, EvPark (JoinTask 7)] s2" by simp
  obtain s3 where 3: "progress_step 5 (EvWake WokeReady) s2 = Some s3" "pr_mounted s3 = 0" using 2(2) by simp
  obtain s4 where 4: "progress_step 5 EvMount s3 = Some s4" "pr_mounted s4 = 5" using 3(2) by (simp add: writer_mount_def)
  obtain s5 where 5: "progress_step 5 (EvPark MutexReason) s4 = Some s5" using park_possible[OF 4(2), of MutexReason] by auto
  from event[OF event[OF event[OF r2 3(1)] 4(1)] 5]
  have r5: "progress_reach 5 ([EvMount, EvPark (JoinTask 7)] @ [EvWake WokeReady, EvMount, EvPark MutexReason]) s5" by simp
  have "\<exists>p. status_loaded StatusReady False (tp_state (pr_progress s2)) (tp_suspension_task (pr_progress s5)) = Inl p"
    using status_race[OF r2 r5, of StatusReady False] by (simp add: parked_as_def next_parked_def last_park_def next_park_def)
  with r2 r5 show ?thesis by blast
qed

end
