(* ===== verification/Config.thy ===== *)
theory Config
  imports Prelude
begin

text \<open>
  Runtime configuration: the builder (config.rs) and the stall policy (stall_policy.rs).
  Capacities are \<open>usize\<close> values, taken as natural numbers: the builder only compares them.
  Starting a runtime from a validated configuration creates threads and is not modelled;
  \<open>build\<close> returns the configuration it would start.
\<close>

section \<open>Stall policy\<close>

datatype stall_policy = Disabled | ReportAfter nat | AbortAfter nat

fun policy_timeout :: "stall_policy \<Rightarrow> nat option" where
  "policy_timeout Disabled = None"
| "policy_timeout (ReportAfter timeout) = Some timeout"
| "policy_timeout (AbortAfter timeout) = Some timeout"

fun policy_aborts :: "stall_policy \<Rightarrow> bool" where
  "policy_aborts (AbortAfter _) = True"
| "policy_aborts _ = False"

section \<open>Configuration and builder\<close>

definition DEFAULT_MAX_VTHREADS :: nat where "DEFAULT_MAX_VTHREADS = 65536"
definition DEFAULT_STACK_SIZE :: nat where "DEFAULT_STACK_SIZE = 1024 * 1024"
definition DEFAULT_STACK_CACHE :: nat where "DEFAULT_STACK_CACHE = 64"
definition MIN_STACK_SIZE :: nat where "MIN_STACK_SIZE = 64 * 1024"

record runtime_config =
  cf_io_capacity :: nat
  cf_blocking_threads :: nat
  cf_blocking_capacity :: nat
  cf_max_vthreads :: nat
  cf_max_owned_scopes :: nat
  cf_stack_size :: nat
  cf_stack_cache_capacity :: nat
  cf_carriers :: nat
  cf_task_local_capacity :: nat
  cf_carrier_queue_capacity :: nat
  cf_stall_policy :: stall_policy
  cf_evidence_capacity :: "nat option"

definition config_default :: runtime_config where
  "config_default = \<lparr>cf_io_capacity = 1024, cf_blocking_threads = 2, cf_blocking_capacity = 256,
     cf_max_vthreads = DEFAULT_MAX_VTHREADS, cf_max_owned_scopes = DEFAULT_MAX_VTHREADS,
     cf_stack_size = DEFAULT_STACK_SIZE, cf_stack_cache_capacity = DEFAULT_STACK_CACHE, cf_carriers = 1,
     cf_task_local_capacity = 64, cf_carrier_queue_capacity = 256, cf_stall_policy = Disabled,
     cf_evidence_capacity = None\<rparr>"

record runtime_builder =
  rb_config :: runtime_config
  rb_max_owned_scopes :: "nat option"

definition builder_default :: runtime_builder where
  "builder_default = \<lparr>rb_config = config_default, rb_max_owned_scopes = None\<rparr>"

text \<open>The setters, each a call in the builder's chain.\<close>

datatype builder_call =
    SetIoCapacity nat | SetBlockingThreads nat | SetBlockingCapacity nat | SetTaskLocalCapacity nat
  | SetCarriers nat | SetCarrierQueueCapacity nat | SetStallPolicy stall_policy | SetMaxVthreads nat
  | SetMaxOwnedScopes nat | SetStackSize nat | SetStackCacheCapacity nat | SetEvidenceCapacity nat

fun builder_set :: "builder_call \<Rightarrow> runtime_builder \<Rightarrow> runtime_builder" where
  "builder_set (SetIoCapacity n) b = b\<lparr>rb_config := (rb_config b)\<lparr>cf_io_capacity := n\<rparr>\<rparr>"
| "builder_set (SetBlockingThreads n) b = b\<lparr>rb_config := (rb_config b)\<lparr>cf_blocking_threads := n\<rparr>\<rparr>"
| "builder_set (SetBlockingCapacity n) b = b\<lparr>rb_config := (rb_config b)\<lparr>cf_blocking_capacity := n\<rparr>\<rparr>"
| "builder_set (SetTaskLocalCapacity n) b = b\<lparr>rb_config := (rb_config b)\<lparr>cf_task_local_capacity := n\<rparr>\<rparr>"
| "builder_set (SetCarriers n) b = b\<lparr>rb_config := (rb_config b)\<lparr>cf_carriers := n\<rparr>\<rparr>"
| "builder_set (SetCarrierQueueCapacity n) b = b\<lparr>rb_config := (rb_config b)\<lparr>cf_carrier_queue_capacity := n\<rparr>\<rparr>"
| "builder_set (SetStallPolicy p) b = b\<lparr>rb_config := (rb_config b)\<lparr>cf_stall_policy := p\<rparr>\<rparr>"
| "builder_set (SetMaxVthreads n) b = b\<lparr>rb_config := (rb_config b)\<lparr>cf_max_vthreads := n\<rparr>\<rparr>"
| "builder_set (SetMaxOwnedScopes n) b = b\<lparr>rb_max_owned_scopes := Some n\<rparr>"
| "builder_set (SetStackSize n) b = b\<lparr>rb_config := (rb_config b)\<lparr>cf_stack_size := n\<rparr>\<rparr>"
| "builder_set (SetStackCacheCapacity n) b = b\<lparr>rb_config := (rb_config b)\<lparr>cf_stack_cache_capacity := n\<rparr>\<rparr>"
| "builder_set (SetEvidenceCapacity n) b = b\<lparr>rb_config := (rb_config b)\<lparr>cf_evidence_capacity := Some n\<rparr>\<rparr>"

definition invalid :: "configuration_field \<Rightarrow> string \<Rightarrow> 'a result" where
  "invalid field message = Inl (InvalidConfiguration field message)"

text \<open>
  \<open>fits timeout\<close> says that the monotonic clock can represent the instant that far from now.
\<close>

definition builder_final :: "runtime_builder \<Rightarrow> runtime_config" where
  "builder_final b = (rb_config b)\<lparr>cf_max_owned_scopes :=
     (case rb_max_owned_scopes b of None \<Rightarrow> cf_max_vthreads (rb_config b) | Some n \<Rightarrow> n)\<rparr>"

definition builder_build :: "(nat \<Rightarrow> bool) \<Rightarrow> runtime_builder \<Rightarrow> runtime_config result" where
  "builder_build fits b =
     (let c = builder_final b in
      if cf_io_capacity c = 0 then invalid IoCapacity ''must be positive''
      else if cf_blocking_capacity c = 0 then invalid BlockingCapacity ''must be positive''
      else if cf_blocking_threads c = 0 then invalid BlockingThreads ''must be positive''
      else if cf_blocking_capacity c < cf_blocking_threads c then
        invalid BlockingThreads ''cannot exceed blocking_capacity''
      else if (case policy_timeout (cf_stall_policy c) of None \<Rightarrow> False | Some t \<Rightarrow> \<not> fits t) then
        invalid StallPolicyField ''must fit the monotonic clock''
      else if cf_max_vthreads c = 0 then invalid MaxVthreads ''must be greater than zero''
      else if cf_max_owned_scopes c = 0 then invalid MaxOwnedScopes ''must be greater than zero''
      else if cf_carriers c = 0 \<or> cf_max_vthreads c < cf_carriers c then
        invalid Carriers ''must be between one and max_vthreads''
      else if cf_carrier_queue_capacity c = 0 then invalid CarrierQueueCapacity ''must be greater than zero''
      else if cf_stack_size c < MIN_STACK_SIZE then invalid StackSize ''must be at least 64 KiB''
      else if cf_max_vthreads c < cf_stack_cache_capacity c then
        invalid StackCacheCapacity ''cannot exceed max_vthreads''
      else if cf_evidence_capacity c = Some 0 then invalid EvidenceCapacity ''must be greater than zero''
      else Inr c)"

section \<open>What a configuration promises\<close>

text \<open>The documented contract of a configuration, clause by clause with the field it names.\<close>

definition config_clauses :: "(nat \<Rightarrow> bool) \<Rightarrow> runtime_config \<Rightarrow> (configuration_field \<times> bool) list" where
  "config_clauses fits c =
     [(IoCapacity, 0 < cf_io_capacity c),
      (BlockingCapacity, 0 < cf_blocking_capacity c),
      (BlockingThreads, 0 < cf_blocking_threads c \<and> cf_blocking_threads c \<le> cf_blocking_capacity c),
      (StallPolicyField, \<forall>t. policy_timeout (cf_stall_policy c) = Some t \<longrightarrow> fits t),
      (MaxVthreads, 0 < cf_max_vthreads c),
      (MaxOwnedScopes, 0 < cf_max_owned_scopes c),
      (Carriers, 0 < cf_carriers c \<and> cf_carriers c \<le> cf_max_vthreads c),
      (CarrierQueueCapacity, 0 < cf_carrier_queue_capacity c),
      (StackSize, MIN_STACK_SIZE \<le> cf_stack_size c),
      (StackCacheCapacity, cf_stack_cache_capacity c \<le> cf_max_vthreads c),
      (EvidenceCapacity, cf_evidence_capacity c \<noteq> Some 0)]"

definition config_ok :: "(nat \<Rightarrow> bool) \<Rightarrow> runtime_config \<Rightarrow> bool" where
  "config_ok fits c \<longleftrightarrow> (\<forall>(field, holds) \<in> set (config_clauses fits c). holds)"

fun first_broken :: "(configuration_field \<times> bool) list \<Rightarrow> configuration_field option" where
  "first_broken [] = None"
| "first_broken ((field, holds) # cs) = (if holds then first_broken cs else Some field)"

lemma first_broken_None: "first_broken cs = None \<longleftrightarrow> (\<forall>(field, holds) \<in> set cs. holds)"
  by (induction cs rule: first_broken.induct) auto

text \<open>The last value a chain of calls gives a setting, or its default.\<close>

definition last_max_vthreads :: "builder_call list \<Rightarrow> nat" where
  "last_max_vthreads cs = foldl (\<lambda>n c. case c of SetMaxVthreads m \<Rightarrow> m | _ \<Rightarrow> n) DEFAULT_MAX_VTHREADS cs"

definition last_max_owned_scopes :: "builder_call list \<Rightarrow> nat option" where
  "last_max_owned_scopes cs = foldl (\<lambda>n c. case c of SetMaxOwnedScopes m \<Rightarrow> Some m | _ \<Rightarrow> n) None cs"

definition built :: "builder_call list \<Rightarrow> runtime_builder" where
  "built cs = foldl (\<lambda>b c. builder_set c b) builder_default cs"

lemma built_snoc: "built (cs @ [c]) = builder_set c (built cs)"
  by (simp add: built_def)

lemma built_max_vthreads: "cf_max_vthreads (rb_config (built cs)) = last_max_vthreads cs"
proof (induction cs rule: rev_induct)
  case (snoc c cs)
  then show ?case by (cases c) (simp_all add: built_snoc last_max_vthreads_def)
qed (simp add: built_def builder_default_def config_default_def last_max_vthreads_def)

lemma built_max_owned_scopes: "rb_max_owned_scopes (built cs) = last_max_owned_scopes cs"
proof (induction cs rule: rev_induct)
  case (snoc c cs)
  then show ?case by (cases c) (simp_all add: built_snoc last_max_owned_scopes_def)
qed (simp add: built_def builder_default_def last_max_owned_scopes_def)

lemma build_accepts:
  assumes "config_ok fits (builder_final b)"
  shows "builder_build fits b = Inr (builder_final b)"
proof -
  have "(case policy_timeout (cf_stall_policy (builder_final b)) of None \<Rightarrow> False | Some t \<Rightarrow> \<not> fits t) = False"
    using assms by (auto simp: config_ok_def config_clauses_def split: option.splits)
  then show ?thesis using assms by (simp add: builder_build_def Let_def config_ok_def config_clauses_def not_less)
qed

lemma build_rejects:
  assumes "first_broken (config_clauses fits (builder_final b)) = Some field"
  shows "\<exists>message. builder_build fits b = Inl (InvalidConfiguration field message)"
proof -
  have "(case policy_timeout (cf_stall_policy (builder_final b)) of None \<Rightarrow> False | Some t \<Rightarrow> \<not> fits t)
      \<longleftrightarrow> \<not> (\<forall>t. policy_timeout (cf_stall_policy (builder_final b)) = Some t \<longrightarrow> fits t)"
    by (auto split: option.splits)
  then show ?thesis using assms unfolding builder_build_def Let_def invalid_def config_clauses_def
    by (auto simp: not_less split: if_splits)
qed

section \<open>Properties\<close>

text \<open>
  C40. Building validates exactly the documented contract: a chain of builder calls, in any
  order, is accepted if and only if every clause holds of its final values; a rejection names
  the first broken clause's field; and the limit of owned scopes follows the final limit of
  tasks unless it was set.
\<close>

theorem build_validates:
  "let c = builder_final (built calls) in
     (cf_max_vthreads c = last_max_vthreads calls
      \<and> cf_max_owned_scopes c = (case last_max_owned_scopes calls of None \<Rightarrow> last_max_vthreads calls | Some n \<Rightarrow> n))
     \<and> (case first_broken (config_clauses fits c) of
          None \<Rightarrow> config_ok fits c \<and> builder_build fits (built calls) = Inr c
        | Some field \<Rightarrow> \<exists>message. builder_build fits (built calls) = Inl (InvalidConfiguration field message))"
proof -
  have final: "cf_max_vthreads (builder_final (built calls)) = last_max_vthreads calls"
    "cf_max_owned_scopes (builder_final (built calls)) = (case last_max_owned_scopes calls of None \<Rightarrow> last_max_vthreads calls | Some n \<Rightarrow> n)"
    by (simp_all add: builder_final_def built_max_vthreads built_max_owned_scopes split: option.split)
  show ?thesis
  proof (cases "first_broken (config_clauses fits (builder_final (built calls)))")
    case None
    then have "config_ok fits (builder_final (built calls))" by (simp add: config_ok_def first_broken_None)
    with None final build_accepts[OF this] show ?thesis by (simp add: Let_def)
  next
    case (Some field)
    with final build_rejects[OF Some] show ?thesis by (simp add: Let_def)
  qed
qed

end
