(* ===== verification/Inbox.thy ===== *)
theory Inbox
  imports Task_Record
begin

text \<open>
  The inbox of a carrier (inbox.rs): a bounded queue of tasks to start, the table of scopes to
  abort, and flags and counters that other threads read without the lock. A packet refers to
  its task's cell by the task's identity; what it starts is a parameter \<open>'e\<close>. Signals to the
  carrier are results of the operations that send them.
\<close>

section \<open>State\<close>

record 'e spawn_packet =
  pk_task :: task_id
  pk_entry :: "'e option"

record 'e inbox =
  ib_started :: bool
  ib_scheduler_stopped :: bool
  ib_reclaimed :: bool
  ib_capacity :: nat
  ib_starts :: "'e spawn_packet list"
  ib_stopped_locked :: bool
  ib_abort :: "(u64 \<times> task_failure) list"
  ib_pending_starts :: nat
  ib_stopped :: bool
  ib_abort_pending :: bool
  ib_retired :: u64

definition inbox_new :: "nat \<Rightarrow> 'e inbox" where
  "inbox_new capacity = \<lparr>ib_started = False, ib_scheduler_stopped = False, ib_reclaimed = False,
     ib_capacity = capacity, ib_starts = [], ib_stopped_locked = False, ib_abort = [], ib_pending_starts = 0,
     ib_stopped = False, ib_abort_pending = False, ib_retired = 0\<rparr>"

datatype signal_call = SignalNotify | SignalNotifyIfWaiting

section \<open>Start packets\<close>

definition inbox_can_accept :: "'e inbox \<Rightarrow> bool" where
  "inbox_can_accept i \<longleftrightarrow> \<not> ib_stopped i \<and> ib_pending_starts i < ib_capacity i"

definition inbox_push :: "'e spawn_packet \<Rightarrow> 'e inbox \<Rightarrow> ('e spawn_packet + signal_call) \<times> 'e inbox" where
  "inbox_push packet i =
     (if ib_stopped_locked i \<or> ib_capacity i \<le> length (ib_starts i) then (Inl packet, i)
      else let starts = ib_starts i @ [packet] in
           (Inr (if ib_starts i = [] then SignalNotify else SignalNotifyIfWaiting),
            i\<lparr>ib_starts := starts, ib_pending_starts := length starts\<rparr>))"

definition inbox_drain_into :: "'e spawn_packet list \<Rightarrow> nat \<Rightarrow> 'e inbox \<Rightarrow> nat \<times> 'e spawn_packet list \<times> 'e inbox" where
  "inbox_drain_into packets limit i =
     (if limit = 0 \<or> ib_pending_starts i = 0 then (0, packets, i)
      else let taken_count = min (length (ib_starts i)) limit;
               starts = drop taken_count (ib_starts i) in
           (taken_count, packets @ take taken_count (ib_starts i), i\<lparr>ib_starts := starts, ib_pending_starts := length starts\<rparr>))"

text \<open>\<open>scope_of\<close> reads the scope in the record of a task.\<close>

definition inbox_pop_scope :: "(task_id \<Rightarrow> u64) \<Rightarrow> u64 option \<Rightarrow> 'e inbox \<Rightarrow> 'e spawn_packet option \<times> 'e inbox" where
  "inbox_pop_scope scope_of scope i =
     (if ib_pending_starts i = 0 then (None, i)
      else case position (\<lambda>p. case scope of None \<Rightarrow> True | Some s \<Rightarrow> scope_of (pk_task p) = s) (ib_starts i) of
             None \<Rightarrow> (None, i)
           | Some index \<Rightarrow>
               let starts = remove_at index (ib_starts i) in
               (Some (ib_starts i ! index), i\<lparr>ib_starts := starts, ib_pending_starts := length starts\<rparr>))"

definition inbox_pending :: "'e inbox \<Rightarrow> nat" where
  "inbox_pending i = ib_pending_starts i"

definition inbox_cleanup_complete :: "'e inbox \<Rightarrow> bool" where
  "inbox_cleanup_complete i \<longleftrightarrow>
     (\<not> ib_started i \<or> ib_scheduler_stopped i \<and> ib_reclaimed i) \<and> inbox_pending i = 0"

definition inbox_has_queued_starts :: "'e inbox \<Rightarrow> bool" where
  "inbox_has_queued_starts i \<longleftrightarrow> ib_starts i \<noteq> []"

section \<open>Retirement, stop and aborts\<close>

definition inbox_retire_tasks :: "nat \<Rightarrow> 'e inbox \<Rightarrow> 'e inbox" where
  "inbox_retire_tasks n i = i\<lparr>ib_retired := ib_retired i + of_nat n\<rparr>"

definition inbox_retired_tasks :: "'e inbox \<Rightarrow> u64" where
  "inbox_retired_tasks i = ib_retired i"

text \<open>Stopping takes two steps: first the locked flag, after which nothing is accepted, then the atomic one.\<close>

definition inbox_stop_locked :: "'e inbox \<Rightarrow> 'e inbox" where
  "inbox_stop_locked i = i\<lparr>ib_stopped_locked := True\<rparr>"

definition inbox_stop_flag :: "'e inbox \<Rightarrow> signal_call \<times> 'e inbox" where
  "inbox_stop_flag i = (SignalNotify, i\<lparr>ib_stopped := True\<rparr>)"

definition inbox_stop :: "'e inbox \<Rightarrow> signal_call \<times> 'e inbox" where
  "inbox_stop i = inbox_stop_flag (inbox_stop_locked i)"

text \<open>The abort table is ordered by scope.\<close>

fun abort_insert :: "u64 \<Rightarrow> task_failure \<Rightarrow> (u64 \<times> task_failure) list \<Rightarrow> (u64 \<times> task_failure) list" where
  "abort_insert scope reason [] = [(scope, reason)]"
| "abort_insert scope reason ((s, r) # m) =
     (if scope < s then (scope, reason) # (s, r) # m
      else if scope = s then (scope, reason) # m
      else (s, r) # abort_insert scope reason m)"

definition inbox_abort :: "u64 \<Rightarrow> task_failure \<Rightarrow> 'e inbox \<Rightarrow> signal_call \<times> 'e inbox" where
  "inbox_abort scope reason i =
     (SignalNotify, i\<lparr>ib_abort := abort_insert scope reason (ib_abort i), ib_abort_pending := True\<rparr>)"

definition inbox_clear_abort :: "u64 \<Rightarrow> 'e inbox \<Rightarrow> 'e inbox" where
  "inbox_clear_abort scope i =
     (let m = kv_del scope (ib_abort i) in i\<lparr>ib_abort := m, ib_abort_pending := m \<noteq> []\<rparr>)"

definition inbox_take_abort :: "'e inbox \<Rightarrow> (u64 \<times> task_failure) option \<times> 'e inbox" where
  "inbox_take_abort i =
     (if \<not> ib_abort_pending i then (None, i)
      else case ib_abort i of
             [] \<Rightarrow> (None, i\<lparr>ib_abort_pending := False\<rparr>)
           | a # m \<Rightarrow> (Some a, i\<lparr>ib_abort := m, ib_abort_pending := m \<noteq> []\<rparr>))"

section \<open>Invariant\<close>

definition inbox_ok :: "'e inbox \<Rightarrow> bool" where
  "inbox_ok i \<longleftrightarrow>
     length (ib_starts i) \<le> ib_capacity i \<and> ib_pending_starts i = length (ib_starts i)
     \<and> (ib_stopped i \<longrightarrow> ib_stopped_locked i)
     \<and> sorted_wrt (<) (map fst (ib_abort i)) \<and> (ib_abort_pending i \<longleftrightarrow> ib_abort i \<noteq> [])"

named_theorems inbox_defs
lemmas [inbox_defs] = inbox_push_def inbox_drain_into_def inbox_pop_scope_def inbox_retire_tasks_def
  inbox_stop_locked_def inbox_stop_flag_def inbox_stop_def inbox_abort_def inbox_clear_abort_def inbox_take_abort_def

lemma inbox_new_ok: "inbox_ok (inbox_new c)"
  by (simp add: inbox_ok_def inbox_new_def)

lemma abort_insert_keys: "set (map fst (abort_insert scope reason m)) = insert scope (set (map fst m))"
  by (induction m rule: abort_insert.induct) auto

lemma abort_insert_sorted: "sorted_wrt (<) (map fst m) \<Longrightarrow> sorted_wrt (<) (map fst (abort_insert scope reason m))"
proof (induction scope reason m rule: abort_insert.induct)
  case (2 scope reason s r m)
  have k: "fst ` set (abort_insert scope reason m) = insert scope (fst ` set m)" using abort_insert_keys[of scope reason m] by simp
  show ?case using 2 by (auto simp: k)
qed simp

lemma abort_insert_lookup:
  "sorted_wrt (<) (map fst m) \<Longrightarrow> kv_get (abort_insert scope reason m) s = (if s = scope then Some reason else kv_get m s)"
  by (induction scope reason m rule: abort_insert.induct) (auto simp: kv_get_def map_of_eq_None_iff)

lemma abort_insert_not_nil [simp]: "abort_insert scope reason m \<noteq> []"
  by (cases "(scope, reason, m)" rule: abort_insert.cases) auto

lemma inbox_abort_sorted_del: "sorted_wrt (<) (map fst m) \<Longrightarrow> sorted_wrt (<) (map fst (kv_del s m))"
  unfolding kv_del_def by (simp add: sorted_wrt_map sorted_wrt_filter)

lemma inbox_push_ok: "inbox_ok i \<Longrightarrow> inbox_push p i = (r, i') \<Longrightarrow> inbox_ok i'"
  by (auto simp: inbox_ok_def inbox_push_def Let_def split: if_splits)

lemma inbox_drain_ok: "inbox_ok i \<Longrightarrow> inbox_drain_into ps n i = (k, qs, i') \<Longrightarrow> inbox_ok i'"
  by (auto simp: inbox_ok_def inbox_drain_into_def Let_def split: if_splits)

lemma inbox_pop_ok: "inbox_ok i \<Longrightarrow> inbox_pop_scope f s i = (r, i') \<Longrightarrow> inbox_ok i'"
  by (auto simp: inbox_ok_def inbox_pop_scope_def Let_def length_remove_at dest: position_Some_D split: if_splits option.splits)

lemma inbox_control_ok:
  assumes "inbox_ok i"
  shows "inbox_ok (inbox_retire_tasks n i)" "inbox_ok (inbox_stop_locked i)" "inbox_ok (snd (inbox_stop i))"
    "inbox_ok (snd (inbox_abort s r i))" "inbox_ok (inbox_clear_abort s i)" "inbox_ok (snd (inbox_take_abort i))"
    "ib_stopped_locked i \<Longrightarrow> inbox_ok (snd (inbox_stop_flag i))"
  using assms by (auto simp: inbox_ok_def inbox_defs abort_insert_sorted inbox_abort_sorted_del Let_def split: list.splits)

section \<open>Histories\<close>

text \<open>Publishers push, the carrier drains or takes the first start of a scope, others stop, abort and clear.\<close>

datatype 'e inbox_event =
    Push "'e spawn_packet" | Drain nat | PopScope "u64 option" | Retire nat | StopLocked | StopFlag
  | Abort u64 task_failure | ClearAbort u64 | TakeAbort

text \<open>The state with the packets accepted and taken so far, and the scopes taken to abort.\<close>

fun inbox_step :: "(task_id \<Rightarrow> u64) \<Rightarrow> 'e inbox_event \<Rightarrow> 'e inbox \<times> 'e spawn_packet list \<times> 'e spawn_packet list
    \<Rightarrow> 'e inbox \<times> 'e spawn_packet list \<times> 'e spawn_packet list" where
  "inbox_step scope_of (Push p) (i, accepted, taken) =
     (case inbox_push p i of (Inl _, i) \<Rightarrow> (i, accepted, taken) | (Inr _, i) \<Rightarrow> (i, accepted @ [p], taken))"
| "inbox_step scope_of (Drain limit) (i, accepted, taken) =
     (case inbox_drain_into [] limit i of (_, packets, i) \<Rightarrow> (i, accepted, taken @ packets))"
| "inbox_step scope_of (PopScope scope) (i, accepted, taken) =
     (case inbox_pop_scope scope_of scope i of (None, i) \<Rightarrow> (i, accepted, taken) | (Some p, i) \<Rightarrow> (i, accepted, taken @ [p]))"
| "inbox_step scope_of (Retire n) (i, h) = (inbox_retire_tasks n i, h)"
| "inbox_step scope_of StopLocked (i, h) = (inbox_stop_locked i, h)"
| "inbox_step scope_of StopFlag (i, h) = (if ib_stopped_locked i then snd (inbox_stop_flag i) else i, h)"
| "inbox_step scope_of (Abort scope reason) (i, h) = (snd (inbox_abort scope reason i), h)"
| "inbox_step scope_of (ClearAbort scope) (i, h) = (inbox_clear_abort scope i, h)"
| "inbox_step scope_of TakeAbort (i, h) = (snd (inbox_take_abort i), h)"

definition inbox_run :: "(task_id \<Rightarrow> u64) \<Rightarrow> nat \<Rightarrow> 'e inbox_event list \<Rightarrow> 'e inbox \<times> 'e spawn_packet list \<times> 'e spawn_packet list" where
  "inbox_run scope_of capacity evs = foldl (\<lambda>s ev. inbox_step scope_of ev s) (inbox_new capacity, [], []) evs"

definition of_scope :: "(task_id \<Rightarrow> u64) \<Rightarrow> u64 \<Rightarrow> 'e spawn_packet list \<Rightarrow> 'e spawn_packet list" where
  "of_scope scope_of scope ps = filter (\<lambda>p. scope_of (pk_task p) = scope) ps"

definition inbox_history_ok :: "(task_id \<Rightarrow> u64) \<Rightarrow> nat \<Rightarrow> 'e inbox \<times> 'e spawn_packet list \<times> 'e spawn_packet list \<Rightarrow> bool" where
  "inbox_history_ok scope_of capacity s \<longleftrightarrow>
     (case s of (i, accepted, taken) \<Rightarrow>
        inbox_ok i \<and> ib_capacity i = capacity
        \<and> (\<forall>scope. of_scope scope_of scope accepted = of_scope scope_of scope taken @ of_scope scope_of scope (ib_starts i)))"

lemma of_scope_pop:
  assumes "position (\<lambda>p. case scope of None \<Rightarrow> True | Some s \<Rightarrow> scope_of (pk_task p) = s) ps = Some k"
  shows "of_scope scope_of s ps = of_scope scope_of s [ps ! k] @ of_scope scope_of s (remove_at k ps)"
proof -
  let ?P = "\<lambda>p. case scope of None \<Rightarrow> True | Some s \<Rightarrow> scope_of (pk_task p) = s"
  note k = position_Some_D[OF assms]
  have ps: "ps = take k ps @ ps ! k # drop (Suc k) ps" using k by (simp add: id_take_nth_drop)
  have before: "\<not> ?P p" if "p \<in> set (take k ps)" for p
  proof -
    from that obtain j where "j < k" "p = ps ! j" by (auto simp: in_set_conv_nth)
    with k show ?thesis by blast
  qed
  have "scope_of (pk_task (ps ! k)) = s \<Longrightarrow> of_scope scope_of s (take k ps) = []"
  proof -
    assume s: "scope_of (pk_task (ps ! k)) = s"
    show ?thesis
    proof (cases scope)
      case None
      then show ?thesis using before by (cases "take k ps") (auto simp: of_scope_def)
    next
      case (Some t)
      then show ?thesis using before k s by (auto simp: of_scope_def filter_empty_conv)
    qed
  qed
  then show ?thesis by (subst (1) ps) (auto simp: of_scope_def remove_at_def)
qed

lemma inbox_step_history:
  assumes "inbox_history_ok scope_of capacity s"
  shows "inbox_history_ok scope_of capacity (inbox_step scope_of ev s)"
proof -
  obtain i accepted taken where s: "s = (i, accepted, taken)" by (cases s)
  have ok: "inbox_ok i" "ib_capacity i = capacity"
    and fifo: "\<And>scope. of_scope scope_of scope accepted = of_scope scope_of scope taken @ of_scope scope_of scope (ib_starts i)"
    using assms by (auto simp: s inbox_history_ok_def)
  show ?thesis
  proof (cases ev)
    case (Push p)
    obtain r i' where p: "inbox_push p i = (r, i')" by fastforce
    from inbox_push_ok[OF ok(1) p] p ok(2) fifo show ?thesis unfolding s Push
      by (auto simp: inbox_history_ok_def inbox_push_def of_scope_def Let_def split: if_splits)
  next
    case (Drain n)
    obtain k ps i' where d: "inbox_drain_into [] n i = (k, ps, i')" by (metis prod_cases3)
    have "ib_starts i = ps @ ib_starts i'" "ib_capacity i' = ib_capacity i"
      using d by (auto simp: inbox_drain_into_def Let_def split: if_splits)
    with inbox_drain_ok[OF ok(1) d] d ok(2) fifo show ?thesis unfolding s Drain
      by (simp add: inbox_history_ok_def of_scope_def)
  next
    case (PopScope scope)
    obtain r i' where p: "inbox_pop_scope scope_of scope i = (r, i')" by fastforce
    show ?thesis
    proof (cases r)
      case None
      then have "i' = i" using p by (auto simp: inbox_pop_scope_def Let_def split: if_splits option.splits)
      with None p s PopScope assms show ?thesis by simp
    next
      case (Some q)
      then obtain k where k: "position (\<lambda>p. case scope of None \<Rightarrow> True | Some s \<Rightarrow> scope_of (pk_task p) = s) (ib_starts i) = Some k"
        "q = ib_starts i ! k" "ib_starts i' = remove_at k (ib_starts i)" "ib_capacity i' = ib_capacity i"
        using p by (auto simp: inbox_pop_scope_def Let_def split: if_splits option.splits)
      show ?thesis using inbox_pop_ok[OF ok(1) p] p ok(2) fifo of_scope_pop[OF k(1)] k(2-) Some unfolding s PopScope
        by (simp add: inbox_history_ok_def) (simp add: of_scope_def)
    qed
  next
    case (Retire n)
    then show ?thesis using assms inbox_control_ok(1)[OF ok(1)] by (simp add: s inbox_history_ok_def inbox_retire_tasks_def)
  next
    case StopLocked
    then show ?thesis using assms inbox_control_ok(2)[OF ok(1)] by (simp add: s inbox_history_ok_def inbox_stop_locked_def)
  next
    case StopFlag
    then show ?thesis using assms inbox_control_ok(7)[OF ok(1)] by (simp add: s inbox_history_ok_def inbox_stop_flag_def)
  next
    case (Abort scope reason)
    then show ?thesis using assms inbox_control_ok(4)[OF ok(1)] by (simp add: s inbox_history_ok_def inbox_abort_def)
  next
    case (ClearAbort scope)
    then show ?thesis using assms inbox_control_ok(5)[OF ok(1)] by (simp add: s inbox_history_ok_def inbox_clear_abort_def Let_def)
  next
    case TakeAbort
    then show ?thesis using assms inbox_control_ok(6)[OF ok(1)] by (auto simp: s inbox_history_ok_def inbox_take_abort_def split: list.splits)
  qed
qed

section \<open>Properties\<close>

text \<open>
  Starts are delivered once, in order and within bounds: whatever publishers, the carrier
  and those who stop and abort do, the packets accepted for each scope are the packets taken,
  in the order of acceptance, followed by those still queued; the queue never exceeds its
  capacity and the count read without the lock is its length; and the abort table stays ordered
  by scope, with its flag up exactly while it holds an entry.
\<close>

theorem inbox_fifo:
  "case inbox_run scope_of capacity evs of (i, accepted, taken) \<Rightarrow>
     (\<forall>scope. of_scope scope_of scope accepted = of_scope scope_of scope taken @ of_scope scope_of scope (ib_starts i))
     \<and> length (ib_starts i) \<le> capacity \<and> inbox_pending i = length (ib_starts i)
     \<and> sorted_wrt (<) (map fst (ib_abort i)) \<and> (ib_abort_pending i \<longleftrightarrow> ib_abort i \<noteq> [])"
proof -
  have "inbox_history_ok scope_of capacity (inbox_run scope_of capacity evs)"
  proof (induction evs rule: rev_induct)
    case Nil
    show ?case by (simp add: inbox_run_def inbox_history_ok_def inbox_new_ok of_scope_def) (simp add: inbox_new_def)
  next
    case (snoc ev evs)
    from inbox_step_history[OF snoc] show ?case by (simp add: inbox_run_def)
  qed
  then show ?thesis by (auto simp: inbox_history_ok_def inbox_ok_def inbox_pending_def)
qed

end
