(* ===== verification/Scope_Progress.thy ===== *)
theory Scope_Progress
  imports Task_Record
begin

text \<open>
  What a scope publishes of its admissions and retirements (control_scope_progress.rs), and the
  batches in which carriers retire tasks (the first half of control_completion.rs).
\<close>

section \<open>Scope progress\<close>

record scope_progress =
  sp_admitted :: u64
  sp_retired :: u64
  sp_completed :: u64
  sp_panicked :: u64
  sp_aborted :: u64
  sp_activity :: u64
  sp_failed_tasks :: "task_id list"

definition scope_progress_new :: scope_progress where
  "scope_progress_new = \<lparr>sp_admitted = 0, sp_retired = 0, sp_completed = 0, sp_panicked = 0, sp_aborted = 0,
     sp_activity = 0, sp_failed_tasks = []\<rparr>"

definition record_activity :: "u64 \<Rightarrow> scope_progress \<Rightarrow> scope_progress" where
  "record_activity n p = p\<lparr>sp_activity := sp_activity p + n\<rparr>"

definition publish_admitted :: "u64 \<Rightarrow> bool \<Rightarrow> scope_progress \<Rightarrow> scope_progress" where
  "publish_admitted admitted activity p =
     (let p = p\<lparr>sp_admitted := admitted\<rparr> in if activity then record_activity 1 p else p)"

text \<open>Adding zero to a counter, which the code skips, changes nothing.\<close>

definition scope_retire :: "nat \<Rightarrow> u64 \<Rightarrow> u64 \<Rightarrow> u64 \<Rightarrow> task_id list \<Rightarrow> bool \<Rightarrow> scope_progress \<Rightarrow> bool \<times> scope_progress" where
  "scope_retire n completed panicked aborted failed activity p =
     (let p = p\<lparr>sp_failed_tasks := sp_failed_tasks p @ failed, sp_completed := sp_completed p + completed,
                 sp_panicked := sp_panicked p + panicked, sp_aborted := sp_aborted p + aborted\<rparr>;
          p = (if activity then record_activity (of_nat n) p else p);
          p = p\<lparr>sp_retired := sp_retired p + of_nat n\<rparr> in
      (sp_retired p = sp_admitted p, p))"

definition scope_active :: "scope_progress \<Rightarrow> nat result_p" where
  "scope_active p =
     (case checked_sub (sp_admitted p) (sp_retired p) of
        None \<Rightarrow> Inl (Panic ''scope retired more tasks than it admitted'')
      | Some n \<Rightarrow> Inr (unat n))"

definition retain_failed_tasks :: "(task_id \<Rightarrow> bool) \<Rightarrow> scope_progress \<Rightarrow> scope_progress" where
  "retain_failed_tasks keep p = p\<lparr>sp_failed_tasks := filter keep (sp_failed_tasks p)\<rparr>"

section \<open>Completion batches\<close>

record completion_update =
  cu_id :: task_id
  cu_scope :: u64
  cu_carrier :: carrier_id
  cu_status :: task_status

record completion_batch =
  cb_first :: "completion_update option"
  cb_len :: nat
  cb_completed :: u64
  cb_panicked :: u64
  cb_aborted :: u64
  cb_failed_tasks :: "task_id list"

definition batch_new :: completion_batch where
  "batch_new = \<lparr>cb_first = None, cb_len = 0, cb_completed = 0, cb_panicked = 0, cb_aborted = 0, cb_failed_tasks = []\<rparr>"

definition batch_push :: "completion_update \<Rightarrow> completion_batch \<Rightarrow> completion_batch result_p" where
  "batch_push c b =
     (case (case cb_first b of
              Some first \<Rightarrow>
                if cu_scope c \<noteq> cu_scope first then Inl (Panic ''completion batch scope'')
                else if cu_carrier c \<noteq> cu_carrier first then Inl (Panic ''completion batch carrier'')
                else Inr b
            | None \<Rightarrow> Inr (b\<lparr>cb_first := Some c\<rparr>)) of
        Inl p \<Rightarrow> Inl p
      | Inr b \<Rightarrow>
          let b = b\<lparr>cb_len := cb_len b + 1\<rparr> in
          (case cu_status c of
             StatusCompleted \<Rightarrow> Inr (b\<lparr>cb_completed := cb_completed b + 1\<rparr>)
           | StatusPanicked \<Rightarrow> Inr (b\<lparr>cb_panicked := cb_panicked b + 1, cb_failed_tasks := cb_failed_tasks b @ [cu_id c]\<rparr>)
           | StatusAborted \<Rightarrow> Inr (b\<lparr>cb_aborted := cb_aborted b + 1, cb_failed_tasks := cb_failed_tasks b @ [cu_id c]\<rparr>)
           | _ \<Rightarrow> Inl (Panic ''completion batch contained a live task'')))"

definition batch_scope :: "completion_batch \<Rightarrow> u64 option" where
  "batch_scope b = map_option cu_scope (cb_first b)"

definition batch_is_empty :: "completion_batch \<Rightarrow> bool" where
  "batch_is_empty b \<longleftrightarrow> cb_len b = 0"

definition batch_clear :: "completion_batch \<Rightarrow> completion_batch" where
  "batch_clear b = b\<lparr>cb_first := None, cb_len := 0, cb_completed := 0, cb_panicked := 0, cb_aborted := 0, cb_failed_tasks := []\<rparr>"

lemma batch_clear_new: "batch_clear b = batch_new"
  by (simp add: batch_clear_def batch_new_def)

fun batch_of :: "completion_update list \<Rightarrow> completion_batch \<Rightarrow> completion_batch result_p" where
  "batch_of [] b = Inr b"
| "batch_of (c # cs) b = (case batch_push c b of Inl p \<Rightarrow> Inl p | Inr b \<Rightarrow> batch_of cs b)"

text \<open>Terminal updates of one scope and one carrier make a batch that counts them.\<close>

lemma batch_push_ok:
  assumes "is_terminal (cu_status c)" "\<And>first. cb_first b = Some first \<Longrightarrow> cu_scope first = cu_scope c \<and> cu_carrier first = cu_carrier c"
  shows "\<exists>b'. batch_push c b = Inr b' \<and> cb_len b' = cb_len b + 1 \<and> cb_first b' = Some (case cb_first b of None \<Rightarrow> c | Some f \<Rightarrow> f)"
  using assms by (auto simp: batch_push_def Let_def split: option.splits task_status.splits)

lemma batch_of_ok:
  assumes "\<And>c. c \<in> set cs \<Longrightarrow> is_terminal (cu_status c) \<and> cu_scope c = scope \<and> cu_carrier c = carrier"
    and "\<And>first. cb_first b = Some first \<Longrightarrow> cu_scope first = scope \<and> cu_carrier first = carrier"
  shows "\<exists>b'. batch_of cs b = Inr b' \<and> cb_len b' = cb_len b + length cs
    \<and> (\<forall>first. cb_first b' = Some first \<longrightarrow> cu_scope first = scope \<and> cu_carrier first = carrier)
    \<and> (cb_first b' = None \<longleftrightarrow> cb_first b = None \<and> cs = [])"
  using assms
proof (induction cs arbitrary: b)
  case (Cons c cs)
  have c: "is_terminal (cu_status c)" "cu_scope c = scope" "cu_carrier c = carrier" using Cons.prems(1) by auto
  from batch_push_ok[of c b] c Cons.prems(2) obtain b1 where
    b1: "batch_push c b = Inr b1" "cb_len b1 = cb_len b + 1" "cb_first b1 = Some (case cb_first b of None \<Rightarrow> c | Some f \<Rightarrow> f)" by auto
  have f: "cu_scope first = scope \<and> cu_carrier first = carrier" if "cb_first b1 = Some first" for first
    using that b1(3) c Cons.prems(2) by (auto split: option.splits)
  have "\<exists>b'. batch_of cs b1 = Inr b' \<and> cb_len b' = cb_len b1 + length cs
    \<and> (\<forall>first. cb_first b' = Some first \<longrightarrow> cu_scope first = scope \<and> cu_carrier first = carrier)
    \<and> (cb_first b' = None \<longleftrightarrow> cb_first b1 = None \<and> cs = [])"
    by (rule Cons.IH) (use Cons.prems(1) f in auto)
  then show ?case using b1 by auto
qed auto

lemma scope_retire_fields:
  assumes "scope_retire n c pa ab failed act p = (d, p')"
  shows "sp_retired p' = sp_retired p + of_nat n" "sp_admitted p' = sp_admitted p" "d \<longleftrightarrow> sp_retired p' = sp_admitted p'"
  using assms by (cases act; auto simp: scope_retire_def record_activity_def Let_def)+

lemma publish_admitted_fields [simp]:
  "sp_admitted (publish_admitted n a p) = n" "sp_retired (publish_admitted n a p) = sp_retired p"
  by (simp_all add: publish_admitted_def record_activity_def Let_def)

lemma retain_failed_fields [simp]:
  "sp_admitted (retain_failed_tasks k p) = sp_admitted p" "sp_retired (retain_failed_tasks k p) = sp_retired p"
  by (simp_all add: retain_failed_tasks_def)

lemma record_activity_fields [simp]:
  "sp_admitted (record_activity n p) = sp_admitted p" "sp_retired (record_activity n p) = sp_retired p"
  by (simp_all add: record_activity_def)

end
