(* ===== verification/Control_State.thy ===== *)
theory Control_State
  imports Inbox Placement Config Scope_Progress
begin

text \<open>
  The shared control state of a runtime (control.rs) and its operations: owned scopes
  (control_scope.rs), admission (control_admission.rs), completion (control_completion.rs),
  metadata transitions (control_transition.rs) and carrier states (control_carriers.rs), with
  the options a task inherits (options.rs). Every operation below runs under the state lock,
  unless its text says otherwise.

  Task cells are shared by reference: \<open>sh_cells\<close> is the store of their records, by task
  identity. Cancellation tokens are named by their nodes; the clock, the cancelled tokens and
  the tokens that children get are fields of an environment.
\<close>

section \<open>Inherited options\<close>

record runtime_env =
  env_now :: instant
  env_cancelled :: "usize \<Rightarrow> bool"
  env_child :: "usize \<Rightarrow> usize"
  env_child_for_scope :: "usize \<Rightarrow> usize \<Rightarrow> usize"

record spawn_parent =
  pa_id :: task_id
  pa_scope :: u64
  pa_options :: task_options

text \<open>The least of the deadlines that are set.\<close>

fun min_deadline :: "instant option list \<Rightarrow> instant option" where
  "min_deadline [] = None"
| "min_deadline (None # ds) = min_deadline ds"
| "min_deadline (Some d # ds) = Some (case min_deadline ds of None \<Rightarrow> d | Some e \<Rightarrow> min d e)"

definition options_child :: "runtime_env \<Rightarrow> task_options \<Rightarrow> instant option \<Rightarrow> task_options" where
  "options_child env own deadline =
     \<lparr>opt_cancellation = env_child env (opt_cancellation own), opt_deadline = min_deadline [opt_deadline own, deadline]\<rparr>"

definition options_spawned :: "runtime_env \<Rightarrow> task_options \<Rightarrow> u64 \<Rightarrow> spawn_parent option \<Rightarrow> instant option \<Rightarrow> task_options" where
  "options_spawned env own scope parent deadline =
     (case parent of
        None \<Rightarrow> options_child env own deadline
      | Some pa \<Rightarrow>
          \<lparr>opt_cancellation =
             (if pa_scope pa = scope then env_child env (opt_cancellation (pa_options pa))
              else env_child_for_scope env (opt_cancellation (pa_options pa)) (opt_cancellation own)),
           opt_deadline = min_deadline [opt_deadline own, opt_deadline (pa_options pa), deadline]\<rparr>)"

definition options_check :: "runtime_env \<Rightarrow> task_options \<Rightarrow> unit result" where
  "options_check env own =
     (if env_cancelled env (opt_cancellation own) then Inl Cancelled
      else case opt_deadline own of
             Some d \<Rightarrow> if d \<le> env_now env then Inl DeadlineExceeded else Inr ()
           | None \<Rightarrow> Inr ())"

lemma min_deadline_le: "Some d \<in> set ds \<Longrightarrow> \<exists>m. min_deadline ds = Some m \<and> m \<le> d"
  by (induction ds rule: min_deadline.induct) (auto split: option.splits)

section \<open>Carrier states\<close>

datatype carrier_status = CarrierIdle | CarrierRunning | CarrierStopped | CarrierFailed

text \<open>A carrier's snapshot; its counters, which only diagnostics read, are a parameter.\<close>

record 'd carrier_snapshot =
  cs_id :: carrier_id
  cs_status :: carrier_status
  cs_counters :: 'd

definition states_publish :: "'d carrier_snapshot \<Rightarrow> 'd carrier_snapshot list \<Rightarrow> 'd carrier_snapshot list result_p" where
  "states_publish snapshot slots =
     (if length slots \<le> cs_id snapshot then Inl (Panic ''index out of bounds'')
      else Inr (slots[cs_id snapshot := snapshot]))"

definition states_all_terminal :: "'d carrier_snapshot list \<Rightarrow> bool" where
  "states_all_terminal slots = list_all (\<lambda>s. cs_status s = CarrierStopped \<or> cs_status s = CarrierFailed) slots"

definition states_failed :: "'d carrier_snapshot list \<Rightarrow> nat" where
  "states_failed slots = length (filter (\<lambda>s. cs_status s = CarrierFailed) slots)"

section \<open>Shared state\<close>

datatype shutdown_phase =
    NotRequested | Requested | JoiningCarriers | JoiningReadiness | JoiningNative | ShutdownComplete | PhaseFailed

text \<open>The derived order: the order of declaration.\<close>

fun phase_rank :: "shutdown_phase \<Rightarrow> nat" where
  "phase_rank NotRequested = 0"
| "phase_rank Requested = 1"
| "phase_rank JoiningCarriers = 2"
| "phase_rank JoiningReadiness = 3"
| "phase_rank JoiningNative = 4"
| "phase_rank ShutdownComplete = 5"
| "phase_rank PhaseFailed = 6"

definition phase_max :: "shutdown_phase \<Rightarrow> shutdown_phase \<Rightarrow> shutdown_phase" where
  "phase_max p q = (if phase_rank p \<le> phase_rank q then q else p)"

record scope_state =
  ss_admitting :: bool
  ss_admitted :: u64
  ss_progress :: scope_progress
  ss_records :: "task_id list"
  ss_options :: task_options
  ss_supervised :: bool
  ss_aborting :: "task_failure option"

record ('p, 'e, 'd) shared =
  sh_config :: runtime_config
  sh_root_token :: usize
  sh_abort_requested :: bool
  sh_inboxes :: "'e inbox list"
  sh_carrier_states :: "'d carrier_snapshot list"
  sh_changed :: u64
  sh_target_waiters :: nat
  sh_shutdown_phase :: shutdown_phase
  sh_accepting :: bool
  sh_active_scope :: "u64 option"
  sh_scopes :: "(u64 \<times> scope_state) list"
  sh_next_scope :: u64
  sh_next_task :: u64
  sh_cursor :: nat
  sh_loads :: carrier_loads
  sh_rejected :: u64
  sh_admitted :: u64
  sh_record_count :: nat
  sh_record_cache :: "'p task_record list"
  sh_cells :: "task_id \<Rightarrow> 'p task_record"

definition tracks_stalls :: "('p, 'e, 'd) shared \<Rightarrow> bool" where
  "tracks_stalls s \<longleftrightarrow> policy_timeout (cf_stall_policy (sh_config s)) \<noteq> None"

definition shared_new :: "runtime_config \<Rightarrow> usize \<Rightarrow> (nat \<Rightarrow> 'd carrier_snapshot) \<Rightarrow> (task_id \<Rightarrow> 'p task_record)
    \<Rightarrow> ('p, 'e, 'd) shared result_p" where
  "shared_new config root snapshots cells =
     (case loads_new (cf_carriers config) of
        Inl p \<Rightarrow> Inl p
      | Inr loads \<Rightarrow> Inr \<lparr>
          sh_config = config, sh_root_token = root, sh_abort_requested = False,
          sh_inboxes = map (\<lambda>_. inbox_new (cf_carrier_queue_capacity config)) [0..<cf_carriers config],
          sh_carrier_states = map snapshots [0..<cf_carriers config], sh_changed = 0, sh_target_waiters = 0,
          sh_shutdown_phase = NotRequested, sh_accepting = True, sh_active_scope = None, sh_scopes = [],
          sh_next_scope = 1, sh_next_task = 1, sh_cursor = 0, sh_loads = loads, sh_rejected = 0, sh_admitted = 0,
          sh_record_count = 0, sh_record_cache = [], sh_cells = cells\<rparr>)"

definition changed_notify :: "('p, 'e, 'd) shared \<Rightarrow> ('p, 'e, 'd) shared" where
  "changed_notify s = s\<lparr>sh_changed := sh_changed s + 1\<rparr>"

text \<open>
  Requesting a stop returns the tokens to cancel, which happens after the inboxes are stopped.
  The native services it also stops are not part of this state.
\<close>

definition request_stop :: "('p, 'e, 'd) shared \<Rightarrow> usize list \<times> ('p, 'e, 'd) shared" where
  "request_stop s =
     (map (opt_cancellation \<circ> ss_options \<circ> snd) (sh_scopes s),
      changed_notify (s\<lparr>sh_accepting := False, sh_shutdown_phase := phase_max (sh_shutdown_phase s) Requested,
                        sh_abort_requested := True, sh_inboxes := map (snd \<circ> inbox_stop) (sh_inboxes s)\<rparr>))"

definition advance_shutdown :: "shutdown_phase \<Rightarrow> ('p, 'e, 'd) shared \<Rightarrow> ('p, 'e, 'd) shared" where
  "advance_shutdown phase s = changed_notify (s\<lparr>sh_shutdown_phase := phase_max (sh_shutdown_phase s) phase\<rparr>)"

definition publish_snapshot :: "'d carrier_snapshot \<Rightarrow> ('p, 'e, 'd) shared \<Rightarrow> ('p, 'e, 'd) shared result_p" where
  "publish_snapshot snapshot s =
     (let terminal = (cs_status snapshot = CarrierStopped \<or> cs_status snapshot = CarrierFailed) in
      case states_publish snapshot (sh_carrier_states s) of
        Inl p \<Rightarrow> Inl p
      | Inr states \<Rightarrow>
          let s = s\<lparr>sh_carrier_states := states\<rparr>;
              s = (if terminal \<and> states_all_terminal states then s\<lparr>sh_accepting := False\<rparr> else s) in
          Inr (if terminal \<or> tracks_stalls s then changed_notify s else s))"

section \<open>Scopes\<close>

definition put_scope :: "u64 \<Rightarrow> scope_state \<Rightarrow> ('p, 'e, 'd) shared \<Rightarrow> ('p, 'e, 'd) shared" where
  "put_scope k st s = s\<lparr>sh_scopes := kv_put k st (sh_scopes s)\<rparr>"

definition abort_reason :: "u64 \<Rightarrow> ('p, 'e, 'd) shared \<Rightarrow> task_failure option" where
  "abort_reason scope s =
     (if \<not> sh_abort_requested s then None
      else if \<not> sh_accepting s then Some FailRuntimeStopped
      else case kv_get (sh_scopes s) scope of None \<Rightarrow> None | Some st \<Rightarrow> ss_aborting st)"

text \<open>Opening a scope: a runtime error leaves the state as it was.\<close>

definition begin_owned :: "runtime_env \<Rightarrow> instant option \<Rightarrow> bool \<Rightarrow> ('p, 'e, 'd) shared \<Rightarrow> u64 result \<times> ('p, 'e, 'd) shared" where
  "begin_owned env deadline supervised s =
     (if \<not> sh_accepting s then (Inl RuntimeStopped, s)
      else if \<not> supervised \<and> sh_active_scope s \<noteq> None then (Inl RootScopeActive, s)
      else if cf_max_owned_scopes (sh_config s) \<le> length (sh_scopes s) then
        (Inl (Capacity Scopes (cf_max_owned_scopes (sh_config s))), s)
      else case checked_add (sh_next_scope s) 1 of
             None \<Rightarrow> (Inl (Fault Lifecycle ''scope id space exhausted''), s)
           | Some next \<Rightarrow>
               let id = sh_next_scope s;
                   s = s\<lparr>sh_next_scope := next\<rparr>;
                   s = (if supervised then s else s\<lparr>sh_active_scope := Some id\<rparr>) in
               (Inr id, put_scope id
                 \<lparr>ss_admitting = True, ss_admitted = 0, ss_progress = scope_progress_new, ss_records = [],
                  ss_options = \<lparr>opt_cancellation = env_child env (sh_root_token s), opt_deadline = deadline\<rparr>,
                  ss_supervised = supervised, ss_aborting = None\<rparr> s))"

definition scope_options :: "u64 \<Rightarrow> ('p, 'e, 'd) shared \<Rightarrow> task_options result" where
  "scope_options scope s = (case kv_get (sh_scopes s) scope of None \<Rightarrow> Inl RuntimeStopped | Some st \<Rightarrow> Inr (ss_options st))"

text \<open>
  Aborting a scope: under the lock, then, after it is released, the inboxes and the scope's
  cancellation token, which the result names.
\<close>

definition abort_scope_state :: "u64 \<Rightarrow> task_failure \<Rightarrow> ('p, 'e, 'd) shared \<Rightarrow> usize option \<times> ('p, 'e, 'd) shared" where
  "abort_scope_state scope reason s =
     (case kv_get (sh_scopes s) scope of
        None \<Rightarrow> (None, s)
      | Some st \<Rightarrow>
          (Some (opt_cancellation (ss_options st)),
           (put_scope scope (st\<lparr>ss_aborting := Some reason, ss_admitting := False\<rparr>) s)\<lparr>sh_abort_requested := True\<rparr>))"

definition abort_inboxes :: "u64 \<Rightarrow> task_failure \<Rightarrow> ('p, 'e, 'd) shared \<Rightarrow> ('p, 'e, 'd) shared" where
  "abort_inboxes scope reason s = s\<lparr>sh_inboxes := map (snd \<circ> inbox_abort scope reason) (sh_inboxes s)\<rparr>"

definition abort_scope :: "u64 \<Rightarrow> task_failure \<Rightarrow> ('p, 'e, 'd) shared \<Rightarrow> usize option \<times> ('p, 'e, 'd) shared" where
  "abort_scope scope reason s =
     (case abort_scope_state scope reason s of
        (None, s) \<Rightarrow> (None, s)
      | (Some token, s) \<Rightarrow> (Some token, changed_notify (abort_inboxes scope reason s)))"

definition close_scope :: "u64 \<Rightarrow> ('p, 'e, 'd) shared \<Rightarrow> ('p, 'e, 'd) shared" where
  "close_scope scope s =
     (case kv_get (sh_scopes s) scope of None \<Rightarrow> s | Some st \<Rightarrow> put_scope scope (st\<lparr>ss_admitting := False\<rparr>) s)"

text \<open>
  Finishing a scope releases its records. Cells that nothing else refers to, which
  \<open>unique\<close> tells, are recycled while the cache has room.
\<close>

fun recycle_records :: "nat \<Rightarrow> (task_id \<Rightarrow> bool) \<Rightarrow> (task_id \<Rightarrow> 'p task_record) \<Rightarrow> task_id list
    \<Rightarrow> 'p task_record list \<Rightarrow> 'p task_record list result_p" where
  "recycle_records limit unique cells [] cache = Inr cache"
| "recycle_records limit unique cells (t # ts) cache =
     (if length cache < limit \<and> unique t then
        case record_recycle (cells t) of
          Inl p \<Rightarrow> Inl p
        | Inr (cell, _) \<Rightarrow> recycle_records limit unique cells ts (cell # cache)
      else recycle_records limit unique cells ts cache)"

definition finish_scope :: "(task_id \<Rightarrow> bool) \<Rightarrow> u64 \<Rightarrow> ('p, 'e, 'd) shared \<Rightarrow> ('p, 'e, 'd) shared result_p" where
  "finish_scope unique scope s =
     (case (case kv_get (sh_scopes s) scope of
              None \<Rightarrow> Inr s
            | Some st \<Rightarrow>
                if sh_record_count s < length (ss_records st) then Inl (Panic ''attempt to subtract with overflow'')
                else map_sum id
                  (\<lambda>cache. s\<lparr>sh_scopes := kv_del scope (sh_scopes s),
                             sh_record_count := sh_record_count s - length (ss_records st), sh_record_cache := cache\<rparr>)
                  (recycle_records (cf_stack_cache_capacity (sh_config s)) unique (sh_cells s) (ss_records st) (sh_record_cache s))) of
        Inl p \<Rightarrow> Inl p
      | Inr s \<Rightarrow>
          let s = (if sh_active_scope s = Some scope then s\<lparr>sh_active_scope := None\<rparr> else s);
              s = s\<lparr>sh_abort_requested := \<not> sh_accepting s \<or> list_ex (\<lambda>(_, st). ss_aborting st \<noteq> None) (sh_scopes s)\<rparr> in
          Inr (s\<lparr>sh_inboxes := map (inbox_clear_abort scope) (sh_inboxes s)\<rparr>))"

text \<open>
  The failures of a scope nobody has observed, by task. Records are searched by identity;
  they are sorted, as the invariant below says, so that binary search finds them.
\<close>

definition find_record :: "task_id \<Rightarrow> task_id list \<Rightarrow> nat option" where
  "find_record t records = position (\<lambda>r. r = t) records"

definition child_failure :: "('p \<Rightarrow> string) \<Rightarrow> 'p task_record \<Rightarrow> error option" where
  "child_failure message r =
     (case tr_failure r of
        Some reason \<Rightarrow> Some (TaskAborted (tr_id r) reason)
      | None \<Rightarrow> map_option (\<lambda>p. TaskPanicked (tr_id r) (message p)) (tr_panic r))"

definition unobserved :: "('p \<Rightarrow> string) \<Rightarrow> u64 \<Rightarrow> ('p, 'e, 'd) shared \<Rightarrow> error list" where
  "unobserved message scope s =
     (case kv_get (sh_scopes s) scope of
        None \<Rightarrow> []
      | Some st \<Rightarrow>
          map snd (sort_key fst (concat (map (\<lambda>t.
            case find_record t (ss_records st) of
              None \<Rightarrow> []
            | Some i \<Rightarrow>
                let r = sh_cells s (ss_records st ! i) in
                if tr_outcome_observed r then []
                else case child_failure message r of None \<Rightarrow> [] | Some e \<Rightarrow> [(tr_id r, e)]) (sp_failed_tasks (ss_progress st))))))"

record shutdown_report =
  rp_completed :: u64
  rp_panicked :: u64
  rp_aborted :: u64
  rp_failed_carriers :: nat

definition scope_report :: "u64 \<Rightarrow> ('p, 'e, 'd) shared \<Rightarrow> shutdown_report" where
  "scope_report scope s =
     (case kv_get (sh_scopes s) scope of
        None \<Rightarrow> \<lparr>rp_completed = 0, rp_panicked = 0, rp_aborted = 0, rp_failed_carriers = 0\<rparr>
      | Some st \<Rightarrow> \<lparr>rp_completed = sp_completed (ss_progress st), rp_panicked = sp_panicked (ss_progress st),
                   rp_aborted = sp_aborted (ss_progress st), rp_failed_carriers = states_failed (sh_carrier_states s)\<rparr>)"

section \<open>Admission\<close>

record reservation =
  rv_id :: task_id
  rv_owner :: carrier_id

text \<open>Records whose outcome was observed make room, across all scopes.\<close>

definition reclaimable :: "(task_id \<Rightarrow> 'p task_record) \<Rightarrow> task_id \<Rightarrow> bool" where
  "reclaimable cells t \<longleftrightarrow> is_terminal (tr_status (cells t)) \<and> tr_outcome_observed (cells t)"

fun reclaim_scopes :: "(task_id \<Rightarrow> 'p task_record) \<Rightarrow> task_id list \<Rightarrow> (u64 \<times> scope_state) list \<Rightarrow> (u64 \<times> scope_state) list \<times> task_id list" where
  "reclaim_scopes cells reclaimed [] = ([], reclaimed)"
| "reclaim_scopes cells reclaimed ((k, st) # m) =
     (let reclaimed = reclaimed @ filter (reclaimable cells) (ss_records st);
          st = st\<lparr>ss_records := filter (\<lambda>t. \<not> reclaimable cells t) (ss_records st),
                  ss_progress := retain_failed_tasks (\<lambda>t. t \<notin> set reclaimed) (ss_progress st)\<rparr>;
          (m, reclaimed) = reclaim_scopes cells reclaimed m in
      ((k, st) # m, reclaimed))"

definition reclaim :: "('p, 'e, 'd) shared \<Rightarrow> ('p, 'e, 'd) shared result_p" where
  "reclaim s =
     (if sh_record_count s < cf_max_vthreads (sh_config s) then Inr s
      else let (scopes, reclaimed) = reclaim_scopes (sh_cells s) [] (sh_scopes s) in
           if sh_record_count s < length reclaimed then Inl (Panic ''attempt to subtract with overflow'')
           else Inr (s\<lparr>sh_scopes := scopes, sh_record_count := sh_record_count s - length reclaimed\<rparr>))"

text \<open>The carrier of a new task: its parent's for a local one, a least loaded one otherwise.\<close>

definition choose_owner :: "carrier_id option \<Rightarrow> ('p, 'e, 'd) shared \<Rightarrow> (nat option result \<times> ('p, 'e, 'd) shared) result_p" where
  "choose_owner local s =
     (case local of
        Some carrier \<Rightarrow>
          if length (sh_inboxes s) \<le> carrier then Inl (Panic ''index out of bounds'')
          else if ib_stopped (sh_inboxes s ! carrier) then Inr (Inl RuntimeStopped, s)
          else Inr (Inr (Some carrier), s)
      | None \<Rightarrow>
          map_sum id (\<lambda>(owner, loads). (Inr owner, s\<lparr>sh_loads := loads\<rparr>))
            (select_carrier (sh_cursor s) (\<lambda>c. ib_retired (sh_inboxes s ! c)) (\<lambda>c. inbox_can_accept (sh_inboxes s ! c)) (sh_loads s)))"

definition fresh_record :: "task_id \<Rightarrow> u64 \<Rightarrow> task_id option \<Rightarrow> task_options \<Rightarrow> utf8 \<Rightarrow> carrier_id \<Rightarrow> 'p task_record" where
  "fresh_record t scope parent options name owner =
     \<lparr>tr_id = t, tr_scope = scope, tr_parent = parent, tr_options = Some options, tr_name = name, tr_carrier = owner,
      tr_deadline = None, tr_failure = None, tr_status = StatusQueued, tr_parks = 0, tr_last_suspension = None,
      tr_last_wake = None, tr_outcome_observed = False, tr_panic = None\<rparr>"

text \<open>Entering a chosen task into the books.\<close>

definition enter_task :: "u64 \<Rightarrow> 'p task_record \<Rightarrow> nat \<Rightarrow> ('p, 'e, 'd) shared \<Rightarrow> ('p, 'e, 'd) shared result_p" where
  "enter_task scope task owner s =
     (case (case sh_record_cache s of
              [] \<Rightarrow> Inr (task, [])
            | cell # cache \<Rightarrow> map_sum id (\<lambda>r. (r, cache)) (record_reuse cell task)) of
        Inl p \<Rightarrow> Inl p
      | Inr (r, cache) \<Rightarrow>
          (case loads_increment owner (sh_loads s) of
             Inl p \<Rightarrow> Inl p
           | Inr loads \<Rightarrow>
               let s = s\<lparr>sh_record_cache := cache, sh_cells := (sh_cells s)(tr_id task := r),
                         sh_record_count := sh_record_count s + 1, sh_loads := loads, sh_admitted := sh_admitted s + 1\<rparr> in
               (case (case kv_get (sh_scopes s) scope of
                        None \<Rightarrow> Inr s
                      | Some st \<Rightarrow>
                          (case checked_add (ss_admitted st) 1 of
                             None \<Rightarrow> Inl (Panic ''scope admission count overflow'')
                           | Some admitted \<Rightarrow>
                               Inr (put_scope scope (st\<lparr>ss_records := ss_records st @ [tr_id task], ss_admitted := admitted,
                                      ss_progress := publish_admitted admitted (tracks_stalls s) (ss_progress st)\<rparr>) s))) of
                  Inl p \<Rightarrow> Inl p
                | Inr s \<Rightarrow>
                    if sh_inboxes s = [] then Inl (Panic ''attempt to calculate the remainder with a divisor of zero'')
                    else let s = s\<lparr>sh_cursor := (owner + 1) mod length (sh_inboxes s)\<rparr> in
                         Inr (if tracks_stalls s then changed_notify s else s))))"

definition MAX_NAME_BYTES :: nat where "MAX_NAME_BYTES = 128"

text \<open>
  Reserving a task: \<open>local\<close> names the carrier, the parent and the options of a borrowed child.
  The state after an error keeps what was done before it: reclaimed records, the refreshed
  load and the count of rejections.
\<close>

definition reserve_with :: "runtime_env \<Rightarrow> u64 \<Rightarrow> utf8 \<Rightarrow> (carrier_id \<times> task_id \<times> task_options) option \<Rightarrow> instant option
    \<Rightarrow> spawn_parent option \<Rightarrow> ('p, 'e, 'd) shared \<Rightarrow> (reservation result \<times> ('p, 'e, 'd) shared) result_p" where
  "reserve_with env scope name local deadline parent s =
     (if blank name then Inr (Inl (InvalidConfiguration TaskName ''must not be empty''), s)
      else if MAX_NAME_BYTES < text_len name then Inr (Inl (LimitExceeded TaskNameBytes MAX_NAME_BYTES), s)
      else case kv_get (sh_scopes s) scope of
        None \<Rightarrow> Inr (Inl ScopeClosed, s)
      | Some st \<Rightarrow>
          if local = None \<and> \<not> ss_admitting st then Inr (Inl ScopeClosed, s)
          else if \<not> sh_accepting s \<or> ss_aborting st \<noteq> None then Inr (Inl RuntimeStopped, s)
          else let options = (case local of None \<Rightarrow> options_spawned env (ss_options st) scope parent deadline
                                          | Some (_, _, own) \<Rightarrow> own) in
            case options_check env options of
              Inl e \<Rightarrow> Inr (Inl e, s)
            | Inr _ \<Rightarrow>
              (case reclaim s of
                 Inl p \<Rightarrow> Inl p
               | Inr s \<Rightarrow>
                   if cf_max_vthreads (sh_config s) \<le> sh_record_count s then
                     Inr (Inl (Capacity Tasks (cf_max_vthreads (sh_config s))), s\<lparr>sh_rejected := sh_rejected s + 1\<rparr>)
                   else case choose_owner (map_option fst local) s of
                     Inl p \<Rightarrow> Inl p
                   | Inr (Inl e, s) \<Rightarrow> Inr (Inl e, s)
                   | Inr (Inr None, s) \<Rightarrow>
                       Inr (Inl (Capacity CarrierQueue (cf_carrier_queue_capacity (sh_config s))), s\<lparr>sh_rejected := sh_rejected s + 1\<rparr>)
                   | Inr (Inr (Some owner), s) \<Rightarrow>
                       (case task_id_new (sh_next_task s) of
                          Inl p \<Rightarrow> Inl p
                        | Inr t \<Rightarrow>
                            (case checked_add (sh_next_task s) 1 of
                               None \<Rightarrow> Inr (Inl (Fault Scheduler ''task id space exhausted''), s)
                             | Some next \<Rightarrow>
                                 let task = fresh_record t scope
                                       (case local of Some (_, p, _) \<Rightarrow> Some p | None \<Rightarrow> map_option pa_id parent) options name owner in
                                 map_sum id (\<lambda>s. (Inr \<lparr>rv_id = t, rv_owner = owner\<rparr>, s))
                                   (enter_task scope task owner (s\<lparr>sh_next_task := next\<rparr>))))))"

text \<open>Giving a reservation back.\<close>

definition release_reservation :: "task_id \<Rightarrow> ('p, 'e, 'd) shared \<Rightarrow> ('p, 'e, 'd) shared result_p" where
  "release_reservation t s =
     (let r = sh_cells s t in
      if sh_record_count s = 0 then Inl (Panic ''attempt to subtract with overflow'')
      else case loads_decrement (tr_carrier r) (sh_loads s) of
             Inl p \<Rightarrow> Inl p
           | Inr loads \<Rightarrow>
               let s = s\<lparr>sh_record_count := sh_record_count s - 1, sh_loads := loads,
                         sh_admitted := sh_admitted s - 1, sh_rejected := sh_rejected s + 1\<rparr> in
               (case (case kv_get (sh_scopes s) (tr_scope r) of
                        None \<Rightarrow> Inr s
                      | Some st \<Rightarrow>
                          (case find_record (tr_id r) (ss_records st) of
                             None \<Rightarrow> Inl (Panic ''reserved task belongs to its scope'')
                           | Some index \<Rightarrow>
                               let admitted = ss_admitted st - 1 in
                               Inr (put_scope (tr_scope r) (st\<lparr>ss_records := remove_at index (ss_records st), ss_admitted := admitted,
                                      ss_progress := publish_admitted admitted (tracks_stalls s) (ss_progress st)\<rparr>) s))) of
                  Inl p \<Rightarrow> Inl p
                | Inr s \<Rightarrow> Inr (changed_notify s)))"

text \<open>
  Handing a reserved packet to its carrier, without the state lock. A refused packet's
  reservation is then given back, and the error says why.
\<close>

definition push_packet :: "nat \<Rightarrow> 'e spawn_packet \<Rightarrow> ('p, 'e, 'd) shared \<Rightarrow> (bool \<times> ('p, 'e, 'd) shared) result_p" where
  "push_packet owner packet s =
     (if length (sh_inboxes s) \<le> owner then Inl (Panic ''index out of bounds'')
      else let (r, inbox) = inbox_push packet (sh_inboxes s ! owner) in
           Inr (case r of Inl _ \<Rightarrow> False | Inr _ \<Rightarrow> True, s\<lparr>sh_inboxes := (sh_inboxes s)[owner := inbox]\<rparr>))"

definition refusal :: "nat \<Rightarrow> ('p, 'e, 'd) shared \<Rightarrow> error" where
  "refusal owner s =
     (if ib_stopped (sh_inboxes s ! owner) then RuntimeStopped
      else Capacity CarrierQueue (cf_carrier_queue_capacity (sh_config s)))"

definition submit_with :: "runtime_env \<Rightarrow> u64 \<Rightarrow> instant option \<Rightarrow> utf8 \<Rightarrow> 'e \<Rightarrow> spawn_parent option
    \<Rightarrow> ('p, 'e, 'd) shared \<Rightarrow> (task_id result \<times> ('p, 'e, 'd) shared) result_p" where
  "submit_with env scope deadline name entry parent s =
     (case reserve_with env scope name None deadline parent s of
        Inl p \<Rightarrow> Inl p
      | Inr (Inl e, s) \<Rightarrow> Inr (Inl e, s)
      | Inr (Inr rv, s) \<Rightarrow>
          (case push_packet (rv_owner rv) \<lparr>pk_task = rv_id rv, pk_entry = Some entry\<rparr> s of
             Inl p \<Rightarrow> Inl p
           | Inr (True, s) \<Rightarrow> Inr (Inr (rv_id rv), s)
           | Inr (False, s) \<Rightarrow>
               map_sum id (\<lambda>s. (Inl (refusal (rv_owner rv) s), s)) (release_reservation (rv_id rv) s)))"

section \<open>Completion and transitions\<close>

text \<open>
  Completing a task, under its record's lock: nothing for a task that is terminal already.
\<close>

definition prepare_completion :: "task_id \<Rightarrow> task_failure option \<Rightarrow> ('p, 'e, 'd) shared \<Rightarrow> completion_update option \<times> ('p, 'e, 'd) shared" where
  "prepare_completion t failure s =
     (let r = sh_cells s t in
      if is_terminal (tr_status r) then (None, s)
      else let status = (if failure \<noteq> None then StatusAborted else if tr_panic r \<noteq> None then StatusPanicked else StatusCompleted);
               r = r\<lparr>tr_failure := failure, tr_deadline := None, tr_status := status\<rparr> in
           (Some \<lparr>cu_id = tr_id r, cu_scope = tr_scope r, cu_carrier = tr_carrier r, cu_status = status\<rparr>,
            s\<lparr>sh_cells := (sh_cells s)(t := r)\<rparr>))"

text \<open>
  Publishing a batch: first to its scope, whose progress outlives the lock, then to the
  carrier's inbox, then to the waiters of the runtime, if any have reason to look.
\<close>

definition publish_progress :: "completion_batch \<Rightarrow> ('p, 'e, 'd) shared \<Rightarrow> bool \<times> ('p, 'e, 'd) shared" where
  "publish_progress b s =
     (case cb_first b of
        None \<Rightarrow> (False, s)
      | Some first \<Rightarrow>
          (case kv_get (sh_scopes s) (cu_scope first) of
             None \<Rightarrow> (False, s)
           | Some st \<Rightarrow>
               let (drained, p) = scope_retire (cb_len b) (cb_completed b) (cb_panicked b) (cb_aborted b) (cb_failed_tasks b)
                                    (tracks_stalls s) (ss_progress st) in
               (drained, put_scope (cu_scope first) (st\<lparr>ss_progress := p\<rparr>) s)))"

definition publish_inbox :: "completion_batch \<Rightarrow> bool \<Rightarrow> ('p, 'e, 'd) shared \<Rightarrow> ('p, 'e, 'd) shared result_p" where
  "publish_inbox b drained s =
     (case cb_first b of
        None \<Rightarrow> Inr s
      | Some first \<Rightarrow>
          let c = cu_carrier first in
          if length (sh_inboxes s) \<le> c then Inl (Panic ''index out of bounds'')
          else let s = s\<lparr>sh_inboxes := (sh_inboxes s)[c := inbox_retire_tasks (cb_len b) (sh_inboxes s ! c)]\<rparr> in
               Inr (if drained \<or> sh_target_waiters s \<noteq> 0 \<or> tracks_stalls s then changed_notify s else s))"

definition publish_completions :: "completion_batch \<Rightarrow> ('p, 'e, 'd) shared \<Rightarrow> ('p, 'e, 'd) shared result_p" where
  "publish_completions b s = (case publish_progress b s of (drained, s) \<Rightarrow> publish_inbox b drained s)"

definition may_defer_completion :: "('p, 'e, 'd) shared \<Rightarrow> bool" where
  "may_defer_completion s \<longleftrightarrow> sh_target_waiters s = 0 \<and> \<not> tracks_stalls s"

text \<open>A change of a task's record; with a stall policy it counts as activity of its scope.\<close>

definition transition :: "task_id \<Rightarrow> ('p task_record \<Rightarrow> 'p task_record) \<Rightarrow> ('p, 'e, 'd) shared \<Rightarrow> ('p, 'e, 'd) shared" where
  "transition t update s =
     (let s' = s\<lparr>sh_cells := (sh_cells s)(t := update (sh_cells s t))\<rparr> in
      if \<not> tracks_stalls s then s'
      else changed_notify
        (case kv_get (sh_scopes s') (tr_scope (sh_cells s' t)) of
           None \<Rightarrow> s'
         | Some st \<Rightarrow> put_scope (tr_scope (sh_cells s' t)) (st\<lparr>ss_progress := record_activity 1 (ss_progress st)\<rparr>) s'))"

end
