(* ===== verification/Control_Ledger.thy ===== *)
theory Control_Ledger
  imports Scope_Progress
begin

text \<open>
  The books a runtime keeps of its tasks, abstractly: for each open scope how many tasks it
  admitted and retired and which records it retains, for each carrier how many tasks it was
  assigned and has retired, and which tasks are where between admission and retirement. The
  invariant says that the counts are those of the sets; each transaction keeps it.
\<close>

section \<open>Books\<close>

record book =
  bk_admitted :: u64
  bk_published :: u64
  bk_retired :: u64
  bk_records :: "task_id list"

text \<open>
  Tasks in flight count against their carrier, unretired ones against their scope; a reserved
  task may still be given back, a prepared one is terminal and waits in a batch. A batch that
  was published to its scope is still to be settled with its carrier.
\<close>

record ledger =
  lg_books :: "u64 \<Rightarrow> book option"
  lg_next :: task_id
  lg_count :: nat
  lg_assigned :: "carrier_id \<Rightarrow> u64"
  lg_retired :: "carrier_id \<Rightarrow> u64"
  lg_scope :: "task_id \<Rightarrow> u64"
  lg_carrier :: "task_id \<Rightarrow> carrier_id"
  lg_done :: "task_id \<Rightarrow> bool"
  lg_unretired :: "task_id set"
  lg_inflight :: "task_id set"
  lg_reserved :: "task_id set"
  lg_prepared :: "task_id set"
  lg_batches :: "(nat \<times> carrier_id \<times> task_id set) list"

definition of_scope_set :: "ledger \<Rightarrow> u64 \<Rightarrow> task_id set" where
  "of_scope_set L k = {t \<in> lg_unretired L. lg_scope L t = k}"

definition of_carrier_set :: "ledger \<Rightarrow> carrier_id \<Rightarrow> task_id set" where
  "of_carrier_set L c = {t \<in> lg_inflight L. lg_carrier L t = c}"

definition sets_ok :: "nat \<Rightarrow> ledger \<Rightarrow> bool" where
  "sets_ok n L \<longleftrightarrow>
     finite (lg_inflight L) \<and> lg_unretired L \<subseteq> lg_inflight L
     \<and> lg_reserved L \<subseteq> lg_unretired L \<and> lg_prepared L \<subseteq> lg_unretired L
     \<and> (\<forall>t \<in> lg_inflight L. t < lg_next L \<and> lg_carrier L t < n)
     \<and> (\<forall>t \<in> lg_unretired L. lg_books L (lg_scope L t) \<noteq> None \<and> (lg_done L t \<longleftrightarrow> t \<in> lg_prepared L))
     \<and> (\<forall>t \<in> lg_reserved L. \<not> lg_done L t \<and> (\<forall>b. lg_books L (lg_scope L t) = Some b \<longrightarrow> t \<in> set (bk_records b)))"

definition book_ok :: "ledger \<Rightarrow> u64 \<Rightarrow> book \<Rightarrow> bool" where
  "book_ok L k b \<longleftrightarrow>
     bk_published b = bk_admitted b \<and> bk_admitted b < lg_next L
     \<and> unat (bk_admitted b) = unat (bk_retired b) + card (of_scope_set L k)
     \<and> sorted_wrt (<) (bk_records b)
     \<and> (\<forall>t \<in> set (bk_records b). t < lg_next L \<and> lg_scope L t = k \<and> (\<not> lg_done L t \<longrightarrow> t \<in> lg_unretired L))"

definition carrier_ok :: "ledger \<Rightarrow> carrier_id \<Rightarrow> bool" where
  "carrier_ok L c \<longleftrightarrow>
     unat (lg_assigned L c) = unat (lg_retired L c) + card (of_carrier_set L c) \<and> lg_assigned L c < lg_next L"

definition batches_ok :: "ledger \<Rightarrow> bool" where
  "batches_ok L \<longleftrightarrow>
     (\<forall>(len, c, ids) \<in> set (lg_batches L). ids \<subseteq> lg_inflight L - lg_unretired L \<and> len = card ids \<and> (\<forall>t \<in> ids. lg_carrier L t = c))
     \<and> sorted_wrt (\<lambda>x y. snd (snd x) \<inter> snd (snd y) = {}) (lg_batches L)"

definition record_total :: "(u64 \<Rightarrow> book option) \<Rightarrow> nat" where
  "record_total books = (\<Sum>k \<in> dom books. length (bk_records (the (books k))))"

definition ledger_ok :: "nat \<Rightarrow> nat \<Rightarrow> ledger \<Rightarrow> bool" where
  "ledger_ok n limit L \<longleftrightarrow>
     0 < lg_next L \<and> sets_ok n L \<and> (\<forall>k b. lg_books L k = Some b \<longrightarrow> book_ok L k b) \<and> (\<forall>c < n. carrier_ok L c) \<and> batches_ok L
     \<and> finite (dom (lg_books L)) \<and> lg_count L = record_total (lg_books L) \<and> lg_count L \<le> limit"

lemma ledger_okI:
  assumes "0 < lg_next L" "sets_ok n L" "\<And>k b. lg_books L k = Some b \<Longrightarrow> book_ok L k b" "\<And>c. c < n \<Longrightarrow> carrier_ok L c"
    "batches_ok L" "finite (dom (lg_books L))" "lg_count L = record_total (lg_books L)" "lg_count L \<le> limit"
  shows "ledger_ok n limit L"
  using assms by (simp add: ledger_ok_def)

lemma ledger_okD:
  assumes "ledger_ok n limit L"
  shows "0 < lg_next L" "sets_ok n L" "\<And>k b. lg_books L k = Some b \<Longrightarrow> book_ok L k b" "\<And>c. c < n \<Longrightarrow> carrier_ok L c"
    "batches_ok L" "finite (dom (lg_books L))" "lg_count L = record_total (lg_books L)" "lg_count L \<le> limit"
  using assms by (simp_all add: ledger_ok_def)

lemma total_put:
  assumes "finite (dom books)"
  shows "record_total (books(k \<mapsto> b)) = record_total (books(k := None)) + length (bk_records b)"
proof -
  have d: "dom (books(k \<mapsto> b)) = insert k (dom books - {k})" "dom (books(k := None)) = dom books - {k}" by auto
  have "(\<Sum>x \<in> dom books - {k}. length (bk_records (the ((books(k \<mapsto> b)) x)))) = (\<Sum>x \<in> dom books - {k}. length (bk_records (the ((books(k := None)) x))))"
    by (rule sum.cong) auto
  then show ?thesis using assms unfolding record_total_def d by (simp add: sum.insert_remove)
qed

lemma total_split:
  assumes "finite (dom books)" "books k = Some b"
  shows "record_total books = record_total (books(k := None)) + length (bk_records b)"
  using total_put[OF assms(1), of k b] assms(2) by (simp add: fun_upd_idem)

lemma unretired_finite: "sets_ok n L \<Longrightarrow> finite (lg_unretired L)"
  by (auto simp: sets_ok_def intro: finite_subset)

lemma scope_set_finite: "sets_ok n L \<Longrightarrow> finite (of_scope_set L k)"
  using unretired_finite by (auto simp: of_scope_set_def)

lemma carrier_set_finite: "sets_ok n L \<Longrightarrow> finite (of_carrier_set L c)"
  by (auto simp: of_carrier_set_def sets_ok_def)

section \<open>Transactions\<close>

definition lg_open :: "u64 \<Rightarrow> ledger \<Rightarrow> ledger" where
  "lg_open k L = L\<lparr>lg_books := (lg_books L)(k \<mapsto> \<lparr>bk_admitted = 0, bk_published = 0, bk_retired = 0, bk_records = []\<rparr>)\<rparr>"

definition lg_enter :: "u64 \<Rightarrow> book \<Rightarrow> carrier_id \<Rightarrow> ledger \<Rightarrow> ledger" where
  "lg_enter k b c L =
     (let t = lg_next L in
      L\<lparr>lg_books := (lg_books L)(k \<mapsto> b\<lparr>bk_admitted := bk_admitted b + 1, bk_published := bk_admitted b + 1, bk_records := bk_records b @ [t]\<rparr>),
        lg_next := t + 1, lg_count := lg_count L + 1, lg_assigned := (lg_assigned L)(c := lg_assigned L c + 1),
        lg_scope := (lg_scope L)(t := k), lg_carrier := (lg_carrier L)(t := c), lg_done := (lg_done L)(t := False),
        lg_unretired := insert t (lg_unretired L), lg_inflight := insert t (lg_inflight L), lg_reserved := insert t (lg_reserved L)\<rparr>)"

definition lg_commit :: "task_id \<Rightarrow> ledger \<Rightarrow> ledger" where
  "lg_commit t L = L\<lparr>lg_reserved := lg_reserved L - {t}\<rparr>"

definition lg_release :: "task_id \<Rightarrow> book \<Rightarrow> ledger \<Rightarrow> ledger" where
  "lg_release t b L =
     L\<lparr>lg_books := (lg_books L)(lg_scope L t \<mapsto> b\<lparr>bk_admitted := bk_admitted b - 1, bk_published := bk_admitted b - 1,
         bk_records := filter (\<lambda>x. x \<noteq> t) (bk_records b)\<rparr>),
       lg_count := lg_count L - 1, lg_assigned := (lg_assigned L)(lg_carrier L t := lg_assigned L (lg_carrier L t) - 1),
       lg_unretired := lg_unretired L - {t}, lg_inflight := lg_inflight L - {t}, lg_reserved := lg_reserved L - {t}\<rparr>"

definition lg_complete :: "task_id \<Rightarrow> ledger \<Rightarrow> ledger" where
  "lg_complete t L = L\<lparr>lg_done := (lg_done L)(t := True), lg_prepared := insert t (lg_prepared L)\<rparr>"

definition lg_retire :: "u64 \<Rightarrow> book \<Rightarrow> carrier_id \<Rightarrow> task_id set \<Rightarrow> ledger \<Rightarrow> ledger" where
  "lg_retire k b c ids L =
     L\<lparr>lg_books := (lg_books L)(k \<mapsto> b\<lparr>bk_retired := bk_retired b + of_nat (card ids)\<rparr>),
       lg_unretired := lg_unretired L - ids, lg_prepared := lg_prepared L - ids,
       lg_batches := lg_batches L @ [(card ids, c, ids)]\<rparr>"

definition lg_settle :: "nat \<Rightarrow> ledger \<Rightarrow> ledger" where
  "lg_settle i L =
     (case lg_batches L ! i of (len, c, ids) \<Rightarrow>
        L\<lparr>lg_retired := (lg_retired L)(c := lg_retired L c + of_nat len), lg_inflight := lg_inflight L - ids,
          lg_batches := remove_at i (lg_batches L)\<rparr>)"

definition lg_reclaim :: "(task_id \<Rightarrow> bool) \<Rightarrow> ledger \<Rightarrow> ledger" where
  "lg_reclaim gone L =
     (let books = (\<lambda>k. map_option (\<lambda>b. b\<lparr>bk_records := filter (\<lambda>t. \<not> gone t) (bk_records b)\<rparr>) (lg_books L k)) in
      L\<lparr>lg_books := books, lg_count := record_total books\<rparr>)"

definition lg_close :: "u64 \<Rightarrow> book \<Rightarrow> ledger \<Rightarrow> ledger" where
  "lg_close k b L = L\<lparr>lg_books := (lg_books L)(k := None), lg_count := lg_count L - length (bk_records b)\<rparr>"

lemma lg_open_ok:
  assumes ok: "ledger_ok n limit L" and new: "lg_books L k = None"
  shows "ledger_ok n limit (lg_open k L)"
proof (rule ledger_okI)
  note L = ledger_okD[OF ok]
  have none: "of_scope_set L k = {}" using L(2) new by (auto simp: of_scope_set_def sets_ok_def)
  show "book_ok (lg_open k L) j b" if "lg_books (lg_open k L) j = Some b" for j b
    using that L(1) L(3)[of j b] none by (auto simp: lg_open_def book_ok_def of_scope_set_def split: if_splits)
  show "sets_ok n (lg_open k L)" using L(2) new by (force simp: lg_open_def sets_ok_def)
  show "lg_count (lg_open k L) = record_total (lg_books (lg_open k L))"
    using L(7) total_put[OF L(6), of k] new by (simp add: lg_open_def fun_upd_idem)
qed (use ledger_okD[OF ok] in \<open>auto simp: lg_open_def carrier_ok_def batches_ok_def of_carrier_set_def\<close>)

lemma lg_commit_ok:
  assumes "ledger_ok n limit L"
  shows "ledger_ok n limit (lg_commit t L)"
proof (rule ledger_okI)
  show "sets_ok n (lg_commit t L)" using ledger_okD(2)[OF assms] by (auto simp: lg_commit_def sets_ok_def)
qed (use ledger_okD[OF assms] in \<open>auto simp: lg_commit_def carrier_ok_def batches_ok_def of_carrier_set_def book_ok_def of_scope_set_def\<close>)

lemma lg_complete_ok:
  assumes ok: "ledger_ok n limit L" and t: "t \<in> lg_unretired L" "t \<notin> lg_reserved L"
  shows "ledger_ok n limit (lg_complete t L)"
proof (rule ledger_okI)
  note L = ledger_okD[OF ok]
  show "sets_ok n (lg_complete t L)" using L(2) t by (auto simp: lg_complete_def sets_ok_def)
  show "book_ok (lg_complete t L) k b" if "lg_books (lg_complete t L) k = Some b" for k b
    using that L(3)[of k b] by (auto simp: lg_complete_def book_ok_def of_scope_set_def)
qed (use ledger_okD[OF ok] in \<open>auto simp: lg_complete_def carrier_ok_def batches_ok_def of_carrier_set_def\<close>)

lemma next_below:
  fixes a b :: u64
  assumes "a < b" "unat b + 1 < 2 ^ 64"
  shows "a < b + 1" "unat (b + 1) = unat b + 1" "b < b + 1"
  using assms by (simp_all add: word_less_nat_alt unat_word_ariths)

lemma enter_sets:
  assumes sets: "sets_ok n L" and b: "lg_books L k = Some b" and c: "c < n"
    and up: "\<And>x. x < lg_next L \<Longrightarrow> x < lg_next L + 1" "lg_next L < lg_next L + 1"
  shows "sets_ok n (lg_enter k b c L)"
proof -
  let ?t = "lg_next L" and ?L = "lg_enter k b c L"
  have S: "finite (lg_inflight L)" "lg_unretired L \<subseteq> lg_inflight L" "lg_reserved L \<subseteq> lg_unretired L" "lg_prepared L \<subseteq> lg_unretired L"
    "\<And>x. x \<in> lg_inflight L \<Longrightarrow> x < ?t \<and> lg_carrier L x < n"
    "\<And>x. x \<in> lg_unretired L \<Longrightarrow> lg_books L (lg_scope L x) \<noteq> None \<and> (lg_done L x \<longleftrightarrow> x \<in> lg_prepared L)"
    "\<And>x b. x \<in> lg_reserved L \<Longrightarrow> \<not> lg_done L x \<and> (lg_books L (lg_scope L x) = Some b \<longrightarrow> x \<in> set (bk_records b))"
    using sets by (auto simp: sets_ok_def)
  have fresh: "?t \<notin> lg_inflight L" "?t \<notin> lg_unretired L" "?t \<notin> lg_reserved L" "?t \<notin> lg_prepared L" using S(2-5) by auto
  show ?thesis unfolding sets_ok_def
  proof (intro conjI ballI)
    fix x assume x: "x \<in> lg_inflight ?L"
    show "x < lg_next ?L" "lg_carrier ?L x < n" using x S(5)[of x] up c by (auto simp: lg_enter_def Let_def)
  next
    fix x assume x: "x \<in> lg_unretired ?L"
    show "lg_books ?L (lg_scope ?L x) \<noteq> None" using x S(6)[of x] by (auto simp: lg_enter_def Let_def)
    show "lg_done ?L x \<longleftrightarrow> x \<in> lg_prepared ?L" using x S(6)[of x] fresh by (auto simp: lg_enter_def Let_def)
  next
    fix x assume x: "x \<in> lg_reserved ?L"
    show "\<not> lg_done ?L x" using x S(7)[of x] by (auto simp: lg_enter_def Let_def)
    show "\<forall>b'. lg_books ?L (lg_scope ?L x) = Some b' \<longrightarrow> x \<in> set (bk_records b')"
    proof (cases "x = ?t")
      case False
      then have "x \<in> lg_reserved L" using x by (simp add: lg_enter_def Let_def)
      then show ?thesis using S(7)[of x] b False by (auto simp: lg_enter_def Let_def)
    qed (simp add: lg_enter_def Let_def)
  qed (use S in \<open>auto simp: lg_enter_def Let_def\<close>)
qed

lemma lg_enter_ok:
  assumes ok: "ledger_ok n limit L" and b: "lg_books L k = Some b" and c: "c < n" and room: "lg_count L < limit"
    and nx: "unat (lg_next L) + 1 < 2 ^ 64"
  shows "ledger_ok n limit (lg_enter k b c L)"
proof (rule ledger_okI)
  note L = ledger_okD[OF ok]
  let ?t = "lg_next L" and ?L = "lg_enter k b c L"
  have up: "x < ?t + 1" if "x < ?t" for x using next_below(1)[OF that nx] .
  have t: "?t < ?t + 1" "unat (?t + 1) = unat ?t + 1" using nx by (simp_all add: word_less_nat_alt unat_word_ariths)
  have fresh: "?t \<notin> lg_inflight L" using L(2) by (auto simp: sets_ok_def)
  then have fresh': "?t \<notin> lg_unretired L" using L(2) by (auto simp: sets_ok_def)
  show "0 < lg_next ?L" using up[OF L(1)] by (simp add: lg_enter_def Let_def)
  show "sets_ok n ?L" by (rule enter_sets[OF L(2) b c up t(1)])
  have scope: "of_scope_set ?L j = (if j = k then insert ?t (of_scope_set L k) else of_scope_set L j)" for j
    using fresh' by (auto simp: of_scope_set_def lg_enter_def Let_def)
  have carrier: "of_carrier_set ?L d = (if d = c then insert ?t (of_carrier_set L c) else of_carrier_set L d)" for d
    using fresh by (auto simp: of_carrier_set_def lg_enter_def Let_def)
  have new: "?t \<notin> of_scope_set L k" "?t \<notin> of_carrier_set L c" using fresh fresh' by (auto simp: of_scope_set_def of_carrier_set_def)
  have succ: "unat (a + 1) = unat a + 1" "a + 1 < ?t + 1" if "a < ?t" for a :: u64
  proof -
    show "unat (a + 1) = unat a + 1" using succ_below(1)[OF that] .
    then show "a + 1 < ?t + 1" using that t(2) by (simp add: word_less_nat_alt)
  qed
  show "book_ok ?L j b'" if "lg_books ?L j = Some b'" for j b'
  proof (cases "j = k")
    case True
    note bk = L(3)[OF b]
    have b': "b' = b\<lparr>bk_admitted := bk_admitted b + 1, bk_published := bk_admitted b + 1, bk_records := bk_records b @ [?t]\<rparr>"
      using that True by (simp add: lg_enter_def Let_def)
    have f: "lg_next ?L = ?t + 1" "lg_scope ?L = (lg_scope L)(?t := k)" "lg_done ?L = (lg_done L)(?t := False)"
      "lg_unretired ?L = insert ?t (lg_unretired L)" by (simp_all add: lg_enter_def Let_def)
    have a: "bk_admitted b < ?t" using bk by (simp add: book_ok_def)
    have cnt: "unat (bk_admitted b + 1) = unat (bk_retired b) + card (of_scope_set ?L k)"
      using succ(1)[OF a] bk scope[of k] new(1) scope_set_finite[OF L(2), of k] by (simp add: book_ok_def)
    have recs: "\<forall>x \<in> set (bk_records b). x < ?t" using bk by (simp add: book_ok_def)
    then have "\<forall>x \<in> set (bk_records b). x \<noteq> ?t" by auto
    then show ?thesis using bk cnt succ(2)[OF a] recs t(1) up True unfolding b' book_ok_def f
      by (auto simp: sorted_wrt_append)
  next
    case False
    then have b': "lg_books L j = Some b'" using that by (simp add: lg_enter_def Let_def)
    have "\<forall>x \<in> set (bk_records b'). x < ?t" using L(3)[OF b'] by (simp add: book_ok_def)
    then have "\<forall>x \<in> set (bk_records b'). x \<noteq> ?t" by auto
    then show ?thesis using L(3)[OF b'] scope[of j] False up by (auto simp: book_ok_def lg_enter_def Let_def)
  qed
  show "carrier_ok ?L d" if "d < n" for d
  proof (cases "d = c")
    case True
    have a: "lg_assigned L c < ?t" using L(4)[OF c] by (simp add: carrier_ok_def)
    show ?thesis using True L(4)[OF c] succ[OF a] carrier[of c] new(2) carrier_set_finite[OF L(2), of c]
      by (simp add: carrier_ok_def) (simp add: lg_enter_def Let_def)
  next
    case False
    then show ?thesis using L(4)[OF that] carrier[of d] up by (simp add: carrier_ok_def) (simp add: lg_enter_def Let_def)
  qed
  have disj: "ids \<subseteq> lg_inflight L - lg_unretired L \<Longrightarrow> ?t \<notin> ids" for ids using fresh by auto
  show "batches_ok ?L"
    using L(5) disj by (fastforce simp: batches_ok_def lg_enter_def Let_def)
  show "lg_count ?L = record_total (lg_books ?L)"
    using L(7) total_put[OF L(6), of k] total_split[OF L(6) b] by (simp add: lg_enter_def Let_def)
qed (use ledger_okD[OF ok] room in \<open>auto simp: lg_enter_def Let_def\<close>)

lemma lg_release_ok:
  assumes ok: "ledger_ok n limit L" and t: "t \<in> lg_reserved L" and b: "lg_books L (lg_scope L t) = Some b"
  shows "ledger_ok n limit (lg_release t b L)" "t \<in> set (bk_records b)" "0 < lg_count L" "0 < unat (lg_assigned L (lg_carrier L t))"
    "lg_carrier L t < n"
proof -
  note L = ledger_okD[OF ok]
  let ?k = "lg_scope L t" and ?c = "lg_carrier L t" and ?L = "lg_release t b L"
  note bk = L(3)[OF b]
  have U: "t \<in> lg_unretired L" "t \<in> lg_inflight L" "\<not> lg_done L t" using t L(2) by (auto simp: sets_ok_def)
  show recs: "t \<in> set (bk_records b)" using t L(2) b by (auto simp: sets_ok_def)
  then have len: "0 < length (bk_records b)" by (cases "bk_records b") auto
  have split: "lg_count L = record_total ((lg_books L)(?k := None)) + length (bk_records b)"
    using L(7) total_split[OF L(6) b] by simp
  with len show "0 < lg_count L" by simp
  show c: "?c < n" using U(2) L(2) by (auto simp: sets_ok_def)
  have "t \<in> of_carrier_set L ?c" using U by (simp add: of_carrier_set_def)
  then have cc: "0 < card (of_carrier_set L ?c)" using carrier_set_finite[OF L(2), of ?c] card_gt_0_iff by blast
  then show as: "0 < unat (lg_assigned L ?c)" using L(4)[OF c] by (simp add: carrier_ok_def)
  have "t \<in> of_scope_set L ?k" using U by (simp add: of_scope_set_def)
  then have sc: "0 < card (of_scope_set L ?k)" using scope_set_finite[OF L(2), of ?k] card_gt_0_iff by blast
  have "sorted_wrt (<) (bk_records b)" using bk by (simp add: book_ok_def)
  then have d: "distinct (bk_records b)" by (simp add: strict_sorted_iff)
  have fl: "length (filter (\<lambda>x. x \<noteq> t) (bk_records b)) + 1 = length (bk_records b)"
  proof -
    have "length (filter (\<lambda>x. x \<noteq> t) (bk_records b)) = card (set (bk_records b) - {t})"
      using d distinct_card[of "filter (\<lambda>x. x \<noteq> t) (bk_records b)"] by (simp add: set_diff_eq)
    also have "\<dots> + 1 = card (set (bk_records b))" using card_Suc_Diff1[OF _ recs] by (simp del: card_Diff_insert)
    finally show ?thesis using distinct_card[OF d] by simp
  qed
  have scope: "of_scope_set ?L j = of_scope_set L j - {t}" for j by (auto simp: of_scope_set_def lg_release_def)
  have carrier: "of_carrier_set ?L j = of_carrier_set L j - {t}" for j by (auto simp: of_carrier_set_def lg_release_def)
  show "ledger_ok n limit ?L"
  proof (rule ledger_okI)
    have "t \<notin> lg_prepared L" using U L(2) by (auto simp: sets_ok_def)
    then show "sets_ok n ?L" using L(2) b by (auto simp: lg_release_def sets_ok_def)
    show "book_ok ?L j b'" if j: "lg_books ?L j = Some b'" for j b'
    proof (cases "j = ?k")
      case True
      have b': "b' = b\<lparr>bk_admitted := bk_admitted b - 1, bk_published := bk_admitted b - 1, bk_records := filter (\<lambda>x. x \<noteq> t) (bk_records b)\<rparr>"
        using j True by (simp add: lg_release_def)
      have ad: "0 < unat (bk_admitted b)" using bk sc by (simp add: book_ok_def)
      have cnt: "unat (bk_admitted b - 1) = unat (bk_retired b) + card (of_scope_set ?L ?k)"
      proof -
        have "card (of_scope_set ?L ?k) + 1 = card (of_scope_set L ?k)"
          using \<open>t \<in> of_scope_set L ?k\<close> sc unfolding scope by simp
        then show ?thesis using bk pred_positive(1)[OF ad] by (simp add: book_ok_def)
      qed
      have "bk_admitted b - 1 < lg_next L" using bk pred_positive(2)[OF ad] by (auto simp: book_ok_def intro: le_less_trans)
      then show ?thesis using bk cnt True unfolding b' book_ok_def
        by (auto simp: lg_release_def of_scope_set_def sorted_wrt_filter)
    next
      case False
      then have b': "lg_books L j = Some b'" using j by (simp add: lg_release_def)
      have "t \<notin> set (bk_records b')" using L(3)[OF b'] False by (auto simp: book_ok_def)
      moreover have "of_scope_set ?L j = of_scope_set L j" using False unfolding scope by (auto simp: of_scope_set_def)
      ultimately show ?thesis using L(3)[OF b'] by (auto simp: book_ok_def lg_release_def)
    qed
    show "carrier_ok ?L d" if "d < n" for d
    proof (cases "d = ?c")
      case True
      have "card (of_carrier_set ?L ?c) + 1 = card (of_carrier_set L ?c)"
        using \<open>t \<in> of_carrier_set L ?c\<close> cc unfolding carrier by simp
      moreover have "lg_assigned L ?c - 1 < lg_next L"
        using L(4)[OF c] pred_positive(2)[OF as] by (auto simp: carrier_ok_def intro: le_less_trans)
      moreover have "lg_assigned ?L ?c = lg_assigned L ?c - 1" "lg_retired ?L = lg_retired L" "lg_next ?L = lg_next L"
        by (simp_all add: lg_release_def)
      ultimately show ?thesis using True L(4)[OF c] pred_positive(1)[OF as] by (simp add: carrier_ok_def)
    next
      case False
      then have "of_carrier_set ?L d = of_carrier_set L d" unfolding carrier by (auto simp: of_carrier_set_def)
      then show ?thesis using False L(4)[OF that] by (simp add: carrier_ok_def) (simp add: lg_release_def)
    qed
    show "batches_ok ?L" using L(5) U by (fastforce simp: batches_ok_def lg_release_def)
    have cut: "lg_count ?L = lg_count L - 1" by (simp add: lg_release_def)
    show "lg_count ?L = record_total (lg_books ?L)"
      using split fl total_put[OF L(6), of ?k] unfolding cut by (simp add: lg_release_def)
    show "lg_count ?L \<le> limit" using L(8) unfolding cut by simp
  qed (use L in \<open>auto simp: lg_release_def\<close>)
qed

lemma lg_retire_ok:
  assumes ok: "ledger_ok n limit L" and b: "lg_books L k = Some b"
    and ids: "ids \<subseteq> lg_prepared L" "\<And>t. t \<in> ids \<Longrightarrow> lg_scope L t = k \<and> lg_carrier L t = c"
  shows "ledger_ok n limit (lg_retire k b c ids L)"
    "bk_retired b + of_nat (card ids) = bk_admitted b \<longleftrightarrow> of_scope_set (lg_retire k b c ids L) k = {}"
proof -
  note L = ledger_okD[OF ok]
  let ?L = "lg_retire k b c ids L"
  have U: "ids \<subseteq> lg_unretired L" using ids(1) L(2) by (auto simp: sets_ok_def)
  then have fin: "finite ids" using finite_subset unretired_finite[OF L(2)] by blast
  have scope: "of_scope_set ?L j = of_scope_set L j - (if j = k then ids else {})" for j
    using ids(2) by (auto simp: of_scope_set_def lg_retire_def)
  have sub: "ids \<subseteq> of_scope_set L k" using U ids(2) by (auto simp: of_scope_set_def)
  note fs = scope_set_finite[OF L(2), of k]
  have count: "card (of_scope_set ?L k) + card ids = card (of_scope_set L k)"
    using card_Diff_subset[OF fin sub] card_mono[OF fs sub] unfolding scope by simp
  note bk = L(3)[OF b]
  have ad: "unat (bk_admitted b) = unat (bk_retired b) + card (of_scope_set L k)" using bk by (simp add: book_ok_def)
  have "unat (bk_retired b) + card ids < 2 ^ 64" using ad count unsigned_less[of "bk_admitted b", where ?'a = nat] by simp
  then have rt: "unat (bk_retired b + of_nat (card ids)) = unat (bk_retired b) + card ids"
    by (simp add: unat_word_ariths unsigned_of_nat take_bit_nat_eq_self)
  show "bk_retired b + of_nat (card ids) = bk_admitted b \<longleftrightarrow> of_scope_set ?L k = {}"
  proof -
    have zero: "bk_retired b + of_nat (card ids) = bk_admitted b \<longleftrightarrow> card (of_scope_set ?L k) = 0"
      unfolding word_unat_eq_iff rt ad using count by arith
    have "finite (of_scope_set ?L k)" using fs unfolding scope by simp
    from trans[OF zero card_0_eq[OF this]] show ?thesis .
  qed
  show "ledger_ok n limit ?L"
  proof (rule ledger_okI)
    have "t \<notin> lg_reserved L" if "t \<in> ids" for t using that ids(1) U L(2) by (auto simp: sets_ok_def)
    then show "sets_ok n ?L" using L(2) b by (auto simp: lg_retire_def sets_ok_def)
    show "book_ok ?L j b'" if j: "lg_books ?L j = Some b'" for j b'
    proof (cases "j = k")
      case True
      have b': "b' = b\<lparr>bk_retired := bk_retired b + of_nat (card ids)\<rparr>" using j True by (simp add: lg_retire_def)
      have dn: "lg_done L t" if "t \<in> ids" for t using that ids(1) U L(2) by (auto simp: sets_ok_def)
      have f: "lg_next ?L = lg_next L" "lg_scope ?L = lg_scope L" "lg_done ?L = lg_done L" "lg_unretired ?L = lg_unretired L - ids"
        by (simp_all add: lg_retire_def)
      show ?thesis using bk ad rt count dn True unfolding b' book_ok_def f by auto
    next
      case False
      then have b': "lg_books L j = Some b'" using j by (simp add: lg_retire_def)
      have dn: "lg_done L t" if "t \<in> ids" for t using that ids(1) U L(2) by (auto simp: sets_ok_def)
      have f: "lg_next ?L = lg_next L" "lg_scope ?L = lg_scope L" "lg_done ?L = lg_done L" "lg_unretired ?L = lg_unretired L - ids"
        by (simp_all add: lg_retire_def)
      show ?thesis using L(3)[OF b'] scope[of j] False dn unfolding book_ok_def f by auto
    qed
    show "carrier_ok ?L d" if "d < n" for d using L(4)[OF that] by (simp add: carrier_ok_def lg_retire_def of_carrier_set_def)
    show "batches_ok ?L"
    proof -
      have old: "js \<subseteq> lg_inflight L - lg_unretired L \<and> l = card js \<and> (\<forall>t \<in> js. lg_carrier L t = d)"
        if "(l, d, js) \<in> set (lg_batches L)" for l d js using that L(5) by (auto simp: batches_ok_def)
      have dis: "js \<inter> ids = {}" if "(l, d, js) \<in> set (lg_batches L)" for l d js using old[OF that] U by blast
      have sw: "sorted_wrt (\<lambda>x y. snd (snd x) \<inter> snd (snd y) = {}) (lg_batches ?L)"
        using L(5) dis by (fastforce simp: batches_ok_def lg_retire_def sorted_wrt_append)
      have new: "ids \<subseteq> lg_inflight ?L - lg_unretired ?L" using U L(2) by (auto simp: lg_retire_def sets_ok_def)
      show ?thesis using sw new old ids(2) unfolding batches_ok_def by (fastforce simp: lg_retire_def)
    qed
    show "lg_count ?L = record_total (lg_books ?L)"
      using L(7) total_put[OF L(6), of k] total_split[OF L(6) b] by (simp add: lg_retire_def)
  qed (use L in \<open>auto simp: lg_retire_def\<close>)
qed

lemma lg_settle_ok:
  assumes ok: "ledger_ok n limit L" and i: "i < length (lg_batches L)" "lg_batches L ! i = (len, c, ids)"
    and nonempty: "ids \<noteq> {}"
  shows "ledger_ok n limit (lg_settle i L)" "c < n"
proof -
  note L = ledger_okD[OF ok]
  let ?L = "lg_settle i L"
  have mem: "(len, c, ids) \<in> set (lg_batches L)" using i nth_mem by metis
  have b: "ids \<subseteq> lg_inflight L - lg_unretired L" "len = card ids" "\<And>t. t \<in> ids \<Longrightarrow> lg_carrier L t = c"
    using L(5) mem by (auto simp: batches_ok_def)
  from nonempty obtain t where t: "t \<in> ids" by blast
  then have "lg_carrier L t < n" using b(1) L(2) by (auto simp: sets_ok_def)
  with b(3)[OF t] show c: "c < n" by simp
  have fin: "finite ids" using b(1) L(2) by (auto simp: sets_ok_def intro: finite_subset)
  have sub: "ids \<subseteq> of_carrier_set L c" using b by (auto simp: of_carrier_set_def)
  have carrier: "of_carrier_set ?L d = of_carrier_set L d - (if d = c then ids else {})" for d
    using i b(3) by (auto simp: of_carrier_set_def lg_settle_def)
  note fc = carrier_set_finite[OF L(2), of c]
  have count: "card (of_carrier_set ?L c) + card ids = card (of_carrier_set L c)"
    using card_Diff_subset[OF fin sub] card_mono[OF fc sub] unfolding carrier by simp
  have as: "unat (lg_assigned L c) = unat (lg_retired L c) + card (of_carrier_set L c)" using L(4)[OF c] by (simp add: carrier_ok_def)
  have "unat (lg_retired L c) + card ids < 2 ^ 64" using as count unsigned_less[of "lg_assigned L c", where ?'a = nat] by simp
  then have rt: "unat (lg_retired L c + of_nat (card ids)) = unat (lg_retired L c) + card ids"
    by (simp add: unat_word_ariths unsigned_of_nat take_bit_nat_eq_self)
  have f: "lg_books ?L = lg_books L" "lg_next ?L = lg_next L" "lg_scope ?L = lg_scope L" "lg_done ?L = lg_done L" "lg_unretired ?L = lg_unretired L"
    "lg_count ?L = lg_count L" "lg_assigned ?L = lg_assigned L" "lg_retired ?L = (lg_retired L)(c := lg_retired L c + of_nat len)"
    "lg_inflight ?L = lg_inflight L - ids" "lg_batches ?L = remove_at i (lg_batches L)" "lg_reserved ?L = lg_reserved L"
    "lg_prepared ?L = lg_prepared L" "lg_carrier ?L = lg_carrier L"
    using i by (simp_all add: lg_settle_def)
  show "ledger_ok n limit ?L"
  proof (rule ledger_okI)
    show "sets_ok n ?L" using L(2) b(1) unfolding sets_ok_def f by blast
    show "book_ok ?L j b'" if "lg_books ?L j = Some b'" for j b'
      using that L(3)[of j b'] unfolding book_ok_def of_scope_set_def f by simp
    show "carrier_ok ?L d" if "d < n" for d
    proof (cases "d = c")
      case True
      then show ?thesis using L(4)[OF c] as rt count b(2) unfolding carrier_ok_def f by simp
    next
      case False
      then show ?thesis using L(4)[OF that] carrier[of d] unfolding carrier_ok_def f by simp
    qed
    show "batches_ok ?L"
    proof -
      have split: "lg_batches L = take i (lg_batches L) @ (len, c, ids) # drop (Suc i) (lg_batches L)"
        using i by (metis id_take_nth_drop)
      have sw: "sorted_wrt (\<lambda>x y. snd (snd x) \<inter> snd (snd y) = {}) (take i (lg_batches L) @ (len, c, ids) # drop (Suc i) (lg_batches L))"
        using L(5) split unfolding batches_ok_def by metis
      have dis: "js \<inter> ids = {}" if "(l, d, js) \<in> set (remove_at i (lg_batches L))" for l d js
        using sw that by (fastforce simp: sorted_wrt_append remove_at_def)
      have mem': "set (remove_at i (lg_batches L)) \<subseteq> set (lg_batches L)"
        by (auto simp: remove_at_def dest: in_set_takeD in_set_dropD)
      have "sorted_wrt (\<lambda>x y. snd (snd x) \<inter> snd (snd y) = {}) (remove_at i (lg_batches L))"
        using sw by (auto simp: sorted_wrt_append remove_at_def)
      moreover have "js \<subseteq> lg_inflight L - ids - lg_unretired L \<and> l = card js \<and> (\<forall>t \<in> js. lg_carrier L t = d)"
        if "(l, d, js) \<in> set (remove_at i (lg_batches L))" for l d js
        using L(5) mem' that dis[OF that] by (fastforce simp: batches_ok_def)
      ultimately show ?thesis unfolding batches_ok_def f by blast
    qed
  qed (use L f in simp_all)
qed

lemma filter_total_le: "finite (dom books) \<Longrightarrow>
  record_total (\<lambda>k. map_option (\<lambda>b. b\<lparr>bk_records := filter P (bk_records b)\<rparr>) (books k)) \<le> record_total books"
proof -
  assume fin: "finite (dom books)"
  have d: "dom (\<lambda>k. map_option (\<lambda>b. b\<lparr>bk_records := filter P (bk_records b)\<rparr>) (books k)) = dom books" by (auto simp: dom_def)
  show ?thesis unfolding record_total_def d by (rule sum_mono) (auto simp: dom_def)
qed

lemma lg_reclaim_ok:
  assumes ok: "ledger_ok n limit L" and gone: "\<And>t. gone t \<Longrightarrow> lg_done L t"
  shows "ledger_ok n limit (lg_reclaim gone L)" "lg_count (lg_reclaim gone L) \<le> lg_count L"
proof -
  note L = ledger_okD[OF ok]
  let ?L = "lg_reclaim gone L"
  have f: "lg_next ?L = lg_next L" "lg_scope ?L = lg_scope L" "lg_done ?L = lg_done L" "lg_unretired ?L = lg_unretired L"
    "lg_assigned ?L = lg_assigned L" "lg_retired ?L = lg_retired L" "lg_inflight ?L = lg_inflight L" "lg_batches ?L = lg_batches L"
    "lg_reserved ?L = lg_reserved L" "lg_prepared ?L = lg_prepared L" "lg_carrier ?L = lg_carrier L"
    "lg_books ?L = (\<lambda>k. map_option (\<lambda>b. b\<lparr>bk_records := filter (\<lambda>t. \<not> gone t) (bk_records b)\<rparr>) (lg_books L k))"
    "lg_count ?L = record_total (lg_books ?L)"
    by (simp_all add: lg_reclaim_def Let_def)
  show le: "lg_count ?L \<le> lg_count L" unfolding f(13) f(12) L(7) by (rule filter_total_le[OF L(6)])
  show "ledger_ok n limit ?L"
  proof (rule ledger_okI)
    show "sets_ok n ?L"
    proof -
      have "\<not> gone t" if "t \<in> lg_reserved L" for t using that gone[of t] L(2) by (auto simp: sets_ok_def)
      then show ?thesis using L(2) unfolding sets_ok_def f by (auto simp: subset_iff)
    qed
    show "book_ok ?L j b'" if "lg_books ?L j = Some b'" for j b'
    proof -
      from that obtain b where b: "lg_books L j = Some b" "b' = b\<lparr>bk_records := filter (\<lambda>t. \<not> gone t) (bk_records b)\<rparr>" unfolding f by auto
      show ?thesis using L(3)[OF b(1)] unfolding b(2) book_ok_def of_scope_set_def f by (auto simp: sorted_wrt_filter)
    qed
    show "carrier_ok ?L d" if "d < n" for d using L(4)[OF that] unfolding carrier_ok_def of_carrier_set_def f .
    show "batches_ok ?L" using L(5) unfolding batches_ok_def f .
    show "finite (dom (lg_books ?L))" using L(6) unfolding f by (simp add: dom_def)
    show "lg_count ?L \<le> limit" using le L(8) by simp
  qed (use L f in simp_all)
qed

lemma lg_close_ok:
  assumes ok: "ledger_ok n limit L" and b: "lg_books L k = Some b" and empty: "of_scope_set L k = {}"
  shows "ledger_ok n limit (lg_close k b L)" "\<And>t. t \<in> set (bk_records b) \<Longrightarrow> lg_done L t" "length (bk_records b) \<le> lg_count L"
proof -
  note L = ledger_okD[OF ok]
  let ?L = "lg_close k b L"
  note split = total_split[OF L(6) b]
  show "\<And>t. t \<in> set (bk_records b) \<Longrightarrow> lg_done L t"
    using L(3)[OF b] empty by (auto simp: book_ok_def of_scope_set_def)
  show "length (bk_records b) \<le> lg_count L" using split L(7) by simp
  show "ledger_ok n limit ?L"
  proof (rule ledger_okI)
    show "sets_ok n ?L" using L(2) empty by (auto simp: lg_close_def sets_ok_def of_scope_set_def)
    show "book_ok ?L j b'" if "lg_books ?L j = Some b'" for j b'
      using that L(3)[of j b'] by (auto simp: lg_close_def book_ok_def of_scope_set_def split: if_splits)
    show "lg_count ?L = record_total (lg_books ?L)" using split L(7) by (simp add: lg_close_def)
    show "finite (dom (lg_books ?L))" using L(6) by (simp add: lg_close_def)
    show "lg_count ?L \<le> limit" using L(8) by (simp add: lg_close_def)
  qed (use L in \<open>auto simp: lg_close_def carrier_ok_def of_carrier_set_def batches_ok_def\<close>)
qed

end
