(* ===== verification/Control.thy ===== *)
theory Control
  imports Control_State Control_Ledger
begin

text \<open>
  The runtime's shared state under any sequence of the operations its owners, spawners and
  carriers perform. Each step is one critical section, or one access outside it, and carries
  the books of \<open>Control_Ledger\<close> along: the invariant says that the counters of the code are
  those of the books, and no step panics.
\<close>

section \<open>States and steps\<close>

record ('p, 'e, 'd) control_sys =
  cy_shared :: "('p, 'e, 'd) shared"
  cy_unretired :: "task_id set"
  cy_inflight :: "task_id set"
  cy_reserved :: "task_id set"
  cy_prepared :: "task_id set"
  cy_batches :: "(completion_batch \<times> bool \<times> task_id set) list"

definition book_of :: "scope_state \<Rightarrow> book" where
  "book_of st = \<lparr>bk_admitted = ss_admitted st, bk_published = sp_admitted (ss_progress st), bk_retired = sp_retired (ss_progress st),
     bk_records = ss_records st\<rparr>"

definition batch_entry :: "completion_batch \<times> bool \<times> task_id set \<Rightarrow> nat \<times> carrier_id \<times> task_id set" where
  "batch_entry x = (case x of (b, d, ids) \<Rightarrow> (cb_len b, (case cb_first b of None \<Rightarrow> 0 | Some f \<Rightarrow> cu_carrier f), ids))"

definition ledger_of :: "('p, 'e, 'd) control_sys \<Rightarrow> ledger" where
  "ledger_of y = (let s = cy_shared y in
     \<lparr>lg_books = (\<lambda>k. map_option book_of (kv_get (sh_scopes s) k)), lg_next = sh_next_task s, lg_count = sh_record_count s,
      lg_assigned = (\<lambda>c. cl_assigned (sh_loads s) ! c), lg_retired = (\<lambda>c. ib_retired (sh_inboxes s ! c)),
      lg_scope = (\<lambda>t. tr_scope (sh_cells s t)), lg_carrier = (\<lambda>t. tr_carrier (sh_cells s t)),
      lg_done = (\<lambda>t. is_terminal (tr_status (sh_cells s t))), lg_unretired = cy_unretired y, lg_inflight = cy_inflight y,
      lg_reserved = cy_reserved y, lg_prepared = cy_prepared y, lg_batches = map batch_entry (cy_batches y)\<rparr>)"

text \<open>
  What happens to the shared state: scopes open, close, abort and finish; tasks are reserved,
  handed to an inbox or committed on their carrier, released, changed, completed, and retired
  in batches; inboxes are served; and the runtime stops.
\<close>

datatype ('p, 'e, 'd) control_event =
    OpenScope runtime_env "instant option" bool
  | Reserve runtime_env u64 utf8 "(carrier_id \<times> task_id \<times> task_options) option" "instant option" "spawn_parent option"
  | PushTask task_id "'e option"
  | CommitTask task_id
  | ReleaseTask task_id
  | ChangeTask task_id "'p task_record \<Rightarrow> 'p task_record"
  | CompleteTask task_id "task_failure option"
  | RetireBatch "completion_update list"
  | SettleBatch nat
  | CloseScope u64
  | AbortScope u64 task_failure
  | FinishScope "task_id \<Rightarrow> bool" u64
  | ServeInbox carrier_id "'e inbox \<Rightarrow> 'e inbox"
  | SetWaiters nat
  | PublishCarrier "'d carrier_snapshot"
  | RequestStop
  | AdvanceShutdown shutdown_phase

definition valid_update :: "('p, 'e, 'd) shared \<Rightarrow> completion_update \<Rightarrow> bool" where
  "valid_update s u \<longleftrightarrow>
     cu_scope u = tr_scope (sh_cells s (cu_id u)) \<and> cu_carrier u = tr_carrier (sh_cells s (cu_id u))
     \<and> cu_status u = tr_status (sh_cells s (cu_id u))"

text \<open>
  \<open>None\<close>: no caller does this in this state. A local reservation names the carrier its parent
  runs on; a change keeps a task's identity, place and options and does not end it; a batch
  holds prepared completions of one scope and one carrier; a scope is finished when its wait
  has seen it drained.
\<close>

fun control_step :: "('p, 'e, 'd) control_event \<Rightarrow> ('p, 'e, 'd) control_sys \<Rightarrow> ('p, 'e, 'd) control_sys result_p option" where
  "control_step (OpenScope env deadline supervised) y =
     Some (Inr (y\<lparr>cy_shared := snd (begin_owned env deadline supervised (cy_shared y))\<rparr>))"
| "control_step (Reserve env scope name local deadline parent) y =
     (if (case local of None \<Rightarrow> False | Some (c, _, own) \<Rightarrow> length (sh_inboxes (cy_shared y)) \<le> c) then None
      else Some (case reserve_with env scope name local deadline parent (cy_shared y) of
        Inl p \<Rightarrow> Inl p
      | Inr (Inl e, s) \<Rightarrow> Inr (y\<lparr>cy_shared := s\<rparr>)
      | Inr (Inr rv, s) \<Rightarrow> Inr (y\<lparr>cy_shared := s, cy_unretired := insert (rv_id rv) (cy_unretired y),
           cy_inflight := insert (rv_id rv) (cy_inflight y), cy_reserved := insert (rv_id rv) (cy_reserved y)\<rparr>)))"
| "control_step (PushTask t entry) y =
     (if t \<notin> cy_reserved y then None
      else Some (case push_packet (tr_carrier (sh_cells (cy_shared y) t)) \<lparr>pk_task = t, pk_entry = entry\<rparr> (cy_shared y) of
        Inl p \<Rightarrow> Inl p
      | Inr (accepted, s) \<Rightarrow> Inr (y\<lparr>cy_shared := s, cy_reserved := (if accepted then cy_reserved y - {t} else cy_reserved y)\<rparr>)))"
| "control_step (CommitTask t) y = Some (Inr (y\<lparr>cy_reserved := cy_reserved y - {t}\<rparr>))"
| "control_step (ReleaseTask t) y =
     (if t \<notin> cy_reserved y then None
      else Some (map_sum id (\<lambda>s. y\<lparr>cy_shared := s, cy_unretired := cy_unretired y - {t}, cy_inflight := cy_inflight y - {t},
             cy_reserved := cy_reserved y - {t}\<rparr>) (release_reservation t (cy_shared y))))"
| "control_step (ChangeTask t update) y =
     (let r = sh_cells (cy_shared y) t; r' = update r in
      if tr_id r' \<noteq> tr_id r \<or> tr_scope r' \<noteq> tr_scope r \<or> tr_carrier r' \<noteq> tr_carrier r \<or> tr_options r' \<noteq> tr_options r
         \<or> is_terminal (tr_status r') \<noteq> is_terminal (tr_status r) then None
      else Some (Inr (y\<lparr>cy_shared := transition t update (cy_shared y)\<rparr>)))"
| "control_step (CompleteTask t failure) y =
     (if t \<notin> cy_unretired y \<or> t \<in> cy_reserved y then None
      else Some (Inr (case prepare_completion t failure (cy_shared y) of
        (None, s) \<Rightarrow> y\<lparr>cy_shared := s\<rparr>
      | (Some u, s) \<Rightarrow> y\<lparr>cy_shared := s, cy_prepared := insert t (cy_prepared y)\<rparr>)))"
| "control_step (RetireBatch us) y =
     (if us = [] \<or> \<not> distinct (map cu_id us)
         \<or> \<not> list_all (\<lambda>u. cu_id u \<in> cy_prepared y \<and> valid_update (cy_shared y) u \<and> cu_scope u = cu_scope (hd us) \<and> cu_carrier u = cu_carrier (hd us)) us
      then None
      else Some (case batch_of us batch_new of
        Inl p \<Rightarrow> Inl p
      | Inr b \<Rightarrow> (case publish_progress b (cy_shared y) of (drained, s) \<Rightarrow>
          Inr (y\<lparr>cy_shared := s, cy_unretired := cy_unretired y - set (map cu_id us), cy_prepared := cy_prepared y - set (map cu_id us),
                 cy_batches := cy_batches y @ [(b, drained, set (map cu_id us))]\<rparr>))))"
| "control_step (SettleBatch i) y =
     (if length (cy_batches y) \<le> i then None
      else Some (case cy_batches y ! i of (b, drained, ids) \<Rightarrow>
        map_sum id (\<lambda>s. y\<lparr>cy_shared := s, cy_inflight := cy_inflight y - ids, cy_batches := remove_at i (cy_batches y)\<rparr>)
          (publish_inbox b drained (cy_shared y))))"
| "control_step (CloseScope k) y = Some (Inr (y\<lparr>cy_shared := close_scope k (cy_shared y)\<rparr>))"
| "control_step (AbortScope k reason) y = Some (Inr (y\<lparr>cy_shared := snd (abort_scope k reason (cy_shared y))\<rparr>))"
| "control_step (FinishScope unique k) y =
     (if (case kv_get (sh_scopes (cy_shared y)) k of None \<Rightarrow> False | Some st \<Rightarrow> scope_active (ss_progress st) \<noteq> Inr 0) then None
      else Some (map_sum id (\<lambda>s. y\<lparr>cy_shared := s\<rparr>) (finish_scope unique k (cy_shared y))))"
| "control_step (ServeInbox c serve) y =
     (let inboxes = sh_inboxes (cy_shared y) in
      if length inboxes \<le> c \<or> ib_retired (serve (inboxes ! c)) \<noteq> ib_retired (inboxes ! c) then None
      else Some (Inr (y\<lparr>cy_shared := (cy_shared y)\<lparr>sh_inboxes := inboxes[c := serve (inboxes ! c)]\<rparr>\<rparr>)))"
| "control_step (SetWaiters n) y = Some (Inr (y\<lparr>cy_shared := (cy_shared y)\<lparr>sh_target_waiters := n\<rparr>\<rparr>))"
| "control_step (PublishCarrier snapshot) y =
     (if length (sh_carrier_states (cy_shared y)) \<le> cs_id snapshot then None
      else Some (map_sum id (\<lambda>s. y\<lparr>cy_shared := s\<rparr>) (publish_snapshot snapshot (cy_shared y))))"
| "control_step RequestStop y = Some (Inr (y\<lparr>cy_shared := snd (request_stop (cy_shared y))\<rparr>))"
| "control_step (AdvanceShutdown phase) y = Some (Inr (y\<lparr>cy_shared := advance_shutdown phase (cy_shared y)\<rparr>))"

inductive control_reach :: "runtime_config \<Rightarrow> ('p, 'e, 'd) control_event list \<Rightarrow> ('p, 'e, 'd) control_sys result_p \<Rightarrow> bool"
  for config :: runtime_config where
  start: "shared_new config root snapshots cells = Inr s \<Longrightarrow>
    control_reach config [] (Inr \<lparr>cy_shared = s, cy_unretired = {}, cy_inflight = {}, cy_reserved = {}, cy_prepared = {}, cy_batches = []\<rparr>)"
| step: "control_reach config evs (Inr y) \<Longrightarrow> control_step ev y = Some r \<Longrightarrow> control_reach config (evs @ [ev]) r"

section \<open>Invariant\<close>

definition known_task :: "('p, 'e, 'd) control_sys \<Rightarrow> task_id \<Rightarrow> bool" where
  "known_task y t \<longleftrightarrow>
     t \<in> lg_inflight (ledger_of y) \<or> (\<exists>k b. lg_books (ledger_of y) k = Some b \<and> t \<in> set (bk_records b))"

definition cell_ok :: "'p task_record \<Rightarrow> task_id \<Rightarrow> bool" where
  "cell_ok r t \<longleftrightarrow> tr_id r = t \<and> tr_options r \<noteq> None"

definition shape_ok :: "runtime_config \<Rightarrow> ('p, 'e, 'd) shared \<Rightarrow> bool" where
  "shape_ok config s \<longleftrightarrow>
     sh_config s = config \<and> 0 < cf_carriers config \<and> length (sh_inboxes s) = cf_carriers config
     \<and> length (cl_assigned (sh_loads s)) = cf_carriers config \<and> length (cl_observed (sh_loads s)) = cf_carriers config
     \<and> cl_probe (sh_loads s) < cf_carriers config
     \<and> (\<forall>c < cf_carriers config. cl_observed (sh_loads s) ! c \<le> ib_retired (sh_inboxes s ! c))
     \<and> kv_wf (sh_scopes s) \<and> (\<forall>k \<in> kv_keys (sh_scopes s). k < sh_next_scope s)
     \<and> (\<forall>r \<in> set (sh_record_cache s). tr_options r = None)"

definition control_ok :: "runtime_config \<Rightarrow> ('p, 'e, 'd) control_sys \<Rightarrow> bool" where
  "control_ok config y \<longleftrightarrow>
     shape_ok config (cy_shared y) \<and> ledger_ok (cf_carriers config) (cf_max_vthreads config) (ledger_of y)
     \<and> (\<forall>t. known_task y t \<longrightarrow> cell_ok (sh_cells (cy_shared y) t) t)
     \<and> (\<forall>(b, d, ids) \<in> set (cy_batches y). cb_first b \<noteq> None \<and> ids \<noteq> {})"

lemma control_okI:
  assumes "shape_ok config (cy_shared y)" "ledger_ok (cf_carriers config) (cf_max_vthreads config) (ledger_of y)"
    "\<And>t. known_task y t \<Longrightarrow> cell_ok (sh_cells (cy_shared y) t) t"
    "\<And>b d ids. (b, d, ids) \<in> set (cy_batches y) \<Longrightarrow> cb_first b \<noteq> None \<and> ids \<noteq> {}"
  shows "control_ok config y"
  using assms by (auto simp: control_ok_def)

lemma control_okD:
  assumes "control_ok config y"
  shows "shape_ok config (cy_shared y)" "ledger_ok (cf_carriers config) (cf_max_vthreads config) (ledger_of y)"
    "\<And>t. known_task y t \<Longrightarrow> cell_ok (sh_cells (cy_shared y) t) t"
    "\<And>b d ids. (b, d, ids) \<in> set (cy_batches y) \<Longrightarrow> cb_first b \<noteq> None \<and> ids \<noteq> {}"
  using assms by (auto simp: control_ok_def)

lemma ledger_of_fields [simp]:
  "lg_books (ledger_of y) = (\<lambda>k. map_option book_of (kv_get (sh_scopes (cy_shared y)) k))"
  "lg_next (ledger_of y) = sh_next_task (cy_shared y)" "lg_count (ledger_of y) = sh_record_count (cy_shared y)"
  "lg_assigned (ledger_of y) = (\<lambda>c. cl_assigned (sh_loads (cy_shared y)) ! c)"
  "lg_retired (ledger_of y) = (\<lambda>c. ib_retired (sh_inboxes (cy_shared y) ! c))"
  "lg_scope (ledger_of y) = (\<lambda>t. tr_scope (sh_cells (cy_shared y) t))"
  "lg_carrier (ledger_of y) = (\<lambda>t. tr_carrier (sh_cells (cy_shared y) t))"
  "lg_done (ledger_of y) = (\<lambda>t. is_terminal (tr_status (sh_cells (cy_shared y) t)))"
  "lg_unretired (ledger_of y) = cy_unretired y" "lg_inflight (ledger_of y) = cy_inflight y" "lg_reserved (ledger_of y) = cy_reserved y"
  "lg_prepared (ledger_of y) = cy_prepared y" "lg_batches (ledger_of y) = map batch_entry (cy_batches y)"
  by (simp_all add: ledger_of_def Let_def)

lemma ledger_eqI:
  fixes L M :: ledger
  assumes "lg_books L = lg_books M" "lg_next L = lg_next M" "lg_count L = lg_count M" "lg_assigned L = lg_assigned M"
    "lg_retired L = lg_retired M" "lg_scope L = lg_scope M" "lg_carrier L = lg_carrier M" "lg_done L = lg_done M"
    "lg_unretired L = lg_unretired M" "lg_inflight L = lg_inflight M" "lg_reserved L = lg_reserved M"
    "lg_prepared L = lg_prepared M" "lg_batches L = lg_batches M"
  shows "L = M"
  using assms by (cases L; cases M) simp

text \<open>The counts of the invariant are what placement relies on.\<close>

lemma loads_from_ledger:
  assumes "control_ok config y"
  shows "loads_ok (\<lambda>c. ib_retired (sh_inboxes (cy_shared y) ! c)) (sh_loads (cy_shared y))"
    "\<And>c. c < cf_carriers config \<Longrightarrow> cl_assigned (sh_loads (cy_shared y)) ! c < - 1"
proof -
  note shape = control_okD(1)[OF assms] and L = ledger_okD[OF control_okD(2)[OF assms]]
  have c: "ib_retired (sh_inboxes (cy_shared y) ! c) \<le> cl_assigned (sh_loads (cy_shared y)) ! c"
    "cl_assigned (sh_loads (cy_shared y)) ! c < sh_next_task (cy_shared y)" if "c < cf_carriers config" for c
    using L(4)[OF that] by (auto simp: carrier_ok_def word_le_nat_alt)
  then show "loads_ok (\<lambda>c. ib_retired (sh_inboxes (cy_shared y) ! c)) (sh_loads (cy_shared y))"
    using shape by (auto simp: loads_ok_def shape_ok_def)
  show "cl_assigned (sh_loads (cy_shared y)) ! c < - 1" if "c < cf_carriers config" for c
    using c(2)[OF that] by (meson less_le_trans word_order.extremum)
qed

section \<open>Steps that leave the books alone\<close>

definition same_accounts :: "('p, 'e, 'd) shared \<Rightarrow> ('p, 'e, 'd) shared \<Rightarrow> bool" where
  "same_accounts s s' \<longleftrightarrow>
     sh_config s' = sh_config s \<and> sh_next_scope s' = sh_next_scope s \<and> sh_next_task s' = sh_next_task s
     \<and> sh_record_count s' = sh_record_count s \<and> sh_loads s' = sh_loads s \<and> sh_record_cache s' = sh_record_cache s
     \<and> map ib_retired (sh_inboxes s') = map ib_retired (sh_inboxes s)
     \<and> (kv_wf (sh_scopes s) \<longrightarrow> kv_wf (sh_scopes s')) \<and> kv_keys (sh_scopes s') = kv_keys (sh_scopes s)
     \<and> (\<forall>k. map_option book_of (kv_get (sh_scopes s') k) = map_option book_of (kv_get (sh_scopes s) k))
     \<and> (\<forall>t. tr_id (sh_cells s' t) = tr_id (sh_cells s t) \<and> tr_scope (sh_cells s' t) = tr_scope (sh_cells s t)
          \<and> tr_carrier (sh_cells s' t) = tr_carrier (sh_cells s t) \<and> tr_options (sh_cells s' t) = tr_options (sh_cells s t)
          \<and> is_terminal (tr_status (sh_cells s' t)) = is_terminal (tr_status (sh_cells s t)))"

lemma same_accounts_trans [trans]: "same_accounts s t \<Longrightarrow> same_accounts t u \<Longrightarrow> same_accounts s u"
  unfolding same_accounts_def by auto

lemma same_inboxes: "map ib_retired is = map ib_retired js \<Longrightarrow> length is = length js \<and> (\<forall>c < length js. ib_retired (is ! c) = ib_retired (js ! c))"
  by (metis length_map nth_map)

lemma known_same:
  assumes "lg_books (ledger_of y') = lg_books (ledger_of y)" "lg_inflight (ledger_of y') = lg_inflight (ledger_of y)"
  shows "known_task y' t \<longleftrightarrow> known_task y t"
  unfolding known_task_def assms ..

lemma known_record: "kv_get (sh_scopes (cy_shared y)) k = Some st \<Longrightarrow> t \<in> set (ss_records st) \<Longrightarrow> known_task y t"
  unfolding known_task_def by (rule disjI2, rule exI[of _ k], rule exI[of _ "book_of st"]) (simp add: book_of_def)

lemma known_inflight: "t \<in> cy_inflight y \<Longrightarrow> known_task y t"
  by (simp add: known_task_def)

lemma control_frame:
  assumes ok: "control_ok config y" and same: "same_accounts (cy_shared y) s'"
  shows "control_ok config (y\<lparr>cy_shared := s'\<rparr>)"
proof -
  note D = control_okD[OF ok]
  have inboxes: "length (sh_inboxes s') = length (sh_inboxes (cy_shared y))"
    "\<forall>c < length (sh_inboxes (cy_shared y)). ib_retired (sh_inboxes s' ! c) = ib_retired (sh_inboxes (cy_shared y) ! c)"
    using same_inboxes[of "sh_inboxes s'" "sh_inboxes (cy_shared y)"] same by (auto simp: same_accounts_def)
  show ?thesis
  proof (rule control_okI)
    show "shape_ok config (cy_shared (y\<lparr>cy_shared := s'\<rparr>))"
      using D(1) same inboxes by (simp add: shape_ok_def same_accounts_def)
    show "ledger_ok (cf_carriers config) (cf_max_vthreads config) (ledger_of (y\<lparr>cy_shared := s'\<rparr>))"
    proof -
      let ?L = "ledger_of y" and ?M = "ledger_of (y\<lparr>cy_shared := s'\<rparr>)"
      have f: "lg_books ?M = lg_books ?L" "lg_next ?M = lg_next ?L" "lg_count ?M = lg_count ?L" "lg_assigned ?M = lg_assigned ?L"
        "lg_scope ?M = lg_scope ?L" "lg_carrier ?M = lg_carrier ?L" "lg_done ?M = lg_done ?L" "lg_unretired ?M = lg_unretired ?L"
        "lg_inflight ?M = lg_inflight ?L" "lg_reserved ?M = lg_reserved ?L" "lg_prepared ?M = lg_prepared ?L" "lg_batches ?M = lg_batches ?L"
        using same by (simp_all add: same_accounts_def)
      have "carrier_ok ?M c" if "c < cf_carriers config" for c
        using ledger_okD(4)[OF D(2) that] inboxes D(1) that unfolding carrier_ok_def of_carrier_set_def f
        by (simp add: shape_ok_def)
      moreover have "sets_ok (cf_carriers config) ?M" using ledger_okD(2)[OF D(2)] unfolding sets_ok_def f .
      moreover have "book_ok ?M k b" if "lg_books ?M k = Some b" for k b
        using ledger_okD(3)[OF D(2) that[unfolded f]] unfolding book_ok_def of_scope_set_def f .
      moreover have "batches_ok ?M" using ledger_okD(5)[OF D(2)] unfolding batches_ok_def f .
      ultimately show ?thesis using ledger_okD(1,6,7,8)[OF D(2)] by (intro ledger_okI) (simp_all only: f)
    qed
    show "cell_ok (sh_cells (cy_shared (y\<lparr>cy_shared := s'\<rparr>)) t) t" if "known_task (y\<lparr>cy_shared := s'\<rparr>) t" for t
    proof -
      have "known_task y t" using that known_same[of "y\<lparr>cy_shared := s'\<rparr>" y t] same by (simp add: same_accounts_def)
      from D(3)[OF this] same show ?thesis by (simp add: cell_ok_def same_accounts_def)
    qed
    show "cb_first b \<noteq> None \<and> ids \<noteq> {}" if "(b, d, ids) \<in> set (cy_batches (y\<lparr>cy_shared := s'\<rparr>))" for b d ids
      using D(4) that by simp
  qed
qed

lemma commit_ok:
  assumes "control_ok config y"
  shows "control_ok config (y\<lparr>cy_reserved := cy_reserved y - {t}\<rparr>)"
proof -
  have "ledger_of (y\<lparr>cy_reserved := cy_reserved y - {t}\<rparr>) = lg_commit t (ledger_of y)"
    by (rule ledger_eqI) (simp_all add: lg_commit_def)
  then have L: "ledger_ok (cf_carriers config) (cf_max_vthreads config) (ledger_of (y\<lparr>cy_reserved := cy_reserved y - {t}\<rparr>))"
    using lg_commit_ok[OF control_okD(2)[OF assms]] by simp
  have "known_task (y\<lparr>cy_reserved := cy_reserved y - {t}\<rparr>) x \<longleftrightarrow> known_task y x" for x by (rule known_same) simp_all
  then show ?thesis using control_okD(1,3,4)[OF assms] L by (intro control_okI) simp_all
qed

lemma put_scope_same:
  assumes "kv_get (sh_scopes s) k = Some st" "book_of st' = book_of st"
  shows "same_accounts s (put_scope k st' s)"
proof -
  have "k \<in> kv_keys (sh_scopes s)" using assms(1) kv_get_None_iff[of "sh_scopes s" k] by auto
  with assms show ?thesis by (auto simp: same_accounts_def put_scope_def)
qed

lemma same_refl [simp]: "same_accounts s s"
  by (simp add: same_accounts_def)

lemma same_updates [simp]:
  "same_accounts s (t\<lparr>sh_abort_requested := a\<rparr>) \<longleftrightarrow> same_accounts s t"
  "same_accounts s (t\<lparr>sh_changed := w\<rparr>) \<longleftrightarrow> same_accounts s t"
  "same_accounts s (t\<lparr>sh_accepting := a\<rparr>) \<longleftrightarrow> same_accounts s t"
  "same_accounts s (t\<lparr>sh_shutdown_phase := ph\<rparr>) \<longleftrightarrow> same_accounts s t"
  "same_accounts s (t\<lparr>sh_target_waiters := n\<rparr>) \<longleftrightarrow> same_accounts s t"
  "same_accounts s (t\<lparr>sh_carrier_states := cs\<rparr>) \<longleftrightarrow> same_accounts s t"
  "same_accounts s (t\<lparr>sh_active_scope := sc\<rparr>) \<longleftrightarrow> same_accounts s t"
  "same_accounts s (t\<lparr>sh_rejected := w\<rparr>) \<longleftrightarrow> same_accounts s t"
  "same_accounts s (t\<lparr>sh_admitted := w\<rparr>) \<longleftrightarrow> same_accounts s t"
  "same_accounts s (t\<lparr>sh_cursor := n\<rparr>) \<longleftrightarrow> same_accounts s t"
  "same_accounts s (changed_notify t) \<longleftrightarrow> same_accounts s t"
  by (simp_all add: same_accounts_def changed_notify_def)

lemma same_map_inboxes: "(\<And>i. ib_retired (f i) = ib_retired i) \<Longrightarrow> same_accounts s (s\<lparr>sh_inboxes := map f (sh_inboxes s)\<rparr>)"
  by (simp add: same_accounts_def)

lemma same_one_inbox:
  "c < length (sh_inboxes s) \<Longrightarrow> ib_retired i = ib_retired (sh_inboxes s ! c) \<Longrightarrow> same_accounts s (s\<lparr>sh_inboxes := (sh_inboxes s)[c := i]\<rparr>)"
proof -
  assume "c < length (sh_inboxes s)" "ib_retired i = ib_retired (sh_inboxes s ! c)"
  then have "map ib_retired ((sh_inboxes s)[c := i]) = map ib_retired (sh_inboxes s)" by (simp add: map_update list_update_same_conv)
  then show ?thesis by (simp add: same_accounts_def)
qed

lemma close_same: "same_accounts s (close_scope k s)"
  by (auto simp: close_scope_def book_of_def intro: put_scope_same split: option.split)

lemma abort_same: "same_accounts s (snd (abort_scope k reason s))"
proof (cases "kv_get (sh_scopes s) k")
  case (Some st)
  have "same_accounts s (put_scope k (st\<lparr>ss_aborting := Some reason, ss_admitting := False\<rparr>) s)"
    by (rule put_scope_same[OF Some]) (simp add: book_of_def)
  also have "same_accounts \<dots> (abort_inboxes k reason \<dots>)"
    unfolding abort_inboxes_def by (rule same_map_inboxes) (simp add: inbox_abort_def)
  finally have "same_accounts s (abort_inboxes k reason (put_scope k (st\<lparr>ss_aborting := Some reason, ss_admitting := False\<rparr>) s))" .
  moreover have "abort_inboxes k reason (t\<lparr>sh_abort_requested := True\<rparr>) = (abort_inboxes k reason t)\<lparr>sh_abort_requested := True\<rparr>"
    for t :: "('a, 'b, 'c) shared" by (simp add: abort_inboxes_def)
  ultimately show ?thesis using Some by (simp add: abort_scope_def abort_scope_state_def)
qed (simp add: abort_scope_def abort_scope_state_def)

lemma stop_same: "same_accounts s (snd (request_stop s))"
proof -
  have "same_accounts s (s\<lparr>sh_inboxes := map (snd \<circ> inbox_stop) (sh_inboxes s)\<rparr>)"
    by (rule same_map_inboxes) (simp add: inbox_stop_def inbox_stop_flag_def inbox_stop_locked_def)
  then show ?thesis by (simp add: request_stop_def same_accounts_def changed_notify_def)
qed

lemma advance_same: "same_accounts s (advance_shutdown phase s)"
  by (simp add: advance_shutdown_def)

lemma snapshot_same:
  assumes "cs_id snapshot < length (sh_carrier_states s)"
  shows "\<exists>s'. publish_snapshot snapshot s = Inr s' \<and> same_accounts s s'"
  using assms by (auto simp: publish_snapshot_def states_publish_def Let_def)

lemma transition_same:
  assumes "tr_id (f (sh_cells s t)) = tr_id (sh_cells s t)" "tr_scope (f (sh_cells s t)) = tr_scope (sh_cells s t)"
    "tr_carrier (f (sh_cells s t)) = tr_carrier (sh_cells s t)" "tr_options (f (sh_cells s t)) = tr_options (sh_cells s t)"
    "is_terminal (tr_status (f (sh_cells s t))) = is_terminal (tr_status (sh_cells s t))"
  shows "same_accounts s (transition t f s)"
proof -
  let ?s = "s\<lparr>sh_cells := (sh_cells s)(t := f (sh_cells s t))\<rparr>"
  have cells: "same_accounts s ?s" using assms by (auto simp: same_accounts_def)
  have "same_accounts ?s (put_scope k (st\<lparr>ss_progress := record_activity 1 (ss_progress st)\<rparr>) ?s)"
    if "kv_get (sh_scopes s) k = Some st" for k st
    by (rule put_scope_same) (use that in \<open>simp_all add: book_of_def\<close>)
  with cells show ?thesis by (auto simp: transition_def Let_def intro: same_accounts_trans split: option.split)
qed

lemma push_same:
  assumes "c < length (sh_inboxes s)"
  shows "\<exists>r s'. push_packet c p s = Inr (r, s') \<and> same_accounts s s'"
proof -
  obtain r i where i: "inbox_push p (sh_inboxes s ! c) = (r, i)" by fastforce
  then have "ib_retired i = ib_retired (sh_inboxes s ! c)" by (auto simp: inbox_push_def Let_def split: if_splits)
  from same_one_inbox[OF assms this] i assms show ?thesis by (auto simp: push_packet_def)
qed

section \<open>Scopes open and records make room\<close>

lemma open_ok:
  assumes ok: "control_ok config y"
  shows "control_ok config (y\<lparr>cy_shared := snd (begin_owned env deadline supervised (cy_shared y))\<rparr>)"
proof (cases "\<exists>id. fst (begin_owned env deadline supervised (cy_shared y)) = Inr id")
  case False
  then have "snd (begin_owned env deadline supervised (cy_shared y)) = cy_shared y"
    by (auto simp: begin_owned_def Let_def split: option.splits)
  with ok show ?thesis by simp
next
  case True
  note D = control_okD[OF ok]
  let ?s = "cy_shared y"
  let ?k = "sh_next_scope ?s"
  let ?st = "\<lparr>ss_admitting = True, ss_admitted = 0, ss_progress = scope_progress_new, ss_records = [],
    ss_options = \<lparr>opt_cancellation = env_child env (sh_root_token ?s), opt_deadline = deadline\<rparr>, ss_supervised = supervised, ss_aborting = None\<rparr>"
  from True obtain nx where nx: "checked_add ?k 1 = Some nx"
    by (auto simp: begin_owned_def split: if_splits option.splits)
  then have s': "snd (begin_owned env deadline supervised ?s)
      = put_scope ?k ?st (if supervised then ?s\<lparr>sh_next_scope := nx\<rparr> else ?s\<lparr>sh_next_scope := nx, sh_active_scope := Some ?k\<rparr>)"
    using True by (auto simp: begin_owned_def Let_def split: if_splits)
  let ?y = "y\<lparr>cy_shared := snd (begin_owned env deadline supervised ?s)\<rparr>"
  have up: "unat nx = unat ?k + 1" using checked_add_unat[OF nx] by simp
  have keys: "\<forall>k \<in> kv_keys (sh_scopes ?s). k < ?k" using D(1) by (simp add: shape_ok_def)
  then have new: "kv_get (sh_scopes ?s) ?k = None" by (auto simp: kv_get_None_iff)
  have L: "ledger_of ?y = lg_open ?k (ledger_of y)"
    by (rule ledger_eqI) (auto simp: s' put_scope_def lg_open_def book_of_def scope_progress_new_def fun_eq_iff)
  show ?thesis
  proof (rule control_okI)
    show "shape_ok config (cy_shared ?y)"
      using D(1) keys up by (auto simp: shape_ok_def s' put_scope_def word_less_nat_alt)
    show "ledger_ok (cf_carriers config) (cf_max_vthreads config) (ledger_of ?y)"
      unfolding L by (rule lg_open_ok[OF D(2)]) (simp add: new)
    show "cell_ok (sh_cells (cy_shared ?y) t) t" if "known_task ?y t" for t
    proof -
      have "known_task y t" using that unfolding known_task_def L by (auto simp: lg_open_def split: if_splits)
      from D(3)[OF this] show ?thesis by (simp add: s' put_scope_def)
    qed
    show "cb_first b \<noteq> None \<and> ids \<noteq> {}" if "(b, d, ids) \<in> set (cy_batches ?y)" for b d ids using D(4) that by simp
  qed
qed

lemma total_kv:
  assumes "kv_wf m"
  shows "record_total (\<lambda>k. map_option book_of (kv_get m k)) = sum_list (map (\<lambda>p. length (ss_records (snd p))) m)"
proof -
  have d: "dom (\<lambda>k. map_option book_of (kv_get m k)) = fst ` set m" unfolding kv_get_def dom_map_of_conv_image_fst[symmetric] by (auto simp: dom_def)
  have "record_total (\<lambda>k. map_option book_of (kv_get m k)) = (\<Sum>k \<in> fst ` set m. length (ss_records (the (kv_get m k))))"
    unfolding record_total_def d by (rule sum.cong) (auto simp: book_of_def dest!: kv_get_mem[OF assms])
  also have "\<dots> = (\<Sum>p \<in> set m. length (ss_records (snd p)))"
    using assms by (subst sum.reindex) (auto simp: distinct_map inj_on_def kv_get_def intro!: sum.cong)
  also have "\<dots> = sum_list (map (\<lambda>p. length (ss_records (snd p))) m)"
    using assms by (simp add: sum_list_distinct_conv_sum_set distinct_map)
  finally show ?thesis .
qed

definition trimmed :: "(task_id \<Rightarrow> bool) \<Rightarrow> book \<Rightarrow> book" where
  "trimmed gone b = b\<lparr>bk_records := filter (\<lambda>t. \<not> gone t) (bk_records b)\<rparr>"

lemma reclaim_scopes_ok:
  "reclaim_scopes cells taken m = (m', taken') \<Longrightarrow>
     map fst m' = map fst m \<and> (\<forall>k. map_option book_of (kv_get m' k) = map_option (trimmed (reclaimable cells) \<circ> book_of) (kv_get m k))
     \<and> length taken' + sum_list (map (\<lambda>p. length (ss_records (snd p))) m') = length taken + sum_list (map (\<lambda>p. length (ss_records (snd p))) m)"
proof (induction cells taken m arbitrary: m' taken' rule: reclaim_scopes.induct)
  case (1 cells taken)
  then show ?case by simp
next
  case (2 cells taken k st m)
  let ?taken = "taken @ filter (reclaimable cells) (ss_records st)"
  obtain n u where nu: "reclaim_scopes cells ?taken m = (n, u)" by fastforce
  note IH = "2.IH"[OF refl refl nu]
  have len: "length (filter (reclaimable cells) (ss_records st)) + length (filter (\<lambda>t. \<not> reclaimable cells t) (ss_records st)) = length (ss_records st)"
    by (rule sum_length_filter_compl)
  show ?case using "2.prems" nu IH len by (auto simp: Let_def kv_get_def book_of_def trimmed_def)
qed

lemma reclaim_ok:
  assumes ok: "control_ok config y"
  shows "\<exists>s'. reclaim (cy_shared y) = Inr s' \<and> control_ok config (y\<lparr>cy_shared := s'\<rparr>) \<and> kv_keys (sh_scopes s') = kv_keys (sh_scopes (cy_shared y))
    \<and> sh_cells s' = sh_cells (cy_shared y) \<and> sh_accepting s' = sh_accepting (cy_shared y) \<and> sh_inboxes s' = sh_inboxes (cy_shared y)"
proof (cases "sh_record_count (cy_shared y) < cf_max_vthreads (sh_config (cy_shared y))")
  case True
  with ok show ?thesis by (simp add: reclaim_def)
next
  case False
  note D = control_okD[OF ok]
  let ?s = "cy_shared y" and ?gone = "reclaimable (sh_cells (cy_shared y))"
  obtain m u where mu: "reclaim_scopes (sh_cells ?s) [] (sh_scopes ?s) = (m, u)" by fastforce
  note R = reclaim_scopes_ok[OF mu]
  have wf: "kv_wf (sh_scopes ?s)" using D(1) by (simp add: shape_ok_def)
  then have wf': "kv_wf m" using R by simp
  have fs: "fst ` set m = fst ` set (sh_scopes ?s)" using R by (metis list.set_map)
  have count: "sh_record_count ?s = sum_list (map (\<lambda>p. length (ss_records (snd p))) (sh_scopes ?s))"
    using ledger_okD(7)[OF D(2)] total_kv[OF wf] by simp
  then have room: "length u \<le> sh_record_count ?s" "sh_record_count ?s - length u = sum_list (map (\<lambda>p. length (ss_records (snd p))) m)"
    using R by auto
  let ?s' = "?s\<lparr>sh_scopes := m, sh_record_count := sh_record_count ?s - length u\<rparr>"
  let ?y = "y\<lparr>cy_shared := ?s'\<rparr>"
  have r: "reclaim ?s = Inr ?s'" using False mu room(1) by (simp add: reclaim_def)
  have books: "map_option book_of (kv_get m k) = map_option (trimmed ?gone) (lg_books (ledger_of y) k)" for k
    using R by (simp add: option.map_comp)
  have L: "ledger_of ?y = lg_reclaim ?gone (ledger_of y)"
  proof (rule ledger_eqI)
    have b: "lg_books (ledger_of ?y) = (\<lambda>k. map_option (\<lambda>b. b\<lparr>bk_records := filter (\<lambda>t. \<not> ?gone t) (bk_records b)\<rparr>) (lg_books (ledger_of y) k))"
      using books by (auto simp: fun_eq_iff trimmed_def[abs_def])
    then show "lg_books (ledger_of ?y) = lg_books (lg_reclaim ?gone (ledger_of y))" by (simp add: lg_reclaim_def Let_def)
    have "lg_count (ledger_of ?y) = record_total (lg_books (ledger_of ?y))" using room(2) total_kv[OF wf'] by simp
    then show "lg_count (ledger_of ?y) = lg_count (lg_reclaim ?gone (ledger_of y))" unfolding b by (simp add: lg_reclaim_def Let_def)
  qed (simp_all add: lg_reclaim_def Let_def)
  have done': "lg_done (ledger_of y) t" if "?gone t" for t using that by (simp add: reclaimable_def)
  have "control_ok config ?y"
  proof (rule control_okI)
    show "shape_ok config (cy_shared ?y)" using D(1) wf' fs by (simp add: shape_ok_def kv_keys_def)
    show "ledger_ok (cf_carriers config) (cf_max_vthreads config) (ledger_of ?y)"
      unfolding L by (rule lg_reclaim_ok(1)[OF D(2) done'])
    show "cell_ok (sh_cells (cy_shared ?y) t) t" if "known_task ?y t" for t
    proof -
      have "known_task y t" using that unfolding known_task_def L by (force simp: lg_reclaim_def Let_def)
      from D(3)[OF this] show ?thesis by simp
    qed
    show "cb_first b \<noteq> None \<and> ids \<noteq> {}" if "(b, d, ids) \<in> set (cy_batches ?y)" for b d ids using D(4) that by simp
  qed
  with r fs show ?thesis by (simp add: kv_keys_def)
qed

section \<open>Tasks enter and leave\<close>

lemma update_as_fun: "c < length xs \<Longrightarrow> (\<lambda>d. xs[c := v] ! d) = (\<lambda>d. xs ! d)(c := v)"
  by (auto simp: fun_eq_iff nth_list_update)

lemma checked_add_below:
  fixes a b :: u64
  assumes "a < b"
  shows "checked_add a 1 = Some (a + 1)"
  using assms unsigned_less[of b, where ?'a = nat] by (simp add: checked_add_def word_less_nat_alt)

lemma enter_ok:
  assumes ok: "control_ok config y" and st: "kv_get (sh_scopes (cy_shared y)) k = Some st" and c: "c < cf_carriers config"
    and room: "sh_record_count (cy_shared y) < cf_max_vthreads config" and nx: "checked_add (sh_next_task (cy_shared y)) 1 = Some nx"
    and r: "tr_id r = sh_next_task (cy_shared y)" "tr_scope r = k" "tr_carrier r = c" "tr_status r = StatusQueued" "tr_options r \<noteq> None"
  shows "\<exists>s'. enter_task k r c ((cy_shared y)\<lparr>sh_next_task := nx\<rparr>) = Inr s'
    \<and> control_ok config (y\<lparr>cy_shared := s', cy_unretired := insert (tr_id r) (cy_unretired y),
        cy_inflight := insert (tr_id r) (cy_inflight y), cy_reserved := insert (tr_id r) (cy_reserved y)\<rparr>)
    \<and> sh_cells s' = (sh_cells (cy_shared y))(tr_id r := r)
    \<and> kv_get (sh_scopes s') k = Some (st\<lparr>ss_records := ss_records st @ [tr_id r], ss_admitted := ss_admitted st + 1,
        ss_progress := publish_admitted (ss_admitted st + 1) (tracks_stalls (cy_shared y)) (ss_progress st)\<rparr>)
    \<and> sh_inboxes s' = sh_inboxes (cy_shared y)"
proof -
  note D = control_okD[OF ok] and L = ledger_okD[OF control_okD(2)[OF ok]]
  let ?s = "cy_shared y" and ?t = "sh_next_task (cy_shared y)"
  have n: "c < length (cl_assigned (sh_loads ?s))" "sh_inboxes ?s \<noteq> []" using D(1) c by (auto simp: shape_ok_def)
  have b: "lg_books (ledger_of y) k = Some (book_of st)" using st by simp
  have cache: "\<exists>cell. (case sh_record_cache ?s of [] \<Rightarrow> Inr (r, []) | cell # cache \<Rightarrow> map_sum id (\<lambda>r. (r, cache)) (record_reuse cell r))
      = (Inr (r, tl (sh_record_cache ?s)) :: ('a task_record \<times> 'a task_record list) result_p)"
    using D(1) by (cases "sh_record_cache ?s") (auto simp: record_reuse_def shape_ok_def)
  have "cl_assigned (sh_loads ?s) ! c < ?t" using L(4)[OF c] by (simp add: carrier_ok_def)
  then have inc: "loads_increment c (sh_loads ?s) = Inr ((sh_loads ?s)\<lparr>cl_assigned := (cl_assigned (sh_loads ?s))[c := cl_assigned (sh_loads ?s) ! c + 1]\<rparr>)"
    using n(1) by (simp add: loads_increment_def checked_add_below)
  have "ss_admitted st < ?t" using L(3)[OF b] by (simp add: book_ok_def book_of_def)
  then have adm: "checked_add (ss_admitted st) 1 = Some (ss_admitted st + 1)" by (rule checked_add_below)
  let ?st = "st\<lparr>ss_records := ss_records st @ [?t], ss_admitted := ss_admitted st + 1,
    ss_progress := publish_admitted (ss_admitted st + 1) (tracks_stalls ?s) (ss_progress st)\<rparr>"
  let ?loads = "(sh_loads ?s)\<lparr>cl_assigned := (cl_assigned (sh_loads ?s))[c := cl_assigned (sh_loads ?s) ! c + 1]\<rparr>"
  let ?u = "put_scope k ?st (?s\<lparr>sh_next_task := nx, sh_record_cache := tl (sh_record_cache ?s), sh_cells := (sh_cells ?s)(?t := r),
    sh_record_count := sh_record_count ?s + 1, sh_loads := ?loads, sh_admitted := sh_admitted ?s + 1\<rparr>)"
  obtain s' where s': "enter_task k r c (?s\<lparr>sh_next_task := nx\<rparr>) = Inr s'" "same_accounts ?u s'" "sh_cells s' = sh_cells ?u" "sh_scopes s' = sh_scopes ?u"
    "sh_inboxes s' = sh_inboxes ?u"
    using cache inc adm st r n(2)
    by (auto simp: enter_task_def Let_def tracks_stalls_def put_scope_def changed_notify_def same_accounts_def)
  let ?y = "y\<lparr>cy_shared := ?u, cy_unretired := insert ?t (cy_unretired y), cy_inflight := insert ?t (cy_inflight y), cy_reserved := insert ?t (cy_reserved y)\<rparr>"
  have nx': "nx = ?t + 1" "unat ?t + 1 < 2 ^ 64" using nx by (auto simp: checked_add_def split: if_splits)
  have book: "book_of ?st = (book_of st)\<lparr>bk_admitted := bk_admitted (book_of st) + 1, bk_published := bk_admitted (book_of st) + 1,
      bk_records := bk_records (book_of st) @ [?t]\<rparr>" by (simp add: book_of_def)
  have M: "ledger_of ?y = lg_enter k (book_of st) c (ledger_of y)"
    by (rule ledger_eqI)
      (auto simp: put_scope_def lg_enter_def Let_def book nx' r update_as_fun[OF n(1)] fun_eq_iff)
  have "control_ok config ?y"
  proof (rule control_okI)
    have "k \<in> kv_keys (sh_scopes ?s)" using st kv_get_None_iff[of "sh_scopes ?s" k] by auto
    moreover have "set (tl (sh_record_cache ?s)) \<subseteq> set (sh_record_cache ?s)" by (cases "sh_record_cache ?s") auto
    ultimately show "shape_ok config (cy_shared ?y)"
      using D(1) by (auto simp: shape_ok_def put_scope_def)
    show "ledger_ok (cf_carriers config) (cf_max_vthreads config) (ledger_of ?y)"
      unfolding M by (rule lg_enter_ok[OF D(2) b c]) (use room nx' in simp_all)
    show "cell_ok (sh_cells (cy_shared ?y) t) t" if "known_task ?y t" for t
    proof (cases "t = ?t")
      case False
      then have "known_task y t" using that b unfolding known_task_def M by (auto simp: lg_enter_def Let_def split: if_splits)
      from D(3)[OF this] False show ?thesis by (simp add: put_scope_def)
    qed (use r in \<open>simp add: put_scope_def cell_ok_def\<close>)
    show "cb_first b \<noteq> None \<and> ids \<noteq> {}" if "(b, d, ids) \<in> set (cy_batches ?y)" for b d ids using D(4) that by simp
  qed
  then have "control_ok config (?y\<lparr>cy_shared := s'\<rparr>)" by (rule control_frame) (use s'(2) in simp)
  moreover have "?y\<lparr>cy_shared := s'\<rparr> = y\<lparr>cy_shared := s', cy_unretired := insert (tr_id r) (cy_unretired y),
      cy_inflight := insert (tr_id r) (cy_inflight y), cy_reserved := insert (tr_id r) (cy_reserved y)\<rparr>"
    by (rule control_sys.equality) (simp_all add: r(1))
  ultimately have "control_ok config (y\<lparr>cy_shared := s', cy_unretired := insert (tr_id r) (cy_unretired y),
      cy_inflight := insert (tr_id r) (cy_inflight y), cy_reserved := insert (tr_id r) (cy_reserved y)\<rparr>)" by (simp only:)
  moreover have "sh_cells s' = (sh_cells ?s)(tr_id r := r)" "sh_inboxes s' = sh_inboxes ?s"
    "kv_get (sh_scopes s') k = Some (st\<lparr>ss_records := ss_records st @ [tr_id r], ss_admitted := ss_admitted st + 1,
        ss_progress := publish_admitted (ss_admitted st + 1) (tracks_stalls ?s) (ss_progress st)\<rparr>)"
    using s'(3-5) r(1) by (simp_all add: put_scope_def)
  ultimately show ?thesis using s'(1) by blast
qed

lemma find_record_ok:
  assumes "distinct ts" "t \<in> set ts"
  shows "\<exists>i. find_record t ts = Some i \<and> ts ! i = t \<and> remove_at i ts = filter (\<lambda>x. x \<noteq> t) ts"
  using assms
proof (induction ts)
  case (Cons x xs)
  show ?case
  proof (cases "x = t")
    case True
    then have "filter (\<lambda>y. y \<noteq> t) xs = xs" using Cons.prems by (simp add: filter_id_conv) blast
    with True show ?thesis by (simp add: find_record_def remove_at_def)
  next
    case False
    with Cons obtain i where "find_record t xs = Some i" "xs ! i = t" "remove_at i xs = filter (\<lambda>x. x \<noteq> t) xs" by auto
    with False show ?thesis by (simp add: find_record_def remove_at_def)
  qed
qed simp

lemma release_ok:
  assumes ok: "control_ok config y" and t: "t \<in> cy_reserved y"
  shows "\<exists>s'. release_reservation t (cy_shared y) = Inr s'
    \<and> control_ok config (y\<lparr>cy_shared := s', cy_unretired := cy_unretired y - {t}, cy_inflight := cy_inflight y - {t},
        cy_reserved := cy_reserved y - {t}\<rparr>)
    \<and> sh_inboxes s' = sh_inboxes (cy_shared y) \<and> sh_config s' = sh_config (cy_shared y)"
proof -
  note D = control_okD[OF ok] and L = ledger_okD[OF control_okD(2)[OF ok]]
  let ?s = "cy_shared y"
  let ?r = "sh_cells ?s t"
  let ?k = "tr_scope ?r" and ?c = "tr_carrier ?r"
  have un: "t \<in> cy_unretired y" "t \<in> cy_inflight y" using t L(2) by (auto simp: sets_ok_def)
  have ident: "tr_id ?r = t" using D(3)[OF known_inflight[OF un(2)]] by (simp add: cell_ok_def)
  obtain st where st: "kv_get (sh_scopes ?s) ?k = Some st" using un(1) L(2) by (auto simp: sets_ok_def)
  then have b: "lg_books (ledger_of y) (lg_scope (ledger_of y) t) = Some (book_of st)" by simp
  note R = lg_release_ok[OF D(2) _ b, simplified, OF t]
  have n: "?c < length (cl_assigned (sh_loads ?s))" using R(5) D(1) by (simp add: shape_ok_def)
  let ?loads = "(sh_loads ?s)\<lparr>cl_assigned := (cl_assigned (sh_loads ?s))[?c := cl_assigned (sh_loads ?s) ! ?c - 1]\<rparr>"
  have dec: "loads_decrement ?c (sh_loads ?s) = Inr ?loads"
    using n R(4) by (simp add: loads_decrement_def checked_sub_def word_le_nat_alt)
  have "sorted_wrt (<) (ss_records st)" using L(3)[OF b] by (simp add: book_ok_def book_of_def)
  then have d: "distinct (ss_records st)" by (simp add: strict_sorted_iff)
  have "t \<in> set (ss_records st)" using R(2) by (simp add: book_of_def)
  from find_record_ok[OF d this] obtain i where i: "find_record t (ss_records st) = Some i" "remove_at i (ss_records st) = filter (\<lambda>x. x \<noteq> t) (ss_records st)" by blast
  let ?st = "st\<lparr>ss_records := filter (\<lambda>x. x \<noteq> t) (ss_records st), ss_admitted := ss_admitted st - 1,
    ss_progress := publish_admitted (ss_admitted st - 1) (tracks_stalls ?s) (ss_progress st)\<rparr>"
  let ?u = "put_scope ?k ?st (?s\<lparr>sh_record_count := sh_record_count ?s - 1, sh_loads := ?loads, sh_admitted := sh_admitted ?s - 1, sh_rejected := sh_rejected ?s + 1\<rparr>)"
  have run: "release_reservation t ?s = Inr (changed_notify ?u)"
    using R(3) dec st i ident by (simp add: release_reservation_def Let_def tracks_stalls_def)
  let ?y = "y\<lparr>cy_shared := ?u, cy_unretired := cy_unretired y - {t}, cy_inflight := cy_inflight y - {t}, cy_reserved := cy_reserved y - {t}\<rparr>"
  have M: "ledger_of ?y = lg_release t (book_of st) (ledger_of y)"
    by (rule ledger_eqI)
      (auto simp: put_scope_def lg_release_def book_of_def update_as_fun[OF n] fun_eq_iff)
  have "control_ok config ?y"
  proof (rule control_okI)
    have "?k \<in> kv_keys (sh_scopes ?s)" using st kv_get_None_iff[of "sh_scopes ?s" ?k] by auto
    then show "shape_ok config (cy_shared ?y)" using D(1) by (auto simp: shape_ok_def put_scope_def)
    show "ledger_ok (cf_carriers config) (cf_max_vthreads config) (ledger_of ?y)" unfolding M by (rule R(1))
    show "cell_ok (sh_cells (cy_shared ?y) x) x" if "known_task ?y x" for x
    proof -
      have "known_task y x" using that b unfolding known_task_def M by (auto simp: lg_release_def split: if_splits)
      from D(3)[OF this] show ?thesis by (simp add: put_scope_def)
    qed
    show "cb_first b \<noteq> None \<and> ids \<noteq> {}" if "(b, d, ids) \<in> set (cy_batches ?y)" for b d ids using D(4) that by simp
  qed
  then have "control_ok config (?y\<lparr>cy_shared := changed_notify ?u\<rparr>)" by (rule control_frame) simp
  moreover have "?y\<lparr>cy_shared := changed_notify ?u\<rparr>
      = y\<lparr>cy_shared := changed_notify ?u, cy_unretired := cy_unretired y - {t}, cy_inflight := cy_inflight y - {t}, cy_reserved := cy_reserved y - {t}\<rparr>"
    by (rule control_sys.equality) simp_all
  ultimately have "control_ok config (y\<lparr>cy_shared := changed_notify ?u, cy_unretired := cy_unretired y - {t}, cy_inflight := cy_inflight y - {t}, cy_reserved := cy_reserved y - {t}\<rparr>)"
    by (simp only:)
  moreover have "sh_inboxes (changed_notify ?u) = sh_inboxes ?s" "sh_config (changed_notify ?u) = sh_config ?s"
    by (simp_all add: changed_notify_def put_scope_def)
  ultimately show ?thesis using run by blast
qed

section \<open>Tasks end and retire\<close>

lemma complete_ok:
  assumes ok: "control_ok config y" and t: "t \<in> cy_unretired y" "t \<notin> cy_reserved y"
  shows "case prepare_completion t failure (cy_shared y) of
      (None, s) \<Rightarrow> s = cy_shared y \<and> t \<in> cy_prepared y
    | (Some u, s) \<Rightarrow> control_ok config (y\<lparr>cy_shared := s, cy_prepared := insert t (cy_prepared y)\<rparr>) \<and> t \<notin> cy_prepared y
        \<and> cu_id u = t \<and> valid_update s u"
proof (cases "is_terminal (tr_status (sh_cells (cy_shared y) t))")
  case True
  have "t \<in> cy_prepared y" using True t(1) ledger_okD(2)[OF control_okD(2)[OF ok]] by (auto simp: sets_ok_def)
  with True show ?thesis by (simp add: prepare_completion_def Let_def)
next
  case False
  note D = control_okD[OF ok] and L = ledger_okD[OF control_okD(2)[OF ok]]
  let ?s = "cy_shared y"
  let ?r = "sh_cells ?s t"
  let ?status = "if failure \<noteq> None then StatusAborted else if tr_panic ?r \<noteq> None then StatusPanicked else StatusCompleted"
  let ?s' = "?s\<lparr>sh_cells := (sh_cells ?s)(t := ?r\<lparr>tr_failure := failure, tr_deadline := None, tr_status := ?status\<rparr>)\<rparr>"
  let ?y = "y\<lparr>cy_shared := ?s', cy_prepared := insert t (cy_prepared y)\<rparr>"
  have fl: "t \<in> cy_inflight y" using t(1) L(2) by (auto simp: sets_ok_def)
  have ident: "tr_id ?r = t" using D(3)[OF known_inflight[OF fl]] by (simp add: cell_ok_def)
  have M: "ledger_of ?y = lg_complete t (ledger_of y)"
    by (rule ledger_eqI) (auto simp: lg_complete_def fun_eq_iff)
  have "control_ok config ?y"
  proof (rule control_okI)
    show "shape_ok config (cy_shared ?y)" using D(1) by (simp add: shape_ok_def)
    show "ledger_ok (cf_carriers config) (cf_max_vthreads config) (ledger_of ?y)"
      unfolding M by (rule lg_complete_ok[OF D(2)]) (use t in simp_all)
    show "cell_ok (sh_cells (cy_shared ?y) x) x" if "known_task ?y x" for x
    proof -
      have "known_task y x" using that unfolding known_task_def M by (simp add: lg_complete_def)
      from D(3)[OF this] show ?thesis by (auto simp: cell_ok_def)
    qed
    show "cb_first b \<noteq> None \<and> ids \<noteq> {}" if "(b, d, ids) \<in> set (cy_batches ?y)" for b d ids using D(4) that by simp
  qed
  moreover have "t \<notin> cy_prepared y" using False t(1) L(2) by (auto simp: sets_ok_def)
  ultimately show ?thesis using False ident by (simp add: prepare_completion_def Let_def valid_update_def)
qed

lemma retire_ok:
  assumes ok: "control_ok config y" and us: "us \<noteq> []" "distinct (map cu_id us)"
    "\<And>u. u \<in> set us \<Longrightarrow> cu_id u \<in> cy_prepared y \<and> valid_update (cy_shared y) u \<and> cu_scope u = k \<and> cu_carrier u = c"
  shows "\<exists>b drained s' st'. batch_of us batch_new = Inr b \<and> publish_progress b (cy_shared y) = (drained, s')
    \<and> control_ok config (y\<lparr>cy_shared := s', cy_unretired := cy_unretired y - set (map cu_id us), cy_prepared := cy_prepared y - set (map cu_id us),
        cy_batches := cy_batches y @ [(b, drained, set (map cu_id us))]\<rparr>)
    \<and> kv_get (sh_scopes s') k = Some st' \<and> sh_cells s' = sh_cells (cy_shared y)
    \<and> (drained \<longleftrightarrow> {t \<in> cy_unretired y - set (map cu_id us). tr_scope (sh_cells s' t) = k} = {})
    \<and> (drained \<longleftrightarrow> sp_retired (ss_progress st') = sp_admitted (ss_progress st'))"
proof -
  note D = control_okD[OF ok] and L = ledger_okD[OF control_okD(2)[OF ok]]
  let ?s = "cy_shared y" and ?ids = "set (map cu_id us)"
  have prep: "?ids \<subseteq> cy_prepared y" using us(3) by auto
  have member: "cu_id u \<in> cy_unretired y" "is_terminal (cu_status u)" if "u \<in> set us" for u
    using us(3)[OF that] L(2) by (auto simp: sets_ok_def valid_update_def)
  from us(1) obtain u0 where u0: "u0 \<in> set us" by (cases us) auto
  obtain st where st: "kv_get (sh_scopes ?s) k = Some st"
    using member(1)[OF u0] us(3)[OF u0] L(2) by (auto simp: sets_ok_def valid_update_def)
  have "\<exists>b. batch_of us batch_new = Inr b \<and> cb_len b = cb_len batch_new + length us
    \<and> (\<forall>first. cb_first b = Some first \<longrightarrow> cu_scope first = k \<and> cu_carrier first = c)
    \<and> (cb_first b = None \<longleftrightarrow> cb_first batch_new = None \<and> us = [])"
    by (rule batch_of_ok) (use us(3) member in \<open>auto simp: batch_new_def\<close>)
  then obtain b f where b: "batch_of us batch_new = Inr b" "cb_len b = length us" "cb_first b = Some f" "cu_scope f = k" "cu_carrier f = c"
    using us(1) by (auto simp: batch_new_def)
  have card: "length us = card ?ids" using distinct_card[OF us(2)] by simp
  obtain drained p where p: "scope_retire (cb_len b) (cb_completed b) (cb_panicked b) (cb_aborted b) (cb_failed_tasks b) (tracks_stalls ?s) (ss_progress st) = (drained, p)"
    by fastforce
  note F = scope_retire_fields[OF p]
  let ?s' = "put_scope k (st\<lparr>ss_progress := p\<rparr>) ?s"
  have run: "publish_progress b ?s = (drained, ?s')" using b st p by (simp add: publish_progress_def)
  let ?y = "y\<lparr>cy_shared := ?s', cy_unretired := cy_unretired y - ?ids, cy_prepared := cy_prepared y - ?ids, cy_batches := cy_batches y @ [(b, drained, ?ids)]\<rparr>"
  have bk: "lg_books (ledger_of y) k = Some (book_of st)" using st by simp
  have place: "lg_scope (ledger_of y) t = k \<and> lg_carrier (ledger_of y) t = c" if "t \<in> ?ids" for t
  proof -
    from that obtain u where u: "u \<in> set us" "t = cu_id u" by auto
    with us(3)[OF u(1)] show ?thesis by (auto simp: valid_update_def)
  qed
  have M: "ledger_of ?y = lg_retire k (book_of st) c ?ids (ledger_of y)"
    by (rule ledger_eqI) (auto simp: put_scope_def lg_retire_def book_of_def F b card batch_entry_def fun_eq_iff)
  note R = lg_retire_ok[OF D(2) bk, of ?ids c]
  have "control_ok config ?y"
  proof (rule control_okI)
    have "k \<in> kv_keys (sh_scopes ?s)" using st kv_get_None_iff[of "sh_scopes ?s" k] by auto
    then show "shape_ok config (cy_shared ?y)" using D(1) by (auto simp: shape_ok_def put_scope_def)
    show "ledger_ok (cf_carriers config) (cf_max_vthreads config) (ledger_of ?y)" unfolding M by (rule R(1)) (use prep place in auto)
    show "cell_ok (sh_cells (cy_shared ?y) x) x" if "known_task ?y x" for x
    proof -
      have "known_task y x" using that bk unfolding known_task_def M by (auto simp: lg_retire_def split: if_splits)
      from D(3)[OF this] show ?thesis by (simp add: put_scope_def)
    qed
    show "cb_first x \<noteq> None \<and> ids \<noteq> {}" if "(x, d, ids) \<in> set (cy_batches ?y)" for x d ids using D(4) that b(3) us(1) by auto
  qed
  moreover have "drained \<longleftrightarrow> of_scope_set (ledger_of ?y) k = {}"
  proof -
    have "bk_retired (book_of st) + of_nat (card ?ids) = bk_admitted (book_of st) \<longleftrightarrow> of_scope_set (lg_retire k (book_of st) c ?ids (ledger_of y)) k = {}"
      by (rule R(2)) (use prep place in auto)
    moreover have "bk_admitted (book_of st) = sp_admitted (ss_progress st)" using L(3)[OF bk] by (simp add: book_ok_def book_of_def)
    ultimately have "sp_retired (ss_progress st) + of_nat (cb_len b) = sp_admitted (ss_progress st) \<longleftrightarrow> of_scope_set (ledger_of ?y) k = {}"
      unfolding M using b(2) card by (simp add: book_of_def)
    moreover have "drained \<longleftrightarrow> sp_retired (ss_progress st) + of_nat (cb_len b) = sp_admitted (ss_progress st)" using F by simp
    ultimately show ?thesis by (rule trans[rotated])
  qed
  moreover have "of_scope_set (ledger_of ?y) k = {t \<in> cy_unretired y - ?ids. tr_scope (sh_cells ?s' t) = k}"
    by (simp add: of_scope_set_def put_scope_def)
  moreover have "kv_get (sh_scopes ?s') k = Some (st\<lparr>ss_progress := p\<rparr>)" "sh_cells ?s' = sh_cells ?s" by (simp_all add: put_scope_def)
  ultimately show ?thesis using b(1) run F(3) by auto
qed

lemma settle_ok:
  assumes ok: "control_ok config y" and i: "i < length (cy_batches y)" "cy_batches y ! i = (b, drained, ids)"
  shows "\<exists>s'. publish_inbox b drained (cy_shared y) = Inr s'
    \<and> control_ok config (y\<lparr>cy_shared := s', cy_inflight := cy_inflight y - ids, cy_batches := remove_at i (cy_batches y)\<rparr>)"
proof -
  note D = control_okD[OF ok] and L = ledger_okD[OF control_okD(2)[OF ok]]
  let ?s = "cy_shared y"
  have mem: "(b, drained, ids) \<in> set (cy_batches y)" using i nth_mem by metis
  then obtain f where f: "cb_first b = Some f" "ids \<noteq> {}" using D(4) by blast
  let ?c = "cu_carrier f"
  have li: "i < length (lg_batches (ledger_of y))" "lg_batches (ledger_of y) ! i = (cb_len b, ?c, ids)"
    using i f by (simp_all add: batch_entry_def)
  note S = lg_settle_ok[OF D(2) li f(2)]
  have n: "?c < length (sh_inboxes ?s)" using S(2) D(1) by (simp add: shape_ok_def)
  let ?ib = "(sh_inboxes ?s)[?c := inbox_retire_tasks (cb_len b) (sh_inboxes ?s ! ?c)]"
  let ?u = "?s\<lparr>sh_inboxes := ?ib\<rparr>"
  obtain s' where s': "publish_inbox b drained ?s = Inr s'" "same_accounts ?u s'"
    using f n by (auto simp: publish_inbox_def Let_def)
  let ?y = "y\<lparr>cy_shared := ?u, cy_inflight := cy_inflight y - ids, cy_batches := remove_at i (cy_batches y)\<rparr>"
  have ret: "(\<lambda>c. ib_retired (?ib ! c)) = (\<lambda>c. ib_retired (sh_inboxes ?s ! c))(?c := ib_retired (sh_inboxes ?s ! ?c) + of_nat (cb_len b))"
    using n by (auto simp: fun_eq_iff nth_list_update inbox_retire_tasks_def)
  have M: "ledger_of ?y = lg_settle i (ledger_of y)"
    by (rule ledger_eqI) (use i li in \<open>simp_all add: lg_settle_def ret remove_at_def take_map drop_map\<close>)
  have "control_ok config ?y"
  proof (rule control_okI)
    have up: "ib_retired (sh_inboxes ?s ! ?c) \<le> ib_retired (?ib ! ?c)"
    proof -
      have a: "carrier_ok (lg_settle i (ledger_of y)) ?c" "carrier_ok (ledger_of y) ?c"
        using ledger_okD(4)[OF S(1) S(2)] L(4)[OF S(2)] .
      have sub: "of_carrier_set (lg_settle i (ledger_of y)) ?c \<subseteq> of_carrier_set (ledger_of y) ?c"
        using li by (auto simp: of_carrier_set_def lg_settle_def)
      have "card (of_carrier_set (lg_settle i (ledger_of y)) ?c) \<le> card (of_carrier_set (ledger_of y) ?c)"
        by (rule card_mono[OF carrier_set_finite[OF L(2)] sub])
      then have "unat (lg_retired (ledger_of y) ?c) \<le> unat (lg_retired (lg_settle i (ledger_of y)) ?c)"
        using a li by (simp add: carrier_ok_def) (simp add: lg_settle_def)
      then show ?thesis unfolding M[symmetric] by (simp add: word_le_nat_alt)
    qed
    have "cl_observed (sh_loads ?s) ! d \<le> ib_retired (?ib ! d)" if "d < cf_carriers config" for d
      using D(1) that up n by (cases "d = ?c") (auto simp: shape_ok_def intro: order.trans)
    then show "shape_ok config (cy_shared ?y)" using D(1) by (simp add: shape_ok_def)
    show "ledger_ok (cf_carriers config) (cf_max_vthreads config) (ledger_of ?y)" unfolding M by (rule S(1))
    show "cell_ok (sh_cells (cy_shared ?y) x) x" if "known_task ?y x" for x
    proof -
      have "known_task y x" using that li unfolding known_task_def M by (auto simp: lg_settle_def)
      from D(3)[OF this] show ?thesis by simp
    qed
    show "cb_first x \<noteq> None \<and> js \<noteq> {}" if "(x, d, js) \<in> set (cy_batches ?y)" for x d js
      using D(4)[of x d js] that by (auto simp: remove_at_def dest: in_set_takeD in_set_dropD)
  qed
  then have "control_ok config (?y\<lparr>cy_shared := s'\<rparr>)" by (rule control_frame) (use s'(2) in simp)
  moreover have "?y\<lparr>cy_shared := s'\<rparr> = y\<lparr>cy_shared := s', cy_inflight := cy_inflight y - ids, cy_batches := remove_at i (cy_batches y)\<rparr>"
    by (rule control_sys.equality) simp_all
  ultimately have "control_ok config (y\<lparr>cy_shared := s', cy_inflight := cy_inflight y - ids, cy_batches := remove_at i (cy_batches y)\<rparr>)" by (simp only:)
  with s'(1) show ?thesis by blast
qed

lemma recycle_ok:
  assumes "\<And>t. t \<in> set ts \<Longrightarrow> is_terminal (tr_status (cells t)) \<and> tr_options (cells t) \<noteq> None" "\<And>r. r \<in> set cache \<Longrightarrow> tr_options r = None"
  shows "\<exists>cache'. recycle_records limit unique cells ts cache = Inr cache' \<and> (\<forall>r \<in> set cache'. tr_options r = None)"
  using assms
proof (induction ts arbitrary: cache)
  case (Cons t ts)
  show ?case
  proof (cases "length cache < limit \<and> unique t")
    case True
    obtain own where own: "tr_options (cells t) = Some own" using Cons.prems(1)[of t] by auto
    let ?cell = "(cells t)\<lparr>tr_name := [], tr_panic := None, tr_options := None\<rparr>"
    have "\<exists>cache'. recycle_records limit unique cells ts (?cell # cache) = Inr cache' \<and> (\<forall>r \<in> set cache'. tr_options r = None)"
      by (rule Cons.IH) (use Cons.prems in auto)
    then show ?thesis using True own Cons.prems(1)[of t] by (simp add: record_recycle_def)
  next
    case False
    have "\<exists>cache'. recycle_records limit unique cells ts cache = Inr cache' \<and> (\<forall>r \<in> set cache'. tr_options r = None)"
      by (rule Cons.IH) (use Cons.prems in auto)
    with False show ?thesis by auto
  qed
qed simp

lemma scope_active_count:
  assumes ok: "control_ok config y" and st: "kv_get (sh_scopes (cy_shared y)) k = Some st"
  shows "scope_active (ss_progress st) = Inr (card {t \<in> cy_unretired y. tr_scope (sh_cells (cy_shared y) t) = k})"
proof -
  have "book_ok (ledger_of y) k (book_of st)" using ledger_okD(3)[OF control_okD(2)[OF ok], of k "book_of st"] st by simp
  then have "sp_admitted (ss_progress st) = ss_admitted st"
    "unat (ss_admitted st) = unat (sp_retired (ss_progress st)) + card {t \<in> cy_unretired y. tr_scope (sh_cells (cy_shared y) t) = k}"
    by (simp_all add: book_ok_def book_of_def of_scope_set_def)
  then show ?thesis by (simp add: scope_active_def checked_sub_def word_le_nat_alt unat_sub)
qed

lemma carrier_load_count:
  assumes ok: "control_ok config y" and c: "c < cf_carriers config"
  shows "loads_active (sh_loads (cy_shared y)) c (ib_retired (sh_inboxes (cy_shared y) ! c))
    = Inr (card {t \<in> cy_inflight y. tr_carrier (sh_cells (cy_shared y) t) = c})"
proof -
  have "carrier_ok (ledger_of y) c" using ledger_okD(4)[OF control_okD(2)[OF ok] c] .
  then have "unat (cl_assigned (sh_loads (cy_shared y)) ! c) = unat (ib_retired (sh_inboxes (cy_shared y) ! c))
      + card {t \<in> cy_inflight y. tr_carrier (sh_cells (cy_shared y) t) = c}"
    by (simp add: carrier_ok_def of_carrier_set_def)
  then show ?thesis using c control_okD(1)[OF ok]
    by (simp add: loads_active_def carrier_load_def checked_sub_def word_le_nat_alt unat_sub shape_ok_def)
qed

lemma finish_ok:
  assumes ok: "control_ok config y"
    and idle: "\<And>st. kv_get (sh_scopes (cy_shared y)) k = Some st \<Longrightarrow> scope_active (ss_progress st) = Inr 0"
  shows "\<exists>s'. finish_scope unique k (cy_shared y) = Inr s' \<and> control_ok config (y\<lparr>cy_shared := s'\<rparr>)"
proof -
  note D = control_okD[OF ok] and L = ledger_okD[OF control_okD(2)[OF ok]]
  let ?s = "cy_shared y"
  have rest: "\<exists>s'. finish_scope unique k ?s = Inr s' \<and> control_ok config (y\<lparr>cy_shared := s'\<rparr>)"
    if u: "(case kv_get (sh_scopes ?s) k of None \<Rightarrow> Inr ?s | Some st \<Rightarrow>
        if sh_record_count ?s < length (ss_records st) then Inl (Panic ''attempt to subtract with overflow'')
        else map_sum id (\<lambda>cache. ?s\<lparr>sh_scopes := kv_del k (sh_scopes ?s), sh_record_count := sh_record_count ?s - length (ss_records st), sh_record_cache := cache\<rparr>)
          (recycle_records (cf_stack_cache_capacity (sh_config ?s)) unique (sh_cells ?s) (ss_records st) (sh_record_cache ?s))) = Inr u"
      "control_ok config (y\<lparr>cy_shared := u\<rparr>)" for u
  proof -
    have clear: "ib_retired (inbox_clear_abort k i) = ib_retired i" for i :: "'b inbox" by (simp add: inbox_clear_abort_def Let_def)
    obtain s' where s': "finish_scope unique k ?s = Inr s'" "same_accounts u s'"
      unfolding finish_scope_def u(1)
      by (cases "sh_active_scope u = Some k") (auto simp: Let_def same_accounts_def clear o_def)
    from control_frame[OF u(2)] s' show ?thesis by auto
  qed
  show ?thesis
  proof (cases "kv_get (sh_scopes ?s) k")
    case None
    show ?thesis by (rule rest[of ?s]) (use None ok in simp_all)
  next
    case (Some st)
    have bk: "lg_books (ledger_of y) k = Some (book_of st)" using Some by simp
    have empty: "of_scope_set (ledger_of y) k = {}"
    proof -
      have "card {t \<in> cy_unretired y. tr_scope (sh_cells ?s t) = k} = 0" using scope_active_count[OF ok Some] idle[OF Some] by simp
      then show ?thesis using scope_set_finite[OF L(2), of k] by (simp add: of_scope_set_def)
    qed
    note C = lg_close_ok[OF D(2) bk empty]
    have recs: "is_terminal (tr_status (sh_cells ?s t)) \<and> tr_options (sh_cells ?s t) \<noteq> None" if "t \<in> set (ss_records st)" for t
      using C(2)[of t] D(3)[OF known_record[OF Some that]] that by (simp add: book_of_def cell_ok_def)
    have cache: "\<And>r. r \<in> set (sh_record_cache ?s) \<Longrightarrow> tr_options r = None" using D(1) by (simp add: shape_ok_def)
    from recycle_ok[of "ss_records st" "sh_cells ?s" "sh_record_cache ?s" "cf_stack_cache_capacity (sh_config ?s)" unique, OF recs cache]
    obtain cache' where cache': "recycle_records (cf_stack_cache_capacity (sh_config ?s)) unique (sh_cells ?s) (ss_records st) (sh_record_cache ?s) = Inr cache'"
      "\<forall>r \<in> set cache'. tr_options r = None" by blast
    let ?u = "?s\<lparr>sh_scopes := kv_del k (sh_scopes ?s), sh_record_count := sh_record_count ?s - length (ss_records st), sh_record_cache := cache'\<rparr>"
    let ?y = "y\<lparr>cy_shared := ?u\<rparr>"
    have M: "ledger_of ?y = lg_close k (book_of st) (ledger_of y)"
      by (rule ledger_eqI) (auto simp: lg_close_def book_of_def fun_eq_iff)
    show ?thesis
    proof (rule rest[of ?u])
      show "control_ok config ?y"
      proof (rule control_okI)
        show "shape_ok config (cy_shared ?y)" using D(1) cache'(2) by (simp add: shape_ok_def)
        show "ledger_ok (cf_carriers config) (cf_max_vthreads config) (ledger_of ?y)" unfolding M by (rule C(1))
        show "cell_ok (sh_cells (cy_shared ?y) x) x" if "known_task ?y x" for x
        proof -
          have "known_task y x" using that unfolding known_task_def M by (auto simp: lg_close_def split: if_splits)
          from D(3)[OF this] show ?thesis by simp
        qed
        show "cb_first b \<noteq> None \<and> ids \<noteq> {}" if "(b, d, ids) \<in> set (cy_batches ?y)" for b d ids using D(4) that by simp
      qed
    qed (use Some cache'(1) C(3) in \<open>simp add: book_of_def\<close>)
  qed
qed

section \<open>Admission\<close>

text \<open>The records that make no room: those that are not both terminal and observed.\<close>

definition retained :: "('p, 'e, 'd) shared \<Rightarrow> nat" where
  "retained s = length (filter (\<lambda>t. \<not> reclaimable (sh_cells s) t) (concat (map (ss_records \<circ> snd) (sh_scopes s))))"

lemma reclaim_scopes_retained:
  "reclaim_scopes cells taken m = (m', taken') \<Longrightarrow>
     sum_list (map (\<lambda>p. length (ss_records (snd p))) m') = length (filter (\<lambda>t. \<not> reclaimable cells t) (concat (map (ss_records \<circ> snd) m)))"
proof (induction cells taken m arbitrary: m' taken' rule: reclaim_scopes.induct)
  case (2 cells taken k st m)
  obtain n u where nu: "reclaim_scopes cells (taken @ filter (reclaimable cells) (ss_records st)) m = (n, u)" by fastforce
  from "2.prems" nu "2.IH"[OF refl refl nu] show ?case by (auto simp: Let_def)
qed simp

lemma reclaim_room:
  assumes ok: "control_ok config y" and r: "reclaim (cy_shared y) = Inr s'"
  shows "cf_max_vthreads config \<le> sh_record_count s' \<longleftrightarrow> cf_max_vthreads config \<le> retained (cy_shared y)"
proof -
  let ?s = "cy_shared y"
  note D = control_okD[OF ok]
  have cfg: "sh_config ?s = config" and wf: "kv_wf (sh_scopes ?s)" using D(1) by (simp_all add: shape_ok_def)
  have count: "sh_record_count ?s = sum_list (map (\<lambda>p. length (ss_records (snd p))) (sh_scopes ?s))"
    using ledger_okD(7)[OF D(2)] total_kv[OF wf] by simp
  have le: "retained ?s \<le> sh_record_count ?s"
    unfolding count retained_def by (rule order.trans[OF length_filter_le]) (simp add: length_concat comp_def)
  show ?thesis
  proof (cases "sh_record_count ?s < cf_max_vthreads config")
    case True
    then show ?thesis using r le cfg by (simp add: reclaim_def)
  next
    case False
    obtain m u where mu: "reclaim_scopes (sh_cells ?s) [] (sh_scopes ?s) = (m, u)" by fastforce
    have "sh_record_count s' = sh_record_count ?s - length u" using r mu False cfg by (auto simp: reclaim_def split: if_splits)
    moreover have "length u + retained ?s = sh_record_count ?s"
      using reclaim_scopes_ok[OF mu] reclaim_scopes_retained[OF mu] count by (simp add: retained_def)
    ultimately have "sh_record_count s' = retained ?s" by linarith
    then show ?thesis by simp
  qed
qed

lemma select_ok:
  assumes ok: "control_ok config y"
  shows "\<exists>found loads. choose_owner None (cy_shared y) = Inr (Inr found, (cy_shared y)\<lparr>sh_loads := loads\<rparr>)
    \<and> control_ok config (y\<lparr>cy_shared := (cy_shared y)\<lparr>sh_loads := loads\<rparr>\<rparr>)
    \<and> (found = None \<longleftrightarrow> (\<forall>c < cf_carriers config. \<not> inbox_can_accept (sh_inboxes (cy_shared y) ! c)))
    \<and> (\<forall>c. found = Some c \<longrightarrow> c < cf_carriers config \<and> inbox_can_accept (sh_inboxes (cy_shared y) ! c)
         \<and> (\<forall>d < cf_carriers config. inbox_can_accept (sh_inboxes (cy_shared y) ! d) \<longrightarrow> load_of loads c \<le> load_of loads d))"
proof -
  note D = control_okD[OF ok] and LO = loads_from_ledger[OF ok]
  let ?s = "cy_shared y" and ?r = "\<lambda>c. ib_retired (sh_inboxes (cy_shared y) ! c)" and ?a = "\<lambda>c. inbox_can_accept (sh_inboxes (cy_shared y) ! c)"
  have n: "length (cl_assigned (sh_loads ?s)) = cf_carriers config" using D(1) by (simp add: shape_ok_def)
  have small: "\<And>c. c < length (cl_assigned (sh_loads ?s)) \<Longrightarrow> cl_assigned (sh_loads ?s) ! c < - 1" using LO(2) n by simp
  from select_carrier_ok[OF LO(1) small, of "sh_cursor ?s" ?a] obtain found loads where
    sel: "select_carrier (sh_cursor ?s) ?r ?a (sh_loads ?s) = Inr (found, loads)" and lo: "loads_ok ?r loads"
      and as: "cl_assigned loads = cl_assigned (sh_loads ?s)"
      and f: "found = None \<longleftrightarrow> (\<forall>c < cf_carriers config. \<not> ?a c)"
      "\<forall>c. found = Some c \<longrightarrow> c < cf_carriers config \<and> ?a c \<and> (\<forall>d < cf_carriers config. ?a d \<longrightarrow> load_of loads c \<le> load_of loads d)"
    unfolding n by blast
  let ?y = "y\<lparr>cy_shared := ?s\<lparr>sh_loads := loads\<rparr>\<rparr>"
  have M: "ledger_of ?y = ledger_of y" by (rule ledger_eqI) (simp_all add: as)
  have "control_ok config ?y"
  proof (rule control_okI)
    show "shape_ok config (cy_shared ?y)" using D(1) lo as n by (simp add: shape_ok_def loads_ok_def)
    show "ledger_ok (cf_carriers config) (cf_max_vthreads config) (ledger_of ?y)" unfolding M by (rule D(2))
    show "cell_ok (sh_cells (cy_shared ?y) t) t" if "known_task ?y t" for t
      using D(3)[of t] that unfolding known_task_def M by simp
    show "cb_first b \<noteq> None \<and> ids \<noteq> {}" if "(b, d, ids) \<in> set (cy_batches ?y)" for b d ids using D(4) that by simp
  qed
  then show ?thesis using sel f by (intro exI[of _ found] exI[of _ loads]) (simp add: choose_owner_def)
qed

text \<open>The outcome of a reservation, in terms of the state before it.\<close>

definition reserve_outcome :: "runtime_config \<Rightarrow> runtime_env \<Rightarrow> u64 \<Rightarrow> utf8 \<Rightarrow> (carrier_id \<times> task_id \<times> task_options) option \<Rightarrow> instant option
    \<Rightarrow> spawn_parent option \<Rightarrow> ('p, 'e, 'd) control_sys \<Rightarrow> reservation result \<Rightarrow> ('p, 'e, 'd) shared \<Rightarrow> bool" where
  "reserve_outcome config env scope name local deadline parent y result s' \<longleftrightarrow>
     (let s = cy_shared y;
          open_scope = (\<exists>st. kv_get (sh_scopes s) scope = Some st \<and> (local = None \<longrightarrow> ss_admitting st));
          live = (sh_accepting s \<and> (\<forall>st. kv_get (sh_scopes s) scope = Some st \<longrightarrow> ss_aborting st = None));
          can_run = (\<lambda>c. case local of None \<Rightarrow> inbox_can_accept (sh_inboxes s ! c) | Some (d, _) \<Rightarrow> c = d \<and> \<not> ib_stopped (sh_inboxes s ! c)) in
      case result of
        Inr rv \<Rightarrow>
          \<not> blank name \<and> text_len name \<le> 128 \<and> open_scope \<and> live \<and> retained s < cf_max_vthreads config
          \<and> rv_owner rv < cf_carriers config \<and> can_run (rv_owner rv)
          \<and> rv_id rv = sh_next_task s \<and> rv_id rv \<notin> cy_inflight y
          \<and> tr_status (sh_cells s' (rv_id rv)) = StatusQueued \<and> tr_scope (sh_cells s' (rv_id rv)) = scope
          \<and> tr_carrier (sh_cells s' (rv_id rv)) = rv_owner rv
          \<and> (\<forall>own. tr_options (sh_cells s' (rv_id rv)) = Some own \<longrightarrow> options_check env own = Inr ())
      | Inl e \<Rightarrow>
          (case e of
             InvalidConfiguration field _ \<Rightarrow> field = TaskName \<and> blank name
           | LimitExceeded resource n \<Rightarrow> resource = TaskNameBytes \<and> n = 128 \<and> 128 < text_len name
           | ScopeClosed \<Rightarrow> \<not> open_scope
           | RuntimeStopped \<Rightarrow> open_scope \<and> (\<not> live \<or> (\<exists>c own. local = Some (c, own) \<and> ib_stopped (sh_inboxes s ! c)))
           | Cancelled \<Rightarrow> open_scope \<and> live
           | DeadlineExceeded \<Rightarrow> open_scope \<and> live
           | Capacity resource n \<Rightarrow> open_scope \<and> live \<and> sh_rejected s' = sh_rejected s + 1
               \<and> (resource = Tasks \<and> n = cf_max_vthreads config \<and> cf_max_vthreads config \<le> retained s
                 \<or> resource = CarrierQueue \<and> n = cf_carrier_queue_capacity config \<and> local = None
                   \<and> (\<forall>c < cf_carriers config. \<not> inbox_can_accept (sh_inboxes s ! c)))
           | Fault component _ \<Rightarrow> component = Scheduler \<and> sh_next_task s = - 1
           | _ \<Rightarrow> False))"

lemma checked_add_none: "checked_add a 1 = None \<Longrightarrow> a = - 1"
proof -
  assume "checked_add a 1 = None"
  then have "\<not> unat a + 1 < 2 ^ 64" by (simp add: checked_add_def split: if_splits)
  then have "unat a = 2 ^ 64 - 1" using unsigned_less[of a, where ?'a = nat] by simp
  then show "a = - 1" by (simp add: word_unat_eq_iff unsigned_minus_1_eq_mask mask_eq_exp_minus_1)
qed

lemma fresh_task: "control_ok config y \<Longrightarrow> sh_next_task (cy_shared y) \<notin> cy_inflight y \<and> sh_next_task (cy_shared y) \<noteq> 0"
  using ledger_okD(1,2)[OF control_okD(2), of config y] by (auto simp: sets_ok_def)

text \<open>The end of a reservation, once a carrier is chosen.\<close>

lemma reserve_enter:
  assumes ok: "control_ok config y" and st: "kv_get (sh_scopes (cy_shared y)) k = Some st" and c: "c < cf_carriers config"
    and room: "sh_record_count (cy_shared y) < cf_max_vthreads config" and nx: "checked_add (sh_next_task (cy_shared y)) 1 = Some nx"
  shows "\<exists>s'. enter_task k (fresh_record (sh_next_task (cy_shared y)) k p own name c) c ((cy_shared y)\<lparr>sh_next_task := nx\<rparr>) = Inr s'
    \<and> control_ok config (y\<lparr>cy_shared := s', cy_unretired := insert (sh_next_task (cy_shared y)) (cy_unretired y),
        cy_inflight := insert (sh_next_task (cy_shared y)) (cy_inflight y), cy_reserved := insert (sh_next_task (cy_shared y)) (cy_reserved y)\<rparr>)
    \<and> sh_cells s' = (sh_cells (cy_shared y))(sh_next_task (cy_shared y) := fresh_record (sh_next_task (cy_shared y)) k p own name c)"
  using enter_ok[OF ok st c room nx, of "fresh_record (sh_next_task (cy_shared y)) k p own name c"]
  by (auto simp: fresh_record_def)

lemma reserve_ok:
  assumes ok: "control_ok config y"
    and carrier: "\<forall>c own. local = Some (c, own) \<longrightarrow> c < cf_carriers config"
  shows "\<exists>result s'. reserve_with env scope name local deadline parent (cy_shared y) = Inr (result, s')
    \<and> reserve_outcome config env scope name local deadline parent y result s'
    \<and> (case result of
         Inl _ \<Rightarrow> control_ok config (y\<lparr>cy_shared := s'\<rparr>)
       | Inr rv \<Rightarrow> control_ok config (y\<lparr>cy_shared := s', cy_unretired := insert (rv_id rv) (cy_unretired y),
             cy_inflight := insert (rv_id rv) (cy_inflight y), cy_reserved := insert (rv_id rv) (cy_reserved y)\<rparr>))"
    (is "\<exists>result s'. ?run = Inr (result, s') \<and> ?out result s' \<and> ?keeps result s'")
proof -
  let ?s = "cy_shared y"
  note D = control_okD[OF ok]
  have cfg: "sh_config ?s = config" using D(1) by (simp add: shape_ok_def)
  have unchanged: ?thesis if "?run = Inr (Inl e, ?s)" "?out (Inl e) ?s" for e
    using that ok by (intro exI[of _ "Inl e"] exI[of _ ?s]) simp
  note out = reserve_outcome_def Let_def
  consider "blank name" | "\<not> blank name" "128 < text_len name" | "\<not> blank name" "text_len name \<le> 128" "kv_get (sh_scopes ?s) scope = None"
    | st where "\<not> blank name" "text_len name \<le> 128" "kv_get (sh_scopes ?s) scope = Some st" by (meson not_le option.exhaust)
  then show ?thesis
  proof cases
    case 1
    show ?thesis by (rule unchanged[of "InvalidConfiguration TaskName ''must not be empty''"]) (use 1 in \<open>simp_all add: reserve_with_def out\<close>)
  next
    case 2
    show ?thesis by (rule unchanged[of "LimitExceeded TaskNameBytes 128"]) (use 2 in \<open>simp_all add: reserve_with_def MAX_NAME_BYTES_def out\<close>)
  next
    case 3
    show ?thesis by (rule unchanged[of ScopeClosed]) (use 3 in \<open>simp_all add: reserve_with_def MAX_NAME_BYTES_def out\<close>)
  next
    case (4 st)
    let ?own = "case local of None \<Rightarrow> options_spawned env (ss_options st) scope parent deadline | Some (_, _, own) \<Rightarrow> own"
    consider "local = None" "\<not> ss_admitting st" | "local = None \<longrightarrow> ss_admitting st" "\<not> sh_accepting ?s \<or> ss_aborting st \<noteq> None"
      | e where "local = None \<longrightarrow> ss_admitting st" "sh_accepting ?s" "ss_aborting st = None" "options_check env ?own = Inl e"
      | "local = None \<longrightarrow> ss_admitting st" "sh_accepting ?s" "ss_aborting st = None" "options_check env ?own = Inr ()"
      by (cases "options_check env ?own") auto
    then show ?thesis
    proof cases
      case 1
      show ?thesis by (rule unchanged[of ScopeClosed]) (use 1 4 in \<open>simp_all add: reserve_with_def MAX_NAME_BYTES_def out\<close>)
    next
      case 2
      show ?thesis by (rule unchanged[of RuntimeStopped]) (use 2 4 in \<open>auto simp: reserve_with_def MAX_NAME_BYTES_def out\<close>)
    next
      case (3 e)
      have "e = Cancelled \<or> e = DeadlineExceeded" using 3(4) by (auto simp: options_check_def split: if_splits option.splits)
      then show ?thesis by (intro unchanged[of e]) (use 3 4 in \<open>auto simp: reserve_with_def MAX_NAME_BYTES_def out\<close>)
    next
      case pass: 4
      from reclaim_ok[OF ok] obtain s1 where s1: "reclaim ?s = Inr s1" "control_ok config (y\<lparr>cy_shared := s1\<rparr>)"
        "kv_keys (sh_scopes s1) = kv_keys (sh_scopes ?s)" "sh_cells s1 = sh_cells ?s" "sh_inboxes s1 = sh_inboxes ?s" by blast
      have same1: "sh_rejected s1 = sh_rejected ?s" "sh_next_task s1 = sh_next_task ?s"
        using s1(1) by (auto simp: reclaim_def split: if_splits prod.splits)
      note D1 = control_okD[OF s1(2)]
      have cfg1: "sh_config s1 = config" "length (sh_inboxes s1) = cf_carriers config" using D1(1) by (simp_all add: shape_ok_def)
      note room = reclaim_room[OF ok s1(1)]
      obtain st1 where st1: "kv_get (sh_scopes s1) scope = Some st1"
        using 4(3) s1(3) kv_get_None_iff[of "sh_scopes ?s" scope] kv_get_None_iff[of "sh_scopes s1" scope] by auto
      have run: "?run = (if cf_max_vthreads config \<le> sh_record_count s1 then
            Inr (Inl (Capacity Tasks (cf_max_vthreads config)), s1\<lparr>sh_rejected := sh_rejected s1 + 1\<rparr>)
          else case choose_owner (map_option fst local) s1 of
            Inl p \<Rightarrow> Inl p
          | Inr (Inl e, s) \<Rightarrow> Inr (Inl e, s)
          | Inr (Inr None, s) \<Rightarrow> Inr (Inl (Capacity CarrierQueue (cf_carrier_queue_capacity (sh_config s))), s\<lparr>sh_rejected := sh_rejected s + 1\<rparr>)
          | Inr (Inr (Some owner), s) \<Rightarrow>
             (case task_id_new (sh_next_task s) of Inl p \<Rightarrow> Inl p
              | Inr t \<Rightarrow> (case checked_add (sh_next_task s) 1 of
                   None \<Rightarrow> Inr (Inl (Fault Scheduler ''task id space exhausted''), s)
                 | Some nx \<Rightarrow> map_sum id (\<lambda>s. (Inr \<lparr>rv_id = t, rv_owner = owner\<rparr>, s))
                     (enter_task scope (fresh_record t scope (case local of Some (_, p, _) \<Rightarrow> Some p | None \<Rightarrow> map_option pa_id parent) ?own name owner)
                        owner (s\<lparr>sh_next_task := nx\<rparr>)))))"
      proof -
        have c: "blank name = False" "(MAX_NAME_BYTES < text_len name) = False" "kv_get (sh_scopes ?s) scope = Some st"
          "(local = None \<and> \<not> ss_admitting st) = False" "(\<not> sh_accepting ?s \<or> ss_aborting st \<noteq> None) = False"
          using 4 pass(1-3) by (auto simp: MAX_NAME_BYTES_def)
        show ?thesis unfolding reserve_with_def Let_def c pass(4) s1(1) option.case sum.case if_False cfg1(1) by (rule refl)
      qed
      show ?thesis
      proof (cases "cf_max_vthreads config \<le> sh_record_count s1")
        case True
        have keep: "control_ok config (y\<lparr>cy_shared := s1\<lparr>sh_rejected := sh_rejected s1 + 1\<rparr>\<rparr>)"
          using control_frame[OF s1(2), of "s1\<lparr>sh_rejected := sh_rejected s1 + 1\<rparr>"] by simp
        then show ?thesis using run True room 4 pass same1 by (auto simp: out)
      next
        case False
        have finish: ?thesis
          if owner: "choose_owner (map_option fst local) s1 = Inr (Inr (Some c), s2)" and s2: "control_ok config (y\<lparr>cy_shared := s2\<rparr>)"
            "sh_scopes s2 = sh_scopes s1" "sh_record_count s2 = sh_record_count s1" "sh_next_task s2 = sh_next_task s1"
            and c: "c < cf_carriers config" "case local of None \<Rightarrow> inbox_can_accept (sh_inboxes ?s ! c) | Some (d, _) \<Rightarrow> c = d \<and> \<not> ib_stopped (sh_inboxes ?s ! c)"
          for c s2
        proof (cases "checked_add (sh_next_task s2) 1")
          case None
          have "?run = Inr (Inl (Fault Scheduler ''task id space exhausted''), s2)"
            using run False owner None fresh_task[OF s2(1)] by (simp add: task_id_new_def)
          then show ?thesis using s2 same1 checked_add_none[OF None] by (auto simp: out)
        next
          case (Some nx)
          let ?y = "y\<lparr>cy_shared := s2\<rparr>" and ?p = "case local of Some (_, p, _) \<Rightarrow> Some p | None \<Rightarrow> map_option pa_id parent"
          have pre: "kv_get (sh_scopes (cy_shared ?y)) scope = Some st1" "sh_record_count (cy_shared ?y) < cf_max_vthreads config"
            "checked_add (sh_next_task (cy_shared ?y)) 1 = Some nx"
            using st1 s2 False Some by simp_all
          from reserve_enter[OF s2(1) pre(1) c(1) pre(2,3), of ?p ?own name] obtain s' where
            s': "enter_task scope (fresh_record (sh_next_task s2) scope ?p ?own name c) c (s2\<lparr>sh_next_task := nx\<rparr>) = Inr s'"
              "control_ok config (?y\<lparr>cy_shared := s', cy_unretired := insert (sh_next_task s2) (cy_unretired y),
                 cy_inflight := insert (sh_next_task s2) (cy_inflight y), cy_reserved := insert (sh_next_task s2) (cy_reserved y)\<rparr>)"
              "sh_cells s' = (sh_cells s2)(sh_next_task s2 := fresh_record (sh_next_task s2) scope ?p ?own name c)" by auto
          let ?rv = "\<lparr>rv_id = sh_next_task s2, rv_owner = c\<rparr>"
          have r: "?run = Inr (Inr ?rv, s')"
            using run False owner Some fresh_task[OF s2(1)] s'(1) by (simp add: task_id_new_def)
          have "?out (Inr ?rv) s'"
            using 4 pass False room c s'(3) fresh_task[OF ok] s2(4) same1(2) by (auto simp: out fresh_record_def split: option.splits)
          moreover have "?keeps (Inr ?rv) s'" using s'(2) by simp
          ultimately show ?thesis using r by blast
        qed
        show ?thesis
        proof (cases local)
          case None
          from select_ok[OF s1(2)] obtain found loads where
            f: "choose_owner None s1 = Inr (Inr found, s1\<lparr>sh_loads := loads\<rparr>)" "control_ok config (y\<lparr>cy_shared := s1\<lparr>sh_loads := loads\<rparr>\<rparr>)"
              "found = None \<longleftrightarrow> (\<forall>c < cf_carriers config. \<not> inbox_can_accept (sh_inboxes s1 ! c))"
              "\<forall>c. found = Some c \<longrightarrow> c < cf_carriers config \<and> inbox_can_accept (sh_inboxes s1 ! c)" by auto
          show ?thesis
          proof (cases found)
            case (Some c)
            show ?thesis by (rule finish[of c "s1\<lparr>sh_loads := loads\<rparr>"]) (use f Some None s1(5) in simp_all)
          next
            case none: None
            let ?s2 = "s1\<lparr>sh_loads := loads, sh_rejected := sh_rejected s1 + 1\<rparr>"
            have "control_ok config (y\<lparr>cy_shared := ?s2\<rparr>)"
              using control_frame[OF f(2), of ?s2] by simp
            moreover have "?run = Inr (Inl (Capacity CarrierQueue (cf_carrier_queue_capacity config)), ?s2)"
              using run False None f(1) none cfg1(1) by simp
            ultimately show ?thesis using f(3) none None 4 pass s1(5) same1 by (auto simp: out)
          qed
        next
          case (Some l)
          obtain c p own where l: "l = (c, p, own)" by (cases l)
          have c: "c < cf_carriers config" using carrier Some l by blast
          show ?thesis
          proof (cases "ib_stopped (sh_inboxes s1 ! c)")
            case True
            have "?run = Inr (Inl RuntimeStopped, s1)" using run False Some l True c cfg1(2) by (simp add: choose_owner_def)
            then show ?thesis using s1(2,5) True Some l 4 pass by (auto simp: out)
          next
            case stop: False
            show ?thesis by (rule finish[of c s1]) (use stop Some l c cfg1(2) s1(2,5) in \<open>simp_all add: choose_owner_def\<close>)
          qed
        qed
      qed
    qed
  qed
qed

section \<open>Every step\<close>

lemma retire_guard:
  assumes "control_step (RetireBatch us) y = Some r"
  shows "us \<noteq> []" "distinct (map cu_id us)"
    "list_all (\<lambda>u. cu_id u \<in> cy_prepared y \<and> valid_update (cy_shared y) u \<and> cu_scope u = cu_scope (hd us) \<and> cu_carrier u = cu_carrier (hd us)) us"
    "r = (case batch_of us batch_new of
        Inl p \<Rightarrow> Inl p
      | Inr b \<Rightarrow> (case publish_progress b (cy_shared y) of (drained, s) \<Rightarrow>
          Inr (y\<lparr>cy_shared := s, cy_unretired := cy_unretired y - set (map cu_id us), cy_prepared := cy_prepared y - set (map cu_id us),
                 cy_batches := cy_batches y @ [(b, drained, set (map cu_id us))]\<rparr>)))"
proof -
  let ?P = "list_all (\<lambda>u. cu_id u \<in> cy_prepared y \<and> valid_update (cy_shared y) u \<and> cu_scope u = cu_scope (hd us) \<and> cu_carrier u = cu_carrier (hd us)) us"
  have "\<not> (us = [] \<or> \<not> distinct (map cu_id us) \<or> \<not> ?P)"
  proof
    assume "us = [] \<or> \<not> distinct (map cu_id us) \<or> \<not> ?P"
    with assms show False by (simp only: control_step.simps if_True) simp
  qed
  note g = this
  from g show "us \<noteq> []" "distinct (map cu_id us)" ?P by blast+
  show "r = (case batch_of us batch_new of
        Inl p \<Rightarrow> Inl p
      | Inr b \<Rightarrow> (case publish_progress b (cy_shared y) of (drained, s) \<Rightarrow>
          Inr (y\<lparr>cy_shared := s, cy_unretired := cy_unretired y - set (map cu_id us), cy_prepared := cy_prepared y - set (map cu_id us),
                 cy_batches := cy_batches y @ [(b, drained, set (map cu_id us))]\<rparr>)))"
    using assms unfolding control_step.simps if_not_P[OF g] by simp
qed

lemma control_step_ok:
  assumes ok: "control_ok config y" and step: "control_step ev y = Some r"
  shows "\<exists>y'. r = Inr y' \<and> control_ok config y'"
proof -
  note D = control_okD[OF ok] and L = ledger_okD[OF control_okD(2)[OF ok]]
  have n: "length (sh_inboxes (cy_shared y)) = cf_carriers config" using D(1) by (simp add: shape_ok_def)
  have framed: "control_ok config (y\<lparr>cy_shared := s'\<rparr>)" if "same_accounts (cy_shared y) s'" for s'
    using control_frame[OF ok that] .
  show ?thesis
  proof (cases ev)
    case (OpenScope env deadline supervised)
    then show ?thesis using step open_ok[OF ok] by auto
  next
    case (Reserve env scope name local deadline parent)
    have c: "\<forall>c own. local = Some (c, own) \<longrightarrow> c < cf_carriers config"
      using step n by (auto simp: Reserve split: if_splits)
    have guard: "\<not> (case local of None \<Rightarrow> False | Some (c, _, own) \<Rightarrow> length (sh_inboxes (cy_shared y)) \<le> c)"
      using step by (simp add: Reserve split: if_splits)
    from reserve_ok[where local = local, OF ok c] obtain result s' where
      r: "reserve_with env scope name local deadline parent (cy_shared y) = Inr (result, s')"
        "case result of Inl _ \<Rightarrow> control_ok config (y\<lparr>cy_shared := s'\<rparr>)
         | Inr rv \<Rightarrow> control_ok config (y\<lparr>cy_shared := s', cy_unretired := insert (rv_id rv) (cy_unretired y),
             cy_inflight := insert (rv_id rv) (cy_inflight y), cy_reserved := insert (rv_id rv) (cy_reserved y)\<rparr>)" by blast
    then show ?thesis using step guard by (cases result) (auto simp: Reserve)
  next
    case (PushTask t entry)
    then have t: "t \<in> cy_reserved y" using step by (auto split: if_splits)
    then have "tr_carrier (sh_cells (cy_shared y) t) < length (sh_inboxes (cy_shared y))" using L(2) n by (auto simp: sets_ok_def)
    from push_same[OF this] obtain a s' where a: "push_packet (tr_carrier (sh_cells (cy_shared y) t)) \<lparr>pk_task = t, pk_entry = entry\<rparr> (cy_shared y) = Inr (a, s')"
      "same_accounts (cy_shared y) s'" by blast
    note f = framed[OF a(2)]
    have "control_ok config (y\<lparr>cy_shared := s', cy_reserved := (if a then cy_reserved y - {t} else cy_reserved y)\<rparr>)"
      using commit_ok[OF f, of t] f by (cases a) simp_all
    then show ?thesis using step t a(1) PushTask by auto
  next
    case (CommitTask t)
    then show ?thesis using step commit_ok[OF ok] by auto
  next
    case (ReleaseTask t)
    then show ?thesis using step release_ok[OF ok, of t] by (auto split: if_splits)
  next
    case (ChangeTask t f)
    then have "same_accounts (cy_shared y) (transition t f (cy_shared y))"
      using step by (intro transition_same) (auto simp: Let_def split: if_splits)
    from framed[OF this] show ?thesis using step ChangeTask by (auto simp: Let_def split: if_splits)
  next
    case (CompleteTask t failure)
    then have t: "t \<in> cy_unretired y" "t \<notin> cy_reserved y" using step by (auto split: if_splits)
    from complete_ok[OF ok this, of failure] show ?thesis using step CompleteTask t ok
      by (auto split: prod.splits option.splits)
  next
    case (RetireBatch us)
    note g = retire_guard[OF step[unfolded RetireBatch]]
    from retire_ok[OF ok g(1,2), of "cu_scope (hd us)" "cu_carrier (hd us)"] g(3) obtain b drained s' where
      b: "batch_of us batch_new = Inr b" "publish_progress b (cy_shared y) = (drained, s')"
        "control_ok config (y\<lparr>cy_shared := s', cy_unretired := cy_unretired y - set (map cu_id us), cy_prepared := cy_prepared y - set (map cu_id us),
           cy_batches := cy_batches y @ [(b, drained, set (map cu_id us))]\<rparr>)" unfolding list_all_iff by blast
    then show ?thesis unfolding g(4) by simp
  next
    case (SettleBatch i)
    obtain b drained ids where e: "cy_batches y ! i = (b, drained, ids)" by (metis prod_cases3)
    with settle_ok[OF ok _ e] show ?thesis using step SettleBatch by (auto split: if_splits)
  next
    case (CloseScope k)
    then show ?thesis using step framed[OF close_same] by auto
  next
    case (AbortScope k reason)
    then show ?thesis using step framed[OF abort_same] by auto
  next
    case (FinishScope unique k)
    then have "scope_active (ss_progress st) = Inr 0" if "kv_get (sh_scopes (cy_shared y)) k = Some st" for st
      using step that by (auto split: if_splits)
    from finish_ok[OF ok this] obtain s' where "finish_scope unique k (cy_shared y) = Inr s'" "control_ok config (y\<lparr>cy_shared := s'\<rparr>)" by blast
    then show ?thesis using step FinishScope by (auto split: if_splits)
  next
    case (ServeInbox c serve)
    then have "same_accounts (cy_shared y) ((cy_shared y)\<lparr>sh_inboxes := (sh_inboxes (cy_shared y))[c := serve (sh_inboxes (cy_shared y) ! c)]\<rparr>)"
      using step by (intro same_one_inbox) (auto simp: Let_def split: if_splits)
    from framed[OF this] show ?thesis using step ServeInbox by (auto simp: Let_def split: if_splits)
  next
    case (SetWaiters m)
    then show ?thesis using step framed[of "(cy_shared y)\<lparr>sh_target_waiters := m\<rparr>"] by auto
  next
    case (PublishCarrier snapshot)
    then have "cs_id snapshot < length (sh_carrier_states (cy_shared y))" using step by (auto split: if_splits)
    from snapshot_same[OF this] obtain s' where "publish_snapshot snapshot (cy_shared y) = Inr s'" "same_accounts (cy_shared y) s'" by blast
    with framed[OF this(2)] show ?thesis using step PublishCarrier by (auto split: if_splits)
  next
    case RequestStop
    then show ?thesis using step framed[OF stop_same] by auto
  next
    case (AdvanceShutdown phase)
    then show ?thesis using step framed[OF advance_same] by auto
  qed
qed

lemma control_start_ok:
  assumes "shared_new config root snapshots cells = Inr s"
  shows "control_ok config \<lparr>cy_shared = s, cy_unretired = {}, cy_inflight = {}, cy_reserved = {}, cy_prepared = {}, cy_batches = []\<rparr>"
proof -
  let ?y = "\<lparr>cy_shared = s, cy_unretired = {}, cy_inflight = {}, cy_reserved = {}, cy_prepared = {}, cy_batches = []\<rparr>"
  from assms have n: "0 < cf_carriers config" by (auto simp: shared_new_def loads_new_def split: if_splits)
  then have s: "sh_config s = config" "sh_inboxes s = map (\<lambda>_. inbox_new (cf_carrier_queue_capacity config)) [0..<cf_carriers config]"
    "sh_loads s = \<lparr>cl_assigned = replicate (cf_carriers config) 0, cl_observed = replicate (cf_carriers config) 0, cl_probe = 0\<rparr>"
    "sh_scopes s = []" "sh_next_task s = 1" "sh_record_count s = 0" "sh_record_cache s = []"
    using assms by (auto simp: shared_new_def loads_new_def)
  show ?thesis
  proof (rule control_okI)
    show "shape_ok config (cy_shared ?y)" using n by (simp add: shape_ok_def s kv_keys_def inbox_new_def)
    show "ledger_ok (cf_carriers config) (cf_max_vthreads config) (ledger_of ?y)"
    proof (rule ledger_okI)
      show "carrier_ok (ledger_of ?y) c" if "c < cf_carriers config" for c
        using that by (simp add: carrier_ok_def of_carrier_set_def s inbox_new_def)
    qed (simp_all add: s sets_ok_def batches_ok_def record_total_def dom_def)
  qed (simp_all add: known_task_def s)
qed

lemma control_reach_ok: "control_reach config evs r \<Longrightarrow> \<exists>y. r = Inr y \<and> control_ok config y"
proof (induction rule: control_reach.induct)
  case (start root snapshots cells s)
  from control_start_ok[OF start] show ?case by simp
next
  case (step evs y ev r)
  from step.IH have "control_ok config y" by simp
  from control_step_ok[OF this step.hyps(2)] show ?case .
qed

section \<open>A small runtime\<close>

text \<open>One carrier, one open scope, and its first task: the states at which the properties below are applied.\<close>

definition demo_config :: runtime_config where
  "demo_config = config_default\<lparr>cf_max_vthreads := 4, cf_max_owned_scopes := 4, cf_carriers := 1\<rparr>"

definition demo_env :: runtime_env where
  "demo_env = \<lparr>env_now = 0, env_cancelled = (\<lambda>_. False), env_child = (\<lambda>t. t + 1), env_child_for_scope = (\<lambda>t u. t + u)\<rparr>"

definition demo_start :: "(unit, unit, unit) control_sys" where
  "demo_start = \<lparr>cy_shared = (case shared_new demo_config 0 (\<lambda>c. \<lparr>cs_id = c, cs_status = CarrierIdle, cs_counters = ()\<rparr>)
       (\<lambda>t. fresh_record t 0 None \<lparr>opt_cancellation = 0, opt_deadline = None\<rparr> [] 0) of Inr s \<Rightarrow> s),
     cy_unretired = {}, cy_inflight = {}, cy_reserved = {}, cy_prepared = {}, cy_batches = []\<rparr>"

definition demo_open :: "(unit, unit, unit) control_sys" where
  "demo_open = demo_start\<lparr>cy_shared := snd (begin_owned demo_env None True (cy_shared demo_start))\<rparr>"

definition demo_reserve :: "reservation result \<times> (unit, unit, unit) shared" where
  "demo_reserve = (case reserve_with demo_env 1 [97] None None None (cy_shared demo_open) of Inr r \<Rightarrow> r)"

definition demo_task :: "(unit, unit, unit) control_sys" where
  "demo_task = demo_open\<lparr>cy_shared := snd demo_reserve, cy_unretired := {1}, cy_inflight := {1}, cy_reserved := {1}\<rparr>"

lemmas demo_defs = demo_config_def demo_env_def demo_start_def demo_open_def demo_reserve_def demo_task_def
  config_default_def DEFAULT_MAX_VTHREADS_def shared_new_def loads_new_def begin_owned_def put_scope_def scope_progress_new_def
  kv_put_def kv_del_def kv_get_def checked_add_def

lemma demo_open_eq:
  "cy_shared demo_open = \<lparr>
     sh_config = demo_config, sh_root_token = 0, sh_abort_requested = False, sh_inboxes = [inbox_new 256],
     sh_carrier_states = [\<lparr>cs_id = 0, cs_status = CarrierIdle, cs_counters = ()\<rparr>], sh_changed = 0, sh_target_waiters = 0,
     sh_shutdown_phase = NotRequested, sh_accepting = True, sh_active_scope = None,
     sh_scopes = [(1, \<lparr>ss_admitting = True, ss_admitted = 0, ss_progress = scope_progress_new, ss_records = [],
        ss_options = \<lparr>opt_cancellation = 1, opt_deadline = None\<rparr>, ss_supervised = True, ss_aborting = None\<rparr>)],
     sh_next_scope = 2, sh_next_task = 1, sh_cursor = 0, sh_loads = \<lparr>cl_assigned = [0], cl_observed = [0], cl_probe = 0\<rparr>,
     sh_rejected = 0, sh_admitted = 0, sh_record_count = 0, sh_record_cache = [],
     sh_cells = (\<lambda>t. fresh_record t 0 None \<lparr>opt_cancellation = 0, opt_deadline = None\<rparr> [] 0)\<rparr>"
  by (simp add: demo_defs)

lemma demo_ghosts: "cy_unretired demo_open = {}" "cy_inflight demo_open = {}" "cy_reserved demo_open = {}" "cy_prepared demo_open = {}" "cy_batches demo_open = []"
  by (simp_all add: demo_open_def demo_start_def)

lemma demo_reserve_eq:
  "reserve_with demo_env 1 [97] None None None (cy_shared demo_open) = Inr (Inr \<lparr>rv_id = 1, rv_owner = 0\<rparr>, snd demo_reserve)
   \<and> sh_cells (snd demo_reserve) 1 = fresh_record 1 1 None \<lparr>opt_cancellation = 2, opt_deadline = None\<rparr> [97] 0"
proof -
  have sel: "select_carrier 0 (\<lambda>c. ib_retired ([inbox_new 256 :: unit inbox] ! c)) (\<lambda>c. inbox_can_accept ([inbox_new 256 :: unit inbox] ! c))
      \<lparr>cl_assigned = [0], cl_observed = [0], cl_probe = 0\<rparr> = Inr (Some 0, \<lparr>cl_assigned = [0], cl_observed = [0], cl_probe = 0\<rparr>)"
    by (simp add: select_carrier_def refresh_probe_def visit_order_def cached_load_def carrier_load_def checked_sub_def
        inbox_new_def inbox_can_accept_def Let_def)
  have name: "blank [97] = False" "text_len [97] = 1" by (simp_all add: blank_def is_whitespace_def text_len_def char_bytes_def)
  have "\<exists>s'. reserve_with demo_env 1 [97] None None None (cy_shared demo_open) = Inr (Inr \<lparr>rv_id = 1, rv_owner = 0\<rparr>, s')
      \<and> sh_cells s' 1 = fresh_record 1 1 None \<lparr>opt_cancellation = 2, opt_deadline = None\<rparr> [97] 0"
    unfolding demo_open_eq reserve_with_def name
    by (simp add: MAX_NAME_BYTES_def kv_get_def options_spawned_def options_child_def options_check_def demo_env_def reclaim_def
        demo_config_def choose_owner_def sel[unfolded inbox_new_def] task_id_new_def checked_add_def enter_task_def loads_increment_def put_scope_def kv_put_def
        tracks_stalls_def config_default_def changed_notify_def inbox_new_def fresh_record_def)
  then show ?thesis by (auto simp: demo_reserve_def)
qed

lemma demo_reach_open: "control_reach demo_config [OpenScope demo_env None True] (Inr demo_open)"
proof -
  have "control_reach demo_config [] (Inr demo_start)"
    unfolding demo_start_def
    by (rule start[of _ 0 "\<lambda>c. \<lparr>cs_id = c, cs_status = CarrierIdle, cs_counters = ()\<rparr>"
          "\<lambda>t. fresh_record t 0 None \<lparr>opt_cancellation = 0, opt_deadline = None\<rparr> [] 0"])
      (simp add: demo_config_def shared_new_def loads_new_def)
  from step[OF this, of "OpenScope demo_env None True" "Inr demo_open"] show ?thesis by (simp add: demo_open_def)
qed

lemma demo_reach_task:
  "control_reach demo_config [OpenScope demo_env None True, Reserve demo_env 1 [97] None None None] (Inr demo_task)"
  using step[OF demo_reach_open, of "Reserve demo_env 1 [97] None None None" "Inr demo_task"]
  by (simp add: demo_reserve_eq demo_task_def demo_ghosts)

section \<open>Properties\<close>

text \<open>
  C6. The accounts always balance, and nothing panics: after any history of openings, admissions,
  hand-overs, releases, changes, completions, batched retirements, closings, aborts, finishes
  and stops, the record count is the number of records in the scopes and within the limit of
  tasks; every scope's active count is the number of its tasks not retired yet; and every
  carrier's is the number of its tasks still in flight.
\<close>

theorem control_accounting:
  assumes "control_reach config evs r"
  shows "\<exists>y. r = Inr y
    \<and> sh_record_count (cy_shared y) = sum_list (map (\<lambda>p. length (ss_records (snd p))) (sh_scopes (cy_shared y)))
    \<and> sh_record_count (cy_shared y) \<le> cf_max_vthreads config
    \<and> (\<forall>k st. kv_get (sh_scopes (cy_shared y)) k = Some st \<longrightarrow>
         scope_active (ss_progress st) = Inr (card {t \<in> cy_unretired y. tr_scope (sh_cells (cy_shared y) t) = k}))
    \<and> (\<forall>c < cf_carriers config.
         loads_active (sh_loads (cy_shared y)) c (inbox_retired_tasks (sh_inboxes (cy_shared y) ! c))
           = Inr (card {t \<in> cy_inflight y. tr_carrier (sh_cells (cy_shared y) t) = c}))"
proof -
  from control_reach_ok[OF assms] obtain y where y: "r = Inr y" "control_ok config y" by blast
  have wf: "kv_wf (sh_scopes (cy_shared y))" using control_okD(1)[OF y(2)] by (simp add: shape_ok_def)
  show ?thesis
    using y scope_active_count[OF y(2)] carrier_load_count[OF y(2)] ledger_okD(7,8)[OF control_okD(2)[OF y(2)]] total_kv[OF wf]
    by (auto simp: inbox_retired_tasks_def)
qed

theorem control_accounting_witness:
  "control_reach demo_config [OpenScope demo_env None True, Reserve demo_env 1 [97] None None None] (Inr demo_task)
    \<and> loads_active (sh_loads (cy_shared demo_task)) 0 (inbox_retired_tasks (sh_inboxes (cy_shared demo_task) ! 0)) = Inr 1"
proof -
  from control_accounting[OF demo_reach_task]
  have "loads_active (sh_loads (cy_shared demo_task)) 0 (inbox_retired_tasks (sh_inboxes (cy_shared demo_task) ! 0))
      = Inr (card {t \<in> cy_inflight demo_task. tr_carrier (sh_cells (cy_shared demo_task) t) = 0})"
    by (auto simp: demo_config_def)
  moreover have "{t \<in> cy_inflight demo_task. tr_carrier (sh_cells (cy_shared demo_task) t) = 0} = {1}"
    using demo_reserve_eq by (auto simp: demo_task_def fresh_record_def)
  ultimately show ?thesis using demo_reach_task by simp
qed

text \<open>
  C13. The drain signal is exact: the publication of a batch reports its scope drained if and only
  if it retired the last of the scope's tasks, which is when the scope's active count is zero.
  Who waits for the scope to drain is told once, and not before.
\<close>

theorem drain_exact:
  assumes "control_reach config evs (Inr y)" "control_step (RetireBatch us) y = Some r"
  shows "\<exists>b drained s' st'. batch_of us batch_new = Inr b \<and> publish_progress b (cy_shared y) = (drained, s')
    \<and> kv_get (sh_scopes s') (cu_scope (hd us)) = Some st'
    \<and> (drained \<longleftrightarrow> scope_active (ss_progress st') = Inr 0)
    \<and> (drained \<longleftrightarrow> {t \<in> cy_unretired y - set (map cu_id us). tr_scope (sh_cells (cy_shared y) t) = cu_scope (hd us)} = {})"
proof -
  have ok: "control_ok config y" using control_reach_ok[OF assms(1)] by auto
  note g = retire_guard[OF assms(2)]
  from retire_ok[OF ok g(1,2), of "cu_scope (hd us)" "cu_carrier (hd us)"] g(3) obtain b drained s' st' where
    b: "batch_of us batch_new = Inr b" "publish_progress b (cy_shared y) = (drained, s')"
      "control_ok config (y\<lparr>cy_shared := s', cy_unretired := cy_unretired y - set (map cu_id us), cy_prepared := cy_prepared y - set (map cu_id us),
         cy_batches := cy_batches y @ [(b, drained, set (map cu_id us))]\<rparr>)"
      "kv_get (sh_scopes s') (cu_scope (hd us)) = Some st'" "sh_cells s' = sh_cells (cy_shared y)"
      "drained \<longleftrightarrow> {t \<in> cy_unretired y - set (map cu_id us). tr_scope (sh_cells s' t) = cu_scope (hd us)} = {}" unfolding list_all_iff by blast
  let ?U = "{t \<in> cy_unretired y - set (map cu_id us). tr_scope (sh_cells s' t) = cu_scope (hd us)}"
  have "scope_active (ss_progress st') = Inr (card ?U)" using scope_active_count[OF b(3), of "cu_scope (hd us)" st'] b(4) by simp
  moreover have "finite ?U"
    using unretired_finite[OF ledger_okD(2)[OF control_okD(2)[OF ok]]] by simp
  ultimately have "drained \<longleftrightarrow> scope_active (ss_progress st') = Inr 0" using b(6) by simp
  from b(1,2,4) this b(6)[unfolded b(5)] show ?thesis by blast
qed

theorem drain_exact_witness:
  "\<exists>(y :: (unit, unit, unit) control_sys) b s'. control_reach demo_config [OpenScope demo_env None True, Reserve demo_env 1 [97] None None None, CommitTask 1, CompleteTask 1 None] (Inr y)
    \<and> batch_of [\<lparr>cu_id = 1, cu_scope = 1, cu_carrier = 0, cu_status = StatusCompleted\<rparr>] batch_new = Inr b
    \<and> publish_progress b (cy_shared y) = (True, s')"
proof -
  let ?u = "\<lparr>cu_id = 1, cu_scope = 1, cu_carrier = 0, cu_status = StatusCompleted\<rparr>"
  let ?y1 = "demo_task\<lparr>cy_reserved := {}\<rparr>"
  have r1: "control_reach demo_config [OpenScope demo_env None True, Reserve demo_env 1 [97] None None None, CommitTask 1] (Inr ?y1)"
    using step[OF demo_reach_task, of "CommitTask 1" "Inr ?y1"] by (simp add: demo_task_def)
  have cell: "sh_cells (cy_shared demo_task) 1 = fresh_record 1 1 None \<lparr>opt_cancellation = 2, opt_deadline = None\<rparr> [97] 0"
    using demo_reserve_eq by (simp add: demo_task_def)
  obtain u s2 where c: "prepare_completion 1 None (cy_shared ?y1) = (Some u, s2)"
    "tr_scope (sh_cells s2 1) = 1" "tr_carrier (sh_cells s2 1) = 0" "tr_status (sh_cells s2 1) = StatusCompleted"
    using cell by (simp add: prepare_completion_def Let_def fresh_record_def)
  let ?y2 = "?y1\<lparr>cy_shared := s2, cy_prepared := {1}\<rparr>"
  have r2: "control_reach demo_config [OpenScope demo_env None True, Reserve demo_env 1 [97] None None None, CommitTask 1, CompleteTask 1 None] (Inr ?y2)"
    using step[OF r1, of "CompleteTask 1 None" "Inr ?y2"] c(1) by (simp add: demo_task_def demo_ghosts)
  obtain r where r: "control_step (RetireBatch [?u]) ?y2 = Some r" using c(2-4) by (simp add: valid_update_def)
  from drain_exact[OF r2 r] obtain b d s' where
    b: "batch_of [?u] batch_new = Inr b" "publish_progress b (cy_shared ?y2) = (d, s')"
      "d \<longleftrightarrow> {t \<in> cy_unretired ?y2 - set (map cu_id [?u]). tr_scope (sh_cells (cy_shared ?y2) t) = cu_scope (hd [?u])} = {}" by blast
  have "d = True" using b(3) by (simp add: demo_task_def)
  with b(2) have "publish_progress b (cy_shared ?y2) = (True, s')" by simp
  with b(1) r2 show ?thesis by blast
qed



end
