(* ===== verification/Completion.thy ===== *)
theory Completion
  imports Task_Record
begin

text \<open>
  Completion of a task (completion.rs): the DONE bit and the count of subscriptions in one word,
  the bounded map of waits to notify behind a lock, and the interleaving of the completing
  carrier with any number of subscribers. Waits are named by their cell identity, which is also
  the key of the map; a map is the ascending list of its keys.
\<close>

section \<open>State and operations\<close>

definition DONE :: usize where "DONE = 1"
definition WAITER :: usize where "WAITER = 2"

record completion =
  cp_capacity :: nat
  cp_lifecycle :: usize
  cp_waiters :: "u64 list"

definition completion_new :: "nat \<Rightarrow> completion" where
  "completion_new capacity = \<lparr>cp_capacity = capacity, cp_lifecycle = 0, cp_waiters = []\<rparr>"

definition cp_done :: "completion \<Rightarrow> bool" where
  "cp_done c \<longleftrightarrow> cp_lifecycle c AND DONE \<noteq> 0"

text \<open>The steps of \<open>complete\<close>: mark and count, take the waits under the lock, uncount them.\<close>

definition cp_mark :: "completion \<Rightarrow> usize \<times> completion" where
  "cp_mark c = (cp_lifecycle c div WAITER, c\<lparr>cp_lifecycle := cp_lifecycle c OR DONE\<rparr>)"

definition cp_take :: "completion \<Rightarrow> u64 list \<times> completion" where
  "cp_take c = (cp_waiters c, c\<lparr>cp_waiters := []\<rparr>)"

definition cp_release :: "nat \<Rightarrow> completion \<Rightarrow> completion" where
  "cp_release n c = c\<lparr>cp_lifecycle := cp_lifecycle c - of_nat n * WAITER\<rparr>"

text \<open>The whole operation without interference; the waits it notifies, in order.\<close>

definition cp_complete :: "completion \<Rightarrow> u64 list \<times> completion" where
  "cp_complete c =
     (let (registered, c) = cp_mark c;
          (waiters, c) = (if registered = 0 then ([], c) else cp_take c)
      in (waiters, if waiters = [] then c else cp_release (length waiters) c))"

text \<open>
  The steps of \<open>subscribe\<close>: reserve before locking, then under the lock look for DONE again,
  and otherwise admit the wait if there is room.
\<close>

definition cp_reserve :: "completion \<Rightarrow> usize \<times> completion" where
  "cp_reserve c = (cp_lifecycle c, c\<lparr>cp_lifecycle := cp_lifecycle c + WAITER\<rparr>)"

definition cp_full :: "completion \<Rightarrow> bool" where
  "cp_full c \<longleftrightarrow> cp_capacity c \<le> length (cp_waiters c)"

definition cp_insert :: "u64 \<Rightarrow> completion \<Rightarrow> completion" where
  "cp_insert w c = c\<lparr>cp_waiters := insort w (remove1 w (cp_waiters c))\<rparr>"

text \<open>The whole operation; its flag says that the wait was notified instead of registered.\<close>

definition cp_subscribe :: "u64 \<Rightarrow> completion \<Rightarrow> bool result \<times> completion" where
  "cp_subscribe w c =
     (let (lifecycle, c) = cp_reserve c in
      if lifecycle AND DONE \<noteq> 0 then (Inr True, cp_release 1 c)
      else if cp_done c then (Inr True, cp_release 1 c)
      else if cp_full c then (Inl (Capacity Waiters (cp_capacity c)), cp_release 1 c)
      else (Inr False, cp_insert w c))"

text \<open>Dropping a subscription: unlinking under the lock, then uncounting what was unlinked.\<close>

definition cp_unlink :: "u64 \<Rightarrow> completion \<Rightarrow> bool \<times> completion" where
  "cp_unlink w c = (w \<in> set (cp_waiters c), c\<lparr>cp_waiters := remove1 w (cp_waiters c)\<rparr>)"

definition cp_drop :: "u64 \<Rightarrow> completion \<Rightarrow> completion" where
  "cp_drop w c = (let (removed, c) = cp_unlink w c in if removed then cp_release 1 c else c)"

text \<open>Recycling the cell, which nobody else refers to any more.\<close>

definition cp_reset :: "completion \<Rightarrow> completion result_p" where
  "cp_reset c =
     (let c = c\<lparr>cp_lifecycle := 0\<rparr> in
      if cp_waiters c \<noteq> [] then Inl (Panic ''recycled completion has waiters'') else Inr c)"

section \<open>Interleavings\<close>

text \<open>
  Where a subscriber stands: reserved; reserved on a task already done; holding the lock with
  the task not done, done, or the map full; about to notify itself, with or without the lock;
  holding its subscription; unlinked but still counted.
\<close>

datatype subscriber =
    Reserved | Observed | Checked | SawDone | Refused | Informing bool | Subscribed | Leaving

datatype completer = Running | Marked usize | Taken "u64 list" | Notifying "u64 list"

record completion_sys =
  cs_completion :: completion
  cs_locked :: bool
  cs_calls :: "u64 \<rightharpoonup> subscriber"
  cs_completer :: completer
  cs_notified :: "u64 set"

definition completion_start :: "nat \<Rightarrow> completion_sys" where
  "completion_start capacity = \<lparr>cs_completion = completion_new capacity, cs_locked = False, cs_calls = Map.empty,
     cs_completer = Running, cs_notified = {}\<rparr>"

fun counted :: "subscriber \<Rightarrow> bool" where
  "counted (Informing _) = False"
| "counted Subscribed = False"
| "counted _ = True"

fun locking :: "subscriber \<Rightarrow> bool" where
  "locking Checked = True"
| "locking SawDone = True"
| "locking Refused = True"
| "locking (Informing l) = l"
| "locking _ = False"

definition cs_put :: "u64 \<Rightarrow> subscriber \<Rightarrow> completion \<Rightarrow> bool \<Rightarrow> completion_sys \<Rightarrow> completion_sys" where
  "cs_put w st c l y = y\<lparr>cs_calls := (cs_calls y)(w \<mapsto> st), cs_completion := c, cs_locked := l\<rparr>"

definition cs_end :: "u64 \<Rightarrow> completion \<Rightarrow> bool \<Rightarrow> completion_sys \<Rightarrow> completion_sys" where
  "cs_end w c l y = y\<lparr>cs_calls := (cs_calls y)(w := None), cs_completion := c, cs_locked := l\<rparr>"

text \<open>
  One access to the word or one critical section per step. At most \<open>limit\<close> subscriptions of one
  task exist at a time, each of them an object in memory; a wait subscribes once at a time.
\<close>

inductive completion_step :: "nat \<Rightarrow> completion_sys \<Rightarrow> completion_sys result_p \<Rightarrow> bool" for limit where
  reserve: "cs_calls y w = None \<Longrightarrow> card (dom (cs_calls y)) < limit \<Longrightarrow> cp_reserve (cs_completion y) = (before, c) \<Longrightarrow>
    completion_step limit y (Inr (cs_put w (if before AND DONE \<noteq> 0 then Observed else Reserved) c (cs_locked y)
      (y\<lparr>cs_notified := cs_notified y - {w}\<rparr>)))"
| undo: "cs_calls y w = Some Observed \<Longrightarrow>
    completion_step limit y (Inr (cs_put w (Informing False) (cp_release 1 (cs_completion y)) (cs_locked y) y))"
| check: "cs_calls y w = Some Reserved \<Longrightarrow> \<not> cs_locked y \<Longrightarrow>
    completion_step limit y (Inr (cs_put w (if cp_done (cs_completion y) then SawDone else Checked) (cs_completion y) True y))"
| late: "cs_calls y w = Some SawDone \<Longrightarrow>
    completion_step limit y (Inr (cs_put w (Informing True) (cp_release 1 (cs_completion y)) True y))"
| full: "cs_calls y w = Some Checked \<Longrightarrow> cp_full (cs_completion y) \<Longrightarrow>
    completion_step limit y (Inr (cs_put w Refused (cs_completion y) True y))"
| refuse: "cs_calls y w = Some Refused \<Longrightarrow>
    completion_step limit y (Inr (cs_end w (cp_release 1 (cs_completion y)) False y))"
| admit: "cs_calls y w = Some Checked \<Longrightarrow> \<not> cp_full (cs_completion y) \<Longrightarrow>
    completion_step limit y (Inr (cs_put w Subscribed (cp_insert w (cs_completion y)) False y))"
| inform: "cs_calls y w = Some (Informing l) \<Longrightarrow>
    completion_step limit y (Inr (cs_put w Subscribed (cs_completion y) (if l then False else cs_locked y)
      (y\<lparr>cs_notified := insert w (cs_notified y)\<rparr>)))"
| unlink: "cs_calls y w = Some Subscribed \<Longrightarrow> \<not> cs_locked y \<Longrightarrow> cp_unlink w (cs_completion y) = (removed, c) \<Longrightarrow>
    completion_step limit y (Inr (if removed then cs_put w Leaving c False y else cs_end w c False y))"
| leave: "cs_calls y w = Some Leaving \<Longrightarrow>
    completion_step limit y (Inr (cs_end w (cp_release 1 (cs_completion y)) (cs_locked y) y))"
| mark: "cs_completer y = Running \<Longrightarrow> cp_mark (cs_completion y) = (n, c) \<Longrightarrow>
    completion_step limit y (Inr (y\<lparr>cs_completion := c, cs_completer := Marked n\<rparr>))"
| skip: "cs_completer y = Marked 0 \<Longrightarrow>
    completion_step limit y (Inr (y\<lparr>cs_completer := Taken []\<rparr>))"
| take: "cs_completer y = Marked n \<Longrightarrow> n \<noteq> 0 \<Longrightarrow> \<not> cs_locked y \<Longrightarrow> cp_take (cs_completion y) = (ws, c) \<Longrightarrow>
    completion_step limit y (Inr (y\<lparr>cs_completion := c, cs_completer := Taken ws\<rparr>))"
| uncount: "cs_completer y = Taken ws \<Longrightarrow>
    completion_step limit y (Inr (y\<lparr>cs_completion := (if ws = [] then cs_completion y else cp_release (length ws) (cs_completion y)),
      cs_completer := Notifying ws\<rparr>))"
| notify: "cs_completer y = Notifying (w # ws) \<Longrightarrow>
    completion_step limit y (Inr (y\<lparr>cs_completer := Notifying ws, cs_notified := insert w (cs_notified y)\<rparr>))"
| recycle: "cs_completer y = Notifying [] \<Longrightarrow> cs_calls y = Map.empty \<Longrightarrow>
    completion_step limit y (map_sum id (\<lambda>c. y\<lparr>cs_completion := c, cs_completer := Running, cs_notified := {}\<rparr>) (cp_reset (cs_completion y)))"

inductive completion_reach :: "nat \<Rightarrow> nat \<Rightarrow> completion_sys result_p \<Rightarrow> bool" for limit capacity where
  start: "completion_reach limit capacity (Inr (completion_start capacity))"
| step: "completion_reach limit capacity (Inr y) \<Longrightarrow> completion_step limit y r \<Longrightarrow> completion_reach limit capacity r"

section \<open>The lifecycle word\<close>

definition life :: "nat \<Rightarrow> bool \<Rightarrow> usize" where
  "life t d = of_nat (2 * t + of_bool d)"

lemma life_unat:
  assumes "2 * t + 1 < 2 ^ 64"
  shows "unat (life t d) = 2 * t + of_bool d"
proof -
  have "2 * t + of_bool d < 2 ^ 64" using assms by (cases d) simp_all
  then show ?thesis by (simp add: life_def unsigned_of_nat take_bit_nat_eq_self del: of_nat_add of_nat_mult of_nat_of_bool)
qed

lemma life_even: "life t False = 2 * of_nat t"
  by (simp add: life_def)

lemma life_done: "2 * t + 1 < 2 ^ 64 \<Longrightarrow> life t d AND DONE \<noteq> 0 \<longleftrightarrow> d"
  by (simp add: DONE_def and_1_odd life_unat)

lemma life_count:
  assumes "2 * t + 1 < 2 ^ 64"
  shows "life t False div WAITER = of_nat t"
proof -
  have "unat (life t False div WAITER) = t" by (simp add: WAITER_def unat_div life_unat[OF assms])
  then show ?thesis by (metis ucast_id word_unat_eq_iff of_nat_unat)
qed

lemma life_mark: "life t False OR DONE = life t True"
  by (simp add: DONE_def life_def or_one_eq)

lemma life_reserve: "life t d + WAITER = life (Suc t) d"
  by (simp add: life_def WAITER_def algebra_simps)

lemma life_release:
  assumes "n \<le> t"
  shows "life t d - of_nat n * WAITER = life (t - n) d"
proof -
  from assms obtain k where "t = n + k" using le_Suc_ex by blast
  then show ?thesis by (simp add: life_def WAITER_def algebra_simps)
qed

section \<open>The invariant\<close>

fun due :: "completer \<Rightarrow> u64 list" where
  "due (Taken ws) = ws"
| "due (Notifying ws) = ws"
| "due _ = []"

fun uncounted :: "completer \<Rightarrow> nat" where
  "uncounted (Taken ws) = length ws"
| "uncounted _ = 0"

fun drained :: "completer \<Rightarrow> bool" where
  "drained Running = False"
| "drained (Marked n) = (n = 0)"
| "drained _ = True"

text \<open>What the lifecycle word counts.\<close>

definition outstanding :: "completion_sys \<Rightarrow> nat" where
  "outstanding y = tally counted (cs_calls y) + length (cp_waiters (cs_completion y)) + uncounted (cs_completer y)"

fun subscriber_ok :: "completion_sys \<Rightarrow> u64 \<Rightarrow> subscriber \<Rightarrow> bool" where
  "subscriber_ok y w Checked = (\<not> drained (cs_completer y))"
| "subscriber_ok y w Subscribed =
    (w \<in> set (cp_waiters (cs_completion y)) \<or> w \<in> cs_notified y \<or> w \<in> set (due (cs_completer y)))"
| "subscriber_ok y w Reserved = True"
| "subscriber_ok y w Refused = True"
| "subscriber_ok y w Leaving = True"
| "subscriber_ok y w st = (cs_completer y \<noteq> Running)"

definition line_ok :: "nat \<Rightarrow> completion_sys \<Rightarrow> bool" where
  "line_ok capacity y \<longleftrightarrow> cp_capacity (cs_completion y) = capacity \<and> sorted (cp_waiters (cs_completion y))
     \<and> distinct (cp_waiters (cs_completion y)) \<and> length (cp_waiters (cs_completion y)) \<le> capacity
     \<and> (\<forall>w \<in> set (cp_waiters (cs_completion y)). cs_calls y w = Some Subscribed)
     \<and> (drained (cs_completer y) \<longrightarrow> cp_waiters (cs_completion y) = [])"

definition completion_ok :: "nat \<Rightarrow> nat \<Rightarrow> completion_sys \<Rightarrow> bool" where
  "completion_ok limit capacity y \<longleftrightarrow>
     finite (dom (cs_calls y)) \<and> card (dom (cs_calls y)) \<le> limit \<and> length (due (cs_completer y)) \<le> limit
     \<and> line_ok capacity y
     \<and> cp_lifecycle (cs_completion y) = life (outstanding y) (cs_completer y \<noteq> Running)
     \<and> tally locking (cs_calls y) = of_bool (cs_locked y)
     \<and> (\<forall>w st. cs_calls y w = Some st \<longrightarrow> subscriber_ok y w st)
     \<and> (cs_notified y \<noteq> {} \<longrightarrow> cs_completer y \<noteq> Running)"

lemma outstanding_bound:
  assumes "completion_ok limit capacity y"
  shows "outstanding y \<le> 2 * limit" "length (cp_waiters (cs_completion y)) \<le> limit"
proof -
  let ?C = "{w. \<exists>st. cs_calls y w = Some st \<and> counted st}" and ?W = "set (cp_waiters (cs_completion y))"
  have fin: "finite (dom (cs_calls y))" using assms by (simp add: completion_ok_def)
  have disj: "?C \<inter> ?W = {}" and sub: "?C \<union> ?W \<subseteq> dom (cs_calls y)" using assms by (auto simp: completion_ok_def line_ok_def)
  have "card ?C + card ?W = card (?C \<union> ?W)" using disj tally_finite[OF fin] by (simp add: card_Un_disjoint)
  also have "\<dots> \<le> card (dom (cs_calls y))" using sub fin by (rule card_mono[rotated])
  finally have "card ?C + card ?W \<le> limit" using assms by (simp add: completion_ok_def)
  moreover have "card ?W = length (cp_waiters (cs_completion y))" using assms by (simp add: completion_ok_def line_ok_def distinct_card)
  moreover have "uncounted (cs_completer y) \<le> length (due (cs_completer y))" by (cases "cs_completer y") simp_all
  ultimately show "outstanding y \<le> 2 * limit" "length (cp_waiters (cs_completion y)) \<le> limit"
    using assms by (auto simp: outstanding_def tally_def completion_ok_def)
qed

text \<open>Changing the stage of one call and the completion with it.\<close>

lemma put_ok:
  assumes ok: "completion_ok limit capacity y" and w: "card (insert w (dom (cs_calls y))) \<le> limit"
    and c: "cp_capacity c = capacity" "sorted (cp_waiters c)" "distinct (cp_waiters c)" "length (cp_waiters c) \<le> capacity"
      "\<forall>v \<in> set (cp_waiters c). ((cs_calls y)(w \<mapsto> st)) v = Some Subscribed" "drained (cs_completer y) \<longrightarrow> cp_waiters c = []"
    and life: "cp_lifecycle c = life (outstanding (cs_put w st c l y)) (cs_completer y \<noteq> Running)"
    and lock: "of_bool l + (case cs_calls y w of None \<Rightarrow> 0 | Some v \<Rightarrow> of_bool (locking v)) = (of_bool (cs_locked y) + of_bool (locking st) :: nat)"
    and old: "set (cp_waiters (cs_completion y)) - {w} \<subseteq> set (cp_waiters c) - {w}"
    and st: "subscriber_ok (cs_put w st c l y) w st"
  shows "completion_ok limit capacity (cs_put w st c l y)"
proof -
  note okd = ok[unfolded completion_ok_def]
  have fin: "finite (dom (cs_calls y))" using okd by blast
  have "tally locking ((cs_calls y)(w \<mapsto> st)) + (case cs_calls y w of None \<Rightarrow> 0 | Some v \<Rightarrow> of_bool (locking v)) = tally locking (cs_calls y) + of_bool (locking st)"
    using tally_upd[OF fin, of locking w "Some st"] by simp
  with lock okd have "tally locking ((cs_calls y)(w \<mapsto> st)) = of_bool l" by simp
  moreover have "subscriber_ok (cs_put w st c l y) v sv" if "((cs_calls y)(w \<mapsto> st)) v = Some sv" for v sv
  proof (cases "v = w")
    case True
    with that st show ?thesis by simp
  next
    case False
    with that okd have "subscriber_ok y v sv" by simp
    with False old show ?thesis by (cases sv) (auto simp: cs_put_def)
  qed
  moreover have "line_ok capacity (cs_put w st c l y)" using c by (simp add: line_ok_def cs_put_def)
  ultimately show ?thesis using okd w life by (simp add: completion_ok_def cs_put_def)
qed

lemma end_ok:
  assumes ok: "completion_ok limit capacity y"
    and c: "cp_capacity c = capacity" "cp_waiters c = cp_waiters (cs_completion y)" "w \<notin> set (cp_waiters c)"
    and life: "cp_lifecycle c = life (outstanding (cs_end w c l y)) (cs_completer y \<noteq> Running)"
    and lock: "of_bool l + (case cs_calls y w of None \<Rightarrow> 0 | Some v \<Rightarrow> of_bool (locking v)) = (of_bool (cs_locked y) :: nat)"
  shows "completion_ok limit capacity (cs_end w c l y)"
proof -
  note okd = ok[unfolded completion_ok_def]
  have fin: "finite (dom (cs_calls y))" using okd by blast
  have "tally locking ((cs_calls y)(w := None)) + (case cs_calls y w of None \<Rightarrow> 0 | Some v \<Rightarrow> of_bool (locking v)) = tally locking (cs_calls y)"
    using tally_upd[OF fin, of locking w None] by simp
  with lock okd have "tally locking ((cs_calls y)(w := None)) = of_bool l" by simp
  moreover have "subscriber_ok (cs_end w c l y) v sv" if "((cs_calls y)(w := None)) v = Some sv" for v sv
  proof -
    from that okd have "subscriber_ok y v sv" by (simp split: if_splits)
    then show ?thesis using c(2) by (cases sv) (auto simp: cs_end_def)
  qed
  moreover have "line_ok capacity (cs_end w c l y)" using okd c by (auto simp: line_ok_def cs_end_def)
  moreover have "card (dom (cs_calls y) - {w}) \<le> limit" using okd card_Diff1_le[of "dom (cs_calls y)" w] by linarith
  ultimately show ?thesis using okd life by (simp add: completion_ok_def cs_end_def)
qed

lemma outstanding_put:
  "finite (dom (cs_calls y)) \<Longrightarrow> outstanding (cs_put w st c l y) + (case cs_calls y w of None \<Rightarrow> 0 | Some v \<Rightarrow> of_bool (counted v))
     + length (cp_waiters (cs_completion y)) = outstanding y + of_bool (counted st) + length (cp_waiters c)"
  using tally_upd[of "cs_calls y" counted w "Some st"] by (simp add: outstanding_def cs_put_def)

lemma outstanding_end:
  "finite (dom (cs_calls y)) \<Longrightarrow> outstanding (cs_end w c l y) + (case cs_calls y w of None \<Rightarrow> 0 | Some v \<Rightarrow> of_bool (counted v))
     + length (cp_waiters (cs_completion y)) = outstanding y + length (cp_waiters c)"
  using tally_upd[of "cs_calls y" counted w None] by (simp add: outstanding_def cs_end_def)

lemma notified_ok:
  assumes "completion_ok limit capacity y" "\<forall>w. cs_calls y w = Some Subscribed \<longrightarrow> w \<in> cs_notified y \<longrightarrow> w \<in> N"
    and "N \<noteq> {} \<longrightarrow> cs_completer y \<noteq> Running"
  shows "completion_ok limit capacity (y\<lparr>cs_notified := N\<rparr>)"
proof -
  have "subscriber_ok (y\<lparr>cs_notified := N\<rparr>) w st" if "cs_calls y w = Some st" for w st
  proof -
    from that assms(1) have "subscriber_ok y w st" by (simp add: completion_ok_def)
    with that assms(2) show ?thesis by (cases st) auto
  qed
  with assms(1,3) show ?thesis by (simp add: completion_ok_def line_ok_def outstanding_def)
qed

lemma completion_okD:
  assumes "completion_ok limit capacity y"
  shows "finite (dom (cs_calls y))" "card (dom (cs_calls y)) \<le> limit" "cp_capacity (cs_completion y) = capacity"
    "sorted (cp_waiters (cs_completion y))" "distinct (cp_waiters (cs_completion y))" "length (cp_waiters (cs_completion y)) \<le> capacity"
    "\<forall>w \<in> set (cp_waiters (cs_completion y)). cs_calls y w = Some Subscribed"
    "drained (cs_completer y) \<longrightarrow> cp_waiters (cs_completion y) = []"
    "cp_lifecycle (cs_completion y) = life (outstanding y) (cs_completer y \<noteq> Running)"
    "cs_calls y w = Some st \<Longrightarrow> subscriber_ok y w st"
    "cs_notified y \<noteq> {} \<longrightarrow> cs_completer y \<noteq> Running"
    "tally locking (cs_calls y) = of_bool (cs_locked y)"
  using assms by (auto simp: completion_ok_def line_ok_def)

lemma call_put_ok:
  assumes ok: "completion_ok limit capacity y" and w: "cs_calls y w = Some st0"
    and c: "cp_capacity c = capacity" "cp_waiters c = cp_waiters (cs_completion y)" "st0 \<noteq> Subscribed"
    and life: "counted st0 = counted st \<and> cp_lifecycle c = cp_lifecycle (cs_completion y)
      \<or> counted st0 \<and> \<not> counted st \<and> cp_lifecycle c = cp_lifecycle (cs_completion y) - of_nat 1 * WAITER"
    and lock: "of_bool l + of_bool (locking st0) = (of_bool (cs_locked y) + of_bool (locking st) :: nat)"
    and st: "subscriber_ok (cs_put w st c l y) w st"
  shows "completion_ok limit capacity (cs_put w st c l y)"
proof (rule put_ok[OF ok _ c(1) _ _ _ _ _ _ _ _ st])
  note d = completion_okD[OF ok]
  have out: "outstanding (cs_put w st c l y) + of_bool (counted st0) = outstanding y + of_bool (counted st)"
    using outstanding_put[OF d(1), of w st c l] w c(2) by simp
  show "card (insert w (dom (cs_calls y))) \<le> limit" using d(2) w by (simp add: insert_absorb domI)
  show "cp_lifecycle c = life (outstanding (cs_put w st c l y)) (cs_completer y \<noteq> Running)"
    using life
  proof
    assume "counted st0 = counted st \<and> cp_lifecycle c = cp_lifecycle (cs_completion y)"
    with out d(9) show ?thesis by simp
  next
    assume a: "counted st0 \<and> \<not> counted st \<and> cp_lifecycle c = cp_lifecycle (cs_completion y) - of_nat 1 * WAITER"
    then have "outstanding (cs_put w st c l y) = outstanding y - 1" "1 \<le> outstanding y" using out by auto
    with a d(9) life_release[of 1 "outstanding y" "cs_completer y \<noteq> Running"] show ?thesis by metis
  qed
  have "w \<notin> set (cp_waiters c)" using d(7) w c(2,3) by auto
  then show "\<forall>v \<in> set (cp_waiters c). ((cs_calls y)(w \<mapsto> st)) v = Some Subscribed" using d(7) c(2) by auto
qed (use completion_okD[OF ok] c w lock in auto)

lemma call_end_ok:
  assumes ok: "completion_ok limit capacity y" and w: "cs_calls y w = Some st0" "st0 \<noteq> Subscribed \<or> w \<notin> set (cp_waiters (cs_completion y))"
    and c: "cp_capacity c = capacity" "cp_waiters c = cp_waiters (cs_completion y)"
      "cp_lifecycle c = cp_lifecycle (cs_completion y) - of_nat (of_bool (counted st0)) * WAITER"
    and lock: "of_bool l + of_bool (locking st0) = (of_bool (cs_locked y) :: nat)"
  shows "completion_ok limit capacity (cs_end w c l y)"
proof (rule end_ok[OF ok c(1,2)])
  note d = completion_okD[OF ok]
  have out: "outstanding (cs_end w c l y) + of_bool (counted st0) = outstanding y"
    using outstanding_end[OF d(1), of w c l] w c(2) by simp
  then have "outstanding (cs_end w c l y) = outstanding y - of_bool (counted st0)" "of_bool (counted st0) \<le> outstanding y" by linarith+
  with c(3) d(9) life_release[of "of_bool (counted st0)" "outstanding y" "cs_completer y \<noteq> Running"]
  show "cp_lifecycle c = life (outstanding (cs_end w c l y)) (cs_completer y \<noteq> Running)" by metis
  show "w \<notin> set (cp_waiters c)" using d(7) w c(2) by auto
qed (use w lock in auto)

lemma locking_locked: "completion_ok limit capacity y \<Longrightarrow> cs_calls y w = Some st \<Longrightarrow> locking st \<Longrightarrow> cs_locked y"
  using tally_pos[of "cs_calls y" w st locking] completion_okD(1,12) by (metis of_bool_eq_0_iff less_numeral_extra(3))

lemmas cp_defs = cp_reserve_def cp_release_def cp_insert_def cp_unlink_def cp_mark_def cp_take_def cp_done_def cp_full_def

lemma cp_reserve_ok:
  assumes ok: "completion_ok limit capacity y" and lim: "2 * (2 * limit) + 1 < 2 ^ 64"
    and w: "cs_calls y w = None" "card (dom (cs_calls y)) < limit" "cp_reserve (cs_completion y) = (before, c)"
  shows "completion_ok limit capacity (cs_put w (if before AND DONE \<noteq> 0 then Observed else Reserved) c (cs_locked y) (y\<lparr>cs_notified := cs_notified y - {w}\<rparr>))"
proof -
  let ?y = "y\<lparr>cs_notified := cs_notified y - {w}\<rparr>" and ?st = "if before AND DONE \<noteq> 0 then Observed else Reserved"
  have ok': "completion_ok limit capacity ?y" by (rule notified_ok[OF ok]) (use w(1) completion_okD(11)[OF ok] in auto)
  note d = completion_okD[OF ok']
  have before: "before AND DONE \<noteq> 0 \<longleftrightarrow> cs_completer y \<noteq> Running"
    using d(9) w(3) life_done[of "outstanding ?y" "cs_completer y \<noteq> Running"] outstanding_bound(1)[OF ok'] lim
    by (auto simp: cp_defs)
  have c: "cp_lifecycle c = life (Suc (outstanding ?y)) (cs_completer ?y \<noteq> Running)" "cp_waiters c = cp_waiters (cs_completion y)" "cp_capacity c = capacity"
    using d(3,9) w(3) life_reserve by (auto simp: cp_defs)
  have out: "outstanding (cs_put w ?st c (cs_locked y) ?y) = Suc (outstanding ?y)"
    using outstanding_put[OF d(1), of w ?st c "cs_locked y"] w(1) c(2) by simp
  show ?thesis
  proof (rule put_ok[OF ok'])
    show "card (insert w (dom (cs_calls ?y))) \<le> limit" using w d(1) by (simp add: card_insert_if)
    show "subscriber_ok (cs_put w ?st c (cs_locked y) ?y) w ?st" using before by (simp add: cs_put_def)
    show "cp_lifecycle c = life (outstanding (cs_put w ?st c (cs_locked y) ?y)) (cs_completer ?y \<noteq> Running)" using c(1) out by simp
  qed (use d(3-8) c(2,3) w(1) in auto)
qed

lemma admit_ok:
  assumes ok: "completion_ok limit capacity y" and w: "cs_calls y w = Some Checked" "\<not> cp_full (cs_completion y)"
  shows "completion_ok limit capacity (cs_put w Subscribed (cp_insert w (cs_completion y)) False y)"
proof -
  note d = completion_okD[OF ok]
  have new: "w \<notin> set (cp_waiters (cs_completion y))" using d(7) w(1) by auto
  then have ins: "cp_waiters (cp_insert w (cs_completion y)) = insort w (cp_waiters (cs_completion y))"
    by (simp add: cp_insert_def remove1_idem)
  have out: "outstanding (cs_put w Subscribed (cp_insert w (cs_completion y)) False y) = outstanding y"
    using outstanding_put[OF d(1), of w Subscribed "cp_insert w (cs_completion y)" False] w(1) ins by simp
  have "\<not> drained (cs_completer y)" using d(10)[OF w(1)] by simp
  moreover have "cs_locked y" using locking_locked[OF ok w(1)] by simp
  ultimately show ?thesis
    using out d w new ins
    by (intro put_ok[OF ok]) (auto simp: cs_put_def insert_absorb domI cp_full_def set_insort_key distinct_insort sorted_insort cp_insert_def)
qed

lemma unlink_ok:
  assumes ok: "completion_ok limit capacity y" and w: "cs_calls y w = Some Subscribed" "\<not> cs_locked y" "cp_unlink w (cs_completion y) = (removed, c)"
  shows "completion_ok limit capacity (if removed then cs_put w Leaving c False y else cs_end w c False y)"
proof -
  note d = completion_okD[OF ok]
  have c: "removed \<longleftrightarrow> w \<in> set (cp_waiters (cs_completion y))" "c = (cs_completion y)\<lparr>cp_waiters := remove1 w (cp_waiters (cs_completion y))\<rparr>"
    using w(3) by (auto simp: cp_unlink_def)
  show ?thesis
  proof (cases removed)
    case True
    then have len: "Suc (length (remove1 w (cp_waiters (cs_completion y)))) = length (cp_waiters (cs_completion y))"
      using c(1) length_pos_if_in_set[of w "cp_waiters (cs_completion y)"] by (simp add: length_remove1)
    have out: "outstanding (cs_put w Leaving c False y) = outstanding y"
      using outstanding_put[OF d(1), of w Leaving c False] w(1) c(2) len by simp
    have "completion_ok limit capacity (cs_put w Leaving c False y)"
    proof (rule put_ok[OF ok])
      show "cp_lifecycle c = life (outstanding (cs_put w Leaving c False y)) (cs_completer y \<noteq> Running)" using out c(2) d(9) by simp
      show "card (insert w (dom (cs_calls y))) \<le> limit" using d(2) w(1) by (simp add: insert_absorb domI)
      show "length (cp_waiters c) \<le> capacity" using len c(2) d(6) by simp
    qed (use c(2) d(3-5,7,8) w in \<open>auto simp: sorted_remove1\<close>)
    with True show ?thesis by simp
  next
    case False
    then have "c = cs_completion y" using c by (simp add: remove1_idem)
    then show ?thesis using False c(1) call_end_ok[OF ok w(1), of c False] d(3) w(2) by simp
  qed
qed

text \<open>The completer's steps leave the calls alone.\<close>

lemma completer_ok:
  assumes ok: "completion_ok limit capacity y" and m: "length (due m) \<le> limit" "m \<noteq> Running"
    and c: "cp_capacity c = capacity" "cp_waiters c = cp_waiters (cs_completion y) \<or> cp_waiters c = []" "drained m \<longrightarrow> cp_waiters c = []"
    and life: "cp_lifecycle c = life (tally counted (cs_calls y) + length (cp_waiters c) + uncounted m) True"
    and checked: "drained m \<longrightarrow> drained (cs_completer y) \<or> (\<forall>w. cs_calls y w \<noteq> Some Checked)"
    and moved: "set (cp_waiters (cs_completion y)) \<union> cs_notified y \<union> set (due (cs_completer y)) \<subseteq> set (cp_waiters c) \<union> N \<union> set (due m)"
  shows "completion_ok limit capacity (y\<lparr>cs_completion := c, cs_completer := m, cs_notified := N\<rparr>)"
proof -
  note d = completion_okD[OF ok]
  have "subscriber_ok (y\<lparr>cs_completion := c, cs_completer := m, cs_notified := N\<rparr>) w st" if "cs_calls y w = Some st" for w st
  proof -
    from that d(10) have "subscriber_ok y w st" by blast
    with that m(2) checked moved show ?thesis by (cases st) auto
  qed
  then show ?thesis using d(1-9,12) m c life
    by (auto simp: completion_ok_def line_ok_def outstanding_def)
qed

lemma no_checked_when_zero:
  assumes ok: "completion_ok limit capacity y" and z: "outstanding y = 0"
  shows "cs_calls y w \<noteq> Some Checked" "cp_waiters (cs_completion y) = []"
proof -
  have "tally counted (cs_calls y) = 0" using z by (simp add: outstanding_def)
  then show "cs_calls y w \<noteq> Some Checked"
    using tally_pos[OF completion_okD(1)[OF ok], of w Checked counted] by auto
  show "cp_waiters (cs_completion y) = []" using z by (simp add: outstanding_def)
qed

lemma mark_ok:
  assumes ok: "completion_ok limit capacity y" and lim: "2 * (2 * limit) + 1 < 2 ^ 64"
    and m: "cs_completer y = Running" "cp_mark (cs_completion y) = (n, c)"
  shows "completion_ok limit capacity (y\<lparr>cs_completion := c, cs_completer := Marked n\<rparr>)"
proof -
  note d = completion_okD[OF ok]
  have b: "2 * outstanding y + 1 < 2 ^ 64" using outstanding_bound(1)[OF ok] lim by simp
  have n: "n = of_nat (outstanding y)" and c: "cp_lifecycle c = life (outstanding y) True" "cp_waiters c = cp_waiters (cs_completion y)" "cp_capacity c = capacity"
    using m d(3,9) life_count[OF b] life_mark by (auto simp: cp_mark_def)
  have "outstanding y = 0" if "n = 0"
    using that n b by (auto simp: word_of_nat_eq_0_iff dest: dvd_imp_le)
  then have z: "n = 0 \<longrightarrow> (\<forall>w. cs_calls y w \<noteq> Some Checked) \<and> cp_waiters c = []"
    using no_checked_when_zero[OF ok] c(2) by auto
  have "completion_ok limit capacity (y\<lparr>cs_completion := c, cs_completer := Marked n, cs_notified := cs_notified y\<rparr>)"
    by (rule completer_ok[OF ok]) (use c z m(1) in \<open>auto simp: outstanding_def\<close>)
  then show ?thesis by simp
qed

lemma take_ok:
  assumes ok: "completion_ok limit capacity y"
    and m: "cs_completer y = Marked n" "\<not> cs_locked y" "cp_take (cs_completion y) = (ws, c)"
  shows "completion_ok limit capacity (y\<lparr>cs_completion := c, cs_completer := Taken ws\<rparr>)"
proof -
  note d = completion_okD[OF ok]
  have c: "ws = cp_waiters (cs_completion y)" "c = (cs_completion y)\<lparr>cp_waiters := []\<rparr>" using m(3) by (auto simp: cp_take_def)
  have "cs_calls y w \<noteq> Some Checked" for w using locking_locked[OF ok, of w Checked] m(2) by auto
  moreover have "length ws \<le> limit" using outstanding_bound(2)[OF ok] c by simp
  ultimately have "completion_ok limit capacity (y\<lparr>cs_completion := c, cs_completer := Taken ws, cs_notified := cs_notified y\<rparr>)"
    using c d(3,9) m(1) by (intro completer_ok[OF ok]) (auto simp: outstanding_def)
  then show ?thesis by simp
qed

lemma uncount_ok:
  assumes ok: "completion_ok limit capacity y" and m: "cs_completer y = Taken ws"
  shows "completion_ok limit capacity (y\<lparr>cs_completion := (if ws = [] then cs_completion y else cp_release (length ws) (cs_completion y)), cs_completer := Notifying ws\<rparr>)"
proof -
  note d = completion_okD[OF ok]
  let ?c = "if ws = [] then cs_completion y else cp_release (length ws) (cs_completion y)"
  have e: "cp_waiters (cs_completion y) = []" using d(8) m by simp
  have o: "outstanding y = tally counted (cs_calls y) + length ws" using m e by (simp add: outstanding_def)
  have "cp_lifecycle ?c = life (tally counted (cs_calls y)) True"
    using life_release[of "length ws" "outstanding y" True] d(9) o m by (auto simp: cp_release_def)
  moreover have "length ws \<le> limit" using ok m by (simp add: completion_ok_def)
  moreover have "cp_waiters ?c = []" "cp_capacity ?c = capacity" using e d(3) by (simp_all add: cp_release_def)
  ultimately have "completion_ok limit capacity (y\<lparr>cs_completion := ?c, cs_completer := Notifying ws, cs_notified := cs_notified y\<rparr>)"
    using m e by (intro completer_ok[OF ok]) auto
  then show ?thesis by simp
qed

lemma notify_ok:
  assumes ok: "completion_ok limit capacity y" and m: "cs_completer y = Notifying (w # ws)"
  shows "completion_ok limit capacity (y\<lparr>cs_completer := Notifying ws, cs_notified := insert w (cs_notified y)\<rparr>)"
proof -
  note d = completion_okD[OF ok]
  have "length (w # ws) \<le> limit" using ok m by (simp add: completion_ok_def)
  moreover have "cp_waiters (cs_completion y) = []" using d(8) m by simp
  ultimately have "completion_ok limit capacity (y\<lparr>cs_completion := cs_completion y, cs_completer := Notifying ws, cs_notified := insert w (cs_notified y)\<rparr>)"
    using m d(3,9) by (intro completer_ok[OF ok]) (auto simp: outstanding_def)
  then show ?thesis by simp
qed

lemma cp_recycle_ok:
  assumes ok: "completion_ok limit capacity y" and m: "cs_completer y = Notifying []" "cs_calls y = Map.empty"
  shows "\<exists>c. cp_reset (cs_completion y) = Inr c
    \<and> completion_ok limit capacity (y\<lparr>cs_completion := c, cs_completer := Running, cs_notified := {}\<rparr>)"
proof -
  note d = completion_okD[OF ok]
  have e: "cp_waiters (cs_completion y) = []" using d(8) m by simp
  then have "cp_reset (cs_completion y) = Inr ((cs_completion y)\<lparr>cp_lifecycle := 0\<rparr>)" by (simp add: cp_reset_def)
  with e m d(3,12) show ?thesis by (auto simp: completion_ok_def line_ok_def outstanding_def life_def)
qed

lemma completion_step_ok:
  assumes "completion_step limit y r" and lim: "limit < 2 ^ 62" and ok: "completion_ok limit capacity y"
  shows "\<exists>y'. r = Inr y' \<and> completion_ok limit capacity y'"
proof -
  have lim': "2 * (2 * limit) + 1 < 2 ^ 64" using lim by simp
  note d = completion_okD[OF ok]
  from assms(1) show ?thesis
  proof cases
    case (reserve w before c)
    then show ?thesis using cp_reserve_ok[OF ok lim'] by blast
  next
    case (undo w)
    then show ?thesis using call_put_ok[OF ok undo(2), of "cp_release 1 (cs_completion y)" "Informing False" "cs_locked y"] d(3) d(10)[OF undo(2)]
      by (simp add: cp_release_def cs_put_def)
  next
    case (check w)
    have "drained (cs_completer y) \<longrightarrow> cp_done (cs_completion y)" "cp_done (cs_completion y) \<longrightarrow> cs_completer y \<noteq> Running"
      using d(9) life_done[of "outstanding y" "cs_completer y \<noteq> Running"] outstanding_bound(1)[OF ok] lim' by (auto simp: cp_done_def)
    then show ?thesis
      using check call_put_ok[OF ok check(2), of "cs_completion y" "if cp_done (cs_completion y) then SawDone else Checked" True] d(3)
      by (auto simp: cs_put_def)
  next
    case (late w)
    then show ?thesis using call_put_ok[OF ok late(2), of "cp_release 1 (cs_completion y)" "Informing True" True] d(3) d(10)[OF late(2)]
        locking_locked[OF ok late(2)] by (simp add: cp_release_def cs_put_def)
  next
    case (full w)
    then show ?thesis using call_put_ok[OF ok full(2), of "cs_completion y" Refused True] d(3) locking_locked[OF ok full(2)] by simp
  next
    case (refuse w)
    then show ?thesis using call_end_ok[OF ok refuse(2), of "cp_release 1 (cs_completion y)" False] d(3) locking_locked[OF ok refuse(2)]
      by (simp add: cp_release_def)
  next
    case (admit w)
    then show ?thesis using admit_ok[OF ok] by blast
  next
    case (inform w l)
    let ?y = "y\<lparr>cs_notified := insert w (cs_notified y)\<rparr>"
    have ok': "completion_ok limit capacity ?y" by (rule notified_ok[OF ok]) (use d(10)[OF inform(2)] in auto)
    have "l \<longrightarrow> cs_locked y" using locking_locked[OF ok inform(2)] by simp
    then show ?thesis using inform call_put_ok[OF ok', of w "Informing l" "cs_completion y" Subscribed "if l then False else cs_locked y"] d(3)
      by (auto simp: cs_put_def)
  next
    case (unlink w removed c)
    then show ?thesis using unlink_ok[OF ok] by blast
  next
    case (leave w)
    then show ?thesis using call_end_ok[OF ok leave(2), of "cp_release 1 (cs_completion y)" "cs_locked y"] d(3)
      by (simp add: cp_release_def)
  next
    case (mark n c)
    then show ?thesis using mark_ok[OF ok lim'] by blast
  next
    case skip
    have "completion_ok limit capacity (y\<lparr>cs_completion := cs_completion y, cs_completer := Taken [], cs_notified := cs_notified y\<rparr>)"
      by (rule completer_ok[OF ok]) (use d(3,8,9) skip in \<open>auto simp: outstanding_def\<close>)
    with skip show ?thesis by simp
  next
    case (take n ws c)
    then show ?thesis using take_ok[OF ok] by blast
  next
    case (uncount ws)
    then show ?thesis using uncount_ok[OF ok] by blast
  next
    case (notify w ws)
    then show ?thesis using notify_ok[OF ok] by blast
  next
    case recycle
    then show ?thesis using cp_recycle_ok[OF ok] by auto
  qed
qed

lemma completion_reach_ok:
  assumes "completion_reach limit capacity r" "limit < 2 ^ 62"
  shows "\<exists>y. r = Inr y \<and> completion_ok limit capacity y"
  using assms
proof (induction rule: completion_reach.induct)
  case start
  show ?case
    by (auto simp: completion_ok_def line_ok_def outstanding_def life_def completion_start_def completion_new_def)
next
  case (step y r)
  then show ?case using completion_step_ok by blast
qed

section \<open>Properties\<close>

text \<open>
  C14. No completion is lost, and none is reported early: under every interleaving of the
  completing carrier with any number of subscribers that come, wait, give up and come back, once
  the carrier has finished every held subscription has been notified; a notified subscriber
  finds the task done; the map stays within its capacity; and the counted word is exact, so that
  the recycled cell never meets a leftover waiter.
\<close>

theorem completion_no_lost:
  assumes "completion_reach limit capacity r" "limit < 2 ^ 62"
  shows "\<exists>y. r = Inr y
    \<and> (cs_completer y = Notifying [] \<longrightarrow> (\<forall>w. cs_calls y w = Some Subscribed \<longrightarrow> w \<in> cs_notified y))
    \<and> (cs_notified y \<noteq> {} \<longrightarrow> cp_done (cs_completion y))
    \<and> length (cp_waiters (cs_completion y)) \<le> capacity
    \<and> unat (cp_lifecycle (cs_completion y)) = 2 * outstanding y + of_bool (cs_completer y \<noteq> Running)"
proof -
  from completion_reach_ok[OF assms] obtain y where y: "r = Inr y" "completion_ok limit capacity y" by blast
  note d = completion_okD[OF y(2)]
  have b: "2 * outstanding y + 1 < 2 ^ 64" using outstanding_bound(1)[OF y(2)] assms(2) by simp
  have "w \<in> cs_notified y" if "cs_completer y = Notifying []" "cs_calls y w = Some Subscribed" for w
    using d(10)[OF that(2)] d(8) that(1) by simp
  moreover have "cs_notified y \<noteq> {} \<longrightarrow> cp_done (cs_completion y)" using d(9,11) life_done[OF b] by (auto simp: cp_done_def)
  ultimately show ?thesis using y(1) d(6,9) life_unat[OF b] by auto
qed

lemma sample_completion:
  "\<exists>y. completion_reach 2 1 (Inr y) \<and> cs_completer y = Notifying [] \<and> cs_calls y 7 = Some Subscribed"
proof -
  note cr = completion_reach.step[where limit = 2 and capacity = 1]
  note defs = cp_defs cs_put_def DONE_def WAITER_def
  let ?s = "\<lambda>l n ws k m N. \<lparr>cs_completion = \<lparr>cp_capacity = 1, cp_lifecycle = n, cp_waiters = ws\<rparr>, cs_locked = l, cs_calls = [7 \<mapsto> k],
     cs_completer = m, cs_notified = N\<rparr> :: completion_sys"
  have "completion_reach 2 1 (Inr (?s False 2 [] Reserved Running {}))"
    using cr[OF completion_reach.start completion_step.reserve[of "completion_start 1" 7 2]]
    by (simp add: completion_start_def completion_new_def defs)
  from cr[OF this completion_step.check[of _ 7]]
  have "completion_reach 2 1 (Inr (?s True 2 [] Checked Running {}))" by (simp add: defs)
  from cr[OF this completion_step.mark]
  have "completion_reach 2 1 (Inr (?s True 3 [] Checked (Marked 1) {}))" by (simp add: defs)
  from cr[OF this completion_step.admit[of _ 7]]
  have "completion_reach 2 1 (Inr (?s False 3 [7] Subscribed (Marked 1) {}))" by (simp add: defs)
  from cr[OF this completion_step.take[of _ 1]]
  have "completion_reach 2 1 (Inr (?s False 3 [] Subscribed (Taken [7]) {}))" by (simp add: defs)
  from cr[OF this completion_step.uncount[of _ "[7]"]]
  have "completion_reach 2 1 (Inr (?s False 1 [] Subscribed (Notifying [7]) {}))" by (simp add: defs)
  from cr[OF this completion_step.notify[of _ 7 "[]"]]
  have "completion_reach 2 1 (Inr (?s False 1 [] Subscribed (Notifying []) {7}))" by (simp add: defs)
  then show ?thesis by force
qed

theorem completion_no_lost_witness:
  "\<exists>y. completion_reach 2 1 (Inr y) \<and> cs_completer y = Notifying [] \<and> cs_calls y 7 = Some Subscribed
    \<and> 7 \<in> cs_notified y \<and> cp_done (cs_completion y)"
proof -
  obtain y where y: "completion_reach 2 1 (Inr y)" "cs_completer y = Notifying []" "cs_calls y 7 = Some Subscribed"
    using sample_completion by blast
  from completion_no_lost[OF y(1)] y(2,3) have "7 \<in> cs_notified y" "cp_done (cs_completion y)" by auto
  with y show ?thesis by blast
qed

end
