(* ===== verification/Join.thy ===== *)
theory Join
  imports Completion Control_State
begin

text \<open>
  Join handles (join.rs, local_join.rs, join_wait.rs): what a handle delivers of its task's
  outcome, once, and the conditions under which it waits for it. The task's record is that of
  the shared control; the outcome cell holds the returned value or a panic report \<open>'p\<close>.
\<close>

section \<open>Handles\<close>

record join_handle =
  jh_id :: task_id
  jh_taken :: bool

type_synonym ('p, 'v) outcome_cell = "('p + 'v) option"

definition handle_new :: "task_id \<Rightarrow> join_handle" where
  "handle_new t = \<lparr>jh_id = t, jh_taken = False\<rparr>"

text \<open>
  \<open>take_result\<close>: refusals leave everything as it is; otherwise the handle is used up, the
  record is marked as observed, and the abort, the panic or the value is delivered.
\<close>

definition take_result :: "('p \<Rightarrow> string) \<Rightarrow> bool \<Rightarrow> join_handle \<Rightarrow> 'p task_record \<Rightarrow> ('p, 'v) outcome_cell
    \<Rightarrow> 'v result \<times> join_handle \<times> 'p task_record \<times> ('p, 'v) outcome_cell" where
  "take_result message finished h r cell =
     (if jh_taken h then (Inl ResultAlreadyTaken, h, r, cell)
      else if \<not> finished then (Inl WouldBlock, h, r, cell)
      else let h = h\<lparr>jh_taken := True\<rparr>; r = r\<lparr>tr_outcome_observed := True\<rparr> in
        case tr_failure r of
          Some reason \<Rightarrow> (Inl (TaskAborted (jh_id h) reason), h, r, cell)
        | None \<Rightarrow>
            (case tr_panic r of
               Some p \<Rightarrow> (Inl (TaskPanicked (jh_id h) (message p)), h, r, cell)
             | None \<Rightarrow>
                 (case cell of
                    None \<Rightarrow> (Inl (Fault Scheduler ''completed task has no join outcome''), h, r, None)
                  | Some (Inl p) \<Rightarrow> (Inl (TaskPanicked (jh_id h) (message p)), h, r, None)
                  | Some (Inr v) \<Rightarrow> (Inr v, h, r, None))))"

text \<open>
  Waiting for an unfinished task in a virtual thread (\<open>wait_for\<close>), up to its subscription: the
  caller must be mounted, its own policy is checked first unless it is shielded, it may not
  wait for itself, and it must be able to suspend.
\<close>

record join_caller =
  jc_mounted :: "(task_id \<times> unit result) option"
  jc_policy :: "unit result"
  jc_suspend :: "unit result"

definition join_check :: "bool \<Rightarrow> task_id \<Rightarrow> join_caller \<Rightarrow> unit result" where
  "join_check shielded target c =
     (case jc_mounted c of
        None \<Rightarrow> Inl OutsideVThread
      | Some (_, Inl e) \<Rightarrow> Inl e
      | Some (self, Inr _) \<Rightarrow>
          (case if shielded then Inr () else jc_policy c of
             Inl e \<Rightarrow> Inl e
           | Inr _ \<Rightarrow> if self = target then Inl JoinSelf else jc_suspend c))"

text \<open>\<open>wait\<close> and \<open>join\<close>; \<open>waited\<close> is what the wait for an unfinished task came to.\<close>

definition handle_wait :: "bool \<Rightarrow> unit result \<Rightarrow> unit result" where
  "handle_wait finished waited = (if finished then Inr () else waited)"

definition handle_join :: "('p \<Rightarrow> string) \<Rightarrow> bool \<Rightarrow> unit result \<Rightarrow> bool \<Rightarrow> join_handle \<Rightarrow> 'p task_record \<Rightarrow> ('p, 'v) outcome_cell
    \<Rightarrow> 'v result \<times> join_handle \<times> 'p task_record \<times> ('p, 'v) outcome_cell" where
  "handle_join message finished waited after h r cell =
     (if jh_taken h then (Inl ResultAlreadyTaken, h, r, cell)
      else case handle_wait finished waited of
             Inl e \<Rightarrow> (Inl e, h, r, cell)
           | Inr _ \<Rightarrow> take_result message after h r cell)"

section \<open>An outcome is delivered once\<close>

text \<open>
  A handle's life: its owner polls, or joins with some result of waiting, at moments when the
  task is finished or not; a finished task stays finished.
\<close>

datatype join_call = PollCall | JoinCall "unit result"

fun join_run :: "('p \<Rightarrow> string) \<Rightarrow> (join_call \<times> bool) list \<Rightarrow> join_handle \<Rightarrow> 'p task_record \<Rightarrow> ('p, 'v) outcome_cell
    \<Rightarrow> 'v result list \<times> join_handle \<times> 'p task_record \<times> ('p, 'v) outcome_cell" where
  "join_run message [] h r cell = ([], h, r, cell)"
| "join_run message ((call, finished) # calls) h r cell =
     (case (case call of PollCall \<Rightarrow> take_result message finished h r cell
            | JoinCall waited \<Rightarrow> handle_join message finished waited (finished \<or> waited = Inr ()) h r cell) of
        (x, h, r, cell) \<Rightarrow> (case join_run message calls h r cell of (xs, rest) \<Rightarrow> (x # xs, rest)))"

text \<open>What the task came to, by its record and cell.\<close>

definition outcome_of :: "('p \<Rightarrow> string) \<Rightarrow> task_id \<Rightarrow> 'p task_record \<Rightarrow> ('p, 'v) outcome_cell \<Rightarrow> 'v result" where
  "outcome_of message t r cell =
     (case tr_failure r of
        Some reason \<Rightarrow> Inl (TaskAborted t reason)
      | None \<Rightarrow>
          (case tr_panic r of
             Some p \<Rightarrow> Inl (TaskPanicked t (message p))
           | None \<Rightarrow>
               (case cell of
                  None \<Rightarrow> Inl (Fault Scheduler ''completed task has no join outcome'')
                | Some (Inl p) \<Rightarrow> Inl (TaskPanicked t (message p))
                | Some (Inr v) \<Rightarrow> Inr v)))"

fun refused :: "join_call \<times> bool \<Rightarrow> 'v result \<Rightarrow> bool" where
  "refused (PollCall, finished) x = (\<not> finished \<and> x = Inl WouldBlock)"
| "refused (JoinCall waited, finished) x = (\<not> finished \<and> (\<exists>e. waited = Inl e \<and> x = Inl e))"

lemma take_result_taken: "jh_taken h \<Longrightarrow> take_result message finished h r cell = (Inl ResultAlreadyTaken, h, r, cell)"
  by (simp add: take_result_def)

lemma take_result_first:
  assumes "\<not> jh_taken h"
  shows "\<exists>c'. take_result message True h r cell
    = (outcome_of message (jh_id h) r cell, h\<lparr>jh_taken := True\<rparr>, r\<lparr>tr_outcome_observed := True\<rparr>, c')"
  using assms by (auto simp: take_result_def outcome_of_def Let_def split: option.splits sum.splits)

lemma join_run_taken: "jh_taken h \<Longrightarrow> join_run message calls h r cell = (replicate (length calls) (Inl ResultAlreadyTaken), h, r, cell)"
proof (induction calls)
  case (Cons c calls)
  then show ?case by (cases c; cases "fst c") (auto simp: take_result_taken handle_join_def)
qed simp

lemma join_call_cases:
  assumes "\<not> jh_taken h"
    and "(case call of PollCall \<Rightarrow> take_result message finished h r cell
          | JoinCall waited \<Rightarrow> handle_join message finished waited (finished \<or> waited = Inr ()) h r cell) = (x, h', r', c')"
  shows "(refused (call, finished) x \<and> h' = h \<and> r' = r \<and> c' = cell)
    \<or> (x = outcome_of message (jh_id h) r cell \<and> h' = h\<lparr>jh_taken := True\<rparr> \<and> r' = r\<lparr>tr_outcome_observed := True\<rparr>)"
proof (cases call)
  case PollCall
  then show ?thesis using assms take_result_first[OF assms(1), of message r cell]
    by (cases finished) (auto simp: take_result_def)
next
  case (JoinCall waited)
  show ?thesis
  proof (cases "finished \<or> waited = Inr ()")
    case True
    then have "handle_join message finished waited (finished \<or> waited = Inr ()) h r cell = take_result message True h r cell"
      using assms(1) by (auto simp: handle_join_def handle_wait_def)
    with assms(2) JoinCall take_result_first[OF assms(1), of message r cell] show ?thesis by auto
  next
    case False
    then obtain e where e: "waited = Inl e" "\<not> finished" by (cases waited) auto
    then have "handle_join message finished waited (finished \<or> waited = Inr ()) h r cell = (Inl e, h, r, cell)"
      using assms(1) by (simp add: handle_join_def handle_wait_def)
    with assms(2) JoinCall e show ?thesis by auto
  qed
qed

lemma join_run_fresh:
  assumes "\<not> jh_taken h" "join_run message calls h r cell = (xs, h', r', c')"
  shows "\<exists>ys. (\<forall>i < length ys. refused (calls ! i) (ys ! i)) \<and> length ys \<le> length calls
    \<and> (if jh_taken h' then \<exists>k. xs = ys @ outcome_of message (jh_id h) r cell # replicate k (Inl ResultAlreadyTaken) \<and> r' = r\<lparr>tr_outcome_observed := True\<rparr>
       else xs = ys \<and> length ys = length calls \<and> r' = r \<and> c' = cell)"
  using assms
proof (induction calls arbitrary: xs)
  case Nil
  then show ?case by simp
next
  case (Cons cf calls)
  obtain call finished where cf: "cf = (call, finished)" by (cases cf)
  obtain x h1 r1 c1 where one: "(case call of PollCall \<Rightarrow> take_result message finished h r cell
      | JoinCall waited \<Rightarrow> handle_join message finished waited (finished \<or> waited = Inr ()) h r cell) = (x, h1, r1, c1)"
    using prod_cases4 by blast
  obtain zs where zs: "join_run message calls h1 r1 c1 = (zs, h', r', c')" "xs = x # zs"
    using Cons.prems(2) one cf by (auto split: prod.splits)
  from join_call_cases[OF Cons.prems(1) one] show ?case
  proof
    assume a: "refused (call, finished) x \<and> h1 = h \<and> r1 = r \<and> c1 = cell"
    with Cons.IH[OF Cons.prems(1)] zs(1) obtain ys where ys: "\<forall>i < length ys. refused (calls ! i) (ys ! i)" "length ys \<le> length calls"
      "if jh_taken h' then \<exists>k. zs = ys @ outcome_of message (jh_id h) r cell # replicate k (Inl ResultAlreadyTaken) \<and> r' = r\<lparr>tr_outcome_observed := True\<rparr>
       else zs = ys \<and> length ys = length calls \<and> r' = r \<and> c' = cell" by blast
    have "\<forall>i < length (x # ys). refused ((cf # calls) ! i) ((x # ys) ! i)"
      using ys(1) a cf by (auto simp: nth_Cons split: nat.split)
    moreover have "if jh_taken h' then \<exists>k. xs = (x # ys) @ outcome_of message (jh_id h) r cell # replicate k (Inl ResultAlreadyTaken) \<and> r' = r\<lparr>tr_outcome_observed := True\<rparr>
       else xs = x # ys \<and> length (x # ys) = length (cf # calls) \<and> r' = r \<and> c' = cell"
      using ys(3) zs(2) by (simp split: if_splits)
    moreover have "length (x # ys) \<le> length (cf # calls)" using ys(2) by simp
    ultimately show ?thesis by blast
  next
    assume a: "x = outcome_of message (jh_id h) r cell \<and> h1 = h\<lparr>jh_taken := True\<rparr> \<and> r1 = r\<lparr>tr_outcome_observed := True\<rparr>"
    then have "jh_taken h1" by simp
    from join_run_taken[OF this, of message calls r1 c1] zs(1) a
    have "zs = replicate (length calls) (Inl ResultAlreadyTaken)" "h' = h\<lparr>jh_taken := True\<rparr>" "r' = r\<lparr>tr_outcome_observed := True\<rparr>" by auto
    with zs(2) a show ?thesis by (intro exI[of _ "[]"]) auto
  qed
qed

section \<open>Properties\<close>

text \<open>
  C32. An outcome is delivered once: whatever sequence of polls and joins the owner of a handle
  makes, interrupted or not, it first gets refusals, each with its actual reason and leaving
  everything unchanged, then at most once the outcome of the task, and from then on only the
  answer that the result was taken. The record is marked as observed exactly by the delivery,
  which makes the finished task's record reclaimable.
\<close>

theorem join_once:
  assumes "join_run message calls (handle_new t) r cell = (xs, h, r', cell')" "\<not> tr_outcome_observed r"
  shows "\<exists>ys. (\<forall>i < length ys. refused (calls ! i) (ys ! i))
    \<and> (if jh_taken h then \<exists>k. xs = ys @ outcome_of message t r cell # replicate k (Inl ResultAlreadyTaken)
       else xs = ys \<and> length ys = length calls \<and> r' = r \<and> cell' = cell)
    \<and> (tr_outcome_observed r' \<longleftrightarrow> jh_taken h)
    \<and> (jh_taken h \<and> is_terminal (tr_status r) \<longrightarrow> reclaimable (\<lambda>_. r') t)"
proof -
  have "\<not> jh_taken (handle_new t)" "jh_id (handle_new t) = t" by (simp_all add: handle_new_def)
  from join_run_fresh[OF this(1) assms(1)] this(2) obtain ys where ys: "\<forall>i < length ys. refused (calls ! i) (ys ! i)"
    "if jh_taken h then \<exists>k. xs = ys @ outcome_of message t r cell # replicate k (Inl ResultAlreadyTaken) \<and> r' = r\<lparr>tr_outcome_observed := True\<rparr>
     else xs = ys \<and> length ys = length calls \<and> r' = r \<and> cell' = cell" by metis
  then show ?thesis using assms(2) by (intro exI[of _ ys]) (auto simp: reclaimable_def split: if_splits)
qed

theorem join_once_witness:
  "\<exists>h r' cell'. join_run (\<lambda>_ :: unit. ''boom'') [(PollCall, False), (JoinCall (Inl Cancelled), False), (JoinCall (Inr ()), False), (PollCall, True)]
      (handle_new 3) (fresh_record 3 1 None \<lparr>opt_cancellation = 0, opt_deadline = None\<rparr> [] 0) (Some (Inr (5 :: nat)))
      = ([Inl WouldBlock, Inl Cancelled, Inr 5, Inl ResultAlreadyTaken], h, r', cell')
    \<and> tr_outcome_observed r' \<and> jh_taken h"
proof -
  let ?r = "fresh_record 3 1 None \<lparr>opt_cancellation = 0, opt_deadline = None\<rparr> [] 0 :: unit task_record"
  obtain h r' cell' where run: "join_run (\<lambda>_ :: unit. ''boom'') [(PollCall, False), (JoinCall (Inl Cancelled), False), (JoinCall (Inr ()), False), (PollCall, True)]
      (handle_new 3) ?r (Some (Inr (5 :: nat))) = ([Inl WouldBlock, Inl Cancelled, Inr 5, Inl ResultAlreadyTaken], h, r', cell')" "jh_taken h"
    by (simp add: take_result_def handle_join_def handle_wait_def handle_new_def fresh_record_def)
  have "\<not> tr_outcome_observed ?r" by (simp add: fresh_record_def)
  from join_once[OF run(1) this] run(2) have "tr_outcome_observed r'" by auto
  with run show ?thesis by blast
qed

end
