(* ===== verification/Signal.thy ===== *)
theory Signal
  imports Prelude
begin

text \<open>
  Carrier notifications (signal.rs): an epoch, a count of waiters, and a condition variable
  behind a gate. Threads wait until the epoch moves from the value they observed, until their
  predicate holds, or until their deadline. Notifiers move the epoch and look at the count
  before they take the gate; publishers whose work an owner's predicate can see only look at
  the count. Each step is one atomic access or one critical section of the gate; a thread that
  waits on the condition variable gives the gate up in the same step as it falls asleep.
\<close>

section \<open>State\<close>

text \<open>
  Where a waiting thread stands: before the gate; counted, holding the gate, the epoch not yet
  read; decided to sleep, still holding the gate; asleep; woken, before the gate; leaving, with
  the gate.
\<close>

datatype waiter_stage = Entering | Registered | Deciding | Asleep | Woken | Returning

record waiter =
  sw_stage :: waiter_stage
  sw_observed :: u64
  sw_deadline :: bool

text \<open>
  Where a signalling thread stands: about to move the epoch; moved it; about to look at the
  count without moving it; owing a notification of all or of one.
\<close>

datatype signaller = Bumping | Bumped | Helping | Owes bool

record signal =
  sg_epoch :: u64
  sg_waiters :: nat
  sg_gate :: bool

record signal_sys =
  si_signal :: signal
  si_ready :: bool
  si_threads :: "nat \<rightharpoonup> waiter"
  si_callers :: "nat \<rightharpoonup> signaller"

definition signal_new :: signal where
  "signal_new = \<lparr>sg_epoch = 0, sg_waiters = 0, sg_gate = False\<rparr>"

definition version :: "signal \<Rightarrow> u64" where
  "version s = sg_epoch s"

definition notify_bump :: "signal \<Rightarrow> signal" where
  "notify_bump s = s\<lparr>sg_epoch := sg_epoch s + 1\<rparr>"

definition notify_needed :: "signal \<Rightarrow> bool" where
  "notify_needed s \<longleftrightarrow> sg_waiters s \<noteq> 0"

definition wait_register :: "signal \<Rightarrow> signal" where
  "wait_register s = s\<lparr>sg_waiters := sg_waiters s + 1, sg_gate := True\<rparr>"

definition wait_blocked :: "u64 \<Rightarrow> bool \<Rightarrow> signal \<Rightarrow> bool" where
  "wait_blocked observed ready s \<longleftrightarrow> sg_epoch s = observed \<and> \<not> ready"

definition wait_return :: "signal \<Rightarrow> signal" where
  "wait_return s = s\<lparr>sg_waiters := sg_waiters s - 1, sg_gate := False\<rparr>"

section \<open>Interleavings\<close>

definition signal_start :: signal_sys where
  "signal_start = \<lparr>si_signal = signal_new, si_ready = False, si_threads = Map.empty, si_callers = Map.empty\<rparr>"

definition set_stage :: "waiter_stage \<Rightarrow> waiter \<Rightarrow> waiter" where
  "set_stage st w = w\<lparr>sw_stage := st\<rparr>"

definition wake_all_threads :: "(nat \<rightharpoonup> waiter) \<Rightarrow> nat \<rightharpoonup> waiter" where
  "wake_all_threads m = (\<lambda>t. map_option (\<lambda>w. if sw_stage w = Asleep then set_stage Woken w else w) (m t))"

text \<open>
  With an owner (\<open>sole\<close>), only one thread waits at a time and work for its predicate can be
  published; without one, any number of threads wait, for the epoch alone.
\<close>

inductive signal_step :: "bool \<Rightarrow> signal_sys \<Rightarrow> signal_sys \<Rightarrow> bool" for sole where
  enter: "si_threads y t = None \<Longrightarrow> sole \<longrightarrow> si_threads y = Map.empty \<Longrightarrow> sw_stage w = Entering \<Longrightarrow>
    signal_step sole y (y\<lparr>si_threads := (si_threads y)(t \<mapsto> w)\<rparr>)"
| register: "si_threads y t = Some w \<Longrightarrow> sw_stage w = Entering \<Longrightarrow> \<not> sg_gate (si_signal y) \<Longrightarrow>
    signal_step sole y (y\<lparr>si_signal := wait_register (si_signal y), si_threads := (si_threads y)(t \<mapsto> set_stage Registered w)\<rparr>)"
| decide: "si_threads y t = Some w \<Longrightarrow> sw_stage w = Registered \<Longrightarrow>
    signal_step sole y (y\<lparr>si_threads := (si_threads y)(t \<mapsto>
      set_stage (if wait_blocked (sw_observed w) (si_ready y) (si_signal y) then Deciding else Returning) w)\<rparr>)"
| expire: "si_threads y t = Some w \<Longrightarrow> sw_stage w = Deciding \<Longrightarrow> sw_deadline w \<Longrightarrow>
    signal_step sole y (y\<lparr>si_threads := (si_threads y)(t \<mapsto> set_stage Returning w)\<rparr>)"
| sleep: "si_threads y t = Some w \<Longrightarrow> sw_stage w = Deciding \<Longrightarrow>
    signal_step sole y (y\<lparr>si_signal := (si_signal y)\<lparr>sg_gate := False\<rparr>, si_threads := (si_threads y)(t \<mapsto> set_stage Asleep w)\<rparr>)"
| stir: "si_threads y t = Some w \<Longrightarrow> sw_stage w = Asleep \<Longrightarrow>
    signal_step sole y (y\<lparr>si_threads := (si_threads y)(t \<mapsto> set_stage Woken w)\<rparr>)"
| regain: "si_threads y t = Some w \<Longrightarrow> sw_stage w = Woken \<Longrightarrow> \<not> sg_gate (si_signal y) \<Longrightarrow>
    signal_step sole y (y\<lparr>si_signal := (si_signal y)\<lparr>sg_gate := True\<rparr>, si_threads := (si_threads y)(t \<mapsto> set_stage Registered w)\<rparr>)"
| leave: "si_threads y t = Some w \<Longrightarrow> sw_stage w = Returning \<Longrightarrow>
    signal_step sole y (y\<lparr>si_signal := wait_return (si_signal y), si_threads := (si_threads y)(t := None)\<rparr>)"
| consume: "si_threads y = Map.empty \<Longrightarrow> signal_step sole y (y\<lparr>si_ready := False\<rparr>)"
| call: "si_callers y n = None \<Longrightarrow> published \<longrightarrow> sole \<Longrightarrow>
    signal_step sole y (y\<lparr>si_ready := si_ready y \<or> published, si_callers := (si_callers y)(n \<mapsto> Bumping)\<rparr>)"
| assist: "si_callers y n = None \<Longrightarrow> sole \<Longrightarrow>
    signal_step sole y (y\<lparr>si_ready := True, si_callers := (si_callers y)(n \<mapsto> Helping)\<rparr>)"
| bump: "si_callers y n = Some Bumping \<Longrightarrow>
    signal_step sole y (y\<lparr>si_signal := notify_bump (si_signal y), si_callers := (si_callers y)(n \<mapsto> Bumped)\<rparr>)"
| look: "si_callers y n = Some st \<Longrightarrow> st = Bumped \<or> st = Helping \<Longrightarrow>
    signal_step sole y (y\<lparr>si_callers := (si_callers y)(n := if notify_needed (si_signal y) then Some (Owes (st = Bumped)) else None)\<rparr>)"
| tell_all: "si_callers y n = Some (Owes True) \<Longrightarrow> \<not> sg_gate (si_signal y) \<Longrightarrow>
    signal_step sole y (y\<lparr>si_threads := wake_all_threads (si_threads y), si_callers := (si_callers y)(n := None)\<rparr>)"
| tell_one: "si_callers y n = Some (Owes False) \<Longrightarrow> \<not> sg_gate (si_signal y) \<Longrightarrow>
    si_threads y t = Some w \<Longrightarrow> sw_stage w = Asleep \<Longrightarrow>
    signal_step sole y (y\<lparr>si_threads := (si_threads y)(t \<mapsto> set_stage Woken w), si_callers := (si_callers y)(n := None)\<rparr>)"
| tell_none: "si_callers y n = Some (Owes False) \<Longrightarrow> \<not> sg_gate (si_signal y) \<Longrightarrow>
    \<forall>t w. si_threads y t = Some w \<longrightarrow> sw_stage w \<noteq> Asleep \<Longrightarrow>
    signal_step sole y (y\<lparr>si_callers := (si_callers y)(n := None)\<rparr>)"

inductive signal_reach :: "bool \<Rightarrow> signal_sys \<Rightarrow> bool" for sole where
  start: "signal_reach sole signal_start"
| step: "signal_reach sole y \<Longrightarrow> signal_step sole y z \<Longrightarrow> signal_reach sole z"

section \<open>The invariant\<close>

definition counted_waiter :: "waiter \<Rightarrow> bool" where
  "counted_waiter w \<longleftrightarrow> sw_stage w \<noteq> Entering"

definition at_gate :: "waiter \<Rightarrow> bool" where
  "at_gate w \<longleftrightarrow> sw_stage w \<in> {Registered, Deciding, Returning}"

text \<open>A thread that has decided to sleep, and would not if it looked again.\<close>

definition committed :: "waiter \<Rightarrow> bool" where
  "committed w \<longleftrightarrow> sw_stage w \<in> {Deciding, Asleep}"

definition in_flight :: "signal_sys \<Rightarrow> bool" where
  "in_flight y \<longleftrightarrow> (\<exists>n. si_callers y n \<in> {Some Bumped, Some (Owes True)})"

definition signal_ok :: "bool \<Rightarrow> signal_sys \<Rightarrow> bool" where
  "signal_ok sole y \<longleftrightarrow>
     finite (dom (si_threads y))
     \<and> sg_waiters (si_signal y) = tally counted_waiter (si_threads y)
     \<and> tally at_gate (si_threads y) = of_bool (sg_gate (si_signal y))
     \<and> (\<forall>t w. si_threads y t = Some w \<longrightarrow> committed w \<longrightarrow> sg_epoch (si_signal y) \<noteq> sw_observed w \<longrightarrow> in_flight y)
     \<and> (\<forall>t w. si_threads y t = Some w \<longrightarrow> committed w \<longrightarrow> si_ready y \<longrightarrow> si_callers y \<noteq> Map.empty)
     \<and> (sole \<longrightarrow> (\<exists>t. dom (si_threads y) \<subseteq> {t}))
     \<and> (\<not> sole \<longrightarrow> \<not> si_ready y \<and> (\<forall>n. si_callers y n \<noteq> Some Helping \<and> si_callers y n \<noteq> Some (Owes False)))"

lemma signal_okD:
  assumes "signal_ok sole y"
  shows "finite (dom (si_threads y))" "sg_waiters (si_signal y) = tally counted_waiter (si_threads y)"
    "tally at_gate (si_threads y) = of_bool (sg_gate (si_signal y))"
    "si_threads y t = Some w \<Longrightarrow> committed w \<Longrightarrow> sg_epoch (si_signal y) \<noteq> sw_observed w \<Longrightarrow> in_flight y"
    "si_threads y t = Some w \<Longrightarrow> committed w \<Longrightarrow> si_ready y \<Longrightarrow> si_callers y \<noteq> Map.empty"
    "sole \<Longrightarrow> \<exists>t. dom (si_threads y) \<subseteq> {t}"
    "\<not> sole \<Longrightarrow> \<not> si_ready y" "\<not> sole \<Longrightarrow> si_callers y n \<noteq> Some Helping \<and> si_callers y n \<noteq> Some (Owes False)"
  using assms unfolding signal_ok_def by blast+

text \<open>A thread moves to another stage, with the gate and the count following it.\<close>

lemma move_ok:
  assumes ok: "signal_ok sole y" and t: "si_threads y t = Some w"
    and s: "sg_epoch s = sg_epoch (si_signal y)" "sg_waiters s + of_bool (counted_waiter w) = sg_waiters (si_signal y) + of_bool (st \<noteq> Entering)"
      "of_bool (sg_gate s) + of_bool (at_gate w) = (of_bool (sg_gate (si_signal y)) + of_bool (st \<in> {Registered, Deciding, Returning}) :: nat)"
    and c: "st \<in> {Deciding, Asleep} \<longrightarrow> committed w \<or> sg_epoch s = sw_observed w \<and> \<not> si_ready y"
  shows "signal_ok sole (y\<lparr>si_signal := s, si_threads := (si_threads y)(t \<mapsto> set_stage st w)\<rparr>)"
proof -
  note d = signal_okD[OF ok]
  have n: "tally P ((si_threads y)(t \<mapsto> set_stage st w)) + of_bool (P w) = tally P (si_threads y) + of_bool (P (set_stage st w))" for P
    using tally_put[OF d(1) t] by simp
  have "sg_waiters s = tally counted_waiter ((si_threads y)(t \<mapsto> set_stage st w))"
    using n[of counted_waiter] s(2) d(2) by (simp add: counted_waiter_def set_stage_def)
  moreover have "tally at_gate ((si_threads y)(t \<mapsto> set_stage st w)) = of_bool (sg_gate s)"
    using n[of at_gate] s(3) d(3) by (simp add: at_gate_def set_stage_def)
  moreover have "(sg_epoch s \<noteq> sw_observed v \<longrightarrow> in_flight y) \<and> (si_ready y \<longrightarrow> si_callers y \<noteq> Map.empty)"
    if v: "((si_threads y)(t \<mapsto> set_stage st w)) u = Some v" "committed v" for u v
  proof (cases "u = t")
    case True
    with v(1) have "v = set_stage st w" by simp
    with v(2) have st: "st \<in> {Deciding, Asleep}" "sw_observed v = sw_observed w" by (simp_all add: committed_def set_stage_def)
    with c consider "committed w" | "sg_epoch s = sw_observed w" "\<not> si_ready y" by blast
    then show ?thesis using d(4,5)[OF t] s(1) st(2) by cases auto
  next
    case False
    with v d(4,5)[of u v] s(1) show ?thesis by simp
  qed
  moreover have "dom ((si_threads y)(t \<mapsto> set_stage st w)) = dom (si_threads y)" using t by auto
  ultimately show ?thesis using d(1,6,7,8) unfolding signal_ok_def in_flight_def by simp
qed

lemma asleep_waits: "signal_ok sole y \<Longrightarrow> si_threads y t = Some w \<Longrightarrow> committed w \<Longrightarrow> notify_needed (si_signal y)"
  using tally_pos[of "si_threads y" t w counted_waiter] signal_okD(1,2) by (fastforce simp: notify_needed_def committed_def counted_waiter_def)

lemma gate_held: "signal_ok sole y \<Longrightarrow> si_threads y t = Some w \<Longrightarrow> at_gate w \<Longrightarrow> sg_gate (si_signal y)"
  using tally_pos[of "si_threads y" t w at_gate] signal_okD(1,3) by (metis less_numeral_extra(3) of_bool_eq_0_iff)

lemma callers_ok:
  assumes ok: "signal_ok sole y"
    and c: "\<forall>t w. si_threads y t = Some w \<longrightarrow> committed w \<longrightarrow>
        (sg_epoch s \<noteq> sw_observed w \<longrightarrow> in_flight (y\<lparr>si_callers := C\<rparr>)) \<and> (r \<longrightarrow> C \<noteq> Map.empty)"
    and s: "sg_waiters s = sg_waiters (si_signal y)" "sg_gate s = sg_gate (si_signal y)"
    and n: "\<not> sole \<longrightarrow> \<not> r \<and> (\<forall>n. C n \<noteq> Some Helping \<and> C n \<noteq> Some (Owes False))"
  shows "signal_ok sole (y\<lparr>si_signal := s, si_ready := r, si_callers := C\<rparr>)"
  using ok c s n unfolding signal_ok_def in_flight_def by auto

lemma tally_wake:
  assumes "\<And>w. sw_stage w = Asleep \<Longrightarrow> P (set_stage Woken w) = P w"
  shows "tally P (wake_all_threads m) = tally P m"
proof -
  have "(\<exists>v. wake_all_threads m t = Some v \<and> P v) \<longleftrightarrow> (\<exists>v. m t = Some v \<and> P v)" for t
    using assms by (cases "m t") (auto simp: wake_all_threads_def)
  then show ?thesis by (simp add: tally_def)
qed

lemma tell_all_ok:
  assumes ok: "signal_ok sole y" and g: "\<not> sg_gate (si_signal y)" and c: "\<not> sole \<longrightarrow> (\<forall>n. C n \<noteq> Some Helping \<and> C n \<noteq> Some (Owes False))"
  shows "signal_ok sole (y\<lparr>si_threads := wake_all_threads (si_threads y), si_callers := C\<rparr>)"
proof -
  note d = signal_okD[OF ok]
  have dom: "dom (wake_all_threads (si_threads y)) = dom (si_threads y)" by (auto simp: wake_all_threads_def dom_def)
  have idle: "\<not> committed v" if "wake_all_threads (si_threads y) t = Some v" for t v
  proof -
    from that obtain w where w: "si_threads y t = Some w" "v = (if sw_stage w = Asleep then set_stage Woken w else w)"
      by (cases "si_threads y t") (auto simp: wake_all_threads_def)
    have "sw_stage w \<noteq> Deciding" using gate_held[OF ok w(1)] g by (auto simp: at_gate_def)
    with w(2) show ?thesis by (auto simp: committed_def set_stage_def)
  qed
  have "tally counted_waiter (wake_all_threads (si_threads y)) = tally counted_waiter (si_threads y)"
    by (rule tally_wake) (simp add: counted_waiter_def set_stage_def)
  moreover have "tally at_gate (wake_all_threads (si_threads y)) = tally at_gate (si_threads y)"
    by (rule tally_wake) (simp add: at_gate_def set_stage_def)
  ultimately show ?thesis using d(1-3,6,7) dom idle c by (auto simp: signal_ok_def)
qed

lemma signal_step_ok:
  assumes "signal_step sole y z" and ok: "signal_ok sole y"
  shows "signal_ok sole z"
proof -
  note d = signal_okD[OF ok]
  have move: "signal_ok sole (y\<lparr>si_threads := (si_threads y)(t \<mapsto> set_stage st w)\<rparr>)"
    if "si_threads y t = Some w" "counted_waiter w \<longleftrightarrow> st \<noteq> Entering" "at_gate w \<longleftrightarrow> st \<in> {Registered, Deciding, Returning}"
      "st \<in> {Deciding, Asleep} \<longrightarrow> committed w \<or> sg_epoch (si_signal y) = sw_observed w \<and> \<not> si_ready y" for t w st
    using move_ok[OF ok that(1), of "si_signal y" st] that by simp
  have flight: "in_flight (y\<lparr>si_callers := C\<rparr>)" if "in_flight y" "\<forall>m. m \<noteq> n \<longrightarrow> C m = si_callers y m"
      "si_callers y n \<in> {Some Bumped, Some (Owes True)} \<longrightarrow> C n \<in> {Some Bumped, Some (Owes True)}" for C n
  proof -
    from that(1) obtain m where "si_callers y m \<in> {Some Bumped, Some (Owes True)}" by (auto simp: in_flight_def)
    with that(2,3) show ?thesis unfolding in_flight_def by (cases "m = n") (auto intro!: exI[of _ m])
  qed
  have callers: "signal_ok sole (y\<lparr>si_callers := C\<rparr>)"
    if "\<forall>t w. si_threads y t = Some w \<longrightarrow> committed w \<longrightarrow>
        (sg_epoch (si_signal y) \<noteq> sw_observed w \<longrightarrow> in_flight (y\<lparr>si_callers := C\<rparr>)) \<and> (si_ready y \<longrightarrow> C \<noteq> Map.empty)"
      "\<not> sole \<longrightarrow> (\<forall>n. C n \<noteq> Some Helping \<and> C n \<noteq> Some (Owes False))" for C
    using callers_ok[OF ok that(1)] that(2) d(7) by simp
  from assms(1) show ?thesis
  proof cases
    case (enter t w)
    have "tally P ((si_threads y)(t \<mapsto> w)) = tally P (si_threads y) + of_bool (P w)" for P
      by (rule tally_add[OF d(1) enter(2)])
    with enter d show ?thesis
      by (auto simp: signal_ok_def counted_waiter_def at_gate_def committed_def in_flight_def split: if_splits)
  next
    case (register t w)
    then show ?thesis using move_ok[OF ok register(2), of "wait_register (si_signal y)" Registered]
      by (simp add: wait_register_def counted_waiter_def at_gate_def)
  next
    case (decide t w)
    then show ?thesis using move[OF decide(2), of "if wait_blocked (sw_observed w) (si_ready y) (si_signal y) then Deciding else Returning"]
      by (auto simp: counted_waiter_def at_gate_def wait_blocked_def)
  next
    case (expire t w)
    then show ?thesis using move[OF expire(2), of Returning] by (simp add: counted_waiter_def at_gate_def)
  next
    case (sleep t w)
    then show ?thesis using move_ok[OF ok sleep(2), of "(si_signal y)\<lparr>sg_gate := False\<rparr>" Asleep] gate_held[OF ok sleep(2)]
      by (simp add: counted_waiter_def at_gate_def committed_def)
  next
    case (stir t w)
    then show ?thesis using move[OF stir(2), of Woken] by (simp add: counted_waiter_def at_gate_def)
  next
    case (regain t w)
    then show ?thesis using move_ok[OF ok regain(2), of "(si_signal y)\<lparr>sg_gate := True\<rparr>" Registered]
      by (simp add: counted_waiter_def at_gate_def)
  next
    case (leave t w)
    have n: "tally P ((si_threads y)(t := None)) + of_bool (P w) = tally P (si_threads y)" for P
      by (rule tally_del[OF d(1) leave(2)])
    have g: "sg_gate (si_signal y)" using gate_held[OF ok leave(2)] leave(3) by (simp add: at_gate_def)
    have "sg_waiters (wait_return (si_signal y)) = tally counted_waiter ((si_threads y)(t := None))"
      using n[of counted_waiter] d(2) leave(3) by (simp add: wait_return_def counted_waiter_def)
    moreover have "tally at_gate ((si_threads y)(t := None)) = 0" using n[of at_gate] d(3) leave(3) g by (simp add: at_gate_def)
    moreover have "sg_epoch (wait_return (si_signal y)) = sg_epoch (si_signal y)" "\<not> sg_gate (wait_return (si_signal y))"
      by (simp_all add: wait_return_def)
    moreover have "sole \<longrightarrow> (\<exists>u. dom (si_threads y) - {t} \<subseteq> {u})" using d(6) by blast
    ultimately show ?thesis using d(1,4,5,7,8) unfolding leave(1) signal_ok_def in_flight_def by (simp split: if_splits)
  next
    case consume
    then show ?thesis using ok by (simp add: signal_ok_def in_flight_def)
  next
    case (call n published)
    have "in_flight y \<longrightarrow> in_flight (y\<lparr>si_callers := (si_callers y)(n \<mapsto> Bumping)\<rparr>)" using flight[where n = n] call(2) by simp
    with call d(4,7,8) callers_ok[OF ok, of "si_signal y" "(si_callers y)(n \<mapsto> Bumping)" "si_ready y \<or> published"]
    show ?thesis by (auto split: if_splits)
  next
    case (assist n)
    have "in_flight y \<longrightarrow> in_flight (y\<lparr>si_callers := (si_callers y)(n \<mapsto> Helping)\<rparr>)" using flight[where n = n] assist(2) by simp
    with assist d(4) callers_ok[OF ok, of "si_signal y" "(si_callers y)(n \<mapsto> Helping)" True] show ?thesis by auto
  next
    case (bump n)
    have "in_flight (y\<lparr>si_callers := (si_callers y)(n \<mapsto> Bumped)\<rparr>)" by (auto simp: in_flight_def)
    with bump d(7,8) callers_ok[OF ok, of "notify_bump (si_signal y)" "(si_callers y)(n \<mapsto> Bumped)" "si_ready y"]
    show ?thesis by (auto simp: notify_bump_def split: if_splits)
  next
    case (look n st)
    show ?thesis unfolding look(1)
    proof (rule callers)
      show "\<forall>t w. si_threads y t = Some w \<longrightarrow> committed w \<longrightarrow>
          (sg_epoch (si_signal y) \<noteq> sw_observed w \<longrightarrow> in_flight (y\<lparr>si_callers := (si_callers y)(n := if notify_needed (si_signal y) then Some (Owes (st = Bumped)) else None)\<rparr>))
          \<and> (si_ready y \<longrightarrow> (si_callers y)(n := if notify_needed (si_signal y) then Some (Owes (st = Bumped)) else None) \<noteq> Map.empty)"
        using asleep_waits[OF ok] d(4) flight[where n = n] look(2,3) by (auto simp: fun_eq_iff)
      show "\<not> sole \<longrightarrow> (\<forall>m. ((si_callers y)(n := if notify_needed (si_signal y) then Some (Owes (st = Bumped)) else None)) m \<noteq> Some Helping
          \<and> ((si_callers y)(n := if notify_needed (si_signal y) then Some (Owes (st = Bumped)) else None)) m \<noteq> Some (Owes False))"
        using d(8) look(2,3) by auto
    qed
  next
    case (tell_all n)
    then show ?thesis using tell_all_ok[OF ok tell_all(3), of "(si_callers y)(n := None)"] d(8) by auto
  next
    case (tell_one n t w)
    then have sole using d(8)[of n] by blast
    with d(6) tell_one(4) have only: "dom (si_threads y) \<subseteq> {t}" by (metis domI empty_iff insert_iff subset_iff)
    let ?y = "y\<lparr>si_threads := (si_threads y)(t \<mapsto> set_stage Woken w)\<rparr>"
    have ok': "signal_ok sole ?y" using move[OF tell_one(4), of Woken] tell_one(5) by (simp add: counted_waiter_def at_gate_def)
    have "\<not> committed v" if "si_threads ?y u = Some v" for u v
      using that only by (auto simp: committed_def set_stage_def split: if_splits)
    with callers_ok[OF ok', of "si_signal y" "(si_callers y)(n := None)" "si_ready y"] \<open>sole\<close> show ?thesis
      unfolding tell_one(1) by simp
  next
    case (tell_none n)
    have "sole" using d(8)[of n] tell_none(2) by blast
    have "\<not> committed v" if "si_threads y u = Some v" for u v
      using that tell_none(3,4) gate_held[OF ok that] by (auto simp: committed_def at_gate_def)
    with tell_none callers[of "(si_callers y)(n := None)"] \<open>sole\<close> show ?thesis by auto
  qed
qed

lemma signal_reach_ok: "signal_reach sole y \<Longrightarrow> signal_ok sole y"
proof (induction rule: signal_reach.induct)
  case start
  show ?case by (auto simp: signal_ok_def signal_start_def signal_new_def)
next
  case (step y z)
  then show ?case using signal_step_ok by blast
qed

section \<open>Properties\<close>

text \<open>
  C15. No notification is lost: in every reachable state a sleeping thread whose epoch has moved
  is about to be woken by a notifier on its way, whatever number of threads wait; a sleeping
  owner whose work was published without moving the epoch is about to be woken by a publisher
  on its way, although it wakes only one thread; and the gate is held exactly while one thread
  is between its check and its sleep or return.
\<close>

theorem signal_no_lost_wakeup:
  assumes "signal_reach sole y" "si_threads y t = Some w" "sw_stage w = Asleep"
  shows "(sg_epoch (si_signal y) \<noteq> sw_observed w \<longrightarrow> (\<exists>n. si_callers y n \<in> {Some Bumped, Some (Owes True)}))
    \<and> (si_ready y \<longrightarrow> sole \<and> (\<exists>n. si_callers y n \<noteq> None))
    \<and> (si_callers y = Map.empty \<longrightarrow> wait_blocked (sw_observed w) (si_ready y) (si_signal y))
    \<and> tally at_gate (si_threads y) = of_bool (sg_gate (si_signal y))"
proof -
  note d = signal_okD[OF signal_reach_ok[OF assms(1)]]
  have c: "committed w" using assms(3) by (simp add: committed_def)
  have "sg_epoch (si_signal y) \<noteq> sw_observed w \<longrightarrow> (\<exists>n. si_callers y n \<in> {Some Bumped, Some (Owes True)})"
    using d(4)[OF assms(2) c] by (auto simp: in_flight_def)
  moreover have "si_ready y \<longrightarrow> sole \<and> (\<exists>n. si_callers y n \<noteq> None)"
    using d(5)[OF assms(2) c] d(7) by (auto simp: fun_eq_iff)
  ultimately show ?thesis using d(3) by (auto simp: wait_blocked_def)
qed

text \<open>An owner asleep, work published behind its back, and a publisher that owes it a call.\<close>

lemma sample_signal:
  "\<exists>y w. signal_reach True y \<and> si_threads y 0 = Some w \<and> sw_stage w = Asleep \<and> si_ready y \<and> si_callers y = [3 \<mapsto> Owes False]"
proof -
  note sr = signal_reach.step[where sole = True]
  note defs = signal_start_def signal_new_def wait_register_def wait_blocked_def set_stage_def notify_needed_def
  let ?w = "\<lambda>st. \<lparr>sw_stage = st, sw_observed = 0, sw_deadline = False\<rparr>"
  let ?s = "\<lambda>n g r st C. \<lparr>si_signal = \<lparr>sg_epoch = 0, sg_waiters = n, sg_gate = g\<rparr>, si_ready = r, si_threads = [0 \<mapsto> ?w st], si_callers = C\<rparr>"
  have "signal_reach True (?s 0 False False Entering Map.empty)"
    using sr[OF signal_reach.start signal_step.enter[of signal_start 0 True "?w Entering"]] by (simp add: defs)
  from sr[OF this signal_step.register[of _ 0 "?w Entering"]]
  have "signal_reach True (?s 1 True False Registered Map.empty)" by (simp add: defs)
  from sr[OF this signal_step.decide[of _ 0 "?w Registered"]]
  have "signal_reach True (?s 1 True False Deciding Map.empty)" by (simp add: defs)
  from sr[OF this signal_step.sleep[of _ 0 "?w Deciding"]]
  have "signal_reach True (?s 1 False False Asleep Map.empty)" by (simp add: defs)
  from sr[OF this signal_step.assist[of _ 3]]
  have "signal_reach True (?s 1 False True Asleep [3 \<mapsto> Helping])" by (simp add: defs)
  from sr[OF this signal_step.look[of _ 3 Helping]]
  have "signal_reach True (?s 1 False True Asleep [3 \<mapsto> Owes False])" by (simp add: defs)
  then show ?thesis by force
qed

theorem signal_no_lost_wakeup_witness:
  "\<exists>y w n. signal_reach True y \<and> si_threads y 0 = Some w \<and> sw_stage w = Asleep \<and> si_ready y \<and> si_callers y n \<noteq> None"
proof -
  obtain y w where y: "signal_reach True y" "si_threads y 0 = Some w" "sw_stage w = Asleep" "si_ready y"
    using sample_signal by blast
  with signal_no_lost_wakeup[OF y(1-3)] show ?thesis by auto
qed

end
