(* ===== verification/Kernel_State.thy ===== *)
theory Kernel_State
  imports Task_Slab Ready_Queue Timer_Queue Wait_Cell Wait_Hub Task_Record Config Inbox Scope_Progress
begin

text \<open>
  A carrier's kernel (kernel.rs and its parts): the tasks it owns, its queues, parks and timers,
  and every operation on them. What the outside decides is an argument: what a dispatched task
  did, whether a stack is available, what the wait words of parked tasks say, which wakes have
  arrived. The calls into the shared control are recorded in order. A task's stack and execution
  context leave their slot only in the operation that then frees the slot, so they are not
  fields of the task here; evidence and profiling are left out.
\<close>

section \<open>Failures\<close>

text \<open>An operation fails with a panic or with the scheduler fault it returns.\<close>

datatype kernel_failure = KernelPanic panic | KernelError error

type_synonym 'a kernel_result = "kernel_failure + 'a"

definition lift_panic :: "'a result_p \<Rightarrow> 'a kernel_result" where
  "lift_panic r = map_sum KernelPanic id r"

definition lift_error :: "'a result \<Rightarrow> 'a kernel_result" where
  "lift_error r = map_sum KernelError id r"

definition kernel_panic :: "string \<Rightarrow> 'a kernel_result" where
  "kernel_panic message = Inl (KernelPanic (Panic message))"

definition kernel_fault :: "string \<Rightarrow> 'a kernel_result" where
  "kernel_fault message = Inl (KernelError (Fault Scheduler message))"

section \<open>Tasks\<close>

record ktask =
  kt_id :: task_id
  kt_scope :: u64

record kernel_tasks =
  ks_owned :: "ktask task_slab"
  ks_borrowed :: "ktask task_slab"

definition tasks_new :: kernel_tasks where
  "tasks_new = \<lparr>ks_owned = slab_new, ks_borrowed = slab_new\<rparr>"

definition tasks_insert_owned :: "ktask \<Rightarrow> kernel_tasks \<Rightarrow> (task_key \<times> kernel_tasks) result_p" where
  "tasks_insert_owned t ks =
     bindp (slab_insert t (ks_owned ks)) (\<lambda>(index, slab).
     bindp (key_owned (of_nat index)) (\<lambda>key. Inr (key, ks\<lparr>ks_owned := slab\<rparr>)))"

definition tasks_insert_borrowed :: "ktask \<Rightarrow> kernel_tasks \<Rightarrow> (task_key \<times> kernel_tasks) result_p" where
  "tasks_insert_borrowed t ks =
     bindp (slab_insert t (ks_borrowed ks)) (\<lambda>(index, slab).
     bindp (key_borrowed (of_nat index)) (\<lambda>key. Inr (key, ks\<lparr>ks_borrowed := slab\<rparr>)))"

definition tasks_get :: "kernel_tasks \<Rightarrow> task_key \<Rightarrow> ktask option" where
  "tasks_get ks key =
     (if key_is_borrowed key then slab_get (ks_borrowed ks) (unat (key_index key))
      else slab_get (ks_owned ks) (unat (key_index key)))"

definition tasks_remove :: "task_key \<Rightarrow> kernel_tasks \<Rightarrow> bool \<times> kernel_tasks" where
  "tasks_remove key ks =
     (if key_is_borrowed key then
        (case slab_remove (unat (key_index key)) (ks_borrowed ks) of (r, slab) \<Rightarrow> (r \<noteq> None, ks\<lparr>ks_borrowed := slab\<rparr>))
      else
        (case slab_remove (unat (key_index key)) (ks_owned ks) of (r, slab) \<Rightarrow> (r \<noteq> None, ks\<lparr>ks_owned := slab\<rparr>)))"

definition tasks_len :: "kernel_tasks \<Rightarrow> nat" where
  "tasks_len ks = slab_len (ks_owned ks) + slab_len (ks_borrowed ks)"

definition tasks_borrowed_count :: "kernel_tasks \<Rightarrow> nat" where
  "tasks_borrowed_count ks = slab_len (ks_borrowed ks)"

definition tasks_is_empty :: "kernel_tasks \<Rightarrow> bool" where
  "tasks_is_empty ks \<longleftrightarrow> slab_is_empty (ks_owned ks) \<and> slab_is_empty (ks_borrowed ks)"

section \<open>State\<close>

definition PROGRESS_PUBLICATION_BATCH :: nat where "PROGRESS_PUBLICATION_BATCH = 64"
definition COMPLETION_BATCH :: nat where "COMPLETION_BATCH = 64"
definition REMOTE_READY_TARGET :: nat where "REMOTE_READY_TARGET = 64"
definition REMOTE_ADMISSION_DISPATCH_BOUND :: "32 word" where "REMOTE_ADMISSION_DISPATCH_BOUND = 65536"

record runtime_stats =
  rs_admitted :: u64
  rs_completed :: u64
  rs_panicked :: u64
  rs_mounts :: u64
  rs_yields :: u64
  rs_parks :: u64
  rs_wakes :: u64
  rs_timeouts :: u64
  rs_cancelled :: u64
  rs_closed :: u64
  rs_timer_sleeps :: u64
  rs_stale_wakes :: u64
  rs_aborted :: u64
  rs_rejected :: u64

definition stats_new :: runtime_stats where
  "stats_new = \<lparr>rs_admitted = 0, rs_completed = 0, rs_panicked = 0, rs_mounts = 0, rs_yields = 0, rs_parks = 0, rs_wakes = 0,
     rs_timeouts = 0, rs_cancelled = 0, rs_closed = 0, rs_timer_sleeps = 0, rs_stale_wakes = 0, rs_aborted = 0, rs_rejected = 0\<rparr>"

text \<open>
  Calls into the shared control: preparing a completion and completing the task's cell, and
  publishing a batch. \<open>Shared::complete\<close> is a preparation followed by a batch of its own.
\<close>

datatype kernel_call = Prepared task_id "task_failure option" | PublishedBatch completion_batch | Completing task_id task_failure

record ('e, 'r) kernel =
  kn_config :: runtime_config
  kn_id :: carrier_id
  kn_inbox :: "'e inbox"
  kn_tasks :: kernel_tasks
  kn_ready :: "task_key ready_queue"
  kn_parked :: "'r parked_tasks"
  kn_deferred :: "wake_notice list"
  kn_aborts :: "(u64 option \<times> task_failure) list"
  kn_in_flight :: "task_key option"
  kn_pending :: "'e spawn_packet option"
  kn_incoming :: "'e spawn_packet list"
  kn_remote_pending :: bool
  kn_batch :: completion_batch
  kn_progress :: "u64 option"
  kn_starts :: "ktask list"
  kn_wakes :: "wake_notice list"
  kn_timers :: timer_queue
  kn_stats :: runtime_stats
  kn_has_borrowed :: bool
  kn_epoch :: u64
  kn_pressure :: "32 word"
  kn_unpublished :: nat
  kn_calls :: "kernel_call list"

definition kernel_new :: "runtime_config \<Rightarrow> carrier_id \<Rightarrow> ('e, 'r) kernel" where
  "kernel_new config i = \<lparr>kn_config = config, kn_id = i, kn_inbox = inbox_new (cf_carrier_queue_capacity config),
     kn_tasks = tasks_new, kn_ready = rq_new, kn_parked = parked_new, kn_deferred = [], kn_aborts = [],
     kn_in_flight = None, kn_pending = None, kn_incoming = [], kn_remote_pending = False, kn_batch = batch_new,
     kn_progress = None, kn_starts = [], kn_wakes = [], kn_timers = tq_new, kn_stats = stats_new,
     kn_has_borrowed = False, kn_epoch = 0, kn_pressure = 0, kn_unpublished = 0, kn_calls = []\<rparr>"

definition kernel_task :: "task_key \<Rightarrow> ('e, 'r) kernel \<Rightarrow> ktask kernel_result" where
  "kernel_task key k = (case tasks_get (kn_tasks k) key of None \<Rightarrow> kernel_panic ''live task key'' | Some t \<Rightarrow> Inr t)"

text \<open>
  Whether a task belongs to what is being aborted: one scope, or everything. A key in a queue or
  a park record is live (\<open>Kernel_Invariant\<close>), so where the code expects the task this is False
  for a key that is not.
\<close>

definition covers :: "u64 option \<Rightarrow> u64 \<Rightarrow> bool" where
  "covers scope s \<longleftrightarrow> (case scope of None \<Rightarrow> True | Some s' \<Rightarrow> s' = s)"

definition task_covered :: "u64 option \<Rightarrow> ('e, 'r) kernel \<Rightarrow> task_key \<Rightarrow> bool" where
  "task_covered scope k key \<longleftrightarrow> (case tasks_get (kn_tasks k) key of None \<Rightarrow> False | Some t \<Rightarrow> covers scope (kt_scope t))"

section \<open>Publication\<close>

text \<open>Every published snapshot asserts that each live task is in exactly one place.\<close>

definition snapshot_total :: "('e, 'r) kernel \<Rightarrow> nat" where
  "snapshot_total k = rq_len (kn_ready k) + pk_len (kn_parked k) + of_bool (kn_in_flight k \<noteq> None)"

definition kernel_publish :: "('e, 'r) kernel \<Rightarrow> ('e, 'r) kernel kernel_result" where
  "kernel_publish k =
     (if tasks_len (kn_tasks k) \<noteq> snapshot_total k then kernel_panic ''assertion failed: tasks are ready, parked or in flight''
      else Inr (k\<lparr>kn_unpublished := 0\<rparr>))"

definition publish_transition :: "('e, 'r) kernel \<Rightarrow> ('e, 'r) kernel kernel_result" where
  "publish_transition k =
     (let unpublished = kn_unpublished k + 1 in
      if unpublished = PROGRESS_PUBLICATION_BATCH then kernel_publish k
      else Inr (k\<lparr>kn_unpublished := unpublished\<rparr>))"

definition flush_completions :: "('e, 'r) kernel \<Rightarrow> ('e, 'r) kernel kernel_result" where
  "flush_completions k =
     (if batch_is_empty (kn_batch k) then Inr k
      else if kn_progress k = None then kernel_panic ''completion scope progress''
      else Inr (k\<lparr>kn_calls := kn_calls k @ [PublishedBatch (kn_batch k)], kn_batch := batch_clear (kn_batch k)\<rparr>))"

definition queue_completion :: "completion_update \<Rightarrow> bool \<Rightarrow> ('e, 'r) kernel \<Rightarrow> ('e, 'r) kernel kernel_result" where
  "queue_completion c defer k =
     (if batch_scope (kn_batch k) \<noteq> None \<and> batch_scope (kn_batch k) \<noteq> Some (cu_scope c)
      then kernel_panic ''completion batch crossed scope ownership''
      else if kn_progress k \<noteq> Some (cu_scope c) \<and> \<not> batch_is_empty (kn_batch k)
      then kernel_panic ''live completion scope changed''
      else bindp (lift_panic (batch_push c (kn_batch k))) (\<lambda>b.
        let k = k\<lparr>kn_progress := Some (cu_scope c), kn_batch := b\<rparr> in
        if cb_len b = COMPLETION_BATCH \<or> \<not> defer then flush_completions k else Inr k))"

section \<open>Ends of tasks\<close>

definition refresh_borrowed :: "('e, 'r) kernel \<Rightarrow> ('e, 'r) kernel" where
  "refresh_borrowed k = k\<lparr>kn_has_borrowed := tasks_borrowed_count (kn_tasks k) \<noteq> 0\<rparr>"

definition remove_in_flight :: "('e, 'r) kernel \<Rightarrow> ('e, 'r) kernel kernel_result" where
  "remove_in_flight k =
     (case kn_in_flight k of
        None \<Rightarrow> kernel_panic ''in-flight task key''
      | Some key \<Rightarrow>
          (case tasks_remove key (kn_tasks k) of (removed, ks) \<Rightarrow>
             if \<not> removed then kernel_panic ''live in-flight task''
             else let k = k\<lparr>kn_in_flight := None, kn_tasks := ks\<rparr> in
                  Inr (if key_is_borrowed key then refresh_borrowed k else k)))"

definition count_aborted :: "('e, 'r) kernel \<Rightarrow> ('e, 'r) kernel" where
  "count_aborted k = k\<lparr>kn_stats := (kn_stats k)\<lparr>rs_aborted := rs_aborted (kn_stats k) + 1\<rparr>\<rparr>"

definition discard_in_flight :: "task_failure \<Rightarrow> ('e, 'r) kernel \<Rightarrow> ('e, 'r) kernel kernel_result" where
  "discard_in_flight reason k =
     (case kn_in_flight k of
        None \<Rightarrow> kernel_panic ''owned task key''
      | Some key \<Rightarrow>
          bindp (kernel_task key k) (\<lambda>t.
          bindp (remove_in_flight k) (\<lambda>k.
          bindp (kernel_publish (count_aborted k)) (\<lambda>k.
            Inr (k\<lparr>kn_calls := kn_calls k @ [Completing (kt_id t) reason]\<rparr>)))))"

definition discard_pending :: "task_failure \<Rightarrow> ('e, 'r) kernel \<Rightarrow> ('e, 'r) kernel kernel_result" where
  "discard_pending reason k =
     (case kn_pending k of
        None \<Rightarrow> kernel_panic ''pending packet''
      | Some packet \<Rightarrow>
          bindp (kernel_publish (count_aborted (k\<lparr>kn_pending := None\<rparr>))) (\<lambda>k.
            Inr (k\<lparr>kn_calls := kn_calls k @ [Completing (pk_task packet) reason]\<rparr>)))"

definition complete_task :: "bool \<Rightarrow> bool \<Rightarrow> ('e, 'r) kernel \<Rightarrow> ('e, 'r) kernel kernel_result" where
  "complete_task panicked defer k =
     (case kn_in_flight k of
        None \<Rightarrow> kernel_panic ''completed task key''
      | Some key \<Rightarrow>
          bindp (kernel_task key k) (\<lambda>t.
          bindp (remove_in_flight k) (\<lambda>k.
          let update = \<lparr>cu_id = kt_id t, cu_scope = kt_scope t, cu_carrier = kn_id k,
                        cu_status = (if panicked then StatusPanicked else StatusCompleted)\<rparr>;
              stats = kn_stats k;
              k = k\<lparr>kn_stats := (if panicked then stats\<lparr>rs_panicked := rs_panicked stats + 1\<rparr>
                                 else stats\<lparr>rs_completed := rs_completed stats + 1\<rparr>)\<rparr> in
          bindp (if rq_is_empty (kn_ready k) then kernel_publish k else publish_transition k) (\<lambda>k.
          bindp (queue_completion update defer (k\<lparr>kn_calls := kn_calls k @ [Prepared (kt_id t) None]\<rparr>)) (\<lambda>k.
            if rq_is_empty (kn_ready k) then flush_completions k else Inr k)))))"

section \<open>Wakes\<close>

definition count_stale :: "('e, 'r) kernel \<Rightarrow> ('e, 'r) kernel" where
  "count_stale k = k\<lparr>kn_stats := (kn_stats k)\<lparr>rs_stale_wakes := rs_stale_wakes (kn_stats k) + 1\<rparr>\<rparr>"

fun count_cause :: "wake_cause \<Rightarrow> runtime_stats \<Rightarrow> runtime_stats" where
  "count_cause Ready s = s"
| "count_cause TimedOut s = s\<lparr>rs_timeouts := rs_timeouts s + 1\<rparr>"
| "count_cause ClosedCause s = s\<lparr>rs_closed := rs_closed s + 1\<rparr>"
| "count_cause _ s = s\<lparr>rs_cancelled := rs_cancelled s + 1\<rparr>"

definition remove_parked :: "task_key \<Rightarrow> ('e, 'r) kernel \<Rightarrow> ('r parked_task \<times> ('e, 'r) kernel) kernel_result" where
  "remove_parked key k =
     (case parked_remove key (kn_parked k) of
        (None, _) \<Rightarrow> kernel_panic ''owned park route''
      | (Some p, parked) \<Rightarrow>
          let k = k\<lparr>kn_parked := parked\<rparr> in
          if pt_deferred p then
            (case position (\<lambda>n. wn_route n = key \<and> wn_token n = pt_token p) (kn_deferred k) of
               None \<Rightarrow> kernel_panic ''owned deferred generation''
             | Some i \<Rightarrow> Inr (p, k\<lparr>kn_deferred := swap_remove i (kn_deferred k)\<rparr>))
          else Inr (p, k))"

definition finish_wake :: "wake_notice \<Rightarrow> ('e, 'r) kernel \<Rightarrow> ('e, 'r) kernel kernel_result" where
  "finish_wake n k =
     bindp (remove_parked (wn_route n) k) (\<lambda>(p, k).
       let timers = (if pt_has_deadline p then snd (tq_cancel (wn_token n) (kn_timers k)) else kn_timers k);
           stats = kn_stats k in
       bindp (kernel_task (pt_task p) k) (\<lambda>_.
         Inr (k\<lparr>kn_timers := timers, kn_stats := count_cause (wn_cause n) (stats\<lparr>rs_wakes := rs_wakes stats + 1\<rparr>),
                kn_ready := rq_push_wake (pt_task p) (kn_ready k)\<rparr>)))"

definition defer_wake :: "wake_notice \<Rightarrow> 'r parked_task \<Rightarrow> ('e, 'r) kernel \<Rightarrow> ('e, 'r) kernel kernel_result" where
  "defer_wake n p k =
     (if pt_deferred p then Inr k
      else case parked_get_mut (\<lambda>p. p\<lparr>pt_deferred := True\<rparr>) (wn_route n) (kn_parked k) of
        None \<Rightarrow> kernel_panic ''validated park route''
      | Some parked \<Rightarrow>
          if cf_max_vthreads (kn_config k) \<le> length (kn_deferred k)
          then kernel_panic ''deferred wakes exceed live-task admission''
          else Inr (k\<lparr>kn_parked := parked, kn_deferred := kn_deferred k @ [n]\<rparr>))"

definition process_wake :: "(wake_notice \<Rightarrow> publication) \<Rightarrow> wake_notice \<Rightarrow> ('e, 'r) kernel \<Rightarrow> ('e, 'r) kernel kernel_result" where
  "process_wake publication n k =
     (case parked_get (kn_parked k) (wn_route n) of
        None \<Rightarrow> Inr (count_stale k)
      | Some p \<Rightarrow>
          bindp (kernel_task (pt_task p) k) (\<lambda>t.
            if kt_id t \<noteq> wn_task n then kernel_fault ''wake notice task does not own wait token''
            else if pt_token p \<noteq> wn_token n then Inr (count_stale k)
            else case publication n of
                   Published \<Rightarrow> finish_wake n k
                 | InFlight \<Rightarrow> defer_wake n p k
                 | Stale \<Rightarrow> Inr (count_stale k)))"

definition process_wakes :: "(wake_notice \<Rightarrow> publication) \<Rightarrow> wake_notice list \<Rightarrow> ('e, 'r) kernel \<Rightarrow> ('e, 'r) kernel kernel_result" where
  "process_wakes publication arrivals k =
     (let notices = kn_wakes k @ arrivals in
      bindp (foldp (process_wake publication) notices (k\<lparr>kn_wakes := []\<rparr>)) (\<lambda>k.
        if notices \<noteq> [] then publish_transition k else Inr k))"

fun process_deferred :: "nat \<Rightarrow> (wake_notice \<Rightarrow> publication) \<Rightarrow> ('e, 'r) kernel \<Rightarrow> ('e, 'r) kernel kernel_result" where
  "process_deferred 0 publication k = Inr k"
| "process_deferred (Suc i) publication k =
     (if length (kn_deferred k) \<le> i then kernel_panic ''swap_remove index out of bounds''
      else let n = kn_deferred k ! i; k = k\<lparr>kn_deferred := swap_remove i (kn_deferred k)\<rparr> in
        bindp (case parked_get (kn_parked k) (wn_route n) of
                 None \<Rightarrow> Inr (count_stale k)
               | Some p \<Rightarrow>
                   if pt_token p \<noteq> wn_token n then kernel_panic ''deferred route reused before retirement''
                   else (case parked_get_mut (\<lambda>p. p\<lparr>pt_deferred := False\<rparr>) (wn_route n) (kn_parked k) of
                           None \<Rightarrow> Inr (count_stale k)
                         | Some parked \<Rightarrow> process_wake publication n (k\<lparr>kn_parked := parked\<rparr>)))
          (process_deferred i publication))"

definition process_deferred_wakes :: "(wake_notice \<Rightarrow> publication) \<Rightarrow> ('e, 'r) kernel \<Rightarrow> ('e, 'r) kernel kernel_result" where
  "process_deferred_wakes publication k = process_deferred (length (kn_deferred k)) publication k"

section \<open>Timers\<close>

definition select_expired :: "(park_token \<Rightarrow> unit result) \<Rightarrow> 'r parked_tasks \<Rightarrow> expired_timer \<Rightarrow> unit \<Rightarrow> unit kernel_result" where
  "select_expired timeout parked e u =
     (case parked_get parked (et_task e) of
        None \<Rightarrow> Inr ()
      | Some p \<Rightarrow> if pt_token p = et_token e then lift_error (timeout (et_token e)) else Inr ())"

definition expire_timers :: "instant \<Rightarrow> (park_token \<Rightarrow> unit result) \<Rightarrow> ('e, 'r) kernel \<Rightarrow> ('e, 'r) kernel kernel_result" where
  "expire_timers now timeout k =
     bindp (lift_panic (tq_pop_expired now (kn_timers k))) (\<lambda>(expired, timers).
     bindp (foldp (select_expired timeout (kn_parked k)) expired ()) (\<lambda>_. Inr (k\<lparr>kn_timers := timers\<rparr>)))"

section \<open>Aborts\<close>

text \<open>
  Retiring every parked wait that is covered, or asking its publisher to say when it is done;
  \<open>abandon\<close> is what \<open>try_abandon\<close> answers.
\<close>

definition prepare_abort :: "(park_token \<Rightarrow> bool) \<Rightarrow> u64 option \<Rightarrow> ('e, 'r) kernel \<Rightarrow> bool" where
  "prepare_abort abandon scope k =
     list_all (\<lambda>p. abandon (pt_token p)) (filter (\<lambda>p. task_covered scope k (pt_task p)) (parked_iter (kn_parked k)))"

fun replace_reason :: "u64 option \<Rightarrow> task_failure \<Rightarrow> (u64 option \<times> task_failure) list \<Rightarrow> (u64 option \<times> task_failure) list" where
  "replace_reason scope reason [] = []"
| "replace_reason scope reason ((s, r) # rest) = (if s = scope then (s, reason) # rest else (s, r) # replace_reason scope reason rest)"

definition requeue_in_flight :: "u64 option \<Rightarrow> ('e, 'r) kernel \<Rightarrow> ('e, 'r) kernel" where
  "requeue_in_flight scope k =
     (case kn_in_flight k of
        None \<Rightarrow> k
      | Some key \<Rightarrow> if task_covered scope k key then k\<lparr>kn_in_flight := None, kn_ready := rq_push_front key (kn_ready k)\<rparr> else k)"

definition defer_abort :: "u64 option \<Rightarrow> task_failure \<Rightarrow> ('e, 'r) kernel \<Rightarrow> ('e, 'r) kernel kernel_result" where
  "defer_abort scope reason k =
     (let k = (if scope = None then k\<lparr>kn_aborts := []\<rparr> else k) in
      if scope \<noteq> None \<and> None \<in> fst ` set (kn_aborts k) then Inr k
      else if scope \<in> fst ` set (kn_aborts k)
      then Inr (requeue_in_flight scope (k\<lparr>kn_aborts := replace_reason scope reason (kn_aborts k)\<rparr>))
      else if cf_max_owned_scopes (kn_config k) \<le> length (kn_aborts k)
      then kernel_panic ''deferred cleanup exceeds bounded scope admission''
      else Inr (requeue_in_flight scope (k\<lparr>kn_aborts := kn_aborts k @ [(scope, reason)]\<rparr>)))"

fun abort_incoming :: "nat \<Rightarrow> (task_id \<Rightarrow> u64) \<Rightarrow> u64 option \<Rightarrow> task_failure \<Rightarrow> ('e, 'r) kernel \<Rightarrow> ('e, 'r) kernel kernel_result" where
  "abort_incoming 0 scope_of scope reason k = Inr k"
| "abort_incoming (Suc n) scope_of scope reason k =
     (case kn_incoming k of
        [] \<Rightarrow> kernel_panic ''drained start packet''
      | p # ps \<Rightarrow>
          if covers scope (scope_of (pk_task p))
          then bindp (discard_pending reason (k\<lparr>kn_incoming := ps, kn_pending := Some p\<rparr>)) (abort_incoming n scope_of scope reason)
          else abort_incoming n scope_of scope reason (k\<lparr>kn_incoming := ps @ [p]\<rparr>))"

text \<open>The loop over the inbox ends when nothing covered is left; each turn takes one packet.\<close>

fun abort_inbox :: "nat \<Rightarrow> (task_id \<Rightarrow> u64) \<Rightarrow> u64 option \<Rightarrow> task_failure \<Rightarrow> ('e, 'r) kernel \<Rightarrow> ('e, 'r) kernel kernel_result" where
  "abort_inbox 0 scope_of scope reason k = Inr k"
| "abort_inbox (Suc n) scope_of scope reason k =
     (case inbox_pop_scope scope_of scope (kn_inbox k) of
        (None, i) \<Rightarrow> Inr (k\<lparr>kn_inbox := i\<rparr>)
      | (Some p, i) \<Rightarrow>
          bindp (discard_pending reason (k\<lparr>kn_inbox := i, kn_pending := Some p\<rparr>)) (abort_inbox n scope_of scope reason))"

definition insert_start :: "ktask \<Rightarrow> ('e, 'r) kernel \<Rightarrow> ('e, 'r) kernel kernel_result" where
  "insert_start t k =
     bindp (lift_panic (tasks_insert_borrowed t (kn_tasks k))) (\<lambda>(key, ks).
       Inr (k\<lparr>kn_tasks := ks, kn_ready := rq_push_back key (kn_ready k)\<rparr>))"

text \<open>Discarding every runnable task that is selected; the inspection visits each entry once.\<close>

fun discard_ready :: "nat \<Rightarrow> (('e, 'r) kernel \<Rightarrow> task_key \<Rightarrow> bool) \<Rightarrow> task_failure \<Rightarrow> inspection \<Rightarrow> ('e, 'r) kernel \<Rightarrow> ('e, 'r) kernel kernel_result" where
  "discard_ready 0 chosen reason ins k = Inr k"
| "discard_ready (Suc n) chosen reason ins k =
     bindp (lift_panic (rq_remove_matching (chosen k) ins (kn_ready k))) (\<lambda>(r, ins, q).
       case r of
         None \<Rightarrow> Inr (k\<lparr>kn_ready := q\<rparr>)
       | Some key \<Rightarrow> bindp (discard_in_flight reason (k\<lparr>kn_ready := q, kn_in_flight := Some key\<rparr>)) (discard_ready n chosen reason ins))"

definition unregister_wake :: "park_token \<Rightarrow> ('e, 'r) kernel \<Rightarrow> ('e, 'r) kernel" where
  "unregister_wake token k = k\<lparr>kn_wakes := filter (\<lambda>n. wn_token n \<noteq> token) (kn_wakes k)\<rparr>"

text \<open>Reclaiming one parked task whose wait has been retired.\<close>

definition discard_parked :: "(park_token \<Rightarrow> bool) \<Rightarrow> string \<Rightarrow> task_failure \<Rightarrow> task_key \<Rightarrow> ('e, 'r) kernel \<Rightarrow> ('e, 'r) kernel kernel_result" where
  "discard_parked abandon message reason key k =
     bindp (remove_parked key k) (\<lambda>(p, k).
       let k = unregister_wake (pt_token p) k in
       if \<not> abandon (pt_token p) then kernel_panic message
       else discard_in_flight reason (k\<lparr>kn_timers := snd (tq_cancel (pt_token p) (kn_timers k)), kn_in_flight := Some (pt_task p)\<rparr>))"

definition discard_all_parked :: "(park_token \<Rightarrow> bool) \<Rightarrow> string \<Rightarrow> task_failure \<Rightarrow> (task_key \<Rightarrow> bool) \<Rightarrow> ('e, 'r) kernel \<Rightarrow> ('e, 'r) kernel kernel_result" where
  "discard_all_parked abandon message reason chosen k =
     foldp (discard_parked abandon message reason) (filter chosen (map pt_task (parked_iter (kn_parked k)))) k"

text \<open>
  The second half of an abort, once every covered wait is retired. A task in flight that is
  not covered is kept at the front of the ready queue meanwhile.
\<close>

definition abort_reclaim :: "(park_token \<Rightarrow> bool) \<Rightarrow> u64 option \<Rightarrow> task_failure \<Rightarrow> ('e, 'r) kernel \<Rightarrow> ('e, 'r) kernel kernel_result" where
  "abort_reclaim abandon scope reason k =
     bindp (if case kn_in_flight k of None \<Rightarrow> False | Some key \<Rightarrow> task_covered scope k key
            then discard_in_flight reason k else Inr k) (\<lambda>k.
     let retained = kn_in_flight k;
         k = (case retained of None \<Rightarrow> k | Some key \<Rightarrow> k\<lparr>kn_in_flight := None, kn_ready := rq_push_front key (kn_ready k)\<rparr>) in
     bindp (discard_ready (Suc (rq_len (kn_ready k))) (task_covered scope) reason (rq_inspection (kn_ready k)) k) (\<lambda>k.
     bindp (discard_all_parked abandon ''preflight retained a publisher'' reason (task_covered scope k) k) (\<lambda>k.
     bindp (case retained of
              None \<Rightarrow> Inr k
            | Some key \<Rightarrow>
                (case rq_remove key (kn_ready k) of (removed, q) \<Rightarrow>
                   if removed then Inr (k\<lparr>kn_ready := q, kn_in_flight := Some key\<rparr>)
                   else kernel_panic ''retained in-flight task moved'')) (\<lambda>k.
       kernel_publish (refresh_borrowed k)))))"

definition abort_packets :: "(task_id \<Rightarrow> u64) \<Rightarrow> u64 option \<Rightarrow> task_failure \<Rightarrow> ('e, 'r) kernel \<Rightarrow> ('e, 'r) kernel kernel_result" where
  "abort_packets scope_of scope reason k =
     bindp (if case kn_pending k of None \<Rightarrow> False | Some p \<Rightarrow> covers scope (scope_of (pk_task p))
            then discard_pending reason k else Inr k) (\<lambda>k.
     let retained = kn_pending k; k = k\<lparr>kn_pending := None\<rparr> in
     bindp (abort_incoming (length (kn_incoming k)) scope_of scope reason k) (\<lambda>k.
     bindp (abort_inbox (Suc (length (ib_starts (kn_inbox k)))) scope_of scope reason k) (\<lambda>k.
       Inr (k\<lparr>kn_pending := retained\<rparr>))))"

definition kernel_abort :: "(task_id \<Rightarrow> u64) \<Rightarrow> (park_token \<Rightarrow> bool) \<Rightarrow> u64 option \<Rightarrow> task_failure \<Rightarrow> ('e, 'r) kernel
    \<Rightarrow> (bool \<times> ('e, 'r) kernel) kernel_result" where
  "kernel_abort scope_of abandon scope reason k =
     bindp (flush_completions k) (\<lambda>k.
     bindp (abort_packets scope_of scope reason k) (\<lambda>k.
     bindp (foldp insert_start (kn_starts k) (k\<lparr>kn_starts := []\<rparr>)) (\<lambda>k.
       if \<not> prepare_abort abandon scope k
       then bindp (defer_abort scope reason k) (\<lambda>k. bindp (kernel_publish k) (\<lambda>k. Inr (False, k)))
       else bindp (abort_reclaim abandon scope reason
              (k\<lparr>kn_aborts := filter (\<lambda>(s, _). scope \<noteq> None \<and> s \<noteq> scope) (kn_aborts k)\<rparr>)) (\<lambda>k. Inr (True, k)))))"

fun retry_loop :: "nat \<Rightarrow> (task_id \<Rightarrow> u64) \<Rightarrow> (park_token \<Rightarrow> bool) \<Rightarrow> ('e, 'r) kernel \<Rightarrow> ('e, 'r) kernel kernel_result" where
  "retry_loop 0 scope_of abandon k = Inr k"
| "retry_loop (Suc i) scope_of abandon k =
     (if length (kn_aborts k) \<le> i then kernel_panic ''swap_remove index out of bounds''
      else case kn_aborts k ! i of (scope, reason) \<Rightarrow>
        bindp (kernel_abort scope_of abandon scope reason (k\<lparr>kn_aborts := swap_remove i (kn_aborts k)\<rparr>)) (\<lambda>(_, k).
          retry_loop i scope_of abandon k))"

definition retry_aborts :: "(task_id \<Rightarrow> u64) \<Rightarrow> (park_token \<Rightarrow> bool) \<Rightarrow> ('e, 'r) kernel \<Rightarrow> ('e, 'r) kernel kernel_result" where
  "retry_aborts scope_of abandon k = retry_loop (length (kn_aborts k)) scope_of abandon k"

text \<open>Reclaiming borrowed tasks whose lexical owner is gone, when an owner left since the last look.\<close>

definition sweep_revoked :: "u64 \<Rightarrow> (task_key \<Rightarrow> bool) \<Rightarrow> (park_token \<Rightarrow> bool) \<Rightarrow> ('e, 'r) kernel \<Rightarrow> ('e, 'r) kernel kernel_result" where
  "sweep_revoked epoch revoked abandon k =
     (if \<not> kn_has_borrowed k \<or> epoch = kn_epoch k then Inr k
      else let k = k\<lparr>kn_epoch := epoch\<rparr>; gone = (\<lambda>key. key_is_borrowed key \<and> revoked key) in
        bindp (discard_ready (Suc (rq_len (kn_ready k))) (\<lambda>_. gone) FailScopeClosed (rq_inspection (kn_ready k)) k) (\<lambda>k.
        bindp (discard_all_parked abandon ''revoked frame retained a publisher'' FailScopeClosed gone k) (\<lambda>k.
          Inr (refresh_borrowed k))))"


section \<open>Receiving starts\<close>

fun receive_local_loop :: "ktask list \<Rightarrow> ('e, 'r) kernel \<Rightarrow> ('e, 'r) kernel kernel_result" where
  "receive_local_loop [] k = Inr (k\<lparr>kn_starts := []\<rparr>)"
| "receive_local_loop (t # ts) k =
     bindp (insert_start t (k\<lparr>kn_starts := ts, kn_has_borrowed := True\<rparr>)) (receive_local_loop ts)"

definition receive_local_tasks :: "('e, 'r) kernel \<Rightarrow> (bool \<times> ('e, 'r) kernel) kernel_result" where
  "receive_local_tasks k = map_sum id (Pair (kn_starts k \<noteq> [])) (receive_local_loop (kn_starts k) k)"

text \<open>
  How many packets to take: refill the ready queue to its target while it is at most half
  full; a full queue still admits one packet after the bound on the pressure.
\<close>

definition receive_limit :: "('e, 'r) kernel \<Rightarrow> nat option" where
  "receive_limit k =
     (let target = min REMOTE_READY_TARGET (cf_carrier_queue_capacity (kn_config k)) in
      if rq_len (kn_ready k) \<le> target div 2 then Some (target - rq_len (kn_ready k))
      else if REMOTE_ADMISSION_DISPATCH_BOUND \<le> kn_pressure k then Some 1
      else None)"

text \<open>Starting the drained packets; \<open>acquire\<close> says for which tasks a stack is available.\<close>

fun start_packets :: "(task_id \<Rightarrow> u64) \<Rightarrow> (task_id \<Rightarrow> bool) \<Rightarrow> 'e spawn_packet list \<Rightarrow> bool \<Rightarrow> ('e, 'r) kernel \<Rightarrow> (bool \<times> ('e, 'r) kernel) kernel_result" where
  "start_packets scope_of acquire [] received k = Inr (received, k\<lparr>kn_incoming := []\<rparr>)"
| "start_packets scope_of acquire (p # ps) received k =
     (let k = k\<lparr>kn_incoming := ps, kn_pending := Some p\<rparr> in
      if \<not> acquire (pk_task p)
      then bindp (discard_pending FailStackAllocation k) (start_packets scope_of acquire ps received)
      else if pk_entry p = None then kernel_panic ''unstarted packet entry''
      else bindp (lift_panic (tasks_insert_owned \<lparr>kt_id = pk_task p, kt_scope = scope_of (pk_task p)\<rparr> (kn_tasks k))) (\<lambda>(key, ks).
             start_packets scope_of acquire ps True
               (k\<lparr>kn_pending := None, kn_tasks := ks, kn_ready := rq_push_back key (kn_ready k)\<rparr>)))"

definition receive_remote_tasks :: "(task_id \<Rightarrow> u64) \<Rightarrow> (task_id \<Rightarrow> bool) \<Rightarrow> ('e, 'r) kernel \<Rightarrow> (bool \<times> ('e, 'r) kernel) kernel_result" where
  "receive_remote_tasks scope_of acquire k =
     (if kn_incoming k \<noteq> [] then kernel_panic ''unprocessed start batch''
      else case receive_limit k of
             None \<Rightarrow> Inr (False, k)
           | Some limit \<Rightarrow>
               (case inbox_drain_into [] limit (kn_inbox k) of (drained, packets, i) \<Rightarrow>
                  start_packets scope_of acquire packets False
                    (k\<lparr>kn_inbox := i, kn_incoming := packets, kn_pressure := (if drained \<noteq> 0 then 0 else kn_pressure k)\<rparr>)))"

definition kernel_receive :: "(task_id \<Rightarrow> u64) \<Rightarrow> (task_id \<Rightarrow> bool) \<Rightarrow> ('e, 'r) kernel \<Rightarrow> (bool \<times> ('e, 'r) kernel) kernel_result" where
  "kernel_receive scope_of acquire k =
     (let k = k\<lparr>kn_pressure := kn_pressure k + of_bool (kn_remote_pending k)\<rparr> in
      bindp (receive_local_tasks k) (\<lambda>(local_received, k).
      bindp (receive_remote_tasks scope_of acquire k) (\<lambda>(received, k).
      bindp (if local_received \<or> received then kernel_publish k else Inr k) (\<lambda>k.
        let pending = inbox_pending (kn_inbox k) \<noteq> 0 in
        Inr (pending, k\<lparr>kn_remote_pending := pending, kn_pressure := (if pending then kn_pressure k else 0)\<rparr>)))))"

definition remote_receive_required :: "('e, 'r) kernel \<Rightarrow> bool" where
  "remote_receive_required k \<longleftrightarrow> kn_remote_pending k \<or> inbox_pending (kn_inbox k) \<noteq> 0"

definition receive_local :: "('e, 'r) kernel \<Rightarrow> ('e, 'r) kernel kernel_result" where
  "receive_local k = bindp (receive_local_tasks k) (\<lambda>(received, k). if received then kernel_publish k else Inr k)"

section \<open>Idling\<close>

text \<open>
  What an idle carrier sees at one look: the published depth of its inbox, whether its wake hub
  holds notices, whether its signal's version has changed.
\<close>

record idle_look =
  il_pending :: nat
  il_hub :: bool
  il_changed :: bool

definition IDLE_SIGNAL_PROBES :: nat where "IDLE_SIGNAL_PROBES = 640"

definition observe_idle_work :: "idle_look \<Rightarrow> ('e, 'r) kernel \<Rightarrow> bool \<times> ('e, 'r) kernel" where
  "observe_idle_work look k =
     (if il_pending look \<noteq> 0 then (True, k\<lparr>kn_remote_pending := True\<rparr>) else (kn_wakes k \<noteq> [] \<or> il_hub look, k))"

text \<open>\<open>look n\<close> is what is seen with \<open>n\<close> probes to go; the result says whether polling ended early.\<close>

fun idle_probes :: "nat \<Rightarrow> (nat \<Rightarrow> idle_look) \<Rightarrow> ('e, 'r) kernel \<Rightarrow> bool \<times> ('e, 'r) kernel" where
  "idle_probes 0 look k = (False, k)"
| "idle_probes (Suc n) look k =
     (case observe_idle_work (look (Suc n)) k of (work, k) \<Rightarrow>
        if work \<or> il_changed (look (Suc n)) then (True, k) else idle_probes n look k)"

text \<open>The result says whether the carrier goes to sleep, on its hub, until the returned deadline.\<close>

definition wait_for_work :: "idle_look \<Rightarrow> (nat \<Rightarrow> idle_look) \<Rightarrow> ('e, 'r) kernel \<Rightarrow> (instant option option \<times> ('e, 'r) kernel) kernel_result" where
  "wait_for_work first look k =
     bindp (flush_completions k) (\<lambda>k.
     let deadline = tq_next_deadline (kn_timers k);
         k = (if deadline = None then k else k\<lparr>kn_stats := (kn_stats k)\<lparr>rs_timer_sleeps := rs_timer_sleeps (kn_stats k) + 1\<rparr>\<rparr>);
         (work, k) = observe_idle_work first k in
     if work then Inr (None, k)
     else let (found, k) = (if deadline = None \<and> 1 < cf_carriers (kn_config k) then idle_probes IDLE_SIGNAL_PROBES look k else (False, k)) in
       if found then Inr (None, k)
       else bindp (kernel_publish k) (\<lambda>k. Inr (Some deadline, k)))"

section \<open>The carrier's local queues\<close>

definition check_capacity :: "('e, 'r) kernel \<Rightarrow> unit result" where
  "check_capacity k =
     (if cf_carrier_queue_capacity (kn_config k) \<le> length (kn_starts k)
      then Inl (Capacity CarrierQueue (cf_carrier_queue_capacity (kn_config k))) else Inr ())"

definition push_start :: "ktask \<Rightarrow> ('e, 'r) kernel \<Rightarrow> ('e, 'r) kernel" where
  "push_start t k = k\<lparr>kn_starts := kn_starts k @ [t]\<rparr>"

definition push_wake :: "wake_notice \<Rightarrow> ('e, 'r) kernel \<Rightarrow> ('e, 'r) kernel" where
  "push_wake n k = k\<lparr>kn_wakes := kn_wakes k @ [n]\<rparr>"

definition publish_borrowed_scope_exit :: "u64 \<Rightarrow> u64 result_p" where
  "publish_borrowed_scope_exit epoch =
     (case checked_add epoch 1 of None \<Rightarrow> Inl (Panic ''borrowed scope epoch exhausted'') | Some e \<Rightarrow> Inr e)"

text \<open>The last snapshot of a carrier that stops; it does not restart the publication count.\<close>

definition kernel_retire :: "('e, 'r) kernel \<Rightarrow> ('e, 'r) kernel kernel_result" where
  "kernel_retire k = map_sum id (\<lambda>_. k) (kernel_publish k)"

section \<open>Dispatch\<close>

text \<open>No task of a scope whose abort is deferred is selected.\<close>

definition blocked :: "('e, 'r) kernel \<Rightarrow> task_key \<Rightarrow> bool" where
  "blocked k key \<longleftrightarrow> (\<exists>scope \<in> set (map fst (kn_aborts k)). task_covered scope k key)"

definition select_unblocked :: "('e, 'r) kernel \<Rightarrow> (task_key option \<times> ('e, 'r) kernel) kernel_result" where
  "select_unblocked k =
     map_sum id (\<lambda>(r, q). (r, k\<lparr>kn_ready := q\<rparr>)) (lift_panic (rq_pop_matching (\<lambda>key. \<not> blocked k key) (kn_ready k)))"

definition select_ready :: "('e, 'r) kernel \<Rightarrow> ('e, 'r) kernel kernel_result" where
  "select_ready k =
     (if kn_aborts k = [] then
        (case rq_pop_front (kn_ready k) of (r, q) \<Rightarrow> Inr (k\<lparr>kn_ready := q, kn_in_flight := r\<rparr>))
      else map_sum id (\<lambda>(r, k). k\<lparr>kn_in_flight := r\<rparr>) (select_unblocked k))"

text \<open>
  What a dispatched task did: it yielded; it parked, with the result of taking its wait
  registration; it ended; its lexical owner was gone.
\<close>

datatype 'r dispatched = DYield | DPark park_token "instant option" "'r option result" | DComplete bool | DRevoked

definition park_task :: "park_token \<Rightarrow> instant option \<Rightarrow> 'r option result \<Rightarrow> ('e, 'r) kernel \<Rightarrow> ('e, 'r) kernel kernel_result" where
  "park_task token deadline registration k =
     (case kn_in_flight k of
        None \<Rightarrow> kernel_panic ''parking task key''
      | Some key \<Rightarrow>
          if parked_get (kn_parked k) key \<noteq> None then kernel_fault ''task parked twice''
          else bindp (kernel_task key k) (\<lambda>_.
            bindp (lift_error registration) (\<lambda>r.
            let (scheduled, timers) = (case deadline of None \<Rightarrow> (True, kn_timers k) | Some d \<Rightarrow> tq_schedule key token d (kn_timers k)) in
            if \<not> scheduled then kernel_fault ''wait timer scheduled twice''
            else (case parked_insert \<lparr>pt_token = token, pt_task = key, pt_has_deadline = (deadline \<noteq> None), pt_deferred = False, pt_registration = r\<rparr> (kn_parked k) of
                    (inserted, parked) \<Rightarrow>
                      if \<not> inserted then kernel_panic ''validated vacant park route''
                      else Inr (k\<lparr>kn_timers := timers, kn_in_flight := None, kn_parked := parked,
                                  kn_stats := (kn_stats k)\<lparr>rs_parks := rs_parks (kn_stats k) + 1\<rparr>\<rparr>)))))"

definition yield_task :: "('e, 'r) kernel \<Rightarrow> ('e, 'r) kernel kernel_result" where
  "yield_task k =
     (case kn_in_flight k of
        None \<Rightarrow> kernel_panic ''yielded task key''
      | Some key \<Rightarrow> Inr (k\<lparr>kn_in_flight := None, kn_stats := (kn_stats k)\<lparr>rs_yields := rs_yields (kn_stats k) + 1\<rparr>,
                         kn_ready := rq_push_back key (kn_ready k)\<rparr>))"

fun after_dispatch :: "'r dispatched \<Rightarrow> bool \<Rightarrow> ('e, 'r) kernel \<Rightarrow> ('e, 'r) kernel kernel_result" where
  "after_dispatch DYield defer k = yield_task k"
| "after_dispatch (DPark token deadline registration) defer k = bindp (park_task token deadline registration k) publish_transition"
| "after_dispatch (DComplete panicked) defer k = complete_task panicked defer k"
| "after_dispatch DRevoked defer k = discard_in_flight FailScopeClosed k"

record 'r tick_env =
  te_now :: instant
  te_scope_of :: "task_id \<Rightarrow> u64"
  te_epoch :: u64
  te_revoked :: "task_key \<Rightarrow> bool"
  te_abandon :: "park_token \<Rightarrow> bool"
  te_publication :: "wake_notice \<Rightarrow> publication"
  te_timeout :: "park_token \<Rightarrow> unit result"
  te_hub_first :: "wake_notice list"
  te_hub_timed :: "wake_notice list"
  te_hub_last :: "wake_notice list"
  te_abort_reason :: "u64 \<Rightarrow> task_failure option"
  te_first_mount :: bool
  te_dispatched :: "'r dispatched"
  te_defer :: bool

text \<open>Everything a tick does before it selects a task.\<close>

definition tick_prepare :: "'r tick_env \<Rightarrow> bool \<Rightarrow> ('e, 'r) kernel \<Rightarrow> ('e, 'r) kernel kernel_result" where
  "tick_prepare env changed k =
     bindp (sweep_revoked (te_epoch env) (te_revoked env) (te_abandon env) k) (\<lambda>k.
     bindp (if changed then bindp (retry_aborts (te_scope_of env) (te_abandon env) k) (process_deferred_wakes (te_publication env))
            else Inr k) (\<lambda>k.
     bindp (if changed \<or> \<not> parked_is_empty (kn_parked k) \<and> (kn_wakes k \<noteq> [] \<or> te_hub_first env \<noteq> [])
            then process_wakes (te_publication env) (te_hub_first env) k else Inr k) (\<lambda>k.
     if tq_active_count (kn_timers k) \<noteq> 0
     then bindp (expire_timers (te_now env) (te_timeout env) k) (process_wakes (te_publication env) (te_hub_timed env))
     else Inr k)))"

definition tick_select :: "'r tick_env \<Rightarrow> ('e, 'r) kernel \<Rightarrow> ('e, 'r) kernel kernel_result" where
  "tick_select env k =
     bindp (select_ready k) (\<lambda>k.
       if kn_in_flight k = None \<and> (kn_wakes k \<noteq> [] \<or> te_hub_last env \<noteq> [])
       then bindp (process_wakes (te_publication env) (te_hub_last env) k) select_ready
       else Inr k)"

text \<open>Mounting the selected task, unless its scope is being aborted.\<close>

definition tick_dispatch :: "'r tick_env \<Rightarrow> task_key \<Rightarrow> ('e, 'r) kernel \<Rightarrow> ('e, 'r) kernel kernel_result" where
  "tick_dispatch env key k =
     bindp (kernel_task key k) (\<lambda>t.
     bindp (if batch_scope (kn_batch k) \<noteq> None \<and> batch_scope (kn_batch k) \<noteq> Some (kt_scope t)
            then flush_completions k else Inr k) (\<lambda>k.
     case te_abort_reason env (kt_scope t) of
       Some reason \<Rightarrow> map_sum id snd (kernel_abort (te_scope_of env) (te_abandon env) (Some (kt_scope t)) reason k)
     | None \<Rightarrow>
         let k = k\<lparr>kn_stats := (kn_stats k)\<lparr>rs_mounts := rs_mounts (kn_stats k) + 1\<rparr>\<rparr> in
         bindp (if \<not> te_first_mount env then Inr k
                else if rq_is_empty (kn_ready k) then kernel_publish k else publish_transition k)
           (after_dispatch (te_dispatched env) (te_defer env))))"

definition kernel_tick :: "'r tick_env \<Rightarrow> bool \<Rightarrow> ('e, 'r) kernel \<Rightarrow> (bool \<times> ('e, 'r) kernel) kernel_result" where
  "kernel_tick env changed k =
     bindp (tick_prepare env changed k) (\<lambda>k.
     bindp (tick_select env k) (\<lambda>k.
     case kn_in_flight k of
       None \<Rightarrow> map_sum id (Pair False) (flush_completions k)
     | Some key \<Rightarrow> map_sum id (Pair True) (tick_dispatch env key k)))"

definition kernel_reclaimed :: "bool \<Rightarrow> ('e, 'r) kernel \<Rightarrow> bool" where
  "kernel_reclaimed mounted k \<longleftrightarrow>
     kn_pending k = None \<and> kn_incoming k = [] \<and> kn_in_flight k = None \<and> rq_is_empty (kn_ready k)
     \<and> parked_is_empty (kn_parked k) \<and> tasks_is_empty (kn_tasks k) \<and> kn_deferred k = [] \<and> kn_aborts k = []
     \<and> batch_is_empty (kn_batch k) \<and> \<not> mounted \<and> kn_starts k = [] \<and> kn_wakes k = [] \<and> inbox_pending (kn_inbox k) = 0"

end
