(* ===== verification/Kernel_Store.thy ===== *)
theory Kernel_Store
  imports Kernel_State
begin

text \<open>
  What the kernel's stores are as maps: the two task slabs are one map from keys to tasks, the
  park records one map from keys to parks, each with its size. Keys that the encoder cannot
  produce are in neither.
\<close>

section \<open>Keys and lanes\<close>

definition KEY_SLOTS :: nat where
  "KEY_SLOTS = 2 ^ 63 - 1"

lemma key_valid_index: "unat (key_index j) < KEY_SLOTS \<Longrightarrow> key_valid j"
proof (rule ccontr)
  assume "\<not> key_valid j" and small: "unat (key_index j) < KEY_SLOTS"
  then have "unat (drop_bit 1 (encoded j)) = 0" by (subst unat_drop_bit_1) (simp add: key_valid_def)
  then have "drop_bit 1 (encoded j) = 0" by (simp add: unat_eq_0)
  then have "key_index j = - 1" by (simp add: key_index_def)
  then have "unat (key_index j) = 2 ^ 64 - 1" by (simp add: unsigned_minus_1_eq_mask mask_eq_exp_minus_1)
  with small show False by (simp add: KEY_SLOTS_def)
qed

lemma key_same:
  "unat (key_index j) = unat (key_index k) \<Longrightarrow> key_is_borrowed j = key_is_borrowed k \<Longrightarrow> unat (key_index k) < KEY_SLOTS \<Longrightarrow> j = k"
  by (metis key_eq_iff key_valid_index)

lemma key_encode_slot:
  assumes "i < KEY_SLOTS"
  shows "\<exists>k. key_encode (of_nat i) b = Inr k \<and> unat (key_index k) = i \<and> key_is_borrowed k = b"
proof -
  have u: "unat (of_nat i :: u64) = i" using assms by (simp add: KEY_SLOTS_def unat_of_nat)
  then obtain k where "key_encode (of_nat i) b = Inr k"
    using key_encode_ok[of "of_nat i" b] assms by (auto simp: KEY_SLOTS_def)
  with key_encode_fields[OF this] u show ?thesis by auto
qed

text \<open>A map on keys that is made of two lanes is as large as both lanes.\<close>

lemma lanes_card:
  assumes get: "\<And>key. get key = (if key_is_borrowed key then borrowed else owned) (unat (key_index key))"
    and lanes: "dom owned \<subseteq> {..<KEY_SLOTS}" "dom borrowed \<subseteq> {..<KEY_SLOTS}"
  shows "finite (dom get)" "card (dom get) = card (dom owned) + card (dom borrowed)"
proof -
  let ?pos = "\<lambda>key. (key_is_borrowed key, unat (key_index key))"
  let ?P = "Pair False ` dom owned \<union> Pair True ` dom borrowed"
  have fin: "finite (dom owned)" "finite (dom borrowed)"
    using lanes finite_subset by blast+
  have small: "unat (key_index key) < KEY_SLOTS" if "key \<in> dom get" for key
    using that lanes by (auto simp: get dom_def split: if_splits)
  have inj: "inj_on ?pos (dom get)"
  proof (rule inj_onI)
    fix j k assume "k \<in> dom get" "?pos j = ?pos k"
    then show "j = k" using key_same[of j k] small[of k] by simp
  qed
  have img: "?pos ` dom get = ?P"
  proof
    show "?pos ` dom get \<subseteq> ?P" by (auto simp: get domIff image_iff split: if_splits)
    show "?P \<subseteq> ?pos ` dom get"
    proof
      fix x assume x: "x \<in> ?P"
      obtain b i where x': "x = (b, i)" by fastforce
      with x have bi: "(if b then borrowed else owned) i \<noteq> None" by auto
      with lanes have "i < KEY_SLOTS" by (auto split: if_splits)
      then obtain k where k: "unat (key_index k) = i" "key_is_borrowed k = b" using key_encode_slot by blast
      then have "k \<in> dom get" using bi by (auto simp: get)
      with k x' show "x \<in> ?pos ` dom get" by force
    qed
  qed
  have "finite (?pos ` dom get)" unfolding img using fin by simp
  then show "finite (dom get)" using inj finite_imageD by blast
  have "card (dom get) = card ?P" using card_image[OF inj] img by simp
  also have "\<dots> = card (dom owned) + card (dom borrowed)"
    using fin by (subst card_Un_disjoint) (auto simp: card_image inj_on_def)
  finally show "card (dom get) = card (dom owned) + card (dom borrowed)" .
qed

section \<open>Tasks\<close>

definition tasks_ok :: "kernel_tasks \<Rightarrow> bool" where
  "tasks_ok ks \<longleftrightarrow> slab_inv (ks_owned ks) \<and> slab_inv (ks_borrowed ks)
     \<and> length (slots (ks_owned ks)) \<le> KEY_SLOTS \<and> length (slots (ks_borrowed ks)) \<le> KEY_SLOTS"

lemma slab_new_fields: "slots slab_new = []" "vacant slab_new = []"
  by (simp_all add: slab_new_def)

lemma tasks_new_ok [simp]: "tasks_ok tasks_new" "tasks_get tasks_new = Map.empty" "tasks_len tasks_new = 0"
  by (auto simp: tasks_ok_def tasks_new_def slab_inv_new tasks_get_def slab_get_def slab_new_fields tasks_len_def slab_len_def)

lemma slab_dom_slots: "dom (slab_get s) \<subseteq> {..<length (slots s)}"
  by (auto simp: slab_get_def split: if_splits)

lemma tasks_card:
  assumes "tasks_ok ks"
  shows "finite (dom (tasks_get ks))" "tasks_len ks = card (dom (tasks_get ks))"
proof -
  have "dom (slab_get (ks_owned ks)) \<subseteq> {..<KEY_SLOTS}" "dom (slab_get (ks_borrowed ks)) \<subseteq> {..<KEY_SLOTS}"
    using assms slab_dom_slots[of "ks_owned ks"] slab_dom_slots[of "ks_borrowed ks"] unfolding tasks_ok_def by fastforce+
  from lanes_card[OF _ this, of "tasks_get ks"] assms
  show "finite (dom (tasks_get ks))" "tasks_len ks = card (dom (tasks_get ks))"
    by (simp_all add: tasks_get_def tasks_len_def tasks_ok_def slab_len_dom)
qed

lemma slab_insert_slots:
  assumes "slab_inv s" "slab_insert v s = Inr (i, s')" "slab_len s < KEY_SLOTS" "length (slots s) \<le> KEY_SLOTS"
  shows "i < KEY_SLOTS" "length (slots s') \<le> KEY_SLOTS" "slab_len s' = Suc (slab_len s)"
proof -
  show i: "i < KEY_SLOTS" and "length (slots s') \<le> KEY_SLOTS"
    using assms(2-4) by (auto simp: slab_insert_def slab_len_def Let_def split: if_splits)
  from slab_insert_cases[OF assms(1), of v] assms(2) have
    s': "slab_get s i = None" "slab_inv s'" "slab_get s' = (slab_get s)(i \<mapsto> v)" by auto
  have "finite (dom (slab_get s))" using slab_dom_slots[of s] by (rule finite_subset) simp
  then show "slab_len s' = Suc (slab_len s)"
    using slab_len_dom[OF assms(1)] slab_len_dom[OF s'(2)] s'(1,3) by (simp add: domIff)
qed

lemma tasks_insert_borrowed_ok:
  assumes "tasks_ok ks" "tasks_len ks < KEY_SLOTS"
  shows "\<exists>key ks'. tasks_insert_borrowed t ks = Inr (key, ks') \<and> tasks_ok ks' \<and> tasks_get ks key = None
    \<and> tasks_get ks' = (tasks_get ks)(key \<mapsto> t) \<and> tasks_len ks' = Suc (tasks_len ks) \<and> key_is_borrowed key"
proof -
  have inv: "slab_inv (ks_borrowed ks)" using assms(1) by (simp add: tasks_ok_def)
  from slab_insert_cases[OF inv, of t] obtain i s' where
    s': "slab_insert t (ks_borrowed ks) = Inr (i, s')" "slab_get (ks_borrowed ks) i = None" "slab_inv s'"
      "slab_get s' = (slab_get (ks_borrowed ks))(i \<mapsto> t)" by blast
  have len: "slab_len (ks_borrowed ks) < KEY_SLOTS" "length (slots (ks_borrowed ks)) \<le> KEY_SLOTS"
    using assms by (auto simp: tasks_len_def tasks_ok_def)
  note n = slab_insert_slots[OF inv s'(1) len]
  from key_encode_slot[OF n(1), of True] obtain key where
    k: "key_encode (of_nat i) True = Inr key" "unat (key_index key) = i" "key_is_borrowed key" by blast
  have "tasks_get (ks\<lparr>ks_borrowed := s'\<rparr>) j = ((tasks_get ks)(key \<mapsto> t)) j" for j
    using key_same[of j key] k n(1) s'(4) by (cases "j = key") (auto simp: tasks_get_def)
  then have "tasks_get (ks\<lparr>ks_borrowed := s'\<rparr>) = (tasks_get ks)(key \<mapsto> t)" by blast
  then show ?thesis
    using assms(1) s' n k by (auto simp: tasks_insert_borrowed_def key_borrowed_def tasks_ok_def tasks_get_def tasks_len_def)
qed

lemma tasks_insert_owned_ok:
  assumes "tasks_ok ks" "tasks_len ks < KEY_SLOTS"
  shows "\<exists>key ks'. tasks_insert_owned t ks = Inr (key, ks') \<and> tasks_ok ks' \<and> tasks_get ks key = None
    \<and> tasks_get ks' = (tasks_get ks)(key \<mapsto> t) \<and> tasks_len ks' = Suc (tasks_len ks) \<and> \<not> key_is_borrowed key"
proof -
  have inv: "slab_inv (ks_owned ks)" using assms(1) by (simp add: tasks_ok_def)
  from slab_insert_cases[OF inv, of t] obtain i s' where
    s': "slab_insert t (ks_owned ks) = Inr (i, s')" "slab_get (ks_owned ks) i = None" "slab_inv s'"
      "slab_get s' = (slab_get (ks_owned ks))(i \<mapsto> t)" by blast
  have len: "slab_len (ks_owned ks) < KEY_SLOTS" "length (slots (ks_owned ks)) \<le> KEY_SLOTS"
    using assms by (auto simp: tasks_len_def tasks_ok_def)
  note n = slab_insert_slots[OF inv s'(1) len]
  from key_encode_slot[OF n(1), of False] obtain key where
    k: "key_encode (of_nat i) False = Inr key" "unat (key_index key) = i" "\<not> key_is_borrowed key" by blast
  have "tasks_get (ks\<lparr>ks_owned := s'\<rparr>) j = ((tasks_get ks)(key \<mapsto> t)) j" for j
    using key_same[of j key] k n(1) s'(4) by (cases "j = key") (auto simp: tasks_get_def)
  then have "tasks_get (ks\<lparr>ks_owned := s'\<rparr>) = (tasks_get ks)(key \<mapsto> t)" by blast
  then show ?thesis
    using assms(1) s' n k by (auto simp: tasks_insert_owned_def key_owned_def tasks_ok_def tasks_get_def tasks_len_def)
qed

lemma tasks_remove_ok:
  assumes "tasks_ok ks" "tasks_get ks key = Some t"
  shows "\<exists>ks'. tasks_remove key ks = (True, ks') \<and> tasks_ok ks' \<and> tasks_get ks' = (tasks_get ks)(key := None)
    \<and> Suc (tasks_len ks') = tasks_len ks"
proof -
  define lane where "lane = (if key_is_borrowed key then ks_borrowed ks else ks_owned ks)"
  obtain r s' where rem: "slab_remove (unat (key_index key)) lane = (r, s')" by fastforce
  have inv: "slab_inv lane" "length (slots lane) \<le> KEY_SLOTS" using assms(1) by (auto simp: tasks_ok_def lane_def)
  have get: "slab_get lane (unat (key_index key)) = Some t" using assms(2) by (simp add: tasks_get_def lane_def split: if_splits)
  note spec = slab_remove_spec[OF inv(1) rem]
  have small: "unat (key_index key) < KEY_SLOTS"
    using get inv(2) by (auto simp: slab_get_def split: if_splits)
  have slots: "length (slots s') = length (slots lane)"
    using rem get by (auto simp: slab_remove_def)
  let ?ks = "snd (tasks_remove key ks)"
  have ok: "tasks_ok ?ks" "fst (tasks_remove key ks)"
    using assms(1) rem get spec slots by (auto simp: tasks_remove_def tasks_ok_def lane_def split: if_splits)
  have "tasks_get ?ks j = ((tasks_get ks)(key := None)) j" for j
    using rem spec key_same[of j key] small
    by (cases "j = key"; cases "key_is_borrowed key"; cases "key_is_borrowed j") (auto simp: tasks_remove_def tasks_get_def lane_def)
  then have upd: "tasks_get ?ks = (tasks_get ks)(key := None)" by blast
  have "card (dom (tasks_get ks) - {key}) + 1 = card (dom (tasks_get ks))"
    using assms(2) tasks_card(1)[OF assms(1)] card_Suc_Diff1[of "dom (tasks_get ks)" key] by (simp add: domI)
  then have "Suc (tasks_len ?ks) = tasks_len ks"
    using tasks_card[OF assms(1)] tasks_card[OF ok(1)] upd by simp
  with ok upd show ?thesis by (metis prod.collapse)
qed

section \<open>Parks\<close>

definition parked_ok :: "'r parked_tasks \<Rightarrow> bool" where
  "parked_ok s \<longleftrightarrow> parked_inv s \<and> length (pk_owned s) \<le> KEY_SLOTS \<and> length (pk_borrowed s) \<le> KEY_SLOTS
     \<and> (\<forall>key p. parked_get s key = Some p \<longrightarrow> pt_task p = key)"

lemma parked_new_ok [simp]: "parked_ok parked_new" "parked_get parked_new = Map.empty"
  by (auto simp: parked_ok_def parked_new_def parked_inv_def parked_get_def parked_slots_def Let_def)

lemma parked_get_valid: "parked_ok s \<Longrightarrow> parked_get s key = Some p \<Longrightarrow> key_valid key"
  by (rule key_valid_index) (auto simp: parked_ok_def parked_get_slots parked_slots_def split: if_splits)

lemma parked_invalid: "parked_ok s \<Longrightarrow> \<not> key_valid key \<Longrightarrow> parked_get s key = None"
  using parked_get_valid by (cases "parked_get s key") auto

lemma occupied_card: "occupied xs = card {i. i < length xs \<and> xs ! i \<noteq> None}"
  by (simp add: occupied_def length_filter_conv_card)

lemma parked_card:
  assumes "parked_ok s"
  shows "finite (dom (parked_get s))" "pk_len s = card (dom (parked_get s))"
proof -
  let ?lane = "\<lambda>xs i. if i < length xs then xs ! i else None"
  have dom: "dom (?lane xs) = {i. i < length xs \<and> xs ! i \<noteq> None}" for xs :: "'a parked_task option list"
    by (auto simp: dom_def)
  have get: "parked_get s key = (if key_is_borrowed key then ?lane (pk_borrowed s) else ?lane (pk_owned s)) (unat (key_index key))" for key
    by (simp add: parked_get_slots parked_slots_def)
  have sub: "dom (?lane (pk_owned s)) \<subseteq> {..<KEY_SLOTS}" "dom (?lane (pk_borrowed s)) \<subseteq> {..<KEY_SLOTS}"
    using assms unfolding dom by (auto simp: parked_ok_def)
  show "finite (dom (parked_get s))" "pk_len s = card (dom (parked_get s))"
    using lanes_card[OF get sub] assms by (simp_all add: parked_ok_def parked_inv_def occupied_card dom)
qed

lemma parked_remove_ok:
  assumes "parked_ok s" "parked_get s key = Some p"
  shows "\<exists>s'. parked_remove key s = (Some p, s') \<and> parked_ok s' \<and> parked_get s' = (parked_get s)(key := None)"
proof -
  let ?s = "snd (parked_remove key s)"
  note v = parked_get_valid[OF assms]
  have lens: "length (pk_owned ?s) \<le> KEY_SLOTS" "length (pk_borrowed ?s) \<le> KEY_SLOTS"
    using assms by (auto simp: parked_ok_def parked_remove_def parked_slots_mut_def parked_slots_def)
  have get: "parked_get ?s j = ((parked_get s)(key := None)) j" for j
  proof (cases "key_valid j")
    case True
    then show ?thesis using parked_remove_lookup[OF v True, of s] by simp
  next
    case False
    then have "\<not> unat (key_index j) < KEY_SLOTS" using key_valid_index by blast
    with lens False show ?thesis
      using parked_invalid[OF assms(1)] v by (auto simp: parked_get_slots parked_slots_def)
  qed
  have "parked_ok ?s" using assms(1) lens get by (auto simp: parked_ok_def parked_remove_inv)
  moreover have "fst (parked_remove key s) = Some p" using assms(2) by (simp add: parked_remove_def)
  ultimately show ?thesis using get by (metis ext prod.collapse)
qed

lemma parked_remove_none: "parked_get s key = None \<Longrightarrow> parked_remove key s = (None, s)"
  by (simp add: parked_remove_def)

lemma parked_insert_ok:
  assumes "parked_ok s" "unat (key_index (pt_task p)) < KEY_SLOTS" "parked_get s (pt_task p) = None"
  shows "\<exists>s'. parked_insert p s = (True, s') \<and> parked_ok s' \<and> parked_get s' = (parked_get s)(pt_task p \<mapsto> p)"
proof -
  let ?s = "snd (parked_insert p s)"
  note v = key_valid_index[OF assms(2)]
  have lens: "length (pk_owned ?s) \<le> KEY_SLOTS" "length (pk_borrowed ?s) \<le> KEY_SLOTS"
    using assms by (auto simp: parked_ok_def parked_insert_def parked_slots_mut_def parked_slots_def Let_def)
  have get: "parked_get ?s j = ((parked_get s)(pt_task p \<mapsto> p)) j" for j
  proof (cases "key_valid j")
    case True
    then show ?thesis using parked_insert_split(2)[OF True v, of s] assms(3) by auto
  next
    case False
    then have "\<not> unat (key_index j) < KEY_SLOTS" using key_valid_index by blast
    with lens False show ?thesis
      using parked_invalid[OF assms(1)] v by (auto simp: parked_get_slots parked_slots_def)
  qed
  have "parked_ok ?s" using assms(1) lens get parked_insert_split(3)[of s p] by (auto simp: parked_ok_def)
  moreover have "fst (parked_insert p s)" using assms(3) parked_insert_split(1)[of p s] by simp
  ultimately show ?thesis using get by (metis (full_types) ext prod.collapse)
qed

lemma parked_get_mut_ok:
  assumes "parked_ok s" "parked_get s key = Some p" "pt_task (f p) = pt_task p"
  shows "\<exists>s'. parked_get_mut f key s = Some s' \<and> parked_ok s' \<and> parked_get s' = (parked_get s)(key \<mapsto> f p)"
proof -
  let ?i = "unat (key_index key)" and ?xs = "parked_slots s key"
  let ?s = "parked_slots_mut key (?xs[?i := Some (f p)]) s"
  from assms(2) have i: "?i < length ?xs" "?xs ! ?i = Some p" by (auto simp: parked_get_slots split: if_splits)
  have small: "?i < KEY_SLOTS" using i(1) assms(1) by (auto simp: parked_ok_def parked_slots_def split: if_splits)
  have get: "parked_get ?s j = ((parked_get s)(key \<mapsto> f p)) j" for j
    using i key_same[of j key] small
    by (cases "key_is_borrowed j = key_is_borrowed key") (auto simp: parked_get_slots parked_slots_lane[of j key] nth_list_update)
  have "occupied (?xs[?i := Some (f p)]) = occupied ?xs"
    using occupied_update[OF i(1), of "Some (f p)"] i(2) by simp
  then have "parked_inv ?s"
    using occupied_slots_mut[of key "?xs[?i := Some (f p)]" s] assms(1) by (simp add: parked_inv_def parked_ok_def)
  moreover have "length (pk_owned ?s) \<le> KEY_SLOTS" "length (pk_borrowed ?s) \<le> KEY_SLOTS"
    using assms(1) by (auto simp: parked_ok_def parked_slots_mut_def parked_slots_def)
  ultimately have "parked_ok ?s" using assms get by (auto simp: parked_ok_def)
  with get assms(2) show ?thesis by (auto simp: parked_get_mut_def)
qed

text \<open>The iterator visits every park once.\<close>

lemma map_filter_id: "List.map_filter id xs = map the (filter (\<lambda>x. x \<noteq> None) xs)"
  by (induction xs) (auto simp: List.map_filter_simps)

lemma map_filter_id_mem: "p \<in> set (List.map_filter id xs) \<longleftrightarrow> Some p \<in> set xs"
  by (induction xs) (auto simp: List.map_filter_simps split: option.splits)

lemma parked_iter_mem:
  assumes "parked_ok s"
  shows "p \<in> set (parked_iter s) \<longleftrightarrow> parked_get s (pt_task p) = Some p"
proof
  assume "p \<in> set (parked_iter s)"
  then have "\<exists>b. Some p \<in> set (if b then pk_borrowed s else pk_owned s)"
    by (auto simp: parked_iter_def map_filter_id_mem intro: exI[of _ True] exI[of _ False])
  then obtain b i where bi: "i < length (if b then pk_borrowed s else pk_owned s)" "(if b then pk_borrowed s else pk_owned s) ! i = Some p"
    by (meson in_set_conv_nth)
  with assms have "i < KEY_SLOTS" by (auto simp: parked_ok_def split: if_splits)
  then obtain k where "unat (key_index k) = i" "key_is_borrowed k = b" using key_encode_slot by blast
  with bi have "parked_get s k = Some p" by (auto simp: parked_get_slots parked_slots_def)
  with assms show "parked_get s (pt_task p) = Some p" by (auto simp: parked_ok_def)
next
  assume "parked_get s (pt_task p) = Some p"
  then have "Some p \<in> set (pk_owned s @ pk_borrowed s)"
    by (auto simp: parked_get_slots parked_slots_def in_set_conv_nth split: if_splits)
  then show "p \<in> set (parked_iter s)" by (simp add: parked_iter_def map_filter_id_mem)
qed

lemma parked_iter_keys:
  assumes "parked_ok s"
  shows "set (map pt_task (parked_iter s)) = dom (parked_get s)" "distinct (map pt_task (parked_iter s))"
proof -
  have key: "pt_task p = key" if "parked_get s key = Some p" for key p
    using that assms by (simp add: parked_ok_def)
  show set: "set (map pt_task (parked_iter s)) = dom (parked_get s)"
  proof -
    have "key \<in> pt_task ` set (parked_iter s) \<longleftrightarrow> key \<in> dom (parked_get s)" for key
    proof
      assume "key \<in> pt_task ` set (parked_iter s)"
      then obtain p where "p \<in> set (parked_iter s)" "key = pt_task p" by blast
      then show "key \<in> dom (parked_get s)" by (simp add: parked_iter_mem[OF assms] domI)
    next
      assume "key \<in> dom (parked_get s)"
      then obtain p where p: "parked_get s key = Some p" by blast
      then have "p \<in> set (parked_iter s)" using key[OF p] by (simp add: parked_iter_mem[OF assms])
      with key[OF p] show "key \<in> pt_task ` set (parked_iter s)" by force
    qed
    then show ?thesis by (simp add: set_eq_iff)
  qed
  have "length (parked_iter s) = pk_len s"
    using assms by (simp add: parked_iter_def map_filter_id parked_ok_def parked_inv_def occupied_def)
  then show "distinct (map pt_task (parked_iter s))"
    using parked_card[OF assms] set by (intro card_distinct) simp
qed

section \<open>Ready entries\<close>

lemma rq_mset_simps [simp]:
  "rq_mset rq_new = {#}"
  "rq_mset (rq_push_back t q) = add_mset t (rq_mset q)"
  "rq_mset (rq_push_front t q) = add_mset t (rq_mset q)"
  "rq_mset (rq_push_wake t q) = add_mset t (rq_mset q)"
  by (simp_all add: rq_mset_def rq_new_def rq_push_back_def rq_push_front_def rq_push_wake_def)

lemma rq_len_size: "rq_len q = size (rq_mset q)"
  by (simp add: rq_len_def rq_mset_def)

lemma rq_is_empty_mset: "rq_is_empty q \<longleftrightarrow> rq_mset q = {#}"
  by (auto simp: rq_is_empty_def rq_mset_def)

lemma opt_mset_simps [simp]: "opt_mset None = {#}" "opt_mset (Some x) = {#x#}"
  by (simp_all add: opt_mset_def)

lemma rq_remove_mset:
  assumes "t \<in># rq_mset q"
  shows "\<exists>q'. rq_remove t q = (True, q') \<and> add_mset t (rq_mset q') = rq_mset q"
proof (cases "position (\<lambda>e. e = t) (normal q)")
  case (Some i)
  with position_Some_D[OF Some] mset_remove_at[of i "normal q"] show ?thesis
    by (auto simp: rq_remove_def rq_mset_def simp flip: union_mset_add_mset_left)
next
  case None
  with assms have "t \<in> set (wakes q)" by (auto simp: rq_mset_def position_None_iff)
  then obtain i where i: "position (\<lambda>e. e = t) (wakes q) = Some i"
    by (cases "position (\<lambda>e. e = t) (wakes q)") (auto simp: position_None_iff)
  with None position_Some_D[OF i] mset_remove_at[of i "wakes q"] show ?thesis
    by (auto simp: rq_remove_def rq_mset_def simp flip: union_mset_add_mset_right)
qed

text \<open>An inspection is good while no entry behind the ones still to be inspected matches.\<close>

definition lane_seen :: "('k \<Rightarrow> bool) \<Rightarrow> nat \<Rightarrow> 'k list \<Rightarrow> bool" where
  "lane_seen p n xs \<longleftrightarrow> n \<le> length xs \<and> (\<forall>x \<in> set (drop n xs). \<not> p x)"

definition inspection_ok :: "('k \<Rightarrow> bool) \<Rightarrow> inspection \<Rightarrow> 'k ready_queue \<Rightarrow> bool" where
  "inspection_ok p ins q \<longleftrightarrow> lane_seen p (rem_normal ins) (normal q) \<and> lane_seen p (rem_wakes ins) (wakes q)"

lemma inspection_ok_start: "inspection_ok p (rq_inspection q) q"
  by (simp add: inspection_ok_def rq_inspection_def lane_seen_def)

lemma inspection_ok_cong:
  "(\<And>x. x \<in># rq_mset q \<Longrightarrow> p x \<longleftrightarrow> p' x) \<Longrightarrow> inspection_ok p ins q \<longleftrightarrow> inspection_ok p' ins q"
  by (auto simp: inspection_ok_def lane_seen_def rq_mset_def dest: in_set_dropD)

lemma scan_lane_step:
  assumes "lane_seen p n xs"
  shows "\<exists>r ys m. scan_lane p n xs = Inr (r, ys, m) \<and> mset xs = opt_mset r + mset ys \<and> lane_seen p m ys
    \<and> (case r of None \<Rightarrow> \<forall>x \<in> set ys. \<not> p x | Some x \<Rightarrow> p x)"
proof -
  let ?a = "take n xs" and ?b = "drop n xs"
  have n: "n = length ?a" and b: "\<forall>x \<in> set ?b. \<not> p x" using assms by (auto simp: lane_seen_def)
  have split: "scan_lane p n xs = (case dropWhile (\<lambda>x. \<not> p x) ?a of
        [] \<Rightarrow> Inr (None, ?b @ ?a, 0)
      | x # v \<Rightarrow> Inr (Some x, v @ ?b @ takeWhile (\<lambda>x. \<not> p x) ?a, length v))"
    using scan_lane_split[of p ?a ?b] n by simp
  show ?thesis
  proof (cases "dropWhile (\<lambda>x. \<not> p x) ?a")
    case Nil
    then have "\<forall>x \<in> set ?a. \<not> p x" by (simp add: dropWhile_eq_Nil_conv)
    moreover have "mset xs = mset (?b @ ?a)" by (metis append_take_drop_id mset_append union_commute)
    moreover have "scan_lane p n xs = Inr (None, ?b @ ?a, 0)" by (simp only: split Nil list.case)
    ultimately show ?thesis using b by (auto simp: lane_seen_def)
  next
    case (Cons x v)
    have px: "p x" using Cons by (metis dropWhile_eq_Cons_conv)
    have a: "?a = takeWhile (\<lambda>x. \<not> p x) ?a @ x # v" using Cons by (metis takeWhile_dropWhile_id)
    have "mset xs = mset ?a + mset ?b" by (metis append_take_drop_id mset_append)
    also have "mset ?a = mset (takeWhile (\<lambda>x. \<not> p x) ?a) + add_mset x (mset v)" by (subst a) simp
    finally have "mset xs = opt_mset (Some x) + mset (v @ ?b @ takeWhile (\<lambda>x. \<not> p x) ?a)" by simp
    moreover have "\<forall>y \<in> set (takeWhile (\<lambda>x. \<not> p x) ?a). \<not> p y" by (auto dest: set_takeWhileD)
    ultimately show ?thesis using Cons b px by (auto simp: split lane_seen_def)
  qed
qed

lemma rq_remove_matching_step:
  assumes "inspection_ok p ins q"
  shows "\<exists>r ins' q'. rq_remove_matching p ins q = Inr (r, ins', q') \<and> rq_mset q = opt_mset r + rq_mset q'
    \<and> inspection_ok p ins' q' \<and> (case r of None \<Rightarrow> \<forall>x \<in># rq_mset q'. \<not> p x | Some x \<Rightarrow> p x)"
proof -
  from scan_lane_step[of p "rem_normal ins" "normal q"] assms obtain r ns m where
    n: "scan_lane p (rem_normal ins) (normal q) = Inr (r, ns, m)" "mset (normal q) = opt_mset r + mset ns" "lane_seen p m ns"
       "case r of None \<Rightarrow> \<forall>x \<in> set ns. \<not> p x | Some x \<Rightarrow> p x" by (auto simp: inspection_ok_def)
  show ?thesis
  proof (cases r)
    case (Some x)
    with n assms show ?thesis by (auto simp: rq_remove_matching_def inspection_ok_def rq_mset_def)
  next
    case None
    from scan_lane_step[of p "rem_wakes ins" "wakes q"] assms obtain r2 ws m2 where
      w: "scan_lane p (rem_wakes ins) (wakes q) = Inr (r2, ws, m2)" "mset (wakes q) = opt_mset r2 + mset ws" "lane_seen p m2 ws"
         "case r2 of None \<Rightarrow> \<forall>x \<in> set ws. \<not> p x | Some x \<Rightarrow> p x" by (auto simp: inspection_ok_def)
    with n None show ?thesis
      by (auto simp: rq_remove_matching_def inspection_ok_def rq_mset_def split: option.splits)
  qed
qed

end
