(* ===== verification/Kernel_Invariant.thy ===== *)
theory Kernel_Invariant
  imports Kernel_Store
begin

text \<open>
  The invariant of a carrier's kernel: every live task is in exactly one of the ready queue, the
  park records and the in-flight slot; deferred wakes and timers belong to parks; the completion
  batch is of one scope; and every task that was handed to the kernel is still in it or was
  reported once. The lemmas go through the operations that publish, finish and wake tasks.
\<close>

section \<open>Results that do not panic\<close>

definition ok_result :: "('a \<Rightarrow> bool) \<Rightarrow> 'a kernel_result \<Rightarrow> bool" where
  "ok_result Q r = (case r of Inl (KernelPanic _) \<Rightarrow> False | Inl (KernelError _) \<Rightarrow> True | Inr x \<Rightarrow> Q x)"

lemma ok_result_simps [simp]:
  "ok_result Q (Inr x) \<longleftrightarrow> Q x" "ok_result Q (kernel_fault m)" "\<not> ok_result Q (kernel_panic m)"
  "ok_result Q (Inl (KernelError e))" "ok_result Q (lift_error (Inl e))"
  "lift_error (Inr x) = Inr x" "lift_panic (Inr y) = Inr y"
  by (simp_all add: ok_result_def kernel_fault_def kernel_panic_def lift_error_def lift_panic_def)

lemma ok_bind:
  assumes "ok_result Q r" "\<And>x. Q x \<Longrightarrow> ok_result R (f x)"
  shows "ok_result R (bindp r f)"
proof (cases r)
  case (Inl e)
  with assms(1) show ?thesis by (cases e) (auto simp: ok_result_def)
qed (use assms in auto)

lemma ok_mono: "ok_result Q r \<Longrightarrow> (\<And>x. Q x \<Longrightarrow> R x) \<Longrightarrow> ok_result R r"
  by (auto simp: ok_result_def split: sum.splits kernel_failure.splits)

lemma ok_map_sum: "ok_result (\<lambda>x. R (f x)) r \<Longrightarrow> ok_result R (map_sum id f r)"
  by (cases r) (auto simp: ok_result_def)

lemma ok_foldp:
  assumes "\<And>x s. x \<in> set xs \<Longrightarrow> I s \<Longrightarrow> ok_result I (f x s)" "I s"
  shows "ok_result I (foldp f xs s)"
  using assms by (induction xs arbitrary: s) (auto intro: ok_bind)

section \<open>The tasks a kernel holds and has finished\<close>

definition live_ids :: "kernel_tasks \<Rightarrow> task_id multiset" where
  "live_ids ks = image_mset (\<lambda>key. kt_id (the (tasks_get ks key))) (mset_set (dom (tasks_get ks)))"

definition kernel_ids :: "('e, 'r) kernel \<Rightarrow> task_id multiset" where
  "kernel_ids k = live_ids (kn_tasks k) + mset (map kt_id (kn_starts k)) + image_mset pk_task (opt_mset (kn_pending k))
     + mset (map pk_task (kn_incoming k)) + mset (map pk_task (ib_starts (kn_inbox k)))"

fun finished :: "kernel_call list \<Rightarrow> task_id multiset" where
  "finished [] = {#}"
| "finished (Prepared i _ # cs) = add_mset i (finished cs)"
| "finished (Completing i _ # cs) = add_mset i (finished cs)"
| "finished (PublishedBatch _ # cs) = finished cs"

definition kernel_total :: "('e, 'r) kernel \<Rightarrow> task_id multiset" where
  "kernel_total k = kernel_ids k + finished (kn_calls k)"

lemma finished_append [simp]: "finished (cs @ ds) = finished cs + finished ds"
  by (induction cs rule: finished.induct) auto

lemma live_ids_new [simp]: "live_ids tasks_new = {#}"
  by (simp add: live_ids_def)

lemma live_ids_size: "tasks_ok ks \<Longrightarrow> size (live_ids ks) = tasks_len ks"
  by (simp add: live_ids_def tasks_card)

lemma live_ids_insert:
  assumes "tasks_ok ks" "tasks_get ks key = None" "tasks_get ks' = (tasks_get ks)(key \<mapsto> t)"
  shows "live_ids ks' = add_mset (kt_id t) (live_ids ks)"
proof -
  have d: "dom (tasks_get ks') = insert key (dom (tasks_get ks))" "key \<notin> dom (tasks_get ks)" using assms by auto
  have "image_mset (\<lambda>j. kt_id (the (tasks_get ks' j))) (mset_set (dom (tasks_get ks)))
      = image_mset (\<lambda>j. kt_id (the (tasks_get ks j))) (mset_set (dom (tasks_get ks)))"
    using d(2) assms(3) tasks_card(1)[OF assms(1)] by (intro image_mset_cong) auto
  then show ?thesis
    using d tasks_card(1)[OF assms(1)] assms(3) by (simp add: live_ids_def)
qed

lemma live_ids_remove:
  assumes "tasks_ok ks'" "tasks_get ks key = Some t" "tasks_get ks' = (tasks_get ks)(key := None)"
  shows "live_ids ks = add_mset (kt_id t) (live_ids ks')"
  by (rule live_ids_insert[of _ key]) (use assms in auto)

section \<open>The invariant\<close>

definition placed :: "task_key ready_queue \<Rightarrow> task_key option \<Rightarrow> 'r parked_tasks \<Rightarrow> task_key \<Rightarrow> nat" where
  "placed q f pk key = count (rq_mset q) key + of_bool (f = Some key) + of_bool (parked_get pk key \<noteq> None)"

definition places_ok :: "kernel_tasks \<Rightarrow> task_key ready_queue \<Rightarrow> task_key option \<Rightarrow> 'r parked_tasks \<Rightarrow> bool" where
  "places_ok ks q f pk \<longleftrightarrow> tasks_ok ks \<and> parked_ok pk \<and> (\<forall>key. placed q f pk key = of_bool (tasks_get ks key \<noteq> None))"

text \<open>The deferred wakes are those of the parks that are marked, one each.\<close>

definition deferred_ok :: "'r parked_tasks \<Rightarrow> wake_notice list \<Rightarrow> bool" where
  "deferred_ok pk ds \<longleftrightarrow> distinct (map wn_route ds)
     \<and> (\<forall>n \<in> set ds. \<exists>p. parked_get pk (wn_route n) = Some p \<and> pt_deferred p \<and> pt_token p = wn_token n)
     \<and> (\<forall>key p. parked_get pk key = Some p \<longrightarrow> pt_deferred p \<longrightarrow> key \<in> wn_route ` set ds)"

text \<open>Every registered timer is of a park with a deadline.\<close>

definition timers_ok :: "'r parked_tasks \<Rightarrow> timer_queue \<Rightarrow> bool" where
  "timers_ok pk tq \<longleftrightarrow> tq_inv tq
     \<and> (\<forall>token r. kv_get (active tq) token = Some r \<longrightarrow>
           (\<exists>p. parked_get pk (tr_task r) = Some p \<and> pt_token p = token \<and> pt_has_deadline p))"

definition kbatch_ok :: "carrier_id \<Rightarrow> u64 option \<Rightarrow> completion_batch \<Rightarrow> bool" where
  "kbatch_ok i progress b \<longleftrightarrow> cb_len b < COMPLETION_BATCH \<and> (cb_len b = 0 \<longleftrightarrow> cb_first b = None)
     \<and> (\<forall>c. cb_first b = Some c \<longrightarrow> progress = Some (cu_scope c) \<and> cu_carrier c = i)"

text \<open>\<open>S\<close> are the scopes that the shared control still owns.\<close>

definition aborts_ok :: "u64 set \<Rightarrow> (u64 option \<times> task_failure) list \<Rightarrow> bool" where
  "aborts_ok S as \<longleftrightarrow> distinct (map fst as) \<and> (None \<in> fst ` set as \<longrightarrow> length as = 1) \<and> fst ` set as \<subseteq> insert None (Some ` S)"

definition limits_ok :: "u64 set \<Rightarrow> ('e, 'r) kernel \<Rightarrow> bool" where
  "limits_ok S k \<longleftrightarrow> finite S \<and> card S \<le> cf_max_owned_scopes (kn_config k) \<and> 0 < cf_max_owned_scopes (kn_config k)
     \<and> cf_max_vthreads (kn_config k) < KEY_SLOTS \<and> size (kernel_ids k) \<le> cf_max_vthreads (kn_config k)
     \<and> 0 < cf_carrier_queue_capacity (kn_config k) \<and> kn_unpublished k < PROGRESS_PUBLICATION_BATCH"

text \<open>Every packet still carries what it starts.\<close>

definition packets_ok :: "'e spawn_packet list \<Rightarrow> 'e inbox \<Rightarrow> bool" where
  "packets_ok ps i \<longleftrightarrow> inbox_ok i \<and> (\<forall>p \<in> set ps \<union> set (ib_starts i). pk_entry p \<noteq> None)"

definition kernel_inv :: "u64 set \<Rightarrow> task_id multiset \<Rightarrow> ('e, 'r) kernel \<Rightarrow> bool" where
  "kernel_inv S M k \<longleftrightarrow> places_ok (kn_tasks k) (kn_ready k) (kn_in_flight k) (kn_parked k)
     \<and> deferred_ok (kn_parked k) (kn_deferred k) \<and> timers_ok (kn_parked k) (kn_timers k)
     \<and> kbatch_ok (kn_id k) (kn_progress k) (kn_batch k) \<and> aborts_ok S (kn_aborts k)
     \<and> packets_ok (kn_incoming k) (kn_inbox k) \<and> limits_ok S k \<and> kernel_total k = M"

lemmas inv_defs = kernel_inv_def limits_ok_def kernel_total_def kernel_ids_def

lemma kernel_inv_D:
  assumes "kernel_inv S M k"
  shows "places_ok (kn_tasks k) (kn_ready k) (kn_in_flight k) (kn_parked k)"
    "deferred_ok (kn_parked k) (kn_deferred k)" "timers_ok (kn_parked k) (kn_timers k)"
    "kbatch_ok (kn_id k) (kn_progress k) (kn_batch k)" "aborts_ok S (kn_aborts k)"
    "packets_ok (kn_incoming k) (kn_inbox k)" "limits_ok S k" "kernel_total k = M" "tasks_ok (kn_tasks k)" "parked_ok (kn_parked k)"
  using assms by (auto simp: kernel_inv_def places_ok_def)

text \<open>Where the tasks are.\<close>

lemma places_at:
  assumes "places_ok ks q f pk"
  shows "count (rq_mset q) key + (if f = Some key then 1 else 0) + (if parked_get pk key = None then 0 else 1)
    = (if tasks_get ks key = None then 0 else 1)"
proof -
  have "placed q f pk key = of_bool (tasks_get ks key \<noteq> None)" using assms by (simp add: places_ok_def)
  then show ?thesis unfolding placed_def of_bool_def by (simp del: not_None_eq split: if_splits)
qed

lemma places_live:
  assumes "places_ok ks q f pk"
  shows "key \<in># rq_mset q \<Longrightarrow> tasks_get ks key \<noteq> None" "f = Some key \<Longrightarrow> tasks_get ks key \<noteq> None"
    "parked_get pk key \<noteq> None \<Longrightarrow> tasks_get ks key \<noteq> None"
  using places_at[OF assms, of key] by (auto simp flip: count_greater_zero_iff split: if_splits)

lemma places_exclusive:
  assumes "places_ok ks q f pk"
  shows "f = Some key \<Longrightarrow> key \<notin># rq_mset q" "f = Some key \<Longrightarrow> parked_get pk key = None"
    "key \<in># rq_mset q \<Longrightarrow> parked_get pk key = None" "count (rq_mset q) key \<le> 1"
  using places_at[OF assms, of key] by (auto simp: not_in_iff simp flip: count_greater_zero_iff split: if_splits)

lemma places_split:
  assumes "places_ok ks q f pk"
  shows "mset_set (dom (tasks_get ks)) = rq_mset q + opt_mset f + mset_set (dom (parked_get pk))"
proof (rule multiset_eqI)
  fix key
  have "finite (dom (tasks_get ks))" "finite (dom (parked_get pk))"
    using assms tasks_card[of ks] parked_card[of pk] by (auto simp: places_ok_def)
  with places_at[OF assms, of key] show "count (mset_set (dom (tasks_get ks))) key = count (rq_mset q + opt_mset f + mset_set (dom (parked_get pk))) key"
    by (cases f) (auto simp: count_mset_set' domIff split: if_splits)
qed

lemma places_total:
  assumes "places_ok ks q f pk"
  shows "tasks_len ks = rq_len q + pk_len pk + of_bool (f \<noteq> None)"
proof -
  have "tasks_len ks = size (mset_set (dom (tasks_get ks)))"
    using assms tasks_card[of ks] by (simp add: places_ok_def)
  also have "\<dots> = rq_len q + of_bool (f \<noteq> None) + card (dom (parked_get pk))"
    by (cases f) (simp_all add: places_split[OF assms] rq_len_size)
  finally show ?thesis using assms parked_card[of pk] by (simp add: places_ok_def)
qed

section \<open>Moves\<close>

lemma places_move:
  assumes "places_ok ks q f pk" "tasks_ok ks'" "parked_ok pk'"
    "\<And>j. placed q' f' pk' j + of_bool (tasks_get ks j \<noteq> None) = placed q f pk j + of_bool (tasks_get ks' j \<noteq> None)"
  shows "places_ok ks' q' f' pk'"
  using assms unfolding places_ok_def by (metis add.commute add_left_cancel)

lemma places_D: "places_ok ks q f pk \<Longrightarrow> tasks_ok ks" "places_ok ks q f pk \<Longrightarrow> parked_ok pk"
  by (simp_all add: places_ok_def)

lemma places_dispatch:
  assumes "places_ok ks q None pk" "rq_mset q = add_mset key (rq_mset q')"
  shows "places_ok ks q' (Some key) pk"
  by (rule places_move[OF assms(1)]) (use assms(2-) places_D[OF assms(1)] in \<open>auto simp: placed_def\<close>)

lemma places_requeue:
  assumes "places_ok ks q (Some key) pk" "rq_mset q' = add_mset key (rq_mset q)"
  shows "places_ok ks q' None pk"
  by (rule places_move[OF assms(1)]) (use assms(2-) places_D[OF assms(1)] in \<open>auto simp: placed_def\<close>)

lemma places_park:
  assumes "places_ok ks q (Some key) pk" "parked_ok pk'" "parked_get pk' = (parked_get pk)(key \<mapsto> p)"
  shows "places_ok ks q None pk'"
  by (rule places_move[OF assms(1)])
    (use assms(2-) places_D[OF assms(1)] places_exclusive(2)[OF assms(1) refl] in \<open>auto simp: placed_def\<close>)

lemma places_wake:
  assumes "places_ok ks q f pk" "parked_ok pk'" "parked_get pk key = Some p" "parked_get pk' = (parked_get pk)(key := None)"
    "rq_mset q' = add_mset key (rq_mset q)"
  shows "places_ok ks q' f pk'"
  by (rule places_move[OF assms(1)]) (use assms(2-) places_D[OF assms(1)] in \<open>auto simp: placed_def\<close>)

lemma places_unpark:
  assumes "places_ok ks q None pk" "parked_ok pk'" "parked_get pk key = Some p" "parked_get pk' = (parked_get pk)(key := None)"
  shows "places_ok ks q (Some key) pk'"
  by (rule places_move[OF assms(1)]) (use assms(2-) places_D[OF assms(1)] in \<open>auto simp: placed_def\<close>)

lemma places_mark:
  assumes "places_ok ks q f pk" "parked_ok pk'" "parked_get pk key = Some p" "parked_get pk' = (parked_get pk)(key \<mapsto> p')"
  shows "places_ok ks q f pk'"
  by (rule places_move[OF assms(1)]) (use assms(2-) places_D[OF assms(1)] in \<open>auto simp: placed_def\<close>)

lemma places_free:
  assumes "places_ok ks q (Some key) pk" "tasks_ok ks'" "tasks_get ks' = (tasks_get ks)(key := None)"
  shows "places_ok ks' q None pk"
  by (rule places_move[OF assms(1)])
    (use assms(2-) places_D[OF assms(1)] places_live(2)[OF assms(1) refl] in \<open>auto simp: placed_def\<close>)

lemma places_start:
  assumes "places_ok ks q f pk" "tasks_ok ks'" "tasks_get ks key = None" "tasks_get ks' = (tasks_get ks)(key \<mapsto> t)"
    "rq_mset q' = add_mset key (rq_mset q)"
  shows "places_ok ks' q' f pk"
  by (rule places_move[OF assms(1)]) (use assms(2-) places_D[OF assms(1)] in \<open>auto simp: placed_def\<close>)

text \<open>Fields that the invariant does not read.\<close>

lemma kernel_inv_frame [simp]:
  "kernel_inv S M (k\<lparr>kn_stats := st\<rparr>) = kernel_inv S M k"
  "kernel_inv S M (k\<lparr>kn_wakes := ws\<rparr>) = kernel_inv S M k"
  "kernel_inv S M (k\<lparr>kn_has_borrowed := b\<rparr>) = kernel_inv S M k"
  "kernel_inv S M (k\<lparr>kn_epoch := e\<rparr>) = kernel_inv S M k"
  "kernel_inv S M (k\<lparr>kn_pressure := c\<rparr>) = kernel_inv S M k"
  "kernel_inv S M (k\<lparr>kn_remote_pending := b\<rparr>) = kernel_inv S M k"
  by (simp_all add: inv_defs)

lemma kernel_inv_unpublished:
  "kernel_inv S M k \<Longrightarrow> u < PROGRESS_PUBLICATION_BATCH \<Longrightarrow> kernel_inv S M (k\<lparr>kn_unpublished := u\<rparr>)"
  by (simp add: inv_defs)

section \<open>Publication\<close>

lemma kernel_publish_eq:
  assumes "places_ok (kn_tasks k) (kn_ready k) (kn_in_flight k) (kn_parked k)"
  shows "kernel_publish k = Inr (k\<lparr>kn_unpublished := 0\<rparr>)"
  using places_total[OF assms] by (simp add: kernel_publish_def snapshot_total_def)

text \<open>Publishing and flushing touch only what has been published.\<close>

definition quiet :: "('e, 'r) kernel \<Rightarrow> ('e, 'r) kernel \<Rightarrow> bool" where
  "quiet k k' \<longleftrightarrow> kn_config k' = kn_config k \<and> kn_id k' = kn_id k \<and> kn_inbox k' = kn_inbox k \<and> kn_tasks k' = kn_tasks k
     \<and> kn_ready k' = kn_ready k \<and> kn_parked k' = kn_parked k \<and> kn_deferred k' = kn_deferred k \<and> kn_aborts k' = kn_aborts k
     \<and> kn_in_flight k' = kn_in_flight k \<and> kn_pending k' = kn_pending k \<and> kn_incoming k' = kn_incoming k
     \<and> kn_progress k' = kn_progress k \<and> kn_starts k' = kn_starts k \<and> kn_wakes k' = kn_wakes k \<and> kn_timers k' = kn_timers k
     \<and> kn_stats k' = kn_stats k \<and> finished (kn_calls k') = finished (kn_calls k)"

lemma quiet_refl [simp]: "quiet k k" "quiet k (k\<lparr>kn_unpublished := u\<rparr>)"
  by (simp_all add: quiet_def)

lemma publish_transition_cases:
  assumes "places_ok (kn_tasks k) (kn_ready k) (kn_in_flight k) (kn_parked k)" "kn_unpublished k < PROGRESS_PUBLICATION_BATCH"
  obtains u where "u < PROGRESS_PUBLICATION_BATCH" "publish_transition k = Inr (k\<lparr>kn_unpublished := u\<rparr>)"
proof (cases "kn_unpublished k + 1 = PROGRESS_PUBLICATION_BATCH")
  case True
  then show ?thesis using that[of 0] kernel_publish_eq[OF assms(1)] by (simp add: publish_transition_def Let_def)
next
  case False
  then show ?thesis using that[of "kn_unpublished k + 1"] assms(2) by (simp add: publish_transition_def Let_def)
qed

lemma kernel_inv_unpublished_bound: "kernel_inv S M k \<Longrightarrow> kn_unpublished k < PROGRESS_PUBLICATION_BATCH"
  by (simp add: kernel_inv_def limits_ok_def)

lemma publish_transition_ok:
  assumes "kernel_inv S M k"
  shows "ok_result (\<lambda>k'. kernel_inv S M k' \<and> quiet k k' \<and> kn_batch k' = kn_batch k \<and> kn_calls k' = kn_calls k) (publish_transition k)"
proof -
  obtain u where "u < PROGRESS_PUBLICATION_BATCH" "publish_transition k = Inr (k\<lparr>kn_unpublished := u\<rparr>)"
    by (rule publish_transition_cases[OF kernel_inv_D(1)[OF assms] kernel_inv_unpublished_bound[OF assms]])
  then show ?thesis using kernel_inv_unpublished[OF assms] by simp
qed

lemma kernel_publish_ok:
  assumes "kernel_inv S M k"
  shows "ok_result (\<lambda>k'. kernel_inv S M k' \<and> quiet k k' \<and> kn_batch k' = kn_batch k \<and> kn_calls k' = kn_calls k) (kernel_publish k)"
  using kernel_publish_eq[OF kernel_inv_D(1)[OF assms]] kernel_inv_unpublished[OF assms, of 0]
  by (simp add: PROGRESS_PUBLICATION_BATCH_def)

lemma kbatch_new: "kbatch_ok i p batch_new"
  by (simp add: kbatch_ok_def batch_new_def COMPLETION_BATCH_def)

lemma flush_completions_ok:
  assumes "kernel_inv S M k"
  shows "ok_result (\<lambda>k'. kernel_inv S M k' \<and> quiet k k' \<and> batch_is_empty (kn_batch k') \<and> batch_scope (kn_batch k') = None)
    (flush_completions k)"
proof (cases "batch_is_empty (kn_batch k)")
  case True
  then show ?thesis
    using assms kernel_inv_D(4)[OF assms]
    by (simp add: flush_completions_def batch_is_empty_def batch_scope_def kbatch_ok_def)
next
  case False
  then have "kn_progress k \<noteq> None"
    using kernel_inv_D(4)[OF assms] by (auto simp: kbatch_ok_def batch_is_empty_def)
  moreover have "kernel_inv S M (k\<lparr>kn_calls := kn_calls k @ [PublishedBatch (kn_batch k)], kn_batch := batch_new\<rparr>)"
    using assms by (simp add: inv_defs kbatch_new)
  moreover have "batch_is_empty batch_new" "batch_scope batch_new = None"
    by (simp_all add: batch_new_def batch_is_empty_def batch_scope_def)
  ultimately show ?thesis
    using False by (auto simp: flush_completions_def batch_clear_new quiet_def)
qed

section \<open>Ends of tasks\<close>

text \<open>What freeing a task leaves alone.\<close>

definition steady :: "('e, 'r) kernel \<Rightarrow> ('e, 'r) kernel \<Rightarrow> bool" where
  "steady k k' \<longleftrightarrow> kn_config k' = kn_config k \<and> kn_id k' = kn_id k \<and> kn_inbox k' = kn_inbox k
     \<and> kn_ready k' = kn_ready k \<and> kn_parked k' = kn_parked k \<and> kn_deferred k' = kn_deferred k \<and> kn_aborts k' = kn_aborts k
     \<and> kn_pending k' = kn_pending k \<and> kn_incoming k' = kn_incoming k
     \<and> kn_starts k' = kn_starts k \<and> kn_wakes k' = kn_wakes k \<and> kn_timers k' = kn_timers k"

lemma steady_refl [simp]: "steady k k"
  by (simp add: steady_def)

lemma steady_trans: "steady k k' \<Longrightarrow> steady k' k'' \<Longrightarrow> steady k k''"
  by (simp add: steady_def)

lemma quiet_steady: "quiet k k' \<Longrightarrow> steady k k'"
  by (simp add: quiet_def steady_def)

lemma kernel_task_eq: "kernel_task key k = (case tasks_get (kn_tasks k) key of None \<Rightarrow> kernel_panic ''live task key'' | Some t \<Rightarrow> Inr t)"
  by (simp add: kernel_task_def)

text \<open>A call that ends a task gives back to the total what the task's removal took.\<close>

lemma kernel_inv_call:
  assumes "kernel_inv S M k"
  shows "kernel_inv S (add_mset i M) (k\<lparr>kn_calls := kn_calls k @ [Completing i r]\<rparr>)"
    "kernel_inv S (add_mset i M) (k\<lparr>kn_calls := kn_calls k @ [Prepared i x]\<rparr>)"
  using assms by (auto simp: inv_defs)

lemma remove_in_flight_ok:
  assumes inv: "kernel_inv S M k" and key: "kn_in_flight k = Some key" and t: "tasks_get (kn_tasks k) key = Some t"
  shows "\<exists>k' M'. remove_in_flight k = Inr k' \<and> kernel_inv S M' k' \<and> M = add_mset (kt_id t) M' \<and> kn_in_flight k' = None
    \<and> tasks_get (kn_tasks k') = (tasks_get (kn_tasks k))(key := None) \<and> steady k k'
    \<and> kn_calls k' = kn_calls k \<and> kn_batch k' = kn_batch k \<and> kn_progress k' = kn_progress k"
proof -
  note d = kernel_inv_D[OF inv]
  from tasks_remove_ok[OF d(9) t] obtain ks where ks: "tasks_remove key (kn_tasks k) = (True, ks)" "tasks_ok ks"
    "tasks_get ks = (tasks_get (kn_tasks k))(key := None)" by blast
  have places: "places_ok ks (kn_ready k) None (kn_parked k)"
    using places_free[OF _ ks(2,3)] d(1) key by auto
  have ids: "live_ids (kn_tasks k) = add_mset (kt_id t) (live_ids ks)"
    using live_ids_remove[OF ks(2) t ks(3)] .
  let ?k = "k\<lparr>kn_in_flight := None, kn_tasks := ks\<rparr>"
  let ?M = "kernel_total ?k"
  have M: "M = add_mset (kt_id t) ?M" using d(8) ids by (simp add: kernel_total_def kernel_ids_def)
  have "kernel_inv S ?M ?k"
    using inv places ids by (simp add: inv_defs)
  then show ?thesis
    using key ks M by (intro exI[of _ "if key_is_borrowed key then refresh_borrowed ?k else ?k"] exI[of _ ?M])
      (auto simp: remove_in_flight_def refresh_borrowed_def steady_def)
qed

lemma discard_in_flight_ok:
  assumes inv: "kernel_inv S M k" and key: "kn_in_flight k = Some key" and t: "tasks_get (kn_tasks k) key = Some t"
  shows "\<exists>k'. discard_in_flight reason k = Inr k' \<and> kernel_inv S M k' \<and> kn_in_flight k' = None
    \<and> tasks_get (kn_tasks k') = (tasks_get (kn_tasks k))(key := None) \<and> steady k k'
    \<and> kn_calls k' = kn_calls k @ [Completing (kt_id t) reason] \<and> kn_batch k' = kn_batch k \<and> kn_progress k' = kn_progress k"
proof -
  from remove_in_flight_ok[OF assms] obtain k1 M1 where k1: "remove_in_flight k = Inr k1" "kernel_inv S M1 k1"
    "M = add_mset (kt_id t) M1" "kn_in_flight k1 = None" "tasks_get (kn_tasks k1) = (tasks_get (kn_tasks k))(key := None)"
    "steady k k1" "kn_calls k1 = kn_calls k" "kn_batch k1 = kn_batch k" "kn_progress k1 = kn_progress k" by blast
  have "kernel_inv S M1 (count_aborted k1)" using k1(2) by (simp add: count_aborted_def)
  then have pub: "kernel_publish (count_aborted k1) = Inr (count_aborted k1\<lparr>kn_unpublished := 0\<rparr>)"
    "kernel_inv S M1 (count_aborted k1\<lparr>kn_unpublished := 0\<rparr>)"
    using kernel_publish_eq[OF kernel_inv_D(1)] kernel_inv_unpublished[of S M1 _ 0] by (auto simp: PROGRESS_PUBLICATION_BATCH_def)
  let ?k = "(count_aborted k1\<lparr>kn_unpublished := 0\<rparr>)\<lparr>kn_calls := kn_calls k1 @ [Completing (kt_id t) reason]\<rparr>"
  have "kernel_inv S M ?k" using kernel_inv_call(1)[OF pub(2)] k1(3) by (simp add: count_aborted_def)
  then show ?thesis
    using k1 key t pub(1) by (intro exI[of _ ?k]) (auto simp: discard_in_flight_def kernel_task_eq count_aborted_def steady_def)
qed

lemma discard_pending_ok:
  assumes inv: "kernel_inv S M k" and p: "kn_pending k = Some p"
  shows "\<exists>u. discard_pending reason k = Inr (count_aborted k\<lparr>kn_pending := None, kn_unpublished := u,
      kn_calls := kn_calls k @ [Completing (pk_task p) reason]\<rparr>)
    \<and> kernel_inv S M (count_aborted k\<lparr>kn_pending := None, kn_unpublished := u, kn_calls := kn_calls k @ [Completing (pk_task p) reason]\<rparr>)"
proof -
  have places: "places_ok (kn_tasks k) (kn_ready k) (kn_in_flight k) (kn_parked k)" using kernel_inv_D(1)[OF inv] .
  have "kernel_publish (count_aborted (k\<lparr>kn_pending := None\<rparr>)) = Inr (count_aborted k\<lparr>kn_pending := None, kn_unpublished := 0\<rparr>)"
    using kernel_publish_eq[of "count_aborted (k\<lparr>kn_pending := None\<rparr>)"] places by (simp add: count_aborted_def)
  moreover have "kernel_inv S M (count_aborted k\<lparr>kn_pending := None, kn_unpublished := 0, kn_calls := kn_calls k @ [Completing (pk_task p) reason]\<rparr>)"
    using inv p by (simp add: inv_defs count_aborted_def PROGRESS_PUBLICATION_BATCH_def)
  ultimately show ?thesis
    using p by (intro exI[of _ 0]) (simp add: discard_pending_def count_aborted_def)
qed

lemma queue_completion_ok:
  assumes inv: "kernel_inv S M k" and c: "cu_carrier c = kn_id k" "is_terminal (cu_status c)"
    and b: "batch_scope (kn_batch k) = None \<or> batch_scope (kn_batch k) = Some (cu_scope c)"
  shows "ok_result (\<lambda>k'. kernel_inv S M k' \<and> kn_in_flight k' = kn_in_flight k \<and> steady k k') (queue_completion c defer k)"
proof -
  have kb: "kbatch_ok (kn_id k) (kn_progress k) (kn_batch k)" using kernel_inv_D(4)[OF inv] .
  have first: "cu_scope f = cu_scope c \<and> cu_carrier f = cu_carrier c \<and> kn_progress k = Some (cu_scope c)" if "cb_first (kn_batch k) = Some f" for f
    using that kb b c(1) by (auto simp: kbatch_ok_def batch_scope_def)
  from batch_push_ok[OF c(2), of "kn_batch k"] first obtain b' where
    b': "batch_push c (kn_batch k) = Inr b'" "cb_len b' = cb_len (kn_batch k) + 1"
      "cb_first b' = Some (case cb_first (kn_batch k) of None \<Rightarrow> c | Some f \<Rightarrow> f)" by auto
  define k1 where "k1 = k\<lparr>kn_progress := Some (cu_scope c), kn_batch := b'\<rparr>"
  have live: "kn_progress k = Some (cu_scope c) \<or> batch_is_empty (kn_batch k)"
    using first kb by (cases "cb_first (kn_batch k)") (auto simp: kbatch_ok_def batch_is_empty_def)
  then have run: "queue_completion c defer k = (if cb_len b' = COMPLETION_BATCH \<or> \<not> defer then flush_completions k1 else Inr k1)"
    using b b'(1) by (auto simp: queue_completion_def k1_def Let_def)
  have flushed: "flush_completions k1 = Inr (k1\<lparr>kn_calls := kn_calls k1 @ [PublishedBatch b'], kn_batch := batch_new\<rparr>)"
    using b'(2) by (simp add: flush_completions_def batch_is_empty_def k1_def batch_clear_new)
  have "kernel_inv S M (k1\<lparr>kn_calls := kn_calls k1 @ [PublishedBatch b'], kn_batch := batch_new\<rparr>)"
    using inv by (simp add: inv_defs k1_def kbatch_new)
  moreover have "kernel_inv S M k1" if "cb_len b' \<noteq> COMPLETION_BATCH"
  proof -
    have "kbatch_ok (kn_id k) (Some (cu_scope c)) b'"
      using that kb b' first c(1) by (auto simp: kbatch_ok_def split: option.splits)
    then show ?thesis using inv by (simp add: inv_defs k1_def)
  qed
  ultimately show ?thesis by (simp add: run flushed) (simp add: k1_def steady_def)
qed

text \<open>A result after which the batch may be flushed.\<close>

lemma flush_after_ok:
  assumes "ok_result (\<lambda>k'. kernel_inv S M k' \<and> kn_in_flight k' = f \<and> steady k k') r"
  shows "ok_result (\<lambda>k'. kernel_inv S M k' \<and> kn_in_flight k' = f \<and> steady k k')
    (bindp r (\<lambda>k. if c k then flush_completions k else Inr k))"
proof (rule ok_bind[OF assms])
  fix k1 assume k1: "kernel_inv S M k1 \<and> kn_in_flight k1 = f \<and> steady k k1"
  have "ok_result (\<lambda>k'. kernel_inv S M k' \<and> kn_in_flight k' = f \<and> steady k k') (flush_completions k1)"
    by (rule ok_mono[OF flush_completions_ok]) (use k1 in \<open>auto simp: quiet_def steady_def\<close>)
  with k1 show "ok_result (\<lambda>k'. kernel_inv S M k' \<and> kn_in_flight k' = f \<and> steady k k') (if c k1 then flush_completions k1 else Inr k1)"
    by simp
qed

lemma complete_task_ok:
  assumes inv: "kernel_inv S M k" and key: "kn_in_flight k = Some key" and t: "tasks_get (kn_tasks k) key = Some t"
    and b: "batch_scope (kn_batch k) = None \<or> batch_scope (kn_batch k) = Some (kt_scope t)"
  shows "ok_result (\<lambda>k'. kernel_inv S M k' \<and> kn_in_flight k' = None \<and> steady k k') (complete_task panicked defer k)"
proof -
  from remove_in_flight_ok[OF inv key t] obtain k1 M1 where k1: "remove_in_flight k = Inr k1" "kernel_inv S M1 k1"
    "M = add_mset (kt_id t) M1" "kn_in_flight k1 = None" "steady k k1"
    "kn_calls k1 = kn_calls k" "kn_batch k1 = kn_batch k" "kn_progress k1 = kn_progress k" by blast
  define k2 where "k2 = k1\<lparr>kn_stats := (if panicked then (kn_stats k1)\<lparr>rs_panicked := rs_panicked (kn_stats k1) + 1\<rparr>
      else (kn_stats k1)\<lparr>rs_completed := rs_completed (kn_stats k1) + 1\<rparr>)\<rparr>"
  define c where "c = \<lparr>cu_id = kt_id t, cu_scope = kt_scope t, cu_carrier = kn_id k1,
      cu_status = (if panicked then StatusPanicked else StatusCompleted)\<rparr>"
  have i2: "kernel_inv S M1 k2" and s2: "steady k k2" "kn_in_flight k2 = None" "kn_batch k2 = kn_batch k" "kn_id k2 = kn_id k1"
    using k1 by (auto simp: k2_def steady_def)
  have run: "complete_task panicked defer k =
      bindp (if rq_is_empty (kn_ready k2) then kernel_publish k2 else publish_transition k2) (\<lambda>k.
      bindp (queue_completion c defer (k\<lparr>kn_calls := kn_calls k @ [Prepared (kt_id t) None]\<rparr>)) (\<lambda>k.
        if rq_is_empty (kn_ready k) then flush_completions k else Inr k))"
    using key t k1(1) by (simp add: complete_task_def kernel_task_eq Let_def k2_def c_def)
  have pub: "ok_result (\<lambda>k'. kernel_inv S M1 k' \<and> quiet k2 k' \<and> kn_batch k' = kn_batch k2 \<and> kn_calls k' = kn_calls k2)
      (if rq_is_empty (kn_ready k2) then kernel_publish k2 else publish_transition k2)"
    using kernel_publish_ok[OF i2] publish_transition_ok[OF i2] by simp
  show ?thesis unfolding run
  proof (rule ok_bind[OF pub], rule flush_after_ok)
    fix k3 assume k3: "kernel_inv S M1 k3 \<and> quiet k2 k3 \<and> kn_batch k3 = kn_batch k2 \<and> kn_calls k3 = kn_calls k2"
    let ?k = "k3\<lparr>kn_calls := kn_calls k3 @ [Prepared (kt_id t) None]\<rparr>"
    have "ok_result (\<lambda>k'. kernel_inv S M k' \<and> kn_in_flight k' = kn_in_flight ?k \<and> steady ?k k') (queue_completion c defer ?k)"
    proof (rule queue_completion_ok)
      show "kernel_inv S M ?k" using kernel_inv_call(2)[of S M1 k3 "kt_id t"] k3 k1(3) by simp
      show "cu_carrier c = kn_id ?k" "is_terminal (cu_status c)" using k3 s2 by (simp_all add: c_def quiet_def)
      show "batch_scope (kn_batch ?k) = None \<or> batch_scope (kn_batch ?k) = Some (cu_scope c)"
        using b k3 s2 by (simp add: c_def)
    qed
    then show "ok_result (\<lambda>k'. kernel_inv S M k' \<and> kn_in_flight k' = None \<and> steady k k') (queue_completion c defer ?k)"
      by (rule ok_mono) (use k3 s2 in \<open>auto simp: steady_def quiet_def\<close>)
  qed
qed

section \<open>Wakes\<close>

lemma deferred_insert:
  assumes "deferred_ok pk ds" "parked_get pk key = Some p" "\<not> pt_deferred p" "wn_route n = key" "pt_token p = wn_token n"
    "parked_get pk' = (parked_get pk)(key \<mapsto> p\<lparr>pt_deferred := True\<rparr>)"
  shows "deferred_ok pk' (ds @ [n])"
  using assms by (auto simp: deferred_ok_def)

lemma deferred_other:
  assumes "deferred_ok pk ds" "\<And>p. parked_get pk key = Some p \<Longrightarrow> \<not> pt_deferred p" "\<And>p. x = Some p \<Longrightarrow> \<not> pt_deferred p"
    "parked_get pk' = (parked_get pk)(key := x)"
  shows "deferred_ok pk' ds"
  using assms by (force simp: deferred_ok_def)

lemma deferred_remove:
  assumes ok: "deferred_ok pk ds" and i: "i < length ds" and x: "\<And>p. x = Some p \<Longrightarrow> \<not> pt_deferred p"
    and upd: "parked_get pk' = (parked_get pk)(wn_route (ds ! i) := x)"
  shows "deferred_ok pk' (swap_remove i ds)"
proof -
  have m: "mset ds = add_mset (ds ! i) (mset (swap_remove i ds))" using mset_swap_remove[OF i] by simp
  have "mset (map wn_route ds) = mset (wn_route (ds ! i) # map wn_route (swap_remove i ds))" using m by simp
  with ok have d: "distinct (wn_route (ds ! i) # map wn_route (swap_remove i ds))"
    unfolding deferred_ok_def using mset_eq_imp_distinct_iff by blast
  have set: "set ds = insert (ds ! i) (set (swap_remove i ds))" using m by (metis set_mset_add_mset_insert set_mset_mset)
  show ?thesis unfolding deferred_ok_def
  proof (intro conjI ballI allI impI)
    show "distinct (map wn_route (swap_remove i ds))" using d by simp
    fix n assume n: "n \<in> set (swap_remove i ds)"
    with d have "wn_route n \<noteq> wn_route (ds ! i)" by (auto simp: image_iff)
    with ok n set show "\<exists>p. parked_get pk' (wn_route n) = Some p \<and> pt_deferred p \<and> pt_token p = wn_token n"
      by (simp add: deferred_ok_def upd)
  next
    fix key p assume "parked_get pk' key = Some p" "pt_deferred p"
    then have "key \<noteq> wn_route (ds ! i)" "parked_get pk key = Some p" using x by (auto simp: upd split: if_splits)
    with ok \<open>pt_deferred p\<close> have "key \<in> wn_route ` set ds" by (simp add: deferred_ok_def)
    with \<open>key \<noteq> wn_route (ds ! i)\<close> set show "key \<in> wn_route ` set (swap_remove i ds)" by auto
  qed
qed

lemma timers_remove:
  assumes "timers_ok pk tq" "parked_get pk key = Some p" "parked_get pk' = (parked_get pk)(key := None)" "tq_inv tq'"
    "\<And>t r. kv_get (active tq') t = Some r \<Longrightarrow> kv_get (active tq) t = Some r \<and> \<not> (t = pt_token p \<and> pt_has_deadline p)"
  shows "timers_ok pk' tq'"
  unfolding timers_ok_def
proof (intro conjI allI impI)
  fix t r assume "kv_get (active tq') t = Some r"
  from assms(5)[OF this] assms(1) obtain q where q: "parked_get pk (tr_task r) = Some q" "pt_token q = t" "pt_has_deadline q"
    and "\<not> (t = pt_token p \<and> pt_has_deadline p)" unfolding timers_ok_def by blast
  then have "tr_task r \<noteq> key" using assms(2) by auto
  with q show "\<exists>q. parked_get pk' (tr_task r) = Some q \<and> pt_token q = t \<and> pt_has_deadline q" by (simp add: assms(3))
qed (rule assms(4))

lemma tq_cancel_get:
  "kv_get (active (snd (tq_cancel token q))) t = (if t = token then None else kv_get (active q) t)"
  by (cases "kv_get (active q) token") (auto simp: tq_cancel_def)

lemma timers_mark:
  assumes "timers_ok pk tq" "parked_get pk key = Some p" "parked_get pk' = (parked_get pk)(key \<mapsto> p\<lparr>pt_deferred := b\<rparr>)"
  shows "timers_ok pk' tq"
  unfolding timers_ok_def
proof (intro conjI allI impI)
  show "tq_inv tq" using assms(1) by (simp add: timers_ok_def)
  fix t r assume "kv_get (active tq) t = Some r"
  with assms(1) obtain q where "parked_get pk (tr_task r) = Some q" "pt_token q = t" "pt_has_deadline q" unfolding timers_ok_def by blast
  with assms(2) show "\<exists>q. parked_get pk' (tr_task r) = Some q \<and> pt_token q = t \<and> pt_has_deadline q"
    by (cases "tr_task r = key") (auto simp: assms(3))
qed

text \<open>Removing a park takes its deferred wake with it.\<close>

lemma remove_parked_ok:
  assumes inv: "kernel_inv S M k" and p: "parked_get (kn_parked k) key = Some p"
  shows "\<exists>pk ds. remove_parked key k = Inr (p, k\<lparr>kn_parked := pk, kn_deferred := ds\<rparr>) \<and> parked_ok pk
    \<and> parked_get pk = (parked_get (kn_parked k))(key := None) \<and> deferred_ok pk ds"
proof -
  note d = kernel_inv_D[OF inv]
  from parked_remove_ok[OF d(10) p] obtain pk where pk: "parked_remove key (kn_parked k) = (Some p, pk)" "parked_ok pk"
    "parked_get pk = (parked_get (kn_parked k))(key := None)" by blast
  show ?thesis
  proof (cases "pt_deferred p")
    case False
    then have "deferred_ok pk (kn_deferred k)" using deferred_other[OF d(2) _ _ pk(3)] p by auto
    moreover have "remove_parked key k = Inr (p, k\<lparr>kn_parked := pk, kn_deferred := kn_deferred k\<rparr>)"
      using pk(1) False by (simp add: remove_parked_def Let_def)
    ultimately show ?thesis using pk(2,3) by blast
  next
    case True
    let ?P = "\<lambda>n. wn_route n = key \<and> wn_token n = pt_token p"
    have "\<exists>n \<in> set (kn_deferred k). ?P n" using d(2) p True unfolding deferred_ok_def by force
    then obtain i where i: "position ?P (kn_deferred k) = Some i"
      by (cases "position ?P (kn_deferred k)") (auto simp: position_None_iff)
    note pos = position_Some_D[OF i]
    have "deferred_ok pk (swap_remove i (kn_deferred k))"
      by (rule deferred_remove[OF d(2), of _ None]) (use pos pk(3) in auto)
    moreover have "remove_parked key k = Inr (p, k\<lparr>kn_parked := pk, kn_deferred := swap_remove i (kn_deferred k)\<rparr>)"
      using pk(1) True i by (simp add: remove_parked_def Let_def)
    ultimately show ?thesis using pk(2,3) by blast
  qed
qed

text \<open>What waking tasks leaves alone.\<close>

definition wake_frame :: "('e, 'r) kernel \<Rightarrow> ('e, 'r) kernel \<Rightarrow> bool" where
  "wake_frame k k' \<longleftrightarrow> kn_config k' = kn_config k \<and> kn_id k' = kn_id k \<and> kn_inbox k' = kn_inbox k \<and> kn_tasks k' = kn_tasks k
     \<and> kn_aborts k' = kn_aborts k \<and> kn_in_flight k' = kn_in_flight k \<and> kn_pending k' = kn_pending k \<and> kn_incoming k' = kn_incoming k
     \<and> kn_progress k' = kn_progress k \<and> kn_starts k' = kn_starts k \<and> kn_wakes k' = kn_wakes k \<and> kn_batch k' = kn_batch k
     \<and> kn_calls k' = kn_calls k"

lemma wake_frame_refl [simp]: "wake_frame k k"
  by (simp add: wake_frame_def)

lemma wake_frame_trans: "wake_frame k k' \<Longrightarrow> wake_frame k' k'' \<Longrightarrow> wake_frame k k''"
  by (simp add: wake_frame_def)

lemma count_stale_inv [simp]: "kernel_inv S M (count_stale k) = kernel_inv S M k" "wake_frame k (count_stale k)"
  "length (kn_deferred (count_stale k)) = length (kn_deferred k)"
  by (simp_all add: count_stale_def wake_frame_def)

lemma parked_self: "parked_ok pk \<Longrightarrow> parked_get pk key = Some p \<Longrightarrow> pt_task p = key"
  by (simp add: parked_ok_def)

lemma finish_wake_ok:
  assumes inv: "kernel_inv S M k" and p: "parked_get (kn_parked k) (wn_route n) = Some p" and tok: "pt_token p = wn_token n"
  shows "ok_result (\<lambda>k'. kernel_inv S M k' \<and> wake_frame k k' \<and> (\<not> pt_deferred p \<longrightarrow> length (kn_deferred k') = length (kn_deferred k)))
    (finish_wake n k)"
proof -
  note d = kernel_inv_D[OF inv]
  let ?key = "wn_route n"
  from remove_parked_ok[OF inv p] obtain pk ds where r: "remove_parked ?key k = Inr (p, k\<lparr>kn_parked := pk, kn_deferred := ds\<rparr>)"
    "parked_ok pk" "parked_get pk = (parked_get (kn_parked k))(?key := None)" "deferred_ok pk ds" by blast
  have len: "\<not> pt_deferred p \<longrightarrow> length ds = length (kn_deferred k)"
  proof
    assume "\<not> pt_deferred p"
    then have "remove_parked ?key k = Inr (p, k\<lparr>kn_parked := snd (parked_remove ?key (kn_parked k))\<rparr>)"
      using parked_remove_ok[OF d(10) p] by (auto simp: remove_parked_def Let_def)
    then have "k\<lparr>kn_parked := pk, kn_deferred := ds\<rparr> = k\<lparr>kn_parked := snd (parked_remove ?key (kn_parked k))\<rparr>" using r(1) by simp
    from arg_cong[OF this, of kn_deferred] show "length ds = length (kn_deferred k)" by simp
  qed
  have self: "pt_task p = ?key" using parked_self[OF d(10) p] .
  obtain t where t: "tasks_get (kn_tasks k) ?key = Some t" using places_live(3)[OF d(1)] p by fastforce
  define tq where "tq = (if pt_has_deadline p then snd (tq_cancel (wn_token n) (kn_timers k)) else kn_timers k)"
  have tinv: "tq_inv (kn_timers k)" using d(3) by (simp add: timers_ok_def)
  have tim: "timers_ok pk tq"
    by (rule timers_remove[OF d(3) p r(3)])
      (use tinv tok in \<open>auto simp: tq_def tq_cancel_inv tq_cancel_get split: if_splits\<close>)
  define k' where "k' = k\<lparr>kn_parked := pk, kn_deferred := ds, kn_timers := tq,
      kn_stats := count_cause (wn_cause n) ((kn_stats k)\<lparr>rs_wakes := rs_wakes (kn_stats k) + 1\<rparr>),
      kn_ready := rq_push_wake ?key (kn_ready k)\<rparr>"
  have run: "finish_wake n k = Inr k'"
    using r(1) t self by (simp add: finish_wake_def kernel_task_eq k'_def tq_def Let_def)
  have "places_ok (kn_tasks k) (rq_push_wake ?key (kn_ready k)) (kn_in_flight k) pk"
    using places_wake[OF d(1) r(2) p r(3)] by simp
  then have "kernel_inv S M k'" using inv tim r(4) by (simp add: inv_defs k'_def)
  then show ?thesis using len by (simp add: run) (simp add: k'_def wake_frame_def)
qed

lemma deferred_room:
  assumes inv: "kernel_inv S M k" and p: "parked_get (kn_parked k) key = Some p" "\<not> pt_deferred p"
  shows "length (kn_deferred k) < cf_max_vthreads (kn_config k)"
proof -
  note d = kernel_inv_D[OF inv]
  let ?D = "dom (parked_get (kn_parked k))"
  have fin: "finite ?D" "pk_len (kn_parked k) = card ?D" using parked_card[OF d(10)] by auto
  have sub: "wn_route ` set (kn_deferred k) \<subseteq> ?D - {key}" using d(2) p unfolding deferred_ok_def by force
  have "distinct (map wn_route (kn_deferred k))" using d(2) by (simp add: deferred_ok_def)
  then have "length (kn_deferred k) = card (wn_route ` set (kn_deferred k))"
    by (metis distinct_card length_map set_map)
  also have "\<dots> \<le> card (?D - {key})" using sub fin(1) by (intro card_mono) auto
  also have "\<dots> < card ?D" using fin(1) p(1) by (intro card_Diff1_less) auto
  also have "\<dots> \<le> tasks_len (kn_tasks k)" using places_total[OF d(1)] fin(2) by simp
  also have "\<dots> = size (live_ids (kn_tasks k))" using live_ids_size[OF d(9)] by simp
  also have "\<dots> \<le> cf_max_vthreads (kn_config k)" using d(7) by (simp add: limits_ok_def kernel_ids_def)
  finally show ?thesis .
qed

lemma defer_wake_ok:
  assumes inv: "kernel_inv S M k" and p: "parked_get (kn_parked k) (wn_route n) = Some p" and tok: "pt_token p = wn_token n"
  shows "ok_result (\<lambda>k'. kernel_inv S M k' \<and> wake_frame k k' \<and> length (kn_deferred k) \<le> length (kn_deferred k')) (defer_wake n p k)"
proof (cases "pt_deferred p")
  case True
  then show ?thesis using inv by (simp add: defer_wake_def)
next
  case False
  note d = kernel_inv_D[OF inv]
  from parked_get_mut_ok[OF d(10) p, of "\<lambda>p. p\<lparr>pt_deferred := True\<rparr>"] obtain pk where
    pk: "parked_get_mut (\<lambda>p. p\<lparr>pt_deferred := True\<rparr>) (wn_route n) (kn_parked k) = Some pk" "parked_ok pk"
      "parked_get pk = (parked_get (kn_parked k))(wn_route n \<mapsto> p\<lparr>pt_deferred := True\<rparr>)" by auto
  have "deferred_ok pk (kn_deferred k @ [n])" using deferred_insert[OF d(2) p False refl tok pk(3)] .
  moreover have "timers_ok pk (kn_timers k)" using timers_mark[OF d(3) p pk(3)] .
  moreover have "places_ok (kn_tasks k) (kn_ready k) (kn_in_flight k) pk" using places_mark[OF d(1) pk(2) p pk(3)] .
  ultimately have "kernel_inv S M (k\<lparr>kn_parked := pk, kn_deferred := kn_deferred k @ [n]\<rparr>)"
    using inv by (simp add: inv_defs)
  then show ?thesis
    using False pk(1) deferred_room[OF inv p False] by (simp add: defer_wake_def wake_frame_def not_le)
qed

lemma process_wake_ok:
  assumes inv: "kernel_inv S M k"
  shows "ok_result (\<lambda>k'. kernel_inv S M k' \<and> wake_frame k k'
      \<and> ((\<forall>p. parked_get (kn_parked k) (wn_route n) = Some p \<longrightarrow> \<not> pt_deferred p) \<longrightarrow> length (kn_deferred k) \<le> length (kn_deferred k')))
    (process_wake publication n k)"
proof (cases "parked_get (kn_parked k) (wn_route n)")
  case None
  then show ?thesis using inv by (simp add: process_wake_def)
next
  case (Some p)
  note d = kernel_inv_D[OF inv]
  obtain t where t: "tasks_get (kn_tasks k) (pt_task p) = Some t"
    using places_live(3)[OF d(1)] Some parked_self[OF d(10) Some] by fastforce
  show ?thesis
  proof (cases "kt_id t = wn_task n \<and> pt_token p = wn_token n")
    case False
    then show ?thesis using inv Some t by (auto simp: process_wake_def kernel_task_eq)
  next
    case True
    have "ok_result (\<lambda>k'. kernel_inv S M k' \<and> wake_frame k k' \<and> (\<not> pt_deferred p \<longrightarrow> length (kn_deferred k) \<le> length (kn_deferred k'))) (finish_wake n k)"
      using finish_wake_ok[OF inv Some] True by (auto elim: ok_mono)
    moreover have "ok_result (\<lambda>k'. kernel_inv S M k' \<and> wake_frame k k' \<and> (\<not> pt_deferred p \<longrightarrow> length (kn_deferred k) \<le> length (kn_deferred k'))) (defer_wake n p k)"
      using defer_wake_ok[OF inv Some] True by (auto elim: ok_mono)
    ultimately show ?thesis
      using inv Some t True by (cases "publication n") (simp_all add: process_wake_def kernel_task_eq)
  qed
qed

lemma process_wakes_ok:
  assumes "kernel_inv S M k"
  shows "ok_result (\<lambda>k'. kernel_inv S M k' \<and> wake_frame (k\<lparr>kn_wakes := []\<rparr>) k') (process_wakes publication arrivals k)"
proof -
  let ?k = "k\<lparr>kn_wakes := []\<rparr>"
  let ?I = "\<lambda>k'. kernel_inv S M k' \<and> wake_frame ?k k'"
  have fold: "ok_result ?I (foldp (process_wake publication) (kn_wakes k @ arrivals) ?k)"
  proof (rule ok_foldp)
    fix n s assume "?I s"
    then show "ok_result ?I (process_wake publication n s)"
      using process_wake_ok[of S M s n publication] by (auto elim!: ok_mono intro: wake_frame_trans)
  qed (use assms in simp)
  have pub: "ok_result ?I (publish_transition s)" if s: "?I s" for s
    by (rule ok_mono[OF publish_transition_ok]) (use s in \<open>auto simp: wake_frame_def quiet_def\<close>)
  show ?thesis unfolding process_wakes_def Let_def
    by (rule ok_bind[OF fold]) (use pub in auto)
qed

lemma ok_lift_error: "(\<And>x. r = Inr x \<Longrightarrow> Q x) \<Longrightarrow> ok_result Q (lift_error r)"
  by (cases r) simp_all

lemma length_swap_remove: "i < length xs \<Longrightarrow> Suc (length (swap_remove i xs)) = length xs"
  by (cases xs rule: rev_cases) (auto simp: swap_remove_def)

lemma process_deferred_step:
  assumes inv: "kernel_inv S M k" and i: "i < length (kn_deferred k)"
  shows "\<exists>p pk. parked_get (kn_parked k) (wn_route (kn_deferred k ! i)) = Some p \<and> pt_token p = wn_token (kn_deferred k ! i)
    \<and> parked_get_mut (\<lambda>p. p\<lparr>pt_deferred := False\<rparr>) (wn_route (kn_deferred k ! i)) (kn_parked k) = Some pk
    \<and> kernel_inv S M (k\<lparr>kn_deferred := swap_remove i (kn_deferred k), kn_parked := pk\<rparr>)
    \<and> (\<forall>p. parked_get pk (wn_route (kn_deferred k ! i)) = Some p \<longrightarrow> \<not> pt_deferred p)"
proof -
  note d = kernel_inv_D[OF inv]
  let ?n = "kn_deferred k ! i"
  obtain p where p: "parked_get (kn_parked k) (wn_route ?n) = Some p" "pt_token p = wn_token ?n"
    using d(2) i unfolding deferred_ok_def by (meson nth_mem)
  from parked_get_mut_ok[OF d(10) p(1), of "\<lambda>p. p\<lparr>pt_deferred := False\<rparr>"] obtain pk where
    pk: "parked_get_mut (\<lambda>p. p\<lparr>pt_deferred := False\<rparr>) (wn_route ?n) (kn_parked k) = Some pk" "parked_ok pk"
      "parked_get pk = (parked_get (kn_parked k))(wn_route ?n \<mapsto> p\<lparr>pt_deferred := False\<rparr>)" by auto
  have "deferred_ok pk (swap_remove i (kn_deferred k))" by (rule deferred_remove[OF d(2) i _ pk(3)]) auto
  moreover have "timers_ok pk (kn_timers k)" using timers_mark[OF d(3) p(1) pk(3)] .
  moreover have "places_ok (kn_tasks k) (kn_ready k) (kn_in_flight k) pk" using places_mark[OF d(1) pk(2) p(1) pk(3)] .
  ultimately have "kernel_inv S M (k\<lparr>kn_deferred := swap_remove i (kn_deferred k), kn_parked := pk\<rparr>)"
    using inv by (simp add: inv_defs)
  then show ?thesis using p pk by auto
qed

lemma process_deferred_ok:
  "kernel_inv S M k \<Longrightarrow> i \<le> length (kn_deferred k) \<Longrightarrow>
     ok_result (\<lambda>k'. kernel_inv S M k' \<and> wake_frame k k') (process_deferred i publication k)"
proof (induction i arbitrary: k)
  case 0
  then show ?case by simp
next
  case (Suc i)
  have i: "i < length (kn_deferred k)" using Suc.prems(2) by simp
  let ?n = "kn_deferred k ! i"
  from process_deferred_step[OF Suc.prems(1) i] obtain p pk where
    p: "parked_get (kn_parked k) (wn_route ?n) = Some p" "pt_token p = wn_token ?n"
      "parked_get_mut (\<lambda>p. p\<lparr>pt_deferred := False\<rparr>) (wn_route ?n) (kn_parked k) = Some pk"
    and inv: "kernel_inv S M (k\<lparr>kn_deferred := swap_remove i (kn_deferred k), kn_parked := pk\<rparr>)"
    and nd: "\<forall>p. parked_get pk (wn_route ?n) = Some p \<longrightarrow> \<not> pt_deferred p" by blast
  let ?k = "k\<lparr>kn_deferred := swap_remove i (kn_deferred k), kn_parked := pk\<rparr>"
  have run: "process_deferred (Suc i) publication k = bindp (process_wake publication ?n ?k) (process_deferred i publication)"
    using i p by (simp add: Let_def not_le)
  have len: "i \<le> length (kn_deferred ?k)" using length_swap_remove[OF i] i by simp
  have fr: "wake_frame k ?k" by (simp add: wake_frame_def)
  show ?case unfolding run
  proof (rule ok_bind[OF process_wake_ok[OF inv]])
    fix k1 assume k1: "kernel_inv S M k1 \<and> wake_frame ?k k1
      \<and> ((\<forall>p. parked_get (kn_parked ?k) (wn_route ?n) = Some p \<longrightarrow> \<not> pt_deferred p) \<longrightarrow> length (kn_deferred ?k) \<le> length (kn_deferred k1))"
    then have "i \<le> length (kn_deferred k1)" using nd len by simp
    with k1 Suc.IH[of k1] show "ok_result (\<lambda>k'. kernel_inv S M k' \<and> wake_frame k k') (process_deferred i publication k1)"
      using fr by (auto elim!: ok_mono intro: wake_frame_trans)
  qed
qed

lemma process_deferred_wakes_ok:
  "kernel_inv S M k \<Longrightarrow> ok_result (\<lambda>k'. kernel_inv S M k' \<and> wake_frame k k') (process_deferred_wakes publication k)"
  by (simp add: process_deferred_wakes_def process_deferred_ok)

section \<open>Timers\<close>

lemma expire_timers_ok:
  assumes inv: "kernel_inv S M k"
  shows "ok_result (\<lambda>k'. kernel_inv S M k' \<and> wake_frame k k') (expire_timers now timeout k)"
proof -
  note d = kernel_inv_D[OF inv]
  have tinv: "tq_inv (kn_timers k)" using d(3) by (simp add: timers_ok_def)
  from tq_pop_loop_spec[of "deadlines (kn_timers k)" "active (kn_timers k)" now "[]"] tinv obtain es tq where
    tq: "tq_pop_expired now (kn_timers k) = Inr (es, tq)" "tq_inv tq"
      "\<And>t. kv_get (active tq) t = (case kv_get (active (kn_timers k)) t of None \<Rightarrow> None | Some r \<Rightarrow> if now < Timer_Queue.tr_deadline r then Some r else None)"
    unfolding tq_inv_def tq_pop_expired_def by auto
  have sub: "kv_get (active tq) t = Some r \<Longrightarrow> kv_get (active (kn_timers k)) t = Some r" for t r
    by (auto simp: tq(3) split: option.splits if_splits)
  have "timers_ok (kn_parked k) tq" using d(3) tq(2) sub unfolding timers_ok_def by blast
  then have "kernel_inv S M (k\<lparr>kn_timers := tq\<rparr>)" using inv by (simp add: inv_defs)
  moreover have "ok_result (\<lambda>_. True) (foldp (select_expired timeout (kn_parked k)) es ())"
    by (rule ok_foldp) (auto simp: select_expired_def intro!: ok_lift_error split: option.splits)
  ultimately show ?thesis
    by (simp add: expire_timers_def tq(1)) (erule ok_bind, simp add: wake_frame_def)
qed

section \<open>Parking and yielding\<close>

lemma key_slot_live: "tasks_ok ks \<Longrightarrow> tasks_get ks key \<noteq> None \<Longrightarrow> unat (key_index key) < KEY_SLOTS"
  by (auto simp: tasks_ok_def tasks_get_def slab_get_def split: if_splits)

lemma tq_schedule_get:
  "tq_schedule task token d q = (b, q') \<Longrightarrow> b \<Longrightarrow> kv_get (active q') t = Some r \<Longrightarrow>
     if t = token then Timer_Queue.tr_task r = task else kv_get (active q) t = Some r"
  by (auto simp: tq_schedule_def split: if_splits)

lemma park_task_ok:
  assumes inv: "kernel_inv S M k" and key: "kn_in_flight k = Some key"
  shows "ok_result (\<lambda>k'. kernel_inv S M k' \<and> kn_in_flight k' = None \<and> kn_pending k' = kn_pending k \<and> kn_incoming k' = kn_incoming k) (park_task token deadline registration k)"
proof -
  note d = kernel_inv_D[OF inv]
  have free: "parked_get (kn_parked k) key = None" using places_exclusive(2)[OF d(1) key] .
  obtain t where t: "tasks_get (kn_tasks k) key = Some t" using places_live(2)[OF d(1) key] by blast
  have slot: "unat (key_index key) < KEY_SLOTS" using key_slot_live[OF d(9)] t by simp
  define sched where "sched = (case deadline of None \<Rightarrow> (True, kn_timers k) | Some dl \<Rightarrow> tq_schedule key token dl (kn_timers k))"
  show ?thesis
  proof (cases "registration")
    case (Inl e)
    then show ?thesis using key free t by (simp add: park_task_def kernel_task_eq lift_error_def ok_result_def)
  next
    case (Inr r)
    let ?p = "\<lparr>pt_token = token, pt_task = key, pt_has_deadline = (deadline \<noteq> None), pt_deferred = False, pt_registration = r\<rparr>"
    from parked_insert_ok[OF d(10), of ?p] slot free obtain pk where
      pk: "parked_insert ?p (kn_parked k) = (True, pk)" "parked_ok pk" "parked_get pk = (parked_get (kn_parked k))(key \<mapsto> ?p)" by auto
    obtain b tq where s: "sched = (b, tq)" by fastforce
    let ?k = "k\<lparr>kn_timers := tq, kn_in_flight := None, kn_parked := pk, kn_stats := (kn_stats k)\<lparr>rs_parks := rs_parks (kn_stats k) + 1\<rparr>\<rparr>"
    have run: "park_task token deadline registration k = (if \<not> b then kernel_fault ''wait timer scheduled twice'' else Inr ?k)"
      using key free t pk(1) s by (simp add: park_task_def kernel_task_eq Inr sched_def)
    have "kernel_inv S M ?k" if b
    proof -
      have "places_ok (kn_tasks k) (kn_ready k) None pk" using places_park[OF _ pk(2,3)] d(1) key by auto
      moreover have "deferred_ok pk (kn_deferred k)"
        using deferred_other[OF d(2) _ _ pk(3)] free by auto
      moreover have "timers_ok pk tq"
        unfolding timers_ok_def
      proof (intro conjI allI impI)
        have "tq_inv (kn_timers k)" using d(3) by (simp add: timers_ok_def)
        then show "tq_inv tq" using s tq_schedule_inv[of "kn_timers k" key token] by (cases deadline) (auto simp: sched_def, metis snd_conv)
        fix u r' assume u: "kv_get (active tq) u = Some r'"
        show "\<exists>q. parked_get pk (tr_task r') = Some q \<and> pt_token q = u \<and> pt_has_deadline q"
        proof (cases "deadline \<noteq> None \<and> u = token")
          case True
          then obtain dl where dl: "deadline = Some dl" by blast
          then have "Timer_Queue.tr_task r' = key"
            using True u s \<open>b\<close> tq_schedule_get[of key token dl "kn_timers k" b tq u r'] by (simp add: sched_def)
          then show ?thesis using True dl by (simp add: pk(3))
        next
          case False
          then have "kv_get (active (kn_timers k)) u = Some r'"
            using u s \<open>b\<close> tq_schedule_get[of key token _ "kn_timers k" b tq u r'] by (auto simp: sched_def split: option.splits)
          with d(3) obtain q where "parked_get (kn_parked k) (tr_task r') = Some q" "pt_token q = u" "pt_has_deadline q"
            unfolding timers_ok_def by blast
          then show ?thesis using free by (cases "tr_task r' = key") (auto simp: pk(3))
        qed
      qed
      ultimately show ?thesis using inv by (simp add: inv_defs)
    qed
    then show ?thesis by (simp add: run)
  qed
qed

lemma yield_task_ok:
  assumes inv: "kernel_inv S M k" and key: "kn_in_flight k = Some key"
  shows "ok_result (\<lambda>k'. kernel_inv S M k' \<and> kn_in_flight k' = None \<and> kn_pending k' = kn_pending k \<and> kn_incoming k' = kn_incoming k) (yield_task k)"
proof -
  have "places_ok (kn_tasks k) (rq_push_back key (kn_ready k)) None (kn_parked k)"
    using places_requeue[OF _ rq_mset_simps(2)] kernel_inv_D(1)[OF inv] key by auto
  then show ?thesis using inv key by (simp add: yield_task_def inv_defs)
qed

end
