(* ===== verification/Kernel.thy ===== *)
theory Kernel
  imports Kernel_Invariant
begin

text \<open>
  The kernel under every sequence of events: aborts, receptions and ticks keep the invariant, so
  that no internal assertion of the carrier fails; every task handed to a carrier is reported
  exactly once; an abort leaves nothing of its scope and touches nothing else.
\<close>

section \<open>Aborting packets\<close>

text \<open>What taking packets leaves alone.\<close>

definition packet_frame :: "('e, 'r) kernel \<Rightarrow> ('e, 'r) kernel \<Rightarrow> bool" where
  "packet_frame k k' \<longleftrightarrow> kn_config k' = kn_config k \<and> kn_tasks k' = kn_tasks k \<and> kn_ready k' = kn_ready k
     \<and> kn_parked k' = kn_parked k \<and> kn_in_flight k' = kn_in_flight k \<and> kn_aborts k' = kn_aborts k
     \<and> kn_starts k' = kn_starts k \<and> kn_pending k' = None"

lemma packet_frame_trans: "packet_frame k k' \<Longrightarrow> packet_frame k' k'' \<Longrightarrow> packet_frame k k''"
  by (simp add: packet_frame_def)

definition uncovered :: "(task_id \<Rightarrow> u64) \<Rightarrow> u64 option \<Rightarrow> 'e spawn_packet \<Rightarrow> bool" where
  "uncovered scope_of scope p \<longleftrightarrow> \<not> covers scope (scope_of (pk_task p))"

lemma discard_taken_ok:
  assumes "kernel_inv S M (k\<lparr>kn_pending := Some p\<rparr>)"
  shows "\<exists>k'. discard_pending reason (k\<lparr>kn_pending := Some p\<rparr>) = Inr k' \<and> kernel_inv S M k' \<and> packet_frame k k'
    \<and> kn_incoming k' = kn_incoming k \<and> kn_inbox k' = kn_inbox k"
  using discard_pending_ok[OF assms, of p reason] by (auto simp: packet_frame_def count_aborted_def)

lemma abort_incoming_ok:
  "kernel_inv S M k \<Longrightarrow> kn_pending k = None \<Longrightarrow> kn_incoming k = a @ b \<Longrightarrow>
     \<exists>k'. abort_incoming (length a) scope_of scope reason k = Inr k' \<and> kernel_inv S M k' \<and> packet_frame k k'
       \<and> kn_incoming k' = b @ filter (uncovered scope_of scope) a \<and> kn_inbox k' = kn_inbox k"
proof (induction a arbitrary: b k)
  case Nil
  then show ?case by (simp add: packet_frame_def)
next
  case (Cons p a)
  show ?case
  proof (cases "covers scope (scope_of (pk_task p))")
    case True
    have "kernel_inv S M (k\<lparr>kn_incoming := a @ b, kn_pending := Some p\<rparr>)"
      using Cons.prems by (simp add: inv_defs packets_ok_def)
    from discard_taken_ok[OF this, of reason] obtain k1 where k1:
      "discard_pending reason (k\<lparr>kn_incoming := a @ b, kn_pending := Some p\<rparr>) = Inr k1" "kernel_inv S M k1"
      "packet_frame (k\<lparr>kn_incoming := a @ b\<rparr>) k1" "kn_incoming k1 = a @ b" "kn_inbox k1 = kn_inbox k" by auto
    from Cons.IH[OF k1(2) _ k1(4)] k1(3) obtain k2 where
      "abort_incoming (length a) scope_of scope reason k1 = Inr k2" "kernel_inv S M k2" "packet_frame k1 k2"
      "kn_incoming k2 = b @ filter (uncovered scope_of scope) a" "kn_inbox k2 = kn_inbox k1" by (auto simp: packet_frame_def)
    moreover have "\<not> uncovered scope_of scope p" using True by (simp add: uncovered_def)
    ultimately show ?thesis using k1 Cons.prems(3) True by (auto simp: packet_frame_def)
  next
    case False
    have "kernel_inv S M (k\<lparr>kn_incoming := a @ b @ [p]\<rparr>)"
      using Cons.prems by (auto simp: inv_defs packets_ok_def)
    moreover have "uncovered scope_of scope p" using False by (simp add: uncovered_def)
    ultimately show ?thesis using Cons.IH[of "k\<lparr>kn_incoming := a @ b @ [p]\<rparr>" "b @ [p]"] Cons.prems False by (auto simp: packet_frame_def)
  qed
qed

lemma covers_eq: "(case scope of None \<Rightarrow> True | Some s \<Rightarrow> f = s) = covers scope f"
  by (auto simp: covers_def split: option.split)

lemma abort_inbox_ok:
  "kernel_inv S M k \<Longrightarrow> kn_pending k = None \<Longrightarrow> length (ib_starts (kn_inbox k)) < n \<Longrightarrow>
     \<exists>k'. abort_inbox n scope_of scope reason k = Inr k' \<and> kernel_inv S M k' \<and> packet_frame k k'
       \<and> kn_incoming k' = kn_incoming k \<and> list_all (uncovered scope_of scope) (ib_starts (kn_inbox k'))"
proof (induction n arbitrary: k)
  case 0
  then show ?case by simp
next
  case (Suc n)
  let ?i = "kn_inbox k"
  have ok: "inbox_ok ?i" using kernel_inv_D(6)[OF Suc.prems(1)] by (simp add: packets_ok_def)
  obtain r i where pop: "inbox_pop_scope scope_of scope ?i = (r, i)" by fastforce
  show ?case
  proof (cases r)
    case None
    then have "i = ?i" "list_all (uncovered scope_of scope) (ib_starts ?i)"
      using pop ok by (auto simp: inbox_pop_scope_def inbox_ok_def Let_def covers_eq position_None_iff uncovered_def list_all_iff
          split: if_splits option.splits)
    then show ?thesis using Suc.prems pop None by (auto simp: packet_frame_def)
  next
    case (Some p)
    then obtain j where j: "position (\<lambda>p. covers scope (scope_of (pk_task p))) (ib_starts ?i) = Some j" "p = ib_starts ?i ! j"
      "ib_starts i = remove_at j (ib_starts ?i)"
      using pop by (auto simp: inbox_pop_scope_def Let_def covers_eq split: if_splits option.splits)
    note pj = position_Some_D[OF j(1)]
    have m: "mset (ib_starts ?i) = add_mset p (mset (ib_starts i))" using mset_remove_at[of j "ib_starts ?i"] pj j by simp
    have len: "length (ib_starts ?i) = Suc (length (ib_starts i))" using arg_cong[OF m, of size] by simp
    have "inbox_ok i" using inbox_pop_ok[OF ok pop] .
    moreover have "set (ib_starts i) \<subseteq> set (ib_starts ?i)" using set_remove_at_subset[of j "ib_starts ?i"] j(3) by simp
    ultimately have "kernel_inv S M (k\<lparr>kn_inbox := i, kn_pending := Some p\<rparr>)"
      using Suc.prems(1,2) m len by (auto simp: inv_defs packets_ok_def)
    from discard_taken_ok[OF this, of reason] obtain k1 where k1:
      "discard_pending reason (k\<lparr>kn_inbox := i, kn_pending := Some p\<rparr>) = Inr k1" "kernel_inv S M k1"
      "packet_frame (k\<lparr>kn_inbox := i\<rparr>) k1" "kn_incoming k1 = kn_incoming k" "kn_inbox k1 = i" by auto
    have "length (ib_starts (kn_inbox k1)) < n" using k1(5) len Suc.prems(3) by simp
    from Suc.IH[OF k1(2) _ this] k1(3) obtain k2 where "abort_inbox n scope_of scope reason k1 = Inr k2" "kernel_inv S M k2"
      "packet_frame k1 k2" "kn_incoming k2 = kn_incoming k1" "list_all (uncovered scope_of scope) (ib_starts (kn_inbox k2))"
      by (auto simp: packet_frame_def)
    with k1 pop Some show ?thesis by (auto simp: packet_frame_def)
  qed
qed

lemma abort_packets_ok:
  assumes "kernel_inv S M k" "kn_pending k = None"
  shows "\<exists>k'. abort_packets scope_of scope reason k = Inr k' \<and> kernel_inv S M k' \<and> packet_frame k k'
    \<and> kn_incoming k' = filter (uncovered scope_of scope) (kn_incoming k) \<and> list_all (uncovered scope_of scope) (ib_starts (kn_inbox k'))"
proof -
  from abort_incoming_ok[OF assms, of "kn_incoming k" "[]" scope_of scope reason] obtain k1 where k1:
    "abort_incoming (length (kn_incoming k)) scope_of scope reason k = Inr k1" "kernel_inv S M k1" "packet_frame k k1"
    "kn_incoming k1 = filter (uncovered scope_of scope) (kn_incoming k)" by auto
  from abort_inbox_ok[OF k1(2), of "Suc (length (ib_starts (kn_inbox k1)))" scope_of scope reason] k1(3) obtain k2 where k2:
    "abort_inbox (Suc (length (ib_starts (kn_inbox k1)))) scope_of scope reason k1 = Inr k2" "kernel_inv S M k2" "packet_frame k1 k2"
    "kn_incoming k2 = kn_incoming k1" "list_all (uncovered scope_of scope) (ib_starts (kn_inbox k2))" by (auto simp: packet_frame_def)
  have same: "k\<lparr>kn_pending := None\<rparr> = k" "k2\<lparr>kn_pending := None\<rparr> = k2"
    using assms(2) k2(3) by (simp_all add: packet_frame_def)
  have "abort_packets scope_of scope reason k = Inr k2"
    by (simp only: abort_packets_def Let_def assms(2) option.case if_False bindp_simps same k1(1) k2(1))
  with k1 k2 show ?thesis using packet_frame_trans by auto
qed

section \<open>Inserting starts\<close>

lemma limits_D:
  assumes "limits_ok S k"
  shows "size (kernel_ids k) \<le> cf_max_vthreads (kn_config k)" "cf_max_vthreads (kn_config k) < KEY_SLOTS" "finite S"
    "card S \<le> cf_max_owned_scopes (kn_config k)" "0 < cf_max_owned_scopes (kn_config k)"
  using assms by (auto simp: limits_ok_def)

lemma live_below:
  assumes "kernel_inv S M k" "size (kernel_ids k) < cf_max_vthreads (kn_config k)"
  shows "tasks_len (kn_tasks k) < KEY_SLOTS"
proof -
  have "tasks_len (kn_tasks k) = size (live_ids (kn_tasks k))" using live_ids_size[OF kernel_inv_D(9)[OF assms(1)]] by simp
  also have "\<dots> \<le> size (kernel_ids k)" by (simp add: kernel_ids_def)
  finally show ?thesis using assms(2) limits_D(2)[OF kernel_inv_D(7)[OF assms(1)]] by simp
qed

text \<open>What starting tasks leaves alone.\<close>

definition start_frame :: "('e, 'r) kernel \<Rightarrow> ('e, 'r) kernel \<Rightarrow> bool" where
  "start_frame k k' \<longleftrightarrow> kn_config k' = kn_config k \<and> kn_parked k' = kn_parked k \<and> kn_in_flight k' = kn_in_flight k
     \<and> kn_aborts k' = kn_aborts k \<and> kn_starts k' = kn_starts k \<and> kn_pending k' = kn_pending k \<and> kn_incoming k' = kn_incoming k
     \<and> kn_inbox k' = kn_inbox k \<and> kn_pressure k' = kn_pressure k \<and> kn_remote_pending k' = kn_remote_pending k
     \<and> tasks_get (kn_tasks k) \<subseteq>\<^sub>m tasks_get (kn_tasks k')"

lemma start_frame_trans: "start_frame k k' \<Longrightarrow> start_frame k' k'' \<Longrightarrow> start_frame k k''"
  by (auto simp: start_frame_def intro: map_le_trans)

lemma insert_start_ok:
  assumes inv: "kernel_inv S M k" and room: "size (kernel_ids k) < cf_max_vthreads (kn_config k)"
  shows "\<exists>k'. insert_start t k = Inr k' \<and> kernel_inv S (add_mset (kt_id t) M) k' \<and> start_frame k k'
    \<and> kernel_ids k' = add_mset (kt_id t) (kernel_ids k)"
proof -
  note d = kernel_inv_D[OF inv]
  from tasks_insert_borrowed_ok[OF d(9) live_below[OF inv room], of t] obtain key ks where
    ins: "tasks_insert_borrowed t (kn_tasks k) = Inr (key, ks)" "tasks_ok ks" "tasks_get (kn_tasks k) key = None"
      "tasks_get ks = (tasks_get (kn_tasks k))(key \<mapsto> t)" by blast
  let ?k = "k\<lparr>kn_tasks := ks, kn_ready := rq_push_back key (kn_ready k)\<rparr>"
  have "places_ok ks (rq_push_back key (kn_ready k)) (kn_in_flight k) (kn_parked k)"
    by (rule places_start[OF d(1) ins(2,3,4)]) simp
  moreover have ids: "live_ids ks = add_mset (kt_id t) (live_ids (kn_tasks k))"
    by (rule live_ids_insert[OF d(9) ins(3,4)])
  ultimately have "kernel_inv S (add_mset (kt_id t) M) ?k"
    using inv room by (auto simp: inv_defs)
  moreover have "tasks_get (kn_tasks k) \<subseteq>\<^sub>m tasks_get ks" using ins(3,4) by (auto simp: map_le_def)
  ultimately show ?thesis
    using ins(1) ids by (intro exI[of _ ?k]) (simp add: insert_start_def start_frame_def kernel_ids_def)
qed

lemma insert_starts_ok:
  "kernel_inv S M k \<Longrightarrow> size (kernel_ids k) + length ts \<le> cf_max_vthreads (kn_config k) \<Longrightarrow>
     \<exists>k'. foldp insert_start ts k = Inr k' \<and> kernel_inv S (M + mset (map kt_id ts)) k' \<and> start_frame k k'"
proof (induction ts arbitrary: M k)
  case Nil
  then show ?case by (simp add: start_frame_def)
next
  case (Cons t ts)
  from insert_start_ok[OF Cons.prems(1), of t] Cons.prems(2) obtain k1 where k1: "insert_start t k = Inr k1"
    "kernel_inv S (add_mset (kt_id t) M) k1" "start_frame k k1" "kernel_ids k1 = add_mset (kt_id t) (kernel_ids k)" by auto
  have "size (kernel_ids k1) + length ts \<le> cf_max_vthreads (kn_config k1)"
    using Cons.prems(2) k1(3,4) by (simp add: start_frame_def)
  from Cons.IH[OF k1(2) this] k1 show ?case using start_frame_trans by (auto simp: ac_simps)
qed

text \<open>Taking all starts: their identities move from the list to the slab.\<close>

lemma take_starts_ok:
  assumes inv: "kernel_inv S M k"
  shows "\<exists>k'. foldp insert_start (kn_starts k) (k\<lparr>kn_starts := []\<rparr>) = Inr k' \<and> kernel_inv S M k' \<and> start_frame (k\<lparr>kn_starts := []\<rparr>) k'"
proof -
  let ?k = "k\<lparr>kn_starts := []\<rparr>"
  have ids: "kernel_ids k = kernel_ids ?k + mset (map kt_id (kn_starts k))" by (simp add: kernel_ids_def ac_simps)
  have inv': "kernel_inv S (kernel_total ?k) ?k" using inv by (auto simp: inv_defs)
  have M: "M = kernel_total ?k + mset (map kt_id (kn_starts k))"
    using kernel_inv_D(8)[OF inv] ids by (simp add: kernel_total_def ac_simps)
  have "size (kernel_ids ?k) + length (kn_starts k) \<le> cf_max_vthreads (kn_config ?k)"
    using arg_cong[OF ids, of size] limits_D(1)[OF kernel_inv_D(7)[OF inv]] by simp
  from insert_starts_ok[OF inv' this] M show ?thesis by simp
qed

section \<open>Discarding tasks\<close>

text \<open>A choice that looks only at the task itself.\<close>

definition task_choice :: "(('e, 'r) kernel \<Rightarrow> task_key \<Rightarrow> bool) \<Rightarrow> bool" where
  "task_choice c \<longleftrightarrow> (\<forall>k k' key. tasks_get (kn_tasks k) key = tasks_get (kn_tasks k') key \<longrightarrow> c k key = c k' key)"

lemma task_choice_covered: "task_choice (task_covered scope)"
  by (simp add: task_choice_def task_covered_def)

lemma task_choice_const: "task_choice (\<lambda>_. f)"
  by (simp add: task_choice_def)

definition drop_frame :: "('e, 'r) kernel \<Rightarrow> ('e, 'r) kernel \<Rightarrow> bool" where
  "drop_frame k k' \<longleftrightarrow> kn_config k' = kn_config k \<and> kn_inbox k' = kn_inbox k \<and> kn_aborts k' = kn_aborts k
     \<and> kn_pending k' = kn_pending k \<and> kn_incoming k' = kn_incoming k \<and> kn_starts k' = kn_starts k
     \<and> kn_batch k' = kn_batch k \<and> kn_progress k' = kn_progress k"

lemma drop_frame_trans: "drop_frame k k' \<Longrightarrow> drop_frame k' k'' \<Longrightarrow> drop_frame k k''"
  by (simp add: drop_frame_def)

lemma drop_frame_refl [simp]: "drop_frame k k"
  by (simp add: drop_frame_def)

lemma discard_ready_ok:
  assumes "task_choice c"
  shows "kernel_inv S M k \<Longrightarrow> kn_in_flight k = None \<Longrightarrow> rq_len (kn_ready k) < n \<Longrightarrow> inspection_ok (c k) ins (kn_ready k) \<Longrightarrow>
    \<exists>k'. discard_ready n c reason ins k = Inr k' \<and> kernel_inv S M k' \<and> kn_in_flight k' = None \<and> drop_frame k k'
      \<and> kn_parked k' = kn_parked k \<and> rq_mset (kn_ready k') = filter_mset (\<lambda>key. \<not> c k key) (rq_mset (kn_ready k))
      \<and> tasks_get (kn_tasks k') = tasks_get (kn_tasks k) |` (- {key. key \<in># rq_mset (kn_ready k) \<and> c k key})"
proof (induction n arbitrary: k ins)
  case 0
  then show ?case by simp
next
  case (Suc n)
  note d = kernel_inv_D[OF Suc.prems(1)]
  from rq_remove_matching_step[OF Suc.prems(4)] obtain r ins' q where
    rm: "rq_remove_matching (c k) ins (kn_ready k) = Inr (r, ins', q)" "rq_mset (kn_ready k) = opt_mset r + rq_mset q"
      "inspection_ok (c k) ins' q" "case r of None \<Rightarrow> \<forall>x \<in># rq_mset q. \<not> c k x | Some x \<Rightarrow> c k x" by blast
  show ?case
  proof (cases r)
    case None
    then have q: "rq_mset q = rq_mset (kn_ready k)" "\<forall>x \<in># rq_mset (kn_ready k). \<not> c k x" using rm by auto
    have "places_ok (kn_tasks k) q (kn_in_flight k) (kn_parked k)"
      using d(1) q(1) by (simp add: places_ok_def placed_def)
    then have inv': "kernel_inv S M (k\<lparr>kn_ready := q\<rparr>)" using Suc.prems(1) by (simp add: inv_defs)
    have "filter_mset (\<lambda>key. \<not> c k key) (rq_mset q) = rq_mset q" using q by (simp add: filter_mset_eq_conv)
    moreover have "tasks_get (kn_tasks k) |` (- {key. key \<in># rq_mset (kn_ready k) \<and> c k key}) = tasks_get (kn_tasks k)"
      using q(2) by (auto simp: restrict_map_def fun_eq_iff)
    ultimately show ?thesis using rm(1) None Suc.prems(2) inv' q(1) by (simp add: drop_frame_def)
  next
    case (Some key)
    have m: "rq_mset (kn_ready k) = add_mset key (rq_mset q)" and ck: "c k key" using rm Some by auto
    let ?k = "k\<lparr>kn_ready := q, kn_in_flight := Some key\<rparr>"
    have "places_ok (kn_tasks k) q (Some key) (kn_parked k)" using places_dispatch[OF _ m] d(1) Suc.prems(2) by simp
    then have inv1: "kernel_inv S M ?k" using Suc.prems(1) by (simp add: inv_defs)
    have nq: "key \<notin># rq_mset q" using places_exclusive(1)[OF kernel_inv_D(1)[OF inv1]] by simp
    obtain t where t: "tasks_get (kn_tasks ?k) key = Some t" using places_live(2)[OF kernel_inv_D(1)[OF inv1]] by fastforce
    from discard_in_flight_ok[OF inv1 _ t, of reason] obtain k1 where k1: "discard_in_flight reason ?k = Inr k1" "kernel_inv S M k1"
      "kn_in_flight k1 = None" "tasks_get (kn_tasks k1) = (tasks_get (kn_tasks k))(key := None)" "steady ?k k1"
      "kn_batch k1 = kn_batch k" "kn_progress k1 = kn_progress k" by auto
    have q1: "kn_ready k1 = q" "kn_parked k1 = kn_parked k" using k1(5) by (auto simp: steady_def)
    have same: "c k1 x = c k x" if "x \<in># rq_mset q" for x
      using assms nq that k1(4) unfolding task_choice_def by (metis fun_upd_apply)
    have "rq_len (kn_ready k1) < n" using Suc.prems(3) m q1 by (simp add: rq_len_size)
    moreover have "inspection_ok (c k1) ins' (kn_ready k1)" using rm(3) q1 inspection_ok_cong[of q "c k1" "c k" ins'] same by simp
    ultimately obtain k2 where k2: "discard_ready n c reason ins' k1 = Inr k2" "kernel_inv S M k2" "kn_in_flight k2 = None" "drop_frame k1 k2"
      "kn_parked k2 = kn_parked k1" "rq_mset (kn_ready k2) = filter_mset (\<lambda>key. \<not> c k1 key) (rq_mset (kn_ready k1))"
      "tasks_get (kn_tasks k2) = tasks_get (kn_tasks k1) |` (- {key. key \<in># rq_mset (kn_ready k1) \<and> c k1 key})"
      using Suc.IH[OF k1(2,3)] by blast
    have "filter_mset (\<lambda>key. \<not> c k1 key) (rq_mset q) = filter_mset (\<lambda>key. \<not> c k key) (rq_mset q)"
      using same by (intro filter_mset_cong) auto
    then have "rq_mset (kn_ready k2) = filter_mset (\<lambda>key. \<not> c k key) (rq_mset (kn_ready k))" using k2(6) q1 m ck by simp
    moreover have "tasks_get (kn_tasks k2) = tasks_get (kn_tasks k) |` (- {key. key \<in># rq_mset (kn_ready k) \<and> c k key})"
      using k2(7) k1(4) q1 m ck same by (auto simp: restrict_map_def fun_eq_iff)
    moreover have "drop_frame k k2" using k1(5,6,7) k2(4) by (auto simp: drop_frame_def steady_def)
    ultimately show ?thesis using rm(1) Some k1(1) k2 q1 by auto
  qed
qed

lemma discard_parked_ok:
  assumes inv: "kernel_inv S M k" and flight: "kn_in_flight k = None" and p: "parked_get (kn_parked k) key = Some p"
    and abandon: "abandon (pt_token p)"
  shows "\<exists>k'. discard_parked abandon message reason key k = Inr k' \<and> kernel_inv S M k' \<and> kn_in_flight k' = None
    \<and> kn_ready k' = kn_ready k \<and> drop_frame k k' \<and> parked_get (kn_parked k') = (parked_get (kn_parked k))(key := None)
    \<and> tasks_get (kn_tasks k') = (tasks_get (kn_tasks k))(key := None)"
proof -
  note d = kernel_inv_D[OF inv]
  from remove_parked_ok[OF inv p] obtain pk ds where r: "remove_parked key k = Inr (p, k\<lparr>kn_parked := pk, kn_deferred := ds\<rparr>)"
    "parked_ok pk" "parked_get pk = (parked_get (kn_parked k))(key := None)" "deferred_ok pk ds" by blast
  define tq where "tq = snd (tq_cancel (pt_token p) (kn_timers k))"
  have tinv: "tq_inv (kn_timers k)" using d(3) by (simp add: timers_ok_def)
  have tim: "timers_ok pk tq"
    by (rule timers_remove[OF d(3) p r(3)]) (use tinv in \<open>auto simp: tq_def tq_cancel_inv tq_cancel_get split: if_splits\<close>)
  have self: "pt_task p = key" using parked_self[OF d(10) p] .
  define k1 where "k1 = k\<lparr>kn_parked := pk, kn_deferred := ds, kn_wakes := filter (\<lambda>n. wn_token n \<noteq> pt_token p) (kn_wakes k),
     kn_timers := tq, kn_in_flight := Some key\<rparr>"
  have "places_ok (kn_tasks k) (kn_ready k) (Some key) pk" using places_unpark[OF _ r(2) p r(3)] d(1) flight by simp
  then have inv1: "kernel_inv S M k1" using inv tim r(4) by (simp add: inv_defs k1_def)
  obtain t where t: "tasks_get (kn_tasks k1) key = Some t" using places_live(2)[OF kernel_inv_D(1)[OF inv1]] by (auto simp: k1_def)
  have run: "discard_parked abandon message reason key k = discard_in_flight reason k1"
    using r(1) abandon self by (simp add: discard_parked_def unregister_wake_def k1_def tq_def Let_def)
  from discard_in_flight_ok[OF inv1 _ t, of reason] obtain k' where
    "discard_in_flight reason k1 = Inr k'" "kernel_inv S M k'" "kn_in_flight k' = None"
    "tasks_get (kn_tasks k') = (tasks_get (kn_tasks k1))(key := None)" "steady k1 k'" "kn_batch k' = kn_batch k1" "kn_progress k' = kn_progress k1"
    by (auto simp: k1_def)
  then show ?thesis using r(3) by (auto simp: run steady_def k1_def drop_frame_def)
qed

lemma restrict_upd_None: "m(x := None) |` (- A) = m |` (- insert x A)"
  by (auto simp: restrict_map_def fun_eq_iff)

lemma discard_parks_ok:
  "kernel_inv S M k \<Longrightarrow> kn_in_flight k = None \<Longrightarrow> distinct keys \<Longrightarrow>
    (\<And>key. key \<in> set keys \<Longrightarrow> \<exists>p. parked_get (kn_parked k) key = Some p \<and> abandon (pt_token p)) \<Longrightarrow>
    \<exists>k'. foldp (discard_parked abandon message reason) keys k = Inr k' \<and> kernel_inv S M k' \<and> kn_in_flight k' = None
      \<and> kn_ready k' = kn_ready k \<and> drop_frame k k' \<and> parked_get (kn_parked k') = parked_get (kn_parked k) |` (- set keys)
      \<and> tasks_get (kn_tasks k') = tasks_get (kn_tasks k) |` (- set keys)"
proof (induction keys arbitrary: k)
  case Nil
  then show ?case by (simp add: restrict_map_def)
next
  case (Cons key keys)
  from Cons.prems(4)[of key] obtain p where p: "parked_get (kn_parked k) key = Some p" "abandon (pt_token p)" by auto
  from discard_parked_ok[OF Cons.prems(1,2) p(1), of abandon message reason] p(2) obtain k1 where k1:
    "discard_parked abandon message reason key k = Inr k1" "kernel_inv S M k1" "kn_in_flight k1 = None" "kn_ready k1 = kn_ready k"
    "drop_frame k k1" "parked_get (kn_parked k1) = (parked_get (kn_parked k))(key := None)"
    "tasks_get (kn_tasks k1) = (tasks_get (kn_tasks k))(key := None)" by blast
  have "\<exists>p. parked_get (kn_parked k1) j = Some p \<and> abandon (pt_token p)" if "j \<in> set keys" for j
    using that Cons.prems(3) Cons.prems(4)[of j] k1(6) by auto
  from Cons.IH[OF k1(2,3) _ this] Cons.prems(3) obtain k2 where k2:
    "foldp (discard_parked abandon message reason) keys k1 = Inr k2" "kernel_inv S M k2" "kn_in_flight k2 = None" "kn_ready k2 = kn_ready k1"
    "drop_frame k1 k2" "parked_get (kn_parked k2) = parked_get (kn_parked k1) |` (- set keys)"
    "tasks_get (kn_tasks k2) = tasks_get (kn_tasks k1) |` (- set keys)" by auto
  have "foldp (discard_parked abandon message reason) (key # keys) k = Inr k2" using k1(1) k2(1) by simp
  moreover have "kn_ready k2 = kn_ready k" "drop_frame k k2" using k1(4,5) k2(4,5) drop_frame_trans by auto
  moreover have "parked_get (kn_parked k2) = parked_get (kn_parked k) |` (- set (key # keys))"
    "tasks_get (kn_tasks k2) = tasks_get (kn_tasks k) |` (- set (key # keys))"
    unfolding k2(6,7) k1(6,7) restrict_upd_None by simp_all
  ultimately show ?case using k2(2,3) by blast
qed

lemma discard_all_parked_ok:
  assumes inv: "kernel_inv S M k" and flight: "kn_in_flight k = None"
    and abandon: "\<And>key p. parked_get (kn_parked k) key = Some p \<Longrightarrow> chosen key \<Longrightarrow> abandon (pt_token p)"
  shows "\<exists>k'. discard_all_parked abandon message reason chosen k = Inr k' \<and> kernel_inv S M k' \<and> kn_in_flight k' = None
      \<and> kn_ready k' = kn_ready k \<and> drop_frame k k'
      \<and> tasks_get (kn_tasks k') = tasks_get (kn_tasks k) |` (- {key. parked_get (kn_parked k) key \<noteq> None \<and> chosen key})"
proof -
  let ?keys = "filter chosen (map pt_task (parked_iter (kn_parked k)))"
  note it = parked_iter_keys[OF kernel_inv_D(10)[OF inv]]
  have set: "set ?keys = {key. parked_get (kn_parked k) key \<noteq> None \<and> chosen key}"
    using it(1) by (auto simp: domIff)
  have "\<exists>p. parked_get (kn_parked k) key = Some p \<and> abandon (pt_token p)" if "key \<in> set (filter chosen (map pt_task (parked_iter (kn_parked k))))" for key
    using that abandon[of key] unfolding set by auto
  from discard_parks_ok[where keys = "filter chosen (map pt_task (parked_iter (kn_parked k)))" and abandon = abandon
      and message = message and reason = reason, OF inv flight distinct_filter[OF it(2)] this]
  show ?thesis unfolding discard_all_parked_def set by blast
qed

section \<open>Aborts\<close>

text \<open>What is left of the tasks when everything covered is gone.\<close>

definition spared :: "u64 option \<Rightarrow> (task_key \<rightharpoonup> ktask) \<Rightarrow> task_key \<rightharpoonup> ktask" where
  "spared scope m key = (case m key of None \<Rightarrow> None | Some t \<Rightarrow> if covers scope (kt_scope t) then None else Some t)"

lemma task_covered_frame: "task_covered scope (k\<lparr>kn_aborts := as\<rparr>) = task_covered scope k"
  by (simp add: task_covered_def fun_eq_iff)

lemma task_covered_alt: "task_covered scope k key \<longleftrightarrow> (\<exists>t. tasks_get (kn_tasks k) key = Some t \<and> covers scope (kt_scope t))"
  by (auto simp: task_covered_def split: option.splits)

lemma flight_covered_ok:
  assumes inv: "kernel_inv S M k"
  shows "\<exists>k'. (if case kn_in_flight k of None \<Rightarrow> False | Some key \<Rightarrow> task_covered scope k key then discard_in_flight reason k else Inr k) = Inr k'
    \<and> kernel_inv S M k' \<and> drop_frame k k' \<and> kn_ready k' = kn_ready k \<and> kn_parked k' = kn_parked k
    \<and> kn_in_flight k' = (case kn_in_flight k of None \<Rightarrow> None | Some key \<Rightarrow> if task_covered scope k key then None else Some key)
    \<and> tasks_get (kn_tasks k') = tasks_get (kn_tasks k) |` (- {key. kn_in_flight k = Some key \<and> task_covered scope k key})"
proof (cases "\<exists>key. kn_in_flight k = Some key \<and> task_covered scope k key")
  case True
  then obtain key t where key: "kn_in_flight k = Some key" "task_covered scope k key" "tasks_get (kn_tasks k) key = Some t"
    by (auto simp: task_covered_alt)
  from discard_in_flight_ok[OF inv key(1,3), of reason] obtain k' where
    "discard_in_flight reason k = Inr k'" "kernel_inv S M k'" "kn_in_flight k' = None"
    "tasks_get (kn_tasks k') = (tasks_get (kn_tasks k))(key := None)" "steady k k'" "kn_batch k' = kn_batch k" "kn_progress k' = kn_progress k"
    by blast
  moreover have "m |` (- {j. Some key = Some j \<and> task_covered scope k j}) = m(key := None)" for m :: "task_key \<rightharpoonup> ktask"
    using key(2) by (auto simp: restrict_map_def fun_eq_iff)
  ultimately show ?thesis using key by (auto simp: steady_def drop_frame_def)
next
  case False
  then have "{key. kn_in_flight k = Some key \<and> task_covered scope k key} = {}" by blast
  then show ?thesis using False inv by (simp only:) (auto simp: restrict_map_def split: option.splits)
qed

lemma abort_reclaim_ok:
  assumes inv: "kernel_inv S M k" and prep: "prepare_abort abandon scope k"
  shows "\<exists>k'. abort_reclaim abandon scope reason k = Inr k' \<and> kernel_inv S M k' \<and> drop_frame k k'
    \<and> tasks_get (kn_tasks k') = spared scope (tasks_get (kn_tasks k))
    \<and> kn_in_flight k' = (case kn_in_flight k of None \<Rightarrow> None | Some key \<Rightarrow> if task_covered scope k key then None else Some key)"
proof -
  from flight_covered_ok[OF inv, of scope reason] obtain k1 where k1:
    "(if case kn_in_flight k of None \<Rightarrow> False | Some key \<Rightarrow> task_covered scope k key then discard_in_flight reason k else Inr k) = Inr k1"
    "kernel_inv S M k1" "drop_frame k k1" "kn_ready k1 = kn_ready k" "kn_parked k1 = kn_parked k"
    "kn_in_flight k1 = (case kn_in_flight k of None \<Rightarrow> None | Some key \<Rightarrow> if task_covered scope k key then None else Some key)"
    "tasks_get (kn_tasks k1) = tasks_get (kn_tasks k) |` (- {key. kn_in_flight k = Some key \<and> task_covered scope k key})" by blast
  note d1 = kernel_inv_D[OF k1(2)]
  define k2 where "k2 = (case kn_in_flight k1 of None \<Rightarrow> k1 | Some key \<Rightarrow> k1\<lparr>kn_in_flight := None, kn_ready := rq_push_front key (kn_ready k1)\<rparr>)"
  have t2: "kn_tasks k2 = kn_tasks k1" "kn_parked k2 = kn_parked k1" "kn_in_flight k2 = None" "drop_frame k1 k2"
    "rq_mset (kn_ready k2) = rq_mset (kn_ready k1) + opt_mset (kn_in_flight k1)"
    by (auto simp: k2_def drop_frame_def split: option.split)
  have inv2: "kernel_inv S M k2"
  proof (cases "kn_in_flight k1")
    case None
    then show ?thesis using k1(2) by (simp add: k2_def)
  next
    case (Some key)
    then have "places_ok (kn_tasks k1) (rq_push_front key (kn_ready k1)) None (kn_parked k1)"
      using places_requeue[OF _ rq_mset_simps(3)] d1(1) by auto
    then show ?thesis using k1(2) Some by (simp add: k2_def inv_defs)
  qed
  from discard_ready_ok[OF task_choice_covered inv2 t2(3) lessI inspection_ok_start, of scope reason] obtain k3 where k3:
    "discard_ready (Suc (rq_len (kn_ready k2))) (task_covered scope) reason (rq_inspection (kn_ready k2)) k2 = Inr k3"
    "kernel_inv S M k3" "kn_in_flight k3 = None" "drop_frame k2 k3" "kn_parked k3 = kn_parked k2"
    "rq_mset (kn_ready k3) = filter_mset (\<lambda>key. \<not> task_covered scope k2 key) (rq_mset (kn_ready k2))"
    "tasks_get (kn_tasks k3) = tasks_get (kn_tasks k2) |` (- {key. key \<in># rq_mset (kn_ready k2) \<and> task_covered scope k2 key})" by blast
  have sub3: "tasks_get (kn_tasks k3) key = Some t \<Longrightarrow> tasks_get (kn_tasks k) key = Some t" for key t
    using k3(7) t2(1) k1(7) by (auto simp: restrict_map_def split: if_splits)
  have ab: "abandon (pt_token p)" if "parked_get (kn_parked k3) key = Some p" "task_covered scope k3 key" for key p
  proof -
    have p: "parked_get (kn_parked k) key = Some p" using that(1) k3(5) t2(2) k1(5) by simp
    then have "p \<in> set (parked_iter (kn_parked k))" "pt_task p = key"
      using parked_iter_mem[OF kernel_inv_D(10)[OF inv]] parked_self[OF kernel_inv_D(10)[OF inv] p] by auto
    moreover have "task_covered scope k key" using that(2) sub3 by (auto simp: task_covered_alt)
    ultimately show ?thesis using prep by (auto simp: prepare_abort_def list_all_iff)
  qed
  from discard_all_parked_ok[OF k3(2,3), of "task_covered scope k3" abandon "''preflight retained a publisher''" reason] ab obtain k4 where k4:
    "discard_all_parked abandon ''preflight retained a publisher'' reason (task_covered scope k3) k3 = Inr k4"
    "kernel_inv S M k4" "kn_in_flight k4 = None" "kn_ready k4 = kn_ready k3" "drop_frame k3 k4"
    "tasks_get (kn_tasks k4) = tasks_get (kn_tasks k3) |` (- {key. parked_get (kn_parked k3) key \<noteq> None \<and> task_covered scope k3 key})" by blast
  have tasks4: "tasks_get (kn_tasks k4) = spared scope (tasks_get (kn_tasks k))"
  proof
    fix key
    show "tasks_get (kn_tasks k4) key = spared scope (tasks_get (kn_tasks k)) key"
    proof (cases "tasks_get (kn_tasks k) key")
      case None
      then show ?thesis using k4(6) k3(7) t2(1) k1(7) by (simp add: spared_def restrict_map_def)
    next
      case (Some t)
      show ?thesis
      proof (cases "covers scope (kt_scope t)")
        case False
        with Some have "\<not> task_covered scope k key" by (simp add: task_covered_alt)
        then have "tasks_get (kn_tasks k1) key = Some t" using Some k1(7) by (simp add: restrict_map_def)
        with False have "tasks_get (kn_tasks k3) key = Some t" using k3(7) t2(1) by (simp add: restrict_map_def task_covered_alt)
        with False Some show ?thesis using k4(6) by (simp add: restrict_map_def task_covered_alt spared_def)
      next
        case True
        have "tasks_get (kn_tasks k4) key = None"
        proof (rule ccontr)
          assume "tasks_get (kn_tasks k4) key \<noteq> None"
          then have l3: "tasks_get (kn_tasks k3) key = Some t" and np: "\<not> (parked_get (kn_parked k3) key \<noteq> None \<and> task_covered scope k3 key)"
            using k4(6) sub3[of key] Some by (auto simp: restrict_map_def split: if_splits)
          then have "parked_get (kn_parked k3) key = None" using True by (auto simp: task_covered_alt)
          then have "key \<in># rq_mset (kn_ready k3)"
            using places_at[OF kernel_inv_D(1)[OF k3(2)], of key] l3 k3(3) by (simp flip: count_greater_zero_iff split: if_splits)
          then have "\<not> task_covered scope k2 key" using k3(6) by simp
          moreover have "tasks_get (kn_tasks k2) key = Some t" using l3 k3(7) by (auto simp: restrict_map_def split: if_splits)
          ultimately show False using True by (simp add: task_covered_alt)
        qed
        with Some True show ?thesis by (simp add: spared_def)
      qed
    qed
  qed
  define restored where "restored = (case kn_in_flight k1 of None \<Rightarrow> Inr k4
      | Some key \<Rightarrow> (case rq_remove key (kn_ready k4) of (removed, q) \<Rightarrow>
           if removed then Inr (k4\<lparr>kn_ready := q, kn_in_flight := Some key\<rparr>) else kernel_panic ''retained in-flight task moved''))"
  have "\<exists>k5. restored = Inr k5 \<and> kernel_inv S M k5 \<and> kn_tasks k5 = kn_tasks k4 \<and> drop_frame k4 k5 \<and> kn_in_flight k5 = kn_in_flight k1"
  proof (cases "kn_in_flight k1")
    case None
    then show ?thesis using k4(2,3) by (simp add: restored_def)
  next
    case (Some key)
    have "\<not> task_covered scope k key" using Some k1(6) by (auto split: option.splits if_splits)
    moreover have "tasks_get (kn_tasks k1) key \<noteq> None" using places_live(2)[OF d1(1) Some] .
    ultimately have "\<not> task_covered scope k2 key" using t2(1) k1(7) by (auto simp: task_covered_alt restrict_map_def split: if_splits)
    then have "key \<in># rq_mset (kn_ready k4)" using k4(4) k3(6) t2(5) Some by simp
    from rq_remove_mset[OF this] obtain q where q: "rq_remove key (kn_ready k4) = (True, q)" "add_mset key (rq_mset q) = rq_mset (kn_ready k4)" by blast
    have "places_ok (kn_tasks k4) q (Some key) (kn_parked k4)"
      using places_dispatch[OF _ q(2)[symmetric]] kernel_inv_D(1)[OF k4(2)] k4(3) by simp
    then have "kernel_inv S M (k4\<lparr>kn_ready := q, kn_in_flight := Some key\<rparr>)" using k4(2) by (simp add: inv_defs)
    then show ?thesis using Some q(1) by (simp add: restored_def drop_frame_def)
  qed
  then obtain k5 where k5: "restored = Inr k5" "kernel_inv S M k5" "kn_tasks k5 = kn_tasks k4" "drop_frame k4 k5" "kn_in_flight k5 = kn_in_flight k1" by blast
  have inv6: "kernel_inv S M (refresh_borrowed k5)" using k5(2) by (simp add: refresh_borrowed_def)
  have "abort_reclaim abandon scope reason k = kernel_publish (refresh_borrowed k5)"
    unfolding abort_reclaim_def Let_def k1(1) bindp_simps k2_def[symmetric] k3(1) k4(1) restored_def[symmetric] k5(1) ..
  then have "abort_reclaim abandon scope reason k = Inr (refresh_borrowed k5\<lparr>kn_unpublished := 0\<rparr>)"
    using kernel_publish_eq[OF kernel_inv_D(1)[OF inv6]] by simp
  moreover have "kernel_inv S M (refresh_borrowed k5\<lparr>kn_unpublished := 0\<rparr>)"
    using kernel_inv_unpublished[OF inv6, of 0] by (simp add: PROGRESS_PUBLICATION_BATCH_def)
  moreover have "drop_frame k (refresh_borrowed k5\<lparr>kn_unpublished := 0\<rparr>)"
    using k1(3) t2(4) k3(4) k4(5) k5(4) by (simp add: drop_frame_def refresh_borrowed_def)
  ultimately show ?thesis using tasks4 k5(3,5) k1(6) by (simp add: refresh_borrowed_def)
qed

text \<open>The table of deferred aborts after another one is deferred.\<close>

definition deferred_aborts :: "u64 option \<Rightarrow> task_failure \<Rightarrow> (u64 option \<times> task_failure) list \<Rightarrow> (u64 option \<times> task_failure) list" where
  "deferred_aborts scope reason as =
     (if scope \<noteq> None \<and> None \<in> fst ` set as then as
      else let as = (if scope = None then [] else as) in
        if scope \<in> fst ` set as then replace_reason scope reason as else as @ [(scope, reason)])"

lemma replace_reason_keys [simp]: "map fst (replace_reason scope reason as) = map fst as"
  by (induction scope reason as rule: replace_reason.induct) auto

lemma replace_reason_length [simp]: "length (replace_reason scope reason as) = length as"
  by (metis length_map replace_reason_keys)

lemma replace_reason_set [simp]: "fst ` set (replace_reason scope reason as) = fst ` set as"
  by (metis replace_reason_keys set_map)

lemma deferred_aborts_ok:
  "aborts_ok S as \<Longrightarrow> scope \<in> insert None (Some ` S) \<Longrightarrow> aborts_ok S (deferred_aborts scope reason as)"
  by (cases scope) (auto simp: aborts_ok_def deferred_aborts_def Let_def)

lemma deferred_aborts_length:
  "aborts_ok S as \<Longrightarrow> scope \<notin> fst ` set as \<Longrightarrow> None \<notin> fst ` set as \<Longrightarrow> length as = 0 \<or> scope \<noteq> None \<Longrightarrow>
     length (deferred_aborts scope reason as) = Suc (length as)"
  by (cases scope) (auto simp: deferred_aborts_def Let_def)

lemma aborts_filter: "aborts_ok S as \<Longrightarrow> aborts_ok S (filter P as)"
  by (cases as rule: list.exhaust)
    (auto simp: aborts_ok_def distinct_map_filter dest!: filter_is_subset[THEN subsetD] split: if_splits)

lemma subset_without: "A \<subseteq> insert y B \<Longrightarrow> x \<notin> A \<Longrightarrow> y \<notin> A \<Longrightarrow> A \<subseteq> B - {x}"
  by auto

text \<open>The table never outgrows the scopes that the control owns.\<close>

lemma abort_room:
  assumes ok: "aborts_ok S as" and S: "finite S" "card S \<le> n" "0 < n" and scope: "scope \<in> insert None (Some ` S)"
    and fresh: "scope \<notin> fst ` set as'" "None \<notin> fst ` set as'" and as': "as' = (if scope = None then [] else as)"
  shows "length as' < n"
proof (cases scope)
  case None
  then show ?thesis using as' S(3) by simp
next
  case (Some s)
  then have as: "as' = as" using as' by simp
  have "fst ` set as \<subseteq> insert None (Some ` S)" using ok by (simp add: aborts_ok_def)
  moreover have "scope \<notin> fst ` set as" "None \<notin> fst ` set as" using fresh as by simp_all
  ultimately have "fst ` set as \<subseteq> Some ` S - {scope}" by (rule subset_without)
  moreover have "card (Some ` S - {scope}) < card S"
  proof -
    have "card (Some ` S - {scope}) < card (Some ` S)"
      by (rule card_Diff1_less) (use S(1) scope Some in simp_all)
    also have "\<dots> = card S" by (simp add: card_image)
    finally show ?thesis .
  qed
  moreover have "length as = card (fst ` set as)"
    using ok unfolding aborts_ok_def by (metis distinct_card length_map set_map)
  moreover have "finite (Some ` S - {scope})" using S(1) by simp
  ultimately have "length as < card S" using card_mono[of "Some ` S - {scope}" "fst ` set as"] by linarith
  then show ?thesis using as S(2) by simp
qed

definition flight_after :: "u64 option \<Rightarrow> ('e, 'r) kernel \<Rightarrow> task_key option" where
  "flight_after scope k = (case kn_in_flight k of None \<Rightarrow> None | Some key \<Rightarrow> if task_covered scope k key then None else Some key)"

lemma defer_abort_ok:
  assumes inv: "kernel_inv S M k" and scope: "scope \<in> insert None (Some ` S)"
    and flight: "kn_in_flight k \<noteq> None \<Longrightarrow> None \<notin> fst ` set (kn_aborts k)"
  shows "\<exists>k'. defer_abort scope reason k = Inr k' \<and> kernel_inv S M k' \<and> kn_aborts k' = deferred_aborts scope reason (kn_aborts k)
    \<and> kn_in_flight k' = flight_after scope k \<and> kn_tasks k' = kn_tasks k \<and> kn_pending k' = kn_pending k
    \<and> kn_incoming k' = kn_incoming k \<and> kn_inbox k' = kn_inbox k \<and> kn_starts k' = kn_starts k"
proof -
  note d = kernel_inv_D[OF inv]
  let ?as = "deferred_aborts scope reason (kn_aborts k)"
  let ?k = "k\<lparr>kn_aborts := ?as\<rparr>"
  have inv1: "kernel_inv S M ?k" using inv deferred_aborts_ok[OF d(5) scope] by (simp add: inv_defs)
  have inv2: "kernel_inv S M (requeue_in_flight scope ?k)"
  proof (cases "\<exists>key. kn_in_flight k = Some key \<and> task_covered scope ?k key")
    case True
    then obtain key where key: "kn_in_flight k = Some key" "task_covered scope ?k key" by blast
    then have "places_ok (kn_tasks k) (rq_push_front key (kn_ready k)) None (kn_parked k)"
      using places_requeue[OF _ rq_mset_simps(3)] d(1) by auto
    then show ?thesis using inv1 key by (simp add: requeue_in_flight_def inv_defs)
  qed (use inv1 in \<open>auto simp: requeue_in_flight_def split: option.splits\<close>)
  have req: "kn_in_flight (requeue_in_flight scope ?k) = flight_after scope k" "kn_tasks (requeue_in_flight scope ?k) = kn_tasks k"
    "kn_aborts (requeue_in_flight scope ?k) = ?as" "kn_pending (requeue_in_flight scope ?k) = kn_pending k"
    "kn_incoming (requeue_in_flight scope ?k) = kn_incoming k" "kn_inbox (requeue_in_flight scope ?k) = kn_inbox k"
    "kn_starts (requeue_in_flight scope ?k) = kn_starts k"
    by (auto simp: requeue_in_flight_def flight_after_def task_covered_def split: option.splits)
  show ?thesis
  proof (cases "scope \<noteq> None \<and> None \<in> fst ` set (kn_aborts k)")
    case True
    then have "defer_abort scope reason k = Inr ?k" by (cases scope) (auto simp: defer_abort_def deferred_aborts_def)
    moreover have "kn_in_flight k = None" using True flight by blast
    ultimately show ?thesis using inv1 by (auto simp: flight_after_def)
  next
    case False
    let ?as' = "if scope = None then [] else kn_aborts k"
    have none: "None \<notin> fst ` set ?as'" using False by auto
    have room: "length ?as' < cf_max_owned_scopes (kn_config k)" if "scope \<notin> fst ` set ?as'"
      using abort_room[OF d(5) _ _ _ scope that none refl] limits_D[OF d(7)] by simp
    have "defer_abort scope reason k = Inr (requeue_in_flight scope ?k)"
      using False room by (auto simp: defer_abort_def deferred_aborts_def Let_def not_le)
    with inv2 req show ?thesis by auto
  qed
qed

lemma kernel_abort_ok:
  assumes inv: "kernel_inv S M k" and pending: "kn_pending k = None" and scope: "scope \<in> insert None (Some ` S)"
    and flight: "kn_in_flight k \<noteq> None \<Longrightarrow> None \<notin> fst ` set (kn_aborts k)"
  shows "\<exists>b k' m. kernel_abort scope_of abandon scope reason k = Inr (b, k') \<and> kernel_inv S M k'
    \<and> kn_pending k' = None \<and> kn_starts k' = [] \<and> kn_in_flight k' = flight_after scope k
    \<and> kn_incoming k' = filter (uncovered scope_of scope) (kn_incoming k) \<and> list_all (uncovered scope_of scope) (ib_starts (kn_inbox k'))
    \<and> tasks_get (kn_tasks k) \<subseteq>\<^sub>m m \<and> tasks_get (kn_tasks k') = (if b then spared scope m else m)
    \<and> kn_aborts k' = (if b then filter (\<lambda>(s, _). scope \<noteq> None \<and> s \<noteq> scope) (kn_aborts k) else deferred_aborts scope reason (kn_aborts k))"
proof -
  obtain k0 where k0: "flush_completions k = Inr k0" "kernel_inv S M k0" "quiet k k0"
    using flush_completions_ok[OF inv] by (cases "flush_completions k") (auto simp: ok_result_def flush_completions_def kernel_panic_def split: if_splits)
  have p0: "kn_pending k0 = None" using k0(3) pending by (simp add: quiet_def)
  from abort_packets_ok[OF k0(2) p0, of scope_of scope reason] obtain k1 where k1: "abort_packets scope_of scope reason k0 = Inr k1"
    "kernel_inv S M k1" "packet_frame k0 k1" "kn_incoming k1 = filter (uncovered scope_of scope) (kn_incoming k0)"
    "list_all (uncovered scope_of scope) (ib_starts (kn_inbox k1))" by blast
  from take_starts_ok[OF k1(2)] obtain k2 where k2: "foldp insert_start (kn_starts k1) (k1\<lparr>kn_starts := []\<rparr>) = Inr k2"
    "kernel_inv S M k2" "start_frame (k1\<lparr>kn_starts := []\<rparr>) k2" by blast
  let ?m = "tasks_get (kn_tasks k2)"
  have le: "tasks_get (kn_tasks k) \<subseteq>\<^sub>m ?m" using k2(3) k1(3) k0(3) by (simp add: start_frame_def packet_frame_def quiet_def)
  have same: "kn_in_flight k2 = kn_in_flight k" "kn_aborts k2 = kn_aborts k" "kn_pending k2 = None" "kn_starts k2 = []"
    "kn_incoming k2 = filter (uncovered scope_of scope) (kn_incoming k)" "list_all (uncovered scope_of scope) (ib_starts (kn_inbox k2))"
    using k2(3) k1(3,4,5) k0(3) by (auto simp: start_frame_def packet_frame_def quiet_def)
  have fa: "flight_after scope k2 = flight_after scope k"
  proof (cases "kn_in_flight k")
    case (Some key)
    obtain t where t: "tasks_get (kn_tasks k) key = Some t" using places_live(2)[OF kernel_inv_D(1)[OF inv] Some] by blast
    then have "tasks_get (kn_tasks k2) key = Some t" using le unfolding map_le_def by (metis domI)
    with t Some show ?thesis using same(1) by (simp add: flight_after_def task_covered_def)
  qed (use same(1) in \<open>simp add: flight_after_def\<close>)
  have run: "kernel_abort scope_of abandon scope reason k =
      (if \<not> prepare_abort abandon scope k2
       then bindp (defer_abort scope reason k2) (\<lambda>k. bindp (kernel_publish k) (\<lambda>k. Inr (False, k)))
       else bindp (abort_reclaim abandon scope reason
              (k2\<lparr>kn_aborts := filter (\<lambda>(s, _). scope \<noteq> None \<and> s \<noteq> scope) (kn_aborts k2)\<rparr>)) (\<lambda>k. Inr (True, k)))"
    by (simp only: kernel_abort_def k0(1) k1(1) k2(1) bindp_simps)
  show ?thesis
  proof (cases "prepare_abort abandon scope k2")
    case False
    from defer_abort_ok[OF k2(2) scope, of reason] flight same(1,2) obtain k3 where k3: "defer_abort scope reason k2 = Inr k3" "kernel_inv S M k3"
      "kn_aborts k3 = deferred_aborts scope reason (kn_aborts k2)" "kn_in_flight k3 = flight_after scope k2" "kn_tasks k3 = kn_tasks k2"
      "kn_pending k3 = kn_pending k2" "kn_incoming k3 = kn_incoming k2" "kn_inbox k3 = kn_inbox k2" "kn_starts k3 = kn_starts k2" by auto
    have "kernel_abort scope_of abandon scope reason k = Inr (False, k3\<lparr>kn_unpublished := 0\<rparr>)"
      using run False k3(1) kernel_publish_eq[OF kernel_inv_D(1)[OF k3(2)]] by simp
    moreover have "kernel_inv S M (k3\<lparr>kn_unpublished := 0\<rparr>)"
      using kernel_inv_unpublished[OF k3(2), of 0] by (simp add: PROGRESS_PUBLICATION_BATCH_def)
    ultimately show ?thesis using k3 same fa le by (intro exI[of _ False] exI[of _ "k3\<lparr>kn_unpublished := 0\<rparr>"] exI[of _ ?m]) simp
  next
    case True
    let ?k = "k2\<lparr>kn_aborts := filter (\<lambda>(s, _). scope \<noteq> None \<and> s \<noteq> scope) (kn_aborts k2)\<rparr>"
    have inv': "kernel_inv S M ?k" using k2(2) aborts_filter[of S "kn_aborts k2"] by (simp add: inv_defs)
    have prep: "prepare_abort abandon scope ?k" using True by (simp add: prepare_abort_def task_covered_def)
    from abort_reclaim_ok[OF inv' prep, of reason] obtain k3 where k3: "abort_reclaim abandon scope reason ?k = Inr k3" "kernel_inv S M k3"
      "drop_frame ?k k3" "tasks_get (kn_tasks k3) = spared scope ?m"
      "kn_in_flight k3 = (case kn_in_flight k2 of None \<Rightarrow> None | Some key \<Rightarrow> if task_covered scope ?k key then None else Some key)" by auto
    have "kn_in_flight k3 = flight_after scope k" using k3(5) fa unfolding flight_after_def task_covered_frame by simp
    moreover have "kernel_abort scope_of abandon scope reason k = Inr (True, k3)" using run True k3(1) by simp
    ultimately show ?thesis using k3(2,3,4) same le
      by (intro exI[of _ True] exI[of _ k3] exI[of _ ?m]) (simp add: drop_frame_def)
  qed
qed

text \<open>Between its operations the kernel has nothing in its hands.\<close>

definition kernel_rest :: "('e, 'r) kernel \<Rightarrow> bool" where
  "kernel_rest k \<longleftrightarrow> kn_in_flight k = None \<and> kn_pending k = None \<and> kn_incoming k = []"

definition kernel_idle :: "u64 set \<Rightarrow> task_id multiset \<Rightarrow> ('e, 'r) kernel \<Rightarrow> bool" where
  "kernel_idle S M k \<longleftrightarrow> kernel_inv S M k \<and> kernel_rest k"

lemma kernel_idle_D: "kernel_idle S M k \<Longrightarrow> kernel_inv S M k" "kernel_idle S M k \<Longrightarrow> kn_in_flight k = None"
  "kernel_idle S M k \<Longrightarrow> kn_pending k = None" "kernel_idle S M k \<Longrightarrow> kn_incoming k = []"
  by (auto simp: kernel_idle_def kernel_rest_def)

lemma kernel_idle_abort:
  assumes "kernel_idle S M k" "scope \<in> insert None (Some ` S)"
  shows "\<exists>b k'. kernel_abort scope_of abandon scope reason k = Inr (b, k') \<and> kernel_idle S M k'
    \<and> kn_aborts k' = (if b then filter (\<lambda>(s, _). scope \<noteq> None \<and> s \<noteq> scope) (kn_aborts k) else deferred_aborts scope reason (kn_aborts k))"
proof -
  note i = kernel_idle_D[OF assms(1)]
  from kernel_abort_ok[OF i(1,3) assms(2), of scope_of abandon reason] i show ?thesis
    by (auto simp: kernel_idle_def kernel_rest_def flight_after_def)
qed

lemma swap_remove_set: "i < length xs \<Longrightarrow> set (swap_remove i xs) \<subseteq> set xs"
  using mset_swap_remove[of i xs] by (metis insert_subset set_mset_add_mset_insert set_mset_mset subset_insertI)

lemma aborts_swap_remove:
  assumes "aborts_ok S as" "i < length as"
  shows "aborts_ok S (swap_remove i as)" "fst (as ! i) \<notin> fst ` set (swap_remove i as)" "None \<notin> fst ` set (swap_remove i as)"
    "fst (as ! i) \<in> insert None (Some ` S)" "fst (as ! i) = None \<Longrightarrow> swap_remove i as = []"
proof -
  note ok = assms(1)[unfolded aborts_ok_def]
  have m: "mset as = add_mset (as ! i) (mset (swap_remove i as))" using mset_swap_remove[OF assms(2)] by simp
  have "mset (map fst as) = mset (fst (as ! i) # map fst (swap_remove i as))" using m by simp
  with ok have d: "distinct (fst (as ! i) # map fst (swap_remove i as))" using mset_eq_imp_distinct_iff by blast
  then show fresh: "fst (as ! i) \<notin> fst ` set (swap_remove i as)" by simp
  have sub: "fst ` set (swap_remove i as) \<subseteq> fst ` set as" using swap_remove_set[OF assms(2)] by blast
  have one: "None \<in> fst ` set as \<Longrightarrow> swap_remove i as = []"
    using ok length_swap_remove[OF assms(2)] by (metis One_nat_def length_0_conv nat.inject)
  have mem: "fst (as ! i) \<in> fst ` set as" using assms(2) by simp
  show "None \<notin> fst ` set (swap_remove i as)"
  proof
    assume n: "None \<in> fst ` set (swap_remove i as)"
    then have "swap_remove i as = []" using one sub by blast
    with n show False by simp
  qed
  moreover have "distinct (map fst (swap_remove i as))" using d by simp
  moreover have "fst ` set (swap_remove i as) \<subseteq> insert None (Some ` S)" using sub ok by (meson order_trans)
  ultimately show "aborts_ok S (swap_remove i as)" unfolding aborts_ok_def by simp
  show "fst (as ! i) \<in> insert None (Some ` S)" using ok mem by blast
  show "fst (as ! i) = None \<Longrightarrow> swap_remove i as = []" using one mem by simp
qed

lemma retry_loop_ok:
  "kernel_idle S M k \<Longrightarrow> i \<le> length (kn_aborts k) \<Longrightarrow> ok_result (kernel_idle S M) (retry_loop i scope_of abandon k)"
proof (induction i arbitrary: k)
  case 0
  then show ?case by simp
next
  case (Suc i)
  note idle = kernel_idle_D[OF Suc.prems(1)]
  have i: "i < length (kn_aborts k)" using Suc.prems(2) by simp
  obtain scope reason where e: "kn_aborts k ! i = (scope, reason)" by fastforce
  note sw = aborts_swap_remove[OF kernel_inv_D(5)[OF idle(1)] i, unfolded e fst_conv]
  let ?k = "k\<lparr>kn_aborts := swap_remove i (kn_aborts k)\<rparr>"
  have "kernel_idle S M ?k" using Suc.prems(1) sw(1) by (auto simp: kernel_idle_def kernel_rest_def inv_defs)
  from kernel_idle_abort[OF this sw(4), of scope_of abandon reason] obtain b k1 where k1:
    "kernel_abort scope_of abandon scope reason ?k = Inr (b, k1)" "kernel_idle S M k1"
    "kn_aborts k1 = (if b then filter (\<lambda>(s, _). scope \<noteq> None \<and> s \<noteq> scope) (swap_remove i (kn_aborts k))
                     else deferred_aborts scope reason (swap_remove i (kn_aborts k)))" by auto
  have len: "i \<le> length (swap_remove i (kn_aborts k))" using length_swap_remove[OF i] i by simp
  have "i \<le> length (kn_aborts k1)"
  proof (cases b)
    case True
    have "scope \<noteq> None \<Longrightarrow> filter (\<lambda>(s, _). scope \<noteq> None \<and> s \<noteq> scope) (swap_remove i (kn_aborts k)) = swap_remove i (kn_aborts k)"
      using sw(2) by (force simp: filter_id_conv)
    then show ?thesis using True k1(3) len sw(5) by (cases "scope = None") auto
  next
    case False
    have "length (deferred_aborts scope reason (swap_remove i (kn_aborts k))) = Suc (length (swap_remove i (kn_aborts k)))"
      by (rule deferred_aborts_length[OF sw(1,2,3)]) (use sw(5) in auto)
    then show ?thesis using False k1(3) len by simp
  qed
  from Suc.IH[OF k1(2) this] show ?case using i e k1(1) by (simp add: not_le)
qed

lemma retry_aborts_ok: "kernel_idle S M k \<Longrightarrow> ok_result (kernel_idle S M) (retry_aborts scope_of abandon k)"
  by (simp add: retry_aborts_def retry_loop_ok)

lemma sweep_revoked_ok:
  assumes idle: "kernel_idle S M k"
    and abandon: "\<And>key p. parked_get (kn_parked k) key = Some p \<Longrightarrow> key_is_borrowed key \<Longrightarrow> revoked key \<Longrightarrow> abandon (pt_token p)"
  shows "ok_result (kernel_idle S M) (sweep_revoked epoch revoked abandon k)"
proof (cases "\<not> kn_has_borrowed k \<or> epoch = kn_epoch k")
  case True
  then show ?thesis using idle by (auto simp: sweep_revoked_def)
next
  case False
  let ?gone = "\<lambda>key. key_is_borrowed key \<and> revoked key"
  let ?k = "k\<lparr>kn_epoch := epoch\<rparr>"
  have inv: "kernel_inv S M ?k" "kn_in_flight ?k = None" using idle by (simp_all add: kernel_idle_def kernel_rest_def)
  from discard_ready_ok[OF task_choice_const inv lessI inspection_ok_start, of ?gone FailScopeClosed] obtain k1 where k1:
    "discard_ready (Suc (rq_len (kn_ready ?k))) (\<lambda>_. ?gone) FailScopeClosed (rq_inspection (kn_ready ?k)) ?k = Inr k1"
    "kernel_inv S M k1" "kn_in_flight k1 = None" "drop_frame ?k k1" "kn_parked k1 = kn_parked k" by auto
  have ab: "parked_get (kn_parked k1) key = Some p \<Longrightarrow> ?gone key \<Longrightarrow> abandon (pt_token p)" for key p
    using abandon k1(5) by simp
  from discard_all_parked_ok[OF k1(2,3), of ?gone abandon "''revoked frame retained a publisher''" FailScopeClosed] ab obtain k2 where k2:
    "discard_all_parked abandon ''revoked frame retained a publisher'' FailScopeClosed ?gone k1 = Inr k2"
    "kernel_inv S M k2" "kn_in_flight k2 = None" "drop_frame k1 k2" by blast
  have "sweep_revoked epoch revoked abandon k = Inr (refresh_borrowed k2)"
    using False k1(1) k2(1) by (simp add: sweep_revoked_def Let_def del: discard_ready.simps)
  moreover have "kernel_idle S M (refresh_borrowed k2)"
    using k2 k1(4) idle by (simp add: kernel_idle_def kernel_rest_def refresh_borrowed_def drop_frame_def)
  ultimately show ?thesis by simp
qed

section \<open>Receiving\<close>

lemma receive_local_ok:
  "kernel_inv S M k \<Longrightarrow> kn_starts k = ts \<Longrightarrow>
    \<exists>k'. receive_local_loop ts k = Inr k' \<and> kernel_inv S M k' \<and> start_frame (k\<lparr>kn_starts := []\<rparr>) k'"
proof (induction ts arbitrary: k)
  case Nil
  then have "kernel_inv S M (k\<lparr>kn_starts := []\<rparr>)" by (auto simp: inv_defs)
  then show ?case by (simp add: start_frame_def)
next
  case (Cons t ts)
  let ?k = "k\<lparr>kn_starts := ts, kn_has_borrowed := True\<rparr>"
  have ids: "kernel_ids k = add_mset (kt_id t) (kernel_ids ?k)" using Cons.prems(2) by (simp add: kernel_ids_def)
  have inv: "kernel_inv S (kernel_total ?k) ?k" using Cons.prems by (auto simp: inv_defs)
  have M: "M = add_mset (kt_id t) (kernel_total ?k)"
    using kernel_inv_D(8)[OF Cons.prems(1)] ids by (simp add: kernel_total_def)
  have "size (kernel_ids ?k) < cf_max_vthreads (kn_config ?k)"
    using ids limits_D(1)[OF kernel_inv_D(7)[OF Cons.prems(1)]] by simp
  from insert_start_ok[OF inv this, of t] M obtain k1 where k1: "insert_start t ?k = Inr k1" "kernel_inv S M k1" "start_frame ?k k1" by auto
  have "kn_starts k1 = ts" using k1(3) by (simp add: start_frame_def)
  from Cons.IH[OF k1(2) this] obtain k2 where "receive_local_loop ts k1 = Inr k2" "kernel_inv S M k2" "start_frame (k1\<lparr>kn_starts := []\<rparr>) k2" by blast
  moreover from this(3) k1(3) have "start_frame (k\<lparr>kn_starts := []\<rparr>) k2" by (auto simp: start_frame_def intro: map_le_trans)
  ultimately show ?case using k1(1) by simp
qed

lemma start_packets_ok:
  "kernel_inv S M k \<Longrightarrow> kn_incoming k = ps \<Longrightarrow> kn_pending k = None \<Longrightarrow> kn_in_flight k = None \<Longrightarrow>
    \<exists>b k'. start_packets scope_of acquire ps received k = Inr (b, k') \<and> kernel_idle S M k' \<and> kn_aborts k' = kn_aborts k
      \<and> kn_inbox k' = kn_inbox k \<and> kn_pressure k' = kn_pressure k"
proof (induction ps arbitrary: k received)
  case Nil
  then have "kernel_inv S M (k\<lparr>kn_incoming := []\<rparr>)" by (auto simp: inv_defs)
  with Nil show ?case by (simp add: kernel_idle_def kernel_rest_def)
next
  case (Cons p ps)
  note d = kernel_inv_D[OF Cons.prems(1)]
  let ?k = "k\<lparr>kn_incoming := ps, kn_pending := Some p\<rparr>"
  have inv: "kernel_inv S M ?k" using Cons.prems by (simp add: inv_defs packets_ok_def)
  have entry: "pk_entry p \<noteq> None" using d(6) Cons.prems(2) by (simp add: packets_ok_def)
  show ?case
  proof (cases "acquire (pk_task p)")
    case False
    from discard_taken_ok[OF inv, of FailStackAllocation] obtain k1 where k1: "discard_pending FailStackAllocation ?k = Inr k1"
      "kernel_inv S M k1" "packet_frame (k\<lparr>kn_incoming := ps\<rparr>) k1" "kn_incoming k1 = ps" "kn_inbox k1 = kn_inbox k" by auto
    have pressure: "kn_pressure k1 = kn_pressure k"
      using discard_pending_ok[OF inv, of p FailStackAllocation] k1(1) by (auto simp: count_aborted_def)
    from Cons.IH[OF k1(2,4), of received] k1(3) Cons.prems(4) obtain b k2 where
      "start_packets scope_of acquire ps received k1 = Inr (b, k2)" "kernel_idle S M k2" "kn_aborts k2 = kn_aborts k1"
      "kn_inbox k2 = kn_inbox k1" "kn_pressure k2 = kn_pressure k1" by (auto simp: packet_frame_def)
    with k1 pressure False show ?thesis by (auto simp: Let_def packet_frame_def)
  next
    case True
    let ?t = "\<lparr>kt_id = pk_task p, kt_scope = scope_of (pk_task p)\<rparr>"
    let ?rest = "k\<lparr>kn_incoming := ps\<rparr>"
    have inv': "kernel_inv S (kernel_total ?rest) ?rest" using Cons.prems by (auto simp: inv_defs packets_ok_def)
    have "size (kernel_ids ?rest) < cf_max_vthreads (kn_config ?rest)"
      using limits_D(1)[OF d(7)] Cons.prems(2) by (simp add: kernel_ids_def)
    from tasks_insert_owned_ok[OF kernel_inv_D(9)[OF inv'] live_below[OF inv' this], of ?t] obtain key ks where
      ins: "tasks_insert_owned ?t (kn_tasks k) = Inr (key, ks)" "tasks_ok ks" "tasks_get (kn_tasks k) key = None"
        "tasks_get ks = (tasks_get (kn_tasks k))(key \<mapsto> ?t)" by auto
    let ?k1 = "k\<lparr>kn_incoming := ps, kn_pending := None, kn_tasks := ks, kn_ready := rq_push_back key (kn_ready k)\<rparr>"
    have "places_ok ks (rq_push_back key (kn_ready k)) (kn_in_flight k) (kn_parked k)"
      by (rule places_start[OF d(1) ins(2,3,4)]) simp
    moreover have "live_ids ks = add_mset (pk_task p) (live_ids (kn_tasks k))"
      using live_ids_insert[OF d(9) ins(3,4)] by simp
    ultimately have inv1: "kernel_inv S M ?k1" using Cons.prems by (auto simp: inv_defs packets_ok_def)
    from Cons.IH[OF inv1, of True] Cons.prems(4) obtain b k2 where
      "start_packets scope_of acquire ps True ?k1 = Inr (b, k2)" "kernel_idle S M k2" "kn_aborts k2 = kn_aborts k"
      "kn_inbox k2 = kn_inbox k" "kn_pressure k2 = kn_pressure k" by auto
    moreover have "start_packets scope_of acquire (p # ps) received k = start_packets scope_of acquire ps True ?k1"
      using True entry ins(1) by (auto simp: Let_def)
    ultimately show ?thesis by auto
  qed
qed

text \<open>
  One reception: either it takes packets, and the pressure starts again, or it takes none; a
  pressure at its bound always takes one.
\<close>

lemma receive_remote_ok:
  assumes idle: "kernel_idle S M k"
  shows "\<exists>b k' ps. receive_remote_tasks scope_of acquire k = Inr (b, k') \<and> kernel_idle S M k'
    \<and> ib_starts (kn_inbox k) = ps @ ib_starts (kn_inbox k')
    \<and> kn_pressure k' = (if ps = [] then kn_pressure k else 0)
    \<and> (ib_starts (kn_inbox k) \<noteq> [] \<longrightarrow> REMOTE_ADMISSION_DISPATCH_BOUND \<le> kn_pressure k \<longrightarrow> ps \<noteq> [])"
proof (cases "receive_limit k")
  case None
  then have "\<not> REMOTE_ADMISSION_DISPATCH_BOUND \<le> kn_pressure k"
    by (auto simp: receive_limit_def Let_def split: if_splits)
  then show ?thesis
    using None idle kernel_idle_D(4)[OF idle] by (auto simp: receive_remote_tasks_def)
next
  case (Some limit)
  note inv = kernel_idle_D(1)[OF idle]
  obtain n packets i where dr: "inbox_drain_into [] limit (kn_inbox k) = (n, packets, i)" by (metis prod_cases3)
  have ok: "inbox_ok (kn_inbox k)" using kernel_inv_D(6)[OF inv] by (simp add: packets_ok_def)
  have st: "ib_starts (kn_inbox k) = packets @ ib_starts i" "n = length packets"
    using dr ok by (auto simp: inbox_drain_into_def inbox_ok_def Let_def split: if_splits)
  have some: "0 < n" if "limit \<noteq> 0" "ib_starts (kn_inbox k) \<noteq> []"
  proof -
    have "ib_pending_starts (kn_inbox k) = length (ib_starts (kn_inbox k))" using ok by (simp add: inbox_ok_def)
    then have "n = min (length (ib_starts (kn_inbox k))) limit" using that dr by (simp add: inbox_drain_into_def Let_def)
    then show ?thesis using that by simp
  qed
  let ?k = "k\<lparr>kn_inbox := i, kn_incoming := packets, kn_pressure := (if n \<noteq> 0 then 0 else kn_pressure k)\<rparr>"
  have "kernel_inv S M ?k"
    using inv st(1) kernel_idle_D[OF idle] inbox_drain_ok[OF ok dr] by (auto simp: inv_defs packets_ok_def)
  from start_packets_ok[OF this refl, of scope_of acquire False] kernel_idle_D[OF idle] obtain b k' where
    "start_packets scope_of acquire packets False ?k = Inr (b, k')" "kernel_idle S M k'" "kn_inbox k' = i"
    "kn_pressure k' = (if n \<noteq> 0 then 0 else kn_pressure k)" by auto
  moreover have "limit \<noteq> 0"
    using Some kernel_inv_D(7)[OF inv] by (auto simp: receive_limit_def limits_ok_def REMOTE_READY_TARGET_def Let_def min_def split: if_splits)
  ultimately show ?thesis
    using Some dr st some kernel_idle_D(4)[OF idle] by (auto simp: receive_remote_tasks_def)
qed

lemma receive_local_idle:
  assumes idle: "kernel_idle S M k"
  shows "\<exists>b k'. receive_local_tasks k = Inr (b, k') \<and> kernel_idle S M k' \<and> kn_inbox k' = kn_inbox k \<and> kn_pressure k' = kn_pressure k
    \<and> kn_remote_pending k' = kn_remote_pending k \<and> kn_config k' = kn_config k"
  using receive_local_ok[OF kernel_idle_D(1)[OF idle] refl] kernel_idle_D[OF idle]
  by (auto simp: receive_local_tasks_def start_frame_def kernel_idle_def kernel_rest_def)

lemma kernel_receive_ok:
  assumes idle: "kernel_idle S M k"
  shows "\<exists>b k' ps. kernel_receive scope_of acquire k = Inr (b, k') \<and> kernel_idle S M k'
    \<and> ib_starts (kn_inbox k) = ps @ ib_starts (kn_inbox k')
    \<and> kn_pressure k' = (if ps \<noteq> [] \<or> ib_starts (kn_inbox k') = [] then 0 else kn_pressure k + of_bool (kn_remote_pending k))
    \<and> (ib_starts (kn_inbox k) \<noteq> [] \<longrightarrow> REMOTE_ADMISSION_DISPATCH_BOUND \<le> kn_pressure k + of_bool (kn_remote_pending k) \<longrightarrow> ps \<noteq> [])"
proof -
  let ?k = "k\<lparr>kn_pressure := kn_pressure k + of_bool (kn_remote_pending k)\<rparr>"
  have "kernel_idle S M ?k" using idle by (simp add: kernel_idle_def kernel_rest_def)
  from receive_local_idle[OF this] obtain b1 k1 where k1: "receive_local_tasks ?k = Inr (b1, k1)" "kernel_idle S M k1"
    "kn_inbox k1 = kn_inbox k" "kn_pressure k1 = kn_pressure k + of_bool (kn_remote_pending k)" by auto
  from receive_remote_ok[OF k1(2), of scope_of acquire] obtain b2 k2 ps where k2:
    "receive_remote_tasks scope_of acquire k1 = Inr (b2, k2)" "kernel_idle S M k2" "ib_starts (kn_inbox k1) = ps @ ib_starts (kn_inbox k2)"
    "kn_pressure k2 = (if ps = [] then kn_pressure k1 else 0)"
    "ib_starts (kn_inbox k1) \<noteq> [] \<longrightarrow> REMOTE_ADMISSION_DISPATCH_BOUND \<le> kn_pressure k1 \<longrightarrow> ps \<noteq> []" by blast
  have pub: "\<exists>k3. (if b1 \<or> b2 then kernel_publish k2 else Inr k2) = Inr k3 \<and> kernel_idle S M k3
      \<and> kn_inbox k3 = kn_inbox k2 \<and> kn_pressure k3 = kn_pressure k2"
    using kernel_publish_eq[OF kernel_inv_D(1)[OF kernel_idle_D(1)[OF k2(2)]]]
      kernel_inv_unpublished[OF kernel_idle_D(1)[OF k2(2)], of 0] k2(2)
    by (auto simp: kernel_idle_def kernel_rest_def PROGRESS_PUBLICATION_BATCH_def)
  then obtain k3 where k3: "(if b1 \<or> b2 then kernel_publish k2 else Inr k2) = Inr k3" "kernel_idle S M k3"
    "kn_inbox k3 = kn_inbox k2" "kn_pressure k3 = kn_pressure k2" by blast
  have pending: "inbox_pending (kn_inbox k3) \<noteq> 0 \<longleftrightarrow> ib_starts (kn_inbox k3) \<noteq> []"
    using kernel_inv_D(6)[OF kernel_idle_D(1)[OF k3(2)]] by (simp add: packets_ok_def inbox_ok_def inbox_pending_def)
  let ?k' = "k3\<lparr>kn_remote_pending := (inbox_pending (kn_inbox k3) \<noteq> 0), kn_pressure := (if inbox_pending (kn_inbox k3) \<noteq> 0 then kn_pressure k3 else 0)\<rparr>"
  have "kernel_receive scope_of acquire k = Inr (inbox_pending (kn_inbox k3) \<noteq> 0, ?k')"
    using k1(1) k2(1) k3(1) by (simp add: kernel_receive_def Let_def)
  moreover have "kernel_idle S M ?k'" using k3(2) by (simp add: kernel_idle_def kernel_rest_def)
  moreover have "kn_pressure ?k' = (if ps \<noteq> [] \<or> ib_starts (kn_inbox ?k') = [] then 0 else kn_pressure k + of_bool (kn_remote_pending k))"
    using pending k1(4) k2(4) k3(3,4) by auto
  moreover have "ib_starts (kn_inbox k) = ps @ ib_starts (kn_inbox ?k')" using k1(3) k2(3) k3(3) by simp
  moreover have "ib_starts (kn_inbox k) \<noteq> [] \<longrightarrow> REMOTE_ADMISSION_DISPATCH_BOUND \<le> kn_pressure k + of_bool (kn_remote_pending k) \<longrightarrow> ps \<noteq> []"
    using k2(5) k1(3,4) by simp
  ultimately show ?thesis by blast
qed

section \<open>Selection and dispatch\<close>

lemma select_ready_ok:
  assumes idle: "kernel_idle S M k"
  shows "\<exists>k'. select_ready k = Inr k' \<and> kernel_inv S M k' \<and> kn_pending k' = None \<and> kn_incoming k' = [] \<and> kn_aborts k' = kn_aborts k
    \<and> kn_wakes k' = kn_wakes k \<and> (\<forall>key. kn_in_flight k' = Some key \<longrightarrow> \<not> blocked k' key)"
proof -
  note i = kernel_idle_D[OF idle]
  note d = kernel_inv_D[OF i(1)]
  have step: "kernel_inv S M (k\<lparr>kn_ready := q, kn_in_flight := r\<rparr>)" if m: "opt_mset r + rq_mset q = rq_mset (kn_ready k)" for r q
  proof -
    have "places_ok (kn_tasks k) q r (kn_parked k)"
    proof (cases r)
      case None
      then show ?thesis using d(1) i(2) m by (simp add: places_ok_def placed_def)
    next
      case (Some key)
      then have "rq_mset (kn_ready k) = add_mset key (rq_mset q)" using m by simp
      then show ?thesis using places_dispatch[of "kn_tasks k" "kn_ready k" "kn_parked k" key q] d(1) i(2) Some by simp
    qed
    then show ?thesis using i(1) by (simp add: inv_defs)
  qed
  have bl: "blocked (k\<lparr>kn_ready := q, kn_in_flight := r\<rparr>) = blocked k" for r q
    by (simp add: blocked_def task_covered_def fun_eq_iff)
  show ?thesis
  proof (cases "kn_aborts k = []")
    case True
    obtain r q where pop: "rq_pop_front (kn_ready k) = (r, q)" by fastforce
    have "\<not> blocked k key" for key using True by (simp add: blocked_def)
    then show ?thesis using True pop step[OF rq_pop_front_mset[OF pop]] bl i by (simp add: select_ready_def)
  next
    case False
    from rq_pop_matching_no_panic[of "\<lambda>key. \<not> blocked k key" "kn_ready k"] obtain r q where
      pop: "rq_pop_matching (\<lambda>key. \<not> blocked k key) (kn_ready k) = Inr (r, q)" by fastforce
    note snd = rq_pop_matching_sound[OF pop]
    from snd have "\<forall>key. r = Some key \<longrightarrow> \<not> blocked k key" by auto
    moreover have "select_ready k = Inr (k\<lparr>kn_ready := q, kn_in_flight := r\<rparr>)"
      using False pop by (simp add: select_ready_def select_unblocked_def)
    ultimately show ?thesis using step snd bl i by auto
  qed
qed

lemma wake_frame_idle:
  assumes "kernel_idle S M k" "kernel_inv S M k'" "wake_frame (k\<lparr>kn_wakes := ws\<rparr>) k'"
  shows "kernel_idle S M k'"
  using assms by (simp add: kernel_idle_def kernel_rest_def wake_frame_def)

lemma process_wakes_idle:
  assumes "kernel_idle S M k"
  shows "ok_result (kernel_idle S M) (process_wakes publication arrivals k)"
  by (rule ok_mono[OF process_wakes_ok[OF kernel_idle_D(1)[OF assms]]]) (use wake_frame_idle[OF assms] in blast)

lemma process_deferred_idle:
  assumes "kernel_idle S M k"
  shows "ok_result (kernel_idle S M) (process_deferred_wakes publication k)"
  by (rule ok_mono[OF process_deferred_wakes_ok[OF kernel_idle_D(1)[OF assms]]])
    (use assms in \<open>simp add: kernel_idle_def kernel_rest_def wake_frame_def\<close>)

lemma expire_timers_idle:
  assumes "kernel_idle S M k"
  shows "ok_result (kernel_idle S M) (expire_timers now timeout k)"
  by (rule ok_mono[OF expire_timers_ok[OF kernel_idle_D(1)[OF assms]]])
    (use assms in \<open>simp add: kernel_idle_def kernel_rest_def wake_frame_def\<close>)

lemma tick_prepare_ok:
  assumes idle: "kernel_idle S M k"
    and abandon: "\<And>key p. parked_get (kn_parked k) key = Some p \<Longrightarrow> key_is_borrowed key \<Longrightarrow> te_revoked env key \<Longrightarrow> te_abandon env (pt_token p)"
  shows "ok_result (kernel_idle S M) (tick_prepare env changed k)"
  unfolding tick_prepare_def
proof (intro ok_bind[where Q = "kernel_idle S M"])
  show "ok_result (kernel_idle S M) (sweep_revoked (te_epoch env) (te_revoked env) (te_abandon env) k)"
    by (rule sweep_revoked_ok[OF idle]) (rule abandon)
next
  fix k1 k2 k3 assume "kernel_idle S M k1"
  then show "ok_result (kernel_idle S M) (if changed then bindp (retry_aborts (te_scope_of env) (te_abandon env) k1) (process_deferred_wakes (te_publication env)) else Inr k1)"
    by (auto intro!: ok_bind[OF retry_aborts_ok] process_deferred_idle)
  assume "kernel_idle S M k2"
  then show "ok_result (kernel_idle S M) (if changed \<or> \<not> parked_is_empty (kn_parked k2) \<and> (kn_wakes k2 \<noteq> [] \<or> te_hub_first env \<noteq> [])
      then process_wakes (te_publication env) (te_hub_first env) k2 else Inr k2)"
    by (simp add: process_wakes_idle)
  assume "kernel_idle S M k3"
  then show "ok_result (kernel_idle S M) (if tq_active_count (kn_timers k3) \<noteq> 0
      then bindp (expire_timers (te_now env) (te_timeout env) k3) (process_wakes (te_publication env) (te_hub_timed env)) else Inr k3)"
    by (auto intro!: ok_bind[OF expire_timers_idle] process_wakes_idle)
qed

definition kernel_selected :: "u64 set \<Rightarrow> task_id multiset \<Rightarrow> ('e, 'r) kernel \<Rightarrow> bool" where
  "kernel_selected S M k \<longleftrightarrow> kernel_inv S M k \<and> kn_pending k = None \<and> kn_incoming k = []
     \<and> (\<forall>key. kn_in_flight k = Some key \<longrightarrow> \<not> blocked k key)"

lemma tick_select_ok:
  fixes k :: "('e, 'r) kernel"
  assumes idle: "kernel_idle S M k"
  shows "ok_result (kernel_selected S M) (tick_select env k)"
proof -
  have sel: "ok_result (kernel_selected S M) (select_ready j)" if "kernel_idle S M j" for j :: "('e, 'r) kernel"
    using select_ready_ok[OF that] by (auto simp: kernel_selected_def)
  show ?thesis unfolding tick_select_def
  proof (rule ok_bind[OF sel[OF idle]])
    fix k1 :: "('e, 'r) kernel"
    assume k1: "kernel_selected S M k1"
    show "ok_result (kernel_selected S M) (if kn_in_flight k1 = None \<and> (kn_wakes k1 \<noteq> [] \<or> te_hub_last env \<noteq> [])
       then bindp (process_wakes (te_publication env) (te_hub_last env) k1) select_ready else Inr k1)"
    proof (cases "kn_in_flight k1 = None")
      case True
      then have "kernel_idle S M k1" using k1 by (simp add: kernel_selected_def kernel_idle_def kernel_rest_def)
      then show ?thesis using k1 by (auto intro!: ok_bind[OF process_wakes_idle] sel)
    qed (use k1 in auto)
  qed
qed

lemma after_dispatch_ok:
  assumes inv: "kernel_inv S M k" and key: "kn_in_flight k = Some key" and t: "tasks_get (kn_tasks k) key = Some t"
    and rest: "kn_pending k = None" "kn_incoming k = []"
    and b: "batch_scope (kn_batch k) = None \<or> batch_scope (kn_batch k) = Some (kt_scope t)"
  shows "ok_result (kernel_idle S M) (after_dispatch d defer k)"
proof (cases d)
  case DYield
  then show ?thesis using rest by (auto simp: kernel_idle_def kernel_rest_def intro!: ok_mono[OF yield_task_ok[OF inv key]])
next
  case (DPark token deadline registration)
  have "ok_result (kernel_idle S M) (park_task token deadline registration k)"
    using rest by (auto simp: kernel_idle_def kernel_rest_def intro!: ok_mono[OF park_task_ok[OF inv key]])
  moreover have "ok_result (kernel_idle S M) (publish_transition j)" if "kernel_idle S M j" for j
    by (rule ok_mono[OF publish_transition_ok[OF kernel_idle_D(1)[OF that]]])
      (use that in \<open>simp add: kernel_idle_def kernel_rest_def quiet_def\<close>)
  ultimately show ?thesis by (simp add: DPark) (erule ok_bind)
next
  case (DComplete panicked)
  then show ?thesis
    using rest by (auto simp: kernel_idle_def kernel_rest_def steady_def intro!: ok_mono[OF complete_task_ok[OF inv key t b]])
next
  case DRevoked
  from discard_in_flight_ok[OF inv key t, of FailScopeClosed] rest show ?thesis
    by (auto simp: DRevoked kernel_idle_def kernel_rest_def steady_def)
qed

lemma tick_dispatch_ok:
  assumes sel: "kernel_selected S M k" and key: "kn_in_flight k = Some key"
    and owned: "\<And>s. te_abort_reason env s \<noteq> None \<Longrightarrow> s \<in> S"
  shows "ok_result (kernel_idle S M) (tick_dispatch env key k)"
proof -
  have inv: "kernel_inv S M k" and rest: "kn_pending k = None" "kn_incoming k = []" and free: "\<not> blocked k key"
    using sel key by (auto simp: kernel_selected_def)
  obtain t where t: "tasks_get (kn_tasks k) key = Some t" using places_live(2)[OF kernel_inv_D(1)[OF inv] key] by blast
  have none: "None \<notin> fst ` set (kn_aborts k)"
  proof
    assume "None \<in> fst ` set (kn_aborts k)"
    then have "blocked k key" using t unfolding blocked_def task_covered_alt covers_def by (intro bexI[of _ None]) auto
    with free show False by simp
  qed
  let ?Q = "\<lambda>j. kernel_inv S M j \<and> quiet k j \<and> (batch_scope (kn_batch j) = None \<or> batch_scope (kn_batch j) = Some (kt_scope t))"
  have flush: "ok_result ?Q (if batch_scope (kn_batch k) \<noteq> None \<and> batch_scope (kn_batch k) \<noteq> Some (kt_scope t) then flush_completions k else Inr k)"
    using inv ok_mono[OF flush_completions_ok[OF inv], of ?Q] by auto
  have run: "tick_dispatch env key k = bindp (if batch_scope (kn_batch k) \<noteq> None \<and> batch_scope (kn_batch k) \<noteq> Some (kt_scope t) then flush_completions k else Inr k)
     (\<lambda>k. case te_abort_reason env (kt_scope t) of
       Some reason \<Rightarrow> map_sum id snd (kernel_abort (te_scope_of env) (te_abandon env) (Some (kt_scope t)) reason k)
     | None \<Rightarrow>
         bindp (if \<not> te_first_mount env then Inr (k\<lparr>kn_stats := (kn_stats k)\<lparr>rs_mounts := rs_mounts (kn_stats k) + 1\<rparr>\<rparr>)
                else if rq_is_empty (kn_ready (k\<lparr>kn_stats := (kn_stats k)\<lparr>rs_mounts := rs_mounts (kn_stats k) + 1\<rparr>\<rparr>)) then kernel_publish (k\<lparr>kn_stats := (kn_stats k)\<lparr>rs_mounts := rs_mounts (kn_stats k) + 1\<rparr>\<rparr>)
                else publish_transition (k\<lparr>kn_stats := (kn_stats k)\<lparr>rs_mounts := rs_mounts (kn_stats k) + 1\<rparr>\<rparr>))
           (after_dispatch (te_dispatched env) (te_defer env)))"
    by (simp only: tick_dispatch_def kernel_task_eq t option.case bindp_simps Let_def)
  show ?thesis unfolding run
  proof (rule ok_bind[OF flush])
    fix k1 assume k1: "?Q k1"
    then have same: "kn_in_flight k1 = Some key" "tasks_get (kn_tasks k1) key = Some t" "kn_aborts k1 = kn_aborts k"
      "kn_pending k1 = None" "kn_incoming k1 = []" using key t rest by (auto simp: quiet_def)
    show "ok_result (kernel_idle S M) (case te_abort_reason env (kt_scope t) of
       Some reason \<Rightarrow> map_sum id snd (kernel_abort (te_scope_of env) (te_abandon env) (Some (kt_scope t)) reason k1)
     | None \<Rightarrow>
         bindp (if \<not> te_first_mount env then Inr (k1\<lparr>kn_stats := (kn_stats k1)\<lparr>rs_mounts := rs_mounts (kn_stats k1) + 1\<rparr>\<rparr>)
                else if rq_is_empty (kn_ready (k1\<lparr>kn_stats := (kn_stats k1)\<lparr>rs_mounts := rs_mounts (kn_stats k1) + 1\<rparr>\<rparr>)) then kernel_publish (k1\<lparr>kn_stats := (kn_stats k1)\<lparr>rs_mounts := rs_mounts (kn_stats k1) + 1\<rparr>\<rparr>)
                else publish_transition (k1\<lparr>kn_stats := (kn_stats k1)\<lparr>rs_mounts := rs_mounts (kn_stats k1) + 1\<rparr>\<rparr>))
           (after_dispatch (te_dispatched env) (te_defer env)))"
    proof (cases "te_abort_reason env (kt_scope t)")
      case (Some reason)
      have s: "Some (kt_scope t) \<in> insert None (Some ` S)" using owned[of "kt_scope t"] Some by simp
      have inv1: "kernel_inv S M k1" using k1 by simp
      from kernel_abort_ok[OF inv1 same(4) s, of "te_scope_of env" "te_abandon env" reason] none same(3) obtain b k2 where
        k2: "kernel_abort (te_scope_of env) (te_abandon env) (Some (kt_scope t)) reason k1 = Inr (b, k2)" "kernel_inv S M k2"
          "kn_pending k2 = None" "kn_in_flight k2 = flight_after (Some (kt_scope t)) k1"
          "kn_incoming k2 = filter (uncovered (te_scope_of env) (Some (kt_scope t))) (kn_incoming k1)" by auto
      have "flight_after (Some (kt_scope t)) k1 = None" using same(1,2) by (simp add: flight_after_def task_covered_def covers_def)
      then show ?thesis using Some k2 same(5) by (simp add: kernel_idle_def kernel_rest_def)
    next
      case None
      let ?k = "k1\<lparr>kn_stats := (kn_stats k1)\<lparr>rs_mounts := rs_mounts (kn_stats k1) + 1\<rparr>\<rparr>"
      let ?P = "\<lambda>j. kernel_inv S M j \<and> quiet ?k j \<and> kn_batch j = kn_batch ?k \<and> kn_calls j = kn_calls ?k"
      have inv2: "kernel_inv S M ?k" using k1 by simp
      have "ok_result ?P (if \<not> te_first_mount env then Inr ?k else if rq_is_empty (kn_ready ?k) then kernel_publish ?k else publish_transition ?k)"
        using inv2 kernel_publish_ok[OF inv2] publish_transition_ok[OF inv2] by simp
      then have "ok_result (kernel_idle S M) (bindp (if \<not> te_first_mount env then Inr ?k else if rq_is_empty (kn_ready ?k) then kernel_publish ?k else publish_transition ?k)
           (after_dispatch (te_dispatched env) (te_defer env)))"
      proof (rule ok_bind)
        fix k2 assume k2: "?P k2"
        show "ok_result (kernel_idle S M) (after_dispatch (te_dispatched env) (te_defer env) k2)"
          by (rule after_dispatch_ok[of S M k2 key t]) (use k2 same k1 in \<open>auto simp: quiet_def\<close>)
      qed
      with None show ?thesis by simp
    qed
  qed
qed

lemma kernel_tick_ok:
  fixes k :: "('e, 'r) kernel"
  assumes idle: "kernel_idle S M k"
    and abandon: "\<And>key p. parked_get (kn_parked k) key = Some p \<Longrightarrow> key_is_borrowed key \<Longrightarrow> te_revoked env key \<Longrightarrow> te_abandon env (pt_token p)"
    and owned: "\<And>s. te_abort_reason env s \<noteq> None \<Longrightarrow> s \<in> S"
  shows "ok_result (\<lambda>(_, k'). kernel_idle S M k') (kernel_tick env changed k)"
  unfolding kernel_tick_def
proof (rule ok_bind[OF tick_prepare_ok[OF idle]])
  show "te_abandon env (pt_token p)" if "parked_get (kn_parked k) key = Some p" "key_is_borrowed key" "te_revoked env key" for key p
    using abandon that .
  fix k1 :: "('e, 'r) kernel"
  assume "kernel_idle S M k1"
  then show "ok_result (\<lambda>(_, k'). kernel_idle S M k') (bindp (tick_select env k1) (\<lambda>k.
     case kn_in_flight k of None \<Rightarrow> map_sum id (Pair False) (flush_completions k) | Some key \<Rightarrow> map_sum id (Pair True) (tick_dispatch env key k)))"
  proof (rule ok_bind[OF tick_select_ok])
    fix k2 :: "('e, 'r) kernel"
    assume k2: "kernel_selected S M k2"
    show "ok_result (\<lambda>(_, k'). kernel_idle S M k') (case kn_in_flight k2 of None \<Rightarrow> map_sum id (Pair False) (flush_completions k2)
       | Some key \<Rightarrow> map_sum id (Pair True) (tick_dispatch env key k2))"
    proof (cases "kn_in_flight k2")
      case None
      have "ok_result (kernel_idle S M) (flush_completions k2)"
        by (rule ok_mono[OF flush_completions_ok]) (use k2 None in \<open>auto simp: kernel_selected_def kernel_idle_def kernel_rest_def quiet_def\<close>)
      then show ?thesis using None by (auto intro!: ok_map_sum)
    next
      case (Some key)
      then show ?thesis using tick_dispatch_ok[OF k2 Some owned] by (auto intro!: ok_map_sum)
    qed
  qed
qed

end
