(* ===== verification/Kernel_Run.thy ===== *)
theory Kernel_Run
  imports Kernel
begin

text \<open>
  Every history of a carrier's kernel: tasks are handed to it, it receives, ticks, aborts and
  publishes in any order. What the rest of the runtime promises is the guard of an event.
\<close>

section \<open>Histories\<close>

datatype ('e, 'r) kernel_event =
    KTick "'r tick_env" bool
  | KReceive "task_id \<Rightarrow> u64" "task_id \<Rightarrow> bool"
  | KAbort "task_id \<Rightarrow> u64" "park_token \<Rightarrow> bool" "u64 option" task_failure
  | KReceiveLocal
  | KIdle idle_look "nat \<Rightarrow> idle_look"
  | KStart ktask
  | KWake wake_notice
  | KSubmit "'e spawn_packet"
  | KFlush
  | KPublish
  | KRetire

fun kernel_handle :: "('e, 'r) kernel_event \<Rightarrow> ('e, 'r) kernel \<Rightarrow> ('e, 'r) kernel kernel_result" where
  "kernel_handle (KTick env changed) k = map_sum id snd (kernel_tick env changed k)"
| "kernel_handle (KReceive scope_of acquire) k = map_sum id snd (kernel_receive scope_of acquire k)"
| "kernel_handle (KAbort scope_of abandon scope reason) k = map_sum id snd (kernel_abort scope_of abandon scope reason k)"
| "kernel_handle (KStart t) k = Inr (push_start t k)"
| "kernel_handle (KWake n) k = Inr (push_wake n k)"
| "kernel_handle KReceiveLocal k = receive_local k"
| "kernel_handle (KIdle first look) k = map_sum id snd (wait_for_work first look k)"
| "kernel_handle KRetire k = kernel_retire k"
| "kernel_handle (KSubmit p) k = Inr (k\<lparr>kn_inbox := snd (inbox_push p (kn_inbox k))\<rparr>)"
| "kernel_handle KFlush k = flush_completions k"
| "kernel_handle KPublish k = kernel_publish k"

text \<open>The tasks an event hands to the kernel.\<close>

fun event_ids :: "('e, 'r) kernel_event \<Rightarrow> ('e, 'r) kernel \<Rightarrow> task_id multiset" where
  "event_ids (KStart t) k = {#kt_id t#}"
| "event_ids (KSubmit p) k = (case fst (inbox_push p (kn_inbox k)) of Inl _ \<Rightarrow> {#} | Inr _ \<Rightarrow> {#pk_task p#})"
| "event_ids _ k = {#}"

text \<open>
  \<open>S\<close> are the scopes the control owns, at most as many as configured, among them those with a
  deferred abort. Admission keeps a place for every task it hands over; a scope is aborted
  while it is owned; a borrowed task whose lexical owner is gone has no publisher left.
\<close>

definition scopes_owned :: "u64 set \<Rightarrow> ('e, 'r) kernel \<Rightarrow> bool" where
  "scopes_owned S k \<longleftrightarrow> finite S \<and> card S \<le> cf_max_owned_scopes (kn_config k) \<and> fst ` set (kn_aborts k) \<subseteq> insert None (Some ` S)"

fun event_ok :: "u64 set \<Rightarrow> ('e, 'r) kernel_event \<Rightarrow> ('e, 'r) kernel \<Rightarrow> bool" where
  "event_ok S (KTick env changed) k \<longleftrightarrow> (\<forall>s. te_abort_reason env s \<noteq> None \<longrightarrow> s \<in> S)
     \<and> (\<forall>key p. parked_get (kn_parked k) key = Some p \<longrightarrow> key_is_borrowed key \<longrightarrow> te_revoked env key \<longrightarrow> te_abandon env (pt_token p))"
| "event_ok S (KAbort scope_of abandon scope reason) k \<longleftrightarrow> scope \<in> insert None (Some ` S)"
| "event_ok S (KStart t) k \<longleftrightarrow> size (kernel_ids k) < cf_max_vthreads (kn_config k)"
| "event_ok S (KSubmit p) k \<longleftrightarrow> pk_entry p \<noteq> None \<and> size (kernel_ids k) < cf_max_vthreads (kn_config k)"
| "event_ok S _ k \<longleftrightarrow> True"

text \<open>A history with the tasks handed over so far.\<close>

inductive kernel_run :: "runtime_config \<Rightarrow> carrier_id \<Rightarrow> task_id multiset \<Rightarrow> ('e, 'r) kernel \<Rightarrow> bool"
  for config :: runtime_config and i :: carrier_id where
  start: "config_ok fits config \<Longrightarrow> cf_max_vthreads config < KEY_SLOTS \<Longrightarrow> kernel_run config i {#} (kernel_new config i)"
| step: "kernel_run config i M k \<Longrightarrow> scopes_owned S k \<Longrightarrow> event_ok S ev k \<Longrightarrow> kernel_handle ev k = Inr k' \<Longrightarrow>
    kernel_run config i (M + event_ids ev k) k'"

section \<open>The invariant of every history\<close>

lemma kernel_new_idle:
  assumes "config_ok fits config" "cf_max_vthreads config < KEY_SLOTS"
  shows "kernel_idle {} {#} (kernel_new config i)"
proof -
  have "0 < cf_max_owned_scopes config" "0 < cf_carrier_queue_capacity config" using assms(1) by (simp_all add: config_ok_def config_clauses_def)
  then show ?thesis
    using assms(2) kbatch_new[of i None] tq_inv_new inbox_new_ok[of "cf_carrier_queue_capacity config"]
    by (auto simp: kernel_idle_def kernel_rest_def inv_defs kernel_new_def places_ok_def placed_def deferred_ok_def timers_ok_def
        aborts_ok_def packets_ok_def PROGRESS_PUBLICATION_BATCH_def tq_new_def inbox_new_def)
qed

lemma kernel_idle_owner:
  assumes "kernel_idle S M k" "scopes_owned S' k"
  shows "kernel_idle S' M k"
  using assms by (auto simp: kernel_idle_def scopes_owned_def kernel_inv_def limits_ok_def aborts_ok_def)

lemma kernel_publish_idle:
  assumes idle: "kernel_idle S M k"
  shows "ok_result (kernel_idle S M) (kernel_publish k)"
  by (rule ok_mono[OF kernel_publish_ok[OF kernel_idle_D(1)[OF idle]]])
    (use idle in \<open>simp add: kernel_idle_def kernel_rest_def quiet_def\<close>)

lemma observe_idle_keeps:
  "observe_idle_work look k = (b, k') \<Longrightarrow> kernel_idle S M k \<Longrightarrow> kernel_idle S M k' \<and> kn_batch k' = kn_batch k"
  by (auto simp: observe_idle_work_def kernel_idle_def kernel_rest_def split: if_splits)

lemma idle_probes_keeps:
  "idle_probes n look k = (b, k') \<Longrightarrow> kernel_idle S M k \<Longrightarrow> kernel_idle S M k' \<and> kn_batch k' = kn_batch k"
proof (induction n arbitrary: k)
  case (Suc n)
  obtain w k1 where o: "observe_idle_work (look (Suc n)) k = (w, k1)" by fastforce
  with observe_idle_keeps[OF o Suc.prems(2)] Suc show ?case by (auto split: if_splits)
qed simp

lemma wait_for_work_ok:
  assumes idle: "kernel_idle S M k"
  shows "ok_result (\<lambda>(_, k'). kernel_idle S M k' \<and> batch_is_empty (kn_batch k')) (wait_for_work first look k)"
  unfolding wait_for_work_def
proof (rule ok_bind)
  show "ok_result (\<lambda>k'. kernel_idle S M k' \<and> batch_is_empty (kn_batch k')) (flush_completions k)"
    by (rule ok_mono[OF flush_completions_ok[OF kernel_idle_D(1)[OF idle]]])
      (use idle in \<open>simp add: kernel_idle_def kernel_rest_def quiet_def\<close>)
next
  fix k1 assume k1: "kernel_idle S M k1 \<and> batch_is_empty (kn_batch k1)"
  define deadline where "deadline = tq_next_deadline (kn_timers k1)"
  define k2 where "k2 = (if deadline = None then k1 else k1\<lparr>kn_stats := (kn_stats k1)\<lparr>rs_timer_sleeps := rs_timer_sleeps (kn_stats k1) + 1\<rparr>\<rparr>)"
  have k2: "kernel_idle S M k2" "kn_batch k2 = kn_batch k1" using k1 by (auto simp: k2_def kernel_idle_def kernel_rest_def)
  obtain w k3 where o: "observe_idle_work first k2 = (w, k3)" by fastforce
  obtain f k4 where p: "(if deadline = None \<and> 1 < cf_carriers (kn_config k3) then idle_probes IDLE_SIGNAL_PROBES look k3 else (False, k3)) = (f, k4)" by fastforce
  have k3: "kernel_idle S M k3 \<and> kn_batch k3 = kn_batch k1" using observe_idle_keeps[OF o k2(1)] k2(2) by simp
  have k4: "kernel_idle S M k4 \<and> kn_batch k4 = kn_batch k1"
    using p k3 idle_probes_keeps[of IDLE_SIGNAL_PROBES look k3 f k4 S M] by (cases "deadline = None \<and> 1 < cf_carriers (kn_config k3)") auto
  have pub: "kernel_publish k4 = Inr (k4\<lparr>kn_unpublished := 0\<rparr>)" using kernel_publish_eq[OF kernel_inv_D(1)[OF kernel_idle_D(1)]] k4 by blast
  then have "kernel_idle S M (k4\<lparr>kn_unpublished := 0\<rparr>)" using kernel_publish_idle[of S M k4] k4 by simp
  then show "ok_result (\<lambda>(_, k'). kernel_idle S M k' \<and> batch_is_empty (kn_batch k'))
     (let deadline = tq_next_deadline (kn_timers k1);
         k = (if deadline = None then k1 else k1\<lparr>kn_stats := (kn_stats k1)\<lparr>rs_timer_sleeps := rs_timer_sleeps (kn_stats k1) + 1\<rparr>\<rparr>);
         (work, k) = observe_idle_work first k in
     if work then Inr (None, k)
     else let (found, k) = (if deadline = None \<and> 1 < cf_carriers (kn_config k) then idle_probes IDLE_SIGNAL_PROBES look k else (False, k)) in
       if found then Inr (None, k)
       else bindp (kernel_publish k) (\<lambda>k. Inr (Some deadline, k)))"
    using k1 k3 k4 pub unfolding Let_def deadline_def[symmetric] k2_def[symmetric] o prod.case p by simp
qed

lemma kernel_handle_ok:
  assumes idle: "kernel_idle S M k" and guard: "event_ok S ev k"
  shows "ok_result (kernel_idle S (M + event_ids ev k)) (kernel_handle ev k)"
proof (cases ev)
  case (KTick env changed)
  have "ok_result (\<lambda>(_, k'). kernel_idle S M k') (kernel_tick env changed k)"
    by (rule kernel_tick_ok[OF idle]) (use guard KTick in auto)
  then show ?thesis using KTick by (auto intro!: ok_map_sum elim!: ok_mono)
next
  case (KReceive scope_of acquire)
  then show ?thesis using kernel_receive_ok[OF idle, of scope_of acquire] by auto
next
  case (KAbort scope_of abandon scope reason)
  then show ?thesis using kernel_idle_abort[OF idle, of scope scope_of abandon reason] guard by auto
next
  case (KStart t)
  then show ?thesis using idle guard by (auto simp: push_start_def kernel_idle_def kernel_rest_def inv_defs)
next
  case (KWake n)
  then show ?thesis using idle by (simp add: push_wake_def kernel_idle_def kernel_rest_def)
next
  case KReceiveLocal
  then show ?thesis using receive_local_idle[OF idle] kernel_publish_idle by (auto simp: receive_local_def)
next
  case (KIdle first look)
  then show ?thesis using wait_for_work_ok[OF idle, of first look] by (auto intro!: ok_map_sum elim!: ok_mono)
next
  case KRetire
  then show ?thesis using kernel_publish_idle[OF idle] idle by (auto simp: kernel_retire_def ok_result_def split: sum.splits)
next
  case (KSubmit p)
  obtain r i where push: "inbox_push p (kn_inbox k) = (r, i)" by fastforce
  have "inbox_ok (kn_inbox k)" using kernel_inv_D(6)[OF kernel_idle_D(1)[OF idle]] by (simp add: packets_ok_def)
  then have "inbox_ok i" using inbox_push_ok push by blast
  moreover have "ib_starts i = ib_starts (kn_inbox k) @ (case r of Inl _ \<Rightarrow> [] | Inr _ \<Rightarrow> [p])"
    using push by (auto simp: inbox_push_def Let_def split: if_splits)
  ultimately have "kernel_idle S (M + event_ids ev k) (k\<lparr>kn_inbox := i\<rparr>)"
    using idle guard push KSubmit by (auto simp: kernel_idle_def kernel_rest_def inv_defs packets_ok_def split: sum.splits)
  then show ?thesis using KSubmit push by simp
next
  case KFlush
  have "ok_result (kernel_idle S M) (flush_completions k)"
    by (rule ok_mono[OF flush_completions_ok[OF kernel_idle_D(1)[OF idle]]])
      (use idle in \<open>simp add: kernel_idle_def kernel_rest_def quiet_def\<close>)
  then show ?thesis using KFlush by simp
next
  case KPublish
  then show ?thesis using kernel_publish_idle[OF idle] by simp
qed

lemma kernel_run_idle: "kernel_run config i M k \<Longrightarrow> \<exists>S. kernel_idle S M k"
proof (induction rule: kernel_run.induct)
  case (start fits)
  then show ?case using kernel_new_idle by blast
next
  case (step M k S ev k')
  from step.IH obtain S0 where "kernel_idle S0 M k" by blast
  then have "kernel_idle S M k" using step.hyps(2) by (rule kernel_idle_owner)
  from kernel_handle_ok[OF this step.hyps(3)] step.hyps(4) show ?case by auto
qed

lemma kernel_run_owned: "kernel_run config i M k \<Longrightarrow> scopes_owned S k \<Longrightarrow> kernel_idle S M k"
  using kernel_run_idle kernel_idle_owner by blast

section \<open>Properties\<close>






text \<open>What a look or a poll that finds nothing has seen.\<close>

lemma observe_idle_nothing:
  "observe_idle_work look k = (False, k') \<Longrightarrow> k' = k \<and> kn_wakes k = [] \<and> il_pending look = 0 \<and> \<not> il_hub look"
  by (auto simp: observe_idle_work_def split: if_splits)

lemma idle_probes_nothing:
  "idle_probes n look k = (False, k') \<Longrightarrow> k' = k \<and> (\<forall>m. 0 < m \<and> m \<le> n \<longrightarrow> il_pending (look m) = 0 \<and> \<not> il_hub (look m) \<and> \<not> il_changed (look m))"
proof (induction n arbitrary: k)
  case (Suc n)
  obtain w k1 where o: "observe_idle_work (look (Suc n)) k = (w, k1)" by fastforce
  with Suc.prems have w: "w = False" "\<not> il_changed (look (Suc n))" "idle_probes n look k1 = (False, k')" by (auto split: if_splits)
  note now = observe_idle_nothing[OF o[unfolded w(1)]]
  show ?case using Suc.IH[OF w(3)] now w(2) by (auto simp: le_Suc_eq)
qed simp

text \<open>
  A carrier that idles has published every completion it had queued, and it goes to sleep
  only after it has seen no work: no local wake, no published start, no notice in its hub, and,
  when it polls first, the same and an unchanged signal at every one of its 640 probes; it sleeps
  until the earliest timer, with a fresh snapshot published.
\<close>

theorem idle_sleep_exact:
  assumes run: "kernel_run config i M k" and wait: "wait_for_work first look k = Inr (r, k')"
  shows "batch_is_empty (kn_batch k')
    \<and> (\<forall>deadline. r = Some deadline \<longrightarrow> kn_wakes k' = [] \<and> il_pending first = 0 \<and> \<not> il_hub first \<and> kn_unpublished k' = 0
        \<and> deadline = tq_next_deadline (kn_timers k')
        \<and> (deadline = None \<and> 1 < cf_carriers (kn_config k') \<longrightarrow>
              (\<forall>m. 0 < m \<and> m \<le> IDLE_SIGNAL_PROBES \<longrightarrow> il_pending (look m) = 0 \<and> \<not> il_hub (look m) \<and> \<not> il_changed (look m))))"
proof -
  from kernel_run_idle[OF run] obtain S where idle: "kernel_idle S M k" by blast
  have empty: "batch_is_empty (kn_batch k')" using wait_for_work_ok[OF idle, of first look] wait by simp
  have sleep: "kn_wakes k' = [] \<and> il_pending first = 0 \<and> \<not> il_hub first \<and> kn_unpublished k' = 0 \<and> deadline = tq_next_deadline (kn_timers k')
        \<and> (deadline = None \<and> 1 < cf_carriers (kn_config k') \<longrightarrow>
              (\<forall>m. 0 < m \<and> m \<le> IDLE_SIGNAL_PROBES \<longrightarrow> il_pending (look m) = 0 \<and> \<not> il_hub (look m) \<and> \<not> il_changed (look m)))"
    if r: "r = Some deadline" for deadline
  proof -
    from wait obtain k1 where k1: "flush_completions k = Inr k1" by (auto simp: wait_for_work_def bindp_Inr)
    define d where "d = tq_next_deadline (kn_timers k1)"
    define k2 where "k2 = (if d = None then k1 else k1\<lparr>kn_stats := (kn_stats k1)\<lparr>rs_timer_sleeps := rs_timer_sleeps (kn_stats k1) + 1\<rparr>\<rparr>)"
    obtain w k3 where o: "observe_idle_work first k2 = (w, k3)" by fastforce
    obtain f k4 where p: "(if d = None \<and> 1 < cf_carriers (kn_config k3) then idle_probes IDLE_SIGNAL_PROBES look k3 else (False, k3)) = (f, k4)" by fastforce
    have "wait_for_work first look k = (if w then Inr (None, k3) else if f then Inr (None, k4)
        else bindp (kernel_publish k4) (\<lambda>k. Inr (Some d, k)))"
      unfolding wait_for_work_def k1 bindp_simps Let_def d_def[symmetric] k2_def[symmetric] o prod.case p ..
    with wait r have slept: "\<not> w" "\<not> f" "d = deadline" "kernel_publish k4 = Inr k'" by (auto simp: bindp_Inr split: if_splits)
    from slept(1) o have n1: "k3 = k2 \<and> kn_wakes k2 = [] \<and> il_pending first = 0 \<and> \<not> il_hub first" using observe_idle_nothing[of first k2 k3] by simp
    have n2: "k4 = k3 \<and> (d = None \<and> 1 < cf_carriers (kn_config k3) \<longrightarrow>
        (\<forall>m. 0 < m \<and> m \<le> IDLE_SIGNAL_PROBES \<longrightarrow> il_pending (look m) = 0 \<and> \<not> il_hub (look m) \<and> \<not> il_changed (look m)))"
      using p slept(2) idle_probes_nothing[of IDLE_SIGNAL_PROBES look k3 k4] by (cases "d = None \<and> 1 < cf_carriers (kn_config k3)") auto
    have "k' = k4\<lparr>kn_unpublished := 0\<rparr>" using slept(4) by (auto simp: kernel_publish_def kernel_panic_def split: if_splits)
    with n1 n2 slept(3) show ?thesis by (auto simp: k2_def d_def)
  qed
  show ?thesis using empty sleep by blast
qed

section \<open>A sample history\<close>

text \<open>One task is handed over and received.\<close>

definition sample_packet :: "unit spawn_packet" where
  "sample_packet = \<lparr>pk_task = 7, pk_entry = Some ()\<rparr>"

definition kernel_submitted :: "(unit, unit) kernel" where
  "kernel_submitted = projr (kernel_handle (KSubmit sample_packet) (kernel_new config_default 0))"

definition kernel_sample :: "(unit, unit) kernel" where
  "kernel_sample = projr (kernel_handle (KReceive (\<lambda>_. 1) (\<lambda>_. True)) kernel_submitted)"

lemma insert_first:
  "tasks_insert_owned \<lparr>kt_id = 7, kt_scope = 1\<rparr> tasks_new =
     Inr (TaskKey 2, \<lparr>ks_owned = \<lparr>slots = [Some \<lparr>kt_id = 7, kt_scope = 1\<rparr>], vacant = []\<rparr>, ks_borrowed = slab_new\<rparr>)"
  by (simp add: tasks_insert_owned_def tasks_new_def slab_insert_def slab_new_def key_owned_def key_encode_def checked_add_def checked_mul_def)

lemmas sample_defs = kernel_new_def config_default_def DEFAULT_MAX_VTHREADS_def inbox_new_def inbox_push_def sample_packet_def Let_def

lemma kernel_submitted_eq:
  "kernel_submitted = (kernel_new config_default 0)\<lparr>kn_inbox := (inbox_new 256)\<lparr>ib_starts := [sample_packet], ib_pending_starts := 1\<rparr>\<rparr>"
  by (simp add: kernel_submitted_def sample_defs)

lemma kernel_sample_eq:
  "kernel_sample = (kernel_new config_default 0)\<lparr>
     kn_tasks := \<lparr>ks_owned = \<lparr>slots = [Some \<lparr>kt_id = 7, kt_scope = 1\<rparr>], vacant = []\<rparr>, ks_borrowed = slab_new\<rparr>,
     kn_ready := rq_push_back (TaskKey 2) rq_new\<rparr>"
  by (simp add: kernel_sample_def kernel_submitted_eq kernel_receive_def receive_local_tasks_def receive_remote_tasks_def
      receive_limit_def inbox_drain_into_def kernel_publish_def insert_first inbox_pending_def snapshot_total_def tasks_len_def
      slab_len_def slab_new_def rq_len_def rq_push_back_def rq_new_def parked_new_def REMOTE_READY_TARGET_def sample_defs)

lemma kernel_submitted_run: "kernel_run config_default 0 {#7#} kernel_submitted"
proof -
  let ?k0 = "kernel_new config_default 0 :: (unit, unit) kernel"
  have "config_ok (\<lambda>_. True) config_default" "cf_max_vthreads config_default < KEY_SLOTS"
    by (simp_all add: config_ok_def config_clauses_def config_default_def DEFAULT_MAX_VTHREADS_def DEFAULT_STACK_SIZE_def
        DEFAULT_STACK_CACHE_def MIN_STACK_SIZE_def KEY_SLOTS_def)
  then have "kernel_run config_default 0 {#} ?k0" by (rule kernel_run.start)
  moreover have "scopes_owned {} ?k0" by (simp add: scopes_owned_def kernel_new_def)
  moreover have "event_ok {} (KSubmit sample_packet) ?k0"
    by (simp add: sample_packet_def kernel_new_def kernel_ids_def inbox_new_def config_default_def DEFAULT_MAX_VTHREADS_def)
  moreover have "kernel_handle (KSubmit sample_packet) ?k0 = Inr kernel_submitted" by (simp add: kernel_submitted_def)
  ultimately have "kernel_run config_default 0 ({#} + event_ids (KSubmit sample_packet) ?k0) kernel_submitted" by (rule kernel_run.step)
  moreover have "event_ids (KSubmit sample_packet) ?k0 = {#7#}"
    by (simp add: sample_packet_def kernel_new_def inbox_push_def inbox_new_def config_default_def Let_def)
  ultimately show ?thesis by simp
qed

lemma kernel_sample_run: "kernel_run config_default 0 {#7#} kernel_sample"
proof -
  from kernel_run_idle[OF kernel_submitted_run] obtain S where idle: "kernel_idle S {#7#} kernel_submitted" by blast
  have "kn_aborts kernel_submitted = []" by (simp add: kernel_submitted_eq kernel_new_def)
  then have owned: "scopes_owned {} kernel_submitted" by (simp add: scopes_owned_def)
  from kernel_receive_ok[OF idle, of "\<lambda>_. 1" "\<lambda>_. True"]
  have "kernel_handle (KReceive (\<lambda>_. 1) (\<lambda>_. True)) kernel_submitted = Inr kernel_sample" by (auto simp: kernel_sample_def)
  from kernel_run.step[OF kernel_submitted_run owned _ this] show ?thesis by simp
qed

lemma kernel_sample_values:
  "kn_aborts kernel_sample = []" "map_option kt_scope (tasks_get (kn_tasks kernel_sample) (TaskKey 2)) = Some 1"
  "parked_get (kn_parked kernel_sample) (TaskKey 2) = None" "cf_max_owned_scopes (kn_config kernel_sample) = 65536" "length (ib_starts (kn_inbox kernel_submitted)) = 1" "kn_pressure kernel_submitted = 0"
  by (simp_all add: kernel_sample_eq kernel_submitted_eq tasks_get_def slab_get_def key_is_borrowed_def key_index_def sample_defs)

lemma kernel_sample_owned: "scopes_owned {1} kernel_sample"
  by (simp add: scopes_owned_def kernel_sample_values)






definition quiet_look :: idle_look where
  "quiet_look = \<lparr>il_pending = 0, il_hub = False, il_changed = False\<rparr>"

theorem idle_sleep_exact_witness:
  "\<exists>k'. wait_for_work quiet_look (\<lambda>_. quiet_look) kernel_sample = Inr (Some None, k') \<and> kn_wakes k' = [] \<and> kn_unpublished k' = 0"
proof -
  have "\<exists>k'. wait_for_work quiet_look (\<lambda>_. quiet_look) kernel_sample = Inr (Some None, k')"
    by (simp add: wait_for_work_def kernel_sample_eq flush_completions_def observe_idle_work_def quiet_look_def batch_is_empty_def
        batch_new_def tq_next_deadline_def tq_new_def kernel_publish_def snapshot_total_def tasks_len_def slab_len_def slab_new_def
        rq_len_def rq_push_back_def rq_new_def parked_new_def sample_defs)
  then obtain k' where w: "wait_for_work quiet_look (\<lambda>_. quiet_look) kernel_sample = Inr (Some None, k')" by blast
  from idle_sleep_exact[OF kernel_sample_run w] w show ?thesis by blast
qed

end
