(* ===== verification/Cancel_Policy.thy ===== *)
theory Cancel_Policy
  imports Cancel_History Task_Record
begin

text \<open>
  Cancellation as a task meets it (cancellation.rs, task_context.rs, task_context_reuse.rs): the
  domain of tokens with its epoch, the flag word of each live node and the batched retirement of
  dead ones; the task's policy, which asks the token again only after the epoch has moved; and
  the interleaving of cancellations with checkpoints. Tokens are named by their graph identities.
\<close>

section \<open>The flag word of a node\<close>

definition NODE_CANCELLED :: usize where "NODE_CANCELLED = push_bit 63 1"

definition ns_new :: "usize \<Rightarrow> usize result_p" where
  "ns_new i = (if i < NODE_CANCELLED then Inr i else Inl (Panic ''cancellation identity exhausted''))"

definition ns_id :: "usize \<Rightarrow> usize" where
  "ns_id w = w AND NOT NODE_CANCELLED"

definition ns_cancel :: "usize \<Rightarrow> usize" where
  "ns_cancel w = w OR NODE_CANCELLED"

definition ns_is_cancelled :: "usize \<Rightarrow> bool" where
  "ns_is_cancelled w \<longleftrightarrow> w AND NODE_CANCELLED \<noteq> 0"

section \<open>The domain\<close>

definition RETIREMENT_BATCH :: nat where "RETIREMENT_BATCH = 64"

text \<open>\<open>dm_nodes\<close> holds the flag words of the live nodes; \<open>dm_retired\<close> the dead ones not yet removed.\<close>

record cancel_domain =
  dm_epoch :: u64
  dm_retired :: "usize list"
  dm_graph :: cancel_graph
  dm_nodes :: "usize \<rightharpoonup> usize"

definition domain_new :: cancel_domain where
  "domain_new = \<lparr>dm_epoch = 1, dm_retired = [], dm_graph = graph_new, dm_nodes = Map.empty\<rparr>"

definition token_insert :: "usize list \<Rightarrow> cancel_domain \<Rightarrow> (usize \<times> cancel_domain) result_p" where
  "token_insert parents d =
     bindp (graph_reserve (dm_graph d)) (\<lambda>(i, g1).
     bindp (ns_new i) (\<lambda>w.
     bindp (graph_insert i parents g1) (\<lambda>(cancelled, g2).
       Inr (i, d\<lparr>dm_graph := g2, dm_nodes := (dm_nodes d)(i \<mapsto> if cancelled then ns_cancel w else w)\<rparr>))))"

definition token_root :: "nat \<Rightarrow> (usize \<times> cancel_domain) result_p" where
  "token_root capacity =
     (if capacity = 0 then Inl (Panic ''cancellation capacity must be positive'') else token_insert [] domain_new)"

definition child_token :: "usize \<Rightarrow> cancel_domain \<Rightarrow> (usize \<times> cancel_domain) result_p" where
  "child_token t = token_insert [t]"

definition child_for_scope :: "usize \<Rightarrow> usize \<Rightarrow> cancel_domain \<Rightarrow> (usize \<times> cancel_domain) result_p" where
  "child_for_scope t scope = token_insert [t, scope]"

fun drain_retired :: "nat \<Rightarrow> usize list \<Rightarrow> cancel_graph \<Rightarrow> cancel_graph result_p option" where
  "drain_retired fuel [] g = Some (Inr g)"
| "drain_retired fuel (i # is) g =
     (case graph_remove fuel i g of
        Some (Inr g') \<Rightarrow> drain_retired fuel is g'
      | r \<Rightarrow> r)"

definition domain_retire :: "nat \<Rightarrow> usize \<Rightarrow> cancel_domain \<Rightarrow> cancel_domain result_p option" where
  "domain_retire fuel i d =
     (let retired = dm_retired d @ [i] in
      if length retired < RETIREMENT_BATCH then Some (Inr (d\<lparr>dm_retired := retired\<rparr>))
      else map_option (map_sum id (\<lambda>g. d\<lparr>dm_graph := g, dm_retired := []\<rparr>)) (drain_retired fuel retired (dm_graph d)))"

definition node_drop :: "nat \<Rightarrow> usize \<Rightarrow> cancel_domain \<Rightarrow> cancel_domain result_p option" where
  "node_drop fuel i d = domain_retire fuel i (d\<lparr>dm_nodes := (dm_nodes d)(i := None)\<rparr>)"

text \<open>
  The steps of \<open>cancel\<close> under the domain's lock: the walk over the graph, which yields the live
  nodes to mark; the mark of each; the move of the epoch.
\<close>

definition cancel_walk :: "nat \<Rightarrow> usize \<Rightarrow> cancel_domain \<Rightarrow> (usize list \<times> cancel_domain) result_p option" where
  "cancel_walk fuel t d =
     map_option (map_sum id (\<lambda>(ts, g). (ts, d\<lparr>dm_graph := g\<rparr>)))
       (cancel_nodes fuel (\<lambda>i. dm_nodes d i \<noteq> None) t (dm_graph d))"

definition mark_node :: "usize \<Rightarrow> cancel_domain \<Rightarrow> cancel_domain" where
  "mark_node t d = d\<lparr>dm_nodes := (dm_nodes d)(t := map_option ns_cancel (dm_nodes d t))\<rparr>"

definition move_epoch :: "cancel_domain \<Rightarrow> cancel_domain" where
  "move_epoch d = d\<lparr>dm_epoch := dm_epoch d + 1\<rparr>"

text \<open>The whole transaction, with the nodes whose waits it then selects.\<close>

definition token_cancel :: "nat \<Rightarrow> usize \<Rightarrow> cancel_domain \<Rightarrow> (usize list \<times> cancel_domain) result_p option" where
  "token_cancel fuel t d =
     map_option (map_sum id (\<lambda>(ts, d). (ts, move_epoch (fold mark_node ts d)))) (cancel_walk fuel t d)"

definition token_is_cancelled :: "usize \<Rightarrow> cancel_domain \<Rightarrow> bool" where
  "token_is_cancelled t d \<longleftrightarrow> (\<exists>w. dm_nodes d t = Some w \<and> ns_is_cancelled w)"

section \<open>The policy of a task\<close>

definition POLICY_CLOSING :: "8 word" where "POLICY_CLOSING = 1"
definition POLICY_CANCELLED :: "8 word" where "POLICY_CANCELLED = 2"
definition POLICY_DEADLINE :: "8 word" where "POLICY_DEADLINE = 4"

record task_policy =
  tp_token :: usize
  tp_observed :: u64
  tp_masked :: nat
  tp_state :: "8 word"

datatype checkpoint =
    CpContinue
  | CpRuntimeStopped
  | CpCancelled
  | CpDeadlineExceeded
  | CpCheckDeadline

definition policy_new :: "usize \<Rightarrow> bool \<Rightarrow> task_policy" where
  "policy_new t has_deadline =
     \<lparr>tp_token = t, tp_observed = 0, tp_masked = 0, tp_state = (if has_deadline then POLICY_DEADLINE else 0)\<rparr>"

text \<open>Reuse by the next task; \<open>shares\<close> says whether its token belongs to the cached domain.\<close>

definition policy_reset :: "bool \<Rightarrow> usize \<Rightarrow> bool \<Rightarrow> task_policy \<Rightarrow> task_policy result_p" where
  "policy_reset shares t has_deadline p =
     (if \<not> shares then Inl (Panic ''reused task context crossed cancellation domains'')
      else Inr (p\<lparr>tp_token := t, tp_observed := 0, tp_masked := 0, tp_state := (if has_deadline then POLICY_DEADLINE else 0)\<rparr>))"

definition policy_close :: "task_policy \<Rightarrow> task_policy" where
  "policy_close p = p\<lparr>tp_state := tp_state p OR POLICY_CLOSING\<rparr>"

definition policy_closing :: "task_policy \<Rightarrow> bool" where
  "policy_closing p \<longleftrightarrow> tp_state p AND POLICY_CLOSING \<noteq> 0"

definition set_masked :: "nat \<Rightarrow> task_policy \<Rightarrow> task_policy" where
  "set_masked n p = p\<lparr>tp_masked := n\<rparr>"

text \<open>
  A checkpoint: what is decided from the task's own words; the load of the epoch, whose flag says
  that the token must be asked; the answer of the token; and what remains to be decided.
\<close>

definition policy_early :: "task_policy \<Rightarrow> checkpoint option" where
  "policy_early p =
     (if policy_closing p then Some CpRuntimeStopped
      else if tp_masked p \<noteq> 0 then Some CpContinue
      else if tp_state p AND POLICY_CANCELLED \<noteq> 0 then Some CpCancelled
      else None)"

definition policy_observe :: "u64 \<Rightarrow> task_policy \<Rightarrow> bool \<times> task_policy" where
  "policy_observe epoch p = (if epoch \<noteq> tp_observed p then (True, p\<lparr>tp_observed := epoch\<rparr>) else (False, p))"

definition policy_finish :: "task_policy \<Rightarrow> checkpoint" where
  "policy_finish p = (if tp_state p AND POLICY_DEADLINE \<noteq> 0 then CpCheckDeadline else CpContinue)"

definition policy_asked :: "bool \<Rightarrow> task_policy \<Rightarrow> checkpoint \<times> task_policy" where
  "policy_asked answer p =
     (if answer then (CpCancelled, p\<lparr>tp_state := tp_state p OR POLICY_CANCELLED\<rparr>) else (policy_finish p, p))"

definition policy_decision :: "u64 \<Rightarrow> bool \<Rightarrow> task_policy \<Rightarrow> checkpoint \<times> task_policy" where
  "policy_decision epoch answer p =
     (case policy_early p of
        Some d \<Rightarrow> (d, p)
      | None \<Rightarrow> (let (ask, p) = policy_observe epoch p in
                 if ask then policy_asked answer p else (policy_finish p, p)))"

text \<open>With the deadline of the task, and as the result of \<open>check\<close>.\<close>

definition checkpoint_decision :: "instant option \<Rightarrow> instant \<Rightarrow> u64 \<Rightarrow> bool \<Rightarrow> task_policy \<Rightarrow> checkpoint \<times> task_policy" where
  "checkpoint_decision deadline now epoch answer p =
     (case policy_decision epoch answer p of (d, p) \<Rightarrow>
        (if d = CpCheckDeadline
         then (case deadline of Some t \<Rightarrow> if t \<le> now then CpDeadlineExceeded else CpContinue | None \<Rightarrow> CpContinue)
         else d, p))"

fun decision_result :: "checkpoint \<Rightarrow> unit result result_p" where
  "decision_result CpContinue = Inr (Inr ())"
| "decision_result CpRuntimeStopped = Inr (Inl RuntimeStopped)"
| "decision_result CpCancelled = Inr (Inl Cancelled)"
| "decision_result CpDeadlineExceeded = Inr (Inl DeadlineExceeded)"
| "decision_result CpCheckDeadline = Inl (Panic ''resolved deadline decision'')"

definition context_check :: "instant option \<Rightarrow> instant \<Rightarrow> u64 \<Rightarrow> bool \<Rightarrow> task_policy \<Rightarrow> unit result result_p \<times> task_policy" where
  "context_check deadline now epoch answer p =
     (case checkpoint_decision deadline now epoch answer p of (d, p) \<Rightarrow> (decision_result d, p))"

definition interrupted :: "instant option \<Rightarrow> instant \<Rightarrow> u64 \<Rightarrow> bool \<Rightarrow> task_policy \<Rightarrow> bool \<times> task_policy" where
  "interrupted deadline now epoch answer p =
     (case checkpoint_decision deadline now epoch answer p of (d, p) \<Rightarrow> (d \<noteq> CpContinue, p))"

section \<open>Interleavings\<close>

text \<open>
  The tasks of a domain, each with the flag that it has loaded a new epoch and is about to ask its
  token; and the cancellation that holds the domain's lock, with the nodes it has still to mark.
  Other transactions on the graph wait for the lock; a drop that leaves the batch open does not
  need it. The last two arguments record the ancestry and the requests made. The epoch is taken
  not to wrap, which needs \<open>2 ^ 64\<close> cancellations.
\<close>

record policy_sys =
  ps_domain :: cancel_domain
  ps_cancel :: "usize list option"
  ps_tasks :: "nat \<rightharpoonup> task_policy \<times> bool"

definition put_task :: "nat \<Rightarrow> task_policy \<times> bool \<Rightarrow> policy_sys \<Rightarrow> policy_sys" where
  "put_task k x s = s\<lparr>ps_tasks := (ps_tasks s)(k \<mapsto> x)\<rparr>"

inductive policy_reach :: "policy_sys \<Rightarrow> (usize \<times> usize) set \<Rightarrow> usize set \<Rightarrow> bool" where
  start: "policy_reach \<lparr>ps_domain = domain_new, ps_cancel = None, ps_tasks = Map.empty\<rparr> {} {}"
| insert: "policy_reach s R Q \<Longrightarrow> ps_cancel s = None \<Longrightarrow> set ps \<subseteq> dom (dm_nodes (ps_domain s)) \<Longrightarrow>
     token_insert ps (ps_domain s) = Inr (i, d) \<Longrightarrow>
     policy_reach (s\<lparr>ps_domain := d\<rparr>) (R \<union> set ps \<times> {i}) Q"
| drop: "policy_reach s R Q \<Longrightarrow> i \<in> dom (dm_nodes (ps_domain s)) \<Longrightarrow>
     \<forall>k p b. ps_tasks s k = Some (p, b) \<longrightarrow> tp_token p \<noteq> i \<Longrightarrow>
     (case ps_cancel s of None \<Rightarrow> True
      | Some ts \<Rightarrow> i \<notin> set ts \<and> length (dm_retired (ps_domain s)) + 1 < RETIREMENT_BATCH) \<Longrightarrow>
     node_drop fuel i (ps_domain s) = Some (Inr d) \<Longrightarrow>
     policy_reach (s\<lparr>ps_domain := d\<rparr>) R Q"
| walk: "policy_reach s R Q \<Longrightarrow> ps_cancel s = None \<Longrightarrow> t \<in> dom (dm_nodes (ps_domain s)) \<Longrightarrow>
     cancel_walk fuel t (ps_domain s) = Some (Inr (ts, d)) \<Longrightarrow>
     policy_reach (s\<lparr>ps_domain := d, ps_cancel := Some ts\<rparr>) R (insert t Q)"
| mark: "policy_reach s R Q \<Longrightarrow> ps_cancel s = Some (t # ts) \<Longrightarrow>
     policy_reach (s\<lparr>ps_domain := mark_node t (ps_domain s), ps_cancel := Some ts\<rparr>) R Q"
| move: "policy_reach s R Q \<Longrightarrow> ps_cancel s = Some [] \<Longrightarrow> unat (dm_epoch (ps_domain s)) + 1 < 2 ^ 64 \<Longrightarrow>
     policy_reach (s\<lparr>ps_domain := move_epoch (ps_domain s), ps_cancel := None\<rparr>) R Q"
| enter: "policy_reach s R Q \<Longrightarrow> ps_tasks s k = None \<Longrightarrow> t \<in> dom (dm_nodes (ps_domain s)) \<Longrightarrow>
     policy_reach (put_task k (policy_new t has_deadline, False) s) R Q"
| reuse: "policy_reach s R Q \<Longrightarrow> ps_tasks s k = Some (p, False) \<Longrightarrow> t \<in> dom (dm_nodes (ps_domain s)) \<Longrightarrow>
     policy_reset True t has_deadline p = Inr p' \<Longrightarrow>
     policy_reach (put_task k (p', False) s) R Q"
| leave: "policy_reach s R Q \<Longrightarrow> ps_tasks s k = Some (p, False) \<Longrightarrow>
     policy_reach (s\<lparr>ps_tasks := (ps_tasks s)(k := None)\<rparr>) R Q"
| close: "policy_reach s R Q \<Longrightarrow> ps_tasks s k = Some (p, False) \<Longrightarrow> policy_reach (put_task k (policy_close p, False) s) R Q"
| mask: "policy_reach s R Q \<Longrightarrow> ps_tasks s k = Some (p, False) \<Longrightarrow> policy_reach (put_task k (set_masked n p, False) s) R Q"
| observe: "policy_reach s R Q \<Longrightarrow> ps_tasks s k = Some (p, False) \<Longrightarrow> policy_early p = None \<Longrightarrow>
     policy_observe (dm_epoch (ps_domain s)) p = (ask, p') \<Longrightarrow>
     policy_reach (put_task k (p', ask) s) R Q"
| ask: "policy_reach s R Q \<Longrightarrow> ps_tasks s k = Some (p, True) \<Longrightarrow>
     policy_asked (token_is_cancelled (tp_token p) (ps_domain s)) p = (c, p') \<Longrightarrow>
     policy_reach (put_task k (p', False) s) R Q"

section \<open>Words\<close>

lemma NODE_CANCELLED_mask: "NODE_CANCELLED = 2 ^ 63"
  by (simp add: NODE_CANCELLED_def push_bit_eq_mult)

lemma bit_NODE_CANCELLED: "bit NODE_CANCELLED n \<longleftrightarrow> n = 63"
  unfolding NODE_CANCELLED_mask bit_exp_iff by (auto dest: bit_imp_le_length)

lemma ns_is_cancelled_bit: "ns_is_cancelled w \<longleftrightarrow> bit w 63"
  unfolding ns_is_cancelled_def NODE_CANCELLED_mask by (simp only: and_exp_eq_0_iff_not_bit not_not)

lemma ns_cancel_is: "ns_is_cancelled (ns_cancel w)"
  by (simp add: ns_is_cancelled_bit ns_cancel_def NODE_CANCELLED_mask bit_or_iff bit_exp_iff)

lemma ns_cancel_id: "ns_id (ns_cancel w) = ns_id w"
  by (rule bit_word_eqI) (auto simp: ns_id_def ns_cancel_def bit_simps)

lemma ns_new_ok:
  assumes "ns_new i = Inr w"
  shows "w = i" "ns_id w = i" "\<not> ns_is_cancelled w"
proof -
  from assms have w: "w = i" "i < 2 ^ 63" by (simp_all add: ns_new_def NODE_CANCELLED_mask split: if_splits)
  then have small: "unat i < 2 ^ 63" by (simp add: word_less_nat_alt)
  have high: "\<not> bit i n" if "63 \<le> n" for n
  proof
    assume b: "bit i n"
    have "(2 :: nat) ^ 63 \<le> 2 ^ n" using that by (intro power_increasing) simp_all
    then have "unat i div 2 ^ n = 0" using small by simp
    then have "\<not> bit (unat i) n" by (simp only: bit_iff_odd) simp
    with b show False by (simp add: bit_unsigned_iff bit_imp_le_length)
  qed
  show "w = i" "\<not> ns_is_cancelled w" using w high by (simp_all add: ns_is_cancelled_bit)
  show "ns_id w = i" using high unfolding w(1)
    by (intro bit_word_eqI) (auto simp: ns_id_def bit_NODE_CANCELLED bit_and_iff bit_not_iff)
qed

lemma policy_words:
  "(s OR POLICY_CANCELLED) AND POLICY_CANCELLED \<noteq> 0"
  "(s OR POLICY_CLOSING) AND POLICY_CANCELLED = s AND POLICY_CANCELLED"
  "(if b then POLICY_DEADLINE else 0) AND POLICY_CANCELLED = 0"
proof -
  show "(s OR POLICY_CLOSING) AND POLICY_CANCELLED = s AND POLICY_CANCELLED"
    by (rule bit_word_eqI) (auto simp: POLICY_CANCELLED_def POLICY_CLOSING_def bit_simps)
  have "bit ((s OR POLICY_CANCELLED) AND POLICY_CANCELLED) 1"
    by (simp add: POLICY_CANCELLED_def bit_simps)
  then show "(s OR POLICY_CANCELLED) AND POLICY_CANCELLED \<noteq> 0" by auto
qed (simp add: POLICY_CANCELLED_def POLICY_DEADLINE_def)

section \<open>Invariant\<close>

text \<open>\<open>P\<close> is what the running cancellation has still to mark.\<close>

definition domain_ok :: "(usize \<times> usize) set \<Rightarrow> usize set \<Rightarrow> usize set \<Rightarrow> cancel_domain \<Rightarrow> bool" where
  "domain_ok R Q P d \<longleftrightarrow>
     history_ok (dm_graph d) R (dom (dm_nodes d) \<union> set (dm_retired d)) Q
     \<and> dom (dm_nodes d) \<inter> set (dm_retired d) = {} \<and> distinct (dm_retired d) \<and> length (dm_retired d) < RETIREMENT_BATCH
     \<and> 1 \<le> unat (dm_epoch d) \<and> P \<subseteq> dom (dm_nodes d) \<and> (\<forall>t \<in> P. requested R Q t)
     \<and> (\<forall>t w. dm_nodes d t = Some w \<longrightarrow> ns_id w = t \<and> (ns_is_cancelled w \<longleftrightarrow> requested R Q t \<and> t \<notin> P))"

definition task_ok :: "(usize \<times> usize) set \<Rightarrow> usize set \<Rightarrow> policy_sys \<Rightarrow> task_policy \<times> bool \<Rightarrow> bool" where
  "task_ok R Q s x \<longleftrightarrow> (case x of (p, asking) \<Rightarrow>
     tp_token p \<in> dom (dm_nodes (ps_domain s)) \<and> unat (tp_observed p) \<le> unat (dm_epoch (ps_domain s))
     \<and> (tp_state p AND POLICY_CANCELLED \<noteq> 0 \<longrightarrow> requested R Q (tp_token p))
     \<and> (\<not> asking \<and> tp_state p AND POLICY_CANCELLED = 0 \<and> token_is_cancelled (tp_token p) (ps_domain s) \<longrightarrow>
          tp_observed p \<noteq> dm_epoch (ps_domain s) \<or> ps_cancel s \<noteq> None))"

definition pending_marks :: "policy_sys \<Rightarrow> usize set" where
  "pending_marks s = (case ps_cancel s of None \<Rightarrow> {} | Some ts \<Rightarrow> set ts)"

definition policy_ok :: "(usize \<times> usize) set \<Rightarrow> usize set \<Rightarrow> policy_sys \<Rightarrow> bool" where
  "policy_ok R Q s \<longleftrightarrow>
     domain_ok R Q (pending_marks s) (ps_domain s) \<and> (\<forall>ts. ps_cancel s = Some ts \<longrightarrow> distinct ts)
     \<and> (\<forall>k x. ps_tasks s k = Some x \<longrightarrow> task_ok R Q s x)"

lemma domain_okD:
  assumes "domain_ok R Q P d"
  shows "history_ok (dm_graph d) R (dom (dm_nodes d) \<union> set (dm_retired d)) Q"
    "dom (dm_nodes d) \<inter> set (dm_retired d) = {}" "distinct (dm_retired d)" "length (dm_retired d) < RETIREMENT_BATCH"
    "1 \<le> unat (dm_epoch d)" "P \<subseteq> dom (dm_nodes d)" "\<And>t. t \<in> P \<Longrightarrow> requested R Q t"
    "\<And>t w. dm_nodes d t = Some w \<Longrightarrow> ns_id w = t \<and> (ns_is_cancelled w \<longleftrightarrow> requested R Q t \<and> t \<notin> P)"
  using assms by (auto simp: domain_ok_def)

lemma token_flag:
  assumes "domain_ok R Q P d" "t \<in> dom (dm_nodes d)"
  shows "token_is_cancelled t d \<longleftrightarrow> requested R Q t \<and> t \<notin> P"
  using assms(2) domain_okD(8)[OF assms(1)] by (auto simp: token_is_cancelled_def)

text \<open>A new token does not change what is requested of the others.\<close>

lemma requested_insert:
  assumes "history_ok g R L Q" "set ps \<subseteq> L" "graph_reserve g = Inr (i, g1)"
  shows "requested (R \<union> set ps \<times> {i}) Q t \<longleftrightarrow> (if t = i then \<exists>p \<in> set ps. requested R Q p else requested R Q t)" "i \<notin> L"
proof -
  have i: "i = cg_next g" using assms(3) by (auto simp: graph_reserve_def split: option.splits)
  have h: "R \<subseteq> {..<i} \<times> {..<i}" "Q \<subseteq> {..<i}" "tokens (view g) = L" "graph_ok R g" using assms(1) by (simp_all add: history_ok_def i)
  have "p < i" if "p \<in> L" for p
    using that view_wfD(3)[OF cg_wfD(2)[of g]] h(3,4) by (auto simp: graph_ok_def tokens_def node_ok_def i)
  then show L: "i \<notin> L" by blast
  have F: "i \<notin> Field R" "i \<notin> set ps" "i \<notin> Q" using h(1,2) L assms(2) by (auto simp: Field_def)
  show "requested (R \<union> set ps \<times> {i}) Q t \<longleftrightarrow> (if t = i then \<exists>p \<in> set ps. requested R Q p else requested R Q t)"
    using F(3) unfolding requested_def sink_paths[OF F(1,2)] by auto
qed

lemma token_insert_ok:
  assumes d: "domain_ok R Q {} d" and ps: "set ps \<subseteq> dom (dm_nodes d)" and r: "token_insert ps d = Inr (i, d')"
  shows "domain_ok (R \<union> set ps \<times> {i}) Q {} d'" "i \<notin> dom (dm_nodes d)" "dm_epoch d' = dm_epoch d"
    "dm_nodes d' = (dm_nodes d)(i \<mapsto> the (dm_nodes d' i))"
    "\<And>t. t \<in> dom (dm_nodes d) \<Longrightarrow> requested (R \<union> set ps \<times> {i}) Q t \<longleftrightarrow> requested R Q t"
proof -
  let ?L = "dom (dm_nodes d) \<union> set (dm_retired d)"
  note h = domain_okD(1)[OF d]
  from r obtain g1 w c g2 where s: "graph_reserve (dm_graph d) = Inr (i, g1)" "ns_new i = Inr w" "graph_insert i ps g1 = Inr (c, g2)"
    "d' = d\<lparr>dm_graph := g2, dm_nodes := (dm_nodes d)(i \<mapsto> if c then ns_cancel w else w)\<rparr>"
    by (auto simp: token_insert_def bindp_Inr)
  have psL: "set ps \<subseteq> ?L" using ps by blast
  from insert_ok[OF h psL s(1)] s(3) have g2: "c \<longleftrightarrow> (\<exists>p \<in> set ps. requested R Q p)"
    "history_ok g2 (R \<union> set ps \<times> {i}) (insert i ?L) Q" by auto
  note rq = requested_insert[OF h psL s(1)]
  note w = ns_new_ok[OF s(2)]
  show "i \<notin> dom (dm_nodes d)" "dm_epoch d' = dm_epoch d" "dm_nodes d' = (dm_nodes d)(i \<mapsto> the (dm_nodes d' i))"
    using rq(2) s(4) by simp_all
  show req: "requested (R \<union> set ps \<times> {i}) Q t \<longleftrightarrow> requested R Q t" if "t \<in> dom (dm_nodes d)" for t
    using that rq by auto
  have "ns_id v = t \<and> (ns_is_cancelled v \<longleftrightarrow> requested (R \<union> set ps \<times> {i}) Q t \<and> t \<notin> {})" if "dm_nodes d' t = Some v" for t v
  proof (cases "t = i")
    case True
    then show ?thesis using that w g2(1) rq(1) by (auto simp: s(4) ns_cancel_is ns_cancel_id)
  next
    case False
    then show ?thesis using that domain_okD(8)[OF d, of t v] rq(1)[of t] by (simp add: s(4))
  qed
  moreover have "insert i (dom (dm_nodes d)) \<inter> set (dm_retired d) = {}" using rq(2) domain_okD(2)[OF d] by auto
  ultimately show "domain_ok (R \<union> set ps \<times> {i}) Q {} d'"
    using g2(2) domain_okD(3,4,5)[OF d] by (simp add: domain_ok_def s(4))
qed

lemma drain_retired_ok:
  "history_ok g R L Q \<Longrightarrow> distinct is \<Longrightarrow> set is \<subseteq> L \<Longrightarrow> drain_retired fuel is g = Some r \<Longrightarrow>
     \<exists>g'. r = Inr g' \<and> history_ok g' R (L - set is) Q"
proof (induction "is" arbitrary: g L)
  case (Cons i "is")
  then have i: "i \<in> L" "i \<notin> set is" by auto
  from Cons.prems(4) obtain r1 where r1: "graph_remove fuel i g = Some r1" by (cases "graph_remove fuel i g") auto
  from remove_ok[OF Cons.prems(1) i(1) r1] obtain g1 where g1: "r1 = Inr g1" "history_ok g1 R (L - {i}) Q" by blast
  have "distinct is" "set is \<subseteq> L - {i}" "drain_retired fuel is g1 = Some r" using Cons.prems r1 g1(1) i by auto
  from Cons.IH[OF g1(2) this] show ?case by (simp add: Diff_insert2[symmetric] insert_commute)
qed auto

lemma node_drop_ok:
  assumes d: "domain_ok R Q P d" and i: "i \<in> dom (dm_nodes d)" "i \<notin> P" and r: "node_drop fuel i d = Some r"
  shows "\<exists>d'. r = Inr d' \<and> domain_ok R Q P d' \<and> dm_nodes d' = (dm_nodes d)(i := None) \<and> dm_epoch d' = dm_epoch d"
proof -
  note h = domain_okD[OF d]
  let ?n = "(dm_nodes d)(i := None)" and ?r = "dm_retired d @ [i]"
  have L: "dom ?n \<union> set ?r = dom (dm_nodes d) \<union> set (dm_retired d)" using i by auto
  have dis: "distinct ?r" "dom ?n \<inter> set ?r = {}" using h(2,3) i by auto
  have nodes: "ns_id w = t \<and> (ns_is_cancelled w \<longleftrightarrow> requested R Q t \<and> t \<notin> P)" if "?n t = Some w" for t w
    using that h(8) by (auto split: if_splits)
  show ?thesis
  proof (cases "length ?r < RETIREMENT_BATCH")
    case True
    then have "r = Inr (d\<lparr>dm_nodes := ?n, dm_retired := ?r\<rparr>)" using r by (simp add: node_drop_def domain_retire_def)
    moreover have "domain_ok R Q P (d\<lparr>dm_nodes := ?n, dm_retired := ?r\<rparr>)"
      unfolding domain_ok_def using h(1,5,6,7) L dis nodes i True by (auto simp del: set_append fun_upd_apply)
    ultimately show ?thesis by simp
  next
    case False
    with r obtain r1 where r1: "drain_retired fuel ?r (dm_graph d) = Some r1"
      "r = map_sum id (\<lambda>g. d\<lparr>dm_nodes := ?n, dm_graph := g, dm_retired := []\<rparr>) r1"
      by (auto simp: node_drop_def domain_retire_def)
    have sub: "set ?r \<subseteq> dom (dm_nodes d) \<union> set (dm_retired d)" using i(1) by auto
    from drain_retired_ok[OF h(1) dis(1) sub r1(1)] obtain g where g: "r1 = Inr g"
      "history_ok g R (dom (dm_nodes d) \<union> set (dm_retired d) - set ?r) Q" by blast
    have "dom (dm_nodes d) \<union> set (dm_retired d) - set ?r = dom ?n" using h(2) by auto
    then have "domain_ok R Q P (d\<lparr>dm_nodes := ?n, dm_graph := g, dm_retired := []\<rparr>)"
      unfolding domain_ok_def using g(2) h(5,6,7) nodes i by (auto simp: RETIREMENT_BATCH_def simp del: fun_upd_apply)
    then show ?thesis using r1(2) g(1) by simp
  qed
qed

lemma requested_cancel: "requested R (insert t Q) u \<longleftrightarrow> (t, u) \<in> R\<^sup>* \<or> requested R Q u"
  by (auto simp: requested_def)

lemma cancel_walk_ok:
  assumes d: "domain_ok R Q {} d" and t: "t \<in> dom (dm_nodes d)" and r: "cancel_walk fuel t d = Some r"
  shows "\<exists>ts d'. r = Inr (ts, d') \<and> domain_ok R (insert t Q) (set ts) d' \<and> distinct ts \<and> dm_nodes d' = dm_nodes d
    \<and> dm_epoch d' = dm_epoch d \<and> set ts = {u \<in> dom (dm_nodes d). (t, u) \<in> R\<^sup>* \<and> \<not> requested R Q u}"
proof -
  note h = domain_okD[OF d]
  from r obtain r1 where r1: "cancel_nodes fuel (\<lambda>i. dm_nodes d i \<noteq> None) t (dm_graph d) = Some r1"
    "r = map_sum id (\<lambda>(ts, g). (ts, d\<lparr>dm_graph := g\<rparr>)) r1" by (auto simp: cancel_walk_def)
  have "t \<in> dom (dm_nodes d) \<union> set (dm_retired d)" using t by blast
  from cancel_ok[OF h(1) this r1(1)] obtain ts g where g: "r1 = Inr (ts, g)"
    "history_ok g R (dom (dm_nodes d) \<union> set (dm_retired d)) (insert t Q)" "distinct ts"
    "set ts = {u \<in> dom (dm_nodes d) \<union> set (dm_retired d). dm_nodes d u \<noteq> None \<and> (t, u) \<in> R\<^sup>* \<and> \<not> requested R Q u}" by blast
  have ts: "set ts = {u \<in> dom (dm_nodes d). (t, u) \<in> R\<^sup>* \<and> \<not> requested R Q u}" unfolding g(4) by blast
  have "ns_id w = u \<and> (ns_is_cancelled w \<longleftrightarrow> requested R (insert t Q) u \<and> u \<notin> set ts)" if "dm_nodes d u = Some w" for u w
    using h(8)[OF that] that unfolding ts requested_cancel by auto
  then have "domain_ok R (insert t Q) (set ts) (d\<lparr>dm_graph := g\<rparr>)"
    unfolding domain_ok_def using g(2) h(2-5) ts requested_cancel by auto
  then show ?thesis using r1(2) g(1,3) ts by simp
qed

lemma mark_node_ok:
  assumes "domain_ok R Q (insert t P) d" "t \<notin> P"
  shows "domain_ok R Q P (mark_node t d)" "dom (dm_nodes (mark_node t d)) = dom (dm_nodes d)" "dm_epoch (mark_node t d) = dm_epoch d"
proof -
  note h = domain_okD[OF assms(1)]
  show dom: "dom (dm_nodes (mark_node t d)) = dom (dm_nodes d)" by (auto simp: mark_node_def split: if_splits)
  have "ns_id w = u \<and> (ns_is_cancelled w \<longleftrightarrow> requested R Q u \<and> u \<notin> P)" if "dm_nodes (mark_node t d) u = Some w" for u w
    using that h(8)[of u] h(7)[of t] assms(2)
    by (cases "u = t") (auto simp: mark_node_def ns_cancel_id ns_cancel_is)
  then show "domain_ok R Q P (mark_node t d)"
    using h(1-7) dom by (simp add: domain_ok_def) (simp add: mark_node_def)
qed (simp add: mark_node_def)

lemma policy_okD:
  assumes "policy_ok R Q s"
  shows "domain_ok R Q (pending_marks s) (ps_domain s)" "ps_cancel s = Some ts \<Longrightarrow> distinct ts"
    "ps_tasks s k = Some x \<Longrightarrow> task_ok R Q s x"
  using assms unfolding policy_ok_def by blast+

lemma put_task_ok:
  assumes "policy_ok R Q s" "task_ok R Q s x"
  shows "policy_ok R Q (put_task k x s)"
  using assms by (auto simp: policy_ok_def put_task_def pending_marks_def task_ok_def)

text \<open>A task stays in order when the domain changes but its token's flag and request do not.\<close>

lemma task_ok_frame:
  assumes "task_ok R Q s (p, b)" "dm_nodes d (tp_token p) = dm_nodes (ps_domain s) (tp_token p)"
    "dm_epoch d = dm_epoch (ps_domain s)" "requested R Q (tp_token p) \<longrightarrow> requested R' Q' (tp_token p)"
    "c = ps_cancel s \<or> c \<noteq> None"
  shows "task_ok R' Q' (s\<lparr>ps_domain := d, ps_cancel := c\<rparr>) (p, b)"
  using assms by (auto simp: task_ok_def token_is_cancelled_def dom_def)

lemma policy_reach_ok: "policy_reach s R Q \<Longrightarrow> policy_ok R Q s"
proof (induction rule: policy_reach.induct)
  case start
  show ?case using start_ok
    by (simp add: policy_ok_def domain_ok_def domain_new_def pending_marks_def RETIREMENT_BATCH_def)
next
  case (insert s R Q ps i d)
  note h = policy_okD[OF insert.IH]
  have P: "pending_marks s = {}" using insert.hyps(2) by (simp add: pending_marks_def)
  note t = token_insert_ok[OF h(1)[unfolded P] insert.hyps(3,4)]
  have "task_ok (R \<union> set ps \<times> {i}) Q (s\<lparr>ps_domain := d\<rparr>) x" if "ps_tasks s k = Some x" for k x
  proof -
    obtain p b where x: "x = (p, b)" by fastforce
    have x': "task_ok R Q s (p, b)" using h(3)[OF that] x by simp
    then have tok: "tp_token p \<in> dom (dm_nodes (ps_domain s))" by (simp add: task_ok_def)
    then have "tp_token p \<noteq> i" using t(2) by blast
    then have "dm_nodes d (tp_token p) = dm_nodes (ps_domain s) (tp_token p)" by (subst t(4)) simp
    from task_ok_frame[OF x' this t(3), of "R \<union> set ps \<times> {i}" Q "ps_cancel s"] t(5)[OF tok] x
    show ?thesis by simp
  qed
  then show ?case using t(1) insert.hyps(2) by (simp add: policy_ok_def pending_marks_def)
next
  case (drop s R Q i fuel d)
  note h = policy_okD[OF drop.IH]
  have iP: "i \<notin> pending_marks s" using drop.hyps(4) by (auto simp: pending_marks_def split: option.splits)
  from node_drop_ok[OF h(1) drop.hyps(2) iP drop.hyps(5)] have d: "domain_ok R Q (pending_marks s) d"
    "dm_nodes d = (dm_nodes (ps_domain s))(i := None)" "dm_epoch d = dm_epoch (ps_domain s)" by auto
  have "task_ok R Q (s\<lparr>ps_domain := d\<rparr>) x" if "ps_tasks s k = Some x" for k x
  proof -
    obtain p b where x: "x = (p, b)" by fastforce
    have "dm_nodes d (tp_token p) = dm_nodes (ps_domain s) (tp_token p)" using d(2) drop.hyps(3) that x by auto
    from task_ok_frame[OF h(3)[OF that, unfolded x] this d(3), of R Q "ps_cancel s"] x show ?thesis by simp
  qed
  then show ?case using d(1) h(2) by (simp add: policy_ok_def pending_marks_def)
next
  case (walk s R Q t fuel ts d)
  note h = policy_okD[OF walk.IH]
  have P: "pending_marks s = {}" using walk.hyps(2) by (simp add: pending_marks_def)
  from cancel_walk_ok[OF h(1)[unfolded P] walk.hyps(3,4)] have d: "domain_ok R (insert t Q) (set ts) d" "distinct ts"
    "dm_nodes d = dm_nodes (ps_domain s)" "dm_epoch d = dm_epoch (ps_domain s)" by auto
  have "task_ok R (insert t Q) (s\<lparr>ps_domain := d, ps_cancel := Some ts\<rparr>) x" if "ps_tasks s k = Some x" for k x
  proof -
    obtain p b where x: "x = (p, b)" by fastforce
    show ?thesis unfolding x
      by (rule task_ok_frame[OF h(3)[OF that, unfolded x]]) (simp_all add: d(3,4) requested_cancel)
  qed
  then show ?case using d(1,2) by (simp add: policy_ok_def pending_marks_def)
next
  case (mark s R Q t ts)
  note h = policy_okD[OF mark.IH]
  have P: "pending_marks s = insert t (set ts)" "t \<notin> set ts" "distinct ts" using mark.hyps(2) h(2) by (auto simp: pending_marks_def)
  note m = mark_node_ok[OF h(1)[unfolded P(1)] P(2)]
  have "task_ok R Q (s\<lparr>ps_domain := mark_node t (ps_domain s), ps_cancel := Some ts\<rparr>) x" if "ps_tasks s k = Some x" for k x
    using h(3)[OF that] m(2,3) by (auto simp: task_ok_def split: prod.splits)
  then show ?case using m(1) P(3) by (simp add: policy_ok_def pending_marks_def)
next
  case (move s R Q)
  note h = policy_okD[OF move.IH]
  let ?d = "move_epoch (ps_domain s)"
  have e: "unat (dm_epoch ?d) = unat (dm_epoch (ps_domain s)) + 1" using move.hyps(3) by (simp add: move_epoch_def unat_word_ariths)
  have P: "pending_marks s = {}" using move.hyps(2) by (simp add: pending_marks_def)
  have "task_ok R Q (s\<lparr>ps_domain := ?d, ps_cancel := None\<rparr>) x" if "ps_tasks s k = Some x" for k x
  proof -
    obtain p b where x: "x = (p, b)" by fastforce
    have "unat (tp_observed p) \<le> unat (dm_epoch (ps_domain s))" using h(3)[OF that] by (simp add: task_ok_def x)
    then have "tp_observed p \<noteq> dm_epoch ?d" "unat (tp_observed p) \<le> unat (dm_epoch ?d)" using e by auto
    then show ?thesis using h(3)[OF that] by (simp add: task_ok_def x) (simp add: move_epoch_def)
  qed
  moreover have "domain_ok R Q {} ?d" using h(1) e unfolding P domain_ok_def by (simp add: move_epoch_def)
  ultimately show ?case by (simp add: policy_ok_def pending_marks_def)
next
  case (enter s R Q k t has_deadline)
  have "1 \<le> unat (dm_epoch (ps_domain s))" using domain_okD(5)[OF policy_okD(1)[OF enter.IH]] .
  then have "task_ok R Q s (policy_new t has_deadline, False)"
    using enter.hyps(3) policy_words(3) by (auto simp: task_ok_def policy_new_def)
  with enter.IH show ?case by (rule put_task_ok)
next
  case (reuse s R Q k p t has_deadline p')
  have "1 \<le> unat (dm_epoch (ps_domain s))" using domain_okD(5)[OF policy_okD(1)[OF reuse.IH]] .
  then have "task_ok R Q s (p', False)"
    using reuse.hyps(3,4) policy_words(3) by (auto simp: task_ok_def policy_reset_def)
  with reuse.IH show ?case by (rule put_task_ok)
next
  case (leave s R Q k p)
  then show ?case by (auto simp: policy_ok_def pending_marks_def task_ok_def split: if_splits)
next
  case (close s R Q k p)
  have "task_ok R Q s (policy_close p, False)"
    using policy_okD(3)[OF close.IH close.hyps(2)] by (simp add: task_ok_def policy_close_def policy_words(2))
  with close.IH show ?case by (rule put_task_ok)
next
  case (mask s R Q k p n)
  have "task_ok R Q s (set_masked n p, False)" using policy_okD(3)[OF mask.IH mask.hyps(2)] by (simp add: task_ok_def set_masked_def)
  with mask.IH show ?case by (rule put_task_ok)
next
  case (observe s R Q k p ask p')
  have "task_ok R Q s (p', ask)"
    using policy_okD(3)[OF observe.IH observe.hyps(2)] observe.hyps(4) by (auto simp: task_ok_def policy_observe_def split: if_splits)
  with observe.IH show ?case by (rule put_task_ok)
next
  case (ask s R Q k p c p')
  note h = policy_okD[OF ask.IH]
  have tok: "tp_token p \<in> dom (dm_nodes (ps_domain s))" using h(3)[OF ask.hyps(2)] by (simp add: task_ok_def)
  have "task_ok R Q s (p', False)"
    using h(3)[OF ask.hyps(2)] ask.hyps(3) token_flag[OF h(1) tok] policy_words(1)
    by (auto simp: task_ok_def policy_asked_def split: if_splits)
  with ask.IH show ?case by (rule put_task_ok)
qed

section \<open>Properties\<close>

text \<open>
  C17. Checkpoints are exact although they ask the token only when the epoch has moved. In every
  history of tokens made, dropped in batches and cancelled, interleaved with the loads of the
  tasks' checkpoints, an open, unmasked task at a checkpoint is told that it is cancelled only if
  its token or one of its ancestors, alive or dropped, was; and it is told so whenever no
  cancellation is between its request and its return. Closing wins over everything, and masking
  over cancellation.
\<close>

theorem checkpoint_exact:
  assumes "policy_reach s R Q" "ps_tasks s k = Some (p, False)"
    "checkpoint_decision deadline now (dm_epoch (ps_domain s)) (token_is_cancelled (tp_token p) (ps_domain s)) p = (c, p')"
  shows "(c = CpRuntimeStopped \<longleftrightarrow> policy_closing p) \<and> c \<noteq> CpCheckDeadline
    \<and> (\<not> policy_closing p \<and> tp_masked p \<noteq> 0 \<longrightarrow> c = CpContinue)
    \<and> (c = CpCancelled \<longrightarrow> (\<exists>a \<in> Q. (a, tp_token p) \<in> R\<^sup>*))
    \<and> (\<not> policy_closing p \<and> tp_masked p = 0 \<and> ps_cancel s = None \<and> (\<exists>a \<in> Q. (a, tp_token p) \<in> R\<^sup>*) \<longrightarrow> c = CpCancelled)"
proof -
  note h = policy_okD[OF policy_reach_ok[OF assms(1)]]
  have t: "task_ok R Q s (p, False)" by (rule h(3)[OF assms(2)])
  have tok: "tp_token p \<in> dom (dm_nodes (ps_domain s))" using t by (simp add: task_ok_def)
  note f = token_flag[OF h(1) tok]
  note defs = checkpoint_decision_def policy_decision_def policy_early_def policy_observe_def policy_asked_def policy_finish_def
  have r: "requested R Q (tp_token p) \<longleftrightarrow> (\<exists>a \<in> Q. (a, tp_token p) \<in> R\<^sup>*)" by (simp add: requested_def)
  have "c = CpRuntimeStopped \<longleftrightarrow> policy_closing p" "c \<noteq> CpCheckDeadline"
    "\<not> policy_closing p \<and> tp_masked p \<noteq> 0 \<longrightarrow> c = CpContinue"
    using assms(3) by (auto simp: defs split: if_splits option.splits)
  moreover have "c = CpCancelled \<longrightarrow> requested R Q (tp_token p)"
    using assms(3) t f by (auto simp: defs task_ok_def split: if_splits option.splits)
  moreover have "c = CpCancelled" if "\<not> policy_closing p" "tp_masked p = 0" "ps_cancel s = None" "requested R Q (tp_token p)"
  proof -
    have "token_is_cancelled (tp_token p) (ps_domain s)" using f that(3,4) by (simp add: pending_marks_def)
    then show ?thesis using assms(3) t that(1-3) by (auto simp: defs task_ok_def split: if_splits)
  qed
  ultimately show ?thesis unfolding r by blast
qed

section \<open>A history\<close>

lemma graph_insert_next: "graph_insert i ps g = Inr (b, h) \<Longrightarrow> cg_next h = cg_next g"
proof -
  have "cg_next (snd (b, h)) = cg_next k" if "foldp (link_parent i) xs (c, k) = Inr (b, h)" for xs b h c k
    using that by (induction xs arbitrary: c k) (auto simp: bindp_def link_parent_def upd_node_def node_at_def split: sum.splits option.splits)
  then show "graph_insert i ps g = Inr (b, h) \<Longrightarrow> cg_next h = cg_next g"
    by (fastforce simp: graph_insert_def bindp_def Let_def split: sum.splits if_splits)
qed

lemma token_insert_total:
  assumes "domain_ok R Q {} d" "set ps \<subseteq> dom (dm_nodes d)" "cg_next (dm_graph d) = n" "unat n < 100"
  shows "\<exists>d'. token_insert ps d = Inr (n, d') \<and> cg_next (dm_graph d') = n + 1 \<and> n \<in> dom (dm_nodes d')"
proof -
  have r: "graph_reserve (dm_graph d) = Inr (n, dm_graph d\<lparr>cg_next := n + 1\<rparr>)"
    using assms(3,4) by (simp add: graph_reserve_def checked_add_def)
  have "set ps \<subseteq> dom (dm_nodes d) \<union> set (dm_retired d)" using assms(2) by blast
  from insert_ok[OF domain_okD(1)[OF assms(1)] this r] obtain c g2 where
    g2: "graph_insert n ps (dm_graph d\<lparr>cg_next := n + 1\<rparr>) = Inr (c, g2)" by blast
  have "n < NODE_CANCELLED" using assms(4) by (simp add: NODE_CANCELLED_mask word_less_nat_alt)
  with r g2 graph_insert_next[OF g2] show ?thesis by (auto simp: token_insert_def ns_new_def)
qed

lemma mark_all:
  "policy_reach s R Q \<Longrightarrow> ps_cancel s = Some ts \<Longrightarrow> \<exists>d. policy_reach (s\<lparr>ps_domain := d, ps_cancel := Some []\<rparr>) R Q \<and> dm_epoch d = dm_epoch (ps_domain s)"
proof (induction ts arbitrary: s)
  case Nil
  then have "s = s\<lparr>ps_domain := ps_domain s, ps_cancel := Some []\<rparr>" by simp
  then show ?case using Nil.prems(1) by metis
next
  case (Cons t ts)
  from Cons.IH[OF policy_reach.mark[OF Cons.prems]] show ?case by (auto simp: mark_node_def)
qed

text \<open>A root and its child; a task that runs with the child; the root is cancelled.\<close>

lemma sample_policy: "\<exists>s. policy_reach s {(0, 1)} {0} \<and> ps_tasks s 7 = Some (policy_new 1 False, False) \<and> ps_cancel s = None"
proof -
  let ?s = "\<lambda>d. \<lparr>ps_domain = d, ps_cancel = None, ps_tasks = Map.empty\<rparr>"
  note ok = policy_okD(1)[OF policy_reach_ok]
  have none: "pending_marks (?s d) = {}" for d by (simp add: pending_marks_def)
  have r0: "policy_reach (?s domain_new) {} {}" by (rule policy_reach.start)
  have n0: "cg_next (dm_graph domain_new) = 0" by (simp add: domain_new_def graph_new_def)
  from token_insert_total[OF ok[OF r0, unfolded none, simplified] _ n0, of "[]"] obtain d1 where
    d1: "token_insert [] domain_new = Inr (0, d1)" "cg_next (dm_graph d1) = 1" "0 \<in> dom (dm_nodes d1)" by auto
  have r1: "policy_reach (?s d1) {} {}" using policy_reach.insert[OF r0, of "[]"] d1(1) by simp
  from token_insert_total[OF ok[OF r1, unfolded none, simplified] _ d1(2), of "[0]"] d1(3) obtain d2 where
    d2: "token_insert [0] d1 = Inr (1, d2)" "1 \<in> dom (dm_nodes d2)" by auto
  have r2: "policy_reach (?s d2) {(0, 1)} {}" using policy_reach.insert[OF r1, of "[0]"] d1(3) d2(1) by simp
  have t0: "0 \<in> dom (dm_nodes d2)"
    using token_insert_ok(4)[OF ok[OF r1, unfolded none, simplified] _ d2(1)] d1(3) by (metis dom_fun_upd insertI2 option.distinct(1) bot.extremum empty_set insert_subset list.simps(15))
  have e: "dm_epoch d2 = 1"
    using token_insert_ok(3)[OF ok[OF r1, unfolded none, simplified] _ d2(1)] token_insert_ok(3)[OF ok[OF r0, unfolded none, simplified] _ d1(1)] d1(3)
    by (simp add: domain_new_def)
  let ?t = "put_task 7 (policy_new 1 False, False) (?s d2)"
  have r3: "policy_reach ?t {(0, 1)} {}" using policy_reach.enter[OF r2, of 7 1 False] d2(2) by simp
  have d3: "domain_ok {(0, 1)} {} {} d2" using ok[OF r2] by (simp add: pending_marks_def)
  have "0 \<in> dom (dm_nodes d2) \<union> set (dm_retired d2)" using t0 by blast
  from history_total(2)[OF domain_okD(1)[OF d3] this order_refl, of "\<lambda>i. dm_nodes d2 i \<noteq> None"] obtain f ts g where
    "cancel_nodes f (\<lambda>i. dm_nodes d2 i \<noteq> None) 0 (dm_graph d2) = Some (Inr (ts, g))" by blast
  then have w: "cancel_walk f 0 d2 = Some (Inr (ts, d2\<lparr>dm_graph := g\<rparr>))" by (simp add: cancel_walk_def)
  have r4: "policy_reach (?t\<lparr>ps_domain := d2\<lparr>dm_graph := g\<rparr>, ps_cancel := Some ts\<rparr>) {(0, 1)} {0}"
    using policy_reach.walk[OF r3, of 0 f ts "d2\<lparr>dm_graph := g\<rparr>"] t0 w by (simp add: put_task_def)
  from mark_all[OF r4, of ts] obtain d3 where
    r5: "policy_reach (?t\<lparr>ps_domain := d3, ps_cancel := Some []\<rparr>) {(0, 1)} {0}" "dm_epoch d3 = 1" using e by auto
  have "policy_reach (?t\<lparr>ps_domain := move_epoch d3, ps_cancel := None\<rparr>) {(0, 1)} {0}"
    using policy_reach.move[OF r5(1)] r5(2) by simp
  then show ?thesis by (intro exI[of _ "?t\<lparr>ps_domain := move_epoch d3, ps_cancel := None\<rparr>"]) (simp add: put_task_def)
qed

theorem checkpoint_exact_witness:
  "\<exists>s c p. policy_reach s {(0, 1)} {0} \<and> checkpoint_decision None 0 (dm_epoch (ps_domain s)) (token_is_cancelled 1 (ps_domain s)) (policy_new 1 False) = (c, p) \<and> c = CpCancelled"
proof -
  obtain s where s: "policy_reach s {(0, 1)} {0}" "ps_tasks s 7 = Some (policy_new 1 False, False)" "ps_cancel s = None"
    using sample_policy by blast
  obtain c p where cp: "checkpoint_decision None 0 (dm_epoch (ps_domain s)) (token_is_cancelled 1 (ps_domain s)) (policy_new 1 False) = (c, p)"
    by fastforce
  have "\<exists>a \<in> {0}. (a, 1) \<in> {(0, 1)}\<^sup>*" by auto
  with checkpoint_exact[OF s(1,2), of None 0 c p] cp s(3) have "c = CpCancelled"
    by (auto simp: policy_new_def policy_closing_def)
  with s(1) cp show ?thesis by blast
qed


end
