(* ===== verification/Cancel_Wait.thy ===== *)
theory Cancel_Wait
  imports Prelude
begin

text \<open>
  The subscription of a parked task to its cancellation token (cancellation_subscription.rs): the
  word that names the active generation, the two cached cells it can refer to without a lock, the
  locked table for any other cell, and the race of a registration with a cancellation. A cell is
  named by its identity, which its park tokens carry.
\<close>

section \<open>The slot of a node\<close>

definition FALLBACK :: u64 where "FALLBACK = push_bit 63 1"
definition RESIDENT :: u64 where "RESIDENT = push_bit 62 1"
definition KIND_MASK :: u64 where "KIND_MASK = FALLBACK OR RESIDENT"

record wait_slot =
  sl_active :: u64
  sl_primary :: "u64 option"
  sl_resident :: "u64 option"

definition wait_slot_new :: wait_slot where
  "wait_slot_new = \<lparr>sl_active = 0, sl_primary = None, sl_resident = None\<rparr>"

text \<open>Both cells are cached by their first use and never change.\<close>

definition is_primary :: "u64 \<Rightarrow> wait_slot \<Rightarrow> bool \<times> wait_slot" where
  "is_primary cell s =
     (let s = (if sl_primary s = None then s\<lparr>sl_primary := Some cell\<rparr> else s) in (sl_primary s = Some cell, s))"

definition is_resident :: "u64 \<Rightarrow> wait_slot \<Rightarrow> bool \<times> wait_slot" where
  "is_resident cell s =
     (let s = (if sl_resident s = None then s\<lparr>sl_resident := Some cell\<rparr> else s) in (sl_resident s = Some cell, s))"

definition slot_claim :: "u64 \<Rightarrow> wait_slot \<Rightarrow> unit result \<times> wait_slot" where
  "slot_claim active s =
     (if sl_active s = 0 then (Inr (), s\<lparr>sl_active := active\<rparr>)
      else (Inl (Fault Scheduler ''task registered concurrent cancellation waits''), s))"

definition slot_release :: "u64 \<Rightarrow> wait_slot \<Rightarrow> bool \<times> wait_slot" where
  "slot_release active s = (if sl_active s \<noteq> active then (False, s) else (True, s\<lparr>sl_active := 0\<rparr>))"

section \<open>Registration\<close>

text \<open>The entry of a node in its domain's table; \<open>nw_epoch\<close> numbers the registrations in it.\<close>

record fallback_wait =
  fb_token :: "park_token option"
  fb_registration :: "u64 option"

record node_wait =
  nw_slot :: wait_slot
  nw_epoch :: u64
  nw_fallback :: "fallback_wait option"

definition node_wait_new :: node_wait where
  "node_wait_new = \<lparr>nw_slot = wait_slot_new, nw_epoch = 0, nw_fallback = None\<rparr>"

definition fallback_next :: "u64 \<Rightarrow> u64 option" where
  "fallback_next epoch = (case checked_add epoch 1 of Some e \<Rightarrow> if e < RESIDENT then Some e else None | None \<Rightarrow> None)"

definition register_wait :: "park_token \<Rightarrow> u64 \<Rightarrow> node_wait \<Rightarrow> u64 result \<times> node_wait" where
  "register_wait token cell n =
     (case is_primary cell (nw_slot n) of (primary, s) \<Rightarrow>
        if primary
        then (let active = generation token in
              case slot_claim active s of (r, s) \<Rightarrow> (map_sum id (\<lambda>_. active) r, n\<lparr>nw_slot := s\<rparr>))
        else (case fallback_next (nw_epoch n) of
                None \<Rightarrow> (Inl (Fault Scheduler ''cancellation subscription generation exhausted''), n\<lparr>nw_slot := s\<rparr>)
              | Some epoch \<Rightarrow>
                  let cached = (case nw_fallback n of None \<Rightarrow> None | Some f \<Rightarrow> fb_registration f);
                      f = \<lparr>fb_token = Some token, fb_registration = (if cached = Some cell then cached else Some cell)\<rparr>;
                      active = FALLBACK OR epoch in
                  case slot_claim active s of
                    (Inl e, s) \<Rightarrow> (Inl e, n\<lparr>nw_slot := s, nw_epoch := epoch, nw_fallback := Some (f\<lparr>fb_token := None\<rparr>)\<rparr>)
                  | (Inr _, s) \<Rightarrow> (Inr active, n\<lparr>nw_slot := s, nw_epoch := epoch, nw_fallback := Some f\<rparr>)))"

definition register_resident_wait :: "park_token \<Rightarrow> u64 \<Rightarrow> node_wait \<Rightarrow> u64 result \<times> node_wait" where
  "register_resident_wait token cell n =
     (case is_resident cell (nw_slot n) of (resident, s) \<Rightarrow>
        if \<not> resident
        then (Inl (Fault Scheduler ''task changed its resident cancellation wait''), n\<lparr>nw_slot := s\<rparr>)
        else (let active = RESIDENT OR generation token in
              case slot_claim active s of (r, s) \<Rightarrow> (map_sum id (\<lambda>_. active) r, n\<lparr>nw_slot := s\<rparr>)))"

definition unregister_wait :: "u64 \<Rightarrow> node_wait \<Rightarrow> node_wait" where
  "unregister_wait active n =
     (case slot_release active (nw_slot n) of (released, s) \<Rightarrow>
        n\<lparr>nw_slot := s,
          nw_fallback := (if active AND FALLBACK \<noteq> 0 \<and> released then map_option (\<lambda>f. f\<lparr>fb_token := None\<rparr>) (nw_fallback n)
                          else nw_fallback n)\<rparr>)"

text \<open>
  What a cancellation finds behind the word it loaded: the token and the cell. A cached cell may
  be gone, which \<open>alive\<close> says; the table is looked at under its lock, after a second load.
\<close>

definition active_cached :: "(u64 \<Rightarrow> bool) \<Rightarrow> u64 \<Rightarrow> wait_slot \<Rightarrow> (park_token \<times> u64) option" where
  "active_cached alive active s =
     (let kind = active AND KIND_MASK;
          state = (if kind = 0 then sl_primary s else if kind = RESIDENT then sl_resident s else None) in
      case state of
        None \<Rightarrow> None
      | Some cell \<Rightarrow> if alive cell then Some (ParkToken cell (active AND NOT KIND_MASK), cell) else None)"

definition active_fallback :: "u64 \<Rightarrow> node_wait \<Rightarrow> (park_token \<times> u64) option" where
  "active_fallback active n =
     (if sl_active (nw_slot n) \<noteq> active then None
      else case nw_fallback n of
             None \<Rightarrow> None
           | Some f \<Rightarrow> (case (fb_token f, fb_registration f) of
                          (Some token, Some cell) \<Rightarrow> Some (token, cell)
                        | _ \<Rightarrow> None))"

definition active_found :: "(u64 \<Rightarrow> bool) \<Rightarrow> u64 \<Rightarrow> node_wait \<Rightarrow> (park_token \<times> u64) option" where
  "active_found alive active n =
     (if active = 0 then None
      else if active AND KIND_MASK \<noteq> FALLBACK then active_cached alive active (nw_slot n)
      else active_fallback active n)"

section \<open>Interleavings\<close>

text \<open>
  The task of a token registers one wait at a time: it claims the slot, looks at the token's flag
  and selects itself if it is set. The token is cancelled once: the flag is set, later the slot is
  loaded, later what is behind it is looked up and then selected. \<open>su_registered\<close> collects the
  registrations, \<open>su_selected\<close> the selections. Generations leave the kind bits clear: the field of
  the wait word is narrower.
\<close>

datatype subscriber_stage = Unsubscribed | Claimed park_token u64 u64 | Checked park_token u64 u64

datatype canceller_stage = Uncancelled | Flagged | Loaded u64 | FoundWait park_token u64 | Settled

record subscription_sys =
  su_node :: node_wait
  su_task :: subscriber_stage
  su_cancel :: canceller_stage
  su_registered :: "(park_token \<times> u64) set"
  su_selected :: "(park_token \<times> u64) set"

inductive subscription_reach :: "subscription_sys \<Rightarrow> bool" where
  start: "c \<in> {Uncancelled, Settled} \<Longrightarrow>
     subscription_reach \<lparr>su_node = node_wait_new, su_task = Unsubscribed, su_cancel = c, su_registered = {}, su_selected = {}\<rparr>"
| claim: "subscription_reach y \<Longrightarrow> su_task y = Unsubscribed \<Longrightarrow>
     wait_id token = cell \<Longrightarrow> generation token \<noteq> 0 \<Longrightarrow> generation token < RESIDENT \<Longrightarrow>
     (if resident then register_resident_wait token cell (su_node y) else register_wait token cell (su_node y)) = (r, n) \<Longrightarrow>
     subscription_reach (case r of
       Inl e \<Rightarrow> y\<lparr>su_node := n\<rparr>
     | Inr active \<Rightarrow> y\<lparr>su_node := n, su_task := Claimed token cell active, su_registered := insert (token, cell) (su_registered y)\<rparr>)"
| check: "subscription_reach y \<Longrightarrow> su_task y = Claimed token cell active \<Longrightarrow>
     subscription_reach (y\<lparr>su_task := Checked token cell active,
       su_selected := (if su_cancel y = Uncancelled then su_selected y else insert (token, cell) (su_selected y))\<rparr>)"
| unregister: "subscription_reach y \<Longrightarrow> su_task y = Checked token cell active \<Longrightarrow>
     subscription_reach (y\<lparr>su_node := unregister_wait active (su_node y), su_task := Unsubscribed\<rparr>)"
| flag: "subscription_reach y \<Longrightarrow> su_cancel y = Uncancelled \<Longrightarrow> subscription_reach (y\<lparr>su_cancel := Flagged\<rparr>)"
| load: "subscription_reach y \<Longrightarrow> su_cancel y = Flagged \<Longrightarrow>
     subscription_reach (y\<lparr>su_cancel := Loaded (sl_active (nw_slot (su_node y)))\<rparr>)"
| find: "subscription_reach y \<Longrightarrow> su_cancel y = Loaded active \<Longrightarrow>
     (\<forall>token cell. su_task y \<in> {Claimed token cell active, Checked token cell active} \<longrightarrow> alive cell) \<Longrightarrow>
     subscription_reach (y\<lparr>su_cancel := (case active_found alive active (su_node y) of
       None \<Rightarrow> Settled | Some (token, cell) \<Rightarrow> FoundWait token cell)\<rparr>)"
| select: "subscription_reach y \<Longrightarrow> su_cancel y = FoundWait token cell \<Longrightarrow>
     subscription_reach (y\<lparr>su_cancel := Settled, su_selected := insert (token, cell) (su_selected y)\<rparr>)"

section \<open>Words\<close>

lemma kind_bits: "bit FALLBACK n \<longleftrightarrow> n = 63" "bit RESIDENT n \<longleftrightarrow> n = 62"
proof -
  have f: "FALLBACK = 2 ^ 63" "RESIDENT = 2 ^ 62" by (simp_all add: FALLBACK_def RESIDENT_def push_bit_eq_mult)
  show "bit FALLBACK n \<longleftrightarrow> n = 63" "bit RESIDENT n \<longleftrightarrow> n = 62"
    unfolding f bit_exp_iff by (auto dest: bit_imp_le_length)
qed

lemma low_bits:
  assumes "g < RESIDENT" "62 \<le> n"
  shows "\<not> bit g n"
proof
  assume b: "bit g n"
  have "unat g < 2 ^ 62" using assms(1) by (simp add: RESIDENT_def word_less_nat_alt)
  moreover have "(2 :: nat) ^ 62 \<le> 2 ^ n" using assms(2) by (intro power_increasing) simp_all
  ultimately have "unat g div 2 ^ n = 0" by simp
  then have "\<not> bit (unat g) n" by (simp only: bit_iff_odd) simp
  with b show False by (simp add: bit_unsigned_iff bit_imp_le_length)
qed

lemma kind_words:
  assumes "g < RESIDENT"
  shows "g AND KIND_MASK = 0" "(RESIDENT OR g) AND KIND_MASK = RESIDENT" "(FALLBACK OR g) AND KIND_MASK = FALLBACK"
    "g AND NOT KIND_MASK = g" "(RESIDENT OR g) AND NOT KIND_MASK = g"
    "g AND FALLBACK = 0" "(RESIDENT OR g) AND FALLBACK = 0" "(FALLBACK OR g) AND FALLBACK = FALLBACK"
  by (rule bit_word_eqI, use low_bits[OF assms] in
    \<open>auto simp: KIND_MASK_def bit_and_iff bit_or_iff bit_not_iff kind_bits not_le\<close>)+

lemma kind_distinct: "FALLBACK \<noteq> 0" "RESIDENT \<noteq> 0" "FALLBACK \<noteq> RESIDENT" "RESIDENT OR g \<noteq> 0" "FALLBACK OR g \<noteq> 0"
proof -
  have "bit (RESIDENT OR g) 62" "bit (FALLBACK OR g) 63" by (simp_all add: bit_or_iff kind_bits)
  then show "RESIDENT OR g \<noteq> 0" "FALLBACK OR g \<noteq> 0" by auto
  show "FALLBACK \<noteq> 0" "RESIDENT \<noteq> 0" "FALLBACK \<noteq> RESIDENT"
    using kind_bits(1)[of 63] kind_bits(2)[of 62] kind_bits(2)[of 63] by auto
qed

section \<open>Invariant\<close>

text \<open>What a loaded word can stand for.\<close>

definition stands_for :: "node_wait \<Rightarrow> u64 \<Rightarrow> park_token \<Rightarrow> u64 \<Rightarrow> bool" where
  "stands_for n active token cell \<longleftrightarrow>
     wait_id token = cell \<and> generation token \<noteq> 0 \<and> generation token < RESIDENT
     \<and> (active = generation token \<and> sl_primary (nw_slot n) = Some cell
        \<or> active = RESIDENT OR generation token \<and> sl_resident (nw_slot n) = Some cell
        \<or> active AND KIND_MASK = FALLBACK)"

definition subscribed :: "node_wait \<Rightarrow> park_token \<Rightarrow> u64 \<Rightarrow> u64 \<Rightarrow> bool" where
  "subscribed n token cell active \<longleftrightarrow>
     sl_active (nw_slot n) = active \<and> active \<noteq> 0 \<and> stands_for n active token cell
     \<and> (active AND KIND_MASK = FALLBACK \<longrightarrow> nw_fallback n = Some \<lparr>fb_token = Some token, fb_registration = Some cell\<rparr>)"

definition subscription_ok :: "subscription_sys \<Rightarrow> bool" where
  "subscription_ok y \<longleftrightarrow>
     (su_task y = Unsubscribed \<longrightarrow> sl_active (nw_slot (su_node y)) = 0)
     \<and> (\<forall>token cell active. su_task y \<in> {Claimed token cell active, Checked token cell active} \<longrightarrow>
          subscribed (su_node y) token cell active \<and> (token, cell) \<in> su_registered y)
     \<and> (\<forall>active. su_cancel y = Loaded active \<longrightarrow>
          active = 0 \<or> (\<exists>(token, cell) \<in> su_registered y. stands_for (su_node y) active token cell))
     \<and> (\<forall>token cell. su_cancel y = FoundWait token cell \<longrightarrow> (token, cell) \<in> su_registered y)
     \<and> su_selected y \<subseteq> su_registered y
     \<and> (\<forall>token cell active. su_task y = Checked token cell active \<longrightarrow>
          su_cancel y \<in> {Uncancelled, Flagged, Loaded active, FoundWait token cell} \<or> (token, cell) \<in> su_selected y)"

lemma subscription_okD:
  assumes "subscription_ok y"
  shows "su_task y = Unsubscribed \<Longrightarrow> sl_active (nw_slot (su_node y)) = 0"
    "su_task y \<in> {Claimed token cell active, Checked token cell active} \<Longrightarrow> subscribed (su_node y) token cell active"
    "su_task y \<in> {Claimed token cell active, Checked token cell active} \<Longrightarrow> (token, cell) \<in> su_registered y"
    "su_cancel y = Loaded active \<Longrightarrow> active = 0 \<or> (\<exists>(token, cell) \<in> su_registered y. stands_for (su_node y) active token cell)"
    "su_cancel y = FoundWait token cell \<Longrightarrow> (token, cell) \<in> su_registered y"
    "su_selected y \<subseteq> su_registered y"
    "su_task y = Checked token cell active \<Longrightarrow>
       su_cancel y \<in> {Uncancelled, Flagged, Loaded active, FoundWait token cell} \<or> (token, cell) \<in> su_selected y"
  using assms unfolding subscription_ok_def by blast+

text \<open>Looking behind a word: the current subscription is found, and nothing that was never registered is.\<close>

lemma found_current:
  assumes "subscribed n token cell active" "alive cell"
  shows "active_found alive active n = Some (token, cell)"
proof -
  have token: "ParkToken cell (generation token) = token" "generation token < RESIDENT"
    using assms(1) by (cases token; simp add: subscribed_def stands_for_def)+
  note w = kind_words[OF token(2)] kind_distinct
  have b: "sl_active (nw_slot n) = active" "active \<noteq> 0" "stands_for n active token cell"
    "active AND KIND_MASK = FALLBACK \<longrightarrow> nw_fallback n = Some \<lparr>fb_token = Some token, fb_registration = Some cell\<rparr>"
    using assms(1) by (simp_all add: subscribed_def)
  show ?thesis
  proof (cases "active AND KIND_MASK = FALLBACK")
    case True
    then show ?thesis using b by (simp add: active_found_def active_fallback_def)
  next
    case False
    then show ?thesis using b(2,3) w(1-5) w(9-11) assms(2) token(1)
      by (auto simp: active_found_def active_cached_def stands_for_def Let_def)
  qed
qed

lemma found_registered:
  assumes ok: "subscription_ok y" and a: "su_cancel y = Loaded active" "active_found alive active (su_node y) = Some (token, cell)"
  shows "(token, cell) \<in> su_registered y"
proof -
  from a(2) have nz: "active \<noteq> 0" by (auto simp: active_found_def)
  with subscription_okD(4)[OF ok a(1)] obtain t c where t: "(t, c) \<in> su_registered y" "stands_for (su_node y) active t c" by blast
  have tok: "ParkToken c (generation t) = t" "generation t < RESIDENT" using t(2) by (cases t; simp add: stands_for_def)+
  note w = kind_words[OF tok(2)] kind_distinct
  show ?thesis
  proof (cases "active AND KIND_MASK = FALLBACK")
    case True
    then have f: "sl_active (nw_slot (su_node y)) = active" "\<exists>f. nw_fallback (su_node y) = Some f \<and> fb_token f = Some token \<and> fb_registration f = Some cell"
      using a(2) nz by (auto simp: active_found_def active_fallback_def split: if_splits option.splits)
    show ?thesis
    proof (cases "su_task y")
      case Unsubscribed
      then show ?thesis using subscription_okD(1)[OF ok] f(1) nz by simp
    next
      case (Claimed t' c' a')
      then show ?thesis using subscription_okD(2,3)[OF ok, of t' c' a'] f True by (auto simp: subscribed_def)
    next
      case (Checked t' c' a')
      then show ?thesis using subscription_okD(2,3)[OF ok, of t' c' a'] f True by (auto simp: subscribed_def)
    qed
  next
    case False
    then have "(token, cell) = (t, c)" using a(2) nz t(2) w(1-5) w(9-11) tok(1)
      by (auto simp: active_found_def active_cached_def stands_for_def Let_def split: if_splits option.splits)
    then show ?thesis using t(1) by simp
  qed
qed

text \<open>A registration on a free slot, and what it leaves of the words already loaded.\<close>

lemma register_ok:
  assumes "sl_active (nw_slot n) = 0" "wait_id token = cell" "generation token \<noteq> 0" "generation token < RESIDENT"
    "(if resident then register_resident_wait token cell n else register_wait token cell n) = (r, n')"
  shows "case r of Inl e \<Rightarrow> sl_active (nw_slot n') = 0 | Inr active \<Rightarrow> subscribed n' token cell active"
    "stands_for n a t c \<Longrightarrow> stands_for n' a t c"
proof -
  have e: "fallback_next m = Some ep \<Longrightarrow> ep < RESIDENT" for m ep by (auto simp: fallback_next_def split: option.splits if_splits)
  note w = kind_words[OF assms(4)] kind_distinct
  note defs = register_resident_wait_def register_wait_def is_primary_def is_resident_def slot_claim_def subscribed_def stands_for_def
  show "case r of Inl e \<Rightarrow> sl_active (nw_slot n') = 0 | Inr active \<Rightarrow> subscribed n' token cell active"
    using assms w(1-3) w(9-13) kind_words(3)[OF e]
    by (auto simp: defs Let_def split: if_splits option.splits)
  show "stands_for n a t c \<Longrightarrow> stands_for n' a t c"
    using assms(1,5) by (auto simp: defs Let_def split: if_splits option.splits)
qed

lemma unregister_ok:
  assumes "subscribed n token cell active"
  shows "sl_active (nw_slot (unregister_wait active n)) = 0" "stands_for n a t c \<Longrightarrow> stands_for (unregister_wait active n) a t c"
  using assms by (auto simp: unregister_wait_def slot_release_def subscribed_def stands_for_def)

lemma subscription_reach_ok: "subscription_reach y \<Longrightarrow> subscription_ok y"
proof (induction rule: subscription_reach.induct)
  case (start c)
  then show ?case by (auto simp: subscription_ok_def node_wait_new_def wait_slot_new_def)
next
  case (claim y token cell resident r n)
  note d = subscription_okD[OF claim.IH]
  note k = register_ok[OF d(1)[OF claim.hyps(2)] claim.hyps(3-6)]
  have loaded: "active = 0 \<or> (\<exists>(t, c) \<in> su_registered y. stands_for n active t c)" if "su_cancel y = Loaded active" for active
    using d(4)[OF that] k(2) by blast
  show ?case
  proof (cases r)
    case (Inl e)
    then show ?thesis using k(1) d(5,6) loaded claim.hyps(2) by (simp add: subscription_ok_def)
  next
    case (Inr active)
    then show ?thesis using k(1) d(5,6) loaded by (auto simp: subscription_ok_def)
  qed
next
  case (check y token cell active)
  then show ?case using subscription_okD[OF check.IH] by (auto simp: subscription_ok_def)
next
  case (unregister y token cell active)
  note d = subscription_okD[OF unregister.IH]
  have "subscribed (su_node y) token cell active" using d(2) unregister.hyps(2) by blast
  note u = unregister_ok[OF this]
  have "active' = 0 \<or> (\<exists>(t, c) \<in> su_registered y. stands_for (unregister_wait active (su_node y)) active' t c)" if "su_cancel y = Loaded active'" for active'
    using d(4)[OF that] u(2) by blast
  then show ?case using u(1) d(5,6) by (simp add: subscription_ok_def)
next
  case (flag y)
  then show ?case using subscription_okD[OF flag.IH] by (simp add: subscription_ok_def)
next
  case (load y)
  note d = subscription_okD[OF load.IH]
  let ?a = "sl_active (nw_slot (su_node y))"
  have "?a = 0 \<or> (\<exists>(t, c) \<in> su_registered y. stands_for (su_node y) ?a t c)"
  proof (cases "su_task y")
    case Unsubscribed
    then show ?thesis using d(1) by simp
  next
    case (Claimed t c a)
    then show ?thesis using d(2,3)[of t c a] by (auto simp: subscribed_def)
  next
    case (Checked t c a)
    then show ?thesis using d(2,3)[of t c a] by (auto simp: subscribed_def)
  qed
  moreover have "?a = a" if "su_task y = Checked t c a" for t c a using d(2)[of t c a] that by (simp add: subscribed_def)
  ultimately show ?case using load.hyps(2) d by (simp add: subscription_ok_def)
next
  case (find y active alive)
  note d = subscription_okD[OF find.IH]
  let ?f = "active_found alive active (su_node y)"
  have "?f = Some (t, c)" if "su_task y = Checked t c active" for t c
    using found_current[OF d(2)[of t c active]] that find.hyps(3) by simp
  moreover have "(t, c) \<in> su_registered y" if "?f = Some (t, c)" for t c using found_registered[OF find.IH find.hyps(2) that] .
  ultimately show ?case using find.hyps(2) d by (auto simp: subscription_ok_def split: option.splits)
next
  case (select y token cell)
  then show ?case using subscription_okD[OF select.IH] by (auto simp: subscription_ok_def)
qed

section \<open>Properties\<close>




end
