(* ===== verification/Blocking_Pool.thy ===== *)
theory Blocking_Pool
  imports Prelude
begin

text \<open>
  The pool that runs delegated native calls (blocking.rs, blocking/pool.rs, blocking/worker.rs,
  blocking/result.rs): the bounded queue with its counts, the leases of the callers, and the
  workers, which execute a job, keep its result until the caller has committed or abandoned it,
  and destroy what nobody wants. Jobs are numbered; what a job's closure does is arbitrary.
\<close>

section \<open>The pool\<close>

record pool_state =
  bp_queue :: "nat list"
  bp_completed :: "nat list"
  bp_running :: nat
  bp_discarding :: nat
  bp_panicked :: u64
  bp_stopped :: bool
  bp_failed :: bool

definition pool_new :: pool_state where
  "pool_new = \<lparr>bp_queue = [], bp_completed = [], bp_running = 0, bp_discarding = 0, bp_panicked = 0,
               bp_stopped = False, bp_failed = False\<rparr>"

definition pool_charged :: "pool_state \<Rightarrow> nat" where
  "pool_charged s = length (bp_queue s) + length (bp_completed s) + bp_running s + bp_discarding s"

definition pool_submit :: "nat \<Rightarrow> nat \<Rightarrow> pool_state \<Rightarrow> unit result \<times> pool_state" where
  "pool_submit cap j s =
     (if bp_failed s then (Inl BlockingFailed, s)
      else if bp_stopped s then (Inl RuntimeStopped, s)
      else if cap \<le> pool_charged s then (Inl (Capacity NativeJobs cap), s)
      else (Inr (), s\<lparr>bp_queue := bp_queue s @ [j]\<rparr>))"

definition pool_stop :: "pool_state \<Rightarrow> pool_state" where
  "pool_stop s = s\<lparr>bp_stopped := True\<rparr>"

definition pool_cleanup_complete :: "bool \<Rightarrow> pool_state \<Rightarrow> bool" where
  "pool_cleanup_complete joined s \<longleftrightarrow>
     joined \<and> bp_queue s = [] \<and> bp_completed s = [] \<and> bp_running s = 0 \<and> bp_discarding s = 0"

section \<open>Workers\<close>

text \<open>What a worker has taken, and the charge it holds for it; \<open>ch_wake\<close> is the job whose caller it wakes.\<close>

datatype work = ExecuteJob nat | ReclaimJob nat

record charge =
  ch_discard :: bool
  ch_wake :: "nat option"
  ch_retained :: bool

datatype taken = Took work charge | TakeNone | TakeWait

definition pool_take :: "(nat \<Rightarrow> bool) \<Rightarrow> pool_state \<Rightarrow> taken \<times> pool_state" where
  "pool_take abandoned s =
     (case position abandoned (bp_completed s) of
        Some i \<Rightarrow>
          (Took (ReclaimJob (bp_completed s ! i)) \<lparr>ch_discard = True, ch_wake = None, ch_retained = False\<rparr>,
           s\<lparr>bp_completed := remove_at i (bp_completed s), bp_discarding := bp_discarding s + 1\<rparr>)
      | None \<Rightarrow>
          (case bp_queue s of
             j # js \<Rightarrow>
               (let discard = (bp_stopped s \<or> abandoned j);
                    s = s\<lparr>bp_queue := js\<rparr> in
                (Took (ExecuteJob j) \<lparr>ch_discard = discard, ch_wake = Some j, ch_retained = False\<rparr>,
                 if discard then s\<lparr>bp_discarding := bp_discarding s + 1\<rparr> else s\<lparr>bp_running := bp_running s + 1\<rparr>))
           | [] \<Rightarrow> (if bp_stopped s \<and> bp_completed s = [] then TakeNone else TakeWait, s)))"

definition count_panic :: "bool \<Rightarrow> pool_state \<Rightarrow> pool_state" where
  "count_panic p s = s\<lparr>bp_panicked := bp_panicked s + of_bool p\<rparr>"

text \<open>A finished job's result stays with the pool: its capacity moves from running to completed.\<close>

definition pool_retain :: "nat \<Rightarrow> pool_state \<Rightarrow> pool_state result_p" where
  "pool_retain j s =
     (if bp_running s = 0 then Inl (Panic ''attempt to subtract with overflow'')
      else Inr (s\<lparr>bp_running := bp_running s - 1, bp_completed := bp_completed s @ [j]\<rparr>))"

text \<open>The drop of a charge, after it has closed its caller's wait.\<close>

definition charge_settle :: "charge \<Rightarrow> pool_state \<Rightarrow> pool_state result_p" where
  "charge_settle c s =
     (if ch_retained c then Inr s
      else if ch_discard c
      then (if bp_discarding s = 0 then Inl (Panic ''attempt to subtract with overflow'')
            else Inr (s\<lparr>bp_discarding := bp_discarding s - 1\<rparr>))
      else (if bp_running s = 0 then Inl (Panic ''attempt to subtract with overflow'')
            else Inr (s\<lparr>bp_running := bp_running s - 1\<rparr>)))"

definition pool_fail :: "pool_state \<Rightarrow> nat list \<times> pool_state" where
  "pool_fail s = (bp_queue s, s\<lparr>bp_failed := True, bp_stopped := True\<rparr>)"

section \<open>The result of a call\<close>

definition output_take :: "'v result option \<Rightarrow> 'v result \<times> 'v result option" where
  "output_take out =
     (case out of Some r \<Rightarrow> r | None \<Rightarrow> Inl (Fault Native ''native work woke without a result''), None)"

text \<open>What \<open>run_for\<close> makes of the outcome of its park, once it has been woken.\<close>

definition blocking_result :: "bool \<Rightarrow> pool_state \<Rightarrow> 'v result option \<Rightarrow> 'v result" where
  "blocking_result closed s out =
     (if closed then Inl (if bp_failed s then BlockingFailed else if bp_stopped s then RuntimeStopped else BlockingPanicked)
      else fst (output_take out))"

section \<open>Interleavings\<close>

text \<open>
  Where a worker stands: about to take the lock in \<open>take\<close>, or asleep on the condition; executing a
  job; with its body run and the panic to be counted; counted; keeping the result; destroying it;
  dropping the charge, then settling it, with the flag that it unwinds from a panic; failing; with
  the waits of the queue to close; or returned. A worker that failed once has a bound on the
  jobs it may still clean up.
\<close>

datatype worker_stage =
    AtTake
  | WorkerAsleep
  | Executing nat charge
  | BodyRan nat charge bool
  | PanicCounted nat charge
  | Keeping nat charge
  | Destroying nat charge
  | Dropping charge bool
  | Settling charge bool
  | Failing
  | ClosingQueue "nat list"
  | Finished

fun stage_of :: "work \<Rightarrow> charge \<Rightarrow> worker_stage" where
  "stage_of (ExecuteJob j) c = Executing j c"
| "stage_of (ReclaimJob j) c = Destroying j c"

fun holding :: "worker_stage \<Rightarrow> (nat \<times> charge) option" where
  "holding (Executing j c) = Some (j, c)"
| "holding (BodyRan j c p) = Some (j, c)"
| "holding (PanicCounted j c) = Some (j, c)"
| "holding (Keeping j c) = Some (j, c)"
| "holding (Destroying j c) = Some (j, c)"
| "holding _ = None"

text \<open>
  The system: the leases, with the flag that a dropped one has still to notify; the abandoned
  jobs; the jobs whose caller has been selected; the jobs whose reclamation has run or whose
  closures an unwinding worker dropped, in order; and every job accepted so far.
\<close>

record pool_sys =
  py_pool :: pool_state
  py_workers :: "nat \<rightharpoonup> worker_stage \<times> nat option"
  py_leases :: "nat \<rightharpoonup> bool"
  py_abandoned :: "nat set"
  py_selected :: "nat set"
  py_ended :: "nat list"
  py_seen :: "nat set"

definition pool_start :: "nat \<Rightarrow> pool_sys" where
  "pool_start n = \<lparr>py_pool = pool_new, py_workers = (\<lambda>w. if w < n then Some (AtTake, None) else None), py_leases = Map.empty,
                   py_abandoned = {}, py_selected = {}, py_ended = [], py_seen = {}\<rparr>"

definition wake_workers :: "(nat \<rightharpoonup> worker_stage \<times> nat option) \<Rightarrow> nat \<rightharpoonup> worker_stage \<times> nat option" where
  "wake_workers ws = (\<lambda>w. case ws w of Some (WorkerAsleep, b) \<Rightarrow> Some (AtTake, b) | x \<Rightarrow> x)"

definition put_worker :: "nat \<Rightarrow> worker_stage \<times> nat option \<Rightarrow> pool_state \<Rightarrow> pool_sys \<Rightarrow> pool_sys" where
  "put_worker w x p y = y\<lparr>py_workers := (py_workers y)(w \<mapsto> x), py_pool := p\<rparr>"

definition wake_pool :: "pool_sys \<Rightarrow> pool_sys" where
  "wake_pool y = y\<lparr>py_workers := wake_workers (py_workers y)\<rparr>"

definition select_jobs :: "nat set \<Rightarrow> pool_sys \<Rightarrow> pool_sys" where
  "select_jobs js y = y\<lparr>py_selected := py_selected y \<union> js\<rparr>"

definition end_job :: "nat \<Rightarrow> pool_sys \<Rightarrow> pool_sys" where
  "end_job j y = y\<lparr>py_ended := py_ended y @ [j]\<rparr>"

text \<open>One notification wakes a sleeping worker if there is one.\<close>

definition wakes_one :: "(nat \<rightharpoonup> worker_stage \<times> nat option) \<Rightarrow> (nat \<rightharpoonup> worker_stage \<times> nat option) \<Rightarrow> bool" where
  "wakes_one ws ws' \<longleftrightarrow>
     (if \<exists>w b. ws w = Some (WorkerAsleep, b)
      then \<exists>w b. ws w = Some (WorkerAsleep, b) \<and> ws' = ws(w \<mapsto> (AtTake, b))
      else ws' = ws)"

inductive pool_reach :: "nat \<Rightarrow> nat \<Rightarrow> pool_sys result_p \<Rightarrow> bool" for cap threads where
  start: "pool_reach cap threads (Inr (pool_start threads))"
| submit: "pool_reach cap threads (Inr y) \<Longrightarrow> j \<notin> py_seen y \<Longrightarrow> pool_submit cap j (py_pool y) = (Inr (), p) \<Longrightarrow>
     wakes_one (py_workers y) ws \<Longrightarrow>
     pool_reach cap threads (Inr (y\<lparr>py_pool := p, py_workers := ws, py_leases := (py_leases y)(j \<mapsto> False), py_seen := insert j (py_seen y)\<rparr>))"
| stop: "pool_reach cap threads (Inr y) \<Longrightarrow> pool_reach cap threads (Inr (wake_pool (y\<lparr>py_pool := pool_stop (py_pool y)\<rparr>)))"
| abandon: "pool_reach cap threads (Inr y) \<Longrightarrow> py_leases y j = Some False \<Longrightarrow>
     pool_reach cap threads (Inr (y\<lparr>py_leases := (py_leases y)(j \<mapsto> True), py_abandoned := insert j (py_abandoned y)\<rparr>))"
| notify: "pool_reach cap threads (Inr y) \<Longrightarrow> py_leases y j = Some True \<Longrightarrow>
     pool_reach cap threads (Inr (wake_pool (y\<lparr>py_leases := (py_leases y)(j := None)\<rparr>)))"
| take: "pool_reach cap threads (Inr y) \<Longrightarrow> py_workers y w = Some (AtTake, b) \<Longrightarrow> b \<noteq> Some 0 \<Longrightarrow>
     pool_take (\<lambda>j. j \<in> py_abandoned y) (py_pool y) = (t, p) \<Longrightarrow>
     pool_reach cap threads (Inr (put_worker w
       (case t of Took k c \<Rightarrow> (stage_of k c, map_option (\<lambda>m. m - 1) b) | TakeNone \<Rightarrow> (Finished, b) | TakeWait \<Rightarrow> (WorkerAsleep, b)) p y))"
| spent: "pool_reach cap threads (Inr y) \<Longrightarrow> py_workers y w = Some (AtTake, Some 0) \<Longrightarrow>
     pool_reach cap threads (Inr (put_worker w (Finished, Some 0) (py_pool y) y))"
| spurious: "pool_reach cap threads (Inr y) \<Longrightarrow> py_workers y w = Some (WorkerAsleep, b) \<Longrightarrow>
     pool_reach cap threads (Inr (put_worker w (AtTake, b) (py_pool y) y))"
| execute: "pool_reach cap threads (Inr y) \<Longrightarrow> py_workers y w = Some (Executing j c, b) \<Longrightarrow>
     pool_reach cap threads (Inr (put_worker w (BodyRan j c (p \<and> (ch_discard c \<or> j \<notin> py_abandoned y)), b) (py_pool y)
       (select_jobs (if ch_discard c then set_option (ch_wake c) else {j} - py_abandoned y) y)))"
| count: "pool_reach cap threads (Inr y) \<Longrightarrow> py_workers y w = Some (BodyRan j c p, b) \<Longrightarrow>
     pool_reach cap threads (Inr (put_worker w (PanicCounted j c, b) (count_panic p (py_pool y)) y))"
| decide: "pool_reach cap threads (Inr y) \<Longrightarrow> py_workers y w = Some (PanicCounted j c, b) \<Longrightarrow>
     pool_reach cap threads (Inr (put_worker w (if ch_discard c \<or> j \<in> py_abandoned y then Destroying j c else Keeping j c, b) (py_pool y) y))"
| keep: "pool_reach cap threads (Inr y) \<Longrightarrow> py_workers y w = Some (Keeping j c, b) \<Longrightarrow>
     pool_reach cap threads (map_sum id (\<lambda>p. wake_pool (put_worker w (Dropping (c\<lparr>ch_retained := True\<rparr>) False, b) p y)) (pool_retain j (py_pool y)))"
| destroy: "pool_reach cap threads (Inr y) \<Longrightarrow> py_workers y w = Some (Destroying j c, b) \<Longrightarrow>
     pool_reach cap threads (Inr (put_worker w (Dropping c False, b) (count_panic p (py_pool y)) (end_job j y)))"
| fault: "pool_reach cap threads (Inr y) \<Longrightarrow> py_workers y w = Some (s, b) \<Longrightarrow> holding s = Some (j, c) \<Longrightarrow>
     pool_reach cap threads (Inr (put_worker w (Dropping c True, b) (py_pool y) (end_job j y)))"
| drop: "pool_reach cap threads (Inr y) \<Longrightarrow> py_workers y w = Some (Dropping c u, b) \<Longrightarrow>
     pool_reach cap threads (Inr (put_worker w (Settling c u, b) (py_pool y) (select_jobs (set_option (ch_wake c)) y)))"
| settle: "pool_reach cap threads (Inr y) \<Longrightarrow> py_workers y w = Some (Settling c u, b) \<Longrightarrow>
     pool_reach cap threads (map_sum id (\<lambda>p. put_worker w (if u then Failing else AtTake, b) p y) (charge_settle c (py_pool y)))"
| fail: "pool_reach cap threads (Inr y) \<Longrightarrow> py_workers y w = Some (Failing, b) \<Longrightarrow> pool_fail (py_pool y) = (js, p) \<Longrightarrow>
     pool_reach cap threads (Inr (wake_pool (put_worker w (ClosingQueue js, b) p y)))"
| close: "pool_reach cap threads (Inr y) \<Longrightarrow> py_workers y w = Some (ClosingQueue js, b) \<Longrightarrow>
     pool_reach cap threads (Inr (put_worker w (AtTake, Some (case b of None \<Rightarrow> cap | Some m \<Rightarrow> m)) (py_pool y) (select_jobs (set js) y)))"

section \<open>Invariant\<close>

fun charge_of :: "worker_stage \<Rightarrow> charge option" where
  "charge_of (Dropping c u) = Some c"
| "charge_of (Settling c u) = Some c"
| "charge_of s = map_option snd (holding s)"

definition runs :: "worker_stage \<times> nat option \<Rightarrow> bool" where
  "runs x \<longleftrightarrow> (\<exists>c. charge_of (fst x) = Some c \<and> \<not> ch_discard c \<and> \<not> ch_retained c)"

definition discards :: "worker_stage \<times> nat option \<Rightarrow> bool" where
  "discards x \<longleftrightarrow> (\<exists>c. charge_of (fst x) = Some c \<and> ch_discard c \<and> \<not> ch_retained c)"

definition holds :: "nat \<Rightarrow> worker_stage \<times> nat option \<Rightarrow> bool" where
  "holds j x \<longleftrightarrow> (\<exists>c. holding (fst x) = Some (j, c))"

text \<open>The charge still has to wake the caller of a job.\<close>

definition owes_wake :: "nat \<Rightarrow> worker_stage \<times> nat option \<Rightarrow> bool" where
  "owes_wake j x \<longleftrightarrow> (\<exists>c. charge_of (fst x) = Some c \<and> ch_wake c = Some j \<and> (\<forall>u. fst x \<noteq> Settling c u))
     \<or> (\<exists>js. fst x = ClosingQueue js \<and> j \<in> set js)"

text \<open>The shape of a stage, and the bound of a worker that failed before.\<close>

fun stage_wf :: "worker_stage \<Rightarrow> bool" where
  "stage_wf (Keeping j c) \<longleftrightarrow> \<not> ch_discard c \<and> \<not> ch_retained c"
| "stage_wf (Dropping c u) \<longleftrightarrow> \<not> (ch_discard c \<and> ch_retained c)"
| "stage_wf (Settling c u) \<longleftrightarrow> \<not> (ch_discard c \<and> ch_retained c)"
| "stage_wf s \<longleftrightarrow> (\<forall>j c. holding s = Some (j, c) \<longrightarrow> \<not> ch_retained c)"

definition budget_ok :: "pool_state \<Rightarrow> worker_stage \<times> nat option \<Rightarrow> bool" where
  "budget_ok p x \<longleftrightarrow> (\<forall>m. snd x = Some m \<longrightarrow>
     bp_stopped p \<and> bp_failed p \<and> (\<forall>c. charge_of (fst x) = Some c \<longrightarrow> ch_discard c)
     \<and> pool_charged p \<le> m + of_bool (discards x))
   \<and> (\<forall>js. fst x = ClosingQueue js \<longrightarrow> bp_stopped p \<and> bp_failed p)"

definition jobs_at :: "pool_sys \<Rightarrow> nat \<Rightarrow> nat" where
  "jobs_at y j = count_list (bp_queue (py_pool y)) j + count_list (bp_completed (py_pool y)) j
     + tally (holds j) (py_workers y) + count_list (py_ended y) j"

definition pool_ok :: "nat \<Rightarrow> nat \<Rightarrow> pool_sys \<Rightarrow> bool" where
  "pool_ok cap threads y \<longleftrightarrow>
     dom (py_workers y) = {..<threads}
     \<and> bp_running (py_pool y) = tally runs (py_workers y)
     \<and> bp_discarding (py_pool y) = tally discards (py_workers y)
     \<and> (\<forall>j. jobs_at y j = of_bool (j \<in> py_seen y))
     \<and> pool_charged (py_pool y) \<le> cap
     \<and> (\<forall>j \<in> py_seen y. j \<in> py_selected y \<or> j \<in> set (bp_queue (py_pool y)) \<or> (\<exists>w x. py_workers y w = Some x \<and> owes_wake j x))
     \<and> (\<forall>w x. py_workers y w = Some x \<longrightarrow> stage_wf (fst x) \<and> budget_ok (py_pool y) x)
     \<and> (\<forall>w b. py_workers y w = Some (Finished, b) \<longrightarrow> bp_stopped (py_pool y) \<and> bp_queue (py_pool y) = [])
     \<and> (bp_completed (py_pool y) \<noteq> [] \<longrightarrow> (\<exists>w s b. py_workers y w = Some (s, b) \<and> s \<noteq> Finished))"

lemma pool_okD:
  assumes "pool_ok cap threads y"
  shows "dom (py_workers y) = {..<threads}" "finite (dom (py_workers y))"
    "bp_running (py_pool y) = tally runs (py_workers y)"
    "bp_discarding (py_pool y) = tally discards (py_workers y)"
    "jobs_at y j = of_bool (j \<in> py_seen y)"
    "pool_charged (py_pool y) \<le> cap"
    "j \<in> py_seen y \<Longrightarrow> j \<in> py_selected y \<or> j \<in> set (bp_queue (py_pool y)) \<or> (\<exists>w x. py_workers y w = Some x \<and> owes_wake j x)"
    "py_workers y w = Some x \<Longrightarrow> stage_wf (fst x)"
    "py_workers y w = Some x \<Longrightarrow> budget_ok (py_pool y) x"
    "py_workers y w = Some (Finished, b) \<Longrightarrow> bp_stopped (py_pool y) \<and> bp_queue (py_pool y) = []"
    "bp_completed (py_pool y) \<noteq> [] \<Longrightarrow> \<exists>w s b. py_workers y w = Some (s, b) \<and> s \<noteq> Finished"
  using assms unfolding pool_ok_def by (blast | simp)+

text \<open>A worker's step: what it must account for.\<close>

lemma worker_step:
  assumes ok: "pool_ok cap threads y" and w: "py_workers y w = Some x0"
    and running: "bp_running p + of_bool (runs x0) = bp_running (py_pool y) + of_bool (runs x)"
    and discarding: "bp_discarding p + of_bool (discards x0) = bp_discarding (py_pool y) + of_bool (discards x)"
    and jobs: "\<And>j. count_list (bp_queue p) j + count_list (bp_completed p) j + of_bool (holds j x) + count_list ended j
       = count_list (bp_queue (py_pool y)) j + count_list (bp_completed (py_pool y)) j + of_bool (holds j x0) + count_list (py_ended y) j"
    and selected: "py_selected y \<subseteq> selected" "\<And>j. j \<in> set (bp_queue (py_pool y)) \<or> owes_wake j x0 \<Longrightarrow> j \<in> selected \<or> j \<in> set (bp_queue p) \<or> owes_wake j x"
    and charged: "pool_charged p \<le> pool_charged (py_pool y)"
    and flags: "bp_stopped (py_pool y) \<longrightarrow> bp_stopped p" "bp_failed (py_pool y) \<longrightarrow> bp_failed p"
    and queue: "bp_queue (py_pool y) = [] \<longrightarrow> bp_queue p = []"
    and stage: "stage_wf (fst x)" "budget_ok p x"
    and finished: "fst x = Finished \<Longrightarrow> bp_stopped p \<and> bp_queue p = [] \<and> bp_completed p = []"
  shows "pool_ok cap threads (put_worker w x p (y\<lparr>py_ended := ended, py_selected := selected\<rparr>))"
proof -
  note d = pool_okD[OF ok]
  let ?ws = "(py_workers y)(w \<mapsto> x)"
  have t: "tally P ?ws + of_bool (P x0) = tally P (py_workers y) + of_bool (P x)" for P using tally_put[OF d(2) w] .
  have "bp_running p = tally runs ?ws" using t[of runs] running d(3) by linarith
  moreover have "bp_discarding p = tally discards ?ws" using t[of discards] discarding d(4) by linarith
  moreover have "count_list (bp_queue p) j + count_list (bp_completed p) j + tally (holds j) ?ws + count_list ended j = of_bool (j \<in> py_seen y)" for j
    using t[of "holds j"] jobs[of j] d(5)[of j] unfolding jobs_at_def by linarith
  moreover have "j \<in> selected \<or> j \<in> set (bp_queue p) \<or> (\<exists>v z. ?ws v = Some z \<and> owes_wake j z)" if seen: "j \<in> py_seen y" for j
  proof -
    consider "j \<in> py_selected y" | "j \<in> set (bp_queue (py_pool y)) \<or> owes_wake j x0" | v z where "v \<noteq> w" "py_workers y v = Some z" "owes_wake j z"
      using d(7)[OF seen] w by (metis option.inject)
    then show ?thesis
    proof cases
      case 1
      then show ?thesis using selected(1) by blast
    next
      case 2
      then show ?thesis using selected(2)[of j] by (metis fun_upd_same)
    next
      case 3
      then show ?thesis by (metis fun_upd_other)
    qed
  qed
  moreover have "stage_wf (fst z) \<and> budget_ok p z" if "?ws v = Some z" for v z
  proof (cases "v = w")
    case True
    then show ?thesis using that stage by simp
  next
    case False
    then have "py_workers y v = Some z" using that by simp
    with d(8,9)[OF this] show ?thesis using charged flags by (auto simp: budget_ok_def)
  qed
  moreover have "bp_stopped p \<and> bp_queue p = []" if "?ws v = Some (Finished, b)" for v b
  proof (cases "v = w")
    case False
    then show ?thesis using that d(10)[of v b] flags(1) queue by simp
  qed (use that finished in auto)
  moreover have "\<exists>v s b. ?ws v = Some (s, b) \<and> s \<noteq> Finished" if c: "bp_completed p \<noteq> []"
    using c finished by (metis fun_upd_same prod.collapse)
  ultimately show ?thesis
    unfolding pool_ok_def jobs_at_def put_worker_def using d(1,6) w charged by auto
qed

lemma wake_workers_Some:
  "wake_workers ws w = Some x \<longleftrightarrow> (\<exists>z. ws w = Some z \<and> x = (if fst z = WorkerAsleep then (AtTake, snd z) else z))"
  by (cases "ws w") (auto simp: wake_workers_def split: worker_stage.splits prod.splits)

lemma wake_workers_dom: "dom (wake_workers ws) = dom ws"
  by (auto simp: dom_def wake_workers_def split: option.splits prod.splits worker_stage.splits)

lemma pool_tally_wake:
  assumes "\<And>b. P (WorkerAsleep, b) \<longleftrightarrow> P (AtTake, b)"
  shows "tally P (wake_workers ws) = tally P ws"
proof -
  have "(\<exists>x. wake_workers ws w = Some x \<and> P x) \<longleftrightarrow> (\<exists>x. ws w = Some x \<and> P x)" for w
    using assms by (auto simp: wake_workers_Some; metis prod.collapse)
  then show ?thesis by (simp add: tally_def)
qed

text \<open>A worker may be woken at any time, and so may all of them.\<close>

lemma asleep_simps:
  "runs (WorkerAsleep, b) \<longleftrightarrow> runs (AtTake, b)" "discards (WorkerAsleep, b) \<longleftrightarrow> discards (AtTake, b)"
  "holds j (WorkerAsleep, b) \<longleftrightarrow> holds j (AtTake, b)" "owes_wake j (WorkerAsleep, b) \<longleftrightarrow> owes_wake j (AtTake, b)"
  "budget_ok p (WorkerAsleep, b) \<longleftrightarrow> budget_ok p (AtTake, b)"
  by (simp_all add: runs_def discards_def holds_def owes_wake_def budget_ok_def)

lemma wake_pool_ok:
  assumes ok: "pool_ok cap threads y"
  shows "pool_ok cap threads (wake_pool y)"
proof -
  note d = pool_okD[OF ok]
  let ?ws = "wake_workers (py_workers y)"
  have t: "tally runs ?ws = tally runs (py_workers y)" "tally discards ?ws = tally discards (py_workers y)"
    "tally (holds j) ?ws = tally (holds j) (py_workers y)" for j
    by (rule pool_tally_wake, simp add: asleep_simps)+
  have owes: "(\<exists>w x. ?ws w = Some x \<and> owes_wake j x) \<longleftrightarrow> (\<exists>w x. py_workers y w = Some x \<and> owes_wake j x)" for j
    using asleep_simps(4) by (auto simp: wake_workers_Some; metis prod.collapse)
  have ok': "stage_wf (fst x) \<and> budget_ok (py_pool y) x" if x: "?ws w = Some x" for w x
  proof -
    obtain z where z: "py_workers y w = Some z" "x = (if fst z = WorkerAsleep then (AtTake, snd z) else z)"
      using x unfolding wake_workers_Some by blast
    show ?thesis using d(8,9)[OF z(1)] z(2) asleep_simps(5)[of "py_pool y" "snd z"] by (cases z) auto
  qed
  have fin: "bp_stopped (py_pool y) \<and> bp_queue (py_pool y) = []" if "?ws w = Some (Finished, b)" for w b
    using that d(10)[of w b] by (auto simp: wake_workers_Some split: if_splits)
  have alive: "\<exists>w s b. ?ws w = Some (s, b) \<and> s \<noteq> Finished" if "py_workers y w = Some (s, b)" "s \<noteq> Finished" for w s b
    using that by (cases "s = WorkerAsleep") (auto simp: wake_workers_Some intro!: exI[of _ w])
  have left: "bp_completed (py_pool y) \<noteq> [] \<longrightarrow> (\<exists>w s b. ?ws w = Some (s, b) \<and> s \<noteq> Finished)"
    using d(11) alive by blast
  show ?thesis
    unfolding pool_ok_def wake_pool_def jobs_at_def
    using d(1,3,4,6,7) d(5)[unfolded jobs_at_def] t owes ok' fin left wake_workers_dom[of "py_workers y"] by simp
qed


section \<open>Steps\<close>

lemma pool_start_ok: "pool_ok cap threads (pool_start threads)"
proof -
  have z: "tally P (\<lambda>w. if w < threads then Some (AtTake, None) else None) = 0" if "\<not> P (AtTake, None :: nat option)" for P
    using that by (simp add: tally_def)
  have d: "dom (\<lambda>w. if w < threads then Some (AtTake, None :: nat option) else None) = {..<threads}" by (auto split: if_splits)
  show ?thesis
    unfolding pool_ok_def pool_start_def jobs_at_def
    by (auto simp: d z pool_new_def pool_charged_def runs_def discards_def holds_def budget_ok_def split: if_splits)
qed

lemma count_list_remove_at:
  "i < length xs \<Longrightarrow> count_list (remove_at i xs) j + of_bool (xs ! i = j) = count_list xs j"
proof (induction xs arbitrary: i)
  case (Cons x xs)
  then show ?case by (cases i) (auto simp: remove_at_def)
qed simp

lemma submit_ok:
  assumes ok: "pool_ok cap threads y" and j: "j \<notin> py_seen y" and s: "pool_submit cap j (py_pool y) = (Inr (), p)"
  shows "pool_ok cap threads (y\<lparr>py_pool := p, py_leases := l, py_seen := insert j (py_seen y)\<rparr>)"
proof -
  note d = pool_okD[OF ok]
  have p: "p = (py_pool y)\<lparr>bp_queue := bp_queue (py_pool y) @ [j]\<rparr>" "\<not> bp_failed (py_pool y)" "\<not> bp_stopped (py_pool y)" "pool_charged (py_pool y) < cap"
    using s by (auto simp: pool_submit_def split: if_splits)
  have budget: "snd x = None \<and> (\<forall>js. fst x \<noteq> ClosingQueue js)" if "py_workers y w = Some x" for w x
    using d(9)[OF that] p(2) by (cases "snd x") (auto simp: budget_ok_def)
  have "jobs_at (y\<lparr>py_pool := p, py_leases := l, py_seen := insert j (py_seen y)\<rparr>) i = of_bool (i \<in> insert j (py_seen y))" for i
    using d(5)[of i] j by (auto simp: jobs_at_def p(1))
  moreover have "pool_charged p \<le> cap" using p(1,4) by (simp add: pool_charged_def)
  moreover have "budget_ok p x" if "py_workers y w = Some x" for w x using budget[OF that] by (simp add: budget_ok_def)
  moreover have "py_workers y w \<noteq> Some (Finished, b)" for w b using d(10)[of w b] p(3) by blast
  moreover have "i \<in> py_selected y \<or> i \<in> set (bp_queue p) \<or> (\<exists>w x. py_workers y w = Some x \<and> owes_wake i x)" if "i \<in> insert j (py_seen y)" for i
    using d(7)[of i] that p(1) by auto
  ultimately show ?thesis unfolding pool_ok_def using d(1,3,4,8,11) p(1) by simp
qed

lemma frame_ok:
  assumes "pool_ok cap threads y" "py_pool z = py_pool y" "py_workers z = py_workers y" "py_selected z = py_selected y" "py_ended z = py_ended y" "py_seen z = py_seen y"
  shows "pool_ok cap threads z"
  using assms unfolding pool_ok_def jobs_at_def by simp

lemma stop_ok:
  assumes "pool_ok cap threads y"
  shows "pool_ok cap threads (y\<lparr>py_pool := pool_stop (py_pool y)\<rparr>)"
proof -
  note d = pool_okD[OF assms]
  have "budget_ok (pool_stop (py_pool y)) x" if "py_workers y w = Some x" for w x
    using d(9)[OF that] by (simp add: budget_ok_def pool_stop_def pool_charged_def)
  then show ?thesis
    unfolding pool_ok_def using d(1,3-8,10,11) by (simp add: jobs_at_def pool_stop_def pool_charged_def)
qed

lemmas step_simps = runs_def discards_def holds_def owes_wake_def budget_ok_def pool_charged_def

lemma pool_take_ok:
  assumes ok: "pool_ok cap threads y" and w: "py_workers y w = Some (AtTake, b)" "b \<noteq> Some 0"
    and t: "pool_take (\<lambda>j. j \<in> py_abandoned y) (py_pool y) = (t, p)"
  shows "pool_ok cap threads (put_worker w
    (case t of Took k c \<Rightarrow> (stage_of k c, map_option (\<lambda>m. m - 1) b) | TakeNone \<Rightarrow> (Finished, b) | TakeWait \<Rightarrow> (WorkerAsleep, b)) p y)"
proof -
  let ?s = "py_pool y"
  have b: "budget_ok ?s (AtTake, b)" using pool_okD(9)[OF ok w(1)] .
  have y: "y = y\<lparr>py_ended := py_ended y, py_selected := py_selected y\<rparr>" by simp
  show ?thesis
  proof (cases "position (\<lambda>j. j \<in> py_abandoned y) (bp_completed ?s)")
    case (Some i)
    then have i: "i < length (bp_completed ?s)" by (auto dest: position_Some_D)
    have t': "t = Took (ReclaimJob (bp_completed ?s ! i)) \<lparr>ch_discard = True, ch_wake = None, ch_retained = False\<rparr>"
      "p = ?s\<lparr>bp_completed := remove_at i (bp_completed ?s), bp_discarding := bp_discarding ?s + 1\<rparr>"
      using t Some by (simp_all add: pool_take_def)
    have "length (remove_at i (bp_completed ?s)) + 1 = length (bp_completed ?s)" using i by (simp add: remove_at_def)
    then have ch: "pool_charged p = pool_charged ?s" by (simp add: t'(2) pool_charged_def)
    show ?thesis
      by (subst y, rule worker_step[OF ok w(1)])
        (use b w(2) ch count_list_remove_at[OF i] in \<open>auto simp: t' step_simps\<close>)
  next
    case None
    show ?thesis
    proof (cases "bp_queue ?s")
      case Nil
      then have "p = ?s" "t = (if bp_stopped ?s \<and> bp_completed ?s = [] then TakeNone else TakeWait)"
        using t None Nil by (auto simp: pool_take_def split: if_splits)
      then show ?thesis
        by (subst y, intro worker_step[OF ok w(1)]) (use b Nil in \<open>auto simp: step_simps split: if_splits\<close>)
    next
      case (Cons j js)
      let ?d = "bp_stopped ?s \<or> j \<in> py_abandoned y"
      have t': "t = Took (ExecuteJob j) \<lparr>ch_discard = ?d, ch_wake = Some j, ch_retained = False\<rparr>"
        "p = (if ?d then ?s\<lparr>bp_queue := js, bp_discarding := bp_discarding ?s + 1\<rparr> else ?s\<lparr>bp_queue := js, bp_running := bp_running ?s + 1\<rparr>)"
        using t None Cons by (auto simp: pool_take_def Let_def split: if_splits)
      have ch: "pool_charged p = pool_charged ?s" by (simp add: t'(2) pool_charged_def Cons)
      show ?thesis
        by (subst y, rule worker_step[OF ok w(1)]) (use b w(2) ch Cons in \<open>auto simp: t' step_simps\<close>)
    qed
  qed
qed


lemma holding_charge: "holding s = Some (j, c) \<Longrightarrow> charge_of s = Some c"
  by (cases s) auto

text \<open>The steps that leave the counts of the pool alone.\<close>

lemma quiet_step:
  assumes ok: "pool_ok cap threads y" and w: "py_workers y w = Some (s0, b)"
    and p: "p = py_pool y \<or> (\<exists>q. p = count_panic q (py_pool y))"
    and ended: "\<And>j. of_bool (holds j (s, b)) + count_list ended j = of_bool (holds j (s0, b)) + count_list (py_ended y) j"
    and charge: "charge_of s = charge_of s0" "stage_wf s" "s \<noteq> Finished" "\<forall>js. s \<noteq> ClosingQueue js" "\<forall>js. s0 \<noteq> ClosingQueue js"
    and selected: "py_selected y \<subseteq> selected" "\<And>j. owes_wake j (s0, b) \<Longrightarrow> j \<in> selected \<or> owes_wake j (s, b)"
  shows "pool_ok cap threads (put_worker w (s, b) p (y\<lparr>py_ended := ended, py_selected := selected\<rparr>))"
proof (rule worker_step[OF ok w])
  have p': "bp_running p = bp_running (py_pool y)" "bp_discarding p = bp_discarding (py_pool y)" "bp_queue p = bp_queue (py_pool y)"
    "bp_completed p = bp_completed (py_pool y)" "bp_stopped p = bp_stopped (py_pool y)" "bp_failed p = bp_failed (py_pool y)"
    using p by (auto simp: count_panic_def)
  have same: "runs (s, b) \<longleftrightarrow> runs (s0, b)" "discards (s, b) \<longleftrightarrow> discards (s0, b)" using charge(1) by (simp_all add: runs_def discards_def)
  show "bp_running p + of_bool (runs (s0, b)) = bp_running (py_pool y) + of_bool (runs (s, b))"
    "bp_discarding p + of_bool (discards (s0, b)) = bp_discarding (py_pool y) + of_bool (discards (s, b))"
    "pool_charged p \<le> pool_charged (py_pool y)"
    "bp_stopped (py_pool y) \<longrightarrow> bp_stopped p" "bp_failed (py_pool y) \<longrightarrow> bp_failed p"
    "bp_queue (py_pool y) = [] \<longrightarrow> bp_queue p = []"
    using p' same by (simp_all add: pool_charged_def)
  show "budget_ok p (s, b)"
    using pool_okD(9)[OF ok w] charge(1,4) p' same by (cases b) (auto simp: budget_ok_def pool_charged_def)
  show "count_list (bp_queue p) j + count_list (bp_completed p) j + of_bool (holds j (s, b)) + count_list ended j
    = count_list (bp_queue (py_pool y)) j + count_list (bp_completed (py_pool y)) j + of_bool (holds j (s0, b)) + count_list (py_ended y) j" for j
    using ended[of j] p' by simp
  show "j \<in> set (bp_queue (py_pool y)) \<or> owes_wake j (s0, b) \<Longrightarrow> j \<in> selected \<or> j \<in> set (bp_queue p) \<or> owes_wake j (s, b)" for j
    using selected(2)[of j] p' by auto
qed (use charge selected in simp_all)

lemma put_worker_frame: "put_worker w x p (y\<lparr>py_ended := e, py_selected := t\<rparr>) = (put_worker w x p y)\<lparr>py_ended := e, py_selected := t\<rparr>"
  by (simp add: put_worker_def)

lemma execute_ok:
  assumes "pool_ok cap threads y" "py_workers y w = Some (Executing j c, b)"
  shows "pool_ok cap threads (put_worker w (BodyRan j c q, b) (py_pool y) (select_jobs js y))"
  using quiet_step[OF assms, of "py_pool y" "BodyRan j c q" "py_ended y" "py_selected y \<union> js"] pool_okD(8)[OF assms]
  by (auto simp: select_jobs_def holds_def owes_wake_def put_worker_frame)

lemma count_ok:
  assumes "pool_ok cap threads y" "py_workers y w = Some (BodyRan j c q, b)"
  shows "pool_ok cap threads (put_worker w (PanicCounted j c, b) (count_panic q (py_pool y)) y)"
  using quiet_step[OF assms, of "count_panic q (py_pool y)" "PanicCounted j c" "py_ended y" "py_selected y"] pool_okD(8)[OF assms]
  by (auto simp: holds_def owes_wake_def)

lemma decide_ok:
  assumes "pool_ok cap threads y" "py_workers y w = Some (PanicCounted j c, b)"
  shows "pool_ok cap threads (put_worker w (if ch_discard c \<or> j \<in> py_abandoned y then Destroying j c else Keeping j c, b) (py_pool y) y)"
  using quiet_step[OF assms, of "py_pool y" "if ch_discard c \<or> j \<in> py_abandoned y then Destroying j c else Keeping j c" "py_ended y" "py_selected y"]
    pool_okD(8)[OF assms]
  by (auto simp: holds_def owes_wake_def)

text \<open>A job ends: its result is destroyed, or an unwinding worker drops its closures.\<close>

lemma pool_end_ok:
  assumes ok: "pool_ok cap threads y" and w: "py_workers y w = Some (s0, b)" and s0: "holding s0 = Some (j, c)"
    and p: "p = py_pool y \<or> (\<exists>q. p = count_panic q (py_pool y))"
  shows "pool_ok cap threads (put_worker w (Dropping c u, b) p (end_job j y))"
proof -
  have wf: "\<not> ch_retained c" using pool_okD(8)[OF ok w] s0 by (cases s0) auto
  have "pool_ok cap threads (put_worker w (Dropping c u, b) p (y\<lparr>py_ended := py_ended y @ [j], py_selected := py_selected y\<rparr>))"
  proof (rule quiet_step[OF ok w p])
    show "of_bool (holds i (Dropping c u, b)) + count_list (py_ended y @ [j]) i = of_bool (holds i (s0, b)) + count_list (py_ended y) i" for i
      using s0 by (auto simp: holds_def)
    show "charge_of (Dropping c u) = charge_of s0" using holding_charge[OF s0] by simp
    show "\<forall>js. s0 \<noteq> ClosingQueue js" using s0 by auto
    show "owes_wake i (s0, b) \<Longrightarrow> i \<in> py_selected y \<or> owes_wake i (Dropping c u, b)" for i
      using s0 holding_charge[OF s0] by (auto simp: owes_wake_def)
  qed (use wf in auto)
  then show ?thesis by (simp add: end_job_def)
qed

lemma drop_ok:
  assumes "pool_ok cap threads y" "py_workers y w = Some (Dropping c u, b)"
  shows "pool_ok cap threads (put_worker w (Settling c u, b) (py_pool y) (select_jobs (set_option (ch_wake c)) y))"
  using quiet_step[OF assms, of "py_pool y" "Settling c u" "py_ended y" "py_selected y \<union> set_option (ch_wake c)"] pool_okD(8)[OF assms]
  by (auto simp: select_jobs_def holds_def owes_wake_def put_worker_frame)

text \<open>The steps that change the counts.\<close>

lemma keep_ok:
  assumes ok: "pool_ok cap threads y" and w: "py_workers y w = Some (Keeping j c, b)"
  shows "\<exists>p. pool_retain j (py_pool y) = Inr p \<and> pool_ok cap threads (put_worker w (Dropping (c\<lparr>ch_retained := True\<rparr>) False, b) p y)
    \<and> bp_stopped p = bp_stopped (py_pool y)"
proof -
  let ?s = "py_pool y"
  have wf: "\<not> ch_discard c" "\<not> ch_retained c" using pool_okD(8)[OF ok w] by simp_all
  have "0 < bp_running ?s"
    using tally_pos[OF pool_okD(2)[OF ok] w, of runs] wf pool_okD(3)[OF ok] by (simp add: runs_def)
  then have r: "pool_retain j ?s = Inr (?s\<lparr>bp_running := bp_running ?s - 1, bp_completed := bp_completed ?s @ [j]\<rparr>)" (is "_ = Inr ?p") "1 \<le> bp_running ?s"
    by (simp_all add: pool_retain_def)
  have b: "b = None" using pool_okD(9)[OF ok w] wf by (cases b) (auto simp: budget_ok_def)
  have y: "y = y\<lparr>py_ended := py_ended y, py_selected := py_selected y\<rparr>" by simp
  have "pool_ok cap threads (put_worker w (Dropping (c\<lparr>ch_retained := True\<rparr>) False, b) ?p y)"
    by (subst y, rule worker_step[OF ok w]) (use r(2) wf b in \<open>auto simp: step_simps\<close>)
  with r(1) show ?thesis by simp
qed

lemma pool_settle_ok:
  assumes ok: "pool_ok cap threads y" and w: "py_workers y w = Some (Settling c u, b)"
  shows "\<exists>p. charge_settle c (py_pool y) = Inr p \<and> pool_ok cap threads (put_worker w (if u then Failing else AtTake, b) p y)
    \<and> bp_queue p = bp_queue (py_pool y) \<and> bp_completed p = bp_completed (py_pool y) \<and> bp_stopped p = bp_stopped (py_pool y)"
proof -
  let ?s = "py_pool y"
  have pos: "\<not> ch_retained c \<longrightarrow> (if ch_discard c then 1 \<le> bp_discarding ?s else 1 \<le> bp_running ?s)"
    using tally_pos[OF pool_okD(2)[OF ok] w, of runs] tally_pos[OF pool_okD(2)[OF ok] w, of discards] pool_okD(3,4)[OF ok]
    by (auto simp: runs_def discards_def)
  define p where "p = (if ch_retained c then ?s else if ch_discard c then ?s\<lparr>bp_discarding := bp_discarding ?s - 1\<rparr> else ?s\<lparr>bp_running := bp_running ?s - 1\<rparr>)"
  have r: "charge_settle c ?s = Inr p" using pos by (auto simp: charge_settle_def p_def split: if_splits)
  have y: "y = y\<lparr>py_ended := py_ended y, py_selected := py_selected y\<rparr>" by simp
  have bud: "\<forall>m. b = Some m \<longrightarrow> ch_discard c \<and> bp_stopped ?s \<and> bp_failed ?s \<and> pool_charged ?s \<le> m + of_bool (\<not> ch_retained c)"
    using pool_okD(9)[OF ok w] by (auto simp: budget_ok_def discards_def)
  have wf: "\<not> (ch_discard c \<and> ch_retained c)" using pool_okD(8)[OF ok w] by simp
  have "pool_ok cap threads (put_worker w (if u then Failing else AtTake, b) p y)"
    by (subst y, cases u; simp only: if_True if_False; rule worker_step[OF ok w]) (use pos bud wf in \<open>auto simp: step_simps p_def split: if_splits\<close>)
  with r show ?thesis by (simp add: p_def)
qed

lemma failed_ok:
  assumes ok: "pool_ok cap threads y" and w: "py_workers y w = Some (Failing, b)" and f: "pool_fail (py_pool y) = (js, p)"
  shows "pool_ok cap threads (put_worker w (ClosingQueue js, b) p y)"
proof -
  have p: "js = bp_queue (py_pool y)" "p = (py_pool y)\<lparr>bp_failed := True, bp_stopped := True\<rparr>" using f by (simp_all add: pool_fail_def)
  have y: "y = y\<lparr>py_ended := py_ended y, py_selected := py_selected y\<rparr>" by simp
  have b: "budget_ok (py_pool y) (Failing, b)" using pool_okD(9)[OF ok w] .
  show ?thesis by (subst y, rule worker_step[OF ok w]) (use b in \<open>auto simp: p step_simps\<close>)
qed

lemma close_ok:
  assumes ok: "pool_ok cap threads y" and w: "py_workers y w = Some (ClosingQueue js, b)"
  shows "pool_ok cap threads (put_worker w (AtTake, Some (case b of None \<Rightarrow> cap | Some m \<Rightarrow> m)) (py_pool y) (select_jobs (set js) y))"
proof -
  have b: "budget_ok (py_pool y) (ClosingQueue js, b)" using pool_okD(9)[OF ok w] .
  have "pool_ok cap threads (put_worker w (AtTake, Some (case b of None \<Rightarrow> cap | Some m \<Rightarrow> m)) (py_pool y)
      (y\<lparr>py_ended := py_ended y, py_selected := py_selected y \<union> set js\<rparr>))"
    by (rule worker_step[OF ok w]) (use b pool_okD(6)[OF ok] in \<open>auto simp: step_simps split: option.splits\<close>)
  then show ?thesis by (simp add: select_jobs_def put_worker_frame)
qed

lemma spent_ok:
  assumes ok: "pool_ok cap threads y" and w: "py_workers y w = Some (AtTake, Some 0)"
  shows "pool_ok cap threads (put_worker w (Finished, Some 0) (py_pool y) y)"
proof -
  have y: "y = y\<lparr>py_ended := py_ended y, py_selected := py_selected y\<rparr>" by simp
  have b: "budget_ok (py_pool y) (AtTake, Some 0)" using pool_okD(9)[OF ok w] .
  show ?thesis by (subst y, rule worker_step[OF ok w]) (use b in \<open>auto simp: step_simps\<close>)
qed

lemma awake_ok:
  assumes ok: "pool_ok cap threads y" and w: "py_workers y w = Some (WorkerAsleep, b)"
  shows "pool_ok cap threads (put_worker w (AtTake, b) (py_pool y) y)"
proof -
  have y: "y = y\<lparr>py_ended := py_ended y, py_selected := py_selected y\<rparr>" by simp
  have b: "budget_ok (py_pool y) (WorkerAsleep, b)" using pool_okD(9)[OF ok w] .
  show ?thesis by (subst y, rule worker_step[OF ok w]) (use b in \<open>auto simp: step_simps\<close>)
qed


section \<open>Sleeping workers\<close>

text \<open>
  While a worker sleeps and no dropped lease is about to notify, there is nothing to reclaim, the
  workers need not leave, and the queue is shared by workers that are awake.
\<close>

definition has_sleeper :: "pool_sys \<Rightarrow> bool" where
  "has_sleeper y \<longleftrightarrow> (\<exists>w b. py_workers y w = Some (WorkerAsleep, b)) \<and> (\<forall>j. py_leases y j \<noteq> Some True)"

definition takers :: "pool_sys \<Rightarrow> nat" where
  "takers y = tally (\<lambda>x. fst x = AtTake) (py_workers y)"

definition sleep_ok :: "pool_sys \<Rightarrow> bool" where
  "sleep_ok y \<longleftrightarrow>
     dom (py_leases y) \<subseteq> py_seen y
     \<and> (has_sleeper y \<longrightarrow> (\<forall>j \<in> set (bp_completed (py_pool y)). j \<notin> py_abandoned y)
          \<and> \<not> (bp_stopped (py_pool y) \<and> bp_completed (py_pool y) = []) \<and> length (bp_queue (py_pool y)) \<le> takers y)"

lemma woken_no_sleeper: "\<not> has_sleeper (wake_pool y)"
  by (auto simp: has_sleeper_def wake_pool_def wake_workers_Some split: if_splits)

lemma woken_ok: "dom (py_leases y) \<subseteq> py_seen y \<Longrightarrow> sleep_ok (wake_pool y)"
  using woken_no_sleeper[of y] by (simp add: sleep_ok_def) (simp add: wake_pool_def)

lemma sleep_step:
  assumes "sleep_ok y" "pool_ok cap threads y" "py_workers y w = Some (s0, b0)" "s \<noteq> WorkerAsleep" "s0 \<noteq> AtTake \<or> s = AtTake"
    "bp_completed p = bp_completed (py_pool y)" "bp_stopped p = bp_stopped (py_pool y)" "bp_queue p = bp_queue (py_pool y)"
  shows "sleep_ok (put_worker w (s, b) p (y\<lparr>py_ended := e, py_selected := t\<rparr>))"
proof -
  let ?y = "put_worker w (s, b) p (y\<lparr>py_ended := e, py_selected := t\<rparr>)"
  have "has_sleeper ?y \<Longrightarrow> has_sleeper y"
    using assms(4) by (auto simp: has_sleeper_def put_worker_def split: if_splits)
  moreover have "takers y \<le> takers ?y"
    using tally_put[OF pool_okD(2)[OF assms(2)] assms(3), of "\<lambda>x. fst x = AtTake" "(s, b)"] assms(5)
    by (cases "s0 = AtTake") (auto simp: takers_def put_worker_def)
  moreover have "py_pool ?y = p" "py_leases ?y = py_leases y" "py_seen ?y = py_seen y" "py_abandoned ?y = py_abandoned y"
    by (simp_all add: put_worker_def)
  ultimately show ?thesis using assms(1,6-8) by (auto simp: sleep_ok_def)
qed

lemma sleep_submit:
  assumes ok: "sleep_ok y" "pool_ok cap threads y" and j: "j \<notin> py_seen y"
    and s: "pool_submit cap j (py_pool y) = (Inr (), p)" "wakes_one (py_workers y) ws"
  shows "sleep_ok (y\<lparr>py_pool := p, py_workers := ws, py_leases := (py_leases y)(j \<mapsto> False), py_seen := insert j (py_seen y)\<rparr>)"
proof -
  let ?y = "y\<lparr>py_pool := p, py_workers := ws, py_leases := (py_leases y)(j \<mapsto> False), py_seen := insert j (py_seen y)\<rparr>"
  have p: "p = (py_pool y)\<lparr>bp_queue := bp_queue (py_pool y) @ [j]\<rparr>" "\<not> bp_stopped (py_pool y)"
    using s by (auto simp: pool_submit_def split: if_splits)
  have l: "py_leases y j = None" using ok(1) j by (auto simp: sleep_ok_def)
  have "(\<forall>j \<in> set (bp_completed p). j \<notin> py_abandoned y) \<and> length (bp_queue p) \<le> takers ?y" if sl: "has_sleeper ?y"
  proof -
    have "((py_leases y)(j \<mapsto> False)) i \<noteq> Some True" for i using sl by (simp add: has_sleeper_def)
    then have no: "\<forall>i. py_leases y i \<noteq> Some True" using l by (metis fun_upd_other option.distinct(1))
    obtain w b where w: "py_workers y w = Some (WorkerAsleep, b)"
      using sl s(2) by (auto simp: has_sleeper_def wakes_one_def split: if_splits)
    then have h: "has_sleeper y" using no by (auto simp: has_sleeper_def)
    have "\<exists>w b. py_workers y w = Some (WorkerAsleep, b)" using w by blast
    with s(2) obtain v b where v: "py_workers y v = Some (WorkerAsleep, b)" "ws = (py_workers y)(v \<mapsto> (AtTake, b))"
      unfolding wakes_one_def by (auto split: if_splits)
    have "takers ?y = takers y + 1"
      using tally_put[OF pool_okD(2)[OF ok(2)] v(1), of "\<lambda>x. fst x = AtTake" "(AtTake, b)"] by (simp add: takers_def v(2))
    then show ?thesis using ok(1) h p(1) by (simp add: sleep_ok_def)
  qed
  then show ?thesis using ok(1) p by (auto simp: sleep_ok_def)
qed

lemma sleep_take:
  assumes ok: "sleep_ok y" "pool_ok cap threads y" and w: "py_workers y w = Some (AtTake, b)"
    and t: "pool_take (\<lambda>j. j \<in> py_abandoned y) (py_pool y) = (t, p)"
  shows "sleep_ok (put_worker w
    (case t of Took k c \<Rightarrow> (stage_of k c, map_option (\<lambda>m. m - 1) b) | TakeNone \<Rightarrow> (Finished, b) | TakeWait \<Rightarrow> (WorkerAsleep, b)) p y)"
proof -
  let ?s = "py_pool y"
  let ?x = "case t of Took k c \<Rightarrow> (stage_of k c, map_option (\<lambda>m. m - 1) b) | TakeNone \<Rightarrow> (Finished, b) | TakeWait \<Rightarrow> (WorkerAsleep, b)"
  let ?y = "put_worker w ?x p y"
  have away: "fst ?x \<noteq> AtTake" by (cases t; simp; rename_tac k c; case_tac k) auto
  have n: "takers ?y + 1 = takers y"
    using tally_put[OF pool_okD(2)[OF ok(2)] w, of "\<lambda>x. fst x = AtTake" ?x] away by (simp add: takers_def put_worker_def)
  have f: "dom (py_leases ?y) \<subseteq> py_seen ?y" "py_pool ?y = p" "py_abandoned ?y = py_abandoned y" "py_leases ?y = py_leases y"
    using ok(1) by (simp_all add: sleep_ok_def put_worker_def)
  have old: "has_sleeper ?y \<Longrightarrow> t \<noteq> TakeWait \<Longrightarrow> has_sleeper y"
    by (auto simp: has_sleeper_def put_worker_def split: if_splits taken.splits; cases t; auto; rename_tac k c; case_tac k; auto)
  have "(\<forall>j \<in> set (bp_completed p). j \<notin> py_abandoned y) \<and> \<not> (bp_stopped p \<and> bp_completed p = []) \<and> length (bp_queue p) \<le> takers ?y" if h: "has_sleeper ?y"
  proof (cases "t = TakeWait")
    case True
    then show ?thesis using t
      by (auto simp: pool_take_def Let_def position_None_iff split: option.splits list.splits if_splits)
  next
    case False
    then have o: "\<forall>j \<in> set (bp_completed ?s). j \<notin> py_abandoned y" "\<not> (bp_stopped ?s \<and> bp_completed ?s = [])" "length (bp_queue ?s) \<le> takers y"
      using ok(1) old[OF h] by (simp_all add: sleep_ok_def)
    then have none: "position (\<lambda>j. j \<in> py_abandoned y) (bp_completed ?s) = None" by (simp add: position_None_iff)
    show ?thesis
    proof (cases "bp_queue ?s")
      case Nil
      then show ?thesis using t none False o by (auto simp: pool_take_def split: if_splits)
    next
      case (Cons j js)
      then have "bp_completed p = bp_completed ?s" "bp_stopped p = bp_stopped ?s" "bp_queue p = js"
        using t none by (auto simp: pool_take_def Let_def split: if_splits)
      then show ?thesis using o n Cons by simp
    qed
  qed
  then show ?thesis using f by (simp add: sleep_ok_def)
qed

lemma pool_reach_ok:
  "pool_reach cap threads r \<Longrightarrow> \<exists>y. r = Inr y \<and> pool_ok cap threads y \<and> sleep_ok y"
proof (induction rule: pool_reach.induct)
  case start
  then show ?case using pool_start_ok by (auto simp: sleep_ok_def has_sleeper_def pool_start_def split: if_splits)
next
  case (submit y j p ws)
  then have ok: "pool_ok cap threads y" "sleep_ok y" by auto
  let ?l = "(py_leases y)(j \<mapsto> False)" and ?v = "insert j (py_seen y)"
  have ok1: "pool_ok cap threads (y\<lparr>py_pool := p, py_leases := ?l, py_seen := ?v\<rparr>)" (is "pool_ok _ _ ?z")
    by (rule submit_ok[OF ok(1) submit.hyps(2,3)])
  have "pool_ok cap threads (y\<lparr>py_pool := p, py_workers := ws, py_leases := ?l, py_seen := ?v\<rparr>)"
  proof (cases "\<exists>w b. py_workers y w = Some (WorkerAsleep, b)")
    case True
    then obtain w b where w: "py_workers y w = Some (WorkerAsleep, b)" "ws = (py_workers y)(w \<mapsto> (AtTake, b))"
      using submit.hyps(4) by (auto simp: wakes_one_def)
    show ?thesis by (rule frame_ok[OF awake_ok[OF ok1, of w b]]) (use w in \<open>simp_all add: put_worker_def\<close>)
  next
    case False
    then have "ws = py_workers y" using submit.hyps(4) unfolding wakes_one_def by simp
    then show ?thesis using ok1 by simp
  qed
  with sleep_submit[OF ok(2,1) submit.hyps(2-4)] show ?case by simp
next
  case (stop y)
  then have ok: "pool_ok cap threads y" "sleep_ok y" by auto
  then show ?case using wake_pool_ok[OF stop_ok[OF ok(1)]] woken_ok by (auto simp: sleep_ok_def)
next
  case (abandon y j)
  then have ok: "pool_ok cap threads y" "sleep_ok y" by auto
  let ?y = "y\<lparr>py_leases := (py_leases y)(j \<mapsto> True), py_abandoned := insert j (py_abandoned y)\<rparr>"
  have "pool_ok cap threads ?y" by (rule frame_ok[OF ok(1)]) simp_all
  moreover have "\<not> has_sleeper ?y" by (auto simp: has_sleeper_def)
  moreover have "dom (py_leases ?y) \<subseteq> py_seen ?y" using ok(2) abandon.hyps(2) by (auto simp: sleep_ok_def)
  ultimately show ?case by (simp add: sleep_ok_def)
next
  case (notify y j)
  then have ok: "pool_ok cap threads y" "sleep_ok y" by auto
  let ?y = "y\<lparr>py_leases := (py_leases y)(j := None)\<rparr>"
  have "pool_ok cap threads ?y" by (rule frame_ok[OF ok(1)]) simp_all
  moreover have "dom (py_leases ?y) \<subseteq> py_seen ?y" using ok(2) by (auto simp: sleep_ok_def)
  ultimately show ?case using wake_pool_ok woken_ok by blast
next
  case (take y w b t p)
  then have ok: "pool_ok cap threads y" "sleep_ok y" by auto
  show ?case using pool_take_ok[OF ok(1) take.hyps(2-4)] sleep_take[OF ok(2,1) take.hyps(2,4)] by blast
next
  case (spent y w)
  then have ok: "pool_ok cap threads y" "sleep_ok y" by auto
  have "pool_charged (py_pool y) = 0" "bp_stopped (py_pool y)"
    using pool_okD(9)[OF ok(1) spent.hyps(2)] by (simp_all add: budget_ok_def discards_def)
  then have q: "bp_queue (py_pool y) = []" "bp_completed (py_pool y) = []" "bp_stopped (py_pool y)" by (simp_all add: pool_charged_def)
  then have "\<not> has_sleeper y" using ok(2) by (auto simp: sleep_ok_def)
  then have "\<not> has_sleeper (put_worker w (Finished, Some 0) (py_pool y) y)"
    by (auto simp: has_sleeper_def put_worker_def split: if_splits)
  then have "sleep_ok (put_worker w (Finished, Some 0) (py_pool y) y)"
    using ok(2) by (simp add: sleep_ok_def) (simp add: put_worker_def)
  then show ?case using spent_ok[OF ok(1) spent.hyps(2)] by blast
next
  case (spurious y w b)
  then have ok: "pool_ok cap threads y" "sleep_ok y" by auto
  show ?case using awake_ok[OF ok(1) spurious.hyps(2)]
      sleep_step[OF ok(2,1) spurious.hyps(2), where s = AtTake and p = "py_pool y" and b = b and e = "py_ended y" and t = "py_selected y"] by simp
next
  case (execute y w j c b p)
  then have ok: "pool_ok cap threads y" "sleep_ok y" by auto
  let ?js = "if ch_discard c then set_option (ch_wake c) else {j} - py_abandoned y"
  show ?case using execute_ok[OF ok(1) execute.hyps(2), of "p \<and> (ch_discard c \<or> j \<notin> py_abandoned y)" ?js]
      sleep_step[OF ok(2,1) execute.hyps(2), where s = "BodyRan j c (p \<and> (ch_discard c \<or> j \<notin> py_abandoned y))" and p = "py_pool y" and b = b and e = "py_ended y" and t = "py_selected y \<union> ?js"]
    by (simp add: select_jobs_def)
next
  case (count y w j c p b)
  then have ok: "pool_ok cap threads y" "sleep_ok y" by auto
  show ?case using count_ok[OF ok(1) count.hyps(2)]
      sleep_step[OF ok(2,1) count.hyps(2), where s = "PanicCounted j c" and p = "count_panic p (py_pool y)" and b = b and e = "py_ended y" and t = "py_selected y"]
    by (simp add: count_panic_def)
next
  case (decide y w j c b)
  then have ok: "pool_ok cap threads y" "sleep_ok y" by auto
  show ?case using decide_ok[OF ok(1) decide.hyps(2)]
      sleep_step[OF ok(2,1) decide.hyps(2), where s = "if ch_discard c \<or> j \<in> py_abandoned y then Destroying j c else Keeping j c" and p = "py_pool y" and b = b and e = "py_ended y" and t = "py_selected y"]
    by simp
next
  case (keep y w j c b)
  then have ok: "pool_ok cap threads y" "sleep_ok y" by auto
  from keep_ok[OF ok(1) keep.hyps(2)] obtain p where p: "pool_retain j (py_pool y) = Inr p"
    "pool_ok cap threads (put_worker w (Dropping (c\<lparr>ch_retained := True\<rparr>) False, b) p y)" by blast
  have "sleep_ok (wake_pool (put_worker w (Dropping (c\<lparr>ch_retained := True\<rparr>) False, b) p y))"
    by (rule woken_ok) (use ok(2) in \<open>simp add: sleep_ok_def put_worker_def\<close>)
  then show ?case using p wake_pool_ok[OF p(2)] by simp
next
  case (destroy y w j c b p)
  then have ok: "pool_ok cap threads y" "sleep_ok y" by auto
  have "holding (Destroying j c) = Some (j, c)"
    "count_panic p (py_pool y) = py_pool y \<or> (\<exists>q. count_panic p (py_pool y) = count_panic q (py_pool y))" by auto
  from pool_end_ok[OF ok(1) destroy.hyps(2) this, of False] show ?case
    using sleep_step[OF ok(2,1) destroy.hyps(2), where s = "Dropping c False" and p = "count_panic p (py_pool y)" and b = b and e = "py_ended y @ [j]" and t = "py_selected y"]
    by (auto simp: end_job_def count_panic_def)
next
  case (fault y w s b j c)
  then have ok: "pool_ok cap threads y" "sleep_ok y" by auto
  have "s \<noteq> AtTake" using fault.hyps(3) by auto
  then show ?case using pool_end_ok[OF ok(1) fault.hyps(2,3), of "py_pool y" True]
      sleep_step[OF ok(2,1) fault.hyps(2), where s = "Dropping c True" and p = "py_pool y" and b = b and e = "py_ended y @ [j]" and t = "py_selected y"]
    by (simp add: end_job_def)
next
  case (drop y w c u b)
  then have ok: "pool_ok cap threads y" "sleep_ok y" by auto
  show ?case using drop_ok[OF ok(1) drop.hyps(2)]
      sleep_step[OF ok(2,1) drop.hyps(2), where s = "Settling c u" and p = "py_pool y" and b = b and e = "py_ended y" and t = "py_selected y \<union> set_option (ch_wake c)"]
    by (simp add: select_jobs_def)
next
  case (settle y w c u b)
  then have ok: "pool_ok cap threads y" "sleep_ok y" by auto
  from pool_settle_ok[OF ok(1) settle.hyps(2)] obtain p where p: "charge_settle c (py_pool y) = Inr p"
    "pool_ok cap threads (put_worker w (if u then Failing else AtTake, b) p y)"
    "bp_queue p = bp_queue (py_pool y)" "bp_completed p = bp_completed (py_pool y)" "bp_stopped p = bp_stopped (py_pool y)" by blast
  then show ?case
    using sleep_step[OF ok(2,1) settle.hyps(2), where s = "if u then Failing else AtTake" and p = p and b = b and e = "py_ended y" and t = "py_selected y"] by simp
next
  case (fail y w b js p)
  then have ok: "pool_ok cap threads y" "sleep_ok y" by auto
  have "sleep_ok (wake_pool (put_worker w (ClosingQueue js, b) p y))"
    by (rule woken_ok) (use ok(2) in \<open>simp add: sleep_ok_def put_worker_def\<close>)
  then show ?case using wake_pool_ok[OF failed_ok[OF ok(1) fail.hyps(2,3)]] by blast
next
  case (close y w js b)
  then have ok: "pool_ok cap threads y" "sleep_ok y" by auto
  show ?case using close_ok[OF ok(1) close.hyps(2)]
      sleep_step[OF ok(2,1) close.hyps(2), where s = AtTake and p = "py_pool y" and b = "Some (case b of None \<Rightarrow> cap | Some m \<Rightarrow> m)" and e = "py_ended y" and t = "py_selected y \<union> set js"]
    by (simp add: select_jobs_def)
qed


section \<open>Properties\<close>

text \<open>
  C19. The pool accounts for every native call. Under every interleaving of submissions, stops,
  dropped leases and any number of workers, some of which fail, no count underflows; the queued,
  running, completed and discarding jobs together stay within the capacity; every accepted job is
  in exactly one place, queued, held by one worker, retained or ended; a caller that has not been
  selected has its job in the queue or with a worker that still owes it the selection; and once
  all workers have returned the pool is empty, every job has ended exactly once and every caller
  has been selected.
\<close>

theorem blocking_pool_exact:
  assumes "pool_reach cap threads r"
  shows "\<exists>y. r = Inr y \<and> pool_charged (py_pool y) \<le> cap \<and> (\<forall>j. jobs_at y j = of_bool (j \<in> py_seen y))
    \<and> (\<forall>j \<in> py_seen y. j \<in> py_selected y \<or> j \<in> set (bp_queue (py_pool y)) \<or> (\<exists>w x. py_workers y w = Some x \<and> owes_wake j x))
    \<and> (0 < threads \<and> (\<forall>w x. py_workers y w = Some x \<longrightarrow> fst x = Finished) \<longrightarrow>
         pool_cleanup_complete True (py_pool y) \<and> (\<forall>j. count_list (py_ended y) j = of_bool (j \<in> py_seen y)) \<and> py_seen y \<subseteq> py_selected y)"
proof -
  from pool_reach_ok[OF assms] obtain y where y: "r = Inr y" "pool_ok cap threads y" by blast
  note d = pool_okD[OF y(2)]
  have "pool_cleanup_complete True (py_pool y) \<and> (\<forall>j. count_list (py_ended y) j = of_bool (j \<in> py_seen y)) \<and> py_seen y \<subseteq> py_selected y"
    if threads: "0 < threads" and fin: "\<forall>w x. py_workers y w = Some x \<longrightarrow> fst x = Finished"
  proof -
    have none: "tally P (py_workers y) = 0" if "\<And>b. \<not> P (Finished, b)" for P
    proof -
      have "\<not> P x" if "py_workers y w = Some x" for w x
        using \<open>\<And>b. \<not> P (Finished, b)\<close>[of "snd x"] fin that by (cases x) auto
      then have "{w. \<exists>x. py_workers y w = Some x \<and> P x} = {}" by blast
      then show ?thesis by (simp only: tally_def card.empty)
    qed
    have "0 \<in> dom (py_workers y)" using threads d(1) by simp
    then obtain x where "py_workers y 0 = Some x" by blast
    then obtain b where "py_workers y 0 = Some (Finished, b)" using fin by (cases x) auto
    then have q: "bp_queue (py_pool y) = []" using d(10) by blast
    have c: "bp_completed (py_pool y) = []" using d(11) fin by fastforce
    have h: "\<not> runs (Finished, b)" "\<not> discards (Finished, b)" "\<not> holds j (Finished, b)" "\<not> owes_wake j (Finished, b)" for j b
      by (simp_all add: runs_def discards_def holds_def owes_wake_def)
    have "pool_cleanup_complete True (py_pool y)" using q c d(3,4) none h by (simp add: pool_cleanup_complete_def)
    moreover have "count_list (py_ended y) j = of_bool (j \<in> py_seen y)" for j
      using d(5)[of j] q c none[of "holds j"] h(3) by (simp add: jobs_at_def)
    moreover have "py_seen y \<subseteq> py_selected y"
    proof
      fix j assume "j \<in> py_seen y"
      from d(7)[OF this] q show "j \<in> py_selected y" using fin h(4) by (metis empty_iff empty_set prod.collapse)
    qed
    ultimately show ?thesis by blast
  qed
  with y(1) d(5-7) show ?thesis by blast
qed

text \<open>
  C20. No worker sleeps on work. While a worker sleeps on the condition and no caller is between
  dropping its lease and notifying, no retained result is abandoned, the workers of a stopped pool
  have still something to wait for, and as many workers are on their way to the queue as it holds
  jobs.
\<close>

theorem blocking_no_lost_wakeup:
  assumes "pool_reach cap threads (Inr y)" "py_workers y w = Some (WorkerAsleep, b)" "\<And>j. py_leases y j \<noteq> Some True"
  shows "(\<forall>j \<in> set (bp_completed (py_pool y)). j \<notin> py_abandoned y)
    \<and> \<not> (bp_stopped (py_pool y) \<and> bp_completed (py_pool y) = [])
    \<and> length (bp_queue (py_pool y)) \<le> tally (\<lambda>x. fst x = AtTake) (py_workers y)"
  using pool_reach_ok[OF assms(1)] assms(2,3) by (auto simp: sleep_ok_def has_sleeper_def takers_def)

section \<open>A history\<close>

text \<open>One worker; a job is submitted, the pool stops, and the worker discards the job and returns.\<close>

definition sample_charge :: charge where
  "sample_charge = \<lparr>ch_discard = True, ch_wake = Some 5, ch_retained = False\<rparr>"

definition sample_pool :: "nat list \<Rightarrow> nat \<Rightarrow> pool_state" where
  "sample_pool q d = pool_new\<lparr>bp_queue := q, bp_discarding := d, bp_stopped := True\<rparr>"

definition sample_sys :: "pool_state \<Rightarrow> worker_stage \<Rightarrow> nat set \<Rightarrow> nat list \<Rightarrow> pool_sys" where
  "sample_sys p s sel ended = \<lparr>py_pool = p, py_workers = [0 \<mapsto> (s, None)], py_leases = [5 \<mapsto> False],
     py_abandoned = {}, py_selected = sel, py_ended = ended, py_seen = {5}\<rparr>"

lemma sample_start: "pool_start (Suc 0) = \<lparr>py_pool = pool_new, py_workers = [0 \<mapsto> (AtTake, None)], py_leases = Map.empty,
   py_abandoned = {}, py_selected = {}, py_ended = [], py_seen = {}\<rparr>"
  by (auto simp: pool_start_def)

lemma sample_put: "put_worker 0 (s, None) p (sample_sys q t sel ended) = sample_sys p s sel ended"
  "select_jobs js (sample_sys q t sel ended) = sample_sys q t (sel \<union> js) ended"
  "end_job 5 (sample_sys q t sel ended) = sample_sys q t sel (ended @ [5])"
  by (simp_all add: sample_sys_def put_worker_def select_jobs_def end_job_def)

lemma sample_drained: "pool_reach 1 1 (Inr (sample_sys (sample_pool [] 0) Finished {5} [5]))"
proof -
  note defs = sample_sys_def sample_pool_def sample_charge_def pool_new_def
  have r0: "pool_reach 1 1 (Inr (pool_start 1))" by (rule pool_reach.start)
  have sub: "pool_submit 1 5 (py_pool (pool_start 1)) = (Inr (), pool_new\<lparr>bp_queue := [5]\<rparr>)" "5 \<notin> py_seen (pool_start 1)"
    "wakes_one (py_workers (pool_start 1)) [0 \<mapsto> (AtTake, None)]"
    by (simp_all add: sample_start pool_submit_def pool_new_def pool_charged_def wakes_one_def)
  have r1: "pool_reach 1 1 (Inr (sample_sys (pool_new\<lparr>bp_queue := [5]\<rparr>) AtTake {} []))"
    using pool_reach.submit[OF r0 sub(2,1,3)] by (simp add: sample_start sample_sys_def)
  have wk: "wake_workers [0 \<mapsto> (AtTake, None)] = [0 \<mapsto> (AtTake, None)]" by (auto simp: wake_workers_def fun_eq_iff)
  have r2: "pool_reach 1 1 (Inr (sample_sys (sample_pool [5] 0) AtTake {} []))"
    using pool_reach.stop[OF r1] wk by (simp add: wake_pool_def sample_sys_def sample_pool_def pool_stop_def pool_new_def)
  have w: "py_workers (sample_sys p s sel ended) 0 = Some (s, None)" "py_pool (sample_sys p s sel ended) = p"
    "py_abandoned (sample_sys p s sel ended) = {}" for p s sel ended
    by (simp_all add: sample_sys_def)
  have t: "pool_take (\<lambda>j. j \<in> {}) (sample_pool [5] 0) = (Took (ExecuteJob 5) sample_charge, sample_pool [] 1)"
    by (simp add: pool_take_def defs)
  have r3: "pool_reach 1 1 (Inr (sample_sys (sample_pool [] 1) (Executing 5 sample_charge) {} []))"
    using pool_reach.take[OF r2 w(1), of "Took (ExecuteJob 5) sample_charge" "sample_pool [] 1"] t by (simp add: w sample_put)
  have r4: "pool_reach 1 1 (Inr (sample_sys (sample_pool [] 1) (BodyRan 5 sample_charge False) {5} []))"
    using pool_reach.execute[OF r3 w(1), of False] by (simp add: w sample_put sample_charge_def)
  have r5: "pool_reach 1 1 (Inr (sample_sys (sample_pool [] 1) (PanicCounted 5 sample_charge) {5} []))"
    using pool_reach.count[OF r4 w(1)] by (simp add: w sample_put count_panic_def)
  have r6: "pool_reach 1 1 (Inr (sample_sys (sample_pool [] 1) (Destroying 5 sample_charge) {5} []))"
    using pool_reach.decide[OF r5 w(1)] by (simp add: w sample_put sample_charge_def)
  have r7: "pool_reach 1 1 (Inr (sample_sys (sample_pool [] 1) (Dropping sample_charge False) {5} [5]))"
    using pool_reach.destroy[OF r6 w(1), of False] by (simp add: w sample_put count_panic_def)
  have r8: "pool_reach 1 1 (Inr (sample_sys (sample_pool [] 1) (Settling sample_charge False) {5} [5]))"
    using pool_reach.drop[OF r7 w(1)] by (simp add: w sample_put sample_charge_def)
  have r9: "pool_reach 1 1 (Inr (sample_sys (sample_pool [] 0) AtTake {5} [5]))"
    using pool_reach.settle[OF r8 w(1)] by (simp add: w sample_put charge_settle_def sample_charge_def) (simp add: sample_pool_def pool_new_def)
  have "pool_take (\<lambda>j. j \<in> {}) (sample_pool [] 0) = (TakeNone, sample_pool [] 0)" by (simp add: pool_take_def defs)
  then show ?thesis using pool_reach.take[OF r9 w(1), of TakeNone "sample_pool [] 0"] by (simp add: w sample_put)
qed

theorem blocking_pool_exact_witness:
  "\<exists>y. pool_reach 1 1 (Inr y) \<and> py_seen y = {5} \<and> pool_cleanup_complete True (py_pool y) \<and> count_list (py_ended y) 5 = 1 \<and> 5 \<in> py_selected y"
proof -
  let ?y = "sample_sys (sample_pool [] 0) Finished {5} [5]"
  have "\<forall>w x. py_workers ?y w = Some x \<longrightarrow> fst x = Finished" "py_seen ?y = {5}" by (auto simp: sample_sys_def split: if_splits)
  with blocking_pool_exact[OF sample_drained] sample_drained show ?thesis by (intro exI[of _ ?y]) auto
qed

theorem blocking_no_lost_wakeup_witness:
  "\<exists>y. pool_reach 1 1 (Inr y) \<and> py_workers y 0 = Some (WorkerAsleep, None) \<and> length (bp_queue (py_pool y)) \<le> tally (\<lambda>x. fst x = AtTake) (py_workers y)"
proof -
  let ?y = "put_worker 0 (WorkerAsleep, None) pool_new (pool_start 1)"
  have w: "py_workers (pool_start 1) 0 = Some (AtTake, None)" by (simp add: sample_start)
  have r: "pool_reach 1 1 (Inr ?y)"
    using pool_reach.take[OF pool_reach.start w, of TakeWait pool_new] by (simp add: sample_start pool_take_def pool_new_def)
  have "py_workers ?y 0 = Some (WorkerAsleep, None)" "py_leases ?y j \<noteq> Some True" for j
    by (simp_all add: put_worker_def sample_start)
  from r this(1) blocking_no_lost_wakeup[OF r this] show ?thesis by blast
qed


end
