(* ===== verification/Readiness.thy ===== *)
theory Readiness
  imports Prelude
begin

text \<open>
  Readiness subscriptions (readiness.rs, readiness/driver.rs): the bounded table of waits under
  ever new keys, its closing, and the driver that installs the table's keys in the poll object,
  waits, and selects the waits whose events arrive. The poll object and its waker belong to
  another package: what they report is arbitrary. Entries are kept in the order of their keys, as
  in the B-tree map; an entry is its park token, with which the wait is selected.
\<close>

section \<open>The table\<close>

record reactor_state =
  rx_entries :: "(u64 \<times> park_token) list"
  rx_next :: u64
  rx_stopped :: bool
  rx_error :: "string option"

definition reactor_new :: reactor_state where
  "reactor_new = \<lparr>rx_entries = [], rx_next = 1, rx_stopped = False, rx_error = None\<rparr>"

definition reactor_register :: "nat \<Rightarrow> park_token \<Rightarrow> reactor_state \<Rightarrow> u64 result \<times> reactor_state" where
  "reactor_register cap token s =
     (if rx_error s \<noteq> None then (Inl ReadinessFailed, s)
      else if rx_stopped s then (Inl RuntimeStopped, s)
      else if length (rx_entries s) = cap then (Inl (Capacity Readiness cap), s)
      else (let key = rx_next s in
            case checked_add key 1 of
              None \<Rightarrow> (Inl (Fault ReadinessComponent ''readiness identity exhausted''), s)
            | Some n \<Rightarrow> (Inr key, s\<lparr>rx_next := n, rx_entries := rx_entries s @ [(key, token)]\<rparr>)))"

definition reactor_check :: "reactor_state \<Rightarrow> unit result" where
  "reactor_check s = (if rx_error s \<noteq> None then Inl ReadinessFailed else if rx_stopped s then Inl RuntimeStopped else Inr ())"

text \<open>Removal of an entry, by its lease or by an event; the token says which wait it was.\<close>

definition entry_remove :: "u64 \<Rightarrow> reactor_state \<Rightarrow> park_token option \<times> reactor_state" where
  "entry_remove key s = (kv_get (rx_entries s) key, s\<lparr>rx_entries := kv_del key (rx_entries s)\<rparr>)"

text \<open>Closing: the entries to select as closed, and the failure to record if it is the first.\<close>

definition reactor_close :: "string option \<Rightarrow> reactor_state \<Rightarrow> (u64 \<times> park_token) list \<times> string option \<times> reactor_state" where
  "reactor_close e s =
     (rx_entries s, if rx_error s = None then e else None,
      s\<lparr>rx_stopped := True, rx_error := (if rx_error s = None then e else rx_error s), rx_entries := []\<rparr>)"

definition reactor_cleanup_complete :: "bool \<Rightarrow> nat \<Rightarrow> reactor_state \<Rightarrow> bool" where
  "reactor_cleanup_complete joined registered s \<longleftrightarrow> joined \<and> rx_entries s = [] \<and> registered = 0"

section \<open>The driver\<close>

text \<open>
  One pass over the table: the keys that left it are deleted from the poll object, then the new
  ones are registered; the first failure ends the pass. The flag says that it succeeded.
\<close>

fun poll_delete :: "(u64 \<Rightarrow> bool) \<Rightarrow> u64 list \<Rightarrow> u64 list \<Rightarrow> bool \<times> u64 list" where
  "poll_delete ok [] installed = (True, installed)"
| "poll_delete ok (k # ks) installed =
     (if ok k then poll_delete ok ks (remove1 k installed) else (False, remove1 k installed))"

fun poll_register :: "(u64 \<Rightarrow> bool) \<Rightarrow> u64 list \<Rightarrow> u64 list \<Rightarrow> bool \<times> u64 list" where
  "poll_register ok [] installed = (True, installed)"
| "poll_register ok (k # ks) installed =
     (if k \<in> set installed then poll_register ok ks installed
      else if ok k then poll_register ok ks (insort k installed) else (False, installed))"

definition driver_reconcile :: "(u64 \<Rightarrow> bool) \<Rightarrow> (u64 \<Rightarrow> bool) \<Rightarrow> reactor_state \<Rightarrow> u64 list \<Rightarrow> bool \<times> u64 list" where
  "driver_reconcile deletes registers s installed =
     (case poll_delete deletes (filter (\<lambda>k. k \<notin> kv_keys (rx_entries s)) installed) installed of
        (False, installed) \<Rightarrow> (False, installed)
      | (True, installed) \<Rightarrow> poll_register registers (map fst (rx_entries s)) installed)"

text \<open>
  Where the driver stands: at the top of its loop; waiting; with events to handle, each with the
  flag that it carries readiness; about to select a wait it has removed; failed; leaving; gone.
\<close>

datatype driver_stage =
    DriveTop
  | DriveWaiting
  | DriveEvents "(u64 \<times> bool) list"
  | DriveSelecting u64 park_token "(u64 \<times> bool) list"
  | DriveFailed
  | DriveLeaving
  | DriveGone

datatype readiness_cause = ReadyEvent | ClosedReactor

text \<open>
  \<open>rs_closing\<close> holds the entries that closers have taken and not selected yet; \<open>rs_selected\<close> and
  \<open>rs_released\<close> record the selections and the entries that their own lease removed;
  \<open>rs_accepted\<close> the tokens registered under each key.
\<close>

record readiness_sys =
  rs_reactor :: reactor_state
  rs_registered :: nat
  rs_installed :: "u64 list"
  rs_driver :: driver_stage
  rs_closing :: "(u64 \<times> park_token) list"
  rs_selected :: "(u64 \<times> park_token \<times> readiness_cause) list"
  rs_released :: "u64 list"
  rs_accepted :: "u64 \<rightharpoonup> park_token"

definition readiness_start :: readiness_sys where
  "readiness_start = \<lparr>rs_reactor = reactor_new, rs_registered = 0, rs_installed = [], rs_driver = DriveTop,
     rs_closing = [], rs_selected = [], rs_released = [], rs_accepted = Map.empty\<rparr>"

inductive readiness_reach :: "nat \<Rightarrow> readiness_sys \<Rightarrow> bool" for cap where
  start: "readiness_reach cap readiness_start"
| register: "readiness_reach cap y \<Longrightarrow> reactor_register cap token (rs_reactor y) = (Inr key, s) \<Longrightarrow>
     readiness_reach cap (y\<lparr>rs_reactor := s, rs_accepted := (rs_accepted y)(key \<mapsto> token)\<rparr>)"
| release: "readiness_reach cap y \<Longrightarrow> entry_remove key (rs_reactor y) = (Some token, s) \<Longrightarrow>
     readiness_reach cap (y\<lparr>rs_reactor := s, rs_released := key # rs_released y\<rparr>)"
| close: "readiness_reach cap y \<Longrightarrow> reactor_close e (rs_reactor y) = (es, failure, s) \<Longrightarrow>
     readiness_reach cap (y\<lparr>rs_reactor := s, rs_closing := es @ rs_closing y\<rparr>)"
| closed: "readiness_reach cap y \<Longrightarrow> rs_closing y = es @ (key, token) # fs \<Longrightarrow>
     readiness_reach cap (y\<lparr>rs_closing := es @ fs, rs_selected := (key, token, ClosedReactor) # rs_selected y\<rparr>)"
| stop: "readiness_reach cap y \<Longrightarrow> rs_driver y = DriveTop \<Longrightarrow> rx_stopped (rs_reactor y) \<Longrightarrow>
     readiness_reach cap (y\<lparr>rs_driver := DriveLeaving\<rparr>)"
| reconcile: "readiness_reach cap y \<Longrightarrow> rs_driver y = DriveTop \<Longrightarrow> \<not> rx_stopped (rs_reactor y) \<Longrightarrow>
     driver_reconcile deletes registers (rs_reactor y) (rs_installed y) = (ok, installed) \<Longrightarrow>
     readiness_reach cap (if ok then y\<lparr>rs_installed := installed, rs_registered := length installed, rs_driver := DriveWaiting\<rparr>
       else y\<lparr>rs_installed := installed, rs_driver := DriveFailed\<rparr>)"
| poll: "readiness_reach cap y \<Longrightarrow> rs_driver y = DriveWaiting \<Longrightarrow> d \<in> {DriveTop, DriveEvents es, DriveFailed} \<Longrightarrow>
     readiness_reach cap (y\<lparr>rs_driver := d\<rparr>)"
| event: "readiness_reach cap y \<Longrightarrow> rs_driver y = DriveEvents ((key, ready) # es) \<Longrightarrow>
     readiness_reach cap (if \<not> ready then y\<lparr>rs_driver := DriveEvents es\<rparr>
       else case entry_remove key (rs_reactor y) of
              (None, s) \<Rightarrow> y\<lparr>rs_reactor := s, rs_driver := DriveEvents es\<rparr>
            | (Some token, s) \<Rightarrow> y\<lparr>rs_reactor := s, rs_driver := DriveSelecting key token es\<rparr>)"
| select: "readiness_reach cap y \<Longrightarrow> rs_driver y = DriveSelecting key token es \<Longrightarrow>
     readiness_reach cap (y\<lparr>rs_driver := DriveEvents es, rs_selected := (key, token, ReadyEvent) # rs_selected y\<rparr>)"
| handled: "readiness_reach cap y \<Longrightarrow> rs_driver y = DriveEvents [] \<Longrightarrow> d \<in> {DriveTop, DriveFailed} \<Longrightarrow>
     readiness_reach cap (y\<lparr>rs_driver := d\<rparr>)"
| fail: "readiness_reach cap y \<Longrightarrow> rs_driver y = DriveFailed \<Longrightarrow> reactor_close (Some e) (rs_reactor y) = (es, failure, s) \<Longrightarrow>
     readiness_reach cap (y\<lparr>rs_reactor := s, rs_closing := es @ rs_closing y, rs_driver := DriveLeaving\<rparr>)"
| leave: "readiness_reach cap y \<Longrightarrow> rs_driver y = DriveLeaving \<Longrightarrow>
     readiness_reach cap (y\<lparr>rs_driver := DriveGone, rs_registered := 0\<rparr>)"

section \<open>Invariant\<close>

fun selecting :: "driver_stage \<Rightarrow> (u64 \<times> park_token) option" where
  "selecting (DriveSelecting k t es) = Some (k, t)"
| "selecting _ = None"

definition key_places :: "readiness_sys \<Rightarrow> u64 \<Rightarrow> nat" where
  "key_places y k = count_list (map fst (rx_entries (rs_reactor y))) k + of_bool (map_option fst (selecting (rs_driver y)) = Some k)
     + count_list (map fst (rs_closing y)) k + count_list (map fst (rs_selected y)) k + count_list (rs_released y) k"

definition readiness_ok :: "nat \<Rightarrow> readiness_sys \<Rightarrow> bool" where
  "readiness_ok cap y \<longleftrightarrow>
     (\<forall>k. key_places y k = of_bool (rs_accepted y k \<noteq> None))
     \<and> (\<forall>k. rs_accepted y k \<noteq> None \<longrightarrow> k < rx_next (rs_reactor y))
     \<and> (\<forall>(k, t) \<in> set (rx_entries (rs_reactor y)) \<union> set (rs_closing y) \<union> set_option (selecting (rs_driver y)). rs_accepted y k = Some t)
     \<and> (\<forall>(k, t, c) \<in> set (rs_selected y). rs_accepted y k = Some t)
     \<and> length (rx_entries (rs_reactor y)) \<le> cap \<and> rs_registered y \<le> cap
     \<and> (rx_stopped (rs_reactor y) \<longrightarrow> rx_entries (rs_reactor y) = [])
     \<and> (rs_driver y \<in> {DriveLeaving, DriveGone} \<longrightarrow> rx_stopped (rs_reactor y))
     \<and> (rs_driver y = DriveGone \<longrightarrow> rs_registered y = 0)
     \<and> distinct (rs_installed y)"

lemma readiness_okD:
  assumes "readiness_ok cap y"
  shows "key_places y k = of_bool (rs_accepted y k \<noteq> None)" "rs_accepted y k \<noteq> None \<Longrightarrow> k < rx_next (rs_reactor y)"
    "(k, t) \<in> set (rx_entries (rs_reactor y)) \<union> set (rs_closing y) \<union> set_option (selecting (rs_driver y)) \<Longrightarrow> rs_accepted y k = Some t"
    "(k, t, c) \<in> set (rs_selected y) \<Longrightarrow> rs_accepted y k = Some t"
    "length (rx_entries (rs_reactor y)) \<le> cap" "rs_registered y \<le> cap"
    "rx_stopped (rs_reactor y) \<Longrightarrow> rx_entries (rs_reactor y) = []"
    "rs_driver y \<in> {DriveLeaving, DriveGone} \<Longrightarrow> rx_stopped (rs_reactor y)"
    "rs_driver y = DriveGone \<Longrightarrow> rs_registered y = 0" "distinct (rs_installed y)"
  using assms unfolding readiness_ok_def by (blast | simp)+

lemma poll_delete_ok:
  "poll_delete ok ks installed = (b, r) \<Longrightarrow> distinct installed \<Longrightarrow> distinct r \<and> (b \<longrightarrow> set r = set installed - set ks)"
proof (induction ks arbitrary: installed)
  case (Cons k ks)
  then have d: "distinct (remove1 k installed)" "set (remove1 k installed) = set installed - {k}" by (simp_all add: distinct_remove1)
  show ?case
  proof (cases "ok k")
    case True
    with Cons.prems(1) Cons.IH[OF _ d(1)] d(2) show ?thesis by auto
  next
    case False
    with Cons.prems(1) d(1) show ?thesis by auto
  qed
qed auto

lemma poll_register_ok:
  "poll_register ok ks installed = (b, r) \<Longrightarrow> distinct installed \<Longrightarrow> distinct r \<and> (b \<longrightarrow> set r = set installed \<union> set ks)"
proof (induction ks arbitrary: installed)
  case (Cons k ks)
  show ?case
  proof (cases "k \<in> set installed")
    case True
    then show ?thesis using Cons by auto
  next
    case False
    then have "distinct (insort k installed)" using Cons.prems(2) by (simp add: distinct_insort)
    then show ?thesis using Cons.IH[of "insort k installed"] Cons.prems False
      by (cases "ok k") (auto simp: set_insort_key)
  qed
qed auto

text \<open>After a pass the installed keys are those of the table, and never more than its capacity.\<close>

lemma reconcile_ok:
  assumes "driver_reconcile deletes registers s installed = (b, r)" "distinct installed"
  shows "distinct r" "b \<Longrightarrow> set r = kv_keys (rx_entries s)" "b \<Longrightarrow> length r \<le> length (rx_entries s)"
proof -
  let ?gone = "filter (\<lambda>k. k \<notin> kv_keys (rx_entries s)) installed"
  obtain c q where q: "poll_delete deletes ?gone installed = (c, q)" by fastforce
  have d: "distinct q" "c \<longrightarrow> set q = set installed - set ?gone"
    using poll_delete_ok[OF q assms(2)] by auto
  have "distinct r \<and> (b \<longrightarrow> set r = kv_keys (rx_entries s))"
  proof (cases c)
    case True
    then have "poll_register registers (map fst (rx_entries s)) q = (b, r)" using assms(1) q by (simp add: driver_reconcile_def)
    from poll_register_ok[OF this d(1)] d(2) True show ?thesis by (auto simp: kv_keys_def)
  next
    case False
    then show ?thesis using assms(1) q d(1) by (simp add: driver_reconcile_def)
  qed
  then show r: "distinct r" "b \<Longrightarrow> set r = kv_keys (rx_entries s)" by auto
  show "length r \<le> length (rx_entries s)" if b
    using distinct_card[OF r(1)] r(2)[OF that] card_length[of "map fst (rx_entries s)"] by (simp add: kv_keys_def)
qed

lemma count_kv_del: "count_list (map fst (kv_del key m)) k = (if k = key then 0 else count_list (map fst m) k)"
  by (induction m) (auto simp: kv_del_def)

lemma kv_get_count: "kv_get m key = Some t \<Longrightarrow> 0 < count_list (map fst m) key"
  by (induction m) (auto simp: kv_get_def split: if_splits)

text \<open>An entry leaves the table for its lease or for the driver.\<close>

lemma remove_entry_ok:
  assumes ok: "readiness_ok cap y" and r: "entry_remove key (rs_reactor y) = (Some token, s)"
  shows "rx_stopped s = rx_stopped (rs_reactor y)" "rx_next s = rx_next (rs_reactor y)" "length (rx_entries s) \<le> cap"
    "set (rx_entries s) \<subseteq> set (rx_entries (rs_reactor y))" "rs_accepted y key = Some token"
    "count_list (map fst (rx_entries s)) k + of_bool (k = key) = count_list (map fst (rx_entries (rs_reactor y))) k"
proof -
  have g: "kv_get (rx_entries (rs_reactor y)) key = Some token" "s = (rs_reactor y)\<lparr>rx_entries := kv_del key (rx_entries (rs_reactor y))\<rparr>"
    using r by (simp_all add: entry_remove_def)
  note d = readiness_okD[OF ok]
  show a: "rs_accepted y key = Some token" using d(3)[of key token] kv_get_Some_mem[OF g(1)] by blast
  show "rx_stopped s = rx_stopped (rs_reactor y)" "rx_next s = rx_next (rs_reactor y)" by (simp_all add: g(2))
  show "length (rx_entries s) \<le> cap" using d(5) by (simp add: g(2) kv_del_def) (meson le_trans length_filter_le)
  show "set (rx_entries s) \<subseteq> set (rx_entries (rs_reactor y))" by (auto simp: g(2) kv_del_def)
  have "count_list (map fst (rx_entries (rs_reactor y))) key \<le> key_places y key" by (simp add: key_places_def)
  moreover have "key_places y key \<le> 1" unfolding d(1) by simp
  ultimately have "count_list (map fst (rx_entries (rs_reactor y))) key \<le> 1" by linarith
  with kv_get_count[OF g(1)] show "count_list (map fst (rx_entries s)) k + of_bool (k = key) = count_list (map fst (rx_entries (rs_reactor y))) k"
    by (auto simp: g(2) count_kv_del)
qed

lemma readiness_reach_ok: "readiness_reach cap y \<Longrightarrow> readiness_ok cap y"
proof (induction rule: readiness_reach.induct)
  case start
  show ?case by (simp add: readiness_ok_def readiness_start_def key_places_def reactor_new_def)
next
  case (register y token key s)
  note d = readiness_okD[OF register.IH]
  let ?x = "rs_reactor y"
  from register.hyps(2) obtain n where s: "rx_error ?x = None" "\<not> rx_stopped ?x" "length (rx_entries ?x) \<noteq> cap" "key = rx_next ?x"
    "checked_add key 1 = Some n" "s = ?x\<lparr>rx_next := n, rx_entries := rx_entries ?x @ [(key, token)]\<rparr>"
    by (auto simp: reactor_register_def Let_def split: if_splits option.splits)
  have n: "key < n" using checked_add_unat[OF s(5)] by (simp add: word_less_nat_alt)
  have new: "rs_accepted y key = None" using d(2)[of key] s(4) by (metis less_irrefl)
  have below: "k < n" if "rs_accepted y k \<noteq> None" for k using d(2)[OF that] n s(4) by simp
  have "length (rx_entries s) \<le> cap" using d(5) s(3,6) by simp
  moreover have "key_places (y\<lparr>rs_reactor := s, rs_accepted := (rs_accepted y)(key \<mapsto> token)\<rparr>) k = of_bool (((rs_accepted y)(key \<mapsto> token)) k \<noteq> None)" for k
    using d(1)[of k] new by (auto simp: key_places_def s(6))
  moreover have "((rs_accepted y)(key \<mapsto> token)) k = Some t"
    if "(k, t) \<in> set (rx_entries s) \<union> set (rs_closing y) \<union> set_option (selecting (rs_driver y))" for k t
    using that d(3)[of k t] new by (auto simp: s(6))
  moreover have "((rs_accepted y)(key \<mapsto> token)) k = Some t" if "(k, t, c) \<in> set (rs_selected y)" for k t c
    using d(4)[OF that] new by auto
  ultimately show ?case using d(6,8-10) below n s(2) new
    by (auto simp: readiness_ok_def s(6))
next
  case (release y key token s)
  note d = readiness_okD[OF release.IH] and r = remove_entry_ok[OF release.IH release.hyps(2)]
  have "key_places (y\<lparr>rs_reactor := s, rs_released := key # rs_released y\<rparr>) k = key_places y k" for k
    using r(6)[of k] by (auto simp: key_places_def)
  then show ?case using d r(1-4) by (auto simp: readiness_ok_def)
next
  case (close y e es failure s)
  note d = readiness_okD[OF close.IH]
  have s: "es = rx_entries (rs_reactor y)" "rx_entries s = []" "rx_stopped s" "rx_next s = rx_next (rs_reactor y)"
    using close.hyps(2) by (auto simp: reactor_close_def)
  have "key_places (y\<lparr>rs_reactor := s, rs_closing := es @ rs_closing y\<rparr>) k = key_places y k" for k
    by (simp add: key_places_def s)
  then show ?case using d by (auto simp: readiness_ok_def s)
next
  case (closed y es key token fs)
  note d = readiness_okD[OF closed.IH]
  have "key_places (y\<lparr>rs_closing := es @ fs, rs_selected := (key, token, ClosedReactor) # rs_selected y\<rparr>) k = key_places y k" for k
    by (simp add: key_places_def closed.hyps(2))
  moreover have "rs_accepted y key = Some token" using d(3) closed.hyps(2) by simp
  ultimately show ?case using d closed.hyps(2) by (auto simp: readiness_ok_def)
next
  case (stop y)
  note d = readiness_okD[OF stop.IH]
  have "key_places (y\<lparr>rs_driver := DriveLeaving\<rparr>) k = key_places y k" for k by (simp add: key_places_def stop.hyps(2))
  then show ?case using d stop.hyps by (auto simp: readiness_ok_def)
next
  case (reconcile y deletes registers ok installed)
  note d = readiness_okD[OF reconcile.IH] and r = reconcile_ok[OF reconcile.hyps(4) d(10)]
  let ?y = "if ok then y\<lparr>rs_installed := installed, rs_registered := length installed, rs_driver := DriveWaiting\<rparr> else y\<lparr>rs_installed := installed, rs_driver := DriveFailed\<rparr>"
  have "key_places ?y k = key_places y k" for k by (simp add: key_places_def reconcile.hyps(2))
  then show ?case using d r le_trans[OF r(3) d(5)] reconcile.hyps(2) by (auto simp: readiness_ok_def)
next
  case (poll y d es)
  note i = readiness_okD[OF poll.IH]
  have "key_places (y\<lparr>rs_driver := d\<rparr>) k = key_places y k" "selecting d = None" "d \<noteq> DriveLeaving" "d \<noteq> DriveGone" for k
    using poll.hyps(2,3) by (auto simp: key_places_def)
  then show ?case using i poll.hyps(2) by (auto simp: readiness_ok_def)
next
  case (event y key ready es)
  note d = readiness_okD[OF event.IH]
  show ?case
  proof (cases "fst (entry_remove key (rs_reactor y))")
    case None
    then have "kv_get (rx_entries (rs_reactor y)) key = None" by (simp add: entry_remove_def)
    then have "kv_del key (rx_entries (rs_reactor y)) = rx_entries (rs_reactor y)"
      by (auto simp: kv_get_None_iff kv_keys_def kv_del_def intro!: filter_True)
    then have s: "entry_remove key (rs_reactor y) = (None, rs_reactor y)" using None by (simp add: entry_remove_def)
    have "key_places (y\<lparr>rs_driver := DriveEvents es\<rparr>) k = key_places y k" for k by (simp add: key_places_def event.hyps(2))
    then show ?thesis using d s event.hyps(2) by (auto simp: readiness_ok_def)
  next
    case (Some token)
    then obtain s where s: "entry_remove key (rs_reactor y) = (Some token, s)" by (cases "entry_remove key (rs_reactor y)") auto
    note r = remove_entry_ok[OF event.IH s]
    have q: "key_places (y\<lparr>rs_driver := DriveEvents es\<rparr>) k = key_places y k" for k by (simp add: key_places_def event.hyps(2))
    have "key_places (y\<lparr>rs_reactor := s, rs_driver := DriveSelecting key token es\<rparr>) k = key_places y k" for k
      using r(6)[of k] by (auto simp: key_places_def event.hyps(2))
    then show ?thesis using d q s r(1-5) event.hyps(2) by (auto simp: readiness_ok_def)
  qed
next
  case (select y key token es)
  note d = readiness_okD[OF select.IH]
  have "key_places (y\<lparr>rs_driver := DriveEvents es, rs_selected := (key, token, ReadyEvent) # rs_selected y\<rparr>) k = key_places y k" for k
    by (auto simp: key_places_def select.hyps(2))
  moreover have "rs_accepted y key = Some token" using d(3)[of key token] select.hyps(2) by simp
  ultimately show ?case using d select.hyps(2) by (auto simp: readiness_ok_def)
next
  case (handled y d)
  note i = readiness_okD[OF handled.IH]
  have "key_places (y\<lparr>rs_driver := d\<rparr>) k = key_places y k" "selecting d = None" "d \<noteq> DriveLeaving" "d \<noteq> DriveGone" for k
    using handled.hyps(2,3) by (auto simp: key_places_def)
  then show ?case using i handled.hyps(2) by (auto simp: readiness_ok_def)
next
  case (fail y e es failure s)
  note d = readiness_okD[OF fail.IH]
  have s: "es = rx_entries (rs_reactor y)" "rx_entries s = []" "rx_stopped s" "rx_next s = rx_next (rs_reactor y)"
    using fail.hyps(3) by (auto simp: reactor_close_def)
  have "key_places (y\<lparr>rs_reactor := s, rs_closing := es @ rs_closing y, rs_driver := DriveLeaving\<rparr>) k = key_places y k" for k
    by (simp add: key_places_def s fail.hyps(2))
  then show ?case using d fail.hyps(2) by (auto simp: readiness_ok_def s)
next
  case (leave y)
  note d = readiness_okD[OF leave.IH]
  have "key_places (y\<lparr>rs_driver := DriveGone, rs_registered := 0\<rparr>) k = key_places y k" for k by (simp add: key_places_def leave.hyps(2))
  then show ?case using d leave.hyps(2) by (auto simp: readiness_ok_def)
qed

section \<open>Properties\<close>

text \<open>
  C21. Every readiness wait ends once, and as itself. Under every interleaving of registrations,
  dropped leases, closers and the driver, whatever events and failures the poll object reports,
  the table and the count of installed registrations stay within the capacity, an accepted key is
  in the table, about to be selected, selected or released, in exactly one of these places, and is
  selected only with the token it was registered with; and once the driver has gone and the
  closers have finished, every accepted wait has been selected or released by its own lease and
  the service counts as cleaned up.
\<close>

theorem readiness_exact:
  assumes "readiness_reach cap y"
  shows "length (rx_entries (rs_reactor y)) \<le> cap \<and> rs_registered y \<le> cap
    \<and> (\<forall>k. key_places y k = of_bool (rs_accepted y k \<noteq> None))
    \<and> (\<forall>k t c. (k, t, c) \<in> set (rs_selected y) \<longrightarrow> rs_accepted y k = Some t)
    \<and> (rs_driver y = DriveGone \<and> rs_closing y = [] \<longrightarrow>
         reactor_cleanup_complete True (rs_registered y) (rs_reactor y)
         \<and> (\<forall>k. count_list (map fst (rs_selected y)) k + count_list (rs_released y) k = of_bool (rs_accepted y k \<noteq> None)))"
proof -
  note d = readiness_okD[OF readiness_reach_ok[OF assms]]
  have "reactor_cleanup_complete True (rs_registered y) (rs_reactor y)
      \<and> (\<forall>k. count_list (map fst (rs_selected y)) k + count_list (rs_released y) k = of_bool (rs_accepted y k \<noteq> None))"
    if "rs_driver y = DriveGone" "rs_closing y = []"
  proof -
    have "rx_entries (rs_reactor y) = []" "rs_registered y = 0" using d(7-9) that(1) by simp_all
    then show ?thesis using d(1) that by (simp add: reactor_cleanup_complete_def key_places_def)
  qed
  with d show ?thesis by blast
qed

theorem readiness_exact_witness:
  "\<exists>y. readiness_reach 1 y \<and> rs_driver y = DriveGone \<and> rs_selected y = [(1, ParkToken 4 2, ClosedReactor)]
     \<and> reactor_cleanup_complete True (rs_registered y) (rs_reactor y)"
proof -
  let ?t = "ParkToken 4 2"
  let ?s = "\<lparr>rx_entries = [(1, ?t)], rx_next = 2, rx_stopped = False, rx_error = None\<rparr>"
  let ?c = "\<lparr>rx_entries = [], rx_next = 2, rx_stopped = True, rx_error = None\<rparr>"
  let ?y = "\<lambda>s d closing sel. \<lparr>rs_reactor = s, rs_registered = 0, rs_installed = [], rs_driver = d, rs_closing = closing,
    rs_selected = sel, rs_released = [], rs_accepted = [1 \<mapsto> ?t]\<rparr>"
  have reg: "reactor_register 1 ?t reactor_new = (Inr 1, ?s)" by (simp add: reactor_register_def reactor_new_def checked_add_def)
  have r1: "readiness_reach 1 (?y ?s DriveTop [] [])"
    using readiness_reach.register[OF readiness_reach.start, of 1 ?t 1 ?s] reg by (simp add: readiness_start_def)
  have r2: "readiness_reach 1 (?y ?c DriveTop [(1, ?t)] [])"
    using readiness_reach.close[OF r1, of None "[(1, ?t)]" None ?c] by (simp add: reactor_close_def)
  have r3: "readiness_reach 1 (?y ?c DriveTop [] [(1, ?t, ClosedReactor)])"
    using readiness_reach.closed[OF r2, of "[]" 1 ?t "[]"] by simp
  have r4: "readiness_reach 1 (?y ?c DriveLeaving [] [(1, ?t, ClosedReactor)])"
    using readiness_reach.stop[OF r3] by simp
  have r5: "readiness_reach 1 (?y ?c DriveGone [] [(1, ?t, ClosedReactor)])"
    using readiness_reach.leave[OF r4] by simp
  from readiness_exact[OF r5] have "reactor_cleanup_complete True (rs_registered (?y ?c DriveGone [] [(1, ?t, ClosedReactor)])) (rs_reactor (?y ?c DriveGone [] [(1, ?t, ClosedReactor)]))"
    by simp
  then show ?thesis using r5 by (intro exI[of _ "?y ?c DriveGone [] [(1, ?t, ClosedReactor)]"]) simp
qed


end
