(* ===== verification/Spec2Isabelle.thy ===== *)
theory Spec2Isabelle
  imports Prelude Task_Slab Ready_Queue Timer_Queue Wait_Word Wait_Cell Wait_Protocol Wake_Queue
    Wait_Hub Id_Set Signature Cancel_Graph Channel Resident_Wait Exclusive_Cell Mutex_Queue Gate
    Cancel_Rewrite Cancel_Normalize Cancel_Ancestry Cancel_History
    Placement Task_Record Task_Progress Config Inbox Scope_Progress Control_State Control_Ledger Control
    Completion Join Signal Kernel_Run Cancel_Policy Cancel_Wait Blocking_Pool Readiness
begin

text \<open>
  Verification of the vthread runtime (src/crates/vthread, src/crates/vthread-sync-core).

  \<^bold>\<open>The program.\<close> vthread runs virtual threads on a fixed set of carrier threads. A scope admits
  tasks (control_admission.rs), which are placed on a carrier (control_placement.rs) and handed
  over through its inbox (inbox.rs). The carrier keeps its tasks in a slab (task_slab.rs), runs
  them from a two-lane ready queue (ready_queue.rs), parks them (parked_tasks.rs, timer.rs) and
  resumes them when a wake notice arrives in its wake hub (wait_hub.rs, wake_queue_core.rs). A
  blocking call parks on a wait cell, one atomic word (wait_state.rs) on which notifiers,
  cancellation and deadlines compete (wait_select.rs, wait_resource.rs) and which the parked
  owner begins and completes (wait_begin.rs, wait_finish.rs). Channels, mutexes and gates are
  bounded lines of such waits. Cancellation tokens form a graph that is compressed as tokens die
  (cancellation_graph.rs and its companions). Completed tasks are retired in batches, which is
  how a scope learns that it has drained (control_completion.rs, control_scope_progress.rs). One
  carrier's scheduler (kernel.rs and its companions) ties these together: it receives starts,
  mounts ready tasks, parks and wakes them, discards the tasks of an aborted scope and sleeps on
  its signal (signal.rs) when there is nothing to do.

  \<^bold>\<open>How it is modelled.\<close> A struct is a record, an enum a datatype, a machine integer a word of its
  width where its overflow can be reached and a natural number where it counts elements in
  memory. A panic is the left value of \<open>result_p\<close>, an \<open>Err\<close> the left value of \<open>result\<close> with the
  source's error variants. A lock-free loop is the decision it takes on an observed word, a
  \<open>body\<close>; Prelude shows that a loop around a body commits that decision on some current word
  (\<open>cas_loop_linearizes\<close>), so an interleaving of whole operations is an interleaving of committed
  bodies. Code under a lock is one step. Concurrent components end in an inductive step relation
  over sets or maps of participants, with no bound on their number, and their theorems hold of
  every reachable state. Hash sets are duplicate-free lists whose order is never relied upon.
  Relaxed memory is not modelled: every access is a step on the shared state, except where two
  loads of a reader are separated explicitly (\<open>Task_Progress\<close>).

  \<^bold>\<open>Theories.\<close>
  \<^item> Prelude: words, panics and errors (error.rs), park tokens, maps, the compare-exchange loop,
    the interfaces \<open>partial_store\<close>, \<open>fresh_store\<close> and \<open>keyed_store\<close>, counting lemmas.
  \<^item> Task_Slab (task_slab.rs, parked_tasks.rs): both stores are interpretations of the interfaces.
  \<^item> Ready_Queue (ready_queue.rs, ready_queue_inspection.rs): the cohort policy, its dispatch
    bound, and the cold inspection.
  \<^item> Timer_Queue (timer.rs).
  \<^item> Wait_Word (wait_state.rs): the packed word, bit by bit, against a record view.
  \<^item> Wait_Cell (wait.rs, wait_target.rs, wait_begin.rs, wait_select.rs, wait_resource.rs,
    wait_finish.rs, wait_owner_protocol.rs, context_wake.rs): bodies and whole operations.
  \<^item> Wait_Protocol: one cell under every interleaving of its owner, its selectors and the
    publishers of a claim: single winner, exact completion, no panic, no lost wake.
  \<^item> Wake_Queue (wake_queue_core.rs) with the interface \<open>wake_fifo\<close>, Wait_Hub (wait_hub.rs).
  \<^item> Id_Set, Signature, Cancel_Graph (cancellation_*.rs): sets, Patricia tries and the graph.
    Cancel_Rewrite shows what each rewrite does to a view of the graph, Cancel_Normalize that
    normalization ends and what it preserves, Cancel_Ancestry states the uncompressed
    specification, Cancel_History proves that every history of calls refines it. The loops of
    the graph take fuel; \<open>(n + 1)\<close> squared iterations are enough for \<open>n\<close> nodes, since every
    step removes a relay, retires pending work or makes a signature exact.
  \<^item> Resident_Wait (parking.rs, parking_wait.rs, sync/wait.rs): a task's own wait cell during one
    blocking call; Exclusive_Cell (exclusive.rs, spin_mutex.rs) with the interface
    \<open>handoff_lock\<close>; Mutex_Queue (sync/mutex.rs, sync/mutex_queue.rs); Gate (sync/gate.rs,
    sync/semaphore.rs, sync/notify.rs, sync/condvar.rs); Channel (channel.rs, channel/).
  \<^item> Config (config.rs, stall_policy.rs), Task_Record (task.rs, task_progress_state.rs),
    Task_Progress (task_progress.rs), Inbox (inbox.rs), Placement (control_placement.rs),
    Scope_Progress (control_scope_progress.rs, control_completion.rs).
  \<^item> Control_State (control.rs, control_scope.rs, control_admission.rs, control_completion.rs,
    control_transition.rs, control_carriers.rs, options.rs): the transactions of the shared
    control. Control_Ledger is an abstract set of books with its transactions and invariant;
    Control shows that every transaction of the code is one of the books', so the counters of
    the code are the cardinalities of the books' sets and no subtraction underflows.
  \<^item> Completion (completion.rs) and Signal (signal.rs): one task's completion and one carrier's
    signal under every interleaving of their callers; Join (join.rs, local_join.rs,
    join_wait.rs): the single hand-out of a task's outcome.
  \<^item> Kernel_State (kernel.rs, kernel_tasks.rs, kernel_complete.rs, kernel_wake.rs,
    kernel_timer.rs, kernel_abort.rs, kernel_cleanup.rs, kernel_revoked.rs, kernel_receive.rs,
    kernel_drive.rs, local_carrier.rs): the scheduler of one carrier over the stores, queues and
    inbox above. What the wait cells, the stacks, the clock and user code answer is an argument
    of the operations, so the theorems hold whatever they answer; what the kernel tells the shared
    control is the log \<open>kn_calls\<close>. Kernel_Store gives the stores' map views, Kernel_Invariant the
    invariant \<open>kernel_inv\<close> (each task in one place, every park route live, each task owed or
    reported once) and a rule per operation, Kernel the rules of aborts, receptions and ticks,
    Kernel_Run the histories of a carrier and their theorems. The fuel of the loops is the length
    of the list they consume: one turn per queued start, ready task, deferred wake or retained
    abort, which the rules show to be enough.
  \<^item> Cancel_Policy (cancellation.rs, task_context.rs): the domain of tokens, whose dead members are
    removed from the graph in batches, and a task's checkpoints, which ask the token only when the
    domain's epoch has moved. Cancel_Wait (cancellation_subscription.rs): the race of a parked
    task's subscription with the cancellation of its token.
  \<^item> Blocking_Pool (blocking.rs, blocking/): native calls, their leases and the workers, under
    every interleaving and with failing workers. Readiness (readiness.rs, readiness/driver.rs):
    the table of readiness waits and the driver's loop; the poll object is another package, so
    what it reports is arbitrary.

  \<^bold>\<open>What is not modelled.\<close>
  \<^item> Execution itself: stacks, context switches and their assembly (vthread-stack apart from the
    park token), task bodies and thread-locals. A parked task is a state, not a stack.
  \<^item> The poll object of the readiness driver and the network and file calls over it, which are
    calls to the operating system.
  \<^item> Evidence streams, probes, profiles and report texts: they observe the program, and are
    compiled out by default.
  \<^item> vthread-lab, benchmarks, examples and tests.
\<close>

end
